(* ===== verification/Prelude.thy ===== *)
theory Prelude
  imports Main "HOL-Library.Word"
begin

text \<open>
  What every component shares: the names of the C integer types, the byte-order spec functions
  (\<^verbatim>\<open>be_val\<close>, \<^verbatim>\<open>be_enc\<close>) that the code's shift-and-or loops are compared with, raw memory
  operations on byte lists, and the generic lemmas and collections the component proofs use.
  \<^item> \<^verbatim>\<open>uint8_t\<close>, \<^verbatim>\<open>uint16_t\<close>, \<^verbatim>\<open>uint32_t\<close> (also \<^verbatim>\<open>unsigned\<close>) and \<^verbatim>\<open>uint64_t\<close> (also \<^verbatim>\<open>size_t\<close> on the 64-bit
    targets the pods are built for) are words of that width, so that C's wrap-around is the
    word's.
  \<^item> A C function that returns 1 or 0 and writes through out-parameters is a function into an
    \<^verbatim>\<open>option\<close>: \<^verbatim>\<open>Some\<close> of the values written, \<^verbatim>\<open>None\<close> for a return of 0. Where the function also
    advances an object on failure, the object after the call is returned in both cases.
\<close>

unbundle bit_operations_syntax

type_synonym u8 = "8 word"
type_synonym u16 = "16 word"
type_synonym u32 = "32 word"
type_synonym u64 = "64 word"
type_synonym bytes = "u8 list"

definition INT_MAX :: nat where
  "INT_MAX = 2 ^ 31 - 1"

named_theorems word_arith "facts that read word operations as arithmetic on nat"

section \<open>Words\<close>

lemma unat_u8_lt [simp]: "unat (b :: u8) < 256"
  using unsigned_less [of b] by simp

lemma unat_u8_le [simp]: "unat (b :: u8) \<le> 255"
  using unat_u8_lt [of b] by linarith

lemma or_eq_add: "a AND b = 0 \<Longrightarrow> a OR b = a + b" for a b :: "'a::len word"
  by (simp add: disjunctive_add_eq_or)

lemma unat_push_bit_lt:
  "unat a * 2 ^ n < 2 ^ LENGTH('a) \<Longrightarrow> unat (push_bit n a) = unat a * 2 ^ n"
  for a :: "'a::len word"
  by (subst unsigned_push_bit_eq) (simp add: push_bit_eq_mult [of n "unat a"] take_bit_nat_eq_self)

lemma unat_drop_bit [word_arith]: "unat (drop_bit n a) = unat a div 2 ^ n" for a :: "'a::len word"
  by (simp only: unat_drop_bit_eq) (simp add: drop_bit_eq_div)

lemma unat_ucast_up:
  "LENGTH('a) \<le> LENGTH('b) \<Longrightarrow> unat (ucast (a :: 'a::len word) :: 'b::len word) = unat a"
  by (simp add: unsigned_ucast_eq take_bit_nat_eq_self_iff)
     (meson le_trans less_le_trans one_le_numeral power_increasing unsigned_less)

lemma unat_ucast_down [word_arith]:
  "unat (ucast (a :: 'a::len word) :: 'b::len word) = unat a mod 2 ^ LENGTH('b)"
  by (simp add: unsigned_ucast_eq take_bit_eq_mod)

lemma word_of_unat: "of_nat (unat w) = w" for w :: "'a::len word"
  by simp

lemma eq_of_natI: "unat w = k \<Longrightarrow> w = of_nat k" for w :: "'a::len word"
  using word_of_unat [of w] by simp

lemma unat_of_nat_lt: "k < 2 ^ LENGTH('a) \<Longrightarrow> unat (of_nat k :: 'a::len word) = k"
  by (simp add: unat_of_nat)

text \<open>Counting up to a bound does not wrap.\<close>

lemma unat_Suc_less: "i < n \<Longrightarrow> unat (i + 1) = Suc (unat i)" for i n :: "'a::len word"
proof -
  assume "i < n"
  then have "unat i < unat n" by (simp add: word_less_nat_alt)
  moreover have "unat n < 2 ^ LENGTH('a)" by (rule unsigned_less)
  ultimately have "unat i + 1 < 2 ^ LENGTH('a)" by linarith
  then show ?thesis by (simp add: unat_word_ariths)
qed

text \<open>Shifting in \<^verbatim>\<open>k\<close> low bits: the body of every big-endian read loop.\<close>

lemma unat_and_mask [word_arith]: "unat (a AND mask k) = unat a mod 2 ^ k" for a :: "'a::len word"
proof -
  have "unat (take_bit k a) = take_bit k (unat a)" by (rule unsigned_take_bit_eq)
  then show ?thesis by (simp add: take_bit_eq_mask [symmetric]) (simp add: take_bit_eq_mod)
qed

lemma bit_imp_unat_ge: "bit a n \<Longrightarrow> 2 ^ n \<le> unat a" for a :: "'a::len word"
proof -
  assume "bit a n"
  then have "bit (unat a) n" by (simp add: bit_unsigned_iff)
  then show ?thesis by (metis bit_iff_odd div_less even_zero not_less)
qed

lemma unat_shift_or:
  fixes r b :: "'a::len word"
  assumes "(unat r + 1) * 2 ^ k \<le> 2 ^ LENGTH('a)" and "unat b < 2 ^ k"
  shows "unat (push_bit k r OR b) = unat r * 2 ^ k + unat b"
proof -
  have low: "\<not> bit b n" if "k \<le> n" for n
    using bit_imp_unat_ge [of b n] that assms(2) power_increasing [of k n "2::nat"] by fastforce
  have "push_bit k r AND b = 0"
    by (rule bit_eqI) (auto simp: bit_simps low)
  then have "push_bit k r OR b = push_bit k r + b" by (rule or_eq_add)
  moreover have "unat (push_bit k r) = unat r * 2 ^ k"
    by (rule unat_push_bit_lt) (use assms(1) in \<open>simp add: less_le_trans [rotated]\<close>)
  moreover have "unat r * 2 ^ k + unat b < 2 ^ LENGTH('a)"
    using assms by (simp add: algebra_simps)
  ultimately show ?thesis by (simp add: unat_word_ariths)
qed

lemma unat_shift_or_u8:
  assumes "unat (r :: u64) < 2 ^ 56"
  shows "unat (push_bit 8 r OR ucast (b :: u8)) = unat r * 256 + unat b"
  using unat_shift_or [of r 8 "ucast b"] assms by (simp add: unat_ucast_up)

lemma u8_high_bit: "b AND 0x80 = 0 \<longleftrightarrow> unat b < 128" for b :: u8
proof -
  have "b AND 0x80 = 0 \<longleftrightarrow> \<not> bit b 7"
    using and_exp_eq_0_iff_not_bit [of b 7] by simp
  also have "\<dots> \<longleftrightarrow> unat b < 128"
  proof
    assume "\<not> bit b 7"
    then have "\<not> bit (unat b) 7" by (simp add: bit_unsigned_iff)
    then have "even (unat b div 128)" by (simp add: bit_iff_odd [of "unat b"])
    moreover have "unat b div 128 < 2" using unat_u8_lt [of b] by (simp del: unat_u8_lt)
    ultimately show "unat b < 128" by (auto simp: less_2_cases_iff div_eq_0_iff)
  next
    assume "unat b < 128"
    then show "\<not> bit b 7" using bit_imp_unat_ge [of b 7] by auto
  qed
  finally show ?thesis .
qed

lemma u8_low7: "unat (b AND 0x7f) = unat b mod 128" for b :: u8
  using unat_and_mask [of b 7] by (simp add: mask_eq_exp_minus_1)

section \<open>Big-endian values\<close>

definition be_val :: "bytes \<Rightarrow> nat" where
  "be_val bs = foldl (\<lambda>a b. a * 256 + unat b) 0 bs"

fun be_enc :: "nat \<Rightarrow> nat \<Rightarrow> bytes" where
  "be_enc 0 v = []"
| "be_enc (Suc n) v = be_enc n (v div 256) @ [of_nat v]"

lemma be_val_Nil [simp]: "be_val [] = 0"
  by (simp add: be_val_def)

lemma be_val_snoc [simp]: "be_val (bs @ [b]) = be_val bs * 256 + unat b"
  by (simp add: be_val_def)

lemma be_val_single [simp]: "be_val [b] = unat b"
  by (simp add: be_val_def)

lemma be_val_append: "be_val (as @ bs) = be_val as * 256 ^ length bs + be_val bs"
proof (induction bs rule: rev_induct)
  case (snoc b bs)
  have "be_val (as @ bs @ [b]) = be_val (as @ bs) * 256 + unat b"
    by (metis append_assoc be_val_snoc)
  with snoc.IH show ?case by (simp add: algebra_simps)
qed simp

lemma be_val_Cons: "be_val (b # bs) = unat b * 256 ^ length bs + be_val bs"
  using be_val_append [of "[b]" bs] by simp

lemma be_val_lt: "be_val bs < 256 ^ length bs"
proof (induction bs rule: rev_induct)
  case (snoc b bs)
  have "be_val bs * 256 + unat b < (be_val bs + 1) * 256" using unat_u8_lt [of b] by simp
  also have "\<dots> \<le> 256 ^ length bs * 256" using snoc by (intro mult_right_mono) auto
  finally show ?case by (simp add: mult.commute)
qed simp

lemma be_val_bound: "length bs \<le> n \<Longrightarrow> be_val bs < 256 ^ n"
  by (rule less_le_trans [OF be_val_lt]) (simp add: power_increasing)

lemma length_be_enc [simp]: "length (be_enc n v) = n"
  by (induction n arbitrary: v) auto

lemma unat_of_nat_u8: "unat (of_nat v :: u8) = v mod 256"
  by (simp add: unat_of_nat)

lemma be_val_be_enc: "be_val (be_enc n v) = v mod 256 ^ n"
proof (induction n arbitrary: v)
  case (Suc n)
  have "v mod (256 * 256 ^ n) = (v div 256 mod 256 ^ n) * 256 + v mod 256"
    by (simp add: mod_mult2_eq)
  with Suc show ?case by (simp add: unat_of_nat_u8)
qed simp

lemma be_val_be_enc_id [simp]: "v < 256 ^ n \<Longrightarrow> be_val (be_enc n v) = v"
  by (simp add: be_val_be_enc)

lemma be_enc_be_val: "be_enc (length bs) (be_val bs) = bs"
proof (induction bs rule: rev_induct)
  case (snoc b bs)
  have "(be_val bs * 256 + unat b) div 256 = be_val bs" by simp
  moreover have "(of_nat (be_val bs * 256 + unat b) :: u8) = b"
    by (simp only: word_unat_eq_iff unat_of_nat_u8) simp
  ultimately show ?case using snoc by simp
qed simp

lemma be_val_inj: "length as = length bs \<Longrightarrow> be_val as = be_val bs \<Longrightarrow> as = bs"
  by (metis be_enc_be_val)

lemma be_enc_mod: "be_enc n (v mod 256 ^ n) = be_enc n v"
  by (rule be_val_inj) (simp_all add: be_val_be_enc)

lemma be_enc_add: "be_enc (m + n) v = be_enc m (v div 256 ^ n) @ be_enc n v"
proof (rule be_val_inj)
  have "v mod 256 ^ (n + m) = v div 256 ^ n mod 256 ^ m * 256 ^ n + v mod 256 ^ n"
    unfolding power_add mod_mult2_eq by simp
  then show "be_val (be_enc (m + n) v) = be_val (be_enc m (v div 256 ^ n) @ be_enc n v)"
    by (simp add: be_val_be_enc be_val_append add.commute [of m])
qed simp

lemma be_enc_of_val: "length iv = n \<Longrightarrow> be_enc n (be_val iv) = iv"
  using be_enc_be_val by blast

lemma be_enc_map: "be_enc n v = map (\<lambda>i. of_nat (v div 256 ^ (n - 1 - i))) [0..<n]"
proof (induction n arbitrary: v)
  case (Suc n)
  have "v div 256 div 256 ^ (n - 1 - i) = v div 256 ^ (n - i)" if "i < n" for i
  proof -
    have "n - i = Suc (n - 1 - i)" using that by simp
    then show ?thesis by (simp only: power_Suc div_mult2_eq)
  qed
  then show ?case using Suc.IH by (auto intro!: map_cong)
qed simp

section \<open>Raw memory as byte lists\<close>

text \<open>\<^verbatim>\<open>memmove\<close>: copy \<^verbatim>\<open>n\<close> bytes from offset \<^verbatim>\<open>s\<close> to offset \<^verbatim>\<open>d\<close> of the same buffer.\<close>

definition mem_move :: "'a list \<Rightarrow> nat \<Rightarrow> nat \<Rightarrow> nat \<Rightarrow> 'a list" where
  "mem_move xs d s n = take d xs @ take n (drop s xs) @ drop (d + n) xs"

lemma length_mem_move [simp]:
  "d + n \<le> length xs \<Longrightarrow> s + n \<le> length xs \<Longrightarrow> length (mem_move xs d s n) = length xs"
  by (simp add: mem_move_def)

section \<open>Lists and options\<close>

lemma length_le_unat [simp]: "length (take (unat n) xs) \<le> unat n"
  by simp

lemma foldl_prefix_invariant:
  assumes "P a" and "\<And>a x. P a \<Longrightarrow> P (f a x)"
  shows "P (foldl f a xs)"
  using assms(1) by (induction xs arbitrary: a) (auto intro: assms(2))

lemma parse_case_iff:
  "(case p of (None, c') \<Rightarrow> (None, c') | (Some d, c') \<Rightarrow> (f d, c')) = (Some v, rest) \<longleftrightarrow>
    (\<exists>d. p = (Some d, rest) \<and> f d = Some v)"
  by (auto split: prod.splits option.splits)

lemma if_None_eq_Some: "(if a then None else x) = Some v \<longleftrightarrow> \<not> a \<and> x = Some v"
  by simp

end
