(* ===== verification/Mem.thy ===== *)
theory Mem
  imports Prelude
begin

text \<open>
  \<^verbatim>\<open>crypto/mem.c\<close>: the allocator wrapper, constant-time comparison, the FNV-1a hash and the bounded
  string helpers, with the byte swaps of \<^verbatim>\<open>crypto/internal.h\<close>.
  libc's \<^verbatim>\<open>malloc\<close> is a parameter: \<^verbatim>\<open>malloc n\<close> is \<^verbatim>\<open>None\<close> for NULL and otherwise the (arbitrary) contents
  of the block it returns. Reading past the end of an object is \<^verbatim>\<open>None\<close> here, so that a \<^verbatim>\<open>Some\<close> result
  says that the code stayed inside it.
\<close>

type_synonym libc_malloc = "u64 \<Rightarrow> bytes option"

text \<open>
  What \<^verbatim>\<open>malloc\<close> documents: a block of the size asked for, and no object larger than
  \<^verbatim>\<open>PTRDIFF_MAX\<close>.
\<close>

definition malloc_contract :: "libc_malloc \<Rightarrow> bool" where
  "malloc_contract malloc \<longleftrightarrow> (\<forall>n m. malloc n = Some m \<longrightarrow> length m = unat n \<and> unat n < 2 ^ 63)"

definition OPENSSL_MALLOC_PREFIX :: u64 where
  "OPENSSL_MALLOC_PREFIX = 8"

definition OPENSSL_malloc :: "libc_malloc \<Rightarrow> u64 \<Rightarrow> bytes option" where
  "OPENSSL_malloc malloc n =
     (case malloc (n + OPENSSL_MALLOC_PREFIX) of
        None \<Rightarrow> None
      | Some ptr \<Rightarrow> Some (drop (unat OPENSSL_MALLOC_PREFIX) ptr))"

text \<open>\<^verbatim>\<open>orig\<close> is \<^verbatim>\<open>None\<close> for NULL, else the old block, whose length is the recorded size.\<close>

definition OPENSSL_realloc :: "libc_malloc \<Rightarrow> bytes option \<Rightarrow> u64 \<Rightarrow> bytes option" where
  "OPENSSL_realloc malloc orig new_size =
     (case orig of
        None \<Rightarrow> OPENSSL_malloc malloc new_size
      | Some old \<Rightarrow>
          (case OPENSSL_malloc malloc new_size of
             None \<Rightarrow> None
           | Some ret \<Rightarrow>
               let to_copy = (if length old < unat new_size then length old else unat new_size)
               in Some (take to_copy old @ drop to_copy ret)))"

definition CRYPTO_memcmp :: "bytes \<Rightarrow> bytes \<Rightarrow> nat \<Rightarrow> u8" where
  "CRYPTO_memcmp a b len = foldl (\<lambda>x i. x OR (a ! i XOR b ! i)) 0 [0..<len]"

definition OPENSSL_hash32 :: "bytes \<Rightarrow> u32" where
  "OPENSSL_hash32 bs = foldl (\<lambda>h b. (h XOR ucast b) * 16777619) 2166136261 bs"

fun OPENSSL_strnlen :: "bytes \<Rightarrow> nat \<Rightarrow> nat option" where
  "OPENSSL_strnlen s 0 = Some 0"
| "OPENSSL_strnlen [] (Suc n) = None"
| "OPENSSL_strnlen (c # s) (Suc n) = (if c = 0 then Some 0 else map_option Suc (OPENSSL_strnlen s n))"

text \<open>libc's \<^verbatim>\<open>strlen\<close>: \<^verbatim>\<open>None\<close> when the object holds no NUL.\<close>

fun strlen :: "bytes \<Rightarrow> nat option" where
  "strlen [] = None"
| "strlen (c # s) = (if c = 0 then Some 0 else map_option Suc (strlen s))"

definition OPENSSL_strdup :: "libc_malloc \<Rightarrow> bytes \<Rightarrow> bytes option" where
  "OPENSSL_strdup malloc s =
     (case strlen s of
        None \<Rightarrow> None
      | Some l \<Rightarrow>
          (case OPENSSL_malloc malloc (of_nat l + 1) of
             None \<Rightarrow> None
           | Some ret \<Rightarrow> Some (take (l + 1) s @ drop (l + 1) ret)))"

definition OPENSSL_tolower :: "int \<Rightarrow> int" where
  "OPENSSL_tolower c = (if c \<ge> 65 \<and> c \<le> 90 then c + (97 - 65) else c)"

text \<open>\<^verbatim>\<open>char\<close> is signed on these targets, so \<^verbatim>\<open>a[i]\<close> reaches \<^verbatim>\<open>OPENSSL_tolower\<close> sign-extended.\<close>

fun OPENSSL_strcasecmp :: "bytes \<Rightarrow> bytes \<Rightarrow> int option" where
  "OPENSSL_strcasecmp (a # as) (b # bs) =
     (let aa = OPENSSL_tolower (sint a); bb = OPENSSL_tolower (sint b) in
      if aa < bb then Some (-1)
      else if aa > bb then Some 1
      else if aa = 0 then Some 0
      else OPENSSL_strcasecmp as bs)"
| "OPENSSL_strcasecmp as bs = None"

fun OPENSSL_strncasecmp :: "bytes \<Rightarrow> bytes \<Rightarrow> nat \<Rightarrow> int option" where
  "OPENSSL_strncasecmp as bs 0 = Some 0"
| "OPENSSL_strncasecmp (a # as) (b # bs) (Suc n) =
     (let aa = OPENSSL_tolower (sint a); bb = OPENSSL_tolower (sint b) in
      if aa < bb then Some (-1)
      else if aa > bb then Some 1
      else if aa = 0 then Some 0
      else OPENSSL_strncasecmp as bs n)"
| "OPENSSL_strncasecmp as bs (Suc n) = None"

definition OPENSSL_strndup :: "libc_malloc \<Rightarrow> bytes \<Rightarrow> u64 \<Rightarrow> bytes option" where
  "OPENSSL_strndup malloc str n =
     (case OPENSSL_strnlen str (unat n) of
        None \<Rightarrow> None
      | Some l \<Rightarrow>
          let size' = of_nat l; alloc_size = size' + 1 in
          if alloc_size < size' then None
          else (case OPENSSL_malloc malloc alloc_size of
                  None \<Rightarrow> None
                | Some ret \<Rightarrow> Some (take l str @ [0] @ drop (l + 1) ret)))"

text \<open>
  The copy loop of \<^verbatim>\<open>OPENSSL_strlcpy\<close>: the bytes copied, what is left of \<^verbatim>\<open>src\<close> and of \<^verbatim>\<open>dst_size\<close>.
\<close>

fun strlcpy_copy :: "bytes \<Rightarrow> u64 \<Rightarrow> (bytes \<times> bytes \<times> u64) option" where
  "strlcpy_copy [] dst_size = (if dst_size > 1 then None else Some ([], [], dst_size))"
| "strlcpy_copy (c # src) dst_size =
     (if dst_size > 1 \<and> c \<noteq> 0
      then map_option (\<lambda>(w, rest, n). (c # w, rest, n)) (strlcpy_copy src (dst_size - 1))
      else Some ([], c # src, dst_size))"

text \<open>The new contents of the buffer at \<^verbatim>\<open>dst\<close>, and the value returned.\<close>

definition OPENSSL_strlcpy :: "bytes \<Rightarrow> bytes \<Rightarrow> u64 \<Rightarrow> (bytes \<times> nat) option" where
  "OPENSSL_strlcpy dst src dst_size =
     (case strlcpy_copy src dst_size of
        None \<Rightarrow> None
      | Some (w, rest, n) \<Rightarrow>
          let out = (if n \<noteq> 0 then w @ [0] else w) in
          (case strlen rest of
             None \<Rightarrow> None
           | Some r \<Rightarrow> if length out \<le> length dst
                       then Some (out @ drop (length out) dst, length w + r) else None))"

fun strlcat_skip :: "bytes \<Rightarrow> u64 \<Rightarrow> (bytes \<times> bytes \<times> u64) option" where
  "strlcat_skip [] dst_size = (if dst_size > 0 then None else Some ([], [], dst_size))"
| "strlcat_skip (c # dst) dst_size =
     (if dst_size > 0 \<and> c \<noteq> 0
      then map_option (\<lambda>(w, rest, n). (c # w, rest, n)) (strlcat_skip dst (dst_size - 1))
      else Some ([], c # dst, dst_size))"

definition OPENSSL_strlcat :: "bytes \<Rightarrow> bytes \<Rightarrow> u64 \<Rightarrow> (bytes \<times> nat) option" where
  "OPENSSL_strlcat dst src dst_size =
     (case strlcat_skip dst dst_size of
        None \<Rightarrow> None
      | Some (w, rest, n) \<Rightarrow>
          map_option (\<lambda>(out, r). (w @ out, length w + r)) (OPENSSL_strlcpy rest src n))"

text \<open>\<^verbatim>\<open>OPENSSL_memdup\<close> returns NULL for an empty input as well as for a failed allocation.\<close>

definition OPENSSL_memdup :: "libc_malloc \<Rightarrow> bytes \<Rightarrow> bytes option" where
  "OPENSSL_memdup malloc d =
     (if length d = 0 then None
      else (case OPENSSL_malloc malloc (of_nat (length d)) of
              None \<Rightarrow> None
            | Some ret \<Rightarrow> Some (d @ drop (length d) ret)))"

text \<open>The byte swaps, in the portable form of \<^verbatim>\<open>internal.h\<close>.\<close>

definition CRYPTO_bswap2 :: "u16 \<Rightarrow> u16" where
  "CRYPTO_bswap2 x = drop_bit 8 x OR push_bit 8 x"

definition CRYPTO_bswap4 :: "u32 \<Rightarrow> u32" where
  "CRYPTO_bswap4 x =
     (let x = drop_bit 16 x OR push_bit 16 x
      in drop_bit 8 (x AND 0xff00ff00) OR push_bit 8 (x AND 0x00ff00ff))"

definition CRYPTO_bswap8 :: "u64 \<Rightarrow> u64" where
  "CRYPTO_bswap8 x =
     ucast (CRYPTO_bswap4 (ucast (drop_bit 32 x))) OR push_bit 32 (ucast (CRYPTO_bswap4 (ucast x)))"

section \<open>Comparison\<close>

lemma xor_eq_0_iff: "a XOR b = 0 \<longleftrightarrow> a = b" for a b :: "'a::len word"
  by (metis bit.xor_left_self word_bw_comms(3) xor.right_neutral xor_self_eq)

lemma foldl_or_zero:
  "foldl (\<lambda>x i. x OR f i) a xs = 0 \<longleftrightarrow> a = 0 \<and> (\<forall>i\<in>set xs. f i = (0 :: u8))"
  by (induction xs arbitrary: a) (auto simp: or_eq_0_iff)

lemma CRYPTO_memcmp_eq_0: "CRYPTO_memcmp a b n = 0 \<longleftrightarrow> (\<forall>i<n. a ! i = b ! i)"
  by (auto simp: CRYPTO_memcmp_def foldl_or_zero xor_eq_0_iff)

text \<open>The bound on the allocator wrapper: what it hands out is as large as what was asked for
  exactly when adding the prefix does not wrap.\<close>

lemma OPENSSL_malloc_length:
  assumes "malloc_contract malloc" and "OPENSSL_malloc malloc n = Some m"
  shows "length m = unat (n + 8) - 8"
  using assms by (auto simp: OPENSSL_malloc_def OPENSSL_MALLOC_PREFIX_def malloc_contract_def
      split: option.splits)

lemma OPENSSL_malloc_wraps:
  assumes "malloc_contract malloc" and "OPENSSL_malloc malloc n = Some m" and "2 ^ 64 - 8 \<le> unat n"
  shows "m = []"
proof -
  have "unat (n + 8) = (unat n + 8) mod 2 ^ 64" by (simp add: unat_word_ariths)
  also have "\<dots> = (unat n + 8 - 2 ^ 64) mod 2 ^ 64" using assms(3) by (intro le_mod_geq) simp
  finally have "unat (n + 8) \<le> unat n + 8 - 2 ^ 64" by (metis mod_less_eq_dividend)
  moreover have "unat n < 2 ^ 64" using unsigned_less [of n] by simp
  ultimately have "unat (n + 8) \<le> 8" by linarith
  then show ?thesis using OPENSSL_malloc_length [OF assms(1,2)] by simp
qed

section \<open>Strings\<close>

lemma strlen_Some: "strlen s = Some l \<Longrightarrow> l < length s \<and> s ! l = 0 \<and> (\<forall>i<l. s ! i \<noteq> 0)"
proof (induction s arbitrary: l)
  case (Cons c s)
  then show ?case by (fastforce simp: less_Suc_eq_0_disj split: if_splits)
qed simp

lemma strnlen_strlen:
  "strlen s = Some l \<Longrightarrow> OPENSSL_strnlen s n = Some (min l n)"
  by (induction s n arbitrary: l rule: OPENSSL_strnlen.induct)
     (auto simp: min_Suc_Suc split: if_splits)

lemma strlcpy_copy_spec:
  assumes "strlen src = Some l"
  shows "strlcpy_copy src n =
    Some (take (min l (unat n - 1)) src, drop (min l (unat n - 1)) src,
          if unat n \<le> 1 then n else n - of_nat (min l (unat n - 1)))"
  using assms
proof (induction src arbitrary: l n)
  case (Cons c src)
  have n1: "n > 1 \<longleftrightarrow> unat n > 1" for n :: u64 by (simp add: word_less_nat_alt)
  have dec: "unat (n - 1) = unat n - 1" if "n > 1" for n :: u64
    using that by (intro unat_minus_one) auto
  show ?case
  proof (cases "n > 1 \<and> c \<noteq> 0")
    case True
    with Cons.prems obtain k where k: "strlen src = Some k" "l = Suc k" by (auto split: if_splits)
    obtain u where u: "unat n = Suc (Suc u)" using True n1 [of n] by (cases "unat n"; cases "unat n - 1") auto
    then have u': "unat (n - 1) = Suc u" using True dec by simp
    have "n - 1 - of_nat (min k u) = n - of_nat (Suc (min k u))" by (simp add: algebra_simps)
    moreover have "n - 1 \<le> 1 \<longleftrightarrow> u = 0" using u' by (simp add: word_le_nat_alt)
    ultimately show ?thesis
      using True Cons.IH [OF k(1), of "n - 1"] by (auto simp: u u' k min_Suc_Suc)
  next
    case False
    then show ?thesis using Cons.prems n1 [of n] by (auto split: if_splits)
  qed
qed simp

section \<open>An allocator for examples\<close>

text \<open>Blocks of up to 4 KB.\<close>

definition example_malloc :: libc_malloc where
  "example_malloc n = (if n < 0x1000 then Some (replicate (unat n) 0) else None)"

lemma example_malloc_contract: "malloc_contract example_malloc"
  by (simp add: malloc_contract_def example_malloc_def word_less_nat_alt)

end
