(* ===== verification/ConstTime.thy ===== *)
theory ConstTime
  imports Mem
begin

text \<open>
  The constant-time helpers of \<^verbatim>\<open>crypto/internal.h\<close>, on the 64-bit \<^verbatim>\<open>crypto_word_t\<close>. Masks are all ones
  for true and zero for false. A value barrier returns its argument.
\<close>

unbundle bit_operations_syntax

section \<open>The operations\<close>

definition buffers_alias :: "u64 \<Rightarrow> u64 \<Rightarrow> u64 \<Rightarrow> u64 \<Rightarrow> bool" where
  "buffers_alias a_u a_len b_u b_len \<longleftrightarrow> a_u + a_len > b_u \<and> b_u + b_len > a_u"

definition CONSTTIME_TRUE_W :: u64 where
  "CONSTTIME_TRUE_W = NOT 0"

definition CONSTTIME_FALSE_W :: u64 where
  "CONSTTIME_FALSE_W = 0"

definition CONSTTIME_TRUE_8 :: u8 where
  "CONSTTIME_TRUE_8 = 0xff"

definition CONSTTIME_FALSE_8 :: u8 where
  "CONSTTIME_FALSE_8 = 0"

definition value_barrier_w :: "u64 \<Rightarrow> u64" where
  "value_barrier_w a = a"

definition constant_time_msb_w :: "u64 \<Rightarrow> u64" where
  "constant_time_msb_w a = 0 - drop_bit 63 a"

definition constant_time_lt_w :: "u64 \<Rightarrow> u64 \<Rightarrow> u64" where
  "constant_time_lt_w a b = constant_time_msb_w (a XOR ((a XOR b) OR ((a - b) XOR a)))"

definition constant_time_lt_8 :: "u64 \<Rightarrow> u64 \<Rightarrow> u8" where
  "constant_time_lt_8 a b = ucast (constant_time_lt_w a b)"

definition constant_time_ge_w :: "u64 \<Rightarrow> u64 \<Rightarrow> u64" where
  "constant_time_ge_w a b = NOT (constant_time_lt_w a b)"

definition constant_time_ge_8 :: "u64 \<Rightarrow> u64 \<Rightarrow> u8" where
  "constant_time_ge_8 a b = ucast (constant_time_ge_w a b)"

definition constant_time_is_zero_w :: "u64 \<Rightarrow> u64" where
  "constant_time_is_zero_w a = constant_time_msb_w (NOT a AND (a - 1))"

definition constant_time_is_zero_8 :: "u64 \<Rightarrow> u8" where
  "constant_time_is_zero_8 a = ucast (constant_time_is_zero_w a)"

definition constant_time_eq_w :: "u64 \<Rightarrow> u64 \<Rightarrow> u64" where
  "constant_time_eq_w a b = constant_time_is_zero_w (a XOR b)"

definition constant_time_eq_8 :: "u64 \<Rightarrow> u64 \<Rightarrow> u8" where
  "constant_time_eq_8 a b = ucast (constant_time_eq_w a b)"

text \<open>An \<^verbatim>\<open>int\<close> converts to \<^verbatim>\<open>crypto_word_t\<close> by sign extension.\<close>

definition constant_time_eq_int :: "32 word \<Rightarrow> 32 word \<Rightarrow> u64" where
  "constant_time_eq_int a b = constant_time_eq_w (scast a) (scast b)"

definition constant_time_eq_int_8 :: "32 word \<Rightarrow> 32 word \<Rightarrow> u8" where
  "constant_time_eq_int_8 a b = constant_time_eq_8 (scast a) (scast b)"

definition constant_time_select_w :: "u64 \<Rightarrow> u64 \<Rightarrow> u64 \<Rightarrow> u64" where
  "constant_time_select_w m a b = (value_barrier_w m AND a) OR (value_barrier_w (NOT m) AND b)"

definition constant_time_select_8 :: "u8 \<Rightarrow> u8 \<Rightarrow> u8 \<Rightarrow> u8" where
  "constant_time_select_8 m a b = ucast (constant_time_select_w (ucast m) (ucast a) (ucast b))"

definition constant_time_select_int :: "u64 \<Rightarrow> 32 word \<Rightarrow> 32 word \<Rightarrow> 32 word" where
  "constant_time_select_int m a b = ucast (constant_time_select_w m (scast a) (scast b))"

section \<open>What they compute\<close>

lemma bit63: "bit w 63 \<longleftrightarrow> 2 ^ 63 \<le> unat w" for w :: u64
proof -
  have "unat w < 2 ^ 64" using unsigned_less [of w, where 'a = nat] by simp
  then have "unat w div 2 ^ 63 < 2" by (intro less_mult_imp_div_less) simp
  moreover have "bit w 63 \<longleftrightarrow> odd (unat w div 2 ^ 63)" using bit_unsigned_iff [of w 63, where 'a = nat] by (simp add: bit_iff_odd)
  moreover have "unat w div 2 ^ 63 = 0 \<longleftrightarrow> unat w < 2 ^ 63" by (simp add: div_eq_0_iff)
  ultimately show ?thesis by (cases "unat w div 2 ^ 63 = 0") (auto simp: less_2_cases_iff)
qed

lemma msb_mask: "constant_time_msb_w w = (if bit w 63 then - 1 else 0)"
proof -
  have "drop_bit 63 w = (if bit w 63 then 1 else 0)"
  proof (rule bit_word_eqI)
    fix n assume "n < LENGTH(64)"
    have "\<not> bit w (63 + n)" if "n > 0" using bit_imp_le_length [of w "63 + n"] that by auto
    then show "bit (drop_bit 63 w) n \<longleftrightarrow> bit (if bit w 63 then 1 else 0 :: u64) n"
      by (cases n) (auto simp: bit_drop_bit_eq bit_1_iff)
  qed
  then show ?thesis by (simp add: constant_time_msb_w_def)
qed

lemma lt_w: "constant_time_lt_w a b = (if a < b then - 1 else 0)"
proof -
  have d: "unat (a - b) = (if unat b \<le> unat a then unat a - unat b else unat a + 2 ^ 64 - unat b)"
    using unat_sub_if' [of a b] by simp
  have r: "unat a < 2 ^ 64" "unat b < 2 ^ 64" using unsigned_less [of a, where 'a = nat] unsigned_less [of b, where 'a = nat] by simp_all
  have x: "bit (a XOR ((a XOR b) OR ((a - b) XOR a))) 63 \<longleftrightarrow>
      (bit a 63 \<noteq> ((bit a 63 \<noteq> bit b 63) \<or> (bit (a - b) 63 \<noteq> bit a 63)))"
    by (simp add: bit_xor_iff bit_or_iff)
  have "bit (a XOR ((a XOR b) OR ((a - b) XOR a))) 63 \<longleftrightarrow> unat a < unat b"
    using r unfolding x unfolding bit63 d by auto
  then show ?thesis by (simp add: constant_time_lt_w_def msb_mask word_less_nat_alt)
qed

lemma is_zero_w: "constant_time_is_zero_w a = (if a = 0 then - 1 else 0)"
proof (cases "a = 0")
  case True
  then show ?thesis by (simp add: constant_time_is_zero_w_def msb_mask bit_not_iff bit_and_iff)
next
  case False
  have "unat (a - 1) = unat a - 1" by (rule unat_minus_one [OF False])
  then have "\<not> bit (NOT a AND (a - 1)) 63" using bit63 [of a] bit63 [of "a - 1"] by (auto simp: bit_and_iff bit_not_iff)
  then show ?thesis using False by (simp add: constant_time_is_zero_w_def msb_mask)
qed

lemma eq_w: "constant_time_eq_w a b = (if a = b then - 1 else 0)"
  by (simp add: constant_time_eq_w_def is_zero_w xor_eq_0_iff)

lemma ucast_mask: "(ucast (if P then - 1 else 0 :: u64) :: u8) = (if P then - 1 else 0)"
  by (rule bit_word_eqI) (auto simp: bit_ucast_iff bit_minus_1_iff)

lemma ucast_ucast_8 [simp]: "(ucast (ucast a :: u64) :: u8) = a" for a :: u8
  by (rule bit_word_eqI) (auto simp: bit_ucast_iff dest: bit_imp_le_length)

lemma select_w: "constant_time_select_w (if P then - 1 else 0) a b = (if P then a else b)"
  by (simp add: constant_time_select_w_def value_barrier_w_def)

lemma select_8: "constant_time_select_8 (if P then - 1 else 0) a b = (if P then a else b)"
proof -
  have "ucast (if P then - 1 else 0 :: u8) AND ucast a = (if P then ucast a else 0 :: u64)" for a :: u8
    by (rule bit_word_eqI) (auto simp: bit_and_iff bit_ucast_iff bit_minus_1_iff dest: bit_imp_le_length)
  moreover have "ucast (NOT (ucast (if P then - 1 else 0 :: u8) :: u64) AND ucast b) = (if P then 0 else b)" for b :: u8
    by (rule bit_word_eqI) (auto simp: bit_and_iff bit_ucast_iff bit_not_iff bit_minus_1_iff dest: bit_imp_le_length)
  ultimately show ?thesis
    unfolding constant_time_select_8_def constant_time_select_w_def value_barrier_w_def by (simp add: unsigned_or_eq)
qed

lemma ucast_scast [simp]: "(ucast (scast a :: u64) :: 32 word) = a" for a :: "32 word"
  by (rule bit_word_eqI) (auto simp: bit_ucast_iff bit_signed_iff)

lemma scast_eq_iff: "(scast a :: u64) = scast b \<longleftrightarrow> a = b" for a b :: "32 word"
  by (metis ucast_scast)

text \<open>
  C21: The constant-time helpers compute the comparisons they are named for: the masks are all ones
  exactly when the relation holds, on the full range of their arguments, and a selection by such a
  mask is a conditional.
\<close>

theorem constant_time_masks:
  "constant_time_lt_w a b = (if a < b then CONSTTIME_TRUE_W else CONSTTIME_FALSE_W) \<and>
   constant_time_ge_w a b = (if a \<ge> b then CONSTTIME_TRUE_W else CONSTTIME_FALSE_W) \<and>
   constant_time_is_zero_w a = (if a = 0 then CONSTTIME_TRUE_W else CONSTTIME_FALSE_W) \<and>
   constant_time_eq_w a b = (if a = b then CONSTTIME_TRUE_W else CONSTTIME_FALSE_W) \<and>
   constant_time_lt_8 a b = (if a < b then CONSTTIME_TRUE_8 else CONSTTIME_FALSE_8) \<and>
   constant_time_ge_8 a b = (if a \<ge> b then CONSTTIME_TRUE_8 else CONSTTIME_FALSE_8) \<and>
   constant_time_is_zero_8 a = (if a = 0 then CONSTTIME_TRUE_8 else CONSTTIME_FALSE_8) \<and>
   constant_time_eq_8 a b = (if a = b then CONSTTIME_TRUE_8 else CONSTTIME_FALSE_8) \<and>
   constant_time_eq_int i j = (if i = j then CONSTTIME_TRUE_W else CONSTTIME_FALSE_W) \<and>
   constant_time_eq_int_8 i j = (if i = j then CONSTTIME_TRUE_8 else CONSTTIME_FALSE_8) \<and>
   constant_time_select_w (if P then CONSTTIME_TRUE_W else CONSTTIME_FALSE_W) a b = (if P then a else b) \<and>
   constant_time_select_8 (if P then CONSTTIME_TRUE_8 else CONSTTIME_FALSE_8) x y = (if P then x else y) \<and>
   constant_time_select_int (if P then CONSTTIME_TRUE_W else CONSTTIME_FALSE_W) i j = (if P then i else j)"
proof -
  have ge: "constant_time_ge_w a b = (if a \<ge> b then - 1 else 0)" by (auto simp: constant_time_ge_w_def lt_w not_le)
  have m8: "CONSTTIME_TRUE_8 = - 1" by (simp add: CONSTTIME_TRUE_8_def)
  have s8: "constant_time_select_8 (if P then CONSTTIME_TRUE_8 else CONSTTIME_FALSE_8) x y = (if P then x else y)"
    unfolding m8 CONSTTIME_FALSE_8_def by (rule select_8)
  have sw: "constant_time_select_w (if P then CONSTTIME_TRUE_W else CONSTTIME_FALSE_W) u v = (if P then u else v)" for u v
    using select_w [of True u v] select_w [of False u v] by (simp add: CONSTTIME_TRUE_W_def CONSTTIME_FALSE_W_def)
  show ?thesis
    unfolding s8 constant_time_select_int_def sw unfolding m8
    by (simp add: ge constant_time_lt_8_def constant_time_ge_8_def constant_time_is_zero_8_def constant_time_eq_8_def
        constant_time_eq_int_def constant_time_eq_int_8_def lt_w is_zero_w eq_w ucast_mask scast_eq_iff
        CONSTTIME_TRUE_W_def CONSTTIME_FALSE_W_def CONSTTIME_FALSE_8_def)
qed

end
