(* ===== verification/Words.thy ===== *)
theory Words imports ConstTime begin

text \<open>
  \<^verbatim>\<open>load_word_le\<close> and \<^verbatim>\<open>store_word_le\<close> of \<^verbatim>\<open>crypto/fipsmodule/modes/internal.h\<close>, which the modes of
  operation use to combine blocks eight bytes at a time, and the fact that this is the byte-wise
  exclusive or.
\<close>

unbundle bit_operations_syntax

definition load_word_le :: "bytes \<Rightarrow> u64" where
  "load_word_le bs = foldr (\<lambda>b v. push_bit 8 v OR ucast b) (take 8 bs) 0"

definition store_word_le :: "u64 \<Rightarrow> bytes" where
  "store_word_le v = map (\<lambda>i. ucast (drop_bit (8 * i) v)) [0..<8]"

definition xor_bytes :: "bytes \<Rightarrow> bytes \<Rightarrow> bytes" where
  "xor_bytes as bs = map2 (XOR) as bs"

lemma length_store_word_le [simp]: "length (store_word_le v) = 8"
  by (simp add: store_word_le_def)

lemma bit_foldr_bytes:
  "bit (foldr (\<lambda>b v. push_bit 8 v OR ucast (b :: u8)) bs 0 :: 'a::len word) k \<longleftrightarrow>
    k < LENGTH('a) \<and> k div 8 < length bs \<and> bit (bs ! (k div 8)) (k mod 8)"
proof (induction bs arbitrary: k)
  case (Cons b bs)
  show ?case
  proof (cases "k < 8")
    case True
    then show ?thesis by (auto simp: bit_simps)
  next
    case False
    then obtain j where j: "k = 8 + j" using le_Suc_ex [of 8 k] by auto
    then have "k div 8 = Suc (j div 8)" "k mod 8 = j mod 8" by simp_all
    moreover have "\<not> bit b k" using False bit_imp_le_length [of b k] by auto
    ultimately show ?thesis using Cons.IH [of j] j by (auto simp: bit_simps)
  qed
qed simp

lemma store_load_xor:
  assumes "length as = 8" and "length bs = 8"
  shows "store_word_le (load_word_le as XOR load_word_le bs) = xor_bytes as bs"
proof (rule nth_equalityI)
  show "length (store_word_le (load_word_le as XOR load_word_le bs)) = length (xor_bytes as bs)"
    using assms by (simp add: xor_bytes_def)
  fix i assume "i < length (store_word_le (load_word_le as XOR load_word_le bs))"
  then have i: "i < 8" by simp
  show "store_word_le (load_word_le as XOR load_word_le bs) ! i = xor_bytes as bs ! i"
  proof (rule bit_word_eqI)
    fix j assume "j < LENGTH(8)"
    then have j: "j < 8" "(8 * i + j) div 8 = i" "(8 * i + j) mod 8 = j" "8 * i + j < 64" using i by simp_all
    show "bit (store_word_le (load_word_le as XOR load_word_le bs) ! i) j = bit (xor_bytes as bs ! i) j"
      using i j assms by (simp add: store_word_le_def xor_bytes_def load_word_le_def bit_simps bit_foldr_bytes)
  qed
qed

lemma store_load:
  assumes "length as = 8"
  shows "store_word_le (load_word_le as) = as"
proof -
  have z: "load_word_le (replicate 8 0) = 0" by code_simp
  have "xor_bytes as (replicate 8 0) = as"
    using assms by (intro nth_equalityI) (simp_all add: xor_bytes_def)
  then show ?thesis using store_load_xor [of as "replicate 8 0"] assms z by simp
qed

lemma length_xor_bytes [simp]: "length (xor_bytes as bs) = min (length as) (length bs)"
  by (simp add: xor_bytes_def)

lemma nth_xor_bytes [simp]: "i < length as \<Longrightarrow> i < length bs \<Longrightarrow> xor_bytes as bs ! i = as ! i XOR bs ! i"
  by (simp add: xor_bytes_def)

lemma xor_bytes_append:
  "length as = length bs \<Longrightarrow> xor_bytes (as @ as') (bs @ bs') = xor_bytes as bs @ xor_bytes as' bs'"
  by (simp add: xor_bytes_def)

lemma xor_bytes_cancel: "length as \<le> length bs \<Longrightarrow> xor_bytes (xor_bytes as bs) bs = as"
  by (intro nth_equalityI) (auto simp: xor.assoc)

section \<open>Big-endian 32-bit words\<close>

definition GETU32 :: "bytes \<Rightarrow> u32" where
  "GETU32 bs = CRYPTO_bswap4 (foldr (\<lambda>b v. push_bit 8 v OR ucast b) (take 4 bs) 0)"

definition PUTU32 :: "u32 \<Rightarrow> bytes" where
  "PUTU32 v = (let v = CRYPTO_bswap4 v in map (\<lambda>i. ucast (drop_bit (8 * i) v)) [0..<4])"

lemma length_PUTU32 [simp]: "length (PUTU32 v) = 4"
  by (simp add: PUTU32_def Let_def)

lemma bit_bswap4: "k < 32 \<Longrightarrow> bit (CRYPTO_bswap4 x) k = bit x (8 * (3 - k div 8) + k mod 8)"
proof -
  assume k: "k < 32"
  define q r where "q = k div 8" and "r = k mod 8"
  have kq: "k = 8 * q + r" and r: "r < 8" and "q < 4" using k by (simp_all add: q_def r_def)
  have m: "(0xff00ff00 :: u32) = push_bit 24 (mask 8) OR push_bit 8 (mask 8)"
    "(0x00ff00ff :: u32) = push_bit 16 (mask 8) OR mask 8" by code_simp+
  from \<open>q < 4\<close> consider "q = 0" | "q = 1" | "q = 2" | "q = 3" by linarith
  then have "bit (CRYPTO_bswap4 x) (8 * q + r) = bit x (8 * (3 - q) + r)"
    by cases (use r in \<open>auto simp: CRYPTO_bswap4_def Let_def m bit_simps dest: bit_imp_le_length\<close>)
  then show ?thesis unfolding kq using r by simp
qed

lemma PUTU32_GETU32:
  assumes "length bs = 4"
  shows "PUTU32 (GETU32 bs) = bs"
proof (rule nth_equalityI)
  show "length (PUTU32 (GETU32 bs)) = length bs" using assms by simp
  fix i assume "i < length (PUTU32 (GETU32 bs))"
  then have i: "i < 4" by simp
  show "PUTU32 (GETU32 bs) ! i = bs ! i"
  proof (rule bit_word_eqI)
    fix j assume "j < LENGTH(8)"
    then have j: "j < 8" "8 * i + j < 32" "(8 * i + j) div 8 = i" "(8 * i + j) mod 8 = j"
      "8 * (3 - i) + j < 32" "(8 * (3 - i) + j) div 8 = 3 - i" "(8 * (3 - i) + j) mod 8 = j" "3 - (3 - i) = i"
      using i by simp_all
    show "bit (PUTU32 (GETU32 bs) ! i) j = bit (bs ! i) j"
      using i j assms
      by (simp add: PUTU32_def GETU32_def Let_def bit_simps bit_bswap4 bit_foldr_bytes)
  qed
qed

lemma PUTU32_be_enc: "PUTU32 v = be_enc 4 (unat v)"
proof (rule nth_equalityI)
  have e: "be_enc 4 (unat v) = map (\<lambda>i. of_nat (unat v div 2 ^ (8 * (3 - i)))) [0..<4]"
  proof -
    have "be_enc (Suc (Suc (Suc (Suc 0)))) (unat v) =
        [of_nat (unat v div 256 div 256 div 256), of_nat (unat v div 256 div 256), of_nat (unat v div 256), of_nat (unat v)]"
      by simp
    moreover have "[0..<4] = [0, 1, 2, 3 :: nat]" by (simp add: upt_rec)
    moreover have "Suc (Suc (Suc (Suc 0))) = 4" by simp
    ultimately show ?thesis by (simp add: div_mult2_eq [symmetric])
  qed
  show "length (PUTU32 v) = length (be_enc 4 (unat v))" by simp
  fix i assume "i < length (PUTU32 v)"
  then have i: "i < 4" by simp
  have "PUTU32 v ! i = ucast (drop_bit (8 * (3 - i)) v)"
  proof (rule bit_word_eqI)
    fix j assume "j < LENGTH(8)"
    then have j: "j < 8" "8 * i + j < 32" "(8 * i + j) div 8 = i" "(8 * i + j) mod 8 = j" using i by simp_all
    show "bit (PUTU32 v ! i) j = bit (ucast (drop_bit (8 * (3 - i)) v) :: u8) j"
      using i j by (simp add: PUTU32_def Let_def bit_simps bit_bswap4)
  qed
  also have "\<dots> = of_nat (unat (drop_bit (8 * (3 - i)) v))" by (simp only: of_nat_unat)
  also have "\<dots> = be_enc 4 (unat v) ! i" unfolding e using i by (simp add: unat_drop_bit)
  finally show "PUTU32 v ! i = be_enc 4 (unat v) ! i" .
qed

lemma unat_GETU32:
  assumes "length bs = 4"
  shows "unat (GETU32 bs) = be_val bs"
proof -
  have "unat (GETU32 bs) < 256 ^ 4" using unsigned_less [of "GETU32 bs", where 'a = nat] by simp
  then show ?thesis using PUTU32_GETU32 [OF assms] PUTU32_be_enc [of "GETU32 bs"] be_val_be_enc_id by metis
qed

end
