(* ===== verification/Md32.thy ===== *)
theory Md32
  imports Words
begin

text \<open>
  \<^verbatim>\<open>crypto/fipsmodule/digest/md32_common.h\<close>, the collector from which MD4, MD5, SHA-1 and SHA-256 get
  their update and final functions. The macros it is configured with are parameters: the block
  function \<^verbatim>\<open>HASH_BLOCK_DATA_ORDER\<close>, the byte order, and \<^verbatim>\<open>HASH_MAKE_STRING\<close>. \<^verbatim>\<open>HASH_CBLOCK\<close> is 64 for
  all four.
\<close>

unbundle bit_operations_syntax

section \<open>The code\<close>

type_synonym block_data_order = "u32 list \<Rightarrow> bytes \<Rightarrow> nat \<Rightarrow> u32 list"

record hash_ctx =
  ctx_h :: "u32 list"
  ctx_Nl :: u32
  ctx_Nh :: u32
  ctx_data :: bytes
  ctx_num :: nat
  ctx_md_len :: nat

text \<open>\<^verbatim>\<open>memcpy(d + n, bs, ...)\<close>\<close>

definition copy_at :: "bytes \<Rightarrow> nat \<Rightarrow> bytes \<Rightarrow> bytes" where
  "copy_at d n bs = take n d @ bs @ drop (n + length bs) d"

definition HOST_c2l_be :: "bytes \<Rightarrow> u32" where
  "HOST_c2l_be c = push_bit 24 (ucast (c ! 0)) OR push_bit 16 (ucast (c ! 1)) OR push_bit 8 (ucast (c ! 2)) OR ucast (c ! 3)"

definition HOST_c2l_le :: "bytes \<Rightarrow> u32" where
  "HOST_c2l_le c = ucast (c ! 0) OR push_bit 8 (ucast (c ! 1)) OR push_bit 16 (ucast (c ! 2)) OR push_bit 24 (ucast (c ! 3))"

definition HOST_l2c_be :: "u32 \<Rightarrow> bytes" where
  "HOST_l2c_be l = [ucast (drop_bit 24 l AND 0xff), ucast (drop_bit 16 l AND 0xff), ucast (drop_bit 8 l AND 0xff), ucast (l AND 0xff)]"

definition HOST_l2c_le :: "u32 \<Rightarrow> bytes" where
  "HOST_l2c_le l = [ucast (l AND 0xff), ucast (drop_bit 8 l AND 0xff), ucast (drop_bit 16 l AND 0xff), ucast (drop_bit 24 l AND 0xff)]"

text \<open>The end of \<^verbatim>\<open>HASH_UPDATE\<close>: whole blocks from the input, and what is left into \<^verbatim>\<open>data\<close>.\<close>

definition update_blocks :: "block_data_order \<Rightarrow> hash_ctx \<Rightarrow> bytes \<Rightarrow> hash_ctx" where
  "update_blocks block c inp =
     (let n = length inp div 64;
          (c, inp) = (if n > 0 then (c\<lparr>ctx_h := block (ctx_h c) inp n\<rparr>, drop (n * 64) inp) else (c, inp))
      in if length inp \<noteq> 0 then c\<lparr>ctx_num := length inp, ctx_data := copy_at (ctx_data c) 0 inp\<rparr> else c)"

definition HASH_UPDATE :: "block_data_order \<Rightarrow> hash_ctx \<Rightarrow> bytes \<Rightarrow> hash_ctx" where
  "HASH_UPDATE block c inp =
     (let len = length inp
      in if len = 0 then c
         else (let l = ctx_Nl c + push_bit 3 (of_nat len);
                   Nh = (if l < ctx_Nl c then ctx_Nh c + 1 else ctx_Nh c);
                   c = c\<lparr>ctx_Nh := Nh + of_nat (len div 2 ^ 29), ctx_Nl := l\<rparr>;
                   n = ctx_num c
               in if n \<noteq> 0
                  then (if len \<ge> 64 \<or> len + n \<ge> 64
                        then (let d = copy_at (ctx_data c) n (take (64 - n) inp)
                              in update_blocks block
                                   (c\<lparr>ctx_h := block (ctx_h c) d 1, ctx_num := 0, ctx_data := replicate 64 0\<rparr>)
                                   (drop (64 - n) inp))
                        else c\<lparr>ctx_data := copy_at (ctx_data c) n inp, ctx_num := n + len\<rparr>)
                  else update_blocks block c inp))"

definition HASH_TRANSFORM :: "block_data_order \<Rightarrow> hash_ctx \<Rightarrow> bytes \<Rightarrow> hash_ctx" where
  "HASH_TRANSFORM block c inp = c\<lparr>ctx_h := block (ctx_h c) inp 1\<rparr>"

definition HASH_FINAL ::
  "bool \<Rightarrow> block_data_order \<Rightarrow> (hash_ctx \<Rightarrow> bytes option) \<Rightarrow> hash_ctx \<Rightarrow> bytes option \<times> hash_ctx" where
  "HASH_FINAL big_endian block make_string c =
     (let n = ctx_num c;
          d = (ctx_data c)[n := 0x80];
          n = n + 1;
          (h, d, n) =
            (if n > 64 - 8
             then (let d = copy_at d n (replicate (64 - n) 0) in (block (ctx_h c) d 1, d, 0))
             else (ctx_h c, d, n));
          d = copy_at d n (replicate (64 - 8 - n) 0);
          d = copy_at d (64 - 8)
                (if big_endian then HOST_l2c_be (ctx_Nh c) @ HOST_l2c_be (ctx_Nl c)
                 else HOST_l2c_le (ctx_Nl c) @ HOST_l2c_le (ctx_Nh c));
          c = c\<lparr>ctx_h := block h d 1, ctx_num := 0, ctx_data := replicate 64 0\<rparr>
      in (make_string c, c))"

section \<open>Byte order\<close>

lemma unat_and_ff: "unat (x AND 0xff) = unat x mod 256" for x :: u32
  using unat_and_mask [of x 8] by (simp add: mask_eq_exp_minus_1)

lemma ucast_and_ff: "(ucast (x AND 0xff) :: u8) = of_nat (unat x)" for x :: u32
  by (simp add: word_unat_eq_iff unat_ucast_down unat_and_ff unat_of_nat_u8)

lemma HOST_l2c_be_enc: "HOST_l2c_be l = be_enc 4 (unat l)"
proof -
  have "be_enc (Suc (Suc (Suc (Suc 0)))) (unat l) =
      [of_nat (unat l div 256 div 256 div 256), of_nat (unat l div 256 div 256), of_nat (unat l div 256), of_nat (unat l)]"
    by simp
  moreover have "Suc (Suc (Suc (Suc 0))) = 4" by simp
  ultimately show ?thesis
    by (simp add: HOST_l2c_be_def ucast_and_ff unat_drop_bit div_mult2_eq [symmetric])
qed

lemma HOST_l2c_le_be: "HOST_l2c_le l = rev (HOST_l2c_be l)"
  by (simp add: HOST_l2c_le_def HOST_l2c_be_def)

lemma HOST_c2l_le_be: "length c = 4 \<Longrightarrow> HOST_c2l_le c = HOST_c2l_be (rev c)"
  by (simp add: HOST_c2l_le_def HOST_c2l_be_def rev_nth or.assoc [symmetric]) (simp add: or.commute or.left_commute)

lemma length_HOST_l2c [simp]: "length (HOST_l2c_be l) = 4" "length (HOST_l2c_le l) = 4"
  by (simp_all add: HOST_l2c_be_def HOST_l2c_le_def)

section \<open>The hash of a message\<close>

definition md_pad :: "bool \<Rightarrow> bytes \<Rightarrow> bytes" where
  "md_pad big_endian msg =
     (let l = be_enc 8 (8 * length msg)
      in msg @ [0x80] @ replicate ((119 - length msg mod 64) mod 64) 0 @ (if big_endian then l else rev l))"

lemma length_md_pad: "64 dvd length (md_pad b msg)"
proof -
  define r q where "r = length msg mod 64" and "q = length msg div 64"
  have l: "length msg = 64 * q + r" and r: "r < 64" by (simp_all add: r_def q_def)
  have "r + 9 + (119 - r) mod 64 = 64 \<or> r + 9 + (119 - r) mod 64 = 128"
    using r by (cases "r \<le> 55") (auto simp: mod_if)
  then have "length (md_pad b msg) = 64 * (q + 1) \<or> length (md_pad b msg) = 64 * (q + 2)"
    unfolding md_pad_def Let_def r_def [symmetric] using l by auto
  then show ?thesis by (metis dvd_triv_left)
qed

text \<open>The 64-bit count of bits is kept in two words.\<close>

lemma mod_square_high: "((x mod W) * W + y) mod (W * W) = (x * W + y) mod (W * W)" for W x y :: nat
proof -
  have "(x mod W) * W mod (W * W) = x * W mod (W * W)" by (simp add: mod_mult_mult2)
  then show ?thesis by (metis mod_add_left_eq)
qed

lemma bit_count_step:
  fixes Nl Nh :: u32 and k :: nat
  defines "l \<equiv> Nl + push_bit 3 (of_nat k)"
  shows "(unat ((if l < Nl then Nh + 1 else Nh) + of_nat (k div 2 ^ 29)) * 2 ^ 32 + unat l) mod 2 ^ 64 =
    (unat Nh * 2 ^ 32 + unat Nl + 8 * k) mod 2 ^ 64"
proof -
  define W :: nat where "W = 2 ^ 32"
  have W2: "(2 :: nat) ^ 64 = W * W" by (simp add: W_def)
  define s q where "s = 8 * k mod W" and "q = k div 2 ^ 29"
  have qs: "8 * k = q * W + s"
  proof -
    have "8 * k div W = q" using div_mult2_eq [of "8 * k" 8 "2 ^ 29"] by (simp add: W_def q_def)
    then show ?thesis unfolding s_def by (metis div_mult_mod_eq)
  qed
  have "push_bit 3 (of_nat k :: u32) = of_nat (8 * k)" by (simp add: push_bit_eq_mult)
  then have ul: "unat l = (unat Nl + s) mod W"
    unfolding l_def s_def W_def mod_add_right_eq by (simp add: unat_word_ariths unat_of_nat mod_simps del: of_nat_mult)
  have a: "unat Nl < W" and s: "s < W" using unsigned_less [of Nl, where 'a = nat] by (simp_all add: W_def s_def)
  define c :: nat where "c = (if l < Nl then 1 else 0)"
  have c: "unat Nl + s = c * W + unat l"
    using a s ul unfolding c_def word_less_nat_alt by (cases "unat Nl + s < W") (auto simp: mod_if)
  have uh: "unat ((if l < Nl then Nh + 1 else Nh) + of_nat (k div 2 ^ 29)) = (unat Nh + c + q) mod W"
    unfolding c_def q_def W_def by (simp add: unat_word_ariths unat_of_nat mod_simps)
  have "(unat Nh + c + q) * W + unat l = unat Nh * W + unat Nl + 8 * k"
    using c qs by (simp add: distrib_right)
  then show ?thesis unfolding uh W2 W_def [symmetric] mod_square_high by simp
qed

text \<open>A block function chains over its blocks and reads nothing behind them.\<close>

locale block_function =
  fixes block :: block_data_order
  assumes block_0 [simp]: "block h d 0 = h"
    and block_Suc: "block h d (Suc n) = block (block h d 1) (drop 64 d) n"
    and block_take: "block h (take 64 d) 1 = block h d 1"
begin

definition hash :: "u32 list \<Rightarrow> bytes \<Rightarrow> u32 list" where
  "hash h msg = block h msg (length msg div 64)"

lemma block_add: "block h d (m + n) = block (block h d m) (drop (64 * m) d) n"
proof (induction m arbitrary: h d)
  case (Suc m)
  show ?case using Suc [of "block h d 1" "drop 64 d"] block_Suc [of h d "m + n"] block_Suc [of h d m]
    by (simp add: add.commute)
qed simp

lemma block_prefix: "64 * n \<le> length d \<Longrightarrow> block h (d @ e) n = block h d n"
proof (induction n arbitrary: h d)
  case (Suc n)
  have "take 64 (d @ e) = take 64 d" using Suc.prems by simp
  then have "block h (d @ e) 1 = block h d 1" by (metis block_take)
  moreover have "drop 64 (d @ e) = drop 64 d @ e" using Suc.prems by simp
  moreover have "64 * n \<le> length (drop 64 d)" using Suc.prems by simp
  ultimately show ?case by (simp only: block_Suc [of h "d @ e" n] block_Suc [of h d n] Suc.IH)
qed simp

lemma block_append:
  assumes "length d = 64 * m"
  shows "block h (d @ e) (m + n) = block (block h d m) e n"
proof -
  have "block h (d @ e) m = block h d m" by (rule block_prefix) (simp add: assms)
  moreover have "drop (64 * m) (d @ e) = e" by (simp add: assms)
  ultimately show ?thesis using block_add [of h "d @ e" m n] by (simp only:)
qed

text \<open>What a context holds after the message \<^verbatim>\<open>msg\<close>.\<close>

definition rep :: "u32 list \<Rightarrow> hash_ctx \<Rightarrow> bytes \<Rightarrow> bool" where
  "rep h0 c msg \<longleftrightarrow>
     ctx_h c = block h0 msg (length msg div 64) \<and>
     ctx_data c = drop (64 * (length msg div 64)) msg @ replicate (64 - length msg mod 64) 0 \<and>
     ctx_num c = length msg mod 64 \<and>
     (unat (ctx_Nh c) * 2 ^ 32 + unat (ctx_Nl c)) mod 2 ^ 64 = 8 * length msg mod 2 ^ 64"

lemma update_blocks_rep:
  assumes h: "ctx_h c = block h0 msg (length msg div 64)" and "64 dvd length msg"
    and "ctx_data c = replicate 64 0" and "ctx_num c = 0"
    and N: "(unat (ctx_Nh c) * 2 ^ 32 + unat (ctx_Nl c)) mod 2 ^ 64 = 8 * length (msg @ inp) mod 2 ^ 64"
  shows "rep h0 (update_blocks block c inp) (msg @ inp)"
proof -
  obtain m where m: "length msg = 64 * m" using assms(2) by auto
  define n r where "n = length inp div 64" and "r = length inp mod 64"
  have li: "length inp = 64 * n + r" and r: "r < 64" by (simp_all add: n_def r_def)
  have d: "length (msg @ inp) div 64 = m + n" "length (msg @ inp) mod 64 = r" using m li r by simp_all
  have hh: "block h0 (msg @ inp) (m + n) = block (block h0 msg m) inp n" by (rule block_append [OF m])
  have dr: "drop (64 * (m + n)) (msg @ inp) = drop (64 * n) inp" using m by simp
  have ldr: "length (drop (64 * n) inp) = r" using li by simp
  have cp: "copy_at (replicate 64 0) 0 (drop (64 * n) inp) = drop (64 * n) inp @ replicate (64 - r) 0"
    by (simp add: copy_at_def li)
  have c1: "update_blocks block c inp =
      (let c = c\<lparr>ctx_h := block (ctx_h c) inp n\<rparr> in
       if r \<noteq> 0 then c\<lparr>ctx_num := r, ctx_data := copy_at (ctx_data c) 0 (drop (64 * n) inp)\<rparr> else c)"
  proof (cases "n = 0")
    case True
    then have "length inp = r" using li by simp
    then have "r = 0 \<longleftrightarrow> inp = []" by auto
    then show ?thesis using True \<open>length inp = r\<close> unfolding update_blocks_def n_def [symmetric] Let_def by simp
  next
    case False
    then show ?thesis using ldr unfolding update_blocks_def n_def [symmetric] Let_def by (simp add: mult.commute)
  qed
  show ?thesis
  proof (cases "r = 0")
    case True
    then have "drop (64 * n) inp = []" using li by simp
    then show ?thesis using True N m assms(3, 4) h unfolding rep_def d dr hh c1 by (simp add: Let_def)
  next
    case False
    then show ?thesis using N m assms(3, 4) h cp unfolding rep_def d dr hh c1 by (simp add: Let_def)
  qed
qed

lemma split_msg:
  obtains m r where "length msg = 64 * m + r" and "r < 64" and "length msg div 64 = m" and "length msg mod 64 = r"
  by (rule that [of "length msg div 64" "length msg mod 64"]) simp_all

lemma HASH_UPDATE_rep:
  assumes rep: "rep h0 c msg"
  shows "rep h0 (HASH_UPDATE block c inp) (msg @ inp)"
proof (cases "inp = []")
  case True
  then show ?thesis using rep by (simp add: HASH_UPDATE_def)
next
  case False
  define len where "len = length inp"
  have len: "0 < len" using False by (simp add: len_def)
  obtain m r where msg: "length msg = 64 * m + r" "r < 64" "length msg div 64 = m" "length msg mod 64 = r" by (rule split_msg)
  define l where "l = ctx_Nl c + push_bit 3 (of_nat len)"
  define Nh where "Nh = (if l < ctx_Nl c then ctx_Nh c + 1 else ctx_Nh c) + of_nat (len div 2 ^ 29)"
  define c1 where "c1 = c\<lparr>ctx_Nh := Nh, ctx_Nl := l\<rparr>"
  have N: "(unat Nh * 2 ^ 32 + unat l) mod 2 ^ 64 = 8 * length (msg @ inp) mod 2 ^ 64"
  proof -
    have "(unat Nh * 2 ^ 32 + unat l) mod 2 ^ 64 = (unat (ctx_Nh c) * 2 ^ 32 + unat (ctx_Nl c) + 8 * len) mod 2 ^ 64"
      unfolding Nh_def l_def by (rule bit_count_step)
    also have "\<dots> = (8 * length msg + 8 * len) mod 2 ^ 64"
      using rep unfolding rep_def by (metis mod_add_left_eq)
    finally show ?thesis by (simp add: len_def)
  qed
  have u: "HASH_UPDATE block c inp =
      (if r \<noteq> 0
       then (if len \<ge> 64 \<or> len + r \<ge> 64
             then update_blocks block
               (c1\<lparr>ctx_h := block (ctx_h c) (copy_at (ctx_data c) r (take (64 - r) inp)) 1, ctx_num := 0, ctx_data := replicate 64 0\<rparr>)
               (drop (64 - r) inp)
             else c1\<lparr>ctx_data := copy_at (ctx_data c) r inp, ctx_num := r + len\<rparr>)
       else update_blocks block c1 inp)"
    using rep msg False unfolding HASH_UPDATE_def len_def l_def Nh_def c1_def by (simp add: Let_def rep_def)
  define t where "t = drop (64 * m) msg"
  have lt: "length t = r" using msg(1) by (simp add: t_def)
  have ms: "msg = take (64 * m) msg @ t" by (simp add: t_def)
  have dt: "ctx_data c = t @ replicate (64 - r) 0" and hc: "ctx_h c = block h0 msg m"
    using rep msg by (simp_all add: rep_def t_def)
  have hm: "block h0 msg m = block h0 (take (64 * m) msg) m"
    using block_prefix [of m "take (64 * m) msg" h0 t] ms msg(1) by simp
  consider (full) "r \<noteq> 0" "len + r \<ge> 64" | (part) "r \<noteq> 0" "len + r < 64" | (zero) "r = 0" by linarith
  then show ?thesis
  proof cases
    case full
    define d where "d = t @ take (64 - r) inp"
    have cp: "copy_at (ctx_data c) r (take (64 - r) inp) = d"
      using full(2) lt msg(2) by (simp add: copy_at_def dt d_def len_def)
    have ld: "length d = 64" using full(2) lt msg(2) by (simp add: d_def len_def)
    let ?msg = "msg @ take (64 - r) inp"
    have mm: "?msg = take (64 * m) msg @ d" using ms unfolding d_def by (metis append.assoc)
    have lm: "length ?msg = 64 * (m + 1)" unfolding mm using ld msg(1) by simp
    have "block h0 ?msg (m + 1) = block (block h0 msg m) d 1"
      unfolding mm hm using block_append [of "take (64 * m) msg" m h0 d 1] msg(1) by simp
    then have "rep h0 (update_blocks block
               (c1\<lparr>ctx_h := block (ctx_h c) d 1, ctx_num := 0, ctx_data := replicate 64 0\<rparr>)
               (drop (64 - r) inp)) (?msg @ drop (64 - r) inp)"
      by (intro update_blocks_rep) (use lm N hc in \<open>simp_all add: c1_def\<close>)
    then show ?thesis using u full by (simp add: cp)
  next
    case part
    have l2: "length (msg @ inp) = 64 * m + (r + len)" using msg(1) by (simp add: len_def)
    then have d2: "length (msg @ inp) div 64 = m" "length (msg @ inp) mod 64 = r + len" using part(2) by simp_all
    have "block h0 (msg @ inp) m = block h0 msg m" by (rule block_prefix) (simp add: msg(1))
    moreover have "copy_at (ctx_data c) r inp = drop (64 * m) (msg @ inp) @ replicate (64 - (r + len)) 0"
      using lt part(2) msg(1) by (simp add: copy_at_def dt len_def t_def [symmetric])
    ultimately show ?thesis
      using u part N hc unfolding rep_def d2 by (simp add: c1_def)
  next
    case zero
    then have "rep h0 (update_blocks block c1 inp) (msg @ inp)"
      by (intro update_blocks_rep) (use rep msg N in \<open>simp_all add: c1_def rep_def\<close>)
    then show ?thesis using u zero by simp
  qed
qed

lemma HASH_FINAL_rep:
  assumes rep: "rep h0 c msg"
  obtains c' where "HASH_FINAL be block ms c = (ms c', c')" and "ctx_h c' = hash h0 (md_pad be msg)"
    and "ctx_num c' = 0" and "ctx_data c' = replicate 64 0" and "ctx_md_len c' = ctx_md_len c"
proof -
  obtain m r where msg: "length msg = 64 * m + r" "r < 64" "length msg div 64 = m" "length msg mod 64 = r" by (rule split_msg)
  define t where "t = drop (64 * m) msg"
  have lt: "length t = r" using msg(1) by (simp add: t_def)
  have ms: "msg = take (64 * m) msg @ t" by (simp add: t_def)
  have dt: "ctx_data c = t @ replicate (64 - r) 0" and hc: "ctx_h c = block h0 msg m" and nc: "ctx_num c = r"
    using rep msg by (simp_all add: rep_def t_def)
  have hm: "block h0 msg m = block h0 (take (64 * m) msg) m"
    using block_prefix [of m "take (64 * m) msg" h0 t] ms msg(1) by simp
  define L where "L = (if be then HOST_l2c_be (ctx_Nh c) @ HOST_l2c_be (ctx_Nl c) else HOST_l2c_le (ctx_Nl c) @ HOST_l2c_le (ctx_Nh c))"
  have L: "L = (if be then be_enc 8 (8 * length msg) else rev (be_enc 8 (8 * length msg)))"
  proof -
    have "be_enc 8 (8 * length msg) = be_enc 8 (unat (ctx_Nh c) * 2 ^ 32 + unat (ctx_Nl c))"
    proof -
      have e: "(256 :: nat) ^ 8 = 2 ^ 64" by simp
      show ?thesis using rep unfolding rep_def by (metis be_enc_mod [of 8, unfolded e])
    qed
    also have "\<dots> = be_enc 4 (unat (ctx_Nh c)) @ be_enc 4 (unat (ctx_Nl c))"
    proof -
      have "unat (ctx_Nl c) < 256 ^ 4" using unsigned_less [of "ctx_Nl c", where 'a = nat] by simp
      then have "(unat (ctx_Nh c) * 256 ^ 4 + unat (ctx_Nl c)) div 256 ^ 4 = unat (ctx_Nh c)" by simp
      moreover have "be_enc 4 (unat (ctx_Nh c) * 256 ^ 4 + unat (ctx_Nl c)) = be_enc 4 (unat (ctx_Nl c))"
        using be_enc_mod [of 4 "unat (ctx_Nh c) * 256 ^ 4 + unat (ctx_Nl c)"] be_enc_mod [of 4 "unat (ctx_Nl c)"] by simp
      ultimately show ?thesis using be_enc_add [of 4 4 "unat (ctx_Nh c) * 256 ^ 4 + unat (ctx_Nl c)"] by simp
    qed
    finally show ?thesis by (simp add: L_def HOST_l2c_be_enc HOST_l2c_le_be)
  qed
  have lL: "length L = 8" by (simp add: L_def)
  define d1 where "d1 = (ctx_data c)[r := 0x80]"
  have d1: "d1 = t @ 0x80 # replicate (63 - r) 0"
  proof -
    have "replicate (64 - r) (0 :: u8) = 0 # replicate (63 - r) 0" using msg(2) by (simp add: Suc_diff_Suc [symmetric] flip: replicate_Suc)
    then show ?thesis using lt by (simp add: d1_def dt list_update_append)
  qed
  have ld1: "length d1 = 64" using msg(2) lt by (simp add: d1)
  show ?thesis
  proof (cases "r + 1 > 56")
    case True
    have c1: "copy_at d1 (r + 1) (replicate (64 - (r + 1)) 0) = d1"
      using lt msg(2) by (simp add: copy_at_def d1)
    have c2: "copy_at (copy_at d1 0 (replicate 56 0)) 56 L = replicate 56 0 @ L"
      using ld1 lL by (simp add: copy_at_def)
    have p: "md_pad be msg = (take (64 * m) msg @ d1) @ (replicate 56 0 @ L)"
    proof -
      have "(119 - r) mod 64 = (63 - r) + 56" using True msg(2) by simp
      then have e: "replicate ((119 - r) mod 64) (0 :: u8) = replicate (63 - r) 0 @ replicate 56 0"
        by (simp only: replicate_add)
      have "md_pad be msg = (msg @ 0x80 # replicate (63 - r) 0) @ replicate 56 0 @ L"
        unfolding md_pad_def Let_def msg(4) L e by simp
      then show ?thesis using ms unfolding d1 by (metis append.assoc)
    qed
    have "hash h0 (md_pad be msg) = block h0 (md_pad be msg) (m + 1 + 1)"
    proof -
      have "length (md_pad be msg) = 64 * (m + 1 + 1)" unfolding p using ld1 lL msg(1) by simp
      then show ?thesis unfolding hash_def by simp
    qed
    also have "\<dots> = block (block h0 (take (64 * m) msg @ d1) (m + 1)) (replicate 56 0 @ L) 1"
      unfolding p by (rule block_append) (use ld1 msg(1) in simp)
    also have "block h0 (take (64 * m) msg @ d1) (m + 1) = block (ctx_h c) d1 1"
      unfolding hc hm by (rule block_append) (use msg(1) in simp)
    finally have h: "hash h0 (md_pad be msg) = block (block (ctx_h c) d1 1) (replicate 56 0 @ L) 1" .
    show ?thesis
      by (rule that [of "c\<lparr>ctx_h := hash h0 (md_pad be msg), ctx_num := 0, ctx_data := replicate 64 0\<rparr>"])
         (use True c1 c2 in \<open>simp_all add: HASH_FINAL_def Let_def nc d1_def [symmetric] L_def [symmetric] h\<close>)
  next
    case False
    have c2: "copy_at (copy_at d1 (r + 1) (replicate (56 - (r + 1)) 0)) 56 L = t @ 0x80 # replicate (55 - r) 0 @ L"
    proof -
      have "copy_at d1 (r + 1) (replicate (56 - (r + 1)) 0) = d1"
      proof -
        have "56 - (r + 1) + (8 :: nat) = 63 - r" using False by simp
        then have "replicate (63 - r) (0 :: u8) = replicate (56 - (r + 1)) 0 @ replicate 8 0"
          by (simp only: replicate_add [symmetric])
        then show ?thesis using lt by (simp add: copy_at_def d1)
      qed
      moreover have "replicate (63 - r) (0 :: u8) = replicate (55 - r) 0 @ replicate 8 0"
        using False by (simp flip: replicate_add)
      ultimately have e: "copy_at d1 (r + 1) (replicate (56 - (r + 1)) 0) = (t @ 0x80 # replicate (55 - r) 0) @ replicate 8 0"
        by (simp add: d1)
      define A where "A = t @ 0x80 # replicate (55 - r) 0"
      have "length A = 56" using lt False by (simp add: A_def)
      then have "copy_at (A @ replicate 8 0) 56 L = A @ L" using lL by (simp add: copy_at_def)
      then show ?thesis unfolding e by (simp add: A_def)
    qed
    have p: "md_pad be msg = take (64 * m) msg @ (t @ 0x80 # replicate (55 - r) 0 @ L)"
    proof -
      have "(119 - r) mod 64 = 55 - r" using False by (simp add: mod_if)
      then have "md_pad be msg = msg @ 0x80 # replicate (55 - r) 0 @ L"
        unfolding md_pad_def Let_def msg(4) L by simp
      then show ?thesis using ms by (metis append.assoc)
    qed
    have "hash h0 (md_pad be msg) = block h0 (md_pad be msg) (m + 1)"
    proof -
      have "length (md_pad be msg) = 64 * (m + 1)" unfolding p using lL lt msg(1) False by simp
      then show ?thesis unfolding hash_def by simp
    qed
    also have "\<dots> = block (ctx_h c) (t @ 0x80 # replicate (55 - r) 0 @ L) 1"
      unfolding p hc hm by (rule block_append) (use msg(1) in simp)
    finally have h: "hash h0 (md_pad be msg) = block (ctx_h c) (t @ 0x80 # replicate (55 - r) 0 @ L) 1" .
    show ?thesis
      by (rule that [of "c\<lparr>ctx_h := hash h0 (md_pad be msg), ctx_num := 0, ctx_data := replicate 64 0\<rparr>"])
         (use False c2 in \<open>simp_all add: HASH_FINAL_def Let_def nc d1_def [symmetric] L_def [symmetric] h\<close>)
  qed
qed

end

end
