(* ===== verification/Bn.thy ===== *)
theory Bn
  imports Md32
begin

text \<open>
  \<^verbatim>\<open>crypto/fipsmodule/bn/bn.c\<close> and \<^verbatim>\<open>cmp.c\<close>: big numbers as arrays of 64-bit words, least significant first, with a
  sign. The list \<^verbatim>\<open>bn_d\<close> has the words that are allocated (\<^verbatim>\<open>dmax\<close> is its length); the first \<^verbatim>\<open>bn_width\<close> of
  them are the number, and the most significant of these may be zero.
\<close>

unbundle bit_operations_syntax

section \<open>bn.c\<close>

record bignum_st =
  bn_d :: "u64 list"
  bn_width :: nat
  bn_neg :: bool
  bn_static :: bool

definition BN_BITS2 :: nat where "BN_BITS2 = 64"
definition BN_BYTES :: nat where "BN_BYTES = 8"
definition BN_MASK2 :: u64 where "BN_MASK2 = 0xffffffffffffffff"

definition BN_init :: bignum_st where
  "BN_init = \<lparr>bn_d = [], bn_width = 0, bn_neg = False, bn_static = False\<rparr>"

definition sizeof_BIGNUM :: u64 where "sizeof_BIGNUM = 24"

definition BN_new :: "libc_malloc \<Rightarrow> bignum_st option" where
  "BN_new malloc = (case OPENSSL_malloc malloc sizeof_BIGNUM of None \<Rightarrow> None | Some _ \<Rightarrow> Some BN_init)"

text \<open>What a block of memory holds as an array of words.\<close>

definition word_array :: "bytes \<Rightarrow> nat \<Rightarrow> u64 list" where
  "word_array m words = map (\<lambda>i. load_word_le (drop (8 * i) m)) [0..<words]"

definition bn_wexpand :: "libc_malloc \<Rightarrow> bignum_st \<Rightarrow> nat \<Rightarrow> bool \<times> bignum_st" where
  "bn_wexpand malloc bn words =
     (if words \<le> length (bn_d bn) then (True, bn)
      else if words > INT_MAX div (4 * BN_BITS2) then (False, bn)
      else if bn_static bn then (False, bn)
      else (case OPENSSL_malloc malloc (8 * of_nat words) of
              None \<Rightarrow> (False, bn)
            | Some m \<Rightarrow>
                let a = word_array m words;
                    a = take (bn_width bn) (bn_d bn) @ drop (bn_width bn) a
                in (True, bn\<lparr>bn_d := a\<rparr>)))"

definition bn_expand :: "libc_malloc \<Rightarrow> bignum_st \<Rightarrow> u64 \<Rightarrow> bool \<times> bignum_st" where
  "bn_expand malloc bn bits =
     (if bits + of_nat BN_BITS2 - 1 < bits then (False, bn)
      else bn_wexpand malloc bn (unat ((bits + of_nat BN_BITS2 - 1) div of_nat BN_BITS2)))"

definition bn_fits_in_words :: "bignum_st \<Rightarrow> nat \<Rightarrow> bool" where
  "bn_fits_in_words bn num \<longleftrightarrow> fold (\<lambda>i mask. mask OR bn_d bn ! i) [num..<bn_width bn] 0 = 0"

definition bn_resize_words :: "libc_malloc \<Rightarrow> bignum_st \<Rightarrow> nat \<Rightarrow> bool \<times> bignum_st" where
  "bn_resize_words malloc bn words =
     (if bn_width bn \<le> words
      then (case bn_wexpand malloc bn words of
              (ok, bn) \<Rightarrow>
                if \<not> ok then (False, bn)
                else (True, bn\<lparr>bn_d := take (bn_width bn) (bn_d bn) @ replicate (words - bn_width bn) 0 @ drop words (bn_d bn),
                               bn_width := words\<rparr>))
      else if \<not> bn_fits_in_words bn words then (False, bn)
      else (True, bn\<lparr>bn_width := words\<rparr>))"

definition bn_select_words :: "u64 \<Rightarrow> u64 list \<Rightarrow> u64 list \<Rightarrow> nat \<Rightarrow> u64 list" where
  "bn_select_words msk a b num = map (\<lambda>i. constant_time_select_w msk (a ! i) (b ! i)) [0..<num]"

fun minimal_width_loop :: "u64 list \<Rightarrow> nat \<Rightarrow> nat" where
  "minimal_width_loop d 0 = 0"
| "minimal_width_loop d (Suc ret) = (if d ! ret = 0 then minimal_width_loop d ret else Suc ret)"

definition bn_minimal_width :: "bignum_st \<Rightarrow> nat" where
  "bn_minimal_width bn = minimal_width_loop (bn_d bn) (bn_width bn)"

definition bn_set_minimal_width :: "bignum_st \<Rightarrow> bignum_st" where
  "bn_set_minimal_width bn =
     (let bn = bn\<lparr>bn_width := bn_minimal_width bn\<rparr>
      in if bn_width bn = 0 then bn\<lparr>bn_neg := False\<rparr> else bn)"

text \<open>The numbers \<^verbatim>\<open>src\<close> and \<^verbatim>\<open>dest\<close> are different objects.\<close>

definition BN_copy :: "libc_malloc \<Rightarrow> bignum_st \<Rightarrow> bignum_st \<Rightarrow> bool \<times> bignum_st" where
  "BN_copy malloc dest src =
     (case bn_wexpand malloc dest (bn_width src) of
        (ok, dest) \<Rightarrow>
          if \<not> ok then (False, dest)
          else (True, dest\<lparr>bn_d := take (bn_width src) (bn_d src) @ drop (bn_width src) (bn_d dest),
                           bn_width := bn_width src, bn_neg := bn_neg src\<rparr>))"

definition BN_dup :: "libc_malloc \<Rightarrow> bignum_st option \<Rightarrow> bignum_st option" where
  "BN_dup malloc src =
     (case src of
        None \<Rightarrow> None
      | Some src \<Rightarrow>
          (case BN_new malloc of
             None \<Rightarrow> None
           | Some copy \<Rightarrow> (case BN_copy malloc copy src of (ok, copy) \<Rightarrow> if \<not> ok then None else Some copy)))"

definition BN_clear :: "bignum_st \<Rightarrow> bignum_st" where
  "BN_clear bn = bn\<lparr>bn_d := replicate (length (bn_d bn)) 0, bn_width := 0, bn_neg := False\<rparr>"

definition BN_value_one :: bignum_st where
  "BN_value_one = \<lparr>bn_d = [1], bn_width = 1, bn_neg = False, bn_static = True\<rparr>"

text \<open>One block of the count of bits: \<^verbatim>\<open>k\<close> is half of the bits that are left.\<close>

definition num_bits_step :: "nat \<Rightarrow> u64 \<times> nat \<Rightarrow> u64 \<times> nat" where
  "num_bits_step k = (\<lambda>(l, bits).
     let x = drop_bit k l;
         mask = 0 - x;
         mask = 0 - drop_bit (BN_BITS2 - 1) mask
     in (l XOR ((x XOR l) AND mask), bits + unat (of_nat k AND mask)))"

definition BN_num_bits_word :: "u64 \<Rightarrow> nat" where
  "BN_num_bits_word l =
     (let bits = (if l \<noteq> 0 then 1 else 0) in snd (fold num_bits_step [32, 16, 8, 4, 2, 1] (l, bits)))"

definition BN_num_bits :: "bignum_st \<Rightarrow> nat" where
  "BN_num_bits bn =
     (let width = bn_minimal_width bn
      in if width = 0 then 0 else (width - 1) * BN_BITS2 + BN_num_bits_word (bn_d bn ! (width - 1)))"

definition BN_num_bytes :: "bignum_st \<Rightarrow> nat" where
  "BN_num_bytes bn = (BN_num_bits bn + 7) div 8"

definition BN_zero :: "bignum_st \<Rightarrow> bignum_st" where
  "BN_zero bn = bn\<lparr>bn_width := 0, bn_neg := False\<rparr>"

definition BN_set_word :: "libc_malloc \<Rightarrow> bignum_st \<Rightarrow> u64 \<Rightarrow> bool \<times> bignum_st" where
  "BN_set_word malloc bn value =
     (if value = 0 then (True, BN_zero bn)
      else (case bn_wexpand malloc bn 1 of
              (ok, bn) \<Rightarrow>
                if \<not> ok then (False, bn)
                else (True, bn\<lparr>bn_neg := False, bn_d := (bn_d bn)[0 := value], bn_width := 1\<rparr>)))"

definition BN_one :: "libc_malloc \<Rightarrow> bignum_st \<Rightarrow> bool \<times> bignum_st" where
  "BN_one malloc bn = BN_set_word malloc bn 1"

definition BN_set_u64 :: "libc_malloc \<Rightarrow> bignum_st \<Rightarrow> u64 \<Rightarrow> bool \<times> bignum_st" where
  "BN_set_u64 malloc bn value = BN_set_word malloc bn value"

definition bn_set_words :: "libc_malloc \<Rightarrow> bignum_st \<Rightarrow> u64 list \<Rightarrow> bool \<times> bignum_st" where
  "bn_set_words malloc bn words =
     (let num = length words in
      case bn_wexpand malloc bn num of
        (ok, bn) \<Rightarrow>
          if \<not> ok then (False, bn)
          else (True, bn\<lparr>bn_d := words @ drop num (bn_d bn), bn_width := num, bn_neg := False\<rparr>))"

definition bn_copy_words :: "nat \<Rightarrow> bignum_st \<Rightarrow> u64 list option" where
  "bn_copy_words num bn =
     (if bn_neg bn then None
      else let width = bn_width bn in
      if width > num \<and> \<not> bn_fits_in_words bn num then None
      else let width = (if width > num then num else width)
           in Some (take width (bn_d bn) @ replicate (num - width) 0))"

definition BN_is_negative :: "bignum_st \<Rightarrow> bool" where
  "BN_is_negative bn \<longleftrightarrow> bn_neg bn"

section \<open>cmp.c\<close>

text \<open>\<^verbatim>\<open>int ret\<close>, with \<^verbatim>\<open>-1\<close> and \<^verbatim>\<open>1\<close> selected by masks.\<close>

definition bn_cmp_words_consttime :: "u64 list \<Rightarrow> u64 list \<Rightarrow> int" where
  "bn_cmp_words_consttime a b =
     (let a_len = length a; b_len = length b;
          min = (if a_len < b_len then a_len else b_len);
          ret = fold (\<lambda>i ret.
              let eq = constant_time_eq_w (a ! i) (b ! i);
                  lt = constant_time_lt_w (a ! i) (b ! i)
              in constant_time_select_int eq ret (constant_time_select_int lt (- 1) 1)) [0..<min] (0 :: 32 word)
      in sint (if a_len < b_len
               then constant_time_select_int (constant_time_is_zero_w (fold (\<lambda>i mask. mask OR b ! i) [a_len..<b_len] 0)) ret (- 1)
               else if b_len < a_len
               then constant_time_select_int (constant_time_is_zero_w (fold (\<lambda>i mask. mask OR a ! i) [b_len..<a_len] 0)) ret 1
               else ret))"

definition BN_ucmp :: "bignum_st \<Rightarrow> bignum_st \<Rightarrow> int" where
  "BN_ucmp a b = bn_cmp_words_consttime (take (bn_width a) (bn_d a)) (take (bn_width b) (bn_d b))"

definition BN_cmp :: "bignum_st option \<Rightarrow> bignum_st option \<Rightarrow> int" where
  "BN_cmp a b =
     (case (a, b) of
        (Some a, Some b) \<Rightarrow>
          if bn_neg a \<noteq> bn_neg b then (if bn_neg a then - 1 else 1)
          else let ret = BN_ucmp a b in if bn_neg a then - ret else ret
      | (Some a, None) \<Rightarrow> - 1
      | (None, Some b) \<Rightarrow> 1
      | (None, None) \<Rightarrow> 0)"

definition bn_less_than_words :: "u64 list \<Rightarrow> u64 list \<Rightarrow> nat \<Rightarrow> bool" where
  "bn_less_than_words a b len \<longleftrightarrow> bn_cmp_words_consttime (take len a) (take len b) < 0"

definition BN_abs_is_word :: "bignum_st \<Rightarrow> u64 \<Rightarrow> bool" where
  "BN_abs_is_word bn w \<longleftrightarrow>
     (if bn_width bn = 0 then w = 0
      else fold (\<lambda>i mask. mask OR bn_d bn ! i) [1..<bn_width bn] (bn_d bn ! 0 XOR w) = 0)"

definition BN_cmp_word :: "bignum_st \<Rightarrow> u64 \<Rightarrow> int" where
  "BN_cmp_word a b =
     (let b_bn = \<lparr>bn_d = [b], bn_width = (if b > 0 then 1 else 0), bn_neg = False, bn_static = True\<rparr>
      in BN_cmp (Some a) (Some b_bn))"

definition BN_is_zero :: "bignum_st \<Rightarrow> bool" where
  "BN_is_zero bn \<longleftrightarrow> bn_fits_in_words bn 0"

definition BN_is_one :: "bignum_st \<Rightarrow> bool" where
  "BN_is_one bn \<longleftrightarrow> \<not> bn_neg bn \<and> BN_abs_is_word bn 1"

definition BN_is_word :: "bignum_st \<Rightarrow> u64 \<Rightarrow> bool" where
  "BN_is_word bn w \<longleftrightarrow> BN_abs_is_word bn w \<and> (w = 0 \<or> \<not> bn_neg bn)"

definition BN_is_odd :: "bignum_st \<Rightarrow> bool" where
  "BN_is_odd bn \<longleftrightarrow> bn_width bn > 0 \<and> bn_d bn ! 0 AND 1 = 1"

definition BN_is_pow2 :: "bignum_st \<Rightarrow> bool" where
  "BN_is_pow2 bn \<longleftrightarrow>
     (let width = bn_minimal_width bn
      in if width = 0 \<or> bn_neg bn then False
         else if (\<exists>i\<in>set [0..<width - 1]. bn_d bn ! i \<noteq> 0) then False
         else 0 = (bn_d bn ! (width - 1) AND (bn_d bn ! (width - 1) - 1)))"

definition BN_equal_consttime :: "bignum_st \<Rightarrow> bignum_st \<Rightarrow> bool" where
  "BN_equal_consttime a b \<longleftrightarrow>
     (let mask = fold (\<lambda>i mask. mask OR bn_d b ! i) [bn_width a..<bn_width b] 0;
          mask = fold (\<lambda>i mask. mask OR bn_d a ! i) [bn_width b..<bn_width a] mask;
          min = (if bn_width a < bn_width b then bn_width a else bn_width b);
          mask = fold (\<lambda>i mask. mask OR (bn_d a ! i XOR bn_d b ! i)) [0..<min] mask;
          mask = mask OR (if bn_neg a \<noteq> bn_neg b then 1 else 0)
      in mask = 0)"

definition BN_set_negative :: "bignum_st \<Rightarrow> bool \<Rightarrow> bignum_st" where
  "BN_set_negative bn sign = (if sign \<and> \<not> BN_is_zero bn then bn\<lparr>bn_neg := True\<rparr> else bn\<lparr>bn_neg := False\<rparr>)"

section \<open>The numbers\<close>

primrec words_val :: "u64 list \<Rightarrow> nat" where
  "words_val [] = 0"
| "words_val (w # ws) = unat w + 2 ^ 64 * words_val ws"

definition bn_words :: "bignum_st \<Rightarrow> u64 list" where
  "bn_words bn = take (bn_width bn) (bn_d bn)"

definition bn_abs :: "bignum_st \<Rightarrow> nat" where
  "bn_abs bn = words_val (bn_words bn)"

definition bn_int :: "bignum_st \<Rightarrow> int" where
  "bn_int bn = (if bn_neg bn then - int (bn_abs bn) else int (bn_abs bn))"

text \<open>A number that is well formed: its words are there, and zero has no sign.\<close>

definition bn_ok :: "bignum_st \<Rightarrow> bool" where
  "bn_ok bn \<longleftrightarrow> bn_width bn \<le> length (bn_d bn) \<and> (bn_neg bn \<longrightarrow> bn_abs bn \<noteq> 0)"

lemma unat_u64_lt: "unat (w :: u64) < 2 ^ 64"
  using unsigned_less [of w, where 'a = nat] by simp

lemma words_val_append: "words_val (as @ bs) = words_val as + 2 ^ (64 * length as) * words_val bs"
  by (induction as) (simp_all add: algebra_simps power_add)

lemma words_val_lt: "words_val ws < 2 ^ (64 * length ws)"
proof (induction ws)
  case (Cons w ws)
  have "unat w + 2 ^ 64 * words_val ws < 2 ^ 64 * (words_val ws + 1)" using unat_u64_lt [of w] by simp
  also have "\<dots> \<le> 2 ^ 64 * 2 ^ (64 * length ws)" using Cons by (intro mult_left_mono) simp_all
  finally show ?case by (simp add: power_add)
qed simp

lemma words_val_zeros [simp]: "words_val (replicate n 0) = 0"
  by (induction n) simp_all

lemma words_val_0_iff: "words_val ws = 0 \<longleftrightarrow> (\<forall>w\<in>set ws. w = 0)"
  by (induction ws) (auto simp: unat_eq_0)

lemma words_val_inj: "length as = length bs \<Longrightarrow> words_val as = words_val bs \<Longrightarrow> as = bs"
proof (induction as bs rule: list_induct2)
  case (Cons a as b bs)
  have "unat a = unat b \<and> words_val as = words_val bs"
  proof -
    have m: "(unat x + 2 ^ 64 * n) mod 2 ^ 64 = unat x" "(unat x + 2 ^ 64 * n) div 2 ^ 64 = n" for x :: u64 and n
      using unat_u64_lt [of x] by simp_all
    show ?thesis using Cons.prems m [of a] m [of b] by (metis words_val.simps(2))
  qed
  then show ?case using Cons.IH by (simp add: word_unat_eq_iff)
qed simp

lemma fold_or_zero: "fold (\<lambda>i mask. mask OR f i) is (m :: 'a::len word) = 0 \<longleftrightarrow> m = 0 \<and> (\<forall>i\<in>set is. f i = 0)"
  by (induction "is" arbitrary: m) (auto simp: or_eq_0_iff)

lemma length_bn_words [simp]: "bn_width bn \<le> length (bn_d bn) \<Longrightarrow> length (bn_words bn) = bn_width bn"
  by (simp add: bn_words_def)

lemma nth_bn_words: "i < bn_width bn \<Longrightarrow> bn_words bn ! i = bn_d bn ! i"
  by (simp add: bn_words_def)


section \<open>Widths\<close>

lemma minimal_width_loop_le: "minimal_width_loop d n \<le> n"
  by (induction n) auto

lemma minimal_width_loop_top: "minimal_width_loop d n \<noteq> 0 \<Longrightarrow> d ! (minimal_width_loop d n - 1) \<noteq> 0"
  by (induction n) (auto split: if_splits)

lemma minimal_width_loop_val: "n \<le> length d \<Longrightarrow> words_val (take (minimal_width_loop d n) d) = words_val (take n d)"
  by (induction n) (auto simp: take_Suc_conv_app_nth words_val_append)

lemma bn_minimal_width_le: "bn_minimal_width bn \<le> bn_width bn"
  by (simp add: bn_minimal_width_def minimal_width_loop_le)

lemma bn_minimal_width_val:
  "bn_width bn \<le> length (bn_d bn) \<Longrightarrow> words_val (take (bn_minimal_width bn) (bn_d bn)) = bn_abs bn"
  by (simp add: bn_minimal_width_def minimal_width_loop_val bn_abs_def bn_words_def)

lemma bn_minimal_width_0:
  assumes "bn_width bn \<le> length (bn_d bn)"
  shows "bn_minimal_width bn = 0 \<longleftrightarrow> bn_abs bn = 0"
proof
  assume "bn_abs bn = 0"
  then have z: "\<forall>w\<in>set (take (bn_minimal_width bn) (bn_d bn)). w = 0"
    using bn_minimal_width_val [OF assms] words_val_0_iff by metis
  show "bn_minimal_width bn = 0"
  proof (rule ccontr)
    assume m: "bn_minimal_width bn \<noteq> 0"
    then have "bn_d bn ! (bn_minimal_width bn - 1) \<in> set (take (bn_minimal_width bn) (bn_d bn))"
      using assms bn_minimal_width_le [of bn] by (auto simp: in_set_conv_nth intro!: exI [of _ "bn_minimal_width bn - 1"])
    then show False using z minimal_width_loop_top [of "bn_d bn" "bn_width bn"] m by (auto simp: bn_minimal_width_def)
  qed
qed (use bn_minimal_width_val [OF assms] in auto)

lemma bn_set_minimal_width_ok:
  assumes "bn_width bn \<le> length (bn_d bn)"
  shows "bn_ok (bn_set_minimal_width bn)" and "bn_abs (bn_set_minimal_width bn) = bn_abs bn" and "bn_int (bn_set_minimal_width bn) = bn_int bn"
proof -
  have a: "bn_abs (bn\<lparr>bn_width := bn_minimal_width bn\<rparr>) = bn_abs bn"
    using bn_minimal_width_val [OF assms] by (simp add: bn_abs_def bn_words_def)
  have w: "bn_minimal_width bn \<le> length (bn_d bn)" using bn_minimal_width_le [of bn] assms by simp
  have z: "bn_minimal_width bn = 0 \<longleftrightarrow> bn_abs bn = 0" by (rule bn_minimal_width_0 [OF assms])
  show abs: "bn_abs (bn_set_minimal_width bn) = bn_abs bn"
    using a by (cases "bn_minimal_width bn = 0") (simp_all add: bn_set_minimal_width_def Let_def bn_abs_def bn_words_def)
  show "bn_ok (bn_set_minimal_width bn)"
    using w z abs by (auto simp: bn_ok_def bn_set_minimal_width_def Let_def)
  show "bn_int (bn_set_minimal_width bn) = bn_int bn"
    using abs z unfolding bn_int_def by (auto simp: bn_set_minimal_width_def Let_def)
qed

lemma bn_fits_in_words_iff: "bn_fits_in_words bn num \<longleftrightarrow> (\<forall>i\<in>{num..<bn_width bn}. bn_d bn ! i = 0)"
  by (simp add: bn_fits_in_words_def fold_or_zero)

text \<open>Dropping words that are zero.\<close>

lemma bn_fits_take:
  assumes "bn_width bn \<le> length (bn_d bn)" and "bn_fits_in_words bn n" and "n \<le> bn_width bn"
  shows "words_val (take n (bn_d bn)) = bn_abs bn"
proof -
  have "bn_words bn = take n (bn_d bn) @ drop n (bn_words bn)"
    using assms(3) by (simp add: bn_words_def min.absorb1 take_drop [symmetric] drop_take flip: take_add)
  moreover have "words_val (drop n (bn_words bn)) = 0"
  proof -
    have "w = 0" if "w \<in> set (drop n (bn_words bn))" for w
      using that assms by (auto simp: in_set_conv_nth bn_words_def bn_fits_in_words_iff)
    then show ?thesis by (simp add: words_val_0_iff)
  qed
  ultimately show ?thesis unfolding bn_abs_def by (metis add.right_neutral mult_0_right words_val_append)
qed

lemma bn_fits_in_words_abs:
  assumes "bn_width bn \<le> length (bn_d bn)"
  shows "bn_fits_in_words bn n \<longleftrightarrow> bn_abs bn < 2 ^ (64 * n)"
proof (cases "n \<le> bn_width bn")
  case True
  show ?thesis
  proof
    assume "bn_fits_in_words bn n"
    then have "words_val (take n (bn_d bn)) = bn_abs bn" by (rule bn_fits_take [OF assms _ True])
    then show "bn_abs bn < 2 ^ (64 * n)" using words_val_lt [of "take n (bn_d bn)"] assms True by (simp add: min.absorb2)
  next
    assume lt: "bn_abs bn < 2 ^ (64 * n)"
    have "bn_words bn = take n (bn_words bn) @ drop n (bn_words bn)" by simp
    then have "bn_abs bn = words_val (take n (bn_words bn)) + 2 ^ (64 * n) * words_val (drop n (bn_words bn))"
      unfolding bn_abs_def using words_val_append [of "take n (bn_words bn)" "drop n (bn_words bn)"] assms True by (simp add: min.absorb2)
    then have "words_val (drop n (bn_words bn)) = 0" using lt by (cases "words_val (drop n (bn_words bn))") auto
    then have z: "\<forall>w\<in>set (drop n (bn_words bn)). w = 0" by (simp add: words_val_0_iff)
    have "bn_d bn ! i = 0" if i: "i \<in> {n..<bn_width bn}" for i
    proof -
      have "drop n (bn_words bn) ! (i - n) \<in> set (drop n (bn_words bn))" using i assms by (intro nth_mem) auto
      moreover have "drop n (bn_words bn) ! (i - n) = bn_d bn ! i" using i assms by (simp add: nth_bn_words)
      ultimately show ?thesis using z by simp
    qed
    then show "bn_fits_in_words bn n" by (simp add: bn_fits_in_words_iff)
  qed
next
  case False
  then have "bn_abs bn < 2 ^ (64 * bn_width bn)" using words_val_lt [of "bn_words bn"] assms by (simp add: bn_abs_def)
  also have "\<dots> \<le> 2 ^ (64 * n)" using False by (intro power_increasing) simp_all
  finally show ?thesis using False by (simp add: bn_fits_in_words_iff)
qed

lemma BN_is_zero_iff: "bn_width bn \<le> length (bn_d bn) \<Longrightarrow> BN_is_zero bn \<longleftrightarrow> bn_abs bn = 0"
  by (simp add: BN_is_zero_def bn_fits_in_words_abs)

section \<open>Expanding\<close>

definition can_expand :: "libc_malloc \<Rightarrow> bignum_st \<Rightarrow> nat \<Rightarrow> bool" where
  "can_expand malloc bn n \<longleftrightarrow> n \<le> length (bn_d bn) \<or>
     (n \<le> INT_MAX div 256 \<and> \<not> bn_static bn \<and> OPENSSL_malloc malloc (8 * of_nat n) \<noteq> None)"

lemma bn_wexpand_result:
  assumes "bn_width bn \<le> length (bn_d bn)"
  shows "\<exists>d. bn_wexpand malloc bn n = (can_expand malloc bn n, bn\<lparr>bn_d := d\<rparr>) \<and> bn_width bn \<le> length d \<and>
    take (bn_width bn) d = bn_words bn \<and> (can_expand malloc bn n \<longrightarrow> n \<le> length d)"
proof -
  have same: ?thesis if "bn_wexpand malloc bn n = (can_expand malloc bn n, bn)" "can_expand malloc bn n \<longrightarrow> n \<le> length (bn_d bn)"
    using that assms by (intro exI [of _ "bn_d bn"]) (simp add: bn_words_def)
  consider (fits) "n \<le> length (bn_d bn)" | (big) "length (bn_d bn) < n" "n > INT_MAX div 256" | (static) "length (bn_d bn) < n" "\<not> n > INT_MAX div 256" "bn_static bn"
    | (full) "length (bn_d bn) < n" "\<not> n > INT_MAX div 256" "\<not> bn_static bn" "OPENSSL_malloc malloc (8 * of_nat n) = None"
    | (new) m where "length (bn_d bn) < n" "\<not> n > INT_MAX div 256" "\<not> bn_static bn" "OPENSSL_malloc malloc (8 * of_nat n) = Some m"
    by (metis not_less option.exhaust)
  then show ?thesis
  proof cases
    case new
    define a where "a = take (bn_width bn) (bn_d bn) @ drop (bn_width bn) (word_array m n)"
    have "bn_wexpand malloc bn n = (True, bn\<lparr>bn_d := a\<rparr>)" using new by (simp add: bn_wexpand_def BN_BITS2_def a_def)
    moreover have "length a = n" using new assms by (simp add: a_def word_array_def)
    moreover have "take (bn_width bn) a = bn_words bn" using assms by (simp add: a_def bn_words_def)
    ultimately show ?thesis using new assms by (intro exI [of _ a]) (simp add: can_expand_def)
  qed (rule same; simp add: bn_wexpand_def can_expand_def BN_BITS2_def)+
qed

lemma bn_wexpand_obtain:
  assumes "bn_width bn \<le> length (bn_d bn)"
  obtains d where "bn_wexpand malloc bn n = (can_expand malloc bn n, bn\<lparr>bn_d := d\<rparr>)" and "bn_width bn \<le> length d"
    and "take (bn_width bn) d = bn_words bn" and "can_expand malloc bn n \<Longrightarrow> n \<le> length d"
  using bn_wexpand_result [OF assms] by blast


section \<open>Bits\<close>

lemma bits_mask:
  assumes "unat x \<le> 2 ^ 63"
  shows "0 - drop_bit (BN_BITS2 - 1) (0 - x) = (if x \<noteq> 0 then - 1 else 0 :: u64)"
proof -
  have "bit (0 - x) 63 \<longleftrightarrow> x \<noteq> 0"
  proof (cases "x = 0")
    case False
    then have "unat (0 - x) = 2 ^ 64 - unat x" using unat_sub_if' [of 0 x] by (simp add: unat_eq_0)
    then show ?thesis using False assms unfolding bit63 by simp
  qed simp
  then show ?thesis using msb_mask [of "0 - x"] by (simp add: constant_time_msb_w_def BN_BITS2_def)
qed

lemma num_bits_step_eq:
  assumes "0 < k" and "k < 64"
  shows "num_bits_step k (l, bits) = (if drop_bit k l \<noteq> 0 then (drop_bit k l, bits + k) else (l, bits))"
proof -
  have "unat (drop_bit k l) \<le> 2 ^ 63"
  proof -
    have "unat l div 2 ^ k \<le> unat l div 2" using assms(1) by (metis div_le_mono2 self_le_power Suc_leI one_le_numeral numeral_2_eq_2 power_increasing power_one_right zero_less_numeral)
    then show ?thesis using unat_u64_lt [of l] by (simp add: unat_drop_bit)
  qed
  then have m: "0 - drop_bit (BN_BITS2 - 1) (0 - drop_bit k l) = (if drop_bit k l \<noteq> 0 then - 1 else 0)" by (rule bits_mask)
  have "unat (of_nat k :: u64) = k" using assms(2) by (simp add: unat_of_nat)
  moreover have "l XOR (drop_bit k l XOR l) = drop_bit k l" by (simp add: xor.commute [of "drop_bit k l"] xor.assoc [symmetric])
  ultimately show ?thesis unfolding num_bits_step_def case_prod_conv Let_def m by simp
qed

text \<open>What the steps keep: \<^verbatim>\<open>l\<close> is what is left of the word after its low bits have been counted.\<close>

definition counted :: "u64 \<Rightarrow> nat \<Rightarrow> u64 \<times> nat \<Rightarrow> bool" where
  "counted l0 k = (\<lambda>(l, bits). \<exists>n. bits = n + 1 \<and> unat l = unat l0 div 2 ^ n \<and> 0 < unat l \<and> unat l < 2 ^ k)"

lemma counted_step: "counted l0 (2 * k) s \<Longrightarrow> 0 < k \<Longrightarrow> k < 64 \<Longrightarrow> counted l0 k (num_bits_step k s)"
proof -
  assume c: "counted l0 (2 * k) s" and k: "0 < k" "k < 64"
  obtain l n where s: "s = (l, n + 1)" and l: "unat l = unat l0 div 2 ^ n" "0 < unat l" "unat l < 2 ^ (2 * k)"
    using c by (cases s) (auto simp: counted_def)
  show ?thesis
  proof (cases "drop_bit k l = 0")
    case True
    then have "unat l div 2 ^ k = 0" using unat_drop_bit [of k l] by simp
    then have "unat l < 2 ^ k" by (simp add: div_eq_0_iff)
    then show ?thesis using l True unfolding s num_bits_step_eq [OF k] counted_def by auto
  next
    case False
    have "unat (drop_bit k l) = unat l0 div 2 ^ (n + k)" by (simp add: unat_drop_bit l(1) div_mult2_eq [symmetric] power_add)
    moreover have "unat (drop_bit k l) < 2 ^ k"
      using l(3) by (simp add: unat_drop_bit less_mult_imp_div_less mult_2 power_add)
    moreover have "0 < unat (drop_bit k l)" using False by (simp add: unat_gt_0)
    ultimately show ?thesis using False unfolding s num_bits_step_eq [OF k] counted_def by (auto intro!: exI [of _ "n + k"])
  qed
qed

lemma BN_num_bits_word_exact:
  assumes "l \<noteq> 0"
  shows "2 ^ (BN_num_bits_word l - 1) \<le> unat l" and "unat l < 2 ^ BN_num_bits_word l" and "0 < BN_num_bits_word l"
proof -
  have c0: "counted l (2 * 32) (l, 1)" using assms unat_u64_lt [of l] by (simp add: counted_def unat_gt_0)
  have c1: "counted l (2 * 16) (num_bits_step 32 (l, 1))" using counted_step [OF c0] by simp
  have c2: "counted l (2 * 8) (num_bits_step 16 (num_bits_step 32 (l, 1)))" using counted_step [OF c1] by simp
  have c3: "counted l (2 * 4) (num_bits_step 8 (num_bits_step 16 (num_bits_step 32 (l, 1))))" using counted_step [OF c2] by simp
  have c4: "counted l (2 * 2) (num_bits_step 4 (num_bits_step 8 (num_bits_step 16 (num_bits_step 32 (l, 1)))))"
    using counted_step [OF c3] by simp
  have c5: "counted l (2 * 1) (num_bits_step 2 (num_bits_step 4 (num_bits_step 8 (num_bits_step 16 (num_bits_step 32 (l, 1))))))"
    using counted_step [OF c4] by simp
  have c6: "counted l 1 (fold num_bits_step [32, 16, 8, 4, 2, 1] (l, 1))"
    using counted_step [OF c5] by simp
  define r where "r = fold num_bits_step [32, 16, 8, 4, 2, 1] (l, 1)"
  obtain n where n: "snd r = n + 1" "unat (fst r) = unat l div 2 ^ n" "0 < unat (fst r)" "unat (fst r) < 2 ^ 1"
    using c6 unfolding r_def [symmetric] counted_def by (auto simp: case_prod_beta)
  have b: "BN_num_bits_word l = n + 1" using assms n(1) unfolding BN_num_bits_word_def Let_def r_def by simp
  have q: "unat l div 2 ^ n = 1" using n by simp
  then have "2 ^ n \<le> unat l" using div_less [of "unat l" "2 ^ n"] by (metis not_less zero_neq_one)
  moreover have "unat l < 2 * 2 ^ n" using dividend_less_times_div [of "2 ^ n" "unat l"] q by simp
  ultimately show "2 ^ (BN_num_bits_word l - 1) \<le> unat l" "unat l < 2 ^ BN_num_bits_word l" "0 < BN_num_bits_word l"
    unfolding b by simp_all
qed

text \<open>The number of bits, and of bytes, is the least that holds the absolute value.\<close>

lemma BN_num_bits_exact:
  assumes "bn_width bn \<le> length (bn_d bn)"
  shows "bn_abs bn < 2 ^ BN_num_bits bn" and "bn_abs bn \<noteq> 0 \<Longrightarrow> 2 ^ (BN_num_bits bn - 1) \<le> bn_abs bn \<and> 0 < BN_num_bits bn"
proof -
  define m where "m = bn_minimal_width bn"
  have z: "m = 0 \<longleftrightarrow> bn_abs bn = 0" unfolding m_def by (rule bn_minimal_width_0 [OF assms])
  have "bn_abs bn < 2 ^ BN_num_bits bn \<and> (bn_abs bn \<noteq> 0 \<longrightarrow> 2 ^ (BN_num_bits bn - 1) \<le> bn_abs bn \<and> 0 < BN_num_bits bn)"
  proof (cases "m = 0")
    case True
    then show ?thesis using z by (simp add: BN_num_bits_def m_def)
  next
    case False
    then obtain k where k: "m = Suc k" by (cases m) auto
    have kl: "k < length (bn_d bn)" using assms bn_minimal_width_le [of bn] k by (simp add: m_def)
    define w where "w = bn_d bn ! k"
    have w: "w \<noteq> 0" using minimal_width_loop_top [of "bn_d bn" "bn_width bn"] k by (simp add: w_def m_def bn_minimal_width_def)
    define v where "v = words_val (take k (bn_d bn))"
    have v: "v < 2 ^ (64 * k)" using words_val_lt [of "take k (bn_d bn)"] kl by (simp add: v_def)
    have abs: "bn_abs bn = v + 2 ^ (64 * k) * unat w"
      using bn_minimal_width_val [OF assms] kl unfolding m_def [symmetric] k
      by (simp add: take_Suc_conv_app_nth words_val_append v_def w_def)
    have nb: "BN_num_bits bn = 64 * k + BN_num_bits_word w"
      using k by (simp add: BN_num_bits_def m_def [symmetric] BN_BITS2_def w_def)
    note bw = BN_num_bits_word_exact [OF w]
    have "2 ^ (64 * k) * 2 ^ (BN_num_bits_word w - 1) \<le> 2 ^ (64 * k) * unat w" using bw(1) by simp
    moreover have "BN_num_bits bn - 1 = 64 * k + (BN_num_bits_word w - 1)" using bw(3) by (simp add: nb)
    ultimately have lo: "2 ^ (BN_num_bits bn - 1) \<le> bn_abs bn" unfolding abs by (simp only: power_add trans_le_add2)
    have "v + 2 ^ (64 * k) * unat w < 2 ^ (64 * k) * (unat w + 1)" using v by simp
    also have "\<dots> \<le> 2 ^ (64 * k) * 2 ^ BN_num_bits_word w" using bw(2) by (intro mult_left_mono) simp_all
    finally have "bn_abs bn < 2 ^ BN_num_bits bn" unfolding abs nb by (simp add: power_add)
    then show ?thesis using lo bw(3) by (simp add: nb)
  qed
  then show "bn_abs bn < 2 ^ BN_num_bits bn" "bn_abs bn \<noteq> 0 \<Longrightarrow> 2 ^ (BN_num_bits bn - 1) \<le> bn_abs bn \<and> 0 < BN_num_bits bn" by simp_all
qed


section \<open>Comparison\<close>

definition ucmp :: "nat \<Rightarrow> nat \<Rightarrow> int" where
  "ucmp x y = (if x < y then - 1 else if x = y then 0 else 1)"

lemma ucmp_high:
  assumes "v < B" and "v' < B"
  shows "ucmp (v + B * h) (v' + B * h') = (if h = h' then ucmp v v' else ucmp h h')"
proof -
  have less: "x + B * i < y + B * j" if "i < j" "x < B" for x y i j
  proof -
    have "x + B * i < B * (i + 1)" using that by simp
    also have "\<dots> \<le> B * j" using that by (intro mult_left_mono) simp_all
    finally show ?thesis by simp
  qed
  consider "h = h'" | "h < h'" | "h' < h" by linarith
  then show ?thesis by cases (use less [of h h' v v'] less [of h' h v' v] assms in \<open>auto simp: ucmp_def\<close>)
qed

lemma select_int: "constant_time_select_int (if P then - 1 else 0) a b = (if P then a else b)"
  by (simp add: constant_time_select_int_def select_w)

lemma words_val_Suc:
  "i < length a \<Longrightarrow> words_val (take (Suc i) a) = words_val (take i a) + 2 ^ (64 * i) * unat (a ! i)"
  by (simp add: take_Suc_conv_app_nth words_val_append)

lemma cmp_fold:
  assumes "n \<le> length a" and "n \<le> length b"
  shows "fold (\<lambda>i ret.
      let eq = constant_time_eq_w (a ! i) (b ! i); lt = constant_time_lt_w (a ! i) (b ! i)
      in constant_time_select_int eq ret (constant_time_select_int lt (- 1) 1)) [0..<n] (0 :: 32 word) =
    of_int (ucmp (words_val (take n a)) (words_val (take n b)))"
  using assms
proof (induction n)
  case (Suc n)
  have v: "words_val (take n a) < 2 ^ (64 * n)" "words_val (take n b) < 2 ^ (64 * n)"
    using words_val_lt [of "take n a"] words_val_lt [of "take n b"] Suc.prems by simp_all
  have "ucmp (words_val (take (Suc n) a)) (words_val (take (Suc n) b)) =
      (if a ! n = b ! n then ucmp (words_val (take n a)) (words_val (take n b)) else ucmp (unat (a ! n)) (unat (b ! n)))"
    using Suc.prems by (simp add: words_val_Suc ucmp_high [OF v] word_unat_eq_iff)
  then show ?case using Suc by (simp add: Let_def eq_w lt_w select_int ucmp_def word_less_nat_alt word_unat_eq_iff)
qed (simp add: ucmp_def)

lemma sint_ucmp: "sint (of_int (ucmp x y) :: 32 word) = ucmp x y"
  by (simp add: ucmp_def)

lemma words_val_split: "n \<le> length b \<Longrightarrow> words_val b = words_val (take n b) + 2 ^ (64 * n) * words_val (drop n b)"
  using words_val_append [of "take n b" "drop n b"] by (simp add: min.absorb2)

lemma mask_drop: "n \<le> length b \<Longrightarrow> fold (\<lambda>i mask. mask OR b ! i) [n..<length b] (0 :: u64) = 0 \<longleftrightarrow> words_val (drop n b) = 0"
proof -
  assume n: "n \<le> length b"
  have "(\<forall>i\<in>{n..<length b}. b ! i = 0) \<longleftrightarrow> (\<forall>w\<in>set (drop n b). w = 0)"
  proof
    assume z: "\<forall>i\<in>{n..<length b}. b ! i = 0"
    show "\<forall>w\<in>set (drop n b). w = 0" using z n by (auto simp: in_set_conv_nth)
  next
    assume z: "\<forall>w\<in>set (drop n b). w = 0"
    have "b ! i = 0" if "i \<in> {n..<length b}" for i
    proof -
      have "b ! i = drop n b ! (i - n)" "i - n < length (drop n b)" using that n by auto
      then show ?thesis using z nth_mem by metis
    qed
    then show "\<forall>i\<in>{n..<length b}. b ! i = 0" ..
  qed
  then show ?thesis unfolding fold_or_zero words_val_0_iff by simp
qed

lemma bn_cmp_words_exact: "bn_cmp_words_consttime a b = ucmp (words_val a) (words_val b)"
proof -
  define m where "m = (if length a < length b then length a else length b)"
  define ret :: "32 word" where "ret = of_int (ucmp (words_val (take m a)) (words_val (take m b)))"
  have r: "fold (\<lambda>i ret.
      let eq = constant_time_eq_w (a ! i) (b ! i); lt = constant_time_lt_w (a ! i) (b ! i)
      in constant_time_select_int eq ret (constant_time_select_int lt (- 1) 1)) [0..<m] (0 :: 32 word) = ret"
    unfolding ret_def by (rule cmp_fold) (simp_all add: m_def)
  have e: "bn_cmp_words_consttime a b = sint (if length a < length b
       then constant_time_select_int (constant_time_is_zero_w (fold (\<lambda>i mask. mask OR b ! i) [length a..<length b] 0)) ret (- 1)
       else if length b < length a
       then constant_time_select_int (constant_time_is_zero_w (fold (\<lambda>i mask. mask OR a ! i) [length b..<length a] 0)) ret 1
       else ret)"
    unfolding bn_cmp_words_consttime_def Let_def m_def [symmetric] r [unfolded Let_def] ..
  have sret: "sint ret = ucmp (words_val (take m a)) (words_val (take m b))" unfolding ret_def by (rule sint_ucmp)
  consider (less) "length a < length b" | (greater) "length b < length a" | (same) "length a = length b" by linarith
  then show ?thesis
  proof cases
    case less
    have vb: "words_val b = words_val (take (length a) b) + 2 ^ (64 * length a) * words_val (drop (length a) b)"
      using less by (intro words_val_split) simp
    have lt: "words_val a < 2 ^ (64 * length a)" by (rule words_val_lt)
    have m: "m = length a" using less by (simp add: m_def)
    have "bn_cmp_words_consttime a b = sint (if words_val (drop (length a) b) = 0 then ret else - 1)"
      unfolding e if_P [OF less] is_zero_w select_int mask_drop [OF less_imp_le [OF less]] ..
    also have "\<dots> = ucmp (words_val a) (words_val b)"
    proof (cases "words_val (drop (length a) b)")
      case 0
      then show ?thesis using sret vb by (simp add: m)
    next
      case (Suc k)
      then have "2 ^ (64 * length a) \<le> words_val b" using vb by simp
      then have "words_val a < words_val b" using lt by linarith
      then show ?thesis by (simp add: ucmp_def Suc)
    qed
    finally show ?thesis .
  next
    case greater
    have va: "words_val a = words_val (take (length b) a) + 2 ^ (64 * length b) * words_val (drop (length b) a)"
      using greater by (intro words_val_split) simp
    have lt: "words_val b < 2 ^ (64 * length b)" by (rule words_val_lt)
    have m: "m = length b" using greater by (simp add: m_def)
    have ng: "\<not> length a < length b" using greater by simp
    have "bn_cmp_words_consttime a b = sint (if words_val (drop (length b) a) = 0 then ret else 1)"
      unfolding e if_not_P [OF ng] if_P [OF greater] is_zero_w select_int mask_drop [OF less_imp_le [OF greater]] ..
    also have "\<dots> = ucmp (words_val a) (words_val b)"
    proof (cases "words_val (drop (length b) a)")
      case 0
      then show ?thesis using sret va by (simp add: m)
    next
      case (Suc k)
      then have "2 ^ (64 * length b) \<le> words_val a" using va by simp
      then have "words_val b < words_val a" using lt by linarith
      then show ?thesis by (simp add: ucmp_def Suc)
    qed
    finally show ?thesis .
  next
    case same
    then show ?thesis using sret unfolding e by (simp add: m_def)
  qed
qed

lemma BN_ucmp_exact: "BN_ucmp a b = ucmp (bn_abs a) (bn_abs b)"
  by (simp add: BN_ucmp_def bn_cmp_words_exact bn_abs_def bn_words_def)

definition icmp :: "int \<Rightarrow> int \<Rightarrow> int" where
  "icmp x y = (if x < y then - 1 else if x = y then 0 else 1)"

lemma BN_cmp_exact:
  assumes "bn_ok a" and "bn_ok b"
  shows "BN_cmp (Some a) (Some b) = icmp (bn_int a) (bn_int b)"
  using assms by (auto simp: BN_cmp_def BN_ucmp_exact ucmp_def icmp_def bn_int_def bn_ok_def Let_def)

lemma BN_cmp_word_exact: "bn_ok a \<Longrightarrow> BN_cmp_word a w = icmp (bn_int a) (int (unat w))"
proof -
  assume a: "bn_ok a"
  define b where "b = \<lparr>bn_d = [w], bn_width = (if w > 0 then 1 else 0), bn_neg = False, bn_static = True\<rparr>"
  have "bn_abs b = unat w" by (auto simp: b_def bn_abs_def bn_words_def word_less_nat_alt unat_eq_0)
  then have "bn_ok b" "bn_int b = int (unat w)" by (auto simp: bn_ok_def bn_int_def b_def)
  then show ?thesis using BN_cmp_exact [OF a, of b] by (simp add: BN_cmp_word_def b_def Let_def)
qed

lemma BN_abs_is_word_exact:
  assumes "bn_width bn \<le> length (bn_d bn)"
  shows "BN_abs_is_word bn w \<longleftrightarrow> bn_abs bn = unat w"
proof (cases "bn_width bn")
  case 0
  then show ?thesis by (auto simp: BN_abs_is_word_def bn_abs_def bn_words_def unat_eq_0)
next
  case (Suc k)
  then obtain x ws where d: "bn_words bn = x # ws" using assms by (cases "bn_words bn") (auto dest: arg_cong [where f = length])
  have lw: "length ws = k" using d Suc assms by (metis length_bn_words length_Cons Suc_inject)
  have "(\<forall>i\<in>{1..<Suc k}. bn_d bn ! i = 0) \<longleftrightarrow> (\<forall>w\<in>set ws. w = 0)"
  proof -
    have "bn_d bn ! Suc i = ws ! i" if "i < k" for i using nth_bn_words [of "Suc i" bn] d Suc that by simp
    then show ?thesis using lw
      by (metis (no_types, lifting) One_nat_def Suc_le_eq Suc_less_eq atLeastLessThan_iff gr0_conv_Suc in_set_conv_nth less_Suc_eq_0_disj zero_less_Suc)
  qed
  moreover have "bn_d bn ! 0 = x" using nth_bn_words [of 0 bn] d Suc by simp
  ultimately have "BN_abs_is_word bn w \<longleftrightarrow> x = w \<and> words_val ws = 0"
    using Suc by (simp add: BN_abs_is_word_def fold_or_zero words_val_0_iff xor_eq_0_iff del: upt_Suc)
  also have "\<dots> \<longleftrightarrow> bn_abs bn = unat w"
  proof -
    have "unat x + 2 ^ 64 * n = unat w \<longleftrightarrow> x = w \<and> n = 0" for n
    proof
      assume e: "unat x + 2 ^ 64 * n = unat w"
      then have "n = 0" using unat_u64_lt [of w] by (cases n) auto
      then show "x = w \<and> n = 0" using e by (simp add: word_unat_eq_iff)
    qed simp
    then show ?thesis by (simp add: bn_abs_def d)
  qed
  finally show ?thesis .
qed

lemma BN_equal_consttime_exact:
  assumes "bn_ok a" and "bn_ok b"
  shows "BN_equal_consttime a b \<longleftrightarrow> bn_int a = bn_int b"
proof -
  define m where "m = (if bn_width a < bn_width b then bn_width a else bn_width b)"
  have w: "bn_width a \<le> length (bn_d a)" "bn_width b \<le> length (bn_d b)" using assms by (simp_all add: bn_ok_def)
  have "BN_equal_consttime a b \<longleftrightarrow>
      bn_fits_in_words b (bn_width a) \<and> bn_fits_in_words a (bn_width b) \<and> (\<forall>i<m. bn_d a ! i = bn_d b ! i) \<and> bn_neg a = bn_neg b"
    unfolding BN_equal_consttime_def Let_def m_def [symmetric] or_eq_0_iff fold_or_zero bn_fits_in_words_iff by (auto simp: xor_eq_0_iff)
  also have "(\<forall>i<m. bn_d a ! i = bn_d b ! i) \<longleftrightarrow> take m (bn_d a) = take m (bn_d b)"
    using w by (auto simp: list_eq_iff_nth_eq m_def)
  also have "bn_fits_in_words b (bn_width a) \<and> bn_fits_in_words a (bn_width b) \<and> take m (bn_d a) = take m (bn_d b) \<and> bn_neg a = bn_neg b \<longleftrightarrow>
      bn_abs a = bn_abs b \<and> bn_neg a = bn_neg b"
  proof -
    have va: "words_val (take m (bn_d a)) = bn_abs a" if "bn_fits_in_words a (bn_width b)"
      using bn_fits_take [OF w(1), of m] that by (cases "bn_width a < bn_width b") (simp_all add: m_def bn_abs_def bn_words_def)
    have vb: "words_val (take m (bn_d b)) = bn_abs b" if "bn_fits_in_words b (bn_width a)"
      using bn_fits_take [OF w(2), of m] that by (cases "bn_width a < bn_width b") (simp_all add: m_def bn_abs_def bn_words_def)
    have fits: "bn_fits_in_words b (bn_width a)" "bn_fits_in_words a (bn_width b)" if "bn_abs a = bn_abs b"
      using that words_val_lt [of "bn_words a"] words_val_lt [of "bn_words b"] w
      unfolding bn_fits_in_words_abs [OF w(1)] bn_fits_in_words_abs [OF w(2)] by (simp_all add: bn_abs_def)
    have "length (take m (bn_d a)) = length (take m (bn_d b))" using w by (auto simp: m_def)
    then have "take m (bn_d a) = take m (bn_d b)" if "bn_abs a = bn_abs b"
      using words_val_inj va [OF fits(2) [OF that]] vb [OF fits(1) [OF that]] that by simp
    then show ?thesis using va vb fits by auto
  qed
  also have "\<dots> \<longleftrightarrow> bn_int a = bn_int b" using assms by (auto simp: bn_int_def bn_ok_def)
  finally show ?thesis .
qed

section \<open>Predicates\<close>

lemma BN_num_bits_le_iff:
  assumes "bn_width bn \<le> length (bn_d bn)"
  shows "BN_num_bits bn \<le> n \<longleftrightarrow> bn_abs bn < 2 ^ n"
proof
  assume "BN_num_bits bn \<le> n"
  then have "(2 :: nat) ^ BN_num_bits bn \<le> 2 ^ n" by (intro power_increasing) simp_all
  then show "bn_abs bn < 2 ^ n" using BN_num_bits_exact(1) [OF assms] by linarith
next
  assume lt: "bn_abs bn < 2 ^ n"
  show "BN_num_bits bn \<le> n"
  proof (cases "bn_abs bn = 0")
    case True
    then show ?thesis using bn_minimal_width_0 [OF assms] by (simp add: BN_num_bits_def)
  next
    case False
    then have "2 ^ (BN_num_bits bn - 1) < (2 :: nat) ^ n" using BN_num_bits_exact(2) [OF assms False] lt by linarith
    then show ?thesis by simp
  qed
qed

lemma BN_num_bytes_le_iff:
  assumes "bn_width bn \<le> length (bn_d bn)"
  shows "BN_num_bytes bn \<le> n \<longleftrightarrow> bn_abs bn < 256 ^ n"
proof -
  have "BN_num_bytes bn \<le> n \<longleftrightarrow> BN_num_bits bn \<le> 8 * n" unfolding BN_num_bytes_def by linarith
  moreover have "(256 :: nat) ^ n = 2 ^ (8 * n)" by (simp add: power_mult)
  ultimately show ?thesis using BN_num_bits_le_iff [OF assms] by simp
qed

lemma BN_is_one_iff: "bn_ok bn \<Longrightarrow> BN_is_one bn \<longleftrightarrow> bn_int bn = 1"
  by (auto simp: BN_is_one_def BN_abs_is_word_exact bn_ok_def bn_int_def)

lemma BN_is_word_iff:
  assumes "bn_ok bn"
  shows "BN_is_word bn w \<longleftrightarrow> bn_int bn = int (unat w)"
proof -
  have "bn_int bn = int (unat w) \<longleftrightarrow> bn_abs bn = unat w \<and> \<not> bn_neg bn"
  proof (cases "bn_neg bn")
    case True
    have "0 < bn_abs bn" using assms True by (simp add: bn_ok_def)
    then have "- int (bn_abs bn) \<noteq> int (unat w)" by linarith
    then show ?thesis using True by (simp only: bn_int_def if_True simp_thms)
  next
    case False
    then show ?thesis by (simp only: bn_int_def if_False of_nat_eq_iff simp_thms)
  qed
  then show ?thesis using assms by (auto simp: BN_is_word_def BN_abs_is_word_exact bn_ok_def unat_eq_0)
qed

lemma BN_is_odd_iff:
  assumes "bn_width bn \<le> length (bn_d bn)"
  shows "BN_is_odd bn \<longleftrightarrow> odd (bn_int bn)"
proof -
  have "odd (bn_int bn) \<longleftrightarrow> odd (bn_abs bn)" by (simp add: bn_int_def)
  also have "\<dots> \<longleftrightarrow> BN_is_odd bn"
  proof (cases "bn_words bn")
    case Nil
    then have "bn_width bn = 0" using length_bn_words [OF assms] by simp
    then show ?thesis by (simp add: BN_is_odd_def bn_abs_def Nil)
  next
    case (Cons w ws)
    then have w: "0 < bn_width bn" using length_bn_words [OF assms] by auto
    then have n: "bn_d bn ! 0 = w" using nth_bn_words [of 0 bn] Cons by simp
    have "odd (bn_abs bn) \<longleftrightarrow> odd (unat w)" by (simp add: bn_abs_def Cons)
    also have "\<dots> \<longleftrightarrow> bit w 0" by (simp add: bit_unsigned_iff flip: bit_0)
    also have "\<dots> \<longleftrightarrow> w AND 1 = 1" by (simp add: bit_0 and_one_eq odd_iff_mod_2_eq_one)
    finally show ?thesis using w n by (simp add: BN_is_odd_def)
  qed
  finally show ?thesis by simp
qed

text \<open>A power of two: the top word has one bit, and the words below it none.\<close>

lemma word_pow2_iff:
  assumes "w \<noteq> (0 :: u64)"
  shows "w AND (w - 1) = 0 \<longleftrightarrow> (\<exists>k. unat w = 2 ^ k)"
proof
  assume z: "w AND (w - 1) = 0"
  define k where "k = BN_num_bits_word w - 1"
  have k: "2 ^ k \<le> unat w" "unat w < 2 ^ Suc k"
    using BN_num_bits_word_exact [OF assms] by (simp_all add: k_def)
  have k64: "k < 64" using k(1) unat_u64_lt [of w] by (metis le_less_trans power_less_imp_less_exp one_less_numeral_iff semiring_norm(76))
  have bit_word_iff_nat: "bit v k \<longleftrightarrow> odd (unat v div 2 ^ k)" for v :: u64
    using bit_unsigned_iff [of v k] k64 by (metis bit_iff_odd bit_unsigned_iff possible_bit_nat)
  have bit_top: "bit v k" if "2 ^ k \<le> unat v" "unat v < 2 ^ Suc k" for v :: u64
  proof -
    have "unat v div 2 ^ k = 1" using that by (intro div_nat_eqI) simp_all
    then show ?thesis using k64 by (simp add: bit_word_iff_nat)
  qed
  have "\<not> bit (w AND (w - 1)) k" using z by simp
  then have "\<not> bit (w - 1) k" using bit_top [OF k] by (simp add: bit_and_iff)
  then have "\<not> (2 ^ k \<le> unat (w - 1) \<and> unat (w - 1) < 2 ^ Suc k)" using bit_top by blast
  moreover have "unat (w - 1) = unat w - 1" using assms by (simp add: unat_minus_one)
  ultimately have "unat w = 2 ^ k" using k by linarith
  then show "\<exists>k. unat w = 2 ^ k" ..
next
  assume "\<exists>k. unat w = 2 ^ k"
  then obtain k where k: "unat w = 2 ^ k" by blast
  have w: "w = 2 ^ k" using arg_cong [OF k, of "of_nat :: nat \<Rightarrow> u64"] by simp
  show "w AND (w - 1) = 0" unfolding w mask_eq_decr_exp [symmetric] by (intro bit_word_eqI) (auto simp: bit_and_iff bit_exp_iff bit_mask_iff)
qed


lemma power_split:
  assumes "h \<noteq> 0" and "v < 2 ^ n" and "v + 2 ^ n * h = 2 ^ (k :: nat)"
  shows "v = (0 :: nat) \<and> (\<exists>j. h = 2 ^ j)"
proof -
  have "2 ^ n * 1 \<le> 2 ^ n * h" using assms(1) by (intro mult_left_mono) simp_all
  then have "2 ^ n \<le> (2 :: nat) ^ k" using assms(3) by linarith
  then have le: "n \<le> k" by simp
  then have p: "(2 :: nat) ^ k = 2 ^ n * 2 ^ (k - n)" by (simp flip: power_add)
  have "v = (v + 2 ^ n * h) mod 2 ^ n" using assms(2) by simp
  also have "\<dots> = 0" unfolding assms(3) p by simp
  finally show ?thesis using assms(3) p by auto
qed

lemma BN_is_pow2_iff:
  assumes "bn_ok bn"
  shows "BN_is_pow2 bn \<longleftrightarrow> (\<exists>k. bn_int bn = 2 ^ k)"
proof -
  have wok: "bn_width bn \<le> length (bn_d bn)" using assms by (simp add: bn_ok_def)
  define m where "m = bn_minimal_width bn"
  have z: "m = 0 \<longleftrightarrow> bn_abs bn = 0" unfolding m_def by (rule bn_minimal_width_0 [OF wok])
  have int: "(\<exists>k. bn_int bn = 2 ^ k) \<longleftrightarrow> \<not> bn_neg bn \<and> (\<exists>k. bn_abs bn = 2 ^ k)"
  proof -
    have "- int x \<noteq> 2 ^ k" for x k by (metis (mono_tags) linorder_not_less neg_le_0_iff_le of_nat_0_le_iff zero_less_numeral zero_less_power)
    moreover have "int x = 2 ^ k \<longleftrightarrow> x = 2 ^ k" for x k by (metis of_nat_eq_iff of_nat_numeral of_nat_power)
    ultimately show ?thesis by (simp add: bn_int_def)
  qed
  show ?thesis
  proof (cases "m = 0")
    case True
    then show ?thesis using z unfolding int by (simp add: BN_is_pow2_def m_def)
  next
    case False
    then obtain k where k: "m = Suc k" by (cases m) auto
    have kl: "k < length (bn_d bn)" using wok bn_minimal_width_le [of bn] k by (simp add: m_def)
    define w where "w = bn_d bn ! k"
    define v where "v = words_val (take k (bn_d bn))"
    have w: "w \<noteq> 0" using minimal_width_loop_top [of "bn_d bn" "bn_width bn"] k by (simp add: w_def m_def bn_minimal_width_def)
    have v: "v < 2 ^ (64 * k)" using words_val_lt [of "take k (bn_d bn)"] kl by (simp add: v_def)
    have abs: "bn_abs bn = v + 2 ^ (64 * k) * unat w"
      using bn_minimal_width_val [OF wok] kl unfolding m_def [symmetric] k
      by (simp add: take_Suc_conv_app_nth words_val_append v_def w_def)
    have v0: "(\<exists>i\<in>set [0..<m - 1]. bn_d bn ! i \<noteq> 0) \<longleftrightarrow> v \<noteq> 0"
    proof -
      have "set (take k (bn_d bn)) = (\<lambda>i. bn_d bn ! i) ` {0..<k}" using kl nth_image [of k "bn_d bn"] by simp
      then show ?thesis unfolding v_def words_val_0_iff by (simp add: k)
    qed
    have "BN_is_pow2 bn \<longleftrightarrow> \<not> bn_neg bn \<and> v = 0 \<and> w AND (w - 1) = 0"
      unfolding BN_is_pow2_def Let_def m_def [symmetric] v0 by (auto simp: k w_def)
    also have "v = 0 \<and> w AND (w - 1) = 0 \<longleftrightarrow> (\<exists>k. bn_abs bn = 2 ^ k)"
    proof
      assume a: "v = 0 \<and> w AND (w - 1) = 0"
      then obtain j where "unat w = 2 ^ j" using word_pow2_iff [OF w] by blast
      then have "bn_abs bn = 2 ^ (64 * k + j)" using a by (simp add: abs power_add)
      then show "\<exists>k. bn_abs bn = 2 ^ k" ..
    next
      assume "\<exists>k. bn_abs bn = 2 ^ k"
      then obtain j where "v + 2 ^ (64 * k) * unat w = 2 ^ j" using abs by auto
      moreover have "unat w \<noteq> 0" using w by (simp add: unat_eq_0)
      ultimately have "v = 0 \<and> (\<exists>j. unat w = 2 ^ j)" using power_split [OF _ v] by blast
      then show "v = 0 \<and> w AND (w - 1) = 0" using word_pow2_iff [OF w] by blast
    qed
    finally show ?thesis unfolding int .
  qed
qed

text \<open>
  C36: the comparisons and the predicates of \<^verbatim>\<open>cmp.c\<close> and the lengths of \<^verbatim>\<open>bn.c\<close> are those of the integers that the
  numbers stand for, whatever the widths: \<^verbatim>\<open>BN_cmp\<close>, \<^verbatim>\<open>BN_ucmp\<close> and \<^verbatim>\<open>BN_cmp_word\<close> order them, \<^verbatim>\<open>BN_equal_consttime\<close> is
  equality, \<^verbatim>\<open>BN_is_zero\<close>, \<^verbatim>\<open>BN_is_one\<close>, \<^verbatim>\<open>BN_is_word\<close>, \<^verbatim>\<open>BN_is_odd\<close> and \<^verbatim>\<open>BN_is_pow2\<close> mean what they say, and \<^verbatim>\<open>BN_num_bits\<close> and
  \<^verbatim>\<open>BN_num_bytes\<close> are the least numbers of bits and of bytes that hold the absolute value.
\<close>

theorem bn_comparison_exact:
  assumes "bn_ok a" and "bn_ok b"
  shows "BN_cmp (Some a) (Some b) = icmp (bn_int a) (bn_int b) \<and> BN_ucmp a b = icmp \<bar>bn_int a\<bar> \<bar>bn_int b\<bar> \<and>
    BN_cmp_word a w = icmp (bn_int a) (int (unat w)) \<and>
    (BN_equal_consttime a b \<longleftrightarrow> bn_int a = bn_int b) \<and>
    (BN_is_zero a \<longleftrightarrow> bn_int a = 0) \<and> (BN_is_one a \<longleftrightarrow> bn_int a = 1) \<and> (BN_is_word a w \<longleftrightarrow> bn_int a = int (unat w)) \<and>
    (BN_is_odd a \<longleftrightarrow> odd (bn_int a)) \<and> (BN_is_pow2 a \<longleftrightarrow> (\<exists>k. bn_int a = 2 ^ k)) \<and>
    (BN_num_bits a \<le> n \<longleftrightarrow> \<bar>bn_int a\<bar> < 2 ^ n) \<and> (BN_num_bytes a \<le> n \<longleftrightarrow> \<bar>bn_int a\<bar> < 256 ^ n)"
proof -
  have wok: "bn_width a \<le> length (bn_d a)" using assms(1) by (simp add: bn_ok_def)
  have abs: "\<bar>bn_int x\<bar> = int (bn_abs x)" for x by (simp add: bn_int_def)
  have lt: "int x < 2 ^ n \<longleftrightarrow> x < 2 ^ n" "int x < 256 ^ n \<longleftrightarrow> x < 256 ^ n" for x
    by (metis of_nat_less_iff of_nat_numeral of_nat_power)+
  have "BN_is_zero a \<longleftrightarrow> bn_int a = 0" using BN_is_zero_iff [OF wok] by (simp add: bn_int_def)
  moreover have "BN_ucmp a b = icmp \<bar>bn_int a\<bar> \<bar>bn_int b\<bar>" by (simp add: abs BN_ucmp_exact ucmp_def icmp_def)
  ultimately show ?thesis
    using BN_cmp_exact [OF assms] BN_cmp_word_exact [OF assms(1)] BN_equal_consttime_exact [OF assms] BN_is_one_iff [OF assms(1)]
      BN_is_word_iff [OF assms(1)] BN_is_odd_iff [OF wok] BN_is_pow2_iff [OF assms(1)]
      BN_num_bits_le_iff [OF wok] BN_num_bytes_le_iff [OF wok]
    by (intro conjI) (simp_all only: abs lt)
qed

lemma bn_comparison_exact_witness:
  "BN_cmp (Some \<lparr>bn_d = [5, 0], bn_width = 2, bn_neg = True, bn_static = False\<rparr>) (Some BN_value_one) = - 1 \<and>
   BN_num_bits \<lparr>bn_d = [5, 0], bn_width = 2, bn_neg = True, bn_static = False\<rparr> \<le> 3"
proof -
  define a where "a = \<lparr>bn_d = [5, 0 :: u64], bn_width = 2, bn_neg = True, bn_static = False\<rparr>"
  have ok: "bn_ok a" "bn_ok BN_value_one" by (simp_all add: a_def BN_value_one_def bn_ok_def bn_abs_def bn_words_def)
  have v: "bn_int a = - 5" "bn_int BN_value_one = 1" by (simp_all add: a_def BN_value_one_def bn_int_def bn_abs_def bn_words_def)
  show ?thesis using bn_comparison_exact [OF ok, of 0 3] by (simp add: v icmp_def a_def [symmetric])
qed

section \<open>Assignments\<close>

text \<open>A call on \<^verbatim>\<open>old\<close> succeeds exactly when there is room, and gives the number \<^verbatim>\<open>x\<close>; a call that fails leaves all as it was.\<close>

definition bn_gives :: "bignum_st \<Rightarrow> bool \<Rightarrow> int \<Rightarrow> bool \<times> bignum_st \<Rightarrow> bool" where
  "bn_gives old room x = (\<lambda>(ok, bn). ok = room \<and> (if room then bn_ok bn \<and> bn_int bn = x else bn = old))"

lemma bn_wexpand_ok: "fst (bn_wexpand malloc bn n) = can_expand malloc bn n"
  by (auto simp: bn_wexpand_def can_expand_def BN_BITS2_def split: option.splits)

lemma bn_wexpand_cases:
  assumes "bn_width bn \<le> length (bn_d bn)"
  obtains (full) "\<not> can_expand malloc bn n" and "bn_wexpand malloc bn n = (False, bn)"
  | (room) d where "can_expand malloc bn n" and "bn_wexpand malloc bn n = (True, bn\<lparr>bn_d := d\<rparr>)" and "bn_width bn \<le> length d"
    and "take (bn_width bn) d = bn_words bn" and "n \<le> length d"
proof (cases "can_expand malloc bn n")
  case True
  then show ?thesis using bn_wexpand_obtain [OF assms, of malloc n] room by metis
next
  case False
  then have "bn_wexpand malloc bn n = (False, bn)"
    by (auto simp: bn_wexpand_def can_expand_def BN_BITS2_def split: option.splits)
  with False show ?thesis by (rule full)
qed

lemma bn_int_words: "bn_int (bn\<lparr>bn_d := d, bn_width := n, bn_neg := s\<rparr>) =
    (if s then - int (words_val (take n d)) else int (words_val (take n d)))"
  by (simp add: bn_int_def bn_abs_def bn_words_def)

lemma BN_set_word_gives:
  assumes "bn_ok bn"
  shows "bn_gives bn (w = 0 \<or> can_expand malloc bn 1) (int (unat w)) (BN_set_word malloc bn w)"
proof (cases "w = 0")
  case True
  then show ?thesis by (simp add: bn_gives_def BN_set_word_def BN_zero_def bn_ok_def bn_int_def bn_abs_def bn_words_def)
next
  case False
  have wok: "bn_width bn \<le> length (bn_d bn)" using assms by (simp add: bn_ok_def)
  show ?thesis
  proof (cases rule: bn_wexpand_cases [OF wok, of malloc 1])
    case 1
    then show ?thesis using False by (simp add: bn_gives_def BN_set_word_def)
  next
    case (2 d)
    note room = 2
    then show ?thesis using False
      by (cases d) (simp_all add: bn_gives_def BN_set_word_def bn_ok_def bn_int_def bn_abs_def bn_words_def)
  qed
qed

lemma bn_set_words_gives:
  assumes "bn_ok bn"
  shows "bn_gives bn (can_expand malloc bn (length ws)) (int (words_val ws)) (bn_set_words malloc bn ws)"
proof -
  have wok: "bn_width bn \<le> length (bn_d bn)" using assms by (simp add: bn_ok_def)
  show ?thesis
    by (cases rule: bn_wexpand_cases [OF wok, of malloc "length ws"])
      (simp_all add: bn_gives_def bn_set_words_def Let_def bn_ok_def bn_int_def bn_abs_def bn_words_def)
qed

lemma BN_copy_gives:
  assumes "bn_ok dest" and "bn_ok src"
  shows "bn_gives dest (can_expand malloc dest (bn_width src)) (bn_int src) (BN_copy malloc dest src)"
proof -
  have wok: "bn_width dest \<le> length (bn_d dest)" using assms by (simp add: bn_ok_def)
  show ?thesis using assms(2)
    by (cases rule: bn_wexpand_cases [OF wok, of malloc "bn_width src"])
      (simp_all add: bn_gives_def BN_copy_def bn_ok_def bn_int_def bn_abs_def bn_words_def)
qed

lemma bn_resize_words_gives:
  assumes "bn_ok bn"
  shows "bn_gives bn (if bn_width bn \<le> n then can_expand malloc bn n else bn_abs bn < 2 ^ (64 * n)) (bn_int bn) (bn_resize_words malloc bn n) \<and>
    (fst (bn_resize_words malloc bn n) \<longrightarrow> bn_width (snd (bn_resize_words malloc bn n)) = n)"
proof (cases "bn_width bn \<le> n")
  case True
  have wok: "bn_width bn \<le> length (bn_d bn)" using assms by (simp add: bn_ok_def)
  show ?thesis
  proof (cases rule: bn_wexpand_cases [OF wok, of malloc n])
    case 1
    then show ?thesis using True by (simp add: bn_gives_def bn_resize_words_def)
  next
    case (2 d)
    note room = 2
    define bn' where "bn' = bn\<lparr>bn_d := take (bn_width bn) d @ replicate (n - bn_width bn) 0 @ drop n d, bn_width := n\<rparr>"
    have "bn_words bn' = bn_words bn @ replicate (n - bn_width bn) 0"
      using True room wok by (simp add: bn'_def bn_words_def)
    then have "bn_abs bn' = bn_abs bn" by (simp add: bn_abs_def words_val_append)
    moreover have "bn_neg bn' = bn_neg bn" "bn_width bn' = n" "bn_width bn' \<le> length (bn_d bn')" using True room wok by (simp_all add: bn'_def)
    ultimately have "bn_ok bn' \<and> bn_int bn' = bn_int bn" using assms by (simp add: bn_ok_def bn_int_def)
    moreover have "bn_resize_words malloc bn n = (True, bn')" using True room by (simp add: bn_resize_words_def bn'_def)
    ultimately show ?thesis using True room(1) \<open>bn_width bn' = n\<close> by (simp add: bn_gives_def)
  qed
next
  case False
  have wok: "bn_width bn \<le> length (bn_d bn)" using assms by (simp add: bn_ok_def)
  show ?thesis
  proof (cases "bn_fits_in_words bn n")
    case True
    define bn' where "bn' = bn\<lparr>bn_width := n\<rparr>"
    have "bn_abs bn' = bn_abs bn" using bn_fits_take [OF wok True] False by (simp add: bn'_def bn_abs_def [of "bn\<lparr>bn_width := n\<rparr>"] bn_words_def)
    moreover have "bn_neg bn' = bn_neg bn" "bn_width bn' = n" "bn_width bn' \<le> length (bn_d bn')" using False wok by (simp_all add: bn'_def)
    ultimately have "bn_ok bn' \<and> bn_int bn' = bn_int bn" using assms by (simp add: bn_ok_def bn_int_def)
    moreover have "bn_resize_words malloc bn n = (True, bn')" using False True by (simp add: bn_resize_words_def bn'_def)
    ultimately show ?thesis using False True bn_fits_in_words_abs [OF wok, of n] \<open>bn_width bn' = n\<close> by (simp add: bn_gives_def)
  next
    case f: False
    then show ?thesis using False bn_fits_in_words_abs [OF wok, of n] by (simp add: bn_gives_def bn_resize_words_def)
  qed
qed

lemma bn_copy_words_result:
  assumes "bn_ok bn"
  shows "bn_copy_words n bn = Some ws \<longleftrightarrow> length ws = n \<and> bn_int bn = int (words_val ws)"
proof -
  have wok: "bn_width bn \<le> length (bn_d bn)" using assms by (simp add: bn_ok_def)
  define k where "k = (if bn_width bn > n then n else bn_width bn)"
  have pos: "bn_int bn = int v \<longleftrightarrow> \<not> bn_neg bn \<and> bn_abs bn = v" for v
    using assms by (auto simp: bn_int_def bn_ok_def)
  have fits: "(bn_width bn > n \<and> \<not> bn_fits_in_words bn n) \<longleftrightarrow> \<not> bn_abs bn < 2 ^ (64 * n)"
    using bn_fits_in_words_abs [OF wok, of n] by (auto simp: bn_fits_in_words_iff)
  have e: "bn_copy_words n bn = (if bn_neg bn \<or> \<not> bn_abs bn < 2 ^ (64 * n) then None else Some (take k (bn_d bn) @ replicate (n - k) 0))"
    unfolding bn_copy_words_def Let_def k_def [symmetric] using fits by auto
  have l: "length (take k (bn_d bn) @ replicate (n - k) 0) = n" using wok by (auto simp: k_def)
  have v: "words_val (take k (bn_d bn) @ replicate (n - k) 0) = bn_abs bn" if "bn_abs bn < 2 ^ (64 * n)"
  proof (cases "bn_width bn > n")
    case True
    then have "bn_fits_in_words bn n" using fits that by simp
    then show ?thesis using bn_fits_take [OF wok, of n] True by (simp add: k_def words_val_append)
  next
    case False
    then show ?thesis by (simp add: k_def words_val_append bn_abs_def bn_words_def)
  qed
  show ?thesis
  proof
    assume "bn_copy_words n bn = Some ws"
    then show "length ws = n \<and> bn_int bn = int (words_val ws)" using l v unfolding e pos by (auto split: if_splits)
  next
    assume a: "length ws = n \<and> bn_int bn = int (words_val ws)"
    then have lt: "\<not> bn_neg bn" "bn_abs bn = words_val ws" "bn_abs bn < 2 ^ (64 * n)" using words_val_lt [of ws] unfolding pos by auto
    then have "take k (bn_d bn) @ replicate (n - k) 0 = ws" using a l v [OF lt(3)] by (intro words_val_inj) simp_all
    then show "bn_copy_words n bn = Some ws" using lt by (simp add: e)
  qed
qed

lemma BN_set_negative_result:
  assumes "bn_ok bn"
  shows "bn_ok (BN_set_negative bn s) \<and> bn_int (BN_set_negative bn s) = (if s then - \<bar>bn_int bn\<bar> else \<bar>bn_int bn\<bar>)"
  using assms BN_is_zero_iff [of bn] by (auto simp: BN_set_negative_def bn_ok_def bn_int_def bn_abs_def bn_words_def)

text \<open>
  C37: the operations that set a number keep it well formed and give it the value they are asked for; they fail
  exactly when the number cannot get the words it needs, and then the number is left as it was: \<^verbatim>\<open>BN_copy\<close>, \<^verbatim>\<open>BN_set_word\<close>, \<^verbatim>\<open>BN_set_negative\<close> and \<^verbatim>\<open>BN_clear\<close>;
  \<^verbatim>\<open>bn_resize_words\<close> changes the width and not the value, and fails when the value does not fit; \<^verbatim>\<open>bn_set_words\<close> and
  \<^verbatim>\<open>bn_copy_words\<close> exchange numbers with arrays of words of a fixed size.
\<close>

theorem bn_assignments_exact:
  assumes "bn_ok bn" and "bn_ok src"
  shows "bn_gives bn (can_expand malloc bn (bn_width src)) (bn_int src) (BN_copy malloc bn src) \<and>
    bn_gives bn (w = 0 \<or> can_expand malloc bn 1) (int (unat w)) (BN_set_word malloc bn w) \<and>
    bn_gives bn (can_expand malloc bn (length ws)) (int (words_val ws)) (bn_set_words malloc bn ws) \<and>
    (bn_copy_words n bn = Some ws \<longleftrightarrow> length ws = n \<and> bn_int bn = int (words_val ws)) \<and>
    bn_gives bn (if bn_width bn \<le> n then can_expand malloc bn n else \<bar>bn_int bn\<bar> < 2 ^ (64 * n)) (bn_int bn) (bn_resize_words malloc bn n) \<and>
    (fst (bn_resize_words malloc bn n) \<longrightarrow> bn_width (snd (bn_resize_words malloc bn n)) = n) \<and>
    bn_gives bn True (if s then - \<bar>bn_int bn\<bar> else \<bar>bn_int bn\<bar>) (True, BN_set_negative bn s) \<and>
    bn_gives bn True 0 (True, BN_clear bn)"
proof -
  have "\<bar>bn_int bn\<bar> = int (bn_abs bn)" by (simp add: bn_int_def)
  then have abs: "\<bar>bn_int bn\<bar> < 2 ^ (64 * n) \<longleftrightarrow> bn_abs bn < 2 ^ (64 * n)" by (metis of_nat_less_iff of_nat_numeral of_nat_power)
  have "bn_gives bn True (if s then - \<bar>bn_int bn\<bar> else \<bar>bn_int bn\<bar>) (True, BN_set_negative bn s)"
    unfolding bn_gives_def using BN_set_negative_result [OF assms(1), of s] by simp
  moreover have "bn_gives bn True 0 (True, BN_clear bn)" by (simp add: bn_gives_def BN_clear_def bn_ok_def bn_int_def bn_abs_def bn_words_def)
  ultimately show ?thesis
    using BN_copy_gives [OF assms] BN_set_word_gives [OF assms(1)] bn_set_words_gives [OF assms(1)] bn_copy_words_result [OF assms(1)]
      bn_resize_words_gives [OF assms(1), of n malloc] unfolding abs by blast
qed

lemma bn_assignments_exact_witness:
  "bn_gives \<lparr>bn_d = [7], bn_width = 1, bn_neg = True, bn_static = False\<rparr> True 1
    (BN_copy (\<lambda>_. None) \<lparr>bn_d = [7], bn_width = 1, bn_neg = True, bn_static = False\<rparr> BN_value_one)"
proof -
  define a where "a = \<lparr>bn_d = [7 :: u64], bn_width = 1, bn_neg = True, bn_static = False\<rparr>"
  have ok: "bn_ok a" "bn_ok BN_value_one" by (simp_all add: a_def BN_value_one_def bn_ok_def bn_abs_def bn_words_def)
  have v: "can_expand (\<lambda>_. None) a (bn_width BN_value_one)" "bn_int BN_value_one = 1"
    by (simp_all add: a_def BN_value_one_def bn_int_def bn_abs_def bn_words_def can_expand_def)
  show ?thesis using bn_assignments_exact [OF ok, of "\<lambda>_. None"] v unfolding a_def [symmetric] by simp
qed

end
