(* ===== verification/BnAdd.thy ===== *)
theory BnAdd
  imports Bn
begin

text \<open>
  Addition and subtraction of big numbers: the word loops of \<^verbatim>\<open>crypto/fipsmodule/bn/generic.c\<close> and
  \<^verbatim>\<open>add.c\<close>. The numbers live in a store from handles, the C pointers to \<^verbatim>\<open>BIGNUM\<close>, so that the result may
  be one of the arguments.
\<close>

unbundle bit_operations_syntax

type_synonym bn_store = "nat \<Rightarrow> bignum_st"

section \<open>generic.c\<close>

text \<open>The loops take four words at a time and then the rest one by one. An index stands for the advanced pointers.\<close>

function words_loop :: "(nat \<Rightarrow> 's \<Rightarrow> 's) \<Rightarrow> nat \<Rightarrow> nat \<Rightarrow> 's \<Rightarrow> 's" where
  "words_loop step i n s =
     (if n div 4 \<noteq> 0 then words_loop step (i + 4) (n - 4) (step (i + 3) (step (i + 2) (step (i + 1) (step i s))))
      else if n \<noteq> 0 then words_loop step (i + 1) (n - 1) (step i s)
      else s)"
  by pat_completeness auto
termination by (relation "measure (\<lambda>(step, i, n, s). n)") (auto simp: div_eq_0_iff)

declare words_loop.simps [simp del]

definition put_word :: "nat \<Rightarrow> nat \<Rightarrow> u64 \<Rightarrow> bn_store \<Rightarrow> bn_store" where
  "put_word r i w st = st(r := (st r)\<lparr>bn_d := (bn_d (st r))[i := w]\<rparr>)"

text \<open>One word of an addition, with \<^verbatim>\<open>BN_ULLONG\<close> (a double word) and without it.\<close>

definition add_step :: "nat \<Rightarrow> nat \<Rightarrow> nat \<Rightarrow> nat \<Rightarrow> bn_store \<times> 128 word \<Rightarrow> bn_store \<times> 128 word" where
  "add_step r a b i = (\<lambda>(st, ll).
     let ll = ll + (ucast (bn_d (st a) ! i) + ucast (bn_d (st b) ! i));
         st = put_word r i (ucast ll) st
     in (st, drop_bit BN_BITS2 ll))"

definition add_step_c :: "nat \<Rightarrow> nat \<Rightarrow> nat \<Rightarrow> nat \<Rightarrow> bn_store \<times> u64 \<Rightarrow> bn_store \<times> u64" where
  "add_step_c r a b i = (\<lambda>(st, c).
     let t = bn_d (st a) ! i;
         t = t + c;
         c = (if t < c then 1 else 0);
         l = t + bn_d (st b) ! i;
         c = c + (if l < t then 1 else 0)
     in (put_word r i l st, c))"

definition bn_add_words :: "nat \<Rightarrow> nat \<Rightarrow> nat \<Rightarrow> nat \<Rightarrow> bn_store \<Rightarrow> bn_store \<times> u64" where
  "bn_add_words r a b n st =
     (if n = 0 then (st, 0)
      else case words_loop (add_step r a b) 0 n (st, 0) of (st, ll) \<Rightarrow> (st, ucast ll))"

definition bn_add_words_c :: "nat \<Rightarrow> nat \<Rightarrow> nat \<Rightarrow> nat \<Rightarrow> bn_store \<Rightarrow> bn_store \<times> u64" where
  "bn_add_words_c r a b n st =
     (if n = 0 then (st, 0) else words_loop (add_step_c r a b) 0 n (st, 0))"

definition sub_step :: "nat \<Rightarrow> nat \<Rightarrow> nat \<Rightarrow> nat \<Rightarrow> bn_store \<times> u64 \<Rightarrow> bn_store \<times> u64" where
  "sub_step r a b i = (\<lambda>(st, c).
     let t1 = bn_d (st a) ! i;
         t2 = bn_d (st b) ! i;
         st = put_word r i (t1 - t2 - c) st
     in (st, if t1 \<noteq> t2 then (if t1 < t2 then 1 else 0) else c))"

definition bn_sub_words :: "nat \<Rightarrow> nat \<Rightarrow> nat \<Rightarrow> nat \<Rightarrow> bn_store \<Rightarrow> bn_store \<times> u64" where
  "bn_sub_words r a b n st =
     (if n = 0 then (st, 0) else words_loop (sub_step r a b) 0 n (st, 0))"

section \<open>add.c\<close>

text \<open>The carry, and the borrow, through the words that only the longer number has.\<close>

definition carry_step :: "nat \<Rightarrow> nat \<Rightarrow> nat \<Rightarrow> bn_store \<times> u64 \<Rightarrow> bn_store \<times> u64" where
  "carry_step r a i = (\<lambda>(st, carry).
     let tmp = carry + bn_d (st a) ! i;
         carry = (if tmp < bn_d (st a) ! i then 1 else 0)
     in (put_word r i tmp st, carry))"

definition borrow_step :: "nat \<Rightarrow> nat \<Rightarrow> nat \<Rightarrow> bn_store \<times> u64 \<Rightarrow> bn_store \<times> u64" where
  "borrow_step r a i = (\<lambda>(st, borrow).
     let tmp = bn_d (st a) ! i;
         st = put_word r i (bn_d (st a) ! i - borrow) st
     in (st, if tmp < bn_d (st r) ! i then 1 else 0))"

definition bn_uadd_consttime :: "libc_malloc \<Rightarrow> nat \<Rightarrow> nat \<Rightarrow> nat \<Rightarrow> bn_store \<Rightarrow> bool \<times> bn_store" where
  "bn_uadd_consttime malloc r a b st =
     (let (a, b) = (if bn_width (st a) < bn_width (st b) then (b, a) else (a, b));
          mx = bn_width (st a);
          mn = bn_width (st b);
          (ok, bn) = bn_wexpand malloc (st r) (mx + 1);
          st = st(r := bn)
      in if \<not> ok then (False, st)
         else let st = st(r := (st r)\<lparr>bn_width := mx + 1\<rparr>);
                  (st, carry) = bn_add_words r a b mn st;
                  (st, carry) = fold (carry_step r a) [mn..<mx] (st, carry)
              in (True, put_word r mx carry st))"

definition BN_uadd :: "libc_malloc \<Rightarrow> nat \<Rightarrow> nat \<Rightarrow> nat \<Rightarrow> bn_store \<Rightarrow> bool \<times> bn_store" where
  "BN_uadd malloc r a b st =
     (case bn_uadd_consttime malloc r a b st of
        (ok, st) \<Rightarrow> if \<not> ok then (False, st) else (True, st(r := bn_set_minimal_width (st r))))"

definition bn_usub_consttime :: "libc_malloc \<Rightarrow> nat \<Rightarrow> nat \<Rightarrow> nat \<Rightarrow> bn_store \<Rightarrow> bool \<times> bn_store" where
  "bn_usub_consttime malloc r a b st =
     (let b_width = bn_width (st b);
          a_width = bn_width (st a)
      in if b_width > a_width \<and> \<not> bn_fits_in_words (st b) a_width then (False, st)
         else
           let b_width = (if b_width > a_width then a_width else b_width);
               (ok, bn) = bn_wexpand malloc (st r) a_width;
               st = st(r := bn)
           in if \<not> ok then (False, st)
              else let (st, borrow) = bn_sub_words r a b b_width st;
                       (st, borrow) = fold (borrow_step r a) [b_width..<a_width] (st, borrow)
                   in if borrow \<noteq> 0 then (False, st)
                      else (True, st(r := (st r)\<lparr>bn_width := a_width, bn_neg := False\<rparr>)))"

definition BN_usub :: "libc_malloc \<Rightarrow> nat \<Rightarrow> nat \<Rightarrow> nat \<Rightarrow> bn_store \<Rightarrow> bool \<times> bn_store" where
  "BN_usub malloc r a b st =
     (case bn_usub_consttime malloc r a b st of
        (ok, st) \<Rightarrow> if \<not> ok then (False, st) else (True, st(r := bn_set_minimal_width (st r))))"

definition BN_add :: "libc_malloc \<Rightarrow> nat \<Rightarrow> nat \<Rightarrow> nat \<Rightarrow> bn_store \<Rightarrow> bool \<times> bn_store" where
  "BN_add malloc r a b st =
     (let a_neg = bn_neg (st a)
      in if a_neg \<noteq> bn_neg (st b)
         then let (a, b) = (if a_neg then (b, a) else (a, b))
              in if BN_ucmp (st a) (st b) < 0
                 then (case BN_usub malloc r b a st of
                         (ok, st) \<Rightarrow> if \<not> ok then (False, st) else (True, st(r := (st r)\<lparr>bn_neg := True\<rparr>)))
                 else (case BN_usub malloc r a b st of
                         (ok, st) \<Rightarrow> if \<not> ok then (False, st) else (True, st(r := (st r)\<lparr>bn_neg := False\<rparr>)))
         else (case BN_uadd malloc r a b st of
                 (ret, st) \<Rightarrow> (ret, st(r := (st r)\<lparr>bn_neg := a_neg\<rparr>))))"

definition BN_sub :: "libc_malloc \<Rightarrow> nat \<Rightarrow> nat \<Rightarrow> nat \<Rightarrow> bn_store \<Rightarrow> bool \<times> bn_store" where
  "BN_sub malloc r a b st =
     (let (a, b, add, neg) =
            (if bn_neg (st a)
             then (if bn_neg (st b) then (b, a, False, False) else (a, b, True, True))
             else (if bn_neg (st b) then (a, b, True, False) else (a, b, False, False)))
      in if add
         then (case BN_uadd malloc r a b st of
                 (ok, st) \<Rightarrow> if \<not> ok then (False, st) else (True, st(r := (st r)\<lparr>bn_neg := neg\<rparr>)))
         else if BN_ucmp (st a) (st b) < 0
         then (case BN_usub malloc r b a st of
                 (ok, st) \<Rightarrow> if \<not> ok then (False, st) else (True, st(r := (st r)\<lparr>bn_neg := True\<rparr>)))
         else (case BN_usub malloc r a b st of
                 (ok, st) \<Rightarrow> if \<not> ok then (False, st) else (True, st(r := (st r)\<lparr>bn_neg := False\<rparr>))))"

text \<open>
  \<^verbatim>\<open>BN_add_word\<close> and \<^verbatim>\<open>BN_sub_word\<close> call each other on the absolute value. The borrow loop has no bound of
  its own; a read behind the array is \<^verbatim>\<open>None\<close>.
\<close>

function add_word_loop :: "nat \<Rightarrow> nat \<Rightarrow> u64 list \<Rightarrow> u64 \<Rightarrow> nat \<times> u64 list \<times> u64" where
  "add_word_loop width i d w =
     (if w \<noteq> 0 \<and> i < width
      then let l = d ! i + w
           in add_word_loop width (i + 1) (d[i := l]) (if w > l then 1 else 0)
      else (i, d, w))"
  by pat_completeness auto
termination by (relation "measure (\<lambda>(width, i, d, w). width - i)") auto

function sub_word_loop :: "nat \<Rightarrow> u64 list \<Rightarrow> u64 \<Rightarrow> (nat \<times> u64 list) option" where
  "sub_word_loop i d w =
     (if i \<ge> length d then None
      else if d ! i \<ge> w then Some (i, d[i := d ! i - w])
      else sub_word_loop (i + 1) (d[i := d ! i - w]) 1)"
  by pat_completeness auto
termination by (relation "measure (\<lambda>(i, d, w). length d - i)") auto

declare add_word_loop.simps [simp del] sub_word_loop.simps [simp del]

function BN_add_word :: "libc_malloc \<Rightarrow> bignum_st \<Rightarrow> u64 \<Rightarrow> (bool \<times> bignum_st) option"
  and BN_sub_word :: "libc_malloc \<Rightarrow> bignum_st \<Rightarrow> u64 \<Rightarrow> (bool \<times> bignum_st) option" where
  "BN_add_word malloc a w =
     (if w = 0 then Some (True, a)
      else if BN_is_zero a then Some (BN_set_word malloc a w)
      else if bn_neg a
      then (case BN_sub_word malloc (a\<lparr>bn_neg := False\<rparr>) w of
              None \<Rightarrow> None
            | Some (i, a) \<Rightarrow> Some (i, if \<not> BN_is_zero a then a\<lparr>bn_neg := \<not> bn_neg a\<rparr> else a))
      else (case add_word_loop (bn_width a) 0 (bn_d a) w of
              (i, d, w) \<Rightarrow>
                let a = a\<lparr>bn_d := d\<rparr>
                in if w \<noteq> 0 \<and> i = bn_width a
                   then (case bn_wexpand malloc a (bn_width a + 1) of
                           (ok, a) \<Rightarrow>
                             if \<not> ok then Some (False, a)
                             else Some (True, a\<lparr>bn_width := bn_width a + 1, bn_d := (bn_d a)[i := w]\<rparr>))
                   else Some (True, a)))"
| "BN_sub_word malloc a w =
     (if w = 0 then Some (True, a)
      else if BN_is_zero a
      then (case BN_set_word malloc a w of (i, a) \<Rightarrow> Some (i, if i then BN_set_negative a True else a))
      else if bn_neg a
      then (case BN_add_word malloc (a\<lparr>bn_neg := False\<rparr>) w of
              None \<Rightarrow> None
            | Some (i, a) \<Rightarrow> Some (i, a\<lparr>bn_neg := True\<rparr>))
      else if bn_minimal_width a = 1 \<and> bn_d a ! 0 < w
      then Some (True, a\<lparr>bn_d := (bn_d a)[0 := w - bn_d a ! 0], bn_neg := True\<rparr>)
      else (case sub_word_loop 0 (bn_d a) w of
              None \<Rightarrow> None
            | Some (i, d) \<Rightarrow>
                let a = a\<lparr>bn_d := d\<rparr>
                in Some (True, if bn_d a ! i = 0 \<and> i = bn_width a - 1 then a\<lparr>bn_width := bn_width a - 1\<rparr> else a)))"
  by pat_completeness auto
termination
  by (relation "measure (\<lambda>x. case x of Inl (_, a, _) \<Rightarrow> if bn_neg a then 1 else 0
    | Inr (_, a, _) \<Rightarrow> if bn_neg a then 1 else (0 :: nat))") auto

declare BN_add_word.simps [simp del] BN_sub_word.simps [simp del]

section \<open>The loops as functions on lists of words\<close>

lemma words_loop_fold: "words_loop step i n s = fold step [i..<i + n] s"
proof (induction step i n s rule: words_loop.induct)
  case (1 step i n s)
  show ?case
  proof (cases "n div 4 = 0")
    case True
    show ?thesis
    proof (cases "n = 0")
      case False
      then have "[i..<i + n] = i # [Suc i..<i + n]" by (simp add: upt_conv_Cons)
      then show ?thesis using True False 1(2) by (simp add: words_loop.simps [of step i n s])
    qed (simp add: words_loop.simps)
  next
    case False
    then have n: "4 \<le> n" by (simp add: div_eq_0_iff)
    have "[i..<i + n] = [i, i + 1, i + 2, i + 3] @ [i + 4..<i + n]"
      using n upt_conv_Cons [of i "i + n"] upt_conv_Cons [of "i + 1" "i + n"] upt_conv_Cons [of "i + 2" "i + n"]
        upt_conv_Cons [of "i + 3" "i + n"] by (simp add: numeral_eq_Suc)
    then show ?thesis using False n 1(1) by (simp add: words_loop.simps [of step i n s])
  qed
qed

text \<open>
  Each step reads the words of two numbers at an index and writes a word of the result there. Since the later steps
  read and write at larger indices only, the result may be one of the two numbers.
\<close>

definition word_step_at :: "(u64 \<Rightarrow> u64 \<Rightarrow> 'c \<Rightarrow> u64 \<times> 'c) \<Rightarrow> nat \<Rightarrow> nat \<Rightarrow> nat \<Rightarrow> nat \<Rightarrow> nat \<Rightarrow> nat \<Rightarrow>
    nat \<Rightarrow> bn_store \<times> 'c \<Rightarrow> bn_store \<times> 'c" where
  "word_step_at f r ro a ao b bo i = (\<lambda>(st, c).
     case f (bn_d (st a) ! (ao + i)) (bn_d (st b) ! (bo + i)) c of (w, c) \<Rightarrow> (put_word r (ro + i) w st, c))"

abbreviation word_step :: "(u64 \<Rightarrow> u64 \<Rightarrow> 'c \<Rightarrow> u64 \<times> 'c) \<Rightarrow> nat \<Rightarrow> nat \<Rightarrow> nat \<Rightarrow> nat \<Rightarrow> bn_store \<times> 'c \<Rightarrow> bn_store \<times> 'c" where
  "word_step f r a b \<equiv> word_step_at f r 0 a 0 b 0"

fun run_words :: "(u64 \<Rightarrow> u64 \<Rightarrow> 'c \<Rightarrow> u64 \<times> 'c) \<Rightarrow> u64 list \<Rightarrow> u64 list \<Rightarrow> 'c \<Rightarrow> u64 list \<times> 'c" where
  "run_words f (x # xs) (y # ys) c = (case f x y c of (w, c) \<Rightarrow> case run_words f xs ys c of (ws, c) \<Rightarrow> (w # ws, c))"
| "run_words f xs ys c = ([], c)"

lemma length_run_words [simp]: "length (fst (run_words f xs ys c)) = min (length xs) (length ys)"
  by (induction f xs ys c rule: run_words.induct) (auto split: prod.splits)

definition segment :: "nat \<Rightarrow> nat \<Rightarrow> u64 list \<Rightarrow> u64 list" where
  "segment lo hi d = take (hi - lo) (drop lo d)"

lemma segment_Cons: "lo < hi \<Longrightarrow> hi \<le> length d \<Longrightarrow> segment lo hi d = d ! lo # segment (Suc lo) hi d"
  by (simp add: segment_def Cons_nth_drop_Suc [symmetric] take_Cons' Suc_diff_Suc [symmetric])

lemma segment_empty [simp]: "segment hi hi d = []"
  by (simp add: segment_def)

lemma length_segment [simp]: "hi \<le> length d \<Longrightarrow> length (segment lo hi d) = hi - lo"
  by (simp add: segment_def)

lemma segment_put_word: "i < lo \<Longrightarrow> segment lo hi (bn_d (put_word r i w st h)) = segment lo hi (bn_d (st h))"
  by (simp add: segment_def put_word_def)

lemma length_put_word [simp]: "length (bn_d (put_word r i w st h)) = length (bn_d (st h))"
  by (simp add: put_word_def)

lemma fold_word_step_at:
  assumes "lo \<le> hi" and "ao + hi \<le> length (bn_d (st a))" and "bo + hi \<le> length (bn_d (st b))" and "ro + hi \<le> length (bn_d (st r))"
    and "r = a \<longrightarrow> ro \<le> ao" and "r = b \<longrightarrow> ro \<le> bo"
    and "run_words f (segment (ao + lo) (ao + hi) (bn_d (st a))) (segment (bo + lo) (bo + hi) (bn_d (st b))) c = (ws, c')"
  shows "fold (word_step_at f r ro a ao b bo) [lo..<hi] (st, c) =
    (st(r := (st r)\<lparr>bn_d := take (ro + lo) (bn_d (st r)) @ ws @ drop (ro + hi) (bn_d (st r))\<rparr>), c')"
  using assms
proof (induction "hi - lo" arbitrary: lo st c ws)
  case 0
  then have "lo = hi" by simp
  then show ?case using 0 by simp
next
  case (Suc n)
  then have lt: "lo < hi" by simp
  obtain w c1 where f: "f (bn_d (st a) ! (ao + lo)) (bn_d (st b) ! (bo + lo)) c = (w, c1)" by fastforce
  define st1 where "st1 = put_word r (ro + lo) w st"
  have cons: "segment (x + lo) (x + hi) d = d ! (x + lo) # segment (x + Suc lo) (x + hi) d" if "x + hi \<le> length d" for x d
    using segment_Cons [of "x + lo" "x + hi" d] lt that by simp
  obtain ws1 where ws1: "run_words f (segment (ao + Suc lo) (ao + hi) (bn_d (st a))) (segment (bo + Suc lo) (bo + hi) (bn_d (st b))) c1 = (ws1, c')"
      "ws = w # ws1"
    using Suc.prems(7) by (simp add: cons [OF Suc.prems(2)] cons [OF Suc.prems(3)] f split: prod.splits)
  have keep: "segment (Suc (x + lo)) (x + hi) (bn_d (st1 h)) = segment (Suc (x + lo)) (x + hi) (bn_d (st h))" if "r = h \<longrightarrow> ro \<le> x" for x h
    using that segment_put_word [of "ro + lo" "Suc (x + lo)" "x + hi" r w st h] by (cases "r = h") (auto simp: st1_def put_word_def)
  have len: "length (bn_d (st1 h)) = length (bn_d (st h))" for h by (simp add: st1_def)
  have "fold (word_step_at f r ro a ao b bo) [Suc lo..<hi] (st1, c1) =
      (st1(r := (st1 r)\<lparr>bn_d := take (ro + Suc lo) (bn_d (st1 r)) @ ws1 @ drop (ro + hi) (bn_d (st1 r))\<rparr>), c')"
    using Suc.hyps(2) Suc.prems(2-6) ws1(1) lt len
    by (intro Suc.hyps(1)) (simp_all add: keep [OF Suc.prems(5)] keep [OF Suc.prems(6)])
  moreover have "take (ro + Suc lo) (bn_d (st1 r)) @ ws1 @ drop (ro + hi) (bn_d (st1 r)) =
      take (ro + lo) (bn_d (st r)) @ ws @ drop (ro + hi) (bn_d (st r))"
    using lt Suc.prems(4) by (simp add: st1_def put_word_def take_Suc_conv_app_nth ws1(2))
  moreover have "[lo..<hi] = lo # [Suc lo..<hi]" using lt by (simp add: upt_conv_Cons)
  ultimately show ?case by (simp add: word_step_at_def f st1_def put_word_def)
qed

lemmas fold_word_step = fold_word_step_at [where ao = 0 and bo = 0 and ro = 0, simplified]

section \<open>Words with a carry or a borrow\<close>

text \<open>
  What a step of an addition computes, with its carry in whatever form, and a step of a subtraction. \<^verbatim>\<open>second\<close> is what
  the step takes from the second number: its word, or nothing where that number has ended.
\<close>

locale carrying =
  fixes f :: "u64 \<Rightarrow> u64 \<Rightarrow> 'c \<Rightarrow> u64 \<times> 'c" and carry :: "'c \<Rightarrow> nat" and second :: "u64 \<Rightarrow> u64"
  assumes step: "carry c \<le> 1 \<Longrightarrow> f x y c = (w, c') \<Longrightarrow>
      unat w + 2 ^ 64 * carry c' = unat x + unat (second y) + carry c \<and> carry c' \<le> 1"
begin

lemma run:
  assumes "length xs = length ys" and "carry c \<le> 1" and "run_words f xs ys c = (ws, c')"
  shows "length ws = length xs \<and> carry c' \<le> 1 \<and> words_val ws + 2 ^ (64 * length xs) * carry c' = words_val xs + words_val (map second ys) + carry c"
  using assms
proof (induction xs ys arbitrary: c ws rule: list_induct2)
  case (Cons x xs y ys)
  obtain w c1 where f: "f x y c = (w, c1)" by fastforce
  obtain ws1 where r: "run_words f xs ys c1 = (ws1, c')" "ws = w # ws1" using Cons.prems(2) by (auto simp: f split: prod.splits)
  note s = step [OF Cons.prems(1) f]
  note i = Cons.IH [OF conjunct2 [OF s] r(1)]
  have "2 ^ 64 * (words_val ws1 + 2 ^ (64 * length xs) * carry c') = 2 ^ 64 * (words_val xs + words_val (map second ys) + carry c1)"
    using i by simp
  then show ?case using s i by (simp add: r(2) algebra_simps power_add)
qed simp

end

locale borrowing =
  fixes f :: "u64 \<Rightarrow> u64 \<Rightarrow> u64 \<Rightarrow> u64 \<times> u64" and second :: "u64 \<Rightarrow> u64"
  assumes step: "c \<le> 1 \<Longrightarrow> f x y c = (w, c') \<Longrightarrow> unat w + unat (second y) + unat c = unat x + 2 ^ 64 * unat c' \<and> c' \<le> 1"
begin

lemma run:
  assumes "length xs = length ys" and "c \<le> 1" and "run_words f xs ys c = (ws, c')"
  shows "length ws = length xs \<and> c' \<le> 1 \<and> words_val ws + words_val (map second ys) + unat c = words_val xs + 2 ^ (64 * length xs) * unat c'"
  using assms
proof (induction xs ys arbitrary: c ws rule: list_induct2)
  case (Cons x xs y ys)
  obtain w c1 where f: "f x y c = (w, c1)" by fastforce
  obtain ws1 where r: "run_words f xs ys c1 = (ws1, c')" "ws = w # ws1" using Cons.prems(2) by (auto simp: f split: prod.splits)
  note s = step [OF Cons.prems(1) f]
  note i = Cons.IH [OF conjunct2 [OF s] r(1)]
  have "2 ^ 64 * (words_val ws1 + words_val (map second ys) + unat c1) = 2 ^ 64 * (words_val xs + 2 ^ (64 * length xs) * unat c')"
    using i by simp
  then show ?case using s i by (simp add: r(2) algebra_simps power_add)
qed simp

end

definition add_ll :: "u64 \<Rightarrow> u64 \<Rightarrow> 128 word \<Rightarrow> u64 \<times> 128 word" where
  "add_ll x y ll = (let ll = ll + (ucast x + ucast y) in (ucast ll, drop_bit BN_BITS2 ll))"

definition add_c :: "u64 \<Rightarrow> u64 \<Rightarrow> u64 \<Rightarrow> u64 \<times> u64" where
  "add_c x y c = (let t = x + c; c = (if t < c then 1 else 0); l = t + y in (l, c + (if l < t then 1 else 0)))"

definition add_0 :: "u64 \<Rightarrow> u64 \<Rightarrow> u64 \<Rightarrow> u64 \<times> u64" where
  "add_0 x y c = (let tmp = c + x in (tmp, if tmp < x then 1 else 0))"

definition sub_c :: "u64 \<Rightarrow> u64 \<Rightarrow> u64 \<Rightarrow> u64 \<times> u64" where
  "sub_c x y c = (x - y - c, if x \<noteq> y then (if x < y then 1 else 0) else c)"

definition sub_0 :: "u64 \<Rightarrow> u64 \<Rightarrow> u64 \<Rightarrow> u64 \<times> u64" where
  "sub_0 x y c = (x - c, if x < x - c then 1 else 0)"

lemma add_step_eq: "add_step r a b = word_step add_ll r a b"
  by (rule ext) (auto simp: add_step_def word_step_at_def add_ll_def Let_def)

lemma add_step_c_eq: "add_step_c r a b = word_step add_c r a b"
  by (rule ext) (auto simp: add_step_c_def word_step_at_def add_c_def Let_def)

lemma sub_step_eq: "sub_step r a b = word_step sub_c r a b"
  by (rule ext) (auto simp: sub_step_def word_step_at_def sub_c_def Let_def)

lemma carry_step_eq: "carry_step r a = word_step add_0 r a a"
  by (rule ext) (auto simp: carry_step_def word_step_at_def add_0_def Let_def)

lemma borrow_fold:
  assumes "lo \<le> hi" and "hi \<le> length (bn_d (st r))"
  shows "fold (borrow_step r a) [lo..<hi] (st, c) = fold (word_step sub_0 r a a) [lo..<hi] (st, c)"
  using assms
proof (induction "hi - lo" arbitrary: lo st c)
  case (Suc n)
  then have lt: "lo < hi" by simp
  have "borrow_step r a lo (st, c) = word_step sub_0 r a a lo (st, c)"
    using lt Suc.prems by (simp add: borrow_step_def word_step_at_def sub_0_def Let_def put_word_def)
  moreover obtain st' c' where s: "word_step sub_0 r a a lo (st, c) = (st', c')" by fastforce
  moreover have "hi \<le> length (bn_d (st' r))" using Suc.prems(2) s by (auto simp: word_step_at_def split: prod.splits)
  moreover have "[lo..<hi] = lo # [Suc lo..<hi]" using lt by (simp add: upt_conv_Cons)
  ultimately show ?case using Suc lt by simp
qed simp

interpretation ll: carrying add_ll unat "\<lambda>y. y"
proof
  fix c c' :: "128 word" and x y w :: u64
  assume c: "unat c \<le> 1" and e: "add_ll x y c = (w, c')"
  have lt: "unat c + (unat x + unat y) < 2 ^ 128" using c unat_u64_lt [of x] unat_u64_lt [of y] by simp
  have xy: "unat (ucast x + ucast y :: 128 word) = unat x + unat y"
    using unat_u64_lt [of x] unat_u64_lt [of y] by (simp add: unat_word_ariths(1) unat_ucast_up)
  have s: "unat (c + (ucast x + ucast y) :: 128 word) = unat c + (unat x + unat y)"
    using lt by (simp add: unat_word_ariths(1) [of c] xy)
  have "unat w = (unat c + (unat x + unat y)) mod 2 ^ 64"
    using e s by (auto simp: add_ll_def Let_def unat_ucast_down)
  moreover have "unat c' = (unat c + (unat x + unat y)) div 2 ^ 64"
    using e s by (auto simp: add_ll_def Let_def BN_BITS2_def unat_drop_bit)
  moreover have "(unat c + (unat x + unat y)) div 2 ^ 64 < 2"
    using c unat_u64_lt [of x] unat_u64_lt [of y] by (intro less_mult_imp_div_less) simp
  ultimately show "unat w + 2 ^ 64 * unat c' = unat x + unat y + unat c \<and> unat c' \<le> 1"
    using div_mult_mod_eq [of "unat c + (unat x + unat y)" "2 ^ 64"] by simp
qed

lemma unat_add_wrap: "unat (x + y :: u64) = (if unat x + unat y < 2 ^ 64 then unat x + unat y else unat x + unat y - 2 ^ 64)"
  using unat_add_lem [of x y] unat_u64_lt [of x] unat_u64_lt [of y] by (auto simp: unat_word_ariths mod_if)

lemma unat_sub_wrap: "unat (x - y :: u64) = (if unat y \<le> unat x then unat x - unat y else unat x + 2 ^ 64 - unat y)"
  using unat_u64_lt [of x] unat_u64_lt [of y] by (simp add: unat_sub_if')

lemmas wrap = unat_add_wrap unat_sub_wrap word_less_nat_alt word_le_nat_alt

interpretation plain: carrying add_c unat "\<lambda>y. y"
proof
  fix c x y w c' :: u64
  assume "unat c \<le> 1" and "add_c x y c = (w, c')"
  then show "unat w + 2 ^ 64 * unat c' = unat x + unat y + unat c \<and> unat c' \<le> 1"
    using unat_u64_lt [of x] unat_u64_lt [of y] by (auto simp: add_c_def Let_def wrap split: if_splits)
qed

interpretation add_tail: carrying add_0 unat "\<lambda>_. 0"
proof
  fix c x y w c' :: u64
  assume "unat c \<le> 1" and "add_0 x y c = (w, c')"
  then show "unat w + 2 ^ 64 * unat c' = unat x + unat (0 :: u64) + unat c \<and> unat c' \<le> 1"
    using unat_u64_lt [of x] by (auto simp: add_0_def Let_def wrap split: if_splits)
qed

interpretation sub_tail: borrowing sub_0 "\<lambda>_. 0"
proof
  fix c x y w c' :: u64
  assume "c \<le> 1" and "sub_0 x y c = (w, c')"
  then show "unat w + unat (0 :: u64) + unat c = unat x + 2 ^ 64 * unat c' \<and> c' \<le> 1"
    using unat_u64_lt [of x] unat_u64_lt [of y] by (auto simp: sub_0_def Let_def wrap split: if_splits)
qed

interpretation sub: borrowing sub_c "\<lambda>y. y"
proof
  fix c x y w c' :: u64
  assume "c \<le> 1" and "sub_c x y c = (w, c')"
  then show "unat w + unat y + unat c = unat x + 2 ^ 64 * unat c' \<and> c' \<le> 1"
    using unat_u64_lt [of x] unat_u64_lt [of y] by (auto simp: sub_c_def wrap word_unat_eq_iff split: if_splits)
qed

section \<open>Addition of absolute values\<close>

lemma segment_append: "length ws = lo \<Longrightarrow> segment lo hi (ws @ drop lo d) = segment lo hi d"
  by (simp add: segment_def)

lemma segment_words:
  assumes "take n d = ws" and "hi \<le> n"
  shows "segment lo hi d = segment lo hi ws"
proof -
  have "segment lo hi ws = take (hi - lo) (take (n - lo) (drop lo d))" using assms(1) by (auto simp: segment_def drop_take)
  then show ?thesis using assms(2) by (simp add: segment_def min.absorb1 diff_le_mono)
qed

lemma words_val_segments:
  assumes "n \<le> length ws"
  shows "words_val ws = words_val (segment 0 n ws) + 2 ^ (64 * n) * words_val (segment n (length ws) ws)"
  using words_val_split [OF assms] by (simp add: segment_def)

lemma bn_add_words_result:
  assumes "n \<le> length (bn_d (st a))" and "n \<le> length (bn_d (st b))" and "n \<le> length (bn_d (st r))"
  shows "\<exists>ws c. bn_add_words r a b n st = (st(r := (st r)\<lparr>bn_d := ws @ drop n (bn_d (st r))\<rparr>), c) \<and> length ws = n \<and> unat c \<le> 1 \<and>
    words_val ws + 2 ^ (64 * n) * unat c = words_val (segment 0 n (bn_d (st a))) + words_val (segment 0 n (bn_d (st b)))"
proof (cases "n = 0")
  case True
  then show ?thesis by (simp add: bn_add_words_def)
next
  case False
  obtain ws ll where r: "run_words add_ll (segment 0 n (bn_d (st a))) (segment 0 n (bn_d (st b))) 0 = (ws, ll)" by fastforce
  have v: "length ws = n \<and> unat ll \<le> 1 \<and>
      words_val ws + 2 ^ (64 * n) * unat ll = words_val (segment 0 n (bn_d (st a))) + words_val (segment 0 n (bn_d (st b)))"
    using ll.run [OF _ _ r] assms by simp
  have f: "fold (add_step r a b) [0..<n] (st, 0) = (st(r := (st r)\<lparr>bn_d := ws @ drop n (bn_d (st r))\<rparr>), ll)"
    unfolding add_step_eq using fold_word_step [OF _ assms r] by simp
  have "unat (ucast ll :: u64) = unat ll" using v by (simp add: unat_ucast_down)
  then show ?thesis using v False f by (intro exI [of _ ws]) (simp add: bn_add_words_def words_loop_fold)
qed

text \<open>The variant without a double word has the same result.\<close>

lemma bn_add_words_c_eq:
  assumes "n \<le> length (bn_d (st a))" and "n \<le> length (bn_d (st b))" and "n \<le> length (bn_d (st r))"
  shows "bn_add_words_c r a b n st = bn_add_words r a b n st"
proof (cases "n = 0")
  case True
  then show ?thesis by (simp add: bn_add_words_def bn_add_words_c_def)
next
  case False
  obtain ws c where r: "run_words add_c (segment 0 n (bn_d (st a))) (segment 0 n (bn_d (st b))) 0 = (ws, c)" by fastforce
  have v: "length ws = n \<and> unat c \<le> 1 \<and>
      words_val ws + 2 ^ (64 * n) * unat c = words_val (segment 0 n (bn_d (st a))) + words_val (segment 0 n (bn_d (st b)))"
    using plain.run [OF _ _ r] assms by simp
  have f: "bn_add_words_c r a b n st = (st(r := (st r)\<lparr>bn_d := ws @ drop n (bn_d (st r))\<rparr>), c)"
    unfolding bn_add_words_c_def words_loop_fold add_step_c_eq using fold_word_step [OF _ assms r] False by simp
  obtain ws' c' where w: "bn_add_words r a b n st = (st(r := (st r)\<lparr>bn_d := ws' @ drop n (bn_d (st r))\<rparr>), c')" "length ws' = n" "unat c' \<le> 1"
      "words_val ws' + 2 ^ (64 * n) * unat c' = words_val (segment 0 n (bn_d (st a))) + words_val (segment 0 n (bn_d (st b)))"
    using bn_add_words_result [OF assms] by blast
  have e: "words_val ws + 2 ^ (64 * n) * unat c = words_val ws' + 2 ^ (64 * n) * unat c'" using v w(4) by simp
  have lt: "words_val ws < 2 ^ (64 * n)" "words_val ws' < 2 ^ (64 * n)" using words_val_lt [of ws] words_val_lt [of ws'] v w(2) by simp_all
  have "words_val ws = words_val ws'" using arg_cong [OF e, of "\<lambda>x. x mod 2 ^ (64 * n)"] lt by simp
  then have "ws = ws'" "c = c'" using words_val_inj [of ws ws'] v w(2) e by (simp_all add: word_unat_eq_iff)
  then show ?thesis using f w(1) by simp
qed

lemma carry_result:
  assumes "lo \<le> hi" and "hi \<le> length (bn_d (st a))" and "hi \<le> length (bn_d (st r))" and "unat c \<le> 1"
  shows "\<exists>ws c'. fold (carry_step r a) [lo..<hi] (st, c) = (st(r := (st r)\<lparr>bn_d := take lo (bn_d (st r)) @ ws @ drop hi (bn_d (st r))\<rparr>), c') \<and>
    length ws = hi - lo \<and> words_val ws + 2 ^ (64 * (hi - lo)) * unat c' = words_val (segment lo hi (bn_d (st a))) + unat c"
proof -
  obtain ws c' where r: "run_words add_0 (segment lo hi (bn_d (st a))) (segment lo hi (bn_d (st a))) c = (ws, c')" by fastforce
  have "words_val (map (\<lambda>_. 0) xs) = 0" for xs :: "u64 list" by (induction xs) simp_all
  then show ?thesis using add_tail.run [OF refl assms(4) r] fold_word_step [OF assms(1) assms(2) assms(2) assms(3) r] assms(2)
    unfolding carry_step_eq by (intro exI [of _ ws]) simp
qed

lemma bn_wexpand_fails: "\<not> can_expand malloc bn n \<Longrightarrow> bn_wexpand malloc bn n = (False, bn)"
  by (auto simp: bn_wexpand_def can_expand_def BN_BITS2_def split: option.splits)

abbreviation width_ok :: "bignum_st \<Rightarrow> bool" where
  "width_ok bn \<equiv> bn_width bn \<le> length (bn_d bn)"

text \<open>The argument \<^verbatim>\<open>x\<close> after the result \<^verbatim>\<open>r\<close> has been expanded: its words are the same, also where it is the result.\<close>

lemma expanded_words:
  assumes "width_ok (st x)" and "take (bn_width (st r)) d = bn_words (st r)" and "bn_width (st r) \<le> length d" and "hi \<le> bn_width (st x)"
  shows "hi \<le> length (bn_d ((st(r := bn\<lparr>bn_d := d\<rparr>)) x))"
    and "segment lo hi (bn_d ((st(r := bn\<lparr>bn_d := d\<rparr>)) x)) = segment lo hi (bn_words (st x))"
  using assms segment_words [OF assms(2), of hi lo] segment_words [of "bn_width (st x)" "bn_d (st x)" "bn_words (st x)" hi lo]
  by (auto simp: bn_words_def)

lemma uadd_wide:
  assumes "width_ok (st a)" and "width_ok (st b)" and "width_ok (st r)" and "bn_width (st b) \<le> bn_width (st a)"
    and "can_expand malloc (st r) (bn_width (st a) + 1)"
  shows "\<exists>bn. (let mx = bn_width (st a);
          mn = bn_width (st b);
          (ok, bn) = bn_wexpand malloc (st r) (mx + 1);
          st = st(r := bn)
      in if \<not> ok then (False, st)
         else let st = st(r := (st r)\<lparr>bn_width := mx + 1\<rparr>);
                  (st, carry) = bn_add_words r a b mn st;
                  (st, carry) = fold (carry_step r a) [mn..<mx] (st, carry)
              in (True, put_word r mx carry st)) = (True, st(r := bn)) \<and>
    width_ok bn \<and> bn_abs bn = bn_abs (st a) + bn_abs (st b) \<and> bn_neg bn = bn_neg (st r)"
proof -
  define mx where "mx = bn_width (st a)"
  define mn where "mn = bn_width (st b)"
  have le: "mn \<le> mx" using assms(4) by (simp add: mx_def mn_def)
  obtain d where w: "bn_wexpand malloc (st r) (mx + 1) = (True, (st r)\<lparr>bn_d := d\<rparr>)" and d: "bn_width (st r) \<le> length d"
    "take (bn_width (st r)) d = bn_words (st r)" "mx + 1 \<le> length d"
    using bn_wexpand_obtain [OF assms(3), of malloc "mx + 1"] assms(5) unfolding mx_def by metis
  define st1 where "st1 = st(r := (st r)\<lparr>bn_d := d, bn_width := mx + 1\<rparr>)"
  have swap: "bn\<lparr>bn_d := x, bn_width := y\<rparr> = bn\<lparr>bn_width := y, bn_d := x\<rparr>" for bn x y by simp
  have st1: "st1 = st(r := ((st r)\<lparr>bn_width := mx + 1\<rparr>)\<lparr>bn_d := d\<rparr>)" unfolding st1_def swap ..
  have d1: "bn_d (st1 r) = d" by (simp add: st1_def)
  have A: "hi \<le> length (bn_d (st1 a))" "segment lo hi (bn_d (st1 a)) = segment lo hi (bn_words (st a))" if "hi \<le> mx" for lo hi
    unfolding st1 using expanded_words(1) [of st a r d hi "(st r)\<lparr>bn_width := mx + 1\<rparr>"] expanded_words(2) [of st a r d hi lo "(st r)\<lparr>bn_width := mx + 1\<rparr>"]
      assms(1) d(1,2) that by (simp_all add: mx_def)
  have B: "hi \<le> length (bn_d (st1 b))" "segment lo hi (bn_d (st1 b)) = segment lo hi (bn_words (st b))" if "hi \<le> mn" for lo hi
    unfolding st1 using expanded_words(1) [of st b r d hi "(st r)\<lparr>bn_width := mx + 1\<rparr>"] expanded_words(2) [of st b r d hi lo "(st r)\<lparr>bn_width := mx + 1\<rparr>"]
      assms(2) d(1,2) that by (simp_all add: mn_def)
  obtain ws c where s: "bn_add_words r a b mn st1 = (st1(r := (st1 r)\<lparr>bn_d := ws @ drop mn d\<rparr>), c)" "length ws = mn" "unat c \<le> 1"
    "words_val ws + 2 ^ (64 * mn) * unat c = words_val (segment 0 mn (bn_words (st a))) + words_val (segment 0 mn (bn_words (st b)))"
    using bn_add_words_result [of mn st1 a b r] A(1) [OF le] A(2) [OF le] B(1) [OF order.refl] B(2) [OF order.refl] d(3) le d1 by auto
  define st2 where "st2 = st1(r := (st1 r)\<lparr>bn_d := ws @ drop mn d\<rparr>)"
  have l2: "mx \<le> length (bn_d (st2 a))" "segment mn mx (bn_d (st2 a)) = segment mn mx (bn_words (st a))" "mx \<le> length (bn_d (st2 r))"
    using A(1) [of mx] A(2) [of mx mn] le d(3) s(2) segment_append [OF s(2)] d1 by (auto simp: st2_def)
  have d2: "bn_d (st2 r) = ws @ drop mn d" "take mn (ws @ drop mn d) = ws" "drop mx (ws @ drop mn d) = drop mx d"
    using s(2) le by (simp_all add: st2_def)
  obtain ws2 c2 where t: "fold (carry_step r a) [mn..<mx] (st2, c) = (st2(r := (st2 r)\<lparr>bn_d := ws @ ws2 @ drop mx d\<rparr>), c2)" "length ws2 = mx - mn"
    "words_val ws2 + 2 ^ (64 * (mx - mn)) * unat c2 = words_val (segment mn mx (bn_words (st a))) + unat c"
    using carry_result [OF le l2(1,3) s(3)] unfolding d2 l2(2) by blast
  define bn where "bn = (st r)\<lparr>bn_width := mx + 1, bn_d := (ws @ ws2 @ drop mx d)[mx := c2]\<rparr>"
  have dd: "(ws @ ws2 @ drop mx d)[mx := c2] = (ws @ ws2 @ [c2]) @ drop (Suc mx) d"
    using s(2) t(2) d(3) le Cons_nth_drop_Suc [of mx d] by (simp add: list_update_append) (metis list_update_code(2))
  have words: "bn_words bn = ws @ ws2 @ [c2]" using s(2) t(2) le unfolding bn_words_def bn_def dd by simp
  have la: "length (bn_words (st a)) = mx" "length (bn_words (st b)) = mn" using assms(1,2) by (simp_all add: mx_def mn_def)
  have va: "bn_abs (st a) = words_val (segment 0 mn (bn_words (st a))) + 2 ^ (64 * mn) * words_val (segment mn mx (bn_words (st a)))"
    using words_val_segments [of mn "bn_words (st a)"] le la by (simp add: bn_abs_def)
  have vb: "bn_abs (st b) = words_val (segment 0 mn (bn_words (st b)))"
    using words_val_segments [of mn "bn_words (st b)"] la by (simp add: bn_abs_def)
  have p: "2 ^ (64 * mx) = 2 ^ (64 * mn) * (2 ^ (64 * (mx - mn)) :: nat)" using le by (simp flip: power_add)
  have "bn_abs bn = words_val ws + 2 ^ (64 * mn) * (words_val ws2 + 2 ^ (64 * (mx - mn)) * unat c2)"
    using s(2) t(2) by (simp add: bn_abs_def words words_val_append algebra_simps)
  also have "\<dots> = bn_abs (st a) + bn_abs (st b)" unfolding t(3) va vb using s(4) by (simp add: distrib_left)
  finally have "bn_abs bn = bn_abs (st a) + bn_abs (st b)" .
  moreover have "width_ok bn" using s(2) t(2) d(3) le by (simp add: bn_def)
  moreover have "put_word r mx c2 (st2(r := (st2 r)\<lparr>bn_d := ws @ ws2 @ drop mx d\<rparr>)) = st(r := bn)"
    by (simp add: put_word_def st2_def st1_def bn_def)
  moreover have "(st(r := (st r)\<lparr>bn_d := d\<rparr>))(r := ((st(r := (st r)\<lparr>bn_d := d\<rparr>)) r)\<lparr>bn_width := mx + 1\<rparr>) = st1" by (simp add: st1_def)
  moreover have "bn_neg bn = bn_neg (st r)" by (simp add: bn_def)
  ultimately show ?thesis unfolding mx_def [symmetric] mn_def [symmetric]
    by (intro exI [of _ bn]) (simp only: Let_def w prod.case s(1) st2_def [symmetric] t(1) not_True_eq_False if_False simp_thms order.refl)
qed

lemma fun_upd_self: "st(r := st r) = st"
  by simp

lemma bn_uadd_consttime_result:
  assumes "width_ok (st a)" and "width_ok (st b)" and "width_ok (st r)"
  shows "if can_expand malloc (st r) (max (bn_width (st a)) (bn_width (st b)) + 1)
    then \<exists>bn. bn_uadd_consttime malloc r a b st = (True, st(r := bn)) \<and>
      width_ok bn \<and> bn_abs bn = bn_abs (st a) + bn_abs (st b) \<and> bn_neg bn = bn_neg (st r)
    else bn_uadd_consttime malloc r a b st = (False, st)"
proof -
  define a' where "a' = (if bn_width (st a) < bn_width (st b) then b else a)"
  define b' where "b' = (if bn_width (st a) < bn_width (st b) then a else b)"
  have ab: "(if bn_width (st a) < bn_width (st b) then (b, a) else (a, b)) = (a', b')" by (simp add: a'_def b'_def)
  have w: "width_ok (st a')" "width_ok (st b')" "bn_width (st b') \<le> bn_width (st a')" using assms by (simp_all add: a'_def b'_def)
  have m: "max (bn_width (st a)) (bn_width (st b)) = bn_width (st a')" by (simp add: a'_def)
  have s: "bn_abs (st a') + bn_abs (st b') = bn_abs (st a) + bn_abs (st b)" by (simp add: a'_def b'_def)
  show ?thesis
  proof (cases "can_expand malloc (st r) (bn_width (st a') + 1)")
    case True
    show ?thesis unfolding m if_P [OF True] bn_uadd_consttime_def ab s [symmetric]
      using uadd_wide [OF w(1,2) assms(3) w(3) True] by (simp only: Let_def prod.case)
  next
    case False
    show ?thesis unfolding m if_not_P [OF False] bn_uadd_consttime_def ab
      by (simp only: Let_def prod.case bn_wexpand_fails [OF False] fun_upd_self not_False_eq_True if_True)
  qed
qed

text \<open>After the width has been made minimal, the number is well formed.\<close>

lemma BN_uadd_result:
  assumes "width_ok (st a)" and "width_ok (st b)" and "width_ok (st r)"
  shows "if can_expand malloc (st r) (max (bn_width (st a)) (bn_width (st b)) + 1)
    then \<exists>bn. BN_uadd malloc r a b st = (True, st(r := bn)) \<and> bn_ok bn \<and> bn_abs bn = bn_abs (st a) + bn_abs (st b)
    else BN_uadd malloc r a b st = (False, st)"
proof (cases "can_expand malloc (st r) (max (bn_width (st a)) (bn_width (st b)) + 1)")
  case True
  obtain bn where b: "bn_uadd_consttime malloc r a b st = (True, st(r := bn))" "width_ok bn" "bn_abs bn = bn_abs (st a) + bn_abs (st b)"
    using bn_uadd_consttime_result [OF assms] True by (metis (full_types))
  show ?thesis unfolding if_P [OF True]
    using b bn_set_minimal_width_ok [OF b(2)] by (intro exI [of _ "bn_set_minimal_width bn"]) (simp add: BN_uadd_def)
next
  case False
  then have "bn_uadd_consttime malloc r a b st = (False, st)" using bn_uadd_consttime_result [OF assms, of malloc] by (simp only: if_False)
  then show ?thesis unfolding if_not_P [OF False] by (simp add: BN_uadd_def)
qed

section \<open>Subtraction of absolute values\<close>

lemma bn_sub_words_result:
  assumes "n \<le> length (bn_d (st a))" and "n \<le> length (bn_d (st b))" and "n \<le> length (bn_d (st r))"
  shows "\<exists>ws c. bn_sub_words r a b n st = (st(r := (st r)\<lparr>bn_d := ws @ drop n (bn_d (st r))\<rparr>), c) \<and> length ws = n \<and> c \<le> 1 \<and>
    words_val ws + words_val (segment 0 n (bn_d (st b))) = words_val (segment 0 n (bn_d (st a))) + 2 ^ (64 * n) * unat c"
proof (cases "n = 0")
  case True
  then show ?thesis by (simp add: bn_sub_words_def)
next
  case False
  obtain ws c where r: "run_words sub_c (segment 0 n (bn_d (st a))) (segment 0 n (bn_d (st b))) 0 = (ws, c)" by fastforce
  have v: "length ws = n \<and> c \<le> 1 \<and>
      words_val ws + words_val (segment 0 n (bn_d (st b))) = words_val (segment 0 n (bn_d (st a))) + 2 ^ (64 * n) * unat c"
    using sub.run [OF _ _ r] assms by simp
  have f: "fold (sub_step r a b) [0..<n] (st, 0) = (st(r := (st r)\<lparr>bn_d := ws @ drop n (bn_d (st r))\<rparr>), c)"
    unfolding sub_step_eq using fold_word_step [OF _ assms r] by simp
  show ?thesis using v False f by (intro exI [of _ ws] exI [of _ c]) (simp add: bn_sub_words_def words_loop_fold)
qed

lemma borrow_result:
  assumes "lo \<le> hi" and "hi \<le> length (bn_d (st a))" and "hi \<le> length (bn_d (st r))" and "c \<le> 1"
  shows "\<exists>ws c'. fold (borrow_step r a) [lo..<hi] (st, c) = (st(r := (st r)\<lparr>bn_d := take lo (bn_d (st r)) @ ws @ drop hi (bn_d (st r))\<rparr>), c') \<and>
    length ws = hi - lo \<and> c' \<le> 1 \<and> words_val ws + unat c = words_val (segment lo hi (bn_d (st a))) + 2 ^ (64 * (hi - lo)) * unat c'"
proof -
  obtain ws c' where r: "run_words sub_0 (segment lo hi (bn_d (st a))) (segment lo hi (bn_d (st a))) c = (ws, c')" by fastforce
  have "words_val (map (\<lambda>_. 0) xs) = 0" for xs :: "u64 list" by (induction xs) simp_all
  then show ?thesis using sub_tail.run [OF refl assms(4) r] fold_word_step [OF assms(1) assms(2) assms(2) assms(3) r] assms(2)
    unfolding borrow_fold [where st = st and r = r, OF assms(1) assms(3)] by (intro exI [of _ ws] exI [of _ c']) simp
qed

text \<open>The minuend is the larger number, so there is no borrow at the end.\<close>

lemma bn_usub_consttime_result:
  assumes "width_ok (st a)" and "width_ok (st b)" and "width_ok (st r)" and "bn_abs (st b) \<le> bn_abs (st a)"
    and "can_expand malloc (st r) (bn_width (st a))"
  shows "\<exists>bn. bn_usub_consttime malloc r a b st = (True, st(r := bn)) \<and>
    width_ok bn \<and> bn_abs bn = bn_abs (st a) - bn_abs (st b) \<and> \<not> bn_neg bn"
proof -
  define mx where "mx = bn_width (st a)"
  define mn where "mn = (if bn_width (st b) > mx then mx else bn_width (st b))"
  have le: "mn \<le> mx" "mn \<le> bn_width (st b)" by (simp_all add: mn_def)
  have fits: "bn_abs (st b) < 2 ^ (64 * mx)"
    using words_val_lt [of "bn_words (st a)"] assms(1,4) by (simp add: bn_abs_def mx_def)
  then have guard: "\<not> (bn_width (st b) > mx \<and> \<not> bn_fits_in_words (st b) mx)" using bn_fits_in_words_abs [OF assms(2), of mx] by simp
  obtain d where w: "bn_wexpand malloc (st r) mx = (True, (st r)\<lparr>bn_d := d\<rparr>)" and d: "bn_width (st r) \<le> length d"
    "take (bn_width (st r)) d = bn_words (st r)" "mx \<le> length d"
    using bn_wexpand_obtain [OF assms(3), of malloc mx] assms(5) unfolding mx_def by metis
  define st1 where "st1 = st(r := (st r)\<lparr>bn_d := d\<rparr>)"
  have d1: "bn_d (st1 r) = d" by (simp add: st1_def)
  have A: "hi \<le> length (bn_d (st1 a))" "segment lo hi (bn_d (st1 a)) = segment lo hi (bn_words (st a))" if "hi \<le> mx" for lo hi
    unfolding st1_def using expanded_words(1) [of st a r d hi "st r"] expanded_words(2) [of st a r d hi lo "st r"]
      assms(1) d(1,2) that by (simp_all add: mx_def)
  have B: "hi \<le> length (bn_d (st1 b))" "segment lo hi (bn_d (st1 b)) = segment lo hi (bn_words (st b))" if "hi \<le> mn" for lo hi
    unfolding st1_def using expanded_words(1) [of st b r d hi "st r"] expanded_words(2) [of st b r d hi lo "st r"]
      assms(2) d(1,2) that le(2) by simp_all
  obtain ws c where s: "bn_sub_words r a b mn st1 = (st1(r := (st1 r)\<lparr>bn_d := ws @ drop mn d\<rparr>), c)" "length ws = mn" "c \<le> 1"
    "words_val ws + words_val (segment 0 mn (bn_words (st b))) = words_val (segment 0 mn (bn_words (st a))) + 2 ^ (64 * mn) * unat c"
    using bn_sub_words_result [of mn st1 a b r] A(1) [OF le(1)] A(2) [OF le(1)] B(1) [OF order.refl] B(2) [OF order.refl] d(3) le d1 by auto
  define st2 where "st2 = st1(r := (st1 r)\<lparr>bn_d := ws @ drop mn d\<rparr>)"
  have l2: "mx \<le> length (bn_d (st2 a))" "segment mn mx (bn_d (st2 a)) = segment mn mx (bn_words (st a))" "mx \<le> length (bn_d (st2 r))"
    using A(1) [of mx] A(2) [of mx mn] le d(3) s(2) segment_append [OF s(2)] d1 by (auto simp: st2_def)
  have d2: "bn_d (st2 r) = ws @ drop mn d" "take mn (ws @ drop mn d) = ws" "drop mx (ws @ drop mn d) = drop mx d"
    using s(2) le by (simp_all add: st2_def)
  obtain ws2 c2 where t: "fold (borrow_step r a) [mn..<mx] (st2, c) = (st2(r := (st2 r)\<lparr>bn_d := ws @ ws2 @ drop mx d\<rparr>), c2)" "length ws2 = mx - mn"
    "words_val ws2 + unat c = words_val (segment mn mx (bn_words (st a))) + 2 ^ (64 * (mx - mn)) * unat c2"
    using borrow_result [OF le(1) l2(1,3) s(3)] unfolding d2 l2(2) by blast
  define bn where "bn = (st r)\<lparr>bn_d := ws @ ws2 @ drop mx d, bn_width := mx, bn_neg := False\<rparr>"
  have words: "bn_words bn = ws @ ws2" using s(2) t(2) le by (simp add: bn_words_def bn_def)
  have va: "bn_abs (st a) = words_val (segment 0 mn (bn_words (st a))) + 2 ^ (64 * mn) * words_val (segment mn mx (bn_words (st a)))"
    using words_val_segments [of mn "bn_words (st a)"] le assms(1) by (simp add: bn_abs_def mx_def)
  have vb: "bn_abs (st b) = words_val (segment 0 mn (bn_words (st b)))"
  proof (cases "bn_width (st b) > mx")
    case True
    then have "words_val (take mx (bn_d (st b))) = bn_abs (st b)" using guard by (intro bn_fits_take [OF assms(2)]) simp_all
    then show ?thesis using True by (simp add: segment_def mn_def bn_words_def min.absorb1)
  next
    case False
    then show ?thesis by (simp add: segment_def mn_def bn_words_def bn_abs_def)
  qed
  have p: "2 ^ (64 * mx) = 2 ^ (64 * mn) * (2 ^ (64 * (mx - mn)) :: nat)" using le by (simp flip: power_add)
  have abs: "bn_abs bn = words_val ws + 2 ^ (64 * mn) * words_val ws2" using s(2) by (simp add: bn_abs_def words words_val_append)
  have "2 ^ (64 * mn) * (words_val ws2 + unat c) =
      2 ^ (64 * mn) * (words_val (segment mn mx (bn_words (st a))) + 2 ^ (64 * (mx - mn)) * unat c2)"
    by (simp only: t(3))
  then have e: "bn_abs bn + bn_abs (st b) = bn_abs (st a) + 2 ^ (64 * mx) * unat c2"
    using s(4) unfolding abs va vb p by (simp add: algebra_simps)
  have "bn_abs bn < 2 ^ (64 * mx)" using words_val_lt [of "ws @ ws2"] s(2) t(2) le by (simp add: bn_abs_def words)
  then have "2 ^ (64 * mx) * unat c2 < 2 ^ (64 * mx)" using e assms(4) by linarith
  then have c2: "c2 = 0" by (cases "unat c2") (simp_all add: unat_eq_0)
  have "width_ok bn" using s(2) t(2) d(3) le by (simp add: bn_def)
  moreover have "bn_abs bn = bn_abs (st a) - bn_abs (st b)" using e c2 by simp
  moreover have "(st2(r := (st2 r)\<lparr>bn_d := ws @ ws2 @ drop mx d\<rparr>))
      (r := ((st2(r := (st2 r)\<lparr>bn_d := ws @ ws2 @ drop mx d\<rparr>)) r)\<lparr>bn_width := mx, bn_neg := False\<rparr>) = st(r := bn)"
    by (simp add: st2_def st1_def bn_def)
  moreover have "\<not> bn_neg bn" by (simp add: bn_def)
  ultimately show ?thesis unfolding bn_usub_consttime_def Let_def mx_def [symmetric] if_not_P [OF guard] mn_def [symmetric] w prod.case st1_def [symmetric]
      s(1) st2_def [symmetric] t(1) c2 by (intro exI [of _ bn]) simp
qed

lemma BN_usub_result:
  assumes "width_ok (st a)" and "width_ok (st b)" and "width_ok (st r)" and "bn_abs (st b) \<le> bn_abs (st a)"
  shows "if can_expand malloc (st r) (bn_width (st a))
    then \<exists>bn. BN_usub malloc r a b st = (True, st(r := bn)) \<and> bn_ok bn \<and> bn_abs bn = bn_abs (st a) - bn_abs (st b)
    else BN_usub malloc r a b st = (False, st)"
proof (cases "can_expand malloc (st r) (bn_width (st a))")
  case True
  obtain bn where b: "bn_usub_consttime malloc r a b st = (True, st(r := bn))" "width_ok bn" "bn_abs bn = bn_abs (st a) - bn_abs (st b)"
    using bn_usub_consttime_result [OF assms True] by blast
  show ?thesis unfolding if_P [OF True]
    using b bn_set_minimal_width_ok [OF b(2)] by (intro exI [of _ "bn_set_minimal_width bn"]) (simp add: BN_usub_def)
next
  case False
  have "bn_abs (st b) < 2 ^ (64 * bn_width (st a))"
    using words_val_lt [of "bn_words (st a)"] assms(1,4) by (simp add: bn_abs_def)
  then have "bn_fits_in_words (st b) (bn_width (st a))" using bn_fits_in_words_abs [OF assms(2)] by simp
  then have "bn_usub_consttime malloc r a b st = (False, st)" by (simp add: bn_usub_consttime_def Let_def bn_wexpand_fails [OF False])
  then show ?thesis unfolding if_not_P [OF False] by (simp add: BN_usub_def)
qed

section \<open>Signed addition and subtraction\<close>

text \<open>
  The room a result needs: for numbers that are added a word more than the longer one has, for numbers that are
  subtracted the words of the larger one, \<^verbatim>\<open>p\<close> being the one that counts positively.
\<close>

definition has_room :: "libc_malloc \<Rightarrow> bn_store \<Rightarrow> nat \<Rightarrow> nat \<Rightarrow> nat \<Rightarrow> bool \<Rightarrow> bool" where
  "has_room malloc st r a b adds \<longleftrightarrow>
     (if adds then can_expand malloc (st r) (max (bn_width (st a)) (bn_width (st b)) + 1)
      else let p = (if bn_neg (st a) then b else a); q = (if bn_neg (st a) then a else b)
           in can_expand malloc (st r) (bn_width (st (if bn_abs (st p) < bn_abs (st q) then q else p))))"

text \<open>What a call gives: the integer \<^verbatim>\<open>x\<close> in the result when there is room, and else the numbers as they were.\<close>

definition call_gives :: "bool \<Rightarrow> nat \<Rightarrow> int \<Rightarrow> bn_store \<Rightarrow> bool \<times> bn_store \<Rightarrow> bool" where
  "call_gives room r x st = (\<lambda>(ok, st').
     (ok \<longleftrightarrow> room) \<and> (\<forall>h. h \<noteq> r \<longrightarrow> st' h = st h) \<and>
     (if room then bn_ok (st' r) \<and> bn_int (st' r) = x else bn_words (st' r) = bn_words (st r)))"

lemma signed_ok:
  assumes "bn_ok bn" and "bn_abs bn \<noteq> 0 \<or> \<not> neg"
  shows "bn_ok (bn\<lparr>bn_neg := neg\<rparr>)" and "bn_int (bn\<lparr>bn_neg := neg\<rparr>) = (if neg then - int (bn_abs bn) else int (bn_abs bn))"
  using assms by (auto simp: bn_ok_def bn_int_def bn_abs_def bn_words_def)

lemma bn_okD: "bn_ok bn \<Longrightarrow> width_ok bn"
  by (simp add: bn_ok_def)

text \<open>The sum of absolute values with a sign.\<close>

lemma signed_sum:
  assumes "width_ok (st a)" and "width_ok (st b)" and "width_ok (st r)"
    and "neg \<longrightarrow> bn_abs (st a) + bn_abs (st b) \<noteq> 0"
    and "x = (if neg then - int (bn_abs (st a) + bn_abs (st b)) else int (bn_abs (st a) + bn_abs (st b)))"
    and "can_expand malloc (st r) (max (bn_width (st a)) (bn_width (st b)) + 1) = room"
  shows "call_gives room r x st (case BN_uadd malloc r a b st of (ret, st) \<Rightarrow> (ret, st(r := (st r)\<lparr>bn_neg := neg\<rparr>)))"
    and "call_gives room r x st (case BN_uadd malloc r a b st of (ok, st) \<Rightarrow> if \<not> ok then (False, st) else (True, st(r := (st r)\<lparr>bn_neg := neg\<rparr>)))"
proof -
  note u = BN_uadd_result [OF assms(1-3), of malloc]
  have "call_gives room r x st (case BN_uadd malloc r a b st of (ret, st) \<Rightarrow> (ret, st(r := (st r)\<lparr>bn_neg := neg\<rparr>))) \<and>
    call_gives room r x st (case BN_uadd malloc r a b st of (ok, st) \<Rightarrow> if \<not> ok then (False, st) else (True, st(r := (st r)\<lparr>bn_neg := neg\<rparr>)))"
  proof (cases room)
    case True
    obtain bn where b: "BN_uadd malloc r a b st = (True, st(r := bn))" "bn_ok bn" "bn_abs bn = bn_abs (st a) + bn_abs (st b)"
      using u assms(6) True by auto
    then show ?thesis using True signed_ok [OF b(2), of neg] assms(4,5) by (cases neg) (simp_all add: call_gives_def)
  next
    case False
    then have "BN_uadd malloc r a b st = (False, st)" using u assms(6) by simp
    then show ?thesis using False by (simp add: call_gives_def bn_words_def)
  qed
  then show "call_gives room r x st (case BN_uadd malloc r a b st of (ret, st) \<Rightarrow> (ret, st(r := (st r)\<lparr>bn_neg := neg\<rparr>)))"
    "call_gives room r x st (case BN_uadd malloc r a b st of (ok, st) \<Rightarrow> if \<not> ok then (False, st) else (True, st(r := (st r)\<lparr>bn_neg := neg\<rparr>)))"
    by simp_all
qed

text \<open>The difference: the smaller absolute value is subtracted from the larger, and the sign tells which it was.\<close>

lemma signed_difference:
  assumes "width_ok (st p)" and "width_ok (st q)" and "width_ok (st r)"
    and "can_expand malloc (st r) (bn_width (st (if bn_abs (st p) < bn_abs (st q) then q else p))) = room"
  shows "call_gives room r (int (bn_abs (st p)) - int (bn_abs (st q))) st
    (if BN_ucmp (st p) (st q) < 0
     then (case BN_usub malloc r q p st of (ok, st) \<Rightarrow> if \<not> ok then (False, st) else (True, st(r := (st r)\<lparr>bn_neg := True\<rparr>)))
     else (case BN_usub malloc r p q st of (ok, st) \<Rightarrow> if \<not> ok then (False, st) else (True, st(r := (st r)\<lparr>bn_neg := False\<rparr>))))"
proof (cases "bn_abs (st p) < bn_abs (st q)")
  case True
  then have u: "BN_ucmp (st p) (st q) < 0" by (simp add: BN_ucmp_exact ucmp_def)
  note s = BN_usub_result [OF assms(2,1,3) less_imp_le [OF True], of malloc]
  show ?thesis
  proof (cases room)
    case r: True
    obtain bn where b: "BN_usub malloc r q p st = (True, st(r := bn))" "bn_ok bn" "bn_abs bn = bn_abs (st q) - bn_abs (st p)"
      using s assms(4) True r by auto
    show ?thesis using b(1,3) r u True signed_ok [OF b(2), of True] by (simp add: call_gives_def)
  next
    case r: False
    then have "BN_usub malloc r q p st = (False, st)" using s assms(4) True by simp
    then show ?thesis using r u by (simp add: call_gives_def)
  qed
next
  case False
  then have u: "\<not> BN_ucmp (st p) (st q) < 0" by (simp add: BN_ucmp_exact ucmp_def)
  have le: "bn_abs (st q) \<le> bn_abs (st p)" using False by simp
  note s = BN_usub_result [OF assms(1,2,3) le, of malloc]
  show ?thesis
  proof (cases room)
    case r: True
    obtain bn where b: "BN_usub malloc r p q st = (True, st(r := bn))" "bn_ok bn" "bn_abs bn = bn_abs (st p) - bn_abs (st q)"
      using s assms(4) False r by auto
    show ?thesis using b(1,3) r u le signed_ok [OF b(2), of False] by (simp add: call_gives_def of_nat_diff)
  next
    case r: False
    then have "BN_usub malloc r p q st = (False, st)" using s assms(4) False by simp
    then show ?thesis using r u by (simp add: call_gives_def)
  qed
qed

lemma BN_add_gives:
  assumes "bn_ok (st a)" and "bn_ok (st b)" and "bn_ok (st r)"
  shows "call_gives (has_room malloc st r a b (bn_neg (st a) = bn_neg (st b))) r (bn_int (st a) + bn_int (st b)) st (BN_add malloc r a b st)"
proof (cases "bn_neg (st a) = bn_neg (st b)")
  case True
  show ?thesis using True assms unfolding BN_add_def Let_def
    by (simp only: simp_thms if_False if_True) (rule signed_sum(1); auto simp: bn_ok_def bn_int_def has_room_def)
next
  case False
  define p where "p = (if bn_neg (st a) then b else a)"
  define q where "q = (if bn_neg (st a) then a else b)"
  have pq: "(if bn_neg (st a) then (b, a) else (a, b)) = (p, q)" by (simp add: p_def q_def)
  have v: "bn_int (st a) + bn_int (st b) = int (bn_abs (st p)) - int (bn_abs (st q))" using False by (auto simp: bn_int_def p_def q_def)
  have w: "width_ok (st p)" "width_ok (st q)" "width_ok (st r)" using assms by (simp_all add: p_def q_def bn_ok_def)
  show ?thesis unfolding BN_add_def Let_def pq if_P [OF False] v prod.case
    by (rule signed_difference [OF w]) (simp add: has_room_def False p_def q_def Let_def)
qed

lemma BN_sub_gives:
  assumes "bn_ok (st a)" and "bn_ok (st b)" and "bn_ok (st r)"
  shows "call_gives (has_room malloc st r a b (bn_neg (st a) \<noteq> bn_neg (st b))) r (bn_int (st a) - bn_int (st b)) st (BN_sub malloc r a b st)"
proof (cases "bn_neg (st a) = bn_neg (st b)")
  case True
  define p where "p = (if bn_neg (st a) then b else a)"
  define q where "q = (if bn_neg (st a) then a else b)"
  have pq: "(if bn_neg (st a) then (if bn_neg (st b) then (b, a, False, False) else (a, b, True, True))
             else (if bn_neg (st b) then (a, b, True, False) else (a, b, False, False))) = (p, q, False, False)"
    using True by (simp add: p_def q_def)
  have v: "bn_int (st a) - bn_int (st b) = int (bn_abs (st p)) - int (bn_abs (st q))" using True by (auto simp: bn_int_def p_def q_def)
  have w: "width_ok (st p)" "width_ok (st q)" "width_ok (st r)" using assms by (simp_all add: p_def q_def bn_ok_def)
  show ?thesis unfolding BN_sub_def Let_def pq v prod.case if_False
    by (rule signed_difference [OF w]) (simp add: has_room_def True p_def q_def Let_def)
next
  case False
  have ab: "(if bn_neg (st a) then (if bn_neg (st b) then (b, a, False, False) else (a, b, True, True))
             else (if bn_neg (st b) then (a, b, True, False) else (a, b, False, False))) = (a, b, True, bn_neg (st a))"
    using False by simp
  show ?thesis using False assms unfolding BN_sub_def Let_def ab prod.case if_True
    by (intro signed_sum(2)) (auto simp: bn_ok_def bn_int_def has_room_def)
qed

section \<open>Addition and subtraction of a word\<close>

lemma segment_update: "i < lo \<Longrightarrow> segment lo hi (d[i := w]) = segment lo hi d"
  by (simp add: segment_def)

lemma add_word_loop_result:
  assumes "i \<le> width" and "width \<le> length d" and "add_word_loop width i d w = (j, d', w')"
  shows "length d' = length d \<and> take i d' = take i d \<and> (w' \<noteq> 0 \<longrightarrow> j = width) \<and>
    words_val (segment i width d') + 2 ^ (64 * (width - i)) * unat w' = words_val (segment i width d) + unat w"
  using assms
proof (induction width i d w arbitrary: j d' w' rule: add_word_loop.induct)
  case (1 width i d w)
  show ?case
  proof (cases "w \<noteq> 0 \<and> i < width")
    case False
    then have "d' = d" "w' = w" "j = i" using "1.prems"(3) by (auto simp: add_word_loop.simps [of width i d w])
    then show ?thesis using False "1.prems"(1) by (cases "w = 0") auto
  next
    case True
    define l where "l = d ! i + w"
    define c where "c = (if w > l then 1 else 0 :: u64)"
    have e: "add_word_loop width (i + 1) (d[i := l]) c = (j, d', w')"
      using "1.prems"(3) True by (simp add: add_word_loop.simps [of width i d w] Let_def l_def c_def)
    have h: "length d' = length d \<and> take (Suc i) d' = take (Suc i) (d[i := l]) \<and> (w' \<noteq> 0 \<longrightarrow> j = width) \<and>
        words_val (segment (Suc i) width d') + 2 ^ (64 * (width - Suc i)) * unat w' = words_val (segment (Suc i) width d) + unat c"
      using "1.IH" [OF True l_def] e True "1.prems"(2) by (simp add: c_def segment_update)
    have lt: "i < length d" "i < length d'" using True "1.prems"(2) h by simp_all
    have t: "take i d' = take i d" using arg_cong [OF conjunct1 [OF conjunct2 [OF h]], of "take i"] by (simp add: min.absorb1)
    have n: "d' ! i = l" using arg_cong [OF conjunct1 [OF conjunct2 [OF h]], of "\<lambda>xs. xs ! i"] lt by simp
    have lc: "unat l + 2 ^ 64 * unat c = unat (d ! i) + unat w"
      using unat_u64_lt [of w] unat_u64_lt [of "d ! i"] by (auto simp: l_def c_def wrap)
    have p: "2 ^ (64 * (width - i)) = 2 ^ 64 * (2 ^ (64 * (width - Suc i)) :: nat)"
      using True Suc_diff_Suc [of i width, symmetric] by (simp add: power_add)
    have "2 ^ 64 * (words_val (segment (Suc i) width d') + 2 ^ (64 * (width - Suc i)) * unat w') = 2 ^ 64 * (words_val (segment (Suc i) width d) + unat c)"
      using h by simp
    then show ?thesis using h t lc True "1.prems"(2) n p by (simp add: segment_Cons algebra_simps)
  qed
qed

lemma sub_word_loop_result:
  assumes "width \<le> length d" and "unat w \<le> words_val (segment i width d)" and "w \<noteq> 0"
  shows "\<exists>j d'. sub_word_loop i d w = Some (j, d') \<and> j < width \<and> length d' = length d \<and> take i d' = take i d \<and>
    words_val (segment i width d') + unat w = words_val (segment i width d)"
  using assms
proof (induction i d w rule: sub_word_loop.induct)
  case (1 i d w)
  have i: "i < width"
  proof (rule ccontr)
    assume "\<not> i < width"
    then have "segment i width d = []" by (simp add: segment_def)
    then show False using "1.prems"(2,3) by (simp add: unat_eq_0)
  qed
  then have lt: "i < length d" using "1.prems"(1) by simp
  have v: "words_val (segment i width d) = unat (d ! i) + 2 ^ 64 * words_val (segment (Suc i) width d)"
    using i "1.prems"(1) by (simp add: segment_Cons)
  show ?case
  proof (cases "w \<le> d ! i")
    case True
    then have "sub_word_loop i d w = Some (i, d[i := d ! i - w])" using lt by (simp add: sub_word_loop.simps [of i d w])
    moreover have "unat (d ! i - w) + unat w = unat (d ! i)" using True by (simp add: wrap)
    ultimately show ?thesis using i lt "1.prems"(1) v by (simp add: segment_Cons segment_update)
  next
    case False
    have rest: "1 \<le> words_val (segment (Suc i) width d)"
      using False "1.prems"(2) v by (cases "words_val (segment (Suc i) width d)") (simp_all add: wrap)
    have s: "segment (i + 1) width (d[i := d ! i - w]) = segment (Suc i) width d" by (simp add: segment_update)
    have "\<exists>j d'. sub_word_loop (i + 1) (d[i := d ! i - w]) 1 = Some (j, d') \<and> j < width \<and> length d' = length (d[i := d ! i - w]) \<and>
        take (i + 1) d' = take (i + 1) (d[i := d ! i - w]) \<and>
        words_val (segment (i + 1) width d') + unat (1 :: u64) = words_val (segment (i + 1) width (d[i := d ! i - w]))"
      using "1.prems"(1) rest lt False unfolding s by (intro "1.IH" [unfolded s]) simp_all
    then obtain j d' where h: "sub_word_loop (i + 1) (d[i := d ! i - w]) 1 = Some (j, d')" "j < width" "length d' = length d"
        "take (Suc i) d' = take (Suc i) (d[i := d ! i - w])" "words_val (segment (Suc i) width d') + 1 = words_val (segment (Suc i) width d)"
      unfolding s by auto
    have t: "take i d' = take i d" using arg_cong [OF h(4), of "take i"] by (simp add: min.absorb1)
    have n: "d' ! i = d ! i - w" using arg_cong [OF h(4), of "\<lambda>xs. xs ! i"] lt h(3) by simp
    have "unat (d ! i - w) + unat w = unat (d ! i) + 2 ^ 64" using False unat_u64_lt [of w] by (simp add: wrap)
    then have "words_val (segment i width d') + unat w = words_val (segment i width d)"
      using v h(3,5) n i "1.prems"(1) by (simp add: segment_Cons)
    moreover have "sub_word_loop i d w = Some (j, d')" using h(1) lt False by (simp add: sub_word_loop.simps [of i d w])
    ultimately show ?thesis using h(2,3) t by blast
  qed
qed

text \<open>What a call with a word gives. An addition that does not fit fails, and the number is then not as it was.\<close>

definition word_call_gives :: "bool \<Rightarrow> int \<Rightarrow> (bool \<times> bignum_st) option \<Rightarrow> bool" where
  "word_call_gives room x res = (case res of
     None \<Rightarrow> False
   | Some (ok, a) \<Rightarrow> ok = room \<and> (room \<longrightarrow> bn_ok a \<and> bn_int a = x))"

definition has_word_room :: "libc_malloc \<Rightarrow> bignum_st \<Rightarrow> u64 \<Rightarrow> bool \<Rightarrow> bool" where
  "has_word_room malloc a w adds \<longleftrightarrow>
     w = 0 \<or> (if bn_abs a = 0 then can_expand malloc a 1
              else adds \<longrightarrow> bn_abs a + unat w < 2 ^ (64 * bn_width a) \<or> can_expand malloc a (bn_width a + 1))"

lemma bn_words_segment: "bn_words bn = segment 0 (bn_width bn) (bn_d bn)"
  by (simp add: bn_words_def segment_def)

lemma BN_set_word_result:
  assumes "w \<noteq> 0"
  shows "fst (BN_set_word malloc a w) = can_expand malloc a 1"
    and "can_expand malloc a 1 \<Longrightarrow> width_ok a \<Longrightarrow> (case BN_set_word malloc a w of (_, a) \<Rightarrow> bn_ok a \<and> \<not> bn_neg a \<and> bn_abs a = unat w)"
proof -
  have f: "fst (bn_wexpand malloc a 1) = can_expand malloc a 1"
    by (auto simp: bn_wexpand_def can_expand_def BN_BITS2_def INT_MAX_def split: option.splits)
  then show "fst (BN_set_word malloc a w) = can_expand malloc a 1" using assms by (auto simp: BN_set_word_def split: prod.splits)
  assume c: "can_expand malloc a 1" and "width_ok a"
  then obtain d where "bn_wexpand malloc a 1 = (True, a\<lparr>bn_d := d\<rparr>)" "1 \<le> length d"
    using bn_wexpand_obtain [of a malloc 1] by metis
  then show "(case BN_set_word malloc a w of (_, a) \<Rightarrow> bn_ok a \<and> \<not> bn_neg a \<and> bn_abs a = unat w)"
    using assms by (cases d) (auto simp: BN_set_word_def bn_ok_def bn_abs_def bn_words_def)
qed

lemma add_word_nonneg:
  assumes "bn_ok a" and "\<not> bn_neg a" and "bn_abs a \<noteq> 0" and "w \<noteq> 0"
  shows "word_call_gives (has_word_room malloc a w True) (int (bn_abs a) + int (unat w)) (BN_add_word malloc a w)"
proof -
  have wok: "width_ok a" using assms(1) by (rule bn_okD)
  define n where "n = bn_width a"
  obtain j d' w' where l: "add_word_loop n 0 (bn_d a) w = (j, d', w')" by (cases "add_word_loop n 0 (bn_d a) w") auto
  have r: "length d' = length (bn_d a) \<and> (w' \<noteq> 0 \<longrightarrow> j = n) \<and> words_val (segment 0 n d') + 2 ^ (64 * n) * unat w' = bn_abs a + unat w"
    using add_word_loop_result [OF le0 _ l] wok by (simp add: n_def bn_abs_def bn_words_segment)
  define a1 where "a1 = a\<lparr>bn_d := d'\<rparr>"
  have nd: "n \<le> length d'" using r wok by (simp add: n_def)
  have lt: "words_val (segment 0 n d') < 2 ^ (64 * n)" using words_val_lt [of "segment 0 n d'"] nd by simp
  have e: "BN_add_word malloc a w = (if w' \<noteq> 0 \<and> j = bn_width a1
      then (case bn_wexpand malloc a1 (bn_width a1 + 1) of
              (ok, a) \<Rightarrow> if \<not> ok then Some (False, a) else Some (True, a\<lparr>bn_width := bn_width a + 1, bn_d := (bn_d a)[j := w']\<rparr>))
      else Some (True, a1))"
    using assms BN_is_zero_iff [OF wok] l by (simp add: BN_add_word.simps [of malloc a w] n_def a1_def Let_def)
  have w1: "bn_width a1 = n" "width_ok a1" using nd by (simp_all add: a1_def n_def)
  show ?thesis
  proof (cases "w' = 0")
    case True
    have v: "bn_abs a1 = bn_abs a + unat w" using r True by (simp add: bn_abs_def bn_words_segment w1) (simp add: a1_def)
    then have "bn_abs a + unat w < 2 ^ (64 * n)" using lt r True by simp
    then have "has_word_room malloc a w True" using assms(3) by (simp add: has_word_room_def n_def)
    moreover have "bn_ok a1" "bn_int a1 = int (bn_abs a) + int (unat w)" using v assms(2) w1 by (simp_all add: bn_ok_def bn_int_def) (simp_all add: a1_def)
    ultimately show ?thesis using True by (simp add: e word_call_gives_def)
  next
    case False
    then have u: "unat w' \<noteq> 0" by (simp add: unat_eq_0)
    then have "2 ^ (64 * n) \<le> bn_abs a + unat w" using r by (cases "unat w'") auto
    then have room: "has_word_room malloc a w True = can_expand malloc a1 (n + 1)"
      using assms(3,4) r by (simp add: has_word_room_def n_def a1_def can_expand_def)
    show ?thesis
    proof (cases "can_expand malloc a1 (n + 1)")
      case c: True
      obtain d where d: "bn_wexpand malloc a1 (n + 1) = (True, a1\<lparr>bn_d := d\<rparr>)" "take n d = bn_words a1" "n + 1 \<le> length d"
        using bn_wexpand_obtain [OF w1(2), of malloc "n + 1"] c w1(1) by metis
      define a2 where "a2 = a1\<lparr>bn_width := n + 1, bn_d := d[n := w']\<rparr>"
      have "bn_words a2 = take n d @ [w']" using d(3) by (simp add: a2_def bn_words_def take_Suc_conv_app_nth)
      also have "\<dots> = segment 0 n d' @ [w']" using d(2) by (simp add: bn_words_segment w1(1)) (simp add: a1_def)
      finally have "bn_abs a2 = bn_abs a + unat w" using r nd by (simp add: bn_abs_def words_val_append)
      then have "bn_ok a2" "bn_int a2 = int (bn_abs a) + int (unat w)"
        using assms(2) d(3) by (simp_all add: bn_ok_def bn_int_def) (simp_all add: a2_def a1_def)
      moreover have "BN_add_word malloc a w = Some (True, a2)" using False r d(1) w1(1) by (simp add: e a2_def)
      ultimately show ?thesis using room c by (simp add: word_call_gives_def)
    next
      case c: False
      then show ?thesis using False r w1(1) by (simp add: e room word_call_gives_def bn_wexpand_fails)
    qed
  qed
qed

text \<open>A number with a minimal width of one word, and one with more.\<close>

lemma one_word:
  assumes "width_ok a" and "bn_minimal_width a = 1"
  shows "bn_abs a = unat (bn_d a ! 0)" and "0 < bn_width a" and "words_val (segment 1 (bn_width a) (bn_d a)) = 0"
proof -
  show w: "0 < bn_width a" using bn_minimal_width_le [of a] assms(2) by simp
  then have d: "bn_d a \<noteq> []" using assms(1) by auto
  then show v: "bn_abs a = unat (bn_d a ! 0)" using bn_minimal_width_val [OF assms(1)] assms(2) by (cases "bn_d a") simp_all
  have "bn_abs a = unat (bn_d a ! 0) + 2 ^ 64 * words_val (segment 1 (bn_width a) (bn_d a))"
    using w assms(1) by (simp add: bn_abs_def bn_words_segment segment_Cons)
  then show "words_val (segment 1 (bn_width a) (bn_d a)) = 0" using v by simp
qed

lemma many_words:
  assumes "width_ok a" and "bn_minimal_width a \<noteq> 1" and "bn_abs a \<noteq> 0"
  shows "2 ^ 64 \<le> bn_abs a"
proof (rule ccontr)
  assume "\<not> 2 ^ 64 \<le> bn_abs a"
  then have "bn_fits_in_words a 1" using bn_fits_in_words_abs [OF assms(1), of 1] by simp
  then have z: "\<forall>i\<in>{1..<bn_width a}. bn_d a ! i = 0" by (simp add: bn_fits_in_words_iff)
  define m where "m = bn_minimal_width a"
  have "m \<noteq> 0" using bn_minimal_width_0 [OF assms(1)] assms(3) by (simp add: m_def)
  then have m: "1 < m" "bn_d a ! (m - 1) \<noteq> 0"
    using assms(2) minimal_width_loop_top [of "bn_d a" "bn_width a"] by (auto simp: m_def bn_minimal_width_def)
  have "m \<le> bn_width a" using bn_minimal_width_le [of a] by (simp add: m_def)
  then have "m - 1 \<in> {1..<bn_width a}" using m(1) by auto
  then show False using z m(2) by blast
qed

lemma sub_word_nonneg:
  assumes "bn_ok a" and "\<not> bn_neg a" and "bn_abs a \<noteq> 0" and "w \<noteq> 0"
  shows "word_call_gives True (int (bn_abs a) - int (unat w)) (BN_sub_word malloc a w)"
proof -
  have wok: "width_ok a" using assms(1) by (rule bn_okD)
  define n where "n = bn_width a"
  have e: "BN_sub_word malloc a w =
     (if bn_minimal_width a = 1 \<and> bn_d a ! 0 < w
      then Some (True, a\<lparr>bn_d := (bn_d a)[0 := w - bn_d a ! 0], bn_neg := True\<rparr>)
      else (case sub_word_loop 0 (bn_d a) w of
              None \<Rightarrow> None
            | Some (i, d) \<Rightarrow>
                let a = a\<lparr>bn_d := d\<rparr>
                in Some (True, if bn_d a ! i = 0 \<and> i = bn_width a - 1 then a\<lparr>bn_width := bn_width a - 1\<rparr> else a)))"
    using assms BN_is_zero_iff [OF wok] by (simp add: BN_sub_word.simps [of malloc a w])
  show ?thesis
  proof (cases "bn_minimal_width a = 1 \<and> bn_d a ! 0 < w")
    case True
    note o = one_word [OF wok conjunct1 [OF True]]
    define a1 where "a1 = a\<lparr>bn_d := (bn_d a)[0 := w - bn_d a ! 0], bn_neg := True\<rparr>"
    have ne: "bn_d a \<noteq> []" using o(2) wok by auto
    have "bn_abs a1 = unat (w - bn_d a ! 0)"
      using ne o(2,3) wok nth_list_update_eq [of 0 "bn_d a" "w - bn_d a ! 0"]
      by (simp add: bn_abs_def bn_words_segment a1_def segment_Cons segment_update del: nth_list_update_eq)
    also have "\<dots> = unat w - bn_abs a" using True o(1) by (simp add: wrap)
    finally have v: "bn_abs a1 = unat w - bn_abs a" .
    have lt: "bn_abs a < unat w" using True o(1) by (simp add: wrap)
    have "bn_ok a1" "bn_int a1 = int (bn_abs a) - int (unat w)"
      using v lt wok by (simp_all add: bn_ok_def bn_int_def) (simp_all add: a1_def of_nat_diff)
    moreover have "BN_sub_word malloc a w = Some (True, a1)" using True by (simp add: e a1_def)
    ultimately show ?thesis by (simp add: word_call_gives_def)
  next
    case False
    have ge: "unat w \<le> bn_abs a"
    proof (cases "bn_minimal_width a = 1")
      case True
      then show ?thesis using False one_word(1) [OF wok True] by (simp add: wrap)
    next
      case f: False
      show ?thesis using many_words [OF wok f assms(3)] unat_u64_lt [of w] by linarith
    qed
    obtain j d' where l: "sub_word_loop 0 (bn_d a) w = Some (j, d')" "j < n" "length d' = length (bn_d a)"
      "words_val (segment 0 n d') + unat w = bn_abs a"
      using sub_word_loop_result [of n "bn_d a" w 0] wok ge assms(4) by (auto simp: n_def bn_abs_def bn_words_segment)
    define a1 where "a1 = a\<lparr>bn_d := d'\<rparr>"
    define a2 where "a2 = (if d' ! j = 0 \<and> j = n - 1 then a1\<lparr>bn_width := n - 1\<rparr> else a1)"
    have v1: "words_val (segment 0 n d') = bn_abs a - unat w" using l(4) by simp
    have "bn_abs a2 = bn_abs a - unat w"
    proof (cases "d' ! j = 0 \<and> j = n - 1")
      case True
      then obtain k where k: "n = Suc k" "d' ! k = 0" using l(2) by (cases n) auto
      have "take (Suc k) d' = take k d' @ [0]" using k l(3) wok by (simp add: take_Suc_conv_app_nth n_def)
      then have "words_val (segment 0 n d') = words_val (take k d')" by (simp add: segment_def k(1) words_val_append)
      moreover have "bn_abs a2 = words_val (take k d')" using True k by (simp add: a2_def a1_def bn_abs_def bn_words_def)
      ultimately show ?thesis using v1 by simp
    next
      case False
      then have "a2 = a1" unfolding a2_def by (rule if_not_P)
      then have "bn_abs a2 = words_val (segment 0 n d')" by (simp add: a1_def bn_abs_def bn_words_segment n_def)
      then show ?thesis using v1 by simp
    qed
    moreover have "\<not> bn_neg a2" "width_ok a2" using assms(2) l(3) wok by (auto simp: a2_def a1_def n_def)
    ultimately have "bn_ok a2" "bn_int a2 = int (bn_abs a) - int (unat w)" using ge by (simp_all add: bn_ok_def bn_int_def of_nat_diff)
    moreover have "BN_sub_word malloc a w = Some (True, a2)" using False l(1) by (auto simp: e a2_def a1_def n_def Let_def)
    ultimately show ?thesis by (simp add: word_call_gives_def)
  qed
qed

lemma word_call_givesE:
  assumes "word_call_gives room x res"
  obtains a where "res = Some (room, a)" and "room \<Longrightarrow> bn_ok a \<and> bn_int a = x"
  using assms by (auto simp: word_call_gives_def split: option.splits)

lemma abs_neg_upd [simp]: "bn_abs (a\<lparr>bn_neg := s\<rparr>) = bn_abs a"
  by (simp add: bn_abs_def bn_words_def)

lemma BN_is_zero_neg_upd [simp]: "BN_is_zero (a\<lparr>bn_neg := s\<rparr>) = BN_is_zero a"
  by (simp add: BN_is_zero_def bn_fits_in_words_def)

lemma has_word_room_neg_upd [simp]: "has_word_room malloc (a\<lparr>bn_neg := s\<rparr>) w adds = has_word_room malloc a w adds"
  by (simp add: has_word_room_def can_expand_def)

lemma BN_add_word_gives:
  assumes "bn_ok a"
  shows "word_call_gives (has_word_room malloc a w (\<not> bn_neg a)) (bn_int a + int (unat w)) (BN_add_word malloc a w)"
proof -
  have wok: "width_ok a" using assms by (rule bn_okD)
  consider (none) "w = 0" | (zero) "w \<noteq> 0" "bn_abs a = 0" | (neg) "w \<noteq> 0" "bn_abs a \<noteq> 0" "bn_neg a" | (pos) "w \<noteq> 0" "bn_abs a \<noteq> 0" "\<not> bn_neg a"
    by blast
  then show ?thesis
  proof cases
    case none
    then show ?thesis using assms by (simp add: BN_add_word.simps [of malloc a 0] word_call_gives_def has_word_room_def)
  next
    case zero
    have e: "BN_add_word malloc a w = Some (BN_set_word malloc a w)"
      using zero BN_is_zero_iff [OF wok] by (simp add: BN_add_word.simps [of malloc a w])
    have "\<not> bn_neg a" "bn_int a = 0" using zero assms by (simp_all add: bn_ok_def bn_int_def)
    then show ?thesis using zero BN_set_word_result [OF zero(1), of malloc a] wok
      by (auto simp: e word_call_gives_def has_word_room_def bn_int_def split: prod.splits)
  next
    case neg
    define b where "b = a\<lparr>bn_neg := False\<rparr>"
    have b: "bn_ok b" "\<not> bn_neg b" "bn_abs b = bn_abs a" using assms by (simp_all add: b_def bn_ok_def)
    obtain c where c: "BN_sub_word malloc b w = Some (True, c)" "bn_ok c" "bn_int c = int (bn_abs a) - int (unat w)"
      using sub_word_nonneg [OF b(1,2) _ neg(1), of malloc] neg b(3) by (auto elim: word_call_givesE)
    define d where "d = (if \<not> BN_is_zero c then c\<lparr>bn_neg := \<not> bn_neg c\<rparr> else c)"
    have e: "BN_add_word malloc a w = Some (True, d)"
      using neg c(1) BN_is_zero_iff [OF wok] by (simp add: BN_add_word.simps [of malloc a w] b_def [symmetric] d_def)
    have "bn_ok d \<and> bn_int d = - bn_int c"
      using c(2) BN_is_zero_iff [OF bn_okD [OF c(2)]] by (auto simp: d_def bn_ok_def bn_int_def)
    then show ?thesis using neg c(3) by (simp add: e word_call_gives_def has_word_room_def bn_int_def)
  next
    case pos
    then show ?thesis using add_word_nonneg [OF assms pos(3,2,1), of malloc] by (simp add: bn_int_def)
  qed
qed

lemma BN_sub_word_gives:
  assumes "bn_ok a"
  shows "word_call_gives (has_word_room malloc a w (bn_neg a)) (bn_int a - int (unat w)) (BN_sub_word malloc a w)"
proof -
  have wok: "width_ok a" using assms by (rule bn_okD)
  consider (none) "w = 0" | (zero) "w \<noteq> 0" "bn_abs a = 0" | (neg) "w \<noteq> 0" "bn_abs a \<noteq> 0" "bn_neg a" | (pos) "w \<noteq> 0" "bn_abs a \<noteq> 0" "\<not> bn_neg a"
    by blast
  then show ?thesis
  proof cases
    case none
    then show ?thesis using assms by (simp add: BN_sub_word.simps [of malloc a 0] word_call_gives_def has_word_room_def)
  next
    case zero
    obtain i c where ic: "BN_set_word malloc a w = (i, c)" by fastforce
    have e: "BN_sub_word malloc a w = Some (i, if i then BN_set_negative c True else c)"
      using zero BN_is_zero_iff [OF wok] ic by (simp add: BN_sub_word.simps [of malloc a w])
    have i: "i = can_expand malloc a 1" "i \<Longrightarrow> bn_ok c \<and> \<not> bn_neg c \<and> bn_abs c = unat w"
      using BN_set_word_result [OF zero(1), of malloc a] wok ic by auto
    have "bn_ok (BN_set_negative c True) \<and> bn_int (BN_set_negative c True) = - int (unat w)" if i
      using i(2) [OF that] zero(1) BN_is_zero_iff [of c] by (auto simp: BN_set_negative_def bn_ok_def bn_int_def unat_eq_0)
    moreover have "bn_int a = 0" using zero by (simp add: bn_int_def)
    ultimately show ?thesis using zero i(1) by (simp add: e word_call_gives_def has_word_room_def)
  next
    case neg
    define b where "b = a\<lparr>bn_neg := False\<rparr>"
    have b: "bn_ok b" "\<not> bn_neg b" "bn_abs b = bn_abs a" using assms by (simp_all add: b_def bn_ok_def)
    obtain c where c: "BN_add_word malloc b w = Some (has_word_room malloc a w True, c)"
        "has_word_room malloc a w True \<Longrightarrow> bn_ok c \<and> bn_int c = int (bn_abs a) + int (unat w)"
      using add_word_nonneg [OF b(1,2) _ neg(1), of malloc] neg b(3) by (auto simp: b_def elim: word_call_givesE)
    have e: "BN_sub_word malloc a w = Some (has_word_room malloc a w True, c\<lparr>bn_neg := True\<rparr>)"
      using neg c(1) BN_is_zero_iff [OF wok] by (simp add: BN_sub_word.simps [of malloc a w] b_def [symmetric])
    have "bn_ok (c\<lparr>bn_neg := True\<rparr>) \<and> bn_int (c\<lparr>bn_neg := True\<rparr>) = - (int (bn_abs a) + int (unat w))" if "has_word_room malloc a w True"
    proof -
      have v: "bn_int c = int (bn_abs a) + int (unat w)" and ok: "bn_ok c" using c(2) [OF that] by simp_all
      have "bn_abs c = bn_abs a + unat w"
      proof (cases "bn_neg c")
        case True
        have "- int (bn_abs c) = int (bn_abs a) + int (unat w)" using v by (simp only: bn_int_def True if_True)
        then show ?thesis using neg(2) by linarith
      next
        case False
        have "int (bn_abs c) = int (bn_abs a) + int (unat w)" using v by (simp only: bn_int_def False if_False)
        then show ?thesis by linarith
      qed
      moreover have "width_ok c" using ok by (rule bn_okD)
      ultimately show ?thesis using neg by (simp add: bn_ok_def bn_int_def)
    qed
    then show ?thesis using neg by (simp add: e word_call_gives_def bn_int_def)
  next
    case pos
    have "has_word_room malloc a w False" using pos by (simp add: has_word_room_def)
    then show ?thesis using pos sub_word_nonneg [OF assms pos(3,2,1), of malloc] by (simp add: bn_int_def)
  qed
qed

section \<open>Properties\<close>

text \<open>
  C35: \<^verbatim>\<open>BN_add\<close>, \<^verbatim>\<open>BN_sub\<close>, \<^verbatim>\<open>BN_add_word\<close> and \<^verbatim>\<open>BN_sub_word\<close> compute the sum and the difference of the integers that
  the numbers stand for, with any signs and widths, leading zero words included. The result may be the same number as
  one of the arguments, or both; it is well formed (a zero has no sign), and no other number changes. The calls succeed
  exactly when the result has room or can be given room, and when \<^verbatim>\<open>BN_add\<close> or \<^verbatim>\<open>BN_sub\<close> fail, the absolute value of the
  result is as it was. The borrow loop of \<^verbatim>\<open>BN_sub_word\<close> ends inside the number.
\<close>

theorem bn_signed_arithmetic_exact:
  assumes "bn_ok (st a)" and "bn_ok (st b)" and "bn_ok (st r)"
  shows "call_gives (has_room malloc st r a b (bn_neg (st a) = bn_neg (st b))) r (bn_int (st a) + bn_int (st b)) st
      (BN_add malloc r a b st) \<and>
    call_gives (has_room malloc st r a b (bn_neg (st a) \<noteq> bn_neg (st b))) r (bn_int (st a) - bn_int (st b)) st
      (BN_sub malloc r a b st) \<and>
    word_call_gives (has_word_room malloc (st a) w (\<not> bn_neg (st a))) (bn_int (st a) + int (unat w)) (BN_add_word malloc (st a) w) \<and>
    word_call_gives (has_word_room malloc (st a) w (bn_neg (st a))) (bn_int (st a) - int (unat w)) (BN_sub_word malloc (st a) w)"
  using BN_add_gives [OF assms] BN_sub_gives [OF assms] BN_add_word_gives [OF assms(1)] BN_sub_word_gives [OF assms(1)]
  by (intro conjI) auto

definition example_store :: bn_store where
  "example_store h = (if h = 0 then \<lparr>bn_d = [0xffffffffffffffff, 0], bn_width = 1, bn_neg = False, bn_static = False\<rparr>
     else \<lparr>bn_d = [2, 0], bn_width = 2, bn_neg = True, bn_static = False\<rparr>)"

text \<open>With the first argument as the result: the sum has the value \<open>2 ^ 64 - 3\<close>, and the difference needs a second word.\<close>

lemma bn_signed_arithmetic_exact_witness:
  "call_gives True 0 (2 ^ 64 - 3) example_store (BN_add (\<lambda>_. None) 0 0 1 example_store) \<and>
   call_gives False 0 (2 ^ 64 + 1) example_store (BN_sub (\<lambda>_. None) 0 0 1 example_store) \<and>
   word_call_gives True (2 ^ 64 + 1) (BN_add_word (\<lambda>_. None) (example_store 0) 2) \<and>
   word_call_gives True (2 ^ 64 - 3) (BN_sub_word (\<lambda>_. None) (example_store 0) 2)"
proof -
  have ok: "bn_ok (example_store 0)" "bn_ok (example_store 1)" by (simp_all add: example_store_def bn_ok_def bn_abs_def bn_words_def)
  have v: "bn_int (example_store 0) = 2 ^ 64 - 1" "bn_int (example_store 1) = - 2"
    by (simp_all add: example_store_def bn_int_def bn_abs_def bn_words_def)
  have neg: "\<not> bn_neg (example_store 0)" "bn_neg (example_store 1)" by (simp_all add: example_store_def)
  have room: "has_room (\<lambda>_. None) example_store 0 0 1 False" "\<not> has_room (\<lambda>_. None) example_store 0 0 1 True"
    "has_word_room (\<lambda>_. None) (example_store 0) 2 True" "has_word_room (\<lambda>_. None) (example_store 0) 2 False"
    by (simp_all add: has_room_def has_word_room_def can_expand_def example_store_def bn_abs_def bn_words_def OPENSSL_malloc_def INT_MAX_def)
  show ?thesis using bn_signed_arithmetic_exact [OF ok ok(1), of "\<lambda>_. None" 2] neg room by (simp add: v del: One_nat_def)
qed

end
