(* ===== verification/BnBytes.thy ===== *)
theory BnBytes
  imports BnAdd
begin

text \<open>
  \<^verbatim>\<open>crypto/fipsmodule/bn/bytes.c\<close>: big numbers from and to strings of bytes, big-endian and little-endian. A platform
  is little-endian, so that the bytes of the array of words are the number.
\<close>

unbundle bit_operations_syntax

section \<open>bytes.c\<close>

text \<open>The array of words seen as bytes.\<close>

definition word_bytes :: "u64 list \<Rightarrow> bytes" where
  "word_bytes d = concat (map store_word_le d)"

fun bin2bn_loop :: "bytes \<Rightarrow> nat \<Rightarrow> nat \<Rightarrow> u64 \<Rightarrow> u64 list \<Rightarrow> u64 list" where
  "bin2bn_loop [] num_words m word d = d"
| "bin2bn_loop (b # inp) num_words m word d =
     (let word = push_bit 8 word OR ucast b
      in if m = 0 then bin2bn_loop inp (num_words - 1) (BN_BYTES - 1) 0 (d[num_words - 1 := word])
         else bin2bn_loop inp num_words (m - 1) word d)"

text \<open>
  The result says whether the returned pointer is not \<^verbatim>\<open>NULL\<close>, and what the number \<^verbatim>\<open>ret\<close> is afterwards; a number that was
  allocated for the call is freed when it fails.
\<close>

definition BN_bin2bn :: "libc_malloc \<Rightarrow> bytes \<Rightarrow> bignum_st option \<Rightarrow> bool \<times> bignum_st option" where
  "BN_bin2bn malloc inp ret =
     (let fresh = (ret = None);
          ret = (if fresh then BN_new malloc else ret);
          len = length inp
      in case ret of
           None \<Rightarrow> (False, None)
         | Some ret \<Rightarrow>
             if len = 0 then (True, Some (ret\<lparr>bn_width := 0\<rparr>))
             else let num_words = (len - 1) div BN_BYTES + 1;
                      m = (len - 1) mod BN_BYTES
                  in case bn_wexpand malloc ret num_words of
                       (ok, ret) \<Rightarrow>
                         if \<not> ok then (False, if fresh then None else Some ret)
                         else let ret = ret\<lparr>bn_width := num_words, bn_neg := False\<rparr>
                              in (True, Some (ret\<lparr>bn_d := bin2bn_loop inp num_words m 0 (bn_d ret)\<rparr>)))"

definition BN_le2bn :: "libc_malloc \<Rightarrow> bytes \<Rightarrow> bignum_st option \<Rightarrow> bool \<times> bignum_st option" where
  "BN_le2bn malloc inp ret =
     (let fresh = (ret = None);
          ret = (if fresh then BN_new malloc else ret);
          len = length inp
      in case ret of
           None \<Rightarrow> (False, None)
         | Some ret \<Rightarrow>
             if len = 0 then (True, Some (ret\<lparr>bn_width := 0, bn_neg := False\<rparr>))
             else let num_words = (len - 1) div BN_BYTES + 1
                  in case bn_wexpand malloc ret num_words of
                       (ok, ret) \<Rightarrow>
                         if \<not> ok then (False, if fresh then None else Some ret)
                         else let ret = ret\<lparr>bn_width := num_words\<rparr>;
                                  d = (bn_d ret)[num_words - 1 := 0];
                                  m = inp @ drop len (word_bytes d)
                              in (True, Some (ret\<lparr>bn_d := word_array m (length d)\<rparr>)))"

definition BN_bn2bin :: "bignum_st \<Rightarrow> nat \<times> bytes" where
  "BN_bn2bin inp =
     (let n = BN_num_bytes inp
      in (n, map (\<lambda>i. ucast (drop_bit (8 * (i mod BN_BYTES)) (bn_d inp ! (i div BN_BYTES))) AND 0xff) (rev [0..<n])))"

definition fits_in_bytes :: "bytes \<Rightarrow> nat \<Rightarrow> nat \<Rightarrow> bool" where
  "fits_in_bytes bytes num_bytes len \<longleftrightarrow> fold (\<lambda>i mask. mask OR bytes ! i) [len..<num_bytes] 0 = 0"

text \<open>\<^verbatim>\<open>out\<close> has \<^verbatim>\<open>len\<close> bytes.\<close>

definition BN_bn2le_padded :: "bytes \<Rightarrow> nat \<Rightarrow> bignum_st \<Rightarrow> bool \<times> bytes" where
  "BN_bn2le_padded out len inp =
     (let bytes = word_bytes (bn_d inp);
          num_bytes = bn_width inp * BN_BYTES
      in if len < num_bytes \<and> \<not> fits_in_bytes bytes num_bytes len then (False, out)
         else let num_bytes = (if len < num_bytes then len else num_bytes);
                  out = take num_bytes bytes @ drop num_bytes out
              in (True, take num_bytes out @ replicate (len - num_bytes) 0))"

definition BN_bn2bin_padded :: "bytes \<Rightarrow> nat \<Rightarrow> bignum_st \<Rightarrow> bool \<times> bytes" where
  "BN_bn2bin_padded out len inp =
     (let bytes = word_bytes (bn_d inp);
          num_bytes = bn_width inp * BN_BYTES
      in if len < num_bytes \<and> \<not> fits_in_bytes bytes num_bytes len then (False, out)
         else let num_bytes = (if len < num_bytes then len else num_bytes);
                  out = fold (\<lambda>i out. out[len - i - 1 := bytes ! i]) [0..<num_bytes] out
              in (True, replicate (len - num_bytes) 0 @ drop (len - num_bytes) out))"

definition BN_get_word :: "bignum_st \<Rightarrow> u64" where
  "BN_get_word bn =
     (let width = bn_minimal_width bn
      in if width = 0 then 0 else if width = 1 then bn_d bn ! 0 else BN_MASK2)"

definition BN_get_u64 :: "bignum_st \<Rightarrow> u64 option" where
  "BN_get_u64 bn =
     (let width = bn_minimal_width bn
      in if width = 0 then Some 0 else if width = 1 then Some (bn_d bn ! 0) else None)"

section \<open>Words and their bytes\<close>

lemma store_word_le_be_enc: "store_word_le w = rev (be_enc 8 (unat w))"
proof (rule nth_equalityI)
  fix i
  assume "i < length (store_word_le w)"
  then have i: "i < 8" by simp
  have "(256 :: nat) ^ i = 2 ^ (8 * i)" by (simp add: power_mult)
  then have "ucast (drop_bit (8 * i) w) = (of_nat (unat w div 256 ^ i) :: u8)"
    by (simp add: word_unat_eq_iff unat_ucast_down unat_drop_bit unat_of_nat)
  moreover have "[0..<8] ! (7 - i) = 7 - i" using nth_upt [of 0 "7 - i" 8] by simp
  ultimately show "store_word_le w ! i = rev (be_enc 8 (unat w)) ! i"
    using i by (simp add: store_word_le_def be_enc_map rev_nth)
qed (simp add: store_word_le_def)

lemma le_val_store_word: "be_val (rev (store_word_le w)) = unat w"
  using unat_u64_lt [of w] by (simp add: store_word_le_be_enc)

lemma word_bytes_Nil [simp]: "word_bytes [] = []"
  by (simp add: word_bytes_def)

lemma word_bytes_Cons [simp]: "word_bytes (w # d) = store_word_le w @ word_bytes d"
  by (simp add: word_bytes_def)

lemma length_word_bytes [simp]: "length (word_bytes d) = 8 * length d"
  by (induction d) simp_all

lemma le_val_word_bytes: "be_val (rev (word_bytes d)) = words_val d"
proof (induction d)
  case (Cons w d)
  then show ?case by (simp add: be_val_append le_val_store_word)
qed simp

lemma take_word_bytes: "take (8 * n) (word_bytes d) = word_bytes (take n d)"
proof (induction d arbitrary: n)
  case (Cons w d)
  then show ?case by (cases n) simp_all
qed simp

lemma nth_word_bytes: "i < 8 * length d \<Longrightarrow> word_bytes d ! i = ucast (drop_bit (8 * (i mod 8)) (d ! (i div 8)))"
proof (induction d arbitrary: i)
  case (Cons w d)
  show ?case
  proof (cases "i < 8")
    case True
    then show ?thesis by (simp add: nth_append store_word_le_def)
  next
    case False
    then obtain j where j: "i = 8 + j" using le_Suc_ex by (metis not_less)
    have "(8 + j) div 8 = Suc (j div 8)" by simp
    then show ?thesis using Cons by (simp add: nth_append j)
  qed
qed simp

section \<open>Reading\<close>

lemma bin2bn_loop_result:
  assumes "length bs = 8 * (n - 1) + m + 1" and "1 \<le> n" and "n \<le> length d" and "m < 8" and "unat word < 256 ^ (7 - m)"
  shows "length (bin2bn_loop bs n m word d) = length d \<and> drop n (bin2bn_loop bs n m word d) = drop n d \<and>
    words_val (take n (bin2bn_loop bs n m word d)) = unat word * 256 ^ length bs + be_val bs"
  using assms
proof (induction bs arbitrary: n m word d)
  case (Cons b bs)
  have "(256 :: nat) ^ (7 - m) \<le> 256 ^ 7" by (intro power_increasing) simp_all
  then have "unat word < 2 ^ 56" using Cons.prems(5) by simp
  then have w: "unat (push_bit 8 word OR ucast b) = unat word * 256 + unat b" by (rule unat_shift_or_u8)
  define word' where "word' = push_bit 8 word OR ucast b"
  have b: "unat b < 256" by (rule unat_u8_lt)
  have sum: "unat word' * 256 ^ length bs + be_val bs = unat word * 256 ^ length (b # bs) + be_val (b # bs)"
    by (simp add: word'_def w be_val_Cons algebra_simps)
  show ?case
  proof (cases "m = 0")
    case False
    have "unat word' < 256 ^ (7 - (m - 1))"
    proof -
      have "unat word * 256 + unat b < (unat word + 1) * 256" using b by simp
      also have "\<dots> \<le> 256 ^ (7 - m) * 256" using Cons.prems(5) by (intro mult_right_mono) simp_all
      also have "\<dots> = 256 ^ (7 - (m - 1))" using False Cons.prems(4) by (simp add: Suc_diff_le [symmetric] flip: power_Suc2)
      finally show ?thesis by (simp add: word'_def w)
    qed
    then show ?thesis using Cons.IH [of n "m - 1" d word'] Cons.prems False sum by (simp add: word'_def Let_def)
  next
    case True
    define d1 where "d1 = d[n - 1 := word']"
    have e: "bin2bn_loop (b # bs) n m word d = bin2bn_loop bs (n - 1) 7 0 d1" using True by (simp add: word'_def d1_def Let_def BN_BYTES_def)
    have tk: "words_val (take n x) = words_val (take (n - 1) x) + 2 ^ (64 * (n - 1)) * unat word'"
      if "length x = length d" "drop (n - 1) x = drop (n - 1) d1" for x
    proof -
      have "x ! (n - 1) = word'"
        using that Cons.prems(2,3) nth_drop [of "n - 1" x 0] nth_drop [of "n - 1" d1 0] by (simp add: d1_def)
      then show ?thesis using words_val_Suc [of "n - 1" x] that Cons.prems(2,3) by simp
    qed
    have dr: "drop n x = drop n d" if "drop (n - 1) x = drop (n - 1) d1" for x
      using arg_cong [OF that, of "drop 1"] Cons.prems(2) by (simp add: d1_def)
    have p: "(256 :: nat) ^ (8 * (n - 1)) = 2 ^ (64 * (n - 1))" by (simp add: power_mult)
    show ?thesis
    proof (cases "n = 1")
      case True
      then have "bs = []" using Cons.prems(1) \<open>m = 0\<close> by simp
      have "bin2bn_loop (b # bs) n m word d = d1" using e unfolding \<open>bs = []\<close> bin2bn_loop.simps(1) .
      moreover have "length d1 = length d" by (simp add: d1_def)
      moreover have "take (n - 1) x = []" for x :: "u64 list" using True by simp
      ultimately show ?thesis using tk [of d1] dr [of d1] sum True \<open>bs = []\<close> by (simp only: list.size(3) be_val_Nil) simp
    next
      case False
      have h: "length (bin2bn_loop bs (n - 1) 7 0 d1) = length d1 \<and> drop (n - 1) (bin2bn_loop bs (n - 1) 7 0 d1) = drop (n - 1) d1 \<and>
          words_val (take (n - 1) (bin2bn_loop bs (n - 1) 7 0 d1)) = unat (0 :: u64) * 256 ^ length bs + be_val bs"
        using Cons.prems False True by (intro Cons.IH) (simp_all add: d1_def)
      have l: "length bs = 8 * (n - 1)" using Cons.prems(1) True by simp
      have "unat word' * 2 ^ (64 * (n - 1)) + be_val bs = unat word * 256 ^ length (b # bs) + be_val (b # bs)" using sum unfolding l p .
      then show ?thesis unfolding e using h tk [of "bin2bn_loop bs (n - 1) 7 0 d1"] dr [of "bin2bn_loop bs (n - 1) 7 0 d1"]
        by (simp add: mult.commute del: list.size) (simp add: d1_def)
    qed
  qed
qed simp

lemma blocks_of_8:
  assumes "0 < len"
  shows "len = 8 * ((len - 1) div BN_BYTES + 1 - 1) + (len - 1) mod BN_BYTES + 1"
  using assms by (simp add: BN_BYTES_def)

text \<open>An array of memory that holds a little-endian number.\<close>

lemma word_bytes_array:
  assumes "length m = 8 * n"
  shows "word_bytes (word_array m n) = m"
  using assms
proof (induction n arbitrary: m)
  case (Suc n)
  have "word_array m (Suc n) = load_word_le m # word_array (drop 8 m) n"
    by (simp add: word_array_def upt_conv_Cons map_Suc_upt [symmetric] comp_def add.commute del: upt_Suc)
  moreover have "load_word_le m = load_word_le (take 8 m)" by (simp add: load_word_le_def)
  ultimately show ?case using Suc store_load [of "take 8 m"] by simp
qed (simp add: word_array_def)

lemma word_array_bytes: "word_array (word_bytes d) (length d) = d"
proof (rule words_val_inj)
  show "words_val (word_array (word_bytes d) (length d)) = words_val d"
    by (simp add: le_val_word_bytes [symmetric] word_bytes_array)
qed (simp add: word_array_def)

text \<open>What a call that reads a number gives: a number of absolute value \<^verbatim>\<open>v\<close> and the given sign, or nothing.\<close>

definition read_room :: "libc_malloc \<Rightarrow> bytes \<Rightarrow> bignum_st option \<Rightarrow> bool" where
  "read_room malloc inp ret =
     (case (if ret = None then BN_new malloc else ret) of
        None \<Rightarrow> False
      | Some bn \<Rightarrow> inp = [] \<or> can_expand malloc bn ((length inp - 1) div BN_BYTES + 1))"

definition read_gives :: "bool \<Rightarrow> nat \<Rightarrow> bool \<Rightarrow> bool \<times> bignum_st option \<Rightarrow> bool" where
  "read_gives room v neg = (\<lambda>(ok, ret). ok = room \<and>
     (room \<longrightarrow> (case ret of None \<Rightarrow> False | Some bn \<Rightarrow> width_ok bn \<and> bn_abs bn = v \<and> bn_neg bn = neg)))"

lemma BN_new_Some: "BN_new malloc = Some bn \<Longrightarrow> width_ok bn \<and> \<not> bn_neg bn"
  by (auto simp: BN_new_def BN_init_def split: option.splits)

lemma read_cases:
  assumes "case ret of None \<Rightarrow> True | Some bn \<Rightarrow> width_ok bn"
  obtains (none) "(if ret = None then BN_new malloc else ret) = None" and "\<not> read_room malloc inp ret"
  | (some) bn where "(if ret = None then BN_new malloc else ret) = Some bn" and "width_ok bn"
    and "bn_neg bn = (case ret of None \<Rightarrow> False | Some bn \<Rightarrow> bn_neg bn)"
    and "read_room malloc inp ret = (inp = [] \<or> can_expand malloc bn ((length inp - 1) div BN_BYTES + 1))"
proof (cases "if ret = None then BN_new malloc else ret")
  case None
  then show ?thesis by (intro none) (simp_all add: read_room_def)
next
  case (Some bn)
  then have "width_ok bn \<and> bn_neg bn = (case ret of None \<Rightarrow> False | Some bn \<Rightarrow> bn_neg bn)"
    using assms BN_new_Some [of malloc bn] by (cases ret) auto
  then show ?thesis using Some by (intro some [of bn]) (simp_all add: read_room_def)
qed

lemma BN_bin2bn_gives:
  assumes "case ret of None \<Rightarrow> True | Some bn \<Rightarrow> width_ok bn"
  shows "read_gives (read_room malloc inp ret) (be_val inp)
    (inp = [] \<and> (case ret of None \<Rightarrow> False | Some bn \<Rightarrow> bn_neg bn)) (BN_bin2bn malloc inp ret)"
proof (cases rule: read_cases [OF assms, of malloc inp])
  case 1
  show ?thesis unfolding BN_bin2bn_def Let_def 1(1) read_gives_def using 1(2) by simp
next
  case (2 bn)
  note some = 2
  define n where "n = (length inp - 1) div BN_BYTES + 1"
  show ?thesis
  proof (cases "inp = []")
    case True
    show ?thesis unfolding BN_bin2bn_def Let_def some(1) read_gives_def using some(3,4) True
      by (simp add: bn_abs_def bn_words_def)
  next
    case False
    show ?thesis
    proof (cases rule: bn_wexpand_cases [OF some(2), of malloc n])
      case 1
      show ?thesis unfolding BN_bin2bn_def Let_def some(1) n_def [symmetric] option.case 1(2) read_gives_def
        using some(4) False 1(1) by (simp add: n_def)
    next
      case (2 d)
      define d' where "d' = bin2bn_loop inp n ((length inp - 1) mod BN_BYTES) 0 d"
      have len: "0 < length inp" using False by simp
      have r: "length d' = length d \<and> words_val (take n d') = be_val inp"
        using bin2bn_loop_result [of inp n "(length inp - 1) mod BN_BYTES" d 0] blocks_of_8 [OF len] 2(5)
        by (simp add: d'_def n_def BN_BYTES_def)
      have "BN_bin2bn malloc inp ret = (True, Some (bn\<lparr>bn_d := d', bn_width := n, bn_neg := False\<rparr>))"
        unfolding BN_bin2bn_def Let_def some(1) n_def [symmetric] option.case 2(2) using False by (simp add: d'_def)
      then show ?thesis using r 2(1,5) some(4) False by (simp add: read_gives_def bn_abs_def bn_words_def n_def)
    qed
  qed
qed

lemma rev_append_take: "be_val (rev (as @ bs)) = be_val (rev bs) * 256 ^ length as + be_val (rev as)"
  by (simp add: be_val_append)

lemma be_val_zeros [simp]: "be_val (replicate n 0) = 0"
  by (induction n) (simp_all add: be_val_Cons)

lemma be_val_0_iff: "be_val bs = 0 \<longleftrightarrow> (\<forall>b\<in>set bs. b = 0)"
  by (induction bs) (auto simp: be_val_Cons unat_eq_0)

text \<open>The bytes behind the input that were copied from the top word are zero.\<close>

lemma le_copy_value:
  assumes "inp \<noteq> []" and "n = (length inp - 1) div BN_BYTES + 1" and "n \<le> length d"
  shows "words_val (take n (word_array (inp @ drop (length inp) (word_bytes (d[n - 1 := 0]))) (length d))) = be_val (rev inp)"
proof -
  define k where "k = length inp"
  define d0 where "d0 = d[n - 1 := 0]"
  have k: "8 * (n - 1) < k" "k \<le> 8 * n" using assms(1,2) by (cases inp; simp add: BN_BYTES_def k_def)+
  have ld: "length d0 = length d" by (simp add: d0_def)
  define m where "m = inp @ drop k (word_bytes d0)"
  have lm: "length m = 8 * length d" using k assms(3) by (simp add: m_def k_def ld)
  have "word_bytes (take n (word_array m (length d))) = take (8 * n) m"
    using word_bytes_array [OF lm] by (simp flip: take_word_bytes)
  also have "\<dots> = inp @ take (8 * n - k) (drop k (word_bytes d0))" using k by (simp add: m_def k_def)
  also have "take (8 * n - k) (drop k (word_bytes d0)) = replicate (8 * n - k) 0"
  proof (rule nth_equalityI)
    show "length (take (8 * n - k) (drop k (word_bytes d0))) = length (replicate (8 * n - k) 0)"
      using k assms(3) by (simp add: ld)
    fix i
    assume "i < length (take (8 * n - k) (drop k (word_bytes d0)))"
    then have i: "i < 8 * n - k" by simp
    have q: "(k + i) div 8 = n - 1" using i k by (intro div_nat_eqI) simp_all
    have "word_bytes d0 ! (k + i) = ucast (drop_bit (8 * ((k + i) mod 8)) (d0 ! (n - 1)))"
      using i assms(3) by (simp add: nth_word_bytes ld q)
    also have "d0 ! (n - 1) = 0" using assms(2,3) by (simp add: d0_def)
    finally show "take (8 * n - k) (drop k (word_bytes d0)) ! i = replicate (8 * n - k) 0 ! i" using i k assms(3) by (simp add: ld)
  qed
  finally have "word_bytes (take n (word_array m (length d))) = inp @ replicate (8 * n - k) 0" .
  then have "words_val (take n (word_array m (length d))) = be_val (rev (inp @ replicate (8 * n - k) 0))"
    by (metis le_val_word_bytes)
  then show ?thesis by (simp add: be_val_append m_def d0_def k_def)
qed

lemma BN_le2bn_gives:
  assumes "case ret of None \<Rightarrow> True | Some bn \<Rightarrow> width_ok bn"
  shows "read_gives (read_room malloc inp ret) (be_val (rev inp))
    (inp \<noteq> [] \<and> (case ret of None \<Rightarrow> False | Some bn \<Rightarrow> bn_neg bn)) (BN_le2bn malloc inp ret)"
proof (cases rule: read_cases [OF assms, of malloc inp])
  case 1
  show ?thesis unfolding BN_le2bn_def Let_def 1(1) read_gives_def using 1(2) by simp
next
  case (2 bn)
  note some = 2
  define n where "n = (length inp - 1) div BN_BYTES + 1"
  show ?thesis
  proof (cases "inp = []")
    case True
    show ?thesis unfolding BN_le2bn_def Let_def some(1) read_gives_def using some(4) True
      by (simp add: bn_abs_def bn_words_def)
  next
    case False
    show ?thesis
    proof (cases rule: bn_wexpand_cases [OF some(2), of malloc n])
      case 1
      show ?thesis unfolding BN_le2bn_def Let_def some(1) n_def [symmetric] option.case 1(2) read_gives_def
        using some(4) False 1(1) by (simp add: n_def)
    next
      case (2 d)
      define d' where "d' = word_array (inp @ drop (length inp) (word_bytes (d[n - 1 := 0]))) (length d)"
      have r: "words_val (take n d') = be_val (rev inp)" unfolding d'_def by (rule le_copy_value [OF False n_def 2(5)])
      have l: "length d' = length d" by (simp add: d'_def word_array_def)
      have "BN_le2bn malloc inp ret = (True, Some (bn\<lparr>bn_d := d', bn_width := n\<rparr>))"
        unfolding BN_le2bn_def Let_def some(1) n_def [symmetric] option.case 2(2) using False by (simp add: d'_def)
      then show ?thesis using r l 2(1,5) some(3,4) False by (simp add: read_gives_def bn_abs_def bn_words_def n_def)
    qed
  qed
qed

section \<open>Writing\<close>

lemma be_enc_nth_word:
  assumes "width_ok bn" and "i < 8 * bn_width bn"
  shows "ucast (drop_bit (8 * (i mod BN_BYTES)) (bn_d bn ! (i div BN_BYTES))) = (of_nat (bn_abs bn div 256 ^ i) :: u8)"
proof -
  define bs where "bs = rev (word_bytes (bn_words bn))"
  have l: "length bs = 8 * bn_width bn" using assms(1) by (simp add: bs_def)
  have v: "be_val bs = bn_abs bn" by (simp add: bs_def le_val_word_bytes bn_abs_def)
  have "word_bytes (bn_words bn) ! i = rev bs ! i" by (simp add: bs_def)
  also have "\<dots> = rev (be_enc (8 * bn_width bn) (bn_abs bn)) ! i" using be_enc_be_val [of bs] unfolding l v by simp
  also have "\<dots> = of_nat (bn_abs bn div 256 ^ i)" using assms(2) nth_upt [of 0 "8 * bn_width bn - Suc i" "8 * bn_width bn"]
    by (simp add: rev_nth) (simp add: be_enc_map)
  finally show ?thesis using assms by (simp add: nth_word_bytes BN_BYTES_def nth_bn_words)
qed

lemma BN_num_bytes_le_width: "width_ok bn \<Longrightarrow> BN_num_bytes bn \<le> 8 * bn_width bn"
  using words_val_lt [of "bn_words bn"] by (simp add: BN_num_bytes_le_iff bn_abs_def power_mult)

lemma BN_bn2bin_exact:
  assumes "width_ok bn"
  shows "BN_bn2bin bn = (BN_num_bytes bn, be_enc (BN_num_bytes bn) (bn_abs bn))"
proof -
  define n where "n = BN_num_bytes bn"
  have "ucast (drop_bit (8 * (i mod BN_BYTES)) (bn_d bn ! (i div BN_BYTES))) AND 0xff = (of_nat (bn_abs bn div 256 ^ i) :: u8)" if "i < n" for i
  proof -
    have "x AND 0xff = x" for x :: u8
    proof -
      have "(0xff :: u8) = - 1" by simp
      then show ?thesis by (simp only: and.right_neutral)
    qed
    then show ?thesis using be_enc_nth_word [OF assms, of i] that BN_num_bytes_le_width [OF assms] by (simp add: n_def)
  qed
  then have "map (\<lambda>i. ucast (drop_bit (8 * (i mod BN_BYTES)) (bn_d bn ! (i div BN_BYTES))) AND 0xff) (rev [0..<n]) =
      (map (\<lambda>i. of_nat (bn_abs bn div 256 ^ i)) (rev [0..<n]) :: bytes)"
    by (intro map_cong) simp_all
  also have "\<dots> = be_enc n (bn_abs bn)" by (rule nth_equalityI) (simp_all add: be_enc_map rev_nth)
  finally show ?thesis by (simp add: BN_bn2bin_def Let_def n_def)
qed

lemma fits_in_bytes_iff:
  assumes "width_ok bn"
  shows "fits_in_bytes (word_bytes (bn_d bn)) (bn_width bn * BN_BYTES) len \<longleftrightarrow> bn_abs bn < 256 ^ len"
proof -
  define n where "n = bn_width bn * BN_BYTES"
  have n: "n = 8 * bn_width bn" by (simp add: n_def BN_BYTES_def)
  define bs where "bs = word_bytes (bn_words bn)"
  have bs: "bs = take n (word_bytes (bn_d bn))" "length bs = n" using assms by (simp_all add: bs_def bn_words_def n take_word_bytes)
  have val: "bn_abs bn = be_val (rev bs)" by (simp add: bs_def le_val_word_bytes bn_abs_def)
  have "fits_in_bytes (word_bytes (bn_d bn)) n len \<longleftrightarrow> (\<forall>i\<in>{len..<n}. bs ! i = 0)"
    using bs by (simp add: fits_in_bytes_def fold_or_zero)
  also have "\<dots> \<longleftrightarrow> bn_abs bn < 256 ^ len"
  proof (cases "len \<le> n")
    case True
    have "(\<forall>i\<in>{len..<n}. bs ! i = 0) \<longleftrightarrow> (\<forall>b\<in>set (drop len bs). b = 0)"
    proof
      assume z: "\<forall>i\<in>{len..<n}. bs ! i = 0"
      show "\<forall>b\<in>set (drop len bs). b = 0" using z True bs(2) by (auto simp: in_set_conv_nth)
    next
      assume z: "\<forall>b\<in>set (drop len bs). b = 0"
      have "bs ! i = 0" if "i \<in> {len..<n}" for i
      proof -
        have "bs ! i = drop len bs ! (i - len)" "i - len < length (drop len bs)" using that True bs(2) by auto
        then show ?thesis using z nth_mem by metis
      qed
      then show "\<forall>i\<in>{len..<n}. bs ! i = 0" ..
    qed
    also have "\<dots> \<longleftrightarrow> be_val (rev (drop len bs)) = 0" by (simp add: be_val_0_iff)
    also have "\<dots> \<longleftrightarrow> bn_abs bn < 256 ^ len"
    proof -
      have "bn_abs bn = be_val (rev (drop len bs)) * 256 ^ len + be_val (rev (take len bs))"
        using rev_append_take [of "take len bs" "drop len bs"] True bs(2) by (simp add: val)
      moreover have "be_val (rev (take len bs)) < 256 ^ len" by (rule be_val_bound) simp
      ultimately show ?thesis by (cases "be_val (rev (drop len bs))") simp_all
    qed
    finally show ?thesis .
  next
    case False
    then have "bn_abs bn < 256 ^ len" using bs(2) unfolding val by (intro be_val_bound) simp
    then show ?thesis using False by simp
  qed
  finally show ?thesis by (simp add: n_def)
qed

lemma guard_iff:
  assumes "width_ok bn"
  shows "(len < bn_width bn * BN_BYTES \<and> \<not> fits_in_bytes (word_bytes (bn_d bn)) (bn_width bn * BN_BYTES) len) \<longleftrightarrow> \<not> bn_abs bn < 256 ^ len"
  using fits_in_bytes_iff [OF assms, of len] by (cases "len < bn_width bn * BN_BYTES") (simp_all add: fits_in_bytes_def)

text \<open>What is copied, and the zeros behind it, are the value at the length asked for.\<close>

lemma padded_value:
  assumes "width_ok bn" and "bn_abs bn < 256 ^ len" and "nb = (if len < bn_width bn * BN_BYTES then len else bn_width bn * BN_BYTES)"
  shows "replicate (len - nb) 0 @ rev (take nb (word_bytes (bn_d bn))) = be_enc len (bn_abs bn)"
proof (rule be_val_inj)
  define n where "n = bn_width bn * BN_BYTES"
  have n: "n = 8 * bn_width bn" "n \<le> length (word_bytes (bn_d bn))" using assms(1) by (simp_all add: n_def BN_BYTES_def)
  show "length (replicate (len - nb) 0 @ rev (take nb (word_bytes (bn_d bn)))) = length (be_enc len (bn_abs bn))"
    using n(2) by (auto simp: assms(3) n_def [symmetric])
  have t: "take n (word_bytes (bn_d bn)) = word_bytes (bn_words bn)" by (simp add: n bn_words_def take_word_bytes)
  have "be_val (rev (take nb (word_bytes (bn_d bn)))) = bn_abs bn"
  proof (cases "len < n")
    case True
    define bs where "bs = word_bytes (bn_words bn)"
    have bs: "length bs = n" "bn_abs bn = be_val (rev bs)" using assms(1) by (simp_all add: bs_def n le_val_word_bytes bn_abs_def)
    have "bn_abs bn = be_val (rev (drop len bs)) * 256 ^ len + be_val (rev (take len bs))"
      using rev_append_take [of "take len bs" "drop len bs"] True bs by simp
    then have "bn_abs bn = be_val (rev (take len bs))" using assms(2) by (cases "be_val (rev (drop len bs))") auto
    moreover have "take len bs = take nb (word_bytes (bn_d bn))"
      using True by (simp add: bs_def t [symmetric] assms(3) n_def [symmetric] min.absorb1)
    ultimately show ?thesis by simp
  next
    case False
    then have "nb = n" using assms(3) by (simp add: n_def)
    then show ?thesis by (simp add: t le_val_word_bytes bn_abs_def)
  qed
  then show "be_val (replicate (len - nb) 0 @ rev (take nb (word_bytes (bn_d bn)))) = be_val (be_enc len (bn_abs bn))"
    using assms(2) by (simp add: be_val_append)
qed

lemma reverse_copy:
  assumes "nb \<le> length out" and "nb \<le> length bs"
  shows "fold (\<lambda>i out. out[length out - i - 1 := bs ! i]) [0..<nb] out = take (length out - nb) out @ rev (take nb bs)"
  using assms
proof (induction nb)
  case (Suc nb)
  have s: "length out - nb = Suc (length out - Suc nb)" using Suc.prems by simp
  have "take (length out - nb) out = take (length out - Suc nb) out @ [out ! (length out - Suc nb)]"
    unfolding s using Suc.prems by (intro take_Suc_conv_app_nth) simp
  then show ?case using Suc by (simp add: take_Suc_conv_app_nth list_update_append)
qed simp

lemma reverse_copy_len:
  assumes "length out = len"
  shows "fold (\<lambda>i out. out[len - i - 1 := bs ! i]) is out = fold (\<lambda>i out. out[length out - i - 1 := bs ! i]) is out"
  using assms by (induction "is" arbitrary: out) simp_all

lemma BN_bn2bin_padded_exact:
  assumes "width_ok bn" and "length out = len"
  shows "BN_bn2bin_padded out len bn = (if bn_abs bn < 256 ^ len then (True, be_enc len (bn_abs bn)) else (False, out))"
proof -
  define nb where "nb = (if len < bn_width bn * BN_BYTES then len else bn_width bn * BN_BYTES)"
  note f = guard_iff [OF assms(1), of len]
  show ?thesis
  proof (cases "bn_abs bn < 256 ^ len")
    case True
    have nb: "nb \<le> length out" "nb \<le> length (word_bytes (bn_d bn))" using assms by (simp_all add: nb_def BN_BYTES_def)
    show ?thesis using padded_value [OF assms(1) True nb_def] True
      unfolding BN_bn2bin_padded_def Let_def f nb_def [symmetric] reverse_copy_len [OF assms(2)] reverse_copy [OF nb] by (simp add: assms(2))
  next
    case False
    then show ?thesis unfolding BN_bn2bin_padded_def Let_def f by simp
  qed
qed

lemma BN_bn2le_padded_exact:
  assumes "width_ok bn" and "length out = len"
  shows "BN_bn2le_padded out len bn = (if bn_abs bn < 256 ^ len then (True, rev (be_enc len (bn_abs bn))) else (False, out))"
proof -
  define nb where "nb = (if len < bn_width bn * BN_BYTES then len else bn_width bn * BN_BYTES)"
  note f = guard_iff [OF assms(1), of len]
  show ?thesis
  proof (cases "bn_abs bn < 256 ^ len")
    case True
    have nb: "nb \<le> len" "nb \<le> length (word_bytes (bn_d bn))" using assms by (simp_all add: nb_def BN_BYTES_def)
    show ?thesis using True nb unfolding BN_bn2le_padded_def Let_def f nb_def [symmetric] padded_value [OF assms(1) True nb_def, symmetric]
      by (simp add: min.absorb2)
  next
    case False
    then show ?thesis unfolding BN_bn2le_padded_def Let_def f by simp
  qed
qed

lemma BN_get_word_exact:
  assumes "width_ok bn"
  shows "BN_get_word bn = (if bn_abs bn < 2 ^ 64 then of_nat (bn_abs bn) else BN_MASK2)"
    and "BN_get_u64 bn = (if bn_abs bn < 2 ^ 64 then Some (of_nat (bn_abs bn)) else None)"
proof -
  consider "bn_minimal_width bn = 0" | "bn_minimal_width bn = 1" | "bn_minimal_width bn \<noteq> 0" "bn_minimal_width bn \<noteq> 1" by blast
  then have "BN_get_word bn = (if bn_abs bn < 2 ^ 64 then of_nat (bn_abs bn) else BN_MASK2) \<and>
    BN_get_u64 bn = (if bn_abs bn < 2 ^ 64 then Some (of_nat (bn_abs bn)) else None)"
  proof cases
    case 1
    then show ?thesis using bn_minimal_width_0 [OF assms] by (simp add: BN_get_word_def BN_get_u64_def)
  next
    case 2
    then show ?thesis using one_word(1) [OF assms 2] unat_u64_lt [of "bn_d bn ! 0"] by (simp add: BN_get_word_def BN_get_u64_def)
  next
    case 3
    then have "2 ^ 64 \<le> bn_abs bn" using many_words [OF assms 3(2)] bn_minimal_width_0 [OF assms] by simp
    then show ?thesis using 3 by (simp add: BN_get_word_def BN_get_u64_def Let_def)
  qed
  then show "BN_get_word bn = (if bn_abs bn < 2 ^ 64 then of_nat (bn_abs bn) else BN_MASK2)"
    "BN_get_u64 bn = (if bn_abs bn < 2 ^ 64 then Some (of_nat (bn_abs bn)) else None)" by simp_all
qed

section \<open>Properties\<close>

definition sign_before :: "bignum_st option \<Rightarrow> bool" where
  "sign_before ret = (case ret of None \<Rightarrow> False | Some bn \<Rightarrow> bn_neg bn)"

text \<open>
  C38: \<^verbatim>\<open>BN_bin2bn\<close> and \<^verbatim>\<open>BN_le2bn\<close> read any string of bytes as the number it stands for, big-endian and
  little-endian, into a new number or one that is there, and fail exactly when there is no room. The sign of a number that is
  reused is kept by \<^verbatim>\<open>BN_le2bn\<close>, and by \<^verbatim>\<open>BN_bin2bn\<close> for the empty string. \<^verbatim>\<open>BN_bn2bin\<close> writes the shortest string for the
  absolute value, which reads back as it, and the padded functions the string of the length asked for, or fail
  without a change when the value does not fit. \<^verbatim>\<open>BN_get_word\<close> and \<^verbatim>\<open>BN_get_u64\<close> return a value that fits in a word.
\<close>

theorem bn_bytes_exact:
  assumes "case ret of None \<Rightarrow> True | Some bn \<Rightarrow> bn_ok bn" and "bn_ok bn" and "length out = len"
  shows "read_gives (read_room malloc inp ret) (be_val inp) (inp = [] \<and> sign_before ret) (BN_bin2bn malloc inp ret) \<and>
    read_gives (read_room malloc inp ret) (be_val (rev inp)) (inp \<noteq> [] \<and> sign_before ret) (BN_le2bn malloc inp ret) \<and>
    BN_bn2bin bn = (BN_num_bytes bn, be_enc (BN_num_bytes bn) (bn_abs bn)) \<and> be_val (snd (BN_bn2bin bn)) = bn_abs bn \<and>
    BN_bn2bin_padded out len bn = (if bn_abs bn < 256 ^ len then (True, be_enc len (bn_abs bn)) else (False, out)) \<and>
    BN_bn2le_padded out len bn = (if bn_abs bn < 256 ^ len then (True, rev (be_enc len (bn_abs bn))) else (False, out)) \<and>
    BN_get_word bn = (if bn_abs bn < 2 ^ 64 then of_nat (bn_abs bn) else BN_MASK2) \<and>
    BN_get_u64 bn = (if bn_abs bn < 2 ^ 64 then Some (of_nat (bn_abs bn)) else None)"
proof -
  have w: "width_ok bn" using assms(2) by (rule bn_okD)
  have r: "case ret of None \<Rightarrow> True | Some bn \<Rightarrow> width_ok bn" using assms(1) by (auto simp: bn_ok_def split: option.splits)
  have "bn_abs bn < 256 ^ BN_num_bytes bn" using BN_num_bytes_le_iff [OF w, of "BN_num_bytes bn"] by simp
  then have "be_val (snd (BN_bn2bin bn)) = bn_abs bn" by (simp add: BN_bn2bin_exact [OF w])
  then show ?thesis
    using BN_bin2bn_gives [OF r, folded sign_before_def] BN_le2bn_gives [OF r, folded sign_before_def] BN_bn2bin_exact [OF w]
      BN_bn2bin_padded_exact [OF w assms(3)] BN_bn2le_padded_exact [OF w assms(3)] BN_get_word_exact [OF w]
    by (intro conjI)
qed

text \<open>A number that was negative reads the bytes 1, 0 as 256, and as minus 1.\<close>

lemma bn_bytes_exact_witness:
  "read_gives True 256 False (BN_bin2bn (\<lambda>_. None) [1, 0] (Some \<lparr>bn_d = [7], bn_width = 1, bn_neg = True, bn_static = False\<rparr>)) \<and>
   read_gives True 1 True (BN_le2bn (\<lambda>_. None) [1, 0] (Some \<lparr>bn_d = [7], bn_width = 1, bn_neg = True, bn_static = False\<rparr>)) \<and>
   BN_bn2bin_padded [9, 9] 2 \<lparr>bn_d = [7], bn_width = 1, bn_neg = True, bn_static = False\<rparr> = (True, [0, 7])"
proof -
  define a where "a = \<lparr>bn_d = [7 :: u64], bn_width = 1, bn_neg = True, bn_static = False\<rparr>"
  have ok: "bn_ok a" by (simp add: a_def bn_ok_def bn_abs_def bn_words_def)
  have v: "bn_abs a = 7" "sign_before (Some a)" "read_room (\<lambda>_. None) [1, 0] (Some a)"
    by (simp_all add: a_def bn_abs_def bn_words_def sign_before_def read_room_def can_expand_def BN_BYTES_def)
  have e: "be_val [1, 0] = 256" "be_val (rev [1, 0]) = 1" and e2: "be_enc 2 7 = [0, 7]" by (simp_all add: be_val_def numeral_2_eq_2)
  have "case Some a of None \<Rightarrow> True | Some bn \<Rightarrow> bn_ok bn" using ok by simp
  then show ?thesis using bn_bytes_exact [of "Some a" a "[9, 9]" 2 "\<lambda>_. None" "[1, 0]"] ok v unfolding a_def [symmetric] e by (simp add: e2)
qed

end
