(* ===== verification/BnMul.thy ===== *)
theory BnMul
  imports BnAdd
begin

text \<open>
  Multiplication and squaring: the word loops and the products by columns of \<^verbatim>\<open>crypto/fipsmodule/bn/generic.c\<close>, and
  the schoolbook products of \<^verbatim>\<open>mul.c\<close> with \<^verbatim>\<open>BN_mul_word\<close>, \<^verbatim>\<open>bn_mul_small\<close> and \<^verbatim>\<open>bn_sqr_small\<close>. A pointer into an
  array is a handle of the store and an offset; an array on the stack is a handle like any other.
\<close>

unbundle bit_operations_syntax

section \<open>generic.c\<close>

text \<open>The macros \<^verbatim>\<open>mul_add\<close>, \<^verbatim>\<open>mul\<close> and \<^verbatim>\<open>sqr\<close>, with a double word.\<close>

definition Lw :: "128 word \<Rightarrow> u64" where "Lw t = ucast t"
definition Hw :: "128 word \<Rightarrow> u64" where "Hw t = ucast (drop_bit BN_BITS2 t)"

definition mul_add :: "u64 \<Rightarrow> u64 \<Rightarrow> u64 \<Rightarrow> u64 \<Rightarrow> u64 \<times> u64" where
  "mul_add r a w c = (let t = ucast w * ucast a + ucast r + ucast c in (Lw t, Hw t))"

definition mul :: "u64 \<Rightarrow> u64 \<Rightarrow> u64 \<Rightarrow> u64 \<times> u64" where
  "mul a w c = (let t = ucast w * ucast a + ucast c in (Lw t, Hw t))"

definition sqr :: "u64 \<Rightarrow> u64 \<times> u64" where
  "sqr a = (let t = ucast a * ucast a in (Lw t, Hw t))"

text \<open>Here a pointer is a handle and an offset, and \<^verbatim>\<open>i\<close> counts the words.\<close>

definition mul_add_step :: "nat \<Rightarrow> nat \<Rightarrow> nat \<Rightarrow> nat \<Rightarrow> u64 \<Rightarrow> nat \<Rightarrow> bn_store \<times> u64 \<Rightarrow> bn_store \<times> u64" where
  "mul_add_step r ro a ao w i = (\<lambda>(st, c1).
     case mul_add (bn_d (st r) ! (ro + i)) (bn_d (st a) ! (ao + i)) w c1 of (x, c1) \<Rightarrow> (put_word r (ro + i) x st, c1))"

definition bn_mul_add_words :: "nat \<Rightarrow> nat \<Rightarrow> nat \<Rightarrow> nat \<Rightarrow> nat \<Rightarrow> u64 \<Rightarrow> bn_store \<Rightarrow> bn_store \<times> u64" where
  "bn_mul_add_words r ro a ao num w st = (if num = 0 then (st, 0) else words_loop (mul_add_step r ro a ao w) 0 num (st, 0))"

definition mul_step :: "nat \<Rightarrow> nat \<Rightarrow> nat \<Rightarrow> nat \<Rightarrow> u64 \<Rightarrow> nat \<Rightarrow> bn_store \<times> u64 \<Rightarrow> bn_store \<times> u64" where
  "mul_step r ro a ao w i = (\<lambda>(st, c1).
     case mul (bn_d (st a) ! (ao + i)) w c1 of (x, c1) \<Rightarrow> (put_word r (ro + i) x st, c1))"

definition bn_mul_words :: "nat \<Rightarrow> nat \<Rightarrow> nat \<Rightarrow> nat \<Rightarrow> nat \<Rightarrow> u64 \<Rightarrow> bn_store \<Rightarrow> bn_store \<times> u64" where
  "bn_mul_words r ro a ao num w st = (if num = 0 then (st, 0) else words_loop (mul_step r ro a ao w) 0 num (st, 0))"

definition sqr_step :: "nat \<Rightarrow> nat \<Rightarrow> nat \<Rightarrow> bn_store \<Rightarrow> bn_store" where
  "sqr_step r a i st = (case sqr (bn_d (st a) ! i) of (l, h) \<Rightarrow> put_word r (2 * i + 1) h (put_word r (2 * i) l st))"

definition bn_sqr_words :: "nat \<Rightarrow> nat \<Rightarrow> nat \<Rightarrow> bn_store \<Rightarrow> bn_store" where
  "bn_sqr_words r a n st = (if n = 0 then st else words_loop (sqr_step r a) 0 n st)"

text \<open>The macros for a number of three words, \<open>c = (c0, c1, c2)\<close>.\<close>

definition mul_add_c :: "u64 \<Rightarrow> u64 \<Rightarrow> u64 \<times> u64 \<times> u64 \<Rightarrow> u64 \<times> u64 \<times> u64" where
  "mul_add_c a b = (\<lambda>(c0, c1, c2).
     let t = ucast a * ucast b;
         t = t + ucast c0;
         c0 = Lw t;
         hi = Hw t;
         c1 = c1 + hi;
         c2 = (if c1 < hi then c2 + 1 else c2)
     in (c0, c1, c2))"

definition mul_add_c2 :: "u64 \<Rightarrow> u64 \<Rightarrow> u64 \<times> u64 \<times> u64 \<Rightarrow> u64 \<times> u64 \<times> u64" where
  "mul_add_c2 a b = (\<lambda>(c0, c1, c2).
     let t = ucast a * ucast b;
         tt = t + ucast c0;
         c0 = Lw tt;
         hi = Hw tt;
         c1 = c1 + hi;
         c2 = (if c1 < hi then c2 + 1 else c2);
         t = t + ucast c0;
         c0 = Lw t;
         hi = Hw t;
         c1 = c1 + hi;
         c2 = (if c1 < hi then c2 + 1 else c2)
     in (c0, c1, c2))"

definition sqr_add_c :: "u64 \<Rightarrow> u64 \<times> u64 \<times> u64 \<Rightarrow> u64 \<times> u64 \<times> u64" where
  "sqr_add_c a = (\<lambda>(c0, c1, c2).
     let t = ucast a * ucast a;
         t = t + ucast c0;
         c0 = Lw t;
         hi = Hw t;
         c1 = c1 + hi;
         c2 = (if c1 < hi then c2 + 1 else c2)
     in (c0, c1, c2))"

text \<open>
  The products by columns: each column adds its products, in the order of the code, stores the low word and clears it,
  and the three variables change their places.
\<close>

definition comba_column :: "(bn_store \<Rightarrow> nat \<times> nat \<Rightarrow> u64 \<times> u64 \<times> u64 \<Rightarrow> u64 \<times> u64 \<times> u64) \<Rightarrow> nat \<Rightarrow> nat \<times> (nat \<times> nat) list \<Rightarrow>
    bn_store \<times> u64 \<times> u64 \<times> u64 \<Rightarrow> bn_store \<times> u64 \<times> u64 \<times> u64" where
  "comba_column add r = (\<lambda>(i, pairs) (st, c).
     case fold (add st) pairs c of (c1, c2, c3) \<Rightarrow> (put_word r i c1 st, c2, c3, 0))"

definition mul_comba :: "(bn_store \<Rightarrow> nat \<times> nat \<Rightarrow> u64 \<times> u64 \<times> u64 \<Rightarrow> u64 \<times> u64 \<times> u64) \<Rightarrow> nat \<Rightarrow> (nat \<times> nat) list list \<Rightarrow>
    bn_store \<Rightarrow> bn_store" where
  "mul_comba add r columns st =
     (case fold (comba_column add r) (enumerate 0 columns) (st, 0, 0, 0) of (st, c1, _) \<Rightarrow> put_word r (length columns) c1 st)"

definition mul_pair :: "nat \<Rightarrow> nat \<Rightarrow> bn_store \<Rightarrow> nat \<times> nat \<Rightarrow> u64 \<times> u64 \<times> u64 \<Rightarrow> u64 \<times> u64 \<times> u64" where
  "mul_pair a b st = (\<lambda>(i, j). mul_add_c (bn_d (st a) ! i) (bn_d (st b) ! j))"

definition sqr_pair :: "nat \<Rightarrow> bn_store \<Rightarrow> nat \<times> nat \<Rightarrow> u64 \<times> u64 \<times> u64 \<Rightarrow> u64 \<times> u64 \<times> u64" where
  "sqr_pair a st = (\<lambda>(i, j). if i = j then sqr_add_c (bn_d (st a) ! i) else mul_add_c2 (bn_d (st a) ! i) (bn_d (st a) ! j))"

definition mul8_columns :: "(nat \<times> nat) list list" where
  "mul8_columns =
   [[(0, 0)],
    [(0, 1), (1, 0)],
    [(2, 0), (1, 1), (0, 2)],
    [(0, 3), (1, 2), (2, 1), (3, 0)],
    [(4, 0), (3, 1), (2, 2), (1, 3), (0, 4)],
    [(0, 5), (1, 4), (2, 3), (3, 2), (4, 1), (5, 0)],
    [(6, 0), (5, 1), (4, 2), (3, 3), (2, 4), (1, 5), (0, 6)],
    [(0, 7), (1, 6), (2, 5), (3, 4), (4, 3), (5, 2), (6, 1), (7, 0)],
    [(7, 1), (6, 2), (5, 3), (4, 4), (3, 5), (2, 6), (1, 7)],
    [(2, 7), (3, 6), (4, 5), (5, 4), (6, 3), (7, 2)],
    [(7, 3), (6, 4), (5, 5), (4, 6), (3, 7)],
    [(4, 7), (5, 6), (6, 5), (7, 4)],
    [(7, 5), (6, 6), (5, 7)],
    [(6, 7), (7, 6)],
    [(7, 7)]]"

definition bn_mul_comba8 :: "nat \<Rightarrow> nat \<Rightarrow> nat \<Rightarrow> bn_store \<Rightarrow> bn_store" where
  "bn_mul_comba8 r a b = mul_comba (mul_pair a b) r mul8_columns"

definition mul4_columns :: "(nat \<times> nat) list list" where
  "mul4_columns =
   [[(0, 0)],
    [(0, 1), (1, 0)],
    [(2, 0), (1, 1), (0, 2)],
    [(0, 3), (1, 2), (2, 1), (3, 0)],
    [(3, 1), (2, 2), (1, 3)],
    [(2, 3), (3, 2)],
    [(3, 3)]]"

definition bn_mul_comba4 :: "nat \<Rightarrow> nat \<Rightarrow> nat \<Rightarrow> bn_store \<Rightarrow> bn_store" where
  "bn_mul_comba4 r a b = mul_comba (mul_pair a b) r mul4_columns"

definition sqr8_columns :: "(nat \<times> nat) list list" where
  "sqr8_columns =
   [[(0, 0)],
    [(1, 0)],
    [(1, 1), (2, 0)],
    [(3, 0), (2, 1)],
    [(2, 2), (3, 1), (4, 0)],
    [(5, 0), (4, 1), (3, 2)],
    [(3, 3), (4, 2), (5, 1), (6, 0)],
    [(7, 0), (6, 1), (5, 2), (4, 3)],
    [(4, 4), (5, 3), (6, 2), (7, 1)],
    [(7, 2), (6, 3), (5, 4)],
    [(5, 5), (6, 4), (7, 3)],
    [(7, 4), (6, 5)],
    [(6, 6), (7, 5)],
    [(7, 6)],
    [(7, 7)]]"

definition bn_sqr_comba8 :: "nat \<Rightarrow> nat \<Rightarrow> bn_store \<Rightarrow> bn_store" where
  "bn_sqr_comba8 r a = mul_comba (sqr_pair a) r sqr8_columns"

definition sqr4_columns :: "(nat \<times> nat) list list" where
  "sqr4_columns =
   [[(0, 0)],
    [(1, 0)],
    [(1, 1), (2, 0)],
    [(3, 0), (2, 1)],
    [(2, 2), (3, 1)],
    [(3, 2)],
    [(3, 3)]]"

definition bn_sqr_comba4 :: "nat \<Rightarrow> nat \<Rightarrow> bn_store \<Rightarrow> bn_store" where
  "bn_sqr_comba4 r a = mul_comba (sqr_pair a) r sqr4_columns"

section \<open>mul.c\<close>

text \<open>One more row of a product: \<^verbatim>\<open>rr[k] = bn_mul_add_words(&(r[k]), a, na, b[k])\<close>.\<close>

definition mul_row :: "nat \<Rightarrow> nat \<Rightarrow> nat \<Rightarrow> nat \<Rightarrow> nat \<Rightarrow> bn_store \<Rightarrow> bn_store" where
  "mul_row r a na b k st = (case bn_mul_add_words r k a 0 na (bn_d (st b) ! k) st of (st, c) \<Rightarrow> put_word r (na + k) c st)"

text \<open>\<^verbatim>\<open>o\<close> is how far the pointers have advanced.\<close>

function mul_normal_loop :: "nat \<Rightarrow> nat \<Rightarrow> nat \<Rightarrow> nat \<Rightarrow> nat \<Rightarrow> nat \<Rightarrow> bn_store \<Rightarrow> bn_store" where
  "mul_normal_loop r a na b k nb st =
     (let nb = nb - 1 in if nb = 0 then st else
      let st = mul_row r a na b (k + 1) st; nb = nb - 1 in if nb = 0 then st else
      let st = mul_row r a na b (k + 2) st; nb = nb - 1 in if nb = 0 then st else
      let st = mul_row r a na b (k + 3) st; nb = nb - 1 in if nb = 0 then st else
      let st = mul_row r a na b (k + 4) st in mul_normal_loop r a na b (k + 4) nb st)"
  by pat_completeness auto
termination by (relation "measure (\<lambda>(r, a, na, b, k, nb, st). nb)") auto

declare mul_normal_loop.simps [simp del]

definition bn_mul_normal :: "nat \<Rightarrow> nat \<Rightarrow> nat \<Rightarrow> nat \<Rightarrow> nat \<Rightarrow> bn_store \<Rightarrow> bn_store" where
  "bn_mul_normal r a na b nb st =
     (let (a, na, b, nb) = (if na < nb then (b, nb, a, na) else (a, na, b, nb))
      in if nb = 0 then st(r := (st r)\<lparr>bn_d := replicate na 0 @ drop na (bn_d (st r))\<rparr>)
         else case bn_mul_words r 0 a 0 na (bn_d (st b) ! 0) st of
                (st, c) \<Rightarrow> mul_normal_loop r a na b 0 nb (put_word r na c st))"

text \<open>\<^verbatim>\<open>None\<close> is \<^verbatim>\<open>abort()\<close>.\<close>

definition bn_mul_small :: "nat \<Rightarrow> nat \<Rightarrow> nat \<Rightarrow> nat \<Rightarrow> nat \<Rightarrow> nat \<Rightarrow> bn_store \<Rightarrow> bn_store option" where
  "bn_mul_small r num_r a num_a b num_b st =
     (if num_r \<noteq> num_a + num_b then None
      else if num_a = 8 \<and> num_b = 8 then Some (bn_mul_comba8 r a b st)
      else Some (bn_mul_normal r a num_a b num_b st))"

text \<open>The rows of a square above its diagonal: row \<open>k\<close> multiplies \<open>a[k]\<close> with the words behind it.\<close>

definition sqr_rows :: "nat \<Rightarrow> nat \<Rightarrow> nat \<Rightarrow> bn_store \<Rightarrow> bn_store" where
  "sqr_rows r a n st = fold (\<lambda>k st.
     let i = n - 1 - k; rp = 2 * k + 1
     in case bn_mul_add_words r rp a (k + 1) i (bn_d (st a) ! k) st of (st, c) \<Rightarrow> put_word r (rp + i) c st) [1..<n - 1] st"

definition bn_sqr_normal :: "nat \<Rightarrow> nat \<Rightarrow> nat \<Rightarrow> nat \<Rightarrow> bn_store \<Rightarrow> bn_store" where
  "bn_sqr_normal r a n tmp st =
     (if n = 0 then st
      else let mx = n * 2;
               st = put_word r 0 0 (put_word r (mx - 1) 0 st);
               st = (if n > 1
                     then (case bn_mul_words r 1 a 1 (n - 1) (bn_d (st a) ! 0) st of (st, c) \<Rightarrow> put_word r (1 + (n - 1)) c st)
                     else st);
               st = (if n > 2 then sqr_rows r a n st else st);
               (st, _) = bn_add_words r r r mx st;
               st = bn_sqr_words tmp a n st;
               (st, _) = bn_add_words r r tmp mx st
           in st)"

definition BN_SMALL_MAX_WORDS :: nat where "BN_SMALL_MAX_WORDS = 9"

text \<open>The last argument is the array on the stack.\<close>

definition bn_sqr_small :: "nat \<Rightarrow> nat \<Rightarrow> nat \<Rightarrow> nat \<Rightarrow> nat \<Rightarrow> bn_store \<Rightarrow> bn_store option" where
  "bn_sqr_small r num_r a num_a tmp st =
     (if num_r \<noteq> 2 * num_a \<or> num_a > BN_SMALL_MAX_WORDS then None
      else if num_a = 4 then Some (bn_sqr_comba4 r a st)
      else if num_a = 8 then Some (bn_sqr_comba8 r a st)
      else let st = bn_sqr_normal r a num_a tmp st
           in Some (st(tmp := (st tmp)\<lparr>bn_d := replicate (2 * num_a) 0 @ drop (2 * num_a) (bn_d (st tmp))\<rparr>)))"

definition BN_mul_word :: "libc_malloc \<Rightarrow> nat \<Rightarrow> u64 \<Rightarrow> bn_store \<Rightarrow> bool \<times> bn_store" where
  "BN_mul_word malloc bn w st =
     (if bn_width (st bn) = 0 then (True, st)
      else if w = 0 then (True, st(bn := BN_zero (st bn)))
      else case bn_mul_words bn 0 bn 0 (bn_width (st bn)) w st of
             (st, ll) \<Rightarrow>
               if ll \<noteq> 0
               then (case bn_wexpand malloc (st bn) (bn_width (st bn) + 1) of
                       (ok, x) \<Rightarrow>
                         let st = st(bn := x) in
                         if \<not> ok then (False, st)
                         else let st = put_word bn (bn_width (st bn)) ll st
                              in (True, st(bn := (st bn)\<lparr>bn_width := bn_width (st bn) + 1\<rparr>)))
               else (True, st))"

section \<open>Rows\<close>

text \<open>A step that adds to its carry what it makes of the two words.\<close>

locale accumulating =
  fixes f :: "u64 \<Rightarrow> u64 \<Rightarrow> u64 \<Rightarrow> u64 \<times> u64" and part :: "u64 \<Rightarrow> u64 \<Rightarrow> nat"
  assumes step: "f x y c = (w, c') \<Longrightarrow> unat w + 2 ^ 64 * unat c' = part x y + unat c"
begin

fun parts :: "u64 list \<Rightarrow> u64 list \<Rightarrow> nat" where
  "parts (x # xs) (y # ys) = part x y + 2 ^ 64 * parts xs ys"
| "parts xs ys = 0"

lemma run:
  assumes "length xs = length ys" and "run_words f xs ys c = (ws, c')"
  shows "length ws = length xs \<and> words_val ws + 2 ^ (64 * length xs) * unat c' = parts xs ys + unat c"
  using assms
proof (induction xs ys arbitrary: c ws rule: list_induct2)
  case (Cons x xs y ys)
  obtain w c1 where f: "f x y c = (w, c1)" by fastforce
  obtain ws1 where r: "run_words f xs ys c1 = (ws1, c')" "ws = w # ws1" using Cons.prems by (auto simp: f split: prod.splits)
  note i = Cons.IH [OF r(1)]
  have "2 ^ 64 * (words_val ws1 + 2 ^ (64 * length xs) * unat c') = 2 ^ 64 * (parts xs ys + unat c1)" using i by simp
  then show ?case using step [OF f] i by (simp add: r(2) algebra_simps power_add)
qed simp

end

lemma low_high: "unat (Lw t) + 2 ^ 64 * unat (Hw t) = unat t"
proof -
  have "unat t < 2 ^ 128" using unsigned_less [of t, where 'a = nat] by simp
  then have "unat t div 2 ^ 64 < 2 ^ 64" by (intro less_mult_imp_div_less) simp
  then have "unat (Hw t) = unat t div 2 ^ 64" by (simp add: Hw_def BN_BITS2_def unat_ucast_down unat_drop_bit)
  moreover have "unat (Lw t) = unat t mod 2 ^ 64" by (simp add: Lw_def unat_ucast_down)
  ultimately show ?thesis by simp
qed

lemma product_bound: "unat (a :: u64) * unat (b :: u64) \<le> (2 ^ 64 - 1) * (2 ^ 64 - 1)"
  using unat_u64_lt [of a] unat_u64_lt [of b] by (intro mult_mono) simp_all

lemma unat_double_product:
  assumes "x \<le> 2 * (2 ^ 64 - 1)"
  shows "unat (ucast (a :: u64) * ucast (b :: u64) + of_nat x :: 128 word) = unat a * unat b + x"
proof -
  have "unat a * unat b + x < 2 ^ 128" using product_bound [of a b] assms by simp
  moreover have "(ucast a * ucast b + of_nat x :: 128 word) = of_nat (unat a * unat b + x)"
    by simp
  ultimately show ?thesis using unat_of_nat_lt [of "unat a * unat b + x", where 'a = 128] by simp
qed

lemma mul_add_exact: "mul_add y x w c = (l, h) \<Longrightarrow> unat l + 2 ^ 64 * unat h = unat x * unat w + unat y + unat c"
proof -
  assume e: "mul_add y x w c = (l, h)"
  have "ucast w * ucast x + ucast y + ucast c = (ucast w * ucast x + of_nat (unat y + unat c) :: 128 word)"
    by (simp add: add.assoc)
  then have "(l, h) = (Lw (ucast w * ucast x + of_nat (unat y + unat c)), Hw (ucast w * ucast x + of_nat (unat y + unat c)))"
    using e by (simp only: mul_add_def Let_def)
  moreover have "unat y + unat c \<le> 2 * (2 ^ 64 - 1)" using unat_u64_lt [of y] unat_u64_lt [of c] by simp
  ultimately show ?thesis using low_high [of "ucast w * ucast x + of_nat (unat y + unat c)"] unat_double_product [of "unat y + unat c" w x]
    by (simp add: mult.commute)
qed

lemma mul_exact: "mul x w c = (l, h) \<Longrightarrow> unat l + 2 ^ 64 * unat h = unat x * unat w + unat c"
  using mul_add_exact [of 0 x w c l h] by (simp add: mul_def mul_add_def)

interpretation mul_add: accumulating "\<lambda>x y c. mul_add y x w c" "\<lambda>x y. unat x * unat w + unat y" for w
  by unfold_locales (rule mul_add_exact [folded add.assoc])

interpretation mul: accumulating "\<lambda>x y c. mul x w c" "\<lambda>x y. unat x * unat w" for w
  by unfold_locales (rule mul_exact)

lemma mul_add_parts: "length xs = length ys \<Longrightarrow> mul_add.parts w xs ys = words_val xs * unat w + words_val ys"
proof (induction xs ys rule: list_induct2)
  case (Cons x xs y ys)
  show ?case unfolding mul_add.parts.simps Cons.IH words_val.simps by (simp add: algebra_simps)
qed simp

lemma mul_parts: "length xs = length ys \<Longrightarrow> mul.parts w xs ys = words_val xs * unat w"
proof (induction xs ys rule: list_induct2)
  case (Cons x xs y ys)
  show ?case unfolding mul.parts.simps Cons.IH words_val.simps by (simp add: algebra_simps)
qed simp

lemma mul_add_step_eq: "mul_add_step r ro a ao w = word_step_at (\<lambda>x y c. mul_add y x w c) r ro a ao r ro"
  by (rule ext) (auto simp: mul_add_step_def word_step_at_def)

lemma mul_step_eq: "mul_step r ro a ao w = word_step_at (\<lambda>x y c. mul x w c) r ro a ao a ao"
  by (rule ext) (auto simp: mul_step_def word_step_at_def)

text \<open>The array of \<^verbatim>\<open>r\<close> with the words from an offset on replaced.\<close>

definition patch :: "nat \<Rightarrow> nat \<Rightarrow> u64 list \<Rightarrow> bn_store \<Rightarrow> bn_store" where
  "patch r ro ws st = st(r := (st r)\<lparr>bn_d := take ro (bn_d (st r)) @ ws @ drop (ro + length ws) (bn_d (st r))\<rparr>)"

lemma patch_Nil [simp]: "patch r ro [] st = st"
  by (simp add: patch_def)

lemma bn_mul_add_words_result:
  assumes "ao + n \<le> length (bn_d (st a))" and "ro + n \<le> length (bn_d (st r))" and "r = a \<longrightarrow> ro \<le> ao"
  shows "\<exists>ws c. bn_mul_add_words r ro a ao n w st = (patch r ro ws st, c) \<and> length ws = n \<and>
    words_val ws + 2 ^ (64 * n) * unat c =
      words_val (segment ro (ro + n) (bn_d (st r))) + words_val (segment ao (ao + n) (bn_d (st a))) * unat w"
proof -
  obtain ws c where r: "run_words (\<lambda>x y c. mul_add y x w c) (segment ao (ao + n) (bn_d (st a))) (segment ro (ro + n) (bn_d (st r))) 0 = (ws, c)"
    by fastforce
  have v: "length ws = n \<and> words_val ws + 2 ^ (64 * n) * unat c =
      words_val (segment ao (ao + n) (bn_d (st a))) * unat w + words_val (segment ro (ro + n) (bn_d (st r)))"
    using mul_add.run [OF _ r] assms by (simp add: mul_add_parts)
  have "fold (mul_add_step r ro a ao w) [0..<n] (st, 0) = (patch r ro ws st, c)"
    unfolding mul_add_step_eq using fold_word_step_at [of 0 n ao st a ro r ro r "\<lambda>x y c. mul_add y x w c" 0 ws c] assms r v
    by (simp add: patch_def)
  then have "bn_mul_add_words r ro a ao n w st = (patch r ro ws st, c)"
    using v by (cases "n = 0") (simp_all add: bn_mul_add_words_def words_loop_fold)
  then show ?thesis using v by (intro exI [of _ ws] exI [of _ c]) simp
qed

lemma bn_mul_words_result:
  assumes "ao + n \<le> length (bn_d (st a))" and "ro + n \<le> length (bn_d (st r))" and "r = a \<longrightarrow> ro \<le> ao"
  shows "\<exists>ws c. bn_mul_words r ro a ao n w st = (patch r ro ws st, c) \<and> length ws = n \<and>
    words_val ws + 2 ^ (64 * n) * unat c = words_val (segment ao (ao + n) (bn_d (st a))) * unat w"
proof -
  obtain ws c where r: "run_words (\<lambda>x y c. mul x w c) (segment ao (ao + n) (bn_d (st a))) (segment ao (ao + n) (bn_d (st a))) 0 = (ws, c)"
    by fastforce
  have v: "length ws = n \<and> words_val ws + 2 ^ (64 * n) * unat c = words_val (segment ao (ao + n) (bn_d (st a))) * unat w"
    using mul.run [OF _ r] assms by (simp add: mul_parts)
  have "fold (mul_step r ro a ao w) [0..<n] (st, 0) = (patch r ro ws st, c)"
    unfolding mul_step_eq using fold_word_step_at [of 0 n ao st a ao a ro r "\<lambda>x y c. mul x w c" 0 ws c] assms r v
    by (simp add: patch_def)
  then have "bn_mul_words r ro a ao n w st = (patch r ro ws st, c)"
    using v by (cases "n = 0") (simp_all add: bn_mul_words_def words_loop_fold)
  then show ?thesis using v by (intro exI [of _ ws] exI [of _ c]) simp
qed

section \<open>The schoolbook product\<close>

lemma patch_other: "h \<noteq> r \<Longrightarrow> patch r ro ws st h = st h"
  by (simp add: patch_def)

lemma patch_same: "bn_d (patch r ro ws st r) = take ro (bn_d (st r)) @ ws @ drop (ro + length ws) (bn_d (st r))"
  by (simp add: patch_def)

lemma length_patch: "ro + length ws \<le> length (bn_d (st r)) \<Longrightarrow> length (bn_d (patch r ro ws st h)) = length (bn_d (st h))"
  by (simp add: patch_def)

lemma patch_patch:
  assumes "k + length vs = length ws" and "length ws \<le> length (bn_d (st r))"
  shows "patch r k vs (patch r 0 ws st) = patch r 0 (take k ws @ vs) st"
  using assms by (simp add: patch_def)

lemma put_patch:
  assumes "length us < length (bn_d (st r))"
  shows "put_word r (length us) c (patch r 0 us st) = patch r 0 (us @ [c]) st"
proof -
  have "(us @ drop (length us) (bn_d (st r)))[length us := c] = us @ [c] @ drop (Suc (length us)) (bn_d (st r))"
    using assms by (simp add: list_update_append Cons_nth_drop_Suc [symmetric])
  then show ?thesis by (simp add: put_word_def patch_def)
qed

lemma words_val_snoc: "words_val (ws @ [w]) = words_val ws + 2 ^ (64 * length ws) * unat w"
  by (simp add: words_val_append)

lemma words_val_take_drop: "k \<le> length ws \<Longrightarrow> words_val ws = words_val (take k ws) + 2 ^ (64 * k) * words_val (drop k ws)"
  by (rule words_val_split)

text \<open>Adding a multiple of \<^verbatim>\<open>a\<close> to the top \<open>n\<close> words of what has been written, and the carry as a new word.\<close>

lemma add_row_result:
  assumes "r \<noteq> a" and "ao + n \<le> length (bn_d (st a))" and "off + n < length (bn_d (st r))" and "length ws = off + n"
  shows "\<exists>ws'. (case bn_mul_add_words r off a ao n w (patch r 0 ws st) of (st, c) \<Rightarrow> put_word r (off + n) c st) = patch r 0 ws' st \<and>
    length ws' = off + n + 1 \<and> words_val ws' = words_val ws + 2 ^ (64 * off) * (words_val (segment ao (ao + n) (bn_d (st a))) * unat w)"
proof -
  define st1 where "st1 = patch r 0 ws st"
  have a: "bn_d (st1 a) = bn_d (st a)" using assms(1) by (simp add: st1_def patch_other)
  have l: "length (bn_d (st1 r)) = length (bn_d (st r))" using assms by (simp add: st1_def length_patch)
  have seg: "segment off (off + n) (bn_d (st1 r)) = drop off ws" using assms(4) by (simp add: st1_def patch_same segment_def)
  obtain vs c where v: "bn_mul_add_words r off a ao n w st1 = (patch r off vs st1, c)" "length vs = n"
    "words_val vs + 2 ^ (64 * n) * unat c = words_val (drop off ws) + words_val (segment ao (ao + n) (bn_d (st a))) * unat w"
    using bn_mul_add_words_result [of ao n st1 a off r w] assms a l seg by auto
  have p: "patch r off vs st1 = patch r 0 (take off ws @ vs) st"
    unfolding st1_def using v(2) assms by (intro patch_patch) simp_all
  have "put_word r (length (take off ws @ vs)) c (patch r 0 (take off ws @ vs) st) = patch r 0 ((take off ws @ vs) @ [c]) st"
    using v(2) assms by (intro put_patch) simp
  then have m: "(case bn_mul_add_words r off a ao n w (patch r 0 ws st) of (st, c) \<Rightarrow> put_word r (off + n) c st) =
      patch r 0 ((take off ws @ vs) @ [c]) st"
    using v(1,2) assms(4) by (simp add: st1_def [symmetric] p)
  have tk: "length (take off ws) = off" using assms(4) by simp
  have "words_val ((take off ws @ vs) @ [c]) = words_val (take off ws) + 2 ^ (64 * off) * (words_val vs + 2 ^ (64 * n) * unat c)"
    using tk v(2) by (simp add: words_val_append algebra_simps power_add)
  also have "\<dots> = words_val ws + 2 ^ (64 * off) * (words_val (segment ao (ao + n) (bn_d (st a))) * unat w)"
    using words_val_take_drop [of off ws] assms(4) by (simp add: v(3) distrib_left)
  finally show ?thesis using m v(2) assms(4) by (intro exI [of _ "(take off ws @ vs) @ [c]"]) simp
qed

lemma mul_row_result:
  assumes "r \<noteq> a" and "r \<noteq> b" and "na \<le> length (bn_d (st a))" and "na + k < length (bn_d (st r))" and "length ws = na + k"
  shows "\<exists>ws'. mul_row r a na b k (patch r 0 ws st) = patch r 0 ws' st \<and> length ws' = na + k + 1 \<and>
    words_val ws' = words_val ws + 2 ^ (64 * k) * (words_val (segment 0 na (bn_d (st a))) * unat (bn_d (st b) ! k))"
  using add_row_result [of r a 0 na st k ws "bn_d (st b) ! k"] assms by (simp add: mul_row_def patch_other add.commute)

lemma mul_normal_loop_fold: "1 \<le> nb \<Longrightarrow> mul_normal_loop r a na b k nb st = fold (mul_row r a na b) [k + 1..<k + nb] st"
proof (induction nb arbitrary: k st rule: less_induct)
  case (less nb)
  consider "nb = 1" | "nb = 2" | "nb = 3" | "nb = 4" | "4 < nb" using less.prems by linarith
  then show ?case
  proof cases
    case 5
    have "[k + 1..<k + nb] = [k + 1, k + 2, k + 3, k + 4] @ [k + 4 + 1..<k + nb]"
      using 5 upt_conv_Cons [of "k + 1" "k + nb"] upt_conv_Cons [of "k + 2" "k + nb"] upt_conv_Cons [of "k + 3" "k + nb"]
        upt_conv_Cons [of "k + 4" "k + nb"] by (simp add: numeral_eq_Suc)
    then have f: "fold (mul_row r a na b) [k + 1..<k + nb] st = fold (mul_row r a na b) [k + 4 + 1..<k + nb]
        (mul_row r a na b (k + 4) (mul_row r a na b (k + 3) (mul_row r a na b (k + 2) (mul_row r a na b (k + 1) st))))"
      by (simp only: fold_append fold.simps comp_apply id_apply)
    obtain j where j: "nb = Suc (Suc (Suc (Suc (Suc j))))" using 5 by (intro that [of "nb - 5"]) simp
    have "mul_normal_loop r a na b k nb st = mul_normal_loop r a na b (k + 4) (Suc j)
        (mul_row r a na b (k + 4) (mul_row r a na b (k + 3) (mul_row r a na b (k + 2) (mul_row r a na b (k + 1) st))))"
      unfolding j by (subst mul_normal_loop.simps) (simp add: Let_def)
    also have "\<dots> = fold (mul_row r a na b) [k + 4 + 1..<k + 4 + Suc j]
        (mul_row r a na b (k + 4) (mul_row r a na b (k + 3) (mul_row r a na b (k + 2) (mul_row r a na b (k + 1) st))))"
      using j by (intro less.IH) simp_all
    also have "k + 4 + Suc j = k + nb" using j by simp
    finally show ?thesis using f by simp
  qed (simp_all add: mul_normal_loop.simps [of r a na b k] Let_def upt_rec numeral_eq_Suc)
qed

lemma mul_rows_result:
  assumes "r \<noteq> a" and "r \<noteq> b" and "na \<le> length (bn_d (st a))" and "m \<le> length (bn_d (st b))" and "na + m \<le> length (bn_d (st r))"
    and "1 \<le> m" and "length ws = na + 1" and "words_val ws = words_val (segment 0 na (bn_d (st a))) * unat (bn_d (st b) ! 0)"
  shows "\<exists>ws'. fold (mul_row r a na b) [1..<m] (patch r 0 ws st) = patch r 0 ws' st \<and> length ws' = na + m \<and>
    words_val ws' = words_val (segment 0 na (bn_d (st a))) * words_val (segment 0 m (bn_d (st b)))"
  using assms(6,4,5)
proof (induction m rule: dec_induct)
  case base
  then show ?case using assms(7,8) by (intro exI [of _ ws]) (simp add: segment_Cons)
next
  case (step m)
  obtain ws1 where w: "fold (mul_row r a na b) [1..<m] (patch r 0 ws st) = patch r 0 ws1 st" "length ws1 = na + m"
    "words_val ws1 = words_val (segment 0 na (bn_d (st a))) * words_val (segment 0 m (bn_d (st b)))"
    using step.IH step.prems by auto
  obtain ws2 where w2: "mul_row r a na b m (patch r 0 ws1 st) = patch r 0 ws2 st" "length ws2 = na + m + 1"
    "words_val ws2 = words_val ws1 + 2 ^ (64 * m) * (words_val (segment 0 na (bn_d (st a))) * unat (bn_d (st b) ! m))"
    using mul_row_result [of r a b na st m ws1] assms(1-3) w(2) step.prems by auto
  have "segment 0 (Suc m) (bn_d (st b)) = segment 0 m (bn_d (st b)) @ [bn_d (st b) ! m]" "length (segment 0 m (bn_d (st b))) = m"
    using step.prems by (simp_all add: segment_def take_Suc_conv_app_nth)
  then have "words_val ws2 = words_val (segment 0 na (bn_d (st a))) * words_val (segment 0 (Suc m) (bn_d (st b)))"
    using w2(3) w(3) by (simp add: words_val_append algebra_simps)
  then show ?case using w(1) w2 step.hyps by (intro exI [of _ ws2]) simp
qed

lemma bn_mul_normal_result:
  assumes "r \<noteq> a" and "r \<noteq> b" and "na \<le> length (bn_d (st a))" and "nb \<le> length (bn_d (st b))" and "na + nb \<le> length (bn_d (st r))"
  shows "\<exists>ws. bn_mul_normal r a na b nb st = patch r 0 ws st \<and> length ws = na + nb \<and>
    words_val ws = words_val (segment 0 na (bn_d (st a))) * words_val (segment 0 nb (bn_d (st b)))"
proof -
  have wide: "\<exists>ws. (if nb = 0 then st(r := (st r)\<lparr>bn_d := replicate na 0 @ drop na (bn_d (st r))\<rparr>)
         else case bn_mul_words r 0 a 0 na (bn_d (st b) ! 0) st of
                (st, c) \<Rightarrow> mul_normal_loop r a na b 0 nb (put_word r na c st)) = patch r 0 ws st \<and> length ws = na + nb \<and>
    words_val ws = words_val (segment 0 na (bn_d (st a))) * words_val (segment 0 nb (bn_d (st b)))"
    if t: "r \<noteq> a" "r \<noteq> b" "na \<le> length (bn_d (st a))" "nb \<le> length (bn_d (st b))" "na + nb \<le> length (bn_d (st r))" for a na b nb
  proof (cases "nb = 0")
    case True
    then show ?thesis by (intro exI [of _ "replicate na 0"]) (simp add: patch_def)
  next
    case False
    obtain vs c where v: "bn_mul_words r 0 a 0 na (bn_d (st b) ! 0) st = (patch r 0 vs st, c)" "length vs = na"
      "words_val vs + 2 ^ (64 * na) * unat c = words_val (segment 0 na (bn_d (st a))) * unat (bn_d (st b) ! 0)"
      using bn_mul_words_result [of 0 na st a 0 r "bn_d (st b) ! 0"] t by auto
    have p: "put_word r na c (patch r 0 vs st) = patch r 0 (vs @ [c]) st" using put_patch [of vs st r c] v(2) t False by simp
    obtain ws where w: "fold (mul_row r a na b) [1..<nb] (patch r 0 (vs @ [c]) st) = patch r 0 ws st" "length ws = na + nb"
      "words_val ws = words_val (segment 0 na (bn_d (st a))) * words_val (segment 0 nb (bn_d (st b)))"
      using mul_rows_result [where st = st and m = nb, OF t(1-5), of "vs @ [c]"] v(2,3) False by (auto simp: words_val_append)
    show ?thesis using w v(1) p False by (intro exI [of _ ws]) (simp add: mul_normal_loop_fold)
  qed
  show ?thesis
  proof (cases "na < nb")
    case True
    show ?thesis using wide [of b a nb na] assms True unfolding bn_mul_normal_def by (simp add: add.commute mult.commute)
  next
    case False
    show ?thesis using wide [of a b na nb] assms False unfolding bn_mul_normal_def by simp
  qed
qed

section \<open>Products by columns\<close>

fun tri :: "u64 \<times> u64 \<times> u64 \<Rightarrow> nat" where
  "tri (c0, c1, c2) = unat c0 + 2 ^ 64 * (unat c1 + 2 ^ 64 * unat c2)"

lemma mul_add_c_exact:
  assumes "tri c + unat a * unat b < 2 ^ 192"
  shows "tri (mul_add_c a b c) = tri c + unat a * unat b"
proof -
  obtain c0 c1 c2 where c: "c = (c0, c1, c2)" by (cases c)
  define t where "t = (ucast a * ucast b + ucast c0 :: 128 word)"
  have t: "unat (Lw t) + 2 ^ 64 * unat (Hw t) = unat a * unat b + unat c0"
    using low_high [of t] unat_double_product [of "unat c0" a b] unat_u64_lt [of c0] by (simp add: t_def)
  define cy where "cy = (if c1 + Hw t < Hw t then 1 else 0 :: u64)"
  have c1: "unat (c1 + Hw t) + 2 ^ 64 * unat cy = unat c1 + unat (Hw t)"
    using unat_u64_lt [of c1] unat_u64_lt [of "Hw t"] by (auto simp: cy_def wrap)
  have m: "mul_add_c a b c = (Lw t, c1 + Hw t, c2 + cy)" by (simp add: mul_add_c_def c Let_def t_def cy_def)
  have e: "unat (Lw t) + 2 ^ 64 * (unat (c1 + Hw t) + 2 ^ 64 * (unat c2 + unat cy)) = tri c + unat a * unat b"
  proof -
    have "2 ^ 64 * (unat (c1 + Hw t) + 2 ^ 64 * unat cy) = 2 ^ 64 * (unat c1 + unat (Hw t))" by (simp only: c1)
    then show ?thesis using t by (simp add: c)
  qed
  have "2 ^ 64 * (2 ^ 64 * (unat c2 + unat cy)) < 2 ^ 64 * (2 ^ 64 * 2 ^ 64)" using e assms by simp
  then have "unat c2 + unat cy < 2 ^ 64" by simp
  then have "unat (c2 + cy) = unat c2 + unat cy" by (simp add: unat_add_wrap)
  then show ?thesis using e by (simp add: m)
qed

lemma mul_add_c2_twice: "mul_add_c2 a b c = mul_add_c a b (mul_add_c a b c)"
  by (cases c) (simp add: mul_add_c2_def mul_add_c_def Let_def)

lemma sqr_add_c_mul: "sqr_add_c a = mul_add_c a a"
  by (rule ext) (auto simp: sqr_add_c_def mul_add_c_def)

text \<open>What the columns stand for to the base \<open>q\<close>, \<^verbatim>\<open>v\<close> being the value of a pair.\<close>

fun columns_val :: "nat \<Rightarrow> (nat \<times> nat \<Rightarrow> nat) \<Rightarrow> (nat \<times> nat) list list \<Rightarrow> nat" where
  "columns_val q v [] = 0"
| "columns_val q v (pairs # columns) = sum_list (map v pairs) + q * columns_val q v columns"

lemma fold_add_exact:
  assumes "\<And>p c. tri c + v p < 2 ^ 192 \<Longrightarrow> tri (add p c) = tri c + v p" and "tri c + sum_list (map v pairs) < 2 ^ 192"
  shows "tri (fold add pairs c) = tri c + sum_list (map v pairs)"
  using assms(2)
proof (induction pairs arbitrary: c)
  case (Cons p pairs)
  then have "tri (add p c) = tri c + v p" by (intro assms(1)) simp
  then show ?case using Cons by (simp add: add.assoc)
qed simp

lemma comba_columns_result:
  assumes exact: "\<And>p c. tri c + v p < 2 ^ 192 \<Longrightarrow> tri (add st p c) = tri c + v p" and stable: "\<And>ws. add (patch r 0 ws st) = add st"
    and "\<forall>pairs\<in>set columns. sum_list (map v pairs) \<le> 8 * 2 ^ 128"
    and "length ws + length columns \<le> length (bn_d (st r))" and "tri c < 2 ^ 128"
  shows "\<exists>ws' c'. fold (comba_column add r) (enumerate (length ws) columns) (patch r 0 ws st, c) = (patch r 0 ws' st, c') \<and>
    length ws' = length ws + length columns \<and>
    words_val ws' + 2 ^ (64 * length ws') * tri c' = words_val ws + 2 ^ (64 * length ws) * (tri c + columns_val (2 ^ 64) v columns)"
  using assms(3-5)
proof (induction columns arbitrary: ws c)
  case Nil
  then show ?case by (intro exI [of _ ws] exI [of _ c]) simp
next
  case (Cons pairs columns)
  obtain x y z where xyz: "fold (add st) pairs c = (x, y, z)" by (cases "fold (add st) pairs c")
  have t: "tri (fold (add st) pairs c) = tri c + sum_list (map v pairs)"
    using Cons.prems(1,3) by (intro fold_add_exact exact) simp_all
  have col: "comba_column add r (length ws, pairs) (patch r 0 ws st, c) = (patch r 0 (ws @ [x]) st, y, z, 0)"
    using put_patch [of ws st r x] Cons.prems(2) by (simp add: comba_column_def stable xyz)
  have lt: "tri (y, z, 0) < 2 ^ 128" using unat_u64_lt [of y] unat_u64_lt [of z] by simp
  have l: "length (ws @ [x]) = Suc (length ws)" by simp
  obtain ws' c' where i: "fold (comba_column add r) (enumerate (Suc (length ws)) columns) (patch r 0 (ws @ [x]) st, y, z, 0) = (patch r 0 ws' st, c')"
    "length ws' = length (ws @ [x]) + length columns"
    "words_val ws' + 2 ^ (64 * length ws') * tri c' =
      words_val (ws @ [x]) + 2 ^ (64 * length (ws @ [x])) * (tri (y, z, 0) + columns_val (2 ^ 64) v columns)"
    using Cons.IH [of "ws @ [x]" "(y, z, 0)"] Cons.prems(1,2) lt unfolding l by auto
  have "words_val (ws @ [x]) + 2 ^ (64 * length (ws @ [x])) * (tri (y, z, 0) + columns_val (2 ^ 64) v columns) =
      words_val ws + 2 ^ (64 * length ws) * (tri (x, y, z) + 2 ^ 64 * columns_val (2 ^ 64) v columns)"
    by (simp add: words_val_snoc power_add algebra_simps)
  then show ?case using i col t xyz by (intro exI [of _ ws'] exI [of _ c']) (simp add: add.assoc)
qed

text \<open>The last word is what is left, provided that the product has room.\<close>

lemma mul_comba_result:
  assumes "\<And>p c. tri c + v p < 2 ^ 192 \<Longrightarrow> tri (add st p c) = tri c + v p" and "\<And>ws. add (patch r 0 ws st) = add st"
    and "\<forall>pairs\<in>set columns. sum_list (map v pairs) \<le> 8 * 2 ^ 128"
    and "length columns < length (bn_d (st r))" and "columns_val (2 ^ 64) v columns < 2 ^ (64 * Suc (length columns))"
  shows "\<exists>ws. mul_comba add r columns st = patch r 0 ws st \<and> length ws = Suc (length columns) \<and> words_val ws = columns_val (2 ^ 64) v columns"
proof -
  obtain ws c where f: "fold (comba_column add r) (enumerate 0 columns) (st, 0, 0, 0) = (patch r 0 ws st, c)"
    "length ws = length columns" "words_val ws + 2 ^ (64 * length ws) * tri c = columns_val (2 ^ 64) v columns"
    using comba_columns_result [where ws = "[]" and c = "(0, 0, 0)" and columns = columns, OF assms(1,2,3)] assms(4) by auto
  obtain x y z where c: "c = (x, y, z)" by (cases c)
  have "2 ^ (64 * length ws) * tri c < 2 ^ (64 * Suc (length columns))" using f(3) assms(5) by linarith
  also have "\<dots> = 2 ^ (64 * length ws) * 2 ^ 64" by (simp add: f(2) power_add)
  finally have "tri c < 2 ^ 64" by simp
  then have "tri c = unat x" by (cases "unat y + 2 ^ 64 * unat z") (simp_all add: c)
  then have "words_val (ws @ [x]) = columns_val (2 ^ 64) v columns" using f(3) by (simp add: words_val_snoc)
  moreover have "put_word r (length ws) x (patch r 0 ws st) = patch r 0 (ws @ [x]) st" using f(2) assms(4) by (intro put_patch) simp
  ultimately show ?thesis using f(1,2) by (intro exI [of _ "ws @ [x]"]) (simp add: mul_comba_def c)
qed

lemma segment_4: "4 \<le> length d \<Longrightarrow> segment 0 4 d = [d ! 0, d ! 1, d ! 2, d ! 3]"
  by (simp add: segment_Cons numeral_eq_Suc)

lemma words_val_4: "4 \<le> length d \<Longrightarrow> words_val (segment 0 4 d) =
    unat (d ! 0) + 2 ^ 64 * (unat (d ! 1) + 2 ^ 64 * (unat (d ! 2) + 2 ^ 64 * unat (d ! 3)))"
  by (simp add: segment_4)

lemma words_val_8: "8 \<le> length d \<Longrightarrow> words_val (segment 0 8 d) =
    unat (d ! 0) + 2 ^ 64 * (unat (d ! 1) + 2 ^ 64 * (unat (d ! 2) + 2 ^ 64 * (unat (d ! 3) + 2 ^ 64 *
    (unat (d ! 4) + 2 ^ 64 * (unat (d ! 5) + 2 ^ 64 * (unat (d ! 6) + 2 ^ 64 * unat (d ! 7)))))))"
proof -
  assume "8 \<le> length d"
  then have "words_val (segment 0 4 d) + 2 ^ (64 * 4) * words_val (segment 4 8 d) = words_val (segment 0 8 d)"
    using words_val_segments [of 4 "segment 0 8 d"] by (simp add: segment_def min.absorb1 drop_take)
  moreover have "words_val (segment 4 8 d) = unat (d ! 4) + 2 ^ 64 * (unat (d ! 5) + 2 ^ 64 * (unat (d ! 6) + 2 ^ 64 * unat (d ! 7)))"
    using \<open>8 \<le> length d\<close> words_val_4 [of "drop 4 d"] by (simp add: segment_def)
  ultimately show ?thesis using \<open>8 \<le> length d\<close> by (simp add: words_val_4)
qed

definition mul_val :: "u64 list \<Rightarrow> u64 list \<Rightarrow> nat \<times> nat \<Rightarrow> nat" where
  "mul_val x y = (\<lambda>(i, j). unat (x ! i) * unat (y ! j))"

definition sqr_val :: "u64 list \<Rightarrow> nat \<times> nat \<Rightarrow> nat" where
  "sqr_val x = (\<lambda>(i, j). if i = j then unat (x ! i) * unat (x ! j) else 2 * (unat (x ! i) * unat (x ! j)))"

lemma mul_pair_exact: "tri c + mul_val (bn_d (st a)) (bn_d (st b)) p < 2 ^ 192 \<Longrightarrow>
    tri (mul_pair a b st p c) = tri c + mul_val (bn_d (st a)) (bn_d (st b)) p"
  by (cases p) (simp add: mul_pair_def mul_val_def mul_add_c_exact)

lemma sqr_pair_exact: "tri c + sqr_val (bn_d (st a)) p < 2 ^ 192 \<Longrightarrow> tri (sqr_pair a st p c) = tri c + sqr_val (bn_d (st a)) p"
proof (cases p)
  case (Pair i j)
  assume lt: "tri c + sqr_val (bn_d (st a)) p < 2 ^ 192"
  show ?thesis
  proof (cases "i = j")
    case True
    then show ?thesis using lt Pair by (simp add: sqr_pair_def sqr_val_def mul_add_c_exact sqr_add_c_mul)
  next
    case False
    then show ?thesis using lt Pair by (simp add: sqr_pair_def sqr_val_def mul_add_c2_twice mul_add_c_exact)
  qed
qed

lemma sum_list_bound: "(\<And>p. v p \<le> k) \<Longrightarrow> length ps \<le> n \<Longrightarrow> sum_list (map v ps) \<le> n * (k :: nat)"
proof -
  assume v: "\<And>p. v p \<le> k" and l: "length ps \<le> n"
  have "sum_list (map v ps) \<le> length ps * k" by (induction ps) (use v in \<open>simp_all add: add_mono\<close>)
  also have "\<dots> \<le> n * k" using l by (intro mult_right_mono) simp_all
  finally show ?thesis .
qed

lemma mul_columns_bound:
  assumes "\<forall>ps\<in>set columns. length ps \<le> 8"
  shows "\<forall>ps\<in>set columns. sum_list (map (mul_val x y) ps) \<le> 8 * 2 ^ 128"
proof
  fix ps assume "ps \<in> set columns"
  moreover have "mul_val x y p \<le> 2 ^ 128" for p using product_bound [of "x ! fst p" "y ! snd p"] by (cases p) (simp add: mul_val_def)
  ultimately show "sum_list (map (mul_val x y) ps) \<le> 8 * 2 ^ 128" using assms by (intro sum_list_bound) auto
qed

lemma sqr_columns_bound:
  assumes "\<forall>ps\<in>set columns. length ps \<le> 4"
  shows "\<forall>ps\<in>set columns. sum_list (map (sqr_val x) ps) \<le> 8 * 2 ^ 128"
proof
  fix ps assume "ps \<in> set columns"
  moreover have "sqr_val x p \<le> 2 * 2 ^ 128" for p
  proof (cases p)
    case (Pair i j)
    have "unat (x ! i) * unat (x ! j) \<le> 2 ^ 128" using product_bound [of "x ! i" "x ! j"] by simp
    then show ?thesis using Pair by (auto simp: sqr_val_def)
  qed
  ultimately have "sum_list (map (sqr_val x) ps) \<le> 4 * (2 * 2 ^ 128)" using assms by (intro sum_list_bound) auto
  then show "sum_list (map (sqr_val x) ps) \<le> 8 * 2 ^ 128" by simp
qed

lemma product_lt:
  assumes "n \<le> length x" and "m \<le> length y"
  shows "words_val (segment 0 n x) * words_val (segment 0 m y) < 2 ^ (64 * (n + m))"
proof -
  have "words_val (segment 0 n x) * words_val (segment 0 m y) < 2 ^ (64 * n) * 2 ^ (64 * m)"
    using words_val_lt [of "segment 0 n x"] words_val_lt [of "segment 0 m y"] assms by (intro mult_strict_mono) simp_all
  then show ?thesis by (simp add: power_add distrib_left)
qed

lemma mul_pair_stable: "r \<noteq> a \<Longrightarrow> r \<noteq> b \<Longrightarrow> mul_pair a b (patch r 0 ws st) = mul_pair a b st"
  by (simp add: mul_pair_def patch_other)

lemma sqr_pair_stable: "r \<noteq> a \<Longrightarrow> sqr_pair a (patch r 0 ws st) = sqr_pair a st"
  unfolding sqr_pair_def by (simp add: patch_other cong: if_cong)

lemma mul_columns_result:
  assumes "r \<noteq> a" and "r \<noteq> b" and "\<forall>ps\<in>set columns. length ps \<le> 8" and "n \<le> length (bn_d (st a))" and "m \<le> length (bn_d (st b))"
    and "n + m \<le> length (bn_d (st r))" and "Suc (length columns) = n + m"
    and "columns_val (2 ^ 64) (mul_val (bn_d (st a)) (bn_d (st b))) columns = words_val (segment 0 n (bn_d (st a))) * words_val (segment 0 m (bn_d (st b)))"
  shows "\<exists>ws. mul_comba (mul_pair a b) r columns st = patch r 0 ws st \<and> length ws = n + m \<and>
    words_val ws = words_val (segment 0 n (bn_d (st a))) * words_val (segment 0 m (bn_d (st b)))"
proof -
  have l: "length columns < length (bn_d (st r))" using assms(6,7) by linarith
  have v: "columns_val (2 ^ 64) (mul_val (bn_d (st a)) (bn_d (st b))) columns < 2 ^ (64 * Suc (length columns))"
    unfolding assms(8) assms(7) by (rule product_lt [OF assms(4,5)])
  show ?thesis unfolding assms(8) [symmetric] assms(7) [symmetric]
    using mul_pair_exact mul_pair_stable [OF assms(1,2)] mul_columns_bound [OF assms(3)] l v by (intro mul_comba_result) blast+
qed

lemma sqr_columns_result:
  assumes "r \<noteq> a" and "\<forall>ps\<in>set columns. length ps \<le> 4" and "n \<le> length (bn_d (st a))"
    and "n + n \<le> length (bn_d (st r))" and "Suc (length columns) = n + n"
    and "columns_val (2 ^ 64) (sqr_val (bn_d (st a))) columns = words_val (segment 0 n (bn_d (st a))) * words_val (segment 0 n (bn_d (st a)))"
  shows "\<exists>ws. mul_comba (sqr_pair a) r columns st = patch r 0 ws st \<and> length ws = n + n \<and>
    words_val ws = words_val (segment 0 n (bn_d (st a))) * words_val (segment 0 n (bn_d (st a)))"
proof -
  have l: "length columns < length (bn_d (st r))" using assms(4,5) by linarith
  have v: "columns_val (2 ^ 64) (sqr_val (bn_d (st a))) columns < 2 ^ (64 * Suc (length columns))"
    unfolding assms(6) assms(5) by (rule product_lt [OF assms(3,3)])
  show ?thesis unfolding assms(6) [symmetric] assms(5) [symmetric]
    using sqr_pair_exact sqr_pair_stable [OF assms(1)] sqr_columns_bound [OF assms(2)] l v by (intro mul_comba_result) blast+
qed

text \<open>The columns are the terms of the product, to any base.\<close>

lemma mul4_columns_val: "columns_val q (mul_val x y) mul4_columns =
    (unat (x ! 0) + q * (unat (x ! 1) + q * (unat (x ! 2) + q * (unat (x ! 3))))) *
    (unat (y ! 0) + q * (unat (y ! 1) + q * (unat (y ! 2) + q * (unat (y ! 3)))))"
  by (simp add: mul4_columns_def mul_val_def algebra_simps)

lemma sqr4_columns_val: "columns_val q (sqr_val x) sqr4_columns =
    (unat (x ! 0) + q * (unat (x ! 1) + q * (unat (x ! 2) + q * (unat (x ! 3))))) *
    (unat (x ! 0) + q * (unat (x ! 1) + q * (unat (x ! 2) + q * (unat (x ! 3)))))"
  by (simp add: sqr4_columns_def sqr_val_def algebra_simps)

lemma mul8_columns_val: "columns_val q (mul_val x y) mul8_columns =
    (unat (x ! 0) + q * (unat (x ! 1) + q * (unat (x ! 2) + q * (unat (x ! 3) + q * (unat (x ! 4) + q * (unat (x ! 5) + q *
      (unat (x ! 6) + q * (unat (x ! 7))))))))) *
    (unat (y ! 0) + q * (unat (y ! 1) + q * (unat (y ! 2) + q * (unat (y ! 3) + q * (unat (y ! 4) + q * (unat (y ! 5) + q *
      (unat (y ! 6) + q * (unat (y ! 7)))))))))"
  by (simp add: mul8_columns_def mul_val_def algebra_simps)

lemma sqr8_columns_val: "columns_val q (sqr_val x) sqr8_columns =
    (unat (x ! 0) + q * (unat (x ! 1) + q * (unat (x ! 2) + q * (unat (x ! 3) + q * (unat (x ! 4) + q * (unat (x ! 5) + q *
      (unat (x ! 6) + q * (unat (x ! 7))))))))) *
    (unat (x ! 0) + q * (unat (x ! 1) + q * (unat (x ! 2) + q * (unat (x ! 3) + q * (unat (x ! 4) + q * (unat (x ! 5) + q *
      (unat (x ! 6) + q * (unat (x ! 7)))))))))"
  by (simp add: sqr8_columns_def sqr_val_def algebra_simps)

lemma bn_mul_comba8_result:
  assumes "r \<noteq> a" and "r \<noteq> b" and "8 \<le> length (bn_d (st a))" and "8 \<le> length (bn_d (st b))" and "16 \<le> length (bn_d (st r))"
  shows "\<exists>ws. bn_mul_comba8 r a b st = patch r 0 ws st \<and> length ws = 8 + 8 \<and>
    words_val ws = words_val (segment 0 8 (bn_d (st a))) * words_val (segment 0 8 (bn_d (st b)))"
  unfolding bn_mul_comba8_def using assms
  by (intro mul_columns_result) (simp_all only: words_val_8 mul8_columns_val, simp_all add: mul8_columns_def)

lemma bn_mul_comba4_result:
  assumes "r \<noteq> a" and "r \<noteq> b" and "4 \<le> length (bn_d (st a))" and "4 \<le> length (bn_d (st b))" and "8 \<le> length (bn_d (st r))"
  shows "\<exists>ws. bn_mul_comba4 r a b st = patch r 0 ws st \<and> length ws = 4 + 4 \<and>
    words_val ws = words_val (segment 0 4 (bn_d (st a))) * words_val (segment 0 4 (bn_d (st b)))"
  unfolding bn_mul_comba4_def using assms
  by (intro mul_columns_result) (simp_all only: words_val_4 mul4_columns_val, simp_all add: mul4_columns_def)

lemma bn_sqr_comba8_result:
  assumes "r \<noteq> a" and "8 \<le> length (bn_d (st a))" and "16 \<le> length (bn_d (st r))"
  shows "\<exists>ws. bn_sqr_comba8 r a st = patch r 0 ws st \<and> length ws = 8 + 8 \<and>
    words_val ws = words_val (segment 0 8 (bn_d (st a))) * words_val (segment 0 8 (bn_d (st a)))"
  unfolding bn_sqr_comba8_def using assms
  by (intro sqr_columns_result) (simp_all only: words_val_8 sqr8_columns_val, simp_all add: sqr8_columns_def)

lemma bn_sqr_comba4_result:
  assumes "r \<noteq> a" and "4 \<le> length (bn_d (st a))" and "8 \<le> length (bn_d (st r))"
  shows "\<exists>ws. bn_sqr_comba4 r a st = patch r 0 ws st \<and> length ws = 4 + 4 \<and>
    words_val ws = words_val (segment 0 4 (bn_d (st a))) * words_val (segment 0 4 (bn_d (st a)))"
  unfolding bn_sqr_comba4_def using assms
  by (intro sqr_columns_result) (simp_all only: words_val_4 sqr4_columns_val, simp_all add: sqr4_columns_def)

section \<open>Squares\<close>

text \<open>The products above the diagonal, and the squares on it.\<close>

fun upper :: "u64 list \<Rightarrow> nat" where
  "upper [] = 0"
| "upper (x # xs) = 2 ^ 64 * (unat x * words_val xs) + 2 ^ 128 * upper xs"

fun squares :: "u64 list \<Rightarrow> nat" where
  "squares [] = 0"
| "squares (x # xs) = unat x * unat x + 2 ^ 128 * squares xs"

lemma square_parts: "2 * upper xs + squares xs = words_val xs * words_val xs"
proof (induction xs)
  case (Cons x xs)
  have "2 * upper (x # xs) + squares (x # xs) = unat x * unat x + 2 ^ 65 * (unat x * words_val xs) + 2 ^ 128 * (2 * upper xs + squares xs)"
    by (simp add: algebra_simps)
  also have "\<dots> = words_val (x # xs) * words_val (x # xs)" unfolding Cons by (simp add: algebra_simps)
  finally show ?case .
qed simp

lemma squares_snoc: "squares (xs @ [x]) = squares xs + 2 ^ (128 * length xs) * (unat x * unat x)"
  by (induction xs) (simp_all add: algebra_simps power_add)

lemma sqr_exact: "sqr x = (l, h) \<Longrightarrow> unat l + 2 ^ 64 * unat h = unat x * unat x"
  using low_high [of "ucast x * ucast x"] unat_double_product [of 0 x x] by (auto simp: sqr_def Let_def)

lemma sqr_words_result:
  assumes "r \<noteq> a" and "n \<le> length (bn_d (st a))" and "2 * n \<le> length (bn_d (st r))"
  shows "\<exists>ws. bn_sqr_words r a n st = patch r 0 ws st \<and> length ws = 2 * n \<and> words_val ws = squares (segment 0 n (bn_d (st a)))"
proof -
  have "\<exists>ws. fold (sqr_step r a) [0..<n] st = patch r 0 ws st \<and> length ws = 2 * n \<and> words_val ws = squares (segment 0 n (bn_d (st a)))"
    using assms(2,3)
  proof (induction n)
    case 0
    then show ?case by (intro exI [of _ "[]"]) simp
  next
    case (Suc n)
    then obtain ws where w: "fold (sqr_step r a) [0..<n] st = patch r 0 ws st" "length ws = 2 * n"
      "words_val ws = squares (segment 0 n (bn_d (st a)))" by auto
    obtain l h where lh: "sqr (bn_d (st a) ! n) = (l, h)" by fastforce
    have p: "put_word r (2 * n) l (patch r 0 ws st) = patch r 0 (ws @ [l]) st" "put_word r (2 * n + 1) h (patch r 0 (ws @ [l]) st) = patch r 0 ((ws @ [l]) @ [h]) st"
      using put_patch [of ws st r l] put_patch [of "ws @ [l]" st r h] w(2) Suc.prems by simp_all
    have s: "segment 0 (Suc n) (bn_d (st a)) = segment 0 n (bn_d (st a)) @ [bn_d (st a) ! n]" "length (segment 0 n (bn_d (st a))) = n"
      using Suc.prems by (simp_all add: segment_def take_Suc_conv_app_nth)
    have "words_val ((ws @ [l]) @ [h]) = words_val ws + 2 ^ (128 * n) * (unat l + 2 ^ 64 * unat h)"
      by (simp add: words_val_append w(2) algebra_simps power_add)
    also have "\<dots> = squares (segment 0 (Suc n) (bn_d (st a)))" unfolding sqr_exact [OF lh] by (simp add: s squares_snoc w(3))
    finally have v: "words_val ((ws @ [l]) @ [h]) = squares (segment 0 (Suc n) (bn_d (st a)))" .
    have "sqr_step r a n (patch r 0 ws st) = patch r 0 ((ws @ [l]) @ [h]) st"
      using p assms(1) by (simp add: sqr_step_def patch_other lh)
    then have "fold (sqr_step r a) [0..<Suc n] st = patch r 0 ((ws @ [l]) @ [h]) st" by (simp add: w(1))
    then show ?case using v w(2) by (intro exI [of _ "(ws @ [l]) @ [h]"]) simp
  qed
  then show ?thesis by (cases "n = 0") (simp_all add: bn_sqr_words_def words_loop_fold)
qed

lemma sqr_rows_result:
  assumes "r \<noteq> a" and "n \<le> length (bn_d (st a))" and "2 * n \<le> length (bn_d (st r))" and "1 \<le> m" and "m < n"
    and "length ws = n + 1" and "words_val ws + 2 ^ 128 * upper (segment 1 n (bn_d (st a))) = upper (segment 0 n (bn_d (st a)))"
  shows "\<exists>ws'. fold (\<lambda>k st. let i = n - 1 - k; rp = 2 * k + 1
     in case bn_mul_add_words r rp a (k + 1) i (bn_d (st a) ! k) st of (st, c) \<Rightarrow> put_word r (rp + i) c st) [1..<m] (patch r 0 ws st) = patch r 0 ws' st \<and>
    length ws' = n + m \<and>
    words_val ws' + 2 ^ (128 * m) * upper (segment m n (bn_d (st a))) = upper (segment 0 n (bn_d (st a)))"
  using assms(4,5)
proof (induction m rule: dec_induct)
  case base
  then show ?case using assms(6,7) by (intro exI [of _ ws]) simp
next
  case (step m)
  obtain ws1 where w: "fold (\<lambda>k st. let i = n - 1 - k; rp = 2 * k + 1
     in case bn_mul_add_words r rp a (k + 1) i (bn_d (st a) ! k) st of (st, c) \<Rightarrow> put_word r (rp + i) c st) [1..<m] (patch r 0 ws st) = patch r 0 ws1 st"
    "length ws1 = n + m" "words_val ws1 + 2 ^ (128 * m) * upper (segment m n (bn_d (st a))) = upper (segment 0 n (bn_d (st a)))"
    using step.IH step.prems by auto
  have e: "2 * m + 1 + (n - 1 - m) = n + m" "m + 1 + (n - 1 - m) = n" using step.prems by simp_all
  obtain ws2 where w2: "(case bn_mul_add_words r (2 * m + 1) a (m + 1) (n - 1 - m) (bn_d (st a) ! m) (patch r 0 ws1 st) of
        (st, c) \<Rightarrow> put_word r (2 * m + 1 + (n - 1 - m)) c st) = patch r 0 ws2 st" "length ws2 = n + m + 1"
    "words_val ws2 = words_val ws1 + 2 ^ (64 * (2 * m + 1)) * (words_val (segment (m + 1) n (bn_d (st a))) * unat (bn_d (st a) ! m))"
    using add_row_result [of r a "m + 1" "n - 1 - m" st "2 * m + 1" ws1 "bn_d (st a) ! m", unfolded e] assms(1-3) w(2) step.prems unfolding e by auto
  have "segment m n (bn_d (st a)) = bn_d (st a) ! m # segment (Suc m) n (bn_d (st a))" using step.prems assms(2) by (simp add: segment_Cons)
  then have "words_val ws2 + 2 ^ (128 * Suc m) * upper (segment (Suc m) n (bn_d (st a))) = upper (segment 0 n (bn_d (st a)))"
    using w(3) w2(3) by (simp add: algebra_simps power_add)
  moreover have "bn_d (patch r 0 ws1 st a) = bn_d (st a)" using assms(1) by (simp add: patch_other)
  ultimately show ?case using w(1) w2(1,2) step.hyps by (intro exI [of _ ws2]) (simp add: Let_def)
qed

text \<open>The array with the zeros at its ends, and the row of \<open>a[0]\<close>.\<close>

lemma zero_ends:
  assumes "length ws = 2 * n - 1" and "1 \<le> n" and "2 * n \<le> length (bn_d (st r))"
  shows "patch r 0 ws (put_word r 0 0 (put_word r (2 * n - 1) 0 st)) = patch r 0 (ws @ [0]) st"
proof -
  define d where "d = bn_d (st r)"
  have "drop (2 * n - 1) (d[2 * n - 1 := 0, 0 := 0]) = 0 # drop (2 * n) d" if "n \<noteq> 1"
  proof -
    have "d[2 * n - 1 := 0, 0 := 0] ! (2 * n - 1) = 0" using assms(2,3) that by (simp add: d_def)
    moreover have "drop (Suc (2 * n - 1)) (d[2 * n - 1 := 0, 0 := 0]) = drop (2 * n) d" using assms(2) by simp
    ultimately show ?thesis using Cons_nth_drop_Suc [of "2 * n - 1" "d[2 * n - 1 := 0, 0 := 0]"] assms(2,3) by (simp add: d_def)
  qed
  moreover have "drop (2 * n - 1) (d[2 * n - 1 := 0, 0 := 0]) = 0 # drop (2 * n) d" if one: "n = 1"
  proof -
    have "Suc (Suc 0) \<le> length d" using one assms(3) by (simp add: d_def)
    then obtain x y zs where "d = x # y # zs" by (metis Suc_le_length_iff)
    then show ?thesis using one by simp
  qed
  ultimately have "drop (2 * n - 1) (d[2 * n - 1 := 0, 0 := 0]) = 0 # drop (2 * n) d" by blast
  then show ?thesis using assms by (simp add: patch_def put_word_def d_def [symmetric] Suc_diff_le)
qed

lemma add_in_place:
  assumes "length ws = n" and "length vs = n" and "n \<le> length (bn_d (st r))" and "st1 = patch r 0 ws st"
    and "n \<le> length (bn_d (st1 b))" and "segment 0 n (bn_d (st1 b)) = vs" and "words_val ws + words_val vs < 2 ^ (64 * n)"
  shows "\<exists>us c. bn_add_words r r b n st1 = (patch r 0 us st, c) \<and> length us = n \<and> words_val us = words_val ws + words_val vs"
proof -
  have r: "segment 0 n (bn_d (st1 r)) = ws" "n \<le> length (bn_d (st1 r))" "drop n (bn_d (st1 r)) = drop n (bn_d (st r))"
    using assms(1,3) by (simp_all add: assms(4) patch_same segment_def)
  obtain us c where u: "bn_add_words r r b n st1 = (st1(r := (st1 r)\<lparr>bn_d := us @ drop n (bn_d (st1 r))\<rparr>), c)" "length us = n"
    "words_val us + 2 ^ (64 * n) * unat c = words_val ws + words_val vs"
    using bn_add_words_result [of n st1 r b r] assms(5,6) r by auto
  have "unat c = 0" using u(3) assms(7) by (cases "unat c") auto
  moreover have "st1(r := (st1 r)\<lparr>bn_d := us @ drop n (bn_d (st1 r))\<rparr>) = patch r 0 us st"
    using u(2) unfolding r(3) by (simp add: assms(4) patch_def)
  ultimately show ?thesis using u by (intro exI [of _ us] exI [of _ c]) simp
qed

lemma sqr_upper_result:
  assumes "r \<noteq> a" and "n \<le> length (bn_d (st a))" and "2 * n \<le> length (bn_d (st r))" and "1 \<le> n"
  shows "\<exists>ws. (let st = put_word r 0 0 (put_word r (n * 2 - 1) 0 st);
               st = (if n > 1
                     then (case bn_mul_words r 1 a 1 (n - 1) (bn_d (st a) ! 0) st of (st, c) \<Rightarrow> put_word r (1 + (n - 1)) c st)
                     else st)
           in if n > 2 then sqr_rows r a n st else st) = patch r 0 ws st \<and> length ws = 2 * n \<and>
      words_val ws = upper (segment 0 n (bn_d (st a)))"
proof -
  define st1 where "st1 = put_word r 0 0 (put_word r (n * 2 - 1) 0 st)"
  have st1: "bn_d (st1 a) = bn_d (st a)" "length (bn_d (st1 r)) = length (bn_d (st r))" using assms(1) by (simp_all add: st1_def put_word_def)
  have z: "patch r 0 ws st1 = patch r 0 (ws @ [0]) st" if "length ws = 2 * n - 1" for ws
    using zero_ends [where st = st and r = r, OF that assms(4,3)] by (simp add: st1_def mult.commute)
  have ne: "bn_d (st r) \<noteq> []" using assms(3,4) by auto
  have zero: "bn_d (st1 r) ! 0 = 0" "bn_d (st1 r) \<noteq> []" using ne by (simp_all add: st1_def put_word_def)
  show ?thesis
  proof (cases "n = 1")
    case True
    have "[0] @ drop 1 (bn_d (st1 r)) = bn_d (st1 r)" using zero by (cases "bn_d (st1 r)") auto
    then have "patch r 0 [0] st1 = st1" by (simp add: patch_def)
    then have "st1 = patch r 0 [0, 0] st" using z [of "[0]"] True by simp
    moreover have "segment 0 1 (bn_d (st a)) = [bn_d (st a) ! 0]" using assms(2) True by (simp add: segment_Cons)
    ultimately show ?thesis using True by (intro exI [of _ "[0, 0]"]) (simp add: Let_def st1_def)
  next
    case False
    then have n: "2 \<le> n" using assms(4) by simp
    obtain vs c where v: "bn_mul_words r 1 a 1 (n - 1) (bn_d (st a) ! 0) st1 = (patch r 1 vs st1, c)" "length vs = n - 1"
      "words_val vs + 2 ^ (64 * (n - 1)) * unat c = words_val (segment 1 n (bn_d (st a))) * unat (bn_d (st a) ! 0)"
      using bn_mul_words_result [of 1 "n - 1" st1 a 1 r "bn_d (st a) ! 0"] n assms st1 by auto
    have "take 1 (bn_d (st1 r)) = [0]" using zero by (cases "bn_d (st1 r)") auto
    then have p1: "patch r 1 vs st1 = patch r 0 ([0] @ vs) st1" by (simp add: patch_def)
    have len: "length ([0] @ vs) = 1 + (n - 1)" using v(2) by simp
    have p2: "put_word r (1 + (n - 1)) c (patch r 0 ([0] @ vs) st1) = patch r 0 (([0] @ vs) @ [c]) st1"
      unfolding len [symmetric] using v(2) n assms(3) st1(2) by (intro put_patch) simp
    define ws1 where "ws1 = ([0] @ vs) @ [c]"
    have a0: "segment 0 n (bn_d (st a)) = bn_d (st a) ! 0 # segment 1 n (bn_d (st a))" using n assms(2) by (simp add: segment_Cons)
    have "words_val ws1 = 2 ^ 64 * (words_val vs + 2 ^ (64 * (n - 1)) * unat c)"
      using v(2) by (simp add: ws1_def words_val_append algebra_simps power_add)
    then have w1: "length ws1 = n + 1" "words_val ws1 + 2 ^ 128 * upper (segment 1 n (bn_d (st a))) = upper (segment 0 n (bn_d (st a)))"
      using v(2,3) n by (simp_all add: ws1_def a0 mult.commute)
    have first: "(case bn_mul_words r 1 a 1 (n - 1) (bn_d (st1 a) ! 0) st1 of (st, c) \<Rightarrow> put_word r (1 + (n - 1)) c st) = patch r 0 ws1 st1"
      unfolding st1(1) v(1) prod.case p1 p2 ws1_def ..
    have n1: "1 \<le> n - 1" "n - 1 < n" using n by simp_all
    obtain ws where w: "sqr_rows r a n (patch r 0 ws1 st1) = patch r 0 ws st1" "length ws = n + (n - 1)"
      "words_val ws + 2 ^ (128 * (n - 1)) * upper (segment (n - 1) n (bn_d (st a))) = upper (segment 0 n (bn_d (st a)))"
      using sqr_rows_result [of r a n st1 "n - 1" ws1] assms n1 st1 w1 unfolding sqr_rows_def by auto
    have "segment (n - 1) n (bn_d (st a)) = [bn_d (st a) ! (n - 1)]" using n assms(2) by (simp add: segment_Cons)
    then have val: "words_val ws = upper (segment 0 n (bn_d (st a)))" using w(3) by simp
    have rows: "(if n > 2 then sqr_rows r a n (patch r 0 ws1 st1) else patch r 0 ws1 st1) = patch r 0 ws st1"
    proof (cases "n > 2")
      case False
      then have "sqr_rows r a n (patch r 0 ws1 st1) = patch r 0 ws1 st1" using n by (simp add: sqr_rows_def)
      then show ?thesis using w(1) False by simp
    qed (simp add: w(1))
    have "patch r 0 ws st1 = patch r 0 (ws @ [0]) st" using z [of ws] w(2) n by simp
    moreover have "n > 1" using n by simp
    ultimately show ?thesis unfolding Let_def st1_def [symmetric] if_P [OF \<open>n > 1\<close>] first rows using n val w(2)
      by (intro exI [of _ "ws @ [0]"]) (simp add: words_val_append)
  qed
qed

lemma bn_sqr_normal_result:
  assumes "r \<noteq> a" and "tmp \<noteq> a" and "tmp \<noteq> r" and "n \<le> length (bn_d (st a))" and "2 * n \<le> length (bn_d (st r))"
    and "2 * n \<le> length (bn_d (st tmp))"
  shows "\<exists>ws vs. bn_sqr_normal r a n tmp st = patch tmp 0 vs (patch r 0 ws st) \<and> length ws = 2 * n \<and> length vs = 2 * n \<and>
    words_val ws = words_val (segment 0 n (bn_d (st a))) * words_val (segment 0 n (bn_d (st a)))"
proof (cases "n = 0")
  case True
  then show ?thesis by (intro exI [of _ "[]"]) (simp add: bn_sqr_normal_def)
next
  case False
  then have n: "1 \<le> n" by simp
  define A where "A = segment 0 n (bn_d (st a))"
  have lt: "words_val A * words_val A < 2 ^ (64 * (2 * n))" using product_lt [OF assms(4,4)] by (simp add: A_def mult_2)
  note sq = square_parts [of A]
  obtain ws where w: "(let st = put_word r 0 0 (put_word r (n * 2 - 1) 0 st);
               st = (if n > 1
                     then (case bn_mul_words r 1 a 1 (n - 1) (bn_d (st a) ! 0) st of (st, c) \<Rightarrow> put_word r (1 + (n - 1)) c st)
                     else st)
           in if n > 2 then sqr_rows r a n st else st) = patch r 0 ws st" "length ws = 2 * n" "words_val ws = upper A"
    using sqr_upper_result [OF assms(1,4,5) n] unfolding A_def by blast
  have r: "2 * n \<le> length (bn_d (patch r 0 ws st r))" "segment 0 (2 * n) (bn_d (patch r 0 ws st r)) = ws"
    using w(2) assms(5) by (simp_all add: patch_same segment_def)
  obtain us c where u: "bn_add_words r r r (2 * n) (patch r 0 ws st) = (patch r 0 us st, c)" "length us = 2 * n" "words_val us = 2 * upper A"
    using add_in_place [OF w(2) w(2) assms(5) refl r] w(3) sq lt by auto
  define st2 where "st2 = patch r 0 us st"
  have st2: "bn_d (st2 a) = bn_d (st a)" "bn_d (st2 tmp) = bn_d (st tmp)" using assms(1,3) by (simp_all add: st2_def patch_other)
  obtain vs where v: "bn_sqr_words tmp a n st2 = patch tmp 0 vs st2" "length vs = 2 * n" "words_val vs = squares A"
    using sqr_words_result [of tmp a n st2] assms(2,4,6) unfolding st2 A_def by auto
  define st3 where "st3 = patch tmp 0 vs st"
  have swap: "patch tmp 0 vs (patch r 0 us st) = patch r 0 us st3" for us
    using assms(3) by (simp add: st3_def patch_def fun_upd_twist)
  have st3: "2 * n \<le> length (bn_d (st3 r))" using assms(3,5) by (simp add: st3_def patch_other)
  have t: "2 * n \<le> length (bn_d (patch r 0 us st3 tmp))" "segment 0 (2 * n) (bn_d (patch r 0 us st3 tmp)) = vs"
    using assms(3,6) v(2) by (simp_all add: patch_other st3_def patch_same segment_def)
  obtain xs c2 where x: "bn_add_words r r tmp (2 * n) (patch r 0 us st3) = (patch r 0 xs st3, c2)" "length xs = 2 * n"
    "words_val xs = 2 * upper A + squares A"
    using add_in_place [OF u(2) v(2) st3 refl t] u(3) v(3) sq lt by auto
  have "bn_sqr_normal r a n tmp st = patch r 0 xs st3"
    using w(1) u(1) v(1) x(1) False unfolding bn_sqr_normal_def Let_def
    by (simp add: mult.commute [of n 2] st2_def swap)
  then show ?thesis using x(2,3) v(2) sq unfolding swap [symmetric] by (intro exI [of _ xs] exI [of _ vs]) (simp add: A_def)
qed

section \<open>Multiplication by a word\<close>

text \<open>A call that may leave the number spoiled when it fails.\<close>

definition mul_call_gives :: "bool \<Rightarrow> nat \<Rightarrow> int \<Rightarrow> bn_store \<Rightarrow> bool \<times> bn_store \<Rightarrow> bool" where
  "mul_call_gives room r x st = (\<lambda>(ok, st').
     (ok \<longleftrightarrow> room) \<and> (\<forall>h. h \<noteq> r \<longrightarrow> st' h = st h) \<and> (room \<longrightarrow> bn_ok (st' r) \<and> bn_int (st' r) = x))"

lemma BN_mul_word_gives:
  assumes "bn_ok (st bn)"
  shows "mul_call_gives (bn_abs (st bn) * unat w < 2 ^ (64 * bn_width (st bn)) \<or> can_expand malloc (st bn) (bn_width (st bn) + 1))
    bn (bn_int (st bn) * int (unat w)) st (BN_mul_word malloc bn w st)"
proof -
  have wok: "width_ok (st bn)" using assms by (rule bn_okD)
  define n where "n = bn_width (st bn)"
  consider (zero) "n = 0 \<or> w = 0" | (mul) "0 < n" "w \<noteq> 0" by blast
  then show ?thesis
  proof cases
    case zero
    show ?thesis
    proof (cases "n = 0")
      case True
      then have "bn_abs (st bn) = 0" by (simp add: bn_abs_def bn_words_def n_def)
      then show ?thesis using True assms by (simp add: mul_call_gives_def BN_mul_word_def n_def bn_int_def)
    next
      case False
      then show ?thesis using zero assms
        by (simp add: mul_call_gives_def BN_mul_word_def n_def BN_zero_def bn_ok_def bn_int_def bn_abs_def bn_words_def)
    qed
  next
    case mul
    have seg: "words_val (segment 0 n (bn_d (st bn))) = bn_abs (st bn)" by (simp add: bn_abs_def bn_words_segment n_def)
    obtain ws c where w: "bn_mul_words bn 0 bn 0 n w st = (patch bn 0 ws st, c)" "length ws = n"
      "words_val ws + 2 ^ (64 * n) * unat c = bn_abs (st bn) * unat w"
      using bn_mul_words_result [of 0 n st bn 0 bn w] wok seg by (auto simp: n_def)
    have lt: "words_val ws < 2 ^ (64 * n)" using words_val_lt [of ws] w(2) by simp
    define x where "x = patch bn 0 ws st bn"
    have x: "bn_width x = n" "bn_neg x = bn_neg (st bn)" "bn_static x = bn_static (st bn)" "bn_words x = ws" "width_ok x"
      "length (bn_d x) = length (bn_d (st bn))"
      using w(2) wok by (simp_all add: x_def patch_def n_def bn_words_def)
    have room: "can_expand malloc x (n + 1) = can_expand malloc (st bn) (n + 1)" using x by (simp add: can_expand_def)
    have e: "BN_mul_word malloc bn w st = (if c \<noteq> 0 then (case bn_wexpand malloc x (n + 1) of
           (ok, y) \<Rightarrow> let st = (patch bn 0 ws st)(bn := y) in
             if \<not> ok then (False, st)
             else let st = put_word bn (bn_width (st bn)) c st in (True, st(bn := (st bn)\<lparr>bn_width := bn_width (st bn) + 1\<rparr>)))
       else (True, patch bn 0 ws st))"
      using mul w(1) x(1) by (simp add: BN_mul_word_def n_def x_def)
    have ok: "bn_ok y \<and> bn_int y = bn_int (st bn) * int (unat w)" if y: "width_ok y" "bn_neg y = bn_neg (st bn)" "bn_abs y = bn_abs (st bn) * unat w" for y
      using y assms mul(2) by (auto simp: bn_ok_def bn_int_def unat_eq_0)
    show ?thesis
    proof (cases "c = 0")
      case True
      then have v: "bn_abs x = bn_abs (st bn) * unat w" using w(3) x(4) by (simp add: bn_abs_def)
      then have "bn_abs (st bn) * unat w < 2 ^ (64 * n)" using lt w(3) True by simp
      then show ?thesis using True ok [of x] x(1,2,5) v unfolding e by (simp add: mul_call_gives_def n_def patch_other x_def [symmetric])
    next
      case False
      then have "unat c \<noteq> 0" by (simp add: unat_eq_0)
      then have big: "\<not> bn_abs (st bn) * unat w < 2 ^ (64 * n)" using w(3) by (cases "unat c") auto
      show ?thesis
      proof (cases "can_expand malloc x (n + 1)")
        case r: True
        obtain d where d: "bn_wexpand malloc x (n + 1) = (True, x\<lparr>bn_d := d\<rparr>)" "take n d = ws" "n + 1 \<le> length d"
          using bn_wexpand_obtain [OF x(5), of malloc "n + 1"] r x(1,4) by metis
        define y where "y = x\<lparr>bn_d := d[n := c], bn_width := n + 1\<rparr>"
        have "bn_words y = ws @ [c]" using d by (simp add: y_def bn_words_def take_Suc_conv_app_nth)
        then have "bn_abs y = bn_abs (st bn) * unat w" using w(2,3) by (simp add: bn_abs_def words_val_append)
        then have oy: "bn_ok y \<and> bn_int y = bn_int (st bn) * int (unat w)" using d(3) x(2) by (intro ok) (simp_all add: y_def)
        have st': "BN_mul_word malloc bn w st = (True, (patch bn 0 ws st)(bn := y))"
          unfolding e if_P [OF False] d(1) using x(1) by (simp add: Let_def put_word_def y_def)
        show ?thesis unfolding st' using oy r room by (simp add: mul_call_gives_def n_def patch_other)
      next
        case r: False
        then show ?thesis using big room False unfolding e bn_wexpand_fails [OF r] by (simp add: mul_call_gives_def n_def Let_def patch_other)
      qed
    qed
  qed
qed

section \<open>Properties\<close>

text \<open>What a function leaves in an array: the value of its first \<^verbatim>\<open>n\<close> words; all other arrays but a scratch array are as before.\<close>

definition array_gives :: "nat \<Rightarrow> nat \<Rightarrow> nat \<Rightarrow> nat set \<Rightarrow> bn_store \<Rightarrow> bn_store \<Rightarrow> bool" where
  "array_gives r n v scratch st st' \<longleftrightarrow>
     words_val (take n (bn_d (st' r))) = v \<and> drop n (bn_d (st' r)) = drop n (bn_d (st r)) \<and>
     length (bn_d (st' r)) = length (bn_d (st r)) \<and> (\<forall>h. h \<noteq> r \<and> h \<notin> scratch \<longrightarrow> st' h = st h)"

lemma array_gives_patch:
  assumes "length ws = n" and "n \<le> length (bn_d (st r))" and "words_val ws = v"
  shows "array_gives r n v {} st (patch r 0 ws st)"
    and "tmp \<noteq> r \<Longrightarrow> array_gives r n v {tmp} st (patch tmp 0 us (patch r 0 ws st))"
    and "tmp \<noteq> r \<Longrightarrow> array_gives r n v {tmp} st ((patch tmp 0 us (patch r 0 ws st))(tmp := x))"
  using assms by (simp_all add: array_gives_def patch_def)

lemma array_gives_more: "array_gives r n v {} st st' \<Longrightarrow> array_gives r n v scratch st st'"
  by (simp add: array_gives_def)

lemma bn_mul_small_gives:
  assumes "r \<noteq> a" and "r \<noteq> b" and "na \<le> length (bn_d (st a))" and "nb \<le> length (bn_d (st b))" and "na + nb \<le> length (bn_d (st r))"
  shows "case bn_mul_small r num_r a na b nb st of
      None \<Rightarrow> num_r \<noteq> na + nb
    | Some st' \<Rightarrow> num_r = na + nb \<and>
        array_gives r (na + nb) (words_val (take na (bn_d (st a))) * words_val (take nb (bn_d (st b)))) {} st st'"
proof -
  have t: "take n d = segment 0 n d" for n d by (simp add: segment_def)
  consider "num_r \<noteq> na + nb" | "num_r = na + nb" "na = 8 \<and> nb = 8" | "num_r = na + nb" "\<not> (na = 8 \<and> nb = 8)" by blast
  then show ?thesis
  proof cases
    case 2
    obtain ws where "bn_mul_comba8 r a b st = patch r 0 ws st" "length ws = 8 + 8"
      "words_val ws = words_val (segment 0 8 (bn_d (st a))) * words_val (segment 0 8 (bn_d (st b)))"
      using bn_mul_comba8_result [of r a b st] assms 2 by auto
    then show ?thesis using 2 assms(5) array_gives_patch(1) [of ws 16 st r] by (simp add: bn_mul_small_def t)
  next
    case 3
    obtain ws where "bn_mul_normal r a na b nb st = patch r 0 ws st" "length ws = na + nb"
      "words_val ws = words_val (segment 0 na (bn_d (st a))) * words_val (segment 0 nb (bn_d (st b)))"
      using bn_mul_normal_result [of r a b na st nb] assms by auto
    then show ?thesis using 3 assms(5) array_gives_patch(1) [of ws "na + nb" st r] by (auto simp: bn_mul_small_def t)
  qed (simp add: bn_mul_small_def)
qed

lemma bn_sqr_small_gives:
  assumes "r \<noteq> a" and "tmp \<noteq> a" and "tmp \<noteq> r" and "n \<le> length (bn_d (st a))" and "2 * n \<le> length (bn_d (st r))"
    and "2 * n \<le> length (bn_d (st tmp))"
  shows "case bn_sqr_small r num_r a n tmp st of
      None \<Rightarrow> num_r \<noteq> 2 * n \<or> n > 9
    | Some st' \<Rightarrow> num_r = 2 * n \<and> n \<le> 9 \<and>
        array_gives r (2 * n) (words_val (take n (bn_d (st a))) * words_val (take n (bn_d (st a)))) {tmp} st st'"
proof -
  have t: "take n d = segment 0 n d" for n d by (simp add: segment_def)
  consider "num_r \<noteq> 2 * n \<or> n > 9" | "num_r = 2 * n" "n = 4" | "num_r = 2 * n" "n = 8" | "num_r = 2 * n" "n \<le> 9" "n \<noteq> 4" "n \<noteq> 8"
    by linarith
  then show ?thesis
  proof cases
    case 1
    then show ?thesis by (auto simp: bn_sqr_small_def BN_SMALL_MAX_WORDS_def)
  next
    case 2
    obtain ws where "bn_sqr_comba4 r a st = patch r 0 ws st" "length ws = 4 + 4"
      "words_val ws = words_val (segment 0 4 (bn_d (st a))) * words_val (segment 0 4 (bn_d (st a)))"
      using bn_sqr_comba4_result [of r a st] assms 2 by auto
    then show ?thesis using 2 assms(5) array_gives_more [OF array_gives_patch(1) [of ws 8 st r]]
      by (simp add: bn_sqr_small_def BN_SMALL_MAX_WORDS_def t)
  next
    case 3
    obtain ws where "bn_sqr_comba8 r a st = patch r 0 ws st" "length ws = 8 + 8"
      "words_val ws = words_val (segment 0 8 (bn_d (st a))) * words_val (segment 0 8 (bn_d (st a)))"
      using bn_sqr_comba8_result [of r a st] assms 3 by auto
    then show ?thesis using 3 assms(5) array_gives_more [OF array_gives_patch(1) [of ws 16 st r]]
      by (simp add: bn_sqr_small_def BN_SMALL_MAX_WORDS_def t)
  next
    case 4
    obtain ws vs where "bn_sqr_normal r a n tmp st = patch tmp 0 vs (patch r 0 ws st)" "length ws = 2 * n" "length vs = 2 * n"
      "words_val ws = words_val (segment 0 n (bn_d (st a))) * words_val (segment 0 n (bn_d (st a)))"
      using bn_sqr_normal_result [of r a tmp n st] assms by auto
    then show ?thesis using 4 assms(3,5) array_gives_patch(3) [of ws "2 * n" st r _ tmp vs]
      by (auto simp: bn_sqr_small_def BN_SMALL_MAX_WORDS_def t Let_def)
  qed
qed

text \<open>
  C39: the multiplications of arrays of words are exact. \<^verbatim>\<open>bn_mul_small\<close> and \<^verbatim>\<open>bn_mul_comba4\<close> leave the product of
  their arguments in the result array, and \<^verbatim>\<open>bn_sqr_small\<close> the square, by whichever of the schoolbook loops and the
  products by columns they choose, and they abort exactly on the sizes they do not support; nothing else is written but the
  scratch array. \<^verbatim>\<open>BN_mul_word\<close> multiplies a number in place, and fails exactly when the product needs another word that the
  number cannot get.
\<close>

theorem bn_products_exact:
  assumes "r \<noteq> a" and "r \<noteq> b" and "tmp \<noteq> a" and "tmp \<noteq> r" and "na \<le> length (bn_d (st a))" and "nb \<le> length (bn_d (st b))"
    and "na + nb \<le> length (bn_d (st r))" and "2 * na \<le> length (bn_d (st r))" and "2 * na \<le> length (bn_d (st tmp))" and "bn_ok (st bn)"
  shows "(case bn_mul_small r num_r a na b nb st of
      None \<Rightarrow> num_r \<noteq> na + nb
    | Some st' \<Rightarrow> num_r = na + nb \<and>
        array_gives r (na + nb) (words_val (take na (bn_d (st a))) * words_val (take nb (bn_d (st b)))) {} st st') \<and>
    (na = 4 \<and> nb = 4 \<longrightarrow>
        array_gives r 8 (words_val (take 4 (bn_d (st a))) * words_val (take 4 (bn_d (st b)))) {} st (bn_mul_comba4 r a b st)) \<and>
    (case bn_sqr_small r num_r a na tmp st of
      None \<Rightarrow> num_r \<noteq> 2 * na \<or> na > 9
    | Some st' \<Rightarrow> num_r = 2 * na \<and> na \<le> 9 \<and>
        array_gives r (2 * na) (words_val (take na (bn_d (st a))) * words_val (take na (bn_d (st a)))) {tmp} st st') \<and>
    mul_call_gives (bn_abs (st bn) * unat w < 2 ^ (64 * bn_width (st bn)) \<or> can_expand malloc (st bn) (bn_width (st bn) + 1))
      bn (bn_int (st bn) * int (unat w)) st (BN_mul_word malloc bn w st)"
proof (intro conjI)
  show "na = 4 \<and> nb = 4 \<longrightarrow>
      array_gives r 8 (words_val (take 4 (bn_d (st a))) * words_val (take 4 (bn_d (st b)))) {} st (bn_mul_comba4 r a b st)"
  proof
    assume n: "na = 4 \<and> nb = 4"
    have t: "take n d = segment 0 n d" for n d by (simp add: segment_def)
    obtain ws where "bn_mul_comba4 r a b st = patch r 0 ws st" "length ws = 4 + 4"
      "words_val ws = words_val (segment 0 4 (bn_d (st a))) * words_val (segment 0 4 (bn_d (st b)))"
      using bn_mul_comba4_result [of r a b st] assms n by auto
    then show "array_gives r 8 (words_val (take 4 (bn_d (st a))) * words_val (take 4 (bn_d (st b)))) {} st (bn_mul_comba4 r a b st)"
      using n assms(7) array_gives_patch(1) [of ws 8 st r] by (simp add: t)
  qed
qed (use bn_mul_small_gives [where st = st, OF assms(1,2,5-7)] bn_sqr_small_gives [where st = st, OF assms(1,3,4,5,8,9)]
    BN_mul_word_gives [where st = st and bn = bn, OF assms(10)] in blast)+

definition example_arrays :: bn_store where
  "example_arrays h = \<lparr>bn_d = (if h = 0 then [0xffffffffffffffff] else if h = 1 then [3] else [9, 9]), bn_width = 1, bn_neg = False,
     bn_static = False\<rparr>"

text \<open>The square of \<open>2 ^ 64 - 1\<close>, its product with 3, and a multiplication by a word that finds no room.\<close>

lemma bn_products_exact_witness:
  "(case bn_mul_small 2 2 0 1 1 1 example_arrays of None \<Rightarrow> False | Some st' \<Rightarrow> array_gives 2 2 ((2 ^ 64 - 1) * 3) {} example_arrays st') \<and>
   (case bn_sqr_small 2 2 0 1 3 example_arrays of None \<Rightarrow> False
    | Some st' \<Rightarrow> array_gives 2 2 ((2 ^ 64 - 1) * (2 ^ 64 - 1)) {3} example_arrays st') \<and>
   mul_call_gives False 0 ((2 ^ 64 - 1) * 2) example_arrays (BN_mul_word (\<lambda>_. None) 0 2 example_arrays)"
proof -
  have h: "(2 :: nat) \<noteq> 0" "(2 :: nat) \<noteq> 1" "(3 :: nat) \<noteq> 0" "(3 :: nat) \<noteq> 2" "1 \<le> length (bn_d (example_arrays 0))"
    "1 \<le> length (bn_d (example_arrays 1))" "1 + 1 \<le> length (bn_d (example_arrays 2))" "2 * 1 \<le> length (bn_d (example_arrays 2))"
    "2 * 1 \<le> length (bn_d (example_arrays 3))" "bn_ok (example_arrays 0)"
    by (simp_all add: example_arrays_def bn_ok_def)
  have v: "words_val (take 1 (bn_d (example_arrays 0))) = 2 ^ 64 - 1" "words_val (take 1 (bn_d (example_arrays 1))) = 3"
    "bn_abs (example_arrays 0) = 2 ^ 64 - 1" "bn_int (example_arrays 0) = 2 ^ 64 - 1" "bn_width (example_arrays 0) = 1"
    "\<not> can_expand (\<lambda>_. None) (example_arrays 0) 2"
    by (simp_all add: example_arrays_def bn_abs_def bn_words_def bn_int_def can_expand_def OPENSSL_malloc_def)
  have two: "unat (2 :: u64) = 2" by simp
  note p = bn_products_exact [OF h, of 2 2 "\<lambda>_. None", unfolded v(1-5) two one_add_one mult_1_right]
  have room: "\<not> ((2 ^ 64 - 1) * 2 < (2 :: nat) ^ 64 \<or> can_expand (\<lambda>_. None) (example_arrays 0) 2)" using v(6) by simp
  have "bn_mul_small 2 2 0 1 1 1 example_arrays \<noteq> None" using conjunct1 [OF p] by (auto simp del: One_nat_def split: option.splits)
  moreover have "bn_sqr_small 2 2 0 1 3 example_arrays \<noteq> None"
    using conjunct1 [OF conjunct2 [OF conjunct2 [OF p]]] by (auto simp del: One_nat_def split: option.splits)
  ultimately show ?thesis using p room by (auto simp del: One_nat_def split: option.splits)
qed

end
