(* ===== verification/Lhash.thy ===== *)
theory Lhash
  imports Mem "HOL-Library.Multiset"
begin

text \<open>
  \<^verbatim>\<open>crypto/lhash/lhash.c\<close>: the chained hash table with cached hashes that grows and shrinks with its
  load. A chain is the list of its items, so a \<^verbatim>\<open>LHASH_ITEM **\<close> into a chain is a position in that
  list; the position past the end is the pointer to the NULL that ends the chain. The hash and
  comparison functions are identifiers that the \<^verbatim>\<open>call_*_func\<close> helpers apply, as in the code.
\<close>

record 'a lhash_item =
  idata :: 'a
  ihash :: u32

record ('a, 'c, 'h) lhash =
  num_items :: u64
  buckets :: "'a lhash_item list list"
  num_buckets :: u64
  callback_depth :: u32
  lcomp :: 'c
  lhash_fn :: 'h

type_synonym ('a, 'c) lhash_cmp_helper = "'c \<Rightarrow> 'a \<Rightarrow> 'a \<Rightarrow> int"
type_synonym ('a, 'h) lhash_hash_helper = "'h \<Rightarrow> 'a \<Rightarrow> u32"

section \<open>The operations\<close>

definition kMinNumBuckets :: u64 where
  "kMinNumBuckets = 16"

definition kMaxAverageChainLength :: u64 where
  "kMaxAverageChainLength = 2"

definition kMinAverageChainLength :: u64 where
  "kMinAverageChainLength = 1"

definition sizeof_LHASH :: u64 where
  "sizeof_LHASH = 48"

definition sizeof_LHASH_ITEM :: u64 where
  "sizeof_LHASH_ITEM = 24"

definition sizeof_LHASH_ITEM_ptr :: u64 where
  "sizeof_LHASH_ITEM_ptr = 8"

definition lh_new :: "libc_malloc \<Rightarrow> 'h \<Rightarrow> 'c \<Rightarrow> ('a, 'c, 'h) lhash option" where
  "lh_new malloc hash cmp =
     (case OPENSSL_malloc malloc sizeof_LHASH of
        None \<Rightarrow> None
      | Some _ \<Rightarrow>
          (case OPENSSL_malloc malloc (sizeof_LHASH_ITEM_ptr * kMinNumBuckets) of
             None \<Rightarrow> None
           | Some _ \<Rightarrow> Some \<lparr>num_items = 0, buckets = replicate (unat kMinNumBuckets) [], num_buckets = kMinNumBuckets,
                              callback_depth = 0, lcomp = cmp, lhash_fn = hash\<rparr>))"

definition lh_num_items :: "('a, 'c, 'h) lhash \<Rightarrow> u64" where
  "lh_num_items lh = num_items lh"

text \<open>The walk along a chain: the position of the first item that is equal, else the end.\<close>

fun chain_walk :: "('a \<Rightarrow> bool) \<Rightarrow> 'a lhash_item list \<Rightarrow> nat" where
  "chain_walk equal [] = 0"
| "chain_walk equal (cur # next) = (if equal (idata cur) then 0 else Suc (chain_walk equal next))"

definition bucket_of :: "u64 \<Rightarrow> u32 \<Rightarrow> nat" where
  "bucket_of n hash = unat (ucast hash mod n)"

definition get_next_ptr_and_hash ::
  "('a, 'h) lhash_hash_helper \<Rightarrow> ('a, 'c) lhash_cmp_helper \<Rightarrow> ('a, 'c, 'h) lhash \<Rightarrow> 'a \<Rightarrow> u32 \<times> nat \<times> nat"
where
  "get_next_ptr_and_hash call_hash_func call_cmp_func lh data =
     (let hash = call_hash_func (lhash_fn lh) data;
          b = bucket_of (num_buckets lh) hash
      in (hash, b, chain_walk (\<lambda>cur. call_cmp_func (lcomp lh) cur data = 0) (buckets lh ! b)))"

definition get_next_ptr_by_key :: "('a, 'c, 'h) lhash \<Rightarrow> 'k \<Rightarrow> u32 \<Rightarrow> ('k \<Rightarrow> 'a \<Rightarrow> int) \<Rightarrow> nat \<times> nat" where
  "get_next_ptr_by_key lh key key_hash cmp_key =
     (let b = bucket_of (num_buckets lh) key_hash
      in (b, chain_walk (\<lambda>cur. cmp_key key cur = 0) (buckets lh ! b)))"

text \<open>\<^verbatim>\<open>*next_ptr\<close>.\<close>

definition deref :: "('a, 'c, 'h) lhash \<Rightarrow> nat \<times> nat \<Rightarrow> 'a lhash_item option" where
  "deref lh = (\<lambda>(b, k). if k < length (buckets lh ! b) then Some (buckets lh ! b ! k) else None)"

definition lh_retrieve ::
  "('a, 'h) lhash_hash_helper \<Rightarrow> ('a, 'c) lhash_cmp_helper \<Rightarrow> ('a, 'c, 'h) lhash \<Rightarrow> 'a \<Rightarrow> 'a option"
where
  "lh_retrieve call_hash_func call_cmp_func lh data =
     (let (_, next_ptr) = get_next_ptr_and_hash call_hash_func call_cmp_func lh data
      in map_option idata (deref lh next_ptr))"

definition lh_retrieve_key :: "('a, 'c, 'h) lhash \<Rightarrow> 'k \<Rightarrow> u32 \<Rightarrow> ('k \<Rightarrow> 'a \<Rightarrow> int) \<Rightarrow> 'a option" where
  "lh_retrieve_key lh key key_hash cmp_key = map_option idata (deref lh (get_next_ptr_by_key lh key key_hash cmp_key))"

text \<open>One item moved to the front of its new chain, and the two loops over the old table.\<close>

definition rebucket_item :: "u64 \<Rightarrow> 'a lhash_item \<Rightarrow> 'a lhash_item list list \<Rightarrow> 'a lhash_item list list" where
  "rebucket_item n cur new_buckets =
     (let new_bucket = bucket_of n (ihash cur) in new_buckets[new_bucket := cur # new_buckets ! new_bucket])"

definition lh_rebucket :: "libc_malloc \<Rightarrow> u64 \<Rightarrow> ('a, 'c, 'h) lhash \<Rightarrow> ('a, 'c, 'h) lhash" where
  "lh_rebucket malloc new_num_buckets lh =
     (let alloc_size = sizeof_LHASH_ITEM_ptr * new_num_buckets in
      if alloc_size div sizeof_LHASH_ITEM_ptr \<noteq> new_num_buckets then lh
      else
        (case OPENSSL_malloc malloc alloc_size of
           None \<Rightarrow> lh
         | Some _ \<Rightarrow>
             lh\<lparr>num_buckets := new_num_buckets,
                buckets := fold (fold (rebucket_item new_num_buckets)) (buckets lh) (replicate (unat new_num_buckets) [])\<rparr>))"

definition lh_maybe_resize :: "libc_malloc \<Rightarrow> ('a, 'c, 'h) lhash \<Rightarrow> ('a, 'c, 'h) lhash" where
  "lh_maybe_resize malloc lh =
     (if callback_depth lh > 0 then lh
      else
        let avg_chain_length = num_items lh div num_buckets lh in
        if avg_chain_length > kMaxAverageChainLength then
          let new_num_buckets = num_buckets lh * 2 in
          if new_num_buckets > num_buckets lh then lh_rebucket malloc new_num_buckets lh else lh
        else if avg_chain_length < kMinAverageChainLength \<and> num_buckets lh > kMinNumBuckets then
          let new_num_buckets = num_buckets lh div 2 in
          lh_rebucket malloc (if new_num_buckets < kMinNumBuckets then kMinNumBuckets else new_num_buckets) lh
        else lh)"

definition set_chain :: "nat \<Rightarrow> 'a lhash_item list \<Rightarrow> ('a, 'c, 'h) lhash \<Rightarrow> ('a, 'c, 'h) lhash" where
  "set_chain b chain lh = lh\<lparr>buckets := (buckets lh)[b := chain]\<rparr>"

text \<open>The result, \<^verbatim>\<open>*old_data\<close> and the table.\<close>

definition lh_insert ::
  "libc_malloc \<Rightarrow> ('a, 'h) lhash_hash_helper \<Rightarrow> ('a, 'c) lhash_cmp_helper \<Rightarrow> ('a, 'c, 'h) lhash \<Rightarrow> 'a \<Rightarrow>
    bool \<times> 'a option \<times> ('a, 'c, 'h) lhash"
where
  "lh_insert malloc call_hash_func call_cmp_func lh data =
     (let (hash, b, k) = get_next_ptr_and_hash call_hash_func call_cmp_func lh data;
          chain = buckets lh ! b in
      case deref lh (b, k) of
        Some item \<Rightarrow> (True, Some (idata item), set_chain b (chain[k := item\<lparr>idata := data\<rparr>]) lh)
      | None \<Rightarrow>
          (case OPENSSL_malloc malloc sizeof_LHASH_ITEM of
             None \<Rightarrow> (False, None, lh)
           | Some _ \<Rightarrow>
               let lh1 = set_chain b (chain @ [\<lparr>idata = data, ihash = hash\<rparr>]) lh;
                   lh2 = lh1\<lparr>num_items := num_items lh1 + 1\<rparr>
               in (True, None, lh_maybe_resize malloc lh2)))"

definition lh_delete ::
  "libc_malloc \<Rightarrow> ('a, 'h) lhash_hash_helper \<Rightarrow> ('a, 'c) lhash_cmp_helper \<Rightarrow> ('a, 'c, 'h) lhash \<Rightarrow> 'a \<Rightarrow>
    'a option \<times> ('a, 'c, 'h) lhash"
where
  "lh_delete malloc call_hash_func call_cmp_func lh data =
     (let (hash, b, k) = get_next_ptr_and_hash call_hash_func call_cmp_func lh data;
          chain = buckets lh ! b in
      case deref lh (b, k) of
        None \<Rightarrow> (None, lh)
      | Some item \<Rightarrow>
          let lh1 = set_chain b (take k chain @ drop (Suc k) chain) lh;
              lh2 = lh1\<lparr>num_items := num_items lh1 - 1\<rparr>
          in (Some (idata item), lh_maybe_resize malloc lh2))"

text \<open>\<^verbatim>\<open>lh_doall_arg\<close> with a callback that leaves the table alone: \<^verbatim>\<open>func\<close> changes the state behind \<^verbatim>\<open>arg\<close>.\<close>

definition lh_doall_arg ::
  "libc_malloc \<Rightarrow> ('a \<Rightarrow> 's \<Rightarrow> 's) \<Rightarrow> ('a, 'c, 'h) lhash option \<Rightarrow> 's \<Rightarrow> ('a, 'c, 'h) lhash option \<times> 's"
where
  "lh_doall_arg malloc func lh arg =
     (case lh of
        None \<Rightarrow> (None, arg)
      | Some lh \<Rightarrow>
          let lh1 = (if callback_depth lh < 0xffffffff then lh\<lparr>callback_depth := callback_depth lh + 1\<rparr> else lh);
              arg1 = fold (\<lambda>chain st. fold (\<lambda>cur. func (idata cur)) chain st) (buckets lh1) arg;
              lh2 = (if callback_depth lh1 < 0xffffffff then lh1\<lparr>callback_depth := callback_depth lh1 - 1\<rparr> else lh1)
          in (Some (lh_maybe_resize malloc lh2), arg1))"

definition lh_strhash :: "bytes option \<Rightarrow> u32 option" where
  "lh_strhash c =
     (case c of
        None \<Rightarrow> Some 0
      | Some s \<Rightarrow> map_option (\<lambda>l. OPENSSL_hash32 (take l s)) (strlen s))"

section \<open>Chains and buckets\<close>

lemma chain_walk_le: "chain_walk P c \<le> length c"
  by (induction c) auto

lemma chain_walk_found: "chain_walk P c < length c \<Longrightarrow> P (idata (c ! chain_walk P c))"
  by (induction c) auto

lemma chain_walk_end: "\<not> chain_walk P c < length c \<longleftrightarrow> (\<forall>x\<in>set c. \<not> P (idata x))"
  by (induction c) auto

definition items :: "('a, 'c, 'h) lhash \<Rightarrow> 'a lhash_item multiset" where
  "items lh = mset (concat (buckets lh))"

lemma mset_update_chain:
  assumes "b < length bs"
  shows "mset (concat (bs[b := c])) + mset (bs ! b) = mset (concat bs) + mset c"
proof -
  have "mset (concat bs) = mset (concat (take b bs)) + mset (bs ! b) + mset (concat (drop (Suc b) bs))"
    by (subst id_take_nth_drop [OF assms]) simp
  moreover have "mset (concat (bs[b := c])) = mset (concat (take b bs)) + mset c + mset (concat (drop (Suc b) bs))"
    using assms by (simp add: upd_conv_take_nth_drop)
  ultimately show ?thesis by simp
qed

text \<open>Every item is in the bucket of its hash.\<close>

definition placed :: "u64 \<Rightarrow> 'a lhash_item list list \<Rightarrow> bool" where
  "placed n bs \<longleftrightarrow> length bs = unat n \<and> (\<forall>b < length bs. \<forall>x\<in>set (bs ! b). bucket_of n (ihash x) = b)"

lemma bucket_of_less: "n \<noteq> 0 \<Longrightarrow> bucket_of n h < unat n"
  by (simp add: bucket_of_def unat_mod unat_gt_0)

lemma rebucket_item_ok:
  assumes "placed n bs" "n \<noteq> 0"
  shows "placed n (rebucket_item n x bs)" and "mset (concat (rebucket_item n x bs)) = add_mset x (mset (concat bs))"
proof -
  let ?b = "bucket_of n (ihash x)"
  have b: "?b < length bs" using assms bucket_of_less by (simp add: placed_def)
  show "placed n (rebucket_item n x bs)"
    using assms b by (auto simp: placed_def rebucket_item_def Let_def nth_list_update)
  show "mset (concat (rebucket_item n x bs)) = add_mset x (mset (concat bs))"
    using mset_update_chain [OF b, of "x # bs ! ?b"] by (simp add: rebucket_item_def Let_def)
qed

lemma rebucket_chain_ok:
  assumes "n \<noteq> 0"
  shows "placed n bs \<Longrightarrow> placed n (fold (rebucket_item n) c bs) \<and>
    mset (concat (fold (rebucket_item n) c bs)) = mset c + mset (concat bs)"
proof (induction c arbitrary: bs)
  case (Cons x c)
  from Cons.IH [OF rebucket_item_ok(1) [OF Cons.prems assms]] rebucket_item_ok(2) [OF Cons.prems assms]
  show ?case by simp
qed simp

lemma rebucket_all_ok:
  assumes "n \<noteq> 0"
  shows "placed n bs \<Longrightarrow> placed n (fold (fold (rebucket_item n)) old bs) \<and>
    mset (concat (fold (fold (rebucket_item n)) old bs)) = mset (concat old) + mset (concat bs)"
proof (induction old arbitrary: bs)
  case (Cons c old)
  note c = rebucket_chain_ok [OF assms Cons.prems, of c]
  from Cons.IH [OF conjunct1 [OF c]] conjunct2 [OF c] show ?case by simp
qed simp

lemma concat_replicate_Nil: "concat (replicate n []) = []"
  by (induction n) simp_all

lemma placed_empty: "placed n (replicate (unat n) [])"
  by (simp add: placed_def)

section \<open>The invariant\<close>

text \<open>
  At least sixteen buckets, every item in the bucket of its hash, the cached hash that of the data, no
  two items with equal data, and the count of the items.
\<close>

definition matching :: "('a \<Rightarrow> 'a \<Rightarrow> int) \<Rightarrow> 'a lhash_item multiset \<Rightarrow> 'a \<Rightarrow> 'a lhash_item multiset" where
  "matching cmp M k = {#x \<in># M. cmp (idata x) k = 0#}"

definition lh_ok :: "('a, 'h) lhash_hash_helper \<Rightarrow> ('a, 'c) lhash_cmp_helper \<Rightarrow> 'h \<Rightarrow> 'c \<Rightarrow> ('a, 'c, 'h) lhash \<Rightarrow> bool" where
  "lh_ok call_hash_func call_cmp_func h c lh \<longleftrightarrow>
     lhash_fn lh = h \<and> lcomp lh = c \<and> 16 \<le> num_buckets lh \<and> placed (num_buckets lh) (buckets lh) \<and>
     (\<forall>x\<in>#items lh. ihash x = call_hash_func h (idata x)) \<and>
     (\<forall>k. size (matching (call_cmp_func c) (items lh) k) \<le> 1) \<and> num_items lh = of_nat (size (items lh))"

lemma singleton_of_size: "x \<in># M \<Longrightarrow> size M \<le> 1 \<Longrightarrow> M = {#x#}"
  by (cases M) (auto split: if_splits)

lemma matching_empty: "matching cmp M k = {#} \<longleftrightarrow> (\<forall>x\<in>#M. cmp (idata x) k \<noteq> 0)"
  by (induction M) (auto simp: matching_def)

lemma rebucket_items:
  assumes "placed (num_buckets lh) (buckets lh)" "n \<noteq> 0"
  shows "items (lh_rebucket malloc n lh) = items lh"
    and "placed (num_buckets (lh_rebucket malloc n lh)) (buckets (lh_rebucket malloc n lh))"
    and "num_buckets (lh_rebucket malloc n lh) \<in> {num_buckets lh, n}"
  using assms(1) rebucket_all_ok [OF assms(2) placed_empty, of "buckets lh"]
  by (auto simp: lh_rebucket_def Let_def items_def concat_replicate_Nil split: option.splits)

lemma rebucket_same:
  "lhash_fn (lh_rebucket malloc n lh) = lhash_fn lh \<and> lcomp (lh_rebucket malloc n lh) = lcomp lh \<and>
   num_items (lh_rebucket malloc n lh) = num_items lh"
  by (simp add: lh_rebucket_def Let_def split: option.splits)

lemma rebucket_lh_ok:
  assumes "lh_ok ch cc h c lh" "16 \<le> n"
  shows "lh_ok ch cc h c (lh_rebucket malloc n lh) \<and> items (lh_rebucket malloc n lh) = items lh"
proof -
  have "n \<noteq> 0" using assms(2) by auto
  then show ?thesis using rebucket_items [of lh n malloc] rebucket_same [of malloc n lh] assms
    by (auto simp: lh_ok_def)
qed

lemma resize_lh_ok:
  assumes "lh_ok ch cc h c lh"
  shows "lh_ok ch cc h c (lh_maybe_resize malloc lh) \<and> items (lh_maybe_resize malloc lh) = items lh"
proof -
  have n: "16 \<le> num_buckets lh" using assms by (simp add: lh_ok_def)
  have "16 \<le> m" if "m > num_buckets lh" for m using n that by simp
  moreover have "16 \<le> (if m < kMinNumBuckets then kMinNumBuckets else m)" for m
    by (auto simp: kMinNumBuckets_def not_less)
  ultimately show ?thesis
    using rebucket_lh_ok [OF assms] assms by (simp add: lh_maybe_resize_def Let_def)
qed

lemma lh_new_ok:
  assumes "lh_new malloc h c = Some lh"
  shows "lh_ok ch cc h c lh" and "items lh = {#}"
proof -
  have lh: "lh = \<lparr>num_items = 0, buckets = replicate 16 [], num_buckets = 16, callback_depth = 0, lcomp = c, lhash_fn = h\<rparr>"
    using assms by (auto simp: lh_new_def kMinNumBuckets_def split: option.splits)
  show i: "items lh = {#}" by (simp add: lh items_def concat_replicate_Nil)
  show "lh_ok ch cc h c lh" unfolding lh_ok_def i using placed_empty [of 16] by (simp add: lh matching_def)
qed

section \<open>The interface\<close>

text \<open>
  What a client of a hash table relies on: \<^verbatim>\<open>retrieve\<close> is a map on the objects up to equality, which
  insertion and deletion update at one class; a failed insertion changes nothing.
\<close>

locale object_table =
  fixes ok :: "'t \<Rightarrow> bool" and eq :: "'a \<Rightarrow> 'a \<Rightarrow> bool" and retrieve :: "'t \<Rightarrow> 'a \<Rightarrow> 'a option"
    and insert :: "'t \<Rightarrow> 'a \<Rightarrow> bool \<times> 'a option \<times> 't" and delete :: "'t \<Rightarrow> 'a \<Rightarrow> 'a option \<times> 't"
  assumes refl: "eq a a" and sym: "eq a b \<Longrightarrow> eq b a" and trans: "eq a b \<Longrightarrow> eq b d \<Longrightarrow> eq a d"
    and retrieve_sound: "ok t \<Longrightarrow> retrieve t k = Some d \<Longrightarrow> eq d k"
    and retrieve_cong: "ok t \<Longrightarrow> eq a b \<Longrightarrow> retrieve t a = retrieve t b"
    and insert_keeps: "ok t \<Longrightarrow> insert t d = (r, old, t') \<Longrightarrow> ok t'"
    and insert_fails: "ok t \<Longrightarrow> insert t d = (False, old, t') \<Longrightarrow> old = None \<and> t' = t"
    and insert_sets: "ok t \<Longrightarrow> insert t d = (True, old, t') \<Longrightarrow>
      old = retrieve t d \<and> retrieve t' k = (if eq d k then Some d else retrieve t k)"
    and delete_keeps: "ok t \<Longrightarrow> delete t d = (old, t') \<Longrightarrow> ok t'"
    and delete_clears: "ok t \<Longrightarrow> delete t d = (old, t') \<Longrightarrow>
      old = retrieve t d \<and> retrieve t' k = (if eq d k then None else retrieve t k)"
begin

text \<open>The objects that the table holds are those that are retrieved by themselves.\<close>

lemma held_unique: "ok t \<Longrightarrow> retrieve t a = Some a \<Longrightarrow> retrieve t b = Some b \<Longrightarrow> eq a b \<Longrightarrow> a = b"
  using retrieve_cong [of t a b] by simp

lemma retrieved_held: "ok t \<Longrightarrow> retrieve t k = Some d \<Longrightarrow> retrieve t d = Some d"
  using retrieve_cong [of t d k] retrieve_sound [of t k d] by simp

lemma held_insert:
  assumes "ok t" "insert t d = (r, old, t')" "retrieve t d = None"
  shows "retrieve t' a = Some a \<longleftrightarrow> retrieve t a = Some a \<or> (r \<and> a = d)"
proof (cases r)
  case True
  then have i: "retrieve t' a = (if eq d a then Some d else retrieve t a)" using insert_sets [OF assms(1)] assms(2) by simp
  have "retrieve t a = None" if "eq d a" using retrieve_cong [OF assms(1) that] assms(3) by simp
  then show ?thesis using i True refl by auto
next
  case False
  then have "t' = t" using insert_fails [OF assms(1), of d old t'] assms(2) by simp
  then show ?thesis using False by simp
qed

lemma held_delete:
  assumes "ok t" "delete t d = (old, t')" "retrieve t d = Some d"
  shows "old = Some d" and "retrieve t' a = Some a \<longleftrightarrow> retrieve t a = Some a \<and> a \<noteq> d"
proof -
  show "old = Some d" using delete_clears [OF assms(1,2)] assms(3) by simp
  have i: "retrieve t' a = (if eq d a then None else retrieve t a)" using delete_clears [OF assms(1,2)] by simp
  show "retrieve t' a = Some a \<longleftrightarrow> retrieve t a = Some a \<and> a \<noteq> d"
    using i held_unique [OF assms(1,3), of a] refl by auto
qed

end

section \<open>The table as a finite map\<close>

text \<open>What \<^verbatim>\<open>lhash.h\<close> asks of the two functions: equality is an equivalence, and equal objects have equal hashes.\<close>

locale lhash_functions =
  fixes malloc :: libc_malloc and ch :: "('a, 'h) lhash_hash_helper" and cc :: "('a, 'c) lhash_cmp_helper"
    and h :: 'h and c :: 'c
  assumes eq_refl: "cc c a a = 0"
    and eq_sym: "cc c a b = 0 \<Longrightarrow> cc c b a = 0"
    and eq_trans: "cc c a b = 0 \<Longrightarrow> cc c b d = 0 \<Longrightarrow> cc c a d = 0"
    and eq_hash: "cc c a b = 0 \<Longrightarrow> ch h a = ch h b"
begin

lemma eq_left: "cc c a b = 0 \<Longrightarrow> cc c a k = 0 \<longleftrightarrow> cc c b k = 0"
  using eq_sym eq_trans by metis

lemma locate:
  assumes ok: "lh_ok ch cc h c lh" and g: "get_next_ptr_and_hash ch cc lh d = (hv, b, k)"
  shows "hv = ch h d" and "b = bucket_of (num_buckets lh) hv" and "b < length (buckets lh)"
    and "deref lh (b, k) = None \<Longrightarrow> k = length (buckets lh ! b) \<and> matching (cc c) (items lh) d = {#}"
    and "deref lh (b, k) = Some x \<Longrightarrow> k < length (buckets lh ! b) \<and> buckets lh ! b ! k = x \<and> x \<in># items lh \<and>
      cc c (idata x) d = 0 \<and> matching (cc c) (items lh) d = {#x#}"
proof -
  have f: "lhash_fn lh = h" "lcomp lh = c" and pl: "placed (num_buckets lh) (buckets lh)" and n: "num_buckets lh \<noteq> 0"
    using ok by (auto simp: lh_ok_def)
  show hv: "hv = ch h d" and b: "b = bucket_of (num_buckets lh) hv" using g f by (auto simp: get_next_ptr_and_hash_def Let_def)
  have k: "k = chain_walk (\<lambda>cur. cc c cur d = 0) (buckets lh ! b)" using g f by (auto simp: get_next_ptr_and_hash_def Let_def)
  show bl: "b < length (buckets lh)" using pl bucket_of_less [OF n] by (simp add: placed_def b)
  show "k = length (buckets lh ! b) \<and> matching (cc c) (items lh) d = {#}" if "deref lh (b, k) = None"
  proof
    have e: "\<not> k < length (buckets lh ! b)" using that by (auto simp: deref_def split: if_splits)
    then show "k = length (buckets lh ! b)" using chain_walk_le [of "\<lambda>cur. cc c cur d = 0" "buckets lh ! b"] k by simp
    have no: "\<forall>x\<in>set (buckets lh ! b). cc c (idata x) d \<noteq> 0" using e unfolding k chain_walk_end .
    have "cc c (idata x) d \<noteq> 0" if x: "x \<in># items lh" for x
    proof
      assume eq: "cc c (idata x) d = 0"
      obtain ch where "ch \<in> set (buckets lh)" "x \<in> set ch" using x by (auto simp: items_def)
      then obtain i where i: "i < length (buckets lh)" "x \<in> set (buckets lh ! i)" by (metis in_set_conv_nth)
      then have "bucket_of (num_buckets lh) (ihash x) = i" using pl by (simp add: placed_def)
      moreover have "ihash x = hv" using ok x eq_hash [OF eq] hv by (simp add: lh_ok_def)
      ultimately have "i = b" using b by simp
      then show False using no i(2) eq by blast
    qed
    then show "matching (cc c) (items lh) d = {#}" by (simp add: matching_empty)
  qed
  show "k < length (buckets lh ! b) \<and> buckets lh ! b ! k = x \<and> x \<in># items lh \<and>
      cc c (idata x) d = 0 \<and> matching (cc c) (items lh) d = {#x#}" if "deref lh (b, k) = Some x"
  proof -
    have e: "k < length (buckets lh ! b)" "buckets lh ! b ! k = x" using that by (auto simp: deref_def split: if_splits)
    then have eq: "cc c (idata x) d = 0" using chain_walk_found [of "\<lambda>cur. cc c cur d = 0" "buckets lh ! b"] k by simp
    have x: "x \<in># items lh" using e bl nth_mem by (fastforce simp: items_def)
    have s: "size (matching (cc c) (items lh) d) \<le> 1" using ok unfolding lh_ok_def by blast
    have "x \<in># matching (cc c) (items lh) d" using x eq by (simp add: matching_def)
    then have "matching (cc c) (items lh) d = {#x#}" using s by (rule singleton_of_size)
    then show ?thesis using e x eq by simp
  qed
qed

lemma retrieve_matching:
  assumes ok: "lh_ok ch cc h c lh"
  shows "lh_retrieve ch cc lh d = None \<longleftrightarrow> matching (cc c) (items lh) d = {#}"
    and "lh_retrieve ch cc lh d = Some e \<longleftrightarrow> (\<exists>x. idata x = e \<and> matching (cc c) (items lh) d = {#x#})"
proof -
  obtain hv b k where g: "get_next_ptr_and_hash ch cc lh d = (hv, b, k)" by (metis prod_cases3)
  have r: "lh_retrieve ch cc lh d = map_option idata (deref lh (b, k))" by (simp add: lh_retrieve_def g)
  show "lh_retrieve ch cc lh d = None \<longleftrightarrow> matching (cc c) (items lh) d = {#}"
    "lh_retrieve ch cc lh d = Some e \<longleftrightarrow> (\<exists>x. idata x = e \<and> matching (cc c) (items lh) d = {#x#})"
    using locate(4,5) [OF ok g] unfolding r by (cases "deref lh (b, k)"; auto)+
qed

lemma retrieve_determined:
  assumes "lh_ok ch cc h c lh" "lh_ok ch cc h c lh'" "matching (cc c) (items lh) a = matching (cc c) (items lh') b"
  shows "lh_retrieve ch cc lh a = lh_retrieve ch cc lh' b"
proof (cases "lh_retrieve ch cc lh' b")
  case None
  then have "lh_retrieve ch cc lh a = None"
    unfolding retrieve_matching(1) [OF assms(1)] retrieve_matching(1) [OF assms(2)] assms(3) .
  then show ?thesis using None by simp
next
  case (Some e)
  then have "lh_retrieve ch cc lh a = Some e"
    unfolding retrieve_matching(2) [OF assms(1)] retrieve_matching(2) [OF assms(2)] assms(3) .
  then show ?thesis using Some by simp
qed

lemma retrieve_eq:
  assumes "lh_ok ch cc h c lh" "lh_retrieve ch cc lh k = Some d"
  shows "cc c d k = 0"
proof -
  obtain x where x: "idata x = d" "matching (cc c) (items lh) k = {#x#}" using retrieve_matching(2) [OF assms(1)] assms(2) by blast
  then have "x \<in># matching (cc c) (items lh) k" by simp
  then show ?thesis using x(1) by (simp add: matching_def)
qed

lemma retrieved_data:
  assumes ok: "lh_ok ch cc h c lh"
  shows "{d. \<exists>k. lh_retrieve ch cc lh k = Some d} = idata ` set_mset (items lh)"
proof (intro equalityI subsetI)
  fix d assume "d \<in> {d. \<exists>k. lh_retrieve ch cc lh k = Some d}"
  then obtain k x where x: "idata x = d" "matching (cc c) (items lh) k = {#x#}" using retrieve_matching(2) [OF ok] by blast
  then have "x \<in># matching (cc c) (items lh) k" by simp
  then show "d \<in> idata ` set_mset (items lh)" using x(1) by (auto simp: matching_def)
next
  fix d assume "d \<in> idata ` set_mset (items lh)"
  then obtain x where x: "x \<in># items lh" "d = idata x" by blast
  have "x \<in># matching (cc c) (items lh) d" using x eq_refl by (simp add: matching_def)
  moreover have "size (matching (cc c) (items lh) d) \<le> 1" using ok unfolding lh_ok_def by blast
  ultimately have "matching (cc c) (items lh) d = {#x#}" by (rule singleton_of_size)
  then show "d \<in> {d. \<exists>k. lh_retrieve ch cc lh k = Some d}" using retrieve_matching(2) [OF ok] x(2) by blast
qed

text \<open>Replacing the items that match one object changes what is retrieved for the objects equal to it.\<close>

lemma retrieve_changed:
  assumes ok: "lh_ok ch cc h c lh" and ok': "lh_ok ch cc h c lh'"
    and m: "\<And>k. matching (cc c) (items lh') k = (if cc c d k = 0 then M else matching (cc c) (items lh) k)"
    and M: "M = (case v of None \<Rightarrow> {#} | Some x \<Rightarrow> {#x#})"
  shows "lh_retrieve ch cc lh' k = (if cc c d k = 0 then map_option idata v else lh_retrieve ch cc lh k)"
proof (rule option.expand)
  show "lh_retrieve ch cc lh' k = None \<longleftrightarrow> (if cc c d k = 0 then map_option idata v else lh_retrieve ch cc lh k) = None"
    using m M by (simp add: retrieve_matching(1) [OF ok] retrieve_matching(1) [OF ok'] split: option.splits)
  assume "lh_retrieve ch cc lh' k \<noteq> None"
  then obtain e where e: "lh_retrieve ch cc lh' k = Some e" by blast
  have "(if cc c d k = 0 then map_option idata v else lh_retrieve ch cc lh k) = Some e"
    using e m M unfolding retrieve_matching(2) [OF ok'] by (auto simp: retrieve_matching(2) [OF ok] split: option.splits)
  then show "the (lh_retrieve ch cc lh' k) = the (if cc c d k = 0 then map_option idata v else lh_retrieve ch cc lh k)"
    using e by simp
qed

lemma matching_add: "matching (cc c) (add_mset x M) k = (if cc c (idata x) k = 0 then add_mset x (matching (cc c) M k) else matching (cc c) M k)"
  by (simp add: matching_def)

text \<open>A chain replaced, the count adjusted.\<close>

lemma set_chain_ok:
  assumes ok: "lh_ok ch cc h c lh" and b: "b < length (buckets lh)"
    and I: "mset chain + items lh = I + mset (buckets lh ! b)"
    and p: "\<forall>x\<in>set chain. bucket_of (num_buckets lh) (ihash x) = b"
    and hx: "\<forall>x\<in>#I. ihash x = ch h (idata x)" and s: "\<forall>k. size (matching (cc c) I k) \<le> 1"
    and n: "n = of_nat (size I)"
  shows "items (set_chain b chain lh\<lparr>num_items := n\<rparr>) = I" and "lh_ok ch cc h c (set_chain b chain lh\<lparr>num_items := n\<rparr>)"
proof -
  show i: "items (set_chain b chain lh\<lparr>num_items := n\<rparr>) = I"
    using mset_update_chain [OF b, of chain] I by (simp add: items_def set_chain_def) (metis add.commute add_right_cancel)
  have "placed (num_buckets lh) ((buckets lh)[b := chain])"
    using ok p b by (auto simp: lh_ok_def placed_def nth_list_update)
  then show "lh_ok ch cc h c (set_chain b chain lh\<lparr>num_items := n\<rparr>)"
    unfolding lh_ok_def i using ok hx s n by (simp add: lh_ok_def set_chain_def)
qed

lemma insert_ok:
  assumes ok: "lh_ok ch cc h c lh" and ins: "lh_insert malloc ch cc lh d = (r, old, lh')"
  shows "lh_ok ch cc h c lh'" and "\<not> r \<Longrightarrow> old = None \<and> lh' = lh"
    and "r \<Longrightarrow> old = lh_retrieve ch cc lh d \<and>
      lh_retrieve ch cc lh' k = (if cc c d k = 0 then Some d else lh_retrieve ch cc lh k)"
    and "r \<Longrightarrow> size (items lh') = (if old = None then Suc (size (items lh)) else size (items lh))"
proof -
  obtain hv b p where g: "get_next_ptr_and_hash ch cc lh d = (hv, b, p)" by (metis prod_cases3)
  note loc = locate [OF ok g]
  let ?chain = "buckets lh ! b"
  have pl: "\<forall>x\<in>set ?chain. bucket_of (num_buckets lh) (ihash x) = b" using ok loc(3) by (simp add: lh_ok_def placed_def)
  have hx: "\<forall>x\<in>#items lh. ihash x = ch h (idata x)" and sz: "size (matching (cc c) (items lh) k) \<le> 1" for k
    using ok by (auto simp: lh_ok_def)
  have ret: "lh_retrieve ch cc lh d = map_option idata (deref lh (b, p))" by (simp add: lh_retrieve_def g)
  have goal: "lh_ok ch cc h c lh' \<and> (\<not> r \<longrightarrow> old = None \<and> lh' = lh) \<and>
    (r \<longrightarrow> old = lh_retrieve ch cc lh d \<and>
      (\<forall>k. lh_retrieve ch cc lh' k = (if cc c d k = 0 then Some d else lh_retrieve ch cc lh k)) \<and>
      size (items lh') = (if old = None then Suc (size (items lh)) else size (items lh)))"
  proof (cases "deref lh (b, p)")
    case (Some x)
    note x = loc(5) [OF Some]
    let ?x = "x\<lparr>idata := d\<rparr>"
    have lh': "r" "old = Some (idata x)" "lh' = set_chain b (?chain[p := ?x]) lh"
      using ins by (auto simp: lh_insert_def Let_def g Some)
    then have lh'': "lh' = set_chain b (?chain[p := ?x]) lh\<lparr>num_items := num_items lh\<rparr>" by (simp add: set_chain_def)
    let ?I = "add_mset ?x (items lh - {#x#})"
    have it: "items lh = add_mset x (items lh - {#x#})" using x by simp
    have eq: "cc c (idata x) k = 0 \<longleftrightarrow> cc c d k = 0" for k using x eq_left by blast
    have m: "matching (cc c) ?I k = (if cc c d k = 0 then {#?x#} else matching (cc c) (items lh) k)" for k
    proof -
      have a: "matching (cc c) (items lh) k = (if cc c d k = 0 then add_mset x (matching (cc c) (items lh - {#x#}) k)
          else matching (cc c) (items lh - {#x#}) k)"
        by (subst it) (simp add: matching_add eq)
      then show ?thesis using sz [of k] by (simp add: matching_add split: if_splits)
    qed
    have I: "mset (?chain[p := ?x]) + items lh = ?I + mset ?chain"
    proof -
      have A: "mset ?chain = add_mset x (mset ?chain - {#x#})" using x by (metis insert_DiffM nth_mem_mset)
      have B: "mset (?chain[p := ?x]) = add_mset ?x (mset ?chain - {#x#})" using x by (simp add: mset_update)
      have "add_mset ?x C + J = add_mset ?x K + D" if "J = add_mset x K" "D = add_mset x C" for C D J K using that by simp
      from this [OF it A] show ?thesis unfolding B .
    qed
    have p: "\<forall>y\<in>set (?chain[p := ?x]). bucket_of (num_buckets lh) (ihash y) = b"
      using pl x by (auto dest!: set_update_subset_insert [THEN subsetD])
    have "ihash x = ch h d" using hx x eq_hash by metis
    then have hI: "\<forall>y\<in>#?I. ihash y = ch h (idata y)" using hx by (auto dest: in_diffD)
    have s: "\<forall>k. size (matching (cc c) ?I k) \<le> 1" using sz by (simp add: m)
    have n: "num_items lh = of_nat (size ?I)" using ok it by (metis lh_ok_def size_add_mset)
    note c = set_chain_ok [OF ok loc(3) I p hI s n, folded lh'']
    have "lh_retrieve ch cc lh' k = (if cc c d k = 0 then Some d else lh_retrieve ch cc lh k)" for k
      using retrieve_changed [OF ok c(2) m [folded c(1)], of "Some ?x"] by simp
    moreover have "size (items lh') = size (items lh)" unfolding c(1) by (metis it size_add_mset)
    ultimately show ?thesis using c(2) lh' ret Some by simp
  next
    case None
    note e = loc(4) [OF None]
    let ?x = "\<lparr>idata = d, ihash = hv\<rparr>"
    show ?thesis
    proof (cases "OPENSSL_malloc malloc sizeof_LHASH_ITEM")
      case None
      then show ?thesis using ins \<open>deref lh (b, p) = None\<close> ok by (simp add: lh_insert_def Let_def g)
    next
      case (Some _)
      define lh1 where "lh1 = set_chain b (?chain @ [?x]) lh\<lparr>num_items := num_items lh + 1\<rparr>"
      have lh': "r" "old = None" "lh' = lh_maybe_resize malloc lh1"
        using ins Some None by (auto simp: lh_insert_def Let_def g lh1_def set_chain_def)
      let ?I = "add_mset ?x (items lh)"
      have m: "matching (cc c) ?I k = (if cc c d k = 0 then {#?x#} else matching (cc c) (items lh) k)" for k
      proof -
        have "matching (cc c) (items lh) k = {#}" if "cc c d k = 0"
          using e eq_trans eq_sym that unfolding matching_empty by metis
        then show ?thesis by (simp add: matching_add)
      qed
      have I: "mset (?chain @ [?x]) + items lh = ?I + mset ?chain" by simp
      have p: "\<forall>y\<in>set (?chain @ [?x]). bucket_of (num_buckets lh) (ihash y) = b" using pl loc(2) by auto
      have hI: "\<forall>y\<in>#?I. ihash y = ch h (idata y)" using hx loc(1) by auto
      have s: "\<forall>k. size (matching (cc c) ?I k) \<le> 1" using sz by (simp add: m)
      have n: "num_items lh + 1 = of_nat (size ?I)" using ok by (simp add: lh_ok_def)
      note c = set_chain_ok [OF ok loc(3) I p hI s n, folded lh1_def]
      note r = resize_lh_ok [OF c(2), of malloc, folded lh'(3)]
      have "lh_retrieve ch cc lh' k = (if cc c d k = 0 then Some d else lh_retrieve ch cc lh k)" for k
        using retrieve_changed [OF ok conjunct1 [OF r], of d "{#?x#}" "Some ?x"] m r c(1) by simp
      then show ?thesis using r c(1) lh' ret None by simp
    qed
  qed
  then show "lh_ok ch cc h c lh'" "\<not> r \<Longrightarrow> old = None \<and> lh' = lh"
    "r \<Longrightarrow> old = lh_retrieve ch cc lh d \<and>
      lh_retrieve ch cc lh' k = (if cc c d k = 0 then Some d else lh_retrieve ch cc lh k)"
    "r \<Longrightarrow> size (items lh') = (if old = None then Suc (size (items lh)) else size (items lh))"
    by blast+
qed

lemma delete_ok:
  assumes ok: "lh_ok ch cc h c lh" and del: "lh_delete malloc ch cc lh d = (old, lh')"
  shows "lh_ok ch cc h c lh'" and "old = lh_retrieve ch cc lh d"
    and "lh_retrieve ch cc lh' k = (if cc c d k = 0 then None else lh_retrieve ch cc lh k)"
    and "size (items lh) = (if old = None then size (items lh') else Suc (size (items lh')))"
proof -
  obtain hv b p where g: "get_next_ptr_and_hash ch cc lh d = (hv, b, p)" by (metis prod_cases3)
  note loc = locate [OF ok g]
  let ?chain = "buckets lh ! b"
  have ret: "lh_retrieve ch cc lh d = map_option idata (deref lh (b, p))" by (simp add: lh_retrieve_def g)
  have goal: "lh_ok ch cc h c lh' \<and> old = lh_retrieve ch cc lh d \<and>
    (\<forall>k. lh_retrieve ch cc lh' k = (if cc c d k = 0 then None else lh_retrieve ch cc lh k)) \<and>
    size (items lh) = (if old = None then size (items lh') else Suc (size (items lh')))"
  proof (cases "deref lh (b, p)")
    case None
    then have e: "old = None" "lh' = lh" using del by (auto simp: lh_delete_def Let_def g)
    have "lh_retrieve ch cc lh k = None" if "cc c d k = 0" for k
      using loc(4) [OF None] eq_trans eq_sym that unfolding retrieve_matching(1) [OF ok] matching_empty by metis
    then show ?thesis using e ok ret None by simp
  next
    case (Some x)
    note x = loc(5) [OF Some]
    let ?c = "take p ?chain @ drop (Suc p) ?chain"
    define lh1 where "lh1 = set_chain b ?c lh\<lparr>num_items := num_items lh - 1\<rparr>"
    have lh': "old = Some (idata x)" "lh' = lh_maybe_resize malloc lh1"
      using del by (auto simp: lh_delete_def Let_def g Some lh1_def set_chain_def)
    let ?I = "items lh - {#x#}"
    have it: "items lh = add_mset x ?I" using x by simp
    have eq: "cc c (idata x) k = 0 \<longleftrightarrow> cc c d k = 0" for k using x eq_left by blast
    have sz: "size (matching (cc c) (items lh) k) \<le> 1" for k using ok unfolding lh_ok_def by blast
    have m: "matching (cc c) ?I k = (if cc c d k = 0 then {#} else matching (cc c) (items lh) k)" for k
    proof -
      have "matching (cc c) (items lh) k = (if cc c d k = 0 then add_mset x (matching (cc c) ?I k) else matching (cc c) ?I k)"
        by (subst it) (simp add: matching_add eq)
      then show ?thesis using sz [of k] by (simp split: if_splits)
    qed
    have "mset ?chain = add_mset x (mset ?c)" using x by (subst id_take_nth_drop [of p]) auto
    then have I: "mset ?c + items lh = ?I + mset ?chain" by (subst it) simp
    have p: "\<forall>y\<in>set ?c. bucket_of (num_buckets lh) (ihash y) = b"
      using ok loc(3) by (auto simp: lh_ok_def placed_def dest: in_set_takeD in_set_dropD)
    have hI: "\<forall>y\<in>#?I. ihash y = ch h (idata y)" using ok by (auto simp: lh_ok_def dest: in_diffD)
    have s: "\<forall>k. size (matching (cc c) ?I k) \<le> 1" using sz by (simp add: m)
    have "num_items lh = of_nat (size ?I) + 1" using ok it by (metis lh_ok_def of_nat_Suc size_add_mset add.commute)
    then have n: "num_items lh - 1 = of_nat (size ?I)" by simp
    note c = set_chain_ok [OF ok loc(3) I p hI s n, folded lh1_def]
    note r = resize_lh_ok [OF c(2), of malloc, folded lh'(2)]
    have "lh_retrieve ch cc lh' k = (if cc c d k = 0 then None else lh_retrieve ch cc lh k)" for k
      using retrieve_changed [OF ok conjunct1 [OF r], of d "{#}" None] m r c(1) by simp
    moreover have "size (items lh) = Suc (size (items lh'))" using r c(1) it by (metis size_add_mset)
    ultimately show ?thesis using r lh' ret Some by simp
  qed
  then show "lh_ok ch cc h c lh'" "old = lh_retrieve ch cc lh d"
    "lh_retrieve ch cc lh' k = (if cc c d k = 0 then None else lh_retrieve ch cc lh k)"
    "size (items lh) = (if old = None then size (items lh') else Suc (size (items lh')))"
    by blast+
qed

end

sublocale lhash_functions < table: object_table "lh_ok ch cc h c" "\<lambda>a b. cc c a b = 0" "lh_retrieve ch cc"
  "lh_insert malloc ch cc" "lh_delete malloc ch cc"
proof
  show "cc c a a = 0" for a by (rule eq_refl)
  show "cc c a b = 0 \<Longrightarrow> cc c b a = 0" for a b by (rule eq_sym)
  show "cc c a b = 0 \<Longrightarrow> cc c b d = 0 \<Longrightarrow> cc c a d = 0" for a b d by (rule eq_trans)
  fix t d r old t' k
  assume ok: "lh_ok ch cc h c t"
  show "lh_retrieve ch cc t k = Some d \<Longrightarrow> cc c d k = 0" by (rule retrieve_eq [OF ok])
  show "lh_insert malloc ch cc t d = (r, old, t') \<Longrightarrow> lh_ok ch cc h c t'" by (rule insert_ok(1) [OF ok])
  show "lh_insert malloc ch cc t d = (False, old, t') \<Longrightarrow> old = None \<and> t' = t" using insert_ok(2) [OF ok] by blast
  show "lh_insert malloc ch cc t d = (True, old, t') \<Longrightarrow> old = lh_retrieve ch cc t d \<and>
      lh_retrieve ch cc t' k = (if cc c d k = 0 then Some d else lh_retrieve ch cc t k)"
    by (rule insert_ok(3) [OF ok]) simp_all
  show "lh_delete malloc ch cc t d = (old, t') \<Longrightarrow> lh_ok ch cc h c t'" by (rule delete_ok(1) [OF ok])
  show "lh_delete malloc ch cc t d = (old, t') \<Longrightarrow> old = lh_retrieve ch cc t d \<and>
      lh_retrieve ch cc t' k = (if cc c d k = 0 then None else lh_retrieve ch cc t k)"
    using delete_ok(2,3) [OF ok] by blast
next
  fix t a b assume ok: "lh_ok ch cc h c t" and eq: "cc c a b = 0"
  have "matching (cc c) (items t) a = matching (cc c) (items t) b"
    unfolding matching_def using eq eq_sym eq_trans by (metis (mono_tags, lifting))
  then show "lh_retrieve ch cc t a = lh_retrieve ch cc t b"
    by (rule retrieve_determined [OF ok ok])
qed

section \<open>Properties\<close>

inductive lh_call ::
  "libc_malloc \<Rightarrow> ('a, 'h) lhash_hash_helper \<Rightarrow> ('a, 'c) lhash_cmp_helper \<Rightarrow> ('a, 'c, 'h) lhash \<Rightarrow> ('a, 'c, 'h) lhash \<Rightarrow> bool"
  for malloc ch cc
where
  insert: "lh_insert malloc ch cc lh d = (r, old, lh') \<Longrightarrow> lh_call malloc ch cc lh lh'"
| delete: "lh_delete malloc ch cc lh d = (old, lh') \<Longrightarrow> lh_call malloc ch cc lh lh'"
| doall: "lh_doall_arg malloc f (Some lh) (arg :: 'a list) = (Some lh', arg') \<Longrightarrow> lh_call malloc ch cc lh lh'"

lemma doall_resizes:
  "lh_doall_arg malloc f (Some lh) arg = (Some lh', arg') \<Longrightarrow> \<exists>n. lh' = lh_maybe_resize malloc (lh\<lparr>callback_depth := n\<rparr>)"
  by (intro exI [of _ "if callback_depth lh < 0xffffffff
        then (if callback_depth lh + 1 < 0xffffffff then callback_depth lh else callback_depth lh + 1) else callback_depth lh"])
    (auto simp: lh_doall_arg_def Let_def split: if_splits)

lemma doall_lh_ok:
  assumes "lh_ok ch cc h c lh" "lh_doall_arg malloc f (Some lh) arg = (Some lh', arg')"
  shows "lh_ok ch cc h c lh'" and "items lh' = items lh"
proof -
  obtain n where l: "lh' = lh_maybe_resize malloc (lh\<lparr>callback_depth := n\<rparr>)" using doall_resizes [OF assms(2)] by blast
  have i: "items (lh\<lparr>callback_depth := n\<rparr>) = items lh" by (simp add: items_def)
  have "lh_ok ch cc h c (lh\<lparr>callback_depth := n\<rparr>)" unfolding lh_ok_def i using assms(1) by (simp add: lh_ok_def)
  then show "lh_ok ch cc h c lh'" "items lh' = items lh" using resize_lh_ok [of ch cc h c "lh\<lparr>callback_depth := n\<rparr>" malloc] i by (simp_all add: l)
qed

lemma lh_reachable_ok:
  assumes f: "lhash_functions ch cc h c" and n: "lh_new malloc h c = Some lh0"
    and r: "(lh_call malloc ch cc)\<^sup>*\<^sup>* lh0 lh"
  shows "lh_ok ch cc h c lh"
  using r
proof (induction rule: rtranclp_induct)
  case base
  then show ?case by (rule lh_new_ok(1) [OF n])
next
  case (step lh1 lh2)
  from step(2,3) show ?case
    by (cases rule: lh_call.cases)
      (blast intro: lhash_functions.insert_ok(1) [OF f] lhash_functions.delete_ok(1) [OF f] doall_lh_ok(1))+
qed

lemma matching_nonempty_size:
  assumes "\<forall>k. size (matching cmp M k) \<le> 1" "\<forall>a. cmp a a = 0"
  shows "size M = card (idata ` set_mset M)"
  using assms(1)
proof (induction M)
  case (add x M)
  have m: "size (matching cmp M k) \<le> 1" "cmp (idata x) k = 0 \<Longrightarrow> matching cmp M k = {#}" for k
  proof -
    have "matching cmp (add_mset x M) k = (if cmp (idata x) k = 0 then add_mset x (matching cmp M k) else matching cmp M k)"
      by (simp add: matching_def)
    then show "size (matching cmp M k) \<le> 1" "cmp (idata x) k = 0 \<Longrightarrow> matching cmp M k = {#}"
      using add.prems [THEN spec, of k] by (simp_all split: if_splits)
  qed
  have "idata x \<notin> idata ` set_mset M"
    using m(2) [of "idata x"] assms(2) by (fastforce simp: matching_empty)
  then show ?case using add.IH m(1) by simp
qed simp

text \<open>
  C18: A hash table from \<^verbatim>\<open>lh_new\<close>, after any calls, with any resizing and any failed allocation on the way, is a
  finite map on the objects up to equality: an insertion sets the class of its object and returns what
  was there, or fails and changes nothing; a deletion clears it; iterating over it changes nothing, and
  \<^verbatim>\<open>lh_num_items\<close> counts the objects that can be retrieved.
\<close>

theorem lhash_refines_map:
  assumes "lhash_functions ch cc h c" "lh_new malloc h c = Some lh0" "(lh_call malloc ch cc)\<^sup>*\<^sup>* lh0 lh"
  shows "(case lh_insert malloc ch cc lh d of (r, old, lh') \<Rightarrow>
      if r then old = lh_retrieve ch cc lh d \<and>
        lh_retrieve ch cc lh' = (\<lambda>k. if cc c d k = 0 then Some d else lh_retrieve ch cc lh k)
      else old = None \<and> lh' = lh) \<and>
    (case lh_delete malloc ch cc lh d of (old, lh') \<Rightarrow>
      old = lh_retrieve ch cc lh d \<and>
        lh_retrieve ch cc lh' = (\<lambda>k. if cc c d k = 0 then None else lh_retrieve ch cc lh k)) \<and>
    (case lh_doall_arg malloc f (Some lh) (arg :: 's) of (lh', arg') \<Rightarrow>
      (\<exists>t. lh' = Some t \<and> lh_retrieve ch cc t = lh_retrieve ch cc lh)) \<and>
    lh_num_items lh = of_nat (card {d. \<exists>k. lh_retrieve ch cc lh k = Some d})"
proof -
  have ok: "lh_ok ch cc h c lh" by (rule lh_reachable_ok [OF assms])
  obtain r old lh' where i: "lh_insert malloc ch cc lh d = (r, old, lh')" by (metis prod_cases3)
  obtain old2 lh2 where dl: "lh_delete malloc ch cc lh d = (old2, lh2)" by fastforce
  obtain lh3 arg' where da: "lh_doall_arg malloc f (Some lh) arg = (Some lh3, arg')"
    by (simp add: lh_doall_arg_def Let_def)
  note R = lhash_functions.retrieve_matching [OF assms(1) ok]
  have "lh_retrieve ch cc lh3 k = lh_retrieve ch cc lh k" for k
    by (rule lhash_functions.retrieve_determined [OF assms(1) doall_lh_ok(1) [OF ok da] ok]) (simp add: doall_lh_ok(2) [OF ok da])
  moreover have "{d. \<exists>k. lh_retrieve ch cc lh k = Some d} = idata ` set_mset (items lh)"
    by (rule lhash_functions.retrieved_data [OF assms(1) ok])
  moreover have "num_items lh = of_nat (card (idata ` set_mset (items lh)))"
    using ok matching_nonempty_size [of "cc c" "items lh"] lhash_functions.eq_refl [OF assms(1)] by (simp add: lh_ok_def)
  ultimately show ?thesis
    using lhash_functions.insert_ok(2,3) [OF assms(1) ok i] lhash_functions.delete_ok(2,3) [OF assms(1) ok dl]
    unfolding i dl da lh_num_items_def by (auto simp: fun_eq_iff)
qed

end
