(* ===== verification/Cbs.thy ===== *)
theory Cbs
  imports Mem
begin

text \<open>
  \<^verbatim>\<open>crypto/bytestring/cbs.c\<close>: the byte-string parser. A \<^verbatim>\<open>CBS\<close> is a pointer and a length, that is, the
  bytes that are still to be read; every operation returns the advanced \<^verbatim>\<open>CBS\<close> also when it fails,
  because the code moves the pointer before some of its checks.
\<close>

type_synonym CBS = bytes

definition CBS_init :: "bytes \<Rightarrow> nat \<Rightarrow> CBS" where
  "CBS_init data len = take len data"

definition CBS_len :: "CBS \<Rightarrow> nat" where
  "CBS_len cbs = length cbs"

definition CBS_data :: "CBS \<Rightarrow> bytes" where
  "CBS_data cbs = cbs"

definition cbs_get :: "CBS \<Rightarrow> u64 \<Rightarrow> bytes option \<times> CBS" where
  "cbs_get cbs n =
     (if length cbs < unat n then (None, cbs)
      else (Some (take (unat n) cbs), drop (unat n) cbs))"

definition CBS_skip :: "CBS \<Rightarrow> u64 \<Rightarrow> unit option \<times> CBS" where
  "CBS_skip cbs len = (case cbs_get cbs len of (r, cbs') \<Rightarrow> (map_option (\<lambda>_. ()) r, cbs'))"

text \<open>The new \<^verbatim>\<open>*out_ptr\<close> (\<^verbatim>\<open>None\<close> for NULL) and \<^verbatim>\<open>*out_len\<close> after a return of 1.\<close>

definition CBS_stow :: "libc_malloc \<Rightarrow> CBS \<Rightarrow> (bytes option \<times> nat) option" where
  "CBS_stow malloc cbs =
     (if length cbs = 0 then Some (None, 0)
      else (case OPENSSL_memdup malloc cbs of
              None \<Rightarrow> None
            | Some p \<Rightarrow> Some (Some p, length cbs)))"

definition CBS_strdup :: "libc_malloc \<Rightarrow> CBS \<Rightarrow> bytes option" where
  "CBS_strdup malloc cbs = OPENSSL_strndup malloc cbs (of_nat (length cbs))"

definition CBS_contains_zero_byte :: "CBS \<Rightarrow> bool" where
  "CBS_contains_zero_byte cbs \<longleftrightarrow> 0 \<in> set cbs"

definition CBS_mem_equal :: "CBS \<Rightarrow> bytes \<Rightarrow> bool" where
  "CBS_mem_equal cbs data =
     (if length data \<noteq> length cbs then False
      else CRYPTO_memcmp cbs data (length data) = 0)"

definition cbs_get_u :: "CBS \<Rightarrow> u64 \<Rightarrow> u64 option \<times> CBS" where
  "cbs_get_u cbs len =
     (case cbs_get cbs len of
        (None, cbs') \<Rightarrow> (None, cbs')
      | (Some data, cbs') \<Rightarrow>
          (Some (foldl (\<lambda>result b. push_bit 8 result OR ucast b) 0 data), cbs'))"

definition CBS_get_u8 :: "CBS \<Rightarrow> u8 option \<times> CBS" where
  "CBS_get_u8 cbs =
     (case cbs_get cbs 1 of
        (None, cbs') \<Rightarrow> (None, cbs')
      | (Some v, cbs') \<Rightarrow> (Some (v ! 0), cbs'))"

definition CBS_get_u16 :: "CBS \<Rightarrow> u16 option \<times> CBS" where
  "CBS_get_u16 cbs = (case cbs_get_u cbs 2 of (v, cbs') \<Rightarrow> (map_option ucast v, cbs'))"

definition CBS_get_u16le :: "CBS \<Rightarrow> u16 option \<times> CBS" where
  "CBS_get_u16le cbs = (case CBS_get_u16 cbs of (v, cbs') \<Rightarrow> (map_option CRYPTO_bswap2 v, cbs'))"

definition CBS_get_u24 :: "CBS \<Rightarrow> u32 option \<times> CBS" where
  "CBS_get_u24 cbs = (case cbs_get_u cbs 3 of (v, cbs') \<Rightarrow> (map_option ucast v, cbs'))"

definition CBS_get_u32 :: "CBS \<Rightarrow> u32 option \<times> CBS" where
  "CBS_get_u32 cbs = (case cbs_get_u cbs 4 of (v, cbs') \<Rightarrow> (map_option ucast v, cbs'))"

definition CBS_get_u32le :: "CBS \<Rightarrow> u32 option \<times> CBS" where
  "CBS_get_u32le cbs = (case CBS_get_u32 cbs of (v, cbs') \<Rightarrow> (map_option CRYPTO_bswap4 v, cbs'))"

definition CBS_get_u64 :: "CBS \<Rightarrow> u64 option \<times> CBS" where
  "CBS_get_u64 cbs = cbs_get_u cbs 8"

definition CBS_get_u64le :: "CBS \<Rightarrow> u64 option \<times> CBS" where
  "CBS_get_u64le cbs = (case cbs_get_u cbs 8 of (v, cbs') \<Rightarrow> (map_option CRYPTO_bswap8 v, cbs'))"

definition CBS_get_last_u8 :: "CBS \<Rightarrow> u8 option \<times> CBS" where
  "CBS_get_last_u8 cbs =
     (if length cbs = 0 then (None, cbs)
      else (Some (cbs ! (length cbs - 1)), take (length cbs - 1) cbs))"

definition CBS_get_bytes :: "CBS \<Rightarrow> u64 \<Rightarrow> CBS option \<times> CBS" where
  "CBS_get_bytes cbs len = cbs_get cbs len"

definition CBS_copy_bytes :: "CBS \<Rightarrow> bytes \<Rightarrow> u64 \<Rightarrow> bytes option \<times> CBS" where
  "CBS_copy_bytes cbs out len =
     (case cbs_get cbs len of
        (None, cbs') \<Rightarrow> (None, cbs')
      | (Some v, cbs') \<Rightarrow> (Some (v @ drop (unat len) out), cbs'))"

definition cbs_get_length_prefixed :: "CBS \<Rightarrow> u64 \<Rightarrow> CBS option \<times> CBS" where
  "cbs_get_length_prefixed cbs len_len =
     (case cbs_get_u cbs len_len of
        (None, cbs') \<Rightarrow> (None, cbs')
      | (Some len, cbs') \<Rightarrow> CBS_get_bytes cbs' len)"

definition CBS_get_u8_length_prefixed :: "CBS \<Rightarrow> CBS option \<times> CBS" where
  "CBS_get_u8_length_prefixed cbs = cbs_get_length_prefixed cbs 1"

definition CBS_get_u16_length_prefixed :: "CBS \<Rightarrow> CBS option \<times> CBS" where
  "CBS_get_u16_length_prefixed cbs = cbs_get_length_prefixed cbs 2"

definition CBS_get_u24_length_prefixed :: "CBS \<Rightarrow> CBS option \<times> CBS" where
  "CBS_get_u24_length_prefixed cbs = cbs_get_length_prefixed cbs 3"

lemma CBS_get_u8_simps [simp]:
  "CBS_get_u8 [] = (None, [])"
  "CBS_get_u8 (b # cbs) = (Some b, cbs)"
  by (simp_all add: CBS_get_u8_def cbs_get_def)

lemma CBS_get_u8_Some: "CBS_get_u8 cbs = (Some b, cbs') \<longleftrightarrow> cbs = b # cbs'"
  by (cases cbs) auto

section \<open>ASN.1 elements\<close>

definition CBS_ASN1_TAG_SHIFT :: nat where "CBS_ASN1_TAG_SHIFT = 24"

definition CBS_ASN1_CONSTRUCTED :: u32 where
  "CBS_ASN1_CONSTRUCTED = push_bit CBS_ASN1_TAG_SHIFT 0x20"

definition CBS_ASN1_TAG_NUMBER_MASK :: u32 where
  "CBS_ASN1_TAG_NUMBER_MASK = push_bit (5 + CBS_ASN1_TAG_SHIFT) 1 - 1"

definition CBS_ASN1_BOOLEAN :: u32 where "CBS_ASN1_BOOLEAN = 0x1"
definition CBS_ASN1_INTEGER :: u32 where "CBS_ASN1_INTEGER = 0x2"
definition CBS_ASN1_BITSTRING :: u32 where "CBS_ASN1_BITSTRING = 0x3"
definition CBS_ASN1_OCTETSTRING :: u32 where "CBS_ASN1_OCTETSTRING = 0x4"

text \<open>The \<^verbatim>\<open>do \<dots> while\<close> of \<^verbatim>\<open>parse_base128_integer\<close>, from accumulator \<^verbatim>\<open>v\<close>.\<close>

function parse_base128_loop :: "u64 \<Rightarrow> CBS \<Rightarrow> u64 option \<times> CBS" where
  "parse_base128_loop v cbs =
     (case CBS_get_u8 cbs of
        (None, cbs') \<Rightarrow> (None, cbs')
      | (Some b, cbs') \<Rightarrow>
          if drop_bit (64 - 7) v \<noteq> 0 then (None, cbs')
          else if v = 0 \<and> b = 0x80 then (None, cbs')
          else let v' = push_bit 7 v OR ucast (b AND 0x7f) in
            if b AND 0x80 \<noteq> 0 then parse_base128_loop v' cbs' else (Some v', cbs'))"
  by pat_completeness auto
termination
  by (relation "measure (\<lambda>(v, cbs). length cbs)") (auto simp: CBS_get_u8_Some dest!: sym [of "(_, _)"])

declare parse_base128_loop.simps [simp del]

definition parse_base128_integer :: "CBS \<Rightarrow> u64 option \<times> CBS" where
  "parse_base128_integer cbs = parse_base128_loop 0 cbs"

definition parse_asn1_tag :: "CBS \<Rightarrow> u32 option \<times> CBS" where
  "parse_asn1_tag cbs =
     (case CBS_get_u8 cbs of
        (None, cbs') \<Rightarrow> (None, cbs')
      | (Some tag_byte, cbs') \<Rightarrow>
          let tag = push_bit CBS_ASN1_TAG_SHIFT (ucast tag_byte AND 0xe0 :: u32);
              tag_number = ucast (tag_byte AND 0x1f) :: u32 in
          if tag_number = 0x1f then
            (case parse_base128_integer cbs' of
               (None, cbs'') \<Rightarrow> (None, cbs'')
             | (Some v, cbs'') \<Rightarrow>
                 if v > ucast CBS_ASN1_TAG_NUMBER_MASK \<or> v < 0x1f then (None, cbs'')
                 else (Some (tag OR ucast v), cbs''))
          else (Some (tag OR tag_number), cbs'))"

text \<open>
  The element (header included), its tag and its header length. \<^verbatim>\<open>header\<close> is a copy of \<^verbatim>\<open>cbs\<close>, so
  \<^verbatim>\<open>cbs\<close> is only advanced by the \<^verbatim>\<open>CBS_get_bytes\<close> at the end.
\<close>

definition cbs_get_any_asn1_element :: "CBS \<Rightarrow> bool \<Rightarrow> (CBS \<times> u32 \<times> u64) option \<times> CBS" where
  "cbs_get_any_asn1_element cbs ber_ok =
     (case parse_asn1_tag cbs of
        (None, _) \<Rightarrow> (None, cbs)
      | (Some tag, header) \<Rightarrow>
     (case CBS_get_u8 header of
        (None, _) \<Rightarrow> (None, cbs)
      | (Some length_byte, header) \<Rightarrow>
          let header_len = of_nat (CBS_len cbs - CBS_len header) :: u64;
              get = (\<lambda>len hl. case CBS_get_bytes cbs len of
                       (None, cbs') \<Rightarrow> (None, cbs')
                     | (Some out, cbs') \<Rightarrow> (Some (out, tag, hl), cbs')) in
          if length_byte AND 0x80 = 0 then get (ucast length_byte + header_len) header_len
          else
            let num_bytes = ucast (length_byte AND 0x7f) :: u64 in
            if ber_ok \<and> tag AND CBS_ASN1_CONSTRUCTED \<noteq> 0 \<and> num_bytes = 0 then get header_len header_len
            else if num_bytes = 0 \<or> num_bytes > 4 then (None, cbs)
            else (case cbs_get_u header num_bytes of
                    (None, _) \<Rightarrow> (None, cbs)
                  | (Some len64, _) \<Rightarrow>
                      if len64 < 128 then (None, cbs)
                      else if drop_bit (unat ((num_bytes - 1) * 8)) len64 = 0 then (None, cbs)
                      else if len64 + header_len + num_bytes < len64 then (None, cbs)
                      else get (len64 + (header_len + num_bytes)) (header_len + num_bytes))))"

definition CBS_get_any_asn1_element :: "CBS \<Rightarrow> (CBS \<times> u32 \<times> u64) option \<times> CBS" where
  "CBS_get_any_asn1_element cbs = cbs_get_any_asn1_element cbs False"

definition CBS_get_any_ber_asn1_element :: "CBS \<Rightarrow> (CBS \<times> u32 \<times> u64) option \<times> CBS" where
  "CBS_get_any_ber_asn1_element cbs = cbs_get_any_asn1_element cbs True"

definition CBS_get_any_asn1 :: "CBS \<Rightarrow> (CBS \<times> u32) option \<times> CBS" where
  "CBS_get_any_asn1 cbs =
     (case CBS_get_any_asn1_element cbs of
        (None, cbs') \<Rightarrow> (None, cbs')
      | (Some (out, tag, header_len), cbs') \<Rightarrow>
          (case CBS_skip out header_len of
             (None, _) \<Rightarrow> (None, cbs')
           | (Some _, out') \<Rightarrow> (Some (out', tag), cbs')))"

definition cbs_get_asn1 :: "CBS \<Rightarrow> u32 \<Rightarrow> bool \<Rightarrow> CBS option \<times> CBS" where
  "cbs_get_asn1 cbs tag_value skip_header =
     (case CBS_get_any_asn1_element cbs of
        (None, cbs') \<Rightarrow> (None, cbs')
      | (Some (out, tag, header_len), cbs') \<Rightarrow>
          if tag \<noteq> tag_value then (None, cbs')
          else if skip_header then
            (case CBS_skip out header_len of
               (None, _) \<Rightarrow> (None, cbs')
             | (Some _, out') \<Rightarrow> (Some out', cbs'))
          else (Some out, cbs'))"

definition CBS_get_asn1 :: "CBS \<Rightarrow> u32 \<Rightarrow> CBS option \<times> CBS" where
  "CBS_get_asn1 cbs tag_value = cbs_get_asn1 cbs tag_value True"

definition CBS_get_asn1_element :: "CBS \<Rightarrow> u32 \<Rightarrow> CBS option \<times> CBS" where
  "CBS_get_asn1_element cbs tag_value = cbs_get_asn1 cbs tag_value False"

definition CBS_peek_asn1_tag :: "CBS \<Rightarrow> u32 \<Rightarrow> bool" where
  "CBS_peek_asn1_tag cbs tag_value =
     (if CBS_len cbs < 1 then False
      else (case parse_asn1_tag cbs of
              (None, _) \<Rightarrow> False
            | (Some actual_tag, _) \<Rightarrow> tag_value = actual_tag))"

text \<open>The loop that accumulates an INTEGER's contents, with its overflow check.\<close>

fun asn1_uint64_loop :: "u64 \<Rightarrow> bytes \<Rightarrow> u64 option" where
  "asn1_uint64_loop out [] = Some out"
| "asn1_uint64_loop out (b # data) =
     (if drop_bit 56 out \<noteq> 0 then None
      else asn1_uint64_loop (push_bit 8 out OR ucast b) data)"

definition CBS_get_asn1_uint64 :: "CBS \<Rightarrow> u64 option \<times> CBS" where
  "CBS_get_asn1_uint64 cbs =
     (case CBS_get_asn1 cbs CBS_ASN1_INTEGER of
        (None, cbs') \<Rightarrow> (None, cbs')
      | (Some data, cbs') \<Rightarrow>
          (if length data = 0 then None
           else if data ! 0 AND 0x80 \<noteq> 0 then None
           else if data ! 0 = 0 \<and> length data > 1 \<and> data ! 1 AND 0x80 = 0 then None
           else asn1_uint64_loop 0 data, cbs'))"

text \<open>
  An \<^verbatim>\<open>int64_t\<close> is its 64-bit pattern. The union is filled in little-endian order, which these
  targets are: byte \<^verbatim>\<open>i\<close> of the object has weight \<^verbatim>\<open>256 ^ i\<close>.
\<close>

definition int64_of_le :: "bytes \<Rightarrow> u64" where
  "int64_of_le bs = of_nat (be_val (rev bs))"

definition CBS_get_asn1_int64 :: "CBS \<Rightarrow> u64 option \<times> CBS" where
  "CBS_get_asn1_int64 cbs =
     (case CBS_get_asn1 cbs CBS_ASN1_INTEGER of
        (None, cbs') \<Rightarrow> (None, cbs')
      | (Some data, cbs') \<Rightarrow>
          let len = length data in
          (if len = 0 \<or> len > 8 then None
           else if len > 1 \<and> data ! 0 = 0 \<and> data ! 1 AND 0x80 = 0 then None
           else if len > 1 \<and> data ! 0 = 0xff \<and> data ! 1 AND 0x80 \<noteq> 0 then None
           else
             let is_negative = data ! 0 AND 0x80 \<noteq> 0;
                 u = replicate 8 (if is_negative then 0xff else 0);
                 u' = map (\<lambda>i. data ! (len - i - 1)) [0..<len] @ drop len u
             in Some (int64_of_le u'), cbs'))"

definition CBS_get_asn1_bool :: "CBS \<Rightarrow> bool option \<times> CBS" where
  "CBS_get_asn1_bool cbs =
     (case CBS_get_asn1 cbs CBS_ASN1_BOOLEAN of
        (None, cbs') \<Rightarrow> (None, cbs')
      | (Some bytes, cbs') \<Rightarrow>
          if CBS_len bytes \<noteq> 1 then (None, cbs')
          else let v = bytes ! 0 in
            if v \<noteq> 0 \<and> v \<noteq> 0xff then (None, cbs') else (Some (v \<noteq> 0), cbs'))"

text \<open>\<^verbatim>\<open>out\<close> is \<^verbatim>\<open>Some\<close> exactly when \<^verbatim>\<open>*out_present\<close> is set to 1.\<close>

definition CBS_get_optional_asn1 :: "CBS \<Rightarrow> u32 \<Rightarrow> CBS option option \<times> CBS" where
  "CBS_get_optional_asn1 cbs tag =
     (if CBS_peek_asn1_tag cbs tag then
        (case CBS_get_asn1 cbs tag of
           (None, cbs') \<Rightarrow> (None, cbs')
         | (Some out, cbs') \<Rightarrow> (Some (Some out), cbs'))
      else (Some None, cbs))"

definition CBS_get_optional_asn1_octet_string :: "CBS \<Rightarrow> u32 \<Rightarrow> (CBS \<times> bool) option \<times> CBS" where
  "CBS_get_optional_asn1_octet_string cbs tag =
     (case CBS_get_optional_asn1 cbs tag of
        (None, cbs') \<Rightarrow> (None, cbs')
      | (Some (Some child), cbs') \<Rightarrow>
          (case CBS_get_asn1 child CBS_ASN1_OCTETSTRING of
             (None, _) \<Rightarrow> (None, cbs')
           | (Some out, child') \<Rightarrow>
               if CBS_len child' \<noteq> 0 then (None, cbs') else (Some (out, True), cbs'))
      | (Some None, cbs') \<Rightarrow> (Some (CBS_init [] 0, False), cbs'))"

definition CBS_get_optional_asn1_uint64 :: "CBS \<Rightarrow> u32 \<Rightarrow> u64 \<Rightarrow> u64 option \<times> CBS" where
  "CBS_get_optional_asn1_uint64 cbs tag default_value =
     (case CBS_get_optional_asn1 cbs tag of
        (None, cbs') \<Rightarrow> (None, cbs')
      | (Some (Some child), cbs') \<Rightarrow>
          (case CBS_get_asn1_uint64 child of
             (None, _) \<Rightarrow> (None, cbs')
           | (Some out, child') \<Rightarrow>
               if CBS_len child' \<noteq> 0 then (None, cbs') else (Some out, cbs'))
      | (Some None, cbs') \<Rightarrow> (Some default_value, cbs'))"

text \<open>The result is the C \<^verbatim>\<open>int\<close> stored, the default being the caller's.\<close>

definition CBS_get_optional_asn1_bool :: "CBS \<Rightarrow> u32 \<Rightarrow> int \<Rightarrow> int option \<times> CBS" where
  "CBS_get_optional_asn1_bool cbs tag default_value =
     (case CBS_get_optional_asn1 cbs tag of
        (None, cbs') \<Rightarrow> (None, cbs')
      | (Some (Some child), cbs') \<Rightarrow>
          (case CBS_get_asn1 child CBS_ASN1_BOOLEAN of
             (None, _) \<Rightarrow> (None, cbs')
           | (Some child2, child') \<Rightarrow>
               if CBS_len child2 \<noteq> 1 \<or> CBS_len child' \<noteq> 0 then (None, cbs')
               else let boolean = child2 ! 0 in
                 if boolean = 0 then (Some 0, cbs')
                 else if boolean = 0xff then (Some 1, cbs')
                 else (None, cbs'))
      | (Some None, cbs') \<Rightarrow> (Some default_value, cbs'))"

definition CBS_is_valid_asn1_bitstring :: "CBS \<Rightarrow> bool" where
  "CBS_is_valid_asn1_bitstring cbs =
     (case CBS_get_u8 cbs of
        (None, _) \<Rightarrow> False
      | (Some num_unused_bits, in') \<Rightarrow>
          if num_unused_bits > 7 then False
          else if num_unused_bits = 0 then True
          else (case CBS_get_last_u8 in' of
                  (None, _) \<Rightarrow> False
                | (Some last_byte, _) \<Rightarrow>
                    last_byte AND (push_bit (unat num_unused_bits) 1 - 1) = 0))"

definition CBS_asn1_bitstring_has_bit :: "CBS \<Rightarrow> u32 \<Rightarrow> bool" where
  "CBS_asn1_bitstring_has_bit cbs bit_index =
     (if \<not> CBS_is_valid_asn1_bitstring cbs then False
      else
        let byte_num = drop_bit 3 bit_index + 1;
            bit_num = 7 - (bit_index AND 7) in
        unat byte_num < CBS_len cbs \<and> cbs ! unat byte_num AND push_bit (unat bit_num) 1 \<noteq> 0)"

end
