(* ===== verification/Pool.thy ===== *)
theory Pool
  imports Lhash Cbs
begin

text \<open>
  \<^verbatim>\<open>crypto/pool/pool.c\<close> and the reference counts of \<^verbatim>\<open>refcount_lock.c\<close> and \<^verbatim>\<open>refcount_c11.c\<close>: interned,
  reference-counted byte buffers. A \<^verbatim>\<open>CRYPTO_BUFFER *\<close> is its address with the fields that do not change
  after the buffer has been created (contents and pool pointer); the counts, which do change, are in
  the state. The code holds a pool's mutex around every access to its table, so each critical section
  is one step, and the steps of several threads interleave.
\<close>

record crypto_buffer =
  baddr :: nat
  bdata :: bytes
  bpool :: bool

record crypto_buffer_pool =
  bufs :: "(crypto_buffer, unit, unit) lhash"
  references :: "crypto_buffer \<Rightarrow> u32"
  live :: "crypto_buffer \<Rightarrow> bool"

section \<open>Reference counts\<close>

definition CRYPTO_REFCOUNT_MAX :: u32 where
  "CRYPTO_REFCOUNT_MAX = 0xffffffff"

definition CRYPTO_refcount_inc :: "u32 \<Rightarrow> u32" where
  "CRYPTO_refcount_inc n = (if n < CRYPTO_REFCOUNT_MAX then n + 1 else n)"

text \<open>\<^verbatim>\<open>None\<close> is \<^verbatim>\<open>abort\<close>.\<close>

definition CRYPTO_refcount_dec_and_test_zero :: "u32 \<Rightarrow> (bool \<times> u32) option" where
  "CRYPTO_refcount_dec_and_test_zero n =
     (if n = 0 then None
      else let n = (if n < CRYPTO_REFCOUNT_MAX then n - 1 else n) in Some (n = 0, n))"

text \<open>
  The compare-and-swap loops of \<^verbatim>\<open>refcount_c11.c\<close>. Each attempt \<^verbatim>\<open>(now, spurious)\<close> gives the value that the
  counter has when it is made and whether it fails although the value is the expected one, as a weak
  compare-and-swap may. \<^verbatim>\<open>None\<close> when the attempts run out first. The result has the value at the moment
  of the final attempt and the value written there, if any.
\<close>

fun c11_inc_loop :: "u32 \<Rightarrow> (u32 \<times> bool) list \<Rightarrow> (u32 \<times> u32) option option" where
  "c11_inc_loop expected attempts =
     (if expected \<noteq> CRYPTO_REFCOUNT_MAX then
        (case attempts of
           [] \<Rightarrow> None
         | (now, spurious) # rest \<Rightarrow>
             if now = expected \<and> \<not> spurious then Some (Some (now, expected + 1)) else c11_inc_loop now rest)
      else Some None)"

datatype c11_dec = Aborts | Saturated | Wrote u32 u32 bool

fun c11_dec_loop :: "u32 \<Rightarrow> (u32 \<times> bool) list \<Rightarrow> c11_dec option" where
  "c11_dec_loop expected attempts =
     (if expected = 0 then Some Aborts
      else if expected = CRYPTO_REFCOUNT_MAX then Some Saturated
      else
        let new_value = expected - 1 in
        (case attempts of
           [] \<Rightarrow> None
         | (now, spurious) # rest \<Rightarrow>
             if now = expected \<and> \<not> spurious then Some (Wrote now new_value (new_value = 0)) else c11_dec_loop now rest))"

declare c11_inc_loop.simps [simp del] c11_dec_loop.simps [simp del]

section \<open>The operations\<close>

definition OPENSSL_memcmp :: "bytes \<Rightarrow> bytes \<Rightarrow> nat \<Rightarrow> int" where
  "OPENSSL_memcmp s1 s2 n =
     (if n = 0 then 0
      else (case dropWhile (\<lambda>(a, b). a = b) (zip (take n s1) (take n s2)) of
              [] \<Rightarrow> 0
            | (a, b) # _ \<Rightarrow> uint a - uint b))"

definition CRYPTO_BUFFER_hash :: "unit \<Rightarrow> crypto_buffer \<Rightarrow> u32" where
  "CRYPTO_BUFFER_hash f buf = OPENSSL_hash32 (bdata buf)"

definition CRYPTO_BUFFER_cmp :: "unit \<Rightarrow> crypto_buffer \<Rightarrow> crypto_buffer \<Rightarrow> int" where
  "CRYPTO_BUFFER_cmp f a b =
     (if length (bdata a) \<noteq> length (bdata b) then 1 else OPENSSL_memcmp (bdata a) (bdata b) (length (bdata a)))"

definition sizeof_CRYPTO_BUFFER :: u64 where
  "sizeof_CRYPTO_BUFFER = 32"

definition sizeof_CRYPTO_BUFFER_POOL :: u64 where
  "sizeof_CRYPTO_BUFFER_POOL = 64"

definition CRYPTO_BUFFER_POOL_new :: "libc_malloc \<Rightarrow> crypto_buffer_pool option" where
  "CRYPTO_BUFFER_POOL_new malloc =
     (case OPENSSL_malloc malloc sizeof_CRYPTO_BUFFER_POOL of
        None \<Rightarrow> None
      | Some _ \<Rightarrow>
          (case lh_new malloc () () of
             None \<Rightarrow> None
           | Some lh \<Rightarrow> Some \<lparr>bufs = lh, references = (\<lambda>_. 0), live = (\<lambda>_. False)\<rparr>))"

definition up_ref :: "crypto_buffer \<Rightarrow> crypto_buffer_pool \<Rightarrow> crypto_buffer_pool" where
  "up_ref buf st = st\<lparr>references := (references st)(buf := CRYPTO_refcount_inc (references st buf))\<rparr>"

definition free_buffer :: "crypto_buffer \<Rightarrow> crypto_buffer_pool \<Rightarrow> crypto_buffer_pool" where
  "free_buffer buf st = st\<lparr>live := (live st)(buf := False)\<rparr>"

text \<open>\<^verbatim>\<open>CRYPTO_BUFFER_new\<close>: the section under the read lock, on the buffer \<^verbatim>\<open>tmp\<close> of the caller's stack.\<close>

definition new_lookup :: "bytes \<Rightarrow> crypto_buffer_pool \<Rightarrow> crypto_buffer option \<times> crypto_buffer_pool" where
  "new_lookup data st =
     (let tmp = \<lparr>baddr = 0, bdata = data, bpool = False\<rparr> in
      case lh_retrieve CRYPTO_BUFFER_hash CRYPTO_BUFFER_cmp (bufs st) tmp of
        None \<Rightarrow> (None, st)
      | Some duplicate \<Rightarrow> (Some duplicate, up_ref duplicate st))"

text \<open>Allocation of the new buffer, at the address that the allocator chose.\<close>

definition new_alloc :: "libc_malloc \<Rightarrow> nat \<Rightarrow> bytes \<Rightarrow> bool \<Rightarrow> crypto_buffer_pool \<Rightarrow> crypto_buffer option \<times> crypto_buffer_pool" where
  "new_alloc malloc addr data pool st =
     (case OPENSSL_malloc malloc sizeof_CRYPTO_BUFFER of
        None \<Rightarrow> (None, st)
      | Some _ \<Rightarrow>
          let d = OPENSSL_memdup malloc data in
          if length data \<noteq> 0 \<and> d = None then (None, st)
          else
            let buf = \<lparr>baddr = addr, bdata = (case d of None \<Rightarrow> [] | Some d \<Rightarrow> d), bpool = pool\<rparr>
            in (Some buf, st\<lparr>references := (references st)(buf := 1), live := (live st)(buf := True)\<rparr>))"

text \<open>The section under the write lock, and the release of the buffer when it was not inserted.\<close>

definition new_insert :: "libc_malloc \<Rightarrow> crypto_buffer \<Rightarrow> crypto_buffer_pool \<Rightarrow> crypto_buffer option \<times> crypto_buffer_pool" where
  "new_insert malloc buf st =
     (let duplicate = lh_retrieve CRYPTO_BUFFER_hash CRYPTO_BUFFER_cmp (bufs st) buf;
          (inserted, st1) =
            (case duplicate of
               None \<Rightarrow>
                 let (r, old, lh) = lh_insert malloc CRYPTO_BUFFER_hash CRYPTO_BUFFER_cmp (bufs st) buf
                 in (r, st\<lparr>bufs := lh\<rparr>)
             | Some dup \<Rightarrow> (False, up_ref dup st))
      in if \<not> inserted then (duplicate, free_buffer buf st1) else (Some buf, st1))"

definition CRYPTO_BUFFER_new ::
  "libc_malloc \<Rightarrow> nat \<Rightarrow> bytes \<Rightarrow> bool \<Rightarrow> crypto_buffer_pool \<Rightarrow> crypto_buffer option \<times> crypto_buffer_pool"
where
  "CRYPTO_BUFFER_new malloc addr data pool st =
     (let (duplicate, st1) = (if pool then new_lookup data st else (None, st)) in
      if duplicate \<noteq> None then (duplicate, st1)
      else
        (case new_alloc malloc addr data pool st1 of
           (None, st2) \<Rightarrow> (None, st2)
         | (Some buf, st2) \<Rightarrow> if \<not> pool then (Some buf, st2) else new_insert malloc buf st2))"

text \<open>\<^verbatim>\<open>CRYPTO_BUFFER_alloc\<close>: the contents are what the caller then writes to \<^verbatim>\<open>*out_data\<close>.\<close>

definition CRYPTO_BUFFER_alloc :: "libc_malloc \<Rightarrow> nat \<Rightarrow> (bytes \<Rightarrow> bytes) \<Rightarrow> u64 \<Rightarrow> crypto_buffer_pool \<Rightarrow> crypto_buffer option \<times> crypto_buffer_pool" where
  "CRYPTO_BUFFER_alloc malloc addr caller len st =
     (case OPENSSL_malloc malloc sizeof_CRYPTO_BUFFER of
        None \<Rightarrow> (None, st)
      | Some _ \<Rightarrow>
          (case OPENSSL_malloc malloc len of
             None \<Rightarrow>
               if len \<noteq> 0 then (None, st)
               else let buf = \<lparr>baddr = addr, bdata = [], bpool = False\<rparr>
                    in (Some buf, st\<lparr>references := (references st)(buf := 1), live := (live st)(buf := True)\<rparr>)
           | Some d \<Rightarrow>
               let buf = \<lparr>baddr = addr, bdata = caller d, bpool = False\<rparr>
               in (Some buf, st\<lparr>references := (references st)(buf := 1), live := (live st)(buf := True)\<rparr>)))"

definition CRYPTO_BUFFER_new_from_CBS ::
  "libc_malloc \<Rightarrow> nat \<Rightarrow> bytes \<Rightarrow> bool \<Rightarrow> crypto_buffer_pool \<Rightarrow> crypto_buffer option \<times> crypto_buffer_pool"
where
  "CRYPTO_BUFFER_new_from_CBS malloc addr cbs pool st = CRYPTO_BUFFER_new malloc addr (CBS_data cbs) pool st"

text \<open>\<^verbatim>\<open>None\<close> is an \<^verbatim>\<open>abort\<close> or a failed assertion.\<close>

definition CRYPTO_BUFFER_free :: "libc_malloc \<Rightarrow> crypto_buffer option \<Rightarrow> crypto_buffer_pool \<Rightarrow> crypto_buffer_pool option" where
  "CRYPTO_BUFFER_free malloc buf st =
     (case buf of
        None \<Rightarrow> Some st
      | Some buf \<Rightarrow>
          (case CRYPTO_refcount_dec_and_test_zero (references st buf) of
             None \<Rightarrow> None
           | Some (zero, n) \<Rightarrow>
               let st1 = st\<lparr>references := (references st)(buf := n)\<rparr> in
               if \<not> bpool buf then Some (if zero then free_buffer buf st1 else st1)
               else if \<not> zero then Some st1
               else
                 let (found, lh) = lh_delete malloc CRYPTO_BUFFER_hash CRYPTO_BUFFER_cmp (bufs st1) buf in
                 if found = Some buf then Some (free_buffer buf (st1\<lparr>bufs := lh\<rparr>)) else None))"

definition CRYPTO_BUFFER_up_ref :: "crypto_buffer \<Rightarrow> crypto_buffer_pool \<Rightarrow> bool \<times> crypto_buffer_pool" where
  "CRYPTO_BUFFER_up_ref buf st = (True, up_ref buf st)"

definition CRYPTO_BUFFER_data :: "crypto_buffer \<Rightarrow> bytes" where
  "CRYPTO_BUFFER_data buf = bdata buf"

definition CRYPTO_BUFFER_len :: "crypto_buffer \<Rightarrow> nat" where
  "CRYPTO_BUFFER_len buf = length (bdata buf)"

definition CRYPTO_BUFFER_init_CBS :: "crypto_buffer \<Rightarrow> bytes" where
  "CRYPTO_BUFFER_init_CBS buf = CBS_init (bdata buf) (CRYPTO_BUFFER_len buf)"

text \<open>\<^verbatim>\<open>CRYPTO_BUFFER_POOL_free\<close>: \<^verbatim>\<open>None\<close> when its assertion fails.\<close>

definition CRYPTO_BUFFER_POOL_free :: "crypto_buffer_pool option \<Rightarrow> unit option" where
  "CRYPTO_BUFFER_POOL_free pool =
     (case pool of None \<Rightarrow> Some () | Some st \<Rightarrow> if lh_num_items (bufs st) = 0 then Some () else None)"

section \<open>Comparison and hashing of buffers\<close>

lemma memcmp_eq_0: "length a = length b \<Longrightarrow> OPENSSL_memcmp a b (length a) = 0 \<longleftrightarrow> a = b"
proof -
  assume "length a = length b"
  then have "(case dropWhile (\<lambda>(a, b). a = b) (zip a b) of [] \<Rightarrow> 0 | (a, b) # _ \<Rightarrow> uint a - uint b) = 0 \<longleftrightarrow> a = b"
    by (induction a b rule: list_induct2) (auto simp: word_uint_eq_iff)
  then show "OPENSSL_memcmp a b (length a) = 0 \<longleftrightarrow> a = b" using \<open>length a = length b\<close> by (auto simp: OPENSSL_memcmp_def)
qed

lemma CRYPTO_BUFFER_cmp_eq_0: "CRYPTO_BUFFER_cmp f a b = 0 \<longleftrightarrow> bdata a = bdata b"
  using memcmp_eq_0 [of "bdata a" "bdata b"] by (auto simp: CRYPTO_BUFFER_cmp_def)

interpretation buffers: lhash_functions malloc CRYPTO_BUFFER_hash CRYPTO_BUFFER_cmp "()" "()" for malloc
  by unfold_locales (auto simp: CRYPTO_BUFFER_cmp_eq_0 CRYPTO_BUFFER_hash_def)

definition table_ok :: "crypto_buffer_pool \<Rightarrow> bool" where
  "table_ok st \<longleftrightarrow> lh_ok CRYPTO_BUFFER_hash CRYPTO_BUFFER_cmp () () (bufs st)"

definition held :: "crypto_buffer_pool \<Rightarrow> crypto_buffer \<Rightarrow> bool" where
  "held st b \<longleftrightarrow> lh_retrieve CRYPTO_BUFFER_hash CRYPTO_BUFFER_cmp (bufs st) b = Some b"

lemma held_interned: "table_ok st \<Longrightarrow> held st a \<Longrightarrow> held st b \<Longrightarrow> bdata a = bdata b \<Longrightarrow> a = b"
  unfolding table_ok_def held_def by (rule buffers.table.held_unique) (simp_all add: CRYPTO_BUFFER_cmp_eq_0)

section \<open>What each section does to the state\<close>

lemma new_lookup_result:
  assumes ok: "table_ok st" and l: "new_lookup data st = (r, st')"
  shows "case r of None \<Rightarrow> st' = st \<and> (\<forall>b. held st b \<longrightarrow> bdata b \<noteq> data)
    | Some b \<Rightarrow> st' = up_ref b st \<and> held st b \<and> bdata b = data"
proof -
  define tmp where "tmp = \<lparr>baddr = 0, bdata = data, bpool = False\<rparr>"
  have tmp: "bdata tmp = data" by (simp add: tmp_def)
  show ?thesis
  proof (cases "lh_retrieve CRYPTO_BUFFER_hash CRYPTO_BUFFER_cmp (bufs st) tmp")
    case None
    have "bdata b \<noteq> data" if "held st b" for b
      using buffers.table.retrieve_cong [OF ok [unfolded table_ok_def], of b tmp] that None tmp
      by (auto simp: held_def CRYPTO_BUFFER_cmp_eq_0)
    then show ?thesis using l None by (auto simp: new_lookup_def tmp_def [symmetric])
  next
    case (Some b)
    have "held st b" unfolding held_def by (rule buffers.table.retrieved_held [OF ok [unfolded table_ok_def] Some])
    moreover have "bdata b = data" using buffers.table.retrieve_sound [OF ok [unfolded table_ok_def] Some] tmp
      by (simp add: CRYPTO_BUFFER_cmp_eq_0)
    moreover have "r = Some b" "st' = up_ref b st" using l Some by (simp_all add: new_lookup_def tmp_def [symmetric])
    ultimately show ?thesis by simp
  qed
qed

lemma memdup_data:
  assumes "malloc_contract malloc" "OPENSSL_memdup malloc data = Some d"
  shows "d = data"
proof -
  obtain m where m: "OPENSSL_malloc malloc (of_nat (length data)) = Some m" and d: "d = data @ drop (length data) m"
    using assms(2) by (auto simp: OPENSSL_memdup_def split: if_splits option.splits)
  have "length m = unat (of_nat (length data) + 8 :: u64) - 8" by (rule OPENSSL_malloc_length [OF assms(1) m])
  moreover have "unat (of_nat (length data) + 8 :: u64) \<le> length data + 8"
    by (simp add: unat_word_ariths unsigned_of_nat take_bit_eq_mod)
  ultimately show ?thesis by (simp add: d)
qed

lemma new_alloc_result:
  assumes "malloc_contract malloc" "new_alloc malloc a data pool st = (r, st')"
  shows "case r of None \<Rightarrow> st' = st
    | Some b \<Rightarrow> b = \<lparr>baddr = a, bdata = data, bpool = pool\<rparr> \<and>
        st' = st\<lparr>references := (references st)(b := 1), live := (live st)(b := True)\<rparr>"
proof (cases "OPENSSL_memdup malloc data")
  case None
  then show ?thesis using assms(2) by (auto simp: new_alloc_def Let_def split: option.splits if_splits)
next
  case (Some d)
  then show ?thesis using assms(2) memdup_data [OF assms(1) Some] by (auto simp: new_alloc_def Let_def split: option.splits if_splits)
qed

lemma new_insert_result:
  assumes ok: "table_ok st" and n: "new_insert malloc b st = (r, st')"
  obtains (found) d where "held st d" "bdata d = bdata b" "r = Some d" "st' = free_buffer b (up_ref d st)"
  | (failed) "r = None" "st' = free_buffer b st"
  | (inserted) lh where "\<forall>x. held st x \<longrightarrow> bdata x \<noteq> bdata b" "r = Some b" "st' = st\<lparr>bufs := lh\<rparr>" "table_ok st'"
      "\<And>x. held st' x \<longleftrightarrow> held st x \<or> x = b"
proof (cases "lh_retrieve CRYPTO_BUFFER_hash CRYPTO_BUFFER_cmp (bufs st) b")
  case (Some d)
  have "held st d" unfolding held_def by (rule buffers.table.retrieved_held [OF ok [unfolded table_ok_def] Some])
  moreover have "bdata d = bdata b" using buffers.table.retrieve_sound [OF ok [unfolded table_ok_def] Some]
    by (simp add: CRYPTO_BUFFER_cmp_eq_0)
  ultimately show ?thesis using n Some by (intro found [of d]) (auto simp: new_insert_def Let_def)
next
  case None
  obtain i old lh where i: "lh_insert malloc CRYPTO_BUFFER_hash CRYPTO_BUFFER_cmp (bufs st) b = (i, old, lh)" by (metis prod_cases3)
  note k = buffers.table.insert_keeps [OF ok [unfolded table_ok_def] i]
    and h = buffers.table.held_insert [OF ok [unfolded table_ok_def] i None]
  show ?thesis
  proof (cases i)
    case True
    have "bdata x \<noteq> bdata b" if "held st x" for x
      using buffers.table.retrieve_cong [OF ok [unfolded table_ok_def], of x b] that None
      by (auto simp: held_def CRYPTO_BUFFER_cmp_eq_0)
    then show ?thesis using n None i True k h by (intro inserted [of lh]) (auto simp: new_insert_def table_ok_def held_def)
  next
    case False
    have "lh = bufs st" using buffers.table.insert_fails [OF ok [unfolded table_ok_def], of malloc b old lh] i False by simp
    then show ?thesis using n None i False by (intro failed) (auto simp: new_insert_def)
  qed
qed

lemma below_max: "n < CRYPTO_REFCOUNT_MAX \<longleftrightarrow> n \<noteq> CRYPTO_REFCOUNT_MAX"
proof -
  have "CRYPTO_REFCOUNT_MAX = - 1" by code_simp
  then show ?thesis by (metis word_order.not_eq_extremum)
qed

lemma free_result:
  assumes ok: "table_ok st" and nz: "references st b \<noteq> 0" and h: "bpool b \<Longrightarrow> held st b"
  obtains (kept) n where "n \<noteq> 0" "n = references st b - 1 \<and> references st b \<noteq> CRYPTO_REFCOUNT_MAX \<or>
      n = CRYPTO_REFCOUNT_MAX \<and> references st b = CRYPTO_REFCOUNT_MAX"
    "CRYPTO_BUFFER_free malloc (Some b) st = Some (st\<lparr>references := (references st)(b := n)\<rparr>)"
  | (plain) "references st b = 1" "\<not> bpool b"
    "CRYPTO_BUFFER_free malloc (Some b) st = Some (free_buffer b (st\<lparr>references := (references st)(b := 0)\<rparr>))"
  | (pooled) lh where "references st b = 1" "bpool b"
    "CRYPTO_BUFFER_free malloc (Some b) st = Some (free_buffer b (st\<lparr>references := (references st)(b := 0), bufs := lh\<rparr>))"
    "lh_ok CRYPTO_BUFFER_hash CRYPTO_BUFFER_cmp () () lh"
    "\<And>x. lh_retrieve CRYPTO_BUFFER_hash CRYPTO_BUFFER_cmp lh x = Some x \<longleftrightarrow> held st x \<and> x \<noteq> b"
proof -
  have one: "references st b - 1 = 0 \<longleftrightarrow> references st b = 1" by auto
  obtain z n where d: "CRYPTO_refcount_dec_and_test_zero (references st b) = Some (z, n)" "z \<longleftrightarrow> n = 0"
    "n = references st b - 1 \<and> references st b \<noteq> CRYPTO_REFCOUNT_MAX \<or> n = CRYPTO_REFCOUNT_MAX \<and> references st b = CRYPTO_REFCOUNT_MAX"
    using nz below_max by (auto simp: CRYPTO_refcount_dec_and_test_zero_def Let_def)
  have n0: "n = 0 \<longleftrightarrow> references st b = 1" using d(3) one by (auto simp: CRYPTO_REFCOUNT_MAX_def)
  show ?thesis
  proof (cases "n = 0")
    case False
    show ?thesis by (rule kept [OF False d(3)]) (use d False in \<open>simp add: CRYPTO_BUFFER_free_def Let_def\<close>)
  next
    case zero: True
    show ?thesis
    proof (cases "bpool b")
      case False
      show ?thesis by (rule plain) (use d zero n0 False in \<open>simp_all add: CRYPTO_BUFFER_free_def\<close>)
    next
      case True
      obtain f lh where del: "lh_delete malloc CRYPTO_BUFFER_hash CRYPTO_BUFFER_cmp (bufs st) b = (f, lh)" by fastforce
      note k = buffers.table.delete_keeps [OF ok [unfolded table_ok_def] del]
        and hd = buffers.table.held_delete [OF ok [unfolded table_ok_def] del h [OF True, unfolded held_def]]
      show ?thesis
        by (rule pooled [of lh]) (use d zero n0 True del hd k in \<open>simp_all add: CRYPTO_BUFFER_free_def Let_def held_def\<close>)
    qed
  qed
qed

section \<open>Threads\<close>

text \<open>
  A thread is between calls, or in \<^verbatim>\<open>CRYPTO_BUFFER_new\<close> after its lookup failed, or there with a new
  buffer that it has not inserted yet. \<^verbatim>\<open>handles\<close> are the references that clients hold, the ones that
  they must release.
\<close>

datatype pc = Idle | Missed bytes | Inserting crypto_buffer

record pool_run =
  pool_st :: crypto_buffer_pool
  handles :: "crypto_buffer multiset"
  pcs :: "nat \<Rightarrow> pc"

inductive pool_step :: "libc_malloc \<Rightarrow> pool_run \<Rightarrow> pool_run \<Rightarrow> bool" for malloc where
  hit: "pcs s t = Idle \<Longrightarrow> new_lookup data (pool_st s) = (Some b, st') \<Longrightarrow>
    pool_step malloc s (s\<lparr>pool_st := st', handles := add_mset b (handles s)\<rparr>)"
| miss: "pcs s t = Idle \<Longrightarrow> new_lookup data (pool_st s) = (None, st') \<Longrightarrow>
    pool_step malloc s (s\<lparr>pool_st := st', pcs := (pcs s)(t := Missed data)\<rparr>)"
| alloc_fail: "pcs s t = Missed data \<Longrightarrow> new_alloc malloc a data True (pool_st s) = (None, st') \<Longrightarrow>
    pool_step malloc s (s\<lparr>pool_st := st', pcs := (pcs s)(t := Idle)\<rparr>)"
| alloc: "pcs s t = Missed data \<Longrightarrow> \<forall>b. live (pool_st s) b \<longrightarrow> baddr b \<noteq> a \<Longrightarrow>
    new_alloc malloc a data True (pool_st s) = (Some b, st') \<Longrightarrow>
    pool_step malloc s (s\<lparr>pool_st := st', pcs := (pcs s)(t := Inserting b)\<rparr>)"
| insert_fail: "pcs s t = Inserting b \<Longrightarrow> new_insert malloc b (pool_st s) = (None, st') \<Longrightarrow>
    pool_step malloc s (s\<lparr>pool_st := st', pcs := (pcs s)(t := Idle)\<rparr>)"
| insert: "pcs s t = Inserting b \<Longrightarrow> new_insert malloc b (pool_st s) = (Some r, st') \<Longrightarrow>
    pool_step malloc s (s\<lparr>pool_st := st', pcs := (pcs s)(t := Idle), handles := add_mset r (handles s)\<rparr>)"
| plain: "pcs s t = Idle \<Longrightarrow> \<forall>b. live (pool_st s) b \<longrightarrow> baddr b \<noteq> a \<Longrightarrow>
    CRYPTO_BUFFER_new malloc a data False (pool_st s) = (Some b, st') \<Longrightarrow>
    pool_step malloc s (s\<lparr>pool_st := st', handles := add_mset b (handles s)\<rparr>)"
| up_ref: "b \<in># handles s \<Longrightarrow> CRYPTO_BUFFER_up_ref b (pool_st s) = (r, st') \<Longrightarrow>
    pool_step malloc s (s\<lparr>pool_st := st', handles := add_mset b (handles s)\<rparr>)"
| free: "b \<in># handles s \<Longrightarrow> CRYPTO_BUFFER_free malloc (Some b) (pool_st s) = Some st' \<Longrightarrow>
    pool_step malloc s (s\<lparr>pool_st := st', handles := handles s - {#b#}\<rparr>)"

text \<open>A buffer that has been handed out: allocated, and not in the hands of an inserting thread.\<close>

definition owned :: "pool_run \<Rightarrow> crypto_buffer \<Rightarrow> bool" where
  "owned s b \<longleftrightarrow> live (pool_st s) b \<and> (\<forall>t. pcs s t \<noteq> Inserting b)"

definition counted :: "u32 \<Rightarrow> nat \<Rightarrow> bool" where
  "counted n k \<longleftrightarrow> n \<noteq> 0 \<and> (n = CRYPTO_REFCOUNT_MAX \<or> unat n = k)"

definition pool_inv :: "pool_run \<Rightarrow> bool" where
  "pool_inv s \<longleftrightarrow> table_ok (pool_st s) \<and>
     (\<forall>a b. live (pool_st s) a \<and> live (pool_st s) b \<and> baddr a = baddr b \<longrightarrow> a = b) \<and>
     (\<forall>b. held (pool_st s) b \<longleftrightarrow> owned s b \<and> bpool b) \<and>
     (\<forall>b. owned s b \<longrightarrow> counted (references (pool_st s) b) (count (handles s) b)) \<and>
     (\<forall>b. b \<in># handles s \<longrightarrow> owned s b) \<and>
     (\<forall>t b. pcs s t = Inserting b \<longrightarrow> live (pool_st s) b \<and> bpool b \<and> references (pool_st s) b = 1 \<and>
        (\<forall>t'. pcs s t' = Inserting b \<longrightarrow> t' = t))"

lemma counted_inc: "counted n k \<Longrightarrow> counted (CRYPTO_refcount_inc n) (Suc k)"
proof -
  assume c: "counted n k"
  show "counted (CRYPTO_refcount_inc n) (Suc k)"
  proof (cases "n = CRYPTO_REFCOUNT_MAX")
    case True
    then show ?thesis using c by (simp add: counted_def CRYPTO_refcount_inc_def)
  next
    case False
    then have lt: "n < CRYPTO_REFCOUNT_MAX" by (simp add: below_max)
    then have s: "unat (n + 1) = Suc (unat n)" by (rule unat_Suc_less)
    then have "n + 1 \<noteq> 0" by (metis Zero_not_Suc unat_0)
    then show ?thesis using c False lt s by (simp add: counted_def CRYPTO_refcount_inc_def)
  qed
qed

lemma table_ok_simps [simp]:
  "table_ok (st\<lparr>references := f\<rparr>) = table_ok st" "table_ok (st\<lparr>live := g\<rparr>) = table_ok st"
  "held (st\<lparr>references := f\<rparr>) = held st" "held (st\<lparr>live := g\<rparr>) = held st"
  by (simp_all add: table_ok_def held_def fun_eq_iff)

lemma up_ref_simps [simp]: "table_ok (up_ref b st) = table_ok st" "held (up_ref b st) = held st" "live (up_ref b st) = live st"
  "references (up_ref b st) = (references st)(b := CRYPTO_refcount_inc (references st b))"
  by (simp_all add: up_ref_def)

lemma free_buffer_simps [simp]: "table_ok (free_buffer b st) = table_ok st" "held (free_buffer b st) = held st"
  "live (free_buffer b st) = (live st)(b := False)" "references (free_buffer b st) = references st"
  by (simp_all add: free_buffer_def)

lemma inv_up_ref:
  assumes "pool_inv s" "owned s b"
  shows "pool_inv (s\<lparr>pool_st := up_ref b (pool_st s), handles := add_mset b (handles s)\<rparr>)"
  using assms counted_inc by (auto simp: pool_inv_def owned_def)

text \<open>A thread that is not inserting changes its program counter.\<close>

lemma inv_pc:
  assumes "pool_inv s" "\<And>b. pcs s t \<noteq> Inserting b" "\<And>b. p \<noteq> Inserting b"
  shows "pool_inv (s\<lparr>pcs := (pcs s)(t := p)\<rparr>)"
proof -
  have i: "(pcs (s\<lparr>pcs := (pcs s)(t := p)\<rparr>) u = Inserting b) = (pcs s u = Inserting b)" for u b
    using assms(2,3) by auto
  then have "owned (s\<lparr>pcs := (pcs s)(t := p)\<rparr>) = owned s" by (auto simp: owned_def fun_eq_iff)
  then show ?thesis using assms(1) unfolding pool_inv_def i by simp
qed

lemma pool_invD:
  assumes "pool_inv s"
  shows "table_ok (pool_st s)" and "live (pool_st s) a \<Longrightarrow> live (pool_st s) b \<Longrightarrow> baddr a = baddr b \<Longrightarrow> a = b"
    and "held (pool_st s) b \<longleftrightarrow> owned s b \<and> bpool b"
    and "owned s b \<Longrightarrow> counted (references (pool_st s) b) (count (handles s) b)"
    and "b \<in># handles s \<Longrightarrow> owned s b"
    and "pcs s t = Inserting b \<Longrightarrow> live (pool_st s) b \<and> bpool b \<and> references (pool_st s) b = 1"
    and "pcs s t = Inserting b \<Longrightarrow> pcs s t' = Inserting b \<Longrightarrow> t' = t"
  using assms unfolding pool_inv_def by blast+

lemma pool_invI:
  assumes "table_ok (pool_st s)" and "\<And>a b. live (pool_st s) a \<Longrightarrow> live (pool_st s) b \<Longrightarrow> baddr a = baddr b \<Longrightarrow> a = b"
    and "\<And>b. held (pool_st s) b \<longleftrightarrow> owned s b \<and> bpool b"
    and "\<And>b. owned s b \<Longrightarrow> counted (references (pool_st s) b) (count (handles s) b)"
    and "\<And>b. b \<in># handles s \<Longrightarrow> owned s b"
    and "\<And>t b. pcs s t = Inserting b \<Longrightarrow> live (pool_st s) b \<and> bpool b \<and> references (pool_st s) b = 1"
    and "\<And>t t' b. pcs s t = Inserting b \<Longrightarrow> pcs s t' = Inserting b \<Longrightarrow> t' = t"
  shows "pool_inv s"
  unfolding pool_inv_def using assms by blast

lemma inv_alloc:
  assumes inv: "pool_inv s" and fresh: "\<forall>b. live (pool_st s) b \<longrightarrow> baddr b \<noteq> baddr b0" and p: "bpool b0" "\<And>b. pcs s t \<noteq> Inserting b"
  shows "pool_inv (s\<lparr>pool_st := (pool_st s)\<lparr>references := (references (pool_st s))(b0 := 1), live := (live (pool_st s))(b0 := True)\<rparr>,
    pcs := (pcs s)(t := Inserting b0)\<rparr>)" (is "pool_inv ?s")
proof -
  note D = pool_invD [OF inv]
  have nl: "\<not> live (pool_st s) b0" using fresh by blast
  then have n: "pcs s u \<noteq> Inserting b0" for u using D(6) by blast
  have I: "pcs ?s u = Inserting x \<longleftrightarrow> (u = t \<and> x = b0) \<or> pcs s u = Inserting x" for u x using p(2) by auto
  have L: "live (pool_st ?s) x \<longleftrightarrow> live (pool_st s) x \<or> x = b0" for x by simp
  have O: "owned ?s x \<longleftrightarrow> owned s x" for x using nl p(2) unfolding owned_def I L by blast
  have nO: "\<not> owned s b0" using nl by (simp add: owned_def)
  have R: "references (pool_st ?s) x = (if x = b0 then 1 else references (pool_st s) x)" for x by simp
  show ?thesis
  proof (rule pool_invI, unfold I L O R)
    show "table_ok (pool_st ?s)" "held (pool_st ?s) b \<longleftrightarrow> owned s b \<and> bpool b" for b using D(1,3) by simp_all
    show "a = b" if "live (pool_st s) a \<or> a = b0" "live (pool_st s) b \<or> b = b0" "baddr a = baddr b" for a b
      using D(2) fresh that by metis
    show "counted (if b = b0 then 1 else references (pool_st s) b) (count (handles ?s) b)" if "owned s b" for b
      using D(4) [OF that] nO that by auto
    show "owned s b" if "b \<in># handles ?s" for b using D(5) that by simp
    show "(live (pool_st s) b \<or> b = b0) \<and> bpool b \<and> (if b = b0 then 1 else references (pool_st s) b) = 1"
      if "u = t \<and> b = b0 \<or> pcs s u = Inserting b" for u b
      using D(6) p(1) n that by auto
    show "u' = u" if "u = t \<and> b = b0 \<or> pcs s u = Inserting b" "u' = t \<and> b = b0 \<or> pcs s u' = Inserting b" for u u' b
      using D(7) n that by blast
  qed
qed

lemma inv_plain:
  assumes inv: "pool_inv s" and fresh: "\<forall>b. live (pool_st s) b \<longrightarrow> baddr b \<noteq> baddr b0" and p: "\<not> bpool b0"
  shows "pool_inv (s\<lparr>pool_st := (pool_st s)\<lparr>references := (references (pool_st s))(b0 := 1), live := (live (pool_st s))(b0 := True)\<rparr>,
    handles := add_mset b0 (handles s)\<rparr>)" (is "pool_inv ?s")
proof -
  note D = pool_invD [OF inv]
  have nl: "\<not> live (pool_st s) b0" using fresh by blast
  then have n: "pcs s u \<noteq> Inserting b0" for u using D(6) by blast
  have I: "pcs ?s u = pcs s u" for u by simp
  have L: "live (pool_st ?s) x \<longleftrightarrow> live (pool_st s) x \<or> x = b0" for x by simp
  have O: "owned ?s x \<longleftrightarrow> owned s x \<or> x = b0" for x using n unfolding owned_def I L by blast
  have nO: "\<not> owned s b0" using nl by (simp add: owned_def)
  then have nH: "b0 \<notin># handles s" using D(5) by blast
  have R: "references (pool_st ?s) x = (if x = b0 then 1 else references (pool_st s) x)" for x by simp
  show ?thesis
  proof (rule pool_invI, unfold I L O R)
    show "table_ok (pool_st ?s)" "held (pool_st ?s) b \<longleftrightarrow> (owned s b \<or> b = b0) \<and> bpool b" for b
      using D(1,3) nO p by auto
    show "a = b" if "live (pool_st s) a \<or> a = b0" "live (pool_st s) b \<or> b = b0" "baddr a = baddr b" for a b
      using D(2) fresh that by metis
    show "counted (if b = b0 then 1 else references (pool_st s) b) (count (handles ?s) b)" if "owned s b \<or> b = b0" for b
      using D(4) that nH by (auto simp: counted_def not_in_iff)
    show "owned s b \<or> b = b0" if "b \<in># handles ?s" for b using D(5) that by auto
    show "(live (pool_st s) b \<or> b = b0) \<and> bpool b \<and> (if b = b0 then 1 else references (pool_st s) b) = 1"
      if "pcs s u = Inserting b" for u b
      using D(6) n that by auto
    show "u' = u" if "pcs s u = Inserting b" "pcs s u' = Inserting b" for u u' b using D(7) that by blast
  qed
qed

text \<open>An inserting thread gives up its buffer.\<close>

lemma inv_drop:
  assumes inv: "pool_inv s" and t: "pcs s t = Inserting b"
  shows "pool_inv (s\<lparr>pool_st := free_buffer b (pool_st s), pcs := (pcs s)(t := Idle)\<rparr>)" (is "pool_inv ?s")
proof -
  note D = pool_invD [OF inv]
  have I: "pcs ?s u = Inserting x \<longleftrightarrow> pcs s u = Inserting x \<and> x \<noteq> b" for u x
    by (cases "u = t") (use t in \<open>auto dest: D(7) [OF t]\<close>)
  have L: "live (pool_st ?s) x \<longleftrightarrow> live (pool_st s) x \<and> x \<noteq> b" for x by simp
  have O: "owned ?s x \<longleftrightarrow> owned s x" for x using t unfolding owned_def I L by blast
  show ?thesis
  proof (rule pool_invI, unfold I L O)
    show "table_ok (pool_st ?s)" "held (pool_st ?s) x \<longleftrightarrow> owned s x \<and> bpool x" for x using D(1,3) by simp_all
    show "counted (references (pool_st ?s) x) (count (handles ?s) x)" if "owned s x" for x using D(4) [OF that] by simp
    show "owned s x" if "x \<in># handles ?s" for x using D(5) that by simp
    show "(live (pool_st s) x \<and> x \<noteq> b) \<and> bpool x \<and> references (pool_st ?s) x = 1" if "pcs s u = Inserting x \<and> x \<noteq> b" for u x
      using D(6) [of u x] that by simp
    show "u' = u" if "pcs s u = Inserting x \<and> x \<noteq> b" "pcs s u' = Inserting x \<and> x \<noteq> b" for u u' x using D(7) that by blast
    show "x = y" if "live (pool_st s) x \<and> x \<noteq> b" "live (pool_st s) y \<and> y \<noteq> b" "baddr x = baddr y" for x y using D(2) that by blast
  qed
qed

lemma pool_inv_insert:
  assumes inv: "pool_inv s" and t: "pcs s t = Inserting b" and ok: "table_ok ((pool_st s)\<lparr>bufs := lh\<rparr>)"
    and h: "\<And>x. held ((pool_st s)\<lparr>bufs := lh\<rparr>) x \<longleftrightarrow> held (pool_st s) x \<or> x = b"
  shows "pool_inv (s\<lparr>pool_st := (pool_st s)\<lparr>bufs := lh\<rparr>, pcs := (pcs s)(t := Idle), handles := add_mset b (handles s)\<rparr>)"
    (is "pool_inv ?s")
proof -
  note D = pool_invD [OF inv]
  have I: "pcs ?s u = Inserting x \<longleftrightarrow> pcs s u = Inserting x \<and> x \<noteq> b" for u x
    by (cases "u = t") (use t in \<open>auto dest: D(7) [OF t]\<close>)
  have L: "live (pool_st ?s) x \<longleftrightarrow> live (pool_st s) x" for x by simp
  have O: "owned ?s x \<longleftrightarrow> owned s x \<or> x = b" for x using t D(6) [OF t] unfolding owned_def I L by blast
  have "\<not> owned s b" using t by (auto simp: owned_def)
  then have nb: "b \<notin># handles s" using D(5) by blast
  show ?thesis
  proof (rule pool_invI, unfold I L O)
    show "table_ok (pool_st ?s)" "held (pool_st ?s) x \<longleftrightarrow> (owned s x \<or> x = b) \<and> bpool x" for x
      using ok h D(3) D(6) [OF t] by auto
    show "counted (references (pool_st ?s) x) (count (handles ?s) x)" if "owned s x \<or> x = b" for x
      using D(4) [of x] D(6) [OF t] that nb by (auto simp: counted_def not_in_iff)
    show "owned s x \<or> x = b" if "x \<in># handles ?s" for x using D(5) that by auto
    show "live (pool_st s) x \<and> bpool x \<and> references (pool_st ?s) x = 1" if "pcs s u = Inserting x \<and> x \<noteq> b" for u x
      using D(6) [of u x] that by simp
    show "u' = u" if "pcs s u = Inserting x \<and> x \<noteq> b" "pcs s u' = Inserting x \<and> x \<noteq> b" for u u' x using D(7) that by blast
    show "x = y" if "live (pool_st s) x" "live (pool_st s) y" "baddr x = baddr y" for x y using D(2) that by blast
  qed
qed

lemma inv_dec:
  assumes inv: "pool_inv s" and h: "b \<in># handles s" and n: "n \<noteq> 0"
    "n = references (pool_st s) b - 1 \<and> references (pool_st s) b \<noteq> CRYPTO_REFCOUNT_MAX \<or>
      n = CRYPTO_REFCOUNT_MAX \<and> references (pool_st s) b = CRYPTO_REFCOUNT_MAX"
  shows "pool_inv (s\<lparr>pool_st := (pool_st s)\<lparr>references := (references (pool_st s))(b := n)\<rparr>, handles := handles s - {#b#}\<rparr>)"
    (is "pool_inv ?s")
proof -
  note D = pool_invD [OF inv]
  have ob: "owned s b" using D(5) [OF h] .
  have I: "pcs ?s u = pcs s u" for u by simp
  have L: "live (pool_st ?s) x \<longleftrightarrow> live (pool_st s) x" for x by simp
  have O: "owned ?s x \<longleftrightarrow> owned s x" for x by (simp add: owned_def)
  have "counted n (count (handles s) b - 1)"
    using D(4) [OF ob] n unfolding counted_def by (auto simp: unat_minus_one)
  then have c: "counted n (count (handles ?s) b)" by simp
  show ?thesis
  proof (rule pool_invI, unfold I L O)
    show "table_ok (pool_st ?s)" "held (pool_st ?s) x \<longleftrightarrow> owned s x \<and> bpool x" for x using D(1,3) by simp_all
    show "counted (references (pool_st ?s) x) (count (handles ?s) x)" if "owned s x" for x
      using D(4) [OF that] c by (cases "x = b") simp_all
    show "owned s x" if "x \<in># handles ?s" for x using D(5) [OF in_diffD [of x "handles s" "{#b#}"]] that by simp
    show "live (pool_st s) x \<and> bpool x \<and> references (pool_st ?s) x = 1" if "pcs s u = Inserting x" for u x
      using D(6) that ob by (auto simp: owned_def)
    show "u' = u" if "pcs s u = Inserting x" "pcs s u' = Inserting x" for u u' x using D(7) that by blast
    show "x = y" if "live (pool_st s) x" "live (pool_st s) y" "baddr x = baddr y" for x y using D(2) that by blast
  qed
qed

lemma inv_release:
  assumes inv: "pool_inv s" and h: "b \<in># handles s" and one: "references (pool_st s) b = 1"
    and ok: "table_ok st" and H: "\<And>x. held st x \<longleftrightarrow> held (pool_st s) x \<and> x \<noteq> b"
    and st: "live st = live (pool_st s)" "references st = (references (pool_st s))(b := 0)"
  shows "pool_inv (s\<lparr>pool_st := free_buffer b st, handles := handles s - {#b#}\<rparr>)" (is "pool_inv ?s")
proof -
  note D = pool_invD [OF inv]
  have ob: "owned s b" using D(5) [OF h] .
  have I: "pcs ?s u = pcs s u" for u by simp
  have L: "live (pool_st ?s) x \<longleftrightarrow> live (pool_st s) x \<and> x \<noteq> b" for x by (simp add: st)
  have O: "owned ?s x \<longleftrightarrow> owned s x \<and> x \<noteq> b" for x unfolding owned_def I L by blast
  have "1 \<noteq> CRYPTO_REFCOUNT_MAX" by (simp add: CRYPTO_REFCOUNT_MAX_def)
  then have "count (handles s) b = 1" using D(4) [OF ob] unfolding counted_def one by simp
  then have hb: "x \<in># handles ?s \<longleftrightarrow> x \<in># handles s \<and> x \<noteq> b" for x
    by (cases "x = b") (simp_all add: in_diff_count)
  show ?thesis
  proof (rule pool_invI, unfold I L O)
    show "table_ok (pool_st ?s)" "held (pool_st ?s) x \<longleftrightarrow> (owned s x \<and> x \<noteq> b) \<and> bpool x" for x using ok H D(3) by auto
    show "counted (references (pool_st ?s) x) (count (handles ?s) x)" if "owned s x \<and> x \<noteq> b" for x
      using D(4) [of x] that by (auto simp: st)
    show "owned s x \<and> x \<noteq> b" if "x \<in># handles ?s" for x using D(5) that unfolding hb by blast
    show "(live (pool_st s) x \<and> x \<noteq> b) \<and> bpool x \<and> references (pool_st ?s) x = 1" if "pcs s u = Inserting x" for u x
      using D(6) that ob by (auto simp: owned_def st)
    show "u' = u" if "pcs s u = Inserting x" "pcs s u' = Inserting x" for u u' x using D(7) that by blast
    show "x = y" if "live (pool_st s) x \<and> x \<noteq> b" "live (pool_st s) y \<and> y \<noteq> b" "baddr x = baddr y" for x y using D(2) that by blast
  qed
qed

lemma inv_free:
  assumes inv: "pool_inv s" and h: "b \<in># handles s"
  obtains st' where "CRYPTO_BUFFER_free malloc (Some b) (pool_st s) = Some st'"
    "pool_inv (s\<lparr>pool_st := st', handles := handles s - {#b#}\<rparr>)"
proof -
  note D = pool_invD [OF inv]
  have ob: "owned s b" using D(5) [OF h] .
  have nz: "references (pool_st s) b \<noteq> 0" using D(4) [OF ob] by (simp add: counted_def)
  have hb: "bpool b \<Longrightarrow> held (pool_st s) b" using D(3) ob by simp
  show ?thesis
  proof (rule free_result [OF D(1) nz hb, of malloc])
    fix n assume n: "n \<noteq> 0" "n = references (pool_st s) b - 1 \<and> references (pool_st s) b \<noteq> CRYPTO_REFCOUNT_MAX \<or>
      n = CRYPTO_REFCOUNT_MAX \<and> references (pool_st s) b = CRYPTO_REFCOUNT_MAX"
      and f: "CRYPTO_BUFFER_free malloc (Some b) (pool_st s) = Some ((pool_st s)\<lparr>references := (references (pool_st s))(b := n)\<rparr>)"
    show ?thesis by (rule that [OF f inv_dec [OF inv h n]])
  next
    assume one: "references (pool_st s) b = 1" and np: "\<not> bpool b"
      and f: "CRYPTO_BUFFER_free malloc (Some b) (pool_st s) =
        Some (free_buffer b ((pool_st s)\<lparr>references := (references (pool_st s))(b := 0)\<rparr>))"
    show ?thesis by (rule that [OF f inv_release [OF inv h one]]) (use D(1,3) np in auto)
  next
    fix lh assume one: "references (pool_st s) b = 1" and ok: "lh_ok CRYPTO_BUFFER_hash CRYPTO_BUFFER_cmp () () lh"
      and H: "\<And>x. lh_retrieve CRYPTO_BUFFER_hash CRYPTO_BUFFER_cmp lh x = Some x \<longleftrightarrow> held (pool_st s) x \<and> x \<noteq> b"
      and f: "CRYPTO_BUFFER_free malloc (Some b) (pool_st s) =
        Some (free_buffer b ((pool_st s)\<lparr>references := (references (pool_st s))(b := 0), bufs := lh\<rparr>))"
    have "table_ok ((pool_st s)\<lparr>references := (references (pool_st s))(b := 0), bufs := lh\<rparr>)" using ok by (simp add: table_ok_def)
    moreover have "held ((pool_st s)\<lparr>references := (references (pool_st s))(b := 0), bufs := lh\<rparr>) x \<longleftrightarrow> held (pool_st s) x \<and> x \<noteq> b" for x
      using H by (simp add: held_def)
    ultimately show ?thesis by (intro that [OF f inv_release [OF inv h one]]) simp_all
  qed
qed

lemma pool_step_inv:
  assumes malloc: "malloc_contract malloc" and step: "pool_step malloc s s'" and inv: "pool_inv s"
  shows "pool_inv s'"
  using step
proof cases
  case (hit t data b st')
  then have "st' = up_ref b (pool_st s)" "held (pool_st s) b" using new_lookup_result [OF pool_invD(1) [OF inv] hit(3)] by simp_all
  then show ?thesis using inv_up_ref [OF inv] pool_invD(3) [OF inv] hit by simp
next
  case (miss t data st')
  then have "st' = pool_st s" using new_lookup_result [OF pool_invD(1) [OF inv] miss(3)] by simp
  then show ?thesis using inv_pc [OF inv, of t "Missed data"] miss by simp
next
  case (alloc_fail t data a st')
  then have "st' = pool_st s" using new_alloc_result [OF malloc alloc_fail(3)] by simp
  then show ?thesis using inv_pc [OF inv, of t Idle] alloc_fail by simp
next
  case (alloc t data a b st')
  note r = new_alloc_result [OF malloc alloc(4), unfolded option.case]
  show ?thesis using inv_alloc [OF inv, of b t] r alloc by simp
next
  case (insert_fail t b st')
  show ?thesis
  proof (rule new_insert_result [OF pool_invD(1) [OF inv] insert_fail(3)])
    assume "st' = free_buffer b (pool_st s)"
    then show ?thesis using inv_drop [OF inv insert_fail(2)] insert_fail(1) by simp
  qed simp_all
next
  case (insert t b r st')
  show ?thesis
  proof (rule new_insert_result [OF pool_invD(1) [OF inv] insert(3)])
    fix d assume d: "held (pool_st s) d" "Some r = Some d" "st' = free_buffer b (up_ref d (pool_st s))"
    have "pool_inv (s\<lparr>pool_st := up_ref d (pool_st s), handles := add_mset d (handles s)\<rparr>)"
      by (rule inv_up_ref [OF inv]) (use pool_invD(3) [OF inv] d in simp)
    from inv_drop [OF this, of t b] show ?thesis using insert d by (cases s) simp
  next
    fix lh assume "Some r = Some b" "st' = (pool_st s)\<lparr>bufs := lh\<rparr>" "table_ok st'" "\<And>x. held st' x \<longleftrightarrow> held (pool_st s) x \<or> x = b"
    then show ?thesis using pool_inv_insert [OF inv insert(2), of lh] insert(1) by simp
  qed simp
next
  case (plain t a data b st')
  have "new_alloc malloc a data False (pool_st s) = (Some b, st')"
    using plain(4) by (auto simp: CRYPTO_BUFFER_new_def Let_def split: prod.splits option.splits)
  note r = new_alloc_result [OF malloc this, unfolded option.case]
  show ?thesis using inv_plain [OF inv, of b] r plain by simp
next
  case (up_ref b r st')
  then show ?thesis using inv_up_ref [OF inv pool_invD(5) [OF inv up_ref(2)]] by (simp add: CRYPTO_BUFFER_up_ref_def)
next
  case (free b st')
  show ?thesis by (rule inv_free [OF inv free(2), of malloc]) (use free in simp)
qed

lemma pool_reachable_inv:
  assumes "malloc_contract malloc" "CRYPTO_BUFFER_POOL_new malloc = Some st"
    "(pool_step malloc)\<^sup>*\<^sup>* \<lparr>pool_st = st, handles = {#}, pcs = (\<lambda>_. Idle)\<rparr> s"
  shows "pool_inv s"
  using assms(3)
proof (induction rule: rtranclp_induct)
  case base
  obtain lh where lh: "lh_new malloc () () = Some lh" "st = \<lparr>bufs = lh, references = (\<lambda>_. 0), live = (\<lambda>_. False)\<rparr>"
    using assms(2) by (auto simp: CRYPTO_BUFFER_POOL_new_def split: option.splits)
  have ok: "lh_ok CRYPTO_BUFFER_hash CRYPTO_BUFFER_cmp () () lh" by (rule lh_new_ok(1) [OF lh(1)])
  have "lh_retrieve CRYPTO_BUFFER_hash CRYPTO_BUFFER_cmp lh x = None" for x
    unfolding buffers.retrieve_matching(1) [OF ok] by (simp add: matching_def lh_new_ok(2) [OF lh(1)])
  then show ?case using ok by (intro pool_invI) (simp_all add: lh(2) table_ok_def held_def owned_def)
qed (rule pool_step_inv [OF assms(1)])

section \<open>Properties\<close>

text \<open>Two threads that both miss, both allocate, and insert one after the other.\<close>

definition racer :: "nat \<Rightarrow> crypto_buffer" where
  "racer a = \<lparr>baddr = a, bdata = [7], bpool = True\<rparr>"

definition race_table :: "crypto_buffer list \<Rightarrow> (crypto_buffer, unit, unit) lhash" where
  "race_table bs =
     \<lparr>num_items = of_nat (length bs),
      buckets = (replicate 16 [])[bucket_of 16 (CRYPTO_BUFFER_hash () (racer 0)) := map (\<lambda>b. \<lparr>idata = b, ihash = CRYPTO_BUFFER_hash () b\<rparr>) bs],
      num_buckets = 16, callback_depth = 0, lcomp = (), lhash_fn = ()\<rparr>"

definition race_st :: "crypto_buffer list \<Rightarrow> (crypto_buffer \<Rightarrow> u32) \<Rightarrow> (crypto_buffer \<Rightarrow> bool) \<Rightarrow> crypto_buffer_pool" where
  "race_st bs r l = \<lparr>bufs = race_table bs, references = r, live = l\<rparr>"

lemma race_eval:
  "lh_new example_malloc () () = Some (race_table [])"
  "lh_retrieve CRYPTO_BUFFER_hash CRYPTO_BUFFER_cmp (race_table []) \<lparr>baddr = 0, bdata = [7], bpool = False\<rparr> = None"
  "lh_retrieve CRYPTO_BUFFER_hash CRYPTO_BUFFER_cmp (race_table []) (racer 2) = None"
  "lh_retrieve CRYPTO_BUFFER_hash CRYPTO_BUFFER_cmp (race_table [racer 2]) (racer 3) = Some (racer 2)"
  "lh_insert example_malloc CRYPTO_BUFFER_hash CRYPTO_BUFFER_cmp (race_table []) (racer 2) = (True, None, race_table [racer 2])"
  "OPENSSL_malloc example_malloc sizeof_CRYPTO_BUFFER_POOL \<noteq> None" "OPENSSL_malloc example_malloc sizeof_CRYPTO_BUFFER \<noteq> None"
  "OPENSSL_memdup example_malloc [7] = Some [7]"
  by code_simp+

definition race_run :: "(crypto_buffer \<Rightarrow> u32) \<Rightarrow> pool_run" where
  "race_run r = \<lparr>pool_st = race_st [racer 2] r ((\<lambda>_. False)(racer 2 := True)),
    handles = {#racer 2, racer 2#}, pcs = (\<lambda>_. Idle)\<rparr>"

lemma race_reachable:
  "\<exists>st r. CRYPTO_BUFFER_POOL_new example_malloc = Some st \<and> r (racer 2) = 2 \<and>
     (pool_step example_malloc)\<^sup>*\<^sup>* \<lparr>pool_st = st, handles = {#}, pcs = (\<lambda>_. Idle)\<rparr> (race_run r)"
proof -
  let ?step = "pool_step example_malloc"
  let ?r0 = "\<lambda>_ :: crypto_buffer. 0 :: u32" and ?l0 = "\<lambda>_ :: crypto_buffer. False" and ?p0 = "\<lambda>_ :: nat. Idle"
  let ?r1 = "?r0(racer 3 := 1)" and ?l1 = "?l0(racer 3 := True)"
  let ?r2 = "?r1(racer 2 := 1)" and ?l2 = "?l1(racer 2 := True)"
  let ?s1 = "\<lparr>pool_st = race_st [] ?r0 ?l0, handles = {#}, pcs = ?p0(5 := Missed [7])\<rparr>"
  let ?s2 = "\<lparr>pool_st = race_st [] ?r0 ?l0, handles = {#}, pcs = ?p0(5 := Missed [7], 2 := Missed [7])\<rparr>"
  let ?s3 = "\<lparr>pool_st = race_st [] ?r1 ?l1, handles = {#}, pcs = ?p0(5 := Inserting (racer 3), 2 := Missed [7])\<rparr>"
  let ?s4 = "\<lparr>pool_st = race_st [] ?r2 ?l2, handles = {#}, pcs = ?p0(5 := Inserting (racer 3), 2 := Inserting (racer 2))\<rparr>"
  let ?s5 = "\<lparr>pool_st = race_st [racer 2] ?r2 ?l2, handles = {#racer 2#}, pcs = ?p0(5 := Inserting (racer 3))\<rparr>"
  have neq: "racer 3 \<noteq> racer 2" by (simp add: racer_def)
  note calls = new_lookup_def new_alloc_def new_insert_def race_st_def Let_def race_eval racer_def [symmetric]
  have new: "CRYPTO_BUFFER_POOL_new example_malloc = Some (race_st [] ?r0 ?l0)"
    using race_eval(6) by (auto simp: CRYPTO_BUFFER_POOL_new_def race_eval(1) race_st_def)
  have miss: "new_lookup [7] (race_st [] ?r0 ?l0) = (None, race_st [] ?r0 ?l0)" by (simp add: calls)
  have al: "new_alloc example_malloc a [7] True (race_st bs r l) = (Some (racer a), race_st bs (r(racer a := 1)) (l(racer a := True)))" for a bs r l
  proof -
    obtain m where "OPENSSL_malloc example_malloc sizeof_CRYPTO_BUFFER = Some m" using race_eval(7) by blast
    then show ?thesis by (simp add: new_alloc_def race_st_def Let_def race_eval(8) racer_def)
  qed
  have i2: "new_insert example_malloc (racer 2) (race_st [] r l) = (Some (racer 2), race_st [racer 2] r l)" for r l
    by (simp add: calls)
  have i1: "new_insert example_malloc (racer 3) (race_st [racer 2] r l) =
      (Some (racer 2), race_st [racer 2] (r(racer 2 := CRYPTO_refcount_inc (r (racer 2)))) (l(racer 3 := False)))" for r l
    by (simp add: calls up_ref_def free_buffer_def)
  have 1: "?step \<lparr>pool_st = race_st [] ?r0 ?l0, handles = {#}, pcs = ?p0\<rparr>
      ?s1" 
    using pool_step.miss [of "\<lparr>pool_st = race_st [] ?r0 ?l0, handles = {#}, pcs = ?p0\<rparr>" 5 "[7]"] miss by simp
  have 2: "?step ?s1 ?s2" 
    using pool_step.miss [of ?s1 2 "[7]"] miss by simp
  have 3: "?step ?s2 ?s3" 
    using pool_step.alloc [of ?s2 5 "[7]" 3] al by (simp add: race_st_def fun_upd_twist)
  have 4: "?step ?s3 ?s4" 
    using pool_step.alloc [of ?s3 2 "[7]" 2] al by (auto simp: race_st_def racer_def)
  have 5: "?step ?s4 ?s5" 
    using pool_step.insert [of ?s4 2 "racer 2"] i2 by (simp add: fun_upd_idem)
  have 6: "?step ?s5 (race_run (?r2(racer 2 := 2)))"
    using pool_step.insert [of ?s5 5 "racer 3"] i1 [of ?r2 ?l2] neq
    by (simp add: race_run_def CRYPTO_refcount_inc_def CRYPTO_REFCOUNT_MAX_def fun_upd_idem fun_upd_twist)
  note T = converse_rtranclp_into_rtranclp [where r = ?step]
  have "?step\<^sup>*\<^sup>* \<lparr>pool_st = race_st [] ?r0 ?l0, handles = {#}, pcs = ?p0\<rparr> (race_run (?r2(racer 2 := 2)))"
    by (rule T [OF 1 T [OF 2 T [OF 3 T [OF 4 T [OF 5 r_into_rtranclp [where r = ?step, OF 6]]]]]])
  then show ?thesis using new by (intro exI [of _ "race_st [] ?r0 ?l0"] exI [of _ "?r2(racer 2 := 2)"]) simp
qed

text \<open>
  C19: However the critical sections of any number of threads interleave, whatever allocations fail and
  whether or not a count saturates: a reference that a client holds is to a buffer that has not been
  freed, and releasing it neither aborts nor fails an assertion; two references into the pool with
  equal contents are the same pointer; a looked-up buffer has the contents that were asked for; and
  when no thread is in a call, every buffer that is not freed is still referenced or its count has
  saturated.
\<close>

theorem pool_references_safe:
  assumes "malloc_contract malloc" "CRYPTO_BUFFER_POOL_new malloc = Some st"
    "(pool_step malloc)\<^sup>*\<^sup>* \<lparr>pool_st = st, handles = {#}, pcs = (\<lambda>_. Idle)\<rparr> s"
  shows "(\<forall>b\<in>#handles s. live (pool_st s) b \<and> CRYPTO_BUFFER_free malloc (Some b) (pool_st s) \<noteq> None) \<and>
    (\<forall>a\<in>#handles s. \<forall>b\<in>#handles s. bpool a \<and> bpool b \<and> bdata a = bdata b \<longrightarrow> a = b) \<and>
    (\<forall>data b st'. new_lookup data (pool_st s) = (Some b, st') \<longrightarrow> bdata b = data \<and> live st' b) \<and>
    ((\<forall>t. pcs s t = Idle) \<longrightarrow>
      (\<forall>b. live (pool_st s) b \<longrightarrow> b \<in># handles s \<or> references (pool_st s) b = CRYPTO_REFCOUNT_MAX))"
proof -
  have inv: "pool_inv s" by (rule pool_reachable_inv [OF assms])
  note D = pool_invD [OF inv]
  have "CRYPTO_BUFFER_free malloc (Some b) (pool_st s) \<noteq> None" if "b \<in># handles s" for b
    by (rule inv_free [OF inv that, of malloc]) simp
  moreover have "live (pool_st s) b" if "b \<in># handles s" for b using D(5) [OF that] by (simp add: owned_def)
  moreover have "a = b" if "a \<in># handles s" "b \<in># handles s" "bpool a" "bpool b" "bdata a = bdata b" for a b
    by (rule held_interned [OF D(1) _ _ that(5)]) (use D(3,5) that in auto)
  moreover have "bdata b = data \<and> live st' b" if "new_lookup data (pool_st s) = (Some b, st')" for data b st'
    using new_lookup_result [OF D(1) that] D(3) by (auto simp: owned_def)
  moreover have "b \<in># handles s \<or> references (pool_st s) b = CRYPTO_REFCOUNT_MAX"
    if "\<forall>t. pcs s t = Idle" "live (pool_st s) b" for b
  proof -
    have "owned s b" using that by (simp add: owned_def)
    then have "counted (references (pool_st s) b) (count (handles s) b)" by (rule D(4))
    then show ?thesis by (metis count_eq_zero_iff counted_def unat_0 word_unat_eq_iff)
  qed
  ultimately show ?thesis by blast
qed

theorem pool_references_safe_witness:
  "\<exists>r. live (pool_st (race_run r)) (racer 2) \<and> CRYPTO_BUFFER_free example_malloc (Some (racer 2)) (pool_st (race_run r)) \<noteq> None"
proof -
  obtain st r where s: "CRYPTO_BUFFER_POOL_new example_malloc = Some st"
    "(pool_step example_malloc)\<^sup>*\<^sup>* \<lparr>pool_st = st, handles = {#}, pcs = (\<lambda>_. Idle)\<rparr> (race_run r)"
    using race_reachable by blast
  have "racer 2 \<in># handles (race_run r)" by (simp add: race_run_def)
  then show ?thesis using pool_references_safe [OF example_malloc_contract s] by blast
qed

text \<open>The table of the race, for the map property of hash tables.\<close>

theorem lhash_refines_map_witness:
  "fst (lh_delete example_malloc CRYPTO_BUFFER_hash CRYPTO_BUFFER_cmp (race_table [racer 2]) (racer 3)) = Some (racer 2)"
proof -
  have s: "(lh_call example_malloc CRYPTO_BUFFER_hash CRYPTO_BUFFER_cmp)\<^sup>*\<^sup>* (race_table []) (race_table [racer 2])"
    by (rule r_into_rtranclp, rule lh_call.insert, rule race_eval(5))
  show ?thesis
    using lhash_refines_map [OF buffers.lhash_functions_axioms race_eval(1) s, where d = "racer 3" and f = "\<lambda>_ u. u" and arg = "()"] race_eval(4)
    by (simp add: split_beta)
qed

lemma c11_inc_result:
  "c11_inc_loop e atts = Some r \<Longrightarrow>
     (case r of None \<Rightarrow> e = CRYPTO_REFCOUNT_MAX \<or> CRYPTO_REFCOUNT_MAX \<in> fst ` set atts
      | Some (now, v) \<Rightarrow> now \<noteq> CRYPTO_REFCOUNT_MAX \<and> v = CRYPTO_refcount_inc now \<and> (now, False) \<in> set atts)"
proof (induction e atts rule: c11_inc_loop.induct)
  case (1 e atts)
  show ?case
  proof (cases "e = CRYPTO_REFCOUNT_MAX \<or> atts = []")
    case True
    then show ?thesis using 1(2) by (auto simp: c11_inc_loop.simps split: if_splits)
  next
    case False
    then obtain now sp rest where a: "atts = (now, sp) # rest" by (cases atts) auto
    show ?thesis
    proof (cases "now = e \<and> \<not> sp")
      case True
      then have "r = Some (e, e + 1)" using 1(2) False by (simp add: c11_inc_loop.simps a)
      then show ?thesis using True False a below_max by (simp add: CRYPTO_refcount_inc_def)
    next
      case n: False
      then have c: "c11_inc_loop now rest = Some r" using 1(2) False by (subst (asm) c11_inc_loop.simps) (auto simp: a)
      have "case r of None \<Rightarrow> now = CRYPTO_REFCOUNT_MAX \<or> CRYPTO_REFCOUNT_MAX \<in> fst ` set rest
          | Some (x, v) \<Rightarrow> x \<noteq> CRYPTO_REFCOUNT_MAX \<and> v = CRYPTO_refcount_inc x \<and> (x, False) \<in> set rest"
        by (rule 1(1) [OF _ a refl _ c]) (use False n in auto)
      then show ?thesis by (auto simp: a split: option.splits)
    qed
  qed
qed

lemma c11_dec_result:
  "c11_dec_loop e atts = Some r \<Longrightarrow>
     (case r of Aborts \<Rightarrow> 0 \<in> insert e (fst ` set atts)
      | Saturated \<Rightarrow> CRYPTO_REFCOUNT_MAX \<in> insert e (fst ` set atts)
      | Wrote now v z \<Rightarrow> CRYPTO_refcount_dec_and_test_zero now = Some (z, v) \<and> (now, False) \<in> set atts)"
proof (induction e atts rule: c11_dec_loop.induct)
  case (1 e atts)
  show ?case
  proof (cases "e = 0 \<or> e = CRYPTO_REFCOUNT_MAX \<or> atts = []")
    case True
    then show ?thesis using 1(2) by (auto simp: c11_dec_loop.simps split: if_splits)
  next
    case False
    then obtain now sp rest where a: "atts = (now, sp) # rest" by (cases atts) auto
    show ?thesis
    proof (cases "now = e \<and> \<not> sp")
      case True
      then have "r = Wrote e (e - 1) (e - 1 = 0)" using 1(2) False by (simp add: c11_dec_loop.simps a)
      then show ?thesis using True False a below_max by (simp add: CRYPTO_refcount_dec_and_test_zero_def)
    next
      case n: False
      then have c: "c11_dec_loop now rest = Some r" using 1(2) False by (subst (asm) c11_dec_loop.simps) (auto simp: a)
      have "case r of Aborts \<Rightarrow> 0 \<in> insert now (fst ` set rest)
          | Saturated \<Rightarrow> CRYPTO_REFCOUNT_MAX \<in> insert now (fst ` set rest)
          | Wrote x v z \<Rightarrow> CRYPTO_refcount_dec_and_test_zero x = Some (z, v) \<and> (x, False) \<in> set rest"
        by (rule 1(1) [OF _ _ refl a refl _ c]) (use False n in auto)
      then show ?thesis by (auto simp: a split: c11_dec.splits)
    qed
  qed
qed

lemma c11_loops_finish:
  "c11_inc_loop e (atts @ [(n, sp), (n, False)]) \<noteq> None" "c11_dec_loop e (atts @ [(n, sp), (n, False)]) \<noteq> None"
proof -
  have i: "c11_inc_loop e [(n, sp), (n, False)] \<noteq> None" "c11_dec_loop e [(n, sp), (n, False)] \<noteq> None" for e
    by (simp_all add: c11_inc_loop.simps c11_dec_loop.simps Let_def)
  show "c11_inc_loop e (atts @ [(n, sp), (n, False)]) \<noteq> None"
  proof (induction atts arbitrary: e)
    case (Cons a atts)
    then show ?case by (cases a) (simp add: c11_inc_loop.simps [of e "_ # _"])
  qed (use i in simp)
  show "c11_dec_loop e (atts @ [(n, sp), (n, False)]) \<noteq> None"
  proof (induction atts arbitrary: e)
    case (Cons a atts)
    then show ?case by (cases a) (simp add: c11_dec_loop.simps [of e "_ # _"] Let_def)
  qed (use i in simp)
qed

text \<open>
  C20: The compare-and-swap loops of \<^verbatim>\<open>refcount_c11.c\<close> do, at the moment of their last attempt, what
  \<^verbatim>\<open>refcount_lock.c\<close> does under its lock, whatever other threads write in between and however often a
  weak compare-and-swap fails; and they finish with the first attempt that is made on the expected
  value and does not fail spuriously.
\<close>

theorem c11_refcounts_match_lock:
  "(\<forall>now v. c11_inc_loop e atts = Some (Some (now, v)) \<longrightarrow> v = CRYPTO_refcount_inc now \<and> (now, False) \<in> set atts) \<and>
   (c11_inc_loop e atts = Some None \<longrightarrow>
      CRYPTO_REFCOUNT_MAX \<in> insert e (fst ` set atts) \<and> CRYPTO_refcount_inc CRYPTO_REFCOUNT_MAX = CRYPTO_REFCOUNT_MAX) \<and>
   (\<forall>now v z. c11_dec_loop e atts = Some (Wrote now v z) \<longrightarrow>
      CRYPTO_refcount_dec_and_test_zero now = Some (z, v) \<and> (now, False) \<in> set atts) \<and>
   (c11_dec_loop e atts = Some Aborts \<longrightarrow>
      0 \<in> insert e (fst ` set atts) \<and> CRYPTO_refcount_dec_and_test_zero 0 = None) \<and>
   (c11_dec_loop e atts = Some Saturated \<longrightarrow> CRYPTO_REFCOUNT_MAX \<in> insert e (fst ` set atts) \<and>
      CRYPTO_refcount_dec_and_test_zero CRYPTO_REFCOUNT_MAX = Some (False, CRYPTO_REFCOUNT_MAX)) \<and>
   c11_inc_loop e (atts @ [(n, sp), (n, False)]) \<noteq> None \<and> c11_dec_loop e (atts @ [(n, sp), (n, False)]) \<noteq> None"
proof -
  have m: "CRYPTO_refcount_inc CRYPTO_REFCOUNT_MAX = CRYPTO_REFCOUNT_MAX"
    "CRYPTO_refcount_dec_and_test_zero CRYPTO_REFCOUNT_MAX = Some (False, CRYPTO_REFCOUNT_MAX)"
    "CRYPTO_refcount_dec_and_test_zero 0 = None"
    by (simp_all add: CRYPTO_refcount_inc_def CRYPTO_refcount_dec_and_test_zero_def CRYPTO_REFCOUNT_MAX_def)
  show ?thesis using c11_inc_result [of e atts] c11_dec_result [of e atts] c11_loops_finish m by fastforce
qed

theorem c11_refcounts_match_lock_witness:
  "c11_inc_loop 1 [(1, True), (2, False), (2, False)] = Some (Some (2, 3)) \<and> CRYPTO_refcount_inc 2 = 3"
proof -
  have "c11_inc_loop 1 [(1, True), (2, False), (2, False)] = Some (Some (2, 3))" by code_simp
  then show ?thesis using c11_refcounts_match_lock [of 1 "[(1, True), (2, False), (2, False)]"] by auto
qed

end
