(* ===== verification/BioPair.thy ===== *)
theory BioPair
  imports Pool Words
begin

text \<open>
  \<^verbatim>\<open>crypto/bio/pair.c\<close>, the pair of connected BIOs, with the functions of \<^verbatim>\<open>crypto/bio/bio.c\<close> through which
  it is used. Each end owns the ring buffer that it writes to and its peer reads from. The ends
  live at addresses of a store and refer to each other by address. \<^verbatim>\<open>None\<close> is a failed assertion, a NULL or
  dangling pointer that is followed, or a loop that never ends; the theorems show that it is not
  reached. Sizes are natural numbers: they count bytes of one object, so that the sum of two of
  them does not wrap. A BIO is not chained behind another (\<^verbatim>\<open>next_bio\<close> is NULL).
\<close>

unbundle bit_operations_syntax

section \<open>The state\<close>

record bio_bio =
  bp_peer :: "nat option"
  bp_closed :: bool
  bp_len :: nat
  bp_offset :: nat
  bp_size :: nat
  bp_buf :: "bytes option"
  bp_request :: nat

record bio =
  bio_init :: bool
  bio_shutdown :: int
  bio_flags :: u32
  bio_retry_reason :: int
  bio_references :: u32
  bio_ptr :: bio_bio
  bio_num_read :: u64
  bio_num_write :: u64

type_synonym bios = "nat \<Rightarrow> bio option"

definition BIO_FLAGS_READ :: u32 where "BIO_FLAGS_READ = 0x01"
definition BIO_FLAGS_WRITE :: u32 where "BIO_FLAGS_WRITE = 0x02"
definition BIO_FLAGS_IO_SPECIAL :: u32 where "BIO_FLAGS_IO_SPECIAL = 0x04"
definition BIO_FLAGS_RWS :: u32 where "BIO_FLAGS_RWS = BIO_FLAGS_READ OR BIO_FLAGS_WRITE OR BIO_FLAGS_IO_SPECIAL"
definition BIO_FLAGS_SHOULD_RETRY :: u32 where "BIO_FLAGS_SHOULD_RETRY = 0x08"
definition kRetryFlags :: u32 where "kRetryFlags = BIO_FLAGS_RWS OR BIO_FLAGS_SHOULD_RETRY"

definition BIO_clear_retry_flags :: "bio \<Rightarrow> bio" where
  "BIO_clear_retry_flags bio = bio\<lparr>bio_flags := bio_flags bio AND NOT kRetryFlags, bio_retry_reason := 0\<rparr>"

definition BIO_set_retry_read :: "bio \<Rightarrow> bio" where
  "BIO_set_retry_read bio = bio\<lparr>bio_flags := bio_flags bio OR (BIO_FLAGS_READ OR BIO_FLAGS_SHOULD_RETRY)\<rparr>"

definition BIO_set_retry_write :: "bio \<Rightarrow> bio" where
  "BIO_set_retry_write bio = bio\<lparr>bio_flags := bio_flags bio OR (BIO_FLAGS_WRITE OR BIO_FLAGS_SHOULD_RETRY)\<rparr>"

definition BIO_test_flags :: "bio \<Rightarrow> u32 \<Rightarrow> u32" where
  "BIO_test_flags bio flags = bio_flags bio AND flags"

definition BIO_should_read :: "bio \<Rightarrow> u32" where
  "BIO_should_read bio = BIO_test_flags bio BIO_FLAGS_READ"

definition BIO_should_write :: "bio \<Rightarrow> u32" where
  "BIO_should_write bio = BIO_test_flags bio BIO_FLAGS_WRITE"

definition BIO_should_retry :: "bio \<Rightarrow> u32" where
  "BIO_should_retry bio = BIO_test_flags bio BIO_FLAGS_SHOULD_RETRY"

section \<open>Creation and release\<close>

definition sizeof_BIO :: u64 where "sizeof_BIO = 72"
definition sizeof_bio_bio :: u64 where "sizeof_bio_bio = 56"

definition bio_new :: "libc_malloc \<Rightarrow> bio_bio option" where
  "bio_new malloc =
     (case OPENSSL_malloc malloc sizeof_bio_bio of
        None \<Rightarrow> None
      | Some _ \<Rightarrow> Some \<lparr>bp_peer = None, bp_closed = False, bp_len = 0, bp_offset = 0, bp_size = 17 * 1024,
                        bp_buf = None, bp_request = 0\<rparr>)"

text \<open>The method is \<^verbatim>\<open>bio_s_bio()\<close>.\<close>

definition BIO_new :: "libc_malloc \<Rightarrow> bio option" where
  "BIO_new malloc =
     (case OPENSSL_malloc malloc sizeof_BIO of
        None \<Rightarrow> None
      | Some _ \<Rightarrow>
          (case bio_new malloc of
             None \<Rightarrow> None
           | Some b \<Rightarrow> Some \<lparr>bio_init = False, bio_shutdown = 1, bio_flags = 0, bio_retry_reason = 0,
                             bio_references = 1, bio_ptr = b, bio_num_read = 0, bio_num_write = 0\<rparr>))"

text \<open>Both ends of a pair are disconnected and emptied.\<close>

definition unpair :: "bio \<Rightarrow> bio" where
  "unpair bio = bio\<lparr>bio_init := False, bio_ptr := (bio_ptr bio)\<lparr>bp_peer := None, bp_len := 0, bp_offset := 0\<rparr>\<rparr>"

definition bio_destroy_pair :: "bios \<Rightarrow> nat \<Rightarrow> bios option" where
  "bio_destroy_pair w h =
     (case w h of
        None \<Rightarrow> None
      | Some bio \<Rightarrow>
          (case bp_peer (bio_ptr bio) of
             None \<Rightarrow> Some w
           | Some p \<Rightarrow>
               (case w p of
                  None \<Rightarrow> None
                | Some peer_bio \<Rightarrow>
                    if bp_peer (bio_ptr peer_bio) = Some h \<and> bp_buf (bio_ptr peer_bio) \<noteq> None \<and> bp_buf (bio_ptr bio) \<noteq> None
                    then Some (w(p \<mapsto> unpair peer_bio, h \<mapsto> unpair bio))
                    else None)))"

definition bio_free :: "bios \<Rightarrow> nat \<Rightarrow> bios option" where
  "bio_free w h =
     (case w h of
        None \<Rightarrow> None
      | Some bio \<Rightarrow> if bp_peer (bio_ptr bio) \<noteq> None then bio_destroy_pair w h else Some w)"

text \<open>The BIO is NULL, or one without a \<^verbatim>\<open>next_bio\<close>.\<close>

definition BIO_free :: "bios \<Rightarrow> nat option \<Rightarrow> (int \<times> bios) option" where
  "BIO_free w ptr =
     (case ptr of
        None \<Rightarrow> Some (1, w)
      | Some h \<Rightarrow>
          (case w h of
             None \<Rightarrow> None
           | Some bio \<Rightarrow>
               (case CRYPTO_refcount_dec_and_test_zero (bio_references bio) of
                  None \<Rightarrow> None
                | Some (zero, n) \<Rightarrow>
                    let w = w(h \<mapsto> bio\<lparr>bio_references := n\<rparr>) in
                    if \<not> zero then Some (0, w)
                    else (case bio_free w h of None \<Rightarrow> None | Some w \<Rightarrow> Some (1, w(h := None))))))"

definition BIO_up_ref :: "bios \<Rightarrow> nat \<Rightarrow> (int \<times> bios) option" where
  "BIO_up_ref w h =
     (case w h of
        None \<Rightarrow> None
      | Some bio \<Rightarrow> Some (1, w(h \<mapsto> bio\<lparr>bio_references := CRYPTO_refcount_inc (bio_references bio)\<rparr>)))"

text \<open>The buffer of one end, unless it has one already: the first and the second half of \<^verbatim>\<open>bio_make_pair\<close>.\<close>

definition make_buf :: "libc_malloc \<Rightarrow> bio_bio \<Rightarrow> nat \<Rightarrow> bool \<times> bio_bio" where
  "make_buf malloc b writebuf_len =
     (if bp_buf b = None
      then (let b = (if writebuf_len \<noteq> 0 then b\<lparr>bp_size := writebuf_len\<rparr> else b)
            in case OPENSSL_malloc malloc (of_nat (bp_size b)) of
                 None \<Rightarrow> (False, b)
               | Some m \<Rightarrow> (True, b\<lparr>bp_buf := Some m, bp_len := 0, bp_offset := 0\<rparr>))
      else (True, b))"

definition bio_make_pair ::
  "libc_malloc \<Rightarrow> libc_malloc \<Rightarrow> bios \<Rightarrow> nat \<Rightarrow> nat \<Rightarrow> nat \<Rightarrow> nat \<Rightarrow> (bool \<times> bios) option" where
  "bio_make_pair malloc1 malloc2 w h1 h2 writebuf1_len writebuf2_len =
     (case (w h1, w h2) of
        (Some bio1, Some bio2) \<Rightarrow>
          if bp_peer (bio_ptr bio1) \<noteq> None \<or> bp_peer (bio_ptr bio2) \<noteq> None then Some (False, w)
          else (case make_buf malloc1 (bio_ptr bio1) writebuf1_len of
                  (ok1, b1) \<Rightarrow>
                    if \<not> ok1 then Some (False, w(h1 \<mapsto> bio1\<lparr>bio_ptr := b1\<rparr>))
                    else (case make_buf malloc2 (bio_ptr bio2) writebuf2_len of
                            (ok2, b2) \<Rightarrow>
                              if \<not> ok2 then Some (False, w(h1 \<mapsto> bio1\<lparr>bio_ptr := b1\<rparr>, h2 \<mapsto> bio2\<lparr>bio_ptr := b2\<rparr>))
                              else Some (True,
                                w(h1 \<mapsto> bio1\<lparr>bio_ptr := b1\<lparr>bp_peer := Some h2, bp_closed := False, bp_request := 0\<rparr>, bio_init := True\<rparr>,
                                  h2 \<mapsto> bio2\<lparr>bio_ptr := b2\<lparr>bp_peer := Some h1, bp_closed := False, bp_request := 0\<rparr>, bio_init := True\<rparr>))))
      | _ \<Rightarrow> None)"

text \<open>
  \<^verbatim>\<open>h1\<close> and \<^verbatim>\<open>h2\<close> are the addresses that the allocator chooses, \<^verbatim>\<open>malloc1\<close> and \<^verbatim>\<open>malloc2\<close> its behaviour for the
  objects of each end.
\<close>

definition place :: "bios \<Rightarrow> nat \<Rightarrow> bio option \<Rightarrow> nat option \<times> bios" where
  "place w h bio = (case bio of None \<Rightarrow> (None, w) | Some bio \<Rightarrow> (Some h, w(h \<mapsto> bio)))"

definition BIO_new_bio_pair ::
  "libc_malloc \<Rightarrow> libc_malloc \<Rightarrow> nat \<Rightarrow> nat \<Rightarrow> bios \<Rightarrow> nat \<Rightarrow> nat \<Rightarrow> ((nat option \<times> nat option) \<times> bios) option" where
  "BIO_new_bio_pair malloc1 malloc2 h1 h2 w writebuf1_len writebuf2_len =
     (let (bio1, w) = place w h1 (BIO_new malloc1);
          (bio2, w) = place w h2 (BIO_new malloc2);
          made = (if bio1 = None \<or> bio2 = None then Some (False, w)
                  else bio_make_pair malloc1 malloc2 w h1 h2 writebuf1_len writebuf2_len)
      in Option.bind made (\<lambda>(ok, w).
           if \<not> ok
           then Option.bind (BIO_free w bio1) (\<lambda>(_, w).
                Option.bind (BIO_free w bio2) (\<lambda>(_, w). Some ((None, None), w)))
           else Some ((bio1, bio2), w)))"

section \<open>Reading and writing\<close>

text \<open>\<^verbatim>\<open>one or two iterations\<close> of copying out of the ring buffer.\<close>

partial_function (option) read_loop :: "bio_bio \<Rightarrow> nat \<Rightarrow> (bytes \<times> bio_bio) option" where
  "read_loop b rest =
     (if \<not> rest \<le> bp_len b then None
      else let chunk = (if bp_offset b + rest \<le> bp_size b then rest else bp_size b - bp_offset b) in
      if \<not> bp_offset b + chunk \<le> bp_size b then None
      else (case bp_buf b of None \<Rightarrow> None | Some m \<Rightarrow>
        let out = take chunk (drop (bp_offset b) m);
            b = b\<lparr>bp_len := bp_len b - chunk\<rparr> in
        Option.bind
          (if bp_len b \<noteq> 0
           then (let b = b\<lparr>bp_offset := bp_offset b + chunk\<rparr> in
                 if \<not> bp_offset b \<le> bp_size b then None
                 else Some (if bp_offset b = bp_size b then b\<lparr>bp_offset := 0\<rparr> else b))
           else if chunk \<noteq> rest then None
           else Some (b\<lparr>bp_offset := 0\<rparr>))
          (\<lambda>b. let rest = rest - chunk in
               if rest \<noteq> 0
               then Option.bind (read_loop b rest) (\<lambda>(out', b). Some (out @ out', b))
               else Some (out, b))))"

text \<open>
  The result is the return value, the bytes written to \<^verbatim>\<open>buf\<close> and the store; \<^verbatim>\<open>null\<close> is \<^verbatim>\<open>buf == NULL\<close>.
\<close>

definition bio_read :: "bios \<Rightarrow> nat \<Rightarrow> bool \<Rightarrow> nat \<Rightarrow> (int \<times> bytes \<times> bios) option" where
  "bio_read w h null sz =
     Option.bind (w h) (\<lambda>bio.
       let bio = BIO_clear_retry_flags bio; w = w(h \<mapsto> bio) in
       if \<not> bio_init bio then Some (0, [], w)
       else Option.bind (bp_peer (bio_ptr bio)) (\<lambda>p.
            Option.bind (w p) (\<lambda>peer.
              let peer_b = bio_ptr peer in
              if bp_buf peer_b = None then None
              else let peer_b = peer_b\<lparr>bp_request := 0\<rparr>; w = w(p \<mapsto> peer\<lparr>bio_ptr := peer_b\<rparr>) in
              if null \<or> sz = 0 then Some (0, [], w)
              else if bp_len peer_b = 0
              then (if bp_closed peer_b then Some (0, [], w)
                    else let request = (if sz \<le> bp_size peer_b then sz else bp_size peer_b);
                             w = w(p \<mapsto> peer\<lparr>bio_ptr := peer_b\<lparr>bp_request := request\<rparr>\<rparr>)
                         in Option.bind (w h) (\<lambda>bio. Some (- 1, [], w(h \<mapsto> BIO_set_retry_read bio))))
              else let sz = (if bp_len peer_b < sz then bp_len peer_b else sz) in
                   if \<not> sz > 0 then None
                   else Option.bind (read_loop peer_b sz) (\<lambda>(out, peer_b).
                          Some (int sz, out, w(p \<mapsto> peer\<lparr>bio_ptr := peer_b\<rparr>))))))"

partial_function (option) write_loop :: "bio_bio \<Rightarrow> bytes \<Rightarrow> nat \<Rightarrow> bio_bio option" where
  "write_loop b inp rest =
     (if \<not> bp_len b + rest \<le> bp_size b then None
      else let write_offset = bp_offset b + bp_len b;
               write_offset = (if write_offset \<ge> bp_size b then write_offset - bp_size b else write_offset);
               chunk = (if write_offset + rest \<le> bp_size b then rest else bp_size b - write_offset) in
      (case bp_buf b of None \<Rightarrow> None | Some m \<Rightarrow>
        let b = b\<lparr>bp_buf := Some (take write_offset m @ take chunk inp @ drop (write_offset + chunk) m),
                 bp_len := bp_len b + chunk\<rparr> in
        if \<not> bp_len b \<le> bp_size b then None
        else let rest = rest - chunk in
             if rest \<noteq> 0 then write_loop b (drop chunk inp) rest else Some b))"

definition bio_write :: "bios \<Rightarrow> nat \<Rightarrow> bytes option \<Rightarrow> nat \<Rightarrow> (int \<times> bios) option" where
  "bio_write w h buf num =
     Option.bind (w h) (\<lambda>bio.
       let bio = BIO_clear_retry_flags bio in
       case buf of
         None \<Rightarrow> Some (0, w(h \<mapsto> bio))
       | Some inp \<Rightarrow>
         if \<not> bio_init bio \<or> num = 0 then Some (0, w(h \<mapsto> bio))
         else let b = bio_ptr bio in
         if bp_peer b = None \<or> bp_buf b = None then None
         else let b = b\<lparr>bp_request := 0\<rparr>; bio = bio\<lparr>bio_ptr := b\<rparr> in
         if bp_closed b then Some (- 1, w(h \<mapsto> bio))
         else if \<not> bp_len b \<le> bp_size b then None
         else if bp_len b = bp_size b then Some (- 1, w(h \<mapsto> BIO_set_retry_write bio))
         else let num = (if num > bp_size b - bp_len b then bp_size b - bp_len b else num) in
              if \<not> num > 0 then None
              else Option.bind (write_loop b inp num) (\<lambda>b. Some (int num, w(h \<mapsto> bio\<lparr>bio_ptr := b\<rparr>))))"

text \<open>\<^verbatim>\<open>bio.c\<close>: the guards around the methods.\<close>

definition BIO_read :: "bios \<Rightarrow> nat \<Rightarrow> bool \<Rightarrow> int \<Rightarrow> (int \<times> bytes \<times> bios) option" where
  "BIO_read w h null len =
     Option.bind (w h) (\<lambda>bio.
       if \<not> bio_init bio then Some (- 2, [], w)
       else if len \<le> 0 then Some (0, [], w)
       else Option.bind (bio_read w h null (nat len)) (\<lambda>(ret, out, w).
              if ret > 0
              then Option.bind (w h) (\<lambda>bio. Some (ret, out, w(h \<mapsto> bio\<lparr>bio_num_read := bio_num_read bio + of_int ret\<rparr>)))
              else Some (ret, out, w)))"

definition BIO_write :: "bios \<Rightarrow> nat \<Rightarrow> bytes option \<Rightarrow> int \<Rightarrow> (int \<times> bios) option" where
  "BIO_write w h buf inl =
     Option.bind (w h) (\<lambda>bio.
       if \<not> bio_init bio then Some (- 2, w)
       else if inl \<le> 0 then Some (0, w)
       else Option.bind (bio_write w h buf (nat inl)) (\<lambda>(ret, w).
              if ret > 0
              then Option.bind (w h) (\<lambda>bio. Some (ret, w(h \<mapsto> bio\<lparr>bio_num_write := bio_num_write bio + of_int ret\<rparr>)))
              else Some (ret, w)))"

section \<open>Control\<close>

definition BIO_CTRL_EOF :: int where "BIO_CTRL_EOF = 2"
definition BIO_CTRL_GET_CLOSE :: int where "BIO_CTRL_GET_CLOSE = 8"
definition BIO_CTRL_SET_CLOSE :: int where "BIO_CTRL_SET_CLOSE = 9"
definition BIO_CTRL_PENDING :: int where "BIO_CTRL_PENDING = 10"
definition BIO_CTRL_FLUSH :: int where "BIO_CTRL_FLUSH = 11"
definition BIO_CTRL_WPENDING :: int where "BIO_CTRL_WPENDING = 13"
definition BIO_C_GET_WRITE_BUF_SIZE :: int where "BIO_C_GET_WRITE_BUF_SIZE = 137"
definition BIO_C_GET_WRITE_GUARANTEE :: int where "BIO_C_GET_WRITE_GUARANTEE = 140"
definition BIO_C_GET_READ_REQUEST :: int where "BIO_C_GET_READ_REQUEST = 141"
definition BIO_C_SHUTDOWN_WR :: int where "BIO_C_SHUTDOWN_WR = 142"
definition BIO_C_RESET_READ_REQUEST :: int where "BIO_C_RESET_READ_REQUEST = 147"

definition bio_ctrl :: "bios \<Rightarrow> nat \<Rightarrow> int \<Rightarrow> int \<Rightarrow> nat option \<Rightarrow> (int \<times> bios) option" where
  "bio_ctrl w h cmd num ptr =
     Option.bind (w h) (\<lambda>bio.
       let b = bio_ptr bio in
       if cmd = BIO_C_GET_WRITE_BUF_SIZE then Some (int (bp_size b), w)
       else if cmd = BIO_C_GET_WRITE_GUARANTEE
       then Some (if bp_peer b = None \<or> bp_closed b then 0 else int (bp_size b) - int (bp_len b), w)
       else if cmd = BIO_C_GET_READ_REQUEST then Some (int (bp_request b), w)
       else if cmd = BIO_C_RESET_READ_REQUEST then Some (1, w(h \<mapsto> bio\<lparr>bio_ptr := b\<lparr>bp_request := 0\<rparr>\<rparr>))
       else if cmd = BIO_C_SHUTDOWN_WR then Some (1, w(h \<mapsto> bio\<lparr>bio_ptr := b\<lparr>bp_closed := True\<rparr>\<rparr>))
       else if cmd = BIO_CTRL_GET_CLOSE then Some (bio_shutdown bio, w)
       else if cmd = BIO_CTRL_SET_CLOSE then Some (1, w(h \<mapsto> bio\<lparr>bio_shutdown := sint (word_of_int num :: 32 word)\<rparr>))
       else if cmd = BIO_CTRL_PENDING
       then (case bp_peer b of
               None \<Rightarrow> Some (0, w)
             | Some p \<Rightarrow> Option.bind (w p) (\<lambda>peer. Some (int (bp_len (bio_ptr peer)), w)))
       else if cmd = BIO_CTRL_WPENDING then Some (if bp_buf b \<noteq> None then int (bp_len b) else 0, w)
       else if cmd = BIO_CTRL_FLUSH then Some (1, w)
       else if cmd = BIO_CTRL_EOF
       then (case ptr of
               None \<Rightarrow> Some (1, w)
             | Some other \<Rightarrow> Option.bind (w other) (\<lambda>other_bio.
                 Some (if bp_len (bio_ptr other_bio) = 0 \<and> bp_closed (bio_ptr other_bio) then 1 else 0, w)))
       else Some (0, w))"

text \<open>The BIO is not NULL and its method has \<^verbatim>\<open>ctrl\<close>.\<close>

definition BIO_ctrl :: "bios \<Rightarrow> nat \<Rightarrow> int \<Rightarrow> int \<Rightarrow> nat option \<Rightarrow> (int \<times> bios) option" where
  "BIO_ctrl w h cmd larg parg = bio_ctrl w h cmd larg parg"

definition BIO_ctrl_get_read_request :: "bios \<Rightarrow> nat \<Rightarrow> (int \<times> bios) option" where
  "BIO_ctrl_get_read_request w h = BIO_ctrl w h BIO_C_GET_READ_REQUEST 0 None"

definition BIO_ctrl_get_write_guarantee :: "bios \<Rightarrow> nat \<Rightarrow> (int \<times> bios) option" where
  "BIO_ctrl_get_write_guarantee w h = BIO_ctrl w h BIO_C_GET_WRITE_GUARANTEE 0 None"

definition BIO_shutdown_wr :: "bios \<Rightarrow> nat \<Rightarrow> (int \<times> bios) option" where
  "BIO_shutdown_wr w h = BIO_ctrl w h BIO_C_SHUTDOWN_WR 0 None"

definition BIO_pending :: "bios \<Rightarrow> nat \<Rightarrow> (int \<times> bios) option" where
  "BIO_pending w h =
     Option.bind (BIO_ctrl w h BIO_CTRL_PENDING 0 None) (\<lambda>(r, w). if r \<ge> 0 then Some (r, w) else None)"

definition BIO_wpending :: "bios \<Rightarrow> nat \<Rightarrow> (int \<times> bios) option" where
  "BIO_wpending w h =
     Option.bind (BIO_ctrl w h BIO_CTRL_WPENDING 0 None) (\<lambda>(r, w). if r \<ge> 0 then Some (r, w) else None)"


section \<open>The ring buffer as a queue\<close>

definition queue :: "bio_bio \<Rightarrow> bytes" where
  "queue b = (case bp_buf b of None \<Rightarrow> [] | Some m \<Rightarrow> map (\<lambda>i. m ! ((bp_offset b + i) mod bp_size b)) [0..<bp_len b])"

text \<open>What the comments of \<^verbatim>\<open>struct bio_bio_st\<close> say of its fields.\<close>

definition bio_bio_ok :: "bio_bio \<Rightarrow> bool" where
  "bio_bio_ok b \<longleftrightarrow>
     0 < bp_size b \<and> bp_len b \<le> bp_size b \<and> bp_offset b < bp_size b \<and> (bp_len b = 0 \<longrightarrow> bp_offset b = 0) \<and>
     (bp_peer b = None \<longrightarrow> bp_len b = 0) \<and>
     (case bp_buf b of None \<Rightarrow> bp_peer b = None | Some m \<Rightarrow> length m = bp_size b) \<and>
     (bp_len b \<noteq> 0 \<longrightarrow> bp_request b = 0) \<and> bp_request b \<le> bp_size b"

lemma length_queue: "bp_buf b \<noteq> None \<Longrightarrow> length (queue b) = bp_len b"
  by (auto simp: queue_def)

lemma queue_cong:
  "bp_buf b = bp_buf c \<Longrightarrow> bp_offset b = bp_offset c \<Longrightarrow> bp_size b = bp_size c \<Longrightarrow> bp_len b = bp_len c \<Longrightarrow> queue b = queue c"
  by (simp add: queue_def split: option.split)

lemma queue_nth: "bp_buf b = Some m \<Longrightarrow> i < bp_len b \<Longrightarrow> queue b ! i = m ! ((bp_offset b + i) mod bp_size b)"
  by (simp add: queue_def)

lemma mod_cancel:
  fixes s :: nat
  assumes "(k + a) mod s = (k + b) mod s" and "a < s" and "b < s"
  shows "a = b"
proof -
  have le: "y \<le> x" if "(k + x) mod s = (k + y) mod s" "y < s" for x y
  proof (rule ccontr)
    assume "\<not> y \<le> x"
    moreover have "s dvd y - x" using that(1) calculation mod_eq_dvd_iff_nat [of "k + x" "k + y" s] by simp
    ultimately show False using that(2) by (auto dest: dvd_imp_le)
  qed
  show ?thesis using le [OF assms(1,3)] le [OF assms(1) [symmetric] assms(2)] by simp
qed

text \<open>A chunk is taken from the front, or put behind, without wrapping around.\<close>

lemma queue_take:
  assumes m: "bp_buf b = Some m" "length m = bp_size b" and n: "n \<le> bp_len b" "bp_offset b + n \<le> bp_size b"
  shows "take n (drop (bp_offset b) m) = take n (queue b)"
proof (rule nth_equalityI)
  show l: "length (take n (drop (bp_offset b) m)) = length (take n (queue b))" using assms by (simp add: queue_def)
  fix i assume "i < length (take n (drop (bp_offset b) m))"
  then have i: "i < n" "i < bp_len b" "bp_offset b + i < bp_size b" using assms by auto
  then show "take n (drop (bp_offset b) m) ! i = take n (queue b) ! i" using assms by (simp add: queue_nth)
qed

lemma queue_drop:
  assumes m: "bp_buf b = Some m" and n: "n \<le> bp_len b"
    and b': "bp_buf b' = Some m" "bp_size b' = bp_size b" "bp_len b' = bp_len b - n"
      "bp_offset b' = (bp_offset b + n) mod bp_size b \<or> bp_len b' = 0"
  shows "queue b' = drop n (queue b)"
proof (rule nth_equalityI)
  show l: "length (queue b') = length (drop n (queue b))" using assms by (simp add: queue_def)
  fix i assume "i < length (queue b')"
  then have i: "i < bp_len b'" using b' by (simp add: queue_def)
  then have "bp_offset b' = (bp_offset b + n) mod bp_size b" using b'(4) by auto
  then have "(bp_offset b' + i) mod bp_size b = (bp_offset b + (n + i)) mod bp_size b"
    by (simp add: mod_add_left_eq add.assoc)
  then show "queue b' ! i = drop n (queue b) ! i" using i assms by (simp add: queue_nth length_queue)
qed

lemma queue_put:
  assumes m: "bp_buf b = Some m" "length m = bp_size b" and o: "o' = (bp_offset b + bp_len b) mod bp_size b"
    and n: "bp_len b + length xs \<le> bp_size b" "o' + length xs \<le> bp_size b" "0 < length xs"
  shows "queue (b\<lparr>bp_buf := Some (take o' m @ xs @ drop (o' + length xs) m), bp_len := bp_len b + length xs\<rparr>) = queue b @ xs"
    (is "queue ?b = _")
proof (rule nth_equalityI)
  show "length (queue ?b) = length (queue b @ xs)" using m by (simp add: queue_def)
  fix i assume "i < length (queue ?b)"
  then have i: "i < bp_len b + length xs" by (simp add: queue_def)
  define k where "k = (bp_offset b + i) mod bp_size b"
  have "0 < bp_size b" using n by linarith
  then have ks: "k < bp_size b" by (simp add: k_def)
  have q: "queue ?b ! i = (take o' m @ xs @ drop (o' + length xs) m) ! k" using i by (simp add: queue_nth k_def)
  show "queue ?b ! i = (queue b @ xs) ! i"
  proof (cases "i < bp_len b")
    case True
    have "\<not> (o' \<le> k \<and> k < o' + length xs)"
    proof
      assume k: "o' \<le> k \<and> k < o' + length xs"
      define j where "j = k - o'"
      have j: "k = o' + j" "j < length xs" using k by (auto simp: j_def)
      have "(bp_offset b + (bp_len b + j)) mod bp_size b = (o' + j) mod bp_size b" by (simp add: o mod_add_left_eq add.assoc)
      also have "\<dots> = k" using j ks by simp
      finally have "i = bp_len b + j" by (intro mod_cancel [of "bp_offset b" i "bp_size b"]) (use j n True in \<open>auto simp: k_def\<close>)
      then show False using True by simp
    qed
    then have "(take o' m @ xs @ drop (o' + length xs) m) ! k = m ! k" using ks m(2) n by (auto simp: nth_append)
    then show ?thesis using True m by (simp add: q nth_append queue_nth length_queue k_def)
  next
    case False
    define j where "j = i - bp_len b"
    have j: "i = bp_len b + j" "j < length xs" using False i by (simp_all add: j_def)
    have "k = (o' + j) mod bp_size b" by (simp add: k_def j o mod_add_left_eq add.assoc)
    then have "k = o' + j" using j n by simp
    then show ?thesis unfolding q using j m n by (simp add: nth_append length_queue)
  qed
qed


section \<open>The two loops\<close>

lemma read_loop_one:
  assumes m: "bp_buf b = Some m" "length m = bp_size b" and o: "bp_offset b < bp_size b"
    and r: "0 < rest" "rest \<le> bp_len b" "bp_offset b + rest \<le> bp_size b"
  shows "read_loop b rest = Some (take rest (queue b),
    b\<lparr>bp_len := bp_len b - rest, bp_offset := if rest = bp_len b then 0 else (bp_offset b + rest) mod bp_size b\<rparr>)"
proof -
  have t: "take rest (drop (bp_offset b) m) = take rest (queue b)" by (rule queue_take [OF m r(2,3)])
  show ?thesis
  proof (cases "rest = bp_len b")
    case True
    then show ?thesis using r m t by (subst read_loop.simps) (simp add: Let_def)
  next
    case False
    then show ?thesis using r m t by (subst read_loop.simps) (simp add: Let_def)
  qed
qed

lemma read_loop_result:
  assumes m: "bp_buf b = Some m" "length m = bp_size b" and o: "bp_offset b < bp_size b" "bp_len b \<le> bp_size b"
    and r: "0 < rest" "rest \<le> bp_len b"
  shows "read_loop b rest = Some (take rest (queue b),
    b\<lparr>bp_len := bp_len b - rest, bp_offset := if rest = bp_len b then 0 else (bp_offset b + rest) mod bp_size b\<rparr>)"
proof (cases "bp_offset b + rest \<le> bp_size b")
  case True
  then show ?thesis by (intro read_loop_one [OF m] o(1) r)
next
  case False
  define chunk where "chunk = bp_size b - bp_offset b"
  define b' where "b' = b\<lparr>bp_len := bp_len b - chunk, bp_offset := 0\<rparr>"
  have c: "0 < chunk" "chunk < rest" "bp_offset b + chunk = bp_size b" using False o by (simp_all add: chunk_def)
  have l: "bp_len b - chunk \<noteq> 0" using c r by simp
  have t: "take chunk (drop (bp_offset b) m) = take chunk (queue b)" using c r by (intro queue_take m) simp_all
  have q: "queue b' = drop chunk (queue b)" using c r m by (intro queue_drop [of b m]) (simp_all add: b'_def)
  have "read_loop b rest = Option.bind (read_loop b' (rest - chunk)) (\<lambda>(out', c). Some (take chunk (queue b) @ out', c))"
    unfolding t [symmetric] using False r l c m
    by (subst read_loop.simps) (simp add: Let_def chunk_def [symmetric] b'_def)
  also have "read_loop b' (rest - chunk) = Some (take (rest - chunk) (queue b'),
      b'\<lparr>bp_len := bp_len b' - (rest - chunk), bp_offset := if rest - chunk = bp_len b' then 0 else (bp_offset b' + (rest - chunk)) mod bp_size b'\<rparr>)"
    using c r m o by (intro read_loop_one [of b' m]) (simp_all add: b'_def)
  also have "(if rest - chunk = bp_len b' then 0 else (bp_offset b' + (rest - chunk)) mod bp_size b') =
      (if rest = bp_len b then 0 else (bp_offset b + rest) mod bp_size b)"
  proof -
    have "bp_offset b + rest = bp_size b + (rest - chunk)" using c by simp
    moreover have "rest - chunk = bp_len b' \<longleftrightarrow> rest = bp_len b" using c r by (auto simp: b'_def)
    ultimately show ?thesis by (simp add: b'_def)
  qed
  finally show ?thesis using c r unfolding q by (simp add: b'_def take_add [symmetric])
qed

lemma write_loop_one:
  assumes m: "bp_buf b = Some m" "length m = bp_size b" and o: "o' = (bp_offset b + bp_len b) mod bp_size b" "bp_offset b < bp_size b"
    and r: "0 < rest" "bp_len b + rest \<le> bp_size b" "o' + rest \<le> bp_size b"
  shows "write_loop b inp rest =
    Some (b\<lparr>bp_buf := Some (take o' m @ take rest inp @ drop (o' + rest) m), bp_len := bp_len b + rest\<rparr>)"
proof -
  have "(if bp_offset b + bp_len b \<ge> bp_size b then bp_offset b + bp_len b - bp_size b else bp_offset b + bp_len b) = o'"
    using o r by (auto simp: mod_if)
  then show ?thesis using r m by (subst write_loop.simps) (simp only: Let_def, simp)
qed

lemma write_loop_result:
  assumes m: "bp_buf b = Some m" "length m = bp_size b" and o: "bp_offset b < bp_size b"
    and r: "0 < rest" "bp_len b + rest \<le> bp_size b" "rest \<le> length inp"
  shows "\<exists>m'. write_loop b inp rest = Some (b\<lparr>bp_buf := Some m', bp_len := bp_len b + rest\<rparr>) \<and> length m' = bp_size b \<and>
    queue (b\<lparr>bp_buf := Some m', bp_len := bp_len b + rest\<rparr>) = queue b @ take rest inp"
proof -
  define o' where "o' = (bp_offset b + bp_len b) mod bp_size b"
  have o': "o' < bp_size b" using o by (simp add: o'_def)
  have wo: "(if bp_offset b + bp_len b \<ge> bp_size b then bp_offset b + bp_len b - bp_size b else bp_offset b + bp_len b) = o'"
    using o r by (auto simp: mod_if o'_def)
  show ?thesis
  proof (cases "o' + rest \<le> bp_size b")
    case True
    define m' where "m' = take o' m @ take rest inp @ drop (o' + rest) m"
    have "write_loop b inp rest = Some (b\<lparr>bp_buf := Some m', bp_len := bp_len b + rest\<rparr>)"
      unfolding m'_def by (rule write_loop_one [OF m o'_def o r(1,2) True])
    moreover have "length m' = bp_size b" using True m(2) r by (simp add: m'_def)
    moreover have "queue (b\<lparr>bp_buf := Some m', bp_len := bp_len b + rest\<rparr>) = queue b @ take rest inp"
      using queue_put [OF m o'_def, of "take rest inp"] True r by (simp add: m'_def)
    ultimately show ?thesis by blast
  next
    case False
    define chunk where "chunk = bp_size b - o'"
    have c: "0 < chunk" "chunk < rest" "o' + chunk = bp_size b" using False o' by (simp_all add: chunk_def)
    define m1 where "m1 = take o' m @ take chunk inp @ drop (o' + chunk) m"
    define b1 where "b1 = b\<lparr>bp_buf := Some m1, bp_len := bp_len b + chunk\<rparr>"
    have l1: "length m1 = bp_size b" using c m(2) r by (simp add: m1_def)
    have q1: "queue b1 = queue b @ take chunk inp"
      using queue_put [OF m o'_def, of "take chunk inp"] c r by (simp add: m1_def b1_def)
    have w: "write_loop b inp rest = write_loop b1 (drop chunk inp) (rest - chunk)"
      using False r m c by (subst write_loop.simps) (simp only: wo Let_def, simp add: chunk_def [symmetric] b1_def m1_def)
    have z: "0 = (bp_offset b1 + bp_len b1) mod bp_size b1"
    proof -
      have "(bp_offset b + (bp_len b + chunk)) mod bp_size b = (o' + chunk) mod bp_size b"
        by (simp add: o'_def mod_add_left_eq add.assoc)
      then show ?thesis using c by (simp add: b1_def)
    qed
    define xs where "xs = take (rest - chunk) (drop chunk inp)"
    have lx: "length xs = rest - chunk" using r c by (simp add: xs_def)
    define m2 where "m2 = take 0 m1 @ xs @ drop (0 + (rest - chunk)) m1"
    have w2: "write_loop b1 (drop chunk inp) (rest - chunk) = Some (b1\<lparr>bp_buf := Some m2, bp_len := bp_len b1 + (rest - chunk)\<rparr>)"
      unfolding m2_def xs_def using c r l1 o by (intro write_loop_one z) (simp_all add: b1_def)
    have q2: "queue (b1\<lparr>bp_buf := Some m2, bp_len := bp_len b1 + (rest - chunk)\<rparr>) = queue b1 @ xs"
      using queue_put [OF _ _ z, of m1 xs] c r l1 o by (simp add: m2_def lx b1_def)
    have b2: "b1\<lparr>bp_buf := Some m2, bp_len := bp_len b1 + (rest - chunk)\<rparr> = b\<lparr>bp_buf := Some m2, bp_len := bp_len b + rest\<rparr>"
      using c by (simp add: b1_def)
    have "take chunk inp @ xs = take rest inp" using c by (simp add: xs_def take_add [symmetric])
    then have "queue (b\<lparr>bp_buf := Some m2, bp_len := bp_len b + rest\<rparr>) = queue b @ take rest inp"
      using q1 q2 unfolding b2 by simp
    moreover have "length m2 = bp_size b" using l1 lx r by (simp add: m2_def)
    ultimately show ?thesis using w w2 unfolding b2 by (intro exI [of _ m2]) simp
  qed
qed


section \<open>Sequences of calls\<close>

datatype bio_call =
    New_pair libc_malloc libc_malloc nat nat nat nat
  | Free "nat option"
  | Up_ref nat
  | Read nat bool int
  | Write nat "bytes option" int
  | Ctrl nat int int "nat option"

text \<open>The return value (for a new pair, whether there is one), the bytes delivered, and the store.\<close>

fun bio_exec :: "bios \<Rightarrow> bio_call \<Rightarrow> (int \<times> bytes \<times> bios) option" where
  "bio_exec w (New_pair malloc1 malloc2 h1 h2 n1 n2) =
     map_option (\<lambda>(r, w). (if fst r = None then 0 else 1, [], w)) (BIO_new_bio_pair malloc1 malloc2 h1 h2 w n1 n2)"
| "bio_exec w (Free ptr) = map_option (\<lambda>(r, w). (r, [], w)) (BIO_free w ptr)"
| "bio_exec w (Up_ref h) = map_option (\<lambda>(r, w). (r, [], w)) (BIO_up_ref w h)"
| "bio_exec w (Read h null len) = BIO_read w h null len"
| "bio_exec w (Write h buf inl) = map_option (\<lambda>(r, w). (r, [], w)) (BIO_write w h buf inl)"
| "bio_exec w (Ctrl h cmd num ptr) = map_option (\<lambda>(r, w). (r, [], w)) (BIO_ctrl w h cmd num ptr)"

text \<open>
  What a caller owes: BIOs that have not been freed, as many bytes as it says, and for a new pair
  an allocator that keeps its contract and gives out fresh addresses. Sizes near the end of \<^verbatim>\<open>size_t\<close> are
  excluded: \<^verbatim>\<open>OPENSSL_malloc\<close> adds its prefix to them with wrap-around.
\<close>

fun bio_allowed :: "bios \<Rightarrow> bio_call \<Rightarrow> bool" where
  "bio_allowed w (New_pair malloc1 malloc2 h1 h2 n1 n2) \<longleftrightarrow>
     malloc_contract malloc1 \<and> malloc_contract malloc2 \<and> h1 \<noteq> h2 \<and> w h1 = None \<and> w h2 = None \<and>
     n1 < 2 ^ 64 - 8 \<and> n2 < 2 ^ 64 - 8"
| "bio_allowed w (Free ptr) \<longleftrightarrow> (case ptr of None \<Rightarrow> True | Some h \<Rightarrow> w h \<noteq> None)"
| "bio_allowed w (Up_ref h) \<longleftrightarrow> w h \<noteq> None"
| "bio_allowed w (Read h null len) \<longleftrightarrow> w h \<noteq> None"
| "bio_allowed w (Write h buf inl) \<longleftrightarrow> w h \<noteq> None \<and> (case buf of None \<Rightarrow> True | Some inp \<Rightarrow> inl \<le> int (length inp))"
| "bio_allowed w (Ctrl h cmd num ptr) \<longleftrightarrow> w h \<noteq> None \<and> (case ptr of None \<Rightarrow> True | Some x \<Rightarrow> w x \<noteq> None)"

text \<open>What has gone into each end, and what has come out of it, since it was created.\<close>

fun sent :: "bio_call \<Rightarrow> int \<Rightarrow> (nat \<Rightarrow> bytes) \<Rightarrow> nat \<Rightarrow> bytes" where
  "sent (Write h (Some inp) inl) ret s = (if ret > 0 then s(h := s h @ take (nat ret) inp) else s)"
| "sent (New_pair malloc1 malloc2 h1 h2 n1 n2) ret s = s(h1 := [], h2 := [])"
| "sent c ret s = s"

fun received :: "bio_call \<Rightarrow> bytes \<Rightarrow> (nat \<Rightarrow> bytes) \<Rightarrow> nat \<Rightarrow> bytes" where
  "received (Read h null len) out s = s(h := s h @ out)"
| "received (New_pair malloc1 malloc2 h1 h2 n1 n2) out s = s(h1 := [], h2 := [])"
| "received c out s = s"

inductive bio_reach :: "bios \<Rightarrow> (nat \<Rightarrow> bytes) \<Rightarrow> (nat \<Rightarrow> bytes) \<Rightarrow> bool" where
  start: "bio_reach (\<lambda>_. None) (\<lambda>_. []) (\<lambda>_. [])"
| call: "bio_reach w s r \<Longrightarrow> bio_allowed w c \<Longrightarrow> bio_exec w c = Some (ret, out, w') \<Longrightarrow>
    bio_reach w' (sent c ret s) (received c out r)"

text \<open>Every end is well formed and referenced, and ends that are connected are each other's peers.\<close>

definition bios_ok :: "bios \<Rightarrow> bool" where
  "bios_ok w \<longleftrightarrow>
     (\<forall>h b. w h = Some b \<longrightarrow>
        bio_bio_ok (bio_ptr b) \<and> bio_references b \<noteq> 0 \<and> (bio_init b \<longleftrightarrow> bp_peer (bio_ptr b) \<noteq> None) \<and>
        (\<forall>p. bp_peer (bio_ptr b) = Some p \<longrightarrow>
           p \<noteq> h \<and> (\<exists>c. w p = Some c \<and> bp_peer (bio_ptr c) = Some h)))"

definition fifo :: "bios \<Rightarrow> (nat \<Rightarrow> bytes) \<Rightarrow> (nat \<Rightarrow> bytes) \<Rightarrow> bool" where
  "fifo w s r \<longleftrightarrow>
     (\<forall>h b p. w h = Some b \<longrightarrow> bp_peer (bio_ptr b) = Some p \<longrightarrow> s h = r p @ queue (bio_ptr b))"

lemma bios_okD:
  assumes "bios_ok w" and "w h = Some b"
  shows "bio_bio_ok (bio_ptr b)" and "bio_references b \<noteq> 0" and "bio_init b \<longleftrightarrow> bp_peer (bio_ptr b) \<noteq> None"
  using assms by (auto simp: bios_ok_def)

lemma bios_ok_peer:
  assumes "bios_ok w" and "w h = Some b" and "bp_peer (bio_ptr b) = Some p"
  obtains c where "p \<noteq> h" and "w p = Some c" and "bp_peer (bio_ptr c) = Some h" and "bio_bio_ok (bio_ptr c)"
  using assms unfolding bios_ok_def by metis

text \<open>A step that keeps peers, initialisation and references of one end.\<close>

lemma bios_ok_upd:
  assumes "bios_ok w" and "w h = Some b" and "bio_bio_ok (bio_ptr b')" and "bp_peer (bio_ptr b') = bp_peer (bio_ptr b)"
    and "bio_init b' = bio_init b" and "bio_references b' \<noteq> 0"
  shows "bios_ok (w(h \<mapsto> b'))"
  using assms unfolding bios_ok_def by (auto 0 4)

lemma fifo_upd:
  assumes "fifo w s r" and "w h = Some b" and "bp_peer (bio_ptr b') = bp_peer (bio_ptr b)" and "queue (bio_ptr b') = queue (bio_ptr b)"
  shows "fifo (w(h \<mapsto> b')) s r"
  using assms unfolding fifo_def by auto


lemma fifo_read:
  assumes "bios_ok w" and "fifo w s r" and "w p = Some c" and "bp_peer (bio_ptr c) = Some h"
    and "bp_peer (bio_ptr c') = Some h" and "queue (bio_ptr c) = out @ queue (bio_ptr c')"
  shows "fifo (w(p \<mapsto> c')) s (r(h := r h @ out))"
  unfolding fifo_def
proof (intro allI impI)
  fix x b q assume x: "(w(p \<mapsto> c')) x = Some b" "bp_peer (bio_ptr b) = Some q"
  show "s x = (r(h := r h @ out)) q @ queue (bio_ptr b)"
  proof (cases "x = p")
    case True
    then show ?thesis using x assms by (auto simp: fifo_def)
  next
    case False
    then have b: "w x = Some b" using x by simp
    obtain d where d: "w h = Some d" "bp_peer (bio_ptr d) = Some p" by (rule bios_ok_peer [OF assms(1,3,4)])
    have "q \<noteq> h"
    proof
      assume "q = h"
      with x(2) obtain e where "w h = Some e" "bp_peer (bio_ptr e) = Some x" using bios_ok_peer [OF assms(1) b, of h] by auto
      then show False using d False by simp
    qed
    then show ?thesis using b x assms(2) by (simp add: fifo_def)
  qed
qed

lemma fifo_write:
  assumes "fifo w s r" and "w h = Some b" and "bp_peer (bio_ptr b') = bp_peer (bio_ptr b)"
    and "queue (bio_ptr b') = queue (bio_ptr b) @ xs"
  shows "fifo (w(h \<mapsto> b')) (s(h := s h @ xs)) r"
  using assms unfolding fifo_def by auto

section \<open>Reading\<close>

text \<open>Exactly what a read delivers: the front of the other end's queue, or end of file, or a request to retry.\<close>

definition read_result :: "bio_bio \<Rightarrow> bool \<Rightarrow> nat \<Rightarrow> int \<times> bytes" where
  "read_result c null n =
     (if null \<or> n = 0 then (0, [])
      else if bp_len c = 0 then (if bp_closed c then 0 else - 1, [])
      else (int (min n (bp_len c)), take n (queue c)))"

lemma bio_bio_ok_buf: "bio_bio_ok b \<Longrightarrow> bp_peer b \<noteq> None \<Longrightarrow> \<exists>m. bp_buf b = Some m \<and> length m = bp_size b"
  by (auto simp: bio_bio_ok_def split: option.splits)

lemma queue_request [simp]: "queue (b\<lparr>bp_request := n\<rparr>) = queue b"
  by (rule queue_cong) simp_all

lemma flags_upd [simp]:
  "bio_ptr (BIO_clear_retry_flags b) = bio_ptr b" "bio_init (BIO_clear_retry_flags b) = bio_init b"
  "bio_references (BIO_clear_retry_flags b) = bio_references b"
  "bio_ptr (BIO_set_retry_read b) = bio_ptr b" "bio_init (BIO_set_retry_read b) = bio_init b"
  "bio_references (BIO_set_retry_read b) = bio_references b"
  "bio_ptr (BIO_set_retry_write b) = bio_ptr b" "bio_init (BIO_set_retry_write b) = bio_init b"
  "bio_references (BIO_set_retry_write b) = bio_references b"
  by (simp_all add: BIO_clear_retry_flags_def BIO_set_retry_read_def BIO_set_retry_write_def)

lemma bio_read_eq:
  assumes "w h = Some b" and "bio_init b" and "bp_peer (bio_ptr b) = Some p" and "p \<noteq> h" and "w p = Some c"
    and "bp_buf (bio_ptr c) = Some m"
  shows "bio_read w h null n =
    (if null \<or> n = 0 then Some (0, [], w(h \<mapsto> BIO_clear_retry_flags b, p \<mapsto> c\<lparr>bio_ptr := (bio_ptr c)\<lparr>bp_request := 0\<rparr>\<rparr>))
     else if bp_len (bio_ptr c) = 0
     then (if bp_closed (bio_ptr c)
           then Some (0, [], w(h \<mapsto> BIO_clear_retry_flags b, p \<mapsto> c\<lparr>bio_ptr := (bio_ptr c)\<lparr>bp_request := 0\<rparr>\<rparr>))
           else Some (- 1, [], w(h \<mapsto> BIO_set_retry_read (BIO_clear_retry_flags b),
                  p \<mapsto> c\<lparr>bio_ptr := (bio_ptr c)\<lparr>bp_request := if n \<le> bp_size (bio_ptr c) then n else bp_size (bio_ptr c)\<rparr>\<rparr>)))
     else Option.bind (read_loop ((bio_ptr c)\<lparr>bp_request := 0\<rparr>) (if bp_len (bio_ptr c) < n then bp_len (bio_ptr c) else n))
            (\<lambda>(out, peer_b). Some (int (if bp_len (bio_ptr c) < n then bp_len (bio_ptr c) else n), out,
                               w(h \<mapsto> BIO_clear_retry_flags b, p \<mapsto> c\<lparr>bio_ptr := peer_b\<rparr>))))"
  using assms by (simp add: bio_read_def Let_def fun_upd_twist [of h p])

lemma bio_read_connected:
  assumes ok: "bios_ok w" and h: "w h = Some b" "bio_init b"
  obtains p c b' c' where "bp_peer (bio_ptr b) = Some p" and "p \<noteq> h" and "w p = Some c" and "bp_peer (bio_ptr c) = Some h"
    and "bio_read w h null n = Some (fst (read_result (bio_ptr c) null n), snd (read_result (bio_ptr c) null n), w(h \<mapsto> b', p \<mapsto> c'))"
    and "bio_ptr b' = bio_ptr b" and "bio_init b' = bio_init b" and "bio_references b' = bio_references b"
    and "bio_bio_ok (bio_ptr c')" and "bp_peer (bio_ptr c') = Some h" and "bio_init c' = bio_init c"
    and "bio_references c' = bio_references c"
    and "queue (bio_ptr c) = snd (read_result (bio_ptr c) null n) @ queue (bio_ptr c')"
proof -
  have "bp_peer (bio_ptr b) \<noteq> None" using bios_okD [OF ok h(1)] h(2) by simp
  then obtain p where bp: "bp_peer (bio_ptr b) = Some p" by auto
  obtain c where c: "p \<noteq> h" "w p = Some c" "bp_peer (bio_ptr c) = Some h" and cok: "bio_bio_ok (bio_ptr c)"
    by (rule bios_ok_peer [OF ok h(1) bp])
  note cc = bp c
  obtain m where m: "bp_buf (bio_ptr c) = Some m" "length m = bp_size (bio_ptr c)"
    using bio_bio_ok_buf [OF cok] c by auto
  define P where "P = bio_ptr c"
  define P0 where "P0 = P\<lparr>bp_request := 0\<rparr>"
  define b0 where "b0 = BIO_clear_retry_flags b"
  have P: "bp_buf P = Some m" "length m = bp_size P" "bio_bio_ok P" "bp_peer P = Some h" using m c cok by (simp_all add: P_def)
  have pq: "queue P0 = queue P" by (simp add: P0_def)
  consider (none) "null \<or> n = 0" | (eof) "\<not> null" "n \<noteq> 0" "bp_len P = 0" "bp_closed P"
    | (retry) "\<not> null" "n \<noteq> 0" "bp_len P = 0" "\<not> bp_closed P" | (data) "\<not> null" "n \<noteq> 0" "bp_len P \<noteq> 0" by blast
  then show ?thesis
  proof cases
    case none
    have "bio_read w h null n = Some (0, [], w(h \<mapsto> b0, p \<mapsto> c\<lparr>bio_ptr := P0\<rparr>))"
      using none by (simp add: bio_read_eq [OF h bp c(1,2) m(1)] b0_def P0_def P_def)
    then show ?thesis using none P by (intro that [OF cc, of b0 "c\<lparr>bio_ptr := P0\<rparr>"])
      (auto simp: read_result_def b0_def P0_def P_def [symmetric] bio_bio_ok_def)
  next
    case eof
    have "bio_read w h null n = Some (0, [], w(h \<mapsto> b0, p \<mapsto> c\<lparr>bio_ptr := P0\<rparr>))"
      using eof by (simp add: bio_read_eq [OF h bp c(1,2) m(1)] b0_def P0_def P_def)
    then show ?thesis using eof P by (intro that [OF cc, of b0 "c\<lparr>bio_ptr := P0\<rparr>"])
      (auto simp: read_result_def b0_def P0_def P_def [symmetric] bio_bio_ok_def)
  next
    case retry
    define q where "q = (if n \<le> bp_size P then n else bp_size P)"
    have "bio_read w h null n = Some (- 1, [], w(h \<mapsto> BIO_set_retry_read b0, p \<mapsto> c\<lparr>bio_ptr := P0\<lparr>bp_request := q\<rparr>\<rparr>))"
      using retry by (simp add: bio_read_eq [OF h bp c(1,2) m(1)] b0_def P0_def P_def q_def)
    then show ?thesis using retry P by (intro that [OF cc, of "BIO_set_retry_read b0" "c\<lparr>bio_ptr := P0\<lparr>bp_request := q\<rparr>\<rparr>"])
      (auto simp: read_result_def b0_def P0_def P_def [symmetric] bio_bio_ok_def q_def)
  next
    case data
    define k where "k = (if bp_len P < n then bp_len P else n)"
    have k: "0 < k" "k \<le> bp_len P" "k = min n (bp_len P)" using data by (auto simp: k_def)
    define P' where "P' = P0\<lparr>bp_len := bp_len P0 - k, bp_offset := if k = bp_len P0 then 0 else (bp_offset P0 + k) mod bp_size P0\<rparr>"
    have l: "read_loop P0 k = Some (take k (queue P0), P')"
      unfolding P'_def by (rule read_loop_result [of _ m]) (use P k in \<open>auto simp: P0_def bio_bio_ok_def\<close>)
    have "take n (queue P) = take k (queue P)" using P k length_queue [of P] by (simp add: min_def)
    then have r: "bio_read w h null n = Some (int k, take n (queue P), w(h \<mapsto> b0, p \<mapsto> c\<lparr>bio_ptr := P'\<rparr>))"
      using data l pq by (cases "bp_len P < n")
        (simp_all add: bio_read_eq [OF h bp c(1,2) m(1)] P_def [symmetric] P0_def [symmetric] k_def b0_def [symmetric])
    have "queue P' = drop k (queue P0)"
      by (rule queue_drop [of P0 m]) (use P k in \<open>auto simp: P'_def P0_def\<close>)
    then have q: "queue P = take k (queue P) @ queue P'" unfolding pq by simp
    show ?thesis
    proof (rule that [OF cc, of b0 "c\<lparr>bio_ptr := P'\<rparr>"])
      show "bio_read w h null n =
          Some (fst (read_result (bio_ptr c) null n), snd (read_result (bio_ptr c) null n), w(h \<mapsto> b0, p \<mapsto> c\<lparr>bio_ptr := P'\<rparr>))"
        using r data k(3) by (simp add: read_result_def P_def)
      show "bio_bio_ok (bio_ptr (c\<lparr>bio_ptr := P'\<rparr>))" using P k by (auto simp: P'_def P0_def bio_bio_ok_def)
      show "queue (bio_ptr c) = snd (read_result (bio_ptr c) null n) @ queue (bio_ptr (c\<lparr>bio_ptr := P'\<rparr>))"
        using q data \<open>take n (queue P) = take k (queue P)\<close> by (simp add: read_result_def P_def)
    qed (use P in \<open>simp_all add: b0_def P'_def P0_def\<close>)
  qed
qed


lemma read_result_pos: "0 < fst (read_result c null n) \<Longrightarrow> bp_buf c \<noteq> None \<Longrightarrow> length (snd (read_result c null n)) = nat (fst (read_result c null n))"
  by (auto simp: read_result_def length_queue split: if_splits)

text \<open>A call keeps the store well formed and the queues in step with what was sent and received.\<close>

definition call_ok :: "bios \<Rightarrow> bio_call \<Rightarrow> (nat \<Rightarrow> bytes) \<Rightarrow> (nat \<Rightarrow> bytes) \<Rightarrow> bool" where
  "call_ok w c s r \<longleftrightarrow>
     (\<exists>ret out w'. bio_exec w c = Some (ret, out, w') \<and> bios_ok w' \<and> fifo w' (sent c ret s) (received c out r))"

lemma call_okI: "bio_exec w c = Some (ret, out, w') \<Longrightarrow> bios_ok w' \<Longrightarrow> fifo w' (sent c ret s) (received c out r) \<Longrightarrow> call_ok w c s r"
  by (auto simp: call_ok_def)

lemma Read_ok:
  assumes ok: "bios_ok w" and f: "fifo w s r" and h: "w h = Some b"
  shows "call_ok w (Read h null len) s r"
proof (cases "bio_init b \<and> 0 < len")
  case False
  then have "\<exists>ret. bio_exec w (Read h null len) = Some (ret, [], w)" using h by (auto simp: BIO_read_def)
  then obtain ret where e: "bio_exec w (Read h null len) = Some (ret, [], w)" by blast
  show ?thesis by (rule call_okI [OF e]) (use ok f in simp_all)
next
  case True
  then have i: "bio_init b" by simp
  obtain p c b' c' where
    c: "bp_peer (bio_ptr b) = Some p" "p \<noteq> h" "w p = Some c" "bp_peer (bio_ptr c) = Some h" and
    rd: "bio_read w h null (nat len) = Some (fst (read_result (bio_ptr c) null (nat len)), snd (read_result (bio_ptr c) null (nat len)), w(h \<mapsto> b', p \<mapsto> c'))" and
    b': "bio_ptr b' = bio_ptr b" "bio_init b' = bio_init b" "bio_references b' = bio_references b" and
    c': "bio_bio_ok (bio_ptr c')" "bp_peer (bio_ptr c') = Some h" "bio_init c' = bio_init c" "bio_references c' = bio_references c" and
    q: "queue (bio_ptr c) = snd (read_result (bio_ptr c) null (nat len)) @ queue (bio_ptr c')"
    by (rule bio_read_connected [OF ok h i, of null "nat len"])
  obtain ret out where ro: "read_result (bio_ptr c) null (nat len) = (ret, out)" by (cases "read_result (bio_ptr c) null (nat len)")
  define b'' where "b'' = (if ret > 0 then b'\<lparr>bio_num_read := bio_num_read b' + of_int ret\<rparr> else b')"
  have b2: "bio_ptr b'' = bio_ptr b" "bio_init b'' = bio_init b" "bio_references b'' = bio_references b"
    using b' by (simp_all add: b''_def)
  have e: "bio_exec w (Read h null len) = Some (ret, out, w(h \<mapsto> b'', p \<mapsto> c'))"
    using True h rd c(2) unfolding ro by (simp add: BIO_read_def b''_def fun_upd_twist [of p h])
  have ok1: "bios_ok (w(h \<mapsto> b''))"
    using bios_okD [OF ok h] b2 by (intro bios_ok_upd [OF ok h]) simp_all
  have wp: "(w(h \<mapsto> b'')) p = Some c" using c by simp
  have f1: "fifo (w(h \<mapsto> b'')) s r" using b2 by (intro fifo_upd [OF f h]) simp_all
  show ?thesis
  proof (rule call_okI [OF e])
    show "bios_ok (w(h \<mapsto> b'', p \<mapsto> c'))"
      using c c' bios_okD [OF ok c(3)] by (intro bios_ok_upd [OF ok1 wp]) simp_all
    show "fifo (w(h \<mapsto> b'', p \<mapsto> c')) (sent (Read h null len) ret s) (received (Read h null len) out r)"
      unfolding sent.simps received.simps by (rule fifo_read [OF ok1 f1 wp c(4) c'(2)]) (use q ro in simp)
  qed
qed

section \<open>Writing\<close>

text \<open>A write takes as much as there is room for.\<close>

lemma write_ok:
  assumes ok: "bios_ok w" and h: "w h = Some b" and i: "bio_init b" and l: "n \<le> length inp" "0 < n"
  obtains b' k where "bio_write w h (Some inp) n = Some (if k = 0 then - 1 else int k, w(h \<mapsto> b'))"
    and "k = (if bp_closed (bio_ptr b) then 0 else min n (bp_size (bio_ptr b) - bp_len (bio_ptr b)))"
    and "bio_bio_ok (bio_ptr b')" and "bp_peer (bio_ptr b') = bp_peer (bio_ptr b)" and "bio_init b' = bio_init b"
    and "bio_references b' = bio_references b" and "queue (bio_ptr b') = queue (bio_ptr b) @ take k inp"
proof -
  note that1 = that
  define b0 where "b0 = BIO_clear_retry_flags b"
  define P where "P = bio_ptr b"
  define P0 where "P0 = P\<lparr>bp_request := 0\<rparr>"
  have P: "bio_bio_ok P" "bp_peer P \<noteq> None" using bios_okD [OF ok h] i by (simp_all add: P_def)
  obtain m where m: "bp_buf P = Some m" "length m = bp_size P" using bio_bio_ok_buf P by blast
  have b0: "bio_ptr b0 = P" "bio_init b0" "bio_references b0 = bio_references b" using i by (simp_all add: b0_def P_def)
  have le: "bp_len P \<le> bp_size P" using P by (simp add: bio_bio_ok_def)
  have e: "bio_write w h (Some inp) n =
      (if bp_closed P then Some (- 1, w(h \<mapsto> b0\<lparr>bio_ptr := P0\<rparr>))
       else if bp_len P = bp_size P then Some (- 1, w(h \<mapsto> BIO_set_retry_write (b0\<lparr>bio_ptr := P0\<rparr>)))
       else Option.bind (write_loop P0 inp (min n (bp_size P - bp_len P)))
              (\<lambda>b. Some (int (min n (bp_size P - bp_len P)), w(h \<mapsto> b0\<lparr>bio_ptr := b\<rparr>))))"
    using h b0 i l P m le by (simp add: bio_write_def b0_def [symmetric] P_def [symmetric] P0_def Let_def min_def) auto
  have P0: "bio_bio_ok P0" "bp_peer P0 = bp_peer P" "queue P0 = queue P" using P m by (auto simp: P0_def bio_bio_ok_def)
  consider (closed) "bp_closed P" | (full) "\<not> bp_closed P" "bp_len P = bp_size P" | (room) "\<not> bp_closed P" "bp_len P \<noteq> bp_size P" by blast
  then show ?thesis
  proof cases
    case closed
    then show ?thesis using e b0 P0 i by (intro that1 [of 0 "b0\<lparr>bio_ptr := P0\<rparr>"]) (simp_all add: P_def [symmetric])
  next
    case full
    then show ?thesis using e b0 P0 i l by (intro that1 [of 0 "BIO_set_retry_write (b0\<lparr>bio_ptr := P0\<rparr>)"]) (simp_all add: P_def [symmetric])
  next
    case room
    define k where "k = min n (bp_size P - bp_len P)"
    have k: "0 < k" "bp_len P + k \<le> bp_size P" "k \<le> length inp" using room le l by (auto simp: k_def)
    obtain m' where m': "write_loop P0 inp k = Some (P0\<lparr>bp_buf := Some m', bp_len := bp_len P0 + k\<rparr>)" "length m' = bp_size P0"
        "queue (P0\<lparr>bp_buf := Some m', bp_len := bp_len P0 + k\<rparr>) = queue P0 @ take k inp"
      using write_loop_result [of P0 m k inp] m P k by (auto simp: P0_def bio_bio_ok_def)
    define P' where "P' = P0\<lparr>bp_buf := Some m', bp_len := bp_len P0 + k\<rparr>"
    have "bio_write w h (Some inp) n = Some (int k, w(h \<mapsto> b0\<lparr>bio_ptr := P'\<rparr>))"
      using e room m'(1) unfolding k_def [symmetric] by (simp add: P'_def)
    moreover have "bio_bio_ok P'" using P m'(2) k by (auto simp: P'_def P0_def bio_bio_ok_def)
    moreover have "queue P' = queue P @ take k inp" using m'(3) P0(3) by (simp add: P'_def)
    moreover have "bp_peer P' = bp_peer P" by (simp add: P'_def P0_def)
    ultimately show ?thesis using room k(1) b0 i
      by (intro that1 [of k "b0\<lparr>bio_ptr := P'\<rparr>"]) (simp_all add: P_def [symmetric] k_def)
  qed
qed


lemma Write_ok:
  assumes ok: "bios_ok w" and f: "fifo w s r" and h: "w h = Some b" and l: "\<And>inp. buf = Some inp \<Longrightarrow> inl \<le> int (length inp)"
  shows "call_ok w (Write h buf inl) s r"
proof -
  consider (idle) "\<not> bio_init b \<or> inl \<le> 0" | (null) "bio_init b" "0 < inl" "buf = None"
    | (data) inp where "bio_init b" "0 < inl" "buf = Some inp"
    by fastforce
  then show ?thesis
  proof cases
    case idle
    define ret where "ret = (if bio_init b then 0 else - 2 :: int)"
    have e: "bio_exec w (Write h buf inl) = Some (ret, [], w)" using h idle by (auto simp: BIO_write_def ret_def)
    have "sent (Write h buf inl) ret s = s" by (cases buf) (simp_all add: ret_def)
    then show ?thesis by (intro call_okI [OF e]) (use ok f in simp_all)
  next
    case null
    have e: "bio_exec w (Write h buf inl) = Some (0, [], w(h \<mapsto> BIO_clear_retry_flags b))"
      using h null by (simp add: BIO_write_def bio_write_def Let_def)
    show ?thesis
    proof (rule call_okI [OF e])
      show "bios_ok (w(h \<mapsto> BIO_clear_retry_flags b))" using bios_okD [OF ok h] by (intro bios_ok_upd [OF ok h]) simp_all
      show "fifo (w(h \<mapsto> BIO_clear_retry_flags b)) (sent (Write h buf inl) 0 s) (received (Write h buf inl) [] r)"
        using fifo_upd [OF f h, of "BIO_clear_retry_flags b"] null by simp
    qed
  next
    case data
    then have "nat inl \<le> length inp" "0 < nat inl" using l by simp_all
    from write_ok [OF ok h data(1) this]
    obtain b' k where wr: "bio_write w h (Some inp) (nat inl) = Some (if k = 0 then - 1 else int k, w(h \<mapsto> b'))" and
      b': "bio_bio_ok (bio_ptr b')" "bp_peer (bio_ptr b') = bp_peer (bio_ptr b)" "bio_init b' = bio_init b"
        "bio_references b' = bio_references b" "queue (bio_ptr b') = queue (bio_ptr b) @ take k inp" by metis
    define ret where "ret = (if k = 0 then - 1 else int k)"
    define b'' where "b'' = (if ret > 0 then b'\<lparr>bio_num_write := bio_num_write b' + of_int ret\<rparr> else b')"
    have b2: "bio_ptr b'' = bio_ptr b'" "bio_init b'' = bio_init b" "bio_references b'' = bio_references b"
      using b' by (simp_all add: b''_def)
    have e: "bio_exec w (Write h buf inl) = Some (ret, [], w(h \<mapsto> b''))"
      using data h wr by (simp add: BIO_write_def ret_def b''_def)
    have st: "sent (Write h buf inl) ret s = s(h := s h @ take k inp)" using data by (auto simp: ret_def)
    show ?thesis
    proof (rule call_okI [OF e])
      show "bios_ok (w(h \<mapsto> b''))" using bios_okD [OF ok h] b' b2 by (intro bios_ok_upd [OF ok h]) simp_all
      show "fifo (w(h \<mapsto> b'')) (sent (Write h buf inl) ret s) (received (Write h buf inl) [] r)"
        unfolding st using fifo_write [OF f h, of b'' "take k inp"] b' b2 by simp
    qed
  qed
qed

section \<open>The other calls\<close>

lemma Ctrl_ok:
  assumes ok: "bios_ok w" and f: "fifo w s r" and h: "w h = Some b" and p: "\<And>x. ptr = Some x \<Longrightarrow> w x \<noteq> None"
  shows "call_ok w (Ctrl h cmd num ptr) s r"
proof -
  have peer: "w p \<noteq> None" if "bp_peer (bio_ptr b) = Some p" for p using bios_ok_peer [OF ok h that] by auto
  have "\<exists>ret b'. bio_ctrl w h cmd num ptr = Some (ret, w(h \<mapsto> b')) \<and> bio_bio_ok (bio_ptr b') \<and>
      bp_peer (bio_ptr b') = bp_peer (bio_ptr b) \<and> bio_init b' = bio_init b \<and> bio_references b' = bio_references b \<and>
      queue (bio_ptr b') = queue (bio_ptr b)"
  proof -
    have id: "w(h \<mapsto> b) = w" using h by auto
    have upd: ?thesis if "bio_ctrl w h cmd num ptr = Some (ret, w(h \<mapsto> b'))" and "bio_bio_ok (bio_ptr b')"
      "bp_peer (bio_ptr b') = bp_peer (bio_ptr b)" "bio_init b' = bio_init b" "bio_references b' = bio_references b"
      "queue (bio_ptr b') = queue (bio_ptr b)" for ret b'
      using that by blast
    have same: ?thesis if "\<exists>ret. bio_ctrl w h cmd num ptr = Some (ret, w)"
      using that bios_okD [OF ok h] id by metis
    have b: "bio_bio_ok (bio_ptr b)" using bios_okD [OF ok h] by simp
    note cmds = BIO_CTRL_EOF_def BIO_CTRL_GET_CLOSE_def BIO_CTRL_SET_CLOSE_def BIO_CTRL_PENDING_def BIO_CTRL_FLUSH_def
      BIO_CTRL_WPENDING_def BIO_C_GET_WRITE_BUF_SIZE_def BIO_C_GET_WRITE_GUARANTEE_def BIO_C_GET_READ_REQUEST_def
      BIO_C_SHUTDOWN_WR_def BIO_C_RESET_READ_REQUEST_def
    consider (reset) "cmd = BIO_C_RESET_READ_REQUEST" | (shutdown) "cmd = BIO_C_SHUTDOWN_WR" | (close) "cmd = BIO_CTRL_SET_CLOSE"
      | (query) "cmd \<noteq> BIO_C_RESET_READ_REQUEST" "cmd \<noteq> BIO_C_SHUTDOWN_WR" "cmd \<noteq> BIO_CTRL_SET_CLOSE" by blast
    then show ?thesis
    proof cases
      case reset
      have e: "bio_ctrl w h cmd num ptr = Some (1, w(h \<mapsto> b\<lparr>bio_ptr := (bio_ptr b)\<lparr>bp_request := 0\<rparr>\<rparr>))"
        using h reset by (simp add: bio_ctrl_def cmds Let_def)
      have ok': "bio_bio_ok ((bio_ptr b)\<lparr>bp_request := 0\<rparr>)" using b by (simp add: bio_bio_ok_def split: option.splits)
      show ?thesis by (rule upd [OF e]) (use ok' in simp_all)
    next
      case shutdown
      have e: "bio_ctrl w h cmd num ptr = Some (1, w(h \<mapsto> b\<lparr>bio_ptr := (bio_ptr b)\<lparr>bp_closed := True\<rparr>\<rparr>))"
        using h shutdown by (simp add: bio_ctrl_def cmds Let_def)
      have ok': "bio_bio_ok ((bio_ptr b)\<lparr>bp_closed := True\<rparr>)" using b by (simp add: bio_bio_ok_def split: option.splits)
      have q: "queue ((bio_ptr b)\<lparr>bp_closed := True\<rparr>) = queue (bio_ptr b)" by (rule queue_cong) simp_all
      show ?thesis by (rule upd [OF e]) (use ok' q in simp_all)
    next
      case close
      have e: "bio_ctrl w h cmd num ptr = Some (1, w(h \<mapsto> b\<lparr>bio_shutdown := sint (word_of_int num :: 32 word)\<rparr>))"
        using h close by (simp add: bio_ctrl_def cmds Let_def)
      show ?thesis by (rule upd [OF e]) (use b in simp_all)
    next
      case query
      have "\<exists>ret. bio_ctrl w h cmd num ptr = Some (ret, w)"
        using h query peer p unfolding bio_ctrl_def Let_def by (auto split: option.splits)
      then show ?thesis by (rule same)
    qed
  qed
  then obtain ret b' where e: "bio_exec w (Ctrl h cmd num ptr) = Some (ret, [], w(h \<mapsto> b'))" and
    b': "bio_bio_ok (bio_ptr b')" "bp_peer (bio_ptr b') = bp_peer (bio_ptr b)" "bio_init b' = bio_init b"
      "bio_references b' = bio_references b" "queue (bio_ptr b') = queue (bio_ptr b)"
    by (auto simp: BIO_ctrl_def)
  show ?thesis
    by (rule call_okI [OF e]) (use bios_ok_upd [OF ok h] fifo_upd [OF f h] bios_okD [OF ok h] b' in simp_all)
qed

lemma Up_ref_ok:
  assumes ok: "bios_ok w" and f: "fifo w s r" and h: "w h = Some b"
  shows "call_ok w (Up_ref h) s r"
proof -
  define b' where "b' = b\<lparr>bio_references := CRYPTO_refcount_inc (bio_references b)\<rparr>"
  have e: "bio_exec w (Up_ref h) = Some (1, [], w(h \<mapsto> b'))" using h by (simp add: BIO_up_ref_def b'_def)
  have "CRYPTO_refcount_inc n \<noteq> 0" if "n \<noteq> 0" for n
  proof -
    have "n + 1 \<noteq> 0" if "n < CRYPTO_REFCOUNT_MAX"
      using that unat_Suc_less [OF that] by (metis nat.distinct(1) unat_0)
    then show ?thesis using that by (simp add: CRYPTO_refcount_inc_def)
  qed
  then show ?thesis using bios_okD [OF ok h]
    by (intro call_okI [OF e]) (use bios_ok_upd [OF ok h] fifo_upd [OF f h] in \<open>simp_all add: b'_def\<close>)
qed


text \<open>Removing one end disconnects and empties the other.\<close>

lemma unpair_upd [simp]:
  "bp_peer (bio_ptr (unpair b)) = None" "bio_init (unpair b) = False" "bio_references (unpair b) = bio_references b"
  by (simp_all add: unpair_def)

lemma remove_ok:
  assumes ok: "bios_ok w" and f: "fifo w s r" and h: "w h = Some b"
    and w': "w' = (case bp_peer (bio_ptr b) of None \<Rightarrow> w(h := None) | Some p \<Rightarrow> w(p := map_option unpair (w p), h := None))"
  shows "bios_ok w'" and "fifo w' s r"
proof -
  have keep: "w x = Some c" if "w' x = Some c" "bp_peer (bio_ptr c) \<noteq> None" for x c
    using that w' by (auto split: option.splits if_splits)
  have off: "x \<noteq> h \<and> bp_peer (bio_ptr b) \<noteq> Some x" if "w' x = Some c" "bp_peer (bio_ptr c) \<noteq> None" for x c
    using that w' by (auto split: option.splits if_splits)
  show "fifo w' s r"
    unfolding fifo_def
  proof (intro allI impI)
    fix x c q assume "w' x = Some c" "bp_peer (bio_ptr c) = Some q"
    then show "s x = r q @ queue (bio_ptr c)" using keep [of x c] f by (simp add: fifo_def)
  qed
  show "bios_ok w'"
    unfolding bios_ok_def
  proof (intro allI impI)
    fix x c assume x: "w' x = Some c"
    have "(\<exists>d. w x = Some d \<and> (c = d \<or> c = unpair d))" using x w' by (auto split: option.splits if_splits)
    then obtain d where d: "w x = Some d" "c = d \<or> c = unpair d" by blast
    note dok = bios_okD [OF ok d(1)]
    have un: "bio_bio_ok (bio_ptr (unpair d))"
      using dok(1) by (auto simp: unpair_def bio_bio_ok_def split: option.splits)
    have "p \<noteq> x \<and> (\<exists>e. w' p = Some e \<and> bp_peer (bio_ptr e) = Some x)" if p: "bp_peer (bio_ptr c) = Some p" for p
    proof -
      have c: "w x = Some c" using keep [OF x] p by simp
      obtain e where e: "p \<noteq> x" "w p = Some e" "bp_peer (bio_ptr e) = Some x" by (rule bios_ok_peer [OF ok c p])
      have "p \<noteq> h" using off [OF x] p e h by auto
      moreover have "bp_peer (bio_ptr b) \<noteq> Some p"
      proof
        assume bp: "bp_peer (bio_ptr b) = Some p"
        obtain e' where "w p = Some e'" "bp_peer (bio_ptr e') = Some h" by (rule bios_ok_peer [OF ok h bp])
        then show False using e off [OF x] p by simp
      qed
      ultimately have "w' p = w p" using w' by (auto split: option.splits)
      then show ?thesis using e by simp
    qed
    then show "bio_bio_ok (bio_ptr c) \<and> bio_references c \<noteq> 0 \<and> bio_init c = (bp_peer (bio_ptr c) \<noteq> None) \<and>
        (\<forall>p. bp_peer (bio_ptr c) = Some p \<longrightarrow> p \<noteq> x \<and> (\<exists>e. w' p = Some e \<and> bp_peer (bio_ptr e) = Some x))"
      using d(2) dok un by auto
  qed
qed

lemma bio_free_result:
  assumes ok: "bios_ok w" and h: "w h = Some b"
  shows "map_option (\<lambda>w. w(h := None)) (bio_free (w(h \<mapsto> b\<lparr>bio_references := n\<rparr>)) h) =
    Some (case bp_peer (bio_ptr b) of None \<Rightarrow> w(h := None) | Some p \<Rightarrow> w(p := map_option unpair (w p), h := None))"
proof (cases "bp_peer (bio_ptr b)")
  case None
  then show ?thesis by (simp add: bio_free_def)
next
  case (Some p)
  obtain c where c: "p \<noteq> h" "w p = Some c" "bp_peer (bio_ptr c) = Some h" "bio_bio_ok (bio_ptr c)"
    by (rule bios_ok_peer [OF ok h Some])
  have "bp_buf (bio_ptr c) \<noteq> None" "bp_buf (bio_ptr b) \<noteq> None"
    using bio_bio_ok_buf [OF c(4)] c(3) bio_bio_ok_buf [OF bios_okD(1) [OF ok h]] Some by auto
  then show ?thesis using Some c by (auto simp: bio_free_def bio_destroy_pair_def fun_eq_iff)
qed

lemma Free_ok:
  assumes ok: "bios_ok w" and f: "fifo w s r" and h: "w h = Some b"
  shows "call_ok w (Free (Some h)) s r"
proof -
  have "bio_references b \<noteq> 0" using bios_okD [OF ok h] by simp
  then obtain n where n: "CRYPTO_refcount_dec_and_test_zero (bio_references b) = Some (n = 0, n)"
    by (simp add: CRYPTO_refcount_dec_and_test_zero_def Let_def)
  show ?thesis
  proof (cases "n = 0")
    case False
    then have e: "bio_exec w (Free (Some h)) = Some (0, [], w(h \<mapsto> b\<lparr>bio_references := n\<rparr>))"
      using h n by (simp add: BIO_free_def Let_def)
    show ?thesis by (rule call_okI [OF e])
      (use bios_ok_upd [OF ok h] fifo_upd [OF f h] bios_okD [OF ok h] False in simp_all)
  next
    case True
    define w' where "w' = (case bp_peer (bio_ptr b) of None \<Rightarrow> w(h := None) | Some p \<Rightarrow> w(p := map_option unpair (w p), h := None))"
    have m: "map_option (\<lambda>w. w(h := None)) (bio_free (w(h \<mapsto> b\<lparr>bio_references := n\<rparr>)) h) = Some w'"
      unfolding w'_def by (rule bio_free_result [OF ok h])
    obtain w1 where w1: "bio_free (w(h \<mapsto> b\<lparr>bio_references := n\<rparr>)) h = Some w1" "w1(h := None) = w'" using m by auto
    have e: "bio_exec w (Free (Some h)) = Some (1, [], w')"
      using h n True w1 by (simp add: BIO_free_def Let_def)
    show ?thesis by (rule call_okI [OF e]) (use remove_ok [OF ok f h w'_def] in simp_all)
  qed
qed


section \<open>New pairs\<close>

definition fresh_bio :: bio where
  "fresh_bio =
     \<lparr>bio_init = False, bio_shutdown = 1, bio_flags = 0, bio_retry_reason = 0, bio_references = 1,
      bio_ptr = \<lparr>bp_peer = None, bp_closed = False, bp_len = 0, bp_offset = 0, bp_size = 17 * 1024, bp_buf = None, bp_request = 0\<rparr>,
      bio_num_read = 0, bio_num_write = 0\<rparr>"

lemma BIO_new_result: "BIO_new malloc = None \<or> BIO_new malloc = Some fresh_bio"
  by (auto simp: BIO_new_def bio_new_def fresh_bio_def split: option.splits)

lemma BIO_free_fresh:
  assumes "w h = Some b" and "bio_references b = 1" and "bp_peer (bio_ptr b) = None"
  shows "BIO_free w (Some h) = Some (1, w(h := None))"
  using assms by (simp add: BIO_free_def CRYPTO_refcount_dec_and_test_zero_def CRYPTO_REFCOUNT_MAX_def bio_free_def Let_def)

lemma make_buf_fresh:
  assumes "malloc_contract malloc" and "n < 2 ^ 64 - 8" and "make_buf malloc (bio_ptr fresh_bio) n = (ok, b)"
  shows "bp_peer b = None" and "ok \<Longrightarrow> bio_bio_ok (b\<lparr>bp_peer := q, bp_closed := False, bp_request := 0\<rparr>)"
    and "ok \<Longrightarrow> queue (b\<lparr>bp_peer := q, bp_closed := False, bp_request := 0\<rparr>) = []"
proof -
  define k where "k = (if n \<noteq> 0 then n else 17 * 1024)"
  have k: "0 < k" "k < 2 ^ 64 - 8" using assms(2) by (auto simp: k_def)
  have mb: "make_buf malloc (bio_ptr fresh_bio) n =
      (case OPENSSL_malloc malloc (of_nat k) of
         None \<Rightarrow> (False, (bio_ptr fresh_bio)\<lparr>bp_size := k\<rparr>)
       | Some m \<Rightarrow> (True, (bio_ptr fresh_bio)\<lparr>bp_size := k, bp_buf := Some m\<rparr>))"
    by (auto simp: make_buf_def fresh_bio_def k_def Let_def split: option.splits)
  show "bp_peer b = None" using assms(3) unfolding mb by (auto simp: fresh_bio_def split: option.splits)
  assume ok
  then obtain m where m: "OPENSSL_malloc malloc (of_nat k) = Some m" "b = (bio_ptr fresh_bio)\<lparr>bp_size := k, bp_buf := Some m\<rparr>"
    using assms(3) unfolding mb by (auto split: option.splits)
  have "unat (of_nat k + 8 :: u64) = k + 8" using k by (simp add: unat_word_ariths unat_of_nat)
  then have "length m = k" using OPENSSL_malloc_length [OF assms(1) m(1)] by simp
  then show "bio_bio_ok (b\<lparr>bp_peer := q, bp_closed := False, bp_request := 0\<rparr>)"
    using k by (simp add: m(2) bio_bio_ok_def fresh_bio_def)
  show "queue (b\<lparr>bp_peer := q, bp_closed := False, bp_request := 0\<rparr>) = []" by (simp add: m(2) queue_def fresh_bio_def)
qed

text \<open>Either both ends are there, connected and empty, or nothing has been left behind.\<close>

lemma BIO_new_bio_pair_result:
  assumes a: "bio_allowed w (New_pair malloc1 malloc2 h1 h2 n1 n2)"
  shows "BIO_new_bio_pair malloc1 malloc2 h1 h2 w n1 n2 = Some ((None, None), w) \<or>
    (\<exists>b1 b2. BIO_new_bio_pair malloc1 malloc2 h1 h2 w n1 n2 =
       Some ((Some h1, Some h2), w(h1 \<mapsto> fresh_bio\<lparr>bio_ptr := b1, bio_init := True\<rparr>, h2 \<mapsto> fresh_bio\<lparr>bio_ptr := b2, bio_init := True\<rparr>)) \<and>
       bp_peer b1 = Some h2 \<and> bp_peer b2 = Some h1 \<and> bio_bio_ok b1 \<and> bio_bio_ok b2 \<and> queue b1 = [] \<and> queue b2 = [])"
proof -
  from a have h: "h1 \<noteq> h2" "w h1 = None" "w h2 = None" by simp_all
  have r: "bio_references fresh_bio = 1" "bp_peer (bio_ptr fresh_bio) = None" by (simp_all add: fresh_bio_def)
  have id: "w(h1 := None) = w" "w(h2 := None) = w" "w(h1 := None, h2 := None) = w" using h by auto
  consider (n1) "BIO_new malloc1 = None" "BIO_new malloc2 = None" | (n2) "BIO_new malloc1 = None" "BIO_new malloc2 = Some fresh_bio"
    | (n3) "BIO_new malloc1 = Some fresh_bio" "BIO_new malloc2 = None"
    | (both) "BIO_new malloc1 = Some fresh_bio" "BIO_new malloc2 = Some fresh_bio"
    using BIO_new_result [of malloc1] BIO_new_result [of malloc2] by metis
  then show ?thesis
  proof cases
    case n1
    then have "BIO_new_bio_pair malloc1 malloc2 h1 h2 w n1 n2 = Some ((None, None), w)"
      by (simp add: BIO_new_bio_pair_def place_def BIO_free_def)
    then show ?thesis by blast
  next
    case n2
    have "BIO_free (w(h2 \<mapsto> fresh_bio)) (Some h2) = Some (1, w)"
      using BIO_free_fresh [of "w(h2 \<mapsto> fresh_bio)" h2 fresh_bio] r id by simp
    moreover have "BIO_free (w(h2 \<mapsto> fresh_bio)) None = Some (1, w(h2 \<mapsto> fresh_bio))" by (simp add: BIO_free_def)
    ultimately have "BIO_new_bio_pair malloc1 malloc2 h1 h2 w n1 n2 = Some ((None, None), w)"
      using n2 by (simp add: BIO_new_bio_pair_def place_def)
    then show ?thesis by blast
  next
    case n3
    have "BIO_free (w(h1 \<mapsto> fresh_bio)) (Some h1) = Some (1, w)"
      using BIO_free_fresh [of "w(h1 \<mapsto> fresh_bio)" h1 fresh_bio] r id by simp
    moreover have "BIO_free w None = Some (1, w)" by (simp add: BIO_free_def)
    ultimately have "BIO_new_bio_pair malloc1 malloc2 h1 h2 w n1 n2 = Some ((None, None), w)"
      using n3 by (simp add: BIO_new_bio_pair_def place_def)
    then show ?thesis by blast
  next
    case both
    define w1 where "w1 = w(h1 \<mapsto> fresh_bio, h2 \<mapsto> fresh_bio)"
    have w1: "w1 h1 = Some fresh_bio" "w1 h2 = Some fresh_bio" using h by (simp_all add: w1_def)
    obtain ok1 b1 where m1: "make_buf malloc1 (bio_ptr fresh_bio) n1 = (ok1, b1)" by (cases "make_buf malloc1 (bio_ptr fresh_bio) n1")
    obtain ok2 b2 where m2: "make_buf malloc2 (bio_ptr fresh_bio) n2 = (ok2, b2)" by (cases "make_buf malloc2 (bio_ptr fresh_bio) n2")
    have c: "malloc_contract malloc1" "malloc_contract malloc2" "n1 < 2 ^ 64 - 8" "n2 < 2 ^ 64 - 8" using a by simp_all
    note f1 = make_buf_fresh [OF c(1,3) m1] and f2 = make_buf_fresh [OF c(2,4) m2]
    have np: "BIO_new_bio_pair malloc1 malloc2 h1 h2 w n1 n2 =
        Option.bind (bio_make_pair malloc1 malloc2 w1 h1 h2 n1 n2) (\<lambda>(ok, w).
           if \<not> ok
           then Option.bind (BIO_free w (Some h1)) (\<lambda>(_, w). Option.bind (BIO_free w (Some h2)) (\<lambda>(_, w). Some ((None, None), w)))
           else Some ((Some h1, Some h2), w))"
      using both by (simp add: BIO_new_bio_pair_def place_def w1_def)
    have freed: "Option.bind (BIO_free w' (Some h1)) (\<lambda>(_, w). Option.bind (BIO_free w (Some h2)) (\<lambda>(_, w). Some ((None, None), w))) =
        Some ((None :: nat option, None :: nat option), w)"
      if w': "w' = w(h1 \<mapsto> x1, h2 \<mapsto> x2)" "bio_references x1 = 1" "bio_references x2 = 1"
        "bp_peer (bio_ptr x1) = None" "bp_peer (bio_ptr x2) = None" for w' x1 x2
    proof -
      have "BIO_free w' (Some h1) = Some (1, w'(h1 := None))" using w' h by (intro BIO_free_fresh [of _ _ x1]) simp_all
      moreover have "BIO_free (w'(h1 := None)) (Some h2) = Some (1, w'(h1 := None, h2 := None))"
        using w' h by (intro BIO_free_fresh [of _ _ x2]) simp_all
      moreover have "w'(h1 := None, h2 := None) = w" using w' h by auto
      ultimately show ?thesis by simp
    qed
    consider (no1) "\<not> ok1" | (no2) "ok1" "\<not> ok2" | (yes) "ok1" "ok2" by blast
    then show ?thesis
    proof cases
      case no1
      then have "bio_make_pair malloc1 malloc2 w1 h1 h2 n1 n2 = Some (False, w1(h1 \<mapsto> fresh_bio\<lparr>bio_ptr := b1\<rparr>))"
        using w1 r m1 by (simp add: bio_make_pair_def)
      moreover have "w1(h1 \<mapsto> x) = w(h1 \<mapsto> x, h2 \<mapsto> fresh_bio)" for x using h by (auto simp: w1_def)
      ultimately have "BIO_new_bio_pair malloc1 malloc2 h1 h2 w n1 n2 = Some ((None, None), w)"
        unfolding np using freed [OF refl, of "fresh_bio\<lparr>bio_ptr := b1\<rparr>" fresh_bio] f1(1) r by simp
      then show ?thesis by blast
    next
      case no2
      then have "bio_make_pair malloc1 malloc2 w1 h1 h2 n1 n2 =
          Some (False, w1(h1 \<mapsto> fresh_bio\<lparr>bio_ptr := b1\<rparr>, h2 \<mapsto> fresh_bio\<lparr>bio_ptr := b2\<rparr>))"
        using w1 r m1 m2 by (simp add: bio_make_pair_def)
      moreover have "w1(h1 \<mapsto> x, h2 \<mapsto> y) = w(h1 \<mapsto> x, h2 \<mapsto> y)" for x y using h by (auto simp: w1_def)
      ultimately have "BIO_new_bio_pair malloc1 malloc2 h1 h2 w n1 n2 = Some ((None, None), w)"
        unfolding np using freed [OF refl, of "fresh_bio\<lparr>bio_ptr := b1\<rparr>" "fresh_bio\<lparr>bio_ptr := b2\<rparr>"] f1(1) f2(1) r by simp
      then show ?thesis by blast
    next
      case yes
      define c1 where "c1 = b1\<lparr>bp_peer := Some h2, bp_closed := False, bp_request := 0\<rparr>"
      define c2 where "c2 = b2\<lparr>bp_peer := Some h1, bp_closed := False, bp_request := 0\<rparr>"
      have "bio_make_pair malloc1 malloc2 w1 h1 h2 n1 n2 =
          Some (True, w1(h1 \<mapsto> fresh_bio\<lparr>bio_ptr := c1, bio_init := True\<rparr>, h2 \<mapsto> fresh_bio\<lparr>bio_ptr := c2, bio_init := True\<rparr>))"
        using yes w1 r m1 m2 by (simp add: bio_make_pair_def c1_def c2_def)
      moreover have "w1(h1 \<mapsto> x, h2 \<mapsto> y) = w(h1 \<mapsto> x, h2 \<mapsto> y)" for x y using h by (auto simp: w1_def)
      ultimately have "BIO_new_bio_pair malloc1 malloc2 h1 h2 w n1 n2 =
          Some ((Some h1, Some h2), w(h1 \<mapsto> fresh_bio\<lparr>bio_ptr := c1, bio_init := True\<rparr>, h2 \<mapsto> fresh_bio\<lparr>bio_ptr := c2, bio_init := True\<rparr>))"
        unfolding np by simp
      then show ?thesis using f1(2,3) [OF yes(1)] f2(2,3) [OF yes(2)]
        by (intro disjI2 exI [of _ c1] exI [of _ c2]) (simp add: c1_def c2_def)
    qed
  qed
qed

lemma New_pair_ok:
  assumes ok: "bios_ok w" and f: "fifo w s r" and a: "bio_allowed w (New_pair malloc1 malloc2 h1 h2 n1 n2)"
  shows "call_ok w (New_pair malloc1 malloc2 h1 h2 n1 n2) s r"
proof -
  from a have h: "h1 \<noteq> h2" "w h1 = None" "w h2 = None" by simp_all
  have old: "x \<noteq> h1 \<and> x \<noteq> h2 \<and> p \<noteq> h1 \<and> p \<noteq> h2" if "w x = Some b" "bp_peer (bio_ptr b) = Some p" for x b p
    using bios_ok_peer [OF ok that] h that(1) by (metis option.distinct(1))
  have f0: "fifo w (s(h1 := [], h2 := [])) (r(h1 := [], h2 := []))"
    using f old unfolding fifo_def by (metis fun_upd_apply)
  from BIO_new_bio_pair_result [OF a] show ?thesis
  proof (elim disjE exE conjE)
    assume "BIO_new_bio_pair malloc1 malloc2 h1 h2 w n1 n2 = Some ((None, None), w)"
    then have e: "bio_exec w (New_pair malloc1 malloc2 h1 h2 n1 n2) = Some (0, [], w)" by simp
    show ?thesis by (rule call_okI [OF e]) (use ok f0 in simp_all)
  next
    fix b1 b2
    define x1 where "x1 = fresh_bio\<lparr>bio_ptr := b1, bio_init := True\<rparr>"
    define x2 where "x2 = fresh_bio\<lparr>bio_ptr := b2, bio_init := True\<rparr>"
    assume np: "BIO_new_bio_pair malloc1 malloc2 h1 h2 w n1 n2 =
        Some ((Some h1, Some h2), w(h1 \<mapsto> fresh_bio\<lparr>bio_ptr := b1, bio_init := True\<rparr>, h2 \<mapsto> fresh_bio\<lparr>bio_ptr := b2, bio_init := True\<rparr>))"
      and p: "bp_peer b1 = Some h2" "bp_peer b2 = Some h1" and b: "bio_bio_ok b1" "bio_bio_ok b2" and q: "queue b1 = []" "queue b2 = []"
    have x: "bio_ptr x1 = b1" "bio_ptr x2 = b2" "bio_init x1" "bio_init x2" "bio_references x1 = 1" "bio_references x2 = 1"
      by (simp_all add: x1_def x2_def fresh_bio_def)
    have e: "bio_exec w (New_pair malloc1 malloc2 h1 h2 n1 n2) = Some (1, [], w(h1 \<mapsto> x1, h2 \<mapsto> x2))"
      using np by (simp add: x1_def x2_def)
    have "bios_ok (w(h1 \<mapsto> x1, h2 \<mapsto> x2))"
      unfolding bios_ok_def
    proof (intro allI impI)
      fix y c assume "(w(h1 \<mapsto> x1, h2 \<mapsto> x2)) y = Some c"
      then consider "y = h1" "c = x1" | "y = h2" "c = x2" | "y \<noteq> h1" "y \<noteq> h2" "w y = Some c" using h by (auto split: if_splits)
      then show "bio_bio_ok (bio_ptr c) \<and> bio_references c \<noteq> 0 \<and> bio_init c = (bp_peer (bio_ptr c) \<noteq> None) \<and>
          (\<forall>p. bp_peer (bio_ptr c) = Some p \<longrightarrow> p \<noteq> y \<and> (\<exists>e. (w(h1 \<mapsto> x1, h2 \<mapsto> x2)) p = Some e \<and> bp_peer (bio_ptr e) = Some y))"
      proof cases
        case 3
        have "p \<noteq> y \<and> (\<exists>e. (w(h1 \<mapsto> x1, h2 \<mapsto> x2)) p = Some e \<and> bp_peer (bio_ptr e) = Some y)"
          if cp: "bp_peer (bio_ptr c) = Some p" for p
        proof -
          obtain e where "p \<noteq> y" "w p = Some e" "bp_peer (bio_ptr e) = Some y" by (rule bios_ok_peer [OF ok 3(3) cp])
          then show ?thesis using old [OF 3(3) cp] by simp
        qed
        then show ?thesis using bios_okD [OF ok 3(3)] by simp
      qed (use x p b h in auto)
    qed
    moreover have "fifo (w(h1 \<mapsto> x1, h2 \<mapsto> x2)) (s(h1 := [], h2 := [])) (r(h1 := [], h2 := []))"
      unfolding fifo_def
    proof (intro allI impI)
      fix y c z assume y: "(w(h1 \<mapsto> x1, h2 \<mapsto> x2)) y = Some c" "bp_peer (bio_ptr c) = Some z"
      consider "y = h1" "c = x1" | "y = h2" "c = x2" | "y \<noteq> h1" "y \<noteq> h2" "w y = Some c" using y(1) h by (auto split: if_splits)
      then show "(s(h1 := [], h2 := [])) y = (r(h1 := [], h2 := [])) z @ queue (bio_ptr c)"
      proof cases
        case 3
        show ?thesis by (rule f0 [unfolded fifo_def, rule_format, OF 3(3) y(2)])
      qed (use x p q h y(2) in auto)
    qed
    ultimately show ?thesis by (intro call_okI [OF e]) simp_all
  qed
qed

lemma call_allowed:
  assumes "bios_ok w" and "fifo w s r" and "bio_allowed w c"
  shows "call_ok w c s r"
proof (cases c)
  case (New_pair malloc1 malloc2 h1 h2 n1 n2)
  then show ?thesis using assms New_pair_ok by blast
next
  case (Free ptr)
  show ?thesis
  proof (cases ptr)
    case None
    have e: "bio_exec w c = Some (1, [], w)" by (simp add: Free None BIO_free_def)
    show ?thesis by (rule call_okI [OF e]) (use assms Free in simp_all)
  next
    case (Some h)
    then show ?thesis using assms Free Free_ok by auto
  qed
next
  case (Up_ref h)
  then show ?thesis using assms Up_ref_ok by auto
next
  case (Read h null len)
  then show ?thesis using assms Read_ok by auto
next
  case (Write h buf inl)
  then obtain b where "w h = Some b" using assms(3) by auto
  then show ?thesis unfolding Write by (rule Write_ok [OF assms(1,2)]) (use assms(3) Write in auto)
next
  case (Ctrl h cmd num ptr)
  then obtain b where "w h = Some b" using assms(3) by auto
  then show ?thesis unfolding Ctrl by (rule Ctrl_ok [OF assms(1,2)]) (use assms(3) Ctrl in auto)
qed

lemma reach_ok: "bio_reach w s r \<Longrightarrow> bios_ok w \<and> fifo w s r"
proof (induction rule: bio_reach.induct)
  case start
  show ?case by (simp add: bios_ok_def fifo_def)
next
  case (call w s r c ret out w')
  then show ?case using call_allowed [of w s r c] unfolding call_ok_def by auto
qed


section \<open>What the pair promises\<close>

text \<open>
  C32: in any store that calls can lead to, every call a caller is allowed to make returns: no
  assertion of the code fails, no NULL or freed pointer is followed and no loop runs on. Afterwards the fields of every
  end are as the comments of \<^verbatim>\<open>struct bio_bio_st\<close> say, and connected ends are each other's peers.
\<close>

theorem bio_pair_well_formed:
  assumes "bio_reach w s r" and "bio_allowed w c"
  shows "\<exists>ret out w'. bio_exec w c = Some (ret, out, w') \<and> bios_ok w'"
  using call_allowed [of w s r c] reach_ok [OF assms(1)] assms(2) unfolding call_ok_def by auto

text \<open>
  C33: after any sequence of calls, what was written at one end of a pair is what was read at the other, followed by
  the contents of the ring buffer, in order. The next read delivers the front of the buffer, as much as is asked for, or reports that
  there is nothing yet (\<^verbatim>\<open>-1\<close>) or the end of the stream (\<^verbatim>\<open>0\<close>); the next write is taken as far as there is room.
\<close>

theorem bio_pair_fifo:
  assumes "bio_reach w s r" and "w h = Some b" and "bp_peer (bio_ptr b) = Some p" and "0 < n" and "inp \<noteq> []"
  defines "q \<equiv> queue (bio_ptr b)"
    and "k \<equiv> (if bp_closed (bio_ptr b) then 0 else min (length inp) (bp_size (bio_ptr b) - length (queue (bio_ptr b))))"
  shows "s h = r p @ q \<and>
    (\<exists>w'. BIO_read w p False (int n) =
      Some (if q = [] then (if bp_closed (bio_ptr b) then 0 else - 1) else int (min n (length q)), take n q, w')) \<and>
    (\<exists>w'. BIO_write w h (Some inp) (int (length inp)) = Some (if k = 0 then - 1 else int k, w'))"
proof (intro conjI)
  have ok: "bios_ok w" "fifo w s r" using reach_ok [OF assms(1)] by simp_all
  then show "s h = r p @ q" using assms(2,3) by (simp add: fifo_def q_def)
  obtain c where c: "w p = Some c" "bp_peer (bio_ptr c) = Some h" by (rule bios_ok_peer [OF ok(1) assms(2,3)])
  have buf: "bp_buf (bio_ptr b) \<noteq> None" using bio_bio_ok_buf [OF bios_okD(1) [OF ok(1) assms(2)]] assms(3) by auto
  have lq: "length q = bp_len (bio_ptr b)" unfolding q_def by (rule length_queue [OF buf])
  have ic: "bio_init c" "bio_init b" using bios_okD(3) [OF ok(1)] c assms(2,3) by auto
  obtain b' c' where rd: "bio_read w p False n = Some (fst (read_result (bio_ptr b) False n), snd (read_result (bio_ptr b) False n), w(p \<mapsto> b', h \<mapsto> c'))"
    by (rule bio_read_connected [OF ok(1) c(1) ic(1), of False n]) (use c(2) assms(2) in auto)
  have "q = [] \<longleftrightarrow> bp_len (bio_ptr b) = 0" using lq by auto
  then show "\<exists>w'. BIO_read w p False (int n) =
      Some (if q = [] then (if bp_closed (bio_ptr b) then 0 else - 1) else int (min n (length q)), take n q, w')"
    using rd c(1) ic(1) assms(4) lq by (auto simp: BIO_read_def read_result_def q_def [symmetric])
  have "length inp \<le> length inp" "0 < length inp" using assms(5) by simp_all
  from write_ok [OF ok(1) assms(2) ic(2) this] obtain b1 k1 where wr:
    "bio_write w h (Some inp) (length inp) = Some (if k1 = 0 then - 1 else int k1, w(h \<mapsto> b1))"
    "k1 = (if bp_closed (bio_ptr b) then 0 else min (length inp) (bp_size (bio_ptr b) - bp_len (bio_ptr b)))" by metis
  have "k1 = k" unfolding wr(2) k_def using lq by (simp add: q_def)
  then show "\<exists>w'. BIO_write w h (Some inp) (int (length inp)) = Some (if k = 0 then - 1 else int k, w')"
    using wr(1) assms(2,5) ic(2) by (auto simp: BIO_write_def)
qed


text \<open>
  A pair with buffers of four bytes: three bytes go in at one end, two come out at the other, and
  the next three wrap around the end of the ring buffer.
\<close>

definition example_end :: "nat \<Rightarrow> bytes \<Rightarrow> nat \<Rightarrow> nat \<Rightarrow> u64 \<Rightarrow> u64 \<Rightarrow> bio" where
  "example_end p m len offset nr nw =
     \<lparr>bio_init = True, bio_shutdown = 1, bio_flags = 0, bio_retry_reason = 0, bio_references = 1,
      bio_ptr = \<lparr>bp_peer = Some p, bp_closed = False, bp_len = len, bp_offset = offset, bp_size = 4, bp_buf = Some m, bp_request = 0\<rparr>,
      bio_num_read = nr, bio_num_write = nw\<rparr>"

definition example_pair :: "bio \<Rightarrow> bio \<Rightarrow> bios" where
  "example_pair b1 b2 = [1 \<mapsto> b1, 2 \<mapsto> b2]"

lemma example_new:
  "bio_exec (\<lambda>_. None) (New_pair example_malloc example_malloc 1 2 4 4) =
     Some (1, [], example_pair (example_end 2 [0, 0, 0, 0] 0 0 0 0) (example_end 1 [0, 0, 0, 0] 0 0 0 0))"
proof -
  have bn: "BIO_new example_malloc = Some fresh_bio"
    by (simp add: BIO_new_def bio_new_def fresh_bio_def OPENSSL_malloc_def OPENSSL_MALLOC_PREFIX_def example_malloc_def
        sizeof_BIO_def sizeof_bio_bio_def)
  have mb: "make_buf example_malloc (bio_ptr fresh_bio) 4 = (True, (bio_ptr fresh_bio)\<lparr>bp_size := 4, bp_buf := Some [0, 0, 0, 0]\<rparr>)"
  proof -
    have "OPENSSL_malloc example_malloc 4 = Some [0, 0, 0, 0]"
      by (simp add: OPENSSL_malloc_def OPENSSL_MALLOC_PREFIX_def example_malloc_def) (simp add: numeral_eq_Suc)
    then show ?thesis by (simp add: make_buf_def fresh_bio_def)
  qed
  have p: "bp_peer (bio_ptr fresh_bio) = None" by (simp add: fresh_bio_def)
  show ?thesis
    by (simp add: BIO_new_bio_pair_def place_def bn bio_make_pair_def mb p)
       (simp add: fun_eq_iff example_pair_def example_end_def fresh_bio_def)
qed

lemma example_end_sel [simp]:
  "BIO_clear_retry_flags (example_end p m l o' nr nw) = example_end p m l o' nr nw"
  "bio_init (example_end p m l o' nr nw)"
  "bio_ptr (example_end p m l o' nr nw) =
     \<lparr>bp_peer = Some p, bp_closed = False, bp_len = l, bp_offset = o', bp_size = 4, bp_buf = Some m, bp_request = 0\<rparr>"
  "example_end p m l o' nr nw\<lparr>bio_ptr :=
     \<lparr>bp_peer = Some p', bp_closed = False, bp_len = l', bp_offset = o2, bp_size = 4, bp_buf = Some m', bp_request = 0\<rparr>\<rparr> =
   example_end p' m' l' o2 nr nw"
  "example_end p m l o' nr nw\<lparr>bio_num_read := nr'\<rparr> = example_end p m l o' nr' nw"
  "example_end p m l o' nr nw\<lparr>bio_num_write := nw'\<rparr> = example_end p m l o' nr nw'"
  "bio_num_read (example_end p m l o' nr nw) = nr" "bio_num_write (example_end p m l o' nr nw) = nw"
  by (simp_all add: BIO_clear_retry_flags_def example_end_def)

lemma example_write:
  "bio_exec (example_pair (example_end 2 [0, 0, 0, 0] 0 0 0 0) (example_end 1 [0, 0, 0, 0] 0 0 0 0)) (Write 1 (Some [5, 6, 7]) 3) =
     Some (3, [], example_pair (example_end 2 [5, 6, 7, 0] 3 0 0 3) (example_end 1 [0, 0, 0, 0] 0 0 0 0))"
  by (simp add: BIO_write_def bio_write_def Let_def example_pair_def write_loop.simps fun_upd_twist [of 2 "Suc 0"])

lemma example_read:
  "bio_exec (example_pair (example_end 2 [5, 6, 7, 0] 3 0 0 3) (example_end 1 [0, 0, 0, 0] 0 0 0 0)) (Read 2 False 2) =
      Some (2, [5, 6], example_pair (example_end 2 [5, 6, 7, 0] 1 2 0 3) (example_end 1 [0, 0, 0, 0] 0 0 2 0))"
  by (simp add: BIO_read_def bio_read_def Let_def example_pair_def) (subst read_loop.simps, simp add: Let_def numeral_2_eq_2)

lemma example_wrap:
  "bio_exec (example_pair (example_end 2 [5, 6, 7, 0] 1 2 0 3) (example_end 1 [0, 0, 0, 0] 0 0 2 0)) (Write 1 (Some [8, 9, 10]) 3) =
      Some (3, [], example_pair (example_end 2 [9, 10, 7, 8] 4 2 0 6) (example_end 1 [0, 0, 0, 0] 0 0 2 0))"
  by (simp add: BIO_write_def bio_write_def Let_def example_pair_def write_loop.simps fun_upd_twist [of 2 "Suc 0"])


text \<open>The state after the four calls.\<close>

definition example_state :: bios where
  "example_state = example_pair (example_end 2 [9, 10, 7, 8] 4 2 0 6) (example_end 1 [0, 0, 0, 0] 0 0 2 0)"

lemma example_reach:
  "bio_reach example_state ((\<lambda>_. [])(1 := [5, 6, 7, 8, 9, 10])) ((\<lambda>_. [])(2 := [5, 6]))"
proof -
  have "bio_reach (example_pair (example_end 2 [0, 0, 0, 0] 0 0 0 0) (example_end 1 [0, 0, 0, 0] 0 0 0 0)) (\<lambda>_. []) (\<lambda>_. [])"
    using bio_reach.call [OF bio_reach.start _ example_new] by (simp add: example_malloc_contract fun_upd_idem)
  from bio_reach.call [OF this _ example_write]
  have "bio_reach (example_pair (example_end 2 [5, 6, 7, 0] 3 0 0 3) (example_end 1 [0, 0, 0, 0] 0 0 0 0)) ((\<lambda>_. [])(1 := [5, 6, 7])) (\<lambda>_. [])"
    by (simp add: example_pair_def)
  from bio_reach.call [OF this _ example_read]
  have "bio_reach (example_pair (example_end 2 [5, 6, 7, 0] 1 2 0 3) (example_end 1 [0, 0, 0, 0] 0 0 2 0))
      ((\<lambda>_. [])(1 := [5, 6, 7])) ((\<lambda>_. [])(2 := [5, 6]))"
    by (simp add: example_pair_def)
  from bio_reach.call [OF this _ example_wrap]
  show ?thesis by (simp add: example_pair_def example_state_def)
qed

theorem bio_pair_well_formed_witness:
  "\<exists>ret out w'. bio_exec example_state (Free (Some 1)) = Some (ret, out, w') \<and> bios_ok w'"
  by (rule bio_pair_well_formed [OF example_reach]) (simp add: example_state_def example_pair_def)

theorem bio_pair_fifo_witness:
  "(\<exists>w'. BIO_read example_state 2 False (int 3) = Some (3, [7, 8, 9], w')) \<and>
   (\<exists>w'. BIO_write example_state 1 (Some [11]) (int (length [11 :: u8])) = Some (- 1, w'))"
proof -
  have w: "example_state 1 = Some (example_end 2 [9, 10, 7, 8] 4 2 0 6)" by (simp add: example_state_def example_pair_def)
  have q: "queue (bio_ptr (example_end 2 [9, 10, 7, 8] 4 2 0 6)) = [7, 8, 9, 10]"
    by (simp add: queue_def upt_rec)
  show ?thesis
    using bio_pair_fifo [OF example_reach w, of 2 3 "[11]"] unfolding q
    by simp
qed

end
