(* ===== verification/Modes.thy ===== *)
theory Modes
  imports Words
begin

text \<open>
  The stream modes of operation of \<^verbatim>\<open>crypto/fipsmodule/modes\<close>: counter mode (\<^verbatim>\<open>ctr.c\<close>), output feedback
  (\<^verbatim>\<open>ofb.c\<close>) and cipher feedback (\<^verbatim>\<open>cfb.c\<close>). The block cipher under its key is the function \<^verbatim>\<open>block\<close>,
  from 16 bytes to 16 bytes. The buffers \<^verbatim>\<open>in\<close> and \<^verbatim>\<open>out\<close> are equal or disjoint, so a call is a function
  from the input to the output and the new \<^verbatim>\<open>ivec\<close>, \<^verbatim>\<open>ecount_buf\<close> and \<^verbatim>\<open>num\<close>; the bytes are produced
  in the order the loops produce them.
\<close>

unbundle bit_operations_syntax

type_synonym block128_f = "bytes \<Rightarrow> bytes"
type_synonym ctr128_f = "bytes \<Rightarrow> nat \<Rightarrow> bytes \<Rightarrow> bytes"

definition block_contract :: "block128_f \<Rightarrow> bool" where
  "block_contract block \<longleftrightarrow> (\<forall>x. length (block x) = 16)"

section \<open>Counter mode\<close>

text \<open>The do loop of \<^verbatim>\<open>ctr128_inc\<close> and \<^verbatim>\<open>ctr96_inc\<close>, which differ in the length they start from.\<close>

fun counter_inc_loop :: "nat \<Rightarrow> u32 \<Rightarrow> bytes \<Rightarrow> bytes" where
  "counter_inc_loop 0 c counter = counter"
| "counter_inc_loop (Suc n) c counter =
     (let c = c + ucast (counter ! n)
      in counter_inc_loop n (drop_bit 8 c) (counter[n := ucast c]))"

definition ctr128_inc :: "bytes \<Rightarrow> bytes" where
  "ctr128_inc counter = counter_inc_loop 16 1 counter"

definition ctr96_inc :: "bytes \<Rightarrow> bytes" where
  "ctr96_inc counter = counter_inc_loop 12 1 counter"

text \<open>The first loop of the counter modes and of \<^verbatim>\<open>ofb.c\<close>: what is left of the last block.\<close>

fun stream_head :: "bytes \<Rightarrow> nat \<Rightarrow> bytes \<Rightarrow> bytes \<times> nat \<times> bytes" where
  "stream_head ecount_buf n [] = ([], n, [])"
| "stream_head ecount_buf n (b # bs) =
     (if n = 0 then ([], n, b # bs)
      else (case stream_head ecount_buf ((n + 1) mod 16) bs of
              (out, n', rest) \<Rightarrow> ((b XOR ecount_buf ! n) # out, n', rest)))"

text \<open>A block combined with the key stream, one \<^verbatim>\<open>size_t\<close> at a time, from byte \<^verbatim>\<open>n\<close> on.\<close>

function xor_words :: "nat \<Rightarrow> bytes \<Rightarrow> bytes \<Rightarrow> bytes" where
  "xor_words n xs ys =
     (if n < 16
      then store_word_le (load_word_le (drop n xs) XOR load_word_le (drop n ys)) @ xor_words (n + 8) xs ys
      else [])"
  by pat_completeness auto
termination by (relation "measure (\<lambda>(n, xs, ys). 16 - n)") auto

function ctr_blocks ::
  "block128_f \<Rightarrow> bytes \<times> bytes \<times> nat \<Rightarrow> bytes \<Rightarrow> bytes \<times> (bytes \<times> bytes \<times> nat) \<times> bytes" where
  "ctr_blocks block (ivec, ecount_buf, n) inp =
     (if length inp \<ge> 16
      then (let ecount_buf = block ivec; ivec = ctr128_inc ivec
            in case ctr_blocks block (ivec, ecount_buf, 0) (drop 16 inp) of
                 (out, st, rest) \<Rightarrow> (xor_words 0 inp ecount_buf @ out, st, rest))
      else ([], (ivec, ecount_buf, n), inp))"
  by pat_completeness auto
termination by (relation "measure (\<lambda>(block, st, inp). length inp)") auto

text \<open>The last loop, over what remains of the input: \<^verbatim>\<open>in\<close> is indexed by \<^verbatim>\<open>n\<close>, which is then 0.\<close>

definition stream_tail :: "bytes \<Rightarrow> nat \<Rightarrow> bytes \<Rightarrow> bytes" where
  "stream_tail ecount_buf n inp = map (\<lambda>i. inp ! i XOR ecount_buf ! i) [n..<n + length inp]"

definition CRYPTO_ctr128_encrypt ::
  "block128_f \<Rightarrow> bytes \<times> bytes \<times> nat \<Rightarrow> bytes \<Rightarrow> bytes \<times> bytes \<times> bytes \<times> nat" where
  "CRYPTO_ctr128_encrypt block st inp =
     (case st of (ivec, ecount_buf, num) \<Rightarrow>
      case stream_head ecount_buf num inp of (out1, n, rest) \<Rightarrow>
      case ctr_blocks block (ivec, ecount_buf, n) rest of (out2, (ivec, ecount_buf, n), rest) \<Rightarrow>
        if length rest \<noteq> 0
        then (let ecount_buf = block ivec; ivec = ctr128_inc ivec
              in (out1 @ out2 @ stream_tail ecount_buf n rest, ivec, ecount_buf, n + length rest))
        else (out1 @ out2, ivec, ecount_buf, n))"

section \<open>Output feedback\<close>

function ofb_blocks :: "block128_f \<Rightarrow> bytes \<times> nat \<Rightarrow> bytes \<Rightarrow> bytes \<times> (bytes \<times> nat) \<times> bytes" where
  "ofb_blocks block (ivec, n) inp =
     (if length inp \<ge> 16
      then (let ivec = block ivec
            in case ofb_blocks block (ivec, 0) (drop 16 inp) of
                 (out, st, rest) \<Rightarrow> (xor_words n inp ivec @ out, st, rest))
      else ([], (ivec, n), inp))"
  by pat_completeness auto
termination by (relation "measure (\<lambda>(block, st, inp). length inp)") auto

definition CRYPTO_ofb128_encrypt :: "block128_f \<Rightarrow> bytes \<times> nat \<Rightarrow> bytes \<Rightarrow> bytes \<times> bytes \<times> nat" where
  "CRYPTO_ofb128_encrypt block st inp =
     (case st of (ivec, num) \<Rightarrow>
      case stream_head ivec num inp of (out1, n, rest) \<Rightarrow>
      case ofb_blocks block (ivec, n) rest of (out2, (ivec, n), rest) \<Rightarrow>
        if length rest \<noteq> 0
        then (let ivec = block ivec in (out1 @ out2 @ stream_tail ivec n rest, ivec, n + length rest))
        else (out1 @ out2, ivec, n))"

section \<open>Streams of calls\<close>

text \<open>The reference: one step of a state machine per byte (or per bit).\<close>

fun run_steps :: "('s \<Rightarrow> 'a \<Rightarrow> 'a \<times> 's) \<Rightarrow> 's \<Rightarrow> 'a list \<Rightarrow> 'a list \<times> 's" where
  "run_steps step st [] = ([], st)"
| "run_steps step st (b # bs) =
     (case step st b of (c, st') \<Rightarrow> case run_steps step st' bs of (cs, st'') \<Rightarrow> (c # cs, st''))"

text \<open>What a client does: one call per chunk, the state of one call going into the next.\<close>

fun calls :: "('s \<Rightarrow> 'a list \<Rightarrow> 'a list \<times> 's) \<Rightarrow> 's \<Rightarrow> 'a list list \<Rightarrow> 'a list \<times> 's" where
  "calls run st [] = ([], st)"
| "calls run st (xs # xss) =
     (case run st xs of (ys, st') \<Rightarrow> case calls run st' xss of (zs, st'') \<Rightarrow> (ys @ zs, st''))"

lemma run_steps_append:
  "run_steps step st (as @ bs) =
    (case run_steps step st as of (cs, st') \<Rightarrow> case run_steps step st' bs of (ds, st'') \<Rightarrow> (cs @ ds, st''))"
  by (induction as arbitrary: st) (auto split: prod.splits)

lemma length_run_steps: "length (fst (run_steps step st xs)) = length xs"
  by (induction xs arbitrary: st) (auto simp: case_prod_unfold)

locale stream_cipher =
  fixes run :: "'s \<Rightarrow> 'a list \<Rightarrow> 'a list \<times> 's" and step :: "'s \<Rightarrow> 'a \<Rightarrow> 'a \<times> 's" and inv :: "'s \<Rightarrow> bool"
  assumes run_step: "inv st \<Longrightarrow> run st xs = run_steps step st xs"
    and inv_step: "inv st \<Longrightarrow> inv (snd (step st b))"
begin

lemma inv_run_steps: "inv st \<Longrightarrow> inv (snd (run_steps step st xs))"
proof (induction xs arbitrary: st)
  case (Cons b bs)
  then show ?case using inv_step [of st b] by (auto split: prod.splits) (metis snd_conv)
qed simp

lemma inv_run: "inv st \<Longrightarrow> inv (snd (run st xs))"
  by (simp add: run_step inv_run_steps)

text \<open>How the input is cut into calls does not matter.\<close>

lemma calls_bytes: "inv st \<Longrightarrow> calls run st xss = run_steps step st (concat xss)"
proof (induction xss arbitrary: st)
  case (Cons xs xss)
  obtain ys st' where r: "run_steps step st xs = (ys, st')" by (cases "run_steps step st xs")
  then have "inv st'" using inv_run_steps [OF Cons.prems, of xs] by simp
  then show ?case using r by (simp add: run_step [OF Cons.prems] run_steps_append Cons.IH)
qed simp

lemma calls_run: "inv st \<Longrightarrow> calls run st xss = run st (concat xss)"
  by (simp add: calls_bytes run_step)

end

text \<open>Two stream ciphers, the second of which undoes the first.\<close>

locale stream_pair = enc: stream_cipher run step inv + dec: stream_cipher run' step' inv
  for run :: "'s \<Rightarrow> 'a list \<Rightarrow> 'a list \<times> 's" and step and run' :: "'s \<Rightarrow> 'a list \<Rightarrow> 'a list \<times> 's" and step' and inv +
  assumes undo: "inv st \<Longrightarrow> step st b = (c, st') \<Longrightarrow> step' st c = (b, st')"
begin

lemma undo_bytes: "inv st \<Longrightarrow> run_steps step st xs = (ys, st') \<Longrightarrow> run_steps step' st ys = (xs, st')"
proof (induction xs arbitrary: st ys)
  case (Cons b bs)
  obtain c st1 where s: "step st b = (c, st1)" by (cases "step st b")
  from Cons.prems(2) s obtain cs where r: "run_steps step st1 bs = (cs, st')" and ys: "ys = c # cs"
    by (auto split: prod.splits)
  have "inv st1" using enc.inv_step [OF Cons.prems(1), of b] s by simp
  from Cons.IH [OF this r] undo [OF Cons.prems(1) s] ys show ?case by simp
qed simp

lemma undo_calls:
  assumes "inv st" and "concat yss = fst (calls run st xss)"
  shows "calls run' st yss = (concat xss, snd (calls run st xss))"
  using undo_bytes [OF assms(1), of "concat xss" "concat yss" "snd (calls run st xss)"] assms
  by (simp add: enc.calls_bytes dec.calls_bytes)

end

section \<open>Key streams\<close>

text \<open>
  The states of counter mode and output feedback are a key-stream block \<^verbatim>\<open>ks k\<close> with an offset \<^verbatim>\<open>n\<close> into
  it; at offset 0 the next step moves on to a new block.
\<close>

definition key_stream ::
  "('s \<Rightarrow> u8 \<Rightarrow> u8 \<times> 's) \<Rightarrow> ('k \<Rightarrow> nat \<Rightarrow> 's) \<Rightarrow> ('k \<Rightarrow> 'k) \<Rightarrow> ('k \<Rightarrow> bytes) \<Rightarrow> bool" where
  "key_stream step at next ks \<longleftrightarrow>
     (\<forall>k n b. 0 < n \<longrightarrow> n < 16 \<longrightarrow> step (at k n) b = (b XOR ks k ! n, at k ((n + 1) mod 16))) \<and>
     (\<forall>k b. step (at k 0) b = (b XOR ks (next k) ! 0, at (next k) 1)) \<and>
     (\<forall>k. length (ks (next k)) = 16)"

lemma stream_head_steps:
  assumes "key_stream step at next ks" and "n < 16" and "stream_head (ks k) n xs = (out, n', rest)"
  obtains pre where "xs = pre @ rest" and "run_steps step (at k n) pre = (out, at k n')" and "n' < 16"
    and "rest = [] \<or> n' = 0"
  using assms(2, 3)
proof (induction xs arbitrary: n out thesis)
  case (Cons b bs)
  show ?case
  proof (cases "n = 0")
    case True
    then show ?thesis using Cons.prems(1) [of "[]"] Cons.prems(3) by simp
  next
    case False
    then obtain o' where h: "stream_head (ks k) ((n + 1) mod 16) bs = (o', n', rest)"
      and o: "out = (b XOR ks k ! n) # o'" using Cons.prems(3) by (auto split: prod.splits)
    obtain pre where p: "bs = pre @ rest" "run_steps step (at k ((n + 1) mod 16)) pre = (o', at k n')"
      "n' < 16" "rest = [] \<or> n' = 0" by (rule Cons.IH [OF _ _ h]) simp_all
    have "step (at k n) b = (b XOR ks k ! n, at k ((n + 1) mod 16))"
      using assms(1) False Cons.prems(2) unfolding key_stream_def by blast
    then show ?thesis using Cons.prems(1) [of "b # pre"] p o by simp
  qed
qed simp

lemma within_block:
  assumes "key_stream step at next ks" and "0 < n" and "n + length xs \<le> 16" and "length (ks k) = 16"
    and "xs \<noteq> []"
  shows "run_steps step (at k n) xs = (xor_bytes xs (drop n (ks k)), at k ((n + length xs) mod 16))"
  using assms(2, 3, 5)
proof (induction xs arbitrary: n)
  case (Cons b bs)
  have s: "step (at k n) b = (b XOR ks k ! n, at k ((n + 1) mod 16))"
    using assms(1) Cons.prems unfolding key_stream_def by simp
  have d: "drop n (ks k) = ks k ! n # drop (n + 1) (ks k)"
    using Cons.prems assms(4) Cons_nth_drop_Suc [of n "ks k"] by simp
  show ?case
  proof (cases "bs = []")
    case True
    then show ?thesis by (simp add: s d xor_bytes_def)
  next
    case False
    then have "(n + 1) mod 16 = n + 1" using Cons.prems by (cases bs) auto
    then show ?thesis using s d Cons.IH [of "n + 1"] Cons.prems False by (simp add: xor_bytes_def)
  qed
qed simp

lemma from_block_start:
  assumes "key_stream step at next ks" and "xs \<noteq> []" and "length xs \<le> 16"
  shows "run_steps step (at k 0) xs = (xor_bytes xs (ks (next k)), at (next k) (length xs mod 16))"
proof (cases xs)
  case (Cons b bs)
  have l: "length (ks (next k)) = 16" and s: "step (at k 0) b = (b XOR ks (next k) ! 0, at (next k) 1)"
    using assms(1) unfolding key_stream_def by blast+
  have d: "ks (next k) = ks (next k) ! 0 # drop 1 (ks (next k))"
    using l Cons_nth_drop_Suc [of 0 "ks (next k)"] by simp
  have x: "xor_bytes xs (ks (next k)) = (b XOR ks (next k) ! 0) # xor_bytes bs (drop 1 (ks (next k)))"
    unfolding Cons by (subst d) (simp add: xor_bytes_def)
  show ?thesis
  proof (cases "bs = []")
    case True
    then show ?thesis using s x Cons by (simp add: xor_bytes_def)
  next
    case False
    then show ?thesis using s x Cons assms(3) within_block [OF assms(1) _ _ l False, of 1] by simp
  qed
qed (use assms in simp)

lemma xor_words_all:
  assumes "16 \<le> length xs" and "length ys = 16"
  shows "xor_words 0 xs ys = xor_bytes (take 16 xs) ys"
proof -
  have w: "store_word_le (load_word_le (drop n xs) XOR load_word_le (drop n ys)) =
      xor_bytes (take 8 (drop n xs)) (take 8 (drop n ys))" if "n \<le> 8" for n
    using store_load_xor [of "take 8 (drop n xs)" "take 8 (drop n ys)"] assms that
    by (simp add: load_word_le_def)
  have t: "take 16 xs = take 8 xs @ take 8 (drop 8 xs)" using take_add [of 8 8 xs] by simp
  have "ys = take 8 ys @ take 8 (drop 8 ys)" using take_add [of 8 8 ys] assms(2) by simp
  then have "xor_bytes (take 16 xs) ys = xor_bytes (take 8 xs @ take 8 (drop 8 xs)) (take 8 ys @ take 8 (drop 8 ys))"
    using t by simp
  also have "\<dots> = xor_bytes (take 8 xs) (take 8 ys) @ xor_bytes (take 8 (drop 8 xs)) (take 8 (drop 8 ys))"
    by (rule xor_bytes_append) (use assms in simp)
  finally show ?thesis using w [of 0] w [of 8] by (simp del: xor_words.simps add: xor_words.simps [of 0] xor_words.simps [of 8] xor_words.simps [of 16])
qed

lemma stream_tail_start:
  assumes "length xs \<le> length ys"
  shows "stream_tail ys 0 xs = xor_bytes xs ys"
  using assms by (intro nth_equalityI) (simp_all add: stream_tail_def)

section \<open>Counter mode and output feedback as key streams\<close>

definition ctr_step :: "block128_f \<Rightarrow> bytes \<times> bytes \<times> nat \<Rightarrow> u8 \<Rightarrow> u8 \<times> bytes \<times> bytes \<times> nat" where
  "ctr_step block st b =
     (case st of (ivec, ec, n) \<Rightarrow>
        if n = 0 then (b XOR block ivec ! 0, ctr128_inc ivec, block ivec, 1)
        else (b XOR ec ! n, ivec, ec, (n + 1) mod 16))"

definition ctr_inv :: "block128_f \<Rightarrow> bytes \<times> bytes \<times> nat \<Rightarrow> bool" where
  "ctr_inv block st \<longleftrightarrow> block_contract block \<and> (case st of (ivec, ec, n) \<Rightarrow> n < 16 \<and> length ivec = 16)"

definition ofb_step :: "block128_f \<Rightarrow> bytes \<times> nat \<Rightarrow> u8 \<Rightarrow> u8 \<times> bytes \<times> nat" where
  "ofb_step block st b =
     (case st of (ivec, n) \<Rightarrow>
        if n = 0 then (b XOR block ivec ! 0, block ivec, 1)
        else (b XOR ivec ! n, ivec, (n + 1) mod 16))"

definition ofb_inv :: "block128_f \<Rightarrow> bytes \<times> nat \<Rightarrow> bool" where
  "ofb_inv block st \<longleftrightarrow> block_contract block \<and> snd st < 16"

lemma key_stream_ctr:
  "block_contract block \<Longrightarrow>
    key_stream (ctr_step block) (\<lambda>(iv, ec) n. (iv, ec, n)) (\<lambda>(iv, ec). (ctr128_inc iv, block iv)) snd"
  by (simp add: key_stream_def ctr_step_def block_contract_def)

lemma key_stream_ofb:
  "block_contract block \<Longrightarrow> key_stream (ofb_step block) (\<lambda>iv n. (iv, n)) block (\<lambda>iv. iv)"
  by (simp add: key_stream_def ofb_step_def block_contract_def)

lemma length_counter_inc_loop [simp]: "length (counter_inc_loop n c xs) = length xs"
  by (induction n arbitrary: c xs) (simp_all add: Let_def)

lemma length_ctr128_inc [simp]: "length (ctr128_inc iv) = length iv"
  by (simp add: ctr128_inc_def)

declare ctr_blocks.simps [simp del] ofb_blocks.simps [simp del] xor_words.simps [simp del]

lemma ctr_blocks_steps:
  assumes "block_contract block" and "n = 0 \<or> xs = []" and "ctr_blocks block (iv, ec, n) xs = (out, st', rest)"
  shows "length rest < 16 \<and> (\<exists>pre. xs = pre @ rest \<and> run_steps (ctr_step block) (iv, ec, n) pre = (out, st')) \<and>
    (rest \<noteq> [] \<longrightarrow> snd (snd st') = 0)"
  using assms
proof (induction block "(iv, ec, n)" xs arbitrary: iv ec n out rule: ctr_blocks.induct)
  case (1 block iv ec n xs)
  note bc = 1(2)
  show ?case
  proof (cases "length xs \<ge> 16")
    case True
    then have n: "n = 0" using 1 by auto
    obtain o' where b: "ctr_blocks block (ctr128_inc iv, block iv, 0) (drop 16 xs) = (o', st', rest)"
      and o: "out = xor_words 0 xs (block iv) @ o'"
      using 1 True ctr_blocks.simps [of block iv ec n xs] by (auto simp: Let_def split: prod.splits)
    from 1(1) [OF True refl refl bc _ b] obtain pre where p: "length rest < 16" "drop 16 xs = pre @ rest"
      "run_steps (ctr_step block) (ctr128_inc iv, block iv, 0) pre = (o', st')"
      "rest \<noteq> [] \<longrightarrow> snd (snd st') = 0" by auto
    have l: "length (take 16 xs) = 16" using True by simp
    then have ne: "take 16 xs \<noteq> []" by (metis list.size(3) zero_neq_numeral)
    have h: "run_steps (ctr_step block) (iv, ec, 0) (take 16 xs) =
        (xor_bytes (take 16 xs) (block iv), (ctr128_inc iv, block iv, 0))"
      using from_block_start [OF key_stream_ctr [OF bc] ne, of "(iv, ec)", unfolded l] by simp
    have "xor_words 0 xs (block iv) = xor_bytes (take 16 xs) (block iv)"
      by (rule xor_words_all) (use True bc in \<open>simp_all add: block_contract_def\<close>)
    then have "run_steps (ctr_step block) (iv, ec, n) (take 16 xs @ pre) = (out, st')"
      using h p(3) o n by (simp add: run_steps_append)
    moreover have "xs = (take 16 xs @ pre) @ rest" using p(2) by (metis append.assoc append_take_drop_id)
    ultimately show ?thesis using p by blast
  next
    case False
    then show ?thesis using 1 by (auto simp: ctr_blocks.simps)
  qed
qed

lemma stream_tail_steps:
  assumes "key_stream step at next ks" and "rest \<noteq> []" and "length rest < 16"
  shows "run_steps step (at k 0) rest = (stream_tail (ks (next k)) 0 rest, at (next k) (length rest))"
proof -
  have "length (ks (next k)) = 16" using assms(1) unfolding key_stream_def by blast
  then show ?thesis using from_block_start [OF assms(1, 2), of k] assms(3) stream_tail_start [of rest "ks (next k)"] by simp
qed

lemma ctr128_steps:
  assumes "ctr_inv block st"
  shows "CRYPTO_ctr128_encrypt block st xs = run_steps (ctr_step block) st xs"
proof -
  obtain iv ec n where st: "st = (iv, ec, n)" by (cases st)
  have bc: "block_contract block" and n: "n < 16" using assms unfolding ctr_inv_def st by auto
  note ks = key_stream_ctr [OF bc]
  obtain out1 n1 rest1 where h: "stream_head ec n xs = (out1, n1, rest1)" by (cases "stream_head ec n xs")
  obtain pre1 where p1: "xs = pre1 @ rest1" "run_steps (ctr_step block) (iv, ec, n) pre1 = (out1, iv, ec, n1)"
    "rest1 = [] \<or> n1 = 0"
    by (rule stream_head_steps [OF ks n, of "(iv, ec)" xs out1 n1 rest1]) (auto simp: h)
  obtain out2 iv2 ec2 n2 rest2 where b: "ctr_blocks block (iv, ec, n1) rest1 = (out2, (iv2, ec2, n2), rest2)"
    by (cases "ctr_blocks block (iv, ec, n1) rest1") auto
  from ctr_blocks_steps [OF bc _ b] p1(3) obtain pre2 where p2: "length rest2 < 16" "rest1 = pre2 @ rest2"
    "run_steps (ctr_step block) (iv, ec, n1) pre2 = (out2, iv2, ec2, n2)" "rest2 \<noteq> [] \<longrightarrow> n2 = 0" by auto
  show ?thesis
  proof (cases "rest2 = []")
    case True
    then show ?thesis using st h b p1 p2 by (simp add: CRYPTO_ctr128_encrypt_def run_steps_append)
  next
    case False
    then show ?thesis
      using st h b p1 p2 stream_tail_steps [OF ks False p2(1), of "(iv2, ec2)"]
      by (simp add: CRYPTO_ctr128_encrypt_def run_steps_append Let_def)
  qed
qed

lemma ofb_blocks_steps:
  assumes "block_contract block" and "n = 0 \<or> xs = []" and "ofb_blocks block (iv, n) xs = (out, st', rest)"
  shows "length rest < 16 \<and> (\<exists>pre. xs = pre @ rest \<and> run_steps (ofb_step block) (iv, n) pre = (out, st')) \<and>
    (rest \<noteq> [] \<longrightarrow> snd st' = 0)"
  using assms
proof (induction block "(iv, n)" xs arbitrary: iv n out rule: ofb_blocks.induct)
  case (1 block iv n xs)
  note bc = 1(2)
  show ?case
  proof (cases "length xs \<ge> 16")
    case True
    then have n: "n = 0" using 1 by auto
    obtain o' where b: "ofb_blocks block (block iv, 0) (drop 16 xs) = (o', st', rest)"
      and o: "out = xor_words 0 xs (block iv) @ o'"
      using 1 True n ofb_blocks.simps [of block iv n xs] by (auto simp: Let_def split: prod.splits)
    from 1(1) [OF True refl bc _ b] obtain pre where p: "length rest < 16" "drop 16 xs = pre @ rest"
      "run_steps (ofb_step block) (block iv, 0) pre = (o', st')"
      "rest \<noteq> [] \<longrightarrow> snd st' = 0" by auto
    have l: "length (take 16 xs) = 16" using True by simp
    then have ne: "take 16 xs \<noteq> []" by (metis list.size(3) zero_neq_numeral)
    have h: "run_steps (ofb_step block) (iv, 0) (take 16 xs) = (xor_bytes (take 16 xs) (block iv), (block iv, 0))"
      using from_block_start [OF key_stream_ofb [OF bc] ne, of iv, unfolded l] by simp
    have "xor_words 0 xs (block iv) = xor_bytes (take 16 xs) (block iv)"
      by (rule xor_words_all) (use True bc in \<open>simp_all add: block_contract_def\<close>)
    then have "run_steps (ofb_step block) (iv, n) (take 16 xs @ pre) = (out, st')"
      using h p(3) o n by (simp add: run_steps_append)
    moreover have "xs = (take 16 xs @ pre) @ rest" using p(2) by (metis append.assoc append_take_drop_id)
    ultimately show ?thesis using p by blast
  next
    case False
    then show ?thesis using 1 by (auto simp: ofb_blocks.simps)
  qed
qed

lemma ofb128_steps:
  assumes "ofb_inv block st"
  shows "CRYPTO_ofb128_encrypt block st xs = run_steps (ofb_step block) st xs"
proof -
  obtain iv n where st: "st = (iv, n)" by (cases st)
  have bc: "block_contract block" and n: "n < 16" using assms unfolding ofb_inv_def st by auto
  note ks = key_stream_ofb [OF bc]
  obtain out1 n1 rest1 where h: "stream_head iv n xs = (out1, n1, rest1)" by (cases "stream_head iv n xs")
  obtain pre1 where p1: "xs = pre1 @ rest1" "run_steps (ofb_step block) (iv, n) pre1 = (out1, iv, n1)"
    "rest1 = [] \<or> n1 = 0"
    by (rule stream_head_steps [OF ks n, of iv xs out1 n1 rest1]) (auto simp: h)
  obtain out2 iv2 n2 rest2 where b: "ofb_blocks block (iv, n1) rest1 = (out2, (iv2, n2), rest2)"
    by (cases "ofb_blocks block (iv, n1) rest1") auto
  from ofb_blocks_steps [OF bc _ b] p1(3) obtain pre2 where p2: "length rest2 < 16" "rest1 = pre2 @ rest2"
    "run_steps (ofb_step block) (iv, n1) pre2 = (out2, iv2, n2)" "rest2 \<noteq> [] \<longrightarrow> n2 = 0" by auto
  show ?thesis
  proof (cases "rest2 = []")
    case True
    then show ?thesis using st h b p1 p2 by (simp add: CRYPTO_ofb128_encrypt_def run_steps_append)
  next
    case False
    then show ?thesis
      using st h b p1 p2 stream_tail_steps [OF ks False p2(1), of iv2]
      by (simp add: CRYPTO_ofb128_encrypt_def run_steps_append Let_def)
  qed
qed

lemma xor_xor_cancel [simp]: "(a XOR k) XOR k = a" for a k :: "'a::len word"
  by (simp add: xor.assoc)

interpretation ctr: stream_pair "CRYPTO_ctr128_encrypt block" "ctr_step block"
  "CRYPTO_ctr128_encrypt block" "ctr_step block" "ctr_inv block" for block
  by unfold_locales (auto simp: ctr128_steps, auto simp: ctr_inv_def ctr_step_def split: prod.splits if_splits)

interpretation ofb: stream_pair "CRYPTO_ofb128_encrypt block" "ofb_step block"
  "CRYPTO_ofb128_encrypt block" "ofb_step block" "ofb_inv block" for block
  by unfold_locales (auto simp: ofb128_steps, auto simp: ofb_inv_def ofb_step_def split: prod.splits if_splits)

section \<open>The counters\<close>

lemma counter_inc_loop_val:
  assumes "n \<le> length xs" and "unat c < 2 ^ 24"
  shows "be_val (take n (counter_inc_loop n c xs)) = (be_val (take n xs) + unat c) mod 256 ^ n \<and>
    drop n (counter_inc_loop n c xs) = drop n xs"
  using assms
proof (induction n arbitrary: c xs)
  case (Suc n)
  define c' where "c' = c + ucast (xs ! n)"
  have c': "unat c' = unat c + unat (xs ! n)"
    unfolding c'_def using Suc.prems(2) unat_u8_lt [of "xs ! n"]
    by (simp add: unat_word_ariths unat_ucast_up del: unat_u8_lt)
  have d: "unat (drop_bit 8 c') = unat c' div 256" by (simp add: unat_drop_bit)
  have "unat (drop_bit 8 c') < 2 ^ 24"
    unfolding d c' using Suc.prems(2) unat_u8_lt [of "xs ! n"] by (simp del: unat_u8_lt)
  with Suc.IH [of "xs[n := ucast c']" "drop_bit 8 c'"] Suc.prems(1)
  have ih: "be_val (take n (counter_inc_loop n (drop_bit 8 c') (xs[n := ucast c']))) =
      (be_val (take n xs) + unat c' div 256) mod 256 ^ n"
    "drop n (counter_inc_loop n (drop_bit 8 c') (xs[n := ucast c'])) = ucast c' # drop (Suc n) xs"
    using Cons_nth_drop_Suc [of n "xs[n := ucast c']"] d by simp_all
  let ?r = "counter_inc_loop n (drop_bit 8 c') (xs[n := ucast c'])"
  have r: "counter_inc_loop (Suc n) c xs = ?r" by (simp add: Let_def c'_def)
  have "?r ! n = ucast c'" using ih(2) Suc.prems(1) by (metis hd_drop_conv_nth length_counter_inc_loop length_list_update less_eq_Suc_le list.sel(1))
  then have t: "take (Suc n) ?r = take n ?r @ [ucast c']" using Suc.prems(1) by (simp add: take_Suc_conv_app_nth)
  have "drop (Suc n) ?r = drop (Suc n) xs" using ih(2) by (metis drop_Suc list.sel(3) tl_drop)
  moreover have "be_val (take (Suc n) ?r) = (be_val (take (Suc n) xs) + unat c) mod 256 ^ Suc n"
  proof -
    have x: "take (Suc n) xs = take n xs @ [xs ! n]" using Suc.prems(1) by (simp add: take_Suc_conv_app_nth)
    define B where "B = be_val (take n xs)"
    have "be_val (take (Suc n) ?r) = (B + unat c' div 256) mod 256 ^ n * 256 + unat c' mod 256"
      unfolding t B_def using ih(1) by (simp add: unat_ucast_down)
    also have "\<dots> = (B * 256 + unat c') mod (256 * 256 ^ n)"
    proof -
      have "(B * 256 + unat c') div 256 = B + unat c' div 256" by simp
      then show ?thesis unfolding mod_mult2_eq by simp
    qed
    finally show ?thesis unfolding x c' B_def by (simp add: algebra_simps)
  qed
  ultimately show ?case using r by simp
qed simp

lemma be_val_ctr128_inc: "length iv = 16 \<Longrightarrow> be_val (ctr128_inc iv) = (be_val iv + 1) mod 256 ^ 16"
  using counter_inc_loop_val [of 16 iv 1] by (simp add: ctr128_inc_def)

lemma be_val_ctr96_inc:
  assumes "length iv = 16"
  shows "be_val (take 12 (ctr96_inc iv)) = (be_val (take 12 iv) + 1) mod 256 ^ 12 \<and> drop 12 (ctr96_inc iv) = drop 12 iv"
  using counter_inc_loop_val [of 12 iv 1] assms by (simp add: ctr96_inc_def)

end
