(* ===== verification/KeyWrap.thy ===== *)
theory KeyWrap
  imports Modes Md32
begin

text \<open>
  \<^verbatim>\<open>crypto/fipsmodule/aes/key_wrap.c\<close>: AES key wrap (RFC 3394) and key wrap with padding (RFC 5649). The block cipher
  under its key is a parameter, as \<^verbatim>\<open>AES_encrypt\<close> and \<^verbatim>\<open>AES_decrypt\<close> are assembly on most targets. An output buffer
  may overlap the input, which has been moved into it before anything else is written; the bytes of
  \<^verbatim>\<open>out\<close> and of local arrays that are not written yet are zero here, and are not read.
\<close>

unbundle bit_operations_syntax

section \<open>The code\<close>

definition kDefaultIV :: bytes where
  "kDefaultIV = replicate 8 0xa6"

definition kBound :: nat where
  "kBound = 6"

text \<open>The four lines that combine \<^verbatim>\<open>t\<close> into the register.\<close>

definition xor_t :: "bytes \<Rightarrow> u32 \<Rightarrow> bytes" where
  "xor_t A t =
     (let A = A[7 := A ! 7 XOR ucast (t AND 0xff)];
          A = A[6 := A ! 6 XOR ucast (drop_bit 8 t AND 0xff)];
          A = A[5 := A ! 5 XOR ucast (drop_bit 16 t AND 0xff)]
      in A[4 := A ! 4 XOR ucast (drop_bit 24 t AND 0xff)])"

definition wrap_step :: "block128_f \<Rightarrow> nat \<Rightarrow> nat \<Rightarrow> nat \<Rightarrow> bytes \<times> bytes \<Rightarrow> bytes \<times> bytes" where
  "wrap_step encrypt n j i = (\<lambda>(A, out).
     let A = copy_at A 8 (take 8 (drop (8 * i) out));
         A = encrypt A;
         A = xor_t A (of_nat (n * j + i))
     in (A, copy_at out (8 * i) (drop 8 A)))"

text \<open>\<^verbatim>\<open>None\<close> is the return value \<^verbatim>\<open>-1\<close>; otherwise it is the length of the output.\<close>

definition AES_wrap_key :: "block128_f \<Rightarrow> bytes option \<Rightarrow> bytes \<Rightarrow> bytes option" where
  "AES_wrap_key encrypt iv inp =
     (let in_len = length inp in
      if in_len > INT_MAX - 8 \<or> in_len < 16 \<or> in_len mod 8 \<noteq> 0 then None
      else let iv = (case iv of None \<Rightarrow> kDefaultIV | Some iv \<Rightarrow> iv);
               out = replicate 8 0 @ inp;
               A = take 8 iv @ replicate 8 0;
               n = in_len div 8;
               (A, out) = fold (\<lambda>j. fold (wrap_step encrypt n j) [1..<n + 1]) [0..<kBound] (A, out)
           in Some (copy_at out 0 (take 8 A)))"

definition unwrap_step :: "block128_f \<Rightarrow> nat \<Rightarrow> nat \<Rightarrow> nat \<Rightarrow> bytes \<times> bytes \<Rightarrow> bytes \<times> bytes" where
  "unwrap_step decrypt n j i = (\<lambda>(A, out).
     let A = xor_t A (of_nat (n * j + i));
         A = copy_at A 8 (take 8 (drop (8 * (i - 1)) out));
         A = decrypt A
     in (A, copy_at out (8 * (i - 1)) (drop 8 A)))"

definition aes_unwrap_key_inner :: "block128_f \<Rightarrow> bytes \<Rightarrow> (bytes \<times> bytes) option" where
  "aes_unwrap_key_inner decrypt inp =
     (let in_len = length inp in
      if in_len > INT_MAX \<or> in_len < 24 \<or> in_len mod 8 \<noteq> 0 then None
      else let A = take 8 inp @ replicate 8 0;
               out = drop 8 inp;
               n = in_len div 8 - 1;
               (A, out) = fold (\<lambda>j. fold (unwrap_step decrypt n j) (rev [1..<n + 1])) (rev [0..<kBound]) (A, out)
           in Some (take 8 A, out))"

definition AES_unwrap_key :: "block128_f \<Rightarrow> bytes option \<Rightarrow> bytes \<Rightarrow> bytes option" where
  "AES_unwrap_key decrypt iv inp =
     (case aes_unwrap_key_inner decrypt inp of
        None \<Rightarrow> None
      | Some (calculated_iv, out) \<Rightarrow>
          let iv = (case iv of None \<Rightarrow> kDefaultIV | Some iv \<Rightarrow> iv) in
          if CRYPTO_memcmp calculated_iv iv 8 \<noteq> 0 then None else Some out)"

definition kPaddingConstant :: bytes where
  "kPaddingConstant = [0xa6, 0x59, 0x59, 0xa6]"

text \<open>\<^verbatim>\<open>None\<close> is the return value 0; otherwise \<^verbatim>\<open>*out_len\<close> is the length of the output.\<close>

definition AES_wrap_key_padded :: "libc_malloc \<Rightarrow> block128_f \<Rightarrow> u64 \<Rightarrow> bytes \<Rightarrow> bytes option" where
  "AES_wrap_key_padded malloc encrypt max_out inp =
     (let in_len = of_nat (length inp) :: u64;
          padded_len = (in_len + 7) AND NOT 7 in
      if in_len = 0 \<or> in_len > 0xffffffff \<or> in_len + 7 < in_len \<or> padded_len + 8 < padded_len \<or> max_out < padded_len + 8
      then None
      else let block = kPaddingConstant @ PUTU32 (ucast in_len) in
           if in_len \<le> 8 then Some (encrypt (block @ copy_at (replicate 8 0) 0 inp))
           else (case OPENSSL_malloc malloc padded_len of
                   None \<Rightarrow> None
                 | Some padded_in \<Rightarrow>
                     let padded_in = copy_at padded_in (unat padded_len - 8) (replicate 8 0);
                         padded_in = copy_at padded_in 0 inp
                     in AES_wrap_key encrypt (Some block) padded_in))"

text \<open>The test that the bytes behind the claimed length are zero.\<close>

definition padding_zero :: "u64 \<Rightarrow> bytes \<Rightarrow> nat \<Rightarrow> u64 \<Rightarrow> u64" where
  "padding_zero claimed_len out i ok =
     ok AND constant_time_is_zero_w (ucast (constant_time_ge_8 (of_nat i) claimed_len AND out ! i))"

text \<open>The result is the return value, \<^verbatim>\<open>*out_len\<close> and what \<^verbatim>\<open>out\<close> holds (\<^verbatim>\<open>[]\<close> where nothing is written).\<close>

definition AES_unwrap_key_padded :: "block128_f \<Rightarrow> u64 \<Rightarrow> bytes \<Rightarrow> u64 \<times> u64 \<times> bytes" where
  "AES_unwrap_key_padded decrypt max_out inp =
     (let in_len = of_nat (length inp) :: u64 in
      if in_len < 16 \<or> max_out < in_len - 8 then (0, 0, [])
      else case (if in_len = 16
                 then (let block = decrypt inp in Some (take 8 block, drop 8 block))
                 else aes_unwrap_key_inner decrypt inp) of
             None \<Rightarrow> (0, 0, [])
           | Some (iv, out) \<Rightarrow>
               let ok = constant_time_eq_int (ucast (CRYPTO_memcmp iv kPaddingConstant 4)) 0;
                   claimed_len = ucast (GETU32 (drop 4 iv)) :: u64;
                   ok = ok AND NOT (constant_time_is_zero_w claimed_len);
                   ok = ok AND constant_time_eq_w (drop_bit 3 (claimed_len - 1)) (drop_bit 3 (in_len - 9));
                   ok = fold (padding_zero claimed_len out) [length inp - 15..<length inp - 8] ok
               in (ok AND 1, constant_time_select_w ok claimed_len 0, out))"

section \<open>The rounds\<close>

text \<open>The steps on the register of eight bytes and the blocks behind it.\<close>

definition wstep :: "block128_f \<Rightarrow> nat \<Rightarrow> nat \<Rightarrow> nat \<Rightarrow> bytes \<times> bytes \<Rightarrow> bytes \<times> bytes" where
  "wstep e n j i = (\<lambda>(a, r). let b = e (a @ take 8 (drop (8 * (i - 1)) r))
     in (xor_t (take 8 b) (of_nat (n * j + i)), copy_at r (8 * (i - 1)) (drop 8 b)))"

definition ustep :: "block128_f \<Rightarrow> nat \<Rightarrow> nat \<Rightarrow> nat \<Rightarrow> bytes \<times> bytes \<Rightarrow> bytes \<times> bytes" where
  "ustep d n j i = (\<lambda>(a, r). let b = d (xor_t a (of_nat (n * j + i)) @ take 8 (drop (8 * (i - 1)) r))
     in (take 8 b, copy_at r (8 * (i - 1)) (drop 8 b)))"

definition regs :: "nat \<Rightarrow> bytes \<times> bytes \<Rightarrow> bool" where
  "regs n = (\<lambda>(a, r). length a = 8 \<and> length r = 8 * n)"

text \<open>Two permutations of the blocks of 16 octets that undo each other.\<close>

definition cipher_pair :: "block128_f \<Rightarrow> block128_f \<Rightarrow> bool" where
  "cipher_pair e d \<longleftrightarrow> (\<forall>b. length b = 16 \<longrightarrow> length (e b) = 16 \<and> length (d b) = 16 \<and> d (e b) = b \<and> e (d b) = b)"

lemma length_xor_t [simp]: "length (xor_t A t) = length A"
  by (simp add: xor_t_def Let_def)

lemma xor_t_xor_t [simp]: "8 \<le> length A \<Longrightarrow> xor_t (xor_t A t) t = A"
proof (rule nth_equalityI)
  fix i assume l: "8 \<le> length A" "i < length (xor_t (xor_t A t) t)"
  consider "i = 7" | "i = 6" | "i = 5" | "i = 4" | "i \<notin> {4, 5, 6, 7}" by auto
  then show "xor_t (xor_t A t) t ! i = A ! i"
    by cases (use l in \<open>auto simp: xor_t_def Let_def nth_list_update xor.assoc\<close>)
qed simp

lemma xor_t_append: "length a = 8 \<Longrightarrow> xor_t (a @ b) t = xor_t a t @ b"
  by (simp add: xor_t_def Let_def list_update_append nth_append)

lemma xor_t_take: "8 \<le> length A \<Longrightarrow> take 8 (xor_t A t) = xor_t (take 8 A) t" and xor_t_drop: "8 \<le> length A \<Longrightarrow> drop 8 (xor_t A t) = drop 8 A"
  using xor_t_append [of "take 8 A" "drop 8 A" t] by simp_all

lemma length_copy_at [simp]: "n + length bs \<le> length d \<Longrightarrow> length (copy_at d n bs) = length d"
  by (simp add: copy_at_def)

lemma copy_at_slice: "n + length bs \<le> length d \<Longrightarrow> take (length bs) (drop n (copy_at d n bs)) = bs"
  by (simp add: copy_at_def)

lemma copy_at_same: "copy_at d n (take k (drop n d)) = d" if "n + k \<le> length d"
proof -
  have "take k (drop n d) @ drop (n + k) d = drop n d" by (metis append_take_drop_id drop_drop add.commute)
  then show ?thesis using that by (simp add: copy_at_def)
qed

lemma copy_at_twice: "length as = length bs \<Longrightarrow> n + length bs \<le> length d \<Longrightarrow> copy_at (copy_at d n as) n bs = copy_at d n bs"
  by (simp add: copy_at_def)

lemma copy_at_tail: "length a = 8 \<Longrightarrow> length x = 8 \<Longrightarrow> copy_at (a @ x) 8 y = a @ y" if "length y = 8"
  using that by (simp add: copy_at_def)

lemma step_undo:
  assumes c: "cipher_pair e d" and s: "regs n s" and i: "i \<in> {1..n}"
  shows "ustep d n j i (wstep e n j i s) = s" and "wstep e n j i (ustep d n j i s) = s"
    and "regs n (wstep e n j i s)" and "regs n (ustep d n j i s)"
proof -
  obtain a r where ar: "s = (a, r)" and l: "length a = 8" "length r = 8 * n" using s by (cases s) (simp add: regs_def)
  define k where "k = 8 * (i - 1)"
  have k: "k + 8 \<le> length r" using i l by (auto simp: k_def)
  define x where "x = take 8 (drop k r)"
  have x: "length x = 8" using k by (simp add: x_def)
  define t :: u32 where "t = of_nat (n * j + i)"
  have w: "wstep e n j i (a', r') =
      (let b = e (a' @ take 8 (drop k r')) in (xor_t (take 8 b) t, copy_at r' k (drop 8 b)))" for a' r'
    unfolding wstep_def k_def t_def case_prod_conv ..
  have u: "ustep d n j i (a', r') =
      (let b = d (xor_t a' t @ take 8 (drop k r')) in (take 8 b, copy_at r' k (drop 8 b)))" for a' r'
    unfolding ustep_def k_def t_def case_prod_conv ..
  have sl: "take 8 (drop k (copy_at r k y)) = y" "copy_at (copy_at r k y) k x = r" "length (copy_at r k y) = 8 * n"
    if "length y = 8" for y
    using that copy_at_slice [of k y r] copy_at_twice [of y x k r] copy_at_same [of k 8 r] k x l by (simp_all add: x_def)
  have b: "length (e (a @ x)) = 16" "d (e (a @ x)) = a @ x" using c l x by (auto simp: cipher_pair_def)
  show "ustep d n j i (wstep e n j i s) = s" and "regs n (wstep e n j i s)"
    using b l x unfolding ar w x_def [symmetric] Let_def u by (simp_all add: sl regs_def)
  have b': "length (d (xor_t a t @ x)) = 16" "e (d (xor_t a t @ x)) = xor_t a t @ x" using c l x by (auto simp: cipher_pair_def)
  show "wstep e n j i (ustep d n j i s) = s" and "regs n (ustep d n j i s)"
    using b' l x unfolding ar u x_def [symmetric] Let_def w by (simp_all add: sl regs_def)
qed

text \<open>A sequence of steps is undone by the steps that undo them, in the opposite order.\<close>

lemma fold_undo:
  assumes "P x" and "\<And>k x. k \<in> set ks \<Longrightarrow> P x \<Longrightarrow> g k (f k x) = x \<and> P (f k x)"
  shows "fold g (rev ks) (fold f ks x) = x \<and> P (fold f ks x)"
  using assms
proof (induction ks arbitrary: x)
  case (Cons k ks)
  have "fold g (rev ks) (fold f ks (f k x)) = f k x \<and> P (fold f ks (f k x))" by (rule Cons.IH) (use Cons.prems in auto)
  then show ?case using Cons.prems by simp
qed simp


definition wraps :: "block128_f \<Rightarrow> nat \<Rightarrow> bytes \<times> bytes \<Rightarrow> bytes \<times> bytes" where
  "wraps e n s = fold (\<lambda>j. fold (wstep e n j) [1..<n + 1]) [0..<kBound] s"

definition unwraps :: "block128_f \<Rightarrow> nat \<Rightarrow> bytes \<times> bytes \<Rightarrow> bytes \<times> bytes" where
  "unwraps d n s = fold (\<lambda>j. fold (ustep d n j) (rev [1..<n + 1])) (rev [0..<kBound]) s"

lemma unwraps_wraps:
  assumes "cipher_pair e d" and "regs n s"
  shows "unwraps d n (wraps e n s) = s \<and> regs n (wraps e n s)"
  unfolding wraps_def unwraps_def
proof (rule fold_undo [where P = "regs n"])
  show "fold (ustep d n j) (rev [1..<n + 1]) (fold (wstep e n j) [1..<n + 1] x) = x \<and> regs n (fold (wstep e n j) [1..<n + 1] x)"
    if "regs n x" for j x
    by (rule fold_undo [where P = "regs n"]) (use that step_undo(1,3) [OF assms(1)] in auto)
qed (rule assms)

lemma wraps_unwraps:
  assumes "cipher_pair e d" and "regs n s"
  shows "wraps e n (unwraps d n s) = s \<and> regs n (unwraps d n s)"
proof -
  have "fold (\<lambda>j. fold (wstep e n j) [1..<n + 1]) (rev (rev [0..<kBound]))
      (fold (\<lambda>j. fold (ustep d n j) (rev [1..<n + 1])) (rev [0..<kBound]) s) = s \<and>
    regs n (fold (\<lambda>j. fold (ustep d n j) (rev [1..<n + 1])) (rev [0..<kBound]) s)"
  proof (rule fold_undo [where P = "regs n"])
    show "fold (wstep e n j) [1..<n + 1] (fold (ustep d n j) (rev [1..<n + 1]) x) = x \<and> regs n (fold (ustep d n j) (rev [1..<n + 1]) x)"
      if "regs n x" for j x
    proof -
      have "fold (wstep e n j) (rev (rev [1..<n + 1])) (fold (ustep d n j) (rev [1..<n + 1]) x) = x \<and>
          regs n (fold (ustep d n j) (rev [1..<n + 1]) x)"
        by (rule fold_undo [where P = "regs n"]) (use that step_undo(2,4) [OF assms(1)] in auto)
      then show ?thesis unfolding rev_rev_ident .
    qed
  qed (rule assms)
  then show ?thesis unfolding wraps_def unwraps_def rev_rev_ident .
qed

text \<open>The code's steps follow these, on the first half of \<^verbatim>\<open>A\<close> and behind the first eight bytes of \<^verbatim>\<open>out\<close>.\<close>

lemma fold_rel:
  assumes "R x y" and "\<And>k x y. k \<in> set ks \<Longrightarrow> R x y \<Longrightarrow> R (f k x) (g k y)"
  shows "R (fold f ks x) (fold g ks y)"
  using assms by (induction ks arbitrary: x y) auto

definition wrap_rel :: "nat \<Rightarrow> bytes \<times> bytes \<Rightarrow> bytes \<times> bytes \<Rightarrow> bool" where
  "wrap_rel n = (\<lambda>(A, out) (a, r). length A = 16 \<and> length out = 8 * n + 8 \<and> a = take 8 A \<and> r = drop 8 out)"

definition unwrap_rel :: "nat \<Rightarrow> bytes \<times> bytes \<Rightarrow> bytes \<times> bytes \<Rightarrow> bool" where
  "unwrap_rel n = (\<lambda>(A, out) (a, r). length A = 16 \<and> length out = 8 * n \<and> a = take 8 A \<and> r = out)"

lemma copy_at_second_half: "length A = 16 \<Longrightarrow> length x = 8 \<Longrightarrow> copy_at A 8 x = take 8 A @ x"
  by (simp add: copy_at_def)

lemma wrap_step_rel:
  assumes "cipher_pair e d" and "wrap_rel n x y" and "i \<in> {1..n}"
  shows "wrap_rel n (wrap_step e n j i x) (wstep e n j i y)"
proof -
  obtain A out where x: "x = (A, out)" and l: "length A = 16" "length out = 8 * n + 8" and y: "y = (take 8 A, drop 8 out)"
    using assms(2) by (cases x; cases y) (auto simp: wrap_rel_def)
  obtain k where k: "i = Suc k" "k < n" using assms(3) by (cases i) auto
  have s: "drop (8 * k) (drop 8 out) = drop (8 * i) out" by (simp add: k(1) add.commute)
  define b where "b = e (take 8 A @ take 8 (drop (8 * i) out))"
  have c: "copy_at A 8 (take 8 (drop (8 * i) out)) = take 8 A @ take 8 (drop (8 * i) out)"
    using l k by (intro copy_at_second_half) simp_all
  have lb: "length b = 16" using assms(1) l k by (simp add: b_def cipher_pair_def)
  have d: "drop 8 (copy_at out (8 * i) z) = copy_at (drop 8 out) (8 * k) z" if "length z = 8" for z
    using l k that by (simp add: copy_at_def drop_take add.commute)
  have w: "wrap_step e n j i x = (xor_t b (of_nat (n * j + i)), copy_at out (8 * i) (drop 8 (xor_t b (of_nat (n * j + i)))))"
    unfolding wrap_step_def x case_prod_conv Let_def c b_def ..
  have w': "wstep e n j i y = (xor_t (take 8 b) (of_nat (n * j + i)), copy_at (drop 8 out) (8 * k) (drop 8 b))"
  proof -
    have "i - 1 = k" by (simp add: k)
    then show ?thesis unfolding wstep_def y case_prod_conv Let_def by (simp only: s b_def)
  qed
  have lo: "length (copy_at out (8 * i) z) = 8 * n + 8" if "length z = 8" for z using l k that by simp
  show ?thesis unfolding w w' wrap_rel_def case_prod_conv using lb by (simp add: xor_t_take xor_t_drop d lo)
qed

lemma unwrap_step_rel:
  assumes "cipher_pair e d" and "unwrap_rel n x y" and "i \<in> {1..n}"
  shows "unwrap_rel n (unwrap_step d n j i x) (ustep d n j i y)"
proof -
  obtain A out where x: "x = (A, out)" and l: "length A = 16" "length out = 8 * n" and y: "y = (take 8 A, out)"
    using assms(2) by (cases x; cases y) (auto simp: unwrap_rel_def)
  define t :: u32 where "t = of_nat (n * j + i)"
  obtain k where k: "i = Suc k" "k < n" using assms(3) by (cases i) auto
  define b where "b = d (xor_t (take 8 A) t @ take 8 (drop (8 * (i - 1)) out))"
  have c: "copy_at (xor_t A t) 8 (take 8 (drop (8 * (i - 1)) out)) = xor_t (take 8 A) t @ take 8 (drop (8 * (i - 1)) out)"
    using l k by (subst copy_at_second_half) (simp_all add: xor_t_take)
  have lb: "length b = 16" using assms(1) l k by (simp add: b_def cipher_pair_def)
  have u: "unwrap_step d n j i x = (b, copy_at out (8 * (i - 1)) (drop 8 b))"
    unfolding unwrap_step_def x case_prod_conv Let_def t_def [symmetric] c b_def ..
  have u': "ustep d n j i y = (take 8 b, copy_at out (8 * (i - 1)) (drop 8 b))"
    unfolding ustep_def y case_prod_conv Let_def t_def [symmetric] b_def ..
  show ?thesis unfolding u u' unwrap_rel_def case_prod_conv using lb l k by simp
qed

section \<open>Wrapping and unwrapping\<close>

definition wrap_iv :: "bytes option \<Rightarrow> bytes" where
  "wrap_iv iv = (case iv of None \<Rightarrow> kDefaultIV | Some iv \<Rightarrow> take 8 iv)"

lemma blocks_of: "m mod 8 = 0 \<Longrightarrow> m = 8 * (m div 8)" for m :: nat
  by (metis add_0_right mult_div_mod_eq)

lemma blocks_of': "m mod 8 = 0 \<Longrightarrow> 24 \<le> m \<Longrightarrow> m = 8 * (m div 8 - 1) + 8" for m :: nat
  using blocks_of [of m] by (cases "m div 8") auto

lemma AES_wrap_key_eq:
  assumes c: "cipher_pair e d" and iv: "length (wrap_iv iv) = 8"
  shows "AES_wrap_key e iv p =
    (if length p > INT_MAX - 8 \<or> length p < 16 \<or> length p mod 8 \<noteq> 0 then None
     else let (a, r) = wraps e (length p div 8) (wrap_iv iv, p) in Some (a @ r))"
proof (cases "length p > INT_MAX - 8 \<or> length p < 16 \<or> length p mod 8 \<noteq> 0")
  case False
  define n where "n = length p div 8"
  have l: "length p = 8 * n" unfolding n_def by (rule blocks_of) (use False in blast)
  define v where "v = (case iv of None \<Rightarrow> kDefaultIV | Some iv \<Rightarrow> iv)"
  have v: "take 8 v = wrap_iv iv" by (simp add: v_def wrap_iv_def kDefaultIV_def split: option.split)
  have "wrap_rel n (take 8 v @ replicate 8 0, replicate 8 0 @ p) (wrap_iv iv, p)" using iv l v by (simp add: wrap_rel_def)
  then have rel: "wrap_rel n (fold (\<lambda>j. fold (wrap_step e n j) [1..<n + 1]) [0..<kBound] (take 8 v @ replicate 8 0, replicate 8 0 @ p))
      (wraps e n (wrap_iv iv, p))"
    unfolding wraps_def by (intro fold_rel [where R = "wrap_rel n"]) (auto intro: wrap_step_rel [OF c])
  obtain A out where ao: "fold (\<lambda>j. fold (wrap_step e n j) [1..<n + 1]) [0..<kBound] (take 8 v @ replicate 8 0, replicate 8 0 @ p) = (A, out)"
    by (rule prod.exhaust)
  obtain a r where ar: "wraps e n (wrap_iv iv, p) = (a, r)" by (rule prod.exhaust)
  have w: "length A = 16" "length out = 8 * n + 8" "a = take 8 A" "r = drop 8 out"
    using rel unfolding ao ar wrap_rel_def case_prod_conv by simp_all
  have "copy_at out 0 (take 8 A) = take 8 A @ drop 8 out" using w by (simp add: copy_at_def)
  then have "AES_wrap_key e iv p = Some (take 8 A @ drop 8 out)"
    unfolding AES_wrap_key_def Let_def if_not_P [OF False] n_def [symmetric] v_def [symmetric] ao by simp
  then show ?thesis unfolding if_not_P [OF False] n_def [symmetric] ar Let_def case_prod_conv w .
qed (simp add: AES_wrap_key_def)

lemma aes_unwrap_key_inner_eq:
  assumes c: "cipher_pair e d"
  shows "aes_unwrap_key_inner d x =
    (if length x > INT_MAX \<or> length x < 24 \<or> length x mod 8 \<noteq> 0 then None
     else Some (unwraps d (length x div 8 - 1) (take 8 x, drop 8 x)))"
proof (cases "length x > INT_MAX \<or> length x < 24 \<or> length x mod 8 \<noteq> 0")
  case False
  define n where "n = length x div 8 - 1"
  have l: "length x = 8 * n + 8" unfolding n_def by (rule blocks_of') (use False in \<open>simp_all only: de_Morgan_disj not_not not_less\<close>)
  have "unwrap_rel n (take 8 x @ replicate 8 0, drop 8 x) (take 8 x, drop 8 x)" using l by (simp add: unwrap_rel_def)
  then have rel: "unwrap_rel n (fold (\<lambda>j. fold (unwrap_step d n j) (rev [1..<n + 1])) (rev [0..<kBound]) (take 8 x @ replicate 8 0, drop 8 x))
      (unwraps d n (take 8 x, drop 8 x))"
    unfolding unwraps_def by (intro fold_rel [where R = "unwrap_rel n"]) (auto intro: unwrap_step_rel [OF c])
  obtain A out where ao: "fold (\<lambda>j. fold (unwrap_step d n j) (rev [1..<n + 1])) (rev [0..<kBound]) (take 8 x @ replicate 8 0, drop 8 x) = (A, out)"
    by (rule prod.exhaust)
  obtain a r where ar: "unwraps d n (take 8 x, drop 8 x) = (a, r)" by (rule prod.exhaust)
  have w: "a = take 8 A" "r = out" using rel unfolding ao ar unwrap_rel_def case_prod_conv by simp_all
  have "aes_unwrap_key_inner d x = Some (take 8 A, out)"
    unfolding aes_unwrap_key_inner_def Let_def if_not_P [OF False] n_def [symmetric] ao by simp
  then show ?thesis unfolding if_not_P [OF False] n_def [symmetric] ar w .
qed (simp add: aes_unwrap_key_inner_def)

text \<open>A text unwraps to \<^verbatim>\<open>p\<close> with register \<^verbatim>\<open>a\<close> exactly if it is what \<^verbatim>\<open>p\<close> with that initial value wraps to.\<close>

lemma unwrap_inner_iff:
  assumes c: "cipher_pair e d" and a: "length a = 8"
  shows "aes_unwrap_key_inner d x = Some (a, p) \<longleftrightarrow> AES_wrap_key e (Some a) p = Some x"
proof -
  have wi: "wrap_iv (Some a) = a" using a by (simp add: wrap_iv_def)
  then have wl: "length (wrap_iv (Some a)) = 8" using a by simp
  show ?thesis
  proof
    assume u: "aes_unwrap_key_inner d x = Some (a, p)"
    define n where "n = length x div 8 - 1"
    have cond: "\<not> (length x > INT_MAX \<or> length x < 24 \<or> length x mod 8 \<noteq> 0)"
      using u unfolding aes_unwrap_key_inner_eq [OF c] by (rule contrapos_pn) simp
    have un: "unwraps d n (take 8 x, drop 8 x) = (a, p)"
      using u unfolding aes_unwrap_key_inner_eq [OF c] if_not_P [OF cond] n_def by (rule option.inject [THEN iffD1])
    have l: "length x = 8 * n + 8" unfolding n_def by (rule blocks_of') (use cond in \<open>simp_all only: de_Morgan_disj not_not not_less\<close>)
    have r: "regs n (take 8 x, drop 8 x)" using l by (simp add: regs_def)
    have w: "wraps e n (a, p) = (take 8 x, drop 8 x)" "length p = 8 * n"
      using wraps_unwraps [OF c r] unfolding un by (simp_all add: regs_def)
    have n: "length p div 8 = n" by (simp add: w(2))
    show "AES_wrap_key e (Some a) p = Some x"
    proof -
      have "\<not> (length p > INT_MAX - 8 \<or> length p < 16 \<or> length p mod 8 \<noteq> 0)" using cond l w(2) by auto
      then show ?thesis unfolding AES_wrap_key_eq [OF c wl] by (simp only: n wi w(1) if_False Let_def case_prod_conv append_take_drop_id)
    qed
  next
    assume w: "AES_wrap_key e (Some a) p = Some x"
    define n where "n = length p div 8"
    have cond: "\<not> (length p > INT_MAX - 8 \<or> length p < 16 \<or> length p mod 8 \<noteq> 0)"
      using w unfolding AES_wrap_key_eq [OF c wl] by (rule contrapos_pn) simp
    have wr: "(case wraps e n (a, p) of (a, r) \<Rightarrow> Some (a @ r)) = Some x"
      using w unfolding AES_wrap_key_eq [OF c wl] if_not_P [OF cond] wi Let_def n_def .
    have l: "length p = 8 * n" unfolding n_def by (rule blocks_of) (use cond in blast)
    have r: "regs n (a, p)" using l a by (simp add: regs_def)
    obtain b q where bq: "wraps e n (a, p) = (b, q)" by force
    have lb: "length b = 8" "length q = 8 * n" and un: "unwraps d n (b, q) = (a, p)"
      using unwraps_wraps [OF c r] unfolding bq by (simp_all add: regs_def)
    have x: "x = b @ q" using wr unfolding bq by simp
    have n: "length x div 8 - 1 = n" using lb by (simp add: x)
    have "\<not> (length x > INT_MAX \<or> length x < 24 \<or> length x mod 8 \<noteq> 0)"
      using cond lb l unfolding x INT_MAX_def by auto
    moreover have "(take 8 x, drop 8 x) = (b, q)" using lb by (simp add: x)
    ultimately show "aes_unwrap_key_inner d x = Some (a, p)"
      unfolding aes_unwrap_key_inner_eq [OF c] by (simp only: n un if_False)
  qed
qed


lemma length_unwrap_inner:
  assumes "cipher_pair e d" and "aes_unwrap_key_inner d x = Some (a, p)"
  shows "length a = 8" and "length x = length p + 8" and "16 \<le> length p" and "length p mod 8 = 0"
proof -
  define n where "n = length x div 8 - 1"
  have cond: "\<not> (length x > INT_MAX \<or> length x < 24 \<or> length x mod 8 \<noteq> 0)"
    using assms(2) unfolding aes_unwrap_key_inner_eq [OF assms(1)] by (rule contrapos_pn) simp
  have un: "unwraps d n (take 8 x, drop 8 x) = (a, p)"
    using assms(2) unfolding aes_unwrap_key_inner_eq [OF assms(1)] if_not_P [OF cond] n_def by (rule option.inject [THEN iffD1])
  have l: "length x = 8 * n + 8" unfolding n_def by (rule blocks_of') (use cond in \<open>simp_all only: de_Morgan_disj not_not not_less\<close>)
  then have "regs n (take 8 x, drop 8 x)" by (simp add: regs_def)
  from wraps_unwraps [OF assms(1) this] have "length a = 8" "length p = 8 * n" unfolding un by (simp_all add: regs_def)
  then show "length a = 8" "length x = length p + 8" "16 \<le> length p" "length p mod 8 = 0" using l cond by simp_all
qed

lemma AES_wrap_key_iv:
  assumes "cipher_pair e d" and "length (wrap_iv iv) = 8"
  shows "AES_wrap_key e iv p = AES_wrap_key e (Some (wrap_iv iv)) p"
proof -
  have "wrap_iv (Some (wrap_iv iv)) = wrap_iv iv" using assms(2) by (simp add: wrap_iv_def [of "Some _"])
  then show ?thesis using AES_wrap_key_eq [OF assms(1), of iv p] AES_wrap_key_eq [OF assms(1), of "Some (wrap_iv iv)" p] assms(2) by simp
qed

lemma AES_unwrap_key_iff:
  assumes c: "cipher_pair e d" and iv: "length (wrap_iv iv) = 8"
  shows "AES_unwrap_key d iv x = Some p \<longleftrightarrow> AES_wrap_key e iv p = Some x"
proof -
  define v where "v = (case iv of None \<Rightarrow> kDefaultIV | Some iv \<Rightarrow> iv)"
  have v: "take 8 v = wrap_iv iv" by (simp add: v_def wrap_iv_def kDefaultIV_def split: option.split)
  have lv: "8 \<le> length v" using iv unfolding v [symmetric] by simp
  have eq: "CRYPTO_memcmp a v 8 = 0 \<longleftrightarrow> a = wrap_iv iv" if "length a = 8" for a
    using that lv unfolding CRYPTO_memcmp_eq_0 v [symmetric] by (auto simp: list_eq_iff_nth_eq)
  have "AES_unwrap_key d iv x = Some p \<longleftrightarrow> aes_unwrap_key_inner d x = Some (wrap_iv iv, p)"
  proof (cases "aes_unwrap_key_inner d x")
    case (Some ap)
    obtain a q where ap: "ap = (a, q)" by (rule prod.exhaust)
    show ?thesis using length_unwrap_inner(1) [OF c, of x a q] Some eq [of a]
      unfolding AES_unwrap_key_def v_def [symmetric] ap by (auto simp: Let_def)
  qed (simp add: AES_unwrap_key_def)
  then show ?thesis unfolding unwrap_inner_iff [OF c iv] AES_wrap_key_iv [OF c iv] .
qed

section \<open>Padding\<close>

definition padded_size :: "nat \<Rightarrow> nat" where
  "padded_size n = 8 * ((n + 7) div 8)"

definition pad :: "bytes \<Rightarrow> bytes" where
  "pad p = p @ replicate (padded_size (length p) - length p) 0"

text \<open>The initial value that holds the length.\<close>

definition length_iv :: "nat \<Rightarrow> bytes" where
  "length_iv n = kPaddingConstant @ be_enc 4 n"

lemma length_length_iv [simp]: "length (length_iv n) = 8"
  by (simp add: length_iv_def kPaddingConstant_def)

lemma padded_size_bounds: "n \<le> padded_size n" "padded_size n \<le> n + 7" "padded_size n mod 8 = 0"
proof -
  have "n + 7 = 8 * ((n + 7) div 8) + (n + 7) mod 8" by (rule mult_div_mod_eq [symmetric])
  moreover have "(n + 7) mod 8 < 8" by simp
  ultimately show "n \<le> padded_size n" "padded_size n \<le> n + 7" unfolding padded_size_def by linarith+
qed (simp add: padded_size_def)

lemma length_pad: "length (pad p) = padded_size (length p)"
  using padded_size_bounds(1) [of "length p"] by (simp add: pad_def)

lemma and_not_7: "unat (w AND NOT 7) = 8 * (unat w div 8)" for w :: u64
proof -
  have m: "(7 :: u64) = mask 3" by (simp add: mask_eq_exp_minus_1)
  have "w AND NOT 7 = push_bit 3 (drop_bit 3 w)"
  proof (rule bit_word_eqI)
    fix k assume "k < LENGTH(64)"
    then show "bit (w AND NOT 7) k = bit (push_bit 3 (drop_bit 3 w)) k"
      unfolding m by (auto simp: bit_simps)
  qed
  moreover have "unat (drop_bit 3 w) = unat w div 8" by (simp add: unat_drop_bit)
  moreover have "unat w div 8 * 2 ^ 3 < 2 ^ 64"
  proof -
    have "unat w div 8 * 8 \<le> unat w" by simp
    moreover have "unat w < 2 ^ 64" using unsigned_less [of w, where 'a = nat] by simp
    ultimately show ?thesis by simp
  qed
  ultimately show ?thesis using unat_push_bit_lt [of "drop_bit 3 w" 3] by simp
qed

lemma AES_wrap_key_padded_eq:
  assumes c: "cipher_pair e d" and m: "malloc_contract malloc" "OPENSSL_malloc malloc (of_nat (padded_size (length p))) \<noteq> None"
    and max_out: "length p + 15 \<le> unat max_out"
  shows "AES_wrap_key_padded malloc e max_out p =
    (if length p = 0 \<or> length p > 2 ^ 32 - 1 then None
     else if length p \<le> 8 then Some (e (length_iv (length p) @ pad p))
     else AES_wrap_key e (Some (length_iv (length p))) (pad p))"
proof -
  define L where "L = length p"
  have L: "L + 15 < 2 ^ 64" using max_out unsigned_less [of max_out, where 'a = nat] by (simp add: L_def)
  define il :: u64 where "il = of_nat L"
  have ui: "unat il = L" using L by (simp add: il_def unat_of_nat)
  have u7: "unat (il + 7) = L + 7" using L by (simp add: unat_word_ariths ui)
  define pl where "pl = (il + 7) AND NOT 7"
  have upl: "unat pl = padded_size L" unfolding pl_def and_not_7 u7 padded_size_def ..
  have pb: "L \<le> padded_size L" "padded_size L \<le> L + 7" by (rule padded_size_bounds)+
  have u8: "unat (pl + 8) = padded_size L + 8" using L pb by (simp add: unat_word_ariths upl)
  have cond: "(il = 0 \<or> il > 0xffffffff \<or> il + 7 < il \<or> pl + 8 < pl \<or> max_out < pl + 8) \<longleftrightarrow> (L = 0 \<or> L > 2 ^ 32 - 1)"
    using max_out pb by (simp add: word_less_nat_alt word_unat_eq_iff ui u7 u8 upl L_def [symmetric])
  have le8: "il \<le> 8 \<longleftrightarrow> L \<le> 8" by (simp add: word_le_nat_alt ui)
  show ?thesis
  proof (cases "L = 0 \<or> L > 2 ^ 32 - 1")
    case True
    then show ?thesis using cond unfolding AES_wrap_key_padded_def Let_def L_def [symmetric] il_def [symmetric] pl_def [symmetric] by simp
  next
    case False
    have iv: "kPaddingConstant @ PUTU32 (ucast il) = length_iv L"
    proof -
      have "unat (ucast il :: u32) = L" using False by (simp add: unat_ucast_down ui)
      then show ?thesis by (simp add: length_iv_def PUTU32_be_enc)
    qed
    obtain mem where mem: "OPENSSL_malloc malloc pl = Some mem"
      using m(2) upl unfolding L_def [symmetric] by (metis not_None_eq word_of_unat)
    have lm: "length mem = padded_size L"
      using OPENSSL_malloc_length [OF m(1) mem] by (simp add: u8)
    have big: "copy_at (copy_at mem (unat pl - 8) (replicate 8 0)) 0 p = pad p" if "8 < L"
    proof -
      have "copy_at mem (unat pl - 8) (replicate 8 0) = take (padded_size L - 8) mem @ replicate 8 0"
        using lm that pb by (simp add: copy_at_def upl)
      moreover have "drop L (take (padded_size L - 8) mem @ replicate 8 0) = replicate (padded_size L - L) 0"
        using lm that pb by simp
      ultimately show ?thesis using that pb by (simp add: copy_at_def pad_def L_def [symmetric])
    qed
    have small: "copy_at (replicate 8 0) 0 p = pad p" if "L \<le> 8"
    proof -
      have "(L + 7) div 8 = 1" using False that by (auto intro: div_nat_eqI)
      then have "padded_size L = 8" by (simp add: padded_size_def)
      then show ?thesis by (simp add: copy_at_def pad_def L_def [symmetric])
    qed
    have e: "AES_wrap_key_padded malloc e max_out p =
        (if L \<le> 8 then Some (e (length_iv L @ copy_at (replicate 8 0) 0 p))
         else AES_wrap_key e (Some (length_iv L)) (copy_at (copy_at mem (unat pl - 8) (replicate 8 0)) 0 p))"
      using cond False iv le8 mem
      unfolding AES_wrap_key_padded_def Let_def L_def [symmetric] il_def [symmetric] pl_def [symmetric] by simp
    show ?thesis unfolding e L_def [symmetric] using False small big by simp
  qed
qed


text \<open>The masks of the unwrapping code.\<close>

lemma mask_and: "(if P then - 1 else 0 :: u64) AND (if Q then - 1 else 0) = (if P \<and> Q then - 1 else 0)"
  by simp

lemma padding_zero_eq:
  "padding_zero c out i (if P then - 1 else 0) = (if P \<and> (c \<le> of_nat i \<longrightarrow> out ! i = 0) then - 1 else 0)"
proof -
  have ge: "constant_time_ge_8 (of_nat i) c = (if c \<le> of_nat i then - 1 else 0)"
  proof -
    have "constant_time_ge_w (of_nat i) c = (if c \<le> of_nat i then - 1 else 0)" by (auto simp: constant_time_ge_w_def lt_w not_le)
    then show ?thesis unfolding constant_time_ge_8_def by (simp only: ucast_mask)
  qed
  have "(ucast (constant_time_ge_8 (of_nat i) c AND out ! i) :: u64) = 0 \<longleftrightarrow> (c \<le> of_nat i \<longrightarrow> out ! i = 0)"
    unfolding ge by (simp add: word_unat_eq_iff unat_ucast_up)
  then show ?thesis unfolding padding_zero_def is_zero_w by simp
qed

lemma fold_padding_zero:
  "fold (padding_zero c out) is (if P then - 1 else 0) = (if P \<and> (\<forall>i\<in>set is. c \<le> of_nat i \<longrightarrow> out ! i = 0) then - 1 else 0)"
proof (induction "is" arbitrary: P)
  case (Cons i "is")
  show ?case unfolding fold_Cons comp_apply padding_zero_eq Cons.IH by auto
qed simp

text \<open>When a claimed length fits the blocks and the padding is zero, the output is the padded text.\<close>

lemma padded_text_iff:
  assumes out: "length out = 8 * m" "0 < m"
  shows "0 < n \<and> (n - 1) div 8 = m - 1 \<and> (\<forall>i\<in>{8 * m - 7..<8 * m}. n \<le> i \<longrightarrow> out ! i = 0) \<longleftrightarrow>
    0 < n \<and> n \<le> 8 * m \<and> out = pad (take n out)"
proof (cases "0 < n \<and> (n - 1) div 8 = m - 1")
  case True
  have "n - 1 = 8 * (m - 1) + (n - 1) mod 8" using True mult_div_mod_eq [of 8 "n - 1"] by metis
  moreover have "(n - 1) mod 8 < 8" by simp
  ultimately have b: "8 * m - 7 \<le> n" "n \<le> 8 * m" using True out(2) by linarith+
  have "(n + 7) div 8 = m" using b out(2) by (intro div_nat_eqI) auto
  then have ps: "padded_size n = 8 * m" by (simp add: padded_size_def)
  have p: "pad (take n out) = take n out @ replicate (8 * m - n) 0" using b out by (simp add: pad_def min_def ps)
  have "(\<forall>i\<in>{8 * m - 7..<8 * m}. n \<le> i \<longrightarrow> out ! i = 0) \<longleftrightarrow> drop n out = replicate (8 * m - n) 0"
  proof
    assume z: "\<forall>i\<in>{8 * m - 7..<8 * m}. n \<le> i \<longrightarrow> out ! i = 0"
    show "drop n out = replicate (8 * m - n) 0" using z b out by (intro nth_equalityI) auto
  next
    assume z: "drop n out = replicate (8 * m - n) 0"
    have "out ! i = 0" if "n \<le> i" "i < 8 * m" for i
    proof -
      have "out ! i = drop n out ! (i - n)" using that out by simp
      then show ?thesis unfolding z using that by simp
    qed
    then show "\<forall>i\<in>{8 * m - 7..<8 * m}. n \<le> i \<longrightarrow> out ! i = 0" by auto
  qed
  also have "drop n out = replicate (8 * m - n) 0 \<longleftrightarrow> out = pad (take n out)" unfolding p by (metis append_take_drop_id same_append_eq)
  finally show ?thesis using True b by simp
next
  case False
  have "\<not> (0 < n \<and> n \<le> 8 * m \<and> out = pad (take n out))"
  proof
    assume a: "0 < n \<and> n \<le> 8 * m \<and> out = pad (take n out)"
    then have "length out = padded_size n" using length_pad [of "take n out"] out by (simp add: min.absorb2)
    then have "(n + 7) div 8 = m" using out by (simp add: padded_size_def)
    moreover have "(n - 1) div 8 = (n + 7) div 8 - 1"
    proof -
      have "n + 7 = (n - 1) + 8" using a by simp
      then show ?thesis by simp
    qed
    ultimately show False using False a by simp
  qed
  then show ?thesis using False by blast
qed

definition decrypted :: "block128_f \<Rightarrow> bytes \<Rightarrow> (bytes \<times> bytes) option" where
  "decrypted d x = (if length x = 16 then Some (take 8 (d x), drop 8 (d x)) else aes_unwrap_key_inner d x)"

lemma AES_unwrap_key_padded_eq:
  assumes c: "cipher_pair e d" and l: "length x < 2 ^ 64" "16 \<le> length x" "length x \<le> unat max_out + 8"
    and dx: "decrypted d x = Some (iv, out)" and liv: "length iv = 8" and lo: "length x = 8 * m + 8" "length out = 8 * m"
  shows "AES_unwrap_key_padded d max_out x =
    (let n = be_val (drop 4 iv) in
     if 0 < n \<and> n \<le> 8 * m \<and> iv = length_iv n \<and> out = pad (take n out) then (1, of_nat n, out) else (0, 0, out))"
proof -
  define n where "n = be_val (drop 4 iv)"
  define cl :: u64 where "cl = ucast (GETU32 (drop 4 iv))"
  define il :: u64 where "il = of_nat (length x)"
  have m: "0 < m" using l lo by simp
  have ui: "unat il = length x" using l by (simp add: il_def unat_of_nat)
  have un: "unat cl = n" unfolding cl_def n_def using liv by (simp add: unat_ucast_up unat_GETU32)
  have n32: "n < 2 ^ 32" unfolding n_def using be_val_lt [of "drop 4 iv"] liv by simp
  have u8: "unat (il - 8) = length x - 8" "unat (il - 9) = length x - 9"
    using l lo m by (simp_all add: unat_sub_if' ui)
  have guard: "\<not> (il < 16 \<or> max_out < il - 8)" using l by (simp add: word_less_nat_alt ui u8)
  have sel: "(if il = 16 then let block = d x in Some (take 8 block, drop 8 block) else aes_unwrap_key_inner d x) = Some (iv, out)"
    using dx by (cases "length x = 16") (simp_all add: decrypted_def Let_def word_unat_eq_iff ui)
  define P1 where "P1 \<longleftrightarrow> take 4 iv = kPaddingConstant"
  have ok1: "constant_time_eq_int (ucast (CRYPTO_memcmp iv kPaddingConstant 4)) 0 = (if P1 then - 1 else 0)"
  proof -
    have "(ucast (CRYPTO_memcmp iv kPaddingConstant 4) :: 32 word) = 0 \<longleftrightarrow> CRYPTO_memcmp iv kPaddingConstant 4 = 0"
      by (simp add: word_unat_eq_iff unat_ucast_up)
    also have "\<dots> \<longleftrightarrow> P1"
      unfolding CRYPTO_memcmp_eq_0 P1_def using liv by (auto simp: list_eq_iff_nth_eq kPaddingConstant_def)
    finally show ?thesis by (simp add: constant_time_eq_int_def eq_w scast_eq_iff [of _ 0, simplified])
  qed
  have ok2: "NOT (constant_time_is_zero_w cl) = (if n \<noteq> 0 then - 1 else 0)"
    by (simp add: is_zero_w word_unat_eq_iff un)
  have ok3: "constant_time_eq_w (drop_bit 3 (cl - 1)) (drop_bit 3 (il - 9)) = (if (n - 1) div 8 = m - 1 then - 1 else 0)"
    if "n \<noteq> 0"
  proof -
    have "cl \<noteq> 0" using that un by auto
    then have "unat (cl - 1) = n - 1" by (simp add: unat_minus_one un)
    then have "unat (drop_bit 3 (cl - 1)) = (n - 1) div 8" by (simp add: unat_drop_bit)
    moreover have "unat (drop_bit 3 (il - 9)) = m - 1"
    proof -
      have "length x - 9 = 8 * (m - 1) + 7" using lo m by simp
      then have "(length x - 9) div 8 = m - 1" by simp
      then show ?thesis by (simp add: unat_drop_bit u8)
    qed
    ultimately show ?thesis unfolding eq_w word_unat_eq_iff by simp
  qed
  define B where "B \<longleftrightarrow> P1 \<and> 0 < n \<and> (n - 1) div 8 = m - 1"
  have oks: "constant_time_eq_int (ucast (CRYPTO_memcmp iv kPaddingConstant 4)) 0 AND NOT (constant_time_is_zero_w cl) AND
      constant_time_eq_w (drop_bit 3 (cl - 1)) (drop_bit 3 (il - 9)) = (if B then - 1 else 0)"
    using ok3 unfolding ok1 ok2 B_def by (cases "n = 0") (auto simp: mask_and)
  have rng: "set [length x - 15..<length x - 8] = {8 * m - 7..<8 * m}" using lo by simp
  have cmp: "cl \<le> of_nat i \<longleftrightarrow> n \<le> i" if "i \<in> {8 * m - 7..<8 * m}" for i
    using that l lo by (simp add: word_le_nat_alt un unat_of_nat)
  define G where "G \<longleftrightarrow> B \<and> (\<forall>i\<in>{8 * m - 7..<8 * m}. n \<le> i \<longrightarrow> out ! i = 0)"
  have okf: "fold (padding_zero cl out) [length x - 15..<length x - 8] (if B then - 1 else 0) = (if G then - 1 else 0)"
    unfolding fold_padding_zero rng G_def using cmp by simp
  have G: "G \<longleftrightarrow> 0 < n \<and> n \<le> 8 * m \<and> iv = length_iv n \<and> out = pad (take n out)"
  proof -
    have "iv = length_iv n \<longleftrightarrow> P1"
    proof -
      have "be_enc 4 n = drop 4 iv" unfolding n_def by (rule be_enc_of_val) (simp add: liv)
      then have "length_iv n = kPaddingConstant @ drop 4 iv" by (simp add: length_iv_def)
      then show ?thesis unfolding P1_def by (metis append_take_drop_id append_same_eq)
    qed
    then show ?thesis using padded_text_iff [OF lo(2) m, of n] unfolding G_def B_def by blast
  qed
  have "AES_unwrap_key_padded d max_out x =
      ((if G then - 1 else 0) AND 1, constant_time_select_w (if G then - 1 else 0) cl 0, out)"
    unfolding AES_unwrap_key_padded_def Let_def il_def [symmetric] if_not_P [OF guard] sel [unfolded Let_def]
      option.case case_prod_conv cl_def [symmetric] and.assoc oks okf ..
  also have "\<dots> = (if G then (1, of_nat n, out) else (0, 0, out))"
    unfolding select_w using un eq_of_natI [OF un] by simp
  finally show ?thesis unfolding G n_def Let_def .
qed


lemma AES_unwrap_key_padded_undecrypted:
  assumes "length x < 2 ^ 64" and "length x < 16 \<or> unat max_out + 8 < length x \<or> decrypted d x = None"
  shows "AES_unwrap_key_padded d max_out x = (0, 0, [])"
proof -
  define il :: u64 where "il = of_nat (length x)"
  have ui: "unat il = length x" using assms(1) by (simp add: il_def unat_of_nat)
  have il: "il < 16 \<longleftrightarrow> length x < 16" "il = 16 \<longleftrightarrow> length x = 16" by (simp_all add: word_less_nat_alt word_unat_eq_iff ui)
  have u8: "unat (il - 8) = length x - 8" if "\<not> length x < 16" using that by (simp add: unat_sub_if' ui)
  show ?thesis
  proof (cases "il < 16 \<or> max_out < il - 8")
    case True
    then show ?thesis by (simp add: AES_unwrap_key_padded_def il_def [symmetric] Let_def)
  next
    case False
    then have "decrypted d x = None" using assms(2) u8 il by (auto simp: word_less_nat_alt)
    then show ?thesis using False il by (simp add: AES_unwrap_key_padded_def il_def [symmetric] Let_def decrypted_def split: if_splits)
  qed
qed

lemma decrypted_iff:
  assumes c: "cipher_pair e d" and a: "length a = 8" and p: "8 \<le> length p"
  shows "decrypted d x = Some (a, p) \<longleftrightarrow>
    (if length p = 8 then length x = 16 \<and> x = e (a @ p) else AES_wrap_key e (Some a) p = Some x)"
proof (cases "length x = 16")
  case True
  have ld: "length (d x) = 16" "e (d x) = x" using c True by (auto simp: cipher_pair_def)
  have "AES_wrap_key e (Some a) p \<noteq> Some x"
    using length_unwrap_inner(2,3) [OF c, of x a p] unwrap_inner_iff [OF c a, of x p] True by auto
  moreover have "decrypted d x = Some (a, p) \<longleftrightarrow> d x = a @ p" using True a ld by (auto simp: decrypted_def append_eq_conv_conj)
  moreover have "d x = a @ p \<longleftrightarrow> length p = 8 \<and> x = e (a @ p)"
  proof
    assume "d x = a @ p"
    then show "length p = 8 \<and> x = e (a @ p)" using ld a by (metis add_left_cancel length_append numeral_Bit0)
  next
    assume "length p = 8 \<and> x = e (a @ p)"
    then show "d x = a @ p" using c a by (auto simp: cipher_pair_def)
  qed
  ultimately show ?thesis using True by auto
next
  case False
  then have "decrypted d x = Some (a, p) \<longleftrightarrow> AES_wrap_key e (Some a) p = Some x"
    by (simp add: decrypted_def unwrap_inner_iff [OF c a])
  moreover have "length p \<noteq> 8" if "AES_wrap_key e (Some a) p = Some x"
    using that length_unwrap_inner(3) [OF c, of x a p] unwrap_inner_iff [OF c a, of x p] by auto
  ultimately show ?thesis using False by auto
qed

lemma length_decrypted:
  assumes c: "cipher_pair e d" and "decrypted d x = Some (a, p)"
  obtains m where "length a = 8" and "length p = 8 * m" and "0 < m" and "length x = 8 * m + 8"
proof (cases "length x = 16")
  case True
  then have "length (d x) = 16" using c by (simp add: cipher_pair_def)
  then show ?thesis using assms(2) True by (intro that [of 1]) (auto simp: decrypted_def)
next
  case False
  then have "aes_unwrap_key_inner d x = Some (a, p)" using assms(2) by (simp add: decrypted_def)
  note l = length_unwrap_inner [OF c this]
  have "length p = 8 * (length p div 8)" by (rule blocks_of [OF l(4)])
  then show ?thesis using l by (intro that [of "length p div 8"]) auto
qed

section \<open>What unwrapping accepts\<close>

text \<open>
  C34: When \<^verbatim>\<open>AES_decrypt\<close> inverts \<^verbatim>\<open>AES_encrypt\<close> on blocks, \<^verbatim>\<open>AES_unwrap_key\<close> accepts exactly what \<^verbatim>\<open>AES_wrap_key\<close>
  with the same initial value produces, and returns what was wrapped: a text that was not wrapped is refused,
  whatever its length. \<^verbatim>\<open>AES_unwrap_key_padded\<close>, through its branch-free checks of constant, length and padding,
  accepts exactly what \<^verbatim>\<open>AES_wrap_key_padded\<close> produces (given memory for its copy), if \<^verbatim>\<open>max_out\<close> has room for it, and otherwise reports no length.
\<close>

theorem key_wrap_exact:
  assumes c: "cipher_pair e d" and iv: "length (wrap_iv iv) = 8"
    and m: "malloc_contract malloc" "OPENSSL_malloc malloc (of_nat (padded_size (length p))) \<noteq> None"
    and room: "length p + 15 \<le> unat space" and x: "length x < 2 ^ 64"
  shows "(AES_unwrap_key d iv x = Some p \<longleftrightarrow> AES_wrap_key e iv p = Some x) \<and>
    ((\<exists>n out. AES_unwrap_key_padded d max_out x = (1, n, out) \<and> p = take (unat n) out \<and> unat n \<le> length out) \<longleftrightarrow>
      AES_wrap_key_padded malloc e space p = Some x \<and> length x \<le> unat max_out + 8) \<and>
    (fst (AES_unwrap_key_padded d max_out x) = 1 \<or> (\<exists>out. AES_unwrap_key_padded d max_out x = (0, 0, out)))"
proof (intro conjI)
  show "AES_unwrap_key d iv x = Some p \<longleftrightarrow> AES_wrap_key e iv p = Some x" by (rule AES_unwrap_key_iff [OF c iv])
  note W = AES_wrap_key_padded_eq [OF c m room]
  have pb: "length p \<le> padded_size (length p)" by (rule padded_size_bounds)
  have wrapped: "AES_wrap_key_padded malloc e space p = Some x \<longleftrightarrow>
      0 < length p \<and> length p < 2 ^ 32 \<and> decrypted d x = Some (length_iv (length p), pad p)"
  proof (cases "0 < length p \<and> length p < 2 ^ 32")
    case True
    have small: "padded_size (length p) = 8 \<longleftrightarrow> length p \<le> 8"
    proof
      assume "length p \<le> 8"
      then have "(length p + 7) div 8 = 1" using True by (intro div_nat_eqI) (simp_all add: Suc_le_eq)
      then show "padded_size (length p) = 8" by (simp add: padded_size_def)
    qed (use pb in simp)
    have "8 \<le> padded_size (length p)" using True small padded_size_bounds(3) [of "length p"] pb by (cases "length p \<le> 8") auto
    then have "decrypted d x = Some (length_iv (length p), pad p) \<longleftrightarrow>
        (if length p \<le> 8 then length x = 16 \<and> x = e (length_iv (length p) @ pad p) else AES_wrap_key e (Some (length_iv (length p))) (pad p) = Some x)"
      using decrypted_iff [OF c, of "length_iv (length p)" "pad p" x] small by (simp add: length_pad)
    moreover have "length (e (length_iv (length p) @ pad p)) = 16" if "length p \<le> 8"
      using c that small by (simp add: cipher_pair_def length_pad)
    ultimately show ?thesis using True unfolding W by auto
  qed (simp add: W, linarith)
  have res: "(\<exists>out. AES_unwrap_key_padded d max_out x = (0, 0, out)) \<or>
      (\<exists>iv out. decrypted d x = Some (iv, out) \<and> length x \<le> unat max_out + 8 \<and>
        (let n = be_val (drop 4 iv) in AES_unwrap_key_padded d max_out x = (1, of_nat n, out) \<and>
          0 < n \<and> n \<le> length out \<and> n < 2 ^ 32 \<and> iv = length_iv n \<and> out = pad (take n out)))"
  proof (cases "length x < 16 \<or> unat max_out + 8 < length x \<or> decrypted d x = None")
    case True
    then show ?thesis using AES_unwrap_key_padded_undecrypted [OF x] by blast
  next
    case False
    then obtain a out where dx: "decrypted d x = Some (a, out)" by auto
    obtain k where k: "length a = 8" "length out = 8 * k" "0 < k" "length x = 8 * k + 8" by (rule length_decrypted [OF c dx])
    have "be_val (drop 4 a) < 2 ^ 32" using be_val_lt [of "drop 4 a"] k by simp
    then show ?thesis
      using AES_unwrap_key_padded_eq [OF c x _ _ dx k(1,4,2), of max_out] False dx k(2) by (auto simp: Let_def not_less split: if_splits)
  qed
  then show "fst (AES_unwrap_key_padded d max_out x) = 1 \<or> (\<exists>out. AES_unwrap_key_padded d max_out x = (0, 0, out))"
    by (auto simp: Let_def)
  show "(\<exists>n out. AES_unwrap_key_padded d max_out x = (1, n, out) \<and> p = take (unat n) out \<and> unat n \<le> length out) \<longleftrightarrow>
      AES_wrap_key_padded malloc e space p = Some x \<and> length x \<le> unat max_out + 8" (is "?L \<longleftrightarrow> ?R")
  proof
    assume ?L
    then obtain n out where u: "AES_unwrap_key_padded d max_out x = (1, n, out)" "p = take (unat n) out" by blast
    then obtain a out' where a: "decrypted d x = Some (a, out')" "length x \<le> unat max_out + 8"
      "AES_unwrap_key_padded d max_out x = (1, of_nat (be_val (drop 4 a)), out')" "0 < be_val (drop 4 a)"
      "be_val (drop 4 a) \<le> length out'" "be_val (drop 4 a) < 2 ^ 32" "a = length_iv (be_val (drop 4 a))" "out' = pad (take (be_val (drop 4 a)) out')"
      using res unfolding Let_def by auto
    define k where "k = be_val (drop 4 a)"
    have un: "unat n = k" using u(1) a(3,6) by (auto simp: k_def [symmetric] unat_of_nat)
    have out: "out' = out" using u(1) a(3) by simp
    have p: "p = take k out" "length p = k" using u(2) a(5) unfolding un out k_def [symmetric] by simp_all
    show ?R unfolding wrapped p(2) using a p(1) unfolding k_def [symmetric] out by simp
  next
    assume R: ?R
    then have dx: "decrypted d x = Some (length_iv (length p), pad p)" and lp: "0 < length p" "length p < 2 ^ 32"
      unfolding wrapped by simp_all
    obtain k where k: "length (pad p) = 8 * k" "0 < k" "length x = 8 * k + 8" by (rule length_decrypted [OF c dx])
    have b: "be_val (drop 4 (length_iv (length p))) = length p"
      using lp by (simp add: length_iv_def kPaddingConstant_def be_val_be_enc)
    have t: "take (length p) (pad p) = p" by (simp add: pad_def)
    have "length p \<le> 8 * k" using pb k(1) by (simp add: length_pad)
    then have "AES_unwrap_key_padded d max_out x = (1, of_nat (length p), pad p)"
      using AES_unwrap_key_padded_eq [OF c x _ _ dx length_length_iv k(3,1), of max_out] R lp k t unfolding b Let_def by simp
    moreover have "unat (of_nat (length p) :: u64) = length p" using lp by (simp add: unat_of_nat)
    ultimately show ?L using t pb by (intro exI [of _ "of_nat (length p)"] exI [of _ "pad p"]) (simp add: length_pad)
  qed
qed


text \<open>A cipher that reverses its blocks, and inverts their bits.\<close>

definition mirror_block :: block128_f where
  "mirror_block b = map NOT (rev b)"

lemma mirror_block_pair: "cipher_pair mirror_block mirror_block"
  by (simp add: cipher_pair_def mirror_block_def rev_map comp_def)

definition wrapped_example :: bytes where
  "wrapped_example = mirror_block (length_iv 3 @ [1, 2, 3, 0, 0, 0, 0, 0])"

theorem key_wrap_exact_witness:
  "AES_unwrap_key mirror_block None wrapped_example \<noteq> Some [1, 2, 3] \<and>
   (\<exists>n out. AES_unwrap_key_padded mirror_block 8 wrapped_example = (1, n, out) \<and> [1, 2, 3] = take (unat n) out \<and> unat n \<le> length out) \<and>
   (\<exists>out. AES_unwrap_key_padded mirror_block 7 wrapped_example = (0, 0, out))"
proof -
  have iv: "length (wrap_iv None) = 8" by (simp add: wrap_iv_def kDefaultIV_def)
  have m: "OPENSSL_malloc example_malloc (of_nat (padded_size (length [1 :: u8, 2, 3]))) \<noteq> None"
    by (simp add: padded_size_def OPENSSL_malloc_def OPENSSL_MALLOC_PREFIX_def example_malloc_def)
  have room: "length [1 :: u8, 2, 3] + 15 \<le> unat (100 :: u64)" by simp
  have x: "length wrapped_example = 16" by (simp add: wrapped_example_def mirror_block_def)
  then have lx: "length wrapped_example < 2 ^ 64" by simp
  note k = key_wrap_exact [OF mirror_block_pair iv example_malloc_contract m room lx]
  have p: "pad [1, 2, 3] = [1, 2, 3, 0, 0, 0, 0, 0]" by (simp add: pad_def padded_size_def) (simp add: numeral_eq_Suc)
  have w: "AES_wrap_key_padded example_malloc mirror_block 100 [1, 2, 3] = Some wrapped_example"
    using AES_wrap_key_padded_eq [OF mirror_block_pair example_malloc_contract m room]
    by (simp add: wrapped_example_def p numeral_3_eq_3)
  have n: "AES_wrap_key mirror_block None [1, 2, 3] = None" by (simp add: AES_wrap_key_def)
  have f: "fst (AES_unwrap_key_padded mirror_block 7 wrapped_example) \<noteq> 1"
    by (simp add: AES_unwrap_key_padded_def x)
  show ?thesis using k [of 8] k [of 7] n w x f by auto
qed

end
