(* ===== verification/Der.thy ===== *)
theory Der
  imports Cbs
begin

text \<open>
  What the parser of \<^verbatim>\<open>cbs.c\<close> accepts, stated against an encoder written independently of it: the
  minimal base-128 form of a tag number (\<^verbatim>\<open>b128\<close>), the tag and length octets of DER
  (\<^verbatim>\<open>tag_octets\<close>, \<^verbatim>\<open>len_octets\<close>) and the element they head (\<^verbatim>\<open>der_element\<close>). Each parsing function is
  shown to succeed on exactly the encodings, so that DER parsing is a bijection.
\<close>

section \<open>Reading fixed-width integers\<close>

lemma foldl_shift_or:
  assumes "unat r * 256 ^ length bs + be_val bs < 2 ^ 64"
  shows "unat (foldl (\<lambda>result b. push_bit 8 result OR ucast b) (r :: u64) bs)
    = unat r * 256 ^ length bs + be_val bs"
  using assms
proof (induction bs arbitrary: r)
  case (Cons b bs)
  have "(unat r * 256 + unat b) * 256 ^ length bs + be_val bs < 2 ^ 64"
    using Cons.prems by (simp add: be_val_Cons algebra_simps)
  moreover have "unat r < 2 ^ 56"
  proof -
    have "unat r * 256 ^ 1 \<le> unat r * 256 ^ length (b # bs)"
      by (intro mult_left_mono power_increasing) auto
    then have "unat r * 256 ^ 1 < 2 ^ 64" using Cons.prems by (meson add_lessD1 le_less_trans)
    then show ?thesis by simp
  qed
  ultimately show ?case
    using Cons.IH [of "push_bit 8 r OR ucast b"] by (simp add: unat_shift_or_u8 be_val_Cons algebra_simps)
qed simp

lemma cbs_get_Some_iff:
  "cbs_get cbs n = (Some d, rest) \<longleftrightarrow> cbs = d @ rest \<and> length d = unat n"
  by (auto simp: cbs_get_def)

lemma cbs_get_None_iff: "cbs_get cbs n = (None, rest) \<longleftrightarrow> length cbs < unat n \<and> rest = cbs"
  by (auto simp: cbs_get_def)

lemma cbs_get_u_Some_iff:
  assumes "unat n \<le> 8"
  shows "cbs_get_u cbs n = (Some v, rest) \<longleftrightarrow>
    (\<exists>d. cbs = d @ rest \<and> length d = unat n \<and> v = of_nat (be_val d))"
proof -
  have eq: "foldl (\<lambda>result b. push_bit 8 result OR ucast b) (0 :: u64) d = of_nat (be_val d)"
    if "length d = unat n" for d :: bytes
  proof -
    have "be_val d < 256 ^ 8" using that assms by (intro be_val_bound) simp
    then have lt: "be_val d < 2 ^ 64" by simp
    then have "unat (foldl (\<lambda>result b. push_bit 8 result OR ucast b) (0 :: u64) d) = be_val d"
      using foldl_shift_or [of 0 d] by simp
    then show ?thesis by (rule eq_of_natI)
  qed
  have "cbs_get_u cbs n = (Some v, rest) \<longleftrightarrow>
      (\<exists>d. cbs_get cbs n = (Some d, rest) \<and> v = foldl (\<lambda>result b. push_bit 8 result OR ucast b) 0 d)"
    unfolding cbs_get_u_def by (auto split: prod.splits option.splits)
  then show ?thesis by (auto simp: cbs_get_Some_iff eq)
qed


lemma parse_base128_loop_Cons:
  "parse_base128_loop v (b # cbs) =
     (if drop_bit 57 v \<noteq> 0 then (None, cbs)
      else if v = 0 \<and> b = 0x80 then (None, cbs)
      else let v' = push_bit 7 v OR ucast (b AND 0x7f) in
        if b AND 0x80 \<noteq> 0 then parse_base128_loop v' cbs else (Some v', cbs))"
  "parse_base128_loop v [] = (None, [])"
  by (simp_all add: parse_base128_loop.simps [of v])

section \<open>Base-128 integers\<close>

fun b128_hi :: "nat \<Rightarrow> bytes" where
  "b128_hi n = (if n = 0 then [] else b128_hi (n div 128) @ [of_nat (128 + n mod 128)])"

definition b128 :: "nat \<Rightarrow> bytes" where
  "b128 n = b128_hi (n div 128) @ [of_nat (n mod 128)]"

declare b128_hi.simps [simp del]

lemma b128_hi_0 [simp]: "b128_hi 0 = []"
  by (simp add: b128_hi.simps)

lemma b128_step:
  assumes "drop_bit 57 v = 0"
  shows "unat (push_bit 7 v OR ucast ((b :: u8) AND 0x7f) :: u64) = unat v * 128 + unat b mod 128"
proof -
  have "unat v div 2 ^ 57 = 0" using assms unat_drop_bit [of 57 v] by simp
  then have "unat v < 2 ^ 57" by (simp add: div_eq_0_iff)
  then have "(unat v + 1) * 2 ^ 7 \<le> 2 ^ 64" by simp
  moreover have "unat (ucast (b AND 0x7f) :: u64) = unat b mod 128"
    by (simp add: unat_ucast_up u8_low7)
  ultimately show ?thesis using unat_shift_or [of v 7 "ucast (b AND 0x7f)"] by simp
qed

lemma b128_digit_unat [simp]: "unat (of_nat (128 + n mod 128) :: u8) = 128 + n mod 128"
  by (rule unat_of_nat_lt) (use mod_less_divisor [of 128 n] in simp)

lemma b128_digit:
  assumes "unat b \<ge> 128" shows "of_nat (128 + (v * 128 + unat b mod 128) mod 128) = (b :: u8)"
proof -
  have "unat b mod 128 = (unat b - 128) mod 128" using assms by (rule le_mod_geq)
  also have "\<dots> = unat b - 128" using unat_u8_lt [of b] by (intro mod_less) linarith
  finally have "128 + unat b mod 128 = unat b" using assms by simp
  then show ?thesis by (simp add: word_of_unat)
qed

text \<open>What the loop accepts: exactly one minimal base-128 number.\<close>

lemma parse_base128_loop_sound:
  "parse_base128_loop v cbs = (Some w, rest) \<Longrightarrow>
    \<exists>pre. cbs = pre @ rest \<and> b128_hi (unat v) @ pre = b128 (unat w)"
proof (induction cbs arbitrary: v)
  case Nil
  then show ?case by (simp add: parse_base128_loop_Cons)
next
  case (Cons b cbs)
  have d: "drop_bit 57 v = 0" and nz: "\<not> (v = 0 \<and> b = 0x80)"
    using Cons.prems by (auto simp: parse_base128_loop_Cons split: if_splits)
  let ?v' = "push_bit 7 v OR ucast (b AND 0x7f)"
  note step = b128_step [OF d, of b]
  show ?case
  proof (cases "b AND 0x80 = 0")
    case True
    then have "unat b mod 128 = unat b" by (simp add: u8_high_bit)
    then show ?thesis
      using Cons.prems d nz True step
      by (auto simp: parse_base128_loop_Cons b128_def word_of_unat)
  next
    case False
    then have b: "unat b \<ge> 128" by (simp add: u8_high_bit)
    have "unat ?v' \<noteq> 0"
    proof
      assume "unat ?v' = 0"
      with step have "unat v = 0" "unat b mod 128 = 0" by auto
      then have "v = 0" "unat b = 128"
        using b unat_u8_lt [of b] by (auto simp del: unat_u8_lt simp: mod_if unat_eq_zero split: if_splits)
      then have "b = of_nat 128" by (intro eq_of_natI)
      with nz \<open>v = 0\<close> show False by simp
    qed
    then have hi: "b128_hi (unat ?v') = b128_hi (unat v) @ [b]"
      using b128_digit [OF b, of "unat v"]
      unfolding step by (simp add: b128_hi.simps [of "unat v * 128 + unat b mod 128"])
    have "parse_base128_loop ?v' cbs = (Some w, rest)"
      using Cons.prems d nz False by (auto simp: parse_base128_loop_Cons)
    then obtain pre where "cbs = pre @ rest" "b128_hi (unat ?v') @ pre = b128 (unat w)"
      using Cons.IH by blast
    with hi show ?thesis by (intro exI [of _ "b # pre"]) simp
  qed
qed

lemma parse_base128_loop_hi:
  "n < 2 ^ 64 \<Longrightarrow> parse_base128_loop 0 (b128_hi n @ x) = parse_base128_loop (of_nat n) x"
proof (induction n arbitrary: x rule: b128_hi.induct)
  case (1 n)
  show ?case
  proof (cases "n = 0")
    case False
    let ?v = "of_nat (n div 128) :: u64" and ?b = "of_nat (128 + n mod 128) :: u8"
    have v: "unat ?v = n div 128" using "1.prems" by (intro unat_of_nat_lt) simp
    have "unat (drop_bit 57 ?v) = 0"
      using "1.prems" by (simp add: unat_drop_bit v div_mult2_eq [symmetric])
    then have d: "drop_bit 57 ?v = 0" by (simp only: unat_eq_zero)
    have b: "unat ?b = 128 + n mod 128" by (rule b128_digit_unat)
    have "unat (push_bit 7 ?v OR ucast (?b AND 0x7f)) = n"
      unfolding b128_step [OF d] b v by simp
    then have step: "push_bit 7 ?v OR ucast (?b AND 0x7f) = of_nat n" by (rule eq_of_natI)
    have nz: "\<not> (?v = 0 \<and> ?b = 0x80)"
    proof
      assume "?v = 0 \<and> ?b = 0x80"
      then have "n div 128 = 0" "128 + n mod 128 = 128" using v b by simp_all
      then have "n = 0" by (metis add_cancel_right_right div_mult_mod_eq mult_0)
      then show False using False by simp
    qed
    have hb: "?b AND 0x80 \<noteq> 0" by (simp add: u8_high_bit b del: of_nat_add)
    have "parse_base128_loop 0 (b128_hi n @ x) = parse_base128_loop ?v (?b # x)"
      using "1.IH" [OF False, of "?b # x"] "1.prems" False by (simp add: b128_hi.simps [of n])
    also have "\<dots> = parse_base128_loop (of_nat n) x"
      using d nz hb step by (auto simp: parse_base128_loop_Cons simp del: of_nat_add)
    finally show ?thesis .
  qed simp
qed

lemma parse_base128_integer_complete:
  assumes "n < 2 ^ 64"
  shows "parse_base128_integer (b128 n @ rest) = (Some (of_nat n), rest)"
proof -
  let ?v = "of_nat (n div 128) :: u64" and ?b = "of_nat (n mod 128) :: u8"
  have v: "unat ?v = n div 128" using assms by (intro unat_of_nat_lt) simp
  have b: "unat ?b = n mod 128" by (rule unat_of_nat_lt) (simp add: less_trans [OF mod_less_divisor])
  have "unat (drop_bit 57 ?v) = 0"
    using assms by (simp add: unat_drop_bit v div_mult2_eq [symmetric])
  then have d: "drop_bit 57 ?v = 0" by (simp only: unat_eq_zero)
  have "unat (push_bit 7 ?v OR ucast (?b AND 0x7f)) = n"
    unfolding b128_step [OF d] b v by simp
  then have step: "push_bit 7 ?v OR ucast (?b AND 0x7f) = of_nat n" by (rule eq_of_natI)
  have hb: "?b AND 0x80 = 0" by (simp add: u8_high_bit b)
  then have "?b \<noteq> 0x80" by auto
  then show ?thesis
    using assms d step hb
    by (simp add: parse_base128_integer_def b128_def parse_base128_loop_hi parse_base128_loop_Cons)
qed

lemma parse_base128_integer_iff:
  "parse_base128_integer cbs = (Some w, rest) \<longleftrightarrow> cbs = b128 (unat w) @ rest"
proof
  assume "parse_base128_integer cbs = (Some w, rest)"
  then show "cbs = b128 (unat w) @ rest"
    using parse_base128_loop_sound [of 0 cbs w rest] by (auto simp: parse_base128_integer_def)
next
  assume "cbs = b128 (unat w) @ rest"
  then show "parse_base128_integer cbs = (Some w, rest)"
    using parse_base128_integer_complete [of "unat w" rest] unsigned_less [of w]
    by (simp add: word_of_unat)
qed


section \<open>Tags\<close>

definition tag_octets :: "u32 \<Rightarrow> bytes" where
  "tag_octets t =
     (let bits = ucast (drop_bit 24 t) AND 0xe0 :: u8; n = unat t mod 2 ^ 29 in
      if n \<ge> 31 then (bits OR 0x1f) # b128 n else [bits OR of_nat n])"

lemma e0_eq: "(0xe0 :: 'a::len word) = push_bit 5 (mask 3)"
  by (simp add: push_bit_eq_mult mask_eq_exp_minus_1)

lemma x1f_eq: "(0x1f :: 'a::len word) = mask 5"
  by (simp add: mask_eq_exp_minus_1)

lemma TAG_NUMBER_MASK_eq: "CBS_ASN1_TAG_NUMBER_MASK = mask 29"
  by (simp add: CBS_ASN1_TAG_NUMBER_MASK_def CBS_ASN1_TAG_SHIFT_def mask_eq_exp_minus_1 push_bit_eq_mult)

lemma high_bits_zero: "unat a < 2 ^ k \<Longrightarrow> k \<le> i \<Longrightarrow> \<not> bit a i" for a :: "'a::len word"
  using bit_imp_unat_ge [of a i] power_increasing [of k i "2::nat"] by fastforce

lemma tag_compose_bits:
  fixes T :: u8 and n :: u32
  assumes "unat n < 2 ^ 29"
  shows "ucast (drop_bit 24 (push_bit 24 (ucast T AND 0xe0) OR n)) AND 0xe0 = T AND 0xe0"
  unfolding e0_eq
  by (rule bit_word_eqI) (auto simp: bit_simps high_bits_zero [OF assms])

lemma tag_compose_number:
  fixes T :: u8 and n :: u32
  assumes "unat n < 2 ^ 29"
  shows "unat (push_bit 24 (ucast T AND 0xe0) OR n) mod 2 ^ 29 = unat n"
proof -
  have lt: "i < 29" if "bit n i" for i
    using high_bits_zero [OF assms, of i] that by (meson not_less)
  have "(push_bit 24 (ucast T AND 0xe0) OR n) AND mask 29 = n"
    unfolding e0_eq by (rule bit_word_eqI) (auto simp: bit_simps dest: lt)
  then show ?thesis using unat_and_mask by metis
qed

lemma tag_decompose:
  fixes t :: u32
  shows "push_bit 24 (ucast ((ucast (drop_bit 24 t) :: u8) AND 0xe0) AND 0xe0) OR (t AND mask 29) = t"
  unfolding e0_eq by (rule bit_word_eqI) (auto simp: bit_simps)

lemma byte_split: "(T AND 0xe0) OR (T AND 0x1f) = T" for T :: u8
  unfolding e0_eq x1f_eq by (rule bit_word_eqI) (auto simp: bit_simps)


lemma unat_low5: "unat (T AND 0x1f) = unat T mod 32" for T :: u8
  unfolding x1f_eq by (simp add: unat_and_mask)

lemma tag_octets_compose:
  fixes T :: u8 and n :: u32
  assumes "unat n < 2 ^ 29"
  shows "tag_octets (push_bit 24 (ucast T AND 0xe0) OR n) =
    (if unat n \<ge> 31 then ((T AND 0xe0) OR 0x1f) # b128 (unat n) else [(T AND 0xe0) OR of_nat (unat n)])"
  unfolding tag_octets_def by (simp only: Let_def tag_compose_bits [OF assms] tag_compose_number [OF assms])

lemma tag_cases:
  obtains T :: u8 and n :: u32 where "t = push_bit 24 (ucast T AND 0xe0) OR n" "unat n < 2 ^ 29" "T AND 0xe0 = T"
proof
  let ?T = "ucast (drop_bit 24 t) AND 0xe0 :: u8" and ?n = "t AND mask 29"
  show "t = push_bit 24 (ucast ?T AND 0xe0) OR ?n" by (rule tag_decompose [symmetric])
  show "unat ?n < 2 ^ 29" by (simp only: unat_and_mask) simp
  show "?T AND 0xe0 = ?T" by (simp add: and.assoc)
qed

lemma CBS_TAG_MASK_gt: "v > ucast CBS_ASN1_TAG_NUMBER_MASK \<longleftrightarrow> \<not> unat v < 2 ^ 29" for v :: u64
  by (simp add: TAG_NUMBER_MASK_eq word_less_nat_alt mask_eq_exp_minus_1 unat_ucast_up not_less
      less_eq_Suc_le [symmetric]) linarith

lemma parse_asn1_tag_sound:
  assumes "parse_asn1_tag cbs = (Some t, rest)"
  shows "cbs = tag_octets t @ rest"
proof -
  obtain T cbs' where cbs: "cbs = T # cbs'"
    using assms by (cases cbs) (auto simp: parse_asn1_tag_def)
  let ?bits = "push_bit 24 (ucast T AND 0xe0) :: u32"
  show ?thesis
  proof (cases "T AND 0x1f = 0x1f")
    case True
    then have "(ucast (T AND 0x1f) :: u32) = 0x1f" by simp
    then obtain v where v: "parse_base128_integer cbs' = (Some v, rest)"
        "unat v < 2 ^ 29" "\<not> v < 0x1f" "t = ?bits OR ucast v"
      using assms unfolding parse_asn1_tag_def cbs
      by (auto simp: CBS_TAG_MASK_gt CBS_ASN1_TAG_SHIFT_def split: prod.splits option.splits if_splits)
    have u: "unat (ucast v :: u32) = unat v" using v(2) by (simp add: unat_ucast_down)
    have "cbs' = b128 (unat v) @ rest" using v(1) by (simp add: parse_base128_integer_iff)
    moreover have "31 \<le> unat v" using v(3) by (simp add: word_less_nat_alt)
    moreover have "(T AND 0xe0) OR 0x1f = T" using byte_split [of T] True by simp
    moreover have "tag_octets t =
        (if unat v \<ge> 31 then ((T AND 0xe0) OR 0x1f) # b128 (unat v) else [(T AND 0xe0) OR of_nat (unat v)])"
      unfolding v(4) by (rule tag_octets_compose [of "ucast v", unfolded u, OF v(2)])
    ultimately show ?thesis by (simp add: cbs)
  next
    case False
    have u: "unat (ucast (T AND 0x1f) :: u32) = unat T mod 32"
      by (simp add: unat_ucast_up unat_low5)
    have n31: "unat T mod 32 \<noteq> 31"
      using False eq_of_natI [of "T AND 0x1f" 31] by (auto simp: unat_low5)
    then have ne: "(ucast (T AND 0x1f) :: u32) \<noteq> 0x1f" using u by auto
    then have t: "t = ?bits OR ucast (T AND 0x1f)" "rest = cbs'"
      using assms by (auto simp: parse_asn1_tag_def cbs CBS_ASN1_TAG_SHIFT_def)
    have "unat T mod 32 < 31" using n31 mod_less_divisor [of 32 "unat T"] by linarith
    moreover have "of_nat (unat T mod 32) = T AND 0x1f"
      using eq_of_natI [OF unat_low5 [of T]] by simp
    moreover have "tag_octets t = (if unat T mod 32 \<ge> 31 then ((T AND 0xe0) OR 0x1f) # b128 (unat T mod 32)
        else [(T AND 0xe0) OR of_nat (unat T mod 32)])"
      unfolding t(1) by (rule tag_octets_compose [of "ucast (T AND 0x1f)", unfolded u])
        (simp add: less_trans [OF mod_less_divisor])
    ultimately show ?thesis using t(2) by (simp add: cbs byte_split)
  qed
qed


lemma tag_byte_parts:
  fixes T m :: u8
  assumes "T AND 0xe0 = T" and "m AND 0x1f = m"
  shows "(T OR m) AND 0x1f = m" and "(ucast (T OR m) AND 0xe0 :: u32) = ucast T AND 0xe0"
proof -
  have T: "bit T i \<Longrightarrow> 5 \<le> i \<and> i < 8" for i
    using arg_cong [OF assms(1), of "\<lambda>w. bit w i"] unfolding e0_eq by (auto simp: bit_simps)
  have m: "bit m i \<Longrightarrow> i < 5" for i
    using arg_cong [OF assms(2), of "\<lambda>w. bit w i"] unfolding x1f_eq by (auto simp: bit_simps)
  show "(T OR m) AND 0x1f = m"
    unfolding x1f_eq by (rule bit_word_eqI) (auto simp: bit_simps dest: T m)
  show "(ucast (T OR m) AND 0xe0 :: u32) = ucast T AND 0xe0"
    unfolding e0_eq by (rule bit_word_eqI) (auto simp: bit_simps dest: m)
qed

lemma parse_asn1_tag_complete: "parse_asn1_tag (tag_octets t @ rest) = (Some t, rest)"
proof (rule tag_cases [of t])
  fix T :: u8 and n :: u32
  assume t: "t = push_bit 24 (ucast T AND 0xe0) OR n" and n: "unat n < 2 ^ 29" and T: "T AND 0xe0 = T"
  have oct: "tag_octets t = (if unat n \<ge> 31 then (T OR 0x1f) # b128 (unat n) else [T OR of_nat (unat n)])"
    using tag_octets_compose [OF n, of T] unfolding t T .
  show ?thesis
  proof (cases "unat n \<ge> 31")
    case True
    note parts = tag_byte_parts [OF T, of "0x1f", simplified]
    let ?v = "of_nat (unat n) :: u64"
    have v: "unat ?v = unat n" using n by (intro unat_of_nat_lt) simp
    have "parse_base128_integer (b128 (unat n) @ rest) = (Some ?v, rest)"
      using n by (intro parse_base128_integer_complete) simp
    moreover have "\<not> ?v > ucast CBS_ASN1_TAG_NUMBER_MASK"
      using n v by (simp only: CBS_TAG_MASK_gt not_not)
    moreover have "\<not> ?v < 0x1f" using v True by (simp only: word_less_nat_alt) simp
    moreover have "ucast ?v = n" by (simp only: word_unat_eq_iff unat_ucast_down v) (use n in simp)
    ultimately show ?thesis
      using True t [symmetric] by (simp add: oct parse_asn1_tag_def parts CBS_ASN1_TAG_SHIFT_def)
  next
    case False
    let ?m = "of_nat (unat n) :: u8"
    have m: "unat ?m = unat n" using False by (intro unat_of_nat_lt) simp
    have "?m AND 0x1f = ?m" using False m by (simp only: word_unat_eq_iff unat_low5) simp
    note parts = tag_byte_parts [OF T this, simplified]
    have u: "(ucast ?m :: u32) = n"
      using m by (simp only: word_unat_eq_iff) (simp add: unat_ucast_up)
    moreover have "n \<noteq> 0x1f" using False by auto
    ultimately show ?thesis
      using False t [symmetric] by (simp add: oct parse_asn1_tag_def parts CBS_ASN1_TAG_SHIFT_def)
  qed
qed

lemma parse_asn1_tag_iff: "parse_asn1_tag cbs = (Some t, rest) \<longleftrightarrow> cbs = tag_octets t @ rest"
  using parse_asn1_tag_sound parse_asn1_tag_complete by blast

section \<open>Lengths and elements\<close>

text \<open>The number of bytes of a long-form length.\<close>

definition len_bytes :: "nat \<Rightarrow> nat" where
  "len_bytes n = (if n < 0x100 then 1 else if n < 0x10000 then 2 else if n < 0x1000000 then 3 else 4)"

definition len_octets :: "nat \<Rightarrow> bytes" where
  "len_octets n =
     (if n < 0x80 then [of_nat n] else of_nat (0x80 + len_bytes n) # be_enc (len_bytes n) n)"

definition der_header :: "u32 \<Rightarrow> nat \<Rightarrow> bytes" where
  "der_header t n = tag_octets t @ len_octets n"

definition der_element :: "u32 \<Rightarrow> bytes \<Rightarrow> bytes" where
  "der_element t c = der_header t (length c) @ c"

lemma len_bytes_bounds: "1 \<le> len_bytes n" "len_bytes n \<le> 4"
  by (simp_all add: len_bytes_def)

lemma len_bytes_lt: "n < 2 ^ 32 \<Longrightarrow> n < 256 ^ len_bytes n"
  by (simp add: len_bytes_def)

lemma len_bytes_ge: "128 \<le> n \<Longrightarrow> 256 ^ (len_bytes n - 1) \<le> n"
  by (simp add: len_bytes_def)

lemma len_bytes_unique:
  assumes "256 ^ (k - 1) \<le> n" and "n < 256 ^ k" and "1 \<le> k" and "k \<le> 4"
  shows "len_bytes n = k"
proof -
  from assms(3,4) have "k = 1 \<or> k = 2 \<or> k = 3 \<or> k = 4" by linarith
  with assms(1,2) show ?thesis by (auto simp: len_bytes_def)
qed

lemma length_b128_hi: "n < 128 ^ k \<Longrightarrow> length (b128_hi n) \<le> k"
proof (induction k arbitrary: n)
  case (Suc k)
  then have "n div 128 < 128 ^ k" by (simp add: less_mult_imp_div_less mult.commute)
  from Suc.IH [OF this] show ?case by (simp add: b128_hi.simps [of n])
qed simp

lemma length_tag_octets: "length (tag_octets t) \<le> 6"
proof -
  have "unat t mod 2 ^ 29 div 128 < 128 ^ 4"
    by (rule less_mult_imp_div_less) (simp add: less_trans [OF mod_less_divisor])
  from length_b128_hi [OF this] show ?thesis by (simp add: tag_octets_def b128_def Let_def)
qed

lemma length_len_octets: "length (len_octets n) \<le> 5"
  using len_bytes_bounds [of n] by (simp add: len_octets_def)

lemma CBS_get_bytes_iff:
  "CBS_get_bytes cbs n = (Some d, rest) \<longleftrightarrow> cbs = d @ rest \<and> length d = unat n"
  by (simp add: CBS_get_bytes_def cbs_get_Some_iff)

text \<open>The parser once the tag is read.\<close>

lemma any_element_after_tag:
  "cbs_get_any_asn1_element (tag_octets tag @ lb # r) ber =
     (let cbs = tag_octets tag @ lb # r;
          hl = of_nat (length (tag_octets tag) + 1) :: u64;
          nb = ucast (lb AND 0x7f) :: u64;
          get = (\<lambda>len hl. case CBS_get_bytes cbs len of
                   (None, cbs') \<Rightarrow> (None, cbs') | (Some out, cbs') \<Rightarrow> (Some (out, tag, hl), cbs')) in
      if lb AND 0x80 = 0 then get (ucast lb + hl) hl
      else if ber \<and> tag AND CBS_ASN1_CONSTRUCTED \<noteq> 0 \<and> nb = 0 then get hl hl
      else if nb = 0 \<or> nb > 4 then (None, cbs)
      else (case cbs_get_u r nb of
              (None, _) \<Rightarrow> (None, cbs)
            | (Some len64, _) \<Rightarrow>
                if len64 < 128 then (None, cbs)
                else if drop_bit (unat ((nb - 1) * 8)) len64 = 0 then (None, cbs)
                else if len64 + hl + nb < len64 then (None, cbs)
                else get (len64 + (hl + nb)) (hl + nb)))"
proof -
  have hl: "CBS_len (tag_octets tag @ lb # r) - CBS_len r = length (tag_octets tag) + 1"
    by (simp add: CBS_len_def)
  show ?thesis
    unfolding cbs_get_any_asn1_element_def parse_asn1_tag_complete
    by (simp only: prod.case option.case CBS_get_u8_simps hl Let_def)
qed

lemma any_element_short:
  assumes "unat lb < 128" and "length c = unat lb"
  shows "cbs_get_any_asn1_element (tag_octets tag @ lb # c @ rest) ber =
    (Some (tag_octets tag @ lb # c, tag, of_nat (length (tag_octets tag) + 1)), rest)"
proof -
  have "unat (ucast lb + of_nat (length (tag_octets tag) + 1) :: u64) = length (tag_octets tag @ lb # c)"
    using assms length_tag_octets [of tag]
    by (simp add: unat_word_ariths unat_of_nat unat_ucast_up)
  then have "CBS_get_bytes (tag_octets tag @ lb # c @ rest) (ucast lb + of_nat (length (tag_octets tag) + 1))
      = (Some (tag_octets tag @ lb # c), rest)"
    by (simp add: CBS_get_bytes_iff)
  then show ?thesis using assms(1) by (simp add: any_element_after_tag Let_def u8_high_bit)
qed

lemma any_element_long:
  assumes "1 \<le> k" "k \<le> 4" and d: "length d = k" "128 \<le> be_val d" "256 ^ (k - 1) \<le> be_val d"
    and c: "length c = be_val d"
  shows "cbs_get_any_asn1_element (tag_octets tag @ of_nat (128 + k) # d @ c @ rest) ber =
    (Some (tag_octets tag @ of_nat (128 + k) # d @ c, tag, of_nat (length (tag_octets tag) + 1 + k)), rest)"
proof -
  let ?lb = "of_nat (128 + k) :: u8" and ?hl = "of_nat (length (tag_octets tag) + 1) :: u64"
  let ?nb = "ucast (?lb AND 0x7f) :: u64" and ?len = "of_nat (be_val d) :: u64"
  have lb: "unat ?lb = 128 + k" using assms by (intro unat_of_nat_lt) simp
  have nb: "unat ?nb = k" using assms lb by (simp add: unat_ucast_up u8_low7 del: of_nat_add)
  have hl: "unat ?hl = length (tag_octets tag) + 1"
    using length_tag_octets [of tag] by (intro unat_of_nat_lt) simp
  have "be_val d < 256 ^ 4" using be_val_bound [of d 4] assms by simp
  then have len: "unat ?len = be_val d" by (intro unat_of_nat_lt) simp
  have sum: "unat (?len + (?hl + ?nb)) = be_val d + (length (tag_octets tag) + 1 + k)"
    using \<open>be_val d < 256 ^ 4\<close> length_tag_octets [of tag] assms
    by (simp only: unat_word_ariths hl nb len) simp
  have hlnb: "?hl + ?nb = of_nat (length (tag_octets tag) + 1 + k)"
    using nb eq_of_natI [OF nb] by simp
  have u: "cbs_get_u (d @ c @ rest) ?nb = (Some ?len, c @ rest)"
    using nb assms by (subst cbs_get_u_Some_iff) auto
  have "(?nb - 1) * 8 = of_nat ((k - 1) * 8)"
    using eq_of_natI [OF nb] assms(1) by (simp add: of_nat_diff)
  then have sh: "unat ((?nb - 1) * 8) = (k - 1) * 8"
    using assms(2) by (simp only: unat_of_nat) simp
  have get: "CBS_get_bytes (tag_octets tag @ ?lb # d @ c @ rest) (?len + (?hl + ?nb))
      = (Some (tag_octets tag @ ?lb # d @ c), rest)"
    by (simp only: CBS_get_bytes_iff sum) (simp add: d(1) c)
  have c1: "?lb AND 0x80 \<noteq> 0" by (simp add: u8_high_bit lb del: of_nat_add)
  have c2: "?nb \<noteq> 0" "\<not> ?nb > 4" using nb assms by (auto simp: word_less_nat_alt)
  have c3: "\<not> ?len < 128" using len d(2) by (simp add: word_less_nat_alt)
  have "unat (drop_bit (unat ((?nb - 1) * 8)) ?len) = be_val d div 256 ^ (k - 1)"
    unfolding unat_drop_bit len sh by (simp add: power_mult mult.commute [of _ 8])
  also have "\<dots> \<noteq> 0" using d(3) by (simp add: div_eq_0_iff)
  finally have c4: "drop_bit (unat ((?nb - 1) * 8)) ?len \<noteq> 0" by auto
  have c5: "\<not> ?len + ?hl + ?nb < ?len"
    using sum len by (simp add: word_less_nat_alt add.assoc)
  show ?thesis
    unfolding any_element_after_tag Let_def u
    by (simp only: c1 c2 c3 c4 c5 get [unfolded hlnb] hlnb option.case prod.case simp_thms if_False)
qed

lemma any_element_der:
  assumes "length c < 2 ^ 32"
  shows "cbs_get_any_asn1_element (der_element t c @ rest) ber =
    (Some (der_element t c, t, of_nat (length (der_header t (length c)))), rest)"
proof (cases "length c < 128")
  case True
  have "unat (of_nat (length c) :: u8) = length c" using True by (intro unat_of_nat_lt) simp
  then show ?thesis
    using any_element_short [of "of_nat (length c)" c t rest ber] True
    by (simp add: der_element_def der_header_def len_octets_def)
next
  case False
  let ?k = "len_bytes (length c)" and ?d = "be_enc (len_bytes (length c)) (length c)"
  have v: "be_val ?d = length c" using assms by (intro be_val_be_enc_id len_bytes_lt)
  show ?thesis
    using any_element_long [of ?k ?d c t rest ber] False len_bytes_bounds [of "length c"] v
      len_bytes_ge [of "length c"]
    by (simp add: der_element_def der_header_def len_octets_def add.commute)
qed

lemma append_split:
  assumes "out @ rest = pre @ r" and "length out = length pre + n"
  obtains c where "out = pre @ c" "length c = n" "r = c @ rest"
  using assms by (auto simp: append_eq_append_conv2)

lemma get_element_iff:
  "(case CBS_get_bytes cbs len of
      (None, cbs') \<Rightarrow> (None, cbs') | (Some out, cbs') \<Rightarrow> (Some (out, tag, hl), cbs')) =
    (Some (out, t, hl'), rest) \<longleftrightarrow>
    cbs = out @ rest \<and> length out = unat len \<and> t = tag \<and> hl' = hl"
  by (auto simp: CBS_get_bytes_def cbs_get_def)

lemma if_chain3:
  assumes "(if a then n else if b then n else if c then n else x) = s" and "n \<noteq> s"
  shows "\<not> a \<and> \<not> b \<and> \<not> c \<and> x = s"
  using assms by (auto split: if_splits)

lemma any_element_sound:
  assumes "cbs_get_any_asn1_element cbs False = (Some (out, t, hl), rest)"
  shows "\<exists>c. length c < 2 ^ 32 \<and> out = der_element t c \<and> cbs = out @ rest \<and>
    hl = of_nat (length (der_header t (length c)))"
proof -
  obtain tag hdr where "parse_asn1_tag cbs = (Some tag, hdr)"
    using assms unfolding cbs_get_any_asn1_element_def by (auto split: prod.splits option.splits)
  then have cbs0: "cbs = tag_octets tag @ hdr" by (simp add: parse_asn1_tag_iff)
  obtain lb r where hdr: "hdr = lb # r"
  proof (cases hdr)
    case Nil
    have "parse_asn1_tag cbs = (Some tag, [])" using cbs0 Nil by (simp add: parse_asn1_tag_iff)
    then show ?thesis using assms Nil by (simp add: cbs_get_any_asn1_element_def)
  qed blast
  let ?hl = "of_nat (length (tag_octets tag) + 1) :: u64" and ?nb = "ucast (lb AND 0x7f) :: u64"
  have hlu: "unat ?hl = length (tag_octets tag) + 1"
    using length_tag_octets [of tag] by (intro unat_of_nat_lt) simp
  note eq = any_element_after_tag [of tag lb r False, folded hdr, folded cbs0]
  show ?thesis
  proof (cases "lb AND 0x80 = 0")
    case True
    then have lb: "unat lb < 128" by (simp add: u8_high_bit)
    have len: "unat (ucast lb + ?hl) = unat lb + length (tag_octets tag) + 1"
      using length_tag_octets [of tag] lb by (simp only: unat_word_ariths hlu) (simp add: unat_ucast_up)
    have get: "cbs = out @ rest" "length out = unat (ucast lb + ?hl)" "t = tag" "hl = ?hl"
      using assms True unfolding eq Let_def
      by (simp_all only: if_True refl get_element_iff)
    obtain c where c: "out = (tag_octets tag @ [lb]) @ c" "length c = unat lb" "r = c @ rest"
      by (rule append_split [of out rest "tag_octets tag @ [lb]" r "unat lb"])
        (use get(1,2) len cbs0 hdr in auto)
    then have "len_octets (length c) = [lb]" using lb by (simp add: len_octets_def word_of_unat)
    with c get lb show ?thesis
      by (intro exI [of _ c]) (simp add: der_element_def der_header_def)
  next
    case False
    then have lb: "unat lb \<ge> 128" by (simp add: u8_high_bit)
    have nbu: "unat ?nb = unat lb - 128"
    proof -
      have "unat lb mod 128 = (unat lb - 128) mod 128" using lb by (rule le_mod_geq)
      also have "\<dots> = unat lb - 128" using unat_u8_lt [of lb] by (intro mod_less) linarith
      finally show ?thesis by (simp add: unat_ucast_up u8_low7)
    qed
    obtain len64 r' where nb: "?nb \<noteq> 0" "\<not> ?nb > 4" and u: "cbs_get_u r ?nb = (Some len64, r')"
      and l: "\<not> len64 < 128" "drop_bit (unat ((?nb - 1) * 8)) len64 \<noteq> 0"
      and get: "cbs = out @ rest" "length out = unat (len64 + (?hl + ?nb))" "t = tag" "hl = ?hl + ?nb"
    proof -
      have nb: "?nb \<noteq> 0 \<and> \<not> ?nb > 4"
        using assms False unfolding eq Let_def by (simp split: if_split_asm)
      then obtain len64 r' where u: "cbs_get_u r ?nb = (Some len64, r')"
        using assms False unfolding eq Let_def
        by (cases "cbs_get_u r ?nb"; cases "fst (cbs_get_u r ?nb)") simp_all
      have "fst (Some (out, t, hl), rest) \<noteq> fst (None, cbs)" by simp
      then have ne: "(None, cbs) \<noteq> (Some (out, t, hl), rest)" by auto
      have "\<not> len64 < 128 \<and> drop_bit (unat ((?nb - 1) * 8)) len64 \<noteq> 0 \<and> \<not> len64 + ?hl + ?nb < len64 \<and>
        (case CBS_get_bytes cbs (len64 + (?hl + ?nb)) of
          (None, cbs') \<Rightarrow> (None, cbs') | (Some out, cbs') \<Rightarrow> (Some (out, tag, ?hl + ?nb), cbs')) =
          (Some (out, t, hl), rest)"
        by (rule if_chain3 [OF _ ne])
          (use assms False nb in \<open>simp only: eq Let_def u simp_thms if_False option.case prod.case\<close>)
      then show ?thesis using that nb u unfolding get_element_iff by blast
    qed
    define k where "k = unat lb - 128"
    have k: "1 \<le> k" "k \<le> 4" "unat ?nb = k"
      using nb nbu unfolding k_def by (auto simp: word_less_nat_alt unat_eq_zero [symmetric] simp del: unat_eq_zero)
    obtain d where d: "r = d @ r'" "length d = k" "len64 = of_nat (be_val d)"
      using u k by (subst (asm) cbs_get_u_Some_iff) auto
    have bd: "be_val d < 256 ^ 4" using be_val_bound [of d 4] d k by simp
    then have lenu: "unat len64 = be_val d" unfolding d(3) by (intro unat_of_nat_lt) simp
    have "(?nb - 1) * 8 = of_nat ((k - 1) * 8)"
      using eq_of_natI [OF k(3)] k(1) by (simp add: of_nat_diff)
    then have sh: "unat ((?nb - 1) * 8) = (k - 1) * 8"
      using k(2) by (simp only: unat_of_nat) simp
    have "unat (drop_bit (unat ((?nb - 1) * 8)) len64) = be_val d div 256 ^ (k - 1)"
      unfolding unat_drop_bit lenu sh by (simp add: power_mult mult.commute [of _ 8])
    then have ge: "256 ^ (k - 1) \<le> be_val d" using l(2) by (auto simp: div_eq_0_iff unat_eq_zero [symmetric] simp del: unat_eq_zero)
    have lb': "len_bytes (be_val d) = k"
      using ge be_val_bound [of d k] d(2) k by (intro len_bytes_unique) simp_all
    have len: "unat (len64 + (?hl + ?nb)) = be_val d + (length (tag_octets tag) + 1 + k)"
      using bd length_tag_octets [of tag] k by (simp only: unat_word_ariths hlu k(3) lenu) simp
    obtain c where c: "out = (tag_octets tag @ lb # d) @ c" "length c = be_val d" "r' = c @ rest"
      by (rule append_split [of out rest "tag_octets tag @ lb # d" r' "be_val d"])
        (use get(1,2) len cbs0 hdr d in auto)
    have "len_octets (length c) = lb # d"
    proof -
      have "\<not> be_val d < 128" using l(1) lenu by (simp add: word_less_nat_alt)
      moreover have "of_nat (128 + k) = lb" using lb unfolding k_def by (simp add: word_of_unat)
      moreover have "be_enc k (be_val d) = d" using be_enc_be_val [of d] d by simp
      ultimately show ?thesis by (simp add: len_octets_def c lb')
    qed
    moreover have "hl = of_nat (length (tag_octets tag @ lb # d))"
      using get(4) eq_of_natI [OF k(3)] d by simp
    ultimately show ?thesis
      using c get bd by (intro exI [of _ c]) (simp add: der_element_def der_header_def)
  qed
qed

lemma any_element_iff:
  "cbs_get_any_asn1_element cbs False = (Some (out, t, hl), rest) \<longleftrightarrow>
    (\<exists>c. length c < 2 ^ 32 \<and> out = der_element t c \<and> cbs = out @ rest \<and>
      hl = of_nat (length (der_header t (length c))))"
  using any_element_sound any_element_der by (metis append_assoc)

lemma length_der_header: "length (der_header t n) \<le> 11"
  using length_tag_octets [of t] length_len_octets [of n] by (simp add: der_header_def)

lemma CBS_skip_header:
  "CBS_skip (der_element t c) (of_nat (length (der_header t (length c)))) = (Some (), c)"
proof -
  have "unat (of_nat (length (der_header t (length c))) :: u64) = length (der_header t (length c))"
    using length_der_header [of t "length c"] by (intro unat_of_nat_lt) simp
  then show ?thesis by (simp add: CBS_skip_def cbs_get_def der_element_def)
qed

lemma CBS_get_asn1_iff:
  "CBS_get_asn1 cbs t = (Some c, rest) \<longleftrightarrow> length c < 2 ^ 32 \<and> cbs = der_element t c @ rest"
proof
  assume a: "CBS_get_asn1 cbs t = (Some c, rest)"
  then obtain out hl where e: "cbs_get_any_asn1_element cbs False = (Some (out, t, hl), rest)"
      and s: "CBS_skip out hl = (Some (), c)"
    unfolding CBS_get_asn1_def cbs_get_asn1_def CBS_get_any_asn1_element_def
    by (auto split: prod.splits option.splits if_splits)
  show "length c < 2 ^ 32 \<and> cbs = der_element t c @ rest"
    using any_element_sound [OF e] s by (auto simp: CBS_skip_header)
next
  assume "length c < 2 ^ 32 \<and> cbs = der_element t c @ rest"
  then show "CBS_get_asn1 cbs t = (Some c, rest)"
    by (simp add: CBS_get_asn1_def cbs_get_asn1_def CBS_get_any_asn1_element_def any_element_der CBS_skip_header)
qed

lemma CBS_get_asn1_element_iff:
  "CBS_get_asn1_element cbs t = (Some e, rest) \<longleftrightarrow>
    (\<exists>c. length c < 2 ^ 32 \<and> e = der_element t c \<and> cbs = e @ rest)"
proof
  assume "CBS_get_asn1_element cbs t = (Some e, rest)"
  then obtain hl where "cbs_get_any_asn1_element cbs False = (Some (e, t, hl), rest)"
    unfolding CBS_get_asn1_element_def cbs_get_asn1_def CBS_get_any_asn1_element_def
    by (auto split: prod.splits option.splits if_splits)
  then show "\<exists>c. length c < 2 ^ 32 \<and> e = der_element t c \<and> cbs = e @ rest"
    using any_element_sound by blast
next
  assume "\<exists>c. length c < 2 ^ 32 \<and> e = der_element t c \<and> cbs = e @ rest"
  then show "CBS_get_asn1_element cbs t = (Some e, rest)"
    by (auto simp: CBS_get_asn1_element_def cbs_get_asn1_def CBS_get_any_asn1_element_def any_element_der)
qed

lemma der_element_inj:
  assumes "der_element t c @ r = der_element t' c' @ r'" "length c < 2 ^ 32" "length c' < 2 ^ 32"
  shows "t = t' \<and> c = c' \<and> r = r'"
  using any_element_der [OF assms(2), of t r False] any_element_der [OF assms(3), of t' r' False] assms(1)
    CBS_get_asn1_iff [of "der_element t c @ r" t c r] CBS_get_asn1_iff [of "der_element t' c' @ r'" t' c' r'] assms(2,3)
  by auto

section \<open>INTEGER contents\<close>

function slen :: "int \<Rightarrow> nat" where
  "slen i = (if -128 \<le> i \<and> i < 128 then 1 else Suc (slen (i div 256)))"
  by pat_completeness auto
termination
  by (relation "measure (\<lambda>i. nat \<bar>i\<bar>)") auto

declare slen.simps [simp del]

definition int_octets :: "int \<Rightarrow> bytes" where
  "int_octets i = be_enc (slen i) (nat (i mod 256 ^ slen i))"

definition int_val :: "bytes \<Rightarrow> int" where
  "int_val c = int (be_val c) - (if 128 * 256 ^ (length c - 1) \<le> be_val c then 256 ^ length c else 0)"

lemma slen_le_iff: "slen i \<le> Suc k \<longleftrightarrow> - (128 * 256 ^ k) \<le> i \<and> i < 128 * 256 ^ k"
proof (induction k arbitrary: i)
  case 0
  have "slen (i div 256) \<noteq> 0" by (subst slen.simps) simp
  then have "slen i \<le> Suc 0 \<longleftrightarrow> -128 \<le> i \<and> i < 128" by (subst slen.simps) simp
  then show ?case by simp
next
  case (Suc k)
  show ?case
  proof (cases "-128 \<le> i \<and> i < 128")
    case True
    have "(1::int) \<le> 256 ^ Suc k" by (rule one_le_power) simp
    then have "- (128 * 256 ^ Suc k) \<le> i" "i < 128 * 256 ^ Suc k"
      using True by linarith+
    then show ?thesis using True by (simp add: slen.simps [of i])
  next
    case False
    then have "slen i = Suc (slen (i div 256))" by (subst slen.simps) (simp only: if_False)
    then have "slen i \<le> Suc (Suc k) \<longleftrightarrow> - (128 * 256 ^ k) \<le> i div 256 \<and> i div 256 < 128 * 256 ^ k"
      by (simp add: Suc.IH)
    also have "\<dots> \<longleftrightarrow> - (128 * 256 ^ Suc k) \<le> i \<and> i < 128 * 256 ^ Suc k"
      by simp linarith
    finally show ?thesis .
  qed
qed

lemma slen_pos: "1 \<le> slen i"
  by (simp add: slen.simps [of i])

lemma slen_bounds: "- (128 * 256 ^ (slen i - 1)) \<le> i" "i < 128 * 256 ^ (slen i - 1)"
  using slen_le_iff [of i "slen i - 1"] slen_pos [of i] by auto

lemma length_int_octets [simp]: "length (int_octets i) = slen i"
  by (simp add: int_octets_def)

lemma int_val_int_octets: "int_val (int_octets i) = i"
proof -
  obtain k where k: "slen i = Suc k" using slen_pos [of i] by (cases "slen i") auto
  have b: "- (128 * 256 ^ k) \<le> i" "i < 128 * 256 ^ k" using slen_bounds [of i] k by auto
  have "nat (i mod 256 ^ slen i) < 256 ^ slen i" by (simp add: nat_less_iff)
  then have v: "be_val (int_octets i) = nat (i mod 256 ^ Suc k)"
    unfolding int_octets_def k by (rule be_val_be_enc_id)
  show ?thesis
  proof (cases "0 \<le> i")
    case True
    then have "i mod 256 ^ Suc k = i" using b by (intro mod_pos_pos_trivial) auto
    then show ?thesis using v True b by (simp add: int_val_def k nat_le_iff zle_int [symmetric] del: zle_int)
  next
    case False
    have "(i + 256 ^ Suc k) mod 256 ^ Suc k = i + 256 ^ Suc k"
      using b False by (intro mod_pos_pos_trivial) auto
    then have "i mod 256 ^ Suc k = i + 256 ^ Suc k" by simp
    then show ?thesis using v False b by (simp add: int_val_def k zle_int [symmetric] del: zle_int)
  qed
qed

lemma int_val_range:
  assumes "c \<noteq> []" shows "- (128 * 256 ^ (length c - 1)) \<le> int_val c" "int_val c < 128 * 256 ^ (length c - 1)"
proof -
  have "be_val c < 256 ^ length c" by (rule be_val_lt)
  then have "int (be_val c) < 256 ^ length c" by (metis of_nat_less_iff of_nat_numeral of_nat_power)
  moreover have "(256::int) ^ length c = 256 * 256 ^ (length c - 1)"
    using assms by (metis length_greater_0_conv power_minus_mult mult.commute)
  ultimately show "- (128 * 256 ^ (length c - 1)) \<le> int_val c" "int_val c < 128 * 256 ^ (length c - 1)"
    unfolding int_val_def zle_int [symmetric] by auto
qed

lemma int_val_mod: "int_val c mod 256 ^ length c = int (be_val c)"
proof -
  have "be_val c < 256 ^ length c" by (rule be_val_lt)
  then have "int (be_val c) < 256 ^ length c" by (metis of_nat_less_iff of_nat_numeral of_nat_power)
  then have m: "int (be_val c) mod 256 ^ length c = int (be_val c)" by simp
  have "(int (be_val c) - 256 ^ length c) mod 256 ^ length c = int (be_val c) mod 256 ^ length c"
    by (metis minus_mod_self2)
  with m show ?thesis by (simp add: int_val_def)
qed

lemma int_octets_int_val: "slen (int_val c) = length c \<Longrightarrow> int_octets (int_val c) = c"
  by (simp add: int_octets_def int_val_mod be_enc_be_val)

lemma lead_cases:
  fixes p r :: int
  assumes "0 < p" "0 \<le> r" "r < p" and "A < (256 :: nat)" "B < (256 :: nat)"
  defines "v \<equiv> int A * (256 * p) + (int B * p + r)"
  shows "- (128 * p) \<le> v - (if 128 * (256 * p) \<le> v then 256 * (256 * p) else 0) \<and>
      v - (if 128 * (256 * p) \<le> v then 256 * (256 * p) else 0) < 128 * p
    \<longleftrightarrow> (A = 0 \<and> B < 128) \<or> (A = 255 \<and> \<not> B < 128)"
proof -
  have m: "int x * p \<le> int y * p" if "x \<le> y" for x y using that assms(1) by simp
  have B: "0 \<le> int B * p" "int B * p \<le> 255 * p" "B < 128 \<Longrightarrow> int B * p \<le> 127 * p"
      "\<not> B < 128 \<Longrightarrow> 128 * p \<le> int B * p"
    using m [of 0 B] m [of B 255] m [of B 127] m [of 128 B] assms(5) by auto
  have A: "A \<noteq> 0 \<Longrightarrow> p \<le> int A * p" "A < 128 \<Longrightarrow> int A * p \<le> 127 * p"
      "\<not> A < 128 \<Longrightarrow> 128 * p \<le> int A * p" "A \<noteq> 255 \<Longrightarrow> int A * p \<le> 254 * p"
    using m [of 1 A] m [of A 127] m [of 128 A] m [of A 254] assms(4) by auto
  define x y where "x = int B * p" and "y = int A * p"
  note B = B [folded x_def] and A = A [folded y_def]
  have v: "v = 256 * y + (x + r)" by (simp add: v_def x_def y_def)
  have y0: "A = 0 \<Longrightarrow> y = 0" "A = 255 \<Longrightarrow> y = 255 * p" by (simp_all add: y_def)
  consider "A = 0" | "A \<noteq> 0" "A < 128" | "\<not> A < 128" "A \<noteq> 255" | "A = 255" by blast
  then show ?thesis
  proof cases
    case 1 then show ?thesis using assms(1-3) B v y0 by (cases "B < 128") auto
  next
    case 2 then show ?thesis using assms(1-3) B(1,2) A(1,2) v by auto
  next
    case 3 then show ?thesis using assms(1-3) B(1,2) A(3,4) v by auto
  next
    case 4 then show ?thesis using assms(1-3) B v y0 by (cases "B < 128") auto
  qed
qed

text \<open>The code's minimality test, on the first two bytes.\<close>

lemma slen_int_val:
  assumes "c \<noteq> []"
  shows "slen (int_val c) = length c \<longleftrightarrow>
    \<not> (length c > 1 \<and> c ! 0 = 0 \<and> c ! 1 AND 0x80 = 0) \<and>
    \<not> (length c > 1 \<and> c ! 0 = 0xff \<and> c ! 1 AND 0x80 \<noteq> 0)"
proof -
  have le: "slen (int_val c) \<le> length c"
    using int_val_range [OF assms] slen_le_iff [of "int_val c" "length c - 1"] assms by (cases c) auto
  show ?thesis
  proof (cases "length c > 1")
    case False
    then have "length c = 1" using assms by (cases c) auto
    then show ?thesis using le slen_pos [of "int_val c"] by simp
  next
    case True
    then obtain a b cs where c: "c = a # b # cs"
      by (cases c; cases "tl c") auto
    define p where "p = (256::int) ^ length cs"
    define r where "r = int (be_val cs)"
    have p: "0 < p" by (simp add: p_def)
    have r: "0 \<le> r" "r < p"
      using be_val_lt [of cs] unfolding r_def p_def
      by (simp, metis of_nat_less_iff of_nat_numeral of_nat_power)
    have v: "int (be_val c) = int (unat a) * (256 * p) + (int (unat b) * p + r)"
      by (simp add: c be_val_Cons p_def r_def)
    have iv: "int_val c = int (be_val c) - (if 128 * (256 * p) \<le> int (be_val c) then 256 * (256 * p) else 0)"
      unfolding int_val_def by (simp add: c p_def zle_int [symmetric] del: zle_int)
    have "slen (int_val c) = length c \<longleftrightarrow> \<not> slen (int_val c) \<le> Suc (length cs)"
      using le by (auto simp: c)
    also have "\<dots> \<longleftrightarrow> \<not> (- (128 * p) \<le> int_val c \<and> int_val c < 128 * p)"
      by (simp add: slen_le_iff p_def)
    also have "\<dots> \<longleftrightarrow> \<not> (unat a = 0 \<and> unat b < 128) \<and> \<not> (unat a = 255 \<and> \<not> unat b < 128)"
      unfolding iv v by (subst lead_cases [OF p r]) (simp_all del: unat_eq_zero)
    also have "unat a = 255 \<longleftrightarrow> a = 0xff" using eq_of_natI [of a 255] by auto
    finally show ?thesis by (auto simp: c u8_high_bit unsigned_eq_0_iff)
  qed
qed


lemma int_content_iff:
  "c \<noteq> [] \<and> \<not> (length c > 1 \<and> c ! 0 = 0 \<and> c ! 1 AND 0x80 = 0) \<and>
    \<not> (length c > 1 \<and> c ! 0 = 0xff \<and> c ! 1 AND 0x80 \<noteq> 0) \<longleftrightarrow> (\<exists>i. c = int_octets i)"
proof -
  have "int_octets i \<noteq> []" for i using length_int_octets [of i] slen_pos [of i] by fastforce
  moreover have "slen (int_val (int_octets i)) = length (int_octets i)" for i
    by (simp add: int_val_int_octets)
  ultimately show ?thesis using slen_int_val [of c] int_octets_int_val [of c] by metis
qed

lemma int_octets_inj: "int_octets i = int_octets j \<longleftrightarrow> i = j"
  using int_val_int_octets by metis

lemma int_octets_sign: "int_octets i ! 0 AND 0x80 = 0 \<longleftrightarrow> 0 \<le> i"
proof -
  obtain b cs where c: "int_octets i = b # cs" 
    using length_int_octets [of i] slen_pos [of i] by (cases "int_octets i") auto
  have "be_val cs < 256 ^ length cs" by (rule be_val_lt)
  moreover have "unat b < 128 \<Longrightarrow> unat b * 256 ^ length cs \<le> 127 * 256 ^ length cs"
    and "\<not> unat b < 128 \<Longrightarrow> 128 * 256 ^ length cs \<le> unat b * 256 ^ length cs"
    by (auto intro: mult_right_mono)
  ultimately have k: "128 * 256 ^ length cs \<le> be_val (b # cs) \<longleftrightarrow> \<not> unat b < 128"
    unfolding be_val_Cons by linarith
  have "be_val (b # cs) < 256 ^ length (b # cs)" by (rule be_val_lt)
  then have "int (be_val (b # cs)) < 256 ^ length (b # cs)" by (metis of_nat_less_iff of_nat_numeral of_nat_power)
  then have "0 \<le> int_val (b # cs) \<longleftrightarrow> unat b < 128"
    unfolding int_val_def using k by auto
  then show ?thesis using int_val_int_octets [of i] by (simp add: c u8_high_bit)
qed

lemma asn1_uint64_loop_iff:
  "asn1_uint64_loop out data = Some v \<longleftrightarrow>
    unat out * 256 ^ length data + be_val data < 2 ^ 64 \<and>
    v = of_nat (unat out * 256 ^ length data + be_val data)"
proof (induction data arbitrary: out)
  case Nil
  then show ?case using unsigned_less [of out] by (auto simp: word_of_unat)
next
  case (Cons b data)
  have d: "drop_bit 56 out \<noteq> 0 \<longleftrightarrow> 2 ^ 56 \<le> unat out"
    using unat_drop_bit [of 56 out] by (metis div_eq_0_iff not_le unsigned_eq_0_iff power_not_zero zero_neq_numeral)
  show ?case
  proof (cases "drop_bit 56 out \<noteq> 0")
    case True
    then have "2 ^ 56 * 256 ^ 1 \<le> unat out * 256 ^ length (b # data)"
      unfolding d by (intro mult_mono power_increasing) auto
    then show ?thesis using True by simp
  next
    case False
    then have "unat (push_bit 8 out OR ucast b) = unat out * 256 + unat b"
      by (intro unat_shift_or_u8) (use d in auto)
    then show ?thesis using False Cons.IH [of "push_bit 8 out OR ucast b"]
      by (simp add: be_val_Cons algebra_simps del: of_nat_add of_nat_mult)
  qed
qed

lemma twos_complement_cases: "b < P \<Longrightarrow> 0 \<le> b \<Longrightarrow> b - P = i \<or> b = i \<Longrightarrow> b = (if 0 \<le> i then i else i + P)"
  for b P i :: int
  by auto

lemma be_val_int_octets:
  "int (be_val (int_octets i)) = (if 0 \<le> i then i else i + 256 ^ slen i)"
proof -
  have "be_val (int_octets i) < 256 ^ slen i" using be_val_lt [of "int_octets i"] by simp
  then have "int (be_val (int_octets i)) < 256 ^ slen i" by (metis of_nat_less_iff of_nat_numeral of_nat_power)
  moreover have "int (be_val (int_octets i)) - 256 ^ slen i = i \<or> int (be_val (int_octets i)) = i"
    using int_val_int_octets [of i] by (auto simp: int_val_def split: if_splits)
  ultimately show ?thesis by (intro twos_complement_cases) simp_all
qed

lemma uint64_content_iff:
  "length c < 2 ^ 32 \<and> c \<noteq> [] \<and> c ! 0 AND 0x80 = 0 \<and> \<not> (c ! 0 = 0 \<and> length c > 1 \<and> c ! 1 AND 0x80 = 0) \<and>
    asn1_uint64_loop 0 c = Some v \<longleftrightarrow> c = int_octets (int (unat v))" (is "?L \<longleftrightarrow> ?R")
proof
  assume l: ?L
  then have "c ! 0 \<noteq> 0xff" by auto
  then obtain i where i: "c = int_octets i" using l int_content_iff [of c] by auto
  then have "0 \<le> i" using l int_octets_sign by blast
  then have "int (be_val c) = i" using be_val_int_octets [of i] i by simp
  moreover have "unat v = be_val c"
    using l by (auto simp: asn1_uint64_loop_iff intro!: unat_of_nat_lt)
  ultimately show ?R using i by simp
next
  assume r: ?R
  have "int (be_val c) = int (unat v)" using be_val_int_octets [of "int (unat v)"] r by simp
  then have bv: "be_val c = unat v" by (simp only: of_nat_eq_iff)
  have "slen (int (unat v)) \<le> Suc 8"
    unfolding slen_le_iff by (intro conjI order_trans [OF _ of_nat_0_le_iff]) (use uint_bounded [of v] in simp_all)
  then have "length c \<le> 9" using r by simp
  moreover have "c ! 0 AND 0x80 = 0" using r by (simp add: int_octets_sign)
  moreover have "asn1_uint64_loop 0 c = Some v"
    using bv unsigned_less [of v] by (simp add: asn1_uint64_loop_iff word_of_unat)
  ultimately show ?L using int_content_iff [of c] r by auto
qed

lemma CBS_get_asn1_uint64_iff:
  "CBS_get_asn1_uint64 cbs = (Some v, rest) \<longleftrightarrow>
    cbs = der_element CBS_ASN1_INTEGER (int_octets (int (unat v))) @ rest"
proof -
  have "CBS_get_asn1_uint64 cbs = (Some v, rest) \<longleftrightarrow>
    (\<exists>c. CBS_get_asn1 cbs CBS_ASN1_INTEGER = (Some c, rest) \<and> c \<noteq> [] \<and> c ! 0 AND 0x80 = 0 \<and>
      \<not> (c ! 0 = 0 \<and> length c > 1 \<and> c ! 1 AND 0x80 = 0) \<and> asn1_uint64_loop 0 c = Some v)"
    unfolding CBS_get_asn1_uint64_def by (auto split: prod.splits option.splits if_splits)
  also have "\<dots> \<longleftrightarrow> (\<exists>c. cbs = der_element CBS_ASN1_INTEGER c @ rest \<and> c = int_octets (int (unat v)))"
    unfolding CBS_get_asn1_iff using uint64_content_iff by metis
  finally show ?thesis by simp
qed

text \<open>The sign-extending copy into the 8-byte union.\<close>

lemma be_val_replicate_0: "be_val (replicate n 0 @ c) = be_val c"
  by (induction n) (simp_all add: be_val_Cons)

lemma be_val_replicate_ff: "be_val (replicate n 0xff @ c) + 256 ^ length c = 256 ^ (n + length c) + be_val c"
  by (induction n) (simp_all add: be_val_Cons power_add)

lemma int64_union:
  assumes "length c \<le> 8" "c = int_octets i"
    and "u = map (\<lambda>j. c ! (length c - j - 1)) [0..<length c] @
      drop (length c) (replicate 8 (if c ! 0 AND 0x80 \<noteq> 0 then 0xff else 0))"
  shows "int64_of_le u = of_int i"
proof -
  have "map (\<lambda>j. c ! (length c - j - 1)) [0..<length c] = rev c"
    by (rule nth_equalityI) (simp_all add: rev_nth)
  then have u: "rev u = replicate (8 - length c) (if c ! 0 AND 0x80 \<noteq> 0 then 0xff else 0) @ c"
    by (simp add: assms(3))
  show ?thesis
  proof (cases "0 \<le> i")
    case True
    then have "c ! 0 AND 0x80 = 0" using assms(2) int_octets_sign by blast
    then have "int (be_val (rev u)) = i"
      using be_val_int_octets [of i] True assms(2) by (simp add: u be_val_replicate_0)
    then show ?thesis unfolding int64_of_le_def by (metis of_int_of_nat_eq)
  next
    case False
    then have "c ! 0 AND 0x80 \<noteq> 0" using assms(2) int_octets_sign by blast
    then have "be_val (rev u) + 256 ^ length c = 2 ^ 64 + be_val c"
      using be_val_replicate_ff [of "8 - length c" c] assms(1) by (simp add: u)
    then have "int (be_val (rev u)) + 256 ^ length c = 2 ^ 64 + int (be_val c)"
      by (metis of_nat_add of_nat_numeral of_nat_power)
    then have "int (be_val (rev u)) = 2 ^ 64 + i"
      using be_val_int_octets [of i] False assms(2) by simp
    then have "(of_nat (be_val (rev u)) :: u64) = of_int (2 ^ 64 + i)" by (metis of_int_of_nat_eq)
    then show ?thesis unfolding int64_of_le_def by simp
  qed
qed

lemma sint_bounds: "- (2 ^ 63) \<le> sint (v :: u64)" "sint v < 2 ^ 63"
  using sint_greater_eq [of v] sint_less [of v] by simp_all

lemma slen_le_8: "slen i \<le> 8 \<longleftrightarrow> - (2 ^ 63) \<le> i \<and> i < 2 ^ 63"
  using slen_le_iff [of i 7] by simp

lemma CBS_get_asn1_int64_iff:
  "CBS_get_asn1_int64 cbs = (Some v, rest) \<longleftrightarrow>
    cbs = der_element CBS_ASN1_INTEGER (int_octets (sint v)) @ rest"
proof -
  let ?u = "\<lambda>c. map (\<lambda>j. c ! (length c - j - 1)) [0..<length c] @
      drop (length c) (replicate 8 (if c ! 0 AND 0x80 \<noteq> 0 then 0xff else (0::u8)))"
  have "CBS_get_asn1_int64 cbs = (Some v, rest) \<longleftrightarrow>
    (\<exists>c. CBS_get_asn1 cbs CBS_ASN1_INTEGER = (Some c, rest) \<and>
      (if length c = 0 \<or> length c > 8 then None
       else if length c > 1 \<and> c ! 0 = 0 \<and> c ! 1 AND 0x80 = 0 then None
       else if length c > 1 \<and> c ! 0 = 0xff \<and> c ! 1 AND 0x80 \<noteq> 0 then None
       else Some (int64_of_le (?u c))) = Some v)"
    unfolding CBS_get_asn1_int64_def Let_def parse_case_iff by (rule refl)
  also have "\<dots> \<longleftrightarrow> (\<exists>c. CBS_get_asn1 cbs CBS_ASN1_INTEGER = (Some c, rest) \<and> length c \<le> 8 \<and> (c \<noteq> [] \<and>
      \<not> (length c > 1 \<and> c ! 0 = 0 \<and> c ! 1 AND 0x80 = 0) \<and>
      \<not> (length c > 1 \<and> c ! 0 = 0xff \<and> c ! 1 AND 0x80 \<noteq> 0)) \<and> int64_of_le (?u c) = v)"
    unfolding if_None_eq_Some length_0_conv not_less [symmetric] option.inject by blast
  also have "\<dots> \<longleftrightarrow> (\<exists>i. cbs = der_element CBS_ASN1_INTEGER (int_octets i) @ rest \<and>
      slen i \<le> 8 \<and> of_int i = v)"
  proof -
    define U where "U c = ?u c" for c
    have U: "slen i \<le> 8 \<Longrightarrow> int64_of_le (U (int_octets i)) = of_int i" for i
      unfolding U_def by (rule int64_union [OF _ refl refl]) simp
    have "(\<exists>c. (length c < 2 ^ 32 \<and> cbs = der_element CBS_ASN1_INTEGER c @ rest) \<and> length c \<le> 8 \<and>
          (\<exists>i. c = int_octets i) \<and> int64_of_le (U c) = v) \<longleftrightarrow>
        (\<exists>i. cbs = der_element CBS_ASN1_INTEGER (int_octets i) @ rest \<and> slen i \<le> 8 \<and>
          int64_of_le (U (int_octets i)) = v)"
    proof (intro iffI; elim exE conjE)
      fix i assume "cbs = der_element CBS_ASN1_INTEGER (int_octets i) @ rest" "slen i \<le> 8"
        "int64_of_le (U (int_octets i)) = v"
      then show "\<exists>c. (length c < 2 ^ 32 \<and> cbs = der_element CBS_ASN1_INTEGER c @ rest) \<and> length c \<le> 8 \<and>
          (\<exists>i. c = int_octets i) \<and> int64_of_le (U c) = v"
        by (intro exI [of _ "int_octets i"]) auto
    qed auto
    then show ?thesis unfolding int_content_iff CBS_get_asn1_iff U_def [symmetric] using U by metis
  qed
  also have "\<dots> \<longleftrightarrow> cbs = der_element CBS_ASN1_INTEGER (int_octets (sint v)) @ rest"
  proof -
    have "slen i \<le> 8 \<and> of_int i = v \<longleftrightarrow> i = sint v" for i
      unfolding slen_le_8 using sint_bounds [of v]
      by (auto simp: int_word_sint)
    then show ?thesis by auto
  qed
  finally show ?thesis .
qed

end
