(* ===== verification/Cbb.thy ===== *)
theory Cbb
  imports Der
begin

text \<open>
  \<^verbatim>\<open>crypto/bytestring/cbb.c\<close>: the byte-string builder. A family of nested \<^verbatim>\<open>CBB\<close> objects shares one
  \<^verbatim>\<open>cbb_buffer_st\<close>; each object has at most one live child, so the live objects form a chain from
  the top-level one. The state is that buffer (\<^verbatim>\<open>base\<close>, \<^verbatim>\<open>None\<close> for NULL) and the chain of open
  children, outermost first; an object is named by its depth in the chain (0 is the top level), and
  a depth past the end of the chain is a child whose parent has flushed it (\<^verbatim>\<open>base == NULL\<close>). Every
  operation returns the C result and the state after it, also after a failure.
\<close>

record cbb_buffer =
  buf :: "bytes option"
  blen :: u64
  cap :: u64
  can_resize :: bool
  berror :: bool

record cbb_frame =
  offset :: u64
  pending_len_len :: u8
  pending_is_asn1 :: bool

record CBB =
  base :: "cbb_buffer option"
  chain :: "cbb_frame list"

section \<open>The buffer\<close>

text \<open>Stores through a pointer into the buffer.\<close>

definition mem_put :: "'a list \<Rightarrow> nat \<Rightarrow> 'a list \<Rightarrow> 'a list" where
  "mem_put m off xs = take off m @ xs @ drop (off + length xs) m"

definition buf_put :: "cbb_buffer \<Rightarrow> u64 \<Rightarrow> bytes \<Rightarrow> cbb_buffer" where
  "buf_put b off xs = b\<lparr>buf := map_option (\<lambda>m. mem_put m (unat off) xs) (buf b)\<rparr>"

text \<open>The result is the offset that \<^verbatim>\<open>*out\<close> points to.\<close>

definition cbb_buffer_reserve :: "libc_malloc \<Rightarrow> cbb_buffer \<Rightarrow> u64 \<Rightarrow> u64 option \<times> cbb_buffer" where
  "cbb_buffer_reserve malloc b n =
     (let newlen = blen b + n in
      if newlen < blen b then (None, b\<lparr>berror := True\<rparr>)
      else if newlen > cap b then
        let newcap = cap b * 2 in
        if \<not> can_resize b then (None, b\<lparr>berror := True\<rparr>)
        else
          let newcap = (if newcap < cap b \<or> newcap < newlen then newlen else newcap) in
          (case OPENSSL_realloc malloc (buf b) newcap of
             None \<Rightarrow> (None, b\<lparr>berror := True\<rparr>)
           | Some newbuf \<Rightarrow> (Some (blen b), b\<lparr>buf := Some newbuf, cap := newcap\<rparr>))
      else (Some (blen b), b))"

definition cbb_buffer_add :: "libc_malloc \<Rightarrow> cbb_buffer \<Rightarrow> u64 \<Rightarrow> u64 option \<times> cbb_buffer" where
  "cbb_buffer_add malloc b n =
     (case cbb_buffer_reserve malloc b n of
        (None, b') \<Rightarrow> (None, b')
      | (Some out, b') \<Rightarrow> (Some out, b'\<lparr>blen := blen b' + n\<rparr>))"

text \<open>
  The loop that stores \<^verbatim>\<open>n\<close> bytes of \<^verbatim>\<open>v\<close> from the last one backwards: the bytes stored, and what is
  left of \<^verbatim>\<open>v\<close>.
\<close>

fun store_be :: "nat \<Rightarrow> u64 \<Rightarrow> bytes \<times> u64" where
  "store_be 0 v = ([], v)"
| "store_be (Suc n) v = (case store_be n (drop_bit 8 v) of (bs, v') \<Rightarrow> (bs @ [ucast v], v'))"

definition cbb_buffer_add_u :: "libc_malloc \<Rightarrow> cbb_buffer \<Rightarrow> u64 \<Rightarrow> u64 \<Rightarrow> bool \<times> cbb_buffer" where
  "cbb_buffer_add_u malloc b v len_len =
     (if len_len = 0 then (True, b)
      else (case cbb_buffer_add malloc b len_len of
              (None, b') \<Rightarrow> (False, b')
            | (Some out, b') \<Rightarrow>
                (case store_be (unat len_len) v of
                   (bs, v') \<Rightarrow>
                     let b'' = buf_put b' out bs in
                     if v' \<noteq> 0 then (False, b''\<lparr>berror := True\<rparr>) else (True, b''))))"

section \<open>Creation and destruction\<close>

definition sizeof_cbb_buffer_st :: u64 where
  "sizeof_cbb_buffer_st = 32"

definition CBB_zero :: CBB where
  "CBB_zero = \<lparr>base = None, chain = []\<rparr>"

definition cbb_init :: "libc_malloc \<Rightarrow> CBB \<Rightarrow> bytes option \<Rightarrow> u64 \<Rightarrow> bool \<times> CBB" where
  "cbb_init malloc cbb bf cp =
     (case OPENSSL_malloc malloc sizeof_cbb_buffer_st of
        None \<Rightarrow> (False, cbb)
      | Some _ \<Rightarrow>
          (True, cbb\<lparr>base := Some \<lparr>buf = bf, blen = 0, cap = cp, can_resize = True, berror = False\<rparr>\<rparr>))"

definition CBB_init :: "libc_malloc \<Rightarrow> u64 \<Rightarrow> bool \<times> CBB" where
  "CBB_init malloc initial_capacity =
     (let bf = OPENSSL_malloc malloc initial_capacity in
      if initial_capacity > 0 \<and> bf = None then (False, CBB_zero)
      else cbb_init malloc CBB_zero bf initial_capacity)"

definition CBB_init_fixed :: "libc_malloc \<Rightarrow> bytes \<Rightarrow> u64 \<Rightarrow> bool \<times> CBB" where
  "CBB_init_fixed malloc bf n =
     (case cbb_init malloc CBB_zero (Some bf) n of
        (False, cbb) \<Rightarrow> (False, cbb)
      | (True, cbb) \<Rightarrow> (True, cbb\<lparr>base := map_option (\<lambda>b. b\<lparr>can_resize := False\<rparr>) (base cbb)\<rparr>))"

definition CBB_cleanup :: "nat \<Rightarrow> CBB \<Rightarrow> CBB" where
  "CBB_cleanup d cbb = (if d \<noteq> 0 then cbb else cbb\<lparr>base := None\<rparr>)"

section \<open>Flushing\<close>

text \<open>
  The ASN.1 branch: the length byte (or bytes, after moving the contents up) of a child whose
  contents start at \<^verbatim>\<open>child_start\<close>. The result is the child's new \<^verbatim>\<open>offset\<close> and
  \<^verbatim>\<open>pending_len_len\<close>, and what is still to be written of \<^verbatim>\<open>len\<close>.
\<close>

definition asn1_len_len :: "u64 \<Rightarrow> u8 \<times> u8 \<times> u64" where
  "asn1_len_len n =
     (if n > 0xffffff then (5, 0x80 OR 4, n)
      else if n > 0xffff then (4, 0x80 OR 3, n)
      else if n > 0xff then (3, 0x80 OR 2, n)
      else if n > 0x7f then (2, 0x80 OR 1, n)
      else (1, ucast n, 0))"

definition flush_asn1 ::
  "libc_malloc \<Rightarrow> cbb_frame \<Rightarrow> cbb_buffer \<Rightarrow> u64 \<Rightarrow> u64 \<Rightarrow> (cbb_frame \<times> u64) option \<times> cbb_buffer"
where
  "flush_asn1 malloc f b child_start n =
     (if n > 0xfffffffe then (None, b)
      else (case asn1_len_len n of
        (len_len, initial_length_byte, n') \<Rightarrow>
          let extra_bytes = ucast (len_len - 1) :: u64;
              moved = (if len_len \<noteq> 1 then
                 (case cbb_buffer_add malloc b extra_bytes of
                    (None, b') \<Rightarrow> (False, b')
                  | (Some _, b') \<Rightarrow>
                      (True, b'\<lparr>buf := map_option (\<lambda>m. mem_move m (unat (child_start + extra_bytes))
                         (unat child_start) (unat n')) (buf b')\<rparr>))
               else (True, b)) in
          (case moved of
             (False, b') \<Rightarrow> (None, b')
           | (True, b') \<Rightarrow>
               (Some (f\<lparr>offset := offset f + 1, pending_len_len := len_len - 1\<rparr>, n'),
                buf_put b' (offset f) [initial_length_byte]))))"

text \<open>The chain below an object, and the buffer, after \<^verbatim>\<open>CBB_flush\<close> of that object.\<close>

fun flush_frames :: "libc_malloc \<Rightarrow> cbb_frame list \<Rightarrow> cbb_buffer \<Rightarrow> bool \<times> cbb_frame list \<times> cbb_buffer" where
  "flush_frames malloc [] b = (\<not> berror b, [], b)"
| "flush_frames malloc (f # fs) b =
     (if berror b then (False, f # fs, b)
      else if pending_len_len f = 0 then (True, f # fs, b)
      else
        let child_start = offset f + ucast (pending_len_len f) in
        (case flush_frames malloc fs b of
           (False, fs', b') \<Rightarrow> (False, f # fs', b'\<lparr>berror := True\<rparr>)
         | (True, fs', b') \<Rightarrow>
             if child_start < offset f \<or> blen b' < child_start
             then (False, f # fs', b'\<lparr>berror := True\<rparr>)
             else
               let n = blen b' - child_start in
               (case (if pending_is_asn1 f then flush_asn1 malloc f b' child_start n
                      else (Some (f, n), b')) of
                  (None, b'') \<Rightarrow> (False, f # fs', b''\<lparr>berror := True\<rparr>)
                | (Some (f', n'), b'') \<Rightarrow>
                    (case store_be (unat (pending_len_len f')) n' of
                       (bs, left) \<Rightarrow>
                         let b''' = buf_put b'' (offset f') bs in
                         if left \<noteq> 0 then (False, f' # fs', b'''\<lparr>berror := True\<rparr>)
                         else (True, [], b''')))))"

definition CBB_flush :: "libc_malloc \<Rightarrow> nat \<Rightarrow> CBB \<Rightarrow> bool \<times> CBB" where
  "CBB_flush malloc d cbb =
     (if length (chain cbb) < d then (False, cbb)
      else (case base cbb of
        None \<Rightarrow> (False, cbb)
      | Some b \<Rightarrow>
          (case flush_frames malloc (drop d (chain cbb)) b of
             (ok, fs, b') \<Rightarrow> (ok, \<lparr>base = Some b', chain = take d (chain cbb) @ fs\<rparr>))))"

text \<open>\<open>a \<^verbatim>\<open>&&\<close> b\<close> on calls that return 1 or 0.\<close>

definition and_then :: "('s \<Rightarrow> bool \<times> 's) \<Rightarrow> ('s \<Rightarrow> bool \<times> 's) \<Rightarrow> 's \<Rightarrow> bool \<times> 's" where
  "and_then f g s = (case f s of (True, s') \<Rightarrow> g s' | (False, s') \<Rightarrow> (False, s'))"

text \<open>A buffer operation on \<^verbatim>\<open>cbb->base\<close>, which the preceding flush has shown not to be NULL.\<close>

definition on_base :: "(cbb_buffer \<Rightarrow> bool \<times> cbb_buffer) \<Rightarrow> CBB \<Rightarrow> bool \<times> CBB" where
  "on_base f cbb =
     (case base cbb of
        None \<Rightarrow> (False, cbb)
      | Some b \<Rightarrow> (case f b of (ok, b') \<Rightarrow> (ok, cbb\<lparr>base := Some b'\<rparr>)))"

definition CBB_finish :: "libc_malloc \<Rightarrow> nat \<Rightarrow> bool \<Rightarrow> CBB \<Rightarrow> (bytes option \<times> u64) option \<times> CBB" where
  "CBB_finish malloc d outs cbb =
     (if d \<noteq> 0 then (None, cbb)
      else (case CBB_flush malloc d cbb of
        (False, cbb') \<Rightarrow> (None, cbb')
      | (True, cbb') \<Rightarrow>
          (case base cbb' of
             None \<Rightarrow> (None, cbb')
           | Some b \<Rightarrow>
               if can_resize b \<and> \<not> outs then (None, cbb')
               else (Some (buf b, blen b), CBB_cleanup d cbb'))))"

text \<open>Offset of the contents of the object at depth \<^verbatim>\<open>d\<close>: \<^verbatim>\<open>offset + pending_len_len\<close>.\<close>

definition cbb_start :: "nat \<Rightarrow> CBB \<Rightarrow> u64" where
  "cbb_start d cbb =
     (case d of 0 \<Rightarrow> 0
      | Suc n \<Rightarrow> offset (chain cbb ! n) + ucast (pending_len_len (chain cbb ! n)))"

definition CBB_len :: "nat \<Rightarrow> CBB \<Rightarrow> u64" where
  "CBB_len d cbb = (case base cbb of None \<Rightarrow> 0 | Some b \<Rightarrow> blen b - cbb_start d cbb)"

text \<open>The \<^verbatim>\<open>CBB_len\<close> bytes at the pointer that \<^verbatim>\<open>CBB_data\<close> returns.\<close>

definition CBB_data :: "nat \<Rightarrow> CBB \<Rightarrow> bytes" where
  "CBB_data d cbb =
     (case base cbb of
        None \<Rightarrow> []
      | Some b \<Rightarrow>
          (case buf b of
             None \<Rightarrow> []
           | Some m \<Rightarrow> take (unat (CBB_len d cbb)) (drop (unat (cbb_start d cbb)) m)))"

section \<open>Writing\<close>

definition cbb_add_length_prefixed :: "libc_malloc \<Rightarrow> nat \<Rightarrow> u8 \<Rightarrow> CBB \<Rightarrow> bool \<times> CBB" where
  "cbb_add_length_prefixed malloc d len_len =
     and_then (CBB_flush malloc d) (\<lambda>cbb.
       (case base cbb of
          None \<Rightarrow> (False, cbb)
        | Some b \<Rightarrow>
            (case cbb_buffer_add malloc b (ucast len_len) of
               (None, b') \<Rightarrow> (False, cbb\<lparr>base := Some b'\<rparr>)
             | (Some out, b') \<Rightarrow>
                 (True, \<lparr>base = Some (buf_put b' out (replicate (unat len_len) 0)),
                         chain = take d (chain cbb) @
                           [\<lparr>offset = blen b, pending_len_len = len_len, pending_is_asn1 = False\<rparr>]\<rparr>))))"

definition CBB_add_u8_length_prefixed :: "libc_malloc \<Rightarrow> nat \<Rightarrow> CBB \<Rightarrow> bool \<times> CBB" where
  "CBB_add_u8_length_prefixed malloc d = cbb_add_length_prefixed malloc d 1"

definition CBB_add_u16_length_prefixed :: "libc_malloc \<Rightarrow> nat \<Rightarrow> CBB \<Rightarrow> bool \<times> CBB" where
  "CBB_add_u16_length_prefixed malloc d = cbb_add_length_prefixed malloc d 2"

definition CBB_add_u24_length_prefixed :: "libc_malloc \<Rightarrow> nat \<Rightarrow> CBB \<Rightarrow> bool \<times> CBB" where
  "CBB_add_u24_length_prefixed malloc d = cbb_add_length_prefixed malloc d 3"

definition CBB_add_u8 :: "libc_malloc \<Rightarrow> nat \<Rightarrow> u8 \<Rightarrow> CBB \<Rightarrow> bool \<times> CBB" where
  "CBB_add_u8 malloc d v =
     and_then (CBB_flush malloc d) (on_base (\<lambda>b. cbb_buffer_add_u malloc b (ucast v) 1))"

definition CBB_add_u16 :: "libc_malloc \<Rightarrow> nat \<Rightarrow> u16 \<Rightarrow> CBB \<Rightarrow> bool \<times> CBB" where
  "CBB_add_u16 malloc d v =
     and_then (CBB_flush malloc d) (on_base (\<lambda>b. cbb_buffer_add_u malloc b (ucast v) 2))"

definition CBB_add_u16le :: "libc_malloc \<Rightarrow> nat \<Rightarrow> u16 \<Rightarrow> CBB \<Rightarrow> bool \<times> CBB" where
  "CBB_add_u16le malloc d v = CBB_add_u16 malloc d (CRYPTO_bswap2 v)"

definition CBB_add_u24 :: "libc_malloc \<Rightarrow> nat \<Rightarrow> u32 \<Rightarrow> CBB \<Rightarrow> bool \<times> CBB" where
  "CBB_add_u24 malloc d v =
     and_then (CBB_flush malloc d) (on_base (\<lambda>b. cbb_buffer_add_u malloc b (ucast v) 3))"

definition CBB_add_u32 :: "libc_malloc \<Rightarrow> nat \<Rightarrow> u32 \<Rightarrow> CBB \<Rightarrow> bool \<times> CBB" where
  "CBB_add_u32 malloc d v =
     and_then (CBB_flush malloc d) (on_base (\<lambda>b. cbb_buffer_add_u malloc b (ucast v) 4))"

definition CBB_add_u32le :: "libc_malloc \<Rightarrow> nat \<Rightarrow> u32 \<Rightarrow> CBB \<Rightarrow> bool \<times> CBB" where
  "CBB_add_u32le malloc d v = CBB_add_u32 malloc d (CRYPTO_bswap4 v)"

definition CBB_add_u64 :: "libc_malloc \<Rightarrow> nat \<Rightarrow> u64 \<Rightarrow> CBB \<Rightarrow> bool \<times> CBB" where
  "CBB_add_u64 malloc d v =
     and_then (CBB_flush malloc d) (on_base (\<lambda>b. cbb_buffer_add_u malloc b v 8))"

definition CBB_add_u64le :: "libc_malloc \<Rightarrow> nat \<Rightarrow> u64 \<Rightarrow> CBB \<Rightarrow> bool \<times> CBB" where
  "CBB_add_u64le malloc d v = CBB_add_u64 malloc d (CRYPTO_bswap8 v)"

text \<open>The length of base-128 integer \<^verbatim>\<open>v\<close>, and its byte \<^verbatim>\<open>i\<close> counted from the end.\<close>

function base128_len_len :: "u64 \<Rightarrow> nat" where
  "base128_len_len copy = (if copy > 0 then Suc (base128_len_len (drop_bit 7 copy)) else 0)"
  by pat_completeness auto
termination
proof (relation "measure unat")
  fix copy :: u64
  assume "copy > 0"
  then have "0 < unat copy" by (simp add: word_gt_0_no word_less_nat_alt)
  then show "(drop_bit 7 copy, copy) \<in> measure unat" by (simp add: unat_drop_bit)
qed simp

declare base128_len_len.simps [simp del]

definition base128_byte :: "u64 \<Rightarrow> nat \<Rightarrow> u8" where
  "base128_byte v i =
     (let byte = ucast (drop_bit (7 * i) v AND 0x7f) in if i \<noteq> 0 then byte OR 0x80 else byte)"

text \<open>A loop of \<^verbatim>\<open>CBB_add_u8\<close> that stops at the first failure.\<close>

fun add_u8s :: "libc_malloc \<Rightarrow> nat \<Rightarrow> bytes \<Rightarrow> CBB \<Rightarrow> bool \<times> CBB" where
  "add_u8s malloc d [] cbb = (True, cbb)"
| "add_u8s malloc d (b # bs) cbb = and_then (CBB_add_u8 malloc d b) (add_u8s malloc d bs) cbb"

definition add_base128_integer :: "libc_malloc \<Rightarrow> nat \<Rightarrow> u64 \<Rightarrow> CBB \<Rightarrow> bool \<times> CBB" where
  "add_base128_integer malloc d v =
     (let len_len = base128_len_len v; len_len = (if len_len = 0 then 1 else len_len) in
      add_u8s malloc d (map (base128_byte v) (rev [0..<len_len])))"

definition CBB_add_asn1 :: "libc_malloc \<Rightarrow> nat \<Rightarrow> u32 \<Rightarrow> CBB \<Rightarrow> bool \<times> CBB" where
  "CBB_add_asn1 malloc d tag =
     (let tag_bits = ucast (drop_bit CBS_ASN1_TAG_SHIFT tag) AND 0xe0 :: u8;
          tag_number = tag AND CBS_ASN1_TAG_NUMBER_MASK in
      and_then (CBB_flush malloc d)
     (and_then
       (if tag_number \<ge> 0x1f then
          and_then (CBB_add_u8 malloc d (tag_bits OR 0x1f))
            (add_base128_integer malloc d (ucast tag_number))
        else CBB_add_u8 malloc d (tag_bits OR ucast tag_number))
     (\<lambda>cbb. case base cbb of
        None \<Rightarrow> (False, cbb)
      | Some b \<Rightarrow>
          and_then (CBB_add_u8 malloc d 0)
            (\<lambda>cbb'. (True, cbb'\<lparr>chain := take d (chain cbb') @
               [\<lparr>offset = blen b, pending_len_len = 1, pending_is_asn1 = True\<rparr>]\<rparr>)) cbb)))"

definition CBB_add_bytes :: "libc_malloc \<Rightarrow> nat \<Rightarrow> bytes \<Rightarrow> CBB \<Rightarrow> bool \<times> CBB" where
  "CBB_add_bytes malloc d data =
     and_then (CBB_flush malloc d) (on_base (\<lambda>b.
       case cbb_buffer_add malloc b (of_nat (length data)) of
         (None, b') \<Rightarrow> (False, b')
       | (Some dest, b') \<Rightarrow> (True, buf_put b' dest data)))"

text \<open>The pointer returned to the caller, who fills the space through it.\<close>

definition CBB_add_space :: "libc_malloc \<Rightarrow> nat \<Rightarrow> u64 \<Rightarrow> CBB \<Rightarrow> u64 option \<times> CBB" where
  "CBB_add_space malloc d n cbb =
     (case CBB_flush malloc d cbb of
        (False, cbb') \<Rightarrow> (None, cbb')
      | (True, cbb') \<Rightarrow>
          (case base cbb' of
             None \<Rightarrow> (None, cbb')
           | Some b \<Rightarrow> (case cbb_buffer_add malloc b n of (out, b') \<Rightarrow> (out, cbb'\<lparr>base := Some b'\<rparr>))))"

definition CBB_reserve :: "libc_malloc \<Rightarrow> nat \<Rightarrow> u64 \<Rightarrow> CBB \<Rightarrow> u64 option \<times> CBB" where
  "CBB_reserve malloc d n cbb =
     (case CBB_flush malloc d cbb of
        (False, cbb') \<Rightarrow> (None, cbb')
      | (True, cbb') \<Rightarrow>
          (case base cbb' of
             None \<Rightarrow> (None, cbb')
           | Some b \<Rightarrow> (case cbb_buffer_reserve malloc b n of (out, b') \<Rightarrow> (out, cbb'\<lparr>base := Some b'\<rparr>))))"

definition CBB_did_write :: "nat \<Rightarrow> u64 \<Rightarrow> CBB \<Rightarrow> bool \<times> CBB" where
  "CBB_did_write d n cbb =
     (case base cbb of
        None \<Rightarrow> (False, cbb)
      | Some b \<Rightarrow>
          let newlen = blen b + n in
          if length (chain cbb) \<noteq> d \<or> newlen < blen b \<or> newlen > cap b then (False, cbb)
          else (True, cbb\<lparr>base := Some (b\<lparr>blen := newlen\<rparr>)\<rparr>))"

text \<open>What the caller stores through the pointer of \<^verbatim>\<open>CBB_reserve\<close> or \<^verbatim>\<open>CBB_add_space\<close>.\<close>

definition cbb_caller_write :: "u64 \<Rightarrow> bytes \<Rightarrow> CBB \<Rightarrow> CBB" where
  "cbb_caller_write out bs cbb = cbb\<lparr>base := map_option (\<lambda>b. buf_put b out bs) (base cbb)\<rparr>"

definition CBB_discard_child :: "nat \<Rightarrow> CBB \<Rightarrow> CBB" where
  "CBB_discard_child d cbb =
     (if length (chain cbb) \<le> d then cbb
      else \<lparr>base = map_option (\<lambda>b. b\<lparr>blen := offset (chain cbb ! d)\<rparr>) (base cbb),
            chain = take d (chain cbb)\<rparr>)"

section \<open>ASN.1 values\<close>

text \<open>The loop over the eight bytes, most significant first.\<close>

fun asn1_uint64_bytes :: "libc_malloc \<Rightarrow> nat \<Rightarrow> u64 \<Rightarrow> nat list \<Rightarrow> bool \<Rightarrow> CBB \<Rightarrow> (bool \<times> bool) \<times> CBB" where
  "asn1_uint64_bytes malloc d v [] started cbb = ((True, started), cbb)"
| "asn1_uint64_bytes malloc d v (i # is) started cbb =
     (let byte = ucast (drop_bit (8 * (7 - i)) v AND 0xff) :: u8 in
      if \<not> started \<and> byte = 0 then asn1_uint64_bytes malloc d v is started cbb
      else
        (case (if \<not> started \<and> byte AND 0x80 \<noteq> 0 then CBB_add_u8 malloc d 0 cbb else (True, cbb)) of
           (False, cbb') \<Rightarrow> ((False, started), cbb')
         | (True, cbb') \<Rightarrow>
             (case CBB_add_u8 malloc d byte cbb' of
                (False, cbb'') \<Rightarrow> ((False, started), cbb'')
              | (True, cbb'') \<Rightarrow> asn1_uint64_bytes malloc d v is True cbb'')))"

definition CBB_add_asn1_uint64 :: "libc_malloc \<Rightarrow> nat \<Rightarrow> u64 \<Rightarrow> CBB \<Rightarrow> bool \<times> CBB" where
  "CBB_add_asn1_uint64 malloc d v =
     and_then (CBB_add_asn1 malloc d CBS_ASN1_INTEGER) (\<lambda>cbb.
       case asn1_uint64_bytes malloc (Suc d) v [0..<8] False cbb of
         ((False, _), cbb') \<Rightarrow> (False, cbb')
       | ((True, started), cbb') \<Rightarrow>
           and_then (\<lambda>cbb. if \<not> started then CBB_add_u8 malloc (Suc d) 0 cbb else (True, cbb))
             (CBB_flush malloc d) cbb')"

text \<open>Byte \<^verbatim>\<open>i\<close> of the little-endian union, and the loop that drops sign-extension bytes.\<close>

definition int64_byte :: "u64 \<Rightarrow> nat \<Rightarrow> u8" where
  "int64_byte v i = ucast (drop_bit (8 * i) v)"

fun int64_start :: "u64 \<Rightarrow> nat \<Rightarrow> nat" where
  "int64_start v 0 = 0"
| "int64_start v (Suc start) =
     (if int64_byte v (Suc start) = 0xff \<and> int64_byte v start AND 0x80 \<noteq> 0
      then int64_start v start else Suc start)"

definition CBB_add_asn1_int64 :: "libc_malloc \<Rightarrow> nat \<Rightarrow> u64 \<Rightarrow> CBB \<Rightarrow> bool \<times> CBB" where
  "CBB_add_asn1_int64 malloc d v =
     (if sint v \<ge> 0 then CBB_add_asn1_uint64 malloc d v
      else
        let start = int64_start v 7 in
        and_then (CBB_add_asn1 malloc d CBS_ASN1_INTEGER)
       (and_then (add_u8s malloc (Suc d) (map (int64_byte v) (rev [0..<Suc start])))
          (CBB_flush malloc d)))"

definition CBB_add_asn1_octet_string :: "libc_malloc \<Rightarrow> nat \<Rightarrow> bytes \<Rightarrow> CBB \<Rightarrow> bool \<times> CBB" where
  "CBB_add_asn1_octet_string malloc d data =
     and_then (CBB_add_asn1 malloc d CBS_ASN1_OCTETSTRING)
    (and_then (CBB_add_bytes malloc (Suc d) data)
       (CBB_flush malloc d))"

definition CBB_add_asn1_bool :: "libc_malloc \<Rightarrow> nat \<Rightarrow> int \<Rightarrow> CBB \<Rightarrow> bool \<times> CBB" where
  "CBB_add_asn1_bool malloc d v =
     and_then (CBB_add_asn1 malloc d CBS_ASN1_BOOLEAN)
    (and_then (CBB_add_u8 malloc (Suc d) (if v \<noteq> 0 then 0xff else 0))
       (CBB_flush malloc d))"

section \<open>SET OF\<close>

text \<open>libc's \<^verbatim>\<open>memcmp\<close> on the first \<^verbatim>\<open>n\<close> bytes, up to the sign it leaves open.\<close>

fun memcmp :: "bytes \<Rightarrow> bytes \<Rightarrow> nat \<Rightarrow> int" where
  "memcmp (a # as) (b # bs) (Suc n) = (if a < b then -1 else if a > b then 1 else memcmp as bs n)"
| "memcmp as bs n = 0"

definition compare_set_of_element :: "CBS \<Rightarrow> CBS \<Rightarrow> int" where
  "compare_set_of_element a b =
     (let a_len = CBS_len a; b_len = CBS_len b;
          min_len = (if a_len < b_len then a_len else b_len);
          ret = memcmp (CBS_data a) (CBS_data b) min_len in
      if ret \<noteq> 0 then ret
      else if a_len = b_len then 0
      else if a_len < b_len then -1 else 1)"

text \<open>libc's \<^verbatim>\<open>qsort\<close>. Elements that compare equal are here equal, so their order cannot matter.\<close>

fun insert_cmp :: "('a \<Rightarrow> 'a \<Rightarrow> int) \<Rightarrow> 'a \<Rightarrow> 'a list \<Rightarrow> 'a list" where
  "insert_cmp cmp x [] = [x]"
| "insert_cmp cmp x (y # ys) = (if cmp x y \<le> 0 then x # y # ys else y # insert_cmp cmp x ys)"

definition qsort :: "('a \<Rightarrow> 'a \<Rightarrow> int) \<Rightarrow> 'a list \<Rightarrow> 'a list" where
  "qsort cmp xs = foldr (insert_cmp cmp) xs []"

function count_elements :: "CBS \<Rightarrow> nat option" where
  "count_elements cbs =
     (if CBS_len cbs = 0 then Some 0
      else (case CBS_get_any_asn1_element cbs of
              (None, _) \<Rightarrow> None
            | (Some _, cbs') \<Rightarrow> map_option Suc (count_elements cbs')))"
  by pat_completeness auto
termination
  by (relation "measure length")
    (auto simp: CBS_get_any_asn1_element_def der_element_def der_header_def len_octets_def
      dest!: sym [of "(_, _)"] any_element_sound)

declare count_elements.simps [simp del]

fun get_elements :: "nat \<Rightarrow> CBS \<Rightarrow> CBS list option" where
  "get_elements 0 cbs = Some []"
| "get_elements (Suc n) cbs =
     (case CBS_get_any_asn1_element cbs of
        (None, _) \<Rightarrow> None
      | (Some (child, _, _), cbs') \<Rightarrow> map_option ((#) child) (get_elements n cbs'))"

definition sizeof_CBS :: nat where
  "sizeof_CBS = 16"

fun add_children :: "libc_malloc \<Rightarrow> nat \<Rightarrow> CBS list \<Rightarrow> CBB \<Rightarrow> bool \<times> CBB" where
  "add_children malloc d [] cbb = (True, cbb)"
| "add_children malloc d (c # cs) cbb = and_then (CBB_add_bytes malloc d c) (add_children malloc d cs) cbb"

definition CBB_flush_asn1_set_of :: "libc_malloc \<Rightarrow> nat \<Rightarrow> CBB \<Rightarrow> bool \<times> CBB" where
  "CBB_flush_asn1_set_of malloc d = and_then (CBB_flush malloc d) (\<lambda>cbb.
     case count_elements (CBB_data d cbb) of
       None \<Rightarrow> (False, cbb)
     | Some num_children \<Rightarrow>
         if num_children < 2 then (True, cbb)
         else if of_nat num_children > (- 1 :: u64) div of_nat sizeof_CBS then (False, cbb)
         else
           (case (OPENSSL_memdup malloc (CBB_data d cbb),
                  OPENSSL_malloc malloc (of_nat (num_children * sizeof_CBS))) of
              (Some bf, Some _) \<Rightarrow>
                (case get_elements num_children (CBS_init bf (unat (CBB_len d cbb))) of
                   None \<Rightarrow> (False, cbb)
                 | Some children \<Rightarrow>
                     add_children malloc d (qsort compare_set_of_element children)
                       (cbb\<lparr>base := map_option (\<lambda>b. b\<lparr>blen := cbb_start d cbb\<rparr>) (base cbb)\<rparr>))
            | _ \<Rightarrow> (False, cbb)))"

end
