(* ===== verification/CbbSpec.thy ===== *)
theory CbbSpec
  imports Cbb
begin

text \<open>
  The contract of the byte-string builder. A builder is abstractly a stack of open strings
  (\<^verbatim>\<open>builder\<close>): the top-level contents and, for each open child, the kind of its length prefix and
  what was written into it. This theory shows that the shared buffer is an append-only string
  (\<^verbatim>\<open>buffer_ok\<close>, \<^verbatim>\<open>contents\<close>) and that \<^verbatim>\<open>CBB_flush\<close>, which patches prefixes and moves bytes in place,
  closes the strings of that stack (\<^verbatim>\<open>flush_frames_ok\<close>).
\<close>

section \<open>The buffer refines an append-only string\<close>

lemma OPENSSL_malloc_ok:
  assumes "malloc_contract malloc" and "OPENSSL_malloc malloc n = Some m" and "unat n < 2 ^ 64 - 8"
  shows "length m = unat n" and "unat n + 8 < 2 ^ 63"
proof -
  have "unat (n + 8) = unat n + 8" using assms(3) by (simp add: unat_word_ariths)
  moreover obtain r where "malloc (n + 8) = Some r"
    using assms(2) by (auto simp: OPENSSL_malloc_def OPENSSL_MALLOC_PREFIX_def split: option.splits)
  then have "unat (n + 8) < 2 ^ 63" using assms(1) unfolding malloc_contract_def by blast
  ultimately show "length m = unat n" and "unat n + 8 < 2 ^ 63"
    using OPENSSL_malloc_length [OF assms(1,2)] by simp_all
qed

lemma OPENSSL_realloc_ok:
  assumes "malloc_contract malloc" and "OPENSSL_realloc malloc orig n = Some m" and "unat n < 2 ^ 64 - 8"
  shows "length m = unat n" and "unat n + 8 < 2 ^ 63"
    and "orig = Some old \<Longrightarrow> k \<le> length old \<Longrightarrow> k \<le> unat n \<Longrightarrow> take k m = take k old"
proof -
  obtain r where "OPENSSL_malloc malloc n = Some r"
    using assms(2) by (auto simp: OPENSSL_realloc_def split: option.splits)
  note r = this OPENSSL_malloc_ok [OF assms(1) this assms(3)]
  show "unat n + 8 < 2 ^ 63" by (rule r)
  show "length m = unat n"
    using assms(2) r by (auto simp: OPENSSL_realloc_def Let_def split: option.splits if_splits)
  show "orig = Some old \<Longrightarrow> k \<le> length old \<Longrightarrow> k \<le> unat n \<Longrightarrow> take k m = take k old"
    using assms(2) r by (auto simp: OPENSSL_realloc_def Let_def split: option.splits if_splits)
qed

definition buffer_ok :: "cbb_buffer \<Rightarrow> bool" where
  "buffer_ok b \<longleftrightarrow> \<not> berror b \<and> blen b \<le> cap b \<and> unat (cap b) < 2 ^ 63 \<and>
     (can_resize b \<longrightarrow> unat (cap b) + 8 < 2 ^ 63) \<and>
     (case buf b of None \<Rightarrow> cap b = 0 | Some m \<Rightarrow> length m = unat (cap b))"

definition contents :: "cbb_buffer \<Rightarrow> bytes" where
  "contents b = (case buf b of None \<Rightarrow> [] | Some m \<Rightarrow> take (unat (blen b)) m)"

lemma contents_length: "buffer_ok b \<Longrightarrow> length (contents b) = unat (blen b)"
  by (auto simp: buffer_ok_def contents_def word_le_nat_alt split: option.splits)

lemma buffer_ok_len: "buffer_ok b \<Longrightarrow> unat (blen b) < 2 ^ 63"
  unfolding buffer_ok_def word_le_nat_alt by linarith

lemma reserve_ok:
  assumes ok: "buffer_ok b" and malloc: "malloc_contract malloc" and n: "unat n < 2 ^ 63"
    and r: "cbb_buffer_reserve malloc b n = (Some out, b')"
  shows "out = blen b" "blen b' = blen b" "contents b' = contents b" "buffer_ok b'"
    and "unat (blen b) + unat n \<le> unat (cap b')" and "can_resize b' = can_resize b"
proof -
  have nl: "unat (blen b + n) = unat (blen b) + unat n"
    using buffer_ok_len [OF ok] n by (simp add: unat_word_ariths)
  have "out = blen b \<and> blen b' = blen b \<and> contents b' = contents b \<and> buffer_ok b' \<and>
    unat (blen b) + unat n \<le> unat (cap b') \<and> can_resize b' = can_resize b"
  proof (cases "blen b + n > cap b")
    case False
    moreover have "\<not> blen b + n < blen b" using nl by (simp add: word_less_nat_alt)
    ultimately have "cbb_buffer_reserve malloc b n = (Some (blen b), b)"
      by (simp add: cbb_buffer_reserve_def)
    moreover have "unat (blen b) + unat n \<le> unat (cap b)"
      using False nl by (simp add: word_le_nat_alt not_less)
    ultimately show ?thesis using r ok by auto
  next
    case True
    define newcap where "newcap = (if cap b * 2 < cap b \<or> cap b * 2 < blen b + n then blen b + n else cap b * 2)"
    from r True obtain m where m: "OPENSSL_realloc malloc (buf b) newcap = Some m"
      and res: "out = blen b" "b' = b\<lparr>buf := Some m, cap := newcap\<rparr>" "can_resize b"
      unfolding cbb_buffer_reserve_def Let_def newcap_def [symmetric] by (auto split: if_splits option.splits)
    have cap: "unat (cap b) + 8 < 2 ^ 63" using ok res by (simp add: buffer_ok_def)
    then have c2: "unat (cap b * 2) = unat (cap b) * 2" by (simp add: unat_word_ariths)
    have bl: "unat (blen b) \<le> unat (cap b)" using ok by (simp add: buffer_ok_def word_le_nat_alt)
    have nc: "unat newcap < 2 ^ 64 - 8" "unat (blen b) + unat n \<le> unat newcap"
      using cap c2 nl n bl by (auto simp: newcap_def word_less_nat_alt)
    note ro = OPENSSL_realloc_ok [OF malloc m nc(1)]
    have "contents b' = contents b"
    proof (cases "buf b")
      case None
      then show ?thesis using ok bl by (simp add: buffer_ok_def contents_def res)
    next
      case (Some old)
      then show ?thesis
        using ro(3) [of old "unat (blen b)"] ok bl nc by (simp add: buffer_ok_def contents_def res)
    qed
    moreover have "buffer_ok b'"
      using ok ro nc unfolding buffer_ok_def word_le_nat_alt by (simp add: res)
    ultimately show ?thesis using nc by (simp add: res)
  qed
  then show "out = blen b" "blen b' = blen b" "contents b' = contents b" "buffer_ok b'"
    "unat (blen b) + unat n \<le> unat (cap b')" "can_resize b' = can_resize b" by auto
qed

lemma length_mem_put [simp]: "off + length xs \<le> length m \<Longrightarrow> length (mem_put m off xs) = length m"
  by (simp add: mem_put_def)

lemma buf_put_sel [simp]:
  "blen (buf_put b off xs) = blen b" "cap (buf_put b off xs) = cap b"
  "can_resize (buf_put b off xs) = can_resize b" "berror (buf_put b off xs) = berror b"
  by (simp_all add: buf_put_def)

lemma take_mem_put:
  assumes "off + length xs \<le> n" "n \<le> length m"
  shows "take n (mem_put m off xs) = mem_put (take n m) off xs"
proof -
  have "min n off = off" "min (length m) off = off" "length xs \<le> n - off" using assms by auto
  then show ?thesis using assms by (simp add: mem_put_def drop_take add.commute)
qed

lemma contents_buf_put:
  assumes "buffer_ok b" and "unat off + length xs \<le> unat (blen b)"
  shows "contents (buf_put b off xs) = mem_put (contents b) (unat off) xs" and "buffer_ok (buf_put b off xs)"
proof -
  have "contents (buf_put b off xs) = mem_put (contents b) (unat off) xs \<and> buffer_ok (buf_put b off xs)"
  proof (cases "buf b")
    case None
    then have "blen b = 0" using assms(1) by (auto simp: buffer_ok_def word_le_nat_alt unsigned_eq_0_iff)
    then show ?thesis using assms None
      by (simp add: contents_def buf_put_def mem_put_def buffer_ok_def)
  next
    case (Some m)
    then have "unat (blen b) \<le> length m" "length m = unat (cap b)"
      using assms(1) by (auto simp: buffer_ok_def word_le_nat_alt)
    then show ?thesis using Some assms
      by (simp add: contents_def buf_put_def buffer_ok_def take_mem_put)
  qed
  then show "contents (buf_put b off xs) = mem_put (contents b) (unat off) xs" and "buffer_ok (buf_put b off xs)"
    by auto
qed

text \<open>Appending: claim the space, then store into it.\<close>

lemma buffer_add_ok:
  assumes ok: "buffer_ok b" and malloc: "malloc_contract malloc" and n: "unat n < 2 ^ 63"
    and r: "cbb_buffer_add malloc b n = (Some out, b')"
  shows "out = blen b" "buffer_ok b'" "blen b' = blen b + n" "unat (blen b') = unat (blen b) + unat n"
    "take (unat (blen b)) (contents b') = contents b"  "can_resize b' = can_resize b"
proof -
  obtain b1 where b1: "cbb_buffer_reserve malloc b n = (Some out, b1)" and b': "b' = b1\<lparr>blen := blen b1 + n\<rparr>"
    using r by (auto simp: cbb_buffer_add_def split: prod.splits option.splits)
  note ro = reserve_ok [OF ok malloc n b1]
  have nl: "unat (blen b + n) = unat (blen b) + unat n"
    using buffer_ok_len [OF ok] n by (simp add: unat_word_ariths)
  show "out = blen b" "blen b' = blen b + n" "can_resize b' = can_resize b" using ro by (simp_all add: b')
  show "unat (blen b') = unat (blen b) + unat n" using ro nl by (simp add: b')
  show "buffer_ok b'" using ro nl by (simp add: b' buffer_ok_def word_le_nat_alt split: option.splits)
  show "take (unat (blen b)) (contents b') = contents b"
    unfolding ro(3) [symmetric] using ro(2) nl by (auto simp: contents_def b' split: option.splits)
qed

lemma mem_put_append: "length m = off + length xs \<Longrightarrow> mem_put m off xs = take off m @ xs"
  by (simp add: mem_put_def)

lemma buffer_append_ok:
  assumes "buffer_ok b" "malloc_contract malloc" "unat n < 2 ^ 63"
    and "cbb_buffer_add malloc b n = (Some out, b')" and "length xs = unat n"
  shows "contents (buf_put b' out xs) = contents b @ xs" "buffer_ok (buf_put b' out xs)"
    "can_resize (buf_put b' out xs) = can_resize b"
proof -
  note a = buffer_add_ok [OF assms(1-4)]
  have le: "unat out + length xs \<le> unat (blen b')" using a assms(5) by simp
  show "contents (buf_put b' out xs) = contents b @ xs"
    unfolding contents_buf_put(1) [OF a(2) le]
    using a assms(5) contents_length [OF a(2)] by (simp add: mem_put_append)
  show "buffer_ok (buf_put b' out xs)" by (rule contents_buf_put [OF a(2) le])
  show "can_resize (buf_put b' out xs) = can_resize b" using a by simp
qed

lemma store_be_eq:
  "store_be n v = (be_enc n (unat v), of_nat (unat v div 256 ^ n))"
proof (induction n arbitrary: v)
  case (Suc n)
  have "unat (drop_bit 8 v) = unat v div 256" by (simp add: unat_drop_bit)
  moreover have "(ucast v :: u8) = of_nat (unat v)" by (simp only: word_unat_eq_iff unat_ucast_down unat_of_nat)
  ultimately show ?case using Suc.IH [of "drop_bit 8 v"] by (simp add: div_mult2_eq)
qed (simp add: word_of_unat)

lemma of_nat_eq_0_small: "k < 2 ^ 64 \<Longrightarrow> (of_nat k :: u64) = 0 \<longleftrightarrow> k = 0"
  using unat_of_nat_lt [of k, where 'a = 64] by (auto simp del: of_nat_0_eq_iff dest: arg_cong [of _ _ unat])

lemma store_be_left: "snd (store_be n v) = 0 \<longleftrightarrow> unat v < 256 ^ n"
proof -
  have "unat v div 256 ^ n < 2 ^ 64"
    by (rule le_less_trans [OF div_le_dividend]) (use unsigned_less [of v] in simp)
  then show ?thesis by (simp add: store_be_eq of_nat_eq_0_small div_eq_0_iff)
qed

lemma buffer_add_u_ok:
  assumes "buffer_ok b" "malloc_contract malloc" "unat k < 2 ^ 63" "k \<noteq> 0"
    and r: "cbb_buffer_add_u malloc b v k = (True, b')"
  shows "contents b' = contents b @ be_enc (unat k) (unat v)" "buffer_ok b'" "unat v < 256 ^ unat k"
    "can_resize b' = can_resize b"
proof -
  obtain out b1 where b1: "cbb_buffer_add malloc b k = (Some out, b1)"
      and s: "snd (store_be (unat k) v) = 0" "b' = buf_put b1 out (fst (store_be (unat k) v))"
    using r assms(4) unfolding cbb_buffer_add_u_def Let_def by (auto split: prod.splits option.splits if_splits)
  have l: "length (fst (store_be (unat k) v)) = unat k" by (simp add: store_be_eq)
  note a = buffer_append_ok [OF assms(1-3) b1 l, folded s(2)]
  show "contents b' = contents b @ be_enc (unat k) (unat v)" using a(1) by (simp add: store_be_eq)
  show "buffer_ok b'" "can_resize b' = can_resize b" using a by auto
  show "unat v < 256 ^ unat k" using s(1) by (simp only: store_be_left)
qed

section \<open>The abstract builder: a stack of open strings\<close>

datatype prefix = Fixed nat | DerLength

type_synonym builder = "bytes \<times> (prefix \<times> bytes) list"

fun plen :: "prefix \<Rightarrow> nat" where
  "plen (Fixed n) = n"
| "plen DerLength = 1"

fun prefix_ok :: "prefix \<Rightarrow> bool" where
  "prefix_ok (Fixed n) \<longleftrightarrow> 1 \<le> n \<and> n \<le> 3"
| "prefix_ok DerLength \<longleftrightarrow> True"

text \<open>The length prefix of a string of \<^verbatim>\<open>n\<close> bytes, if it has one.\<close>

fun prefix_enc :: "prefix \<Rightarrow> nat \<Rightarrow> bytes option" where
  "prefix_enc (Fixed k) n = (if n < 256 ^ k then Some (be_enc k n) else None)"
| "prefix_enc DerLength n = (if n \<le> 0xfffffffe then Some (len_octets n) else None)"

text \<open>Close every string of the stack, innermost first.\<close>

fun close_all :: "bytes \<Rightarrow> (prefix \<times> bytes) list \<Rightarrow> bytes option" where
  "close_all p [] = Some p"
| "close_all p ((k, q) # ls) =
     (case close_all q ls of
        None \<Rightarrow> None
      | Some c \<Rightarrow> map_option (\<lambda>h. p @ h @ c) (prefix_enc k (length c)))"

text \<open>How the stack lies in memory: placeholders of zero bytes for the prefixes.\<close>

fun flat :: "bytes \<Rightarrow> (prefix \<times> bytes) list \<Rightarrow> bytes" where
  "flat p [] = p"
| "flat p ((k, q) # ls) = flat (p @ replicate (plen k) 0 @ q) ls"

fun frames :: "bytes \<Rightarrow> (prefix \<times> bytes) list \<Rightarrow> cbb_frame list" where
  "frames p [] = []"
| "frames p ((k, q) # ls) =
     \<lparr>offset = of_nat (length p), pending_len_len = of_nat (plen k), pending_is_asn1 = (k = DerLength)\<rparr>
     # frames (p @ replicate (plen k) 0 @ q) ls"

lemma close_all_append: "close_all (a @ p) ls = map_option ((@) a) (close_all p ls)"
  by (cases "(a @ p, ls)" rule: close_all.cases) (auto split: option.splits simp: option.map_comp comp_def)

lemma flat_append: "flat (a @ p) ls = a @ flat p ls"
  by (induction p ls arbitrary: a rule: flat.induct) simp_all

lemma flat_length: "length p \<le> length (flat p ls)"
  using flat_append [of p "[]" ls] by simp

lemma length_frames [simp]: "length (frames p ls) = length ls"
  by (induction p ls rule: flat.induct) simp_all

lemma asn1_len_len_eq:
  assumes "unat n \<le> 0xfffffffe"
  shows "asn1_len_len n =
    (if unat n < 128 then (1, of_nat (unat n), 0)
     else (of_nat (1 + len_bytes (unat n)), of_nat (0x80 + len_bytes (unat n)), n))"
proof -
  have "(ucast n :: u8) = of_nat (unat n)" by (simp only: word_unat_eq_iff unat_ucast_down unat_of_nat)
  then show ?thesis by (auto simp: asn1_len_len_def len_bytes_def word_less_nat_alt not_less)
qed

lemma mem_move_up:
  "length z \<le> length c \<Longrightarrow>
    mem_move (p @ c @ z) (length p + length z) (length p) (length c) = p @ take (length z) c @ c"
  by (simp add: mem_move_def)

lemma take_mem_move:
  assumes "d + n \<le> k" "s + n \<le> k" "k \<le> length m"
  shows "take k (mem_move m d s n) = mem_move (take k m) d s n"
proof -
  have "min k d = d" "min (length m) d = d" "take n (drop s (take k m)) = take n (drop s m)"
    using assms by (auto simp: take_drop)
  moreover have "take (k - d) (take n (drop s m) @ drop (d + n) m) = take n (drop s m) @ take (k - (d + n)) (drop (d + n) m)"
    using assms by (simp add: diff_diff_eq)
  ultimately show ?thesis using assms by (simp add: mem_move_def drop_take)
qed

lemma mem_put_mid: "length x' = length x \<Longrightarrow> mem_put (p @ x @ y) (length p) x' = p @ x' @ y"
  by (simp add: mem_put_def)

lemma contents_mem_move:
  assumes "buffer_ok b" "d + n \<le> unat (blen b)" "s + n \<le> unat (blen b)"
  shows "contents (b\<lparr>buf := map_option (\<lambda>m. mem_move m d s n) (buf b)\<rparr>) = mem_move (contents b) d s n"
    "buffer_ok (b\<lparr>buf := map_option (\<lambda>m. mem_move m d s n) (buf b)\<rparr>)"
proof -
  have "contents (b\<lparr>buf := map_option (\<lambda>m. mem_move m d s n) (buf b)\<rparr>) = mem_move (contents b) d s n \<and>
    buffer_ok (b\<lparr>buf := map_option (\<lambda>m. mem_move m d s n) (buf b)\<rparr>)"
  proof (cases "buf b")
    case None
    then have "blen b = 0" using assms(1) by (auto simp: buffer_ok_def word_le_nat_alt unsigned_eq_0_iff)
    then show ?thesis using assms None
      by (simp add: contents_def buffer_ok_def mem_move_def)
  next
    case (Some m)
    then have "unat (blen b) \<le> length m" "length m = unat (cap b)"
      using assms(1) by (auto simp: buffer_ok_def word_le_nat_alt)
    then show ?thesis using Some assms
      by (simp add: contents_def buffer_ok_def take_mem_move)
  qed
  then show "contents (b\<lparr>buf := map_option (\<lambda>m. mem_move m d s n) (buf b)\<rparr>) = mem_move (contents b) d s n"
    "buffer_ok (b\<lparr>buf := map_option (\<lambda>m. mem_move m d s n) (buf b)\<rparr>)" by auto
qed

lemma flush_asn1_ok:
  assumes ok: "buffer_ok b" and malloc: "malloc_contract malloc"
    and c: "contents b = p @ [0] @ c" and off: "offset f = of_nat (length p)"
    and r: "flush_asn1 malloc f b (of_nat (length p + 1)) (of_nat (length c)) = (Some (f', n'), b')"
  shows "length c \<le> 0xfffffffe \<and>
    buffer_ok (buf_put b' (offset f') (be_enc (unat (pending_len_len f')) (unat n'))) \<and>
    contents (buf_put b' (offset f') (be_enc (unat (pending_len_len f')) (unat n'))) = p @ len_octets (length c) @ c \<and>
    unat n' < 256 ^ unat (pending_len_len f') \<and> can_resize b' = can_resize b"
proof -
  have sz: "length p + 1 + length c = unat (blen b)" "unat (blen b) < 2 ^ 63"
    using contents_length [OF ok] buffer_ok_len [OF ok] c by simp_all
  have nu: "unat (of_nat (length c) :: u64) = length c" using sz by (intro unat_of_nat_lt) simp
  have offu: "unat (of_nat (length p) :: u64) = length p" using sz by (intro unat_of_nat_lt) simp
  have small: "unat (of_nat (length c) :: u64) \<le> 0xfffffffe"
    using r nu by (auto simp: flush_asn1_def word_less_nat_alt split: if_splits)
  note ll = asn1_len_len_eq [OF small, unfolded nu]
  have r': "\<not> of_nat (length c) > (0xfffffffe :: u64)" using small by (simp add: word_less_nat_alt)
  show ?thesis
  proof (cases "length c < 128")
    case True
    then have res: "f' = f\<lparr>offset := offset f + 1, pending_len_len := 0\<rparr>" "n' = 0"
        "b' = buf_put b (of_nat (length p)) [of_nat (length c)]"
      using r r' ll off by (simp_all add: flush_asn1_def Let_def)
    have le: "unat (of_nat (length p) :: u64) + length [of_nat (length c) :: u8] \<le> unat (blen b)"
      using sz offu by simp
    have o1: "unat (of_nat (length p) + 1 :: u64) = length p + 1"
      using sz offu by (simp add: unat_word_ariths)
    note put = contents_buf_put [OF ok le]
    have c': "contents b' = p @ [of_nat (length c)] @ c"
      unfolding res put offu c using mem_put_mid [of "[of_nat (length c)]" "[0]" p c] by simp
    have "contents (buf_put b' (offset f') []) = contents b'" "buffer_ok (buf_put b' (offset f') [])"
      using contents_buf_put [of b' "offset f'" "[]"] put(2) o1 sz by (simp_all add: res off mem_put_def)
    then show ?thesis using True c' small nu by (simp add: res len_octets_def)
  next
    case False
    define e where "e = len_bytes (length c)"
    have e: "1 \<le> e" "e \<le> 4" using len_bytes_bounds by (auto simp: e_def)
    define L where "L = (of_nat (1 + e) :: u8)"
    have e8: "unat (of_nat e :: u8) = e" using e by (intro unat_of_nat_lt) simp
    have L1: "L - 1 = of_nat e" by (simp add: L_def)
    have L2: "(ucast (of_nat e :: u8) :: u64) = of_nat e"
      by (rule eq_of_natI) (use e8 in \<open>simp add: unat_ucast_up\<close>)
    have L3: "L \<noteq> 1" using L1 e8 e by auto
    have e64u: "unat (of_nat e :: u64) = e" using e by (intro unat_of_nat_lt) simp
    have llL: "asn1_len_len (of_nat (length c)) = (L, of_nat (0x80 + e), of_nat (length c))"
      unfolding L_def e_def ll using False by simp
    have pe: "unat (of_nat (length p + 1) + of_nat e :: u64) = length p + 1 + e"
        "unat (of_nat (length p + 1) :: u64) = length p + 1"
      using sz e by (simp_all only: unat_word_ariths unat_of_nat) simp_all
    note fl = r [unfolded flush_asn1_def Let_def llL prod.case L1 L2 pe nu]
    obtain out b1 where b1: "cbb_buffer_add malloc b (of_nat e) = (Some out, b1)"
      using fl r' L3 by (auto split: prod.splits option.splits)
    let ?b2 = "b1\<lparr>buf := map_option (\<lambda>m. mem_move m (length p + 1 + e) (length p + 1) (length c)) (buf b1)\<rparr>"
    have res: "f' = f\<lparr>offset := offset f + 1, pending_len_len := of_nat e\<rparr>" "n' = of_nat (length c)"
        "b' = buf_put ?b2 (of_nat (length p)) [of_nat (0x80 + e)]"
      using fl r' L3 b1 by (simp_all add: off)
    have n63: "unat (of_nat e :: u64) < 2 ^ 63" using e e64u by simp
    note add = buffer_add_ok [OF ok malloc n63 b1]
    have bl: "unat (blen b1) = length p + 1 + length c + e" using add(4) sz e64u by simp
    have ec: "e \<le> length c"
      using False e by (simp add: e_def len_bytes_def split: if_splits)
    define z where "z = drop (unat (blen b)) (contents b1)"
    have z: "contents b1 = (p @ [0]) @ c @ z" "length z = e"
      using add(5) c contents_length [OF add(2)] bl sz append_take_drop_id [of "unat (blen b)" "contents b1"]
      by (simp_all add: z_def)
    have fit: "length p + 1 + e + length c \<le> unat (blen b1)" "length p + 1 + length c \<le> unat (blen b1)"
      using bl by simp_all
    note mv = contents_mem_move [OF add(2) fit]
    have c2: "contents ?b2 = (p @ [0]) @ take e c @ c"
      using mem_move_up [of z c "p @ [0]"] z ec unfolding mv by simp
    have le: "unat (of_nat (length p) :: u64) + length [of_nat (0x80 + e) :: u8] \<le> unat (blen ?b2)"
      using offu bl by simp
    note put = contents_buf_put [OF mv(2) le]
    have c': "contents b' = p @ [of_nat (0x80 + e)] @ take e c @ c"
      unfolding res put offu c2 using mem_put_mid [of "[of_nat (0x80 + e)]" "[0]" p "take e c @ c"] by simp
    have o1: "unat (offset f') = length (p @ [of_nat (0x80 + e) :: u8])"
      using sz offu by (simp add: unat_word_ariths res off)
    have fe: "unat (pending_len_len f') = e" using e8 unfolding res by simp
    have le2: "unat (offset f') + length (be_enc e (length c)) \<le> unat (blen b')"
      using o1 bl ec by (simp add: res)
    note put2 = contents_buf_put [OF put(2) [folded res(3)] le2]
    have "contents (buf_put b' (offset f') (be_enc e (length c)))
        = (p @ [of_nat (0x80 + e)]) @ be_enc e (length c) @ c"
      unfolding put2(1) c' o1
      using mem_put_mid [of "be_enc e (length c)" "take e c" "p @ [of_nat (0x80 + e)]" c] ec by simp
    moreover have "length c < 256 ^ e"
      using small nu unfolding e_def by (intro len_bytes_lt) simp
    moreover have "can_resize b' = can_resize b" using add(6) by (simp add: res)
    ultimately show ?thesis
      using False small put2(2) nu unfolding fe res(2) nu by (simp add: len_octets_def e_def)
  qed
qed

lemma flush_frames_ok:
  assumes "flush_frames malloc (frames p ls) b = (True, fs, b')"
    and "buffer_ok b" "malloc_contract malloc" "contents b = flat p ls" "\<forall>(k, q) \<in> set ls. prefix_ok k"
  shows "fs = [] \<and> buffer_ok b' \<and> close_all p ls = Some (contents b') \<and> can_resize b' = can_resize b"
  using assms(1,4,5)
proof (induction p ls arbitrary: fs b' rule: flat.induct)
  case (1 p)
  then show ?case using assms(2) by auto
next
  case (2 p k q ls)
  let ?f = "\<lparr>offset = of_nat (length p), pending_len_len = of_nat (plen k), pending_is_asn1 = (k = DerLength)\<rparr>"
  let ?z = "replicate (plen k) (0::u8)"
  have pk: "prefix_ok k" and pks: "\<forall>(k, q) \<in> set ls. prefix_ok k" using 2 by auto
  have pl: "1 \<le> plen k" "plen k \<le> 3" using pk by (cases k; simp)+
  then have plu: "unat (of_nat (plen k) :: u8) = plen k" by (intro unat_of_nat_lt) simp
  have pz: "(of_nat (plen k) :: u8) \<noteq> 0" using plu pl by auto
  obtain fs1 b1 where f1: "flush_frames malloc (frames (p @ ?z @ q) ls) b = (True, fs1, b1)"
    using "2.prems"(1) pz assms(2)
    by (auto simp: Let_def split: prod.splits bool.splits if_splits)
  obtain c where c: "close_all q ls = Some c" "contents b1 = p @ ?z @ c" and ok1: "buffer_ok b1" "fs1 = []"
      "can_resize b1 = can_resize b"
  proof -
    have "fs1 = []" "buffer_ok b1" "can_resize b1 = can_resize b"
        "map_option ((@) (p @ ?z)) (close_all q ls) = Some (contents b1)"
      using "2.IH" [OF f1] "2.prems"(2) pks close_all_append [of "p @ ?z" q ls] by auto
    then show ?thesis using that by (cases "close_all q ls") auto
  qed
  have lc: "length p + plen k + length c = unat (blen b1)" "unat (blen b1) < 2 ^ 63"
    using contents_length [OF ok1(1)] buffer_ok_len [OF ok1(1)] c(2) by simp_all
  have cs: "of_nat (length p) + ucast (of_nat (plen k) :: u8) = (of_nat (length p + plen k) :: u64)"
    by (rule eq_of_natI) (use lc plu in \<open>simp add: unat_word_ariths unat_ucast_up unat_of_nat\<close>)
  have csu: "unat (of_nat (length p + plen k) :: u64) = length p + plen k"
    using lc by (intro unat_of_nat_lt) simp
  have len: "blen b1 - of_nat (length p + plen k) = of_nat (length c)"
    using lc by (metis add_diff_cancel_left' of_nat_add word_of_unat)
  let ?s = "of_nat (length p + plen k) :: u64"
  have s1: "\<not> ?s < of_nat (length p)" "\<not> blen b1 < ?s"
    using csu lc by (simp_all add: word_less_nat_alt unat_of_nat)
  note eq = "2.prems"(1) [unfolded frames.simps flush_frames.simps Let_def cbb_frame.select_convs f1
      prod.case bool.case cs len]
  show ?case
  proof (cases k)
    case (Fixed n)
    then have "\<not> berror b" using assms(2) by (simp add: buffer_ok_def)
    let ?bs = "fst (store_be n (of_nat (length c)))"
    have nu: "unat (of_nat (length c) :: u64) = length c" using lc by (intro unat_of_nat_lt) simp
    have offu: "unat (of_nat (length p) :: u64) = length p" using lc by (intro unat_of_nat_lt) simp
    from eq s1 pz \<open>\<not> berror b\<close> plu
    have res: "snd (store_be n (of_nat (length c))) = 0" "fs = []" "b' = buf_put b1 (of_nat (length p)) ?bs"
      by (auto simp: Fixed split: prod.splits if_splits)
    have "unat (of_nat (length p) :: u64) + length ?bs \<le> unat (blen b1)"
      using lc offu Fixed by (simp add: store_be_eq)
    note put = contents_buf_put [OF ok1(1) this]
    have "contents b' = p @ be_enc n (length c) @ c"
      unfolding res(3) put offu c(2) Fixed
      using mem_put_mid [of ?bs "replicate n 0" p c] by (simp add: store_be_eq nu)
    moreover have "length c < 256 ^ n" using res(1) nu by (simp only: store_be_left)
    ultimately show ?thesis using put(2) res ok1 c(1) Fixed by simp
  next
    case DerLength
    obtain f' n' b2 where fl: "flush_asn1 malloc ?f b1 (of_nat (length p + 1)) (of_nat (length c)) = (Some (f', n'), b2)"
        and left: "snd (store_be (unat (pending_len_len f')) n') = 0" "fs = []"
          "b' = buf_put b2 (offset f') (fst (store_be (unat (pending_len_len f')) n'))"
    proof -
      have "\<not> berror b" using assms(2) by (simp add: buffer_ok_def)
      then show ?thesis using that eq s1 pz
        by (auto simp: DerLength split: prod.splits if_splits option.splits)
    qed
    have "contents b1 = p @ [0] @ c" using c(2) DerLength by simp
    from flush_asn1_ok [OF ok1(1) assms(3) this _ fl] left ok1
    show ?thesis using c(1) DerLength by (simp add: store_be_eq)
  qed
qed

end
