(* ===== verification/CbbOps.thy ===== *)
theory CbbOps
  imports CbbSpec
begin

text \<open>
  The operations of the builder refine operations on the stack of open strings: \<^verbatim>\<open>close_to d\<close> (flush
  the object at depth \<^verbatim>\<open>d\<close>), \<^verbatim>\<open>put d x\<close> (flush, then append) and \<^verbatim>\<open>push\<close> (open a child). From that, whole
  elements (\<^verbatim>\<open>refines_uint64\<close>, \<^verbatim>\<open>refines_int64\<close>, \dots) and any nesting of them (\<^verbatim>\<open>emit_ok\<close>) are written
  as their encoding.
\<close>

section \<open>Operations on the abstract builder\<close>

fun close_to :: "nat \<Rightarrow> builder \<Rightarrow> builder option" where
  "close_to 0 (p, ls) = map_option (\<lambda>c. (c, [])) (close_all p ls)"
| "close_to (Suc d) (p, []) = None"
| "close_to (Suc d) (p, (k, q) # ls) = map_option (\<lambda>(q', ls'). (p, (k, q') # ls')) (close_to d (q, ls))"

fun top_append :: "bytes \<Rightarrow> builder \<Rightarrow> builder" where
  "top_append x (p, []) = (p @ x, [])"
| "top_append x (p, (k, q) # ls) = (case top_append x (q, ls) of (q', ls') \<Rightarrow> (p, (k, q') # ls'))"

definition push :: "prefix \<Rightarrow> builder \<Rightarrow> builder" where
  "push k B = (fst B, snd B @ [(k, [])])"

definition put :: "nat \<Rightarrow> bytes \<Rightarrow> builder \<Rightarrow> builder option" where
  "put d x B = map_option (top_append x) (close_to d B)"

text \<open>The state of the code that a builder describes.\<close>

definition represents :: "builder \<Rightarrow> CBB \<Rightarrow> bool" where
  "represents B cbb \<longleftrightarrow>
     (\<exists>b. base cbb = Some b \<and> buffer_ok b \<and> contents b = flat (fst B) (snd B) \<and>
       chain cbb = frames (fst B) (snd B) \<and> (\<forall>(k, q) \<in> set (snd B). prefix_ok k))"

definition refines :: "(CBB \<Rightarrow> bool \<times> CBB) \<Rightarrow> (builder \<Rightarrow> builder option) \<Rightarrow> bool" where
  "refines f F \<longleftrightarrow>
     (\<forall>B cbb cbb'. represents B cbb \<longrightarrow> f cbb = (True, cbb') \<longrightarrow> (\<exists>B'. F B = Some B' \<and> represents B' cbb'))"

lemma refinesD:
  assumes "refines f F" "represents B cbb" "f cbb = (True, cbb')"
  obtains B' where "F B = Some B'" "represents B' cbb'"
  using assms unfolding refines_def by blast

lemma and_then_True: "and_then f g s = (True, s'') \<longleftrightarrow> (\<exists>s'. f s = (True, s') \<and> g s' = (True, s''))"
  by (auto simp: and_then_def split: prod.splits bool.splits)

lemma refines_and_then:
  assumes "refines f F" "refines g G"
  shows "refines (and_then f g) (\<lambda>B. Option.bind (F B) G)"
  unfolding refines_def and_then_True using assms unfolding refines_def by (metis bind.bind_lunit)

lemma refines_weaken: "refines f F \<Longrightarrow> (\<And>B B'. F B = Some B' \<Longrightarrow> G B = Some B') \<Longrightarrow> refines f G"
  unfolding refines_def by metis

section \<open>Memory layout of the stack\<close>

definition shift :: "nat \<Rightarrow> cbb_frame \<Rightarrow> cbb_frame" where
  "shift n f = f\<lparr>offset := of_nat n + offset f\<rparr>"

lemma frames_append: "frames (a @ p) ls = map (shift (length a)) (frames p ls)"
  by (induction p ls arbitrary: a rule: flat.induct) (simp_all add: shift_def)

lemma frames_drop: "d \<le> length ls \<Longrightarrow> drop d (frames p ls) = frames (flat p (take d ls)) (drop d ls)"
proof (induction d arbitrary: p ls)
  case (Suc d)
  then show ?case by (cases ls) auto
qed simp

lemma flat_drop: "d \<le> length ls \<Longrightarrow> flat (flat p (take d ls)) (drop d ls) = flat p ls"
proof (induction d arbitrary: p ls)
  case (Suc d)
  then show ?case by (cases ls) auto
qed simp

lemma close_to_flat:
  assumes "d \<le> length ls" "close_all (flat p (take d ls)) (drop d ls) = Some c"
  shows "\<exists>p' ls'. close_to d (p, ls) = Some (p', ls') \<and> length ls' = d \<and> flat p' ls' = c \<and>
    frames p' ls' = take d (frames p ls) \<and> map fst ls' = take d (map fst ls)"
  using assms
proof (induction d arbitrary: p ls c)
  case (Suc d)
  then obtain k q ls1 where ls: "ls = (k, q) # ls1" by (cases ls) auto
  let ?a = "p @ replicate (plen k) 0"
  have "close_all (?a @ flat q (take d ls1)) (drop d ls1) = Some c"
    using Suc.prems(2) flat_append [of ?a q "take d ls1"] by (simp add: ls)
  then obtain c1 where c1: "close_all (flat q (take d ls1)) (drop d ls1) = Some c1" "c = ?a @ c1"
    by (auto simp: close_all_append simp del: append_assoc)
  from Suc.IH [OF _ c1(1)] Suc.prems(1) obtain q' ls' where
    ih: "close_to d (q, ls1) = Some (q', ls')" "length ls' = d" "flat q' ls' = c1"
      "frames q' ls' = take d (frames q ls1)" "map fst ls' = take d (map fst ls1)" by (auto simp: ls)
  show ?case
    using ih c1(2) flat_append [of ?a q' ls'] frames_append [of ?a q' ls'] frames_append [of ?a q ls1]
    by (simp add: ls take_map)
qed auto

lemma close_to_closed: "length (snd B) = d \<Longrightarrow> close_to d B = Some B"
proof (induction d arbitrary: B)
  case 0
  then show ?case by (cases B) simp
next
  case (Suc d)
  then obtain p k q ls where "B = (p, (k, q) # ls)" "length ls = d"
    by (cases B; cases "snd B") auto
  then show ?case using Suc.IH [of "(q, ls)"] by simp
qed

lemma close_to_length: "close_to d B = Some B' \<Longrightarrow> length (snd B') = d"
proof (induction d B arbitrary: B' rule: close_to.induct)
  case (3 d p k q ls)
  then obtain C where "close_to d (q, ls) = Some C" "B' = (p, (k, fst C) # snd C)"
    by (auto split: prod.splits)
  then show ?case using "3.IH" by simp
qed auto

lemma top_append_layout:
  assumes "top_append x (p, ls) = (p', ls')"
  shows "flat p' ls' = flat p ls @ x \<and> frames p' ls' = frames p ls \<and> map fst ls' = map fst ls"
  using assms
proof (induction ls arbitrary: p p' ls')
  case (Cons kq ls)
  obtain k q where kq: "kq = (k, q)" by (cases kq)
  obtain q' ls1 where r: "top_append x (q, ls) = (q', ls1)" by (cases "top_append x (q, ls)")
  then have e: "p' = p" "ls' = (k, q') # ls1" using Cons.prems kq by auto
  let ?a = "p @ replicate (plen k) 0"
  from Cons.IH [OF r] show ?case
    using flat_append [of ?a q' ls1] flat_append [of ?a q ls] frames_append [of ?a q' ls1] frames_append [of ?a q ls]
    by (simp add: kq e)
qed auto

lemma length_top_append [simp]: "length (snd (top_append x B)) = length (snd B)"
  by (cases "top_append x B"; cases B)
    (auto dest!: top_append_layout intro: map_eq_imp_length_eq)

lemma top_append_append: "top_append y (top_append x B) = top_append (x @ y) B"
  by (induction x B rule: top_append.induct) (auto split: prod.splits)

lemma top_append_Nil [simp]: "top_append [] B = B"
proof -
  have "x = [] \<Longrightarrow> top_append x B = B" for x
    by (induction x B rule: top_append.induct) auto
  then show ?thesis by simp
qed

lemma put_put: "put d x B = Some B' \<Longrightarrow> put d y B' = put d (x @ y) B"
proof -
  assume "put d x B = Some B'"
  then obtain C where C: "close_to d B = Some C" "B' = top_append x C" by (auto simp: put_def)
  then have "length (snd B') = d" using close_to_length [OF C(1)] by simp
  then show ?thesis using C by (simp add: put_def close_to_closed top_append_append)
qed

lemma flat_snoc: "flat p (ls @ [(k, q)]) = flat p ls @ replicate (plen k) 0 @ q"
  by (induction p ls rule: flat.induct) auto

lemma frames_snoc:
  "frames p (ls @ [(k, q)]) = frames p ls @
    [\<lparr>offset = of_nat (length (flat p ls)), pending_len_len = of_nat (plen k), pending_is_asn1 = (k = DerLength)\<rparr>]"
  by (induction p ls rule: flat.induct) auto

text \<open>Closing the string just pushed appends its prefix and contents to its parent.\<close>

lemma close_push:
  assumes "length (snd B) = d"
  shows "close_to d (top_append c (push k B)) =
    map_option (\<lambda>h. top_append (h @ c) B) (prefix_enc k (length c))"
  using assms
proof (induction d arbitrary: B)
  case 0
  then show ?case by (cases B) (simp add: push_def option.map_comp comp_def)
next
  case (Suc d)
  then obtain p k' q ls where B: "B = (p, (k', q) # ls)" "length ls = d"
    by (cases B; cases "snd B") auto
  then show ?case using Suc.IH [of "(q, ls)"]
    by (auto simp: push_def option.map_comp comp_def split: prod.splits cong: option.map_cong)
qed

section \<open>Flushing and writing\<close>

lemma refines_flush:
  assumes "malloc_contract malloc"
  shows "refines (CBB_flush malloc d) (close_to d)"
  unfolding refines_def
proof (intro allI impI)
  fix B cbb cbb'
  assume r: "represents B cbb" and f: "CBB_flush malloc d cbb = (True, cbb')"
  obtain p ls where B: "B = (p, ls)" by (cases B)
  obtain b where b: "base cbb = Some b" "buffer_ok b" "contents b = flat p ls" "chain cbb = frames p ls"
      "\<forall>(k, q) \<in> set ls. prefix_ok k"
    using r by (auto simp: represents_def B)
  obtain fs b' where ff: "d \<le> length ls" "flush_frames malloc (drop d (frames p ls)) b = (True, fs, b')"
      "cbb' = \<lparr>base = Some b', chain = take d (frames p ls) @ fs\<rparr>"
    using f b by (auto simp: CBB_flush_def split: if_splits prod.splits)
  note ff2 = ff(2) [unfolded frames_drop [OF ff(1)]]
  have "flat (flat p (take d ls)) (drop d ls) = contents b" using flat_drop [OF ff(1), of p] b(3) by simp
  moreover have "\<forall>(k, q) \<in> set (drop d ls). prefix_ok k" using b(5) by (meson in_set_dropD)
  ultimately have g: "fs = []" "buffer_ok b'" "close_all (flat p (take d ls)) (drop d ls) = Some (contents b')"
    using flush_frames_ok [OF ff2 b(2) assms] by auto
  obtain p' ls' where c: "close_to d (p, ls) = Some (p', ls')" "flat p' ls' = contents b'"
      "frames p' ls' = take d (frames p ls)" "map fst ls' = take d (map fst ls)"
    using close_to_flat [OF ff(1) g(3)] by auto
  have "prefix_ok k" if "(k, q) \<in> set ls'" for k q
  proof -
    have "k \<in> set (take d (map fst ls))" using that c(4) by (metis fst_conv image_eqI list.set_map)
    then show ?thesis using b(5) in_set_takeD by fastforce
  qed
  then have "represents (p', ls') cbb'" using g c ff(3) by (auto simp: represents_def)
  then show "\<exists>B'. close_to d B = Some B' \<and> represents B' cbb'" using c B by blast
qed

text \<open>A buffer operation that appends \<^verbatim>\<open>x\<close>, after the flush.\<close>

lemma represents_append:
  assumes r: "represents B cbb" and b': "buffer_ok b'" and c: "base cbb = Some b" "contents b' = contents b @ x"
  shows "represents (top_append x B) (cbb\<lparr>base := Some b'\<rparr>)"
proof -
  obtain p ls p' ls' where B: "B = (p, ls)" "top_append x B = (p', ls')"
    by (cases B; cases "top_append x B")
  note t = top_append_layout [OF B(2) [unfolded B(1)]]
  have "prefix_ok k" if "(k, q) \<in> set ls'" for k q
  proof -
    have "k \<in> set (map fst ls)" using that t by (metis fst_conv image_eqI list.set_map)
    then show ?thesis using r B by (auto simp: represents_def)
  qed
  then show ?thesis unfolding B(2) using r b' c t B by (auto simp: represents_def)
qed

lemma refines_write:
  assumes "malloc_contract malloc"
    and "\<And>b b'. buffer_ok b \<Longrightarrow> f b = (True, b') \<Longrightarrow> buffer_ok b' \<and> contents b' = contents b @ x"
  shows "refines (and_then (CBB_flush malloc d) (on_base f)) (put d x)"
proof -
  have "refines (on_base f) (\<lambda>B. Some (top_append x B))"
    unfolding refines_def
  proof (intro allI impI)
    fix B cbb cbb'
    assume r: "represents B cbb" and o: "on_base f cbb = (True, cbb')"
    obtain b where b: "base cbb = Some b" "buffer_ok b" using r by (auto simp: represents_def)
    obtain b' where b': "f b = (True, b')" "cbb' = cbb\<lparr>base := Some b'\<rparr>"
      using o b by (auto simp: on_base_def split: prod.splits)
    show "\<exists>B'. Some (top_append x B) = Some B' \<and> represents B' cbb'"
      using represents_append [OF r _ b(1)] assms(2) [OF b(2) b'(1)] b'(2) by auto
  qed
  from refines_and_then [OF refines_flush [OF assms(1)] this] show ?thesis
    by (rule refines_weaken) (auto simp: put_def split: bind_splits)
qed

lemma refines_add_u:
  assumes "malloc_contract malloc" "k \<noteq> 0" "unat k < 2 ^ 63"
  shows "refines (and_then (CBB_flush malloc d) (on_base (\<lambda>b. cbb_buffer_add_u malloc b v k)))
    (put d (be_enc (unat k) (unat v)))"
  using buffer_add_u_ok [OF _ assms(1,3,2)] by (intro refines_write [OF assms(1)]) blast

lemma refines_add_u8: "malloc_contract malloc \<Longrightarrow> refines (CBB_add_u8 malloc d v) (put d [v])"
  using refines_add_u [of malloc 1 d "ucast v"] by (simp add: CBB_add_u8_def [abs_def] unat_ucast_up word_of_unat)

lemma refines_add_u16: "malloc_contract malloc \<Longrightarrow> refines (CBB_add_u16 malloc d v) (put d (be_enc 2 (unat v)))"
  using refines_add_u [of malloc 2 d "ucast v"] by (simp add: CBB_add_u16_def [abs_def] unat_ucast_up)

lemma refines_add_u24: "malloc_contract malloc \<Longrightarrow> refines (CBB_add_u24 malloc d v) (put d (be_enc 3 (unat v)))"
  using refines_add_u [of malloc 3 d "ucast v"] by (simp add: CBB_add_u24_def [abs_def] unat_ucast_up)

lemma refines_add_u32: "malloc_contract malloc \<Longrightarrow> refines (CBB_add_u32 malloc d v) (put d (be_enc 4 (unat v)))"
  using refines_add_u [of malloc 4 d "ucast v"] by (simp add: CBB_add_u32_def [abs_def] unat_ucast_up)

lemma refines_add_u64: "malloc_contract malloc \<Longrightarrow> refines (CBB_add_u64 malloc d v) (put d (be_enc 8 (unat v)))"
  using refines_add_u [of malloc 8 d v] by (simp add: CBB_add_u64_def [abs_def])

lemma refines_add_bytes:
  assumes malloc: "malloc_contract malloc" and "length data < 2 ^ 63"
  shows "refines (CBB_add_bytes malloc d data) (put d data)"
  unfolding CBB_add_bytes_def [abs_def]
proof (rule refines_write [OF malloc])
  fix b b'
  assume ok: "buffer_ok b" and f: "(case cbb_buffer_add malloc b (of_nat (length data)) of
         (None, b') \<Rightarrow> (False, b') | (Some dest, b') \<Rightarrow> (True, buf_put b' dest data)) = (True, b')"
  have n: "unat (of_nat (length data) :: u64) = length data" using assms by (intro unat_of_nat_lt) simp
  obtain dest b1 where b1: "cbb_buffer_add malloc b (of_nat (length data)) = (Some dest, b1)"
      "b' = buf_put b1 dest data"
    using f by (auto split: prod.splits option.splits)
  show "buffer_ok b' \<and> contents b' = contents b @ data"
    using buffer_append_ok [OF ok malloc _ b1(1), of data] n assms b1(2) by simp
qed

lemma refines_add_u8s:
  assumes "malloc_contract malloc"
  shows "bs \<noteq> [] \<Longrightarrow> refines (add_u8s malloc d bs) (put d bs)"
proof (induction bs rule: induct_list012)
  case (2 b)
  have "add_u8s malloc d [b] = CBB_add_u8 malloc d b"
    by (rule ext) (simp add: and_then_def split: prod.splits bool.splits)
  then show ?case using refines_add_u8 [OF assms] by simp
next
  case (3 b b' bs)
  have "add_u8s malloc d (b # b' # bs) = and_then (CBB_add_u8 malloc d b) (add_u8s malloc d (b' # bs))"
    by (rule ext) simp
  moreover have "refines (and_then (CBB_add_u8 malloc d b) (add_u8s malloc d (b' # bs)))
    (\<lambda>B. Option.bind (put d [b] B) (put d (b' # bs)))"
    by (rule refines_and_then [OF refines_add_u8 [OF assms] "3.IH"(2)]) simp
  ultimately show ?case
    by (auto intro: refines_weaken split: bind_splits simp: put_put)
qed simp

lemma base128_len_len_hi: "length (b128_hi (unat v)) = base128_len_len v"
proof (induction v rule: base128_len_len.induct)
  case (1 v)
  show ?case
  proof (cases "v = 0")
    case True
    then show ?thesis by (simp add: base128_len_len.simps)
  next
    case False
    then have "v > 0" "unat v \<noteq> 0" by (auto simp: word_gt_0_no unsigned_eq_0_iff word_neq_0_conv)
    then show ?thesis using 1 by (simp add: base128_len_len.simps [of v] b128_hi.simps [of "unat v"] unat_drop_bit)
  qed
qed

lemma base128_byte_eq:
  "base128_byte v i = of_nat (if i = 0 then unat v mod 128 else 128 + unat v div 128 ^ i mod 128)"
proof -
  let ?w = "drop_bit (7 * i) v AND 0x7f" and ?n = "unat v div 128 ^ i mod 128"
  have "unat ?w = unat (drop_bit (7 * i) v) mod 2 ^ 7"
    using unat_and_mask [of "drop_bit (7 * i) v" 7] by (simp add: mask_eq_exp_minus_1)
  then have w: "unat ?w = ?n" by (simp add: unat_drop_bit power_mult)
  have n: "?n < 128" by simp
  have c: "unat (ucast ?w :: u8) = ?n" using n by (simp only: unat_ucast_down w) simp
  show ?thesis
  proof (cases "i = 0")
    case True
    then show ?thesis using eq_of_natI [OF c] by (simp add: base128_byte_def)
  next
    case False
    have "push_bit 7 (1 :: u8) = 0x80" by (simp add: push_bit_eq_mult)
    then have "unat ((0x80 :: u8) OR ucast ?w) = 128 + ?n"
      using unat_shift_or [of "1 :: u8" 7 "ucast ?w"] c n by simp
    then have "(0x80 :: u8) OR ucast ?w = of_nat (128 + ?n)" by (rule eq_of_natI)
    then show ?thesis using False by (simp add: base128_byte_def or.commute)
  qed
qed

lemma rev_upt_Suc: "rev [0..<Suc m] = map Suc (rev [0..<m]) @ [0]"
  by (simp add: rev_map [symmetric] map_Suc_upt upt_conv_Cons del: upt_Suc)

lemma b128_hi_digits:
  "b128_hi n = map (\<lambda>i. of_nat (128 + n div 128 ^ i mod 128)) (rev [0..<length (b128_hi n)])"
proof (induction n rule: b128_hi.induct)
  case (1 n)
  show ?case
  proof (cases "n = 0")
    case False
    then have "b128_hi n = b128_hi (n div 128) @ [of_nat (128 + n mod 128)]" by (simp add: b128_hi.simps [of n])
    then show ?thesis
      using 1 [OF False] by (simp add: rev_upt_Suc comp_def div_mult2_eq del: upt_Suc of_nat_add)
  qed simp
qed

lemma base128_bytes_eq: "map (base128_byte v) (rev [0..<(if base128_len_len v = 0 then 1 else base128_len_len v)]) =
    b128 (unat v)"
proof -
  define m where "m = length (b128_hi (unat v div 128))"
  have "(if base128_len_len v = 0 then 1 else base128_len_len v) = Suc m"
    unfolding base128_len_len_hi [symmetric] m_def by (simp add: b128_hi.simps [of "unat v"])
  moreover have "b128_hi (unat v div 128) = map (base128_byte v \<circ> Suc) (rev [0..<m])"
    by (subst b128_hi_digits) (simp add: m_def base128_byte_eq div_mult2_eq)
  moreover have "base128_byte v 0 = of_nat (unat v mod 128)" by (simp add: base128_byte_eq)
  ultimately show ?thesis by (simp add: b128_def rev_upt_Suc del: upt_Suc)
qed

lemma refines_add_base128:
  "malloc_contract malloc \<Longrightarrow> refines (add_base128_integer malloc d v) (put d (b128 (unat v)))"
  unfolding add_base128_integer_def Let_def base128_bytes_eq
  by (rule refines_add_u8s) (simp_all add: b128_def)

lemma represents_push:
  assumes "represents B cbb" "prefix_ok k" "length (snd B) = d" "base cbb = Some b"
    and "buffer_ok b'" "contents b' = contents b @ replicate (plen k) 0"
  shows "represents (push k B) \<lparr>base = Some b', chain = take d (chain cbb) @
    [\<lparr>offset = blen b, pending_len_len = of_nat (plen k), pending_is_asn1 = (k = DerLength)\<rparr>]\<rparr>"
proof -
  have b: "buffer_ok b" "contents b = flat (fst B) (snd B)" "chain cbb = frames (fst B) (snd B)"
      "\<forall>(k, q) \<in> set (snd B). prefix_ok k"
    using assms(1,4) by (auto simp: represents_def)
  have "of_nat (length (contents b)) = blen b" using contents_length [OF b(1)] by (simp add: word_of_unat)
  then show ?thesis using b assms
    by (auto simp: represents_def push_def flat_snoc frames_snoc)
qed

lemma refines_length_prefixed:
  assumes malloc: "malloc_contract malloc" and n: "1 \<le> n" "n \<le> 3"
  shows "refines (cbb_add_length_prefixed malloc d (of_nat n)) (\<lambda>B. map_option (push (Fixed n)) (close_to d B))"
  unfolding refines_def cbb_add_length_prefixed_def and_then_True
proof (intro allI impI, elim exE conjE)
  fix B cbb cbb' s
  assume r: "represents B cbb" and fl: "CBB_flush malloc d cbb = (True, s)"
    and w: "(case base s of
          None \<Rightarrow> (False, s)
        | Some b \<Rightarrow>
            (case cbb_buffer_add malloc b (ucast (of_nat n :: u8)) of
               (None, b') \<Rightarrow> (False, s\<lparr>base := Some b'\<rparr>)
             | (Some out, b') \<Rightarrow>
                 (True, \<lparr>base = Some (buf_put b' out (replicate (unat (of_nat n :: u8)) 0)),
                         chain = take d (chain s) @
                           [\<lparr>offset = blen b, pending_len_len = of_nat n, pending_is_asn1 = False\<rparr>]\<rparr>))) = (True, cbb')"
  obtain B1 where B1: "close_to d B = Some B1" "represents B1 s"
    using refinesD [OF refines_flush [OF malloc] r fl] by blast
  obtain b where b: "base s = Some b" "buffer_ok b" using B1(2) by (auto simp: represents_def)
  have n8: "unat (of_nat n :: u8) = n" using n by (intro unat_of_nat_lt) simp
  have n64: "unat (ucast (of_nat n :: u8) :: u64) = n" using n8 by (simp add: unat_ucast_up)
  obtain out b1 where b1: "cbb_buffer_add malloc b (ucast (of_nat n :: u8)) = (Some out, b1)"
      "cbb' = \<lparr>base = Some (buf_put b1 out (replicate n 0)), chain = take d (chain s) @
         [\<lparr>offset = blen b, pending_len_len = of_nat n, pending_is_asn1 = False\<rparr>]\<rparr>"
    using w b n8 by (auto split: prod.splits option.splits)
  have "unat (ucast (of_nat n :: u8) :: u64) < 2 ^ 63" using n n64 by simp
  note a = buffer_append_ok [OF b(2) malloc this b1(1), of "replicate n 0"]
  have "represents (push (Fixed n) B1) cbb'"
    using represents_push [OF B1(2), of "Fixed n" d b "buf_put b1 out (replicate n 0)"] close_to_length [OF B1(1)] a n64 n b b1(2)
    by simp
  then show "\<exists>B'. map_option (push (Fixed n)) (close_to d B) = Some B' \<and> represents B' cbb'"
    using B1(1) by auto
qed

lemma refines_tag:
  assumes "malloc_contract malloc"
  shows "refines (let tag_bits = ucast (drop_bit CBS_ASN1_TAG_SHIFT tag) AND 0xe0 :: u8;
          tag_number = tag AND CBS_ASN1_TAG_NUMBER_MASK in
       (if tag_number \<ge> 0x1f then
          and_then (CBB_add_u8 malloc d (tag_bits OR 0x1f))
            (add_base128_integer malloc d (ucast tag_number))
        else CBB_add_u8 malloc d (tag_bits OR ucast tag_number))) (put d (tag_octets tag))"
proof -
  let ?bits = "ucast (drop_bit 24 tag) AND 0xe0 :: u8" and ?n = "tag AND CBS_ASN1_TAG_NUMBER_MASK"
  have n: "unat ?n = unat tag mod 2 ^ 29" unfolding TAG_NUMBER_MASK_eq by (rule unat_and_mask)
  show ?thesis
  proof (cases "?n \<ge> 0x1f")
    case True
    have "refines (and_then (CBB_add_u8 malloc d (?bits OR 0x1f)) (add_base128_integer malloc d (ucast ?n)))
      (\<lambda>B. Option.bind (put d [?bits OR 0x1f] B) (put d (b128 (unat (ucast ?n :: u64)))))"
      by (intro refines_and_then refines_add_u8 refines_add_base128 assms)
    moreover have "unat (ucast ?n :: u64) = unat tag mod 2 ^ 29" using n by (simp add: unat_ucast_up)
    moreover have "31 \<le> unat tag mod 2 ^ 29" using True n by (simp add: word_le_nat_alt)
    ultimately show ?thesis using True
      by (auto simp: CBS_ASN1_TAG_SHIFT_def tag_octets_def Let_def intro: refines_weaken split: bind_splits simp: put_put)
  next
    case False
    then have lt: "unat tag mod 2 ^ 29 < 31" using n by (simp add: word_le_nat_alt)
    then have "(ucast ?n :: u8) = of_nat (unat tag mod 2 ^ 29)"
      by (intro eq_of_natI) (simp only: unat_ucast_down n, simp)
    then show ?thesis using False lt refines_add_u8 [OF assms, of d "?bits OR ucast ?n"]
      by (simp add: CBS_ASN1_TAG_SHIFT_def tag_octets_def Let_def)
  qed
qed

lemma CBB_flush_closed:
  assumes "represents B cbb" "length (snd B) = d"
  shows "CBB_flush malloc d cbb = (True, cbb)"
  using assms by (auto simp: represents_def CBB_flush_def buffer_ok_def)

lemma add_u8_closed:
  assumes malloc: "malloc_contract malloc" and r: "represents B s" "length (snd B) = d"
    and b: "base s = Some b" and w: "CBB_add_u8 malloc d v s = (True, s')"
  obtains b' where "s' = s\<lparr>base := Some b'\<rparr>" "buffer_ok b'" "contents b' = contents b @ [v]"
proof -
  obtain b' where b': "cbb_buffer_add_u malloc b (ucast v) 1 = (True, b')" "s' = s\<lparr>base := Some b'\<rparr>"
    using w b unfolding CBB_add_u8_def and_then_True CBB_flush_closed [OF r]
    by (auto simp: on_base_def split: prod.splits)
  moreover have "buffer_ok b" using r b by (auto simp: represents_def)
  ultimately show ?thesis
    using that buffer_add_u_ok [OF _ malloc, of b 1 "ucast v" b'] by (simp add: unat_ucast_up word_of_unat)
qed

lemma refines_add_asn1:
  assumes malloc: "malloc_contract malloc"
  shows "refines (CBB_add_asn1 malloc d tag) (\<lambda>B. map_option (push DerLength) (put d (tag_octets tag) B))"
  unfolding refines_def
proof (intro allI impI)
  fix B cbb cbb'
  assume r: "represents B cbb" and w: "CBB_add_asn1 malloc d tag cbb = (True, cbb')"
  let ?tag = "let tag_bits = ucast (drop_bit CBS_ASN1_TAG_SHIFT tag) AND 0xe0 :: u8;
          tag_number = tag AND CBS_ASN1_TAG_NUMBER_MASK in
       (if tag_number \<ge> 0x1f then
          and_then (CBB_add_u8 malloc d (tag_bits OR 0x1f))
            (add_base128_integer malloc d (ucast tag_number))
        else CBB_add_u8 malloc d (tag_bits OR ucast tag_number))"
  obtain s1 s2 where f: "CBB_flush malloc d cbb = (True, s1)" and t: "?tag s1 = (True, s2)"
    and y: "(case base s2 of None \<Rightarrow> (False, s2) | Some b \<Rightarrow>
          and_then (CBB_add_u8 malloc d 0) (\<lambda>cbb'. (True, cbb'\<lparr>chain := take d (chain cbb') @
               [\<lparr>offset = blen b, pending_len_len = 1, pending_is_asn1 = True\<rparr>]\<rparr>)) s2) = (True, cbb')"
    using w unfolding CBB_add_asn1_def Let_def and_then_True by auto
  obtain B1 where B1: "close_to d B = Some B1" "represents B1 s1"
    using refinesD [OF refines_flush [OF malloc] r f] by blast
  have l1: "length (snd B1) = d" by (rule close_to_length [OF B1(1)])
  obtain B2 where B2: "put d (tag_octets tag) B1 = Some B2" "represents B2 s2"
    using refinesD [OF refines_tag [OF malloc] B1(2) t] by blast
  have e: "B2 = top_append (tag_octets tag) B1" using B2(1) l1 by (simp add: put_def close_to_closed)
  then have l2: "length (snd B2) = d" using l1 by simp
  obtain b where b: "base s2 = Some b" using B2(2) by (auto simp: represents_def)
  obtain s3 where s3: "CBB_add_u8 malloc d 0 s2 = (True, s3)"
    and c: "cbb' = s3\<lparr>chain := take d (chain s3) @
               [\<lparr>offset = blen b, pending_len_len = 1, pending_is_asn1 = True\<rparr>]\<rparr>"
    using y unfolding b option.case and_then_True by auto
  obtain b' where b': "s3 = s2\<lparr>base := Some b'\<rparr>" "buffer_ok b'" "contents b' = contents b @ [0]"
    using add_u8_closed [OF malloc B2(2) l2 b s3] by blast
  have "cbb' = \<lparr>base = Some b', chain = take d (chain s2) @
    [\<lparr>offset = blen b, pending_len_len = of_nat (plen DerLength), pending_is_asn1 = (DerLength = DerLength)\<rparr>]\<rparr>"
    using c b' by (cases s2) simp
  then have "represents (push DerLength B2) cbb'"
    using represents_push [OF B2(2) _ l2 b b'(2), of DerLength] b'(3) by simp
  then show "\<exists>B'. map_option (push DerLength) (put d (tag_octets tag) B) = Some B' \<and> represents B' cbb'"
    using B1 e by (simp add: put_def)
qed

section \<open>Whole elements\<close>

text \<open>Opening a child, writing into it and flushing its parent writes one element.\<close>

lemma element_written:
  assumes "put d h B = Some B1" "put (Suc d) c (push k B1) = Some B2" "close_to d B2 = Some B3"
  shows "\<exists>x. prefix_enc k (length c) = Some x \<and> put d (h @ x @ c) B = Some B3"
proof -
  obtain C where C: "close_to d B = Some C" "B1 = top_append h C" using assms(1) by (auto simp: put_def)
  have l: "length (snd B1) = d" using C close_to_length by simp
  then have "length (snd (push k B1)) = Suc d" by (simp add: push_def)
  then have B2: "B2 = top_append c (push k B1)" using assms(2) by (simp add: put_def close_to_closed)
  have "map_option (\<lambda>x. top_append (x @ c) B1) (prefix_enc k (length c)) = Some B3"
    using assms(3) close_push [OF l, of c k] by (simp add: B2)
  then show ?thesis using C by (auto simp: put_def top_append_append)
qed

definition writes :: "nat \<Rightarrow> (CBB \<Rightarrow> bool \<times> CBB) \<Rightarrow> bytes \<Rightarrow> bool" where
  "writes d f c \<longleftrightarrow> (\<forall>B s s'. represents B s \<longrightarrow> length (snd B) = d \<longrightarrow> f s = (True, s') \<longrightarrow>
     represents (top_append c B) s')"

lemma refines_writes: "refines f (put d c) \<Longrightarrow> writes d f c"
  unfolding refines_def writes_def by (fastforce simp: put_def close_to_closed)

lemma refines_child_element:
  assumes "malloc_contract malloc" "refines open (\<lambda>B. map_option (push k) (put d h B))" "writes (Suc d) body c"
  shows "refines (and_then open (and_then body (CBB_flush malloc d)))
    (\<lambda>B. Option.bind (prefix_enc k (length c)) (\<lambda>x. put d (h @ x @ c) B))"
  unfolding refines_def and_then_True
proof (intro allI impI, elim exE conjE)
  fix B s s1 s2 s3
  assume r: "represents B s" and o: "open s = (True, s1)" and b: "body s1 = (True, s2)"
    and f: "CBB_flush malloc d s2 = (True, s3)"
  obtain B1 where B1: "put d h B = Some B1" "represents (push k B1) s1"
    using refinesD [OF assms(2) r o] by blast
  have l: "length (snd (push k B1)) = Suc d"
  proof -
    obtain C where "close_to d B = Some C" "B1 = top_append h C" using B1(1) by (auto simp: put_def)
    then show ?thesis using close_to_length [of d B C] by (simp add: push_def)
  qed
  have B2: "represents (top_append c (push k B1)) s2" by (rule assms(3) [unfolded writes_def, rule_format, OF B1(2) l b])
  obtain B3 where B3: "close_to d (top_append c (push k B1)) = Some B3" "represents B3 s3"
    using refinesD [OF refines_flush [OF assms(1)] B2 f] by blast
  have "put (Suc d) c (push k B1) = Some (top_append c (push k B1))" using l by (simp add: put_def close_to_closed)
  from element_written [OF B1(1) this B3(1)] B3(2)
  show "\<exists>B'. Option.bind (prefix_enc k (length c)) (\<lambda>x. put d (h @ x @ c) B) = Some B' \<and> represents B' s3"
    by (intro exI [of _ B3]) auto
qed

lemma refines_asn1_element:
  assumes "malloc_contract malloc" "writes (Suc d) body c"
  shows "refines (and_then (CBB_add_asn1 malloc d tag) (and_then body (CBB_flush malloc d)))
    (\<lambda>B. if length c \<le> 0xfffffffe then put d (der_element tag c) B else None)"
  by (rule refines_weaken [OF refines_child_element [OF assms(1) refines_add_asn1 [OF assms(1)] assms(2)]])
    (auto simp: der_element_def der_header_def split: bind_splits if_splits)

lemma refines_octet_string:
  assumes "malloc_contract malloc" "length data < 2 ^ 63"
  shows "refines (CBB_add_asn1_octet_string malloc d data)
    (\<lambda>B. if length data \<le> 0xfffffffe then put d (der_element CBS_ASN1_OCTETSTRING data) B else None)"
  unfolding CBB_add_asn1_octet_string_def
  by (intro refines_asn1_element refines_writes refines_add_bytes assms)

lemma refines_bool:
  assumes "malloc_contract malloc"
  shows "refines (CBB_add_asn1_bool malloc d v)
    (put d (der_element CBS_ASN1_BOOLEAN [if v \<noteq> 0 then 0xff else 0]))"
  unfolding CBB_add_asn1_bool_def
  by (rule refines_weaken [OF refines_asn1_element [OF assms refines_writes [OF refines_add_u8 [OF assms]]]]) simp

text \<open>The INTEGER writers.\<close>

fun uint64_octets :: "u64 \<Rightarrow> nat list \<Rightarrow> bool \<Rightarrow> bytes \<times> bool" where
  "uint64_octets v [] started = ([], started)"
| "uint64_octets v (i # is) started =
     (let byte = ucast (drop_bit (8 * (7 - i)) v AND 0xff) :: u8 in
      if \<not> started \<and> byte = 0 then uint64_octets v is started
      else (case uint64_octets v is True of
          (bs, s) \<Rightarrow> ((if \<not> started \<and> byte AND 0x80 \<noteq> 0 then [0] else []) @ byte # bs, s)))"

lemma add_u8_step:
  assumes "malloc_contract malloc" "represents B s" "length (snd B) = d" "CBB_add_u8 malloc d v s = (True, s')"
  shows "represents (top_append [v] B) s'"
  using refinesD [OF refines_add_u8 [OF assms(1)] assms(2,4)] assms(3) by (auto simp: put_def close_to_closed)

lemma asn1_uint64_bytes_ok:
  assumes "malloc_contract malloc" "represents B cbb" "length (snd B) = d"
    and "asn1_uint64_bytes malloc d v is started cbb = ((True, started'), cbb')"
  shows "represents (top_append (fst (uint64_octets v is started)) B) cbb' \<and> started' = snd (uint64_octets v is started)"
  using assms(2-4)
proof (induction "is" arbitrary: B started cbb)
  case (Cons i "is")
  let ?byte = "ucast (drop_bit (8 * (7 - i)) v AND 0xff) :: u8"
  let ?pad = "\<not> started \<and> ?byte AND 0x80 \<noteq> 0"
  show ?case
  proof (cases "\<not> started \<and> ?byte = 0")
    case True
    then show ?thesis using Cons by (simp add: Let_def)
  next
    case False
    obtain s1 where s1: "(if ?pad then CBB_add_u8 malloc d 0 cbb else (True, cbb)) = (True, s1)"
      using Cons.prems(3) False by (auto simp: Let_def split: prod.splits bool.splits)
    let ?B1 = "if ?pad then top_append [0] B else B"
    have B1: "represents ?B1 s1" "length (snd ?B1) = d"
      using s1 add_u8_step [OF assms(1) Cons.prems(1,2)] Cons.prems(1,2) by (auto split: if_splits)
    obtain s2 where s2: "CBB_add_u8 malloc d ?byte s1 = (True, s2)"
      and rest: "asn1_uint64_bytes malloc d v is True s2 = ((True, started'), cbb')"
      using Cons.prems(3) False s1 by (auto simp: Let_def simp del: if_split split: prod.splits bool.splits)
    have B2: "represents (top_append [?byte] ?B1) s2" by (rule add_u8_step [OF assms(1) B1 s2])
    show ?thesis
      using Cons.IH [OF B2 _ rest] B1(2) False
      by (auto simp: Let_def top_append_append split: prod.splits if_splits)
  qed
qed auto

lemma uint64_octets_strip:
  "uint64_octets v is started =
    (if started then (map (\<lambda>i. ucast (drop_bit (8 * (7 - i)) v AND 0xff)) is, True)
     else (case dropWhile (\<lambda>b. b = 0) (map (\<lambda>i. ucast (drop_bit (8 * (7 - i)) v AND 0xff)) is) of
        [] \<Rightarrow> ([], False)
      | b # bs \<Rightarrow> ((if b AND 0x80 \<noteq> 0 then [0] else []) @ b # bs, True)))"
  by (induction v "is" started rule: uint64_octets.induct) (auto simp: Let_def)

lemma u64_bytes: "map (\<lambda>i. ucast (drop_bit (8 * (7 - i)) v AND 0xff) :: u8) [0..<8] = be_enc 8 (unat v)"
proof -
  have "ucast (drop_bit (8 * j) v AND 0xff) = (of_nat (unat v div 256 ^ j) :: u8)" for j
  proof -
    have "unat (drop_bit (8 * j) v AND 0xff) = unat v div 256 ^ j mod 256"
      using unat_and_mask [of "drop_bit (8 * j) v" 8]
      by (simp add: mask_eq_exp_minus_1 unat_drop_bit power_mult)
    then show ?thesis by (simp only: word_unat_eq_iff unat_ucast_down unat_of_nat) simp
  qed
  then show ?thesis unfolding be_enc_map by simp
qed

lemma be_val_dropWhile_0: "be_val (dropWhile (\<lambda>b. b = 0) bs) = be_val bs"
  by (induction bs) (auto simp: be_val_Cons)

definition uint64_content :: "u64 \<Rightarrow> bytes" where
  "uint64_content v = (case uint64_octets v [0..<8] False of (bs, s) \<Rightarrow> if s then bs else bs @ [0])"

lemma uint64_content_eq: "uint64_content v = int_octets (int (unat v))"
proof -
  define w where "w = dropWhile (\<lambda>b. b = 0) (be_enc 8 (unat v))"
  define c where "c = uint64_content v"
  have "unat v < 256 ^ 8" using unsigned_less [of v] by simp
  then have w: "be_val w = unat v" unfolding w_def by (simp only: be_val_dropWhile_0 be_val_be_enc_id)
  have hd: "w \<noteq> [] \<Longrightarrow> w ! 0 \<noteq> 0" using hd_dropWhile [of "\<lambda>b. b = 0" "be_enc 8 (unat v)"]
    unfolding w_def [symmetric] by (cases w) (auto simp: w_def)
  have c: "c = (case w of [] \<Rightarrow> [0] | b # bs \<Rightarrow> (if b AND 0x80 \<noteq> 0 then [0] else []) @ b # bs)"
    unfolding c_def uint64_content_def uint64_octets_strip u64_bytes w_def [symmetric] by (auto split: list.splits)
  have bv: "be_val c = unat v" unfolding c w [symmetric] by (cases w) (auto simp: be_val_Cons)
  have hi: "c ! 0 AND 0x80 = 0" unfolding c by (cases w) auto
  have "c \<noteq> []" unfolding c by (cases w) auto
  moreover have "\<not> (length c > 1 \<and> c ! 0 = 0 \<and> c ! 1 AND 0x80 = 0)"
    unfolding c using hd by (cases w) auto
  moreover have "c ! 0 \<noteq> 0xff" using hi by auto
  ultimately obtain i where i: "c = int_octets i" using int_content_iff [of c] by blast
  then have "0 \<le> i" using hi int_octets_sign by metis
  then have "int (be_val c) = i" unfolding i be_val_int_octets by simp
  then show ?thesis using i bv c_def by simp
qed

lemma int_octets_not_Nil: "int_octets i \<noteq> []"
  using length_int_octets [of i] slen_pos [of i] by fastforce

lemma slen_uint64: "slen (int (unat (v :: u64))) \<le> 9"
proof -
  have "int (unat v) < 128 * 256 ^ 8" using uint_bounded [of v] by simp
  then have "slen (int (unat v)) \<le> Suc 8"
    unfolding slen_le_iff by (intro conjI order_trans [OF _ of_nat_0_le_iff]) simp_all
  then show ?thesis by simp
qed

lemma refines_uint64:
  assumes malloc: "malloc_contract malloc"
  shows "refines (CBB_add_asn1_uint64 malloc d v) (put d (der_element CBS_ASN1_INTEGER (int_octets (int (unat v)))))"
proof -
  let ?body = "\<lambda>cbb. case asn1_uint64_bytes malloc (Suc d) v [0..<8] False cbb of
         ((False, _), cbb') \<Rightarrow> (False, cbb')
       | ((True, started), cbb') \<Rightarrow> (if \<not> started then CBB_add_u8 malloc (Suc d) 0 cbb' else (True, cbb'))"
  have eq: "CBB_add_asn1_uint64 malloc d v =
    and_then (CBB_add_asn1 malloc d CBS_ASN1_INTEGER) (and_then ?body (CBB_flush malloc d))"
    unfolding CBB_add_asn1_uint64_def
    by (rule arg_cong [of _ _ "and_then _"]) (auto simp: and_then_def fun_eq_iff split: prod.splits bool.splits)
  have "writes (Suc d) ?body (uint64_content v)"
    unfolding writes_def
  proof (intro allI impI)
    fix B s s'
    assume r: "represents B s" and l: "length (snd B) = Suc d" and b: "?body s = (True, s')"
    obtain st s1 where s1: "asn1_uint64_bytes malloc (Suc d) v [0..<8] False s = ((True, st), s1)"
      and s2: "(if \<not> st then CBB_add_u8 malloc (Suc d) 0 s1 else (True, s1)) = (True, s')"
      using b by (auto simp del: upt.simps upt_conv_Cons split: prod.splits bool.splits)
    let ?o = "uint64_octets v [0..<8] False"
    have r1: "represents (top_append (fst ?o) B) s1" and st: "st = snd ?o"
      using asn1_uint64_bytes_ok [OF malloc r l s1] by auto
    show "represents (top_append (uint64_content v) B) s'"
    proof (cases st)
      case True
      then show ?thesis using s2 r1 st by (simp add: uint64_content_def case_prod_beta)
    next
      case False
      then have "CBB_add_u8 malloc (Suc d) 0 s1 = (True, s')" using s2 by simp
      from add_u8_step [OF malloc r1 _ this] l show ?thesis
        using False st by (simp add: uint64_content_def top_append_append case_prod_beta)
    qed
  qed
  from refines_asn1_element [OF malloc this, of CBS_ASN1_INTEGER] show ?thesis
    unfolding eq by (rule refines_weaken) (use slen_uint64 [of v] in \<open>auto simp: uint64_content_eq split: if_splits\<close>)
qed

text \<open>The negative numbers of the signed writer.\<close>

lemma unat_sint: "int (unat v) = (if 0 \<le> sint v then sint v else 2 ^ 64 + sint v)" for v :: u64
proof -
  have "uint (word_of_int (sint v) :: u64) = sint v mod 2 ^ 64" by (simp only: uint_word_of_int) simp
  then have "uint v = sint v mod 2 ^ 64" by simp
  moreover have "sint v mod 2 ^ 64 = (if 0 \<le> sint v then sint v else 2 ^ 64 + sint v)"
    using sint_bounds [of v] mod_add_self2 [of "sint v" "2 ^ 64"] mod_pos_pos_trivial [of "sint v + 2 ^ 64" "2 ^ 64"]
    by (auto intro: mod_pos_pos_trivial)
  ultimately show ?thesis by simp
qed

lemma int64_byte_eq: "int64_byte v i = of_nat (unat v div 256 ^ i)"
  unfolding int64_byte_def
  by (simp only: word_unat_eq_iff unat_ucast_down unat_of_nat unat_drop_bit) (simp add: power_mult)

lemma int64_bytes: "map (int64_byte v) (rev [0..<n]) = be_enc n (unat v)"
  unfolding be_enc_map by (rule nth_equalityI) (simp_all add: int64_byte_eq rev_nth)

lemma int64_start_le: "int64_start v n \<le> n"
  by (induction n) auto

lemma int64_start_ff: "be_enc (Suc n) (unat v) = replicate (n - int64_start v n) 0xff @ be_enc (Suc (int64_start v n)) (unat v)"
proof (induction n)
  case (Suc n)
  show ?case
  proof (cases "int64_start v (Suc n) = Suc n")
    case False
    then have s: "int64_byte v (Suc n) = 0xff" "int64_start v (Suc n) = int64_start v n"
      by (auto split: if_splits)
    have "be_enc (Suc (Suc n)) (unat v) = int64_byte v (Suc n) # be_enc (Suc n) (unat v)"
      unfolding int64_bytes [symmetric] by simp
    then show ?thesis using Suc s int64_start_le [of v n] by (simp add: Suc_diff_le)
  qed simp
qed simp

lemma int64_start_stop:
  "int64_start v n = 0 \<or> \<not> (int64_byte v (int64_start v n) = 0xff \<and> int64_byte v (int64_start v n - 1) AND 0x80 \<noteq> 0)"
  by (induction n) auto

lemma int64_start_sign: "int64_byte v n AND 0x80 \<noteq> 0 \<Longrightarrow> int64_byte v (int64_start v n) AND 0x80 \<noteq> 0"
  by (induction n) auto

lemma int64_content:
  assumes "sint v < 0"
  shows "map (int64_byte v) (rev [0..<Suc (int64_start v 7)]) = int_octets (sint v)"
proof -
  define n where "n = int64_start v 7"
  define c where "c = map (int64_byte v) (rev [0..<Suc n])"
  have ce: "c = be_enc (Suc n) (unat v)" unfolding c_def by (rule int64_bytes)
  have lc: "length c = Suc n" by (simp add: c_def)
  have c0: "c ! 0 = int64_byte v n" by (simp add: c_def)
  have c1: "c ! 1 = int64_byte v (n - 1)" if "n \<noteq> 0"
    using that by (cases n) (simp_all add: c_def)
  have uv: "int (unat v) = 2 ^ 64 + sint v" using unat_sint [of v] assms by simp
  have hi7: "int64_byte v 7 AND 0x80 \<noteq> 0"
  proof -
    have "int (unat v) \<ge> 2 ^ 63" using uv sint_bounds [of v] by simp
    then have "2 ^ 63 \<le> unat v" by (metis of_nat_le_iff of_nat_numeral of_nat_power)
    then have "128 \<le> unat v div 256 ^ 7" by simp
    moreover have "unat v < 2 ^ 64" by (rule order_less_le_trans [OF unsigned_less]) simp
    then have "unat v div 256 ^ 7 < 256" by (simp add: less_mult_imp_div_less)
    ultimately have "\<not> unat (int64_byte v 7) < 128" by (simp add: int64_byte_eq unat_of_nat_u8)
    then show ?thesis by (simp only: u8_high_bit simp_thms)
  qed
  have hi: "c ! 0 AND 0x80 \<noteq> 0" unfolding c0 n_def by (rule int64_start_sign [OF hi7])
  have "c \<noteq> []" using lc by auto
  moreover have "\<not> (length c > 1 \<and> c ! 0 = 0 \<and> c ! 1 AND 0x80 = 0)" using hi by auto
  moreover have "\<not> (length c > 1 \<and> c ! 0 = 0xff \<and> c ! 1 AND 0x80 \<noteq> 0)"
    using int64_start_stop [of v 7] c1 unfolding lc c0 n_def [symmetric] by (cases "n = 0") auto
  ultimately obtain i where i: "c = int_octets i" using int_content_iff [of c] by blast
  have "i < 0" using hi int_octets_sign [of i] by (simp add: i)
  have sl: "slen i = Suc n" using lc i by simp
  have n7: "n \<le> 7" unfolding n_def by (rule int64_start_le)
  have "be_enc 8 (unat v) = replicate (7 - n) 0xff @ c"
    using int64_start_ff [of 7 v] unfolding n_def [symmetric] ce by simp
  moreover have "unat v < 256 ^ 8" by (rule order_less_le_trans [OF unsigned_less]) simp
  then have "be_val (be_enc 8 (unat v)) = unat v" by (rule be_val_be_enc_id)
  ultimately have "unat v + 256 ^ Suc n = 256 ^ 8 + be_val c"
    using be_val_replicate_ff [of "7 - n" c] n7 by (simp add: lc)
  then have "int (unat v) + 256 ^ Suc n = 256 ^ 8 + int (be_val c)"
    by (metis of_nat_add of_nat_numeral of_nat_power)
  then have "int (unat v) = 2 ^ 64 + i"
    using be_val_int_octets [of i] \<open>i < 0\<close> by (simp add: i sl)
  then have "i = sint v" using uv by simp
  then show ?thesis using i unfolding c_def n_def by simp
qed

lemma slen_int64: "slen (sint (v :: u64)) \<le> 8"
  using sint_bounds [of v] by (simp add: slen_le_8)

lemma refines_int64:
  assumes malloc: "malloc_contract malloc"
  shows "refines (CBB_add_asn1_int64 malloc d v) (put d (der_element CBS_ASN1_INTEGER (int_octets (sint v))))"
proof (cases "sint v \<ge> 0")
  case True
  then have "int (unat v) = sint v" using unat_sint [of v] by simp
  then show ?thesis using refines_uint64 [OF malloc, of d v] True by (simp add: CBB_add_asn1_int64_def [abs_def])
next
  case False
  have "refines (CBB_add_asn1_int64 malloc d v)
    (\<lambda>B. if length (int_octets (sint v)) \<le> 0xfffffffe then put d (der_element CBS_ASN1_INTEGER (int_octets (sint v))) B else None)"
    using refines_asn1_element [OF malloc refines_writes [OF refines_add_u8s [OF malloc]], of "int_octets (sint v)"]
      False int_octets_not_Nil int64_content [of v]
    by (simp add: CBB_add_asn1_int64_def [abs_def] Let_def del: upt.simps upt_Suc)
  then show ?thesis using slen_int64 [of v] by simp
qed

section \<open>Documents\<close>

text \<open>
  What a client writes: raw bytes, length-prefixed strings and ASN.1 elements, nested freely. The
  client of the builder (\<^verbatim>\<open>emit\<close>) opens a child for each nested string, writes into it and flushes
  the parent; \<^verbatim>\<open>doc\<close> is the encoding that is expected of it.
\<close>

datatype item = Raw bytes | Prefixed nat "item list" | Asn1 u32 "item list"

fun doc :: "item \<Rightarrow> bytes option" and docs :: "item list \<Rightarrow> bytes option" where
  "doc (Raw x) = Some x"
| "doc (Prefixed n is) =
     Option.bind (docs is) (\<lambda>c. Option.bind (prefix_enc (Fixed n) (length c)) (\<lambda>h. Some (h @ c)))"
| "doc (Asn1 t is) =
     Option.bind (docs is) (\<lambda>c. if length c \<le> 0xfffffffe then Some (der_element t c) else None)"
| "docs [] = Some []"
| "docs (i # is) = Option.bind (doc i) (\<lambda>x. Option.bind (docs is) (\<lambda>y. Some (x @ y)))"

fun emit :: "libc_malloc \<Rightarrow> nat \<Rightarrow> item \<Rightarrow> CBB \<Rightarrow> bool \<times> CBB"
  and emits :: "libc_malloc \<Rightarrow> nat \<Rightarrow> item list \<Rightarrow> CBB \<Rightarrow> bool \<times> CBB" where
  "emit malloc d (Raw x) cbb = CBB_add_bytes malloc d x cbb"
| "emit malloc d (Prefixed n is) cbb =
     and_then
       (if n = 1 then CBB_add_u8_length_prefixed malloc d
        else if n = 2 then CBB_add_u16_length_prefixed malloc d
        else CBB_add_u24_length_prefixed malloc d)
       (and_then (emits malloc (Suc d) is) (CBB_flush malloc d)) cbb"
| "emit malloc d (Asn1 t is) cbb =
     and_then (CBB_add_asn1 malloc d t) (and_then (emits malloc (Suc d) is) (CBB_flush malloc d)) cbb"
| "emits malloc d [] cbb = (True, cbb)"
| "emits malloc d (i # is) cbb = and_then (emit malloc d i) (emits malloc d is) cbb"

fun wf_item :: "item \<Rightarrow> bool" where
  "wf_item (Raw x) \<longleftrightarrow> length x < 2 ^ 63"
| "wf_item (Prefixed n is) \<longleftrightarrow> 1 \<le> n \<and> n \<le> 3 \<and> list_all wf_item is"
| "wf_item (Asn1 t is) \<longleftrightarrow> list_all wf_item is"

definition emits_ok :: "(CBB \<Rightarrow> bool \<times> CBB) \<Rightarrow> nat \<Rightarrow> bytes option \<Rightarrow> bool" where
  "emits_ok f d x \<longleftrightarrow> (\<forall>B s s'. represents B s \<longrightarrow> length (snd B) = d \<longrightarrow> f s = (True, s') \<longrightarrow>
     (\<exists>c. x = Some c \<and> represents (top_append c B) s'))"

lemma emits_okD:
  assumes "emits_ok f d x" "represents B s" "length (snd B) = d" "f s = (True, s')"
  obtains c where "x = Some c" "represents (top_append c B) s'"
  using assms unfolding emits_ok_def by blast

lemma emits_ok_refines:
  assumes "refines f F" "\<And>B B'. length (snd B) = d \<Longrightarrow> F B = Some B' \<Longrightarrow> \<exists>c. x = Some c \<and> B' = top_append c B"
  shows "emits_ok f d x"
  using assms unfolding emits_ok_def refines_def by metis

lemma emits_ok_child:
  assumes malloc: "malloc_contract malloc"
    and o: "refines open (\<lambda>B. map_option (push k) (put d h B))" and body: "emits_ok body (Suc d) c"
  shows "emits_ok (and_then open (and_then body (CBB_flush malloc d))) d
    (Option.bind c (\<lambda>c. Option.bind (prefix_enc k (length c)) (\<lambda>x. Some (h @ x @ c))))"
  unfolding emits_ok_def and_then_True
proof (intro allI impI, elim exE conjE)
  fix B s s1 s2 s3
  assume r: "represents B s" and l: "length (snd B) = d" and op: "open s = (True, s1)" and b: "body s1 = (True, s2)"
    and f: "CBB_flush malloc d s2 = (True, s3)"
  have pB: "put d h B = Some (top_append h B)" using l by (simp add: put_def close_to_closed)
  then have r1: "represents (push k (top_append h B)) s1" using refinesD [OF o r op] by auto
  have l1: "length (snd (push k (top_append h B))) = Suc d" using l by (simp add: push_def)
  obtain c' where c': "c = Some c'" "represents (top_append c' (push k (top_append h B))) s2"
    using body r1 l1 b unfolding emits_ok_def by metis
  obtain B3 where B3: "close_to d (top_append c' (push k (top_append h B))) = Some B3" "represents B3 s3"
    using refinesD [OF refines_flush [OF malloc] c'(2) f] by blast
  have "put (Suc d) c' (push k (top_append h B)) = Some (top_append c' (push k (top_append h B)))"
    using l1 by (simp add: put_def close_to_closed)
  from element_written [OF pB this B3(1)] B3(2) l c'(1)
  show "\<exists>x. Option.bind c (\<lambda>c. Option.bind (prefix_enc k (length c)) (\<lambda>x. Some (h @ x @ c))) = Some x \<and>
      represents (top_append x B) s3"
    by (auto simp: put_def close_to_closed)
qed

lemma refines_u_length_prefixed:
  assumes "malloc_contract malloc" "1 \<le> n" "n \<le> 3"
  shows "refines (if n = 1 then CBB_add_u8_length_prefixed malloc d
        else if n = 2 then CBB_add_u16_length_prefixed malloc d
        else CBB_add_u24_length_prefixed malloc d) (\<lambda>B. map_option (push (Fixed n)) (put d [] B))"
proof -
  have "n = 1 \<or> n = 2 \<or> n = 3" using assms by linarith
  then have "(if n = 1 then CBB_add_u8_length_prefixed malloc d
        else if n = 2 then CBB_add_u16_length_prefixed malloc d
        else CBB_add_u24_length_prefixed malloc d) = cbb_add_length_prefixed malloc d (of_nat n)"
    by (auto simp: CBB_add_u8_length_prefixed_def CBB_add_u16_length_prefixed_def CBB_add_u24_length_prefixed_def)
  moreover have "put d [] B = close_to d B" for B by (simp add: put_def option.map_id [unfolded id_def] cong: option.map_cong)
  ultimately show ?thesis using refines_length_prefixed [OF assms, of d] by simp
qed

lemma emit_ok:
  assumes "malloc_contract malloc"
  shows "wf_item i \<Longrightarrow> emits_ok (emit malloc d i) d (doc i)"
    and "list_all wf_item is \<Longrightarrow> emits_ok (emits malloc d is) d (docs is)"
proof (induction i and "is" arbitrary: d and d rule: doc_docs.induct)
  case (1 x)
  then show ?case
    using refines_add_bytes [OF assms, of x d]
    by (intro emits_ok_refines [where F = "put d x"]) (simp_all add: emit.simps [abs_def] put_def close_to_closed)
next
  case (2 n "is")
  then have n: "1 \<le> n" "n \<le> 3" by auto
  show ?case using emits_ok_child [OF assms refines_u_length_prefixed [OF assms n] "2.IH"] 2(2)
    by (simp add: emit.simps [abs_def])
next
  case (3 t "is")
  have "Option.bind (docs is) (\<lambda>c. Option.bind (prefix_enc DerLength (length c)) (\<lambda>x. Some (tag_octets t @ x @ c))) =
      doc (Asn1 t is)"
    by (cases "docs is") (auto simp: der_element_def der_header_def)
  then show ?case using emits_ok_child [OF assms refines_add_asn1 [OF assms, of d t] "3.IH"] 3(2)
    by (simp add: emit.simps [abs_def] del: doc.simps)
next
  case 4
  then show ?case by (auto simp: emits_ok_def)
next
  case (5 i "is")
  show ?case unfolding emits_ok_def emits.simps and_then_True
  proof (intro allI impI, elim exE conjE)
    fix B s s1 s2
    assume r: "represents B s" and l: "length (snd B) = d"
      and e: "emit malloc d i s = (True, s1)" "emits malloc d is s1 = (True, s2)"
    from 5(3) have wf: "wf_item i" "list_all wf_item is" by simp_all
    obtain x where x: "doc i = Some x" "represents (top_append x B) s1"
      by (rule emits_okD [OF "5.IH"(1) [OF wf(1)] r l e(1)])
    obtain y where y: "docs is = Some y" "represents (top_append y (top_append x B)) s2"
      by (rule emits_okD [OF "5.IH"(2) [OF x(1) wf(2)] x(2) _ e(2)]) (use l in simp)
    show "\<exists>c. docs (i # is) = Some c \<and> represents (top_append c B) s2"
      using x y by (simp add: top_append_append)
  qed
qed

section \<open>From creation to \<^verbatim>\<open>CBB_finish\<close>\<close>

lemma represents_init:
  assumes "malloc_contract malloc" "unat n < 2 ^ 64 - 8" "CBB_init malloc n = (True, cbb)"
  shows "represents ([], []) cbb"
proof -
  let ?bf = "OPENSSL_malloc malloc n"
  have c: "n > 0 \<longrightarrow> ?bf \<noteq> None"
      "cbb = \<lparr>base = Some \<lparr>buf = ?bf, blen = 0, cap = n, can_resize = True, berror = False\<rparr>, chain = []\<rparr>"
    using assms(3) by (auto simp: CBB_init_def cbb_init_def CBB_zero_def Let_def split: if_splits option.splits)
  have "buffer_ok \<lparr>buf = ?bf, blen = 0, cap = n, can_resize = True, berror = False\<rparr>"
  proof (cases ?bf)
    case None
    then have "n = 0" using c by (auto simp: not_less)
    then show ?thesis using None by (simp add: buffer_ok_def)
  next
    case (Some m)
    from OPENSSL_malloc_ok [OF assms(1) this assms(2)] show ?thesis using Some by (simp add: buffer_ok_def)
  qed
  then show ?thesis by (simp add: represents_def c contents_def split: option.splits)
qed

lemma represents_init_fixed:
  assumes "length m = unat n" "length m < 2 ^ 63" "CBB_init_fixed malloc m n = (True, cbb)"
  shows "represents ([], []) cbb"
  using assms
  by (auto simp: CBB_init_fixed_def cbb_init_def CBB_zero_def represents_def buffer_ok_def contents_def
      split: option.splits)

lemma CBB_finish_ok:
  assumes "malloc_contract malloc" "represents B cbb" "CBB_finish malloc d outs cbb = (Some (m, n), cbb')"
  shows "d = 0 \<and> base cbb' = None \<and> (case m of None \<Rightarrow> close_to 0 B = Some ([], [])
    | Some m \<Rightarrow> close_to 0 B = Some (take (unat n) m, []) \<and> unat n \<le> length m)"
proof -
  obtain s b where d: "d = 0" and f: "CBB_flush malloc 0 cbb = (True, s)" and b: "base s = Some b"
    and r: "m = buf b" "n = blen b" "cbb' = CBB_cleanup 0 s"
    using assms(3) by (auto simp: CBB_finish_def split: if_splits prod.splits bool.splits option.splits)
  obtain B' where B': "close_to 0 B = Some B'" "represents B' s"
    using refinesD [OF refines_flush [OF assms(1)] assms(2) f] by blast
  have "snd B' = []" using close_to_length [OF B'(1)] by simp
  then show ?thesis using d B' b r
    by (cases B') (auto simp: represents_def CBB_cleanup_def contents_def buffer_ok_def word_le_nat_alt split: option.splits)
qed

end
