(* ===== verification/CbbTotal.thy ===== *)
theory CbbTotal
  imports CbbOps
begin

text \<open>
  The other half of the builder's contract: the calls do return 1. An operation whose result fits
  (in the fixed buffer, or in what the allocator is able to give) succeeds, and so does the writing
  of a whole document; with \<^verbatim>\<open>CbbOps\<close> this makes the outcome of the builder exact.
\<close>

section \<open>Enough room\<close>

definition avail :: "libc_malloc \<Rightarrow> nat \<Rightarrow> cbb_buffer \<Rightarrow> bool" where
  "avail malloc N b \<longleftrightarrow> N < 2 ^ 60 \<and>
     (N \<le> unat (cap b) \<or>
      (can_resize b \<and> unat (cap b) \<le> 2 * N \<and> (\<forall>k. unat k \<le> 2 * N + 8 \<longrightarrow> malloc k \<noteq> None)))"

lemma reserve_total:
  assumes ok: "buffer_ok b" and av: "avail malloc N b" and n: "unat (blen b) + unat n \<le> N"
  shows "\<exists>b'. cbb_buffer_reserve malloc b n = (Some (blen b), b') \<and> avail malloc N b'"
proof -
  have N: "N < 2 ^ 60" using av by (simp add: avail_def)
  have nl: "unat (blen b + n) = unat (blen b) + unat n"
    using n N by (simp add: unat_word_ariths)
  have c0: "\<not> blen b + n < blen b" using nl by (simp add: word_less_nat_alt)
  show ?thesis
  proof (cases "blen b + n > cap b")
    case False
    then have "cbb_buffer_reserve malloc b n = (Some (blen b), b)"
      using c0 by (simp add: cbb_buffer_reserve_def)
    then show ?thesis using av by blast
  next
    case True
    then have cl: "unat (cap b) < unat (blen b) + unat n" using nl by (simp add: word_less_nat_alt)
    then have g: "can_resize b" "\<forall>k. unat k \<le> 2 * N + 8 \<longrightarrow> malloc k \<noteq> None"
      using av n by (auto simp: avail_def)
    define newcap where "newcap = (if cap b * 2 < cap b \<or> cap b * 2 < blen b + n then blen b + n else cap b * 2)"
    have c2: "unat (cap b * 2) = unat (cap b) * 2" using cl n N by (simp add: unat_word_ariths)
    have nc: "unat newcap \<le> 2 * N" using c2 cl n nl by (auto simp: newcap_def)
    then have "unat (newcap + 8) = unat newcap + 8" using N by (simp add: unat_word_ariths)
    then have "malloc (newcap + 8) \<noteq> None" using g(2) nc by simp
    then obtain r where "OPENSSL_malloc malloc newcap = Some r"
      by (auto simp: OPENSSL_malloc_def OPENSSL_MALLOC_PREFIX_def)
    then obtain m where m: "OPENSSL_realloc malloc (buf b) newcap = Some m"
      by (cases "buf b") (auto simp: OPENSSL_realloc_def Let_def)
    have "cbb_buffer_reserve malloc b n = (Some (blen b), b\<lparr>buf := Some m, cap := newcap\<rparr>)"
      using True c0 g(1) m unfolding cbb_buffer_reserve_def Let_def newcap_def [symmetric] by simp
    moreover have "avail malloc N (b\<lparr>buf := Some m, cap := newcap\<rparr>)"
      using g nc N by (auto simp: avail_def)
    ultimately show ?thesis by blast
  qed
qed

lemma add_total:
  assumes "buffer_ok b" "avail malloc N b" "unat (blen b) + unat n \<le> N"
  shows "\<exists>b'. cbb_buffer_add malloc b n = (Some (blen b), b') \<and> avail malloc N b'"
proof -
  obtain b' where b': "cbb_buffer_reserve malloc b n = (Some (blen b), b')" "avail malloc N b'"
    using reserve_total [OF assms] by blast
  then show ?thesis by (simp add: cbb_buffer_add_def avail_def)
qed

lemma avail_buf_put [simp]: "avail malloc N (buf_put b off xs) = avail malloc N b"
  by (simp add: avail_def)

lemma add_u_total:
  assumes "buffer_ok b" "avail malloc N b" "unat (blen b) + unat k \<le> N" "unat v < 256 ^ unat k"
  shows "\<exists>b'. cbb_buffer_add_u malloc b v k = (True, b') \<and> avail malloc N b'"
proof (cases "k = 0")
  case False
  obtain b' where b': "cbb_buffer_add malloc b k = (Some (blen b), b')" "avail malloc N b'"
    using add_total [OF assms(1-3)] by blast
  moreover have "snd (store_be (unat k) v) = 0" using assms(4) by (simp only: store_be_left)
  ultimately show ?thesis using False
    by (cases "store_be (unat k) v") (simp add: cbb_buffer_add_u_def Let_def)
qed (use assms in \<open>simp add: cbb_buffer_add_u_def\<close>)

lemma length_len_octets_eq: "length (len_octets n) = (if n < 128 then 1 else 1 + len_bytes n)"
  by (simp add: len_octets_def)

lemma flush_asn1_total:
  assumes ok: "buffer_ok b" and av: "avail malloc N b"
    and len: "unat (blen b) = length p + 1 + n" and n: "n \<le> 0xfffffffe"
    and fit: "length p + length (len_octets n) + n \<le> N"
  shows "\<exists>f' n' b'. flush_asn1 malloc f b (of_nat (length p + 1)) (of_nat n) = (Some (f', n'), b') \<and> avail malloc N b'"
proof -
  have nu: "unat (of_nat n :: u64) = n" using n by (intro unat_of_nat_lt) simp
  have small: "unat (of_nat n :: u64) \<le> 0xfffffffe" using n nu by simp
  note ll = asn1_len_len_eq [OF small, unfolded nu]
  have r': "\<not> of_nat n > (0xfffffffe :: u64)" using small by (simp add: word_less_nat_alt)
  show ?thesis
  proof (cases "n < 128")
    case True
    then show ?thesis using r' ll av by (simp add: flush_asn1_def Let_def)
  next
    case False
    define e where "e = len_bytes n"
    have e: "1 \<le> e" "e \<le> 4" using len_bytes_bounds by (auto simp: e_def)
    define L where "L = (of_nat (1 + e) :: u8)"
    have e8: "unat (of_nat e :: u8) = e" using e by (intro unat_of_nat_lt) simp
    have L1: "L - 1 = of_nat e" by (simp add: L_def)
    have L2: "(ucast (of_nat e :: u8) :: u64) = of_nat e"
      by (rule eq_of_natI) (use e8 in \<open>simp add: unat_ucast_up\<close>)
    have L3: "L \<noteq> 1" using L1 e8 e by auto
    have e64u: "unat (of_nat e :: u64) = e" using e by (intro unat_of_nat_lt) simp
    have llL: "asn1_len_len (of_nat n) = (L, of_nat (0x80 + e), of_nat n)"
      unfolding L_def e_def ll using False by simp
    have "unat (blen b) + unat (of_nat e :: u64) \<le> N"
      using fit False len e64u by (simp add: length_len_octets_eq e_def)
    then obtain b' where b': "cbb_buffer_add malloc b (of_nat e) = (Some (blen b), b')" "avail malloc N b'"
      using add_total [OF ok av] by blast
    have "avail malloc N (b'\<lparr>buf := x\<rparr>)" for x using b'(2) by (simp add: avail_def)
    then show ?thesis unfolding flush_asn1_def Let_def llL prod.case L1 L2
      using r' L3 b' by simp
  qed
qed

lemma flat_length_eq: "length (flat p ls) = length p + sum_list (map (\<lambda>(k, q). plen k + length q) ls)"
  by (induction p ls rule: flat.induct) auto

lemma prefix_enc_plen: "prefix_enc k n = Some h \<Longrightarrow> plen k \<le> length h"
  by (cases k) (auto simp: length_len_octets_eq split: if_splits)

lemma close_all_length:
  "close_all p ls = Some c \<Longrightarrow> length (flat p ls) \<le> length c"
proof (induction p ls arbitrary: c rule: close_all.induct)
  case (2 p k q ls)
  then obtain c1 h where c1: "close_all q ls = Some c1" "prefix_enc k (length c1) = Some h" "c = p @ h @ c1"
    by (auto split: option.splits)
  from "2.IH" [OF c1(1)] prefix_enc_plen [OF c1(2)] c1(3) show ?case by (simp add: flat_length_eq)
qed simp

lemma flush_frames_total:
  assumes "buffer_ok b" "malloc_contract malloc" "contents b = flat p ls" "\<forall>(k, q) \<in> set ls. prefix_ok k"
    and "avail malloc N b" "close_all p ls = Some c" "length c \<le> N"
  shows "\<exists>fs b'. flush_frames malloc (frames p ls) b = (True, fs, b') \<and> avail malloc N b'"
  using assms(3-7)
proof (induction p ls arbitrary: c rule: flat.induct)
  case (1 p)
  then show ?case using assms(1) by (simp add: buffer_ok_def)
next
  case (2 p k q ls)
  let ?f = "\<lparr>offset = of_nat (length p), pending_len_len = of_nat (plen k), pending_is_asn1 = (k = DerLength)\<rparr>"
  let ?z = "replicate (plen k) (0::u8)"
  have pk: "prefix_ok k" and pks: "\<forall>(k, q) \<in> set ls. prefix_ok k" using 2 by auto
  have pl: "1 \<le> plen k" "plen k \<le> 3" using pk by (cases k; simp)+
  then have plu: "unat (of_nat (plen k) :: u8) = plen k" by (intro unat_of_nat_lt) simp
  have pz: "(of_nat (plen k) :: u8) \<noteq> 0" using plu pl by auto
  obtain c1 h where c1: "close_all q ls = Some c1" "prefix_enc k (length c1) = Some h" "c = p @ h @ c1"
    using "2.prems"(4) by (auto split: option.splits)
  have inner: "close_all (p @ ?z @ q) ls = Some (p @ ?z @ c1)"
    using close_all_append [of "p @ ?z" q ls] c1(1) by simp
  have fl: "contents b = flat (p @ ?z @ q) ls" using "2.prems"(1) by simp
  have "length (p @ ?z @ c1) \<le> N" using "2.prems"(5) c1 prefix_enc_plen [OF c1(2)] by simp
  from "2.IH" [OF fl pks "2.prems"(3) inner this] obtain fs1 b1 where
    f1: "flush_frames malloc (frames (p @ ?z @ q) ls) b = (True, fs1, b1)" "avail malloc N b1" by blast
  have b1: "buffer_ok b1" "contents b1 = p @ ?z @ c1" "fs1 = []"
    using flush_frames_ok [OF f1(1) assms(1,2) fl pks] inner by auto
  have lc: "length p + plen k + length c1 = unat (blen b1)" "unat (blen b1) < 2 ^ 63"
    using contents_length [OF b1(1)] buffer_ok_len [OF b1(1)] b1(2) by simp_all
  have cs: "of_nat (length p) + ucast (of_nat (plen k) :: u8) = (of_nat (length p + plen k) :: u64)"
    by (rule eq_of_natI) (use lc plu in \<open>simp add: unat_word_ariths unat_ucast_up unat_of_nat\<close>)
  have csu: "unat (of_nat (length p + plen k) :: u64) = length p + plen k"
    using lc by (intro unat_of_nat_lt) simp
  have len: "blen b1 - of_nat (length p + plen k) = of_nat (length c1)"
    using lc by (metis add_diff_cancel_left' of_nat_add word_of_unat)
  let ?s = "of_nat (length p + plen k) :: u64"
  have s1: "\<not> ?s < of_nat (length p)" "\<not> blen b1 < ?s"
    using csu lc by (simp_all add: word_less_nat_alt unat_of_nat)
  have nu: "unat (of_nat (length c1) :: u64) = length c1" using lc by (intro unat_of_nat_lt) simp
  have e: "\<not> berror b" using assms(1) by (simp add: buffer_ok_def)
  show ?case
  proof (cases k)
    case (Fixed n)
    then have "snd (store_be n (of_nat (length c1))) = 0"
      using c1(2) nu by (simp add: store_be_left split: if_splits)
    then show ?thesis
      using e pz s1 f1 plu unfolding frames.simps flush_frames.simps Let_def cbb_frame.select_convs f1
      prod.case bool.case cs len by (auto simp: Fixed split: prod.splits)
  next
    case DerLength
    have "unat (blen b1) = length p + 1 + length c1" using lc DerLength by simp
    moreover have "length c1 \<le> 0xfffffffe" "h = len_octets (length c1)" using c1(2) DerLength by (auto split: if_splits)
    moreover have "length p + length h + length c1 \<le> N" using "2.prems"(5) c1(3) by simp
    ultimately obtain f' n' b' where
      r: "flush_asn1 malloc ?f b1 (of_nat (length p + 1)) (of_nat (length c1)) = (Some (f', n'), b')" "avail malloc N b'"
      using flush_asn1_total [OF b1(1) f1(2)] by blast
    have "contents b1 = p @ [0] @ c1" using b1 DerLength by simp
    from flush_asn1_ok [OF b1(1) assms(2) this _ r(1)]
    have "snd (store_be (unat (pending_len_len f')) n') = 0" by (simp add: store_be_left)
    then show ?thesis
      using e pz s1 f1 r unfolding frames.simps flush_frames.simps Let_def cbb_frame.select_convs f1
      prod.case bool.case cs len by (auto simp: DerLength split: prod.splits)
  qed
qed

section \<open>Operations that fit succeed\<close>

definition bsize :: "builder \<Rightarrow> nat" where
  "bsize B = length (flat (fst B) (snd B))"

definition room :: "libc_malloc \<Rightarrow> nat \<Rightarrow> CBB \<Rightarrow> bool" where
  "room malloc N cbb \<longleftrightarrow> (\<exists>b. base cbb = Some b \<and> avail malloc N b)"

text \<open>\<^verbatim>\<open>f\<close> succeeds wherever the abstract operation is defined and its result fits.\<close>

definition total :: "libc_malloc \<Rightarrow> nat \<Rightarrow> (CBB \<Rightarrow> bool \<times> CBB) \<Rightarrow> (builder \<Rightarrow> builder option) \<Rightarrow> bool" where
  "total malloc N f F \<longleftrightarrow>
     (\<forall>B s B'. represents B s \<longrightarrow> room malloc N s \<longrightarrow> F B = Some B' \<longrightarrow> bsize B' \<le> N \<longrightarrow>
       (\<exists>s'. f s = (True, s') \<and> room malloc N s'))"

lemma totalD:
  assumes "total malloc N f F" "represents B s" "room malloc N s" "F B = Some B'" "bsize B' \<le> N"
  obtains s' where "f s = (True, s')" "room malloc N s'"
  using assms unfolding total_def by blast

definition grows :: "(builder \<Rightarrow> builder option) \<Rightarrow> bool" where
  "grows F \<longleftrightarrow> (\<forall>B B'. F B = Some B' \<longrightarrow> bsize B \<le> bsize B')"

lemma total_and_then:
  assumes "refines f F" "total malloc N f F" "total malloc N g G" "grows G"
  shows "total malloc N (and_then f g) (\<lambda>B. Option.bind (F B) G)"
  unfolding total_def
proof (intro allI impI)
  fix B s B'
  assume r: "represents B s" "room malloc N s" and b: "Option.bind (F B) G = Some B'" and n: "bsize B' \<le> N"
  obtain B1 where B1: "F B = Some B1" "G B1 = Some B'" using b by (cases "F B") auto
  have n1: "bsize B1 \<le> N" using assms(4) B1(2) n unfolding grows_def by (meson le_trans)
  obtain s1 where s1: "f s = (True, s1)" "room malloc N s1"
    using assms(2) r B1(1) n1 unfolding total_def by blast
  have "represents B1 s1" using refinesD [OF assms(1) r(1) s1(1)] B1(1) by auto
  then obtain s2 where "g s1 = (True, s2)" "room malloc N s2"
    using assms(3) s1(2) B1(2) n unfolding total_def by blast
  then show "\<exists>s'. and_then f g s = (True, s') \<and> room malloc N s'" using s1 by (simp add: and_then_def)
qed

lemma total_weaken: "total malloc N f F \<Longrightarrow> (\<And>B B'. G B = Some B' \<Longrightarrow> F B = Some B') \<Longrightarrow> total malloc N f G"
  unfolding total_def by metis

lemma bsize_close: "close_to d B = Some B' \<Longrightarrow> bsize B \<le> bsize B'"
proof (induction d B arbitrary: B' rule: close_to.induct)
  case (1 p ls)
  then show ?case using close_all_length [of p ls] by (auto simp: bsize_def)
next
  case (3 d p k q ls)
  then obtain C where "close_to d (q, ls) = Some C" "B' = (p, (k, fst C) # snd C)"
    by (auto split: prod.splits)
  then show ?case using "3.IH" by (auto simp: bsize_def flat_length_eq)
qed simp

lemma bsize_top_append [simp]: "bsize (top_append x B) = bsize B + length x"
  by (cases B; cases "top_append x B") (use top_append_layout in \<open>fastforce simp: bsize_def\<close>)

lemma bsize_push [simp]: "bsize (push k B) = bsize B + plen k"
  by (simp add: bsize_def push_def flat_length_eq)

lemma grows_close [intro]: "grows (close_to d)"
  using bsize_close by (simp add: grows_def)

lemma grows_put [intro]: "grows (put d x)"
  unfolding grows_def
proof (intro allI impI)
  fix B B' assume "put d x B = Some B'"
  then obtain C where "close_to d B = Some C" "B' = top_append x C" by (auto simp: put_def)
  then show "bsize B \<le> bsize B'" using bsize_close [of d B C] by simp
qed

lemma grows_bind [intro]: "grows F \<Longrightarrow> grows G \<Longrightarrow> grows (\<lambda>B. Option.bind (F B) G)"
  unfolding grows_def
proof (intro allI impI)
  fix B B' assume a: "\<forall>B B'. F B = Some B' \<longrightarrow> bsize B \<le> bsize B'" "\<forall>B B'. G B = Some B' \<longrightarrow> bsize B \<le> bsize B'"
    and "Option.bind (F B) G = Some B'"
  then obtain C where "F B = Some C" "G C = Some B'" by (cases "F B") auto
  then show "bsize B \<le> bsize B'" using a le_trans by blast
qed

lemma close_to_flat_conv:
  "close_to d (p, ls) = Some B' \<Longrightarrow>
    d \<le> length ls \<and> close_all (flat p (take d ls)) (drop d ls) = Some (flat (fst B') (snd B'))"
proof (induction d arbitrary: p ls B')
  case (Suc d)
  then obtain k q ls1 where ls: "ls = (k, q) # ls1" by (cases ls) auto
  then obtain C where C: "close_to d (q, ls1) = Some C" "B' = (p, (k, fst C) # snd C)"
    using Suc.prems by (auto split: prod.splits)
  let ?a = "p @ replicate (plen k) 0"
  from Suc.IH [OF C(1)] show ?case
    using flat_append [of ?a q "take d ls1"] flat_append [of ?a "fst C" "snd C"]
      close_all_append [of ?a "flat q (take d ls1)" "drop d ls1"]
    by (simp add: ls C(2))
qed auto

lemma total_flush:
  assumes "malloc_contract malloc"
  shows "total malloc N (CBB_flush malloc d) (close_to d)"
  unfolding total_def
proof (intro allI impI)
  fix B s B'
  assume r: "represents B s" "room malloc N s" and c: "close_to d B = Some B'" and n: "bsize B' \<le> N"
  obtain p ls where B: "B = (p, ls)" by (cases B)
  obtain b where b: "base s = Some b" "buffer_ok b" "contents b = flat p ls" "chain s = frames p ls"
      "\<forall>(k, q) \<in> set ls. prefix_ok k" "avail malloc N b"
    using r by (auto simp: represents_def room_def B)
  have d: "d \<le> length ls" and ca: "close_all (flat p (take d ls)) (drop d ls) = Some (flat (fst B') (snd B'))"
    using close_to_flat_conv [of d p ls B'] c B by auto
  have "flat (flat p (take d ls)) (drop d ls) = contents b" using flat_drop [OF d, of p] b(3) by simp
  moreover have "\<forall>(k, q) \<in> set (drop d ls). prefix_ok k" using b(5) by (meson in_set_dropD)
  ultimately obtain fs b' where "flush_frames malloc (drop d (frames p ls)) b = (True, fs, b')" "avail malloc N b'"
    using flush_frames_total [OF b(2) assms, of "flat p (take d ls)" "drop d ls" N] b(6) ca n
    by (auto simp: frames_drop [OF d] bsize_def)
  then show "\<exists>s'. CBB_flush malloc d s = (True, s') \<and> room malloc N s'"
    using d b by (simp add: CBB_flush_def room_def)
qed

lemma total_write:
  assumes malloc: "malloc_contract malloc"
    and f: "\<And>b. buffer_ok b \<Longrightarrow> avail malloc N b \<Longrightarrow> unat (blen b) + length x \<le> N \<Longrightarrow>
      \<exists>b'. f b = (True, b') \<and> avail malloc N b'"
  shows "total malloc N (and_then (CBB_flush malloc d) (on_base f)) (put d x)"
proof -
  have "total malloc N (on_base f) (\<lambda>B. Some (top_append x B))"
    unfolding total_def
  proof (intro allI impI)
    fix B s B'
    assume r: "represents B s" "room malloc N s" and e: "Some (top_append x B) = Some B'" and n: "bsize B' \<le> N"
    obtain b where b: "base s = Some b" "buffer_ok b" "contents b = flat (fst B) (snd B)" "avail malloc N b"
      using r by (auto simp: represents_def room_def)
    have "unat (blen b) + length x \<le> N"
      using n e contents_length [OF b(2)] b(3) by (auto simp: bsize_def simp flip: bsize_def)
    then obtain b' where "f b = (True, b')" "avail malloc N b'" using f b by blast
    then show "\<exists>s'. on_base f s = (True, s') \<and> room malloc N s'" using b(1) by (simp add: on_base_def room_def)
  qed
  from total_and_then [OF refines_flush [OF malloc] total_flush [OF malloc] this]
  have "total malloc N (and_then (CBB_flush malloc d) (on_base f)) (\<lambda>B. Option.bind (close_to d B) (\<lambda>B. Some (top_append x B)))"
    by (simp add: grows_def)
  then show ?thesis by (rule total_weaken) (auto simp: put_def)
qed

lemma total_add_u8:
  assumes "malloc_contract malloc" shows "total malloc N (CBB_add_u8 malloc d v) (put d [v])"
  unfolding CBB_add_u8_def [abs_def]
proof (rule total_write [OF assms])
  fix b assume b: "buffer_ok b" "avail malloc N b" "unat (blen b) + length [v] \<le> N"
  have "unat (ucast v :: u64) < 256" by (simp add: unat_ucast_up)
  then show "\<exists>b'. cbb_buffer_add_u malloc b (ucast v) 1 = (True, b') \<and> avail malloc N b'"
    using add_u_total [OF b(1,2), of 1 "ucast v"] b(3) by simp
qed

lemma total_add_bytes:
  assumes "malloc_contract malloc" "length x < 2 ^ 63"
  shows "total malloc N (CBB_add_bytes malloc d x) (put d x)"
  unfolding CBB_add_bytes_def [abs_def]
proof (rule total_write [OF assms(1)])
  fix b assume b: "buffer_ok b" "avail malloc N b" "unat (blen b) + length x \<le> N"
  have "unat (of_nat (length x) :: u64) = length x" using assms(2) by (intro unat_of_nat_lt) simp
  then obtain b' where "cbb_buffer_add malloc b (of_nat (length x)) = (Some (blen b), b')" "avail malloc N b'"
    using add_total [OF b(1,2), of "of_nat (length x)"] b(3) by auto
  then show "\<exists>b'. (case cbb_buffer_add malloc b (of_nat (length x)) of
         (None, b') \<Rightarrow> (False, b') | (Some dest, b') \<Rightarrow> (True, buf_put b' dest x)) = (True, b') \<and> avail malloc N b'"
    by simp
qed

lemma put_bind: "put d (x @ y) B = Option.bind (put d x B) (put d y)"
proof (cases "put d x B")
  case None
  then show ?thesis by (simp add: put_def)
next
  case (Some C)
  from put_put [OF Some, of y] Some show ?thesis by simp
qed

lemma put_Cons: "(\<lambda>B. Option.bind (put d [x] B) (put d y)) = put d (x # y)"
  using put_bind [of d "[x]" y] by (intro ext) simp

lemma total_add_u8s:
  assumes "malloc_contract malloc"
  shows "bs \<noteq> [] \<Longrightarrow> total malloc N (add_u8s malloc d bs) (put d bs)"
proof (induction bs rule: induct_list012)
  case (2 b)
  have "add_u8s malloc d [b] = CBB_add_u8 malloc d b"
    by (rule ext) (simp add: and_then_def split: prod.splits bool.splits)
  then show ?case using total_add_u8 [OF assms] by simp
next
  case (3 b b' bs)
  have "add_u8s malloc d (b # b' # bs) = and_then (CBB_add_u8 malloc d b) (add_u8s malloc d (b' # bs))"
    by (rule ext) simp
  moreover have "total malloc N (and_then (CBB_add_u8 malloc d b) (add_u8s malloc d (b' # bs)))
    (\<lambda>B. Option.bind (put d [b] B) (put d (b' # bs)))"
    by (rule total_and_then [OF refines_add_u8 [OF assms] total_add_u8 [OF assms] "3.IH"(2)]) auto
  ultimately show ?case
    by (simp add: put_bind [of d "[b]" "b' # bs", simplified])
qed simp

lemma total_add_base128:
  "malloc_contract malloc \<Longrightarrow> total malloc N (add_base128_integer malloc d v) (put d (b128 (unat v)))"
  unfolding add_base128_integer_def Let_def base128_bytes_eq
  by (rule total_add_u8s) (simp_all add: b128_def)

lemma total_tag:
  assumes "malloc_contract malloc"
  shows "total malloc N (let tag_bits = ucast (drop_bit CBS_ASN1_TAG_SHIFT tag) AND 0xe0 :: u8;
          tag_number = tag AND CBS_ASN1_TAG_NUMBER_MASK in
       (if tag_number \<ge> 0x1f then
          and_then (CBB_add_u8 malloc d (tag_bits OR 0x1f))
            (add_base128_integer malloc d (ucast tag_number))
        else CBB_add_u8 malloc d (tag_bits OR ucast tag_number))) (put d (tag_octets tag))"
proof -
  let ?bits = "ucast (drop_bit 24 tag) AND 0xe0 :: u8" and ?n = "tag AND CBS_ASN1_TAG_NUMBER_MASK"
  have n: "unat ?n = unat tag mod 2 ^ 29" unfolding TAG_NUMBER_MASK_eq by (rule unat_and_mask)
  show ?thesis
  proof (cases "?n \<ge> 0x1f")
    case True
    have "total malloc N (and_then (CBB_add_u8 malloc d (?bits OR 0x1f)) (add_base128_integer malloc d (ucast ?n)))
      (\<lambda>B. Option.bind (put d [?bits OR 0x1f] B) (put d (b128 (unat (ucast ?n :: u64)))))"
      by (intro total_and_then refines_add_u8 total_add_u8 total_add_base128 grows_put assms)
    moreover have "unat (ucast ?n :: u64) = unat tag mod 2 ^ 29" using n by (simp add: unat_ucast_up)
    moreover have "31 \<le> unat tag mod 2 ^ 29" using True n by (simp add: word_le_nat_alt)
    ultimately show ?thesis using True
      by (simp add: CBS_ASN1_TAG_SHIFT_def tag_octets_def Let_def put_Cons)
  next
    case False
    then have lt: "unat tag mod 2 ^ 29 < 31" using n by (simp add: word_le_nat_alt)
    then have "(ucast ?n :: u8) = of_nat (unat tag mod 2 ^ 29)"
      by (intro eq_of_natI) (simp only: unat_ucast_down n, simp)
    then show ?thesis using False lt total_add_u8 [OF assms, of N d "?bits OR ucast ?n"]
      by (simp add: CBS_ASN1_TAG_SHIFT_def tag_octets_def Let_def)
  qed
qed

lemma total_length_prefixed:
  assumes malloc: "malloc_contract malloc" and n: "1 \<le> n" "n \<le> 3"
  shows "total malloc N (cbb_add_length_prefixed malloc d (of_nat n)) (\<lambda>B. map_option (push (Fixed n)) (close_to d B))"
  unfolding total_def
proof (intro allI impI)
  fix B s B'
  assume r: "represents B s" "room malloc N s" and e: "map_option (push (Fixed n)) (close_to d B) = Some B'"
    and sz: "bsize B' \<le> N"
  obtain B1 where B1: "close_to d B = Some B1" "B' = push (Fixed n) B1" using e by auto
  then have sz1: "bsize B1 + n \<le> N" using sz by simp
  then have "bsize B1 \<le> N" by linarith
  with total_flush [OF malloc] r B1(1) obtain s1 where s1: "CBB_flush malloc d s = (True, s1)" "room malloc N s1"
    by (rule totalD)
  have r1: "represents B1 s1" using refinesD [OF refines_flush [OF malloc] r(1) s1(1)] B1(1) by auto
  obtain b where b: "base s1 = Some b" "buffer_ok b" "contents b = flat (fst B1) (snd B1)" "avail malloc N b"
    using r1 s1(2) by (auto simp: represents_def room_def)
  have n8: "unat (of_nat n :: u8) = n" using n by (intro unat_of_nat_lt) simp
  then have n64: "unat (ucast (of_nat n :: u8) :: u64) = n" by (simp add: unat_ucast_up)
  have "unat (blen b) + unat (ucast (of_nat n :: u8) :: u64) \<le> N"
    using sz1 n64 contents_length [OF b(2)] b(3) by (simp add: bsize_def)
  from add_total [OF b(2,4) this] obtain b'
    where "cbb_buffer_add malloc b (ucast (of_nat n :: u8)) = (Some (blen b), b')" "avail malloc N b'"
    by blast
  then show "\<exists>s'. cbb_add_length_prefixed malloc d (of_nat n) s = (True, s') \<and> room malloc N s'"
    using s1(1) b(1) by (simp add: cbb_add_length_prefixed_def and_then_def room_def)
qed

lemma total_add_asn1:
  assumes malloc: "malloc_contract malloc"
  shows "total malloc N (CBB_add_asn1 malloc d tag) (\<lambda>B. map_option (push DerLength) (put d (tag_octets tag) B))"
  unfolding total_def
proof (intro allI impI)
  fix B s B'
  assume r: "represents B s" "room malloc N s"
    and e: "map_option (push DerLength) (put d (tag_octets tag) B) = Some B'" and sz: "bsize B' \<le> N"
  let ?tag = "let tag_bits = ucast (drop_bit CBS_ASN1_TAG_SHIFT tag) AND 0xe0 :: u8;
          tag_number = tag AND CBS_ASN1_TAG_NUMBER_MASK in
       (if tag_number \<ge> 0x1f then
          and_then (CBB_add_u8 malloc d (tag_bits OR 0x1f))
            (add_base128_integer malloc d (ucast tag_number))
        else CBB_add_u8 malloc d (tag_bits OR ucast tag_number))"
  obtain B2 where B2: "put d (tag_octets tag) B = Some B2" "B' = push DerLength B2" using e by auto
  then have sz2: "bsize B2 + 1 \<le> N" using sz by simp
  obtain B1 where B1: "close_to d B = Some B1" "B2 = top_append (tag_octets tag) B1"
    using B2(1) by (auto simp: put_def)
  have l1: "length (snd B1) = d" by (rule close_to_length [OF B1(1)])
  then have l2: "length (snd B2) = d" by (simp add: B1(2))
  have "bsize B1 \<le> N" using sz2 B1(2) by simp
  then obtain s1 where s1: "CBB_flush malloc d s = (True, s1)" "room malloc N s1"
    using total_flush [OF malloc, of N d] r B1(1) unfolding total_def by blast
  have r1: "represents B1 s1" using refinesD [OF refines_flush [OF malloc] r(1) s1(1)] B1(1) by auto
  have p1: "put d (tag_octets tag) B1 = Some B2" using l1 B1(2) by (simp add: put_def close_to_closed)
  have "bsize B2 \<le> N" using sz2 by simp
  then obtain s2 where s2: "?tag s1 = (True, s2)" "room malloc N s2"
    using total_tag [OF malloc, of N tag d] r1 s1(2) p1 unfolding total_def by blast
  have r2: "represents B2 s2" using refinesD [OF refines_tag [OF malloc] r1 s2(1)] p1 by auto
  have "put d [0] B2 = Some (top_append [0] B2)" using l2 by (simp add: put_def close_to_closed)
  moreover have "bsize (top_append [0] B2) \<le> N" using sz2 by simp
  ultimately obtain s3 where s3: "CBB_add_u8 malloc d 0 s2 = (True, s3)" "room malloc N s3"
    using total_add_u8 [OF malloc, of N d 0] r2 s2(2) unfolding total_def by blast
  obtain b where b: "base s2 = Some b" using s2(2) by (auto simp: room_def)
  show "\<exists>s'. CBB_add_asn1 malloc d tag s = (True, s') \<and> room malloc N s'"
    unfolding CBB_add_asn1_def Let_def and_then_True
    using s1 s2 [unfolded Let_def] s3 b by (fastforce simp: and_then_def room_def)
qed

section \<open>Documents that fit are written\<close>

definition emits_total :: "libc_malloc \<Rightarrow> nat \<Rightarrow> (CBB \<Rightarrow> bool \<times> CBB) \<Rightarrow> nat \<Rightarrow> bytes option \<Rightarrow> bool" where
  "emits_total malloc N f d x \<longleftrightarrow> (\<forall>B s c. represents B s \<longrightarrow> room malloc N s \<longrightarrow> length (snd B) = d \<longrightarrow>
     x = Some c \<longrightarrow> bsize B + length c \<le> N \<longrightarrow> (\<exists>s'. f s = (True, s') \<and> room malloc N s'))"

lemma emits_totalD:
  assumes "emits_total malloc N f d (Some c)" "represents B s" "room malloc N s" "length (snd B) = d" "bsize B + length c \<le> N"
  obtains s' where "f s = (True, s')" "room malloc N s'"
  using assms unfolding emits_total_def by blast

lemma emits_total_child:
  assumes malloc: "malloc_contract malloc"
    and o: "refines open (\<lambda>B. map_option (push k) (put d h B))" "total malloc N open (\<lambda>B. map_option (push k) (put d h B))"
    and body: "emits_ok body (Suc d) c" "emits_total malloc N body (Suc d) c"
  shows "emits_total malloc N (and_then open (and_then body (CBB_flush malloc d))) d
    (Option.bind c (\<lambda>c. Option.bind (prefix_enc k (length c)) (\<lambda>x. Some (h @ x @ c))))"
  unfolding emits_total_def
proof (intro allI impI)
  fix B s x
  assume r: "represents B s" "room malloc N s" and l: "length (snd B) = d"
    and x: "Option.bind c (\<lambda>c. Option.bind (prefix_enc k (length c)) (\<lambda>x. Some (h @ x @ c))) = Some x"
    and sz: "bsize B + length x \<le> N"
  obtain c' p where c': "c = Some c'" "prefix_enc k (length c') = Some p" "x = h @ p @ c'"
    using x by (cases c; cases "prefix_enc k (length (the c))") auto
  have pk: "plen k \<le> length p" by (rule prefix_enc_plen [OF c'(2)])
  have pB: "map_option (push k) (put d h B) = Some (push k (top_append h B))"
    using l by (simp add: put_def close_to_closed)
  let ?B1 = "push k (top_append h B)"
  have z1: "bsize ?B1 + length c' \<le> N" using sz c'(3) pk by simp
  then have z0: "bsize ?B1 \<le> N" by linarith
  obtain s1 where s1: "open s = (True, s1)" "room malloc N s1"
    by (rule totalD [OF o(2) r pB z0])
  have r1: "represents ?B1 s1" using refinesD [OF o(1) r(1) s1(1)] pB by auto
  have l1: "length (snd ?B1) = Suc d" using l by (simp add: push_def)
  obtain s2 where s2: "body s1 = (True, s2)" "room malloc N s2"
    by (rule emits_totalD [OF body(2) [unfolded c'(1)] r1 s1(2) l1 z1])
  have r2: "represents (top_append c' ?B1) s2" using emits_okD [OF body(1) r1 l1 s2(1)] c'(1) by auto
  have cl: "close_to d (top_append c' ?B1) = Some (top_append (p @ c') (top_append h B))"
    using close_push [of "top_append h B" d c' k] l c'(2) by simp
  have z2: "bsize (top_append (p @ c') (top_append h B)) \<le> N" using sz c'(3) by simp
  obtain s3 where s3: "CBB_flush malloc d s2 = (True, s3)" "room malloc N s3"
    by (rule totalD [OF total_flush [OF malloc] r2 s2(2) cl z2])
  show "\<exists>s'. and_then open (and_then body (CBB_flush malloc d)) s = (True, s') \<and> room malloc N s'"
    using s1 s2 s3 by (simp add: and_then_def)
qed

lemma total_u_length_prefixed:
  assumes "malloc_contract malloc" "1 \<le> n" "n \<le> 3"
  shows "total malloc N (if n = 1 then CBB_add_u8_length_prefixed malloc d
        else if n = 2 then CBB_add_u16_length_prefixed malloc d
        else CBB_add_u24_length_prefixed malloc d) (\<lambda>B. map_option (push (Fixed n)) (put d [] B))"
proof -
  have "n = 1 \<or> n = 2 \<or> n = 3" using assms by linarith
  then have "(if n = 1 then CBB_add_u8_length_prefixed malloc d
        else if n = 2 then CBB_add_u16_length_prefixed malloc d
        else CBB_add_u24_length_prefixed malloc d) = cbb_add_length_prefixed malloc d (of_nat n)"
    by (auto simp: CBB_add_u8_length_prefixed_def CBB_add_u16_length_prefixed_def CBB_add_u24_length_prefixed_def)
  moreover have "put d [] B = close_to d B" for B by (simp add: put_def option.map_id [unfolded id_def] cong: option.map_cong)
  ultimately show ?thesis using total_length_prefixed [OF assms, of N d] by simp
qed

lemma emit_total:
  assumes malloc: "malloc_contract malloc"
  shows "wf_item i \<Longrightarrow> emits_total malloc N (emit malloc d i) d (doc i)"
    and "list_all wf_item is \<Longrightarrow> emits_total malloc N (emits malloc d is) d (docs is)"
proof (induction i and "is" arbitrary: d and d rule: doc_docs.induct)
  case (1 x)
  have "emits_total malloc N (CBB_add_bytes malloc d x) d (Some x)"
    unfolding emits_total_def
  proof (intro allI impI)
    fix B s c
    assume a: "represents B s" "room malloc N s" "length (snd B) = d" "Some x = Some c" "bsize B + length c \<le> N"
    have p: "put d x B = Some (top_append x B)" using a by (simp add: put_def close_to_closed)
    show "\<exists>s'. CBB_add_bytes malloc d x s = (True, s') \<and> room malloc N s'"
      by (rule totalD [OF total_add_bytes [OF malloc] a(1,2) p]) (use a 1 in auto)
  qed
  then show ?case by (simp add: emit.simps [abs_def])
next
  case (2 n "is")
  then have n: "1 \<le> n" "n \<le> 3" and wf: "list_all wf_item is" by auto
  show ?case
    using emits_total_child [OF malloc refines_u_length_prefixed [OF malloc n] total_u_length_prefixed [OF malloc n]
        emit_ok(2) [OF malloc wf] "2.IH" [OF wf]]
    by (simp add: emit.simps [abs_def])
next
  case (3 t "is")
  then have wf: "list_all wf_item is" by auto
  have "Option.bind (docs is) (\<lambda>c. Option.bind (prefix_enc DerLength (length c)) (\<lambda>x. Some (tag_octets t @ x @ c))) =
      doc (Asn1 t is)"
    by (cases "docs is") (auto simp: der_element_def der_header_def)
  then show ?case
    using emits_total_child [OF malloc refines_add_asn1 [OF malloc, of d t] total_add_asn1 [OF malloc, of N d t]
        emit_ok(2) [OF malloc wf] "3.IH" [OF wf]]
    by (simp add: emit.simps [abs_def] del: doc.simps)
next
  case 4
  then show ?case by (auto simp: emits_total_def)
next
  case (5 i "is")
  show ?case unfolding emits_total_def
  proof (intro allI impI)
    fix B s c
    assume r: "represents B s" "room malloc N s" and l: "length (snd B) = d" and c: "docs (i # is) = Some c"
      and sz: "bsize B + length c \<le> N"
    from 5(3) have wf: "wf_item i" "list_all wf_item is" by simp_all
    obtain x y where xy: "doc i = Some x" "docs is = Some y" "c = x @ y" using c by (auto split: bind_splits)
    have z1: "bsize B + length x \<le> N" using sz xy by simp
    obtain s1 where s1: "emit malloc d i s = (True, s1)" "room malloc N s1"
      by (rule emits_totalD [OF "5.IH"(1) [OF wf(1), unfolded xy(1)] r l z1])
    have r1: "represents (top_append x B) s1" using emits_okD [OF emit_ok(1) [OF malloc wf(1)] r(1) l s1(1)] xy by auto
    obtain s2 where "emits malloc d is s1 = (True, s2)" "room malloc N s2"
      by (rule emits_totalD [OF "5.IH"(2) [OF xy(1) wf(2), unfolded xy(2)] r1 s1(2)]) (use l sz xy in simp_all)
    then show "\<exists>s'. emits malloc d (i # is) s = (True, s') \<and> room malloc N s'"
      using s1 by (simp add: and_then_def)
  qed
qed

end
