(* ===== verification/CbbSafe.thy ===== *)
theory CbbSafe
  imports CbbTotal
begin

text \<open>
  Memory safety of the builder, on every path: whatever the calls return, each store stays inside
  the buffer (a store past its end would change the length of the list that models it), \<^verbatim>\<open>len\<close>
  never passes \<^verbatim>\<open>cap\<close>, \<^verbatim>\<open>cap\<close> never shrinks, the contents of every open child start within \<^verbatim>\<open>cap\<close>, and a
  fixed buffer is neither moved nor resized.
\<close>

text \<open>\<^verbatim>\<open>K\<close> is the capacity of a fixed buffer.\<close>

definition safe :: "u64 option \<Rightarrow> cbb_buffer \<Rightarrow> bool" where
  "safe K b \<longleftrightarrow> blen b \<le> cap b \<and> unat (cap b) < 2 ^ 63 \<and> (can_resize b \<longrightarrow> unat (cap b) + 8 < 2 ^ 63) \<and>
     (case buf b of None \<Rightarrow> cap b = 0 | Some m \<Rightarrow> length m = unat (cap b)) \<and>
     (case K of None \<Rightarrow> True | Some k \<Rightarrow> \<not> can_resize b \<and> cap b = k)"

lemma safe_error [simp]: "safe K (b\<lparr>berror := e\<rparr>) = safe K b"
  by (simp add: safe_def split: option.splits)

lemma safe_buffer_ok: "safe K b \<Longrightarrow> buffer_ok (b\<lparr>berror := False\<rparr>)"
  by (auto simp: safe_def buffer_ok_def split: option.splits)

lemma safe_buf_put:
  "safe K b \<Longrightarrow> unat off + length xs \<le> unat (cap b) \<Longrightarrow> safe K (buf_put b off xs)"
  by (auto simp: safe_def buf_put_def split: option.splits)

lemma safe_mem_move:
  assumes "safe K b" "d + n \<le> unat (cap b)" "s + n \<le> unat (cap b)"
  shows "safe K (b\<lparr>buf := map_option (\<lambda>m. mem_move m d s n) (buf b)\<rparr>)"
  using assms by (auto simp: safe_def split: option.splits)

lemma reserve_safe:
  assumes s: "safe K b" and malloc: "malloc_contract malloc" and n: "unat n < 2 ^ 63"
    and r: "cbb_buffer_reserve malloc b n = (out, b')"
  shows "safe K b' \<and> blen b' = blen b \<and> cap b \<le> cap b' \<and>
    (out \<noteq> None \<longrightarrow> out = Some (blen b) \<and> unat (blen b) + unat n \<le> unat (cap b'))"
proof -
  have bl: "unat (blen b) \<le> unat (cap b)" "unat (cap b) < 2 ^ 63" using s by (auto simp: safe_def word_le_nat_alt)
  have nl: "unat (blen b + n) = unat (blen b) + unat n"
    using bl n by (simp add: unat_word_ariths)
  then have c0: "\<not> blen b + n < blen b" by (simp add: word_less_nat_alt)
  show ?thesis
  proof (cases "blen b + n > cap b")
    case False
    then have "out = Some (blen b)" "b' = b" using r c0 by (auto simp: cbb_buffer_reserve_def)
    then show ?thesis using s False nl by (simp add: word_le_nat_alt not_less)
  next
    case True
    define newcap where "newcap = (if cap b * 2 < cap b \<or> cap b * 2 < blen b + n then blen b + n else cap b * 2)"
    show ?thesis
    proof (cases "can_resize b")
      case False
      then show ?thesis using r c0 True s by (auto simp: cbb_buffer_reserve_def Let_def)
    next
      case res: True
      note r' = r [unfolded cbb_buffer_reserve_def Let_def, folded newcap_def, simplified c0 True res if_True if_False simp_thms]
      show ?thesis
      proof (cases "OPENSSL_realloc malloc (buf b) newcap")
        case None
        then show ?thesis using r' s by auto
      next
        case (Some m)
        have cap: "unat (cap b) + 8 < 2 ^ 63" using s res by (simp add: safe_def)
        then have c2: "unat (cap b * 2) = unat (cap b) * 2" by (simp add: unat_word_ariths)
        have nc: "unat newcap < 2 ^ 64 - 8" "unat (blen b) + unat n \<le> unat newcap"
          using cap c2 nl n bl by (auto simp: newcap_def word_less_nat_alt)
        have up: "cap b \<le> newcap" using True nl nc by (simp add: word_le_nat_alt word_less_nat_alt)
        have K: "K = None" using s res by (auto simp: safe_def split: option.splits)
        from OPENSSL_realloc_ok [OF malloc Some nc(1)] nc up bl r' Some K show ?thesis
          by (auto simp: safe_def word_le_nat_alt)
      qed
    qed
  qed
qed

lemma add_safe:
  assumes s: "safe K b" and malloc: "malloc_contract malloc" and n: "unat n < 2 ^ 63"
    and r: "cbb_buffer_add malloc b n = (out, b')"
  shows "safe K b' \<and> cap b \<le> cap b' \<and> blen b \<le> blen b' \<and> (out \<noteq> None \<longrightarrow> out = Some (blen b) \<and> unat (blen b') = unat (blen b) + unat n)"
proof -
  obtain b1 where b1: "cbb_buffer_reserve malloc b n = (out, b1)"
      "b' = (case out of None \<Rightarrow> b1 | Some _ \<Rightarrow> b1\<lparr>blen := blen b1 + n\<rparr>)"
    using r by (cases "cbb_buffer_reserve malloc b n") (auto simp: cbb_buffer_add_def split: option.splits)
  note rs = reserve_safe [OF s malloc n b1(1)]
  show ?thesis
  proof (cases out)
    case None
    then show ?thesis using rs b1 by simp
  next
    case (Some off)
    then have c: "unat (blen b1) + unat n \<le> unat (cap b1)" "off = blen b" "blen b1 = blen b" using rs by auto
    have "unat (blen b1 + n) = unat (blen b1) + unat n"
      using c(1) rs by (simp add: unat_word_ariths safe_def)
    then show ?thesis using rs c Some b1(2)
      by (simp add: safe_def word_le_nat_alt split: option.splits)
  qed
qed

lemma safe_len: "safe K b \<Longrightarrow> unat (blen b) \<le> unat (cap b)"
  by (simp add: safe_def word_le_nat_alt)

lemma cap_buf_put [simp]: "cap (buf_put b off xs) = cap b" "blen (buf_put b off xs) = blen b"
  by (simp_all add: buf_put_def)

lemma add_u_safe:
  assumes "safe K b" "malloc_contract malloc" "unat k < 2 ^ 63" "cbb_buffer_add_u malloc b v k = (ok, b')"
  shows "safe K b' \<and> cap b \<le> cap b'"
proof (cases "k = 0")
  case False
  obtain out b1 where b1: "cbb_buffer_add malloc b k = (out, b1)" by (cases "cbb_buffer_add malloc b k")
  note a = add_safe [OF assms(1-3) b1]
  show ?thesis
  proof (cases out)
    case None
    then show ?thesis using a b1 False assms(4) by (simp add: cbb_buffer_add_u_def)
  next
    case (Some off)
    have "unat off + length (fst (store_be (unat k) v)) \<le> unat (cap b1)"
      using a Some safe_len [of K b1] by (simp add: store_be_eq)
    then have "safe K (buf_put b1 off (fst (store_be (unat k) v)))" using a by (intro safe_buf_put) auto
    then show ?thesis using assms(4) False b1 Some a
      by (auto simp: cbb_buffer_add_u_def Let_def split: prod.splits if_splits)
  qed
qed (use assms in \<open>simp add: cbb_buffer_add_u_def\<close>)

lemma flush_asn1_safe:
  assumes s: "safe K b" and malloc: "malloc_contract malloc"
    and len: "unat start + unat n \<le> unat (blen b)" and off: "unat (offset f) < unat start"
    and r: "flush_asn1 malloc f b start n = (res, b')"
  shows "safe K b' \<and> cap b \<le> cap b' \<and> blen b \<le> blen b' \<and> (\<forall>f' n'. res = Some (f', n') \<longrightarrow>
    unat (offset f') + unat (pending_len_len f') \<le> unat (blen b'))"
proof (cases "n > 0xfffffffe")
  case True
  then show ?thesis using r s by (auto simp: flush_asn1_def)
next
  case False
  obtain L i n' where ll: "asn1_len_len n = (L, i, n')" by (metis surj_pair)
  have L: "1 \<le> unat L" "unat L \<le> 5" "L \<noteq> 1 \<Longrightarrow> n' = n"
    using ll by (auto simp: asn1_len_len_def split: if_splits)
  have L1: "unat (L - 1) = unat L - 1"
    using L by (simp add: unat_sub_if')
  have ex: "unat (ucast (L - 1) :: u64) = unat L - 1" using L1 by (simp add: unat_ucast_up)
  have bl: "unat (blen b) \<le> unat (cap b)" "unat (cap b) < 2 ^ 63" using s by (auto simp: safe_def word_le_nat_alt)
  have o1: "unat (offset f + 1) = unat (offset f) + 1"
    using off bl len by (simp add: unat_word_ariths)
  show ?thesis
  proof (cases "L = 1")
    case True
    then have res: "res = Some (f\<lparr>offset := offset f + 1, pending_len_len := L - 1\<rparr>, n')" "b' = buf_put b (offset f) [i]"
      using r False ll by (auto simp: flush_asn1_def Let_def)
    moreover have "safe K (buf_put b (offset f) [i])"
      using off len bl by (intro safe_buf_put [OF s]) simp
    ultimately show ?thesis using o1 off len True by simp
  next
    case L: False
    then have n': "n' = n" using \<open>L \<noteq> 1 \<Longrightarrow> n' = n\<close> by simp
    obtain out b1 where b1: "cbb_buffer_add malloc b (ucast (L - 1)) = (out, b1)"
      by (cases "cbb_buffer_add malloc b (ucast (L - 1))")
    have "unat (ucast (L - 1) :: u64) < 2 ^ 63" using ex \<open>unat L \<le> 5\<close> by simp
    note a = add_safe [OF s malloc this b1]
    note r' = r [unfolded flush_asn1_def Let_def ll prod.case b1, simplified False L if_False if_True simp_thms]
    show ?thesis
    proof (cases out)
      case None
      then show ?thesis using r' a by auto
    next
      case (Some o')
      have bl1: "unat (blen b1) = unat (blen b) + (unat L - 1)" "unat (blen b1) \<le> unat (cap b1)" "safe K b1"
        using a Some ex safe_len [of K b1] by auto
      have se: "unat (start + ucast (L - 1)) = unat start + (unat L - 1)"
        using ex len bl \<open>unat L \<le> 5\<close> by (simp add: unat_word_ariths)
      let ?b2 = "b1\<lparr>buf := map_option (\<lambda>m. mem_move m (unat (start + ucast (L - 1))) (unat start) (unat n')) (buf b1)\<rparr>"
      have b2: "safe K ?b2"
        by (rule safe_mem_move) (use bl1 se len n' in auto)
      have "safe K (buf_put ?b2 (offset f) [i])"
        by (rule safe_buf_put [OF b2]) (use off len bl1 in simp)
      moreover have "res = Some (f\<lparr>offset := offset f + 1, pending_len_len := L - 1\<rparr>, n')"
          "b' = buf_put ?b2 (offset f) [i]"
        using r' Some by auto
      ultimately show ?thesis using o1 off len bl1 L1 a by simp
    qed
  qed
qed

lemma no_wrap:
  fixes s a p :: nat
  assumes s: "s = (a + p) mod 2 ^ 64" and "a \<le> s" "a < 2 ^ 64" "p < 256"
  shows "s = a + p"
proof (rule ccontr)
  assume "s \<noteq> a + p"
  then have ge: "2 ^ 64 \<le> a + p" using s by (metis mod_less not_le)
  then have "s = (a + p - 2 ^ 64) mod 2 ^ 64" unfolding s by (rule le_mod_geq)
  also have "\<dots> \<le> a + p - 2 ^ 64" by (rule mod_less_eq_dividend)
  finally show False using assms ge by simp
qed

text \<open>The contents of every open child start within the buffer.\<close>

definition frames_in :: "u64 \<Rightarrow> cbb_frame list \<Rightarrow> bool" where
  "frames_in c fs \<longleftrightarrow> (\<forall>f\<in>set fs. unat (offset f) + unat (pending_len_len f) \<le> unat c)"

lemma frames_in_simps [simp]:
  "frames_in c []" "frames_in c (f # fs) \<longleftrightarrow> unat (offset f) + unat (pending_len_len f) \<le> unat c \<and> frames_in c fs"
  "frames_in c (fs @ gs) \<longleftrightarrow> frames_in c fs \<and> frames_in c gs"
  by (auto simp: frames_in_def)

lemma frames_in_mono: "frames_in c fs \<Longrightarrow> c \<le> c' \<Longrightarrow> frames_in c' fs"
  by (auto simp: frames_in_def word_le_nat_alt)

lemma frames_in_take_drop: "frames_in c fs \<Longrightarrow> frames_in c (take d fs) \<and> frames_in c (drop d fs)"
  by (auto simp: frames_in_def dest: in_set_takeD in_set_dropD)

lemma flush_frames_safe:
  assumes "malloc_contract malloc"
  shows "flush_frames malloc fs b = (ok, fs', b') \<Longrightarrow> safe K b \<Longrightarrow> frames_in (cap b) fs \<Longrightarrow>
    safe K b' \<and> cap b \<le> cap b' \<and> blen b \<le> blen b' \<and> frames_in (cap b') fs'"
proof (induction fs arbitrary: ok fs' b')
  case (Cons f fs)
  show ?case
  proof (cases "berror b \<or> pending_len_len f = 0")
    case True
    then show ?thesis using Cons.prems by (auto split: if_splits)
  next
    case False
    obtain ok1 fs1 b1 where f1: "flush_frames malloc fs b = (ok1, fs1, b1)" by (metis surj_pair)
    have i: "safe K b1 \<and> cap b \<le> cap b1 \<and> blen b \<le> blen b1 \<and> frames_in (cap b1) fs1"
      by (rule Cons.IH [OF f1 Cons.prems(2)]) (use Cons.prems(3) in simp)
    then have s1: "safe K b1" ..
    have fin: "unat (offset f) + unat (pending_len_len f) \<le> unat (cap b1)"
      using Cons.prems(3) i by (auto simp: word_le_nat_alt)
    let ?start = "offset f + ucast (pending_len_len f)"
    note eq = Cons.prems(1) [unfolded flush_frames.simps Let_def f1 prod.case, simplified False]
    show ?thesis
    proof (cases "ok1 \<and> \<not> (?start < offset f \<or> blen b1 < ?start)")
      case False
      then show ?thesis using eq i fin \<open>\<not> (berror b \<or> pending_len_len f = 0)\<close> by (auto split: bool.splits if_splits)
    next
      case True
      have pu: "unat (ucast (pending_len_len f) :: u64) = unat (pending_len_len f)" by (simp add: unat_ucast_up)
      have pos: "unat (pending_len_len f) > 0" using False unsigned_eq_0_iff [of "pending_len_len f"] by (metis gr0I)
      have st: "unat ?start = unat (offset f) + unat (pending_len_len f)"
      proof -
        have "unat ?start = (unat (offset f) + unat (pending_len_len f)) mod 2 ^ 64"
          by (simp add: unat_word_ariths pu)
        moreover have "unat (offset f) \<le> unat ?start" using True by (simp add: word_less_nat_alt not_less)
        moreover have "unat (offset f) < 2 ^ 64" by (rule order_less_le_trans [OF unsigned_less]) simp
        moreover have "unat (pending_len_len f) < 256" by simp
        ultimately show ?thesis by (rule no_wrap)
      qed
      have len: "unat ?start + unat (blen b1 - ?start) \<le> unat (blen b1)"
      proof -
        have "?start \<le> blen b1" using True by (simp add: not_less)
        then have "unat (blen b1 - ?start) = unat (blen b1) - unat ?start" "unat ?start \<le> unat (blen b1)"
          by (simp_all only: unat_sub word_le_nat_alt)
        then show ?thesis by linarith
      qed
      show ?thesis
      proof (cases "pending_is_asn1 f")
        case asn1: True
        obtain res b2 where r: "flush_asn1 malloc f b1 ?start (blen b1 - ?start) = (res, b2)" by (metis surj_pair)
        have "unat (offset f) < unat ?start" using st pos by simp
        note a = flush_asn1_safe [OF s1 assms len this r]
        have up: "cap b \<le> cap b2" "blen b \<le> blen b2" "frames_in (cap b2) fs1" "unat (offset f) + unat (pending_len_len f) \<le> unat (cap b2)"
          using a i fin by (auto intro: frames_in_mono simp: word_le_nat_alt)
        show ?thesis
        proof (cases res)
          case None
          then show ?thesis using eq a up r asn1 True False by auto
        next
          case (Some fn)
          obtain f' n' where fn: "fn = (f', n')" by (cases fn)
          let ?bs = "fst (store_be (unat (pending_len_len f')) n')"
          have f': "unat (offset f') + unat (pending_len_len f') \<le> unat (cap b2)"
            using a Some fn safe_len [of K b2] by auto
          then have "unat (offset f') + length ?bs \<le> unat (cap b2)" by (simp add: store_be_eq)
          then have "safe K (buf_put b2 (offset f') ?bs)" using a by (intro safe_buf_put) auto
          then show ?thesis using eq r asn1 True False Some fn up f'
            by (auto split: prod.splits if_splits)
        qed
      next
        case plain: False
        let ?bs = "fst (store_be (unat (pending_len_len f)) (blen b1 - ?start))"
        have "unat (offset f) + length ?bs \<le> unat (cap b1)"
          using st len safe_len [OF s1] by (simp add: store_be_eq)
        then have "safe K (buf_put b1 (offset f) ?bs)" using s1 by (intro safe_buf_put)
        then show ?thesis using eq plain True False i fin by (auto split: prod.splits if_splits)
      qed
    qed
  qed
qed auto

section \<open>Every operation is safe\<close>

definition state_safe :: "u64 option \<Rightarrow> CBB \<Rightarrow> bool" where
  "state_safe K s \<longleftrightarrow> (\<forall>b. base s = Some b \<longrightarrow> safe K b \<and> frames_in (cap b) (chain s))"

text \<open>The buffer does not shrink.\<close>

definition buffer_grows :: "CBB \<Rightarrow> CBB \<Rightarrow> bool" where
  "buffer_grows s s' \<longleftrightarrow> (\<forall>b'. base s' = Some b' \<longrightarrow> (\<exists>b. base s = Some b \<and> cap b \<le> cap b'))"

lemma buffer_grows_refl [simp]: "buffer_grows s s"
  by (simp add: buffer_grows_def)

lemma buffer_grows_trans: "buffer_grows s s' \<Longrightarrow> buffer_grows s' s'' \<Longrightarrow> buffer_grows s s''"
  unfolding buffer_grows_def by (meson order_trans)

abbreviation safe_step :: "u64 option \<Rightarrow> CBB \<Rightarrow> CBB \<Rightarrow> bool" where
  "safe_step K s s' \<equiv> state_safe K s' \<and> buffer_grows s s'"

lemma safe_step_trans: "safe_step K s s' \<Longrightarrow> safe_step K s' s'' \<Longrightarrow> safe_step K s s''"
  using buffer_grows_trans by blast

definition keeps :: "u64 option \<Rightarrow> (CBB \<Rightarrow> bool \<times> CBB) \<Rightarrow> bool" where
  "keeps K f \<longleftrightarrow> (\<forall>s ok s'. state_safe K s \<longrightarrow> f s = (ok, s') \<longrightarrow> safe_step K s s')"

lemma keepsD: "keeps K f \<Longrightarrow> state_safe K s \<Longrightarrow> f s = (ok, s') \<Longrightarrow> state_safe K s'"
  unfolding keeps_def by blast

lemma keeps_step: "keeps K f \<Longrightarrow> state_safe K s \<Longrightarrow> f s = (ok, s') \<Longrightarrow> safe_step K s s'"
  unfolding keeps_def by blast

lemma keepsI: "(\<And>s ok s'. state_safe K s \<Longrightarrow> f s = (ok, s') \<Longrightarrow> safe_step K s s') \<Longrightarrow> keeps K f"
  unfolding keeps_def by blast

lemma keeps_and_then:
  assumes "keeps K f" and "keeps K g"
  shows "keeps K (and_then f g)"
proof (rule keepsI)
  fix s ok s'
  assume s: "state_safe K s" and r: "and_then f g s = (ok, s')"
  obtain o1 s1 where fs: "f s = (o1, s1)" by (cases "f s")
  note s1 = keeps_step [OF assms(1) s fs]
  show "safe_step K s s'"
  proof (cases o1)
    case True
    then have "g s1 = (ok, s')" using r fs by (simp add: and_then_def)
    then show ?thesis using keeps_step [OF assms(2) conjunct1 [OF s1]] safe_step_trans [OF s1] by blast
  next
    case False
    then show ?thesis using r fs s1 by (simp add: and_then_def)
  qed
qed

lemma keeps_skip: "keeps K (\<lambda>s. (x, s))"
  by (simp add: keeps_def)

lemma safe_step_base:
  assumes "state_safe K s" and "base s = Some b" and "safe K b'" and "cap b \<le> cap b'"
  shows "safe_step K s (s\<lparr>base := Some b'\<rparr>)"
  using assms by (auto simp: state_safe_def buffer_grows_def intro: frames_in_mono)

lemma keeps_on_base:
  assumes "\<And>b ok b'. safe K b \<Longrightarrow> f b = (ok, b') \<Longrightarrow> safe K b' \<and> cap b \<le> cap b'"
  shows "keeps K (on_base f)"
proof (rule keepsI)
  fix s ok s'
  assume s: "state_safe K s" and r: "on_base f s = (ok, s')"
  show "safe_step K s s'"
  proof (cases "base s")
    case (Some b)
    then obtain b' where b': "f b = (ok, b')" "s' = s\<lparr>base := Some b'\<rparr>" using r by (auto simp: on_base_def split: prod.splits)
    have "safe K b" using s Some by (simp add: state_safe_def)
    then show ?thesis using assms [of b ok b'] b' safe_step_base [OF s Some] by simp
  qed (use s r in \<open>simp add: on_base_def\<close>)
qed

lemma keeps_flush:
  assumes m: "malloc_contract malloc"
  shows "keeps K (CBB_flush malloc d)"
proof (rule keepsI)
  fix s ok s'
  assume s: "state_safe K s" and f: "CBB_flush malloc d s = (ok, s')"
  show "safe_step K s s'"
  proof (cases "length (chain s) < d \<or> base s = None")
    case True
    then show ?thesis using s f by (auto simp: CBB_flush_def split: option.splits)
  next
    case False
    then obtain b where b: "base s = Some b" by auto
    obtain o' fs b' where r: "flush_frames malloc (drop d (chain s)) b = (o', fs, b')" by (metis surj_pair)
    have fi: "frames_in (cap b) (take d (chain s))" "frames_in (cap b) (drop d (chain s))"
      using s b frames_in_take_drop by (auto simp: state_safe_def)
    have "safe K b" using s b by (simp add: state_safe_def)
    note k = flush_frames_safe [OF m r this fi(2)]
    have "frames_in (cap b') (take d (chain s))" by (rule frames_in_mono [OF fi(1)]) (use k in simp)
    then show ?thesis using f b r False k by (auto simp: CBB_flush_def state_safe_def buffer_grows_def)
  qed
qed

lemma keeps_add_u:
  assumes "malloc_contract malloc" "unat k < 2 ^ 63"
  shows "keeps K (and_then (CBB_flush malloc d) (on_base (\<lambda>b. cbb_buffer_add_u malloc b v k)))"
  by (intro keeps_and_then keeps_flush keeps_on_base assms) (rule add_u_safe [OF _ assms])

lemma keeps_add_u8: "malloc_contract malloc \<Longrightarrow> keeps K (CBB_add_u8 malloc d v)"
  unfolding CBB_add_u8_def [abs_def] by (rule keeps_add_u) simp_all

text \<open>After a call that has written a byte, the end of the buffer before it is within the buffer.\<close>

lemma add_u8_room:
  assumes m: "malloc_contract malloc" and s: "state_safe K s" and b: "base s = Some b"
    and u: "CBB_add_u8 malloc d v s = (True, s1)" and b1: "base s1 = Some b1"
  shows "unat (blen b) + 1 \<le> unat (cap b1)"
proof -
  obtain s2 where f: "CBB_flush malloc d s = (True, s2)"
    and o: "on_base (\<lambda>b. cbb_buffer_add_u malloc b (ucast v) 1) s2 = (True, s1)"
    using u unfolding CBB_add_u8_def and_then_True by blast
  obtain fs b2 where r: "flush_frames malloc (drop d (chain s)) b = (True, fs, b2)" "base s2 = Some b2"
    using f b by (auto simp: CBB_flush_def split: prod.splits if_splits)
  have "safe K b" "frames_in (cap b) (drop d (chain s))" using s b frames_in_take_drop by (auto simp: state_safe_def)
  note k = flush_frames_safe [OF m r(1) this]
  obtain b3 where a: "cbb_buffer_add_u malloc b2 (ucast v) 1 = (True, b3)" "b1 = b3"
    using o r(2) b1 by (auto simp: on_base_def split: prod.splits)
  obtain out b4 where a4: "cbb_buffer_add malloc b2 1 = (Some out, b4)" "blen b3 = blen b4" "cap b3 = cap b4"
    using a(1) by (auto simp: cbb_buffer_add_u_def Let_def split: prod.splits option.splits if_splits)
  have "safe K b2" "unat (1 :: u64) < 2 ^ 63" using k by simp_all
  note t = add_safe [OF this(1) m this(2) a4(1)]
  have "unat (blen b2) + 1 \<le> unat (cap b4)" using t safe_len [of K b4] by simp
  then show ?thesis using k a(2) a4 by (simp add: word_le_nat_alt)
qed

lemma keeps_add_u16: "malloc_contract malloc \<Longrightarrow> keeps K (CBB_add_u16 malloc d v)"
  unfolding CBB_add_u16_def [abs_def] by (rule keeps_add_u) simp_all

lemma keeps_add_u24: "malloc_contract malloc \<Longrightarrow> keeps K (CBB_add_u24 malloc d v)"
  unfolding CBB_add_u24_def [abs_def] by (rule keeps_add_u) simp_all

lemma keeps_add_u32: "malloc_contract malloc \<Longrightarrow> keeps K (CBB_add_u32 malloc d v)"
  unfolding CBB_add_u32_def [abs_def] by (rule keeps_add_u) simp_all

lemma keeps_add_u64: "malloc_contract malloc \<Longrightarrow> keeps K (CBB_add_u64 malloc d v)"
  unfolding CBB_add_u64_def [abs_def] by (rule keeps_add_u) simp_all

lemma keeps_add_bytes:
  assumes "malloc_contract malloc" "length x < 2 ^ 63"
  shows "keeps K (CBB_add_bytes malloc d x)"
  unfolding CBB_add_bytes_def [abs_def]
proof (intro keeps_and_then keeps_flush keeps_on_base assms)
  fix b ok b'
  assume s: "safe K b" and w: "(case cbb_buffer_add malloc b (of_nat (length x)) of
         (None, b') \<Rightarrow> (False, b') | (Some dest, b') \<Rightarrow> (True, buf_put b' dest x)) = (ok, b')"
  obtain out b1 where b1: "cbb_buffer_add malloc b (of_nat (length x)) = (out, b1)" by (metis surj_pair)
  have u: "unat (of_nat (length x) :: u64) = length x" using assms(2) by (intro unat_of_nat_lt) simp
  have "unat (of_nat (length x) :: u64) < 2 ^ 63" using u assms(2) by simp
  note a = add_safe [OF s assms(1) this b1]
  show "safe K b' \<and> cap b \<le> cap b'"
  proof (cases out)
    case (Some off)
    then have "safe K (buf_put b1 off x)" using a u safe_len [of K b1] by (intro safe_buf_put) auto
    then show ?thesis using w b1 Some a by auto
  qed (use a w b1 in simp)
qed

lemma keeps_length_prefixed:
  assumes "malloc_contract malloc"
  shows "keeps K (cbb_add_length_prefixed malloc d n)"
  unfolding cbb_add_length_prefixed_def [abs_def]
proof (intro keeps_and_then keeps_flush assms)
  let ?g = "\<lambda>cbb. (case base cbb of None \<Rightarrow> (False, cbb)
        | Some b \<Rightarrow> (case cbb_buffer_add malloc b (ucast n) of
               (None, b') \<Rightarrow> (False, cbb\<lparr>base := Some b'\<rparr>)
             | (Some out, b') \<Rightarrow> (True, \<lparr>base = Some (buf_put b' out (replicate (unat n) 0)),
                         chain = take d (chain cbb) @
                           [\<lparr>offset = blen b, pending_len_len = n, pending_is_asn1 = False\<rparr>]\<rparr>)))"
  have "safe_step K s s'" if s: "state_safe K s" and g: "?g s = (ok, s')" for s ok s'
  proof (cases "base s")
    case (Some b)
    then have sb: "safe K b" and fb: "frames_in (cap b) (take d (chain s))"
      using s frames_in_take_drop by (auto simp: state_safe_def)
    obtain out b1 where b1: "cbb_buffer_add malloc b (ucast n) = (out, b1)" by (metis surj_pair)
    have u: "unat (ucast n :: u64) = unat n" by (simp add: unat_ucast_up)
    have "unat n < 2 ^ 63" by (rule less_trans [OF unat_u8_lt]) simp
    then have "unat (ucast n :: u64) < 2 ^ 63" using u by simp
    note a = add_safe [OF sb assms this b1]
    show ?thesis
    proof (cases out)
      case (Some off)
      then have "safe K (buf_put b1 off (replicate (unat n) 0))"
        using a u safe_len [of K b1] by (intro safe_buf_put) auto
      moreover have "frames_in (cap b1) (take d (chain s))" by (rule frames_in_mono [OF fb]) (use a in simp)
      moreover have "unat (blen b) + unat n \<le> unat (cap b1)" using a Some u safe_len [of K b1] by auto
      ultimately show ?thesis using g \<open>base s = Some b\<close> b1 Some a by (auto simp: state_safe_def buffer_grows_def)
    qed (use a g \<open>base s = Some b\<close> b1 safe_step_base [OF s \<open>base s = Some b\<close>] in auto)
  qed (use s g in auto)
  then show "keeps K ?g" unfolding keeps_def by blast
qed

lemma keeps_u_length_prefixed:
  assumes "malloc_contract malloc"
  shows "keeps K (CBB_add_u8_length_prefixed malloc d)" "keeps K (CBB_add_u16_length_prefixed malloc d)"
    "keeps K (CBB_add_u24_length_prefixed malloc d)"
  using keeps_length_prefixed [OF assms]
  by (simp_all add: CBB_add_u8_length_prefixed_def CBB_add_u16_length_prefixed_def CBB_add_u24_length_prefixed_def)

lemma keeps_add_u8s: "malloc_contract malloc \<Longrightarrow> keeps K (add_u8s malloc d bs)"
proof (induction bs)
  case (Cons b bs)
  then show ?case using keeps_and_then [OF keeps_add_u8 Cons.IH] by (simp add: add_u8s.simps(2) [abs_def])
next
  case Nil
  show ?case by (simp add: keeps_def)
qed

lemma keeps_add_asn1:
  assumes "malloc_contract malloc"
  shows "keeps K (CBB_add_asn1 malloc d tag)"
proof -
  have g: "keeps K (\<lambda>cbb. case base cbb of None \<Rightarrow> (False, cbb) | Some b \<Rightarrow>
          and_then (CBB_add_u8 malloc d 0) (\<lambda>cbb'. (True, cbb'\<lparr>chain := take d (chain cbb') @
               [\<lparr>offset = blen b, pending_len_len = 1, pending_is_asn1 = True\<rparr>]\<rparr>)) cbb)"
  proof -
    let ?h = "\<lambda>b cbb'. (True, cbb'\<lparr>chain := take d (chain cbb') @
               [\<lparr>offset = blen b, pending_len_len = 1, pending_is_asn1 = True\<rparr>]\<rparr>)"
    show ?thesis
    proof (rule keepsI)
      fix s ok s'
      assume s: "state_safe K s" and r: "(case base s of None \<Rightarrow> (False, s) | Some b \<Rightarrow>
          and_then (CBB_add_u8 malloc d 0) (?h b) s) = (ok, s')"
      show "safe_step K s s'"
      proof (cases "base s")
        case (Some b)
        obtain o1 s1 where u: "CBB_add_u8 malloc d 0 s = (o1, s1)" by (metis surj_pair)
        note k = keeps_step [OF keeps_add_u8 [OF assms] s u]
        show ?thesis
        proof (cases o1)
          case True
          have s': "s' = snd (?h b s1)" using r Some u True by (simp add: and_then_def)
          have u': "CBB_add_u8 malloc d 0 s = (True, s1)" using u True by simp
          show ?thesis using k unfolding s'
            using add_u8_room [OF assms s Some u'] by (auto simp: state_safe_def buffer_grows_def frames_in_take_drop)
        qed (use k r Some u in \<open>simp add: and_then_def\<close>)
      qed (use s r in simp)
    qed
  qed
  have t: "keeps K (if x then and_then (CBB_add_u8 malloc d a) (add_base128_integer malloc d v)
      else CBB_add_u8 malloc d c)" for x a v c
    using keeps_add_u8 [OF assms] keeps_add_u8s [OF assms]
    by (auto simp: add_base128_integer_def Let_def intro!: keeps_and_then)
  show ?thesis unfolding CBB_add_asn1_def Let_def
    by (intro keeps_and_then keeps_flush assms t g)
qed

lemma keeps_emits: "(\<And>i. i \<in> set is \<Longrightarrow> keeps K (emit malloc d i)) \<Longrightarrow> keeps K (emits malloc d is)"
proof (induction "is")
  case Nil
  show ?case by (simp add: keeps_def)
next
  case (Cons i "is")
  have "keeps K (and_then (emit malloc d i) (emits malloc d is))"
    by (intro keeps_and_then Cons) simp_all
  then show ?case by (simp add: emits.simps(2) [abs_def])
qed

lemma keeps_emit:
  assumes "malloc_contract malloc"
  shows "wf_item i \<Longrightarrow> keeps K (emit malloc d i)"
proof (induction i arbitrary: d)
  case (Raw x)
  then show ?case using keeps_add_bytes [OF assms] by (simp add: emit.simps(1) [abs_def])
next
  case (Prefixed n "is")
  then show ?case unfolding emit.simps(2) [abs_def]
    by (auto intro!: keeps_and_then keeps_flush keeps_u_length_prefixed keeps_emits assms simp: list_all_iff)
next
  case (Asn1 t "is")
  then show ?case unfolding emit.simps(3) [abs_def]
    by (auto intro!: keeps_and_then keeps_flush keeps_add_asn1 keeps_emits assms simp: list_all_iff)
qed

end
