(* ===== verification/CbbProps.thy ===== *)
theory CbbProps
  imports CbbSafe
begin

text \<open>
  The round trip of \<^verbatim>\<open>cbb.c\<close> and \<^verbatim>\<open>cbs.c\<close>, from the creation of a builder to the parse of what it
  finishes with.
\<close>

section \<open>A client of the builder\<close>

text \<open>Create, write, finish, read the \<^verbatim>\<open>*out_len\<close> bytes at \<^verbatim>\<open>*out_data\<close>.\<close>

definition finish_with :: "libc_malloc \<Rightarrow> (CBB \<Rightarrow> bool \<times> CBB) \<Rightarrow> bool \<times> CBB \<Rightarrow> bytes option" where
  "finish_with malloc f init =
     (case and_then (\<lambda>_. init) f (snd init) of
        (False, _) \<Rightarrow> None
      | (True, cbb) \<Rightarrow>
          (case CBB_finish malloc 0 True cbb of
             (None, _) \<Rightarrow> None
           | (Some (None, n), _) \<Rightarrow> Some []
           | (Some (Some m, n), _) \<Rightarrow> Some (take (unat n) m)))"

definition build :: "libc_malloc \<Rightarrow> u64 \<Rightarrow> (CBB \<Rightarrow> bool \<times> CBB) \<Rightarrow> bytes option" where
  "build malloc n f = finish_with malloc f (CBB_init malloc n)"

definition build_fixed :: "libc_malloc \<Rightarrow> bytes \<Rightarrow> (CBB \<Rightarrow> bool \<times> CBB) \<Rightarrow> bytes option" where
  "build_fixed malloc m f = finish_with malloc f (CBB_init_fixed malloc m (of_nat (length m)))"

lemma finish_with_sound:
  assumes malloc: "malloc_contract malloc" and i: "\<And>s. init = (True, s) \<Longrightarrow> represents ([], []) s"
    and f: "emits_ok f 0 x" and r: "finish_with malloc f init = Some out"
  shows "x = Some out"
proof -
  obtain s s1 res s2 where s: "init = (True, s)" "f s = (True, s1)" "CBB_finish malloc 0 True s1 = (Some res, s2)"
      and out: "out = (case res of (None, _) \<Rightarrow> [] | (Some m, n) \<Rightarrow> take (unat n) m)"
    using r by (auto simp: finish_with_def and_then_True split: prod.splits bool.splits option.splits)
  obtain c where c: "x = Some c" "represents (top_append c ([], [])) s1"
    by (rule emits_okD [OF f i [OF s(1)] _ s(2)]) simp
  obtain m n where res: "res = (m, n)" by (cases res)
  show ?thesis using CBB_finish_ok [OF malloc c(2) s(3) [unfolded res]] c(1) out res
    by (auto split: option.splits)
qed

lemma finish_with_total:
  assumes malloc: "malloc_contract malloc" and i: "init = (True, s)" "represents ([], []) s" "room malloc N s"
    and f: "emits_ok f 0 (Some c)" "emits_total malloc N f 0 (Some c)" and fit: "length c \<le> N"
  shows "finish_with malloc f init = Some c"
proof -
  obtain s1 where s1: "f s = (True, s1)" "room malloc N s1"
    by (rule emits_totalD [OF f(2) i(2,3)]) (use fit in \<open>auto simp: bsize_def\<close>)
  have r1: "represents (c, []) s1" using emits_okD [OF f(1) i(2) _ s1(1)] by auto
  obtain s2 where s2: "CBB_flush malloc 0 s1 = (True, s2)" "room malloc N s2"
    by (rule totalD [OF total_flush [OF malloc] r1 s1(2)]) (use fit in \<open>auto simp: bsize_def\<close>)
  obtain b where b: "base s2 = Some b" using s2(2) by (auto simp: room_def)
  have fin: "CBB_finish malloc 0 True s1 = (Some (buf b, blen b), CBB_cleanup 0 s2)"
    using s2(1) b by (simp add: CBB_finish_def)
  from CBB_finish_ok [OF malloc r1 fin] show ?thesis
    using i(1) s1(1) fin by (auto simp: finish_with_def and_then_def split: option.splits)
qed

lemma refines_put_emits_ok: "refines f (put d c) \<Longrightarrow> emits_ok f d (Some c)"
  by (erule emits_ok_refines) (auto simp: put_def close_to_closed)

lemma total_put_emits_total: "total malloc N f (put d c) \<Longrightarrow> emits_total malloc N f d (Some c)"
  unfolding emits_total_def by (auto elim!: totalD simp: put_def close_to_closed)

lemma room_init:
  assumes "N < 2 ^ 60" "unat n \<le> 2 * N" "\<forall>k. unat k \<le> 2 * N + 40 \<longrightarrow> malloc k \<noteq> None"
  shows "\<exists>s. CBB_init malloc n = (True, s) \<and> room malloc N s"
proof -
  have "unat (n + 8) = unat n + 8" using assms by (simp add: unat_word_ariths)
  then have "malloc (n + 8) \<noteq> None" "malloc 40 \<noteq> None" using assms by auto
  then obtain a c where "OPENSSL_malloc malloc n = Some a" "OPENSSL_malloc malloc 32 = Some c"
    by (auto simp: OPENSSL_malloc_def OPENSSL_MALLOC_PREFIX_def)
  then show ?thesis using assms
    by (simp add: CBB_init_def cbb_init_def CBB_zero_def room_def avail_def sizeof_cbb_buffer_st_def Let_def)
qed

lemma room_init_fixed:
  assumes "length m < 2 ^ 60" "malloc 40 \<noteq> None"
  shows "\<exists>s. CBB_init_fixed malloc m (of_nat (length m)) = (True, s) \<and> room malloc (length m) s"
proof -
  have "unat (of_nat (length m) :: u64) = length m" using assms by (intro unat_of_nat_lt) simp
  then show ?thesis using assms
    by (auto simp: CBB_init_fixed_def cbb_init_def CBB_zero_def room_def avail_def OPENSSL_malloc_def
        OPENSSL_MALLOC_PREFIX_def sizeof_cbb_buffer_st_def)
qed

section \<open>A fixed buffer keeps its size\<close>

lemma state_safe_init_fixed:
  assumes "length m < 2 ^ 63" "CBB_init_fixed malloc m (of_nat (length m)) = (ok, s)"
  shows "state_safe (Some (of_nat (length m))) s"
proof -
  have "unat (of_nat (length m) :: u64) = length m" using assms by (intro unat_of_nat_lt) simp
  then show ?thesis using assms
    by (auto simp: CBB_init_fixed_def cbb_init_def CBB_zero_def state_safe_def safe_def split: option.splits)
qed

lemma state_safe_init:
  assumes "malloc_contract malloc" and "unat n + 8 < 2 ^ 63" and "CBB_init malloc n = (ok, s)"
  shows "state_safe None s"
proof -
  have m: "length a = unat n" if "OPENSSL_malloc malloc n = Some a" for a
    using OPENSSL_malloc_ok [OF assms(1) that] assms(2) by simp
  show ?thesis using assms(2,3) m
    by (auto simp: CBB_init_def cbb_init_def CBB_zero_def state_safe_def safe_def Let_def word_gt_0
        split: option.splits if_splits)
qed

lemma finish_fits:
  assumes malloc: "malloc_contract malloc" and s: "state_safe (Some k) s"
    and f: "CBB_finish malloc 0 True s = (Some (m, n), s')"
  shows "unat n \<le> unat k"
proof -
  obtain s1 b where "CBB_flush malloc 0 s = (True, s1)" "base s1 = Some b" "n = blen b"
    using f by (auto simp: CBB_finish_def split: prod.splits bool.splits option.splits if_splits)
  moreover from this have "safe (Some k) b"
    using keepsD [OF keeps_flush [OF malloc] s] by (simp add: state_safe_def)
  ultimately show ?thesis by (auto simp: safe_def word_le_nat_alt)
qed

lemma build_fixed_fits:
  assumes "malloc_contract malloc" "length m < 2 ^ 63" "keeps (Some (of_nat (length m))) f"
    and "build_fixed malloc m f = Some out"
  shows "length out \<le> length m"
proof -
  let ?init = "CBB_init_fixed malloc m (of_nat (length m))"
  have u: "unat (of_nat (length m) :: u64) = length m" using assms(2) by (intro unat_of_nat_lt) simp
  obtain s s1 res s2 where s: "?init = (True, s)" "f s = (True, s1)" "CBB_finish malloc 0 True s1 = (Some res, s2)"
      and out: "out = (case res of (None, _) \<Rightarrow> [] | (Some m, n) \<Rightarrow> take (unat n) m)"
    using assms(4) by (auto simp: build_fixed_def finish_with_def and_then_True split: prod.splits bool.splits option.splits)
  have "state_safe (Some (of_nat (length m))) s1"
    by (rule keepsD [OF assms(3) state_safe_init_fixed [OF assms(2) s(1)] s(2)])
  moreover obtain m' n where res: "res = (m', n)" by (cases res)
  ultimately have "unat n \<le> length m" using finish_fits [OF assms(1)] s(3) u by metis
  moreover have "length out \<le> unat n" using out res by (auto split: option.splits)
  ultimately show ?thesis by simp
qed

section \<open>Calls in any order\<close>

text \<open>
  One call of the interface on the object at depth \<^verbatim>\<open>d\<close> of a chain, whatever it returns.
\<close>

inductive cbb_op :: "libc_malloc \<Rightarrow> nat \<Rightarrow> CBB \<Rightarrow> CBB \<Rightarrow> bool" for malloc d where
  "cbb_op malloc d s (snd (CBB_flush malloc d s))"
| "cbb_op malloc d s (snd (CBB_finish malloc d outs s))"
| "cbb_op malloc d s (CBB_cleanup d s)"
| "cbb_op malloc d s (snd (CBB_add_u8 malloc d v8 s))"
| "cbb_op malloc d s (snd (CBB_add_u16 malloc d v16 s))"
| "cbb_op malloc d s (snd (CBB_add_u16le malloc d v16 s))"
| "cbb_op malloc d s (snd (CBB_add_u24 malloc d v32 s))"
| "cbb_op malloc d s (snd (CBB_add_u32 malloc d v32 s))"
| "cbb_op malloc d s (snd (CBB_add_u32le malloc d v32 s))"
| "cbb_op malloc d s (snd (CBB_add_u64 malloc d v64 s))"
| "cbb_op malloc d s (snd (CBB_add_u64le malloc d v64 s))"
| "length x < 2 ^ 63 \<Longrightarrow> cbb_op malloc d s (snd (CBB_add_bytes malloc d x s))"
| "cbb_op malloc d s (snd (CBB_add_u8_length_prefixed malloc d s))"
| "cbb_op malloc d s (snd (CBB_add_u16_length_prefixed malloc d s))"
| "cbb_op malloc d s (snd (CBB_add_u24_length_prefixed malloc d s))"
| "cbb_op malloc d s (snd (CBB_add_asn1 malloc d tag s))"
| "cbb_op malloc d s (snd (CBB_add_asn1_uint64 malloc d v64 s))"
| "cbb_op malloc d s (snd (CBB_add_asn1_int64 malloc d v64 s))"
| "length x < 2 ^ 63 \<Longrightarrow> cbb_op malloc d s (snd (CBB_add_asn1_octet_string malloc d x s))"
| "cbb_op malloc d s (snd (CBB_add_asn1_bool malloc d vi s))"
| "cbb_op malloc d s (snd (CBB_flush_asn1_set_of malloc d s))"
| "unat n < 2 ^ 63 \<Longrightarrow> cbb_op malloc d s (snd (CBB_add_space malloc d n s))"
| "unat n < 2 ^ 63 \<Longrightarrow> cbb_op malloc d s (snd (CBB_reserve malloc d n s))"
| "cbb_op malloc d s (snd (CBB_did_write d n s))"

text \<open>
  A family of objects: the chain of the top-level object, and the chains that a discarded child has left behind.
  \<^verbatim>\<open>CBB_discard_child\<close> takes the buffer from the child only; an open child of that one goes on with the buffer, at
  depth 1 of a chain of its own, whose object at depth 0 is the discarded one.
\<close>

type_synonym cbb_family = "CBB \<times> cbb_frame list list"

inductive cbb_call :: "libc_malloc \<Rightarrow> cbb_family \<Rightarrow> cbb_family \<Rightarrow> bool" for malloc where
  top: "cbb_op malloc d s s' \<Longrightarrow> cbb_call malloc (s, os) (s', os)"
| left: "i < length os \<Longrightarrow> 0 < d \<Longrightarrow> cbb_op malloc d (s\<lparr>chain := os ! i\<rparr>) t \<Longrightarrow>
    cbb_call malloc (s, os) (t\<lparr>chain := chain s\<rparr>, os[i := chain t])"
| discard_top: "cbb_call malloc (s, os) (CBB_discard_child d s, drop (Suc d) (chain s) # os)"
| discard_left: "i < length os \<Longrightarrow> 0 < d \<Longrightarrow> t = CBB_discard_child d (s\<lparr>chain := os ! i\<rparr>) \<Longrightarrow>
    cbb_call malloc (s, os) (t\<lparr>chain := chain s\<rparr>, drop (Suc d) (os ! i) # os[i := chain t])"

lemma keeps_le:
  assumes "malloc_contract malloc"
  shows "keeps K (CBB_add_u16le malloc d v16)" "keeps K (CBB_add_u32le malloc d v32)" "keeps K (CBB_add_u64le malloc d v64)"
  unfolding CBB_add_u16le_def [abs_def] CBB_add_u32le_def [abs_def] CBB_add_u64le_def [abs_def]
  by (rule keeps_add_u16 keeps_add_u32 keeps_add_u64, rule assms)+

lemma keeps_uint64_bytes:
  assumes "malloc_contract malloc"
  shows "asn1_uint64_bytes malloc d v is started s = (res, s') \<Longrightarrow> state_safe K s \<Longrightarrow> safe_step K s s'"
proof (induction "is" arbitrary: started s)
  case (Cons i "is")
  define byte where "byte = (ucast (drop_bit (8 * (7 - i)) v AND 0xff) :: u8)"
  show ?case
  proof (cases "\<not> started \<and> byte = 0")
    case True
    then show ?thesis using Cons by (simp add: byte_def)
  next
    case False
    define pad where "pad = (if \<not> started \<and> byte AND 0x80 \<noteq> 0 then CBB_add_u8 malloc d 0 s else (True, s))"
    obtain o1 s1 where p: "pad = (o1, s1)" by (cases pad)
    have s1: "safe_step K s s1"
      using p keeps_step [OF keeps_add_u8 [OF assms] Cons.prems(2), of d 0] Cons.prems(2) by (auto simp: pad_def split: if_splits)
    obtain o2 s2 where u: "CBB_add_u8 malloc d byte s1 = (o2, s2)" by (metis surj_pair)
    have s2: "safe_step K s s2" using safe_step_trans [OF s1 keeps_step [OF keeps_add_u8 [OF assms] conjunct1 [OF s1] u]] .
    have e: "(case pad of (False, cbb') \<Rightarrow> ((False, started), cbb') | (True, cbb') \<Rightarrow>
        (case CBB_add_u8 malloc d byte cbb' of (False, cbb'') \<Rightarrow> ((False, started), cbb'')
         | (True, cbb'') \<Rightarrow> asn1_uint64_bytes malloc d v is True cbb'')) = (res, s')"
      using Cons.prems(1) False unfolding asn1_uint64_bytes.simps Let_def byte_def [symmetric] pad_def [symmetric] by (simp only: if_False)
    show ?thesis
    proof (cases "o1 \<and> o2")
      case True
      then have "asn1_uint64_bytes malloc d v is True s2 = (res, s')" using e p u by simp
      then show ?thesis using Cons.IH [of True s2] s2 safe_step_trans by blast
    qed (use e p u s1 s2 in \<open>auto split: bool.splits\<close>)
  qed
qed simp

lemma keeps_asn1_uint64:
  assumes "malloc_contract malloc"
  shows "keeps K (CBB_add_asn1_uint64 malloc d v)"
  unfolding CBB_add_asn1_uint64_def
proof (intro keeps_and_then keeps_add_asn1 assms)
  have k: "keeps K (and_then (\<lambda>cbb. if \<not> started then CBB_add_u8 malloc (Suc d) 0 cbb else (True, cbb)) (CBB_flush malloc d))" for started
    using keeps_add_u8 [OF assms] keeps_skip by (cases started) (auto intro!: keeps_and_then keeps_flush assms)
  show "keeps K (\<lambda>cbb. case asn1_uint64_bytes malloc (Suc d) v [0..<8] False cbb of
         ((False, _), cbb') \<Rightarrow> (False, cbb')
       | ((True, started), cbb') \<Rightarrow>
           and_then (\<lambda>cbb. if \<not> started then CBB_add_u8 malloc (Suc d) 0 cbb else (True, cbb)) (CBB_flush malloc d) cbb')"
  proof (rule keepsI)
    fix s ok s'
    assume s: "state_safe K s" and r: "(case asn1_uint64_bytes malloc (Suc d) v [0..<8] False s of
         ((False, _), cbb') \<Rightarrow> (False, cbb')
       | ((True, started), cbb') \<Rightarrow>
           and_then (\<lambda>cbb. if \<not> started then CBB_add_u8 malloc (Suc d) 0 cbb else (True, cbb)) (CBB_flush malloc d) cbb') = (ok, s')"
    obtain o1 started s1 where b: "asn1_uint64_bytes malloc (Suc d) v [0..<8] False s = ((o1, started), s1)" by (metis surj_pair)
    note s1 = keeps_uint64_bytes [OF assms b s]
    show "safe_step K s s'"
    proof (cases o1)
      case True
      then have "and_then (\<lambda>cbb. if \<not> started then CBB_add_u8 malloc (Suc d) 0 cbb else (True, cbb)) (CBB_flush malloc d) s1 = (ok, s')"
        using r b by simp
      then show ?thesis using safe_step_trans [OF s1 keeps_step [OF k conjunct1 [OF s1]]] by blast
    qed (use r b s1 in simp)
  qed
qed

lemma keeps_asn1_values:
  assumes "malloc_contract malloc"
  shows "keeps K (CBB_add_asn1_int64 malloc d v64)" and "keeps K (CBB_add_asn1_bool malloc d vi)"
    and "length x < 2 ^ 63 \<Longrightarrow> keeps K (CBB_add_asn1_octet_string malloc d x)"
proof -
  have "keeps K (if b then CBB_add_asn1_uint64 malloc d v64 else f)" if "keeps K f" for b f
    using that keeps_asn1_uint64 [OF assms] by simp
  then show "keeps K (CBB_add_asn1_int64 malloc d v64)" unfolding CBB_add_asn1_int64_def Let_def
    by (auto intro!: keeps_and_then keeps_add_asn1 keeps_add_u8s keeps_flush keeps_asn1_uint64 assms)
  show "keeps K (CBB_add_asn1_bool malloc d vi)" unfolding CBB_add_asn1_bool_def
    by (intro keeps_and_then keeps_add_asn1 keeps_add_u8 keeps_flush assms)
  show "length x < 2 ^ 63 \<Longrightarrow> keeps K (CBB_add_asn1_octet_string malloc d x)" unfolding CBB_add_asn1_octet_string_def
    by (intro keeps_and_then keeps_add_asn1 keeps_add_bytes keeps_flush assms)
qed

text \<open>The elements of a SET OF are short, and the rewound buffer starts within the object.\<close>

lemma get_elements_length: "get_elements n cbs = Some xs \<Longrightarrow> list_all (\<lambda>x. length x < 2 ^ 63) xs"
proof (induction n arbitrary: cbs xs)
  case (Suc n)
  obtain x t hl cbs' ys where e: "CBS_get_any_asn1_element cbs = (Some (x, t, hl), cbs')"
      "get_elements n cbs' = Some ys" "xs = x # ys"
    using Suc.prems by (auto split: prod.splits option.splits)
  obtain c where c: "length c < 2 ^ 32" "x = der_element t c"
    using any_element_sound [OF e(1) [unfolded CBS_get_any_asn1_element_def]] by blast
  have "length x < 2 ^ 63" using c length_der_header [of t "length c"] by (simp add: der_element_def)
  then show ?case using Suc.IH [OF e(2)] e(3) by simp
qed simp

lemma keeps_add_children:
  assumes "malloc_contract malloc"
  shows "list_all (\<lambda>x. length x < 2 ^ 63) xs \<Longrightarrow> keeps K (add_children malloc d xs)"
proof (induction xs)
  case Nil
  show ?case by (simp add: keeps_def)
next
  case (Cons x xs)
  then have "keeps K (and_then (CBB_add_bytes malloc d x) (add_children malloc d xs))"
    by (intro keeps_and_then keeps_add_bytes assms) simp_all
  then show ?case by (simp add: add_children.simps(2) [abs_def])
qed

lemma set_insert_cmp: "set (insert_cmp cmp x ys) = insert x (set ys)"
  by (induction ys) auto

lemma set_qsort: "set (qsort cmp xs) = set xs"
  unfolding qsort_def by (induction xs) (simp_all add: set_insert_cmp)

lemma safe_rewind:
  assumes "state_safe K s" and "d \<le> length (chain s)"
  shows "safe_step K s (s\<lparr>base := map_option (\<lambda>b. b\<lparr>blen := cbb_start d s\<rparr>) (base s)\<rparr>)"
proof (cases "base s")
  case (Some b)
  have b: "safe K b" "frames_in (cap b) (chain s)" using assms(1) Some by (simp_all add: state_safe_def)
  have "cbb_start d s \<le> cap b"
  proof (cases d)
    case (Suc n)
    define f where "f = chain s ! n"
    have "unat (offset f) + unat (pending_len_len f) \<le> unat (cap b)"
      using b(2) Suc assms(2) by (simp add: f_def frames_in_def)
    moreover have "unat (ucast (pending_len_len f) :: u64) = unat (pending_len_len f)" by (simp add: unat_ucast_up)
    ultimately have "unat (offset f + ucast (pending_len_len f)) \<le> unat (cap b)"
      by (simp add: unat_word_ariths(1))
    then show ?thesis using Suc by (simp add: cbb_start_def f_def word_le_nat_alt)
  qed (simp add: cbb_start_def)
  then have "safe K (b\<lparr>blen := cbb_start d s\<rparr>)" using b(1) by (simp add: safe_def split: option.splits)
  then show ?thesis using safe_step_base [OF assms(1) Some] Some by simp
qed (use assms in \<open>simp add: state_safe_def buffer_grows_def\<close>)

lemma keeps_flush_set_of:
  assumes m: "malloc_contract malloc"
  shows "keeps K (CBB_flush_asn1_set_of malloc d)"
proof (rule keepsI)
  fix s ok s'
  assume s: "state_safe K s" and r: "CBB_flush_asn1_set_of malloc d s = (ok, s')"
  obtain o1 s1 where f: "CBB_flush malloc d s = (o1, s1)" by (metis surj_pair)
  note s1 = keeps_step [OF keeps_flush [OF m] s f]
  show "safe_step K s s'"
  proof (cases "s' = s1")
    case False
    have o1: "o1" using r f False by (auto simp: CBB_flush_asn1_set_of_def and_then_def split: bool.splits)
    then have "d \<le> length (chain s1)" using f by (auto simp: CBB_flush_def split: if_splits option.splits prod.splits)
    then have rw: "safe_step K s (s1\<lparr>base := map_option (\<lambda>b. b\<lparr>blen := cbb_start d s1\<rparr>) (base s1)\<rparr>)"
      using safe_step_trans [OF s1] safe_rewind [of K s1 d] s1 by blast
    obtain n bf children where c: "get_elements n (CBS_init bf (unat (CBB_len d s1))) = Some children"
        "add_children malloc d (qsort compare_set_of_element children)
          (s1\<lparr>base := map_option (\<lambda>b. b\<lparr>blen := cbb_start d s1\<rparr>) (base s1)\<rparr>) = (ok, s')"
      using r f o1 False by (auto simp: CBB_flush_asn1_set_of_def and_then_def split: option.splits if_splits)
    have "list_all (\<lambda>x. length x < 2 ^ 63) (qsort compare_set_of_element children)"
      using get_elements_length [OF c(1)] by (simp add: list_all_iff set_qsort)
    then show ?thesis
      using keeps_step [OF keeps_add_children [OF m] conjunct1 [OF rw] c(2)] safe_step_trans [OF rw] by blast
  qed (use s1 in simp)
qed

lemma safe_discard:
  assumes "state_safe K s"
  shows "safe_step K s (CBB_discard_child d s)"
proof (cases "length (chain s) \<le> d")
  case False
  show ?thesis
  proof (cases "base s")
    case (Some b)
    have b: "safe K b" "frames_in (cap b) (chain s)" using assms Some by (simp_all add: state_safe_def)
    then have "unat (offset (chain s ! d)) + unat (pending_len_len (chain s ! d)) \<le> unat (cap b)"
      using False by (simp add: frames_in_def)
    then have "offset (chain s ! d) \<le> cap b" by (simp add: word_le_nat_alt)
    then have "safe K (b\<lparr>blen := offset (chain s ! d)\<rparr>)" using b(1) by (simp add: safe_def split: option.splits)
    then show ?thesis using False Some b(2) frames_in_take_drop
      by (auto simp: CBB_discard_child_def state_safe_def buffer_grows_def)
  qed (use False in \<open>simp add: CBB_discard_child_def state_safe_def buffer_grows_def\<close>)
qed (use assms in \<open>simp add: CBB_discard_child_def\<close>)

lemma keeps_snd: "keeps K f \<Longrightarrow> state_safe K s \<Longrightarrow> safe_step K s (snd (f s))"
  by (cases "f s") (auto dest: keeps_step)

lemma safe_add_space:
  assumes "malloc_contract malloc" "unat n < 2 ^ 63" "state_safe K s"
  shows "safe_step K s (snd (CBB_add_space malloc d n s))" "safe_step K s (snd (CBB_reserve malloc d n s))"
proof -
  obtain ok s1 where f: "CBB_flush malloc d s = (ok, s1)" by (cases "CBB_flush malloc d s")
  note s1 = keeps_step [OF keeps_flush [OF assms(1)] assms(3) f]
  have a: "safe_step K s1 (s1\<lparr>base := Some (snd (cbb_buffer_add malloc b n))\<rparr>)"
    and r: "safe_step K s1 (s1\<lparr>base := Some (snd (cbb_buffer_reserve malloc b n))\<rparr>)" if "base s1 = Some b" for b
  proof -
    have b: "safe K b" using s1 that by (simp add: state_safe_def)
    show "safe_step K s1 (s1\<lparr>base := Some (snd (cbb_buffer_add malloc b n))\<rparr>)"
      using add_safe [OF b assms(1,2)] safe_step_base [OF conjunct1 [OF s1] that] by (cases "cbb_buffer_add malloc b n") simp
    show "safe_step K s1 (s1\<lparr>base := Some (snd (cbb_buffer_reserve malloc b n))\<rparr>)"
      using reserve_safe [OF b assms(1,2)] safe_step_base [OF conjunct1 [OF s1] that] by (cases "cbb_buffer_reserve malloc b n") simp
  qed
  have "snd (CBB_add_space malloc d n s) = s1 \<or> (\<exists>b. base s1 = Some b \<and>
      snd (CBB_add_space malloc d n s) = s1\<lparr>base := Some (snd (cbb_buffer_add malloc b n))\<rparr>)"
    using f by (auto simp: CBB_add_space_def case_prod_beta split: bool.splits option.splits)
  then show "safe_step K s (snd (CBB_add_space malloc d n s))" using s1 a safe_step_trans [OF s1] by auto
  have "snd (CBB_reserve malloc d n s) = s1 \<or> (\<exists>b. base s1 = Some b \<and>
      snd (CBB_reserve malloc d n s) = s1\<lparr>base := Some (snd (cbb_buffer_reserve malloc b n))\<rparr>)"
    using f by (auto simp: CBB_reserve_def case_prod_beta split: bool.splits option.splits)
  then show "safe_step K s (snd (CBB_reserve malloc d n s))" using s1 r safe_step_trans [OF s1] by auto
qed

lemma safe_did_write: "state_safe K s \<Longrightarrow> safe_step K s (snd (CBB_did_write d n s))"
proof -
  assume s: "state_safe K s"
  show ?thesis
  proof (cases "base s")
    case (Some b)
    then have "safe K b" using s by (simp add: state_safe_def)
    then have "\<not> blen b + n > cap b \<Longrightarrow> safe K (b\<lparr>blen := blen b + n\<rparr>)"
      by (simp add: safe_def not_less split: option.splits)
    then show ?thesis using s Some safe_step_base [OF s Some, of "b\<lparr>blen := blen b + n\<rparr>"] by (simp add: CBB_did_write_def Let_def)
  qed (use s in \<open>simp add: CBB_did_write_def\<close>)
qed

lemma safe_cleanup: "state_safe K s \<Longrightarrow> safe_step K s (CBB_cleanup d s)"
  by (simp add: CBB_cleanup_def state_safe_def buffer_grows_def)

lemma safe_finish:
  assumes "malloc_contract malloc" and "state_safe K s"
  shows "safe_step K s (snd (CBB_finish malloc d outs s))"
proof -
  obtain ok s1 where f: "CBB_flush malloc d s = (ok, s1)" by (cases "CBB_flush malloc d s")
  note s1 = keeps_step [OF keeps_flush [OF assms(1)] assms(2) f]
  have "snd (CBB_finish malloc d outs s) \<in> {s, s1, CBB_cleanup d s1}"
    using f by (auto simp: CBB_finish_def split: bool.splits option.splits)
  then show ?thesis using s1 assms(2) safe_step_trans [OF s1 safe_cleanup] by auto
qed

lemma cbb_op_safe:
  assumes "malloc_contract malloc" and "cbb_op malloc d s s'" and "state_safe K s"
  shows "safe_step K s s'"
  using assms(2)
  by cases (simp_all only: keeps_snd [OF _ assms(3)] keeps_flush [OF assms(1)] keeps_add_u8 [OF assms(1)] keeps_add_u16 [OF assms(1)]
    keeps_add_u24 [OF assms(1)] keeps_add_u32 [OF assms(1)] keeps_add_u64 [OF assms(1)] keeps_le [OF assms(1)]
    keeps_add_bytes [OF assms(1)] keeps_u_length_prefixed [OF assms(1)] keeps_add_asn1 [OF assms(1)] keeps_asn1_uint64 [OF assms(1)]
    keeps_asn1_values [OF assms(1)] keeps_flush_set_of [OF assms(1)] safe_add_space [OF assms(1) _ assms(3)]
    safe_did_write [OF assms(3)] safe_cleanup [OF assms(3)] safe_finish [OF assms(1,3)] simp_thms)

definition family_safe :: "u64 option \<Rightarrow> cbb_family \<Rightarrow> bool" where
  "family_safe K = (\<lambda>(s, os). state_safe K s \<and> (\<forall>b fs. base s = Some b \<longrightarrow> fs \<in> set os \<longrightarrow> frames_in (cap b) fs))"

lemma family_step:
  assumes "family_safe K (s, os)" and "i < length os" and "safe_step K (s\<lparr>chain := os ! i\<rparr>) t"
  shows "family_safe K (t\<lparr>chain := chain s\<rparr>, os[i := chain t])"
proof -
  have g: "\<exists>b. base s = Some b \<and> cap b \<le> cap b'" if "base t = Some b'" for b' using assms(3) that by (auto simp: buffer_grows_def)
  have "frames_in (cap b') fs" if b': "base t = Some b'" and fs: "fs \<in> set (os[i := chain t])" for b' fs
  proof -
    obtain b where b: "base s = Some b" "cap b \<le> cap b'" using g [OF b'] by blast
    have "fs = chain t \<or> fs \<in> set os" using fs set_update_subset_insert [of os i "chain t"] by blast
    then show ?thesis using assms(1,3) b b' by (auto simp: family_safe_def state_safe_def intro: frames_in_mono)
  qed
  moreover have "state_safe K (t\<lparr>chain := chain s\<rparr>)"
    using assms(1,3) g by (fastforce simp: family_safe_def state_safe_def intro: frames_in_mono)
  ultimately show ?thesis by (auto simp: family_safe_def)
qed

lemma family_grow:
  assumes "family_safe K (s, os)" and "safe_step K s t"
  shows "family_safe K (t, os)"
proof -
  have "frames_in (cap b') fs" if b': "base t = Some b'" and fs: "fs \<in> set os" for b' fs
  proof -
    obtain b where "base s = Some b" "cap b \<le> cap b'" using assms(2) b' by (auto simp: buffer_grows_def)
    then show ?thesis using assms(1) fs by (auto simp: family_safe_def intro: frames_in_mono)
  qed
  then show ?thesis using assms(2) by (auto simp: family_safe_def)
qed

lemma family_left:
  assumes "family_safe K (s, os)" and "i < length os"
  shows "state_safe K (s\<lparr>chain := os ! i\<rparr>)"
  using assms by (auto simp: family_safe_def state_safe_def)

lemma family_orphan:
  assumes "family_safe K (s, os)" and "\<And>b. base s = Some b \<Longrightarrow> frames_in (cap b) fs"
  shows "family_safe K (s, fs # os)"
  using assms by (auto simp: family_safe_def)

lemma drop_frames: "buffer_grows s t \<Longrightarrow> state_safe K s \<Longrightarrow> base t = Some b \<Longrightarrow> frames_in (cap b) (drop d (chain s))"
  using frames_in_take_drop frames_in_mono unfolding buffer_grows_def state_safe_def by blast

lemma cbb_call_safe:
  assumes "malloc_contract malloc" and "cbb_call malloc s s'" and "family_safe K s"
  shows "family_safe K s'"
  using assms(2)
proof cases
  case (top d s1 s2 os)
  then have k: "family_safe K (s1, os)" using assms(3) by simp
  then have "state_safe K s1" by (simp add: family_safe_def)
  from family_grow [OF k cbb_op_safe [OF assms(1) top(3) this]] show ?thesis unfolding top(2) .
next
  case (left i os d s1 t)
  note k = assms(3) [unfolded left(1)]
  show ?thesis unfolding left(2)
    by (rule family_step [OF k left(3) cbb_op_safe [OF assms(1) left(5) family_left [OF k left(3)]]])
next
  case (discard_top s1 os d)
  have k: "state_safe K s1" using assms(3) by (simp add: discard_top(1) family_safe_def)
  note d = safe_discard [OF k, of d]
  have "family_safe K (CBB_discard_child d s1, os)"
    by (rule family_grow [OF assms(3) [unfolded discard_top(1)] d])
  then show ?thesis unfolding discard_top(2) by (rule family_orphan) (rule drop_frames [OF conjunct2 [OF d] k])
next
  case (discard_left i os d t s1)
  note k = assms(3) [unfolded discard_left(1)]
  note l = family_left [OF k discard_left(3)]
  note d = safe_discard [OF l, of d, folded discard_left(5)]
  have "family_safe K (t\<lparr>chain := chain s1\<rparr>, os[i := chain t])" by (rule family_step [OF k discard_left(3) d])
  then show ?thesis unfolding discard_left(2)
    by (rule family_orphan) (use drop_frames [OF conjunct2 [OF d] l] in simp)
qed

lemma cbb_calls_safe:
  assumes "malloc_contract malloc" and "(cbb_call malloc)\<^sup>*\<^sup>* s s'" and "family_safe K s"
  shows "family_safe K s'"
  using assms(2,3) by induction (use cbb_call_safe [OF assms(1)] in blast)+

section \<open>Properties\<close>

text \<open>
  C1: Whatever nesting of raw bytes, length-prefixed strings and ASN.1 elements a client writes
  through the builder, a finished \<^verbatim>\<open>CBB\<close> holds exactly the encoding of it: every length prefix is
  the length of what follows, also where the contents had to be moved to make room for a longer one.
\<close>

theorem builder_writes_document:
  assumes "malloc_contract malloc" and "unat n < 2 ^ 64 - 8" and "list_all wf_item is"
    and "build malloc n (emits malloc 0 is) = Some out"
  shows "docs is = Some out"
  by (rule finish_with_sound [OF assms(1) represents_init [OF assms(1,2)] emit_ok(2) [OF assms(1,3)]
        assms(4) [unfolded build_def]])

lemma builder_writes_document_witness:
  "docs [Prefixed 2 [Raw [1], Asn1 0x20000010 [Raw (replicate 130 7)]]] =
    build example_malloc 1 (emits example_malloc 0 [Prefixed 2 [Raw [1], Asn1 0x20000010 [Raw (replicate 130 7)]]])"
proof -
  have "build example_malloc 1 (emits example_malloc 0
      [Prefixed 2 [Raw [1], Asn1 0x20000010 [Raw (replicate 130 7)]]]) \<noteq> None"
    by code_simp
  then obtain out where out: "build example_malloc 1 (emits example_malloc 0
      [Prefixed 2 [Raw [1], Asn1 0x20000010 [Raw (replicate 130 7)]]]) = Some out" by blast
  show ?thesis
    using builder_writes_document [OF example_malloc_contract _ _ out] out by simp
qed

text \<open>
  C2: A document that has an encoding is written: with a fixed buffer the builder finishes exactly
  when the encoding fits, and then with that encoding.
\<close>

theorem fixed_builder_exact:
  assumes "malloc_contract malloc" and "malloc 40 \<noteq> None" and "length m < 2 ^ 60" and "list_all wf_item is"
  shows "build_fixed malloc m (emits malloc 0 is) = Some out \<longleftrightarrow> docs is = Some out \<and> length out \<le> length m"
proof
  assume b: "build_fixed malloc m (emits malloc 0 is) = Some out"
  have u: "length m = unat (of_nat (length m) :: u64)" using assms(3) by (intro unat_of_nat_lt [symmetric]) simp
  have l: "length m < 2 ^ 63" using assms(3) by simp
  have k: "keeps (Some (of_nat (length m))) (emits malloc 0 is)"
    by (rule keeps_emits) (use keeps_emit [OF assms(1)] assms(4) in \<open>auto simp: list_all_iff\<close>)
  show "docs is = Some out \<and> length out \<le> length m"
    using finish_with_sound [OF assms(1) represents_init_fixed [OF u l] emit_ok(2) [OF assms(1,4)] b [unfolded build_fixed_def]]
      build_fixed_fits [OF assms(1) l k b] by simp
next
  assume d: "docs is = Some out \<and> length out \<le> length m"
  obtain s where s: "CBB_init_fixed malloc m (of_nat (length m)) = (True, s)" "room malloc (length m) s"
    using room_init_fixed [of m malloc] assms(2,3) by blast
  have u: "length m = unat (of_nat (length m) :: u64)" using assms(3) by (intro unat_of_nat_lt [symmetric]) simp
  have l: "length m < 2 ^ 63" using assms(3) by simp
  show "build_fixed malloc m (emits malloc 0 is) = Some out" unfolding build_fixed_def
    using finish_with_total [OF assms(1) s(1) represents_init_fixed [OF u l s(1)] s(2)]
      emit_ok(2) [OF assms(1,4), of 0] emit_total(2) [OF assms(1,4), of "length m" 0] d by simp
qed

lemma fixed_builder_exact_witness:
  "build_fixed example_malloc (replicate 5 0) (emits example_malloc 0 [Asn1 4 [Raw [1, 2]]]) = Some [4, 2, 1, 2]"
proof (rule iffD2 [OF fixed_builder_exact [OF example_malloc_contract]])
  show "example_malloc 40 \<noteq> None" by code_simp
  have "docs [Asn1 4 [Raw [1, 2]]] = Some [4, 2, 1, 2]"
    by (simp add: der_element_def der_header_def tag_octets_def len_octets_def)
  then show "docs [Asn1 4 [Raw [1, 2]]] = Some [4, 2, 1, 2] \<and> length [4, 2, 1, 2 :: u8] \<le> length (replicate 5 (0 :: u8))"
    by simp
qed simp_all

text \<open>
  C3: With a resizable buffer and an allocator that can give a little over twice the final size, the
  builder finishes with the encoding.
\<close>

theorem builder_completes:
  assumes "malloc_contract malloc" and "list_all wf_item is" and "docs is = Some out" and "length out \<le> N"
    and "N < 2 ^ 60" and "unat n \<le> 2 * N" and "\<forall>k. unat k \<le> 2 * N + 40 \<longrightarrow> malloc k \<noteq> None"
  shows "build malloc n (emits malloc 0 is) = Some out"
proof -
  obtain s where s: "CBB_init malloc n = (True, s)" "room malloc N s"
    using room_init [OF assms(5-7)] by blast
  have n: "unat n < 2 ^ 64 - 8" using assms(5,6) by simp
  show ?thesis unfolding build_def
    using finish_with_total [OF assms(1) s(1) represents_init [OF assms(1) n s(1)] s(2) _ _ assms(4)]
      emit_ok(2) [OF assms(1,2), of 0] emit_total(2) [OF assms(1,2), of N 0] assms(3) by simp
qed

lemma builder_completes_witness:
  "build example_malloc 0 (emits example_malloc 0 [Prefixed 1 [Raw [1, 2]]]) = Some [2, 1, 2]"
proof (rule builder_completes [where N = 3, OF example_malloc_contract])
  show "docs [Prefixed 1 [Raw [1, 2]]] = Some [2, 1, 2]" by code_simp
  show "\<forall>k. unat k \<le> 2 * 3 + 40 \<longrightarrow> example_malloc k \<noteq> None"
    by (simp add: example_malloc_def word_less_nat_alt)
qed simp_all

text \<open>
  C4: Round trip: parsing what the builder wrote for one ASN.1 element gives back its tag's contents
  and the bytes that follow.
\<close>

theorem asn1_round_trip:
  assumes "malloc_contract malloc" and "unat n < 2 ^ 64 - 8" and "list_all wf_item is"
    and "build malloc n (emits malloc 0 [Asn1 t is]) = Some out"
  shows "\<exists>c. docs is = Some c \<and> CBS_get_asn1 (out @ rest) t = (Some c, rest)"
proof -
  have "docs [Asn1 t is] = Some out"
    by (rule finish_with_sound [OF assms(1) represents_init [OF assms(1,2)] emit_ok(2) [OF assms(1)]
        assms(4) [unfolded build_def]]) (use assms(3) in simp_all)
  then show ?thesis by (auto simp: CBS_get_asn1_iff split: bind_splits if_splits)
qed

lemma asn1_round_trip_witness:
  "\<exists>c. docs [Raw [5], Raw [6]] = Some c \<and> CBS_get_asn1 ([4, 2, 5, 6] @ [9]) 4 = (Some c, [9])"
proof (rule asn1_round_trip [where n = 1, OF example_malloc_contract])
  show "build example_malloc 1 (emits example_malloc 0 [Asn1 4 [Raw [5], Raw [6]]]) = Some [4, 2, 5, 6]"
    by code_simp
qed simp_all

text \<open>
  C5: Round trip of signed integers: \<^verbatim>\<open>CBB_add_asn1_int64\<close> writes, and \<^verbatim>\<open>CBS_get_asn1_int64\<close> reads
  back, every 64-bit value; the encoding is the shortest two's complement one.
\<close>

theorem int64_round_trip:
  assumes "malloc_contract malloc" and "unat n < 2 ^ 64 - 8"
    and "build malloc n (CBB_add_asn1_int64 malloc 0 v) = Some out"
  shows "out = der_element CBS_ASN1_INTEGER (int_octets (sint v)) \<and> CBS_get_asn1_int64 (out @ rest) = (Some v, rest)"
proof -
  have "emits_ok (CBB_add_asn1_int64 malloc 0 v) 0 (Some (der_element CBS_ASN1_INTEGER (int_octets (sint v))))"
    by (rule refines_put_emits_ok [OF refines_int64 [OF assms(1)]])
  from finish_with_sound [OF assms(1) represents_init [OF assms(1,2)] this assms(3) [unfolded build_def]]
  show ?thesis by (simp add: CBS_get_asn1_int64_iff)
qed

lemma int64_round_trip_witness:
  "[2, 2, 0xff, 0x7f] = der_element CBS_ASN1_INTEGER (int_octets (sint (- 129 :: u64))) \<and>
    CBS_get_asn1_int64 ([2, 2, 0xff, 0x7f] @ [1]) = (Some (- 129), [1])"
proof (rule int64_round_trip [where n = 4, OF example_malloc_contract])
  show "build example_malloc 4 (CBB_add_asn1_int64 example_malloc 0 (- 129)) = Some [2, 2, 0xff, 0x7f]"
    by code_simp
qed simp

text \<open>
  C6: Memory safety of the builder: after any sequence of calls, successful or not, on any objects of
  the family, also on those that a discarded child has left behind, \<^verbatim>\<open>len\<close> is within \<^verbatim>\<open>cap\<close> and the block has exactly
  \<^verbatim>\<open>cap\<close> bytes (no store has gone past its end), and a fixed buffer of \<^verbatim>\<open>k\<close> bytes still is that buffer.
\<close>

theorem builder_stays_in_bounds:
  assumes "malloc_contract malloc" and "length m < 2 ^ 63" and "unat n + 8 < 2 ^ 63"
    and "init = CBB_init_fixed malloc m (of_nat (length m)) \<or> init = CBB_init malloc n"
    and "(cbb_call malloc)\<^sup>*\<^sup>* (snd init, []) (s, os)" and "base s = Some b"
  shows "blen b \<le> cap b \<and> (case buf b of None \<Rightarrow> cap b = 0 | Some m' \<Rightarrow> length m' = unat (cap b)) \<and>
    (init = CBB_init_fixed malloc m (of_nat (length m)) \<longrightarrow> cap b = of_nat (length m) \<and> \<not> can_resize b)"
proof -
  have k: "safe K b" if "state_safe K (snd init)" for K
    using cbb_calls_safe [OF assms(1,5), of K] that assms(6) by (simp add: family_safe_def state_safe_def)
  have f: "safe (Some (of_nat (length m))) b" if "init = CBB_init_fixed malloc m (of_nat (length m))"
    using k state_safe_init_fixed [OF assms(2) surjective_pairing] that by simp
  moreover have "safe None b" if "init = CBB_init malloc n"
    using k state_safe_init [OF assms(1,3) surjective_pairing] that by simp
  ultimately have "\<exists>K. safe K b" using assms(4) by blast
  then show ?thesis using f by (auto simp: safe_def)
qed

text \<open>A child with an open child of its own is discarded, the orphan writes on, and then the top-level object overflows.\<close>

lemma builder_stays_in_bounds_witness:
  "let s0 = snd (CBB_init_fixed example_malloc [0, 0, 0] (of_nat (length [0, 0, 0 :: u8])));
       s1 = snd (CBB_add_u8_length_prefixed example_malloc 1 (snd (CBB_add_u8_length_prefixed example_malloc 0 s0)));
       s2 = CBB_discard_child 0 s1;
       t = snd (CBB_add_u8 example_malloc 1 7 (s2\<lparr>chain := drop (Suc 0) (chain s1)\<rparr>));
       s = snd (CBB_add_bytes example_malloc 0 [1, 2, 3] (t\<lparr>chain := chain s2\<rparr>));
       b = the (base s) in
   berror b \<and> blen b = 1 \<and> blen b \<le> cap b \<and> (case buf b of None \<Rightarrow> cap b = 0 | Some m' \<Rightarrow> length m' = unat (cap b)) \<and>
     cap b = of_nat (length [0, 0, 0 :: u8]) \<and> \<not> can_resize b"
proof -
  let ?i = "CBB_init_fixed example_malloc [0, 0, 0] (of_nat (length [0, 0, 0 :: u8]))"
  let ?init = "snd ?i"
  let ?a = "snd (CBB_add_u8_length_prefixed example_malloc 0 ?init)"
  let ?both = "snd (CBB_add_u8_length_prefixed example_malloc 1 ?a)"
  let ?left = "CBB_discard_child 0 ?both"
  let ?o = "drop (Suc 0) (chain ?both)"
  let ?t = "snd (CBB_add_u8 example_malloc 1 7 (?left\<lparr>chain := [?o] ! 0\<rparr>))"
  let ?wrote = "?t\<lparr>chain := chain ?left\<rparr>"
  let ?s = "snd (CBB_add_bytes example_malloc 0 [1, 2, 3] ?wrote)"
  have c1: "cbb_call example_malloc (?init, []) (?a, [])" by (rule cbb_call.top [OF cbb_op.intros(13)])
  have c2: "cbb_call example_malloc (?a, []) (?both, [])" by (rule cbb_call.top [OF cbb_op.intros(13)])
  have c3: "cbb_call example_malloc (?both, []) (?left, [?o])" by (rule cbb_call.discard_top)
  have c4: "cbb_call example_malloc (?left, [?o]) (?wrote, [?o][0 := chain ?t])"
    by (rule cbb_call.left [OF _ _ cbb_op.intros(4)]) simp_all
  have c5: "cbb_call example_malloc (?wrote, [?o][0 := chain ?t]) (?s, [?o][0 := chain ?t])"
    by (rule cbb_call.top [OF cbb_op.intros(12)]) simp
  note r = converse_rtranclp_into_rtranclp [OF c1 converse_rtranclp_into_rtranclp [OF c2
    converse_rtranclp_into_rtranclp [OF c3 converse_rtranclp_into_rtranclp [OF c4 r_into_rtranclp [where r = "cbb_call example_malloc", OF c5]]]]]
  have b: "base ?s = Some (the (base ?s))" and e: "berror (the (base ?s)) \<and> blen (the (base ?s)) = 1" by code_simp+
  have l: "length [0, 0, 0 :: u8] < 2 ^ 63" "unat (0 :: u64) + 8 < 2 ^ 63" by simp_all
  show ?thesis unfolding Let_def
    using builder_stays_in_bounds [OF example_malloc_contract l disjI1 [OF refl] r b, unfolded nth_Cons_0] e [unfolded nth_Cons_0]
    by blast
qed

text \<open>
  C7: The DER parser accepts exactly the DER encodings: \<^verbatim>\<open>CBS_get_asn1\<close> returns contents \<^verbatim>\<open>c\<close> and
  remainder \<^verbatim>\<open>rest\<close> if and only if the input is the one encoding of \<^verbatim>\<open>c\<close> under that tag (minimal tag
  number and length octets), followed by \<^verbatim>\<open>rest\<close>.
\<close>

theorem der_parser_exact:
  "CBS_get_asn1 cbs t = (Some c, rest) \<longleftrightarrow> length c < 2 ^ 32 \<and> cbs = der_element t c @ rest"
  by (rule CBS_get_asn1_iff)

text \<open>
  C8: \<^verbatim>\<open>CBS_get_asn1_int64\<close> reads exactly the shortest two's complement encodings of the 64-bit
  values, sign included, and \<^verbatim>\<open>CBS_get_asn1_uint64\<close> those of the values below 2^64: negative numbers, superfluous
  octets and values out of range are refused.
\<close>

theorem integer_parsers_exact:
  "(CBS_get_asn1_int64 cbs = (Some v, rest) \<longleftrightarrow> cbs = der_element CBS_ASN1_INTEGER (int_octets (sint v)) @ rest) \<and>
   (CBS_get_asn1_uint64 cbs = (Some w, rest) \<longleftrightarrow> cbs = der_element CBS_ASN1_INTEGER (int_octets (int (unat w))) @ rest)"
  by (simp only: CBS_get_asn1_int64_iff CBS_get_asn1_uint64_iff)

end
