(* ===== verification/Codec.thy ===== *)
theory Codec
  imports CbbProps
begin

text \<open>
  The interface between readers and writers of one value. A codec is a parsing function that
  succeeds on exactly the encodings of the valid values; a codec with a writer also has a function
  of the builder that appends that encoding. Both are interpreted here on the integer functions of
  \<^verbatim>\<open>cbs.c\<close> and \<^verbatim>\<open>cbb.c\<close> and in later theories on the others.
\<close>

locale codec =
  fixes dec :: "bytes \<Rightarrow> 'a option \<times> bytes" and enc :: "'a \<Rightarrow> bytes" and valid :: "'a \<Rightarrow> bool"
  assumes dec_iff: "dec bs = (Some x, rest) \<longleftrightarrow> valid x \<and> bs = enc x @ rest"
begin

lemma dec_enc: "valid x \<Longrightarrow> dec (enc x @ rest) = (Some x, rest)"
  by (simp add: dec_iff)

lemma enc_prefix_free: "valid x \<Longrightarrow> valid y \<Longrightarrow> enc x @ r = enc y @ s \<Longrightarrow> x = y \<and> r = s"
proof -
  assume v: "valid x" "valid y" and e: "enc x @ r = enc y @ s"
  have "dec (enc y @ s) = (Some x, r)" using dec_enc [OF v(1), of r] unfolding e .
  then show ?thesis using dec_enc [OF v(2), of s] by simp
qed

lemma enc_inj: "valid x \<Longrightarrow> valid y \<Longrightarrow> enc x = enc y \<longleftrightarrow> x = y"
proof -
  assume v: "valid x" "valid y"
  have "enc x = enc y \<Longrightarrow> x = y" using enc_prefix_free [OF v, of "[]" "[]"] unfolding append_Nil2 by blast
  then show ?thesis by blast
qed

end

text \<open>The loop \<open>while (CBS_len(&in) != 0) { dec(&in, &x) || fail; }\<close>, bounded by the input length.\<close>

fun decode_all :: "(bytes \<Rightarrow> 'a option \<times> bytes) \<Rightarrow> nat \<Rightarrow> bytes \<Rightarrow> 'a list option" where
  "decode_all dec n [] = Some []"
| "decode_all dec 0 (b # bs) = None"
| "decode_all dec (Suc n) (b # bs) =
     (case dec (b # bs) of
        (None, _) \<Rightarrow> None
      | (Some x, bs') \<Rightarrow> map_option ((#) x) (decode_all dec n bs'))"

locale stream_codec = codec +
  assumes enc_nonempty: "valid x \<Longrightarrow> enc x \<noteq> []"
begin

lemma dec_shorter: "dec bs = (Some x, rest) \<Longrightarrow> length rest < length bs"
  using enc_nonempty by (auto simp: dec_iff)

lemma decode_all_sound:
  "decode_all dec n bs = Some xs \<Longrightarrow> list_all valid xs \<and> bs = concat (map enc xs)"
proof (induction n arbitrary: bs xs)
  case 0
  then show ?case by (cases bs) auto
next
  case (Suc n)
  show ?case
  proof (cases bs)
    case Nil
    then show ?thesis using Suc.prems by simp
  next
    case (Cons b bs')
    then obtain x r ys where "dec bs = (Some x, r)" "decode_all dec n r = Some ys" "xs = x # ys"
      using Suc.prems by (auto split: prod.splits option.splits)
    then show ?thesis using Suc.IH [of r ys] by (simp add: dec_iff)
  qed
qed

lemma decode_all_complete:
  "list_all valid xs \<Longrightarrow> length (concat (map enc xs)) \<le> n \<Longrightarrow> decode_all dec n (concat (map enc xs)) = Some xs"
proof (induction xs arbitrary: n)
  case (Cons x xs)
  obtain b e where e: "enc x = b # e" using enc_nonempty [of x] Cons.prems by (cases "enc x") auto
  obtain m where n: "n = Suc m" using Cons.prems e by (cases n) auto
  have "dec (b # e @ concat (map enc xs)) = (Some x, concat (map enc xs))"
    using dec_enc [of x "concat (map enc xs)"] Cons.prems e by simp
  then show ?case using Cons e n by simp
qed simp

lemma decode_all_iff:
  "decode_all dec (length bs) bs = Some xs \<longleftrightarrow> list_all valid xs \<and> bs = concat (map enc xs)"
  using decode_all_sound decode_all_complete by fastforce

end

locale builder_codec = codec +
  fixes wr :: "libc_malloc \<Rightarrow> nat \<Rightarrow> 'a \<Rightarrow> CBB \<Rightarrow> bool \<times> CBB"
  assumes wr_refines: "malloc_contract malloc \<Longrightarrow> refines (wr malloc d x) (\<lambda>B. if valid x then put d (enc x) B else None)"
begin

lemma wr_emits: "malloc_contract malloc \<Longrightarrow> emits_ok (wr malloc d x) d (if valid x then Some (enc x) else None)"
  by (rule emits_ok_refines [OF wr_refines]) (auto simp: put_def close_to_closed split: if_splits)

lemma written_iff:
  assumes "malloc_contract malloc" "unat n < 2 ^ 64 - 8" "build malloc n (wr malloc 0 x) = Some out"
  shows "valid x \<and> out = enc x"
  using finish_with_sound [OF assms(1) represents_init [OF assms(1,2)] wr_emits [OF assms(1)] assms(3) [unfolded build_def]]
  by (simp split: if_splits)

lemma round_trip:
  assumes "malloc_contract malloc" "unat n < 2 ^ 64 - 8" "build malloc n (wr malloc 0 x) = Some out"
  shows "dec (out @ rest) = (Some x, rest)"
  using written_iff [OF assms] dec_enc by simp

end

text \<open>A writer that cannot fail on a valid value while the allocator delivers.\<close>

locale total_codec = builder_codec +
  assumes wr_total: "malloc_contract malloc \<Longrightarrow> valid x \<Longrightarrow> total malloc N (wr malloc d x) (put d (enc x))"
begin

lemma builds:
  assumes "malloc_contract malloc" and "valid x" and "length (enc x) \<le> N" and "N < 2 ^ 60" and "unat n \<le> 2 * N"
    and "\<forall>k. unat k \<le> 2 * N + 40 \<longrightarrow> malloc k \<noteq> None"
  shows "build malloc n (wr malloc 0 x) = Some (enc x)"
proof -
  obtain s where s: "CBB_init malloc n = (True, s)" "room malloc N s" using room_init [OF assms(4-6)] by blast
  have n: "unat n < 2 ^ 64 - 8" using assms(4,5) by simp
  have e: "emits_ok (wr malloc 0 x) 0 (Some (enc x))" using wr_emits [OF assms(1), of 0 x] assms(2) by simp
  show ?thesis unfolding build_def
    by (rule finish_with_total [OF assms(1) s(1) represents_init [OF assms(1) n s(1)] s(2) e
          total_put_emits_total [OF wr_total [OF assms(1,2)]] assms(3)])
qed

end

section \<open>Fixed-width integers\<close>

lemma CBS_get_u8_iff: "CBS_get_u8 bs = (Some x, rest) \<longleftrightarrow> True \<and> bs = [x] @ rest"
  by (cases bs) auto

lemma get_be_iff:
  assumes k: "unat k = n" "n \<le> 8" and g: "g = (\<lambda>bs. case cbs_get_u bs k of (v, bs') \<Rightarrow> (map_option ucast v, bs'))"
    and w: "n = LENGTH('a) div 8 \<or> n \<le> LENGTH('a) div 8" "LENGTH('a) mod 8 = 0"
  shows "g bs = (Some (x :: 'a::len word), rest) \<longleftrightarrow> unat x < 256 ^ n \<and> bs = be_enc n (unat x) @ rest"
proof -
  have p: "(256::nat) ^ n \<le> 2 ^ LENGTH('a)"
  proof -
    have "8 * n \<le> LENGTH('a)" using w by auto
    then have "(2::nat) ^ (8 * n) \<le> 2 ^ LENGTH('a)" by (intro power_increasing) simp_all
    then show ?thesis by (simp add: power_mult)
  qed
  have "g bs = (Some x, rest) \<longleftrightarrow> (\<exists>d. bs = d @ rest \<and> length d = n \<and> x = ucast (of_nat (be_val d) :: u64))"
  proof -
    have "g bs = (Some x, rest) \<longleftrightarrow> (\<exists>v. cbs_get_u bs k = (Some v, rest) \<and> x = ucast v)"
      unfolding g by (cases "cbs_get_u bs k") auto
    then show ?thesis using cbs_get_u_Some_iff [of k bs _ rest] k by metis
  qed
  also have "\<dots> \<longleftrightarrow> unat x < 256 ^ n \<and> bs = be_enc n (unat x) @ rest"
  proof (intro iffI; elim exE conjE)
    fix d :: bytes
    assume d: "bs = d @ rest" "length d = n" "x = ucast (of_nat (be_val d) :: u64)"
    have lt: "be_val d < 256 ^ n" using be_val_lt [of d] d(2) by simp
    moreover have "(256::nat) ^ n \<le> 256 ^ 8" using k(2) by (intro power_increasing) simp_all
    ultimately have "unat (of_nat (be_val d) :: u64) = be_val d" by (intro unat_of_nat_lt) simp
    then have "unat x = be_val d" using lt p unfolding d(3) by (simp only: unat_ucast_down) simp
    then show "unat x < 256 ^ n \<and> bs = be_enc n (unat x) @ rest" using lt d be_enc_be_val [of d] by simp
  next
    assume x: "unat x < 256 ^ n" "bs = be_enc n (unat x) @ rest"
    have "(256::nat) ^ n \<le> 256 ^ 8" using k(2) by (intro power_increasing) simp_all
    then have "unat (of_nat (unat x) :: u64) = unat x" using x(1) by (intro unat_of_nat_lt) simp
    then have "x = ucast (of_nat (unat x) :: u64)" by (simp only: word_unat_eq_iff unat_ucast_down) (use x(1) p in simp)
    then show "\<exists>d. bs = d @ rest \<and> length d = n \<and> x = ucast (of_nat (be_val d) :: u64)"
      using x by (intro exI [of _ "be_enc n (unat x)"]) simp
  qed
  finally show ?thesis .
qed

lemma u64_lt: "unat (x :: u64) < 256 ^ 8"
  by (rule order_less_le_trans [OF unsigned_less]) simp

lemma CBS_get_u64_ucast: "CBS_get_u64 = (\<lambda>bs. case cbs_get_u bs 8 of (v, bs') \<Rightarrow> (map_option ucast v, bs'))"
proof
  fix bs
  have "map_option ucast v = v" for v :: "u64 option" by (cases v) simp_all
  then show "CBS_get_u64 bs = (case cbs_get_u bs 8 of (v, bs') \<Rightarrow> (map_option ucast v, bs'))"
    by (simp add: CBS_get_u64_def)
qed

lemma be_enc_not_Nil: "n \<noteq> 0 \<Longrightarrow> be_enc n v \<noteq> []"
  by (metis length_be_enc list.size(3))

interpretation u8: stream_codec CBS_get_u8 "\<lambda>b. [b]" "\<lambda>_. True"
  by unfold_locales (simp_all only: CBS_get_u8_iff, simp)

interpretation u16: stream_codec CBS_get_u16 "\<lambda>v. be_enc 2 (unat v)" "\<lambda>v. unat v < 256 ^ 2"
proof
  show "CBS_get_u16 bs = (Some x, rest) \<longleftrightarrow> unat x < 256 ^ 2 \<and> bs = be_enc 2 (unat x) @ rest" for bs x rest
    by (rule get_be_iff [where k = 2]) (simp_all add: CBS_get_u16_def [abs_def])
qed (simp add: be_enc_not_Nil)

interpretation u24: stream_codec CBS_get_u24 "\<lambda>v. be_enc 3 (unat v)" "\<lambda>v. unat v < 256 ^ 3"
proof
  show "CBS_get_u24 bs = (Some x, rest) \<longleftrightarrow> unat x < 256 ^ 3 \<and> bs = be_enc 3 (unat x) @ rest" for bs x rest
    by (rule get_be_iff [where k = 3]) (simp_all add: CBS_get_u24_def [abs_def])
qed (simp add: be_enc_not_Nil)

interpretation u32: stream_codec CBS_get_u32 "\<lambda>v. be_enc 4 (unat v)" "\<lambda>v. unat v < 256 ^ 4"
proof
  show "CBS_get_u32 bs = (Some x, rest) \<longleftrightarrow> unat x < 256 ^ 4 \<and> bs = be_enc 4 (unat x) @ rest" for bs x rest
    by (rule get_be_iff [where k = 4]) (simp_all add: CBS_get_u32_def [abs_def])
qed (simp add: be_enc_not_Nil)

interpretation u64: stream_codec CBS_get_u64 "\<lambda>v. be_enc 8 (unat v)" "\<lambda>v. unat v < 256 ^ 8"
proof
  show "CBS_get_u64 bs = (Some x, rest) \<longleftrightarrow> unat x < 256 ^ 8 \<and> bs = be_enc 8 (unat x) @ rest" for bs x rest
    by (rule get_be_iff [where k = 8]) (simp_all add: CBS_get_u64_ucast)
qed (simp add: be_enc_not_Nil)

lemma b128_not_Nil: "b128 n \<noteq> []"
  by (simp add: b128_def)

interpretation base128: stream_codec parse_base128_integer "\<lambda>v. b128 (unat v)" "\<lambda>_. True"
  by unfold_locales (simp_all add: parse_base128_integer_iff b128_not_Nil)

lemma tag_octets_not_Nil: "tag_octets t \<noteq> []"
  by (simp add: tag_octets_def Let_def)

interpretation tag: stream_codec parse_asn1_tag tag_octets "\<lambda>_. True"
  by unfold_locales (simp_all add: parse_asn1_tag_iff tag_octets_not_Nil)

interpretation element: stream_codec "\<lambda>bs. CBS_get_asn1 bs t" "der_element t" "\<lambda>c. length c < 2 ^ 32" for t
  by unfold_locales (simp_all add: CBS_get_asn1_iff der_element_def der_header_def tag_octets_not_Nil)

section \<open>Writers\<close>

lemma refines_add_u_valid:
  assumes malloc: "malloc_contract malloc" and k: "k \<noteq> 0" "unat k < 2 ^ 63"
  shows "refines (and_then (CBB_flush malloc d) (on_base (\<lambda>b. cbb_buffer_add_u malloc b v k)))
    (\<lambda>B. if unat v < 256 ^ unat k then put d (be_enc (unat k) (unat v)) B else None)"
proof (cases "unat v < 256 ^ unat k")
  case True
  then show ?thesis using refines_add_u [OF assms] by simp
next
  case False
  have "\<not> (represents B s \<and> and_then (CBB_flush malloc d) (on_base (\<lambda>b. cbb_buffer_add_u malloc b v k)) s = (True, s'))"
    for B s s'
  proof
    assume a: "represents B s \<and> and_then (CBB_flush malloc d) (on_base (\<lambda>b. cbb_buffer_add_u malloc b v k)) s = (True, s')"
    then obtain s1 where s1: "CBB_flush malloc d s = (True, s1)" "on_base (\<lambda>b. cbb_buffer_add_u malloc b v k) s1 = (True, s')"
      unfolding and_then_True by blast
    obtain B1 where "represents B1 s1" using refinesD [OF refines_flush [OF malloc] _ s1(1)] a by blast
    then obtain b b' where "buffer_ok b" "cbb_buffer_add_u malloc b v k = (True, b')"
      using s1(2) by (auto simp: represents_def on_base_def split: prod.splits)
    from buffer_add_u_ok(3) [OF this(1) malloc k(2,1) this(2)] False show False by simp
  qed
  then have "refines (and_then (CBB_flush malloc d) (on_base (\<lambda>b. cbb_buffer_add_u malloc b v k))) (\<lambda>B. None)"
    unfolding refines_def by blast
  then show ?thesis using False by simp
qed

lemma refines_add_u_width:
  assumes "malloc_contract malloc" "unat k = n" "n \<noteq> 0" "n \<le> 8" "unat v = x"
  shows "refines (and_then (CBB_flush malloc d) (on_base (\<lambda>b. cbb_buffer_add_u malloc b v k)))
    (\<lambda>B. if x < 256 ^ n then put d (be_enc n x) B else None)"
proof -
  have "k \<noteq> 0" using assms(2,3) by auto
  moreover have "unat k < 2 ^ 63" using assms(2,4) by simp
  ultimately show ?thesis using refines_add_u_valid [OF assms(1), of k d v] unfolding assms(2,5) by blast
qed

interpretation u8_writer: builder_codec CBS_get_u8 "\<lambda>b. [b]" "\<lambda>_. True" CBB_add_u8
  by unfold_locales (simp add: refines_add_u8)

interpretation u16_writer: builder_codec CBS_get_u16 "\<lambda>v. be_enc 2 (unat v)" "\<lambda>v. unat v < 256 ^ 2" CBB_add_u16
proof
  show "refines (CBB_add_u16 malloc d x) (\<lambda>B. if unat x < 256 ^ 2 then put d (be_enc 2 (unat x)) B else None)"
    if "malloc_contract malloc" for malloc d x
    unfolding CBB_add_u16_def [abs_def] by (rule refines_add_u_width [OF that]) (simp_all add: unat_ucast_up)
qed

interpretation u24_writer: builder_codec CBS_get_u24 "\<lambda>v. be_enc 3 (unat v)" "\<lambda>v. unat v < 256 ^ 3" CBB_add_u24
proof
  show "refines (CBB_add_u24 malloc d x) (\<lambda>B. if unat x < 256 ^ 3 then put d (be_enc 3 (unat x)) B else None)"
    if "malloc_contract malloc" for malloc d x
    unfolding CBB_add_u24_def [abs_def] by (rule refines_add_u_width [OF that]) (simp_all add: unat_ucast_up)
qed

interpretation u32_writer: builder_codec CBS_get_u32 "\<lambda>v. be_enc 4 (unat v)" "\<lambda>v. unat v < 256 ^ 4" CBB_add_u32
proof
  show "refines (CBB_add_u32 malloc d x) (\<lambda>B. if unat x < 256 ^ 4 then put d (be_enc 4 (unat x)) B else None)"
    if "malloc_contract malloc" for malloc d x
    unfolding CBB_add_u32_def [abs_def] by (rule refines_add_u_width [OF that]) (simp_all add: unat_ucast_up)
qed

interpretation u64_writer: builder_codec CBS_get_u64 "\<lambda>v. be_enc 8 (unat v)" "\<lambda>v. unat v < 256 ^ 8" CBB_add_u64
proof
  show "refines (CBB_add_u64 malloc d x) (\<lambda>B. if unat x < 256 ^ 8 then put d (be_enc 8 (unat x)) B else None)"
    if "malloc_contract malloc" for malloc d x
    unfolding CBB_add_u64_def [abs_def] by (rule refines_add_u_width [OF that]) simp_all
qed

interpretation base128_writer: builder_codec parse_base128_integer "\<lambda>v. b128 (unat v)" "\<lambda>_. True" add_base128_integer
  by unfold_locales (simp add: refines_add_base128)

interpretation uint64_writer: builder_codec CBS_get_asn1_uint64
    "\<lambda>v. der_element CBS_ASN1_INTEGER (int_octets (int (unat v)))" "\<lambda>_. True" CBB_add_asn1_uint64
  by unfold_locales (simp_all only: CBS_get_asn1_uint64_iff refines_uint64 simp_thms if_True)

interpretation int64_writer: builder_codec CBS_get_asn1_int64
    "\<lambda>v. der_element CBS_ASN1_INTEGER (int_octets (sint v))" "\<lambda>_. True" CBB_add_asn1_int64
  by unfold_locales (simp_all add: CBS_get_asn1_int64_iff refines_int64)

section \<open>Properties\<close>

end
