(* ===== verification/Unicode.thy ===== *)
theory Unicode
  imports Codec
begin

text \<open>
  \<^verbatim>\<open>crypto/bytestring/unicode.c\<close>: reading and writing one code point in UTF-8, Latin-1, UCS-2 and
  UTF-32, and the laws that make each pair of functions a codec.
\<close>

definition is_valid_code_point :: "u32 \<Rightarrow> bool" where
  "is_valid_code_point v =
     (if v > 0x10ffff \<or> v AND 0xfffe = 0xfffe \<or> (v \<ge> 0xfdd0 \<and> v \<le> 0xfdef) \<or> (v \<ge> 0xd800 \<and> v \<le> 0xdfff)
      then False else True)"

definition BOTTOM_BITS :: "nat \<Rightarrow> u8" where
  "BOTTOM_BITS n = push_bit n 1 - 1"

definition TOP_BITS :: "nat \<Rightarrow> u8" where
  "TOP_BITS n = NOT (BOTTOM_BITS (8 - n))"

text \<open>The loop over the continuation bytes.\<close>

fun utf8_tail :: "nat \<Rightarrow> u32 \<Rightarrow> CBS \<Rightarrow> u32 option \<times> CBS" where
  "utf8_tail 0 v cbs = (Some v, cbs)"
| "utf8_tail (Suc len) v cbs =
     (case CBS_get_u8 cbs of
        (None, cbs') \<Rightarrow> (None, cbs')
      | (Some c, cbs') \<Rightarrow>
          if c AND TOP_BITS 2 \<noteq> TOP_BITS 1 then (None, cbs')
          else utf8_tail len (push_bit 6 v OR ucast (c AND BOTTOM_BITS 6)) cbs')"

definition cbs_get_utf8 :: "CBS \<Rightarrow> u32 option \<times> CBS" where
  "cbs_get_utf8 cbs =
     (case CBS_get_u8 cbs of
        (None, cbs') \<Rightarrow> (None, cbs')
      | (Some c, cbs') \<Rightarrow>
          if c \<le> 0x7f then (Some (ucast c), cbs')
          else
            (case (if c AND TOP_BITS 3 = TOP_BITS 2 then Some (ucast (c AND BOTTOM_BITS 5), 1, 0x80)
                   else if c AND TOP_BITS 4 = TOP_BITS 3 then Some (ucast (c AND BOTTOM_BITS 4), 2, 0x800)
                   else if c AND TOP_BITS 5 = TOP_BITS 4 then Some (ucast (c AND BOTTOM_BITS 3), 3, 0x10000)
                   else None :: (u32 \<times> nat \<times> u32) option) of
               None \<Rightarrow> (None, cbs')
             | Some (v, len, lower_bound) \<Rightarrow>
                 (case utf8_tail len v cbs' of
                    (None, cbs'') \<Rightarrow> (None, cbs'')
                  | (Some v', cbs'') \<Rightarrow>
                      if \<not> is_valid_code_point v' \<or> v' < lower_bound then (None, cbs'')
                      else (Some v', cbs''))))"

definition cbs_get_latin1 :: "CBS \<Rightarrow> u32 option \<times> CBS" where
  "cbs_get_latin1 cbs = (case CBS_get_u8 cbs of (c, cbs') \<Rightarrow> (map_option ucast c, cbs'))"

definition cbs_get_ucs2_be :: "CBS \<Rightarrow> u32 option \<times> CBS" where
  "cbs_get_ucs2_be cbs =
     (case CBS_get_u16 cbs of
        (None, cbs') \<Rightarrow> (None, cbs')
      | (Some c, cbs') \<Rightarrow>
          if \<not> is_valid_code_point (ucast c) then (None, cbs') else (Some (ucast c), cbs'))"

definition cbs_get_utf32_be :: "CBS \<Rightarrow> u32 option \<times> CBS" where
  "cbs_get_utf32_be cbs =
     (case CBS_get_u32 cbs of
        (None, cbs') \<Rightarrow> (None, cbs')
      | (Some u, cbs') \<Rightarrow> if is_valid_code_point u then (Some u, cbs') else (None, cbs'))"

definition cbb_get_utf8_len :: "u32 \<Rightarrow> nat" where
  "cbb_get_utf8_len u = (if u \<le> 0x7f then 1 else if u \<le> 0x7ff then 2 else if u \<le> 0xffff then 3 else 4)"

text \<open>The argument expressions are \<^verbatim>\<open>unsigned\<close> and are truncated to the \<^verbatim>\<open>uint8_t\<close> parameter.\<close>

definition cbb_add_utf8 :: "libc_malloc \<Rightarrow> nat \<Rightarrow> u32 \<Rightarrow> CBB \<Rightarrow> bool \<times> CBB" where
  "cbb_add_utf8 malloc d u =
     (let b = (\<lambda>top x. CBB_add_u8 malloc d (ucast (ucast top OR x :: u32)));
          low6 = (\<lambda>x. x AND ucast (BOTTOM_BITS 6)) in
      if \<not> is_valid_code_point u then (\<lambda>cbb. (False, cbb))
      else if u \<le> 0x7f then CBB_add_u8 malloc d (ucast u)
      else if u \<le> 0x7ff then
        and_then (b (TOP_BITS 2) (drop_bit 6 u)) (b (TOP_BITS 1) (low6 u))
      else if u \<le> 0xffff then
        and_then (b (TOP_BITS 3) (drop_bit 12 u))
       (and_then (b (TOP_BITS 1) (low6 (drop_bit 6 u))) (b (TOP_BITS 1) (low6 u)))
      else if u \<le> 0x10ffff then
        and_then (b (TOP_BITS 4) (drop_bit 18 u))
       (and_then (b (TOP_BITS 1) (low6 (drop_bit 12 u)))
       (and_then (b (TOP_BITS 1) (low6 (drop_bit 6 u))) (b (TOP_BITS 1) (low6 u))))
      else (\<lambda>cbb. (False, cbb)))"

definition cbb_add_latin1 :: "libc_malloc \<Rightarrow> nat \<Rightarrow> u32 \<Rightarrow> CBB \<Rightarrow> bool \<times> CBB" where
  "cbb_add_latin1 malloc d u cbb = (if u \<le> 0xff then CBB_add_u8 malloc d (ucast u) cbb else (False, cbb))"

definition cbb_add_ucs2_be :: "libc_malloc \<Rightarrow> nat \<Rightarrow> u32 \<Rightarrow> CBB \<Rightarrow> bool \<times> CBB" where
  "cbb_add_ucs2_be malloc d u cbb =
     (if u \<le> 0xffff \<and> is_valid_code_point u then CBB_add_u16 malloc d (ucast u) cbb else (False, cbb))"

definition cbb_add_utf32_be :: "libc_malloc \<Rightarrow> nat \<Rightarrow> u32 \<Rightarrow> CBB \<Rightarrow> bool \<times> CBB" where
  "cbb_add_utf32_be malloc d u cbb =
     (if is_valid_code_point u then CBB_add_u32 malloc d u cbb else (False, cbb))"

section \<open>UTF-8 octets\<close>

fun cont_enc :: "nat \<Rightarrow> nat \<Rightarrow> bytes" where
  "cont_enc 0 x = []"
| "cont_enc (Suc n) x = of_nat (128 + x div 64 ^ n) # cont_enc n (x mod 64 ^ n)"

definition utf8_octets :: "u32 \<Rightarrow> bytes" where
  "utf8_octets u =
     (let n = unat u in
      if n < 0x80 then [of_nat n]
      else if n < 0x800 then of_nat (0xc0 + n div 64) # cont_enc 1 (n mod 64)
      else if n < 0x10000 then of_nat (0xe0 + n div 64 ^ 2) # cont_enc 2 (n mod 64 ^ 2)
      else of_nat (0xf0 + n div 64 ^ 3) # cont_enc 3 (n mod 64 ^ 3))"

lemma BOTTOM_BITS_mask: "BOTTOM_BITS n = mask n"
  by (simp add: BOTTOM_BITS_def mask_eq_exp_minus_1 push_bit_eq_mult)

lemma unat_bottom: "unat (c AND BOTTOM_BITS n) = unat c mod 2 ^ n"
  by (simp add: BOTTOM_BITS_mask unat_and_mask)

lemma and_not_mask_eq: "a AND NOT (mask k) = b AND NOT (mask k) \<longleftrightarrow> unat a div 2 ^ k = unat b div 2 ^ k"
  for a b :: "'a::len word"
proof -
  have "a AND NOT (mask k) = b AND NOT (mask k) \<longleftrightarrow> drop_bit k a = drop_bit k b"
  proof -
    have d: "drop_bit k (w AND NOT (mask k)) = drop_bit k w" and p: "push_bit k (drop_bit k w) = w AND NOT (mask k)"
      for w :: "'a word"
      by (rule bit_word_eqI, auto simp: bit_simps dest: bit_imp_le_length)+
    show ?thesis using d p by metis
  qed
  also have "\<dots> \<longleftrightarrow> unat a div 2 ^ k = unat b div 2 ^ k"
    by (simp only: word_unat_eq_iff unat_drop_bit)
  finally show ?thesis .
qed

lemma top_bits_iff:
  "c AND TOP_BITS 2 = TOP_BITS (Suc 0) \<longleftrightarrow> unat c div 64 = 2"
  "c AND TOP_BITS 3 = TOP_BITS 2 \<longleftrightarrow> unat c div 32 = 6"
  "c AND TOP_BITS 4 = TOP_BITS 3 \<longleftrightarrow> unat c div 16 = 14"
  "c AND TOP_BITS 5 = TOP_BITS 4 \<longleftrightarrow> unat c div 8 = 30"
proof -
  have t: "TOP_BITS (Suc 0) = 0x80" "TOP_BITS 2 = 0xc0" "TOP_BITS 3 = 0xe0" "TOP_BITS 4 = 0xf0" "TOP_BITS 5 = 0xf8"
    by (simp_all add: TOP_BITS_def BOTTOM_BITS_def push_bit_eq_mult)
  have e: "a AND NOT (mask k) = b \<longleftrightarrow> unat a div 2 ^ k = unat b div 2 ^ k" if "b AND NOT (mask k) = b" for a b :: u8 and k
    using and_not_mask_eq [of a k b] that by simp
  have tb: "TOP_BITS 2 = NOT (mask 6)" "TOP_BITS 3 = NOT (mask 5)" "TOP_BITS 4 = NOT (mask 4)" "TOP_BITS 5 = NOT (mask 3)"
    by (simp_all add: TOP_BITS_def BOTTOM_BITS_mask)
  have "0x80 AND NOT (mask 6) = (0x80 :: u8)" by (simp add: mask_eq_exp_minus_1)
  from e [OF this, of c] show "c AND TOP_BITS 2 = TOP_BITS (Suc 0) \<longleftrightarrow> unat c div 64 = 2"
    unfolding tb(1) [symmetric] by (simp add: t [simplified])
  have "0xc0 AND NOT (mask 5) = (0xc0 :: u8)" by (simp add: mask_eq_exp_minus_1)
  from e [OF this, of c] show "c AND TOP_BITS 3 = TOP_BITS 2 \<longleftrightarrow> unat c div 32 = 6"
    unfolding tb(2) [symmetric] by (simp add: t [simplified])
  have "0xe0 AND NOT (mask 4) = (0xe0 :: u8)" by (simp add: mask_eq_exp_minus_1)
  from e [OF this, of c] show "c AND TOP_BITS 4 = TOP_BITS 3 \<longleftrightarrow> unat c div 16 = 14"
    unfolding tb(3) [symmetric] by (simp add: t [simplified])
  have "0xf0 AND NOT (mask 3) = (0xf0 :: u8)" by (simp add: mask_eq_exp_minus_1)
  from e [OF this, of c] show "c AND TOP_BITS 5 = TOP_BITS 4 \<longleftrightarrow> unat c div 8 = 30"
    unfolding tb(4) [symmetric] by (simp add: t [simplified])
qed

lemma length_cont_enc [simp]: "length (cont_enc n x) = n"
  by (induction n x rule: cont_enc.induct) auto

lemma div_mod_base: "(x :: nat) < k \<Longrightarrow> (q * k + x) div k = q \<and> (q * k + x) mod k = x"
  by simp

lemma add_128_mod: "(x :: nat) < 64 \<Longrightarrow> (128 + x) mod 64 = x \<and> (128 + x) div 64 = 2"
  using div_mod_base [of x 64 2] by simp

lemma cont_byte:
  assumes "x < 64"
  shows "unat (of_nat (128 + x) :: u8) = 128 + x" "(of_nat (128 + x) :: u8) AND TOP_BITS 2 = TOP_BITS (Suc 0)"
    "unat ((of_nat (128 + x) :: u8) AND BOTTOM_BITS 6) = x"
proof -
  show u: "unat (of_nat (128 + x) :: u8) = 128 + x" using assms by (intro unat_of_nat_lt) simp
  show "(of_nat (128 + x) :: u8) AND TOP_BITS 2 = TOP_BITS (Suc 0)" unfolding top_bits_iff u using assms by simp
  show "unat ((of_nat (128 + x) :: u8) AND BOTTOM_BITS 6) = x" unfolding unat_bottom u using assms by (simp add: add_128_mod)
qed

lemma utf8_tail_iff:
  "(unat v + 1) * 64 ^ n \<le> 2 ^ 32 \<Longrightarrow>
    utf8_tail n v cbs = (Some w, rest) \<longleftrightarrow>
    (\<exists>x. x < 64 ^ n \<and> cbs = cont_enc n x @ rest \<and> unat w = unat v * 64 ^ n + x)"
proof (induction n arbitrary: v cbs)
  case 0
  show ?case by (auto simp: word_unat_eq_iff)
next
  case (Suc n)
  have v: "(unat v + 1) * 2 ^ 6 \<le> 2 ^ LENGTH(32)"
  proof -
    have "(unat v + 1) * 64 ^ 1 \<le> (unat v + 1) * 64 ^ Suc n" by (intro mult_left_mono power_increasing) auto
    then show ?thesis using Suc.prems by simp
  qed
  let ?v = "\<lambda>c. push_bit 6 v OR ucast (c AND BOTTOM_BITS 6)"
  have vu: "unat (?v c) = unat v * 64 + unat c mod 64" for c
    using unat_shift_or [OF v, of "ucast (c AND BOTTOM_BITS 6)"] by (simp add: unat_ucast_up unat_bottom)
  have pre: "(unat (?v c) + 1) * 64 ^ n \<le> 2 ^ 32" for c
  proof -
    have "(unat (?v c) + 1) * 64 ^ n \<le> ((unat v + 1) * 64) * 64 ^ n"
      unfolding vu by (intro mult_right_mono) auto
    then show ?thesis using Suc.prems by (simp add: algebra_simps)
  qed
  show ?case
  proof (cases cbs)
    case Nil
    then show ?thesis by simp
  next
    case (Cons c cbs')
    have L: "utf8_tail (Suc n) v cbs = (Some w, rest) \<longleftrightarrow> unat c div 64 = 2 \<and>
        (\<exists>x. x < 64 ^ n \<and> cbs' = cont_enc n x @ rest \<and> unat w = unat (?v c) * 64 ^ n + x)"
      using Suc.IH [OF pre, of c cbs'] by (simp add: Cons top_bits_iff)
    show ?thesis unfolding L
    proof (intro iffI; elim exE conjE)
      fix x assume a: "unat c div 64 = 2" "x < 64 ^ n" "cbs' = cont_enc n x @ rest" "unat w = unat (?v c) * 64 ^ n + x"
      let ?y = "unat c mod 64 * 64 ^ n + x"
      have "?y < (unat c mod 64 + 1) * 64 ^ n" using a(2) by simp
      also have "\<dots> \<le> 64 * 64 ^ n" by (intro mult_right_mono) (simp_all add: Suc_leI)
      finally have y: "?y < 64 ^ Suc n" by simp
      have "128 + unat c mod 64 = unat c" using a(1) div_mult_mod_eq [of "unat c" 64] by simp
      then have "of_nat (128 + ?y div 64 ^ n) = c" using a(2) by (simp add: word_of_unat)
      then have "cbs = cont_enc (Suc n) ?y @ rest" using a(2,3) by (simp add: Cons)
      moreover have "unat w = unat v * 64 ^ Suc n + ?y" using a(4) by (simp add: vu algebra_simps)
      ultimately show "\<exists>x<64 ^ Suc n. cbs = cont_enc (Suc n) x @ rest \<and> unat w = unat v * 64 ^ Suc n + x"
        using y by blast
    next
      fix y assume a: "y < 64 ^ Suc n" "cbs = cont_enc (Suc n) y @ rest" "unat w = unat v * 64 ^ Suc n + y"
      have q: "y div 64 ^ n < 64" using a(1) by (simp add: less_mult_imp_div_less)
      have c: "unat c = 128 + y div 64 ^ n" "cbs' = cont_enc n (y mod 64 ^ n) @ rest"
        using a(2) cont_byte(1) [OF q] by (auto simp: Cons)
      have "unat c mod 64 = y div 64 ^ n" "unat c div 64 = 2" unfolding c(1) using add_128_mod [OF q] by simp_all
      moreover have "y = y div 64 ^ n * 64 ^ n + y mod 64 ^ n" by (simp add: div_mult_mod_eq)
      ultimately show "unat c div 64 = 2 \<and> (\<exists>x<64 ^ n. cbs' = cont_enc n x @ rest \<and> unat w = unat (?v c) * 64 ^ n + x)"
        using c(2) a(3) by (intro conjI exI [of _ "y mod 64 ^ n"]) (simp_all add: vu algebra_simps)
    qed
  qed
qed

lemma valid_code_point_le: "is_valid_code_point u \<Longrightarrow> unat u \<le> 0x10ffff"
  by (auto simp: is_valid_code_point_def word_less_nat_alt split: if_splits)

text \<open>The multi-byte forms: lead byte \<^verbatim>\<open>base + h\<close> and \<^verbatim>\<open>n\<close> continuation bytes.\<close>

lemma utf8_tail_form:
  assumes "(h + 1) * 64 ^ n \<le> 2 ^ 32" "unat v = h"
  shows "utf8_tail n v cbs = (Some w, rest) \<longleftrightarrow>
    cbs = cont_enc n (unat w mod 64 ^ n) @ rest \<and> unat w div 64 ^ n = h"
proof -
  have "utf8_tail n v cbs = (Some w, rest) \<longleftrightarrow>
      (\<exists>x. x < 64 ^ n \<and> cbs = cont_enc n x @ rest \<and> unat w = h * 64 ^ n + x)"
    using utf8_tail_iff [of v n cbs w rest] assms by simp
  also have "\<dots> \<longleftrightarrow> cbs = cont_enc n (unat w mod 64 ^ n) @ rest \<and> unat w div 64 ^ n = h"
  proof (intro iffI; elim exE conjE)
    fix x assume "x < 64 ^ n" "cbs = cont_enc n x @ rest" "unat w = h * 64 ^ n + x"
    then show "cbs = cont_enc n (unat w mod 64 ^ n) @ rest \<and> unat w div 64 ^ n = h" by simp
  next
    assume "cbs = cont_enc n (unat w mod 64 ^ n) @ rest" "unat w div 64 ^ n = h"
    then show "\<exists>x<64 ^ n. cbs = cont_enc n x @ rest \<and> unat w = h * 64 ^ n + x"
      by (intro exI [of _ "unat w mod 64 ^ n"]) (auto simp: div_mult_mod_eq)
  qed
  finally show ?thesis .
qed

text \<open>Payload of the lead byte, number of continuation bytes, least value of that form.\<close>

definition utf8_lead :: "u8 \<Rightarrow> (nat \<times> nat \<times> u32) option" where
  "utf8_lead c = (if unat c div 32 = 6 then Some (unat c mod 32, 1, 0x80)
     else if unat c div 16 = 14 then Some (unat c mod 16, 2, 0x800)
     else if unat c div 8 = 30 then Some (unat c mod 8, 3, 0x10000) else None)"

lemma cbs_get_utf8_lead:
  "cbs_get_utf8 (c # cbs) =
     (if unat c < 128 then (Some (ucast c), cbs)
      else (case utf8_lead c of None \<Rightarrow> (None, cbs)
        | Some (h, len, lb) \<Rightarrow>
            (case utf8_tail len (of_nat h) cbs of
                (None, cbs'') \<Rightarrow> (None, cbs'')
              | (Some v', cbs'') \<Rightarrow>
                  if \<not> is_valid_code_point v' \<or> v' < lb then (None, cbs'')
                  else (Some v', cbs''))))"
proof -
  have lo: "(ucast (c AND BOTTOM_BITS k) :: u32) = of_nat (unat c mod 2 ^ k)" for k
    by (rule eq_of_natI) (simp add: unat_ucast_up unat_bottom)
  have l: "c \<le> 0x7f \<longleftrightarrow> unat c < 128" by (simp add: word_le_nat_alt less_Suc_eq_le [symmetric])
  have "(if c AND TOP_BITS 3 = TOP_BITS 2 then Some (ucast (c AND BOTTOM_BITS 5), 1, 0x80)
        else if c AND TOP_BITS 4 = TOP_BITS 3 then Some (ucast (c AND BOTTOM_BITS 4), 2, 0x800)
        else if c AND TOP_BITS 5 = TOP_BITS 4 then Some (ucast (c AND BOTTOM_BITS 3), 3, 0x10000)
        else None :: (u32 \<times> nat \<times> u32) option) =
      map_option (\<lambda>(h, len, lb). (of_nat h, len, lb)) (utf8_lead c)"
    by (simp add: utf8_lead_def lo top_bits_iff)
  then show ?thesis
    unfolding cbs_get_utf8_def CBS_get_u8_simps prod.case option.case l
    by (cases "utf8_lead c") auto
qed

lemma lead_byte: "unat (of_nat (b + h) :: u8) = b + h" if "b + h < 256"
  using that by (intro unat_of_nat_lt) simp

lemma lead_div:
  "(h :: nat) < 32 \<Longrightarrow> (0xc0 + h) div 32 = 6 \<and> (0xc0 + h) mod 32 = h"
  "h < 16 \<Longrightarrow> (0xe0 + h) div 16 = 14 \<and> (0xe0 + h) mod 16 = h \<and> (0xe0 + h) div 32 = 7"
  "h < 8 \<Longrightarrow> (0xf0 + h) div 8 = 30 \<and> (0xf0 + h) mod 8 = h \<and> (0xf0 + h) div 32 = 7 \<and> (0xf0 + h) div 16 = 15"
  using div_mod_base [of h 32 6] div_mod_base [of h 16 14] div_mod_base [of h 32 7] div_mod_base [of h 8 30]
    div_mod_base [of h 16 15] by simp_all

lemma lead_of_div:
  "unat (c :: u8) div 32 = 6 \<Longrightarrow> c = of_nat (0xc0 + unat c mod 32)"
  "unat c div 16 = 14 \<Longrightarrow> c = of_nat (0xe0 + unat c mod 16)"
  "unat c div 8 = 30 \<Longrightarrow> c = of_nat (0xf0 + unat c mod 8)"
  using div_mult_mod_eq [of "unat c" 32] div_mult_mod_eq [of "unat c" 16] div_mult_mod_eq [of "unat c" 8]
  by (auto intro!: eq_of_natI)

lemma utf8_octets_multi:
  assumes "0x80 \<le> unat u" "unat u \<le> 0x10ffff"
  obtains c h len lb where "utf8_octets u = c # cont_enc len (unat u mod 64 ^ len)" "128 \<le> unat c"
    "utf8_lead c = Some (h, len, lb)" "h = unat u div 64 ^ len" "lb \<le> u"
proof -
  consider "unat u < 0x800" | "\<not> unat u < 0x800" "unat u < 0x10000" | "\<not> unat u < 0x10000" by linarith
  then show thesis
  proof cases
    case 1
    let ?h = "unat u div 64 ^ 1"
    have h: "?h < 32" "0xc0 + ?h < 256" using 1 by simp_all
    note d = lead_div(1) [OF h(1)]
    show thesis
      using d that [of "of_nat (0xc0 + ?h)" 1 ?h "0x80"] 1 assms lead_byte [OF h(2)]
      by (simp add: utf8_octets_def utf8_lead_def word_le_nat_alt Let_def del: of_nat_add)
  next
    case 2
    let ?h = "unat u div 64 ^ 2"
    have h: "?h < 16" "0xe0 + ?h < 256" using 2 by simp_all
    note d = lead_div(2) [OF h(1)]
    show thesis
      using d that [of "of_nat (0xe0 + ?h)" 2 ?h "0x800"] 2 assms lead_byte [OF h(2)]
      by (simp add: utf8_octets_def utf8_lead_def word_le_nat_alt Let_def del: of_nat_add)
  next
    case 3
    let ?h = "unat u div 64 ^ 3"
    have h: "?h < 8" "0xf0 + ?h < 256" using assms(2) by simp_all
    note d = lead_div(3) [OF h(1)]
    show thesis
      using d that [of "of_nat (0xf0 + ?h)" 3 ?h "0x10000"] 3 assms lead_byte [OF h(2)]
      by (simp add: utf8_octets_def utf8_lead_def word_le_nat_alt Let_def del: of_nat_add)
  qed
qed

lemma utf8_lead_bound:
  "utf8_lead c = Some (h, len, lb) \<Longrightarrow> (h + 1) * 64 ^ len \<le> 2 ^ 32 \<and> unat (of_nat h :: u32) = h"
proof -
  assume "utf8_lead c = Some (h, len, lb)"
  then have "h < 32" "len \<le> 3" "len = 3 \<Longrightarrow> h < 8" "len = 2 \<Longrightarrow> h < 16" "len \<noteq> 0"
    by (auto simp: utf8_lead_def split: if_splits)
  moreover from this have "len = 1 \<or> len = 2 \<or> len = 3" by linarith
  ultimately show ?thesis by (auto intro!: unat_of_nat_lt)
qed

lemma utf8_octets_of_lead:
  assumes "utf8_lead c = Some (h, len, lb)" "unat u div 64 ^ len = h" "lb \<le> u"
  shows "utf8_octets u = c # cont_enc len (unat u mod 64 ^ len)"
proof -
  consider "len = 1" "c = of_nat (0xc0 + h)" "h < 32" "0x80 \<le> unat u"
    | "len = 2" "c = of_nat (0xe0 + h)" "h < 16" "0x800 \<le> unat u"
    | "len = 3" "c = of_nat (0xf0 + h)" "h < 8" "0x10000 \<le> unat u"
    using assms(1,3) lead_of_div [of c] by (auto simp: utf8_lead_def word_le_nat_alt split: if_splits)
  then show ?thesis
  proof cases
    case 1
    have "unat u < 0x800" using 1 assms(2) div_mult_mod_eq [of "unat u" 64] by (auto simp: div_eq_dividend_iff)
    then show ?thesis using 1 assms(2) by (simp add: utf8_octets_def)
  next
    case 2
    have "unat u < 0x10000" using 2 assms(2) by simp
    then show ?thesis using 2 assms(2) by (simp add: utf8_octets_def)
  next
    case 3
    then show ?thesis using assms(2) by (simp add: utf8_octets_def)
  qed
qed

lemma valid_small: "unat u < 0x80 \<Longrightarrow> is_valid_code_point u"
proof -
  assume u: "unat u < 0x80"
  have "unat (u AND 0xfffe) \<le> unat u" by (metis word_and_le2 word_le_nat_alt)
  then have "u AND 0xfffe \<noteq> 0xfffe" using u by auto
  then show ?thesis using u by (auto simp: is_valid_code_point_def word_less_nat_alt word_le_nat_alt)
qed

lemma cbs_get_utf8_iff:
  "cbs_get_utf8 cbs = (Some u, rest) \<longleftrightarrow> is_valid_code_point u \<and> cbs = utf8_octets u @ rest"
proof
  assume g: "cbs_get_utf8 cbs = (Some u, rest)"
  obtain c cs where cbs: "cbs = c # cs" using g by (cases cbs) (auto simp: cbs_get_utf8_def)
  show "is_valid_code_point u \<and> cbs = utf8_octets u @ rest"
  proof (cases "unat c < 128")
    case True
    then have "u = ucast c" "rest = cs" using g by (auto simp: cbs cbs_get_utf8_lead)
    moreover have "unat (ucast c :: u32) = unat c" by (simp add: unat_ucast_up)
    ultimately show ?thesis using True by (simp add: cbs utf8_octets_def valid_small word_of_unat)
  next
    case False
    obtain h len lb where l: "utf8_lead c = Some (h, len, lb)"
      using g False by (auto simp: cbs cbs_get_utf8_lead split: option.splits)
    note b = utf8_lead_bound [OF l]
    have t: "utf8_tail len (of_nat h) cs = (Some u, rest)" "is_valid_code_point u" "lb \<le> u"
      using g False l by (auto simp: cbs cbs_get_utf8_lead not_less split: option.splits prod.splits if_splits)
    then have "cs = cont_enc len (unat u mod 64 ^ len) @ rest" "unat u div 64 ^ len = h"
      using utf8_tail_form [of h len "of_nat h" cs u rest] b by auto
    then show ?thesis using utf8_octets_of_lead [OF l _ t(3)] t(2) by (simp add: cbs)
  qed
next
  assume r: "is_valid_code_point u \<and> cbs = utf8_octets u @ rest"
  show "cbs_get_utf8 cbs = (Some u, rest)"
  proof (cases "unat u < 0x80")
    case True
    have u8: "unat (of_nat (unat u) :: u8) = unat u" by (rule unat_of_nat_lt) (use True in simp)
    then have "ucast (of_nat (unat u) :: u8) = u" by (simp only: word_unat_eq_iff) (simp add: unat_ucast_up)
    moreover have "cbs = of_nat (unat u) # rest" using r True by (simp add: utf8_octets_def)
    ultimately show ?thesis using True u8 by (simp add: cbs_get_utf8_lead del: of_nat_unat)
  next
    case False
    obtain c h len lb where c: "utf8_octets u = c # cont_enc len (unat u mod 64 ^ len)" "128 \<le> unat c"
      "utf8_lead c = Some (h, len, lb)" "h = unat u div 64 ^ len" "lb \<le> u"
      by (rule utf8_octets_multi [of u]) (use False r valid_code_point_le in auto)
    note b = utf8_lead_bound [OF c(3)]
    have "utf8_tail len (of_nat h) (cont_enc len (unat u mod 64 ^ len) @ rest) = (Some u, rest)"
      using utf8_tail_form [of h len "of_nat h" _ u rest] b c(4) by auto
    then show ?thesis using r c by (simp add: cbs_get_utf8_lead not_less)
  qed
qed

section \<open>The codecs\<close>

interpretation utf8: stream_codec cbs_get_utf8 utf8_octets is_valid_code_point
  by unfold_locales (simp_all only: cbs_get_utf8_iff, auto simp: utf8_octets_def Let_def)

lemma cbs_get_latin1_iff:
  "cbs_get_latin1 bs = (Some u, rest) \<longleftrightarrow> unat u < 256 \<and> bs = [of_nat (unat u)] @ rest"
proof -
  have "(\<exists>c :: u8. bs = c # rest \<and> ucast c = u) \<longleftrightarrow> unat u < 256 \<and> bs = [of_nat (unat u)] @ rest"
  proof (intro iffI; elim exE conjE)
    fix c :: u8 assume c: "bs = c # rest" "ucast c = u"
    then have "unat u = unat c" by (auto simp: unat_ucast_up)
    then show "unat u < 256 \<and> bs = [of_nat (unat u)] @ rest" using c(1) by (simp add: word_of_unat)
  next
    assume u: "unat u < 256" "bs = [of_nat (unat u)] @ rest"
    have "unat (of_nat (unat u) :: u8) = unat u" by (rule unat_of_nat_lt) (use u in simp)
    then have "ucast (of_nat (unat u) :: u8) = u" by (simp only: word_unat_eq_iff) (simp add: unat_ucast_up)
    then show "\<exists>c :: u8. bs = c # rest \<and> ucast c = u" using u(2) by auto
  qed
  moreover have "cbs_get_latin1 bs = (Some u, rest) \<longleftrightarrow> (\<exists>c. bs = c # rest \<and> ucast c = u)"
    unfolding cbs_get_latin1_def by (cases bs) auto
  ultimately show ?thesis by simp
qed

interpretation latin1: stream_codec cbs_get_latin1 "\<lambda>u. [of_nat (unat u)]" "\<lambda>u. unat u < 256"
  by unfold_locales (simp_all only: cbs_get_latin1_iff, simp)

lemma cbs_get_ucs2_be_iff:
  "cbs_get_ucs2_be bs = (Some u, rest) \<longleftrightarrow>
    (unat u < 256 ^ 2 \<and> is_valid_code_point u) \<and> bs = be_enc 2 (unat u) @ rest"
proof -
  have "cbs_get_ucs2_be bs = (Some u, rest) \<longleftrightarrow>
      (\<exists>c. CBS_get_u16 bs = (Some c, rest) \<and> ucast c = u \<and> is_valid_code_point u)"
    unfolding cbs_get_ucs2_be_def by (auto split: prod.splits option.splits if_splits)
  also have "\<dots> \<longleftrightarrow> (\<exists>c :: u16. bs = be_enc 2 (unat c) @ rest \<and> ucast c = u \<and> is_valid_code_point u)"
    unfolding u16.dec_iff using unsigned_less [where 'a = nat and 'b = 16] by (auto simp del: be_enc.simps)
  also have "\<dots> \<longleftrightarrow> (unat u < 256 ^ 2 \<and> is_valid_code_point u) \<and> bs = be_enc 2 (unat u) @ rest"
  proof (intro iffI; elim exE conjE)
    fix c :: u16 assume c: "bs = be_enc 2 (unat c) @ rest" "ucast c = u" "is_valid_code_point u"
    then have "unat u = unat c" by (auto simp: unat_ucast_up)
    moreover have "unat c < 256 ^ 2" by (rule order_less_le_trans [OF unsigned_less]) simp
    ultimately show "(unat u < 256 ^ 2 \<and> is_valid_code_point u) \<and> bs = be_enc 2 (unat u) @ rest" using c by simp
  next
    assume u: "unat u < 256 ^ 2" "is_valid_code_point u" "bs = be_enc 2 (unat u) @ rest"
    have w: "unat (of_nat (unat u) :: u16) = unat u" by (rule unat_of_nat_lt) (use u in simp)
    then have "ucast (of_nat (unat u) :: u16) = u" by (simp only: word_unat_eq_iff) (simp add: unat_ucast_up)
    then show "\<exists>c :: u16. bs = be_enc 2 (unat c) @ rest \<and> ucast c = u \<and> is_valid_code_point u"
      using u w by metis
  qed
  finally show ?thesis .
qed

interpretation ucs2: stream_codec cbs_get_ucs2_be "\<lambda>u. be_enc 2 (unat u)" "\<lambda>u. unat u < 256 ^ 2 \<and> is_valid_code_point u"
  by unfold_locales (rule cbs_get_ucs2_be_iff, simp add: be_enc_not_Nil)

lemma cbs_get_utf32_be_iff:
  "cbs_get_utf32_be bs = (Some u, rest) \<longleftrightarrow> is_valid_code_point u \<and> bs = be_enc 4 (unat u) @ rest"
proof -
  have "unat u < 256 ^ 4" by (rule order_less_le_trans [OF unsigned_less]) simp
  moreover have "cbs_get_utf32_be bs = (Some u, rest) \<longleftrightarrow> CBS_get_u32 bs = (Some u, rest) \<and> is_valid_code_point u"
    unfolding cbs_get_utf32_be_def by (auto split: prod.splits option.splits if_splits)
  ultimately show ?thesis by (auto simp: u32.dec_iff simp del: be_enc.simps)
qed

interpretation utf32: stream_codec cbs_get_utf32_be "\<lambda>u. be_enc 4 (unat u)" is_valid_code_point
  by unfold_locales (rule cbs_get_utf32_be_iff, simp add: be_enc_not_Nil)

section \<open>The writers\<close>

lemma ucast_of_nat_up: "n < 256 \<Longrightarrow> (ucast (of_nat n :: u8) :: u32) = of_nat n"
  by (rule eq_of_natI) (simp add: unat_ucast_up unat_of_nat_lt)

lemma or_low:
  assumes "unat (x :: u32) < 2 ^ k" "(t + 1) * 2 ^ k \<le> 256"
  shows "(ucast (ucast (of_nat (t * 2 ^ k) :: u8) OR x) :: u8) = of_nat (t * 2 ^ k + unat x)"
proof -
  have t: "t * 2 ^ k < 256"
  proof -
    have "t * 2 ^ k < (t + 1) * 2 ^ k" by simp
    then show ?thesis using assms(2) by linarith
  qed
  have t32: "t < 2 ^ 32"
  proof -
    have "t * 1 \<le> t * 2 ^ k" by (rule mult_le_mono) simp_all
    then have "t \<le> t * 2 ^ k" by (simp only: mult_1_right)
    then have "t < 256" using t by (rule le_less_trans)
    then show ?thesis by simp
  qed
  have tu: "unat (of_nat t :: u32) = t" using t32 by (intro unat_of_nat_lt) simp
  have "(ucast (of_nat (t * 2 ^ k) :: u8) :: u32) = push_bit k (of_nat t)"
    unfolding ucast_of_nat_up [OF t] by (simp add: push_bit_eq_mult)
  moreover have "unat (push_bit k (of_nat t :: u32) OR x) = t * 2 ^ k + unat x"
    using unat_shift_or [of "of_nat t :: u32" k x] assms by (simp add: tu)
  moreover have "t * 2 ^ k + unat x < 256" using assms by (simp add: algebra_simps)
  ultimately show ?thesis by (intro eq_of_natI) (simp add: unat_ucast_down del: of_nat_add of_nat_mult)
qed

lemma low6: "unat (x AND ucast (BOTTOM_BITS 6)) = unat x mod 64" for x :: u32
proof -
  have "(ucast (BOTTOM_BITS 6) :: u32) = mask 6"
    by (simp add: BOTTOM_BITS_mask mask_eq_exp_minus_1)
  then show ?thesis using unat_and_mask [of x 6] by simp
qed

lemma top_or:
  "unat x < 64 \<Longrightarrow> (ucast (ucast (TOP_BITS (Suc 0)) OR x :: u32) :: u8) = of_nat (128 + unat x)"
  "unat x < 64 \<Longrightarrow> (ucast (ucast (TOP_BITS 2) OR x :: u32) :: u8) = of_nat (0xc0 + unat x)"
  "unat x < 32 \<Longrightarrow> (ucast (ucast (TOP_BITS 3) OR x :: u32) :: u8) = of_nat (0xe0 + unat x)"
  "unat x < 16 \<Longrightarrow> (ucast (ucast (TOP_BITS 4) OR x :: u32) :: u8) = of_nat (0xf0 + unat x)"
  using or_low [of x 6 2] or_low [of x 6 3] or_low [of x 5 7] or_low [of x 4 15]
  by (simp_all add: TOP_BITS_def BOTTOM_BITS_def push_bit_eq_mult)

lemma and_then_True_right: "and_then f (\<lambda>s. (True, s)) = f"
  by (rule ext) (auto simp: and_then_def split: prod.splits bool.splits)

lemma add_u8s_Cons: "add_u8s malloc d (b # bs) = and_then (CBB_add_u8 malloc d b) (add_u8s malloc d bs)"
  by (rule ext) simp

lemma add_u8s_single: "add_u8s malloc d [b] = CBB_add_u8 malloc d b"
  by (rule ext) (auto simp: and_then_def split: prod.splits bool.splits)

lemma add_u8s_Nil: "add_u8s malloc d [] = (\<lambda>s. (True, s))"
  by (rule ext) simp

lemma cont_enc_explicit:
  "cont_enc (Suc 0) (n mod 64) = [of_nat (128 + n mod 64)]"
  "cont_enc 2 (n mod 4096) = [of_nat (128 + n div 64 mod 64), of_nat (128 + n mod 64)]"
  "cont_enc 3 (n mod 262144) = [of_nat (128 + n div 4096 mod 64), of_nat (128 + n div 64 mod 64), of_nat (128 + n mod 64)]"
proof -
  have m: "n mod (64 * m) div m = n div m mod 64" "n mod (64 * m) mod m = n mod m" if "m > 0" for m
    using that mod_mult2_eq [of n m 64] by (simp_all add: mult.commute mod_mod_cancel)
  show "cont_enc (Suc 0) (n mod 64) = [of_nat (128 + n mod 64)]" by simp
  show "cont_enc 2 (n mod 4096) = [of_nat (128 + n div 64 mod 64), of_nat (128 + n mod 64)]"
    using m [of 64] by (simp add: numeral_2_eq_2)
  show "cont_enc 3 (n mod 262144) = [of_nat (128 + n div 4096 mod 64), of_nat (128 + n div 64 mod 64), of_nat (128 + n mod 64)]"
    using m [of 4096] m [of 64] by (simp add: numeral_3_eq_3)
qed

lemma cbb_add_utf8_eq:
  assumes "is_valid_code_point u"
  shows "cbb_add_utf8 malloc d u = add_u8s malloc d (utf8_octets u)"
proof -
  have n: "unat u \<le> 0x10ffff" by (rule valid_code_point_le [OF assms])
  have lt: "u \<le> 0x7f \<longleftrightarrow> unat u < 0x80" "u \<le> 0x7ff \<longleftrightarrow> unat u < 0x800" "u \<le> 0xffff \<longleftrightarrow> unat u < 0x10000"
    "u \<le> 0x10ffff" using n by (simp_all add: word_le_nat_alt less_Suc_eq_le [symmetric])
  have m: "unat u mod 64 < 64" "unat (drop_bit 6 u) mod 64 < 64" "unat (drop_bit 12 u) mod 64 < 64" by simp_all
  note simps = cbb_add_utf8_def Let_def utf8_octets_def lt top_or low6 m unat_drop_bit add_u8s_Cons add_u8s_Nil and_then_True_right assms cont_enc_explicit
  consider "unat u < 0x80" | "0x80 \<le> unat u" "unat u < 0x800" | "0x800 \<le> unat u" "unat u < 0x10000"
    | "0x10000 \<le> unat u" by linarith
  then show ?thesis
  proof cases
    case 1
    moreover have "(ucast u :: u8) = of_nat (unat u)" by (simp only: word_unat_eq_iff unat_ucast_down unat_of_nat)
    moreover have "add_u8s malloc d [of_nat (unat u)] = CBB_add_u8 malloc d (of_nat (unat u))" by (rule add_u8s_single)
    ultimately show ?thesis using assms by (simp add: cbb_add_utf8_def utf8_octets_def lt Let_def del: of_nat_unat)
  next
    case 2
    then show ?thesis by (simp add: simps)
  next
    case 3
    then show ?thesis by (simp add: simps)
  next
    case 4
    then show ?thesis using n by (simp add: simps)
  qed
qed

lemma refines_fail: "refines (\<lambda>cbb. (False, cbb)) F"
  by (simp add: refines_def)

lemma refines_utf8:
  assumes "malloc_contract malloc"
  shows "refines (cbb_add_utf8 malloc d u) (\<lambda>B. if is_valid_code_point u then put d (utf8_octets u) B else None)"
proof (cases "is_valid_code_point u")
  case True
  have "utf8_octets u \<noteq> []" by (simp add: utf8_octets_def Let_def)
  then show ?thesis using True refines_add_u8s [OF assms] by (simp add: cbb_add_utf8_eq)
next
  case False
  then show ?thesis by (simp add: cbb_add_utf8_def refines_fail)
qed

lemma total_utf8:
  assumes "malloc_contract malloc" and "is_valid_code_point u"
  shows "total malloc N (cbb_add_utf8 malloc d u) (put d (utf8_octets u))"
proof -
  have "utf8_octets u \<noteq> []" by (simp add: utf8_octets_def Let_def)
  then show ?thesis using total_add_u8s [OF assms(1)] by (simp add: cbb_add_utf8_eq [OF assms(2)])
qed

interpretation utf8_writer: total_codec cbs_get_utf8 utf8_octets is_valid_code_point cbb_add_utf8
  by unfold_locales (erule refines_utf8, erule total_utf8, assumption)

interpretation latin1_writer: builder_codec cbs_get_latin1 "\<lambda>u. [of_nat (unat u)]" "\<lambda>u. unat u < 256" cbb_add_latin1
proof
  fix malloc d and x :: u32
  assume "malloc_contract malloc"
  moreover have "u \<le> 0xff \<longleftrightarrow> unat u < 256" for u :: u32 by (simp add: word_le_nat_alt less_Suc_eq_le [symmetric])
  moreover have "(ucast x :: u8) = of_nat (unat x)" by (simp only: word_unat_eq_iff unat_ucast_down unat_of_nat)
  ultimately show "refines (cbb_add_latin1 malloc d x) (\<lambda>B. if unat x < 256 then put d [of_nat (unat x)] B else None)"
    using refines_add_u8 [of malloc d "ucast x"]
    by (cases "unat x < 256") (simp_all add: cbb_add_latin1_def [abs_def] refines_fail del: of_nat_unat)
qed

lemma le_ffff_iff: "u \<le> 0xffff \<longleftrightarrow> unat u < 256 ^ 2" for u :: u32
proof -
  have "u \<le> 0xffff \<longleftrightarrow> unat u \<le> 65535" by (simp add: word_le_nat_alt)
  also have "\<dots> \<longleftrightarrow> unat u < 256 ^ 2" by (simp add: less_eq_Suc_le)
  finally show ?thesis .
qed

lemma refines_ucs2:
  assumes "malloc_contract malloc"
  shows "refines (cbb_add_ucs2_be malloc d u)
    (\<lambda>B. if unat u < 256 ^ 2 \<and> is_valid_code_point u then put d (be_enc 2 (unat u)) B else None)"
proof (cases "unat u < 256 ^ 2 \<and> is_valid_code_point u")
  case True
  then have "unat u < 2 ^ 16" by simp
  then have n: "unat (ucast u :: u16) = unat u" by (simp add: unat_ucast_down)
  have e: "cbb_add_ucs2_be malloc d u = CBB_add_u16 malloc d (ucast u)"
    by (rule ext) (simp only: cbb_add_ucs2_be_def le_ffff_iff True simp_thms if_True)
  show ?thesis unfolding if_P [OF True] e by (rule refines_add_u16 [OF assms, of d "ucast u", unfolded n])
next
  case False
  then have e: "cbb_add_ucs2_be malloc d u = (\<lambda>cbb. (False, cbb))"
    by (intro ext) (simp only: cbb_add_ucs2_be_def le_ffff_iff if_False)
  show ?thesis unfolding e by (rule refines_fail)
qed

interpretation ucs2_writer: builder_codec cbs_get_ucs2_be "\<lambda>u. be_enc 2 (unat u)"
    "\<lambda>u. unat u < 256 ^ 2 \<and> is_valid_code_point u" cbb_add_ucs2_be
  by unfold_locales (rule refines_ucs2)

interpretation utf32_writer: builder_codec cbs_get_utf32_be "\<lambda>u. be_enc 4 (unat u)" is_valid_code_point cbb_add_utf32_be
proof
  fix malloc d and x :: u32
  assume m: "malloc_contract malloc"
  show "refines (cbb_add_utf32_be malloc d x) (\<lambda>B. if is_valid_code_point x then put d (be_enc 4 (unat x)) B else None)"
  proof (cases "is_valid_code_point x")
    case True
    then have "cbb_add_utf32_be malloc d x = CBB_add_u32 malloc d x"
      by (intro ext) (simp only: cbb_add_utf32_be_def if_True)
    then show ?thesis using refines_add_u32 [OF m, of d x] True by (simp only: if_True)
  next
    case False
    then have "cbb_add_utf32_be malloc d x = (\<lambda>cbb. (False, cbb))"
      by (intro ext) (simp only: cbb_add_utf32_be_def if_False)
    then show ?thesis by (simp only: refines_fail)
  qed
qed

lemma length_utf8_octets: "is_valid_code_point u \<Longrightarrow> length (utf8_octets u) = cbb_get_utf8_len u"
  by (simp add: utf8_octets_def cbb_get_utf8_len_def word_le_nat_alt Let_def)

section \<open>The valid code points, as a set of numbers\<close>

text \<open>
  Up to 0x10ffff, without the surrogates, the block of non-characters, and the two last code points
  of each plane.
\<close>

definition code_points :: "nat set" where
  "code_points = {n. n \<le> 0x10ffff \<and> n \<notin> {0xd800..0xdfff} \<and> n \<notin> {0xfdd0..0xfdef} \<and>
     n mod 0x10000 \<notin> {0xfffe, 0xffff}}"

lemma and_fffe_iff: "v AND 0xfffe = 0xfffe \<longleftrightarrow> unat v mod 0x10000 \<in> {0xfffe, 0xffff}" for v :: u32
proof -
  have e: "v AND 0xfffe = push_bit 1 (take_bit 15 (drop_bit 1 v))"
  proof (rule bit_word_eqI)
    fix n assume "n < LENGTH(32)"
    have m: "(0xfffe :: u32) = push_bit 1 (mask 15)" by (simp add: mask_eq_exp_minus_1)
    show "bit (v AND 0xfffe) n = bit (push_bit 1 (take_bit 15 (drop_bit 1 v))) n"
      unfolding m bit_and_iff bit_push_bit_iff bit_take_bit_iff bit_mask_iff bit_drop_bit_eq comp_def
      using \<open>n < LENGTH(32)\<close> by (cases n) auto
  qed
  have u: "unat (v AND 0xfffe) = 2 * (unat v div 2 mod 2 ^ 15)"
    unfolding e unsigned_push_bit_eq unsigned_take_bit_eq unsigned_drop_bit_eq
    by (simp only: take_bit_eq_mod drop_bit_eq_div push_bit_eq_mult) (use unsigned_less [of v, where 'a = nat] in simp)
  have "v AND 0xfffe = 0xfffe \<longleftrightarrow> unat (v AND 0xfffe) = 0xfffe" by (simp add: word_unat_eq_iff)
  also have "\<dots> \<longleftrightarrow> unat v div 2 mod 2 ^ 15 = 0x7fff" unfolding u by simp
  also have "\<dots> \<longleftrightarrow> unat v mod 0x10000 \<in> {0xfffe, 0xffff}"
  proof -
    have "unat v mod 0x10000 = 2 * (unat v div 2 mod 2 ^ 15) + unat v mod 2"
      using mod_mult2_eq [of "unat v" 2 "2 ^ 15"] by simp
    moreover have "unat v mod 2 < 2" by simp
    ultimately show ?thesis unfolding insert_iff empty_iff by (cases "unat v div 2 mod 2 ^ 15 = 0x7fff") auto
  qed
  finally show ?thesis .
qed

lemma is_valid_code_point_iff: "is_valid_code_point u \<longleftrightarrow> unat u \<in> code_points"
  unfolding is_valid_code_point_def code_points_def and_fffe_iff
  by (simp add: word_le_nat_alt word_less_nat_alt)

section \<open>Properties\<close>

text \<open>
  C9: UTF-8 decoding is exact: a string splits into code points under \<^verbatim>\<open>cbs_get_utf8\<close>, read to the
  end, if and only if it is the concatenation of the shortest encodings of valid code points. So
  overlong forms, surrogates, non-characters and truncated sequences are all refused.
\<close>

theorem utf8_strings_exact:
  "decode_all cbs_get_utf8 (length s) s = Some us \<longleftrightarrow>
    unat ` set us \<subseteq> code_points \<and> s = concat (map utf8_octets us)"
  unfolding utf8.decode_all_iff list_all_iff is_valid_code_point_iff by (simp only: image_subset_iff)

text \<open>
  C10: \<^verbatim>\<open>cbb_add_utf8\<close> accepts exactly the valid code points: what is written for one has \<^verbatim>\<open>cbb_get_utf8_len\<close> bytes, and
  \<^verbatim>\<open>cbs_get_utf8\<close> reads the code point back; and nothing is written only for a number that is not a code point, or if the
  allocator has refused a small block (a builder with an initial capacity of \<^verbatim>\<open>n\<close> asks for no more than \<open>2 * n + 48\<close> bytes).
\<close>

theorem utf8_round_trip:
  assumes "malloc_contract malloc" and "unat n < 2 ^ 59"
  shows "case build malloc n (cbb_add_utf8 malloc 0 u) of
      Some out \<Rightarrow> unat u \<in> code_points \<and> length out = cbb_get_utf8_len u \<and> cbs_get_utf8 (out @ rest) = (Some u, rest)
    | None \<Rightarrow> unat u \<notin> code_points \<or> (\<exists>k. unat k \<le> 2 * unat n + 48 \<and> malloc k = None)"
proof (cases "build malloc n (cbb_add_utf8 malloc 0 u)")
  case None
  have "cbb_get_utf8_len u \<le> 4" by (simp add: cbb_get_utf8_len_def)
  then have l: "unat u \<in> code_points \<Longrightarrow> length (utf8_octets u) \<le> unat n + 4"
    by (simp add: length_utf8_octets is_valid_code_point_iff)
  have False if v: "unat u \<in> code_points" and m: "\<forall>k. unat k \<le> 2 * unat n + 48 \<longrightarrow> malloc k \<noteq> None"
  proof -
    have "2 * (unat n + 4) + 40 = 2 * unat n + 48" by simp
    then show False using utf8_writer.builds [OF assms(1), of u "unat n + 4" n] l [OF v] v m assms(2) None
      by (simp add: is_valid_code_point_iff del: not_None_eq)
  qed
  then have "unat u \<notin> code_points \<or> (\<exists>k. unat k \<le> 2 * unat n + 48 \<and> malloc k = None)" by metis
  then show ?thesis by (simp only: None option.case)
next
  case (Some out)
  have "unat n < 2 ^ 64 - 8" using assms(2) by simp
  then show ?thesis
    using Some utf8_writer.written_iff [OF assms(1) _ Some] utf8_writer.round_trip [OF assms(1) _ Some] length_utf8_octets
    by (simp add: is_valid_code_point_iff)
qed

lemma utf8_round_trip_witness:
  "unat (0x20ac :: u32) \<in> code_points \<and> length [0xe2, 0x82, 0xac :: u8] = cbb_get_utf8_len 0x20ac \<and>
    cbs_get_utf8 ([0xe2, 0x82, 0xac] @ [0x41]) = (Some 0x20ac, [0x41])"
proof -
  have "build example_malloc 1 (cbb_add_utf8 example_malloc 0 0x20ac) = Some [0xe2, 0x82, 0xac]" by code_simp
  then show ?thesis using utf8_round_trip [OF example_malloc_contract, of 1 "0x20ac" "[0x41]"] by simp
qed

end
