(* ===== verification/Ber.thy ===== *)
theory Ber
  imports Unicode
begin

text \<open>
  \<^verbatim>\<open>crypto/bytestring/ber.c\<close>: the conversion of BER to DER, with \<^verbatim>\<open>CBB_finish_i2d\<close> of
  \<^verbatim>\<open>asn1_compat.c\<close>.
\<close>

definition kMaxDepth :: u32 where
  "kMaxDepth = 2048"

definition is_string_type :: "u32 \<Rightarrow> bool" where
  "is_string_type tag \<longleftrightarrow>
     tag AND NOT CBS_ASN1_CONSTRUCTED \<in> set [0x3, 0x4, 0xc, 0x12, 0x13, 0x14, 0x15, 0x16, 0x19, 0x1a, 0x1b, 0x1c, 0x1e]"

text \<open>The test that an element has no contents and its header ends in the indefinite length byte.\<close>

definition is_indefinite :: "CBS \<Rightarrow> u64 \<Rightarrow> bool" where
  "is_indefinite elem header_len \<longleftrightarrow>
     CBS_len elem = unat header_len \<and> header_len > 0 \<and> elem ! (unat header_len - 1) = 0x80"

text \<open>What the BER mode of the element parser accepts: a DER element or an indefinite-length header.\<close>

lemma any_element_indefinite:
  "cbs_get_any_asn1_element (tag_octets t @ 0x80 # rest) True =
    (if t AND CBS_ASN1_CONSTRUCTED = 0 then (None, tag_octets t @ 0x80 # rest)
     else (Some (tag_octets t @ [0x80], t, of_nat (length (tag_octets t) + 1)), rest))"
proof -
  let ?hl = "of_nat (length (tag_octets t) + 1) :: u64"
  have "unat ?hl = length (tag_octets t) + 1"
    using length_tag_octets [of t] by (intro unat_of_nat_lt) simp
  then have "unat ?hl = length (tag_octets t @ [0x80 :: u8])" by simp
  then have "CBS_get_bytes (tag_octets t @ 0x80 # rest) ?hl = (Some (tag_octets t @ [0x80]), rest)"
    by (simp only: CBS_get_bytes_iff) simp
  then show ?thesis by (simp add: any_element_after_tag Let_def)
qed

lemma any_element_ber_eq:
  assumes "\<nexists>t rest. t AND CBS_ASN1_CONSTRUCTED \<noteq> 0 \<and> cbs = tag_octets t @ 0x80 # rest"
  shows "cbs_get_any_asn1_element cbs True = cbs_get_any_asn1_element cbs False"
proof (cases "\<exists>t lb r. cbs = tag_octets t @ lb # r")
  case True
  then obtain t lb r where cbs: "cbs = tag_octets t @ lb # r" by blast
  have "lb AND 0x80 \<noteq> 0 \<Longrightarrow> ucast (lb AND 0x7f) = (0 :: u64) \<Longrightarrow> lb = 0x80"
  proof -
    assume "lb AND 0x80 \<noteq> 0" and "ucast (lb AND 0x7f) = (0 :: u64)"
    then have "128 \<le> unat lb" "unat (ucast (lb AND 0x7f) :: u64) = 0"
      unfolding u8_high_bit by simp_all
    then have "128 \<le> unat lb" "unat lb mod 128 = 0" by (simp_all only: unat_ucast_up u8_low7) (simp_all add: unat_ucast_up u8_low7)
    moreover have "unat lb < 256" by simp
    moreover obtain q where "unat lb = q * 128" using calculation(2) by (metis mod_0_imp_dvd dvd_def mult.commute)
    ultimately have "unat lb = 128" by simp
    then show "lb = 0x80" by (simp add: word_unat_eq_iff)
  qed
  then show ?thesis using assms unfolding cbs any_element_after_tag Let_def by (auto simp del: CBS_ASN1_CONSTRUCTED_def)
next
  case False
  then have "parse_asn1_tag cbs = (Some t, hdr) \<Longrightarrow> hdr = []" for t hdr
    unfolding parse_asn1_tag_iff by (cases hdr) auto
  then show ?thesis unfolding cbs_get_any_asn1_element_def
    by (auto split: prod.splits option.splits dest: sym)
qed

lemma any_ber_element_indefinite:
  "t AND CBS_ASN1_CONSTRUCTED \<noteq> 0 \<Longrightarrow> CBS_get_any_ber_asn1_element (tag_octets t @ 0x80 # rest) =
    (Some (tag_octets t @ [0x80], t, of_nat (length (tag_octets t @ [0x80 :: u8]))), rest)"
  by (simp add: CBS_get_any_ber_asn1_element_def any_element_indefinite)

lemma der_element_not_indefinite: "der_element t c \<noteq> tag_octets t @ [0x80]"
  using len_bytes_bounds [of "length c"] by (auto simp: der_element_def der_header_def len_octets_def)

lemma any_ber_element_iff:
  "CBS_get_any_ber_asn1_element cbs = (Some (elem, t, hl), rest) \<longleftrightarrow> cbs = elem @ rest \<and>
    ((\<exists>c. length c < 2 ^ 32 \<and> elem = der_element t c \<and> hl = of_nat (length (der_header t (length c)))) \<or>
     (t AND CBS_ASN1_CONSTRUCTED \<noteq> 0 \<and> elem = tag_octets t @ [0x80] \<and> hl = of_nat (length elem)))"
    (is "?L \<longleftrightarrow> ?R")
proof
  assume l: ?L
  show ?R
  proof (cases "\<exists>t' r. t' AND CBS_ASN1_CONSTRUCTED \<noteq> 0 \<and> cbs = tag_octets t' @ 0x80 # r")
    case True
    then show ?thesis using l any_ber_element_indefinite by auto
  next
    case False
    from l have "cbs_get_any_asn1_element cbs False = (Some (elem, t, hl), rest)"
      unfolding CBS_get_any_ber_asn1_element_def by (subst any_element_ber_eq [symmetric]) (use False in blast)
    then show ?thesis using any_element_sound by blast
  qed
next
  assume ?R
  then show ?L
    using any_element_der [of _ t rest True] any_ber_element_indefinite [of t rest]
    by (auto simp: CBS_get_any_ber_asn1_element_def simp del: length_append)
qed

lemma any_ber_element_None: "CBS_get_any_ber_asn1_element cbs = (None, cbs') \<Longrightarrow> cbs' = cbs"
  unfolding CBS_get_any_ber_asn1_element_def cbs_get_any_asn1_element_def
  by (auto simp: Let_def CBS_get_bytes_def cbs_get_def split: prod.splits option.splits if_splits)

lemma unat_header_length: "unat (of_nat (length (der_header t n)) :: u64) = length (der_header t n)"
  using length_der_header [of t n] by (intro unat_of_nat_lt) simp

lemma der_header_not_Nil: "der_header t n \<noteq> []"
  by (simp add: der_header_def tag_octets_not_Nil)

lemma any_ber_element_shorter:
  assumes "CBS_get_any_ber_asn1_element cbs = (Some (elem, tag, hl), cbs')"
  shows "length cbs' < length cbs \<and> length elem \<le> length cbs \<and> 0 < unat hl \<and> unat hl \<le> length elem"
proof -
  have "unat (of_nat (length (tag_octets tag @ [0x80 :: u8])) :: u64) = length (tag_octets tag @ [0x80 :: u8])"
    using length_tag_octets [of tag] by (intro unat_of_nat_lt) simp
  then show ?thesis
    using assms der_header_not_Nil unfolding any_ber_element_iff
    by (auto simp: unat_header_length der_element_def simp del: of_nat_add)
qed

lemma CBS_skip_Some: "CBS_skip cbs n = (Some u, cbs') \<longleftrightarrow> unat n \<le> length cbs \<and> cbs' = drop (unat n) cbs"
  by (auto simp: CBS_skip_def cbs_get_def)

text \<open>
  \<^verbatim>\<open>cbs_find_ber\<close> is \<^verbatim>\<open>None\<close> for a return of 0 and else the value it leaves in \<^verbatim>\<open>*ber_found\<close>; its loop
  has the current value of \<^verbatim>\<open>*ber_found\<close> as an argument.
\<close>

function cbs_find_ber :: "CBS \<Rightarrow> u32 \<Rightarrow> bool option"
  and find_ber_loop :: "CBS \<Rightarrow> bool \<Rightarrow> u32 \<Rightarrow> bool option" where
  "cbs_find_ber orig_in depth = (if depth > kMaxDepth then None else find_ber_loop orig_in False depth)"
| "find_ber_loop inp ber_found depth =
     (if CBS_len inp = 0 then Some ber_found
      else (case CBS_get_any_ber_asn1_element inp of
        (None, _) \<Rightarrow> None
      | (Some (elem, tag, header_len), inp') \<Rightarrow>
          if is_indefinite elem header_len then Some True
          else if tag AND CBS_ASN1_CONSTRUCTED \<noteq> 0 then
            if is_string_type tag then Some True
            else (case CBS_skip elem header_len of
                (None, _) \<Rightarrow> None
              | (Some _, elem') \<Rightarrow>
                  (case cbs_find_ber elem' (depth + 1) of
                     None \<Rightarrow> None
                   | Some ber_found' \<Rightarrow> find_ber_loop inp' ber_found' depth))
          else find_ber_loop inp' ber_found depth))"
  by pat_completeness auto
termination
proof (relation "measure (case_sum (\<lambda>(inp, _). Suc (2 * length inp)) (\<lambda>(inp, _, _). 2 * length inp))",
    goal_cases)
  case (3 inp ber_found depth x y x2 elem ya tag hl xc elem' x2a)
  then have "CBS_get_any_ber_asn1_element inp = (Some (elem, tag, hl), y)" "CBS_skip elem hl = (Some x2a, elem')" by simp_all
  then show ?case using any_ber_element_shorter [of inp elem tag hl y] by (simp add: CBS_skip_Some) linarith
next
  case (4 inp ber_found depth x y x2 elem ya tag hl)
  then have "CBS_get_any_ber_asn1_element inp = (Some (elem, tag, hl), y)" by simp
  then show ?case using any_ber_element_shorter [of inp elem tag hl y] by simp
next
  case (5 inp ber_found depth x y x2 elem ya tag hl)
  then have "CBS_get_any_ber_asn1_element inp = (Some (elem, tag, hl), y)" by simp
  then show ?case using any_ber_element_shorter [of inp elem tag hl y] by simp
qed simp_all


text \<open>
  The walk reports the last nested element it has looked at, not whether any was found: a later
  sibling resets \<^verbatim>\<open>*ber_found\<close>.
\<close>

lemma find_ber_reset: "cbs_find_ber [0x30, 8, 0x30, 4, 0x30, 0x80, 0, 0, 0x30, 0] 0 = Some False"
  by code_simp

definition is_eoc :: "u64 \<Rightarrow> CBS \<Rightarrow> bool" where
  "is_eoc header_len elem \<longleftrightarrow> header_len = 2 \<and> CBS_len elem = 2 \<and> take 2 elem = [0, 0]"

text \<open>
  The choice of \<^verbatim>\<open>out_contents\<close>: \<^verbatim>\<open>out\<close> itself inside a constructed string, else a new child of it. The
  result is its depth in the builder's chain and \<^verbatim>\<open>child_string_tag\<close>.
\<close>

definition convert_open :: "libc_malloc \<Rightarrow> nat \<Rightarrow> u32 \<Rightarrow> u32 \<Rightarrow> CBB \<Rightarrow> (nat \<times> u32) option \<times> CBB" where
  "convert_open malloc out string_tag tag cbb =
     (if string_tag \<noteq> 0 then
        if tag AND NOT CBS_ASN1_CONSTRUCTED \<noteq> string_tag then (None, cbb) else (Some (out, string_tag), cbb)
      else
        let (out_tag, child_string_tag) =
          (if tag AND CBS_ASN1_CONSTRUCTED \<noteq> 0 \<and> is_string_type tag
           then (tag AND NOT CBS_ASN1_CONSTRUCTED, tag AND NOT CBS_ASN1_CONSTRUCTED)
           else (tag, string_tag)) in
        (case CBB_add_asn1 malloc out out_tag cbb of
           (False, cbb') \<Rightarrow> (None, cbb')
         | (True, cbb') \<Rightarrow> (Some (Suc out, child_string_tag), cbb')))"

text \<open>
  \<^verbatim>\<open>cbs_convert_ber\<close> advances \<^verbatim>\<open>in\<close> and writes to the builder object at depth \<^verbatim>\<open>out\<close> of its chain.
  A turn of the \<^verbatim>\<open>while\<close> loop is a tail call with the same \<^verbatim>\<open>depth\<close>, which has passed the test already.
\<close>

function cbs_convert_ber ::
  "libc_malloc \<Rightarrow> CBS \<Rightarrow> nat \<Rightarrow> u32 \<Rightarrow> bool \<Rightarrow> u32 \<Rightarrow> CBB \<Rightarrow> bool \<times> CBS \<times> CBB"
where
  "cbs_convert_ber malloc inp out string_tag looking_for_eoc depth cbb =
     (if depth > kMaxDepth then (False, inp, cbb)
      else if CBS_len inp = 0 then (\<not> looking_for_eoc, inp, cbb)
      else (case CBS_get_any_ber_asn1_element inp of
        (None, inp') \<Rightarrow> (False, inp', cbb)
      | (Some (elem, tag, header_len), inp') \<Rightarrow>
          if is_eoc header_len elem then (looking_for_eoc, inp', cbb)
          else (case convert_open malloc out string_tag tag cbb of
            (None, cbb1) \<Rightarrow> (False, inp', cbb1)
          | (Some (out_contents, child_string_tag), cbb1) \<Rightarrow>
              if is_indefinite elem header_len then
                (case cbs_convert_ber malloc inp' out_contents child_string_tag True (depth + 1) cbb1 of
                   (ok, inp'', cbb2) \<Rightarrow>
                     if \<not> ok then (False, inp'', cbb2)
                     else (case CBB_flush malloc out cbb2 of
                         (False, cbb3) \<Rightarrow> (False, inp'', cbb3)
                       | (True, cbb3) \<Rightarrow>
                           cbs_convert_ber malloc inp'' out string_tag looking_for_eoc depth cbb3))
              else
                (case CBS_skip elem header_len of
                   (None, _) \<Rightarrow> (False, inp', cbb1)
                 | (Some _, elem') \<Rightarrow>
                     (case (if tag AND CBS_ASN1_CONSTRUCTED \<noteq> 0
                            then (case cbs_convert_ber malloc elem' out_contents child_string_tag False (depth + 1) cbb1 of
                                    (ok, _, cbb2) \<Rightarrow> (ok, cbb2))
                            else CBB_add_bytes malloc out_contents elem' cbb1) of
                        (ok, cbb2) \<Rightarrow>
                          if \<not> ok then (False, inp', cbb2)
                          else (case CBB_flush malloc out cbb2 of
                              (False, cbb3) \<Rightarrow> (False, inp', cbb3)
                            | (True, cbb3) \<Rightarrow>
                                cbs_convert_ber malloc inp' out string_tag looking_for_eoc depth cbb3))))))"
  by pat_completeness auto
termination
proof -
  txt \<open>The input never grows, which the loop after an indefinite-length element rests on.\<close>
  have shorter: "length (fst (snd (cbs_convert_ber malloc inp out st eoc depth cbb))) \<le> length inp"
    if "cbs_convert_ber_dom (malloc, inp, out, st, eoc, depth, cbb)" for malloc inp out st eoc depth cbb
    using that
  proof (induction rule: cbs_convert_ber.pinduct)
    case (1 malloc inp out st eoc depth cbb)
    note rec = cbs_convert_ber.psimps [OF 1(1)]
    show ?case
    proof (cases "depth > kMaxDepth \<or> CBS_len inp = 0")
      case True
      then show ?thesis by (auto simp: rec)
    next
      case False
      then have g: "\<not> depth > kMaxDepth" "CBS_len inp \<noteq> 0" by simp_all
      obtain res inp' where get: "CBS_get_any_ber_asn1_element inp = (res, inp')" by fastforce
      show ?thesis
      proof (cases res)
        case None
        then have "inp' = inp" using get by (auto simp: any_ber_element_None)
        then show ?thesis using g get None by (simp add: rec)
      next
        case (Some r)
        obtain elem tag hl where r: "r = (elem, tag, hl)" by (cases r) auto
        note get = get [unfolded Some r]
        note sh = any_ber_element_shorter [OF get]
        obtain o1 cbb1 where op: "convert_open malloc out st tag cbb = (o1, cbb1)" by fastforce
        show ?thesis
        proof (cases "is_eoc hl elem \<or> o1 = None")
          case True
          then show ?thesis using g get sh op by (auto simp: rec)
        next
          case False
          then obtain oc ct where eoc: "\<not> is_eoc hl elem" and op: "convert_open malloc out st tag cbb = (Some (oc, ct), cbb1)"
            using op by (cases o1) auto
          note pre = g get [symmetric] refl refl refl eoc op [symmetric] refl refl
          show ?thesis
          proof (cases "is_indefinite elem hl")
            case ind: True
            obtain ok inp'' cbb2 where c: "cbs_convert_ber malloc inp' oc ct True (depth + 1) cbb1 = (ok, inp'', cbb2)"
              by (metis surj_pair)
            have l: "length inp'' \<le> length inp'" using 1(2) [OF pre ind] c by simp
            obtain f cbb3 where fl: "CBB_flush malloc out cbb2 = (f, cbb3)" by fastforce
            have "length (fst (snd (cbs_convert_ber malloc inp'' out st eoc depth cbb3))) \<le> length inp''" if ok f
              using 1(3) [OF pre ind c [symmetric] refl _ fl [symmetric]] that by simp
            then show ?thesis using g get sh eoc op ind c l fl by (cases ok; cases f) (simp_all add: rec)
          next
            case ind: False
            let ?body = "\<lambda>elem'. if tag AND CBS_ASN1_CONSTRUCTED \<noteq> 0
              then (case cbs_convert_ber malloc elem' oc ct False (depth + 1) cbb1 of (ok, _, cbb2) \<Rightarrow> (ok, cbb2))
              else CBB_add_bytes malloc oc elem' cbb1"
            obtain sk elem' where sk: "CBS_skip elem hl = (sk, elem')" by fastforce
            obtain ok cbb2 where b: "?body elem' = (ok, cbb2)" by fastforce
            obtain f cbb3 where fl: "CBB_flush malloc out cbb2 = (f, cbb3)" by fastforce
            have "length (fst (snd (cbs_convert_ber malloc inp' out st eoc depth cbb3))) \<le> length inp'" if "sk = Some u" ok f for u
              using 1(5) [OF pre ind sk [symmetric] that(1) b [symmetric] _ fl [symmetric]] that by simp
            then show ?thesis using g get sh eoc op ind sk b fl by (cases sk; cases ok; cases f) (simp_all add: rec)
          qed
        qed
      qed
    qed
  qed
  show ?thesis
  proof (relation "measure (\<lambda>(malloc, inp, out, st, eoc, depth, cbb). length inp)", goal_cases)
    case (2 malloc inp out st eoc depth cbb x y x2 elem ya tag hl xc yaa x2a xd yab)
    then have "CBS_get_any_ber_asn1_element inp = (Some (elem, tag, hl), y)" by simp
    then show ?case using any_ber_element_shorter by simp
  next
    case (3 malloc inp out st eoc depth cbb x y x2 elem ya tag hl xc yaa x2a xd yab xe yac xf yc xg yd)
    then have "CBS_get_any_ber_asn1_element inp = (Some (elem, tag, hl), y)" by simp
    moreover have "length xf \<le> length y" using shorter [OF 3(17)] 3(12,13) by (metis fst_conv snd_conv)
    ultimately show ?case using any_ber_element_shorter [of inp] by fastforce
  next
    case (4 malloc inp out st eoc depth cbb x y x2 elem ya tag hl xc yaa x2a xd yab xe yac x2b)
    then have "CBS_get_any_ber_asn1_element inp = (Some (elem, tag, hl), y)" "CBS_skip elem hl = (Some x2b, yac)" by simp_all
    then show ?case using any_ber_element_shorter [of inp elem tag hl y] by (simp add: CBS_skip_Some) linarith
  next
    case (5 malloc inp out st eoc depth cbb x y x2 elem ya tag hl xc yaa x2a xd yab xe yac x2b xf yad xg yae)
    then have "CBS_get_any_ber_asn1_element inp = (Some (elem, tag, hl), y)" by simp
    then show ?case using any_ber_element_shorter by simp
  qed simp
qed

declare cbs_convert_ber.simps [simp del]


lemma is_indefinite_iff:
  assumes "CBS_get_any_ber_asn1_element cbs = (Some (elem, t, hl), rest)"
  shows "is_indefinite elem hl \<longleftrightarrow> elem = tag_octets t @ [0x80]"
proof -
  have i: "is_indefinite elem hl" if e: "elem = tag_octets t @ [0x80]" "hl = of_nat (length elem)"
  proof -
    have "unat hl = length elem" unfolding e using length_tag_octets [of t] by (intro unat_of_nat_lt) simp
    then show ?thesis using e(1) by (simp add: is_indefinite_def CBS_len_def word_gt_0 unat_eq_0 [symmetric])
  qed
  have d: "\<not> is_indefinite (der_element t c) (of_nat (length (der_header t (length c))))" for c
  proof (cases c)
    case Nil
    then have "der_element t c = tag_octets t @ [0]" by (simp add: der_element_def der_header_def len_octets_def)
    then show ?thesis using Nil by (auto simp: is_indefinite_def CBS_len_def unat_header_length nth_append)
  qed (simp add: is_indefinite_def CBS_len_def unat_header_length der_element_def)
  show ?thesis
    using assms i d der_element_not_indefinite unfolding any_ber_element_iff by metis
qed

lemma is_eoc_iff:
  assumes "CBS_get_any_ber_asn1_element cbs = (Some (elem, t, hl), rest)"
  shows "is_eoc hl elem \<longleftrightarrow> elem = der_element 0 []"
proof -
  have e: "der_element 0 [] = [0, 0]" "der_header 0 0 = [0, 0]"
    by (simp_all add: der_element_def der_header_def len_octets_def tag_octets_def)
  show ?thesis
  proof
    assume i: "is_eoc hl elem"
    then have "take 2 elem = elem" by (intro take_all) (simp add: is_eoc_def CBS_len_def)
    then show "elem = der_element 0 []" using i by (simp add: is_eoc_def e)
  next
    assume a: "elem = der_element 0 []"
    then have "last elem = 0" by (simp add: e)
    then have "elem \<noteq> tag_octets t @ [0x80]" by auto
    then obtain c where "length c < 2 ^ 32" "elem = der_element t c" "hl = of_nat (length (der_header t (length c)))"
      using assms unfolding any_ber_element_iff by blast
    moreover have "t = 0 \<and> c = []" using der_element_inj [of t c "[]" 0 "[]" "[]"] calculation a by simp
    ultimately show "is_eoc hl elem" by (simp add: is_eoc_def CBS_len_def e)
  qed
qed

text \<open>The result is \<^verbatim>\<open>*out\<close> and \<^verbatim>\<open>*out_storage\<close>, and \<^verbatim>\<open>in\<close> after the call.\<close>

definition CBS_asn1_ber_to_der :: "libc_malloc \<Rightarrow> CBS \<Rightarrow> (CBS \<times> bytes option) option \<times> CBS" where
  "CBS_asn1_ber_to_der malloc inp =
     (case cbs_find_ber inp 0 of
        None \<Rightarrow> (None, inp)
      | Some conversion_needed \<Rightarrow>
          if \<not> conversion_needed then
            (case CBS_get_any_asn1_element inp of
               (None, inp') \<Rightarrow> (None, inp')
             | (Some (out, _, _), inp') \<Rightarrow> (Some (out, None), inp'))
          else
            (case CBB_init malloc (of_nat (CBS_len inp)) of
               (False, _) \<Rightarrow> (None, inp)
             | (True, cbb) \<Rightarrow>
                 (case cbs_convert_ber malloc inp 0 0 False 0 cbb of
                    (ok, inp', cbb') \<Rightarrow>
                      if \<not> ok then (None, inp')
                      else (case CBB_finish malloc 0 True cbb' of
                          (None, _) \<Rightarrow> (None, inp')
                        | (Some (out_storage, n), _) \<Rightarrow>
                            (Some (case out_storage of None \<Rightarrow> [] | Some m \<Rightarrow> CBS_init m (unat n), out_storage), inp')))))"

text \<open>The loop that joins the pieces of a constructed string.\<close>

function implicit_string_loop :: "libc_malloc \<Rightarrow> u32 \<Rightarrow> CBS \<Rightarrow> CBB \<Rightarrow> bool \<times> CBB" where
  "implicit_string_loop malloc inner_tag child cbb =
     (if CBS_len child = 0 then (True, cbb)
      else (case CBS_get_asn1 child inner_tag of
        (None, _) \<Rightarrow> (False, cbb)
      | (Some chunk, child') \<Rightarrow>
          (case CBB_add_bytes malloc 0 chunk cbb of
             (False, cbb') \<Rightarrow> (False, cbb')
           | (True, cbb') \<Rightarrow> implicit_string_loop malloc inner_tag child' cbb')))"
  by pat_completeness auto
termination
proof (relation "measure (\<lambda>(_, _, child, _). length child)", goal_cases)
  case (2 malloc inner_tag child cbb x y x2 xa ya)
  then have "CBS_get_asn1 child inner_tag = (Some x2, y)" by simp
  then show ?case using der_header_not_Nil by (simp add: CBS_get_asn1_iff der_element_def)
qed simp

declare implicit_string_loop.simps [simp del]

definition CBS_get_asn1_implicit_string ::
  "libc_malloc \<Rightarrow> CBS \<Rightarrow> u32 \<Rightarrow> u32 \<Rightarrow> (CBS \<times> bytes option) option \<times> CBS"
where
  "CBS_get_asn1_implicit_string malloc inp outer_tag inner_tag =
     (if CBS_peek_asn1_tag inp outer_tag then
        (case CBS_get_asn1 inp outer_tag of (out, inp') \<Rightarrow> (map_option (\<lambda>out. (out, None)) out, inp'))
      else
        (case CBB_init malloc (of_nat (CBS_len inp)) of
           (False, _) \<Rightarrow> (None, inp)
         | (True, result) \<Rightarrow>
             (case CBS_get_asn1 inp (outer_tag OR CBS_ASN1_CONSTRUCTED) of
                (None, inp') \<Rightarrow> (None, inp')
              | (Some child, inp') \<Rightarrow>
                  (case implicit_string_loop malloc inner_tag child result of
                     (False, _) \<Rightarrow> (None, inp')
                   | (True, result') \<Rightarrow>
                       (case CBB_finish malloc 0 True result' of
                          (None, _) \<Rightarrow> (None, inp')
                        | (Some (data, n), _) \<Rightarrow>
                            (Some (case data of None \<Rightarrow> [] | Some m \<Rightarrow> CBS_init m (unat n), data), inp'))))))"

text \<open>
  \<^verbatim>\<open>outp\<close> of \<^verbatim>\<open>CBB_finish_i2d\<close>: NULL, or a pointer to NULL or to the buffer to fill. The result is the
  return value with the buffer at \<^verbatim>\<open>*outp\<close>; it is \<^verbatim>\<open>None\<close> when the copy would leave the buffer.
\<close>

definition CBB_finish_i2d :: "libc_malloc \<Rightarrow> CBB \<Rightarrow> bytes option option \<Rightarrow> (int \<times> bytes option) option" where
  "CBB_finish_i2d malloc cbb outp =
     (case CBB_finish malloc 0 True cbb of
        (None, _) \<Rightarrow> Some (-1, None)
      | (Some (der, der_len), _) \<Rightarrow>
          if der_len > 0x7fffffff then Some (-1, None)
          else (case outp of
              None \<Rightarrow> Some (uint der_len, None)
            | Some None \<Rightarrow> Some (uint der_len, der)
            | Some (Some dst) \<Rightarrow>
                let m = (case der of None \<Rightarrow> [] | Some d \<Rightarrow> take (unat der_len) d) in
                if length m \<le> length dst then Some (uint der_len, Some (m @ drop (length m) dst)) else None))"

section \<open>What the conversion does\<close>

text \<open>
  BER trees and their octets; \<^verbatim>\<open>Constructed True\<close> has the indefinite-length form. An element without
  contents and of tag 0 is not one of them: it is the end-of-contents mark.
\<close>

datatype ber = Primitive u32 bytes | Constructed bool u32 "ber list"

fun ber_octets :: "ber \<Rightarrow> bytes" where
  "ber_octets (Primitive t c) = der_element t c"
| "ber_octets (Constructed indefinite t ks) =
     (let c = concat (map ber_octets ks)
      in if indefinite then tag_octets t @ 0x80 # c @ [0, 0] else der_element t c)"

fun wf_ber :: "ber \<Rightarrow> bool" where
  "wf_ber (Primitive t c) \<longleftrightarrow> t AND CBS_ASN1_CONSTRUCTED = 0 \<and> length c < 2 ^ 32 \<and> \<not> (t = 0 \<and> c = [])"
| "wf_ber (Constructed indefinite t ks) \<longleftrightarrow> t AND CBS_ASN1_CONSTRUCTED \<noteq> 0 \<and> list_all wf_ber ks \<and>
     (indefinite \<or> length (concat (map ber_octets ks)) < 2 ^ 32)"

text \<open>
  The DER encoding: a constructed string becomes a primitive one whose contents are those of its
  pieces, which must be of the same string type; every length becomes definite. \<^verbatim>\<open>st\<close> is the string
  type inside a constructed string and otherwise 0.
\<close>

definition der_tag :: "u32 \<Rightarrow> u32" where
  "der_tag t = (if t AND CBS_ASN1_CONSTRUCTED \<noteq> 0 \<and> is_string_type t then t AND NOT CBS_ASN1_CONSTRUCTED else t)"

definition child_string :: "u32 \<Rightarrow> u32 \<Rightarrow> u32" where
  "child_string st t = (if st \<noteq> 0 then st else if t AND CBS_ASN1_CONSTRUCTED \<noteq> 0 \<and> is_string_type t then der_tag t else 0)"

definition wrap :: "u32 \<Rightarrow> u32 \<Rightarrow> bytes \<Rightarrow> bytes option" where
  "wrap st t c =
     (if st \<noteq> 0 then if t AND NOT CBS_ASN1_CONSTRUCTED = st then Some c else None
      else if length c \<le> 0xfffffffe then Some (der_element (der_tag t) c) else None)"

fun der_of :: "u32 \<Rightarrow> ber \<Rightarrow> bytes option" and ders_of :: "u32 \<Rightarrow> ber list \<Rightarrow> bytes option" where
  "der_of st (Primitive t c) = wrap st t c"
| "der_of st (Constructed _ t ks) = Option.bind (ders_of (child_string st t) ks) (wrap st t)"
| "ders_of st [] = Some []"
| "ders_of st (k # ks) = Option.bind (der_of st k) (\<lambda>x. Option.bind (ders_of st ks) (\<lambda>y. Some (x @ y)))"

lemma flush_closed:
  assumes "malloc_contract malloc" "represents B s" "length (snd B) = d" "CBB_flush malloc d s = (True, s')"
  shows "represents B s'"
  using refinesD [OF refines_flush [OF assms(1)] assms(2,4)] close_to_closed [OF assms(3)] by auto

lemma convert_open_ok:
  assumes malloc: "malloc_contract malloc" and r: "represents B cbb" and l: "length (snd B) = out"
    and o: "convert_open malloc out st tag cbb = (Some (oc, ct), cbb1)"
  shows "\<exists>B1. represents B1 cbb1 \<and> length (snd B1) = oc \<and> ct = child_string st tag \<and>
    (\<forall>c s2 s3. represents (top_append c B1) s2 \<longrightarrow> CBB_flush malloc out s2 = (True, s3) \<longrightarrow>
      (\<exists>x. wrap st tag c = Some x \<and> represents (top_append x B) s3))"
proof (cases "st = 0")
  case False
  then have "cbb1 = cbb" "oc = out" "ct = st" "tag AND NOT CBS_ASN1_CONSTRUCTED = st"
    using o by (auto simp: convert_open_def split: if_splits)
  then show ?thesis using False r l flush_closed [OF malloc]
    by (intro exI [of _ B]) (auto simp: child_string_def wrap_def)
next
  case True
  then have a: "CBB_add_asn1 malloc out (der_tag tag) cbb = (True, cbb1)" and oc: "oc = Suc out" "ct = child_string st tag"
    using o by (auto simp: convert_open_def der_tag_def child_string_def Let_def split: prod.splits bool.splits if_splits)
  let ?h = "tag_octets (der_tag tag)" and ?B1 = "push DerLength (top_append (tag_octets (der_tag tag)) B)"
  have p: "put out ?h B = Some (top_append ?h B)" using l by (simp add: put_def close_to_closed)
  then have r1: "represents ?B1 cbb1" using refinesD [OF refines_add_asn1 [OF malloc] r a] by auto
  have l1: "length (snd ?B1) = Suc out" using l by (simp add: push_def)
  have "\<exists>x. wrap st tag c = Some x \<and> represents (top_append x B) s3"
    if c: "represents (top_append c ?B1) s2" "CBB_flush malloc out s2 = (True, s3)" for c s2 s3
  proof -
    obtain B3 where B3: "close_to out (top_append c ?B1) = Some B3" "represents B3 s3"
      using refinesD [OF refines_flush [OF malloc] c] by blast
    have "put (Suc out) c ?B1 = Some (top_append c ?B1)" using l1 by (simp add: put_def close_to_closed)
    from element_written [OF p this B3(1)] B3(2) l True show ?thesis
      by (auto simp: put_def close_to_closed wrap_def der_element_def der_header_def split: if_splits)
  qed
  then show ?thesis using r1 l1 oc by blast
qed

text \<open>The branches of \<^verbatim>\<open>cbs_convert_ber\<close> that return 1.\<close>

lemma convert_ber_cases [consumes 1, case_names empty eoc indefinite definite]:
  assumes "cbs_convert_ber malloc inp out st eoc depth cbb = (True, inp', cbb')"
  obtains (empty) "inp = []" "\<not> eoc" "inp' = []" "cbb' = cbb"
  | (eoc) "eoc" "inp = [0, 0] @ inp'" "cbb' = cbb"
  | (indefinite) t rest oc ct cbb1 mid cbb2 cbb3 where "t AND CBS_ASN1_CONSTRUCTED \<noteq> 0" "inp = tag_octets t @ 0x80 # rest"
      "convert_open malloc out st t cbb = (Some (oc, ct), cbb1)"
      "cbs_convert_ber malloc rest oc ct True (depth + 1) cbb1 = (True, mid, cbb2)"
      "CBB_flush malloc out cbb2 = (True, cbb3)" "cbs_convert_ber malloc mid out st eoc depth cbb3 = (True, inp', cbb')"
  | (definite) t c rest oc ct cbb1 cbb2 cbb3 where "length c < 2 ^ 32" "inp = der_element t c @ rest" "\<not> (t = 0 \<and> c = [])"
      "convert_open malloc out st t cbb = (Some (oc, ct), cbb1)"
      "if t AND CBS_ASN1_CONSTRUCTED \<noteq> 0 then \<exists>m. cbs_convert_ber malloc c oc ct False (depth + 1) cbb1 = (True, m, cbb2)
       else CBB_add_bytes malloc oc c cbb1 = (True, cbb2)"
      "CBB_flush malloc out cbb2 = (True, cbb3)" "cbs_convert_ber malloc rest out st eoc depth cbb3 = (True, inp', cbb')"
proof (cases "inp = []")
  case True
  then show thesis using assms empty by (subst (asm) cbs_convert_ber.simps) (auto simp: CBS_len_def split: if_splits)
next
  case False
  note a = assms [unfolded cbs_convert_ber.simps [of malloc inp]]
  from False a have g: "\<not> depth > kMaxDepth" "CBS_len inp \<noteq> 0" by (auto simp: CBS_len_def)
  obtain elem t hl rest where get: "CBS_get_any_ber_asn1_element inp = (Some (elem, t, hl), rest)"
    using a g by (cases "CBS_get_any_ber_asn1_element inp"; cases "fst (CBS_get_any_ber_asn1_element inp)") auto
  note a = a [unfolded get prod.case option.case if_not_P [OF g(1)] if_not_P [OF g(2)]]
  have el: "inp = elem @ rest" using get by (simp add: any_ber_element_iff)
  show thesis
  proof (cases "is_eoc hl elem")
    case True
    then have "elem = [0, 0]" using is_eoc_iff [OF get] by (simp add: der_element_def der_header_def len_octets_def tag_octets_def)
    then show thesis using a True el by (auto intro: eoc)
  next
    case not_eoc: False
    note a = a [unfolded if_not_P [OF not_eoc]]
    obtain oc ct cbb1 where op: "convert_open malloc out st t cbb = (Some (oc, ct), cbb1)"
      using a by (cases "convert_open malloc out st t cbb"; cases "fst (convert_open malloc out st t cbb)") auto
    note a = a [unfolded op prod.case option.case]
    show thesis
    proof (cases "is_indefinite elem hl")
      case ind: True
      note a = a [unfolded if_P [OF ind]]
      have e: "elem = tag_octets t @ [0x80]" using ind is_indefinite_iff [OF get] by simp
      then have t: "t AND CBS_ASN1_CONSTRUCTED \<noteq> 0" using get der_element_not_indefinite [of t] unfolding any_ber_element_iff by metis
      obtain mid cbb2 cbb3 where "cbs_convert_ber malloc rest oc ct True (depth + 1) cbb1 = (True, mid, cbb2)"
          "CBB_flush malloc out cbb2 = (True, cbb3)" "cbs_convert_ber malloc mid out st eoc depth cbb3 = (True, inp', cbb')"
        using a by (auto split: prod.splits bool.splits if_splits)
      then show thesis using t e el op by (intro indefinite) auto
    next
      case ind: False
      then obtain c where c: "length c < 2 ^ 32" "elem = der_element t c" "hl = of_nat (length (der_header t (length c)))"
        using get is_indefinite_iff [OF get] unfolding any_ber_element_iff by blast
      note a = a [unfolded if_not_P [OF ind]]
      note a = a [unfolded c(2,3) CBS_skip_header option.case prod.case]
      have "\<not> (t = 0 \<and> c = [])" using not_eoc is_eoc_iff [OF get] c by auto
      moreover obtain cbb2 cbb3 where
          "if t AND CBS_ASN1_CONSTRUCTED \<noteq> 0 then \<exists>m. cbs_convert_ber malloc c oc ct False (depth + 1) cbb1 = (True, m, cbb2)
           else CBB_add_bytes malloc oc c cbb1 = (True, cbb2)"
          "CBB_flush malloc out cbb2 = (True, cbb3)" "cbs_convert_ber malloc rest out st eoc depth cbb3 = (True, inp', cbb')"
        using a by (auto split: prod.splits bool.splits if_splits)
      ultimately show thesis using c el op by (intro definite [of c t rest oc ct cbb1]) simp_all
    qed
  qed
qed

lemma convert_ber_length:
  "cbs_convert_ber malloc inp out st eoc depth cbb = (True, inp', cbb') \<Longrightarrow> length inp' \<le> length inp"
proof (induction inp arbitrary: out st eoc depth cbb inp' cbb' rule: measure_induct_rule [of length])
  case (less inp)
  from less.prems show ?case
  proof (cases rule: convert_ber_cases)
    case (indefinite t rest oc ct cbb1 mid cbb2 cbb3)
    then have "length mid \<le> length rest" by (intro less.IH [OF _ indefinite(4)]) simp
    moreover have "length inp' \<le> length mid"
      by (rule less.IH [OF _ indefinite(6)]) (use indefinite(2) calculation in simp)
    ultimately show ?thesis using indefinite(2) by simp
  next
    case (definite t c rest oc ct cbb1 cbb2 cbb3)
    have "length rest < length inp" using definite(2) der_header_not_Nil [of t "length c"] by (simp add: der_element_def)
    then show ?thesis using less.IH [OF _ definite(7)] by simp
  qed simp_all
qed

text \<open>What was read is a sequence of BER trees and what was written is their DER encoding.\<close>

lemma convert_ber_sound:
  assumes malloc: "malloc_contract malloc"
  shows "cbs_convert_ber malloc inp out st eoc depth cbb = (True, inp', cbb') \<Longrightarrow>
    represents B cbb \<Longrightarrow> length (snd B) = out \<Longrightarrow>
    \<exists>ks c. list_all wf_ber ks \<and> inp = concat (map ber_octets ks) @ (if eoc then [0, 0] else []) @ inp' \<and>
      (\<not> eoc \<longrightarrow> inp' = []) \<and> ders_of st ks = Some c \<and> represents (top_append c B) cbb'"
proof (induction inp arbitrary: out st eoc depth cbb inp' cbb' B rule: measure_induct_rule [of length])
  case (less inp)
  note r = less.prems(2) and l = less.prems(3)
  from less.prems(1) show ?case
  proof (cases rule: convert_ber_cases)
    case empty
    then show ?thesis using r by (intro exI [of _ "[]"]) simp
  next
    case eoc
    then show ?thesis using r by (intro exI [of _ "[]"]) simp
  next
    case (indefinite t rest oc ct cbb1 mid cbb2 cbb3)
    obtain B1 where B1: "represents B1 cbb1" "length (snd B1) = oc" "ct = child_string st t"
        and close: "\<And>c s2 s3. represents (top_append c B1) s2 \<Longrightarrow> CBB_flush malloc out s2 = (True, s3) \<Longrightarrow>
          \<exists>x. wrap st t c = Some x \<and> represents (top_append x B) s3"
      using convert_open_ok [OF malloc r l indefinite(3)] by blast
    have sh: "length rest < length inp" "length mid < length inp"
      using indefinite(2) convert_ber_length [OF indefinite(4)] by simp_all
    obtain ks c where ks: "list_all wf_ber ks" "rest = concat (map ber_octets ks) @ [0, 0] @ mid"
        "ders_of ct ks = Some c" "represents (top_append c B1) cbb2"
      using less.IH [OF sh(1) indefinite(4) B1(1,2)] by auto
    obtain x where x: "wrap st t c = Some x" "represents (top_append x B) cbb3"
      using close [OF ks(4) indefinite(5)] by blast
    obtain ks' c' where ks': "list_all wf_ber ks'" "mid = concat (map ber_octets ks') @ (if eoc then [0, 0] else []) @ inp'"
        "\<not> eoc \<longrightarrow> inp' = []" "ders_of st ks' = Some c'" "represents (top_append c' (top_append x B)) cbb'"
      using less.IH [OF sh(2) indefinite(6) x(2)] l by auto
    show ?thesis using ks ks' x(1) B1(3) indefinite(1,2)
      by (intro exI [of _ "Constructed True t ks # ks'"] exI [of _ "x @ c'"]) (simp add: top_append_append)
  next
    case (definite t c rest oc ct cbb1 cbb2 cbb3)
    obtain B1 where B1: "represents B1 cbb1" "length (snd B1) = oc" "ct = child_string st t"
        and close: "\<And>c s2 s3. represents (top_append c B1) s2 \<Longrightarrow> CBB_flush malloc out s2 = (True, s3) \<Longrightarrow>
          \<exists>x. wrap st t c = Some x \<and> represents (top_append x B) s3"
      using convert_open_ok [OF malloc r l definite(4)] by blast
    have sh: "length c < length inp" "length rest < length inp"
      using definite(2) der_header_not_Nil [of t "length c"] by (simp_all add: der_element_def)
    obtain k d where k: "wf_ber k" "ber_octets k = der_element t c" "represents (top_append d B1) cbb2"
        "der_of st k = wrap st t d"
    proof (cases "t AND CBS_ASN1_CONSTRUCTED = 0")
      case True
      have w: "CBB_add_bytes malloc oc c cbb1 = (True, cbb2)" "length c < 2 ^ 63" using definite(1,5) True by simp_all
      have "represents (top_append c B1) cbb2"
        by (rule refinesD [OF refines_add_bytes [OF malloc w(2)] B1(1) w(1)]) (simp add: put_def close_to_closed [OF B1(2)])
      then show thesis using that [of "Primitive t c" c] True definite(1,3) by simp
    next
      case False
      then obtain m where m: "cbs_convert_ber malloc c oc ct False (depth + 1) cbb1 = (True, m, cbb2)"
        using definite(5) by auto
      then obtain ks d where ks: "list_all wf_ber ks" "c = concat (map ber_octets ks)" "ders_of ct ks = Some d"
          "represents (top_append d B1) cbb2"
        using less.IH [OF sh(1) m B1(1,2)] by auto
      then show thesis using that [of "Constructed False t ks" d] False definite(1) B1(3) by simp
    qed
    obtain x where x: "wrap st t d = Some x" "represents (top_append x B) cbb3"
      using close [OF k(3) definite(6)] by blast
    obtain ks' c' where ks': "list_all wf_ber ks'" "rest = concat (map ber_octets ks') @ (if eoc then [0, 0] else []) @ inp'"
        "\<not> eoc \<longrightarrow> inp' = []" "ders_of st ks' = Some c'" "represents (top_append c' (top_append x B)) cbb'"
      using less.IH [OF sh(2) definite(7) x(2)] l by auto
    show ?thesis using k ks' x(1) definite(2)
      by (intro exI [of _ "k # ks'"] exI [of _ "x @ c'"]) (simp add: top_append_append)
  qed
qed

end
