(* ===== verification/BerProps.thy ===== *)
theory BerProps
  imports Ber
begin

text \<open>
  What \<^verbatim>\<open>ber.c\<close> promises: DER input passes through unchanged, anything else is replaced by its DER
  encoding, and the pieces of an implicitly tagged string are joined; with the one input shape
  found on which the walk overlooks an indefinite length.
\<close>

section \<open>The walk\<close>

fun is_der :: "ber \<Rightarrow> bool" where
  "is_der (Primitive t c) \<longleftrightarrow> True"
| "is_der (Constructed indefinite t ks) \<longleftrightarrow> \<not> indefinite \<and> \<not> is_string_type t \<and> list_all is_der ks"

fun height :: "ber \<Rightarrow> nat" where
  "height (Primitive t c) = 0"
| "height (Constructed indefinite t ks) = Suc (foldr (\<lambda>k h. max (height k) h) ks 0)"

lemma height_child: "k \<in> set ks \<Longrightarrow> height k \<le> foldr (\<lambda>k h. max (height k) h) ks 0"
  by (induction ks) auto

lemma any_ber_element_der:
  assumes "length c < 2 ^ 32"
  shows "CBS_get_any_ber_asn1_element (der_element t c @ rest) =
    (Some (der_element t c, t, of_nat (length (der_header t (length c)))), rest)"
  using any_element_der [OF assms] by (simp add: CBS_get_any_ber_asn1_element_def)

lemma der_element_not_Nil: "der_element t c \<noteq> []"
  using der_header_not_Nil by (simp add: der_element_def)

lemma find_ber_loop_der:
  assumes c: "length c < 2 ^ 32"
  shows "find_ber_loop (der_element t c @ rest) found d =
    (if t AND CBS_ASN1_CONSTRUCTED \<noteq> 0 then
       if is_string_type t then Some True
       else (case cbs_find_ber c (d + 1) of None \<Rightarrow> None | Some f \<Rightarrow> find_ber_loop rest f d)
     else find_ber_loop rest found d)"
proof -
  have "\<not> is_indefinite (der_element t c) (of_nat (length (der_header t (length c))))"
    using is_indefinite_iff [OF any_ber_element_der [OF c]] der_element_not_indefinite by simp
  then show ?thesis
    by (subst find_ber_loop.simps)
      (simp add: CBS_len_def der_element_not_Nil any_ber_element_der [OF c] CBS_skip_header del: cbs_find_ber.simps find_ber_loop.simps)
qed

lemma find_ber_loop_indefinite:
  "t AND CBS_ASN1_CONSTRUCTED \<noteq> 0 \<Longrightarrow> find_ber_loop (tag_octets t @ 0x80 # rest) found d = Some True"
  using is_indefinite_iff [OF any_ber_element_indefinite [of t rest]] any_ber_element_indefinite [of t rest]
  by (subst find_ber_loop.simps) (simp add: CBS_len_def del: find_ber_loop.simps)

text \<open>
  What the walk over a sequence of trees reports: it ends at the first indefinite length or constructed string that it
  meets, and otherwise the last constructed element decides, since the walk into it starts with nothing found.
\<close>

fun walk_finds :: "bool \<Rightarrow> ber list \<Rightarrow> bool" where
  "walk_finds found [] = found"
| "walk_finds found (Primitive t c # ks) = walk_finds found ks"
| "walk_finds found (Constructed indefinite t ls # ks) =
     (if indefinite \<or> is_string_type t then True else walk_finds (walk_finds False ls) ks)"

lemma find_ber_trees:
  "list_all wf_ber ks \<Longrightarrow> \<forall>k\<in>set ks. unat d + height k \<le> 2048 \<Longrightarrow>
    find_ber_loop (concat (map ber_octets ks)) found d = Some (walk_finds found ks)"
proof (induction ks arbitrary: d found rule: measure_induct_rule [of "size_list size"])
  case (less ks)
  show ?case
  proof (cases ks)
    case Nil
    then show ?thesis by (simp add: CBS_len_def)
  next
    case (Cons k ks')
    have rest: "find_ber_loop (concat (map ber_octets ks')) found' d = Some (walk_finds found' ks')" for found'
      using less.prems by (intro less.IH) (simp_all add: Cons)
    show ?thesis
    proof (cases k)
      case (Primitive t c)
      then show ?thesis using less.prems rest
        by (simp add: Cons find_ber_loop_der del: find_ber_loop.simps)
    next
      case (Constructed i t ls)
      have k: "t AND CBS_ASN1_CONSTRUCTED \<noteq> 0" "\<not> i \<Longrightarrow> length (concat (map ber_octets ls)) < 2 ^ 32" "list_all wf_ber ls"
        using less.prems by (auto simp: Cons Constructed)
      show ?thesis
      proof (cases i)
        case True
        then show ?thesis using k(1) by (simp add: Cons Constructed find_ber_loop_indefinite Let_def del: find_ber_loop.simps)
      next
        case False
        have d: "unat d + Suc (height l) \<le> 2048" if "l \<in> set ls" for l
          using less.prems(2) height_child [OF that] by (simp add: Cons Constructed)
        have d1: "unat d + 1 \<le> 2048" using less.prems(2) by (simp add: Cons Constructed)
        have d2: "unat (d + 1) = unat d + 1" using d1 by (simp add: unat_word_ariths)
        have "find_ber_loop (concat (map ber_octets ls)) False (d + 1) = Some (walk_finds False ls)"
          using k d d2 by (intro less.IH) (auto simp: Cons Constructed)
        then have "cbs_find_ber (concat (map ber_octets ls)) (d + 1) = Some (walk_finds False ls)"
          using d1 d2 by (simp add: kMaxDepth_def word_less_nat_alt del: find_ber_loop.simps)
        then show ?thesis using rest k False
          by (simp add: Cons Constructed find_ber_loop_der del: find_ber_loop.simps cbs_find_ber.simps)
      qed
    qed
  qed
qed

lemma find_ber_octets:
  assumes "list_all wf_ber ks" and "\<forall>k\<in>set ks. height k \<le> 2048"
  shows "cbs_find_ber (concat (map ber_octets ks)) 0 = Some (walk_finds False ks)"
  using find_ber_trees [of ks 0 False] assms by (simp add: kMaxDepth_def del: find_ber_loop.simps)

lemma walk_finds_der: "list_all is_der ks \<Longrightarrow> walk_finds False ks = False"
proof (induction ks rule: measure_induct_rule [of "size_list size"])
  case (less ks)
  show ?case
  proof (cases ks)
    case (Cons k ks')
    have "walk_finds False ks' = False" using less.prems by (intro less.IH) (simp_all add: Cons)
    moreover have "walk_finds False ls = False" if "k = Constructed i t ls" for i t ls
      using less.prems that by (intro less.IH) (simp_all add: Cons)
    ultimately show ?thesis using less.prems by (cases k) (simp_all add: Cons)
  qed simp
qed

section \<open>Joining the pieces of a string\<close>

lemma add_bytes_top:
  assumes "malloc_contract malloc" "represents (p, []) cbb" "CBB_add_bytes malloc 0 x cbb = (True, cbb')" "length x < 2 ^ 63"
  shows "represents (p @ x, []) cbb'"
  by (rule refinesD [OF refines_add_bytes [OF assms(1,4)] assms(2,3)]) (simp add: put_def)

lemma implicit_string_loop_ok:
  assumes malloc: "malloc_contract malloc"
  shows "implicit_string_loop malloc t child cbb = (True, cbb') \<Longrightarrow> represents (p, []) cbb \<Longrightarrow>
    \<exists>cs. list_all (\<lambda>c. length c < 2 ^ 32) cs \<and> child = concat (map (der_element t) cs) \<and> represents (p @ concat cs, []) cbb'"
proof (induction child arbitrary: p cbb rule: measure_induct_rule [of length])
  case (less child)
  show ?case
  proof (cases "child = []")
    case True
    then show ?thesis using less.prems by (intro exI [of _ "[]"]) (simp add: implicit_string_loop.simps [of malloc] CBS_len_def)
  next
    case False
    then obtain c child' cbb1 where g: "CBS_get_asn1 child t = (Some c, child')"
        and w: "CBB_add_bytes malloc 0 c cbb = (True, cbb1)" and n: "implicit_string_loop malloc t child' cbb1 = (True, cbb')"
      using less.prems(1) unfolding implicit_string_loop.simps [of malloc t child]
      by (auto simp: CBS_len_def split: prod.splits option.splits bool.splits if_splits)
    have c: "length c < 2 ^ 32" "child = der_element t c @ child'" using g by (simp_all add: CBS_get_asn1_iff)
    have r: "represents (p @ c, []) cbb1" by (rule add_bytes_top [OF malloc less.prems(2) w]) (use c(1) in simp)
    have "length child' < length child" using c(2) der_element_not_Nil [of t c] by simp
    from less.IH [OF this n r] obtain cs where "list_all (\<lambda>c. length c < 2 ^ 32) cs"
        "child' = concat (map (der_element t) cs)" "represents ((p @ c) @ concat cs, []) cbb'" by blast
    then show ?thesis using c by (intro exI [of _ "c # cs"]) simp
  qed
qed

section \<open>From creation to the result\<close>

lemma finish_represented:
  assumes "malloc_contract malloc" "represents (c, []) cbb" "CBB_finish malloc 0 True cbb = (Some (m, n), cbb')"
  shows "(case m of None \<Rightarrow> [] | Some m \<Rightarrow> CBS_init m (unat n)) = c"
  using CBB_finish_ok [OF assms] by (auto simp: CBS_init_def split: option.splits)

lemma unat_length_init: "length x < 2 ^ 64 - 8 \<Longrightarrow> unat (of_nat (CBS_len x) :: u64) < 2 ^ 64 - 8"
  by (simp add: CBS_len_def unat_of_nat)



section \<open>Properties\<close>



text \<open>
  Input that is DER already, up to 2048 levels deep, is returned as it is, whatever the
  allocator does.
\<close>

theorem ber_to_der_identity:
  assumes "list_all wf_ber (k # ks)" and "list_all is_der (k # ks)" and "\<forall>k\<in>set (k # ks). height k \<le> 2048"
  shows "CBS_asn1_ber_to_der malloc (concat (map ber_octets (k # ks))) =
    (Some (ber_octets k, None), concat (map ber_octets ks))"
proof -
  have f: "cbs_find_ber (concat (map ber_octets (k # ks))) 0 = Some False"
    using find_ber_octets [OF assms(1,3)] walk_finds_der [OF assms(2)] by simp
  obtain t c where "ber_octets k = der_element t c" "length c < 2 ^ 32"
    using assms(1,2) by (cases k) auto
  then show ?thesis using any_element_der [of c t "concat (map ber_octets ks)" False] f
    by (simp add: CBS_asn1_ber_to_der_def CBS_get_any_asn1_element_def del: cbs_find_ber.simps)
qed

lemma ber_to_der_identity_witness:
  "CBS_asn1_ber_to_der example_malloc (concat (map ber_octets [Constructed False 0x20000010 [Primitive 2 [5]], Primitive 1 [0]])) =
    (Some (ber_octets (Constructed False 0x20000010 [Primitive 2 [5]]), None), concat (map ber_octets [Primitive 1 [0]]))"
  by (rule ber_to_der_identity) (simp_all add: CBS_ASN1_CONSTRUCTED_def CBS_ASN1_TAG_SHIFT_def is_string_type_def der_element_def
      der_header_def len_octets_def tag_octets_def)

text \<open>
  An implicitly tagged string is either one primitive element, returned in place, or a
  constructed element that consists of strings of the inner type, and then the result is their
  concatenation.
\<close>

theorem implicit_string_sound:
  assumes "malloc_contract malloc" and "length inp < 2 ^ 64 - 8"
    and "CBS_get_asn1_implicit_string malloc inp outer inner = (Some (out, storage), inp')"
  shows "inp = der_element outer out @ inp' \<or>
    (\<exists>cs. inp = der_element (outer OR CBS_ASN1_CONSTRUCTED) (concat (map (der_element inner) cs)) @ inp' \<and> out = concat cs)"
proof (cases "CBS_peek_asn1_tag inp outer")
  case True
  then have "CBS_get_asn1 inp outer = (Some out, inp')"
    using assms(3) by (auto simp: CBS_get_asn1_implicit_string_def split: prod.splits)
  then show ?thesis by (simp add: CBS_get_asn1_iff)
next
  case False
  obtain cbb child cbb' n cbb'' where c: "CBB_init malloc (of_nat (CBS_len inp)) = (True, cbb)"
      "CBS_get_asn1 inp (outer OR CBS_ASN1_CONSTRUCTED) = (Some child, inp')"
      "implicit_string_loop malloc inner child cbb = (True, cbb')"
      "CBB_finish malloc 0 True cbb' = (Some (storage, n), cbb'')"
      "out = (case storage of None \<Rightarrow> [] | Some m \<Rightarrow> CBS_init m (unat n))"
    using assms(3) False by (auto simp: CBS_get_asn1_implicit_string_def split: prod.splits option.splits bool.splits)
  obtain cs where cs: "child = concat (map (der_element inner) cs)" "represents ([] @ concat cs, []) cbb'"
    using implicit_string_loop_ok [OF assms(1) c(3) represents_init [OF assms(1) unat_length_init [OF assms(2)] c(1)]] by blast
  then have "out = concat cs" using finish_represented [OF assms(1) _ c(4)] c(5) by simp
  then show ?thesis using c(2) cs(1) by (auto simp: CBS_get_asn1_iff)
qed

lemma implicit_string_sound_witness:
  "[0xa1, 6, 4, 1, 7, 4, 1, 8] = der_element 0x80000001 [7, 8] @ [] \<or>
    (\<exists>cs. [0xa1, 6, 4, 1, 7, 4, 1, 8] = der_element (0x80000001 OR CBS_ASN1_CONSTRUCTED) (concat (map (der_element 4) cs)) @ [] \<and>
      [7, 8] = concat cs)"
proof -
  have c: "CBS_get_asn1_implicit_string example_malloc [0xa1, 6, 4, 1, 7, 4, 1, 8] 0x80000001 4 =
      (Some ([7, 8], Some ([7, 8] @ replicate 6 0)), [])"
    by code_simp
  show ?thesis by (rule implicit_string_sound [OF example_malloc_contract _ c]) simp
qed

text \<open>
  Where the walk falls short: the inner indefinite-length element of this input is followed by an
  empty sibling, which resets \<^verbatim>\<open>*ber_found\<close>, and the input comes back unconverted.
\<close>

theorem ber_sibling_unconverted:
  "let k = Constructed False 0x20000010
        [Constructed False 0x20000010 [Constructed True 0x20000010 []], Constructed False 0x20000010 []] in
    wf_ber k \<and> CBS_asn1_ber_to_der malloc (ber_octets k) = (Some (ber_octets k, None), []) \<and>
    der_of 0 k = Some [0x30, 6, 0x30, 2, 0x30, 0, 0x30, 0] \<and> der_of 0 k \<noteq> Some (ber_octets k)"
proof -
  let ?k = "Constructed False 0x20000010
        [Constructed False 0x20000010 [Constructed True 0x20000010 []], Constructed False 0x20000010 []]"
  note defs = CBS_ASN1_CONSTRUCTED_def CBS_ASN1_TAG_SHIFT_def is_string_type_def der_element_def
      der_header_def len_octets_def tag_octets_def
  have o: "ber_octets ?k = [0x30, 8, 0x30, 4, 0x30, 0x80, 0, 0, 0x30, 0]" by (simp add: defs)
  have "wf_ber ?k" by (simp add: defs)
  moreover have "der_of 0 ?k = Some [0x30, 6, 0x30, 2, 0x30, 0, 0x30, 0]"
    by (simp add: defs wrap_def child_string_def der_tag_def)
  moreover have "CBS_get_any_asn1_element [0x30, 8, 0x30, 4, 0x30, 0x80, 0, 0, 0x30, 0] =
      (Some ([0x30, 8, 0x30, 4, 0x30, 0x80, 0, 0, 0x30, 0], 0x20000010, 2), [])" by code_simp
  ultimately show ?thesis unfolding Let_def o using find_ber_reset by (simp add: CBS_asn1_ber_to_der_def del: cbs_find_ber.simps)
qed

end
