(* ===== verification/Oid.thy ===== *)
theory Oid
  imports BerProps
begin

text \<open>
  OBJECT IDENTIFIERs as text: \<^verbatim>\<open>CBB_add_asn1_oid_from_text\<close> of \<^verbatim>\<open>cbb.c\<close> and \<^verbatim>\<open>CBS_asn1_oid_to_text\<close> of
  \<^verbatim>\<open>cbs.c\<close>. \<^verbatim>\<open>BIO_snprintf\<close> with the format \<^verbatim>\<open>PRIu64\<close> is the decimal representation.
\<close>

definition dot :: u8 where "dot = 0x2e"

section \<open>Parsing text\<close>

text \<open>The loop of \<^verbatim>\<open>parse_dotted_decimal\<close>, from \<^verbatim>\<open>seen_digit\<close> and \<^verbatim>\<open>*out\<close>.\<close>

fun dotted_decimal_loop :: "bool \<Rightarrow> u64 \<Rightarrow> CBS \<Rightarrow> u64 option \<times> CBS" where
  "dotted_decimal_loop seen_digit out [] = (if seen_digit then Some out else None, [])"
| "dotted_decimal_loop seen_digit out (u # cbs) =
     (if u = dot \<and> CBS_len cbs > 0 then (if seen_digit then Some out else None, cbs)
      else if u < 0x30 \<or> u > 0x39 \<or> (seen_digit \<and> out = 0) \<or> out > (- 1) div 10 \<or>
              out * 10 > - 1 - ucast (u - 0x30) then (None, cbs)
      else dotted_decimal_loop True (out * 10 + ucast (u - 0x30)) cbs)"

definition parse_dotted_decimal :: "CBS \<Rightarrow> u64 option \<times> CBS" where
  "parse_dotted_decimal cbs = dotted_decimal_loop False 0 cbs"

lemma dotted_decimal_shorter:
  "dotted_decimal_loop seen v cbs = (Some w, cbs') \<Longrightarrow> length cbs' \<le> length cbs \<and> (\<not> seen \<longrightarrow> length cbs' < length cbs)"
  by (induction seen v cbs rule: dotted_decimal_loop.induct) (auto split: if_splits)

function oid_text_loop :: "libc_malloc \<Rightarrow> nat \<Rightarrow> CBS \<Rightarrow> CBB \<Rightarrow> bool \<times> CBB" where
  "oid_text_loop malloc d cbs cbb =
     (if CBS_len cbs = 0 then (True, cbb)
      else (case parse_dotted_decimal cbs of
        (None, _) \<Rightarrow> (False, cbb)
      | (Some a, cbs') \<Rightarrow>
          (case add_base128_integer malloc d a cbb of
             (False, cbb') \<Rightarrow> (False, cbb')
           | (True, cbb') \<Rightarrow> oid_text_loop malloc d cbs' cbb')))"
  by pat_completeness auto
termination
proof (relation "measure (\<lambda>(_, _, cbs, _). length cbs)", goal_cases)
  case (2 malloc d cbs cbb x y x2 xa ya)
  then show ?case using dotted_decimal_shorter [of False 0 cbs x2 y] by (simp add: parse_dotted_decimal_def)
qed simp

declare oid_text_loop.simps [simp del]

definition CBB_add_asn1_oid_from_text :: "libc_malloc \<Rightarrow> nat \<Rightarrow> bytes \<Rightarrow> CBB \<Rightarrow> bool \<times> CBB" where
  "CBB_add_asn1_oid_from_text malloc d text = and_then (CBB_flush malloc d) (\<lambda>cbb.
     case parse_dotted_decimal (CBS_init text (length text)) of
       (None, _) \<Rightarrow> (False, cbb)
     | (Some a, cbs) \<Rightarrow>
         (case parse_dotted_decimal cbs of
            (None, _) \<Rightarrow> (False, cbb)
          | (Some b, cbs') \<Rightarrow>
              if a > 2 \<or> (a < 2 \<and> b > 39) \<or> b > - 1 - 80 then (False, cbb)
              else and_then (add_base128_integer malloc d (40 * a + b)) (oid_text_loop malloc d cbs') cbb))"

section \<open>Printing\<close>

fun decimal :: "nat \<Rightarrow> bytes" where
  "decimal n = (if n < 10 then [] else decimal (n div 10)) @ [of_nat (48 + n mod 10)]"

declare decimal.simps [simp del]

definition add_decimal :: "libc_malloc \<Rightarrow> nat \<Rightarrow> u64 \<Rightarrow> CBB \<Rightarrow> bool \<times> CBB" where
  "add_decimal malloc d v = CBB_add_bytes malloc d (decimal (unat v))"

function oid_print_loop :: "libc_malloc \<Rightarrow> CBS \<Rightarrow> CBB \<Rightarrow> bool \<times> CBB" where
  "oid_print_loop malloc copy cbb =
     (if CBS_len copy = 0 then (True, cbb)
      else (case parse_base128_integer copy of
        (None, _) \<Rightarrow> (False, cbb)
      | (Some v, copy') \<Rightarrow>
          (case and_then (CBB_add_u8 malloc 0 dot) (add_decimal malloc 0 v) cbb of
             (False, cbb') \<Rightarrow> (False, cbb')
           | (True, cbb') \<Rightarrow> oid_print_loop malloc copy' cbb')))"
  by pat_completeness auto
termination
proof (relation "measure (\<lambda>(_, copy, _). length copy)", goal_cases)
  case (2 malloc copy cbb x y x2 xa ya)
  then show ?case using base128.dec_shorter [of copy x2 y] by simp
qed simp

declare oid_print_loop.simps [simp del]

definition oid_print_first :: "libc_malloc \<Rightarrow> u64 \<Rightarrow> CBB \<Rightarrow> bool \<times> CBB" where
  "oid_print_first malloc v =
     (if v \<ge> 80 then and_then (CBB_add_bytes malloc 0 [0x32, dot]) (add_decimal malloc 0 (v - 80))
      else and_then (add_decimal malloc 0 (v div 40))
          (and_then (CBB_add_u8 malloc 0 dot) (add_decimal malloc 0 (v mod 40))))"

text \<open>The NUL-terminated string that is returned, or \<^verbatim>\<open>None\<close> for NULL.\<close>

definition CBS_asn1_oid_to_text :: "libc_malloc \<Rightarrow> CBS \<Rightarrow> bytes option" where
  "CBS_asn1_oid_to_text malloc cbs =
     (case CBB_init malloc 32 of
        (False, _) \<Rightarrow> None
      | (True, cbb) \<Rightarrow>
     (case parse_base128_integer cbs of
        (None, _) \<Rightarrow> None
      | (Some v, copy) \<Rightarrow>
     (case and_then (oid_print_first malloc v) (and_then (oid_print_loop malloc copy) (CBB_add_u8 malloc 0 0)) cbb of
        (False, _) \<Rightarrow> None
      | (True, cbb') \<Rightarrow>
     (case CBB_finish malloc 0 True cbb' of
        (None, _) \<Rightarrow> None
      | (Some (txt, txt_len), _) \<Rightarrow> map_option (take (unat txt_len)) txt))))"

section \<open>Decimal numbers\<close>

definition is_digit :: "u8 \<Rightarrow> bool" where
  "is_digit u \<longleftrightarrow> 0x30 \<le> u \<and> u \<le> 0x39"

definition dec_val :: "nat \<Rightarrow> bytes \<Rightarrow> nat" where
  "dec_val v ds = foldl (\<lambda>v u. v * 10 + (unat u - 48)) v ds"

lemma dec_val_simps [simp]: "dec_val v [] = v" "dec_val v (d # ds) = dec_val (v * 10 + (unat d - 48)) ds"
  "dec_val v (ds @ [d]) = dec_val v ds * 10 + (unat d - 48)"
  by (simp_all add: dec_val_def)

lemma dec_val_mono: "v \<le> dec_val v ds"
proof (induction ds arbitrary: v)
  case (Cons d ds)
  have "v \<le> v * 10 + (unat d - 48)" by simp
  then show ?case using Cons [of "v * 10 + (unat d - 48)"] by (simp del: mult_le_cancel2) 
qed simp

lemma is_digit_unat: "is_digit u \<longleftrightarrow> 48 \<le> unat u \<and> unat u \<le> 57"
  by (simp add: is_digit_def word_le_nat_alt)

lemma unat_digit: "n < 10 \<Longrightarrow> unat (of_nat (48 + n) :: u8) = 48 + n"
  by (intro unat_of_nat_lt) simp

lemma is_digit_of: "n < 10 \<Longrightarrow> is_digit (of_nat (48 + n))"
  unfolding is_digit_unat by (simp only: unat_digit) simp

lemma decimal_digits: "list_all is_digit (decimal n)"
proof (induction n rule: decimal.induct)
  case (1 n)
  then show ?case using is_digit_of [of "n mod 10"] by (subst decimal.simps) auto
qed

lemma dec_val_decimal: "dec_val 0 (decimal n) = n"
proof (induction n rule: decimal.induct)
  case (1 n)
  have "unat (of_nat (48 + n mod 10) :: u8) - 48 = n mod 10" by (simp only: unat_digit) 
  then show ?case using 1 by (subst decimal.simps) (auto simp del: of_nat_add)
qed

text \<open>A digit string without a leading zero is the decimal representation of its value.\<close>

lemma of_digit: "is_digit d \<Longrightarrow> of_nat (48 + (unat d - 48)) = d"
  by (simp add: is_digit_unat del: of_nat_add)

lemma dec_val_pos:
  assumes "ds \<noteq> []" "list_all is_digit ds" "unat (hd ds) \<noteq> 48"
  shows "0 < dec_val 0 ds"
proof -
  obtain d ds' where d: "ds = d # ds'" using assms(1) by (cases ds) auto
  have "0 < unat d - 48" using assms by (simp add: d is_digit_unat)
  also have "\<dots> \<le> dec_val 0 ds" using dec_val_mono [of "unat d - 48" ds'] by (simp add: d)
  finally show ?thesis .
qed

lemma decimal_unique:
  "ds \<noteq> [] \<Longrightarrow> list_all is_digit ds \<Longrightarrow> (length ds > 1 \<Longrightarrow> unat (hd ds) \<noteq> 48) \<Longrightarrow> decimal (dec_val 0 ds) = ds"
proof (induction ds rule: rev_induct)
  case (snoc d ds)
  have d: "unat d - 48 < 10" "of_nat (48 + (unat d - 48)) = d"
    using snoc.prems(2) of_digit [of d] by (auto simp: is_digit_unat)
  show ?case
  proof (cases ds)
    case Nil
    then show ?thesis using d by (subst decimal.simps) (simp del: of_nat_add)
  next
    case (Cons e es)
    then have "0 < dec_val 0 ds" using snoc.prems by (intro dec_val_pos) auto
    moreover have "decimal (dec_val 0 ds) = ds" using snoc Cons by auto
    ultimately show ?thesis using d by (subst decimal.simps) (simp del: of_nat_add)
  qed
qed simp

lemma decimal_not_Nil: "decimal n \<noteq> []"
  by (subst decimal.simps) simp

lemma decimal_lead: "length (decimal n) > 1 \<Longrightarrow> unat (hd (decimal n)) \<noteq> 48"
proof (induction n rule: decimal.induct)
  case (1 n)
  show ?case
  proof (cases "n < 10")
    case True
    then show ?thesis using 1(2) by (subst (asm) decimal.simps) simp
  next
    case False
    have e: "hd (decimal n) = hd (decimal (n div 10))"
      using False decimal_not_Nil [of "n div 10"] by (subst decimal.simps) simp
    show ?thesis
    proof (cases "n div 10 < 10")
      case True
      have "decimal (n div 10) = [of_nat (48 + n div 10)]"
        using True by (subst decimal.simps) (simp del: of_nat_add)
      moreover have "unat (of_nat (48 + n div 10) :: u8) = 48 + n div 10" by (rule unat_digit [OF True])
      ultimately show ?thesis using False e by (simp del: of_nat_add)
    next
      case large: False
      then have "length (decimal (n div 10)) > 1"
        using decimal_not_Nil [of "n div 10 div 10"] by (subst decimal.simps) simp
      then show ?thesis using 1(1) False e by simp
    qed
  qed
qed

section \<open>What the parser accepts\<close>

lemma digit_step:
  assumes "is_digit u"
  shows "\<not> (v > (- 1) div 10 \<or> v * 10 > - 1 - ucast (u - 0x30)) \<longleftrightarrow> unat v * 10 + (unat u - 48) < 2 ^ 64"
    and "unat v * 10 + (unat u - 48) < 2 ^ 64 \<Longrightarrow>
      unat (v * 10 + ucast (u - 0x30) :: u64) = unat v * 10 + (unat u - 48)"
proof -
  have u: "unat (u - 0x30) = unat u - 48" using assms by (simp add: is_digit_def unat_sub)
  have m: "unat (- 1 :: u64) = 2 ^ 64 - 1" by (simp add: unsigned_minus_1_eq_mask mask_eq_exp_minus_1)
  have g: "unat (ucast (u - 0x30) :: u64) = unat u - 48" by (simp add: unat_ucast_up u)
  have "ucast (u - 0x30) \<le> (- 1 :: u64)" by simp
  then have c: "unat (- 1 - ucast (u - 0x30) :: u64) = 2 ^ 64 - 1 - (unat u - 48)" by (simp only: unat_sub m g)
  have q: "unat ((- 1) div 10 :: u64) = (2 ^ 64 - 1) div 10" by (simp only: unat_div m) simp
  have d: "unat u - 48 < 10" using assms unfolding is_digit_unat by linarith
  show "\<not> (v > (- 1) div 10 \<or> v * 10 > - 1 - ucast (u - 0x30)) \<longleftrightarrow> unat v * 10 + (unat u - 48) < 2 ^ 64"
  proof (cases "unat v \<le> (2 ^ 64 - 1) div 10")
    case True
    then have "unat (v * 10) = unat v * 10" by (simp add: unat_word_ariths)
    then show ?thesis using True d unfolding word_less_nat_alt q c by simp linarith
  next
    case False
    then show ?thesis unfolding word_less_nat_alt q c by simp
  qed
  assume "unat v * 10 + (unat u - 48) < 2 ^ 64"
  then show "unat (v * 10 + ucast (u - 0x30) :: u64) = unat v * 10 + (unat u - 48)"
    by (simp add: unat_word_ariths g)
qed

lemma dotted_digit:
  assumes "is_digit u"
  shows "dotted_decimal_loop seen v (u # cbs) =
    (if (seen \<and> v = 0) \<or> \<not> unat v * 10 + (unat u - 48) < 2 ^ 64 then (None, cbs)
     else dotted_decimal_loop True (v * 10 + ucast (u - 0x30)) cbs)"
proof -
  have "u \<noteq> dot" "\<not> u < 0x30" "\<not> u > 0x39" using assms by (auto simp: is_digit_def dot_def)
  then show ?thesis using digit_step(1) [OF assms, of v] by (simp only: dotted_decimal_loop.simps) auto
qed

lemma dotted_other: "\<not> is_digit u \<Longrightarrow> dotted_decimal_loop seen v (u # cbs) =
    (if u = dot \<and> cbs \<noteq> [] \<and> seen then Some v else None, cbs)"
  by (auto simp: is_digit_def CBS_len_def not_le)

declare dotted_decimal_loop.simps(2) [simp del]

lemma dotted_decimal_iff:
  "dotted_decimal_loop True v cbs = (Some w, rest) \<longleftrightarrow>
    (\<exists>ds. list_all is_digit ds \<and> (ds \<noteq> [] \<longrightarrow> v \<noteq> 0) \<and> unat w = dec_val (unat v) ds \<and>
      (cbs = ds \<and> rest = [] \<or> cbs = ds @ dot # rest \<and> rest \<noteq> []))"
proof (induction cbs arbitrary: v)
  case Nil
  then show ?case by (auto simp: word_unat_eq_iff)
next
  case (Cons u cbs)
  have nd: "\<not> is_digit dot" by (simp add: is_digit_def dot_def)
  show ?case
  proof (cases "is_digit u")
    case True
    let ?v = "v * 10 + ucast (u - 0x30)" and ?n = "unat v * 10 + (unat u - 48)"
    have pos: "v \<noteq> 0 \<Longrightarrow> ?n < 2 ^ 64 \<Longrightarrow> ?v \<noteq> 0" using digit_step(2) [OF True, of v] by (auto simp: unat_eq_zero [symmetric])
    have lt: "unat w = dec_val ?n ds \<Longrightarrow> ?n < 2 ^ 64" for ds
      by (rule le_less_trans [OF dec_val_mono [of ?n ds]]) (use unsigned_less [of w, where 'a = nat] in simp)
    show ?thesis
    proof
      assume "dotted_decimal_loop True v (u # cbs) = (Some w, rest)"
      then have v: "v \<noteq> 0" "?n < 2 ^ 64" "dotted_decimal_loop True ?v cbs = (Some w, rest)"
        unfolding dotted_digit [OF True] by (auto split: if_splits)
      then obtain ds where "list_all is_digit ds" "unat w = dec_val ?n ds" "cbs = ds \<and> rest = [] \<or> cbs = ds @ dot # rest \<and> rest \<noteq> []"
        unfolding Cons.IH by (auto simp: digit_step(2) [OF True v(2)])
      then show "\<exists>ds. list_all is_digit ds \<and> (ds \<noteq> [] \<longrightarrow> v \<noteq> 0) \<and> unat w = dec_val (unat v) ds \<and>
          (u # cbs = ds \<and> rest = [] \<or> u # cbs = ds @ dot # rest \<and> rest \<noteq> [])"
        using True v(1) by (intro exI [of _ "u # ds"]) auto
    next
      assume "\<exists>ds. list_all is_digit ds \<and> (ds \<noteq> [] \<longrightarrow> v \<noteq> 0) \<and> unat w = dec_val (unat v) ds \<and>
          (u # cbs = ds \<and> rest = [] \<or> u # cbs = ds @ dot # rest \<and> rest \<noteq> [])"
      then obtain ds where ds: "list_all is_digit ds" "v \<noteq> 0" "unat w = dec_val ?n ds"
          "cbs = ds \<and> rest = [] \<or> cbs = ds @ dot # rest \<and> rest \<noteq> []"
        using True nd by (auto simp: Cons_eq_append_conv)
      then have "dotted_decimal_loop True ?v cbs = (Some w, rest)"
        unfolding Cons.IH using digit_step(2) [OF True lt [OF ds(3)]] pos [OF ds(2) lt [OF ds(3)]] by auto
      then show "dotted_decimal_loop True v (u # cbs) = (Some w, rest)"
        using ds(2) lt [OF ds(3)] by (simp add: dotted_digit [OF True])
    qed
  next
    case False
    have "unat w = unat v \<longleftrightarrow> v = w" by (auto simp: word_unat_eq_iff)
    then show ?thesis using nd False by (cases "u = dot") (auto simp: dotted_other [OF False] dotted_other [OF nd] Cons_eq_append_conv)
  qed
qed

lemma parse_dotted_decimal_iff:
  "parse_dotted_decimal cbs = (Some w, rest) \<longleftrightarrow>
    (cbs = decimal (unat w) \<and> rest = [] \<or> cbs = decimal (unat w) @ dot # rest \<and> rest \<noteq> [])"
proof -
  have "parse_dotted_decimal cbs = (Some w, rest) \<longleftrightarrow>
      (\<exists>ds. ds \<noteq> [] \<and> list_all is_digit ds \<and> (length ds > 1 \<longrightarrow> unat (hd ds) \<noteq> 48) \<and> unat w = dec_val 0 ds \<and>
        (cbs = ds \<and> rest = [] \<or> cbs = ds @ dot # rest \<and> rest \<noteq> []))"
  proof (cases cbs)
    case (Cons u us)
    show ?thesis
    proof (cases "is_digit u")
      case True
      have lt: "unat u - 48 < 2 ^ 64" using unat_u8_lt [of u] by (simp del: unat_u8_lt)
      then have d: "unat (ucast (u - 0x30) :: u64) = unat u - 48" using digit_step(2) [OF True, of 0] by simp
      have z: "(ucast (u - 0x30) :: u64) \<noteq> 0 \<longleftrightarrow> unat u \<noteq> 48" using d True by (auto simp: is_digit_unat word_unat_eq_iff)
      have "parse_dotted_decimal cbs = (Some w, rest) \<longleftrightarrow>
          (\<exists>ds. list_all is_digit ds \<and> (ds \<noteq> [] \<longrightarrow> unat u \<noteq> 48) \<and> unat w = dec_val (unat u - 48) ds \<and>
            (us = ds \<and> rest = [] \<or> us = ds @ dot # rest \<and> rest \<noteq> []))"
        using True lt dotted_decimal_iff [of "ucast (u - 0x30)" us w rest] unfolding z d
        by (simp add: parse_dotted_decimal_def Cons dotted_digit)
      also have "\<dots> \<longleftrightarrow> (\<exists>ds. ds \<noteq> [] \<and> list_all is_digit ds \<and> (length ds > 1 \<longrightarrow> unat (hd ds) \<noteq> 48) \<and>
          unat w = dec_val 0 ds \<and> (cbs = ds \<and> rest = [] \<or> cbs = ds @ dot # rest \<and> rest \<noteq> []))" (is "_ \<longleftrightarrow> (\<exists>ds. ?P ds)")
      proof
        assume "\<exists>ds. list_all is_digit ds \<and> (ds \<noteq> [] \<longrightarrow> unat u \<noteq> 48) \<and> unat w = dec_val (unat u - 48) ds \<and>
            (us = ds \<and> rest = [] \<or> us = ds @ dot # rest \<and> rest \<noteq> [])"
        then obtain ds where "list_all is_digit ds" "ds \<noteq> [] \<longrightarrow> unat u \<noteq> 48" "unat w = dec_val (unat u - 48) ds"
            "us = ds \<and> rest = [] \<or> us = ds @ dot # rest \<and> rest \<noteq> []" by blast
        then have "?P (u # ds)" using True by (auto simp: Cons)
        then show "\<exists>ds. ?P ds" by blast
      next
        assume "\<exists>ds. ?P ds"
        then obtain e es where "?P (e # es)" by (metis neq_Nil_conv)
        then show "\<exists>ds. list_all is_digit ds \<and> (ds \<noteq> [] \<longrightarrow> unat u \<noteq> 48) \<and> unat w = dec_val (unat u - 48) ds \<and>
            (us = ds \<and> rest = [] \<or> us = ds @ dot # rest \<and> rest \<noteq> [])"
          by (intro exI [of _ es]) (auto simp: Cons)
      qed
      finally show ?thesis .
    next
      case False
      then show ?thesis by (auto simp: parse_dotted_decimal_def Cons dotted_other neq_Nil_conv)
    qed
  qed (auto simp: parse_dotted_decimal_def)
  also have "\<dots> \<longleftrightarrow> (cbs = decimal (unat w) \<and> rest = [] \<or> cbs = decimal (unat w) @ dot # rest \<and> rest \<noteq> [])"
    using decimal_unique decimal_not_Nil decimal_digits decimal_lead dec_val_decimal by metis
  finally show ?thesis .
qed

section \<open>Object identifiers\<close>

text \<open>The text and the DER contents of an identifier, given by its arcs.\<close>

fun dotted :: "nat list \<Rightarrow> bytes" where
  "dotted [] = []"
| "dotted [v] = decimal v"
| "dotted (v # vs) = decimal v @ dot # dotted vs"

fun oid_values :: "nat list \<Rightarrow> nat list" where
  "oid_values (a # b # rs) = (40 * a + b) # rs"
| "oid_values _ = []"

definition oid_octets :: "nat list \<Rightarrow> bytes" where
  "oid_octets arcs = concat (map b128 (oid_values arcs))"

fun valid_arcs :: "nat list \<Rightarrow> bool" where
  "valid_arcs (a # b # rs) \<longleftrightarrow> a \<le> 2 \<and> (a < 2 \<longrightarrow> b \<le> 39) \<and> b < 2 ^ 64 - 80 \<and> (\<forall>v\<in>set rs. v < 2 ^ 64)"
| "valid_arcs _ \<longleftrightarrow> False"

lemma dotted_Cons: "vs \<noteq> [] \<Longrightarrow> dotted (v # vs) = decimal v @ dot # dotted vs"
  by (cases vs) auto

lemma dotted_not_Nil: "vs \<noteq> [] \<Longrightarrow> dotted vs \<noteq> []"
  by (cases vs rule: dotted.cases) (auto simp: decimal_not_Nil)

lemma parse_dotted_shorter: "parse_dotted_decimal cbs = (Some w, rest) \<Longrightarrow> length rest < length cbs"
  using dotted_decimal_shorter [of False 0 cbs] by (simp add: parse_dotted_decimal_def)

lemma parsed_arc:
  assumes "parse_dotted_decimal cbs = (Some w, rest)" "rest = dotted vs"
  shows "cbs = dotted (unat w # vs)"
  using assms dotted_Cons [of vs] dotted_not_Nil [of vs] unfolding parse_dotted_decimal_iff
  by (cases "vs = []") (auto simp: dotted_Cons)

section \<open>From text\<close>

lemma base128_put:
  assumes "malloc_contract malloc" "represents B cbb" "length (snd B) = d" "add_base128_integer malloc d v cbb = (True, cbb')"
  shows "represents (top_append (b128 (unat v)) B) cbb'"
  by (rule refinesD [OF refines_add_base128 [OF assms(1)] assms(2,4)]) (simp add: put_def close_to_closed [OF assms(3)])

lemma oid_text_loop_ok:
  assumes malloc: "malloc_contract malloc"
  shows "oid_text_loop malloc d cbs cbb = (True, cbb') \<Longrightarrow> represents B cbb \<Longrightarrow> length (snd B) = d \<Longrightarrow>
    \<exists>vs. (\<forall>v\<in>set vs. v < 2 ^ 64) \<and> cbs = dotted vs \<and> represents (top_append (concat (map b128 vs)) B) cbb'"
proof (induction cbs arbitrary: B cbb rule: measure_induct_rule [of length])
  case (less cbs)
  show ?case
  proof (cases "cbs = []")
    case True
    then show ?thesis using less.prems by (intro exI [of _ "[]"]) (simp add: oid_text_loop.simps [of malloc] CBS_len_def)
  next
    case False
    then obtain a cbs' cbb1 where p: "parse_dotted_decimal cbs = (Some a, cbs')"
        and w: "add_base128_integer malloc d a cbb = (True, cbb1)" and n: "oid_text_loop malloc d cbs' cbb1 = (True, cbb')"
      using less.prems(1) unfolding oid_text_loop.simps [of malloc d cbs]
      by (auto simp: CBS_len_def split: prod.splits option.splits bool.splits if_splits)
    have r: "represents (top_append (b128 (unat a)) B) cbb1" by (rule base128_put [OF malloc less.prems(2,3) w])
    obtain vs where vs: "\<forall>v\<in>set vs. v < 2 ^ 64" "cbs' = dotted vs"
        "represents (top_append (concat (map b128 vs)) (top_append (b128 (unat a)) B)) cbb'"
      using less.IH [OF parse_dotted_shorter [OF p] n r] less.prems(3) by auto
    have "unat a < 2 ^ 64" using unsigned_less [of a, where 'a = nat] by simp
    then show ?thesis using vs parsed_arc [OF p vs(2)]
      by (intro exI [of _ "unat a # vs"]) (simp add: top_append_append)
  qed
qed

lemma first_arcs:
  assumes "\<not> (a > 2 \<or> (a < 2 \<and> b > 39) \<or> b > - 1 - 80)"
  shows "unat (40 * a + b :: u64) = 40 * unat a + unat b" and "unat a \<le> 2"
    and "unat a < 2 \<Longrightarrow> unat b \<le> 39" and "unat b < 2 ^ 64 - 80"
proof -
  have a: "unat a \<le> 2" and b: "unat b \<le> 2 ^ 64 - 81" using assms by (simp_all add: word_less_nat_alt not_less)
  show "unat a \<le> 2" "unat b < 2 ^ 64 - 80" using a b by simp_all
  show "unat a < 2 \<Longrightarrow> unat b \<le> 39" using assms by (simp add: word_less_nat_alt not_less)
  show "unat (40 * a + b :: u64) = 40 * unat a + unat b" using a b by (simp add: unat_word_ariths)
qed

lemma oid_from_text_ok:
  assumes malloc: "malloc_contract malloc" and r: "represents B cbb"
    and w: "CBB_add_asn1_oid_from_text malloc d text cbb = (True, cbb')"
  shows "\<exists>arcs. valid_arcs arcs \<and> text = dotted arcs \<and> (\<exists>B'. put d (oid_octets arcs) B = Some B' \<and> represents B' cbb')"
proof -
  obtain cbb1 where f: "CBB_flush malloc d cbb = (True, cbb1)"
      and q: "(case parse_dotted_decimal text of
       (None, _) \<Rightarrow> (False, cbb1)
     | (Some a, cbs) \<Rightarrow>
         (case parse_dotted_decimal cbs of
            (None, _) \<Rightarrow> (False, cbb1)
          | (Some b, cbs') \<Rightarrow>
              if a > 2 \<or> (a < 2 \<and> b > 39) \<or> b > - 1 - 80 then (False, cbb1)
              else and_then (add_base128_integer malloc d (40 * a + b)) (oid_text_loop malloc d cbs') cbb1)) = (True, cbb')"
    using w unfolding CBB_add_asn1_oid_from_text_def and_then_True CBS_init_def take_all [OF order_refl] by blast
  obtain a cbs where p1: "parse_dotted_decimal text = (Some a, cbs)" using q by (auto split: prod.splits option.splits)
  note q = q [unfolded p1 prod.case option.case]
  obtain b cbs' where p2: "parse_dotted_decimal cbs = (Some b, cbs')" using q by (auto split: prod.splits option.splits)
  note q = q [unfolded p2 prod.case option.case] and p = p1 p2
  have ok: "\<not> (a > 2 \<or> (a < 2 \<and> b > 39) \<or> b > - 1 - 80)" using q by (metis prod.inject)
  obtain cbb2 where wr: "add_base128_integer malloc d (40 * a + b) cbb1 = (True, cbb2)" "oid_text_loop malloc d cbs' cbb2 = (True, cbb')"
    using q unfolding if_not_P [OF ok] and_then_True by blast
  obtain B1 where B1: "close_to d B = Some B1" "represents B1 cbb1"
    using refinesD [OF refines_flush [OF malloc] r f] by blast
  have l: "length (snd B1) = d" by (rule close_to_length [OF B1(1)])
  have r2: "represents (top_append (b128 (40 * unat a + unat b)) B1) cbb2"
    using base128_put [OF malloc B1(2) l wr(1)] first_arcs(1) [OF ok] by simp
  obtain vs where vs: "\<forall>v\<in>set vs. v < 2 ^ 64" "cbs' = dotted vs"
      "represents (top_append (concat (map b128 vs)) (top_append (b128 (40 * unat a + unat b)) B1)) cbb'"
    using oid_text_loop_ok [OF malloc wr(2) r2] l by auto
  have "text = dotted (unat a # unat b # vs)" by (rule parsed_arc [OF p(1) parsed_arc [OF p(2) vs(2)]])
  moreover have "valid_arcs (unat a # unat b # vs)" using vs(1) first_arcs(2-) [OF ok] by simp
  ultimately show ?thesis using B1(1) vs(3)
    by (intro exI [of _ "unat a # unat b # vs"]) (simp add: put_def oid_octets_def top_append_append)
qed

section \<open>To text\<close>

lemma length_decimal: "n < 10 ^ Suc k \<Longrightarrow> length (decimal n) \<le> Suc k"
proof (induction k arbitrary: n)
  case 0
  then show ?case by (subst decimal.simps) simp
next
  case (Suc k)
  then have "n div 10 < 10 ^ Suc k" by (simp add: less_mult_imp_div_less)
  from Suc.IH [OF this] show ?case by (subst decimal.simps) simp
qed

lemma length_decimal_u64: "length (decimal (unat (v :: u64))) < 2 ^ 63"
proof -
  have "unat v < 10 ^ Suc 19" by (rule order_less_le_trans [OF unsigned_less]) simp
  from length_decimal [OF this] show ?thesis by simp
qed

lemma add_decimal_top:
  "malloc_contract malloc \<Longrightarrow> represents (p, []) cbb \<Longrightarrow> add_decimal malloc 0 v cbb = (True, cbb') \<Longrightarrow>
    represents (p @ decimal (unat v), []) cbb'"
  unfolding add_decimal_def by (rule add_bytes_top [OF _ _ _ length_decimal_u64])

lemma add_u8_top:
  assumes "malloc_contract malloc" "represents (p, []) cbb" "CBB_add_u8 malloc 0 x cbb = (True, cbb')"
  shows "represents (p @ [x], []) cbb'"
  by (rule refinesD [OF refines_add_u8 [OF assms(1)] assms(2,3)]) (simp add: put_def)

lemma dotted_concat: "dotted (v # vs) = decimal v @ concat (map (\<lambda>v. dot # decimal v) vs)"
  by (induction vs arbitrary: v) simp_all

lemma oid_print_loop_ok:
  assumes malloc: "malloc_contract malloc"
  shows "oid_print_loop malloc copy cbb = (True, cbb') \<Longrightarrow> represents (p, []) cbb \<Longrightarrow>
    \<exists>vs. (\<forall>v\<in>set vs. v < 2 ^ 64) \<and> copy = concat (map b128 vs) \<and>
      represents (p @ concat (map (\<lambda>v. dot # decimal v) vs), []) cbb'"
proof (induction copy arbitrary: p cbb rule: measure_induct_rule [of length])
  case (less copy)
  show ?case
  proof (cases "copy = []")
    case True
    then show ?thesis using less.prems by (intro exI [of _ "[]"]) (simp add: oid_print_loop.simps [of malloc] CBS_len_def)
  next
    case False
    then obtain v copy' cbb1 cbb2 where g: "parse_base128_integer copy = (Some v, copy')"
        and w: "CBB_add_u8 malloc 0 dot cbb = (True, cbb1)" "add_decimal malloc 0 v cbb1 = (True, cbb2)"
        and n: "oid_print_loop malloc copy' cbb2 = (True, cbb')"
      using less.prems(1) unfolding oid_print_loop.simps [of malloc copy]
      by (auto simp: CBS_len_def and_then_True split: prod.splits option.splits bool.splits if_splits)
    have r: "represents ((p @ [dot]) @ decimal (unat v), []) cbb2"
      by (rule add_decimal_top [OF malloc add_u8_top [OF malloc less.prems(2) w(1)] w(2)])
    obtain vs where vs: "\<forall>v\<in>set vs. v < 2 ^ 64" "copy' = concat (map b128 vs)"
        "represents (((p @ [dot]) @ decimal (unat v)) @ concat (map (\<lambda>v. dot # decimal v) vs), []) cbb'"
      using less.IH [OF base128.dec_shorter [OF g] n r] by blast
    have "unat v < 2 ^ 64" using unsigned_less [of v, where 'a = nat] by simp
    then show ?thesis using vs g by (intro exI [of _ "unat v # vs"]) (simp add: base128.dec_iff)
  qed
qed

lemma oid_print_first_ok:
  assumes malloc: "malloc_contract malloc" and r: "represents ([], []) cbb"
    and w: "oid_print_first malloc v cbb = (True, cbb')"
  shows "\<exists>a b. a \<le> 2 \<and> (a < 2 \<longrightarrow> b \<le> 39) \<and> b < 2 ^ 64 - 80 \<and> unat v = 40 * a + b \<and>
    represents (decimal a @ dot # decimal b, []) cbb'"
proof (cases "v \<ge> 80")
  case True
  then obtain cbb1 where c: "CBB_add_bytes malloc 0 [0x32, dot] cbb = (True, cbb1)" "add_decimal malloc 0 (v - 80) cbb1 = (True, cbb')"
    using w by (auto simp: oid_print_first_def and_then_True)
  have "represents (([] @ [0x32, dot]) @ decimal (unat (v - 80)), []) cbb'"
    by (rule add_decimal_top [OF malloc add_bytes_top [OF malloc r c(1)] c(2)]) simp
  moreover have "decimal 2 = [0x32]" by (simp add: decimal.simps)
  moreover have "80 \<le> unat v" using True by (simp add: word_le_nat_alt)
  moreover have "unat (v - 80) = unat v - 80" using True by (simp add: unat_sub)
  moreover have "unat v < 2 ^ 64" using unsigned_less [of v, where 'a = nat] by simp
  ultimately show ?thesis by (intro exI [of _ 2] exI [of _ "unat v - 80"]) simp
next
  case False
  then obtain cbb1 cbb2 where c: "add_decimal malloc 0 (v div 40) cbb = (True, cbb1)" "CBB_add_u8 malloc 0 dot cbb1 = (True, cbb2)"
      "add_decimal malloc 0 (v mod 40) cbb2 = (True, cbb')"
    using w by (auto simp: oid_print_first_def and_then_True)
  have "represents ((([] @ decimal (unat (v div 40))) @ [dot]) @ decimal (unat (v mod 40)), []) cbb'"
    by (rule add_decimal_top [OF malloc add_u8_top [OF malloc add_decimal_top [OF malloc r c(1)] c(2)] c(3)])
  moreover have "unat (v div 40) = unat v div 40" "unat (v mod 40) = unat v mod 40" by (simp_all add: unat_div unat_mod)
  moreover have "unat v < 80" using False by (simp add: word_le_nat_alt)
  then have "unat v div 40 \<le> 2" by simp
  moreover have "unat v mod 40 \<le> 39" using mod_less_divisor [of 40 "unat v"] by linarith
  moreover have "unat v = 40 * (unat v div 40) + unat v mod 40" by (simp add: mult_div_mod_eq)
  ultimately show ?thesis by (intro exI [of _ "unat v div 40"] exI [of _ "unat v mod 40"]) simp
qed

lemma oid_to_text_ok:
  assumes malloc: "malloc_contract malloc" and t: "CBS_asn1_oid_to_text malloc cbs = Some txt"
  shows "\<exists>arcs. valid_arcs arcs \<and> cbs = oid_octets arcs \<and> txt = dotted arcs @ [0]"
proof -
  obtain cbb v copy where i: "CBB_init malloc 32 = (True, cbb)" and g: "parse_base128_integer cbs = (Some v, copy)"
    using t unfolding CBS_asn1_oid_to_text_def by (auto split: prod.splits bool.splits option.splits)
  note t = t [unfolded CBS_asn1_oid_to_text_def i g prod.case option.case bool.case]
  obtain cbb3 txt0 len c where w: "and_then (oid_print_first malloc v) (and_then (oid_print_loop malloc copy) (CBB_add_u8 malloc 0 0)) cbb
       = (True, cbb3)"
      and fin: "CBB_finish malloc 0 True cbb3 = (Some (Some txt0, len), c)" "txt = take (unat len) txt0"
    using t by (auto split: prod.splits bool.splits option.splits)
  obtain cbb1 cbb2 where w: "oid_print_first malloc v cbb = (True, cbb1)" "oid_print_loop malloc copy cbb1 = (True, cbb2)"
      "CBB_add_u8 malloc 0 0 cbb2 = (True, cbb3)"
    using w unfolding and_then_True by blast
  have r: "represents ([], []) cbb" by (rule represents_init [OF malloc _ i]) simp
  obtain a b where ab: "a \<le> 2" "a < 2 \<longrightarrow> b \<le> 39" "b < 2 ^ 64 - 80" "unat v = 40 * a + b"
      "represents (decimal a @ dot # decimal b, []) cbb1"
    using oid_print_first_ok [OF malloc r w(1)] by blast
  obtain vs where vs: "\<forall>v\<in>set vs. v < 2 ^ 64" "copy = concat (map b128 vs)"
      "represents ((decimal a @ dot # decimal b) @ concat (map (\<lambda>v. dot # decimal v) vs), []) cbb2"
    using oid_print_loop_ok [OF malloc w(2) ab(5)] by blast
  have "txt = ((decimal a @ dot # decimal b) @ concat (map (\<lambda>v. dot # decimal v) vs)) @ [0]"
    using finish_represented [OF malloc add_u8_top [OF malloc vs(3) w(3)] fin(1)] fin(2) by (simp add: CBS_init_def)
  moreover have "cbs = oid_octets (a # b # vs)" using g vs(2) ab(4) by (simp add: base128.dec_iff oid_octets_def)
  ultimately show ?thesis using ab vs(1) by (intro exI [of _ "a # b # vs"]) (simp add: dotted_concat)
qed

text \<open>While there is room, every call succeeds.\<close>

definition writes :: "libc_malloc \<Rightarrow> nat \<Rightarrow> (CBB \<Rightarrow> bool \<times> CBB) \<Rightarrow> bytes \<Rightarrow> bool" where
  "writes malloc N f x \<longleftrightarrow> (\<forall>p s. represents (p, []) s \<longrightarrow> room malloc N s \<longrightarrow> length p + length x \<le> N \<longrightarrow>
     (\<exists>s'. f s = (True, s') \<and> room malloc N s' \<and> represents (p @ x, []) s'))"

lemma writes_and_then:
  assumes f: "writes malloc N f x" and g: "writes malloc N g y"
  shows "writes malloc N (and_then f g) (x @ y)"
  unfolding writes_def
proof (intro allI impI)
  fix p s
  assume a: "represents (p, []) s" "room malloc N s" "length p + length (x @ y) \<le> N"
  obtain s1 where s1: "f s = (True, s1)" "room malloc N s1" "represents (p @ x, []) s1"
    using f a unfolding writes_def by fastforce
  obtain s2 where "g s1 = (True, s2)" "room malloc N s2" "represents ((p @ x) @ y, []) s2"
    using g s1(2,3) a(3) unfolding writes_def by fastforce
  then show "\<exists>s'. and_then f g s = (True, s') \<and> room malloc N s' \<and> represents (p @ x @ y, []) s'"
    using s1(1) by (simp add: and_then_def)
qed

lemma writes_put:
  assumes "refines f (put 0 x)" and "total malloc N f (put 0 x)"
  shows "writes malloc N f x"
  unfolding writes_def
proof (intro allI impI)
  fix p s
  assume a: "represents (p, []) s" "room malloc N s" "length p + length x \<le> N"
  have p: "put 0 x (p, []) = Some (p @ x, [])" by (simp add: put_def)
  obtain s' where "f s = (True, s')" "room malloc N s'"
    by (rule totalD [OF assms(2) a(1,2) p]) (use a(3) in \<open>simp add: bsize_def\<close>)
  then show "\<exists>s'. f s = (True, s') \<and> room malloc N s' \<and> represents (p @ x, []) s'"
    using refinesD [OF assms(1) a(1), of s'] p by auto
qed

lemma writes_u8: "malloc_contract malloc \<Longrightarrow> writes malloc N (CBB_add_u8 malloc 0 v) [v]"
  by (intro writes_put refines_add_u8 total_add_u8)

lemma writes_bytes: "malloc_contract malloc \<Longrightarrow> length x < 2 ^ 63 \<Longrightarrow> writes malloc N (CBB_add_bytes malloc 0 x) x"
  by (intro writes_put refines_add_bytes total_add_bytes)

lemma writes_decimal: "malloc_contract malloc \<Longrightarrow> writes malloc N (add_decimal malloc 0 v) (decimal (unat v))"
  unfolding add_decimal_def [abs_def] by (intro writes_bytes length_decimal_u64)

lemma writes_loop:
  assumes malloc: "malloc_contract malloc"
  shows "\<forall>v\<in>set vs. v < 2 ^ 64 \<Longrightarrow> writes malloc N (oid_print_loop malloc (concat (map b128 vs))) (concat (map (\<lambda>v. dot # decimal v) vs))"
proof (induction vs)
  case Nil
  show ?case by (simp add: writes_def oid_print_loop.simps [of malloc "[]"] CBS_len_def)
next
  case (Cons v vs)
  have u: "unat (of_nat v :: u64) = v" using Cons.prems by (intro unat_of_nat_lt) simp
  have g: "parse_base128_integer (b128 v @ concat (map b128 vs)) = (Some (of_nat v), concat (map b128 vs))"
    using base128.dec_iff [of "b128 v @ concat (map b128 vs)" "of_nat v"] u by simp
  have "oid_print_loop malloc (b128 v @ concat (map b128 vs)) =
      and_then (and_then (CBB_add_u8 malloc 0 dot) (add_decimal malloc 0 (of_nat v))) (oid_print_loop malloc (concat (map b128 vs)))"
    by (rule ext) (simp add: oid_print_loop.simps [of malloc "b128 v @ _"] CBS_len_def b128_not_Nil g and_then_def
        split: prod.splits bool.splits)
  moreover have "writes malloc N (and_then (CBB_add_u8 malloc 0 dot) (add_decimal malloc 0 (of_nat v))) ([dot] @ decimal (unat (of_nat v :: u64)))"
    by (intro writes_and_then writes_u8 writes_decimal malloc)
  ultimately show ?case using writes_and_then Cons u by fastforce
qed

lemma writes_first:
  assumes malloc: "malloc_contract malloc" and v: "unat v = 40 * a + b" "a \<le> 2" "a < 2 \<longrightarrow> b \<le> 39"
  shows "writes malloc N (oid_print_first malloc v) (decimal a @ dot # decimal b)"
proof (cases "v \<ge> 80")
  case True
  then have "80 \<le> 40 * a + b" using v(1) by (simp add: word_le_nat_alt)
  then have "a = 2" using v(2,3) by (cases "a < 2") auto
  moreover have "unat (v - 80) = unat v - 80" using True by (simp add: unat_sub)
  moreover have "decimal 2 = [0x32]" by (simp add: decimal.simps)
  moreover have "writes malloc N (and_then (CBB_add_bytes malloc 0 [0x32, dot]) (add_decimal malloc 0 (v - 80)))
      ([0x32, dot] @ decimal (unat (v - 80)))"
    by (intro writes_and_then writes_bytes writes_decimal malloc) simp
  ultimately show ?thesis using True v(1) by (simp add: oid_print_first_def [abs_def])
next
  case False
  then have lt: "40 * a + b < 80" using v(1) by (simp add: word_le_nat_alt)
  then have "b \<le> 39" using v(2,3) by (cases "a < 2") auto
  then have "unat (v div 40) = a" "unat (v mod 40) = b" using v(1) by (simp_all add: unat_div unat_mod)
  moreover have "writes malloc N (and_then (add_decimal malloc 0 (v div 40)) (and_then (CBB_add_u8 malloc 0 dot) (add_decimal malloc 0 (v mod 40))))
      (decimal (unat (v div 40)) @ [dot] @ decimal (unat (v mod 40)))"
    by (intro writes_and_then writes_u8 writes_decimal malloc)
  ultimately show ?thesis using False by (simp add: oid_print_first_def [abs_def])
qed

lemma oid_to_text_total:
  assumes malloc: "malloc_contract malloc" and v: "valid_arcs arcs" and N: "length (dotted arcs) + 16 < 2 ^ 60"
    and big: "\<forall>k. unat k \<le> 2 * (length (dotted arcs) + 16) + 40 \<longrightarrow> malloc k \<noteq> None"
  shows "CBS_asn1_oid_to_text malloc (oid_octets arcs) \<noteq> None"
proof -
  obtain a b rs where arcs: "arcs = a # b # rs" using v by (cases arcs rule: valid_arcs.cases) auto
  have ab: "a \<le> 2" "a < 2 \<longrightarrow> b \<le> 39" "40 * a + b < 2 ^ 64" "\<forall>v\<in>set rs. v < 2 ^ 64" using v by (auto simp: arcs)
  define w :: u64 where "w = of_nat (40 * a + b)"
  have w: "unat w = 40 * a + b" unfolding w_def using ab(3) by (intro unat_of_nat_lt) simp
  have g: "parse_base128_integer (oid_octets arcs) = (Some w, concat (map b128 rs))"
    unfolding base128.dec_iff by (simp add: arcs oid_octets_def w)
  define N where "N = length (dotted arcs) + 16"
  have u: "unat (32 :: u64) \<le> 2 * N" by (simp add: N_def)
  obtain s where s: "CBB_init malloc 32 = (True, s)" "room malloc N s"
    using room_init [OF N [folded N_def] u] big unfolding N_def by blast
  have r: "represents ([], []) s" by (rule represents_init [OF malloc _ s(1)]) simp
  define f where "f = and_then (oid_print_first malloc w) (and_then (oid_print_loop malloc (concat (map b128 rs))) (CBB_add_u8 malloc 0 0))"
  define out where "out = (decimal a @ dot # decimal b) @ concat (map (\<lambda>v. dot # decimal v) rs) @ [0]"
  have "writes malloc N f out" unfolding f_def out_def
    by (intro writes_and_then writes_first [OF malloc w ab(1,2)] writes_loop [OF malloc ab(4)] writes_u8 [OF malloc])
  moreover have "length out \<le> N" by (simp add: out_def N_def arcs dotted_concat)
  ultimately obtain s1 where s1: "f s = (True, s1)" "room malloc N s1" "represents (out, []) s1"
    using r s(2) unfolding writes_def by fastforce
  obtain s2 where s2: "CBB_flush malloc 0 s1 = (True, s2)" "room malloc N s2"
    by (rule totalD [OF total_flush [OF malloc] s1(3,2)]) (use \<open>length out \<le> N\<close> in \<open>auto simp: bsize_def\<close>)
  obtain bf where b: "base s2 = Some bf" using s2(2) by (auto simp: room_def)
  have fin: "CBB_finish malloc 0 True s1 = (Some (buf bf, blen bf), CBB_cleanup 0 s2)"
    using s2(1) b by (simp add: CBB_finish_def)
  have "buf bf \<noteq> None" using CBB_finish_ok [OF malloc s1(3) fin] by (auto simp: out_def split: option.splits)
  then show ?thesis
    unfolding CBS_asn1_oid_to_text_def s(1) g using s1(1) fin by (auto simp: f_def)
qed

section \<open>Properties\<close>

lemma b128_list_inj:
  assumes "\<forall>v\<in>set vs. v < 2 ^ 64" "\<forall>v\<in>set ws. v < 2 ^ 64" "concat (map b128 vs) = concat (map b128 ws)"
  shows "vs = ws"
proof -
  have m: "concat (map (\<lambda>v. b128 (unat (v :: u64))) (map of_nat us)) = concat (map b128 us)"
      "map unat (map of_nat us :: u64 list) = us" if "\<forall>v\<in>set us. v < 2 ^ 64" for us
    using that by (auto simp: unat_of_nat_lt intro!: arg_cong [of _ _ concat] map_idI)
  have "(map of_nat vs :: u64 list) = map of_nat ws"
    using base128.decode_all_iff [of "concat (map b128 vs)" "map of_nat vs"]
      base128.decode_all_iff [of "concat (map b128 vs)" "map of_nat ws"] m(1) [OF assms(1)] m(1) [OF assms(2)] assms(3)
    by (simp add: list_all_iff)
  then show ?thesis using m(2) [OF assms(1)] m(2) [OF assms(2)] by metis
qed

lemma first_arc_inj:
  fixes a b c d :: nat
  assumes "a \<le> 2" "a < 2 \<longrightarrow> b \<le> 39" "c \<le> 2" "c < 2 \<longrightarrow> d \<le> 39" "40 * a + b = 40 * c + d"
  shows "a = c \<and> b = d"
proof -
  have "a = 0 \<or> a = 1 \<or> a = 2" "c = 0 \<or> c = 1 \<or> c = 2" using assms(1,3) by linarith+
  then show ?thesis using assms(2,4,5) by (elim disjE) simp_all
qed

lemma oid_octets_inj:
  assumes "valid_arcs xs" "valid_arcs ys" "oid_octets xs = oid_octets ys"
  shows "xs = ys"
proof -
  obtain a b vs where x: "xs = a # b # vs" using assms(1) by (cases xs rule: valid_arcs.cases) auto
  obtain c d ws where y: "ys = c # d # ws" using assms(2) by (cases ys rule: valid_arcs.cases) auto
  have "(40 * a + b) # vs = (40 * c + d) # ws"
    using assms by (intro b128_list_inj) (auto simp: x y oid_octets_def)
  moreover have "a = c \<and> b = d" if "40 * a + b = 40 * c + d"
    using first_arc_inj assms(1,2) that unfolding x y valid_arcs.simps by blast
  ultimately show ?thesis by (simp add: x y)
qed

lemma oid_build_ok:
  assumes malloc: "malloc_contract malloc" and n: "unat n < 2 ^ 64 - 8"
    and b: "build malloc n (CBB_add_asn1_oid_from_text malloc 0 text) = Some out"
  shows "\<exists>arcs. valid_arcs arcs \<and> text = dotted arcs \<and> out = oid_octets arcs"
proof -
  obtain cbb cbb1 res c where c: "CBB_init malloc n = (True, cbb)" "CBB_add_asn1_oid_from_text malloc 0 text cbb = (True, cbb1)"
      "CBB_finish malloc 0 True cbb1 = (Some res, c)" "out = (case res of (None, _) \<Rightarrow> [] | (Some m, n) \<Rightarrow> take (unat n) m)"
    using b by (auto simp: build_def finish_with_def and_then_True split: prod.splits bool.splits option.splits)
  obtain arcs where a: "valid_arcs arcs" "text = dotted arcs" "represents (oid_octets arcs, []) cbb1"
    using oid_from_text_ok [OF malloc represents_init [OF malloc n c(1)] c(2)] by (auto simp: put_def)
  obtain m k where r: "res = (m, k)" by (cases res)
  have "out = oid_octets arcs"
    using finish_represented [OF malloc a(3) c(3) [unfolded r]] c(4) r by (auto simp: CBS_init_def split: option.splits)
  then show ?thesis using a by blast
qed

text \<open>
  C12: \<^verbatim>\<open>CBB_add_asn1_oid_from_text\<close> accepts only canonical dotted decimals (no empty component, no
  leading zero, no trailing dot, no value that does not fit, first arc at most 2 and second at most
  39 below it), and writes the DER contents of that identifier.
\<close>

theorem oid_from_text_exact:
  assumes "malloc_contract malloc" and "unat n < 2 ^ 64 - 8"
    and "build malloc n (CBB_add_asn1_oid_from_text malloc 0 text) = Some out"
  shows "\<exists>arcs. valid_arcs arcs \<and> text = dotted arcs \<and> out = oid_octets arcs"
  by (rule oid_build_ok [OF assms])

lemma oid_from_text_exact_witness:
  "\<exists>arcs. valid_arcs arcs \<and> [0x31, 0x2e, 0x32, 0x2e, 0x38, 0x34, 0x30] = dotted arcs \<and> [42, 0x86, 0x48] = oid_octets arcs"
proof (rule oid_from_text_exact [where n = 1, OF example_malloc_contract])
  show "build example_malloc 1 (CBB_add_asn1_oid_from_text example_malloc 0 [0x31, 0x2e, 0x32, 0x2e, 0x38, 0x34, 0x30]) =
    Some [42, 0x86, 0x48]" by code_simp
qed simp

text \<open>
  C13: \<^verbatim>\<open>CBS_asn1_oid_to_text\<close> prints exactly what is the DER contents of an identifier (minimal base-128
  integers up to the end), as its dotted decimal form with a NUL: on any other input it fails, and on such an input it
  fails only if the allocator refuses a block of about twice the text's size.
\<close>

theorem oid_to_text_exact:
  assumes "malloc_contract malloc"
  shows "case CBS_asn1_oid_to_text malloc cbs of
      Some txt \<Rightarrow> \<exists>arcs. valid_arcs arcs \<and> cbs = oid_octets arcs \<and> txt = dotted arcs @ [0]
    | None \<Rightarrow> \<forall>arcs. valid_arcs arcs \<and> cbs = oid_octets arcs \<longrightarrow>
        2 ^ 59 \<le> length (dotted arcs) \<or> (\<exists>k. unat k \<le> 2 * length (dotted arcs) + 72 \<and> malloc k = None)"
proof (cases "CBS_asn1_oid_to_text malloc cbs")
  case None
  have "2 ^ 59 \<le> length (dotted arcs) \<or> (\<exists>k. unat k \<le> 2 * length (dotted arcs) + 72 \<and> malloc k = None)"
    if a: "valid_arcs arcs" "cbs = oid_octets arcs" for arcs
  proof (rule ccontr)
    assume "\<not> (2 ^ 59 \<le> length (dotted arcs) \<or> (\<exists>k. unat k \<le> 2 * length (dotted arcs) + 72 \<and> malloc k = None))"
    then have "length (dotted arcs) + 16 < 2 ^ 60"
      "\<forall>k. unat k \<le> 2 * (length (dotted arcs) + 16) + 40 \<longrightarrow> malloc k \<noteq> None" by auto
    then show False using oid_to_text_total [OF assms a(1)] None a(2) by simp
  qed
  then show ?thesis using None by simp
next
  case (Some out)
  then show ?thesis using oid_to_text_ok [OF assms Some] by simp
qed

lemma oid_to_text_exact_witness:
  "\<exists>arcs. valid_arcs arcs \<and> [42, 0x86, 0x48] = oid_octets arcs \<and>
    [0x31, 0x2e, 0x32, 0x2e, 0x38, 0x34, 0x30, 0] = dotted arcs @ [0]"
proof -
  have "CBS_asn1_oid_to_text example_malloc [42, 0x86, 0x48] = Some [0x31, 0x2e, 0x32, 0x2e, 0x38, 0x34, 0x30, 0]" by code_simp
  then show ?thesis using oid_to_text_exact [OF example_malloc_contract, of "[42, 0x86, 0x48]"] by simp
qed

text \<open>An identifier that was read from text prints as that text.\<close>

theorem oid_text_round_trip:
  assumes "malloc_contract malloc" and "unat n < 2 ^ 64 - 8"
    and "build malloc n (CBB_add_asn1_oid_from_text malloc 0 text) = Some out"
    and "malloc_contract malloc'" and "CBS_asn1_oid_to_text malloc' out = Some txt"
  shows "txt = text @ [0]"
  using oid_build_ok [OF assms(1-3)] oid_to_text_ok [OF assms(4,5)] oid_octets_inj by metis

lemma oid_text_round_trip_witness: "[0x32, 0x2e, 0x39, 0x39, 0] = [0x32, 0x2e, 0x39, 0x39] @ [0 :: u8]"
proof (rule oid_text_round_trip [where n = 1 and out = "[0x81, 0x33]", OF example_malloc_contract _ _ example_malloc_contract])
  show "build example_malloc 1 (CBB_add_asn1_oid_from_text example_malloc 0 [0x32, 0x2e, 0x39, 0x39]) = Some [0x81, 0x33]" by code_simp
  show "CBS_asn1_oid_to_text example_malloc [0x81, 0x33] = Some [0x32, 0x2e, 0x39, 0x39, 0]" by code_simp
qed simp

end
