(* ===== verification/Stack.thy ===== *)
theory Stack
  imports Mem "HOL-Library.Multiset"
begin

text \<open>
  \<^verbatim>\<open>crypto/stack/stack.c\<close>: the growable array of pointers behind every \<^verbatim>\<open>STACK_OF(type)\<close>. A pointer is
  \<^verbatim>\<open>None\<close> for NULL; a \<^verbatim>\<open>_STACK *\<close> argument is an option for the same reason. A comparison function is
  an identifier (the function pointer), which \<^verbatim>\<open>call_cmp_func\<close> applies, as in the code. The slots of
  a new block that the code has not written are NULL here; none of them is read.
\<close>

type_synonym 'a ptr = "'a option"

record ('a, 'c) stack =
  num :: u64
  sdata :: "'a ptr list"
  sorted_flag :: bool
  num_alloc :: u64
  comp :: "'c option"

type_synonym ('a, 'c) cmp_caller = "'c \<Rightarrow> 'a ptr \<Rightarrow> 'a ptr \<Rightarrow> int"

section \<open>The operations\<close>

definition kMinSize :: u64 where
  "kMinSize = 4"

definition sizeof_ptr :: u64 where
  "sizeof_ptr = 8"

definition sizeof_STACK :: u64 where
  "sizeof_STACK = 40"

definition sk_new :: "libc_malloc \<Rightarrow> 'c option \<Rightarrow> ('a, 'c) stack option" where
  "sk_new malloc cmp =
     (case OPENSSL_malloc malloc sizeof_STACK of
        None \<Rightarrow> None
      | Some _ \<Rightarrow>
          (case OPENSSL_malloc malloc (sizeof_ptr * kMinSize) of
             None \<Rightarrow> None
           | Some m \<Rightarrow> Some \<lparr>num = 0, sdata = replicate (length m div unat sizeof_ptr) None,
                              sorted_flag = False, num_alloc = kMinSize, comp = cmp\<rparr>))"

definition sk_new_null :: "libc_malloc \<Rightarrow> ('a, 'c) stack option" where
  "sk_new_null malloc = sk_new malloc None"

fun sk_num :: "('a, 'c) stack option \<Rightarrow> u64" where
  "sk_num None = 0"
| "sk_num (Some sk) = num sk"

fun sk_zero :: "('a, 'c) stack option \<Rightarrow> ('a, 'c) stack option" where
  "sk_zero None = None"
| "sk_zero (Some sk) =
     (if num sk = 0 then Some sk
      else Some (sk\<lparr>sdata := replicate (unat (num sk)) None @ drop (unat (num sk)) (sdata sk),
                    num := 0, sorted_flag := False\<rparr>))"

fun sk_value :: "('a, 'c) stack option \<Rightarrow> u64 \<Rightarrow> 'a ptr" where
  "sk_value None i = None"
| "sk_value (Some sk) i = (if i \<ge> num sk then None else sdata sk ! unat i)"

fun sk_set :: "('a, 'c) stack option \<Rightarrow> u64 \<Rightarrow> 'a ptr \<Rightarrow> 'a ptr \<times> ('a, 'c) stack option" where
  "sk_set None i v = (None, None)"
| "sk_set (Some sk) i v =
     (if i \<ge> num sk then (None, Some sk) else (v, Some (sk\<lparr>sdata := (sdata sk)[unat i := v]\<rparr>)))"

text \<open>The pointers that \<^verbatim>\<open>free_func\<close> is called on, in that order.\<close>

fun sk_pop_free_ex :: "('a, 'c) stack option \<Rightarrow> 'a list" where
  "sk_pop_free_ex None = []"
| "sk_pop_free_ex (Some sk) = List.map_filter id (take (unat (num sk)) (sdata sk))"

definition sk_pop_free :: "('a, 'c) stack option \<Rightarrow> 'a list" where
  "sk_pop_free sk = sk_pop_free_ex sk"

text \<open>Growing the array: the new \<^verbatim>\<open>num_alloc\<close>, \<^verbatim>\<open>None\<close> when even one more slot overflows.\<close>

definition sk_grow_size :: "u64 \<Rightarrow> u64 option" where
  "sk_grow_size n =
     (let ok = (\<lambda>new_alloc. \<not> (new_alloc < n \<or> new_alloc * sizeof_ptr div sizeof_ptr \<noteq> new_alloc));
          new_alloc = push_bit 1 n;
          new_alloc = (if \<not> ok new_alloc then n + 1 else new_alloc) in
      if \<not> ok new_alloc then None else Some new_alloc)"

definition realloc_ptrs :: "libc_malloc \<Rightarrow> 'a ptr list \<Rightarrow> u64 \<Rightarrow> 'a ptr list option" where
  "realloc_ptrs malloc old alloc_size =
     (case OPENSSL_malloc malloc alloc_size of
        None \<Rightarrow> None
      | Some m \<Rightarrow> let k = length m div unat sizeof_ptr in Some (take k (old @ replicate (k - length old) None)))"

fun sk_insert :: "libc_malloc \<Rightarrow> ('a, 'c) stack option \<Rightarrow> 'a ptr \<Rightarrow> u64 \<Rightarrow> u64 \<times> ('a, 'c) stack option" where
  "sk_insert malloc None p where = (0, None)"
| "sk_insert malloc (Some sk) p where =
     (let grown =
        (if num_alloc sk \<le> num sk + 1 then
           (case sk_grow_size (num_alloc sk) of
              None \<Rightarrow> None
            | Some new_alloc \<Rightarrow>
                (case realloc_ptrs malloc (sdata sk) (new_alloc * sizeof_ptr) of
                   None \<Rightarrow> None
                 | Some d \<Rightarrow> Some (sk\<lparr>sdata := d, num_alloc := new_alloc\<rparr>)))
         else Some sk) in
      case grown of
        None \<Rightarrow> (0, Some sk)
      | Some sk1 \<Rightarrow>
          let d = (if where \<ge> num sk1 then (sdata sk1)[unat (num sk1) := p]
                   else (mem_move (sdata sk1) (unat (where + 1)) (unat where) (unat (num sk1 - where)))[unat where := p]);
              sk2 = sk1\<lparr>sdata := d, num := num sk1 + 1, sorted_flag := False\<rparr>
          in (num sk2, Some sk2))"

fun sk_delete :: "('a, 'c) stack option \<Rightarrow> u64 \<Rightarrow> 'a ptr \<times> ('a, 'c) stack option" where
  "sk_delete None where = (None, None)"
| "sk_delete (Some sk) where =
     (if where \<ge> num sk then (None, Some sk)
      else
        let ret = sdata sk ! unat where;
            d = (if where \<noteq> num sk - 1
                 then mem_move (sdata sk) (unat where) (unat (where + 1)) (unat (num sk - where - 1)) else sdata sk)
        in (ret, Some (sk\<lparr>sdata := d, num := num sk - 1\<rparr>)))"

text \<open>The first index below \<^verbatim>\<open>n\<close>, from \<^verbatim>\<open>i\<close>, that satisfies the test of a search loop.\<close>

function find_from :: "('a ptr \<Rightarrow> bool) \<Rightarrow> 'a ptr list \<Rightarrow> u64 \<Rightarrow> u64 \<Rightarrow> u64 option" where
  "find_from test d i n =
     (if i < n then if test (d ! unat i) then Some i else find_from test d (i + 1) n else None)"
  by pat_completeness auto
termination
proof (relation "measure (\<lambda>(_, _, i, n). unat n - unat i)")
  fix i n :: u64 assume "i < n"
  then have "unat i < unat n" "unat (i + 1) = unat i + 1"
    by (simp_all add: word_less_nat_alt unat_Suc_less)
  then show "((test, d, i + 1, n), test, d, i, n) \<in> measure (\<lambda>(_, _, i, n). unat n - unat i)" for test and d :: "'a ptr list"
    by simp
qed simp

declare find_from.simps [simp del]

fun sk_delete_ptr :: "('a, 'c) stack option \<Rightarrow> 'a ptr \<Rightarrow> 'a ptr \<times> ('a, 'c) stack option" where
  "sk_delete_ptr None p = (None, None)"
| "sk_delete_ptr (Some sk) p =
     (case find_from (\<lambda>q. q = p) (sdata sk) 0 (num sk) of
        None \<Rightarrow> (None, Some sk)
      | Some i \<Rightarrow> sk_delete (Some sk) i)"

fun sk_is_sorted :: "('a, 'c) stack option \<Rightarrow> bool" where
  "sk_is_sorted None = True"
| "sk_is_sorted (Some sk) = sorted_flag sk"

lemma mid_bounds:
  assumes "lo < (hi :: u64)"
  shows "unat (lo + (hi - lo - 1) div 2) = unat lo + (unat hi - unat lo - 1) div 2"
    and "unat lo + (unat hi - unat lo - 1) div 2 < unat hi"
    and "unat (lo + (hi - lo - 1) div 2 + 1) = unat lo + (unat hi - unat lo - 1) div 2 + 1"
proof -
  have lt: "unat lo < unat hi" using assms by (simp add: word_less_nat_alt)
  have d: "unat (hi - lo) = unat hi - unat lo" using assms by (intro unat_sub) simp
  have "unat (hi - lo - 1) = unat hi - unat lo - 1" using lt d by (subst unat_minus_one) auto
  then have h: "unat ((hi - lo - 1) div 2) = (unat hi - unat lo - 1) div 2" by (simp add: unat_div)
  show b: "unat lo + (unat hi - unat lo - 1) div 2 < unat hi" using lt by linarith
  have m: "unat hi < 2 ^ 64" using unsigned_less [of hi, where 'a = nat] by simp
  show e: "unat (lo + (hi - lo - 1) div 2) = unat lo + (unat hi - unat lo - 1) div 2"
    using b m h by (simp add: unat_word_ariths)
  show "unat (lo + (hi - lo - 1) div 2 + 1) = unat lo + (unat hi - unat lo - 1) div 2 + 1"
    using b m e by (simp add: unat_word_ariths)
qed

text \<open>The binary search of \<^verbatim>\<open>sk_find\<close>; \<^verbatim>\<open>cmp\<close> is \<^verbatim>\<open>call_cmp_func(sk->comp, &p, _)\<close>.\<close>

function sk_bsearch :: "('a ptr \<Rightarrow> int) \<Rightarrow> 'a ptr list \<Rightarrow> u64 \<Rightarrow> u64 \<Rightarrow> u64 option" where
  "sk_bsearch cmp d lo hi =
     (if lo < hi then
        let mid = lo + (hi - lo - 1) div 2;
            r = cmp (d ! unat mid) in
        if r > 0 then sk_bsearch cmp d (mid + 1) hi
        else if r < 0 then sk_bsearch cmp d lo mid
        else if hi - lo = 1 then Some mid
        else sk_bsearch cmp d lo (mid + 1)
      else None)"
  by pat_completeness auto
termination
proof (relation "measure (\<lambda>(_, _, lo, hi). unat hi - unat lo)", goal_cases)
  case (2 cmp d lo hi x xa)
  then show ?case using mid_bounds [of lo hi] by simp linarith
next
  case (3 cmp d lo hi x xa)
  then show ?case using mid_bounds [of lo hi] by simp linarith
next
  case (4 cmp d lo hi x xa)
  have "unat (hi - lo) = unat hi - unat lo" using 4(1) by (intro unat_sub) simp
  moreover have "unat (hi - lo) \<noteq> 1" using 4(6) by (metis unat_1 word_unat_eq_iff)
  ultimately show ?case using 4(1,2) mid_bounds [of lo hi] by simp linarith
qed simp

declare sk_bsearch.simps [simp del]

fun sk_find :: "('a, 'c) cmp_caller \<Rightarrow> ('a, 'c) stack option \<Rightarrow> 'a ptr \<Rightarrow> u64 option" where
  "sk_find call_cmp_func None p = None"
| "sk_find call_cmp_func (Some sk) p =
     (case comp sk of
        None \<Rightarrow> find_from (\<lambda>q. q = p) (sdata sk) 0 (num sk)
      | Some c \<Rightarrow>
          if p = None then None
          else if \<not> sk_is_sorted (Some sk)
          then find_from (\<lambda>elem. call_cmp_func c p elem = 0) (sdata sk) 0 (num sk)
          else sk_bsearch (call_cmp_func c p) (sdata sk) 0 (num sk))"

fun sk_shift :: "('a, 'c) stack option \<Rightarrow> 'a ptr \<times> ('a, 'c) stack option" where
  "sk_shift None = (None, None)"
| "sk_shift (Some sk) = (if num sk = 0 then (None, Some sk) else sk_delete (Some sk) 0)"

definition sk_push :: "libc_malloc \<Rightarrow> ('a, 'c) stack \<Rightarrow> 'a ptr \<Rightarrow> u64 \<times> ('a, 'c) stack option" where
  "sk_push malloc sk p = sk_insert malloc (Some sk) p (num sk)"

fun sk_pop :: "('a, 'c) stack option \<Rightarrow> 'a ptr \<times> ('a, 'c) stack option" where
  "sk_pop None = (None, None)"
| "sk_pop (Some sk) = (if num sk = 0 then (None, Some sk) else sk_delete (Some sk) (num sk - 1))"

fun sk_dup :: "libc_malloc \<Rightarrow> ('a, 'c) stack option \<Rightarrow> ('a, 'c) stack option" where
  "sk_dup malloc None = None"
| "sk_dup malloc (Some sk) =
     (case sk_new malloc (comp sk) of
        None \<Rightarrow> None
      | Some ret \<Rightarrow>
          (case realloc_ptrs malloc (sdata ret) (sizeof_ptr * num_alloc sk) of
             None \<Rightarrow> None
           | Some s \<Rightarrow>
               Some (ret\<lparr>sdata := take (unat (num sk)) (sdata sk) @ drop (unat (num sk)) s,
                         num := num sk, sorted_flag := sorted_flag sk, num_alloc := num_alloc sk,
                         comp := comp sk\<rparr>)))"

text \<open>libc's \<^verbatim>\<open>qsort\<close> need not be stable; it is any function with the contract below.\<close>

definition qsort_contract :: "(('a ptr \<Rightarrow> 'a ptr \<Rightarrow> int) \<Rightarrow> 'a ptr list \<Rightarrow> 'a ptr list) \<Rightarrow> ('a ptr \<Rightarrow> 'a ptr \<Rightarrow> int) \<Rightarrow> bool" where
  "qsort_contract qsort cmp \<longleftrightarrow>
     (\<forall>xs. mset (qsort cmp xs) = mset xs \<and> sorted_wrt (\<lambda>a b. cmp a b \<le> 0) (qsort cmp xs))"

fun sk_sort ::
  "(('a ptr \<Rightarrow> 'a ptr \<Rightarrow> int) \<Rightarrow> 'a ptr list \<Rightarrow> 'a ptr list) \<Rightarrow> ('a, 'c) cmp_caller \<Rightarrow>
    ('a, 'c) stack option \<Rightarrow> ('a, 'c) stack option"
where
  "sk_sort qsort call_cmp_func None = None"
| "sk_sort qsort call_cmp_func (Some sk) =
     (case comp sk of
        None \<Rightarrow> Some sk
      | Some c \<Rightarrow>
          if sorted_flag sk then Some sk
          else
            let d = (if num sk \<ge> 2
                     then qsort (call_cmp_func c) (take (unat (num sk)) (sdata sk)) @ drop (unat (num sk)) (sdata sk)
                     else sdata sk)
            in Some (sk\<lparr>sdata := d, sorted_flag := True\<rparr>))"

definition sk_set_cmp_func :: "('a, 'c) stack \<Rightarrow> 'c option \<Rightarrow> 'c option \<times> ('a, 'c) stack" where
  "sk_set_cmp_func sk cmp =
     (comp sk, (if comp sk \<noteq> cmp then sk\<lparr>sorted_flag := False\<rparr> else sk)\<lparr>comp := cmp\<rparr>)"

text \<open>
  The copying loop, on the slots from index \<^verbatim>\<open>i\<close>: the copies, or \<^verbatim>\<open>Inl\<close> of the copies made before the
  one that failed.
\<close>

fun deep_copy_loop :: "('a \<Rightarrow> 'a ptr) \<Rightarrow> 'a ptr list \<Rightarrow> 'a ptr list \<Rightarrow> 'a ptr list + 'a ptr list" where
  "deep_copy_loop copy_func done [] = Inr done"
| "deep_copy_loop copy_func done (None # ps) = deep_copy_loop copy_func (done @ [None]) ps"
| "deep_copy_loop copy_func done (Some p # ps) =
     (case copy_func p of
        None \<Rightarrow> Inl done
      | Some q \<Rightarrow> deep_copy_loop copy_func (done @ [Some q]) ps)"

text \<open>The result, and the pointers that were freed on the way.\<close>

definition sk_deep_copy :: "libc_malloc \<Rightarrow> ('a \<Rightarrow> 'a ptr) \<Rightarrow> ('a, 'c) stack option \<Rightarrow> ('a, 'c) stack option \<times> 'a list" where
  "sk_deep_copy malloc copy_func sk =
     (case sk_dup malloc sk of
        None \<Rightarrow> (None, [])
      | Some ret \<Rightarrow>
          (case deep_copy_loop copy_func [] (take (unat (num ret)) (sdata ret)) of
             Inl freed \<Rightarrow> (None, List.map_filter id freed)
           | Inr copies \<Rightarrow> (Some (ret\<lparr>sdata := copies @ drop (unat (num ret)) (sdata ret)\<rparr>), [])))"

end
