(* ===== verification/StackProps.thy ===== *)
theory StackProps
  imports Stack
begin

text \<open>
  The stack refines a list: \<^verbatim>\<open>elems\<close> is the abstraction, \<^verbatim>\<open>stack_ok\<close> the representation invariant and
  \<^verbatim>\<open>sk_call\<close> the step relation of the public calls. The locale \<^verbatim>\<open>comparison\<close> is the contract of the
  comparison functions, under which the binary search of a sorted stack is right.
\<close>

section \<open>The list a stack stands for\<close>

definition elems :: "('a, 'c) stack \<Rightarrow> 'a ptr list" where
  "elems sk = take (unat (num sk)) (sdata sk)"

definition stack_ok :: "('a, 'c) stack \<Rightarrow> bool" where
  "stack_ok sk \<longleftrightarrow> length (sdata sk) = unat (num_alloc sk) \<and> unat (num sk) < unat (num_alloc sk) \<and>
     unat (num_alloc sk) * 8 < 2 ^ 63"

lemma length_elems: "stack_ok sk \<Longrightarrow> length (elems sk) = unat (num sk)"
  by (simp add: stack_ok_def elems_def)

lemma sk_num_Some: "sk_num (Some sk) = num sk"
  by simp

lemma unat_double: "unat n * 2 < 2 ^ 64 \<Longrightarrow> unat (push_bit 1 n) = unat n * 2" for n :: u64
  using unat_push_bit_lt [of n 1] by simp

lemma grow_size_ok:
  assumes "0 < unat n" "unat n * 8 < 2 ^ 63"
  shows "sk_grow_size n = Some (push_bit 1 n)" and "unat (push_bit 1 n) = unat n * 2"
    and "unat (push_bit 1 n * sizeof_ptr) = unat n * 16"
proof -
  show d: "unat (push_bit 1 n) = unat n * 2" using assms by (intro unat_double) simp
  show m: "unat (push_bit 1 n * sizeof_ptr) = unat n * 16"
    using assms unfolding sizeof_ptr_def by (simp only: unat_word_ariths d) simp
  have "unat (push_bit 1 n * sizeof_ptr div sizeof_ptr) = unat (push_bit 1 n)"
    unfolding unat_div m d by (simp add: sizeof_ptr_def)
  then have "push_bit 1 n * sizeof_ptr div sizeof_ptr = push_bit 1 n" by (simp only: word_unat_eq_iff)
  moreover have "\<not> push_bit 1 n < n" using d by (simp add: word_less_nat_alt)
  ultimately show "sk_grow_size n = Some (push_bit 1 n)" by (simp add: sk_grow_size_def Let_def)
qed

lemma realloc_ptrs_ok:
  assumes "malloc_contract malloc" "realloc_ptrs malloc old n = Some d" "unat n < 2 ^ 64 - 8" "unat n = k * 8"
  shows "length d = k" and "unat n < 2 ^ 63" and "length old \<le> k \<Longrightarrow> take (length old) d = old"
proof -
  obtain m where m: "OPENSSL_malloc malloc n = Some m" and d: "d = take (length m div 8) (old @ replicate (length m div 8 - length old) None)"
    using assms(2) by (auto simp: realloc_ptrs_def Let_def sizeof_ptr_def split: option.splits)
  have "unat (n + 8) = unat n + 8" using assms(3) by (simp add: unat_word_ariths)
  moreover obtain r where "malloc (n + 8) = Some r"
    using m by (auto simp: OPENSSL_malloc_def OPENSSL_MALLOC_PREFIX_def split: option.splits)
  then have "unat (n + 8) < 2 ^ 63" using assms(1) unfolding malloc_contract_def by blast
  ultimately have l: "length m = k * 8" and b: "unat n < 2 ^ 63" using OPENSSL_malloc_length [OF assms(1) m] assms(4) by simp_all
  show "unat n < 2 ^ 63" by (rule b)
  show "length d = k" "length old \<le> k \<Longrightarrow> take (length old) d = old" by (simp_all add: d l)
qed

section \<open>Insertion and deletion\<close>

definition list_insert :: "'b list \<Rightarrow> nat \<Rightarrow> 'b \<Rightarrow> 'b list" where
  "list_insert xs i x = take i xs @ x # drop i xs"

definition list_delete :: "'b list \<Rightarrow> nat \<Rightarrow> 'b list" where
  "list_delete xs i = take i xs @ drop (Suc i) xs"

lemma put_ptr:
  assumes "n < length d" "w < n"
  shows "take (Suc n) ((mem_move d (Suc w) w (n - w))[w := p]) = list_insert (take n d) w p"
    and "length (mem_move d (Suc w) w (n - w)) = length d"
proof -
  have u: "(take (Suc i) d)[i := p] = take i d @ [p]" if "i < length d" for i
    using that by (simp add: take_Suc_conv_app_nth list_update_append)
  have "mem_move d (Suc w) w (n - w) = take (Suc w) d @ take (n - w) (drop w d) @ drop (Suc n) d"
    using assms by (simp add: mem_move_def)
  then have "(mem_move d (Suc w) w (n - w))[w := p] = (take w d @ [p]) @ take (n - w) (drop w d) @ drop (Suc n) d"
    using u [of w] assms by (simp only: list_update_append1 length_take)
  then show "take (Suc n) ((mem_move d (Suc w) w (n - w))[w := p]) = list_insert (take n d) w p"
    using assms by (simp add: list_insert_def drop_take min_def Suc_diff_le)
  show "length (mem_move d (Suc w) w (n - w)) = length d" using assms by simp
qed

lemma put_last: "n < length d \<Longrightarrow> take (Suc n) (d[n := p]) = list_insert (take n d) n p"
  by (simp add: list_insert_def take_update_swap take_Suc_conv_app_nth list_update_append)

lemma drop_ptr:
  assumes "n \<le> length d" "w < n"
  shows "take (n - 1) (mem_move d w (Suc w) (n - w - 1)) = list_delete (take n d) w"
    and "w = n - 1 \<Longrightarrow> take (n - 1) d = list_delete (take n d) w"
proof -
  have "length (take w d @ take (n - w - 1) (drop (Suc w) d)) = n - 1" using assms by simp
  then have "take (n - 1) (mem_move d w (Suc w) (n - w - 1)) = take w d @ take (n - w - 1) (drop (Suc w) d)"
    unfolding mem_move_def append_assoc [symmetric] by (metis append_eq_conv_conj)
  then show "take (n - 1) (mem_move d w (Suc w) (n - w - 1)) = list_delete (take n d) w"
    using assms by (simp add: list_delete_def drop_take)
  show "w = n - 1 \<Longrightarrow> take (n - 1) d = list_delete (take n d) w"
    using assms by (simp add: list_delete_def)
qed

lemma sk_grown:
  assumes malloc: "malloc_contract malloc" and ok: "stack_ok sk"
    and g: "(if num_alloc sk \<le> num sk + 1 then
           (case sk_grow_size (num_alloc sk) of
              None \<Rightarrow> None
            | Some new_alloc \<Rightarrow>
                (case realloc_ptrs malloc (sdata sk) (new_alloc * sizeof_ptr) of
                   None \<Rightarrow> None
                 | Some d \<Rightarrow> Some (sk\<lparr>sdata := d, num_alloc := new_alloc\<rparr>)))
         else Some sk) = Some sk1"
  shows "stack_ok sk1 \<and> Suc (unat (num sk)) < unat (num_alloc sk1) \<and> elems sk1 = elems sk \<and> num sk1 = num sk \<and> comp sk1 = comp sk"
proof -
  have b: "length (sdata sk) = unat (num_alloc sk)" "unat (num sk) < unat (num_alloc sk)" "unat (num_alloc sk) * 8 < 2 ^ 63"
    using ok by (simp_all add: stack_ok_def)
  have n1: "unat (num sk + 1) = Suc (unat (num sk))" by (rule unat_Suc_less) (use b in \<open>simp add: word_less_nat_alt\<close>)
  show ?thesis
  proof (cases "num_alloc sk \<le> num sk + 1")
    case False
    then show ?thesis using g ok n1 by (simp add: word_le_nat_alt)
  next
    case True
    have "0 < unat (num_alloc sk)" using b(2) by simp
    note gr = grow_size_ok [OF this b(3)]
    obtain d where d: "realloc_ptrs malloc (sdata sk) (push_bit 1 (num_alloc sk) * sizeof_ptr) = Some d"
        "sk1 = sk\<lparr>sdata := d, num_alloc := push_bit 1 (num_alloc sk)\<rparr>"
      using g True gr(1) by (auto split: option.splits)
    have r: "length d = unat (num_alloc sk) * 2" "unat (num_alloc sk) * 16 < 2 ^ 63" "take (length (sdata sk)) d = sdata sk"
      using realloc_ptrs_ok [OF malloc d(1), of "unat (num_alloc sk) * 2"] gr(3) b by simp_all
    have "elems sk1 = take (unat (num sk)) (take (length (sdata sk)) d)" using b by (simp add: elems_def d(2) min_def)
    then have "elems sk1 = elems sk" unfolding r(3) by (simp add: elems_def)
    then show ?thesis using r b gr(2) by (simp add: d(2) stack_ok_def)
  qed
qed

lemma sk_insert_ok:
  assumes malloc: "malloc_contract malloc" and ok: "stack_ok sk" and i: "sk_insert malloc (Some sk) p where = (r, s)"
  shows "(r = 0 \<and> s = Some sk) \<or>
    (\<exists>sk'. s = Some sk' \<and> stack_ok sk' \<and> unat r = Suc (length (elems sk)) \<and> num sk' = r \<and>
       elems sk' = list_insert (elems sk) (min (unat where) (length (elems sk))) p \<and>
       \<not> sorted_flag sk' \<and> comp sk' = comp sk)"
proof -
  obtain grown where g: "grown = (if num_alloc sk \<le> num sk + 1 then
           (case sk_grow_size (num_alloc sk) of
              None \<Rightarrow> None
            | Some new_alloc \<Rightarrow>
                (case realloc_ptrs malloc (sdata sk) (new_alloc * sizeof_ptr) of
                   None \<Rightarrow> None
                 | Some d \<Rightarrow> Some (sk\<lparr>sdata := d, num_alloc := new_alloc\<rparr>)))
         else Some sk)" by blast
  note i = i [unfolded sk_insert.simps Let_def, folded g]
  show ?thesis
  proof (cases grown)
    case None
    then show ?thesis using i by simp
  next
    case (Some sk1)
    have sk1: "stack_ok sk1" "Suc (unat (num sk)) < unat (num_alloc sk1)" "elems sk1 = elems sk" "num sk1 = num sk" "comp sk1 = comp sk"
      using sk_grown [OF malloc ok, of sk1] g Some by simp_all
    let ?n = "unat (num sk)"
    have n: "length (sdata sk1) = unat (num_alloc sk1)" "take ?n (sdata sk1) = elems sk" "length (elems sk) = ?n"
      using sk1 ok by (simp_all add: stack_ok_def elems_def length_elems)
    have n1: "unat (num sk + 1) = Suc ?n" by (rule unat_Suc_less [of _ "num_alloc sk1"]) (use sk1(2) in \<open>simp add: word_less_nat_alt\<close>)
    define d where "d = (if where \<ge> num sk1 then (sdata sk1)[unat (num sk1) := p]
        else (mem_move (sdata sk1) (unat (where + 1)) (unat where) (unat (num sk1 - where)))[unat where := p])"
    have r: "r = num sk + 1" "s = Some (sk1\<lparr>sdata := d, num := num sk + 1, sorted_flag := False\<rparr>)"
      using i [unfolded Some option.case, folded d_def] sk1(4) by auto
    have d: "length d = length (sdata sk1) \<and> take (Suc ?n) d = list_insert (elems sk) (min (unat where) ?n) p"
    proof (cases "where \<ge> num sk")
      case True
      then have "min (unat where) ?n = ?n" by (simp add: word_le_nat_alt)
      then show ?thesis using True sk1(2,4) n put_last [of ?n "sdata sk1" p] by (simp add: d_def)
    next
      case False
      then have w: "unat where < ?n" "unat (num sk - where) = ?n - unat where" by (simp_all add: word_le_nat_alt unat_sub)
      have "unat (where + 1) = Suc (unat where)" by (rule unat_Suc_less [of _ "num sk"]) (use False in simp)
      then have "d = (mem_move (sdata sk1) (Suc (unat where)) (unat where) (?n - unat where))[unat where := p]"
        using False w(2) sk1(4) by (simp add: d_def)
      moreover have "?n < length (sdata sk1)" using sk1(2) n(1) by simp
      ultimately show ?thesis using w(1) n(2) put_ptr(1) [of ?n "sdata sk1" "unat where" p]
        put_ptr(2) [of ?n "sdata sk1" "unat where"] by (simp add: min_def)
    qed
    then show ?thesis using sk1 n n1 r by (simp add: stack_ok_def elems_def)
  qed
qed

lemma sk_delete_ok:
  assumes ok: "stack_ok sk"
  shows "\<not> unat where < length (elems sk) \<Longrightarrow> sk_delete (Some sk) where = (None, Some sk)"
    and "unat where < length (elems sk) \<Longrightarrow>
      \<exists>sk'. sk_delete (Some sk) where = (elems sk ! unat where, Some sk') \<and> stack_ok sk' \<and>
        elems sk' = list_delete (elems sk) (unat where) \<and> sorted_flag sk' = sorted_flag sk \<and> comp sk' = comp sk"
proof -
  have n: "length (elems sk) = unat (num sk)" by (rule length_elems [OF ok])
  have b: "length (sdata sk) = unat (num_alloc sk)" "unat (num sk) < unat (num_alloc sk)" "unat (num_alloc sk) * 8 < 2 ^ 63"
    using ok by (simp_all add: stack_ok_def)
  show "\<exists>sk'. sk_delete (Some sk) where = (elems sk ! unat where, Some sk') \<and> stack_ok sk' \<and>
        elems sk' = list_delete (elems sk) (unat where) \<and> sorted_flag sk' = sorted_flag sk \<and> comp sk' = comp sk"
    if w: "unat where < length (elems sk)"
  proof -
    have lt: "where < num sk" using w n by (simp add: word_less_nat_alt)
    have s: "unat (where + 1) = Suc (unat where)" by (rule unat_Suc_less [OF lt])
    have p: "unat (num sk - 1) = unat (num sk) - 1" by (rule unat_minus_one) (use lt in auto)
    have m: "unat (num sk - where - 1) = unat (num sk) - unat where - 1"
      using lt by (subst unat_minus_one) (auto simp: unat_sub)
    have e: "where = num sk - 1 \<longleftrightarrow> unat where = unat (num sk) - 1" using p by (auto simp: word_unat_eq_iff)
    define d where "d = (if where \<noteq> num sk - 1
        then mem_move (sdata sk) (unat where) (unat (where + 1)) (unat (num sk - where - 1)) else sdata sk)"
    have "\<not> num sk \<le> where" using lt by simp
    then have r: "sk_delete (Some sk) where = (sdata sk ! unat where, Some (sk\<lparr>sdata := d, num := num sk - 1\<rparr>))"
      by (simp add: d_def Let_def)
    have "take (unat (num sk) - 1) d = list_delete (take (unat (num sk)) (sdata sk)) (unat where)"
      using drop_ptr [of "unat (num sk)" "sdata sk" "unat where"] w n b e unfolding d_def s m by auto
    moreover have "length d = length (sdata sk)" using w n b unfolding d_def s m by simp
    ultimately show ?thesis using w n b p r by (simp add: stack_ok_def elems_def)
  qed
  show "\<not> unat where < length (elems sk) \<Longrightarrow> sk_delete (Some sk) where = (None, Some sk)"
  proof -
    assume "\<not> unat where < length (elems sk)"
    then have "num sk \<le> where" using n by (simp only: word_le_nat_alt not_less)
    then show ?thesis by simp
  qed
qed

section \<open>Searching\<close>

lemma find_from_spec:
  "unat n \<le> length d \<Longrightarrow> i \<le> n \<Longrightarrow> (case find_from test d i n of
      None \<Rightarrow> \<forall>j. unat i \<le> j \<and> j < unat n \<longrightarrow> \<not> test (d ! j)
    | Some k \<Rightarrow> unat i \<le> unat k \<and> unat k < unat n \<and> test (d ! unat k) \<and> (\<forall>j. unat i \<le> j \<and> j < unat k \<longrightarrow> \<not> test (d ! j)))"
proof (induction test d i n rule: find_from.induct)
  case (1 test d i n)
  show ?case
  proof (cases "i < n \<and> \<not> test (d ! unat i)")
    case True
    have s: "unat (i + 1) = Suc (unat i)" by (rule unat_Suc_less [of i n]) (use True in simp)
    have lt: "unat i < unat n" using True by (simp add: word_less_nat_alt)
    have "i + 1 \<le> n" using s lt by (simp add: word_le_nat_alt)
    note ih = 1(1) [OF _ _ 1(2) this, unfolded s]
    have f: "find_from test d i n = find_from test d (i + 1) n" using True by (subst find_from.simps) simp
    have j: "unat i \<le> j \<longleftrightarrow> j = unat i \<or> Suc (unat i) \<le> j" for j by linarith
    show ?thesis using ih True unfolding f by (auto simp: j split: option.splits)
  next
    case False
    then show ?thesis using 1(3) by (subst find_from.simps) (auto simp: word_less_nat_alt word_le_nat_alt)
  qed
qed

lemma sk_bsearch_spec:
  assumes "lo \<le> hi"
    and "\<And>i j. unat lo \<le> i \<Longrightarrow> i \<le> j \<Longrightarrow> j < unat hi \<Longrightarrow> c (d ! i) \<le> 0 \<Longrightarrow> c (d ! j) \<le> 0"
    and "\<And>i j. unat lo \<le> i \<Longrightarrow> i \<le> j \<Longrightarrow> j < unat hi \<Longrightarrow> 0 \<le> c (d ! j) \<Longrightarrow> 0 \<le> c (d ! i)"
  shows "case sk_bsearch c d lo hi of
      None \<Rightarrow> \<forall>j. unat lo \<le> j \<and> j < unat hi \<longrightarrow> c (d ! j) \<noteq> 0
    | Some k \<Rightarrow> unat lo \<le> unat k \<and> unat k < unat hi \<and> c (d ! unat k) = 0 \<and>
        (\<forall>j. unat lo \<le> j \<and> j < unat k \<longrightarrow> c (d ! j) \<noteq> 0)"
  using assms
proof (induction c d lo hi rule: sk_bsearch.induct)
  case (1 c d lo hi)
  show ?case
  proof (cases "lo < hi")
    case False
    then show ?thesis by (subst sk_bsearch.simps) (simp add: word_less_nat_alt)
  next
    case True
    let ?mid = "lo + (hi - lo - 1) div 2" and ?m = "unat lo + (unat hi - unat lo - 1) div 2"
    have m: "unat ?mid = ?m" "?m < unat hi" "unat (?mid + 1) = ?m + 1" by (rule mid_bounds [OF True])+
    have lm: "unat lo \<le> ?m" by simp
    have f: "sk_bsearch c d lo hi = (if c (d ! ?m) > 0 then sk_bsearch c d (?mid + 1) hi
        else if c (d ! ?m) < 0 then sk_bsearch c d lo ?mid
        else if hi - lo = 1 then Some ?mid else sk_bsearch c d lo (?mid + 1))"
      using True by (subst sk_bsearch.simps) (simp add: Let_def m)
    note up = "1.prems"(2) and down = "1.prems"(3)
    consider "c (d ! ?m) > 0" | "c (d ! ?m) < 0" | "c (d ! ?m) = 0" "hi - lo = 1" | "c (d ! ?m) = 0" "hi - lo \<noteq> 1" by linarith
    then show ?thesis
    proof cases
      case 1
      then have n: "\<forall>j. unat lo \<le> j \<and> j \<le> ?m \<longrightarrow> c (d ! j) \<noteq> 0" using up [OF _ _ m(2)] by fastforce
      have ih: "case sk_bsearch c d (?mid + 1) hi of
          None \<Rightarrow> \<forall>j. ?m + 1 \<le> j \<and> j < unat hi \<longrightarrow> c (d ! j) \<noteq> 0
        | Some k \<Rightarrow> ?m + 1 \<le> unat k \<and> unat k < unat hi \<and> c (d ! unat k) = 0 \<and> (\<forall>j. ?m + 1 \<le> j \<and> j < unat k \<longrightarrow> c (d ! j) \<noteq> 0)"
      proof (rule "1.IH"(1) [OF True refl refl, unfolded m])
        show "0 < c (d ! ?m)" by (rule 1)
        show "?mid + 1 \<le> hi" using m(2,3) by (simp add: word_le_nat_alt)
        show "c (d ! j) \<le> 0" if "?m + 1 \<le> i" "i \<le> j" "j < unat hi" "c (d ! i) \<le> 0" for i j
          by (rule up [of i j]) (use that lm in linarith)+
        show "0 \<le> c (d ! i)" if "?m + 1 \<le> i" "i \<le> j" "j < unat hi" "0 \<le> c (d ! j)" for i j
          by (rule down [of i j]) (use that lm in linarith)+
      qed
      have f1: "sk_bsearch c d lo hi = sk_bsearch c d (?mid + 1) hi" unfolding f using 1 by simp
      have j: "?m + 1 \<le> j" if "unat lo \<le> j" "c (d ! j) = 0" for j using n that by (metis Suc_eq_plus1 not_less_eq_eq)
      show ?thesis
      proof (cases "sk_bsearch c d (?mid + 1) hi")
        case None
        then have "\<forall>j. ?m + 1 \<le> j \<and> j < unat hi \<longrightarrow> c (d ! j) \<noteq> 0" using ih by simp
        then show ?thesis using j unfolding f1 None option.case by blast
      next
        case (Some k)
        then have k: "?m + 1 \<le> unat k" "unat k < unat hi" "c (d ! unat k) = 0" "\<forall>j. ?m + 1 \<le> j \<and> j < unat k \<longrightarrow> c (d ! j) \<noteq> 0"
          using ih by simp_all
        moreover have "unat lo \<le> unat k" using k(1) lm by linarith
        ultimately show ?thesis using j unfolding f1 Some option.case by blast
      qed
    next
      case 2
      then have n: "\<forall>j. ?m \<le> j \<and> j < unat hi \<longrightarrow> c (d ! j) \<noteq> 0" using down [OF lm] by fastforce
      have ih: "case sk_bsearch c d lo ?mid of
          None \<Rightarrow> \<forall>j. unat lo \<le> j \<and> j < ?m \<longrightarrow> c (d ! j) \<noteq> 0
        | Some k \<Rightarrow> unat lo \<le> unat k \<and> unat k < ?m \<and> c (d ! unat k) = 0 \<and> (\<forall>j. unat lo \<le> j \<and> j < unat k \<longrightarrow> c (d ! j) \<noteq> 0)"
      proof (rule "1.IH"(2) [OF True refl refl, unfolded m])
        show "\<not> 0 < c (d ! ?m)" "c (d ! ?m) < 0" using 2 by simp_all
        show "lo \<le> ?mid" using lm by (simp add: word_le_nat_alt m(1))
        show "c (d ! j) \<le> 0" if "unat lo \<le> i" "i \<le> j" "j < ?m" "c (d ! i) \<le> 0" for i j
          by (rule up [of i j]) (use that m(2) in linarith)+
        show "0 \<le> c (d ! i)" if "unat lo \<le> i" "i \<le> j" "j < ?m" "0 \<le> c (d ! j)" for i j
          by (rule down [of i j]) (use that m(2) in linarith)+
      qed
      have f1: "sk_bsearch c d lo hi = sk_bsearch c d lo ?mid" unfolding f using 2 by simp
      have j: "j < ?m" if "j < unat hi" "c (d ! j) = 0" for j using n that by (metis not_le)
      show ?thesis
      proof (cases "sk_bsearch c d lo ?mid")
        case None
        then have "\<forall>j. unat lo \<le> j \<and> j < ?m \<longrightarrow> c (d ! j) \<noteq> 0" using ih by simp
        then show ?thesis using j unfolding f1 None option.case by blast
      next
        case (Some k)
        then show ?thesis using ih m(2) unfolding f1 by simp
      qed
    next
      case 3
      have "unat (hi - lo) = unat hi - unat lo" using True by (intro unat_sub) simp
      then have "unat hi = unat lo + 1" using 3(2) m(2) by simp
      then have "?m = unat lo" by simp
      moreover have "sk_bsearch c d lo hi = Some ?mid" unfolding f using 3 by simp
      ultimately show ?thesis using 3(1) m by simp
    next
      case 4
      have ih: "case sk_bsearch c d lo (?mid + 1) of
          None \<Rightarrow> \<forall>j. unat lo \<le> j \<and> j < ?m + 1 \<longrightarrow> c (d ! j) \<noteq> 0
        | Some k \<Rightarrow> unat lo \<le> unat k \<and> unat k < ?m + 1 \<and> c (d ! unat k) = 0 \<and> (\<forall>j. unat lo \<le> j \<and> j < unat k \<longrightarrow> c (d ! j) \<noteq> 0)"
      proof (rule "1.IH"(3) [OF True refl refl, unfolded m])
        show "\<not> 0 < c (d ! ?m)" "\<not> c (d ! ?m) < 0" "hi - lo \<noteq> 1" using 4 by simp_all
        show "lo \<le> ?mid + 1" using lm by (simp add: word_le_nat_alt m(3))
        show "c (d ! j) \<le> 0" if "unat lo \<le> i" "i \<le> j" "j < ?m + 1" "c (d ! i) \<le> 0" for i j
          by (rule up [of i j]) (use that m(2) in linarith)+
        show "0 \<le> c (d ! i)" if "unat lo \<le> i" "i \<le> j" "j < ?m + 1" "0 \<le> c (d ! j)" for i j
          by (rule down [of i j]) (use that m(2) in linarith)+
      qed
      have f1: "sk_bsearch c d lo hi = sk_bsearch c d lo (?mid + 1)" unfolding f using 4 by simp
      show ?thesis
      proof (cases "sk_bsearch c d lo (?mid + 1)")
        case None
        then have "c (d ! ?m) \<noteq> 0" using ih lm by simp
        then show ?thesis using 4(1) by simp
      next
        case (Some k)
        then show ?thesis using ih m(2) unfolding f1 by simp
      qed
    qed
  qed
qed

section \<open>Comparison functions\<close>

text \<open>The contract of a \<^verbatim>\<open>stack_cmp_func\<close>: the sign is that of a total preorder.\<close>

locale comparison =
  fixes cmp :: "'b \<Rightarrow> 'b \<Rightarrow> int"
  assumes cmp_sym: "cmp b a < 0 \<longleftrightarrow> 0 < cmp a b"
    and cmp_trans: "cmp a b \<le> 0 \<Longrightarrow> cmp b c \<le> 0 \<Longrightarrow> cmp a c \<le> 0"
begin

lemma cmp_refl: "cmp a a = 0"
  using cmp_sym [of a a] by linarith

lemma cmp_zero_sym: "cmp a b = 0 \<longleftrightarrow> cmp b a = 0"
  using cmp_sym [of a b] cmp_sym [of b a] by linarith

lemma sorted_up:
  assumes "sorted_wrt (\<lambda>a b. cmp a b \<le> 0) xs" "i \<le> j" "j < length xs" "cmp p (xs ! i) \<le> 0"
  shows "cmp p (xs ! j) \<le> 0"
proof (cases "i = j")
  case False
  then have "i < j" using assms(2) by simp
  then have "cmp (xs ! i) (xs ! j) \<le> 0" by (rule sorted_wrt_nth_less [OF assms(1) _ assms(3)])
  then show ?thesis using assms(4) by (rule cmp_trans [rotated])
qed (use assms in simp)

lemma sorted_down:
  assumes "sorted_wrt (\<lambda>a b. cmp a b \<le> 0) xs" "i \<le> j" "j < length xs" "0 \<le> cmp p (xs ! j)"
  shows "0 \<le> cmp p (xs ! i)"
proof (cases "i = j")
  case False
  then have "i < j" using assms(2) by simp
  then have "cmp (xs ! i) (xs ! j) \<le> 0" by (rule sorted_wrt_nth_less [OF assms(1) _ assms(3)])
  moreover have "cmp (xs ! j) p \<le> 0" using assms(4) cmp_sym [of p "xs ! j"] by linarith
  ultimately have "cmp (xs ! i) p \<le> 0" by (rule cmp_trans)
  then show ?thesis using cmp_sym [of p "xs ! i"] by linarith
qed (use assms in simp)

end

definition sorted_ok :: "('a, 'c) cmp_caller \<Rightarrow> ('a, 'c) stack \<Rightarrow> bool" where
  "sorted_ok call sk \<longleftrightarrow>
     (sorted_flag sk \<longrightarrow> (\<exists>c. comp sk = Some c \<and> sorted_wrt (\<lambda>a b. call c a b \<le> 0) (elems sk)))"

definition matches :: "('a, 'c) cmp_caller \<Rightarrow> ('a, 'c) stack \<Rightarrow> 'a ptr \<Rightarrow> 'a ptr \<Rightarrow> bool" where
  "matches call sk p e \<longleftrightarrow> (case comp sk of None \<Rightarrow> e = p | Some c \<Rightarrow> p \<noteq> None \<and> call c p e = 0)"

lemma nth_elems: "stack_ok sk \<Longrightarrow> j < unat (num sk) \<Longrightarrow> sdata sk ! j = elems sk ! j"
  by (simp add: elems_def stack_ok_def)

lemma sk_find_ok:
  assumes ok: "stack_ok sk" and so: "sorted_ok call sk" and c: "\<And>c. comp sk = Some c \<Longrightarrow> comparison (call c)"
  shows "case sk_find call (Some sk) p of
      None \<Rightarrow> \<forall>j < length (elems sk). \<not> matches call sk p (elems sk ! j)
    | Some k \<Rightarrow> unat k < length (elems sk) \<and> matches call sk p (elems sk ! unat k) \<and>
        (\<forall>j < unat k. \<not> matches call sk p (elems sk ! j))"
proof -
  let ?n = "unat (num sk)"
  have n: "length (elems sk) = ?n" "?n \<le> length (sdata sk)" using ok by (simp_all add: length_elems stack_ok_def)
  have lin: "case find_from test (sdata sk) 0 (num sk) of None \<Rightarrow> \<forall>j < ?n. \<not> test (elems sk ! j)
      | Some k \<Rightarrow> unat k < ?n \<and> test (elems sk ! unat k) \<and> (\<forall>j < unat k. \<not> test (elems sk ! j))" for test
    using find_from_spec [OF n(2), of 0 test] nth_elems [OF ok] by (auto split: option.splits)
  show ?thesis
  proof (cases "comp sk")
    case None
    then have m: "matches call sk p = (\<lambda>e. e = p)" by (simp add: matches_def fun_eq_iff)
    show ?thesis using lin [of "\<lambda>q. q = p"] n(1) None unfolding m n(1) by simp
  next
    case (Some cf)
    have m: "matches call sk p = (\<lambda>e. p \<noteq> None \<and> call cf p e = 0)" using Some by (simp add: matches_def fun_eq_iff)
    show ?thesis
    proof (cases "p = None \<or> \<not> sorted_flag sk")
      case True
      show ?thesis
      proof (cases p)
        case (Some q)
        note True = True [unfolded Some, simplified] and False = Some and Some = \<open>comp sk = Some cf\<close>
        have m: "matches call sk p = (\<lambda>e. call cf p e = 0)" using m False by (simp add: fun_eq_iff)
        have "sk_find call (Some sk) p = find_from (\<lambda>e. call cf p e = 0) (sdata sk) 0 (num sk)" unfolding False using Some True by simp
        then show ?thesis using lin [of "\<lambda>e. call cf p e = 0"] unfolding m n(1) by simp
      qed (use Some in \<open>simp add: matches_def\<close>)
    next
      case False
      then have srt: "sorted_wrt (\<lambda>a b. call cf a b \<le> 0) (elems sk)" using so Some by (auto simp: sorted_ok_def)
      note up = comparison.sorted_up [OF c [OF Some] srt] and down = comparison.sorted_down [OF c [OF Some] srt]
      have "case sk_bsearch (call cf p) (sdata sk) 0 (num sk) of
          None \<Rightarrow> \<forall>j. unat (0 :: u64) \<le> j \<and> j < ?n \<longrightarrow> call cf p (sdata sk ! j) \<noteq> 0
        | Some k \<Rightarrow> unat (0 :: u64) \<le> unat k \<and> unat k < ?n \<and> call cf p (sdata sk ! unat k) = 0 \<and>
            (\<forall>j. unat (0 :: u64) \<le> j \<and> j < unat k \<longrightarrow> call cf p (sdata sk ! j) \<noteq> 0)"
      proof (rule sk_bsearch_spec)
        fix i j assume "i \<le> j" "j < ?n"
        then have e: "sdata sk ! i = elems sk ! i" "sdata sk ! j = elems sk ! j" "j < length (elems sk)"
          using nth_elems [OF ok] n(1) by simp_all
        show "call cf p (sdata sk ! i) \<le> 0 \<Longrightarrow> call cf p (sdata sk ! j) \<le> 0" unfolding e by (rule up [OF \<open>i \<le> j\<close> e(3)])
        show "0 \<le> call cf p (sdata sk ! j) \<Longrightarrow> 0 \<le> call cf p (sdata sk ! i)" unfolding e by (rule down [OF \<open>i \<le> j\<close> e(3)])
      qed simp
      then have b: "case sk_bsearch (call cf p) (sdata sk) 0 (num sk) of
          None \<Rightarrow> \<forall>j < ?n. call cf p (elems sk ! j) \<noteq> 0
        | Some k \<Rightarrow> unat k < ?n \<and> call cf p (elems sk ! unat k) = 0 \<and> (\<forall>j < unat k. call cf p (elems sk ! j) \<noteq> 0)"
        using nth_elems [OF ok] by (auto split: option.splits dest: order.strict_trans)
      have "sk_find call (Some sk) p = sk_bsearch (call cf p) (sdata sk) 0 (num sk)" using False Some by auto
      then show ?thesis using b False unfolding m n(1) by (cases "sk_bsearch (call cf p) (sdata sk) 0 (num sk)") simp_all
    qed
  qed
qed

definition copied :: "('a \<Rightarrow> 'a ptr) \<Rightarrow> 'a ptr \<Rightarrow> 'a ptr \<Rightarrow> bool" where
  "copied f p q \<longleftrightarrow> q = Option.bind p f \<and> (p \<noteq> None \<longrightarrow> q \<noteq> None)"

lemma deep_copy_loop_spec:
  "deep_copy_loop f acc ps = r \<Longrightarrow>
     (case r of
        Inr qs \<Rightarrow> \<exists>cs. qs = acc @ cs \<and> list_all2 (copied f) ps cs
      | Inl qs \<Rightarrow> \<exists>i cs p. i < length ps \<and> ps ! i = Some p \<and> f p = None \<and> qs = acc @ cs \<and>
          list_all2 (copied f) (take i ps) cs)"
proof (induction f acc ps arbitrary: r rule: deep_copy_loop.induct)
  case (2 f acc ps)
  then have ih: "deep_copy_loop f (acc @ [None]) ps = r" by simp
  show ?case
  proof (cases r)
    case (Inl qs)
    then obtain i cs p where "i < length ps" "ps ! i = Some p" "f p = None" "qs = acc @ None # cs"
      "list_all2 (copied f) (take i ps) cs"
      using 2(1) [OF ih] by auto
    then show ?thesis unfolding Inl sum.case
      by (intro exI [of _ "Suc i"] exI [of _ "None # cs"] exI [of _ p]) (simp add: copied_def)
  qed (use 2(1) [OF ih] in \<open>auto simp: copied_def\<close>)
next
  case (3 f acc p ps)
  show ?case
  proof (cases "f p")
    case None
    then have "r = Inl acc" using 3(2) by simp
    then show ?thesis using None by force
  next
    case (Some q)
    then have ih: "deep_copy_loop f (acc @ [Some q]) ps = r" using 3(2) by simp
    show ?thesis
    proof (cases r)
      case (Inl qs)
      then obtain i cs p' where "i < length ps" "ps ! i = Some p'" "f p' = None" "qs = acc @ Some q # cs"
        "list_all2 (copied f) (take i ps) cs"
        using 3(1) [OF Some ih] by auto
      then show ?thesis unfolding Inl sum.case using Some
        by (intro exI [of _ "Suc i"] exI [of _ "Some q # cs"] exI [of _ p']) (simp add: copied_def)
    qed (use 3(1) [OF Some ih] Some in \<open>auto simp: copied_def\<close>)
  qed
qed auto

text \<open>A copying function under which the copies compare as the originals do.\<close>

definition order_kept :: "('a, 'c) cmp_caller \<Rightarrow> ('a \<Rightarrow> 'a ptr) \<Rightarrow> bool" where
  "order_kept call copy_func \<longleftrightarrow> (\<forall>c p q p' q'. copied copy_func p p' \<longrightarrow> copied copy_func q q' \<longrightarrow> call c p q \<le> 0 \<longrightarrow> call c p' q' \<le> 0)"

lemma sorted_wrt_copied:
  assumes "list_all2 (copied f) xs ys" and "order_kept call f" and "sorted_wrt (\<lambda>a b. call c a b \<le> 0) xs"
  shows "sorted_wrt (\<lambda>a b. call c a b \<le> 0) ys"
  unfolding sorted_wrt_iff_nth_less
proof (intro allI impI)
  fix i j
  assume "i < j" "j < length ys"
  then have "call c (xs ! i) (xs ! j) \<le> 0" "copied f (xs ! i) (ys ! i)" "copied f (xs ! j) (ys ! j)"
    using assms(1,3) by (auto simp: sorted_wrt_iff_nth_less list_all2_conv_all_nth)
  then show "call c (ys ! i) (ys ! j) \<le> 0" using assms(2) unfolding order_kept_def by blast
qed

section \<open>Sequences of operations\<close>

text \<open>
  One call that changes a stack, or copies it; \<^verbatim>\<open>sk_set\<close>, and a deep copy whose copies compare otherwise than the
  originals, only where \<^verbatim>\<open>may_set\<close> says so.
\<close>

inductive sk_call ::
  "libc_malloc \<Rightarrow> (('a ptr \<Rightarrow> 'a ptr \<Rightarrow> int) \<Rightarrow> 'a ptr list \<Rightarrow> 'a ptr list) \<Rightarrow> ('a, 'c) cmp_caller \<Rightarrow> bool \<Rightarrow>
    ('a, 'c) stack \<Rightarrow> ('a, 'c) stack \<Rightarrow> bool"
  for malloc qsort call may_set
where
  insert: "sk_insert malloc (Some s) p i = (r, Some s') \<Longrightarrow> sk_call malloc qsort call may_set s s'"
| push: "sk_push malloc s p = (r, Some s') \<Longrightarrow> sk_call malloc qsort call may_set s s'"
| delete: "sk_delete (Some s) i = (p, Some s') \<Longrightarrow> sk_call malloc qsort call may_set s s'"
| delete_ptr: "sk_delete_ptr (Some s) q = (p, Some s') \<Longrightarrow> sk_call malloc qsort call may_set s s'"
| shift: "sk_shift (Some s) = (p, Some s') \<Longrightarrow> sk_call malloc qsort call may_set s s'"
| pop: "sk_pop (Some s) = (p, Some s') \<Longrightarrow> sk_call malloc qsort call may_set s s'"
| zero: "sk_zero (Some s) = Some s' \<Longrightarrow> sk_call malloc qsort call may_set s s'"
| sort: "sk_sort qsort call (Some s) = Some s' \<Longrightarrow> sk_call malloc qsort call may_set s s'"
| set_cmp: "sk_set_cmp_func s c = (old, s') \<Longrightarrow> sk_call malloc qsort call may_set s s'"
| dup: "sk_dup malloc (Some s) = Some s' \<Longrightarrow> sk_call malloc qsort call may_set s s'"
| deep_copy: "may_set \<or> order_kept call copy_func \<Longrightarrow> sk_deep_copy malloc copy_func (Some s) = (Some s', freed) \<Longrightarrow>
    sk_call malloc qsort call may_set s s'"
| set: "may_set \<Longrightarrow> sk_set (Some s) i p = (r, Some s') \<Longrightarrow> sk_call malloc qsort call may_set s s'"

definition stack_inv :: "('a, 'c) cmp_caller \<Rightarrow> bool \<Rightarrow> ('a, 'c) stack \<Rightarrow> bool" where
  "stack_inv call may_set s \<longleftrightarrow> stack_ok s \<and> (\<not> may_set \<longrightarrow> sorted_ok call s)"

lemma inv_insert:
  assumes "malloc_contract malloc" "stack_inv call may_set s" "sk_insert malloc (Some s) p i = (r, Some s')"
  shows "stack_inv call may_set s'"
  using sk_insert_ok [OF assms(1) _ assms(3)] assms(2) by (auto simp: stack_inv_def sorted_ok_def)

lemma sorted_list_delete: "sorted_wrt P xs \<Longrightarrow> sorted_wrt P (list_delete xs i)"
proof (cases "i < length xs")
  case True
  assume s: "sorted_wrt P xs"
  have "sorted_wrt P (take i xs @ xs ! i # drop (Suc i) xs)" using s id_take_nth_drop [OF True] by simp
  then show ?thesis by (simp add: list_delete_def sorted_wrt_append)
qed (simp add: list_delete_def)

lemma inv_delete:
  assumes "stack_inv call may_set s" "sk_delete (Some s) i = (p, Some s')"
  shows "stack_inv call may_set s'"
proof (cases "unat i < length (elems s)")
  case True
  then show ?thesis using sk_delete_ok(2) [of s i] assms sorted_list_delete
    by (auto simp: stack_inv_def sorted_ok_def)
next
  case False
  then show ?thesis using sk_delete_ok(1) [of s i] assms by (auto simp: stack_inv_def)
qed

lemma inv_zero: "stack_inv call may_set s \<Longrightarrow> sk_zero (Some s) = Some s' \<Longrightarrow> stack_inv call may_set s'"
  by (auto simp: stack_inv_def sorted_ok_def stack_ok_def split: if_splits)

lemma sorted_short: "length xs < 2 \<Longrightarrow> sorted_wrt P xs"
  by (cases xs) auto

lemma sk_sort_ok:
  assumes q: "\<forall>c. qsort_contract qsort (call c)" and ok: "stack_ok sk" and c: "comp sk = Some c"
    and f: "\<not> sorted_flag sk"
  obtains sk' where "sk_sort qsort call (Some sk) = Some sk'" "stack_ok sk'" "mset (elems sk') = mset (elems sk)"
    "sorted_wrt (\<lambda>a b. call c a b \<le> 0) (elems sk')" "sorted_flag sk'" "comp sk' = Some c"
proof -
  let ?n = "unat (num sk)"
  have n: "?n < length (sdata sk)" using ok by (simp add: stack_ok_def)
  define e where "e = (if num sk \<ge> 2 then qsort (call c) (elems sk) else elems sk)"
  have qs: "mset (qsort (call c) xs) = mset xs" "sorted_wrt (\<lambda>a b. call c a b \<le> 0) (qsort (call c) xs)" for xs
    using q unfolding qsort_contract_def by blast+
  have m: "mset e = mset (elems sk)" by (simp add: e_def qs)
  then have l: "length e = ?n" using length_elems [OF ok] by (metis size_mset)
  have "unat (num sk) < 2" if "\<not> num sk \<ge> 2" using that by (simp add: word_le_nat_alt)
  then have s: "sorted_wrt (\<lambda>a b. call c a b \<le> 0) e" using length_elems [OF ok] by (auto simp: e_def qs intro: sorted_short)
  have d: "(if num sk \<ge> 2 then qsort (call c) (take ?n (sdata sk)) @ drop ?n (sdata sk) else sdata sk) = e @ drop ?n (sdata sk)"
    by (simp add: e_def elems_def)
  then have r: "sk_sort qsort call (Some sk) = Some (sk\<lparr>sdata := e @ drop ?n (sdata sk), sorted_flag := True\<rparr>)"
    using c f by (simp add: Let_def)
  have el: "elems (sk\<lparr>sdata := e @ drop ?n (sdata sk), sorted_flag := True\<rparr>) = e" using l by (simp add: elems_def)
  show ?thesis by (rule that [OF r, unfolded el]) (use m s c l n ok in \<open>simp_all add: stack_ok_def\<close>)
qed

lemma inv_sort:
  assumes "\<forall>c. qsort_contract qsort (call c)" "stack_inv call may_set s" "sk_sort qsort call (Some s) = Some s'"
  shows "stack_inv call may_set s'"
proof (cases "comp s = None \<or> sorted_flag s")
  case True
  then show ?thesis using assms by (auto split: option.splits)
next
  case False
  then obtain c where c: "comp s = Some c" by (cases "comp s") simp_all
  have ok: "stack_ok s" using assms(2) by (simp add: stack_inv_def)
  from sk_sort_ok [OF assms(1) ok c] False assms(3) show ?thesis
    by (metis option.inject stack_inv_def sorted_ok_def)
qed

lemma sk_new_ok:
  assumes malloc: "malloc_contract malloc" and n: "sk_new malloc cmp = Some s"
  shows "stack_ok s" and "elems s = []" and "\<not> sorted_flag s" and "comp s = cmp"
proof -
  obtain m where m: "OPENSSL_malloc malloc (sizeof_ptr * kMinSize) = Some m"
    and s: "s = \<lparr>num = 0, sdata = replicate (length m div unat sizeof_ptr) None, sorted_flag = False, num_alloc = kMinSize, comp = cmp\<rparr>"
    using n by (auto simp: sk_new_def split: option.splits)
  have "length m = 32" using OPENSSL_malloc_length [OF malloc m] by (simp add: sizeof_ptr_def kMinSize_def)
  then show "stack_ok s" "elems s = []" "\<not> sorted_flag s" "comp s = cmp"
    by (simp_all add: s stack_ok_def elems_def sizeof_ptr_def kMinSize_def)
qed

lemma sk_dup_ok:
  assumes malloc: "malloc_contract malloc" and ok: "stack_ok s" and d: "sk_dup malloc (Some s) = Some s'"
  shows "stack_ok s'" and "elems s' = elems s" and "sorted_flag s' = sorted_flag s" and "comp s' = comp s"
proof -
  obtain ret d where n: "sk_new malloc (comp s) = Some ret" and r: "realloc_ptrs malloc (sdata ret) (sizeof_ptr * num_alloc s) = Some d"
    and s': "s' = ret\<lparr>sdata := take (unat (num s)) (sdata s) @ drop (unat (num s)) d, num := num s,
      sorted_flag := sorted_flag s, num_alloc := num_alloc s, comp := comp s\<rparr>"
    using d by (auto split: option.splits)
  have b: "length (sdata s) = unat (num_alloc s)" "unat (num s) < unat (num_alloc s)" "unat (num_alloc s) * 8 < 2 ^ 63"
    using ok by (simp_all add: stack_ok_def)
  have "unat (sizeof_ptr * num_alloc s) = unat (num_alloc s) * 8" using b by (simp add: sizeof_ptr_def unat_word_ariths)
  then have "length d = unat (num_alloc s)" using realloc_ptrs_ok(1) [OF malloc r] b by simp
  then show "stack_ok s'" "elems s' = elems s" "sorted_flag s' = sorted_flag s" "comp s' = comp s"
    using b by (simp_all add: s' stack_ok_def elems_def)
qed

lemma inv_dup:
  assumes "malloc_contract malloc" "stack_inv call may_set s" "sk_dup malloc (Some s) = Some s'"
  shows "stack_inv call may_set s'"
  using sk_dup_ok [OF assms(1) _ assms(3)] assms(2) by (auto simp: stack_inv_def sorted_ok_def)

lemma inv_push:
  assumes "malloc_contract malloc" "stack_inv call may_set s" "sk_push malloc s p = (r, Some s')"
  shows "stack_inv call may_set s'"
  using assms unfolding sk_push_def by (rule inv_insert)

lemma inv_delete_ptr:
  assumes "stack_inv call may_set s" "sk_delete_ptr (Some s) q = (p, Some s')"
  shows "stack_inv call may_set s'"
proof (cases "find_from (\<lambda>x. x = q) (sdata s) 0 (num s)")
  case (Some i)
  show ?thesis by (rule inv_delete [OF assms(1), of i p]) (use assms(2) Some in \<open>simp del: sk_delete.simps\<close>)
qed (use assms in simp)

lemma inv_shift_pop:
  assumes "stack_inv call may_set s"
  shows "sk_shift (Some s) = (p, Some s') \<Longrightarrow> stack_inv call may_set s'"
    and "sk_pop (Some s) = (p, Some s') \<Longrightarrow> stack_inv call may_set s'"
  by (cases "num s = 0"; use assms in \<open>simp del: sk_delete.simps add: inv_delete [OF assms]\<close>)+

lemma inv_set:
  assumes "stack_inv call True s" "sk_set (Some s) i p = (r, Some s')"
  shows "stack_inv call True s'"
  using assms by (auto simp: stack_inv_def stack_ok_def split: if_splits)

lemma inv_set_cmp: "stack_inv call may_set s \<Longrightarrow> sk_set_cmp_func s c = (old, s') \<Longrightarrow> stack_inv call may_set s'"
  by (cases "comp s = c") (auto simp: sk_set_cmp_func_def stack_inv_def sorted_ok_def stack_ok_def elems_def)

lemma sk_deep_copy_result:
  assumes "malloc_contract malloc" and "stack_ok s" and "sk_deep_copy malloc copy_func (Some s) = (Some t, freed)"
  shows "stack_ok t \<and> freed = [] \<and> list_all2 (copied copy_func) (elems s) (elems t) \<and> sorted_flag t = sorted_flag s \<and> comp t = comp s"
proof -
  obtain u where u: "sk_dup malloc (Some s) = Some u"
    using assms(3) by (auto simp: sk_deep_copy_def simp del: sk_dup.simps split: option.splits)
  note d = sk_dup_ok [OF assms(1,2) u]
  have e: "take (unat (num u)) (sdata u) = elems s" using d(2) by (simp add: elems_def)
  obtain qs where r: "deep_copy_loop copy_func [] (elems s) = Inr qs" "t = u\<lparr>sdata := qs @ drop (unat (num u)) (sdata u)\<rparr>" "freed = []"
    using assms(3) u e by (auto simp: sk_deep_copy_def simp del: sk_dup.simps split: sum.splits)
  have l: "list_all2 (copied copy_func) (elems s) qs" using deep_copy_loop_spec [OF r(1)] by simp
  have n: "length qs = unat (num u)" using list_all2_lengthD [OF l] length_elems [OF d(1)] d(2) by simp
  then have "elems t = qs" by (simp add: elems_def r(2))
  moreover have "stack_ok t" using d(1) n by (simp add: stack_ok_def r(2))
  ultimately show ?thesis using l r(2,3) d(3,4) by simp
qed

lemma inv_deep_copy:
  assumes "malloc_contract malloc" and "stack_inv call may_set s" and "may_set \<or> order_kept call copy_func"
    and "sk_deep_copy malloc copy_func (Some s) = (Some s', freed)"
  shows "stack_inv call may_set s'"
  using sk_deep_copy_result [OF assms(1) _ assms(4)] assms(2,3) sorted_wrt_copied
  by (fastforce simp: stack_inv_def sorted_ok_def)

lemma sk_call_inv:
  assumes malloc: "malloc_contract malloc" and q: "\<forall>c. qsort_contract qsort (call c)"
    and "sk_call malloc qsort call may_set s s'" "stack_inv call may_set s"
  shows "stack_inv call may_set s'"
  using assms(3,4)
proof (cases rule: sk_call.cases)
  case set
  then show ?thesis using inv_set [of call s] assms(4) by simp
next
  case (deep_copy copy_func freed)
  then show ?thesis using inv_deep_copy [OF malloc assms(4)] by blast
qed (blast intro: inv_insert [OF malloc] inv_push [OF malloc] inv_delete inv_delete_ptr inv_shift_pop inv_zero inv_sort [OF q]
    inv_set_cmp inv_dup [OF malloc] assms(4))+


lemma reachable_inv:
  assumes "malloc_contract malloc" "\<forall>c. qsort_contract qsort (call c)" "sk_new malloc cmp = Some s0"
    "(sk_call malloc qsort call may_set)\<^sup>*\<^sup>* s0 s"
  shows "stack_inv call may_set s"
  using assms(4)
proof (induction rule: rtranclp_induct)
  case base
  then show ?case using sk_new_ok [OF assms(1,3)] by (simp add: stack_inv_def sorted_ok_def)
qed (rule sk_call_inv [OF assms(1,2)])

text \<open>
  C15: Whatever sequence of calls is made on a stack from \<^verbatim>\<open>sk_new\<close> on, also after failed allocations,
  the array has \<^verbatim>\<open>num_alloc\<close> slots, \<^verbatim>\<open>num\<close> stays below it, and the size in bytes cannot overflow; and as
  long as \<^verbatim>\<open>sk_set\<close> is not used and deep copies compare as their originals do, a stack whose \<^verbatim>\<open>sorted\<close> flag is set is in
  ascending order.
\<close>

theorem stack_calls_keep_invariant:
  assumes "malloc_contract malloc" "\<forall>c. qsort_contract qsort (call c)" "sk_new malloc cmp = Some s0"
    "(sk_call malloc qsort call may_set)\<^sup>*\<^sup>* s0 s"
  shows "length (sdata s) = unat (num_alloc s) \<and> unat (num s) < unat (num_alloc s) \<and> unat (num_alloc s) * 8 < 2 ^ 63 \<and>
    (\<not> may_set \<and> sorted_flag s \<longrightarrow> (\<exists>c. comp s = Some c \<and> sorted_wrt (\<lambda>a b. call c a b \<le> 0) (elems s)))"
  using reachable_inv [OF assms] by (auto simp: stack_inv_def stack_ok_def sorted_ok_def)

text \<open>Pointers to numbers, compared by the numbers, NULL first.\<close>

fun ptr_key :: "nat ptr \<Rightarrow> int" where
  "ptr_key None = -1"
| "ptr_key (Some n) = int n"

definition num_call :: "(nat, unit) cmp_caller" where
  "num_call c p q = ptr_key p - ptr_key q"

definition num_qsort :: "(nat ptr \<Rightarrow> nat ptr \<Rightarrow> int) \<Rightarrow> nat ptr list \<Rightarrow> nat ptr list" where
  "num_qsort cmp xs = sort_key ptr_key xs"

lemma num_qsort_contract: "\<forall>c. qsort_contract num_qsort (num_call c)"
proof -
  have "sorted_wrt (\<lambda>a b. ptr_key a \<le> ptr_key b) (sort_key ptr_key xs)" for xs
    using sorted_sort_key [of ptr_key xs] by (simp add: sorted_wrt_map)
  then show ?thesis by (simp add: qsort_contract_def num_qsort_def num_call_def)
qed

interpretation num_cmp: comparison "num_call c"
  by unfold_locales (auto simp: num_call_def)

definition num_new :: "(nat, unit) stack" where
  "num_new = \<lparr>num = 0, sdata = replicate 4 None, sorted_flag = False, num_alloc = 4, comp = Some ()\<rparr>"

lemma num_new_eq: "sk_new example_malloc (Some ()) = Some num_new"
  by code_simp

definition num_stack :: "(nat, unit) stack" where
  "num_stack = \<lparr>num = 2, sdata = [Some 1, Some 5, None, None], sorted_flag = True, num_alloc = 4, comp = Some ()\<rparr>"

lemma num_stack_reach: "(sk_call example_malloc num_qsort num_call False)\<^sup>*\<^sup>* num_new num_stack"
proof -
  let ?s1 = "\<lparr>num = 1, sdata = [Some 5, None, None, None], sorted_flag = False, num_alloc = 4, comp = Some ()\<rparr> :: (nat, unit) stack"
  let ?s2 = "\<lparr>num = 2, sdata = [Some 5, Some 1, None, None], sorted_flag = False, num_alloc = 4, comp = Some ()\<rparr> :: (nat, unit) stack"
  let ?call = "sk_call example_malloc num_qsort num_call False"
  have "sk_push example_malloc num_new (Some 5) = (1, Some ?s1)" by code_simp
  then have 1: "?call num_new ?s1" by (rule sk_call.push)
  have "sk_insert example_malloc (Some ?s1) (Some 1) 7 = (2, Some ?s2)" by code_simp
  then have 2: "?call ?s1 ?s2" by (rule sk_call.insert)
  have "sk_sort num_qsort num_call (Some ?s2) = Some num_stack" by code_simp
  then have 3: "?call ?s2 num_stack" by (rule sk_call.sort)
  have "?call\<^sup>*\<^sup>* ?s1 num_stack" by (rule converse_rtranclp_into_rtranclp [where r = ?call, OF 2 r_into_rtranclp [where r = ?call, OF 3]])
  then show ?thesis by (rule converse_rtranclp_into_rtranclp [where r = ?call, OF 1])
qed

theorem stack_calls_keep_invariant_witness:
  "sk_new example_malloc (Some ()) = Some num_new \<and> (sk_call example_malloc num_qsort num_call False)\<^sup>*\<^sup>* num_new num_stack \<and>
    sorted_wrt (\<lambda>a b. num_call () a b \<le> 0) (elems num_stack)"
  using stack_calls_keep_invariant [OF example_malloc_contract num_qsort_contract num_new_eq num_stack_reach] num_new_eq num_stack_reach
  by (simp add: num_stack_def)

section \<open>The list operations\<close>

text \<open>
  C16: \<^verbatim>\<open>sk_insert\<close> and \<^verbatim>\<open>sk_delete\<close> implement insertion into and deletion from a list. Insertion
  past the end appends, returns the new length and clears the \<^verbatim>\<open>sorted\<close> flag, or fails and leaves the
  stack as it was; deletion returns the element, or NULL when the index is out of range.
\<close>

theorem stack_refines_list:
  assumes "malloc_contract malloc" "\<forall>c. qsort_contract qsort (call c)" "sk_new malloc cmp = Some s0"
    "(sk_call malloc qsort call may_set)\<^sup>*\<^sup>* s0 s"
  shows "(case sk_insert malloc (Some s) p i of (r, s') \<Rightarrow>
      (r = 0 \<and> s' = Some s) \<or>
      (\<exists>t. s' = Some t \<and> unat r = Suc (length (elems s)) \<and> unat (num t) = length (elems t) \<and> \<not> sorted_flag t \<and>
         elems t = list_insert (elems s) (min (unat i) (length (elems s))) p)) \<and>
    (if unat i < length (elems s)
     then \<exists>t. sk_delete (Some s) i = (elems s ! unat i, Some t) \<and> elems t = list_delete (elems s) (unat i)
     else sk_delete (Some s) i = (None, Some s))"
proof -
  have ok: "stack_ok s" using reachable_inv [OF assms] by (simp add: stack_inv_def)
  obtain r s' where i: "sk_insert malloc (Some s) p i = (r, s')" by fastforce
  show ?thesis unfolding i case_prod_conv
    using sk_insert_ok [OF assms(1) ok i] sk_delete_ok [OF ok, of i] length_elems by fastforce
qed

theorem stack_refines_list_witness:
  "sk_delete (Some num_stack) 0 = (Some 1, Some (num_stack\<lparr>sdata := [Some 5, Some 5, None, None], num := 1\<rparr>)) \<and>
    elems num_stack = [Some 1, Some 5] \<and> list_delete [Some (1 :: nat), Some 5] 0 = [Some 5]"
proof -
  have "elems num_stack = [Some 1, Some 5]" by code_simp
  then show ?thesis
    using stack_refines_list [OF example_malloc_contract num_qsort_contract num_new_eq num_stack_reach, of 0 "Some 3"]
    by (auto simp: num_stack_def list_delete_def mem_move_def)
qed

text \<open>
  \<^verbatim>\<open>sk_find\<close> returns the least index of an element that matches, by the comparison function or
  by pointer equality when there is none, and fails exactly when no element does; the binary search
  on a sorted stack and the linear search on an unsorted one agree on this. Looking for NULL with a
  comparison function always fails.
\<close>

theorem sk_find_first_match:
  assumes "malloc_contract malloc" "\<forall>c. qsort_contract qsort (call c)" "\<forall>c. comparison (call c)" "sk_new malloc cmp = Some s0"
    "(sk_call malloc qsort call False)\<^sup>*\<^sup>* s0 s"
  shows "case sk_find call (Some s) p of
      None \<Rightarrow> \<forall>j < length (elems s). \<not> matches call s p (elems s ! j)
    | Some k \<Rightarrow> unat k < length (elems s) \<and> matches call s p (elems s ! unat k) \<and>
        (\<forall>j < unat k. \<not> matches call s p (elems s ! j))"
  using reachable_inv [OF assms(1,2,4,5)] assms(3) by (intro sk_find_ok) (simp_all add: stack_inv_def)

theorem sk_find_first_match_witness:
  "sk_find num_call (Some num_stack) (Some 5) = Some 1 \<and> matches num_call num_stack (Some 5) (elems num_stack ! 1)"
proof -
  have c: "\<forall>c. comparison (num_call c)" using num_cmp.comparison_axioms by blast
  have f: "sk_find num_call (Some num_stack) (Some 5) = Some 1" by code_simp
  show ?thesis
    using sk_find_first_match [OF example_malloc_contract num_qsort_contract c num_new_eq num_stack_reach, of "Some 5"] f
    by (simp del: sk_find.simps)
qed

text \<open>
  \<^verbatim>\<open>sk_set\<close> replaces an element and leaves the \<^verbatim>\<open>sorted\<close> flag alone: on the sorted stack of 1 and 5,
  setting index 0 to 9 gives a stack that \<^verbatim>\<open>sk_is_sorted\<close> calls sorted, whose elements are not in
  ascending order, and in which \<^verbatim>\<open>sk_find\<close> does not find the 5 that is there.
\<close>

theorem sk_set_keeps_sorted_flag:
  "\<exists>s. sk_set (Some num_stack) 0 (Some 9) = (Some 9, Some s) \<and> sk_is_sorted (Some s) \<and> elems s = [Some 9, Some 5] \<and>
     \<not> sorted_wrt (\<lambda>a b. num_call () a b \<le> 0) (elems s) \<and> sk_find num_call (Some s) (Some 5) = None"
proof -
  let ?s = "num_stack\<lparr>sdata := [Some 9, Some 5, None, None]\<rparr>"
  have "sk_set (Some num_stack) 0 (Some 9) = (Some 9, Some ?s)" by code_simp
  moreover have "sk_is_sorted (Some ?s)" "elems ?s = [Some 9, Some 5]" "sk_find num_call (Some ?s) (Some 5) = None" by code_simp+
  moreover have "\<not> sorted_wrt (\<lambda>a b. num_call () a b \<le> 0) [Some 9, Some 5]" by code_simp
  ultimately show ?thesis by metis
qed


text \<open>
  C17: \<^verbatim>\<open>sk_deep_copy\<close> is all or nothing: either it returns a stack of the copies of the elements, NULL
  elements kept, and frees nothing; or it returns NULL, and when the stack itself could be duplicated
  the first element whose copy failed is at some index, and what is freed is exactly the copies of
  the elements before it.
\<close>

theorem sk_deep_copy_all_or_nothing:
  assumes "malloc_contract malloc" "\<forall>c. qsort_contract qsort (call c)" "sk_new malloc cmp = Some s0"
    "(sk_call malloc qsort call may_set)\<^sup>*\<^sup>* s0 s"
  shows "case sk_deep_copy malloc copy_func (Some s) of
      (Some t, freed) \<Rightarrow> freed = [] \<and> list_all2 (copied copy_func) (elems s) (elems t)
    | (None, freed) \<Rightarrow> (sk_dup malloc (Some s) = None \<and> freed = []) \<or>
        (\<exists>i p cs. i < length (elems s) \<and> elems s ! i = Some p \<and> copy_func p = None \<and>
           list_all2 (copied copy_func) (take i (elems s)) cs \<and> freed = List.map_filter id cs)"
proof (cases "sk_dup malloc (Some s)")
  case None
  then show ?thesis by (simp add: sk_deep_copy_def del: sk_dup.simps)
next
  case (Some t)
  have ok: "stack_ok s" using reachable_inv [OF assms] by (simp add: stack_inv_def)
  note d = sk_dup_ok [OF assms(1) ok Some]
  have e: "take (unat (num t)) (sdata t) = elems s" using d(2) by (simp add: elems_def)
  obtain r where r: "deep_copy_loop copy_func [] (elems s) = r" by blast
  note spec = deep_copy_loop_spec [OF r]
  show ?thesis
  proof (cases r)
    case (Inl qs)
    then have c: "sk_deep_copy malloc copy_func (Some s) = (None, List.map_filter id qs)"
      using Some r e by (simp add: sk_deep_copy_def del: sk_dup.simps)
    show ?thesis using spec unfolding c Inl by auto
  next
    case (Inr qs)
    then have l: "list_all2 (copied copy_func) (elems s) qs" using spec by simp
    have "length qs = unat (num t)" using list_all2_lengthD [OF l] length_elems [OF d(1)] d(2) by simp
    then have "elems (t\<lparr>sdata := qs @ drop (unat (num t)) (sdata t)\<rparr>) = qs" by (simp add: elems_def)
    moreover have c: "sk_deep_copy malloc copy_func (Some s) = (Some (t\<lparr>sdata := qs @ drop (unat (num t)) (sdata t)\<rparr>), [])"
      using Some r e Inr by (simp add: sk_deep_copy_def del: sk_dup.simps)
    ultimately show ?thesis using l by simp
  qed
qed

theorem sk_deep_copy_all_or_nothing_witness:
  "sk_deep_copy example_malloc (\<lambda>p. if p < 5 then Some (p + 10) else None) (Some num_stack) = (None, [11 :: nat]) \<and>
    (\<exists>i < 2. elems num_stack ! i = Some 5)"
proof -
  let ?f = "\<lambda>p. if p < 5 then Some (p + 10) else None :: nat option"
  have c: "sk_deep_copy example_malloc ?f (Some num_stack) = (None, [11])" by code_simp
  have d: "sk_dup example_malloc (Some num_stack) \<noteq> None" by code_simp
  have e: "elems num_stack = [Some 1, Some 5]" by code_simp
  from sk_deep_copy_all_or_nothing [OF example_malloc_contract num_qsort_contract num_new_eq num_stack_reach, of ?f]
  show ?thesis using d unfolding c e by (auto simp: less_2_cases_iff)
qed

end
