(* ===== verification/SetOf.thy ===== *)
theory SetOf
  imports Oid StackProps "HOL-Library.List_Lexorder"
begin

text \<open>
  \<^verbatim>\<open>CBB_flush_asn1_set_of\<close> of \<^verbatim>\<open>cbb.c\<close>: it sorts the elements of the object that is being written. The
  order is the lexicographic one of \<^verbatim>\<open>List_Lexorder\<close>, and the result the library's \<^verbatim>\<open>sort\<close>.
\<close>

section \<open>The comparison and the sort\<close>

lemma compare_set_of_Cons:
  "compare_set_of_element (a # as) (b # bs) = (if a < b then -1 else if a > b then 1 else compare_set_of_element as bs)"
  by (auto simp: compare_set_of_element_def CBS_len_def CBS_data_def Let_def)

lemma compare_set_of_le: "compare_set_of_element a b \<le> 0 \<longleftrightarrow> a \<le> b"
proof (induction a b rule: list_induct2')
  case (4 a as b bs)
  then show ?case by (auto simp: compare_set_of_Cons Cons_le_Cons)
qed (auto simp: compare_set_of_element_def CBS_len_def Let_def)

lemma compare_set_of_swap: "compare_set_of_element b a = - compare_set_of_element a b"
proof (induction a b rule: list_induct2')
  case (4 a as b bs)
  then show ?case by (auto simp: compare_set_of_Cons)
qed (auto simp: compare_set_of_element_def CBS_len_def Let_def)

interpretation set_of_cmp: comparison compare_set_of_element
proof
  fix a b c :: bytes
  show "compare_set_of_element b a < 0 \<longleftrightarrow> 0 < compare_set_of_element a b"
    using compare_set_of_le [of a b] compare_set_of_swap [of a b] by linarith
  show "compare_set_of_element a b \<le> 0 \<Longrightarrow> compare_set_of_element b c \<le> 0 \<Longrightarrow> compare_set_of_element a c \<le> 0"
    unfolding compare_set_of_le by (rule order_trans)
qed

lemma qsort_sort: "qsort compare_set_of_element xs = sort xs"
proof -
  have "insert_cmp compare_set_of_element = insort"
  proof (intro ext)
    fix x ys show "insert_cmp compare_set_of_element x ys = insort x ys"
      by (induction ys) (simp_all add: compare_set_of_le)
  qed
  then show ?thesis by (simp add: qsort_def sort_key_def)
qed

section \<open>Splitting into elements\<close>

definition is_element :: "bytes \<Rightarrow> bool" where
  "is_element x \<longleftrightarrow> (\<exists>t c. length c < 2 ^ 32 \<and> x = der_element t c)"

lemma is_element_length: "is_element x \<Longrightarrow> length x < 2 ^ 63"
  using length_der_header by (force simp: is_element_def der_element_def intro: le_less_trans [OF add_mono [OF length_der_header order_refl]])

lemma element_sound:
  assumes "CBS_get_any_asn1_element cbs = (Some (x, t, hl), rest)"
  shows "is_element x \<and> cbs = x @ rest"
  using any_element_sound [OF assms [unfolded CBS_get_any_asn1_element_def]] unfolding is_element_def by auto

lemma get_element: "is_element x \<Longrightarrow> \<exists>t hl. CBS_get_any_asn1_element (x @ rest) = (Some (x, t, hl), rest)"
  using any_element_der unfolding is_element_def CBS_get_any_asn1_element_def by blast

lemma count_elements_ok:
  "count_elements cbs = Some n \<Longrightarrow> \<exists>xs. length xs = n \<and> cbs = concat xs \<and> list_all is_element xs"
proof (induction cbs arbitrary: n rule: count_elements.induct)
  case (1 cbs)
  show ?case
  proof (cases "cbs = []")
    case True
    then show ?thesis using 1(2) by (simp add: count_elements.simps CBS_len_def)
  next
    case False
    obtain x t hl cbs' m where g: "CBS_get_any_asn1_element cbs = (Some (x, t, hl), cbs')" and m: "count_elements cbs' = Some m" "n = Suc m"
      using 1(2) False by (subst (asm) count_elements.simps) (auto simp: CBS_len_def split: prod.splits option.splits)
    have "CBS_len cbs \<noteq> 0" using False by (simp add: CBS_len_def)
    from 1(1) [OF this g [symmetric] refl m(1)] element_sound [OF g] m(2) show ?thesis
      by (metis length_Cons concat.simps(2) list.pred_inject(2))
  qed
qed

lemma get_elements_concat: "list_all is_element xs \<Longrightarrow> get_elements (length xs) (concat xs) = Some xs"
proof (induction xs)
  case (Cons x xs)
  then obtain t hl where "CBS_get_any_asn1_element (x @ concat xs) = (Some (x, t, hl), concat xs)"
    using get_element by fastforce
  then show ?case using Cons by simp
qed simp

section \<open>Rewinding and writing back\<close>

lemma add_children_ok:
  assumes malloc: "malloc_contract malloc"
  shows "add_children malloc d xs cbb = (True, cbb') \<Longrightarrow> list_all (\<lambda>x. length x < 2 ^ 63) xs \<Longrightarrow> represents B cbb \<Longrightarrow>
    length (snd B) = d \<Longrightarrow> represents (top_append (concat xs) B) cbb'"
proof (induction xs arbitrary: B cbb)
  case (Cons x xs)
  then obtain cbb1 where w: "CBB_add_bytes malloc d x cbb = (True, cbb1)" "add_children malloc d xs cbb1 = (True, cbb')"
    by (auto simp: and_then_True)
  have "represents (top_append x B) cbb1"
    by (rule refinesD [OF refines_add_bytes [OF malloc] Cons.prems(3) w(1)]) (use Cons.prems in \<open>auto simp: put_def close_to_closed\<close>)
  then have "represents (top_append (concat xs) (top_append x B)) cbb'" using w(2) Cons.prems by (intro Cons.IH) auto
  then show ?case by (simp add: top_append_append)
qed simp

lemma flat_top_append: "flat (fst (top_append x B)) (snd (top_append x B)) = flat (fst B) (snd B) @ x"
  "frames (fst (top_append x B)) (snd (top_append x B)) = frames (fst B) (snd B)"
  using top_append_layout [of x "fst B" "snd B"] by (cases "top_append x B"; simp)+

lemma top_append_prefix_ok:
  "(\<forall>(k, q)\<in>set (snd (top_append x B)). prefix_ok k) \<longleftrightarrow> (\<forall>(k, q)\<in>set (snd B). prefix_ok k)"
proof -
  have m: "map fst (snd (top_append x B)) = map fst (snd B)"
    using top_append_layout [of x "fst B" "snd B"] by (cases "top_append x B") simp
  have e: "(\<forall>(k, q)\<in>set ls. prefix_ok k) \<longleftrightarrow> list_all prefix_ok (map fst ls)" for ls :: "(prefix \<times> bytes) list"
    by (auto simp: list_all_iff)
  show ?thesis unfolding e m ..
qed

lemma cbb_start_push:
  assumes "represents (top_append c (push k B)) cbb" "length (snd B) = d"
  shows "cbb_start (Suc d) cbb = of_nat (length (flat (fst (push k B)) (snd (push k B))))"
proof -
  have "chain cbb = frames (fst B) (snd B @ [(k, [])])"
    using assms(1) flat_top_append(2) [of c "push k B"] by (auto simp: represents_def push_def)
  then have c: "chain cbb ! d = \<lparr>offset = of_nat (length (flat (fst B) (snd B))), pending_len_len = of_nat (plen k), pending_is_asn1 = (k = DerLength)\<rparr>"
    using assms(2) by (simp add: frames_snoc nth_append)
  have "\<forall>(k, q)\<in>set (snd (push k B)). prefix_ok k" using assms(1) by (simp only: represents_def top_append_prefix_ok) blast
  then have "prefix_ok k" by (simp add: push_def)
  then have "unat (of_nat (plen k) :: u8) = plen k" by (cases k) (auto intro!: unat_of_nat_lt)
  then have "(ucast (of_nat (plen k) :: u8) :: u64) = of_nat (plen k)" by (intro eq_of_natI) (simp add: unat_ucast_up)
  then show ?thesis by (simp add: cbb_start_def c push_def flat_snoc)
qed

lemma rewind_ok:
  assumes r: "represents (top_append c B) cbb" and s: "cbb_start d cbb = of_nat (length (flat (fst B) (snd B)))"
  shows "represents B (cbb\<lparr>base := map_option (\<lambda>b. b\<lparr>blen := cbb_start d cbb\<rparr>) (base cbb)\<rparr>)"
    and "CBB_data d cbb = c" and "unat (CBB_len d cbb) = length c"
proof -
  let ?f = "flat (fst B) (snd B)"
  obtain b where b: "base cbb = Some b" "buffer_ok b" "contents b = ?f @ c" "chain cbb = frames (fst B) (snd B)"
    using r flat_top_append [of c B] by (auto simp: represents_def)
  have l: "unat (blen b) = length ?f + length c" using contents_length [OF b(2)] b(3) by simp
  then have "length ?f < 2 ^ 63" using buffer_ok_len [OF b(2)] by simp
  then have st: "unat (cbb_start d cbb) = length ?f" unfolding s by (intro unat_of_nat_lt) simp
  then have le: "cbb_start d cbb \<le> blen b" using l by (simp add: word_le_nat_alt)
  have n: "unat (CBB_len d cbb) = length c" using st l le b(1) by (simp add: CBB_len_def unat_sub)
  then show "unat (CBB_len d cbb) = length c" .
  show "CBB_data d cbb = c"
  proof (cases "buf b")
    case None
    then show ?thesis using b(1,3) by (simp add: CBB_data_def contents_def)
  next
    case (Some m)
    have "take (length c) (drop (length ?f) m) = drop (length ?f) (take (unat (blen b)) m)"
      using l by (simp add: drop_take)
    then show ?thesis using b(1,3) Some n st by (simp add: CBB_data_def contents_def)
  qed
  have "contents (b\<lparr>blen := cbb_start d cbb\<rparr>) = take (length ?f) (contents b)"
    using l st by (auto simp: contents_def min_def split: option.splits)
  moreover have "buffer_ok (b\<lparr>blen := cbb_start d cbb\<rparr>)"
    using b(2) le by (auto simp: buffer_ok_def split: option.splits)
  ultimately show "represents B (cbb\<lparr>base := map_option (\<lambda>b. b\<lparr>blen := cbb_start d cbb\<rparr>) (base cbb)\<rparr>)"
    using b r by (auto simp: represents_def top_append_prefix_ok)
qed

lemma flush_set_of_ok:
  assumes malloc: "malloc_contract malloc" and r: "represents (top_append c B) cbb"
    and l: "length (snd B) = d" and s: "\<And>cbb. represents (top_append c B) cbb \<Longrightarrow> cbb_start d cbb = of_nat (length (flat (fst B) (snd B)))"
    and w: "CBB_flush_asn1_set_of malloc d cbb = (True, cbb')"
  shows "\<exists>xs. list_all is_element xs \<and> c = concat xs \<and> represents (top_append (concat (sort xs)) B) cbb'"
proof -
  obtain cbb1 where f: "CBB_flush malloc d cbb = (True, cbb1)" using w unfolding CBB_flush_asn1_set_of_def and_then_True by blast
  have r1: "represents (top_append c B) cbb1" by (rule flush_closed [OF malloc r _ f]) (use l in simp)
  note rw = rewind_ok [OF r1 s [OF r1]]
  obtain n where n: "count_elements c = Some n"
    using w f rw(2) by (auto simp: CBB_flush_asn1_set_of_def and_then_def split: option.splits)
  obtain xs where xs: "length xs = n" "c = concat xs" "list_all is_element xs" using count_elements_ok [OF n] by blast
  show ?thesis
  proof (cases "n < 2")
    case True
    then have "sort xs = xs" using xs(1) by (cases xs; cases "tl xs") auto
    moreover have "cbb' = cbb1" using w f rw(2) n True by (simp add: CBB_flush_asn1_set_of_def and_then_def)
    ultimately show ?thesis using xs r1 by auto
  next
    case False
    have "CBS_init bf (length c) = c" if "OPENSSL_memdup malloc c = Some bf" for bf
      using that by (auto simp: OPENSSL_memdup_def CBS_init_def split: option.splits if_splits)
    then have w': "add_children malloc d (qsort compare_set_of_element xs)
          (cbb1\<lparr>base := map_option (\<lambda>b. b\<lparr>blen := cbb_start d cbb1\<rparr>) (base cbb1)\<rparr>) = (True, cbb')"
      using w get_elements_concat [OF xs(3)] xs(1,2) n False
      by (auto simp: CBB_flush_asn1_set_of_def and_then_def f rw(2,3) split: option.splits if_splits)
    have "list_all (\<lambda>x. length x < 2 ^ 63) (sort xs)"
      using xs(3) is_element_length by (auto simp: list_all_iff)
    from add_children_ok [OF malloc w' [unfolded qsort_sort] this rw(1) l] show ?thesis using xs by blast
  qed
qed

text \<open>
  C14: A SET OF comes out sorted: what \<^verbatim>\<open>CBB_flush_asn1_set_of\<close> leaves in the child of a finished
  builder are the elements its client wrote, each one as often as it was written, in lexicographic
  order of their encodings.
\<close>

theorem set_of_sorted:
  assumes "malloc_contract malloc" and "unat n < 2 ^ 64 - 8" and "list_all wf_item is"
    and "build malloc n (and_then (CBB_add_asn1 malloc 0 t)
      (and_then (emits malloc 1 is) (CBB_flush_asn1_set_of malloc 1))) = Some out"
  shows "\<exists>xs. list_all is_element xs \<and> docs is = Some (concat xs) \<and> out = der_element t (concat (sort xs))"
proof -
  obtain cbb cbb1 cbb2 cbb3 res s where c: "CBB_init malloc n = (True, cbb)" "CBB_add_asn1 malloc 0 t cbb = (True, cbb1)"
      "emits malloc 1 is cbb1 = (True, cbb2)" "CBB_flush_asn1_set_of malloc 1 cbb2 = (True, cbb3)"
      "CBB_finish malloc 0 True cbb3 = (Some res, s)" "out = (case res of (None, _) \<Rightarrow> [] | (Some m, n) \<Rightarrow> take (unat n) m)"
    using assms(4) by (auto simp: build_def finish_with_def and_then_True split: prod.splits bool.splits option.splits)
  let ?B = "push DerLength (tag_octets t, [])"
  have B: "length (snd ?B) = 1" by (simp add: push_def)
  have r1: "represents ?B cbb1"
    by (rule refinesD [OF refines_add_asn1 [OF assms(1)] represents_init [OF assms(1,2) c(1)] c(2)]) (simp add: put_def)
  obtain d where d: "docs is = Some d" "represents (top_append d ?B) cbb2"
    by (rule emits_okD [OF emit_ok(2) [OF assms(1,3)] r1 B c(3)])
  obtain xs where xs: "list_all is_element xs" "d = concat xs" "represents (top_append (concat (sort xs)) ?B) cbb3"
    using flush_set_of_ok [OF assms(1) d(2) B _ c(4)] cbb_start_push [of d DerLength "(tag_octets t, [])" _ 0] by auto
  obtain m k where r: "res = (m, k)" by (cases res)
  have "close_to 0 (top_append (concat (sort xs)) ?B) = Some (out, [])"
    using CBB_finish_ok [OF assms(1) xs(3) c(5) [unfolded r]] c(6) r by (auto split: option.splits)
  then have "out = der_element t (concat (sort xs))"
    by (auto simp: push_def der_element_def der_header_def split: if_splits)
  then show ?thesis using xs d(1) by blast
qed

lemma set_of_sorted_witness:
  "\<exists>xs. list_all is_element xs \<and> docs [Asn1 2 [Raw [7]], Asn1 2 [Raw [3]], Asn1 1 [Raw [0]]] = Some (concat xs) \<and>
    [0x31, 9, 1, 1, 0, 2, 1, 3, 2, 1, 7] = der_element 0x20000011 (concat (sort xs))"
proof (rule set_of_sorted [where n = 1, OF example_malloc_contract])
  show "build example_malloc 1 (and_then (CBB_add_asn1 example_malloc 0 0x20000011)
      (and_then (emits example_malloc 1 [Asn1 2 [Raw [7]], Asn1 2 [Raw [3]], Asn1 1 [Raw [0]]])
        (CBB_flush_asn1_set_of example_malloc 1))) = Some [0x31, 9, 1, 1, 0, 2, 1, 3, 2, 1, 7]"
    by code_simp
qed simp_all

end
