(* ===== verification/Base64.thy ===== *)
theory Base64
  imports ConstTime
begin

text \<open>
  \<^verbatim>\<open>crypto/base64/base64.c\<close>. A function that writes through an output pointer returns the bytes it
  wrote; the NUL that the encoders put behind their output, and overwrite with what follows, is left
  out of these bytes except in \<^verbatim>\<open>EVP_EncodeBlock\<close>.
\<close>

record evp_encode_ctx =
  data_used :: u32
  ctx_data :: bytes
  eof_seen :: bool
  error_encountered :: bool

section \<open>Characters\<close>

definition constant_time_lt_args_8 :: "u8 \<Rightarrow> u8 \<Rightarrow> u8" where
  "constant_time_lt_args_8 a b = ucast (constant_time_msb_w (ucast a - ucast b))"

definition constant_time_in_range_8 :: "u8 \<Rightarrow> u8 \<Rightarrow> u8 \<Rightarrow> u8" where
  "constant_time_in_range_8 a lo hi = (let a = a - lo in constant_time_lt_args_8 a (hi - lo + 1))"

definition conv_bin2ascii :: "u8 \<Rightarrow> u8" where
  "conv_bin2ascii a =
     (let a = a AND 0x3f;
          ret = constant_time_select_8 (constant_time_eq_8 (ucast a) 62) 0x2b 0x2f;
          ret = constant_time_select_8 (constant_time_lt_args_8 a 62) (a - 52 + 0x30) ret;
          ret = constant_time_select_8 (constant_time_lt_args_8 a 52) (a - 26 + 0x61) ret
      in constant_time_select_8 (constant_time_lt_args_8 a 26) (a + 0x41) ret)"

definition base64_ascii_to_bin :: "u8 \<Rightarrow> u8" where
  "base64_ascii_to_bin a =
     (let is_upper = constant_time_in_range_8 a 0x41 0x5a;
          is_lower = constant_time_in_range_8 a 0x61 0x7a;
          is_digit = constant_time_in_range_8 a 0x30 0x39;
          is_plus = constant_time_eq_8 (ucast a) 0x2b;
          is_slash = constant_time_eq_8 (ucast a) 0x2f;
          is_equals = constant_time_eq_8 (ucast a) 0x3d;
          ret = 0xff;
          ret = constant_time_select_8 is_upper (a - 0x41) ret;
          ret = constant_time_select_8 is_lower (a - 0x61 + 26) ret;
          ret = constant_time_select_8 is_digit (a - 0x30 + 52) ret;
          ret = constant_time_select_8 is_plus 62 ret;
          ret = constant_time_select_8 is_slash 63 ret
      in constant_time_select_8 is_equals 0 ret)"

section \<open>Encoding\<close>

definition EVP_EncodedLength :: "u64 \<Rightarrow> u64 option" where
  "EVP_EncodedLength len =
     (if len + 2 < len then None
      else let len = (len + 2) div 3 in
        if drop_bit 2 (push_bit 2 len) \<noteq> len then None
        else let len = push_bit 2 len in
          if len + 1 < len then None else Some (len + 1))"

definition EVP_EncodeInit :: evp_encode_ctx where
  "EVP_EncodeInit = \<lparr>data_used = 0, ctx_data = replicate 48 0, eof_seen = False, error_encountered = False\<rparr>"

text \<open>The loop of \<^verbatim>\<open>EVP_EncodeBlock\<close>, with the count so far; the last byte written is the NUL.\<close>

fun EVP_EncodeBlock_loop :: "bytes \<Rightarrow> u64 \<Rightarrow> u64 \<times> bytes" where
  "EVP_EncodeBlock_loop [] ret = (ret, [0])"
| "EVP_EncodeBlock_loop [a] ret =
     (let l = push_bit 16 (ucast a) :: u32;
          (n, out) = EVP_EncodeBlock_loop [] (ret + 4)
      in (n, [conv_bin2ascii (ucast (drop_bit 18 l)), conv_bin2ascii (ucast (drop_bit 12 l)), 0x3d, 0x3d] @ out))"
| "EVP_EncodeBlock_loop [a, b] ret =
     (let l = push_bit 16 (ucast a) OR push_bit 8 (ucast b) :: u32;
          (n, out) = EVP_EncodeBlock_loop [] (ret + 4)
      in (n, [conv_bin2ascii (ucast (drop_bit 18 l)), conv_bin2ascii (ucast (drop_bit 12 l)),
              conv_bin2ascii (ucast (drop_bit 6 l)), 0x3d] @ out))"
| "EVP_EncodeBlock_loop (a # b # c # src) ret =
     (let l = push_bit 16 (ucast a) OR push_bit 8 (ucast b) OR ucast c :: u32;
          (n, out) = EVP_EncodeBlock_loop src (ret + 4)
      in (n, [conv_bin2ascii (ucast (drop_bit 18 l)), conv_bin2ascii (ucast (drop_bit 12 l)),
              conv_bin2ascii (ucast (drop_bit 6 l)), conv_bin2ascii (ucast l)] @ out))"

definition EVP_EncodeBlock :: "bytes \<Rightarrow> u64 \<times> bytes" where
  "EVP_EncodeBlock src = EVP_EncodeBlock_loop src 0"

definition sizeof_ctx_data :: nat where
  "sizeof_ctx_data = 48"

text \<open>
  The loop of \<^verbatim>\<open>EVP_EncodeUpdate\<close> over whole lines: \<^verbatim>\<open>Inl\<close> when the total overflows, else the rest of
  the input, the total and what was written.
\<close>

function encode_lines :: "bytes \<Rightarrow> u64 \<Rightarrow> bytes \<Rightarrow> bytes + bytes \<times> u64 \<times> bytes" where
  "encode_lines inp tot out =
     (if length inp \<ge> sizeof_ctx_data then
        let (encoded, text) = EVP_EncodeBlock (take sizeof_ctx_data inp);
            out = out @ take (unat encoded) text @ [0x0a]
        in if tot + encoded + 1 < tot then Inl out
           else encode_lines (drop sizeof_ctx_data inp) (tot + (encoded + 1)) out
      else Inr (inp, tot, out))"
  by pat_completeness auto
termination
  by (relation "measure (\<lambda>(inp, _, _). length inp)") (auto simp: sizeof_ctx_data_def)

declare encode_lines.simps [simp del]

definition INT_MAX :: u64 where
  "INT_MAX = 0x7fffffff"

text \<open>The context, \<^verbatim>\<open>*out_len\<close> and the bytes written.\<close>

definition EVP_EncodeUpdate :: "evp_encode_ctx \<Rightarrow> bytes \<Rightarrow> evp_encode_ctx \<times> u64 \<times> bytes" where
  "EVP_EncodeUpdate ctx inp =
     (let used = unat (data_used ctx); in_len = length inp in
      if in_len = 0 then (ctx, 0, [])
      else if sizeof_ctx_data - used > in_len then
        (ctx\<lparr>ctx_data := take used (ctx_data ctx) @ inp @ drop (used + in_len) (ctx_data ctx),
             data_used := data_used ctx + of_nat in_len\<rparr>, 0, [])
      else
        let (ctx1, inp1, tot, out) =
          (if data_used ctx \<noteq> 0 then
             let todo = sizeof_ctx_data - used;
                 data = take used (ctx_data ctx) @ take todo inp;
                 (encoded, text) = EVP_EncodeBlock data
             in (ctx\<lparr>ctx_data := data, data_used := 0\<rparr>, drop todo inp, encoded + 1, take (unat encoded) text @ [0x0a])
           else (ctx, inp, 0, [])) in
        case encode_lines inp1 tot out of
          Inl out \<Rightarrow> (ctx1, 0, out)
        | Inr (rest, tot, out) \<Rightarrow>
            (ctx1\<lparr>ctx_data := rest @ drop (length rest) (ctx_data ctx1), data_used := of_nat (length rest)\<rparr>,
             if tot > INT_MAX then 0 else tot, out))"

definition EVP_EncodeFinal :: "evp_encode_ctx \<Rightarrow> evp_encode_ctx \<times> u64 \<times> bytes" where
  "EVP_EncodeFinal ctx =
     (if data_used ctx = 0 then (ctx, 0, [])
      else
        let (encoded, text) = EVP_EncodeBlock (take (unat (data_used ctx)) (ctx_data ctx));
            out = take (unat encoded) text @ [0x0a]
        in (ctx\<lparr>data_used := 0\<rparr>, encoded + 1, out))"

section \<open>Decoding\<close>

definition EVP_DecodedLength :: "u64 \<Rightarrow> u64 option" where
  "EVP_DecodedLength len = (if len mod 4 \<noteq> 0 then None else Some (len div 4 * 3))"

definition EVP_DecodeInit :: evp_encode_ctx where
  "EVP_DecodeInit = \<lparr>data_used = 0, ctx_data = replicate 48 0, eof_seen = False, error_encountered = False\<rparr>"

text \<open>The up to three bytes that a quad decodes to.\<close>

definition base64_decode_quad :: "u8 \<Rightarrow> u8 \<Rightarrow> u8 \<Rightarrow> u8 \<Rightarrow> bytes option" where
  "base64_decode_quad in0 in1 in2 in3 =
     (let a = base64_ascii_to_bin in0; b = base64_ascii_to_bin in1;
          c = base64_ascii_to_bin in2; d = base64_ascii_to_bin in3 in
      if a = 0xff \<or> b = 0xff \<or> c = 0xff \<or> d = 0xff then None
      else
        let v = push_bit 18 (ucast a) OR push_bit 12 (ucast b) OR push_bit 6 (ucast c) OR ucast d :: u32;
            padding_pattern = push_bit 3 (of_bool (in0 = 0x3d)) OR push_bit 2 (of_bool (in1 = 0x3d)) OR
              push_bit 1 (of_bool (in2 = 0x3d)) OR of_bool (in3 = 0x3d) :: u32
        in
        if padding_pattern = 0 then Some [ucast (drop_bit 16 v), ucast (drop_bit 8 v), ucast v]
        else if padding_pattern = 1 then Some [ucast (drop_bit 16 v), ucast (drop_bit 8 v)]
        else if padding_pattern = 3 then Some [ucast (drop_bit 16 v)]
        else None)"

text \<open>The loop of \<^verbatim>\<open>EVP_DecodeUpdate\<close>: \<^verbatim>\<open>Inl\<close> of the context after an error, else the context, the count and the bytes.\<close>

definition is_b64_space :: "u8 \<Rightarrow> bool" where
  "is_b64_space c \<longleftrightarrow> c = 0x20 \<or> c = 0x09 \<or> c = 0x0d \<or> c = 0x0a"

fun decode_loop :: "evp_encode_ctx \<Rightarrow> bytes \<Rightarrow> u64 \<Rightarrow> bytes \<Rightarrow> evp_encode_ctx + evp_encode_ctx \<times> u64 \<times> bytes" where
  "decode_loop ctx [] bytes_out out = Inr (ctx, bytes_out, out)"
| "decode_loop ctx (c # inp) bytes_out out =
     (if is_b64_space c then decode_loop ctx inp bytes_out out
      else if eof_seen ctx then Inl (ctx\<lparr>error_encountered := True\<rparr>)
      else
        let ctx = ctx\<lparr>ctx_data := (ctx_data ctx)[unat (data_used ctx) := c], data_used := data_used ctx + 1\<rparr> in
        if data_used ctx = 4 then
          (case base64_decode_quad (ctx_data ctx ! 0) (ctx_data ctx ! 1) (ctx_data ctx ! 2) (ctx_data ctx ! 3) of
             None \<Rightarrow> Inl (ctx\<lparr>error_encountered := True\<rparr>)
           | Some bs \<Rightarrow>
               let ctx = ctx\<lparr>data_used := 0\<rparr>;
                   ctx = (if length bs < 3 then ctx\<lparr>eof_seen := True\<rparr> else ctx)
               in decode_loop ctx inp (bytes_out + of_nat (length bs)) (out @ bs))
        else decode_loop ctx inp bytes_out out)"

text \<open>The return value, the context, \<^verbatim>\<open>*out_len\<close> and the bytes written.\<close>

definition EVP_DecodeUpdate :: "evp_encode_ctx \<Rightarrow> bytes \<Rightarrow> int \<times> evp_encode_ctx \<times> u64 \<times> bytes" where
  "EVP_DecodeUpdate ctx inp =
     (if error_encountered ctx then (- 1, ctx, 0, [])
      else
        (case decode_loop ctx inp 0 [] of
           Inl ctx \<Rightarrow> (- 1, ctx, 0, [])
         | Inr (ctx, bytes_out, out) \<Rightarrow>
             if bytes_out > INT_MAX then (- 1, ctx\<lparr>error_encountered := True\<rparr>, 0, out)
             else (if eof_seen ctx then 0 else 1, ctx, bytes_out, out)))"

definition EVP_DecodeFinal :: "evp_encode_ctx \<Rightarrow> int" where
  "EVP_DecodeFinal ctx = (if error_encountered ctx \<or> data_used ctx \<noteq> 0 then - 1 else 1)"

text \<open>The loop of \<^verbatim>\<open>EVP_DecodeBase64\<close> on the quads that are left.\<close>

fun decode_quads :: "bytes \<Rightarrow> bytes option" where
  "decode_quads (a # b # c # d # inp) =
     (case base64_decode_quad a b c d of
        None \<Rightarrow> None
      | Some bs \<Rightarrow> if length bs \<noteq> 3 \<and> inp \<noteq> [] then None else map_option (\<lambda>out. bs @ out) (decode_quads inp))"
| "decode_quads inp = Some []"

definition EVP_DecodeBase64 :: "u64 \<Rightarrow> bytes \<Rightarrow> bytes option" where
  "EVP_DecodeBase64 max_out inp =
     (if length inp mod 4 \<noteq> 0 then None
      else
        (case EVP_DecodedLength (of_nat (length inp)) of
           None \<Rightarrow> None
         | Some max_len \<Rightarrow> if max_out < max_len then None else decode_quads inp))"

definition EVP_DecodeBlock :: "bytes \<Rightarrow> bytes option" where
  "EVP_DecodeBlock src =
     (let src = dropWhile (\<lambda>c. c = 0x20 \<or> c = 0x09) src;
          src = rev (dropWhile is_b64_space (rev src)) in
      case EVP_DecodedLength (of_nat (length src)) of
        None \<Rightarrow> None
      | Some dst_len \<Rightarrow>
          if dst_len > INT_MAX then None
          else map_option (\<lambda>out. out @ replicate ((3 - length out mod 3) mod 3) 0) (EVP_DecodeBase64 dst_len src))"

section \<open>What the character maps compute\<close>

lemma lt_args_8: "constant_time_lt_args_8 a b = (if a < b then - 1 else 0)"
proof -
  have u: "unat (ucast a :: u64) = unat a" for a :: u8 by (rule unat_ucast_up) simp
  have d: "unat (ucast a - ucast b :: u64) = (if unat b \<le> unat a then unat a - unat b else unat a + 2 ^ 64 - unat b)"
    using unat_sub_if' [of "ucast a :: u64" "ucast b"] by (simp add: u)
  have "(2 ^ 63 \<le> (if y \<le> x then x - y else x + 2 ^ 64 - y)) \<longleftrightarrow> x < y" if "x < 256" "y < 256" for x y :: nat
    using that by auto
  from this [OF unat_u8_lt [of a] unat_u8_lt [of b]] have "bit (ucast a - ucast b :: u64) 63 \<longleftrightarrow> unat a < unat b"
    unfolding bit63 d .
  then show ?thesis by (simp add: constant_time_lt_args_8_def msb_mask ucast_mask word_less_nat_alt)
qed

lemma eq_8: "constant_time_eq_8 (ucast a) (ucast b) = (if a = b then - 1 else 0)" for a b :: u8
proof -
  have "(ucast a :: u64) = ucast b \<longleftrightarrow> a = b" by (metis ucast_ucast_8)
  then show ?thesis by (simp add: constant_time_eq_8_def eq_w ucast_mask)
qed

lemma eq_8_num:
  fixes a :: u8
  shows "constant_time_eq_8 (ucast a) 62 = (if a = 62 then - 1 else 0)"
    and "constant_time_eq_8 (ucast a) 0x2b = (if a = 0x2b then - 1 else 0)"
    and "constant_time_eq_8 (ucast a) 0x2f = (if a = 0x2f then - 1 else 0)"
    and "constant_time_eq_8 (ucast a) 0x3d = (if a = 0x3d then - 1 else 0)"
proof -
  have "(ucast (62 :: u8) :: u64) = 62" "(ucast (0x2b :: u8) :: u64) = 0x2b" "(ucast (0x2f :: u8) :: u64) = 0x2f" "(ucast (0x3d :: u8) :: u64) = 0x3d"
    by simp_all
  then show "constant_time_eq_8 (ucast a) 62 = (if a = 62 then - 1 else 0)"
    "constant_time_eq_8 (ucast a) 0x2b = (if a = 0x2b then - 1 else 0)"
    "constant_time_eq_8 (ucast a) 0x2f = (if a = 0x2f then - 1 else 0)"
    "constant_time_eq_8 (ucast a) 0x3d = (if a = 0x3d then - 1 else 0)"
    using eq_8 by metis+
qed

lemma conv_bin2ascii_ifs:
  "conv_bin2ascii a =
     (let a = a AND 0x3f in
      if a < 26 then a + 0x41 else if a < 52 then a - 26 + 0x61 else if a < 62 then a - 52 + 0x30
      else if a = 62 then 0x2b else 0x2f)"
  unfolding conv_bin2ascii_def Let_def by (simp only: lt_args_8 eq_8_num select_8)

lemma base64_ascii_to_bin_ifs:
  "base64_ascii_to_bin a =
     (if a = 0x3d then 0 else if a = 0x2f then 63 else if a = 0x2b then 62
      else if a - 0x30 < 10 then a - 0x30 + 52 else if a - 0x61 < 26 then a - 0x61 + 26
      else if a - 0x41 < 26 then a - 0x41 else 0xff)"
  unfolding base64_ascii_to_bin_def constant_time_in_range_8_def Let_def
  by (simp only: lt_args_8 eq_8_num select_8) simp

lemma sub_8: "unat (a - b) = (if unat b \<le> unat a then unat a - unat b else unat a + 256 - unat b)" for a b :: u8
  using unat_sub_if' [of a b] by simp

lemma add_8: "unat a + unat b < 256 \<Longrightarrow> unat (a + b) = unat a + unat b" for a b :: u8
  by (simp add: unat_word_ariths)

text \<open>The alphabet of RFC 4648, by the codes of its characters.\<close>

definition alphabet :: "nat \<Rightarrow> nat" where
  "alphabet n = (if n < 26 then n + 65 else if n < 52 then n - 26 + 97 else if n < 62 then n - 52 + 48 else if n = 62 then 43 else 47)"

lemma conv_bin2ascii_unat: "unat (conv_bin2ascii a) = alphabet (unat a mod 64)"
proof -
  define b where "b = a AND 0x3f"
  have b: "unat b = unat a mod 64" using unat_and_mask [of a 6] by (simp add: b_def mask_eq_exp_minus_1)
  then have lt: "unat b < 64" by simp
  have c: "b < 26 \<longleftrightarrow> unat b < 26" "b < 52 \<longleftrightarrow> unat b < 52" "b < 62 \<longleftrightarrow> unat b < 62" "b = 62 \<longleftrightarrow> unat b = 62"
    by (simp_all add: word_less_nat_alt word_unat_eq_iff)
  have s: "unat b < 26 \<Longrightarrow> unat (b + 0x41) = unat b + 65" "26 \<le> unat b \<Longrightarrow> unat (b - 26 + 0x61) = unat b - 26 + 97"
    "52 \<le> unat b \<Longrightarrow> unat (b - 52 + 0x30) = unat b - 52 + 48"
    using lt by (simp_all add: add_8 sub_8)
  show ?thesis unfolding conv_bin2ascii_ifs b_def [symmetric] Let_def c b [symmetric] alphabet_def using s by simp
qed

definition six :: "nat \<Rightarrow> nat" where
  "six m = (if m = 61 then 0 else if m = 47 then 63 else if m = 43 then 62
      else if 48 \<le> m \<and> m < 58 then m - 48 + 52 else if 97 \<le> m \<and> m < 123 then m - 97 + 26
      else if 65 \<le> m \<and> m < 91 then m - 65 else 255)"

lemma base64_ascii_to_bin_unat: "unat (base64_ascii_to_bin a) = six (unat a)"
proof -
  have "a = 0x3d \<longleftrightarrow> unat a = 61" "a = 0x2f \<longleftrightarrow> unat a = 47" "a = 0x2b \<longleftrightarrow> unat a = 43" by (simp_all add: word_unat_eq_iff)
  moreover have "a - 0x30 < 10 \<longleftrightarrow> 48 \<le> unat a \<and> unat a < 58" "a - 0x61 < 26 \<longleftrightarrow> 97 \<le> unat a \<and> unat a < 123"
    "a - 0x41 < 26 \<longleftrightarrow> 65 \<le> unat a \<and> unat a < 91"
    using unat_u8_lt [of a] by (auto simp: word_less_nat_alt sub_8)
  moreover have "48 \<le> unat a \<Longrightarrow> unat a < 58 \<Longrightarrow> unat (a - 0x30 + 52) = unat a - 48 + 52"
    "97 \<le> unat a \<Longrightarrow> unat a < 123 \<Longrightarrow> unat (a - 0x61 + 26) = unat a - 97 + 26"
    "65 \<le> unat a \<Longrightarrow> unat (a - 0x41) = unat a - 65"
    by (simp_all add: add_8 sub_8)
  ultimately show ?thesis unfolding base64_ascii_to_bin_ifs Let_def six_def by simp
qed

lemma alphabet_cases:
  assumes "n < 64"
  obtains "n < 26" "alphabet n = n + 65" | "26 \<le> n" "n < 52" "alphabet n = n + 71"
    | "52 \<le> n" "n < 62" "alphabet n = n - 4" | "n = 62" "alphabet n = 43" | "n = 63" "alphabet n = 47"
proof -
  consider "n < 26" | "26 \<le> n" "n < 52" | "52 \<le> n" "n < 62" | "n = 62" | "n = 63" using assms by linarith
  then show ?thesis by cases (auto simp: alphabet_def that)
qed

lemma six_alphabet: "n < 64 \<Longrightarrow> six (alphabet n) = n \<and> alphabet n \<notin> {61, 32, 9, 13, 10}"
  by (erule alphabet_cases) (auto simp: six_def)

lemma alphabet_six:
  assumes "six m \<noteq> 255" "m \<noteq> 61"
  shows "six m < 64 \<and> alphabet (six m) = m"
proof -
  consider "m = 47" | "m = 43" | "48 \<le> m" "m < 58" | "97 \<le> m" "m < 123" | "65 \<le> m" "m < 91"
    using assms by (auto simp: six_def split: if_splits)
  then show ?thesis by cases (auto simp: six_def alphabet_def)
qed

lemma ascii_of_six:
  assumes "n < 64" "unat c = alphabet n"
  shows "unat (base64_ascii_to_bin c) = n \<and> c \<noteq> 0x3d \<and> \<not> is_b64_space c"
  using six_alphabet [OF assms(1)] assms(2)
  by (auto simp: base64_ascii_to_bin_unat is_b64_space_def word_unat_eq_iff)

lemma six_of_ascii:
  assumes "base64_ascii_to_bin c \<noteq> 0xff" "c \<noteq> 0x3d"
  shows "unat (base64_ascii_to_bin c) < 64 \<and> unat c = alphabet (unat (base64_ascii_to_bin c))"
  using alphabet_six [of "unat c"] assms by (simp add: word_unat_eq_iff base64_ascii_to_bin_unat)

section \<open>The encoder and its reference\<close>

text \<open>Base64 by arithmetic on the 24-bit groups.\<close>

definition b64_char :: "nat \<Rightarrow> u8" where
  "b64_char n = of_nat (alphabet (n mod 64))"

fun b64 :: "bytes \<Rightarrow> bytes" where
  "b64 [] = []"
| "b64 [a] = (let l = unat a * 65536 in [b64_char (l div 2 ^ 18), b64_char (l div 2 ^ 12), 0x3d, 0x3d])"
| "b64 [a, b] = (let l = unat a * 65536 + unat b * 256 in
     [b64_char (l div 2 ^ 18), b64_char (l div 2 ^ 12), b64_char (l div 2 ^ 6), 0x3d])"
| "b64 (a # b # c # src) = (let l = unat a * 65536 + unat b * 256 + unat c in
     [b64_char (l div 2 ^ 18), b64_char (l div 2 ^ 12), b64_char (l div 2 ^ 6), b64_char l] @ b64 src)"

lemma alphabet_lt: "n < 64 \<Longrightarrow> alphabet n < 123"
  by (erule alphabet_cases) auto

lemma unat_b64_char: "unat (b64_char n) = alphabet (n mod 64)"
proof -
  have "alphabet (n mod 64) < 123" by (rule alphabet_lt) simp
  then show ?thesis unfolding b64_char_def by (intro unat_of_nat_lt) simp
qed

lemma conv_b64_char: "conv_bin2ascii (ucast (drop_bit k l)) = b64_char (unat l div 2 ^ k)" for l :: u32
proof -
  have "unat (ucast (drop_bit k l) :: u8) = unat l div 2 ^ k mod 256" by (simp add: unat_ucast_down unat_drop_bit)
  then show ?thesis by (simp add: word_unat_eq_iff conv_bin2ascii_unat unat_b64_char mod_mod_cancel)
qed

lemma conv_b64_char_0: "conv_bin2ascii (ucast l) = b64_char (unat l)" for l :: u32
  using conv_b64_char [of 0 l] by simp

lemma l_bytes:
  fixes a b c :: u8
  shows "unat (push_bit 16 (ucast a) :: u32) = unat a * 65536"
    and "unat (push_bit 16 (ucast a) OR push_bit 8 (ucast b) :: u32) = unat a * 65536 + unat b * 256"
    and "unat (push_bit 16 (ucast a) OR push_bit 8 (ucast b) OR ucast c :: u32) = unat a * 65536 + unat b * 256 + unat c"
proof -
  note lt = unat_u8_lt [of a] unat_u8_lt [of b] unat_u8_lt [of c]
  have u: "unat (ucast x :: u32) = unat x" for x :: u8 by (rule unat_ucast_up) simp
  have ab: "unat (push_bit 8 (ucast a) OR ucast b :: u32) = unat a * 256 + unat b"
    using unat_shift_or [of "ucast a :: u32" 8 "ucast b"] lt by (simp add: u)
  have s: "push_bit 16 x = push_bit 8 (push_bit 8 x)" for x :: u32 by simp
  have j: "push_bit 16 (ucast a) OR push_bit 8 (ucast b) = (push_bit 8 (push_bit 8 (ucast a) OR ucast b) :: u32)"
    unfolding s by (simp only: push_bit_or)
  show "unat (push_bit 16 (ucast a) :: u32) = unat a * 65536"
    using unat_push_bit_lt [of "ucast a :: u32" 16] lt by (simp add: u)
  have m: "unat a * 256 + unat b < 65536"
  proof -
    have "unat a \<le> 255" by simp
    then have "unat a * 256 + unat b \<le> 255 * 256 + unat b" by (intro add_right_mono mult_right_mono) simp_all
    then show ?thesis using lt(2) by linarith
  qed
  show "unat (push_bit 16 (ucast a) OR push_bit 8 (ucast b) :: u32) = unat a * 65536 + unat b * 256"
    unfolding j using unat_push_bit_lt [of "push_bit 8 (ucast a) OR ucast b :: u32" 8] m by (simp add: ab)
  have as: "push_bit 16 (ucast a) OR push_bit 8 (ucast b) OR ucast c = (push_bit 16 (ucast a) OR push_bit 8 (ucast b)) OR (ucast c :: u32)"
    by (simp only: or.assoc)
  show "unat (push_bit 16 (ucast a) OR push_bit 8 (ucast b) OR ucast c :: u32) = unat a * 65536 + unat b * 256 + unat c"
    unfolding as j using unat_shift_or [of "push_bit 8 (ucast a) OR ucast b :: u32" 8 "ucast c"] m lt(3) by (simp add: ab u)
qed

lemma EncodeBlock_loop: "EVP_EncodeBlock_loop src ret = (ret + of_nat (length (b64 src)), b64 src @ [0])"
proof (induction src ret rule: EVP_EncodeBlock_loop.induct)
  case (4 a b c src ret)
  have ih: "EVP_EncodeBlock_loop src (ret + 4) = (ret + 4 + of_nat (length (b64 src)), b64 src @ [0])" by (rule 4) (rule refl)
  show ?case
    unfolding EVP_EncodeBlock_loop.simps b64.simps Let_def conv_b64_char ih unfolding conv_b64_char_0 l_bytes by simp
qed (unfold EVP_EncodeBlock_loop.simps b64.simps Let_def conv_b64_char l_bytes, simp_all)

lemma EncodeBlock: "EVP_EncodeBlock src = (of_nat (length (b64 src)), b64 src @ [0])"
  by (simp add: EVP_EncodeBlock_def EncodeBlock_loop)

lemma length_b64: "length (b64 src) = (length src + 2) div 3 * 4"
proof (induction src rule: b64.induct)
  case (4 a b c src)
  have "(length (a # b # c # src) + 2) div 3 = Suc ((length src + 2) div 3)"
    using div_add_self1 [of 3 "length src + 2"] by simp
  then show ?case using 4 by (simp add: Let_def)
qed (simp_all add: Let_def)

lemma b64_append: "length xs mod 3 = 0 \<Longrightarrow> b64 (xs @ ys) = b64 xs @ b64 ys"
proof (induction xs rule: b64.induct)
  case (4 a b c src)
  then show ?case by (simp add: Let_def)
qed (simp_all add: Let_def)

section \<open>Streaming encoder\<close>

text \<open>The lines of 64 characters that whole groups of 48 bytes give, and the bytes left over.\<close>

function full_lines :: "bytes \<Rightarrow> bytes" where
  "full_lines xs = (if length xs \<ge> 48 then b64 (take 48 xs) @ [0x0a] @ full_lines (drop 48 xs) else [])"
  by pat_completeness auto
termination
  by (relation "measure length") auto

declare full_lines.simps [simp del]

definition last_line :: "bytes \<Rightarrow> bytes" where
  "last_line xs = drop (48 * (length xs div 48)) xs"

definition b64_lines :: "bytes \<Rightarrow> bytes" where
  "b64_lines xs = full_lines xs @ (if last_line xs = [] then [] else b64 (last_line xs) @ [0x0a])"

lemma full_lines_short: "length xs < 48 \<Longrightarrow> full_lines xs = [] \<and> last_line xs = xs"
  by (simp add: full_lines.simps last_line_def)

lemma full_lines_step:
  assumes "length xs = 48"
  shows "full_lines (xs @ ys) = b64 xs @ [0x0a] @ full_lines ys" and "last_line (xs @ ys) = last_line ys"
proof -
  show "full_lines (xs @ ys) = b64 xs @ [0x0a] @ full_lines ys" using assms by (simp add: full_lines.simps [of "xs @ ys"])
  have "length (xs @ ys) div 48 = Suc (length ys div 48)" using assms div_add_self1 [of 48 "length ys"] by simp
  then show "last_line (xs @ ys) = last_line ys" using assms by (simp add: last_line_def)
qed

lemma length_last_line: "length (last_line xs) < 48"
  by (simp add: last_line_def)

lemma full_lines_append: "full_lines (xs @ ys) = full_lines xs @ full_lines (last_line xs @ ys) \<and>
  last_line (xs @ ys) = last_line (last_line xs @ ys)"
proof (induction xs rule: full_lines.induct)
  case (1 xs)
  show ?case
  proof (cases "length xs < 48")
    case True
    then show ?thesis using full_lines_short by simp
  next
    case False
    then have t: "length (take 48 xs) = 48" and ih: "full_lines (drop 48 xs @ ys) = full_lines (drop 48 xs) @ full_lines (last_line (drop 48 xs) @ ys)"
      "last_line (drop 48 xs @ ys) = last_line (last_line (drop 48 xs) @ ys)"
      using 1 by simp_all
    note s = full_lines_step [OF t]
    have "xs @ ys = take 48 xs @ (drop 48 xs @ ys)" by simp
    then have "full_lines (xs @ ys) = b64 (take 48 xs) @ [0x0a] @ full_lines (drop 48 xs @ ys)" "last_line (xs @ ys) = last_line (drop 48 xs @ ys)"
      using s [of "drop 48 xs @ ys"] by metis+
    moreover have "full_lines xs = b64 (take 48 xs) @ [0x0a] @ full_lines (drop 48 xs)" "last_line xs = last_line (drop 48 xs)"
      using s [of "drop 48 xs"] by simp_all
    ultimately show ?thesis using ih by simp
  qed
qed

lemma length_full_lines: "length (full_lines xs) = 65 * (length xs div 48)"
proof (induction xs rule: full_lines.induct)
  case (1 xs)
  then show ?case by (subst full_lines.simps) (auto simp: length_b64 div_if [of "length xs"])
qed

lemma encode_lines_spec:
  "unat tot + 2 * length inp < 2 ^ 64 \<Longrightarrow>
     encode_lines inp tot out = Inr (last_line inp, tot + of_nat (length (full_lines inp)), out @ full_lines inp)"
proof (induction inp arbitrary: tot out rule: measure_induct_rule [of length])
  case (less inp)
  show ?case
  proof (cases "length inp \<ge> 48")
    case False
    then show ?thesis using full_lines_short [of inp] by (simp add: encode_lines.simps sizeof_ctx_data_def)
  next
    case True
    let ?t = "take 48 inp" and ?d = "drop 48 inp"
    have l: "length (b64 ?t) = 64" using True by (simp add: length_b64)
    then have e: "EVP_EncodeBlock ?t = (64, b64 ?t @ [0])" by (simp add: EncodeBlock)
    have s: "full_lines inp = b64 ?t @ [0x0a] @ full_lines ?d" "last_line inp = last_line ?d"
      using full_lines_step [of ?t ?d] True by simp_all
    have u: "unat (tot + 65) = unat tot + 65" using less(2) True by (simp add: unat_word_ariths)
    then have no: "\<not> tot + 64 + 1 < tot" by (simp add: word_less_nat_alt add.assoc)
    have ih: "encode_lines ?d (tot + 65) (out @ b64 ?t @ [0x0a]) =
        Inr (last_line ?d, tot + 65 + of_nat (length (full_lines ?d)), (out @ b64 ?t @ [0x0a]) @ full_lines ?d)"
      by (rule less(1)) (use True less(2) u in simp_all)
    have "encode_lines inp tot out = encode_lines ?d (tot + 65) (out @ b64 ?t @ [0x0a])"
      using True no l by (subst encode_lines.simps) (simp add: sizeof_ctx_data_def e Let_def)
    then show ?thesis using ih s l by simp
  qed
qed

text \<open>The context of an encoder that has the bytes \<^verbatim>\<open>p\<close> pending.\<close>

definition encoder :: "bytes \<Rightarrow> evp_encode_ctx \<Rightarrow> bool" where
  "encoder p ctx \<longleftrightarrow> length (ctx_data ctx) = 48 \<and> length p < 48 \<and> data_used ctx = of_nat (length p) \<and>
     take (length p) (ctx_data ctx) = p"

lemma encoder_used: "encoder p ctx \<Longrightarrow> unat (data_used ctx) = length p"
  by (simp add: encoder_def unat_of_nat_lt)

lemma encoderI: "length d = 48 \<Longrightarrow> length p < 48 \<Longrightarrow> take (length p) d = p \<Longrightarrow>
  encoder p (ctx\<lparr>ctx_data := d, data_used := of_nat (length p)\<rparr>)"
  by (simp add: encoder_def)

lemma EncodeUpdate_ok:
  assumes e: "encoder p ctx" and len: "length inp < 2 ^ 62"
  obtains ctx' where "EVP_EncodeUpdate ctx inp =
      (ctx', if length (full_lines (p @ inp)) \<le> 0x7fffffff then of_nat (length (full_lines (p @ inp))) else 0, full_lines (p @ inp))"
    "encoder (last_line (p @ inp)) ctx'"
proof -
  let ?m = "of_nat (length (full_lines (p @ inp))) :: u64"
  note u = encoder_used [OF e]
  have c: "length (ctx_data ctx) = 48" "length p < 48" "take (length p) (ctx_data ctx) = p" and du: "data_used ctx = of_nat (length p)"
    using e by (simp_all add: encoder_def)
  have z: "data_used ctx = 0 \<longleftrightarrow> p = []" using u by (metis length_0_conv unat_eq_0)
  have fl: "length (full_lines (p @ inp)) < 2 ^ 64" using len c(2) by (simp add: length_full_lines)
  have m: "?m > INT_MAX \<longleftrightarrow> \<not> length (full_lines (p @ inp)) \<le> 0x7fffffff"
    using fl by (simp add: word_less_nat_alt INT_MAX_def unat_of_nat_lt not_le)
  consider (empty) "inp = []" | (short) "inp \<noteq> []" "length (p @ inp) < 48" | (long) "inp \<noteq> []" "length (p @ inp) \<ge> 48" by linarith
  then show ?thesis
  proof cases
    case empty
    then have "EVP_EncodeUpdate ctx inp = (ctx, 0, [])" by (simp add: EVP_EncodeUpdate_def)
    then show ?thesis using e full_lines_short [of p] c(2) empty by (intro that [of ctx]) simp_all
  next
    case short
    let ?d = "take (length p) (ctx_data ctx) @ inp @ drop (length p + length inp) (ctx_data ctx)"
    have a: "data_used ctx + of_nat (length inp) = of_nat (length (p @ inp))" by (simp add: du)
    have "EVP_EncodeUpdate ctx inp = (ctx\<lparr>ctx_data := ?d, data_used := data_used ctx + of_nat (length inp)\<rparr>, 0, [])"
    proof -
      have "length inp < 48 - length p" using short by simp
      then show ?thesis using short(1) by (simp add: EVP_EncodeUpdate_def Let_def u sizeof_ctx_data_def)
    qed
    note this [unfolded a]
    moreover have "encoder (p @ inp) (ctx\<lparr>ctx_data := ?d, data_used := of_nat (length (p @ inp))\<rparr>)"
      by (rule encoderI) (use c short in simp_all)
    ultimately show ?thesis using full_lines_short [of "p @ inp"] short by (intro that) simp_all
  next
    case long
    let ?todo = "48 - length p"
    define ctx1 where "ctx1 = (if p = [] then ctx else ctx\<lparr>ctx_data := p @ take ?todo inp, data_used := 0\<rparr>)"
    define inp1 where "inp1 = (if p = [] then inp else drop ?todo inp)"
    define out1 where "out1 = (if p = [] then [] else b64 (p @ take ?todo inp) @ [0x0a])"
    have l48: "length (p @ take ?todo inp) = 48" using long c(2) by simp
    have f1: "full_lines (p @ inp) = out1 @ full_lines inp1" "last_line (p @ inp) = last_line inp1"
      using full_lines_step [OF l48, of "drop ?todo inp"] by (cases "p = []"; simp add: out1_def inp1_def)+
    have lo: "length out1 = (if p = [] then 0 else 65)" using l48 length_b64 [of "p @ take ?todo inp"] by (simp add: out1_def)
    have "encode_lines inp1 (of_nat (length out1)) out1 =
        Inr (last_line inp1, of_nat (length out1) + of_nat (length (full_lines inp1)), out1 @ full_lines inp1)"
      by (rule encode_lines_spec) (use len lo in \<open>auto simp: inp1_def\<close>)
    then have el: "encode_lines inp1 (of_nat (length out1)) out1 = Inr (last_line (p @ inp), ?m, full_lines (p @ inp))"
      using f1 by simp
    have be: "EVP_EncodeBlock (p @ take ?todo inp) = (64, b64 (p @ take ?todo inp) @ [0])" "length (b64 (p @ take ?todo inp)) = 64"
      using l48 by (simp_all add: EncodeBlock length_b64)
    let ?r = "last_line (p @ inp)"
    let ?c = "ctx1\<lparr>ctx_data := ?r @ drop (length ?r) (ctx_data ctx1), data_used := of_nat (length ?r)\<rparr>"
    have tup: "(if data_used ctx \<noteq> 0 then
             let todo = sizeof_ctx_data - unat (data_used ctx);
                 data = take (unat (data_used ctx)) (ctx_data ctx) @ take todo inp;
                 (encoded, text) = EVP_EncodeBlock data
             in (ctx\<lparr>ctx_data := data, data_used := 0\<rparr>, drop todo inp, encoded + 1, take (unat encoded) text @ [0x0a])
           else (ctx, inp, 0, [])) = (ctx1, inp1, of_nat (length out1), out1)"
      unfolding z u c(3) sizeof_ctx_data_def Let_def be(1) using be(2) lo by (simp add: ctx1_def inp1_def out1_def)
    have "\<not> 48 - length p > length inp" using long by simp
    then have r: "EVP_EncodeUpdate ctx inp = (?c, if ?m > INT_MAX then 0 else ?m, full_lines (p @ inp))"
      using long(1) unfolding EVP_EncodeUpdate_def Let_def unfolding tup [unfolded Let_def] by (simp add: u sizeof_ctx_data_def el)
    have l1: "length (ctx_data ctx1) = 48" using c l48 by (simp add: ctx1_def)
    have "encoder ?r ?c" by (rule encoderI) (use l1 length_last_line [of "p @ inp"] in simp_all)
    then show ?thesis using r m by (intro that [of ?c]) simp_all
  qed
qed

text \<open>
  A client of the streaming encoder: the chunks go to \<^verbatim>\<open>EVP_EncodeUpdate\<close> one after the other, and of each buffer the
  client takes the \<^verbatim>\<open>*out_len\<close> bytes that are reported, which it must find written.
\<close>

definition taken :: "u64 \<Rightarrow> bytes \<Rightarrow> bytes option" where
  "taken out_len out = (if unat out_len \<le> length out then Some (take (unat out_len) out) else None)"

fun encode_updates :: "evp_encode_ctx \<Rightarrow> bytes list \<Rightarrow> evp_encode_ctx \<times> bytes option" where
  "encode_updates ctx [] = (ctx, Some [])"
| "encode_updates ctx (c # cs) =
     (let (ctx, out_len, out) = EVP_EncodeUpdate ctx c; (ctx, rest) = encode_updates ctx cs
      in (ctx, Option.bind (taken out_len out) (\<lambda>t. map_option ((@) t) rest)))"

definition encode_stream :: "bytes list \<Rightarrow> bytes option" where
  "encode_stream cs =
     (let (ctx, text) = encode_updates EVP_EncodeInit cs; (ctx, out_len, fin) = EVP_EncodeFinal ctx
      in Option.bind text (\<lambda>t. map_option ((@) t) (taken out_len fin)))"

lemma taken_all: "length out < 2 ^ 64 \<Longrightarrow> taken (of_nat (length out)) out = Some out"
  by (simp add: taken_def unat_of_nat_lt)

lemma encode_updates_ok:
  "encoder p ctx \<Longrightarrow> list_all (\<lambda>c. length c < 2 ^ 30) cs \<Longrightarrow>
     \<exists>ctx'. encode_updates ctx cs = (ctx', Some (full_lines (p @ concat cs))) \<and> encoder (last_line (p @ concat cs)) ctx'"
proof (induction cs arbitrary: p ctx)
  case Nil
  then have "length p < 48" by (simp add: encoder_def)
  then show ?case using Nil(1) full_lines_short [of p] by simp
next
  case (Cons c cs)
  have "length (p @ c) \<le> 48 + 2 ^ 30" using Cons.prems by (simp add: encoder_def)
  then have "length (p @ c) div 48 \<le> (48 + 2 ^ 30) div 48" by (rule div_le_mono)
  then have fit: "length (full_lines (p @ c)) \<le> 0x7fffffff" unfolding length_full_lines by simp
  have "length c < 2 ^ 62" using Cons.prems(2) by simp
  obtain ctx1 where u: "EVP_EncodeUpdate ctx c = (ctx1, of_nat (length (full_lines (p @ c))), full_lines (p @ c))"
      "encoder (last_line (p @ c)) ctx1"
    by (rule EncodeUpdate_ok [OF Cons.prems(1) \<open>length c < 2 ^ 62\<close>, unfolded if_P [OF fit]]) (rule that)
  have t: "taken (of_nat (length (full_lines (p @ c)))) (full_lines (p @ c)) = Some (full_lines (p @ c))"
    by (rule taken_all, rule le_less_trans [OF fit]) simp
  obtain ctx2 where "encode_updates ctx1 cs = (ctx2, Some (full_lines (last_line (p @ c) @ concat cs)))"
    "encoder (last_line (last_line (p @ c) @ concat cs)) ctx2"
    using Cons.IH [OF u(2)] Cons.prems(2) by auto
  then show ?case using u(1) t full_lines_append [of "p @ c" "concat cs"] by simp
qed

lemma encode_stream_lines:
  assumes "list_all (\<lambda>c. length c < 2 ^ 30) cs"
  shows "encode_stream cs = Some (b64_lines (concat cs))"
proof -
  have i: "encoder [] EVP_EncodeInit" by (simp add: encoder_def EVP_EncodeInit_def)
  obtain ctx where c: "encode_updates EVP_EncodeInit cs = (ctx, Some (full_lines (concat cs)))" "encoder (last_line (concat cs)) ctx"
    using encode_updates_ok [OF i assms] by auto
  have u: "unat (data_used ctx) = length (last_line (concat cs))" by (rule encoder_used [OF c(2)])
  then have z: "data_used ctx = 0 \<longleftrightarrow> last_line (concat cs) = []" by (metis length_0_conv unat_eq_0)
  have d: "take (unat (data_used ctx)) (ctx_data ctx) = last_line (concat cs)"
    unfolding u using c(2) by (simp add: encoder_def)
  have "length (last_line (concat cs)) < 48" by (rule length_last_line)
  then have l: "length (b64 (last_line (concat cs)) @ [0x0a]) < 2 ^ 64" "length (b64 (last_line (concat cs))) < 2 ^ 64"
    by (simp_all add: length_b64)
  have n: "of_nat (length (b64 (last_line (concat cs)))) + 1 = (of_nat (length (b64 (last_line (concat cs)) @ [0x0a])) :: u64)"
    by simp
  have "EVP_EncodeFinal ctx = (if last_line (concat cs) = [] then (ctx, 0, []) else
      (ctx\<lparr>data_used := 0\<rparr>, of_nat (length (b64 (last_line (concat cs)) @ [0x0a])), b64 (last_line (concat cs)) @ [0x0a]))"
    unfolding n [symmetric] using l(2) by (simp add: EVP_EncodeFinal_def z d EncodeBlock unat_of_nat_lt)
  moreover have "taken (0 :: u64) [] = Some []" by (simp add: taken_def)
  ultimately show ?thesis using taken_all [OF l(1)] by (simp add: encode_stream_def c(1) b64_lines_def del: length_append)
qed

lemma EncodedLength: "len + 2 < 2 ^ 63 \<Longrightarrow> EVP_EncodedLength (of_nat len) = Some (of_nat ((len + 2) div 3 * 4 + 1))"
proof -
  assume l: "len + 2 < 2 ^ 63"
  define n where "n = (len + 2) div 3"
  have n: "n * 4 + 1 < 2 ^ 64" "n < 2 ^ 62" using l by (simp_all add: n_def)
  have "unat (of_nat (len + 2) :: u64) = len + 2" using l by (intro unat_of_nat_lt) simp
  then have u: "unat (of_nat len + 2 :: u64) = len + 2" by (simp only: of_nat_add of_nat_numeral)
  have d: "(of_nat len + 2 :: u64) div 3 = of_nat n"
  proof -
    have "unat (of_nat n :: u64) = n" using n by (intro unat_of_nat_lt) simp
    then show ?thesis unfolding word_unat_eq_iff unat_div u by (simp add: n_def)
  qed
  have "\<not> (of_nat len + 2 :: u64) < of_nat len" using u l by (simp add: word_less_nat_alt unat_of_nat_lt)
  moreover have p: "unat (push_bit 2 (of_nat n :: u64)) = n * 4"
    using unat_push_bit_lt [of "of_nat n :: u64" 2] n by (simp add: unat_of_nat_lt)
  then have "drop_bit 2 (push_bit 2 (of_nat n :: u64)) = of_nat n"
    using n by (simp add: word_unat_eq_iff unat_drop_bit unat_of_nat_lt)
  moreover have e: "push_bit 2 (of_nat n :: u64) = of_nat (n * 4)" by (rule eq_of_natI [OF p])
  moreover have "\<not> (of_nat (n * 4) + 1 :: u64) < of_nat (n * 4)"
  proof -
    have "unat (of_nat (n * 4 + 1) :: u64) = n * 4 + 1" by (rule unat_of_nat_lt) (use n in simp)
    moreover have "unat (of_nat (n * 4) :: u64) = n * 4" by (rule unat_of_nat_lt) (use n in simp)
    ultimately show ?thesis by (simp only: word_less_nat_alt of_nat_add of_nat_1)
  qed
  moreover have "Suc (Suc len) div 3 = n" by (simp add: n_def)
  ultimately show ?thesis by (simp add: EVP_EncodedLength_def d del: of_nat_mult)
qed

section \<open>The decoder\<close>

lemma quad_bits:
  fixes a b c d :: u32
  assumes "unat a < 64" "unat b < 64" "unat c < 64" "unat d < 64"
  shows "unat (push_bit 18 a OR push_bit 12 b OR push_bit 6 c OR d) = ((unat a * 64 + unat b) * 64 + unat c) * 64 + unat d"
proof -
  have ab: "unat (push_bit 6 a OR b) = unat a * 64 + unat b" using unat_shift_or [of a 6 b] assms by simp
  have abc: "unat (push_bit 6 (push_bit 6 a OR b) OR c) = (unat a * 64 + unat b) * 64 + unat c"
    using unat_shift_or [of "push_bit 6 a OR b" 6 c] assms ab by simp
  have "push_bit 18 a OR push_bit 12 b OR push_bit 6 c OR d = push_bit 6 (push_bit 6 (push_bit 6 a OR b) OR c) OR d"
    by (simp add: push_bit_or or.assoc)
  then show ?thesis using unat_shift_or [of "push_bit 6 (push_bit 6 a OR b) OR c" 6 d] assms abc by simp
qed

lemma bin_lt_64: "base64_ascii_to_bin c \<noteq> 0xff \<Longrightarrow> unat (base64_ascii_to_bin c) < 64"
  using six_of_ascii [of c] by (cases "c = 0x3d") (auto simp: base64_ascii_to_bin_unat six_def)

lemma ucast_drop: "ucast (drop_bit k v) = (of_nat (unat v div 2 ^ k) :: u8)" for v :: u32
  by (simp add: word_unat_eq_iff unat_ucast_down unat_drop_bit unat_of_nat)

lemma decode_quad_value:
  assumes "base64_ascii_to_bin c0 \<noteq> 0xff" "base64_ascii_to_bin c1 \<noteq> 0xff" "base64_ascii_to_bin c2 \<noteq> 0xff" "base64_ascii_to_bin c3 \<noteq> 0xff"
    and v: "v = ((unat (base64_ascii_to_bin c0) * 64 + unat (base64_ascii_to_bin c1)) * 64 + unat (base64_ascii_to_bin c2)) * 64 +
      unat (base64_ascii_to_bin c3)"
  shows "base64_decode_quad c0 c1 c2 c3 =
     (if c0 \<noteq> 0x3d \<and> c1 \<noteq> 0x3d \<and> c2 \<noteq> 0x3d \<and> c3 \<noteq> 0x3d then Some [of_nat (v div 65536), of_nat (v div 256), of_nat v]
      else if c0 \<noteq> 0x3d \<and> c1 \<noteq> 0x3d \<and> c2 \<noteq> 0x3d then Some [of_nat (v div 65536), of_nat (v div 256)]
      else if c0 \<noteq> 0x3d \<and> c1 \<noteq> 0x3d \<and> c3 = 0x3d then Some [of_nat (v div 65536)]
      else None)"
proof -
  have u: "unat (ucast x :: u32) = unat x" for x :: u8 by (rule unat_ucast_up) simp
  define w :: u32 where "w = push_bit 18 (ucast (base64_ascii_to_bin c0)) OR push_bit 12 (ucast (base64_ascii_to_bin c1)) OR
    push_bit 6 (ucast (base64_ascii_to_bin c2)) OR ucast (base64_ascii_to_bin c3)"
  have "unat w = v" unfolding w_def v
    by (subst quad_bits) (simp_all only: u bin_lt_64 assms(1-4) not_False_eq_True)
  then have b: "ucast (drop_bit 16 w) = (of_nat (v div 65536) :: u8)" "ucast (drop_bit 8 w) = (of_nat (v div 256) :: u8)"
    "ucast w = (of_nat v :: u8)"
    using ucast_drop [of 16 w] ucast_drop [of 8 w] ucast_drop [of 0 w] by simp_all
  show ?thesis
    using assms(1-4) unfolding base64_decode_quad_def Let_def w_def [symmetric] b
    by (cases "c0 = 0x3d"; cases "c1 = 0x3d"; cases "c2 = 0x3d"; cases "c3 = 0x3d") simp_all
qed

text \<open>One group through the encoder and back.\<close>

lemma unat_b64_bin: "unat (base64_ascii_to_bin (b64_char n)) = n mod 64" "b64_char n \<noteq> 0x3d" "\<not> is_b64_space (b64_char n)"
  "base64_ascii_to_bin (b64_char n) \<noteq> 0xff"
proof -
  show "unat (base64_ascii_to_bin (b64_char n)) = n mod 64" "b64_char n \<noteq> 0x3d" "\<not> is_b64_space (b64_char n)"
    using ascii_of_six [of "n mod 64" "b64_char n"] by (simp_all add: unat_b64_char)
  then show "base64_ascii_to_bin (b64_char n) \<noteq> 0xff" by (auto simp: word_unat_eq_iff)
qed

lemma bin_equals: "base64_ascii_to_bin 0x3d = 0"
  by (simp add: base64_ascii_to_bin_ifs)

lemma bin_equals_ok: "base64_ascii_to_bin 0x3d \<noteq> 0xff" "\<not> is_b64_space 0x3d"
  by (simp_all add: bin_equals is_b64_space_def)

lemma six_bits:
  assumes "l < 16777216"
  shows "((l div 262144 mod 64 * 64 + l div 4096 mod 64) * 64 + l div 64 mod 64) * 64 + l mod 64 = (l :: nat)"
proof -
  have "l div 262144 mod 64 = l div 262144" using assms by simp
  moreover have "l div 4096 = l div 262144 * 64 + l div 4096 mod 64" using div_mult_mod_eq [of "l div 4096" 64] div_mult2_eq [of l 4096 64] by simp
  moreover have "l div 64 = l div 4096 * 64 + l div 64 mod 64" using div_mult_mod_eq [of "l div 64" 64] div_mult2_eq [of l 64 64] by simp
  ultimately show ?thesis using div_mult_mod_eq [of l 64] by simp
qed

lemma quad_round_trip:
  assumes l: "l < 16777216"
  shows "base64_decode_quad (b64_char (l div 262144)) (b64_char (l div 4096)) (b64_char (l div 64)) (b64_char l) =
     Some [of_nat (l div 65536), of_nat (l div 256), of_nat l]" (is ?full)
    and "l mod 64 = 0 \<Longrightarrow> base64_decode_quad (b64_char (l div 262144)) (b64_char (l div 4096)) (b64_char (l div 64)) 0x3d =
     Some [of_nat (l div 65536), of_nat (l div 256)]" (is "_ \<Longrightarrow> ?two")
    and "l mod 4096 = 0 \<Longrightarrow> base64_decode_quad (b64_char (l div 262144)) (b64_char (l div 4096)) 0x3d 0x3d =
     Some [of_nat (l div 65536)]" (is "_ \<Longrightarrow> ?one")
proof -
  note b = unat_b64_bin(4) and six = six_bits [OF l]
  show ?full
  proof -
    have "l = ((unat (base64_ascii_to_bin (b64_char (l div 262144))) * 64 + unat (base64_ascii_to_bin (b64_char (l div 4096)))) * 64 +
        unat (base64_ascii_to_bin (b64_char (l div 64)))) * 64 + unat (base64_ascii_to_bin (b64_char l))"
      using six unfolding unat_b64_bin(1) by (rule sym)
    from decode_quad_value [OF b b b b this] show ?thesis by (simp add: unat_b64_bin(2))
  qed
  show ?two if m: "l mod 64 = 0"
  proof -
    have "l = ((unat (base64_ascii_to_bin (b64_char (l div 262144))) * 64 + unat (base64_ascii_to_bin (b64_char (l div 4096)))) * 64 +
        unat (base64_ascii_to_bin (b64_char (l div 64)))) * 64 + unat (base64_ascii_to_bin 0x3d)"
      using six unfolding unat_b64_bin(1) bin_equals unat_0 m by (rule sym)
    from decode_quad_value [OF b b b bin_equals_ok(1) this] show ?thesis by (simp add: unat_b64_bin(2))
  qed
  show ?one if m: "l mod 4096 = 0"
  proof -
    have m': "l mod 64 = 0" "l div 64 mod 64 = 0" using m mod_mult2_eq [of l 64 64] by simp_all
    have "l = ((unat (base64_ascii_to_bin (b64_char (l div 262144))) * 64 + unat (base64_ascii_to_bin (b64_char (l div 4096)))) * 64 +
        unat (base64_ascii_to_bin 0x3d)) * 64 + unat (base64_ascii_to_bin 0x3d)"
      using six unfolding unat_b64_bin(1) bin_equals unat_0 m' by (rule sym)
    from decode_quad_value [OF b b bin_equals_ok(1) bin_equals_ok(1) this] show ?thesis by (simp add: unat_b64_bin(2))
  qed
qed

lemma group_bytes:
  fixes a b c :: u8
  defines "l \<equiv> unat a * 65536 + unat b * 256 + unat c"
  shows "l < 16777216" and "of_nat (l div 65536) = a" and "of_nat (l div 256) = b" and "of_nat l = c"
proof -
  have lt: "unat a \<le> 255" "unat b \<le> 255" "unat c \<le> 255" by simp_all
  show "l < 16777216" using lt unfolding l_def by linarith
  have d: "l div 65536 = unat a" "l div 256 = unat a * 256 + unat b"
    using div_mult_self3 [of 65536 "unat a" "unat b * 256 + unat c"] div_mult_self3 [of 256 "unat a * 256 + unat b" "unat c"] lt
    unfolding l_def by (simp_all add: algebra_simps)
  show "of_nat (l div 65536) = a" by (simp add: d)
  have m: "(x * 256 + y) mod 256 = y mod 256" for x y :: nat by simp
  show "of_nat (l div 256) = b" unfolding word_unat_eq_iff d unat_of_nat using m [of "unat a" "unat b"] by simp
  have "l = (unat a * 256 + unat b) * 256 + unat c" by (simp add: l_def)
  then show "of_nat l = c" unfolding word_unat_eq_iff unat_of_nat using m [of "unat a * 256 + unat b" "unat c"] by simp
qed

lemma decode_quads_b64: "decode_quads (b64 src) = Some src"
proof (induction src rule: b64.induct)
  case (2 a)
  note g = group_bytes [of a 0 0]
  have "unat a * 65536 mod 4096 = 0" by simp
  then show ?case using g quad_round_trip(3) [of "unat a * 65536"] by (simp add: Let_def)
next
  case (3 a b)
  note g = group_bytes [of a b 0]
  have "(unat a * 65536 + unat b * 256) mod 64 = 0" by simp
  then show ?case using g quad_round_trip(2) [of "unat a * 65536 + unat b * 256"] by (simp add: Let_def)
next
  case (4 a b c src)
  note g = group_bytes [of a b c]
  have "decode_quads (b64 src) = Some src" by (rule 4) (rule refl)
  then show ?case using g quad_round_trip(1) [of "unat a * 65536 + unat b * 256 + unat c"] by (simp add: Let_def)
qed simp

lemma b64_not_space: "filter (\<lambda>c. \<not> is_b64_space c) (b64 src) = b64 src"
proof (induction src rule: b64.induct)
  case (4 a b c src)
  then show ?case by (simp add: Let_def unat_b64_bin)
qed (simp_all add: Let_def unat_b64_bin bin_equals_ok)

section \<open>Streaming decoder\<close>

abbreviation no_space :: "bytes \<Rightarrow> bytes" where
  "no_space \<equiv> filter (\<lambda>c. \<not> is_b64_space c)"

lemma decode_loop_no_space: "decode_loop ctx inp n out = decode_loop ctx (no_space inp) n out"
  by (induction ctx inp n out rule: decode_loop.induct) (auto simp: Let_def split: option.splits)

lemma decode_loop_append:
  "decode_loop ctx (s @ t) n out =
     (case decode_loop ctx s n out of Inl ctx \<Rightarrow> Inl ctx | Inr (ctx, n, out) \<Rightarrow> decode_loop ctx t n out)"
  by (induction ctx s n out rule: decode_loop.induct) (auto simp: Let_def split: option.splits)

lemma decode_loop_out:
  "decode_loop ctx s (n + k) (out @ o1) =
     (case decode_loop ctx s k o1 of Inl ctx \<Rightarrow> Inl ctx | Inr (ctx, m, o') \<Rightarrow> Inr (ctx, n + m, out @ o'))"
  by (induction ctx s k o1 rule: decode_loop.induct) (auto simp: Let_def add.assoc split: option.splits)

text \<open>The context of a decoder that has \<^verbatim>\<open>k\<close> characters of a group.\<close>

definition decoder :: "bytes \<Rightarrow> evp_encode_ctx \<Rightarrow> bool" where
  "decoder q ctx \<longleftrightarrow> length (ctx_data ctx) = 48 \<and> length q < 4 \<and> data_used ctx = of_nat (length q) \<and>
     take (length q) (ctx_data ctx) = q \<and> \<not> error_encountered ctx"

lemma decode_loop_char:
  assumes d: "decoder q ctx" and c: "\<not> is_b64_space c" and e: "\<not> eof_seen ctx" and q: "length q < 3"
  obtains ctx' where "decode_loop ctx (c # s) n out = decode_loop ctx' s n out" "decoder (q @ [c]) ctx'" "\<not> eof_seen ctx'"
proof -
  let ?c = "ctx\<lparr>ctx_data := (ctx_data ctx)[length q := c], data_used := data_used ctx + 1\<rparr>"
  have u: "unat (data_used ctx) = length q" "data_used ctx = of_nat (length q)"
    using d by (auto simp: decoder_def intro: unat_of_nat_lt)
  have v: "data_used ctx + 1 = of_nat (length (q @ [c]))" using u(2) by simp
  have "unat (of_nat (length (q @ [c])) :: u32) = length (q @ [c])" by (rule unat_of_nat_lt) (use q in simp)
  then have "data_used ctx + 1 \<noteq> 4" using q unfolding v word_unat_eq_iff by simp
  then have "decode_loop ctx (c # s) n out = decode_loop ?c s n out" using c e by (simp add: u(1))
  moreover have "take (Suc (length q)) ((ctx_data ctx)[length q := c]) = q @ [c]"
    using d by (simp add: decoder_def take_Suc_conv_app_nth)
  then have "decoder (q @ [c]) ?c" using d q v by (simp add: decoder_def)
  ultimately show ?thesis by (rule that [of ?c]) (use e in simp)
qed

lemma decode_loop_last:
  assumes d: "decoder [c0, c1, c2] ctx" and c: "\<not> is_b64_space c3" and e: "\<not> eof_seen ctx"
  shows "case base64_decode_quad c0 c1 c2 c3 of
      None \<Rightarrow> \<exists>ctx'. decode_loop ctx (c3 # s) n out = Inl ctx'
    | Some bs \<Rightarrow> \<exists>ctx'. decode_loop ctx (c3 # s) n out = decode_loop ctx' s (n + of_nat (length bs)) (out @ bs) \<and>
        decoder [] ctx' \<and> (eof_seen ctx' \<longleftrightarrow> length bs < 3)"
proof -
  have u: "unat (data_used ctx) = 3" "data_used ctx + 1 = 4" using d by (simp_all add: decoder_def)
  have l: "length (ctx_data ctx) = 48" and t: "take 3 (ctx_data ctx) = [c0, c1, c2]" and ne: "\<not> error_encountered ctx"
    using d by (simp_all add: decoder_def numeral_3_eq_3)
  have n: "ctx_data ctx ! i = [c0, c1, c2] ! i" if "i < 3" for i using that t by (metis nth_take)
  have "(ctx_data ctx)[3 := c3] ! 0 = c0" "(ctx_data ctx)[3 := c3] ! 1 = c1" "(ctx_data ctx)[3 := c3] ! 2 = c2" "(ctx_data ctx)[3 := c3] ! 3 = c3"
    using n [of 0] n [of 1] n [of 2] l by simp_all
  then show ?thesis using c e u l ne by (cases "base64_decode_quad c0 c1 c2 c3") (auto simp: Let_def decoder_def)
qed

text \<open>A group of four characters at a time.\<close>

lemma decode_loop_quad:
  assumes d: "decoder [] ctx" and e: "\<not> eof_seen ctx" and c: "\<forall>c\<in>{c0, c1, c2, c3}. \<not> is_b64_space c"
  shows "case base64_decode_quad c0 c1 c2 c3 of
      None \<Rightarrow> \<exists>ctx'. decode_loop ctx (c0 # c1 # c2 # c3 # s) n out = Inl ctx'
    | Some bs \<Rightarrow> \<exists>ctx'. decode_loop ctx (c0 # c1 # c2 # c3 # s) n out = decode_loop ctx' s (n + of_nat (length bs)) (out @ bs) \<and>
        decoder [] ctx' \<and> (eof_seen ctx' \<longleftrightarrow> length bs < 3)"
proof -
  obtain ctx1 where 1: "decode_loop ctx (c0 # c1 # c2 # c3 # s) n out = decode_loop ctx1 (c1 # c2 # c3 # s) n out" "decoder [c0] ctx1" "\<not> eof_seen ctx1"
    by (rule decode_loop_char [OF d _ e, of c0 "c1 # c2 # c3 # s" n out]) (use c in auto)
  obtain ctx2 where 2: "decode_loop ctx1 (c1 # c2 # c3 # s) n out = decode_loop ctx2 (c2 # c3 # s) n out" "decoder [c0, c1] ctx2" "\<not> eof_seen ctx2"
    by (rule decode_loop_char [OF 1(2) _ 1(3), of c1 "c2 # c3 # s" n out]) (use c in auto)
  obtain ctx3 where 3: "decode_loop ctx2 (c2 # c3 # s) n out = decode_loop ctx3 (c3 # s) n out" "decoder [c0, c1, c2] ctx3" "\<not> eof_seen ctx3"
    by (rule decode_loop_char [OF 2(2) _ 2(3), of c2 "c3 # s" n out]) (use c in auto)
  have "\<not> is_b64_space c3" using c by simp
  from decode_loop_last [OF 3(2) this 3(3), of s n out] show ?thesis unfolding 1(1) 2(1) 3(1) .
qed

lemma decode_quad_length: "base64_decode_quad c0 c1 c2 c3 = Some bs \<Longrightarrow> length bs \<le> 3"
  by (auto simp: base64_decode_quad_def Let_def split: if_splits)

lemma decode_loop_eof: "eof_seen ctx \<Longrightarrow> \<not> is_b64_space c \<Longrightarrow> decode_loop ctx (c # s) n out = Inl (ctx\<lparr>error_encountered := True\<rparr>)"
  by simp

lemma decode_loop_quads:
  assumes "decoder [] ctx" "\<not> eof_seen ctx" "\<forall>c\<in>set t. \<not> is_b64_space c" "length t mod 4 = 0"
  shows "case decode_quads t of
      None \<Rightarrow> \<exists>ctx'. decode_loop ctx t n out = Inl ctx'
    | Some bs \<Rightarrow> \<exists>ctx'. decode_loop ctx t n out = Inr (ctx', n + of_nat (length bs), out @ bs) \<and> decoder [] ctx'"
  using assms
proof (induction t arbitrary: ctx n out rule: decode_quads.induct)
  case (1 a b c d inp)
  have sp: "\<forall>x\<in>{a, b, c, d}. \<not> is_b64_space x" "\<forall>x\<in>set inp. \<not> is_b64_space x" and len: "length inp mod 4 = 0"
    using 1(4,5) by simp_all
  note q = decode_loop_quad [OF 1(2,3) sp(1), of inp n out]
  show ?case
  proof (cases "base64_decode_quad a b c d")
    case None
    then show ?thesis using q by simp
  next
    case (Some bs)
    obtain ctx' where l: "decode_loop ctx (a # b # c # d # inp) n out = decode_loop ctx' inp (n + of_nat (length bs)) (out @ bs)"
      "decoder [] ctx'" "eof_seen ctx' \<longleftrightarrow> length bs < 3"
      using q unfolding Some option.case by blast
    consider "inp = []" | c' s where "inp = c' # s" "length bs \<noteq> 3" | "inp \<noteq> []" "length bs = 3" by (cases inp) auto
    then show ?thesis
    proof cases
      case 1
      then show ?thesis using l Some by (simp del: decode_loop.simps(2))
    next
      case 2
      then have "eof_seen ctx'" using l(3) decode_quad_length [OF Some] by simp
      moreover have "\<not> is_b64_space c'" using sp(2) 2 by simp
      ultimately have "decode_loop ctx' inp (n + of_nat (length bs)) (out @ bs) = Inl (ctx'\<lparr>error_encountered := True\<rparr>)"
        unfolding 2(1) by (rule decode_loop_eof)
      then have "decode_loop ctx (a # b # c # d # inp) n out = Inl (ctx'\<lparr>error_encountered := True\<rparr>)"
        unfolding l(1) .
      moreover have "decode_quads (a # b # c # d # inp) = None" using Some 2 by simp
      ultimately show ?thesis by simp
    next
      case 3
      then have ne: "\<not> (length bs \<noteq> 3 \<and> inp \<noteq> [])" and eof: "\<not> eof_seen ctx'" using l(3) by simp_all
      note ih = 1(1) [OF Some ne l(2) eof sp(2) len, of "n + of_nat (length bs)" "out @ bs"]
      show ?thesis
      proof (cases "decode_quads inp")
        case None
        then show ?thesis using ih Some 3 unfolding l(1) by simp
      next
        case (Some rs)
        then show ?thesis using ih \<open>base64_decode_quad a b c d = Some bs\<close> 3 unfolding l(1) by (simp add: add.assoc)
      qed
    qed
  qed
qed simp_all

lemma decode_loop_inv:
  assumes "decoder q ctx" "decode_loop ctx s n out = Inr (ctx', m, o')"
  shows "\<exists>q' b. decoder q' ctx' \<and> o' = out @ b \<and> m = n + of_nat (length b) \<and>
    4 * length b + 3 * length q' \<le> 3 * (length q + length s) \<and> length q' = (length q + length (no_space s)) mod 4"
  using assms
proof (induction s arbitrary: q ctx n out)
  case Nil
  then show ?case by (auto simp: decoder_def)
next
  case (Cons c s)
  show ?case
  proof (cases "is_b64_space c")
    case True
    then have "decode_loop ctx s n out = Inr (ctx', m, o')" using Cons.prems(2) by simp
    from Cons.IH [OF Cons.prems(1) this] True show ?thesis by fastforce
  next
    case sp: False
    have e: "\<not> eof_seen ctx" using Cons.prems(2) decode_loop_eof [of ctx c s n out] sp by (cases "eof_seen ctx") simp_all
    show ?thesis
    proof (cases "length q < 3")
      case True
      obtain ctx1 where l: "decode_loop ctx (c # s) n out = decode_loop ctx1 s n out" "decoder (q @ [c]) ctx1"
        by (rule decode_loop_char [OF Cons.prems(1) sp e True])
      have "decode_loop ctx1 s n out = Inr (ctx', m, o')" using Cons.prems(2) l(1) by (simp del: decode_loop.simps)
      from Cons.IH [OF l(2) this] sp show ?thesis by simp
    next
      case False
      then have "length q = 3" using Cons.prems(1) by (simp add: decoder_def)
      then obtain c0 c1 c2 where q: "q = [c0, c1, c2]" by (auto simp: numeral_3_eq_3 length_Suc_conv)
      note l = decode_loop_last [OF Cons.prems(1) [unfolded q] sp e, of s n out]
      show ?thesis
      proof (cases "base64_decode_quad c0 c1 c2 c")
        case None
        then show ?thesis using l Cons.prems(2) by (auto simp del: decode_loop.simps)
      next
        case (Some bs)
        then obtain ctx1 where l: "decode_loop ctx (c # s) n out = decode_loop ctx1 s (n + of_nat (length bs)) (out @ bs)" "decoder [] ctx1"
          using l by auto
        have "decode_loop ctx1 s (n + of_nat (length bs)) (out @ bs) = Inr (ctx', m, o')"
          using Cons.prems(2) l(1) by (simp del: decode_loop.simps)
        then obtain q' b where b: "decoder q' ctx'" "o' = (out @ bs) @ b" "m = n + of_nat (length bs) + of_nat (length b)"
          "4 * length b + 3 * length q' \<le> 3 * length s" "length q' = length (no_space s) mod 4"
          using Cons.IH [OF l(2)] by fastforce
        have "(4 + k) mod 4 = k mod 4" for k :: nat by simp
        from this [of "length (no_space s)"] have "(length q + length (no_space (c # s))) mod 4 = length (no_space s) mod 4" using q sp by simp
        then show ?thesis using b decode_quad_length [OF Some] q
          by (intro exI [of _ q'] exI [of _ "bs @ b"]) (simp add: add.assoc)
      qed
    qed
  qed
qed

text \<open>A client of the streaming decoder.\<close>

fun decode_updates :: "evp_encode_ctx \<Rightarrow> bytes list \<Rightarrow> (evp_encode_ctx \<times> bytes) option" where
  "decode_updates ctx [] = Some (ctx, [])"
| "decode_updates ctx (c # cs) =
     (let (r, ctx, n, out) = EVP_DecodeUpdate ctx c in
      if r < 0 then None else map_option (\<lambda>(ctx, rest). (ctx, take (unat n) out @ rest)) (decode_updates ctx cs))"

definition decode_stream :: "bytes list \<Rightarrow> bytes option" where
  "decode_stream cs =
     (case decode_updates EVP_DecodeInit cs of
        None \<Rightarrow> None
      | Some (ctx, out) \<Rightarrow> if EVP_DecodeFinal ctx = 1 then Some out else None)"

lemma DecodeUpdate_loop:
  assumes d: "decoder q ctx" and len: "length c \<le> 0x7fffffff"
  shows "case decode_loop ctx c 0 [] of
      Inl _ \<Rightarrow> fst (EVP_DecodeUpdate ctx c) = - 1
    | Inr (ctx', m, out) \<Rightarrow> EVP_DecodeUpdate ctx c = (if eof_seen ctx' then 0 else 1, ctx', of_nat (length out), out) \<and>
        length out < 2 ^ 64 \<and> (\<exists>q'. decoder q' ctx')"
proof (cases "decode_loop ctx c 0 []")
  case (Inl ctx')
  then show ?thesis using d by (simp add: EVP_DecodeUpdate_def decoder_def)
next
  case (Inr r)
  obtain ctx' m out where r: "r = (ctx', m, out)" by (cases r) auto
  obtain q' b where b: "decoder q' ctx'" "out = b" "m = of_nat (length b)" "4 * length b + 3 * length q' \<le> 3 * (length q + length c)"
    using decode_loop_inv [OF d Inr [unfolded r]] by auto
  have "length q < 4" using d by (simp add: decoder_def)
  have "x \<le> 0x7fffffff" if "y < 4" "z \<le> 0x7fffffff" "4 * x + 3 * w \<le> 3 * (y + z)" for x y z w :: nat
    using that by arith
  from this [OF \<open>length q < 4\<close> len b(4)] have lb: "length b \<le> 0x7fffffff" .
  then have "unat m = length b" unfolding b(3) by (intro unat_of_nat_lt) simp
  then have "\<not> m > INT_MAX" using lb by (simp add: word_less_nat_alt INT_MAX_def)
  then show ?thesis using d Inr r b lb by (auto simp: EVP_DecodeUpdate_def decoder_def)
qed

lemma decode_updates_loop:
  "decoder q ctx \<Longrightarrow> list_all (\<lambda>c. length c \<le> 0x7fffffff) cs \<Longrightarrow>
     decode_updates ctx cs = (case decode_loop ctx (concat cs) 0 [] of Inl _ \<Rightarrow> None | Inr (ctx', _, out) \<Rightarrow> Some (ctx', out))"
proof (induction cs arbitrary: q ctx)
  case (Cons c cs)
  have len: "length c \<le> 0x7fffffff" using Cons.prems(2) by simp
  note u = DecodeUpdate_loop [OF Cons.prems(1) len]
  show ?case
  proof (cases "decode_loop ctx c 0 []")
    case (Inl ctx')
    then show ?thesis using u by (auto simp: decode_loop_append split: prod.splits)
  next
    case (Inr r)
    obtain ctx1 m out where r: "r = (ctx1, m, out)" by (cases r) auto
    have e: "EVP_DecodeUpdate ctx c = (if eof_seen ctx1 then 0 else 1, ctx1, of_nat (length out), out)" "length out < 2 ^ 64"
      using u Inr r by simp_all
    obtain q' where q': "decoder q' ctx1" using u Inr r by auto
    have t: "take (unat (of_nat (length out) :: u64)) out = out" using e(2) by (simp add: unat_of_nat_lt)
    have ih: "decode_updates ctx1 cs = (case decode_loop ctx1 (concat cs) 0 [] of Inl _ \<Rightarrow> None | Inr (ctx', _, out) \<Rightarrow> Some (ctx', out))"
      using Cons.IH [OF q'] Cons.prems(2) by simp
    have "decode_updates ctx (c # cs) = map_option (\<lambda>(ctx, rest). (ctx, out @ rest)) (decode_updates ctx1 cs)"
      by (simp add: e(1) t)
    also have "\<dots> = (case decode_loop ctx1 (concat cs) m out of Inl _ \<Rightarrow> None | Inr (ctx', _, out) \<Rightarrow> Some (ctx', out))"
      using decode_loop_out [of ctx1 "concat cs" m 0 out "[]"] unfolding ih by (auto split: sum.splits)
    finally show ?thesis using Inr r by (simp add: decode_loop_append)
  qed
qed simp

lemma decode_stream_no_space:
  assumes "list_all (\<lambda>c. length c \<le> 0x7fffffff) cs"
  shows "decode_stream cs = (if length (no_space (concat cs)) mod 4 = 0 then decode_quads (no_space (concat cs)) else None)"
proof -
  let ?t = "no_space (concat cs)"
  have i: "decoder [] EVP_DecodeInit" "\<not> eof_seen EVP_DecodeInit" by (simp_all add: decoder_def EVP_DecodeInit_def)
  have u: "decode_updates EVP_DecodeInit cs = (case decode_loop EVP_DecodeInit ?t 0 [] of Inl _ \<Rightarrow> None | Inr (ctx', _, out) \<Rightarrow> Some (ctx', out))"
    unfolding decode_loop_no_space [symmetric] by (rule decode_updates_loop [OF i(1) assms])
  show ?thesis
  proof (cases "length ?t mod 4 = 0")
    case True
    have fin: "EVP_DecodeFinal ctx' = 1" if "decoder [] ctx'" for ctx' using that by (simp add: EVP_DecodeFinal_def decoder_def)
    from decode_loop_quads [OF i _ True, of 0 "[]"] show ?thesis
      using True fin by (auto simp: decode_stream_def u split: option.splits)
  next
    case False
    show ?thesis
    proof (cases "decode_loop EVP_DecodeInit ?t 0 []")
      case (Inl _)
      then show ?thesis using False by (simp add: decode_stream_def u)
    next
      case (Inr r)
      obtain ctx' m out where r: "r = (ctx', m, out)" by (cases r) auto
      obtain q' where q': "decoder q' ctx'" "length q' = length ?t mod 4"
        using decode_loop_inv [OF i(1) Inr [unfolded r]] by auto
      have "length q' \<noteq> 0" using q'(2) False by simp
      then have "data_used ctx' \<noteq> 0" using q'(1) unat_of_nat_lt [of "length q'", where 'a = 32] by (auto simp: decoder_def)
      then show ?thesis using False Inr r by (simp add: decode_stream_def u EVP_DecodeFinal_def)
    qed
  qed
qed

lemma no_space_lines: "no_space (b64_lines xs) = b64 xs"
proof -
  have nl: "is_b64_space 0x0a" by (simp add: is_b64_space_def)
  have h: "no_space (full_lines xs) @ b64 (last_line xs) = b64 xs" for xs
  proof (induction xs rule: full_lines.induct)
    case (1 xs)
    show ?case
    proof (cases "length xs \<ge> 48")
      case True
      then have t: "length (take 48 xs) = 48" by simp
      have s: "full_lines xs = b64 (take 48 xs) @ [0x0a] @ full_lines (drop 48 xs)" "last_line xs = last_line (drop 48 xs)"
        using full_lines_step [OF t, of "drop 48 xs"] by simp_all
      have "b64 xs = b64 (take 48 xs) @ b64 (drop 48 xs)" using b64_append [of "take 48 xs" "drop 48 xs"] t by simp
      then show ?thesis using 1 [OF True] unfolding s by (simp add: b64_not_space nl)
    qed (use full_lines_short [of xs] in simp)
  qed
  show ?thesis using h [of xs] by (cases "last_line xs = []") (simp_all add: b64_lines_def b64_not_space nl)
qed

lemma DecodeBase64_quads:
  assumes "length t < 2 ^ 64"
  shows "EVP_DecodeBase64 (- 1) t = (if length t mod 4 = 0 then decode_quads t else None)"
proof -
  have u: "unat (of_nat (length t) :: u64) = length t" using assms by (intro unat_of_nat_lt) simp
  have "unat (of_nat (length t) mod 4 :: u64) = length t mod 4" unfolding unat_mod u by simp
  then have "(of_nat (length t) mod 4 :: u64) = 0" if "length t mod 4 = 0" using that by (metis unat_eq_0)
  then show ?thesis by (simp add: EVP_DecodeBase64_def EVP_DecodedLength_def)
qed

section \<open>Properties\<close>

text \<open>
  C22: The encoder writes the base64 of RFC 4648: a block at once, with the length that
  \<^verbatim>\<open>EVP_EncodedLength\<close> announced, or as a stream, where lines of 64 characters come out whatever the
  sizes of the chunks that it is fed with (up to \<open>2 ^ 30\<close> bytes each: \<^verbatim>\<open>*out_len\<close> is an \<^verbatim>\<open>int\<close>, and the encoder reports
  0 bytes where what it has written does not fit), and the lengths that it reports are those of what it has written.
\<close>

theorem base64_encoder_exact:
  assumes "length src + 2 < 2 ^ 63" "list_all (\<lambda>c. length c < 2 ^ 30) cs"
  shows "EVP_EncodeBlock src = (of_nat (length (b64 src)), b64 src @ [0]) \<and>
    EVP_EncodedLength (of_nat (length src)) = Some (of_nat (length (b64 src @ [0]))) \<and>
    encode_stream cs = Some (b64_lines (concat cs))"
  using EncodedLength [OF assms(1)] encode_stream_lines [OF assms(2)] by (simp add: EncodeBlock length_b64)

theorem base64_encoder_exact_witness:
  "encode_stream [[77], [97, 110], [77]] = Some [84, 87, 70, 117, 84, 81, 61, 61, 10] \<and> b64 [77, 97, 110] = [84, 87, 70, 117]"
proof -
  have "b64_lines (concat [[77], [97, 110], [77]]) = [84, 87, 70, 117, 84, 81, 61, 61, 10]"
    by (simp add: b64_lines_def full_lines.simps last_line_def Let_def b64_char_def alphabet_def)
  moreover have "b64 [77, 97, 110] = [84, 87, 70, 117]" by (simp add: Let_def b64_char_def alphabet_def)
  ultimately show ?thesis using base64_encoder_exact [of "[]" "[[77], [97, 110], [77]]"] by simp
qed

text \<open>
  C23: The streaming decoder accepts, in whatever chunks the text arrives, exactly the texts whose
  characters other than white space \<^verbatim>\<open>EVP_DecodeBase64\<close> accepts, with the same result.
\<close>

theorem base64_stream_decoder:
  assumes "list_all (\<lambda>c. length c \<le> 0x7fffffff) cs" "length (concat cs) < 2 ^ 64"
  shows "decode_stream cs = EVP_DecodeBase64 (- 1) (filter (\<lambda>c. \<not> is_b64_space c) (concat cs))"
proof -
  have "length (no_space (concat cs)) < 2 ^ 64" by (rule le_less_trans [OF length_filter_le assms(2)])
  then show ?thesis using decode_stream_no_space [OF assms(1)] DecodeBase64_quads by simp
qed

theorem base64_stream_decoder_witness:
  "decode_stream [[84, 87], [70, 10, 117]] = Some [77, 97, 110]"
proof -
  have "EVP_DecodeBase64 (- 1) (filter (\<lambda>c. \<not> is_b64_space c) (concat [[84, 87], [70, 10, 117]])) = Some [77, 97, 110]"
    by code_simp
  then show ?thesis using base64_stream_decoder [of "[[84, 87], [70, 10, 117]]"] by simp
qed

text \<open>
  C24: Decoding inverts encoding: the text that the streaming encoder made from a list of chunks, cut
  up anew in any way and fed to the streaming decoder, gives the bytes of the chunks; and
  \<^verbatim>\<open>EVP_DecodeBase64\<close> inverts \<^verbatim>\<open>EVP_EncodeBlock\<close>.
\<close>

theorem base64_round_trip:
  assumes "list_all (\<lambda>c. length c < 2 ^ 30) cs" "encode_stream cs = Some (concat ts)" "list_all (\<lambda>c. length c \<le> 0x7fffffff) ts"
    and "length src < 2 ^ 62"
  shows "decode_stream ts = Some (concat cs) \<and> EVP_DecodeBase64 (- 1) (butlast (snd (EVP_EncodeBlock src))) = Some src"
proof -
  have t: "no_space (concat ts) = b64 (concat cs)" using encode_stream_lines [OF assms(1)] assms(2) no_space_lines by simp
  have "length (b64 (concat cs)) mod 4 = 0" by (simp add: length_b64)
  moreover have "length (b64 src) < 2 ^ 64" "length (b64 src) mod 4 = 0" using assms(4) by (simp_all add: length_b64)
  ultimately show ?thesis using decode_stream_no_space [OF assms(3)] DecodeBase64_quads [of "b64 src"] unfolding t
    by (simp add: decode_quads_b64 EncodeBlock)
qed

theorem base64_round_trip_witness:
  "decode_stream [[84, 87, 70], [], [117, 84, 81, 61, 61, 10]] = Some [77, 97, 110, 77]"
proof -
  have "encode_stream [[77], [97, 110, 77]] = Some (concat [[84, 87, 70], [], [117, 84, 81, 61, 61, 10]])" by code_simp
  then show ?thesis using base64_round_trip [of "[[77], [97, 110, 77]]" "[[84, 87, 70], [], [117, 84, 81, 61, 61, 10]]" "[]"] by simp
qed

end
