(* ===== verification/Ctr32.thy ===== *)
theory Ctr32
  imports Modes
begin

text \<open>
  \<^verbatim>\<open>CRYPTO_ctr128_encrypt_ctr32\<close> of \<^verbatim>\<open>crypto/fipsmodule/modes/ctr.c\<close>: counter mode on top of a routine
  that only counts in the low 32 bits, and its equivalence with \<^verbatim>\<open>CRYPTO_ctr128_encrypt\<close>. The routine,
  \<^verbatim>\<open>func in blocks ivec\<close>, is assembly on most targets and a parameter here; \<^verbatim>\<open>ctr32_contract\<close> is what
  \<^verbatim>\<open>modes/internal.h\<close> says of it.
\<close>

unbundle bit_operations_syntax

section \<open>The code\<close>

text \<open>Storing the counter back, and carrying its overflow into the upper 96 bits.\<close>

definition ctr32_store :: "bytes \<Rightarrow> u32 \<Rightarrow> bytes" where
  "ctr32_store ivec ctr32 =
     (let ivec = take 12 ivec @ PUTU32 ctr32
      in if ctr32 = 0 then ctr96_inc ivec else ivec)"

text \<open>The number of blocks of one round and the counter after them.\<close>

definition ctr32_clamp :: "nat \<Rightarrow> u32 \<Rightarrow> nat \<times> u32" where
  "ctr32_clamp len ctr32 =
     (let blocks = len div 16;
          blocks = (if blocks > 2 ^ 28 then 2 ^ 28 else blocks);
          ctr32 = ctr32 + of_nat blocks
      in if unat ctr32 < blocks then (blocks - unat ctr32, 0) else (blocks, ctr32))"

text \<open>The loop over whole blocks. Whether it ends is part of what is proved.\<close>

partial_function (option) ctr32_loop ::
  "ctr128_f \<Rightarrow> bytes \<Rightarrow> u32 \<Rightarrow> bytes \<Rightarrow> (bytes \<times> bytes \<times> u32 \<times> bytes) option" where
  "ctr32_loop func ivec ctr32 inp =
     (if length inp \<ge> 16
      then (let (blocks, ctr32) = ctr32_clamp (length inp) ctr32;
                out = func inp blocks ivec;
                ivec = ctr32_store ivec ctr32
            in Option.bind (ctr32_loop func ivec ctr32 (drop (blocks * 16) inp))
                 (\<lambda>(out', res). Some (out @ out', res)))
      else Some ([], ivec, ctr32, inp))"

definition CRYPTO_ctr128_encrypt_ctr32 ::
  "ctr128_f \<Rightarrow> bytes \<times> bytes \<times> nat \<Rightarrow> bytes \<Rightarrow> (bytes \<times> bytes \<times> bytes \<times> nat) option" where
  "CRYPTO_ctr128_encrypt_ctr32 func st inp =
     (case st of (ivec, ecount_buf, num) \<Rightarrow>
      case stream_head ecount_buf num inp of (out1, n, rest) \<Rightarrow>
        Option.bind (ctr32_loop func ivec (GETU32 (drop 12 ivec)) rest)
          (\<lambda>(out2, ivec, ctr32, rest).
             if length rest \<noteq> 0
             then (let ecount_buf = func (replicate 16 0) 1 ivec;
                       ctr32 = ctr32 + 1;
                       ivec = ctr32_store ivec ctr32
                   in Some (out1 @ out2 @ stream_tail ecount_buf n rest, ivec, ecount_buf, n + length rest))
             else Some (out1 @ out2, ivec, ecount_buf, n)))"

text \<open>The documented behaviour of the routine: block \<^verbatim>\<open>i\<close> uses the counter whose low word is \<^verbatim>\<open>i\<close> further.\<close>

definition ctr32_routine :: "block128_f \<Rightarrow> ctr128_f" where
  "ctr32_routine block inp blocks ivec =
     concat (map (\<lambda>i. xor_bytes (take 16 (drop (16 * i) inp))
                        (block (take 12 ivec @ PUTU32 (GETU32 (drop 12 ivec) + of_nat i)))) [0..<blocks])"

definition ctr32_contract :: "block128_f \<Rightarrow> ctr128_f \<Rightarrow> bool" where
  "ctr32_contract block func \<longleftrightarrow>
     (\<forall>inp blocks ivec. length ivec = 16 \<and> 16 * blocks \<le> length inp \<longrightarrow>
        func inp blocks ivec = ctr32_routine block inp blocks ivec)"

section \<open>Counter blocks as numbers\<close>

lemma ctr128_inc_be_enc: "ctr128_inc (be_enc 16 v) = be_enc 16 (v + 1)"
  by (rule be_val_inj) (simp_all add: be_val_ctr128_inc be_val_be_enc mod_Suc_eq)

lemma split_counter: "be_enc 16 v = be_enc 12 (v div 2 ^ 32) @ be_enc 4 v"
  using be_enc_add [of 12 4 v] by simp

text \<open>The key stream of counter mode, in closed form.\<close>

definition ctr_key_byte :: "block128_f \<Rightarrow> nat \<Rightarrow> nat \<Rightarrow> u8" where
  "ctr_key_byte block v i = block (be_enc 16 (v + i div 16)) ! (i mod 16)"

lemma run_ctr_closed:
  assumes "run_steps (ctr_step block) (be_enc 16 v, ec, 0) xs = (ys, iv, ec', n)"
  shows "ys = map (\<lambda>i. xs ! i XOR ctr_key_byte block v i) [0..<length xs] \<and>
    iv = be_enc 16 (v + (length xs + 15) div 16) \<and> n = length xs mod 16 \<and>
    (if xs = [] then ec' = ec else ec' = block (be_enc 16 (v + (length xs - 1) div 16)))"
  using assms
proof (induction xs arbitrary: ys iv ec' n rule: rev_induct)
  case (snoc b xs)
  obtain ys1 iv1 ec1 n1 where r: "run_steps (ctr_step block) (be_enc 16 v, ec, 0) xs = (ys1, iv1, ec1, n1)"
    by (cases "run_steps (ctr_step block) (be_enc 16 v, ec, 0) xs") auto
  note ih = snoc.IH [OF r]
  have run: "(case ctr_step block (iv1, ec1, n1) b of (c, st') \<Rightarrow> (ys1 @ [c], st')) = (ys, iv, ec', n)"
    using snoc.prems by (simp add: run_steps_append r split: prod.splits)
  let ?k = "length xs"
  have m: "map (\<lambda>i. (xs @ [b]) ! i XOR ctr_key_byte block v i) [0..<length (xs @ [b])] =
      ys1 @ [b XOR ctr_key_byte block v ?k]"
    using ih by (auto simp: nth_append)
  show ?case
  proof (cases "n1 = 0")
    case True
    then obtain q where q: "?k = 16 * q" using ih by auto
    then have "(?k + 15) div 16 = q" "?k div 16 = q" "(?k + 1 + 15) div 16 = q + 1" "(?k + 1) mod 16 = 1" by simp_all
    then show ?thesis
      using run ih True q unfolding m
      by (auto simp: ctr_step_def ctr_key_byte_def ctr128_inc_be_enc)
  next
    case False
    define q t where "q = ?k div 16" and "t = ?k mod 16"
    have k: "?k = 16 * q + t" and t: "0 < t" "t < 16" using False ih by (simp_all add: q_def t_def)
    then have "(?k + 15) div 16 = q + 1" "?k div 16 = q" "(?k - 1) div 16 = q" "(?k + 1 + 15) div 16 = q + 1"
      "?k mod 16 = t" "(?k + 1) mod 16 = (t + 1) mod 16" by simp_all
    moreover have "xs \<noteq> []" using k t by auto
    ultimately show ?thesis
      using run ih False t unfolding m
      by (auto simp: ctr_step_def ctr_key_byte_def)
  qed
qed simp

section \<open>The low word of the counter\<close>

lemma GETU32_be_enc: "GETU32 (be_enc 4 v) = of_nat v"
  by (simp add: word_unat_eq_iff unat_GETU32 be_val_be_enc unat_of_nat)

lemma PUTU32_of_nat: "PUTU32 (of_nat v) = be_enc 4 v"
  using be_enc_mod [of 4 v] by (simp add: PUTU32_be_enc unat_of_nat)

lemma div_add_low: "0 < N \<Longrightarrow> v mod N + i < N \<Longrightarrow> (v + i) div N = v div N" for v i N :: nat
proof -
  assume N: "0 < N" and lt: "v mod N + i < N"
  have "(v div N * N + (v mod N + i)) div N = (v mod N + i) div N + v div N"
    unfolding add.commute [of "v div N * N"] using div_mult_self1 [of N "v mod N + i" "v div N"] N by linarith
  then have "(v div N * N + (v mod N + i)) div N = v div N" using div_less [OF lt] by linarith
  moreover have "v div N * N + (v mod N + i) = v + i" by (simp add: add.assoc [symmetric] div_mult_mod_eq)
  ultimately show "(v + i) div N = v div N" by simp
qed

lemma add_to_multiple: "v mod N + k = N \<Longrightarrow> v + k = (v div N + 1) * N" for v k N :: nat
proof -
  assume "v mod N + k = N"
  moreover have "v div N * N + v mod N = v" by (rule div_mult_mod_eq)
  ultimately show "v + k = (v div N + 1) * N" unfolding distrib_right by linarith
qed

lemma counter_block:
  assumes "v mod 2 ^ 32 + i < 2 ^ 32"
  shows "take 12 (be_enc 16 v) @ PUTU32 (GETU32 (drop 12 (be_enc 16 v)) + of_nat i) = be_enc 16 (v + i)"
proof -
  have "(v + i) div 2 ^ 32 = v div 2 ^ 32" by (rule div_add_low [OF _ assms]) simp
  then show ?thesis
    unfolding split_counter by (simp add: GETU32_be_enc) (simp only: of_nat_add [symmetric] PUTU32_of_nat)
qed

lemma ctr32_store_be_enc:
  assumes "0 < k" and "v mod 2 ^ 32 + k \<le> 2 ^ 32"
  shows "ctr32_store (be_enc 16 v) (of_nat (v + k)) = be_enc 16 (v + k)"
proof (cases "v mod 2 ^ 32 + k = 2 ^ 32")
  case True
  define h where "h = v div 2 ^ 32"
  have e: "v + k = (h + 1) * 2 ^ 32" unfolding h_def by (rule add_to_multiple [OF True])
  then have z: "(of_nat (v + k) :: u32) = 0" by (simp add: word_unat_eq_iff unat_of_nat del: of_nat_add of_nat_mult)
  define iv where "iv = take 12 (be_enc 16 v) @ PUTU32 (of_nat (v + k))"
  have iv: "iv = be_enc 12 h @ be_enc 4 (v + k)" unfolding iv_def split_counter PUTU32_of_nat h_def by simp
  then have l: "length iv = 16" and t: "take 12 iv = be_enc 12 h" by simp_all
  have "be_val (take 12 (ctr96_inc iv)) = be_val (be_enc 12 (h + 1))"
    unfolding be_val_be_enc be_val_ctr96_inc [OF l, THEN conjunct1] t by (rule mod_add_left_eq)
  then have "take 12 (ctr96_inc iv) = be_enc 12 (h + 1)"
    by (intro be_val_inj) (simp_all add: ctr96_inc_def l)
  moreover have "drop 12 (ctr96_inc iv) = be_enc 4 (v + k)" using be_val_ctr96_inc [OF l] by (simp add: iv)
  ultimately have "ctr96_inc iv = be_enc 12 (h + 1) @ be_enc 4 (v + k)" by (metis append_take_drop_id)
  also have "\<dots> = be_enc 16 (v + k)" unfolding split_counter [of "v + k"] unfolding e by simp
  finally show ?thesis using z unfolding ctr32_store_def Let_def iv_def by simp
next
  case False
  then have lt: "v mod 2 ^ 32 + k < 2 ^ 32" using assms by simp
  have "(v + k) mod 2 ^ 32 = v mod 2 ^ 32 + k" using lt by (metis mod_add_left_eq mod_less)
  then have "unat (of_nat (v + k) :: u32) \<noteq> 0" using assms(1) by (simp add: unat_of_nat del: of_nat_add)
  then have nz: "(of_nat (v + k) :: u32) \<noteq> 0" by (simp only: unat_eq_0 not_False_eq_True)
  have "PUTU32 (of_nat (v + k)) = PUTU32 (GETU32 (drop 12 (be_enc 16 v)) + of_nat k)"
    unfolding split_counter by (simp add: GETU32_be_enc)
  then show ?thesis using counter_block [OF lt] nz unfolding ctr32_store_def Let_def by simp
qed

lemma ctr32_clamp_be_enc:
  assumes "16 \<le> len"
  obtains k where "ctr32_clamp len (of_nat v) = (k, of_nat (v + k))" and "0 < k" and "16 * k \<le> len"
    and "v mod 2 ^ 32 + k \<le> 2 ^ 32"
proof -
  define b lo where "b = (if len div 16 > 2 ^ 28 then 2 ^ 28 else len div 16)" and "lo = v mod 2 ^ 32"
  have b: "0 < b" "16 * b \<le> len" "b \<le> 2 ^ 28" using assms unfolding b_def by auto
  have lo: "lo < 2 ^ 32" by (simp add: lo_def)
  have u: "unat (of_nat v + of_nat b :: u32) = (lo + b) mod 2 ^ 32"
    unfolding lo_def mod_add_left_eq by (simp add: unat_of_nat flip: of_nat_add)
  have c: "ctr32_clamp len (of_nat v) = (if (lo + b) mod 2 ^ 32 < b then (b - (lo + b) mod 2 ^ 32, 0) else (b, of_nat (v + b)))"
    unfolding ctr32_clamp_def Let_def b_def [symmetric] u by simp
  show ?thesis
  proof (cases "lo + b < 2 ^ 32")
    case True
    then have "v mod 2 ^ 32 + b \<le> 2 ^ 32" unfolding lo_def by (rule less_imp_le)
    moreover have "ctr32_clamp len (of_nat v) = (b, of_nat (v + b))" using c True by simp
    ultimately show ?thesis using that b(1, 2) by blast
  next
    case False
    then have m: "(lo + b) mod 2 ^ 32 = lo + b - 2 ^ 32" using lo b(3) by (simp add: mod_if)
    define k where "k = 2 ^ 32 - lo"
    have k: "b - (lo + b) mod 2 ^ 32 = k" "(lo + b) mod 2 ^ 32 < b" "0 < k" "k \<le> b" "lo + k = 2 ^ 32"
      unfolding m k_def using False lo by linarith+
    have "(v + k) mod 2 ^ 32 = 0" using k(5) mod_add_left_eq [of v "2 ^ 32" k] unfolding lo_def by simp
    then have "(of_nat (v + k) :: u32) = 0" by (simp add: word_unat_eq_iff unat_of_nat del: of_nat_add)
    then have "ctr32_clamp len (of_nat v) = (k, of_nat (v + k))" unfolding c k(1) using k(2) by simp
    moreover have "v mod 2 ^ 32 + k \<le> 2 ^ 32" unfolding lo_def [symmetric] k(5) by (rule order_refl)
    moreover have "16 * k \<le> len" using k(4) b(2) by linarith
    ultimately show ?thesis using that k(3) by blast
  qed
qed

section \<open>Whole blocks\<close>

lemma run_blocks:
  assumes bc: "block_contract block" and "16 * k \<le> length xs" and "v mod 2 ^ 32 + k \<le> 2 ^ 32"
  shows "\<exists>ec'. run_steps (ctr_step block) (be_enc 16 v, ec, 0) (take (16 * k) xs) =
    (ctr32_routine block xs k (be_enc 16 v), be_enc 16 (v + k), ec', 0)"
  using assms(2, 3)
proof (induction k)
  case (Suc k)
  from Suc.IH Suc.prems obtain ec' where ih: "run_steps (ctr_step block) (be_enc 16 v, ec, 0) (take (16 * k) xs) =
    (ctr32_routine block xs k (be_enc 16 v), be_enc 16 (v + k), ec', 0)" by auto
  define ys where "ys = take 16 (drop (16 * k) xs)"
  have l: "length ys = 16" using Suc.prems by (simp add: ys_def)
  then have ne: "ys \<noteq> []" by auto
  have t: "take (16 * Suc k) xs = take (16 * k) xs @ ys"
    unfolding ys_def using take_add [of "16 * k" 16 xs] by (simp add: algebra_simps)
  have b: "run_steps (ctr_step block) (be_enc 16 (v + k), ec', 0) ys =
      (xor_bytes ys (block (be_enc 16 (v + k))), be_enc 16 (v + Suc k), block (be_enc 16 (v + k)), 0)"
    using from_block_start [OF key_stream_ctr [OF bc] ne, of "(be_enc 16 (v + k), ec')", unfolded l]
    by (simp add: ctr128_inc_be_enc)
  have c: "take 12 (be_enc 16 v) @ PUTU32 (GETU32 (drop 12 (be_enc 16 v)) + of_nat k) = be_enc 16 (v + k)"
    by (rule counter_block) (use Suc.prems in linarith)
  have "ctr32_routine block xs (Suc k) (be_enc 16 v) =
      ctr32_routine block xs k (be_enc 16 v) @ xor_bytes ys (block (be_enc 16 (v + k)))"
    unfolding ctr32_routine_def upt_Suc_append [OF le0] map_append concat_append by (simp only: list.map concat.simps append_Nil2 c ys_def)
  then show ?case unfolding t run_steps_append ih using b by simp
qed (simp add: ctr32_routine_def)

lemma ctr32_loop_steps:
  assumes bc: "block_contract block" and fc: "ctr32_contract block func"
  shows "\<exists>out v' ec' pre rest. ctr32_loop func (be_enc 16 v) (of_nat v) xs = Some (out, be_enc 16 v', of_nat v', rest) \<and>
    length rest < 16 \<and> xs = pre @ rest \<and> (pre = [] \<longrightarrow> ec' = ec) \<and>
    run_steps (ctr_step block) (be_enc 16 v, ec, 0) pre = (out, be_enc 16 v', ec', 0)"
proof (induction xs arbitrary: v ec rule: measure_induct_rule [of length])
  case (less xs)
  show ?case
  proof (cases "length xs \<ge> 16")
    case True
    obtain k where k: "ctr32_clamp (length xs) (of_nat v) = (k, of_nat (v + k))" "0 < k" "16 * k \<le> length xs"
      "v mod 2 ^ 32 + k \<le> 2 ^ 32" by (rule ctr32_clamp_be_enc [OF True])
    obtain ec1 where b: "run_steps (ctr_step block) (be_enc 16 v, ec, 0) (take (16 * k) xs) =
        (ctr32_routine block xs k (be_enc 16 v), be_enc 16 (v + k), ec1, 0)"
      using run_blocks [OF bc k(3, 4)] by blast
    have "length (drop (16 * k) xs) < length xs" using k True by simp
    from less.IH [OF this, of "v + k" ec1] obtain out v' ec' pre rest where
      i: "ctr32_loop func (be_enc 16 (v + k)) (of_nat (v + k)) (drop (16 * k) xs) = Some (out, be_enc 16 v', of_nat v', rest)"
      "length rest < 16" "drop (16 * k) xs = pre @ rest"
      "run_steps (ctr_step block) (be_enc 16 (v + k), ec1, 0) pre = (out, be_enc 16 v', ec', 0)" by auto
    have "func xs k (be_enc 16 v) = ctr32_routine block xs k (be_enc 16 v)"
      using fc k(3) unfolding ctr32_contract_def by simp
    then have "ctr32_loop func (be_enc 16 v) (of_nat v) xs =
        Some (ctr32_routine block xs k (be_enc 16 v) @ out, be_enc 16 v', of_nat v', rest)"
      using ctr32_store_be_enc [OF k(2, 4)] i(1) True k(1)
      by (subst ctr32_loop.simps) (simp add: Let_def mult.commute del: of_nat_add)
    moreover have "run_steps (ctr_step block) (be_enc 16 v, ec, 0) (take (16 * k) xs @ pre) =
        (ctr32_routine block xs k (be_enc 16 v) @ out, be_enc 16 v', ec', 0)"
      unfolding run_steps_append b using i(4) by simp
    moreover have "xs = (take (16 * k) xs @ pre) @ rest" using i(3) by (metis append.assoc append_take_drop_id)
    moreover have "take (16 * k) xs \<noteq> []" using k True by auto
    ultimately show ?thesis using i(2) by blast
  next
    case False
    then show ?thesis by (subst ctr32_loop.simps) (auto intro!: exI [of _ v] exI [of _ ec] exI [of _ "[]"])
  qed
qed

text \<open>States of the two implementations that stand for the same position in the key stream.\<close>

fun same_position :: "bytes \<times> bytes \<times> nat \<Rightarrow> bytes \<times> bytes \<times> nat \<Rightarrow> bool" where
  "same_position (iv, ec, n) (iv', ec', n') \<longleftrightarrow> iv = iv' \<and> n = n' \<and> (n \<noteq> 0 \<longrightarrow> ec = ec')"

lemma ctr32_call:
  assumes bc: "block_contract block" and fc: "ctr32_contract block func"
    and inv: "ctr_inv block st" and same: "same_position st st'"
  shows "\<exists>ys st1 st1'. CRYPTO_ctr128_encrypt_ctr32 func st xs = Some (ys, st1) \<and>
    CRYPTO_ctr128_encrypt block st' xs = (ys, st1') \<and> same_position st1 st1'"
proof -
  obtain iv ec n where st: "st = (iv, ec, n)" by (cases st)
  obtain ec' where st': "st' = (iv, ec', n)" and ec: "n \<noteq> 0 \<longrightarrow> ec = ec'" using same by (cases st') (auto simp: st)
  have n: "n < 16" and l: "length iv = 16" using inv by (simp_all add: st ctr_inv_def)
  have inv': "ctr_inv block st'" using inv by (simp add: st st' ctr_inv_def)
  define v where "v = be_val iv"
  have v: "be_enc 16 v = iv" unfolding v_def by (rule be_enc_of_val [OF l])
  note ks = key_stream_ctr [OF bc]
  obtain out1 n1 rest1 where h: "stream_head ec n xs = (out1, n1, rest1)" by (cases "stream_head ec n xs")
  have "stream_head ec' n xs = stream_head ec n xs" using ec by (cases "n = 0"; cases xs) simp_all
  then have h': "stream_head ec' n xs = (out1, n1, rest1)" using h by simp
  obtain pre1 where p1: "xs = pre1 @ rest1" "run_steps (ctr_step block) (iv, ec', n) pre1 = (out1, iv, ec', n1)"
    "rest1 = [] \<or> n1 = 0"
    by (rule stream_head_steps [OF ks n, of "(iv, ec')" xs out1 n1 rest1]) (auto simp: h')
  have g: "GETU32 (drop 12 iv) = of_nat v" unfolding v [symmetric] split_counter by (simp add: GETU32_be_enc)
  show ?thesis
  proof (cases "rest1 = []")
    case True
    have "n1 = 0" if "n = 0" using h that by (cases xs) auto
    moreover have loop: "ctr32_loop func iv (of_nat v) [] = Some ([], iv, of_nat v, [])" by (subst ctr32_loop.simps) simp
    ultimately show ?thesis
      using loop p1 h True ec unfolding st st' ctr128_steps [OF inv', unfolded st']
      by (auto simp: CRYPTO_ctr128_encrypt_ctr32_def g)
  next
    case False
    then have n1: "n1 = 0" using p1(3) by simp
    obtain out2 v2 ec2 pre2 rest2 where b: "ctr32_loop func (be_enc 16 v) (of_nat v) rest1 = Some (out2, be_enc 16 v2, of_nat v2, rest2)"
      "length rest2 < 16" "rest1 = pre2 @ rest2"
      "run_steps (ctr_step block) (be_enc 16 v, ec', 0) pre2 = (out2, be_enc 16 v2, ec2, 0)"
      using ctr32_loop_steps [OF bc fc, of v rest1 ec'] by blast
    show ?thesis
    proof (cases "rest2 = []")
      case True
      then show ?thesis
        using p1 h b n1 unfolding st st' ctr128_steps [OF inv', unfolded st']
        by (simp add: CRYPTO_ctr128_encrypt_ctr32_def g v run_steps_append)
    next
      case ne: False
      have r: "func (replicate 16 0) 1 (be_enc 16 v2) = block (be_enc 16 v2)"
      proof -
        have "take 12 (be_enc 16 v2) @ PUTU32 (GETU32 (drop 12 (be_enc 16 v2))) = be_enc 16 v2"
          using counter_block [of v2 0] by simp
        moreover have "xor_bytes (replicate 16 0) ks = ks" if "length ks = 16" for ks
          using that by (intro nth_equalityI) simp_all
        ultimately show ?thesis
          using fc bc unfolding ctr32_contract_def block_contract_def by (simp add: ctr32_routine_def)
      qed
      have s: "ctr32_store (be_enc 16 v2) (of_nat v2 + 1) = be_enc 16 (v2 + 1)"
        using ctr32_store_be_enc [of 1 v2] by (simp add: Suc_le_eq add.commute)
      have t: "run_steps (ctr_step block) (be_enc 16 v2, ec2, 0) rest2 =
          (stream_tail (block (be_enc 16 v2)) 0 rest2, be_enc 16 (v2 + 1), block (be_enc 16 v2), length rest2)"
        using stream_tail_steps [OF ks ne b(2), of "(be_enc 16 v2, ec2)"] by (simp add: ctr128_inc_be_enc)
      show ?thesis
        using p1 h b n1 ne t r s unfolding st st' ctr128_steps [OF inv', unfolded st']
        by (simp add: CRYPTO_ctr128_encrypt_ctr32_def g v run_steps_append Let_def)
    qed
  qed
qed

text \<open>A client's calls, the routine's failure to return included.\<close>

fun calls_option :: "('s \<Rightarrow> bytes \<Rightarrow> (bytes \<times> 's) option) \<Rightarrow> 's \<Rightarrow> bytes list \<Rightarrow> (bytes \<times> 's) option" where
  "calls_option run st [] = Some ([], st)"
| "calls_option run st (xs # xss) =
     Option.bind (run st xs) (\<lambda>(ys, st'). Option.bind (calls_option run st' xss) (\<lambda>(zs, st''). Some (ys @ zs, st'')))"

lemma ctr32_calls:
  assumes "block_contract block" and "ctr32_contract block func" and "ctr_inv block st" and "same_position st st'"
  shows "\<exists>st1. calls_option (CRYPTO_ctr128_encrypt_ctr32 func) st xss =
    Some (fst (calls (CRYPTO_ctr128_encrypt block) st' xss), st1)"
  using assms(3, 4)
proof (induction xss arbitrary: st st')
  case (Cons xs xss)
  from ctr32_call [OF assms(1, 2) Cons.prems] obtain ys st1 st1' where
    c: "CRYPTO_ctr128_encrypt_ctr32 func st xs = Some (ys, st1)" "CRYPTO_ctr128_encrypt block st' xs = (ys, st1')"
      "same_position st1 st1'" by blast
  have "ctr_inv block st'" using Cons.prems by (cases st; cases st') (simp add: ctr_inv_def)
  then have "ctr_inv block st1'" using ctr.enc.inv_run [of block st' xs] c(2) by simp
  then have "ctr_inv block st1" using c(3) by (cases st1; cases st1') (simp add: ctr_inv_def)
  from Cons.IH [OF this c(3)] c show ?case by (auto split: prod.splits)
qed (simp, metis prod_cases3)

section \<open>Properties\<close>

text \<open>
  C25: Counter mode encrypts byte \<^verbatim>\<open>i\<close> of the data with byte \<^verbatim>\<open>i mod 16\<close> of the cipher block of the
  initial counter plus \<^verbatim>\<open>i div 16\<close>, modulo \<^verbatim>\<open>2^128\<close>, however the data is cut into calls, and leaves the
  counter of the next unused block and the offset in the current one.
\<close>

theorem ctr_stream_exact:
  assumes "block_contract block" and "length iv = 16"
    and "calls (CRYPTO_ctr128_encrypt block) (iv, ec, 0) xss = (ys, iv', ec', n)"
  shows "ys = map (\<lambda>i. concat xss ! i XOR block (be_enc 16 ((be_val iv + i div 16) mod 2 ^ 128)) ! (i mod 16))
      [0..<length (concat xss)] \<and>
    be_val iv' = (be_val iv + (length (concat xss) + 15) div 16) mod 2 ^ 128 \<and> n = length (concat xss) mod 16"
proof -
  have "ctr_inv block (iv, ec, 0)" using assms by (simp add: ctr_inv_def)
  from ctr.enc.calls_bytes [OF this, of xss] assms(3)
  have r: "run_steps (ctr_step block) (be_enc 16 (be_val iv), ec, 0) (concat xss) = (ys, iv', ec', n)"
    by (simp add: be_enc_of_val [OF assms(2)])
  show ?thesis
    using run_ctr_closed [OF r] be_enc_mod [of 16] be_val_be_enc [of 16]
    by (simp add: ctr_key_byte_def)
qed

text \<open>
  C26: The loop of the counter mode over a 32-bit routine ends, and the bytes it produces over any
  sequence of calls are those of \<^verbatim>\<open>CRYPTO_ctr128_encrypt\<close>: splitting the data where the low word of
  the counter overflows and carrying into the upper 96 bits is exact.
\<close>

theorem ctr32_matches_ctr128:
  assumes "block_contract block" and "ctr32_contract block func" and "length iv = 16"
  shows "\<exists>st. calls_option (CRYPTO_ctr128_encrypt_ctr32 func) (iv, ec, 0) xss =
    Some (fst (calls (CRYPTO_ctr128_encrypt block) (iv, ec, 0) xss), st)"
  by (rule ctr32_calls [OF assms(1, 2)]) (use assms in \<open>simp_all add: ctr_inv_def\<close>)

section \<open>Witnesses\<close>

text \<open>A block function that keeps the contract: every byte is the sum of the block's bytes and its own position.\<close>

definition example_block :: block128_f where
  "example_block x = map (\<lambda>i. fold (+) x (of_nat i)) [0..<16]"

lemma example_block_contract: "block_contract example_block"
  by (simp add: block_contract_def example_block_def)

lemma example_ctr32_contract: "ctr32_contract example_block (ctr32_routine example_block)"
  by (simp add: ctr32_contract_def)

lemma ctr_stream_exact_witness:
  "[6, 5] = map (\<lambda>i. concat [[7], [7]] ! i XOR
      example_block (be_enc 16 ((be_val (replicate 15 0 @ [1]) + i div 16) mod 2 ^ 128)) ! (i mod 16))
      [0..<length (concat [[7 :: u8], [7]])] \<and>
    be_val (replicate 15 0 @ [2]) = (be_val (replicate 15 0 @ [1]) + (length (concat [[7 :: u8], [7]]) + 15) div 16) mod 2 ^ 128 \<and>
    2 = length (concat [[7 :: u8], [7]]) mod 16"
proof (rule ctr_stream_exact [OF example_block_contract])
  show "calls (CRYPTO_ctr128_encrypt example_block) (replicate 15 0 @ [1], [], 0) [[7], [7]] =
      ([6, 5], replicate 15 0 @ [2], example_block (replicate 15 0 @ [1]), 2)"
    by code_simp
qed simp

lemma ctr32_matches_ctr128_witness:
  "\<exists>st. calls_option (CRYPTO_ctr128_encrypt_ctr32 (ctr32_routine example_block)) (replicate 16 (- 1), [], 0) [replicate 40 1, [2]] =
    Some (fst (calls (CRYPTO_ctr128_encrypt example_block) (replicate 16 (- 1), [], 0) [replicate 40 1, [2]]), st)"
  by (rule ctr32_matches_ctr128 [OF example_block_contract example_ctr32_contract]) simp

end
