(* ===== verification/Cfb.thy ===== *)
theory Cfb
  imports Ctr32
begin

text \<open>
  Cipher feedback, \<^verbatim>\<open>crypto/fipsmodule/modes/cfb.c\<close>: over whole blocks (\<^verbatim>\<open>CRYPTO_cfb128_encrypt\<close>), bytes
  and bits. Decryption undoes encryption for each of them.
\<close>

unbundle bit_operations_syntax

section \<open>The 128-bit mode\<close>

text \<open>
  \<^verbatim>\<open>enc\<close> selects between the two branches of the function, which differ in what they put into
  \<^verbatim>\<open>ivec\<close>: the byte written when encrypting, the byte read when decrypting.
\<close>

fun cfb_head :: "bool \<Rightarrow> bytes \<Rightarrow> nat \<Rightarrow> bytes \<Rightarrow> bytes \<times> bytes \<times> nat \<times> bytes" where
  "cfb_head enc ivec n [] = ([], ivec, n, [])"
| "cfb_head enc ivec n (c # cs) =
     (if n = 0 then ([], ivec, n, c # cs)
      else (let v = ivec ! n XOR c
            in case cfb_head enc (ivec[n := if enc then v else c]) ((n + 1) mod 16) cs of
                 (out, ivec', n', rest) \<Rightarrow> (v # out, ivec', n', rest)))"

function cfb_words :: "bool \<Rightarrow> bytes \<Rightarrow> nat \<Rightarrow> bytes \<Rightarrow> bytes \<times> bytes" where
  "cfb_words enc ivec n inp =
     (if n < 16
      then (let t = load_word_le (drop n inp);
                tmp = load_word_le (drop n ivec) XOR t;
                ivec = take n ivec @ store_word_le (if enc then tmp else t) @ drop (n + 8) ivec
            in case cfb_words enc ivec (n + 8) inp of (out, ivec') \<Rightarrow> (store_word_le tmp @ out, ivec'))
      else ([], ivec))"
  by pat_completeness auto
termination by (relation "measure (\<lambda>(enc, ivec, n, inp). 16 - n)") auto

function cfb_blocks ::
  "block128_f \<Rightarrow> bool \<Rightarrow> bytes \<Rightarrow> nat \<Rightarrow> bytes \<Rightarrow> bytes \<times> bytes \<times> nat \<times> bytes" where
  "cfb_blocks block enc ivec n inp =
     (if length inp \<ge> 16
      then (case cfb_words enc (block ivec) n inp of
              (out, ivec) \<Rightarrow>
                (case cfb_blocks block enc ivec 0 (drop 16 inp) of
                   (out', ivec', n', rest) \<Rightarrow> (out @ out', ivec', n', rest)))
      else ([], ivec, n, inp))"
  by pat_completeness auto
termination by (relation "measure (\<lambda>(block, enc, ivec, n, inp). length inp)") auto

fun cfb_tail :: "bool \<Rightarrow> bytes \<Rightarrow> nat \<Rightarrow> bytes \<Rightarrow> nat \<Rightarrow> bytes \<times> bytes \<times> nat" where
  "cfb_tail enc ivec n inp 0 = ([], ivec, n)"
| "cfb_tail enc ivec n inp (Suc len) =
     (let c = inp ! n; v = ivec ! n XOR c
      in case cfb_tail enc (ivec[n := if enc then v else c]) (n + 1) inp len of
           (out, ivec', n') \<Rightarrow> (v # out, ivec', n'))"

definition CRYPTO_cfb128_encrypt ::
  "block128_f \<Rightarrow> bool \<Rightarrow> bytes \<times> nat \<Rightarrow> bytes \<Rightarrow> bytes \<times> bytes \<times> nat" where
  "CRYPTO_cfb128_encrypt block enc st inp =
     (case st of (ivec, num) \<Rightarrow>
      case cfb_head enc ivec num inp of (out1, ivec, n, rest) \<Rightarrow>
      case cfb_blocks block enc ivec n rest of (out2, ivec, n, rest) \<Rightarrow>
        if length rest \<noteq> 0
        then (case cfb_tail enc (block ivec) n rest (length rest) of
                (out3, ivec, n) \<Rightarrow> (out1 @ out2 @ out3, ivec, n))
        else (out1 @ out2, ivec, n))"

section \<open>The byte and bit modes\<close>

text \<open>
  One block of \<^verbatim>\<open>nbits\<close> bits. \<^verbatim>\<open>ovec\<close> holds the old \<^verbatim>\<open>ivec\<close> and the \<^verbatim>\<open>(nbits + 7) / 8\<close> bytes put
  behind it; nothing beyond them is read.
\<close>

definition cfbr_encrypt_block :: "block128_f \<Rightarrow> bytes \<Rightarrow> nat \<Rightarrow> bytes \<Rightarrow> bool \<Rightarrow> bytes \<times> bytes" where
  "cfbr_encrypt_block block inp nbits ivec enc =
     (if nbits \<le> 0 \<or> nbits > 128 then ([], ivec)
      else (let ovec = take 16 ivec;
                ivec = block ivec;
                num = (nbits + 7) div 8;
                out = map (\<lambda>n. inp ! n XOR ivec ! n) [0..<num];
                ovec = ovec @ (if enc then out else take num inp);
                rem = nbits mod 8;
                num = nbits div 8
            in (out,
                if rem = 0 then take 16 (drop num ovec)
                else map (\<lambda>n. push_bit rem (ovec ! (n + num)) OR drop_bit (8 - rem) (ovec ! (n + num + 1))) [0..<16])))"

definition cfb1_step ::
  "block128_f \<Rightarrow> bytes \<Rightarrow> bool \<Rightarrow> nat \<Rightarrow> bytes \<times> bytes \<Rightarrow> bytes \<times> bytes" where
  "cfb1_step block inp enc n st =
     (case st of (out, ivec) \<Rightarrow>
        let c = [if inp ! (n div 8) AND push_bit (7 - n mod 8) 1 \<noteq> 0 then 0x80 else 0]
        in case cfbr_encrypt_block block c 1 ivec enc of
             (d, ivec) \<Rightarrow>
               (out[n div 8 := (out ! (n div 8) AND NOT (push_bit (7 - n mod 8) 1)) OR
                               drop_bit (n mod 8) (d ! 0 AND 0x80)], ivec))"

definition CRYPTO_cfb128_1_encrypt ::
  "block128_f \<Rightarrow> bytes \<Rightarrow> bytes \<Rightarrow> nat \<Rightarrow> bytes \<Rightarrow> bool \<Rightarrow> bytes \<times> bytes" where
  "CRYPTO_cfb128_1_encrypt block inp out bits ivec enc = fold (cfb1_step block inp enc) [0..<bits] (out, ivec)"

fun CRYPTO_cfb128_8_encrypt :: "block128_f \<Rightarrow> bool \<Rightarrow> bytes \<Rightarrow> bytes \<Rightarrow> bytes \<times> bytes" where
  "CRYPTO_cfb128_8_encrypt block enc ivec [] = ([], ivec)"
| "CRYPTO_cfb128_8_encrypt block enc ivec (b # bs) =
     (case cfbr_encrypt_block block (b # bs) 8 ivec enc of
        (out, ivec) \<Rightarrow>
          (case CRYPTO_cfb128_8_encrypt block enc ivec bs of (out', ivec) \<Rightarrow> (out @ out', ivec)))"

section \<open>The byte-at-a-time machine\<close>

definition cfb_step :: "block128_f \<Rightarrow> bool \<Rightarrow> bytes \<times> nat \<Rightarrow> u8 \<Rightarrow> u8 \<times> bytes \<times> nat" where
  "cfb_step block enc st b =
     (case st of (iv, n) \<Rightarrow>
        let iv = (if n = 0 then block iv else iv)
        in (iv ! n XOR b, iv[n := if enc then iv ! n XOR b else b], (n + 1) mod 16))"

definition cfb_inv :: "block128_f \<Rightarrow> bytes \<times> nat \<Rightarrow> bool" where
  "cfb_inv block st \<longleftrightarrow> block_contract block \<and> snd st < 16"

lemma cfb_step_0:
  "cfb_step block enc (iv, 0) b = (block iv ! 0 XOR b, (block iv)[0 := if enc then block iv ! 0 XOR b else b], 1)"
  by (simp add: cfb_step_def Let_def)

lemma cfb_step_pos:
  "0 < n \<Longrightarrow> cfb_step block enc (iv, n) b = (iv ! n XOR b, iv[n := if enc then iv ! n XOR b else b], (n + 1) mod 16)"
  by (simp add: cfb_step_def Let_def)

declare cfb_words.simps [simp del] cfb_blocks.simps [simp del]

lemma cfb_head_steps:
  assumes "n < 16" and "cfb_head enc iv n xs = (out, iv', n', rest)"
  obtains pre where "xs = pre @ rest" and "run_steps (cfb_step block enc) (iv, n) pre = (out, iv', n')"
    and "rest = [] \<or> n' = 0"
  using assms
proof (induction xs arbitrary: iv n out thesis)
  case (Cons c cs)
  show ?case
  proof (cases "n = 0")
    case True
    then show ?thesis using Cons.prems(1) [of "[]"] Cons.prems(3) by simp
  next
    case False
    let ?iv = "iv[n := if enc then iv ! n XOR c else c]"
    obtain o' where h: "cfb_head enc ?iv ((n + 1) mod 16) cs = (o', iv', n', rest)" and o: "out = (iv ! n XOR c) # o'"
      using Cons.prems(3) False by (auto simp: Let_def split: prod.splits)
    obtain pre where p: "cs = pre @ rest" "run_steps (cfb_step block enc) (?iv, (n + 1) mod 16) pre = (o', iv', n')"
      "rest = [] \<or> n' = 0" by (rule Cons.IH [OF _ _ h]) simp_all
    have "cfb_step block enc (iv, n) c = (iv ! n XOR c, ?iv, (n + 1) mod 16)"
      using False by (simp add: cfb_step_def)
    then show ?thesis using Cons.prems(1) [of "c # pre"] p o by simp
  qed
qed simp

lemma cfb_tail_steps:
  assumes "0 < n" and "n + len < 16" and "length ys = n" and "len \<le> length xs"
  shows "cfb_tail enc iv n (ys @ xs) len = run_steps (cfb_step block enc) (iv, n) (take len xs)"
  using assms
proof (induction len arbitrary: iv n xs ys)
  case (Suc len)
  then obtain c cs where xs: "xs = c # cs" by (cases xs) auto
  have "cfb_tail enc iv' (n + 1) ((ys @ [c]) @ cs) len = run_steps (cfb_step block enc) (iv', n + 1) (take len cs)" for iv'
    by (rule Suc.IH) (use Suc.prems xs in simp_all)
  moreover have "(n + 1) mod 16 = n + 1" using Suc.prems by simp
  ultimately show ?case using Suc.prems xs by (simp add: Let_def cfb_step_pos nth_append)
qed simp

lemma cfb_tail_start:
  assumes "xs \<noteq> []" and "length xs < 16"
  shows "cfb_tail enc (block iv) 0 xs (length xs) = run_steps (cfb_step block enc) (iv, 0) xs"
proof -
  obtain c cs where xs: "xs = c # cs" using assms(1) by (cases xs) auto
  show ?thesis
    using cfb_tail_steps [of 1 "length cs" "[c]" cs enc _ block] assms(2) unfolding xs
    by (simp add: cfb_step_0 Let_def)
qed

text \<open>A run of bytes inside one block.\<close>

definition put_at :: "bytes \<Rightarrow> nat \<Rightarrow> bytes \<Rightarrow> bytes" where
  "put_at iv n xs = take n iv @ xs @ drop (n + length xs) iv"

lemma cfb_within_block:
  assumes "0 < n" and "n + length xs \<le> 16" and "length iv = 16" and "xs \<noteq> []"
  shows "run_steps (cfb_step block enc) (iv, n) xs =
    (xor_bytes xs (drop n iv), put_at iv n (if enc then xor_bytes xs (drop n iv) else xs), (n + length xs) mod 16)"
  using assms
proof (induction xs arbitrary: iv n)
  case (Cons c cs)
  let ?v = "if enc then iv ! n XOR c else c"
  have s: "cfb_step block enc (iv, n) c = (iv ! n XOR c, iv[n := ?v], (n + 1) mod 16)"
    using Cons.prems by (simp add: cfb_step_def)
  have d: "drop n iv = iv ! n # drop (n + 1) iv" using Cons.prems Cons_nth_drop_Suc [of n iv] by simp
  have u: "iv[n := ?v] = take n iv @ ?v # drop (n + 1) iv" using Cons.prems by (simp add: upd_conv_take_nth_drop)
  show ?case
  proof (cases "cs = []")
    case True
    then show ?thesis using Cons.prems by (simp add: s d u xor_bytes_def put_at_def xor.commute)
  next
    case False
    then have m: "(n + 1) mod 16 = n + 1" using Cons.prems by (cases cs) auto
    have dd: "drop (n + 1) (iv[n := ?v]) = drop (n + 1) iv" by simp
    have t: "take (Suc n) (iv[n := ?v]) = take n iv @ [?v]" using Cons.prems by (simp add: u)
    show ?thesis
      using s d m Cons.IH [of "n + 1" "iv[n := ?v]"] Cons.prems False t dd
      by (simp add: xor_bytes_def xor.commute put_at_def)
  qed
qed simp

lemma cfb_from_block_start:
  assumes bc: "block_contract block" and xs: "xs \<noteq> []" "length xs \<le> 16"
  shows "run_steps (cfb_step block enc) (iv, 0) xs =
    (xor_bytes xs (block iv), put_at (block iv) 0 (if enc then xor_bytes xs (block iv) else xs), length xs mod 16)"
proof -
  obtain c cs where c: "xs = c # cs" using xs(1) by (cases xs) auto
  have l: "length (block iv) = 16" using bc by (simp add: block_contract_def)
  then obtain k ks where k: "block iv = k # ks" by (cases "block iv") auto
  let ?v = "if enc then k XOR c else c"
  have s: "cfb_step block enc (iv, 0) c = (k XOR c, ?v # ks, 1)" using k by (simp add: cfb_step_0)
  show ?thesis
  proof (cases "cs = []")
    case True
    then show ?thesis using s k by (simp add: c xor_bytes_def put_at_def xor.commute)
  next
    case False
    have "run_steps (cfb_step block enc) (?v # ks, 1) cs =
        (xor_bytes cs ks, put_at (?v # ks) 1 (if enc then xor_bytes cs ks else cs), (1 + length cs) mod 16)"
      using cfb_within_block [of 1 cs "?v # ks" block enc] False xs(2) l k c by simp
    then show ?thesis using s k by (simp add: c xor_bytes_def put_at_def xor.commute)
  qed
qed

lemma cfb_words_all:
  assumes "length iv = 16" and "16 \<le> length xs"
  shows "cfb_words enc iv 0 xs =
    (xor_bytes (take 16 xs) iv, if enc then xor_bytes (take 16 xs) iv else take 16 xs)"
proof -
  define x1 x2 where "x1 = take 8 xs" and "x2 = take 8 (drop 8 xs)"
  define k1 k2 where "k1 = take 8 iv" and "k2 = drop 8 iv"
  have l: "length x1 = 8" "length x2 = 8" "length k1 = 8" "length k2 = 8"
    using assms by (simp_all add: x1_def x2_def k1_def k2_def)
  have t: "take 16 xs = x1 @ x2" using take_add [of 8 8 xs] by (simp add: x1_def x2_def)
  have iv: "iv = k1 @ k2" by (simp add: k1_def k2_def)
  have ld: "load_word_le xs = load_word_le x1" "load_word_le (drop 8 xs) = load_word_le x2"
    "load_word_le (k1 @ k2) = load_word_le k1"
    using l by (simp_all add: load_word_le_def x1_def x2_def)
  have w: "store_word_le (load_word_le k XOR load_word_le x) = xor_bytes x k" if "length k = 8" "length x = 8" for k x
    using store_load_xor [OF that(2, 1)] by (simp add: xor.commute)
  have e: "take 16 xs = x1 @ x2" "xor_bytes (x1 @ x2) (k1 @ k2) = xor_bytes x1 k1 @ xor_bytes x2 k2"
    using t l by (simp_all add: xor_bytes_append)
  show ?thesis
    unfolding e iv
    using l by (simp add: cfb_words.simps [of enc _ 0] cfb_words.simps [of enc _ 8] cfb_words.simps [of enc _ 16] Let_def ld w store_load)
qed

lemma cfb_blocks_steps:
  assumes "block_contract block" and "n = 0 \<or> xs = []" and "cfb_blocks block enc iv n xs = (out, iv', n', rest)"
  shows "length rest < 16 \<and> (\<exists>pre. xs = pre @ rest \<and> run_steps (cfb_step block enc) (iv, n) pre = (out, iv', n')) \<and>
    (rest \<noteq> [] \<longrightarrow> n' = 0)"
  using assms
proof (induction block enc iv n xs arbitrary: out rule: cfb_blocks.induct)
  case (1 block enc iv n xs)
  note bc = 1(2)
  show ?case
  proof (cases "length xs \<ge> 16")
    case True
    then have n: "n = 0" using 1 by auto
    have lb: "length (block iv) = 16" using bc by (simp add: block_contract_def)
    note w = cfb_words_all [OF lb True, of enc]
    define o1 iv1 where "o1 = xor_bytes (take 16 xs) (block iv)" and "iv1 = (if enc then o1 else take 16 xs)"
    obtain o' where b: "cfb_blocks block enc iv1 0 (drop 16 xs) = (o', iv', n', rest)" and o: "out = o1 @ o'"
      using 1(4) True n w unfolding cfb_blocks.simps [of block enc iv n xs] o1_def [symmetric] iv1_def [symmetric]
      by (auto split: prod.splits)
    have "cfb_words enc (block iv) n xs = (o1, iv1)" using w n unfolding o1_def iv1_def by simp
    from 1(1) [OF True this [symmetric] bc _ b] obtain pre where p: "length rest < 16" "drop 16 xs = pre @ rest"
      "run_steps (cfb_step block enc) (iv1, 0) pre = (o', iv', n')" "rest \<noteq> [] \<longrightarrow> n' = 0" by auto
    have l: "length (take 16 xs) = 16" using True by simp
    then have ne: "take 16 xs \<noteq> []" by (metis list.size(3) zero_neq_numeral)
    have "put_at (block iv) 0 iv1 = iv1" using lb l by (simp add: put_at_def iv1_def o1_def)
    then have h: "run_steps (cfb_step block enc) (iv, 0) (take 16 xs) = (o1, iv1, 0)"
      using cfb_from_block_start [OF bc ne, of enc iv, unfolded l] unfolding o1_def [symmetric] iv1_def [symmetric] by simp
    then have "run_steps (cfb_step block enc) (iv, n) (take 16 xs @ pre) = (out, iv', n')"
      using p(3) o n by (simp add: run_steps_append)
    moreover have "xs = (take 16 xs @ pre) @ rest" using p(2) by (metis append.assoc append_take_drop_id)
    ultimately show ?thesis using p by blast
  next
    case False
    then show ?thesis using 1 by (auto simp: cfb_blocks.simps)
  qed
qed

lemma cfb128_steps:
  assumes "cfb_inv block st"
  shows "CRYPTO_cfb128_encrypt block enc st xs = run_steps (cfb_step block enc) st xs"
proof -
  obtain iv n where st: "st = (iv, n)" by (cases st)
  have bc: "block_contract block" and n: "n < 16" using assms unfolding cfb_inv_def st by auto
  obtain out1 iv1 n1 rest1 where h: "cfb_head enc iv n xs = (out1, iv1, n1, rest1)" by (cases "cfb_head enc iv n xs")
  obtain pre1 where p1: "xs = pre1 @ rest1" "run_steps (cfb_step block enc) (iv, n) pre1 = (out1, iv1, n1)"
    "rest1 = [] \<or> n1 = 0"
    by (rule cfb_head_steps [OF n h])
  obtain out2 iv2 n2 rest2 where b: "cfb_blocks block enc iv1 n1 rest1 = (out2, iv2, n2, rest2)"
    by (cases "cfb_blocks block enc iv1 n1 rest1")
  from cfb_blocks_steps [OF bc _ b] p1(3) obtain pre2 where p2: "length rest2 < 16" "rest1 = pre2 @ rest2"
    "run_steps (cfb_step block enc) (iv1, n1) pre2 = (out2, iv2, n2)" "rest2 \<noteq> [] \<longrightarrow> n2 = 0" by auto
  show ?thesis
  proof (cases "rest2 = []")
    case True
    then show ?thesis using st h b p1 p2 by (simp add: CRYPTO_cfb128_encrypt_def run_steps_append)
  next
    case False
    then show ?thesis
      using st h b p1 p2 cfb_tail_start [OF False p2(1), of enc block iv2]
      by (simp add: CRYPTO_cfb128_encrypt_def run_steps_append split: prod.splits)
  qed
qed

lemma cfb_inv_step: "cfb_inv block st \<Longrightarrow> cfb_inv block (snd (cfb_step block enc st b))"
  by (auto simp: cfb_inv_def cfb_step_def Let_def split: prod.splits)

interpretation cfb: stream_pair "CRYPTO_cfb128_encrypt block True" "cfb_step block True"
  "CRYPTO_cfb128_encrypt block False" "cfb_step block False" "cfb_inv block" for block
  by unfold_locales
     (simp_all add: cfb128_steps cfb_inv_step, auto simp: cfb_step_def Let_def xor.left_commute xor.assoc [symmetric] split: prod.splits)

section \<open>The byte mode as a machine\<close>

text \<open>The shift register drops its first byte and takes the cipher-text byte at the end.\<close>

definition cfb8_step :: "block128_f \<Rightarrow> bool \<Rightarrow> bytes \<Rightarrow> u8 \<Rightarrow> u8 \<times> bytes" where
  "cfb8_step block enc iv b = (let v = b XOR block iv ! 0 in (v, drop 1 iv @ [if enc then v else b]))"

definition cfb8_inv :: "block128_f \<Rightarrow> bytes \<Rightarrow> bool" where
  "cfb8_inv block iv \<longleftrightarrow> block_contract block \<and> length iv = 16"

lemma cfbr_8:
  assumes "length iv = 16"
  shows "cfbr_encrypt_block block (b # bs) 8 iv enc = ([fst (cfb8_step block enc iv b)], snd (cfb8_step block enc iv b))"
proof -
  have "map (\<lambda>n. (b # bs) ! n XOR block iv ! n) [0..<1] = [b XOR block iv ! 0]" by simp
  then show ?thesis using assms by (simp add: cfbr_encrypt_block_def cfb8_step_def Let_def)
qed

lemma cfb8_steps: "cfb8_inv block iv \<Longrightarrow> CRYPTO_cfb128_8_encrypt block enc iv xs = run_steps (cfb8_step block enc) iv xs"
proof (induction xs arbitrary: iv)
  case (Cons b bs)
  have l: "length iv = 16" using Cons.prems by (simp add: cfb8_inv_def)
  have "cfb8_inv block (snd (cfb8_step block enc iv b))" using Cons.prems by (simp add: cfb8_inv_def cfb8_step_def Let_def)
  from Cons.IH [OF this] show ?case by (simp add: cfbr_8 [OF l] split: prod.splits)
qed simp

interpretation cfb8: stream_pair "CRYPTO_cfb128_8_encrypt block True" "cfb8_step block True"
  "CRYPTO_cfb128_8_encrypt block False" "cfb8_step block False" "cfb8_inv block" for block
  by unfold_locales (simp_all add: cfb8_steps, auto simp: cfb8_inv_def cfb8_step_def Let_def)

section \<open>The bit mode\<close>

definition bit_of :: "bytes \<Rightarrow> nat \<Rightarrow> bool" where
  "bit_of xs n = bit (xs ! (n div 8)) (7 - n mod 8)"

definition shift_in :: "bytes \<Rightarrow> bool \<Rightarrow> bytes" where
  "shift_in iv c = map (\<lambda>n. push_bit 1 (iv ! n) OR drop_bit 7 ((iv @ [if c then 0x80 else 0]) ! (n + 1))) [0..<16]"

text \<open>One bit: the shift register takes the cipher-text bit at its end.\<close>

definition cfb1_bit :: "block128_f \<Rightarrow> bool \<Rightarrow> bytes \<Rightarrow> bool \<Rightarrow> bool \<times> bytes" where
  "cfb1_bit block enc iv b = (let v = (b \<noteq> bit (block iv ! 0) 7) in (v, shift_in iv (if enc then v else b)))"

lemma drop_bit_7_eq: "drop_bit 7 b = (if bit b 7 then 1 else 0)" for b :: u8
proof (rule bit_word_eqI)
  fix n
  show "bit (drop_bit 7 b) n = bit (if bit b 7 then 1 else 0 :: u8) n"
    using bit_imp_le_length [of b "7 + n"] by (cases n) (auto simp: bit_simps)
qed

lemma bit_80 [simp]: "bit (0x80 :: u8) k \<longleftrightarrow> k = 7"
proof -
  have "(0x80 :: u8) = push_bit 7 1" by code_simp
  then show ?thesis by (simp only: bit_push_bit_iff) (auto simp: bit_simps)
qed

lemma bit_80_0: "bit (if c then 0x80 else 0 :: u8) k \<longleftrightarrow> c \<and> k = 7"
  by (cases c) (simp_all only: if_True if_False bit_80 simp_thms bit_0_eq bot_fun_def bot_bool_def)

lemma length_shift_in [simp]: "length (shift_in iv c) = 16"
  by (simp add: shift_in_def)

lemma cfbr_1:
  assumes "length iv = 16"
  obtains d where "cfbr_encrypt_block block [if b then 0x80 else 0] 1 iv enc = ([d], snd (cfb1_bit block enc iv b))"
    and "bit d 7 \<longleftrightarrow> fst (cfb1_bit block enc iv b)"
proof -
  define c d :: u8 where "c = (if b then 0x80 else 0)" and "d = c XOR block iv ! 0"
  have c7: "bit c 7 = b" by (simp add: c_def)
  have d7: "bit d 7 \<longleftrightarrow> b \<noteq> bit (block iv ! 0) 7" by (simp add: d_def bit_xor_iff c7)
  have sh: "map (\<lambda>n. push_bit 1 ((iv @ [x]) ! (n + 0)) OR drop_bit (8 - 1) ((iv @ [x]) ! (n + 0 + 1))) [0..<16] =
      shift_in iv (bit x 7)" for x :: u8
    unfolding shift_in_def
  proof (rule map_cong [OF refl])
    fix n assume "n \<in> set [0..<16]"
    then have n: "n < 16" by simp
    have "drop_bit 7 ((iv @ [x]) ! (n + 1)) = drop_bit 7 ((iv @ [if bit x 7 then 0x80 else 0]) ! (n + 1))"
      using n assms by (cases "n + 1 < 16") (simp_all add: nth_append drop_bit_7_eq)
    then show "push_bit 1 ((iv @ [x]) ! (n + 0)) OR drop_bit (8 - 1) ((iv @ [x]) ! (n + 0 + 1)) =
        push_bit 1 (iv ! n) OR drop_bit 7 ((iv @ [if bit x 7 then 0x80 else 0]) ! (n + 1))"
      using n assms by (simp add: nth_append)
  qed
  have o: "map (\<lambda>n. [c] ! n XOR block iv ! n) [0..<1] = [d]" by (simp add: d_def)
  have "cfbr_encrypt_block block [c] 1 iv enc = ([d], shift_in iv (bit (if enc then d else c) 7))"
    using sh [of c] sh [of d] o assms by (cases enc) (simp_all add: cfbr_encrypt_block_def Let_def)
  then have "cfbr_encrypt_block block [c] 1 iv enc = ([d], shift_in iv (if enc then b \<noteq> bit (block iv ! 0) 7 else b))"
    using c7 d7 by (simp only: if_distrib [of "\<lambda>x. bit x 7"])
  then show ?thesis using that d7 unfolding c_def cfb1_bit_def Let_def fst_conv snd_conv by blast
qed

lemma bit_of_update:
  assumes "n < 8 * length out" and "m < 8 * length out"
  shows "bit_of (out[n div 8 := (out ! (n div 8) AND NOT (push_bit (7 - n mod 8) 1)) OR drop_bit (n mod 8) (d AND 0x80)]) m \<longleftrightarrow>
    (if m = n then bit d 7 else bit_of out m)" (is "bit_of ?out m \<longleftrightarrow> _")
proof (cases "m div 8 = n div 8")
  case True
  have nd: "n div 8 < length out" using assms(1) by (simp add: less_mult_imp_div_less mult.commute)
  have e: "m = n \<longleftrightarrow> 7 - m mod 8 = 7 - n mod 8"
  proof
    assume "7 - m mod 8 = 7 - n mod 8"
    moreover have "m mod 8 < 8" "n mod 8 < 8" by simp_all
    ultimately have "m mod 8 = n mod 8" by linarith
    with True show "m = n" by (metis div_mult_mod_eq)
  qed simp
  define i j where "i = 7 - m mod 8" and "j = 7 - n mod 8"
  have ij: "i < 8" "j < 8" and nj: "n mod 8 = 7 - j" "7 - (7 - j) = j" by (simp_all add: i_def j_def)
  have "bit_of ?out m \<longleftrightarrow> bit ((out ! (n div 8) AND NOT (push_bit j 1)) OR drop_bit (7 - j) (d AND 0x80)) i"
    unfolding bit_of_def True i_def [symmetric] j_def [symmetric] using nd nj by simp
  also have "\<dots> \<longleftrightarrow> (if i = j then bit d 7 else bit (out ! (n div 8)) i)"
    using ij bit_80 [of "7 + i - j"] by (auto simp: bit_simps simp del: bit_80 bit_numeral_word_iff)
  finally show ?thesis unfolding e i_def j_def bit_of_def True by simp
next
  case False
  then show ?thesis by (auto simp: bit_of_def)
qed

text \<open>A call on \<^verbatim>\<open>bits\<close> bits: the output bits and the register are those of the machine, the other bits are kept.\<close>

lemma cfb1_loop:
  assumes l: "length iv = 16" and "bits \<le> 8 * length out"
  obtains out' bs iv' where "CRYPTO_cfb128_1_encrypt block inp out bits iv enc = (out', iv')"
    and "run_steps (cfb1_bit block enc) iv (map (bit_of inp) [0..<bits]) = (bs, iv')"
    and "length out' = length out" and "length bs = bits" and "length iv' = 16"
    and "\<And>m. m < 8 * length out \<Longrightarrow> bit_of out' m \<longleftrightarrow> (if m < bits then bs ! m else bit_of out m)"
  using assms(2)
proof (induction bits arbitrary: thesis)
  case 0
  then show ?case using l by (simp add: CRYPTO_cfb128_1_encrypt_def)
next
  case (Suc n)
  obtain o1 bs iv1 where o1: "fold (cfb1_step block inp enc) [0..<n] (out, iv) = (o1, iv1)"
      "run_steps (cfb1_bit block enc) iv (map (bit_of inp) [0..<n]) = (bs, iv1)"
      "length o1 = length out" "length bs = n" "length iv1 = 16"
      "\<And>m. m < 8 * length out \<Longrightarrow> bit_of o1 m \<longleftrightarrow> (if m < n then bs ! m else bit_of out m)"
    using Suc.IH Suc.prems(2) unfolding CRYPTO_cfb128_1_encrypt_def by auto
  have b: "inp ! (n div 8) AND push_bit (7 - n mod 8) 1 \<noteq> 0 \<longleftrightarrow> bit_of inp n"
    by (simp add: bit_of_def bit_iff_and_push_bit_not_eq_0)
  obtain v iv2 where v: "cfb1_bit block enc iv1 (bit_of inp n) = (v, iv2)" by fastforce
  have l2: "length iv2 = 16" using v by (auto simp: cfb1_bit_def Let_def)
  obtain d where d: "cfbr_encrypt_block block [if bit_of inp n then 0x80 else 0] 1 iv1 enc = ([d], iv2)" "bit d 7 \<longleftrightarrow> v"
    using cfbr_1 [OF o1(5), of block "bit_of inp n" enc] v by auto
  define o2 where "o2 = o1[n div 8 := (o1 ! (n div 8) AND NOT (push_bit (7 - n mod 8) 1)) OR drop_bit (n mod 8) (d AND 0x80)]"
  have "cfb1_step block inp enc n (o1, iv1) = (o2, iv2)"
    unfolding cfb1_step_def prod.case Let_def b d o2_def by simp
  then have e: "CRYPTO_cfb128_1_encrypt block inp out (Suc n) iv enc = (o2, iv2)"
    unfolding CRYPTO_cfb128_1_encrypt_def by (simp add: o1(1))
  have r: "run_steps (cfb1_bit block enc) iv (map (bit_of inp) [0..<Suc n]) = (bs @ [v], iv2)"
    by (simp add: run_steps_append o1(2) v)
  have m: "bit_of o2 m \<longleftrightarrow> (if m < Suc n then (bs @ [v]) ! m else bit_of out m)" if "m < 8 * length out" for m
    using bit_of_update [of n o1 m d] o1(3,4) o1(6) [of m] Suc.prems(2) that d(2)
    unfolding o2_def [symmetric] by (auto simp: less_Suc_eq nth_append)
  have n: "length o2 = length out" "length (bs @ [v]) = Suc n" by (simp_all add: o2_def o1(3,4))
  show ?case by (rule Suc.prems(1) [OF e r n l2 m])
qed

text \<open>
  A client of the bit mode: each call has an input buffer, an output buffer and a number of bits, and the register of one
  call goes into the next.
\<close>

type_synonym bit_chunk = "bytes \<times> bytes \<times> nat"

definition chunk_bits :: "bit_chunk \<Rightarrow> bool list" where
  "chunk_bits = (\<lambda>(inp, out, bits). map (bit_of inp) [0..<bits])"

definition chunk_fits :: "bit_chunk \<Rightarrow> bool" where
  "chunk_fits = (\<lambda>(inp, out, bits). bits \<le> 8 * length out)"

fun cfb1_calls :: "block128_f \<Rightarrow> bool \<Rightarrow> bytes \<Rightarrow> bit_chunk list \<Rightarrow> bool list \<times> bytes" where
  "cfb1_calls block enc iv [] = ([], iv)"
| "cfb1_calls block enc iv ((inp, out, bits) # cs) =
     (case CRYPTO_cfb128_1_encrypt block inp out bits iv enc of
        (out, iv) \<Rightarrow> (case cfb1_calls block enc iv cs of (bs, iv) \<Rightarrow> (map (bit_of out) [0..<bits] @ bs, iv)))"

interpretation cfb1: stream_pair "run_steps (cfb1_bit block True)" "cfb1_bit block True"
  "run_steps (cfb1_bit block False)" "cfb1_bit block False" "\<lambda>iv. length iv = 16" for block
  by unfold_locales (auto simp: cfb1_bit_def Let_def)

lemma cfb1_calls_steps:
  "length iv = 16 \<Longrightarrow> list_all chunk_fits cs \<Longrightarrow>
    cfb1_calls block enc iv cs = run_steps (cfb1_bit block enc) iv (concat (map chunk_bits cs))"
proof (induction cs arbitrary: iv)
  case (Cons c cs)
  obtain inp out bits where c: "c = (inp, out, bits)" by (cases c)
  have b: "bits \<le> 8 * length out" using Cons.prems(2) by (simp add: c chunk_fits_def)
  obtain out' bs iv' where r: "CRYPTO_cfb128_1_encrypt block inp out bits iv enc = (out', iv')"
      "run_steps (cfb1_bit block enc) iv (map (bit_of inp) [0..<bits]) = (bs, iv')"
      "length out' = length out" "length bs = bits" "length iv' = 16"
      "\<And>m. m < 8 * length out \<Longrightarrow> bit_of out' m \<longleftrightarrow> (if m < bits then bs ! m else bit_of out m)"
    by (rule cfb1_loop [OF Cons.prems(1) b]) blast
  have "map (bit_of out') [0..<bits] = bs" using r(4,6) b by (intro nth_equalityI) simp_all
  moreover have "cfb1_calls block enc iv' cs = run_steps (cfb1_bit block enc) iv' (concat (map chunk_bits cs))"
    using Cons.prems(2) by (intro Cons.IH r(5)) simp
  ultimately show ?case using r(1,2) by (simp add: c chunk_bits_def run_steps_append split: prod.splits)
qed simp

lemma cfb1_round_trip:
  assumes "length iv = 16" and "list_all chunk_fits es" and "list_all chunk_fits ds"
    and "concat (map chunk_bits ds) = fst (cfb1_calls block True iv es)"
  shows "cfb1_calls block False iv ds = (concat (map chunk_bits es), snd (cfb1_calls block True iv es))"
  unfolding cfb1_calls_steps [OF assms(1,3)]
  by (rule cfb1.undo_bytes [OF assms(1)]) (simp add: cfb1_calls_steps [OF assms(1,2), symmetric] assms(4))

section \<open>Property\<close>

text \<open>
  C27: Decryption undoes encryption in the feedback modes, and leaves the same state: for cipher
  feedback over blocks, for output feedback and for cipher feedback over bytes, whatever chunks the
  two sides cut the data into, and for cipher feedback over bits, whatever numbers of bits the two sides pass to a call.
\<close>

theorem feedback_round_trip:
  assumes "block_contract block" and "n < 16" and "length iv = 16"
    and "concat yss = fst (calls (CRYPTO_cfb128_encrypt block True) (iv', n) xss)"
    and "concat zss = fst (calls (CRYPTO_ofb128_encrypt block) (iv', n) xss)"
    and "concat uss = fst (calls (CRYPTO_cfb128_8_encrypt block True) iv xss)"
    and "list_all chunk_fits es" and "list_all chunk_fits ds"
    and "concat (map chunk_bits ds) = fst (cfb1_calls block True iv es)"
  shows "calls (CRYPTO_cfb128_encrypt block False) (iv', n) yss =
      (concat xss, snd (calls (CRYPTO_cfb128_encrypt block True) (iv', n) xss)) \<and>
    calls (CRYPTO_ofb128_encrypt block) (iv', n) zss =
      (concat xss, snd (calls (CRYPTO_ofb128_encrypt block) (iv', n) xss)) \<and>
    calls (CRYPTO_cfb128_8_encrypt block False) iv uss =
      (concat xss, snd (calls (CRYPTO_cfb128_8_encrypt block True) iv xss)) \<and>
    cfb1_calls block False iv ds = (concat (map chunk_bits es), snd (cfb1_calls block True iv es))"
proof -
  have "cfb_inv block (iv', n)" "ofb_inv block (iv', n)" "cfb8_inv block iv"
    using assms(1-3) by (simp_all add: cfb_inv_def ofb_inv_def cfb8_inv_def)
  from cfb.undo_calls [OF this(1) assms(4)] ofb.undo_calls [OF this(2) assms(5)] cfb8.undo_calls [OF this(3) assms(6)]
    cfb1_round_trip [OF assms(3, 7-9)]
  show ?thesis by blast
qed

lemma feedback_round_trip_witness:
  "calls (CRYPTO_cfb128_encrypt example_block False) (replicate 16 1, 14) [[0], [3, 18]] =
      (concat [[1, 2], [3]], snd (calls (CRYPTO_cfb128_encrypt example_block True) (replicate 16 1, 14) [[1, 2], [3]])) \<and>
    calls (CRYPTO_ofb128_encrypt example_block) (replicate 16 1, 14) [[0, 3, 19]] =
      (concat [[1, 2], [3]], snd (calls (CRYPTO_ofb128_encrypt example_block) (replicate 16 1, 14) [[1, 2], [3]])) \<and>
    calls (CRYPTO_cfb128_8_encrypt example_block False) (replicate 16 1) [[17, 34, 66]] =
      (concat [[1, 2], [3]], snd (calls (CRYPTO_cfb128_8_encrypt example_block True) (replicate 16 1) [[1, 2], [3]])) \<and>
    cfb1_calls example_block False (replicate 16 1) [([0x60], [0], 3)] =
      (concat (map chunk_bits [([0x5a], [0xff], 2), ([0x80], [0], 1)]),
       snd (cfb1_calls example_block True (replicate 16 1) [([0x5a], [0xff], 2), ([0x80], [0], 1)]))"
proof (rule feedback_round_trip [OF example_block_contract])
  show "concat [[0], [3, 18]] = fst (calls (CRYPTO_cfb128_encrypt example_block True) (replicate 16 1, 14) [[1, 2], [3]])"
    by code_simp
  show "concat [[0, 3, 19]] = fst (calls (CRYPTO_ofb128_encrypt example_block) (replicate 16 1, 14) [[1, 2], [3]])"
    by code_simp
  show "concat [[17, 34, 66]] = fst (calls (CRYPTO_cfb128_8_encrypt example_block True) (replicate 16 1) [[1, 2], [3]])"
    by code_simp
  show "concat (map chunk_bits [([0x60], [0], 3)]) =
      fst (cfb1_calls example_block True (replicate 16 1) [([0x5a], [0xff], 2), ([0x80], [0], 1)])"
    by code_simp
qed (simp_all add: chunk_fits_def)

end
