(* ===== verification/Cbc.thy ===== *)
theory Cbc
  imports Ctr32
begin

text \<open>
  Cipher block chaining, \<^verbatim>\<open>crypto/fipsmodule/modes/cbc.c\<close>, over a shared address space: the two buffers
  may overlap, and \<^verbatim>\<open>CRYPTO_cbc128_decrypt\<close> chooses between two loops by how they do. A pointer is an
  address; \<^verbatim>\<open>ivec\<close> lies outside both buffers, and the pointer \<^verbatim>\<open>iv\<close> is \<^verbatim>\<open>None\<close> while it is \<^verbatim>\<open>ivec\<close>.
\<close>

unbundle bit_operations_syntax

type_synonym mem = "nat \<Rightarrow> u8"

definition load :: "mem \<Rightarrow> nat \<Rightarrow> nat \<Rightarrow> bytes" where
  "load m a n = map m [a..<a + n]"

definition store :: "mem \<Rightarrow> nat \<Rightarrow> bytes \<Rightarrow> mem" where
  "store m a bs = (\<lambda>x. if a \<le> x \<and> x < a + length bs then bs ! (x - a) else m x)"

definition read_iv :: "mem \<Rightarrow> bytes \<Rightarrow> nat option \<Rightarrow> nat \<Rightarrow> nat \<Rightarrow> bytes" where
  "read_iv m ivec iv n k = (case iv of None \<Rightarrow> take k (drop n ivec) | Some a \<Rightarrow> load m (a + n) k)"

section \<open>Encryption\<close>

text \<open>\<^verbatim>\<open>for (n = 0; n < 16; n += sizeof(size_t))\<close> over words of \<^verbatim>\<open>src\<close> and \<^verbatim>\<open>iv\<close>, storing at \<^verbatim>\<open>out\<close>.\<close>

function cbc_xor :: "mem \<Rightarrow> nat \<Rightarrow> nat \<Rightarrow> bytes \<Rightarrow> nat option \<Rightarrow> nat \<Rightarrow> mem" where
  "cbc_xor m src out ivec iv n =
     (if n < 16
      then cbc_xor (store m (out + n) (store_word_le
             (load_word_le (load m (src + n) 8) XOR load_word_le (read_iv m ivec iv n 8)))) src out ivec iv (n + 8)
      else m)"
  by pat_completeness auto
termination by (relation "measure (\<lambda>(m, src, out, ivec, iv, n). 16 - n)") auto

declare cbc_xor.simps [simp del]

text \<open>Both byte loops of the last, short block: exclusive or for \<^verbatim>\<open>n < len\<close>, a copy of \<^verbatim>\<open>iv\<close> behind it.\<close>

function cbc_pad :: "mem \<Rightarrow> nat \<Rightarrow> nat \<Rightarrow> bytes \<Rightarrow> nat option \<Rightarrow> nat \<Rightarrow> nat \<Rightarrow> mem" where
  "cbc_pad m src out ivec iv len n =
     (if n < 16
      then cbc_pad (store m (out + n)
             [if n < len then m (src + n) XOR read_iv m ivec iv n 1 ! 0 else read_iv m ivec iv n 1 ! 0])
             src out ivec iv len (n + 1)
      else m)"
  by pat_completeness auto
termination by (relation "measure (\<lambda>(m, src, out, ivec, iv, len, n). 16 - n)") auto

declare cbc_pad.simps [simp del]

function cbc_enc_blocks ::
  "block128_f \<Rightarrow> mem \<Rightarrow> nat \<Rightarrow> nat \<Rightarrow> bytes \<Rightarrow> nat option \<Rightarrow> nat \<Rightarrow> mem \<times> nat \<times> nat \<times> nat option \<times> nat" where
  "cbc_enc_blocks block m src out ivec iv len =
     (if len \<ge> 16
      then (let m = cbc_xor m src out ivec iv 0;
                m = store m out (block (load m out 16))
            in cbc_enc_blocks block m (src + 16) (out + 16) ivec (Some out) (len - 16))
      else (m, src, out, iv, len))"
  by pat_completeness auto
termination by (relation "measure (\<lambda>(block, m, src, out, ivec, iv, len). len)") auto

declare cbc_enc_blocks.simps [simp del]

text \<open>The second loop runs at most once: what is left is shorter than a block.\<close>

function cbc_enc_rest ::
  "block128_f \<Rightarrow> mem \<Rightarrow> nat \<Rightarrow> nat \<Rightarrow> bytes \<Rightarrow> nat option \<Rightarrow> nat \<Rightarrow> mem \<times> nat option" where
  "cbc_enc_rest block m src out ivec iv len =
     (if len \<noteq> 0
      then (let m = cbc_pad m src out ivec iv len 0;
                m = store m out (block (load m out 16))
            in if len \<le> 16 then (m, Some out)
               else cbc_enc_rest block m (src + 16) (out + 16) ivec (Some out) (len - 16))
      else (m, iv))"
  by pat_completeness auto
termination by (relation "measure (\<lambda>(block, m, src, out, ivec, iv, len). len)") auto

declare cbc_enc_rest.simps [simp del]

definition CRYPTO_cbc128_encrypt :: "block128_f \<Rightarrow> mem \<Rightarrow> nat \<Rightarrow> nat \<Rightarrow> nat \<Rightarrow> bytes \<Rightarrow> mem \<times> bytes" where
  "CRYPTO_cbc128_encrypt block m src out len ivec =
     (case cbc_enc_blocks block m src out ivec None len of (m, src, out, iv, len) \<Rightarrow>
      case cbc_enc_rest block m src out ivec iv len of (m, iv) \<Rightarrow>
        (m, read_iv m ivec iv 0 16))"

section \<open>Decryption\<close>

text \<open>The loop for disjoint buffers, or \<^verbatim>\<open>out\<close> at least two blocks behind: \<^verbatim>\<open>iv\<close> points into the input.\<close>

function cbc_dec_far ::
  "block128_f \<Rightarrow> mem \<Rightarrow> nat \<Rightarrow> nat \<Rightarrow> bytes \<Rightarrow> nat option \<Rightarrow> nat \<Rightarrow> mem \<times> nat \<times> nat \<times> nat option \<times> nat" where
  "cbc_dec_far block m src out ivec iv len =
     (if len \<ge> 16
      then (let m = store m out (block (load m src 16));
                m = cbc_xor m out out ivec iv 0
            in cbc_dec_far block m (src + 16) (out + 16) ivec (Some src) (len - 16))
      else (m, src, out, iv, len))"
  by pat_completeness auto
termination by (relation "measure (\<lambda>(block, m, src, out, ivec, iv, len). len)") auto

declare cbc_dec_far.simps [simp del]

text \<open>The loop through the temporary block, which keeps the chaining value in \<^verbatim>\<open>ivec\<close>.\<close>

function cbc_dec_words :: "mem \<Rightarrow> nat \<Rightarrow> nat \<Rightarrow> bytes \<Rightarrow> bytes \<Rightarrow> nat \<Rightarrow> mem \<times> bytes" where
  "cbc_dec_words m src out tmp ivec n =
     (if n < 16
      then (let c = load_word_le (load m (src + n) 8);
                m = store m (out + n) (store_word_le (load_word_le (drop n tmp) XOR load_word_le (drop n ivec)));
                ivec = take n ivec @ store_word_le c @ drop (n + 8) ivec
            in cbc_dec_words m src out tmp ivec (n + 8))
      else (m, ivec))"
  by pat_completeness auto
termination by (relation "measure (\<lambda>(m, src, out, tmp, ivec, n). 16 - n)") auto

declare cbc_dec_words.simps [simp del]

function cbc_dec_near ::
  "block128_f \<Rightarrow> mem \<Rightarrow> nat \<Rightarrow> nat \<Rightarrow> bytes \<Rightarrow> nat \<Rightarrow> mem \<times> nat \<times> nat \<times> bytes \<times> nat" where
  "cbc_dec_near block m src out ivec len =
     (if len \<ge> 16
      then (case cbc_dec_words m src out (block (load m src 16)) ivec 0 of
              (m, ivec) \<Rightarrow> cbc_dec_near block m (src + 16) (out + 16) ivec (len - 16))
      else (m, src, out, ivec, len))"
  by pat_completeness auto
termination by (relation "measure (\<lambda>(block, m, src, out, ivec, len). len)") auto

declare cbc_dec_near.simps [simp del]

text \<open>The last, short block. A whole block is read from \<^verbatim>\<open>in\<close>, \<^verbatim>\<open>len\<close> bytes are written.\<close>

function cbc_dec_bytes :: "mem \<Rightarrow> nat \<Rightarrow> nat \<Rightarrow> bytes \<Rightarrow> bytes \<Rightarrow> nat \<Rightarrow> nat \<Rightarrow> mem \<times> bytes" where
  "cbc_dec_bytes m src out tmp ivec len n =
     (if n < 16 \<and> n < len
      then (let c = m (src + n)
            in cbc_dec_bytes (store m (out + n) [tmp ! n XOR ivec ! n]) src out tmp (ivec[n := c]) len (n + 1))
      else (m, ivec))"
  by pat_completeness auto
termination by (relation "measure (\<lambda>(m, src, out, tmp, ivec, len, n). 16 - n)") auto

declare cbc_dec_bytes.simps [simp del]

function cbc_dec_rest :: "block128_f \<Rightarrow> mem \<Rightarrow> nat \<Rightarrow> nat \<Rightarrow> bytes \<Rightarrow> nat \<Rightarrow> mem \<times> bytes" where
  "cbc_dec_rest block m src out ivec len =
     (if len \<noteq> 0
      then (case cbc_dec_bytes m src out (block (load m src 16)) ivec len 0 of
              (m, ivec) \<Rightarrow>
                if len \<le> 16 then (m, take len ivec @ load m (src + len) (16 - len))
                else cbc_dec_rest block m (src + 16) (out + 16) ivec (len - 16))
      else (m, ivec))"
  by pat_completeness auto
termination by (relation "measure (\<lambda>(block, m, src, out, ivec, len). len)") auto

declare cbc_dec_rest.simps [simp del]

definition CRYPTO_cbc128_decrypt :: "block128_f \<Rightarrow> mem \<Rightarrow> nat \<Rightarrow> nat \<Rightarrow> nat \<Rightarrow> bytes \<Rightarrow> mem \<times> bytes" where
  "CRYPTO_cbc128_decrypt block m src out len ivec =
     (if (src \<ge> 32 \<and> out \<le> src - 32) \<or> src < out
      then (case cbc_dec_far block m src out ivec None len of (m, src, out, iv, len) \<Rightarrow>
              cbc_dec_rest block m src out (read_iv m ivec iv 0 16) len)
      else (case cbc_dec_near block m src out ivec len of (m, src, out, ivec, len) \<Rightarrow>
              cbc_dec_rest block m src out ivec len))"

section \<open>The mode as a function on byte strings\<close>

function cbc_cipher :: "block128_f \<Rightarrow> bytes \<Rightarrow> bytes \<Rightarrow> bytes" where
  "cbc_cipher block iv xs =
     (if xs = [] then []
      else (let c = block (xor_bytes (take 16 (xs @ replicate 15 0)) iv) in c @ cbc_cipher block c (drop 16 xs)))"
  by pat_completeness auto
termination by (relation "measure (\<lambda>(block, iv, xs). length xs)") auto

declare cbc_cipher.simps [simp del]

function cbc_plain :: "block128_f \<Rightarrow> bytes \<Rightarrow> bytes \<Rightarrow> bytes" where
  "cbc_plain dec iv ys =
     (if ys = [] then []
      else xor_bytes (dec (take 16 ys)) iv @ cbc_plain dec (take 16 ys) (drop 16 ys))"
  by pat_completeness auto
termination by (relation "measure (\<lambda>(dec, iv, ys). length ys)") auto

declare cbc_plain.simps [simp del]

definition last_block :: "bytes \<Rightarrow> bytes" where
  "last_block xs = drop (length xs - 16) xs"

text \<open>\<^verbatim>\<open>len\<close> rounded up to a whole number of blocks.\<close>

definition round_up :: "nat \<Rightarrow> nat" where
  "round_up len = 16 * ((len + 15) div 16)"

section \<open>Memory\<close>

lemma length_load [simp]: "length (load m a n) = n"
  by (simp add: load_def)

lemma nth_load [simp]: "i < n \<Longrightarrow> load m a n ! i = m (a + i)"
  by (simp add: load_def)

lemma load_0 [simp]: "load m a 0 = []"
  by (simp add: load_def)

lemma load_store_other: "a + n \<le> b \<or> b + length bs \<le> a \<Longrightarrow> load (store m b bs) a n = load m a n"
  by (intro nth_equalityI) (auto simp: store_def)

lemma load_store_same: "n = length bs \<Longrightarrow> load (store m a bs) a n = bs"
  by (intro nth_equalityI) (auto simp: store_def)

lemma store_append: "store (store m a bs) (a + length bs) cs = store m a (bs @ cs)"
  by (rule ext) (auto simp: store_def nth_append)

lemma store_store_same: "length cs = length bs \<Longrightarrow> store (store m a bs) a cs = store m a cs"
  by (rule ext) (auto simp: store_def)

lemma store_Nil [simp]: "store m a [] = m"
  by (rule ext) (auto simp: store_def)

lemma load_add: "load m a (n + k) = load m a n @ load m (a + n) k"
  by (rule nth_equalityI) (auto simp: nth_append)

lemma take_load: "k \<le> n \<Longrightarrow> take k (load m a n) = load m a k"
  by (rule nth_equalityI) auto

lemma drop_load: "k \<le> n \<Longrightarrow> drop k (load m a n) = load m (a + k) (n - k)"
  by (rule nth_equalityI) (auto simp: add.assoc)

lemma store_other: "x < a \<or> a + length bs \<le> x \<Longrightarrow> store m a bs x = m x"
  by (auto simp: store_def)

text \<open>A chaining pointer that no write to \<^verbatim>\<open>[out, \<infinity>)\<close> touches.\<close>

definition iv_below :: "nat option \<Rightarrow> nat \<Rightarrow> bool" where
  "iv_below iv out \<longleftrightarrow> (case iv of None \<Rightarrow> True | Some a \<Rightarrow> a + 16 \<le> out)"

definition iv_clear :: "nat option \<Rightarrow> nat \<Rightarrow> nat \<Rightarrow> bool" where
  "iv_clear iv out n \<longleftrightarrow> (case iv of None \<Rightarrow> True | Some a \<Rightarrow> a + 16 \<le> out \<or> out + n \<le> a)"

lemma read_iv_store:
  "iv_clear iv b (length bs) \<Longrightarrow> n + k \<le> 16 \<Longrightarrow> read_iv (store m b bs) ivec iv n k = read_iv m ivec iv n k"
  by (auto simp: read_iv_def iv_clear_def load_store_other split: option.splits)

lemma length_read_iv [simp]: "length ivec = 16 \<Longrightarrow> n + k \<le> 16 \<Longrightarrow> length (read_iv m ivec iv n k) = k"
  by (auto simp: read_iv_def split: option.splits)

lemma read_iv_split: "n + j + k \<le> 16 \<Longrightarrow> length ivec = 16 \<Longrightarrow> read_iv m ivec iv n (j + k) = read_iv m ivec iv n j @ read_iv m ivec iv (n + j) k"
  by (auto simp: read_iv_def load_add take_add add.assoc split: option.splits) (simp add: add.commute)

lemma cbc_xor_all:
  assumes l: "length ivec = 16" and ov: "out \<le> src \<or> src + 16 \<le> out" and iv: "iv_clear iv out 16"
  shows "cbc_xor m src out ivec iv 0 = store m out (xor_bytes (load m src 16) (read_iv m ivec iv 0 16))"
proof -
  let ?x = "\<lambda>m n. store_word_le (load_word_le (load m (src + n) 8) XOR load_word_le (read_iv m ivec iv n 8))"
  let ?m = "store m out (?x m 0)"
  have w: "?x m n = xor_bytes (load m (src + n) 8) (read_iv m ivec iv n 8)" if "n \<le> 8" for m n
    by (rule store_load_xor) (use l that in simp_all)
  have "iv_clear iv out 8" using iv by (auto simp: iv_clear_def split: option.splits)
  then have r: "read_iv ?m ivec iv 8 8 = read_iv m ivec iv 8 8" by (intro read_iv_store) simp_all
  have s: "load ?m (src + 8) 8 = load m (src + 8) 8" by (rule load_store_other) (use ov in auto)
  have "cbc_xor m src out ivec iv 0 = store ?m (out + 8) (?x ?m 8)"
    by (simp add: cbc_xor.simps [of _ _ _ _ _ 0] cbc_xor.simps [of _ _ _ _ _ 8] cbc_xor.simps [of _ _ _ _ _ 16])
  also have "\<dots> = store m out (?x m 0 @ ?x m 8)" unfolding s r using store_append [of m out "?x m 0"] by simp
  also have "?x m 0 @ ?x m 8 = xor_bytes (load m src 8 @ load m (src + 8) 8) (read_iv m ivec iv 0 8 @ read_iv m ivec iv 8 8)"
    using w [of 0 m] w [of 8 m] l by (simp add: xor_bytes_append)
  also have "\<dots> = xor_bytes (load m src 16) (read_iv m ivec iv 0 16)"
    using load_add [of m src 8 8] read_iv_split [of 0 8 8 ivec m iv] l by simp
  finally show ?thesis .
qed

lemma read_iv_nth: "length ivec = 16 \<Longrightarrow> n < 16 \<Longrightarrow> read_iv m ivec iv n 1 ! 0 = read_iv m ivec iv 0 16 ! n"
  by (auto simp: read_iv_def split: option.splits)

lemma cbc_pad_loop:
  assumes l: "length ivec = 16" and ov: "out \<le> src \<or> src + len \<le> out" and iv: "iv_below iv out" and len: "len \<le> 16"
    and T: "T = xor_bytes (load m src len @ replicate (16 - len) 0) (read_iv m ivec iv 0 16)" and "n \<le> 16"
  shows "cbc_pad (store m out (take n T)) src out ivec iv len n = store m out T"
  using assms(6)
proof (induction "16 - n" arbitrary: n)
  case 0
  then have "n = 16" by simp
  moreover have "length T = 16" using l len by (simp add: T)
  ultimately show ?case by (simp add: cbc_pad.simps)
next
  case (Suc k)
  then have n: "n < 16" by simp
  have lT: "length T = 16" using l len by (simp add: T)
  let ?m = "store m out (take n T)"
  have "iv_clear iv out n" using iv by (auto simp: iv_below_def iv_clear_def split: option.splits)
  then have c: "read_iv ?m ivec iv n 1 = read_iv m ivec iv n 1" by (intro read_iv_store) (use n lT in simp_all)
  have r: "read_iv ?m ivec iv n 1 ! 0 = read_iv m ivec iv 0 16 ! n" unfolding c by (rule read_iv_nth [OF l n])
  have s: "?m (src + n) = m (src + n)" if "n < len"
    by (rule store_other) (use ov that lT n in auto)
  have v: "(if n < len then ?m (src + n) XOR read_iv ?m ivec iv n 1 ! 0 else read_iv ?m ivec iv n 1 ! 0) = T ! n"
  proof -
    have "T ! n = (if n < len then m (src + n) XOR read_iv m ivec iv 0 16 ! n else read_iv m ivec iv 0 16 ! n)"
      unfolding T using n l len by (auto simp: nth_append)
    then show ?thesis unfolding r using s by simp
  qed
  have "store ?m (out + n) [T ! n] = store m out (take (Suc n) T)"
    using store_append [of m out "take n T" "[T ! n]"] n lT by (simp add: take_Suc_conv_app_nth)
  then show ?case using Suc.hyps n v by (simp add: cbc_pad.simps [of _ _ _ _ _ _ n])
qed

lemma cbc_pad_all:
  assumes "length ivec = 16" and "out \<le> src \<or> src + len \<le> out" and "iv_below iv out" and "len \<le> 16"
  shows "cbc_pad m src out ivec iv len 0 =
    store m out (xor_bytes (load m src len @ replicate (16 - len) 0) (read_iv m ivec iv 0 16))"
  using cbc_pad_loop [OF assms refl, of 0 m] by simp

lemma cbc_cipher_Nil [simp]: "cbc_cipher block iv [] = []"
  by (simp add: cbc_cipher.simps)

lemma cbc_cipher_block:
  assumes "length xs = 16"
  shows "cbc_cipher block iv (xs @ ys) =
    block (xor_bytes xs iv) @ cbc_cipher block (block (xor_bytes xs iv)) ys"
proof -
  have "xs \<noteq> []" using assms by auto
  then show ?thesis using assms by (simp add: cbc_cipher.simps [of block iv "xs @ ys"] Let_def)
qed

lemma cbc_cipher_short:
  assumes "xs \<noteq> []" and "length xs \<le> 16"
  shows "cbc_cipher block iv xs = block (xor_bytes (xs @ replicate (16 - length xs) 0) iv)"
proof -
  have "take 16 (xs @ replicate 15 (0 :: u8)) = xs @ replicate (16 - length xs) 0"
    using assms by (cases "length xs") (auto simp: take_replicate min_def)
  then show ?thesis using assms by (simp add: cbc_cipher.simps [of block iv xs] Let_def)
qed

lemma cbc_enc_blocks_all:
  assumes bc: "block_contract block" and l: "length ivec = 16" and ov: "out \<le> src \<or> src + len \<le> out"
    and iv: "iv_below iv out" and k: "k = len div 16"
  obtains iv' where "cbc_enc_blocks block m src out ivec iv len =
      (store m out (cbc_cipher block (read_iv m ivec iv 0 16) (load m src (16 * k))), src + 16 * k, out + 16 * k, iv', len mod 16)"
    and "iv_below iv' (out + 16 * k)"
    and "read_iv (store m out (cbc_cipher block (read_iv m ivec iv 0 16) (load m src (16 * k)))) ivec iv' 0 16 =
      last_block (read_iv m ivec iv 0 16 @ cbc_cipher block (read_iv m ivec iv 0 16) (load m src (16 * k)))"
    and "length (cbc_cipher block (read_iv m ivec iv 0 16) (load m src (16 * k))) = 16 * k"
  using ov iv k
proof (induction k arbitrary: m src out iv len thesis)
  case 0
  then have "len < 16" by (simp add: div_eq_0_iff)
  then have "cbc_enc_blocks block m src out ivec iv len = (m, src, out, iv, len)" by (simp add: cbc_enc_blocks.simps)
  then show ?case using 0(1) [of iv] 0(3) l \<open>len < 16\<close> by (simp add: last_block_def)
next
  case (Suc k)
  let ?v = "read_iv m ivec iv 0 16"
  have len: "16 \<le> len" using Suc.prems(4) by (metis div_less not_le nat.simps(3))
  have k: "k = (len - 16) div 16" "len mod 16 = (len - 16) mod 16" using len Suc.prems(4) by (simp_all add: le_mod_geq)
  define c1 where "c1 = block (xor_bytes (load m src 16) ?v)"
  define m1 where "m1 = store m out c1"
  have l1: "length c1 = 16" using bc by (simp add: c1_def block_contract_def)
  have "iv_clear iv out 16" using Suc.prems(3) by (auto simp: iv_below_def iv_clear_def split: option.splits)
  then have x: "cbc_xor m src out ivec iv 0 = store m out (xor_bytes (load m src 16) ?v)"
    using Suc.prems(2) len by (intro cbc_xor_all [OF l]) auto
  have e: "cbc_enc_blocks block m src out ivec iv len = cbc_enc_blocks block m1 (src + 16) (out + 16) ivec (Some out) (len - 16)"
    using len l l1 by (simp add: cbc_enc_blocks.simps [of block m src] Let_def x load_store_same store_store_same m1_def c1_def)
  have v1: "read_iv m1 ivec (Some out) 0 16 = c1" using l1 by (simp add: read_iv_def m1_def load_store_same)
  have ld: "load m1 (src + 16) (16 * k) = load m (src + 16) (16 * k)"
    unfolding m1_def by (rule load_store_other) (use Suc.prems(2, 4) l1 in auto)
  have "load m src (16 * Suc k) = load m src 16 @ load m (src + 16) (16 * k)" using load_add [of m src 16 "16 * k"] by simp
  then have c: "cbc_cipher block ?v (load m src (16 * Suc k)) = c1 @ cbc_cipher block c1 (load m (src + 16) (16 * k))"
    by (simp add: cbc_cipher_block c1_def)
  have st: "store m1 (out + 16) cs = store m out (c1 @ cs)" for cs
    using store_append [of m out c1 cs] l1 by (simp add: m1_def)
  have lb: "last_block (?v @ c1 @ cs) = last_block (c1 @ cs)" for cs using l1 by (simp add: last_block_def)
  have "out + 16 \<le> src + 16 \<or> src + 16 + (len - 16) \<le> out + 16" using Suc.prems(2) len by auto
  moreover have "iv_below (Some out) (out + 16)" by (simp add: iv_below_def)
  ultimately show ?case
    using Suc.IH [where m = m1 and src = "src + 16" and out = "out + 16" and iv = "Some out" and len = "len - 16" and thesis = thesis] Suc.prems(1) k
    unfolding e v1 ld c st lb by (auto simp: l1 algebra_simps)
qed

lemma cbc_cipher_append:
  "length xs = 16 * k \<Longrightarrow>
    cbc_cipher block iv (xs @ ys) = cbc_cipher block iv xs @ cbc_cipher block (last_block (iv @ cbc_cipher block iv xs)) ys"
  if "block_contract block" and "length iv = 16"
  using that(2)
proof (induction k arbitrary: xs iv)
  case (Suc k)
  define x1 x2 where "x1 = take 16 xs" and "x2 = drop 16 xs"
  have xs: "xs = x1 @ x2" and l1: "length x1 = 16" and l2: "length x2 = 16 * k" using Suc.prems(1) by (simp_all add: x1_def x2_def)
  let ?c = "block (xor_bytes x1 iv)"
  have lc: "length ?c = 16" using that(1) by (simp add: block_contract_def)
  have lb: "last_block (iv @ ?c @ cs) = last_block (?c @ cs)" for cs using lc by (simp add: last_block_def)
  show ?case unfolding xs append.assoc cbc_cipher_block [OF l1] lb Suc.IH [OF l2 lc] by simp
qed (simp add: last_block_def)

lemma length_cbc_cipher:
  "block_contract block \<Longrightarrow> length (cbc_cipher block iv xs) = round_up (length xs)"
proof (induction block iv xs rule: cbc_cipher.induct)
  case (1 block iv xs)
  show ?case
  proof (cases "xs = []")
    case False
    have l: "length (block y) = 16" for y using 1(2) by (simp add: block_contract_def)
    have "round_up (length xs) = 16 + round_up (length xs - 16)"
      using False by (cases "16 \<le> length xs") (auto simp: round_up_def div_eq_0_iff le_div_geq Suc_leI div_nat_eqI)
    then show ?thesis using 1(1) [OF False refl 1(2)] False l by (subst cbc_cipher.simps) (simp add: Let_def)
  qed (simp add: round_up_def)
qed

lemma CRYPTO_cbc128_encrypt_eq:
  assumes bc: "block_contract block" and l: "length ivec = 16" and ov: "out \<le> src \<or> src + len \<le> out"
  shows "CRYPTO_cbc128_encrypt block m src out len ivec =
    (store m out (cbc_cipher block ivec (load m src len)), last_block (ivec @ cbc_cipher block ivec (load m src len)))"
proof -
  define k r where "k = len div 16" and "r = len mod 16"
  have len: "len = 16 * k + r" and r: "r < 16" by (simp_all add: k_def r_def)
  have ri: "read_iv m ivec None 0 16 = ivec" using l by (simp add: read_iv_def)
  define C where "C = cbc_cipher block ivec (load m src (16 * k))"
  define m1 where "m1 = store m out C"
  obtain iv1 where b: "cbc_enc_blocks block m src out ivec None len = (m1, src + 16 * k, out + 16 * k, iv1, r)"
    "iv_below iv1 (out + 16 * k)" "read_iv m1 ivec iv1 0 16 = last_block (ivec @ C)" "length C = 16 * k"
    by (rule cbc_enc_blocks_all [OF bc l ov _ k_def, where m = m and iv = None])
       (auto simp: ri r_def m1_def C_def iv_below_def)
  have ld: "load m src len = load m src (16 * k) @ load m (src + 16 * k) r" unfolding len by (rule load_add)
  have cc: "cbc_cipher block ivec (load m src len) =
      C @ cbc_cipher block (last_block (ivec @ C)) (load m (src + 16 * k) r)"
    unfolding ld C_def by (rule cbc_cipher_append [OF bc l]) simp
  show ?thesis
  proof (cases "r = 0")
    case True
    then have "cbc_enc_rest block m1 (src + 16 * k) (out + 16 * k) ivec iv1 r = (m1, iv1)" by (simp add: cbc_enc_rest.simps)
    then show ?thesis using b True cc by (simp add: CRYPTO_cbc128_encrypt_def m1_def)
  next
    case False
    have ldr: "load m1 (src + 16 * k) r = load m (src + 16 * k) r"
      unfolding m1_def by (rule load_store_other) (use ov len b(4) in auto)
    let ?x = "xor_bytes (load m (src + 16 * k) r @ replicate (16 - r) 0) (last_block (ivec @ C))"
    have p: "cbc_pad m1 (src + 16 * k) (out + 16 * k) ivec iv1 r 0 = store m1 (out + 16 * k) ?x"
      using cbc_pad_all [OF l _ b(2), of "src + 16 * k" r m1] ov len r unfolding b(3) ldr by auto
    have "length (last_block (ivec @ C)) = 16" using l b(4) by (simp add: last_block_def)
    then have lx: "length ?x = 16" using r by simp
    have c1: "cbc_cipher block (last_block (ivec @ C)) (load m (src + 16 * k) r) = block ?x"
      using cbc_cipher_short [of "load m (src + 16 * k) r" block "last_block (ivec @ C)"] False r
      by (metis length_0_conv length_load less_imp_le)
    have lb: "length (block ?x) = 16" using bc by (simp add: block_contract_def)
    have "cbc_enc_rest block m1 (src + 16 * k) (out + 16 * k) ivec iv1 r =
        (store m1 (out + 16 * k) (block ?x), Some (out + 16 * k))"
      using False r lx lb by (simp add: cbc_enc_rest.simps Let_def p load_store_same store_store_same)
    moreover have "store m1 (out + 16 * k) (block ?x) = store m out (C @ block ?x)"
      using store_append [of m out C] b(4) by (simp add: m1_def)
    moreover have "read_iv (store m1 (out + 16 * k) (block ?x)) ivec (Some (out + 16 * k)) 0 16 = block ?x"
      using lb by (simp add: read_iv_def load_store_same)
    moreover have "last_block (ivec @ C @ block ?x) = block ?x" using lb by (simp add: last_block_def)
    ultimately show ?thesis using b cc c1 by (simp add: CRYPTO_cbc128_encrypt_def)
  qed
qed

section \<open>Decryption is the inverse function\<close>

lemma cbc_plain_Nil [simp]: "cbc_plain dec iv [] = []"
  by (simp add: cbc_plain.simps)

lemma cbc_plain_block:
  assumes "length xs = 16"
  shows "cbc_plain dec iv (xs @ ys) = xor_bytes (dec xs) iv @ cbc_plain dec xs ys"
proof -
  have "xs \<noteq> []" using assms by auto
  then show ?thesis using assms by (simp add: cbc_plain.simps [of dec iv "xs @ ys"])
qed

lemma cbc_plain_append:
  "length xs = 16 * k \<Longrightarrow> length iv = 16 \<Longrightarrow>
    cbc_plain dec iv (xs @ ys) = cbc_plain dec iv xs @ cbc_plain dec (last_block (iv @ xs)) ys"
proof (induction k arbitrary: xs iv)
  case (Suc k)
  define x1 x2 where "x1 = take 16 xs" and "x2 = drop 16 xs"
  have xs: "xs = x1 @ x2" and l1: "length x1 = 16" and l2: "length x2 = 16 * k" using Suc.prems(1) by (simp_all add: x1_def x2_def)
  have lb: "last_block (iv @ x1 @ cs) = last_block (x1 @ cs)" for cs using l1 by (simp add: last_block_def)
  show ?case unfolding xs append.assoc cbc_plain_block [OF l1] lb Suc.IH [OF l2 l1] by simp
qed (simp add: last_block_def)

lemma length_cbc_plain:
  "block_contract dec \<Longrightarrow> length xs = 16 * k \<Longrightarrow> length iv = 16 \<Longrightarrow> length (cbc_plain dec iv xs) = 16 * k"
proof (induction k arbitrary: xs iv)
  case (Suc k)
  define x1 x2 where "x1 = take 16 xs" and "x2 = drop 16 xs"
  have xs: "xs = x1 @ x2" and l1: "length x1 = 16" and l2: "length x2 = 16 * k" using Suc.prems(2) by (simp_all add: x1_def x2_def)
  have "length (dec x1) = 16" using Suc.prems(1) by (simp add: block_contract_def)
  then show ?case unfolding xs cbc_plain_block [OF l1] using Suc.IH [OF Suc.prems(1) l2 l1] Suc.prems(3) by simp
qed simp

text \<open>What the two loops over whole blocks have in common: the result of decrypting \<^verbatim>\<open>k\<close> blocks.\<close>

definition dec_far_ok :: "nat \<Rightarrow> nat \<Rightarrow> nat \<Rightarrow> bool" where
  "dec_far_ok src out len \<longleftrightarrow> out + 32 \<le> src \<or> src + len \<le> out"

lemma cbc_dec_far_all:
  assumes bc: "block_contract dec" and l: "length ivec = 16" and ov: "dec_far_ok src out len"
    and iv: "iv = None \<or> iv = Some (src - 16) \<and> 16 \<le> src" and k: "k = len div 16"
  obtains iv' where "cbc_dec_far dec m src out ivec iv len =
      (store m out (cbc_plain dec (read_iv m ivec iv 0 16) (load m src (16 * k))), src + 16 * k, out + 16 * k, iv', len mod 16)"
    and "read_iv (store m out (cbc_plain dec (read_iv m ivec iv 0 16) (load m src (16 * k)))) ivec iv' 0 16 =
      last_block (read_iv m ivec iv 0 16 @ load m src (16 * k))"
  using ov iv k
proof (induction k arbitrary: m src out iv len thesis)
  case 0
  then have "len < 16" by (simp add: div_eq_0_iff)
  then have "cbc_dec_far dec m src out ivec iv len = (m, src, out, iv, len)" by (simp add: cbc_dec_far.simps)
  then show ?case using 0(1) [of iv] l \<open>len < 16\<close> by (simp add: last_block_def)
next
  case (Suc k)
  let ?v = "read_iv m ivec iv 0 16"
  have len: "16 \<le> len" using Suc.prems(4) by (metis div_less not_le nat.simps(3))
  have k: "k = (len - 16) div 16" "len mod 16 = (len - 16) mod 16" using len Suc.prems(4) by (simp_all add: le_mod_geq)
  define p1 where "p1 = xor_bytes (dec (load m src 16)) ?v"
  define m1 where "m1 = store m out p1"
  let ?m0 = "store m out (dec (load m src 16))"
  have ld: "length (dec (load m src 16)) = 16" using bc by (simp add: block_contract_def)
  then have l1: "length p1 = 16" using l by (simp add: p1_def)
  have cl: "iv_clear iv out 16" using Suc.prems(2, 3) len by (auto simp: iv_clear_def dec_far_ok_def)
  then have r: "read_iv ?m0 ivec iv 0 16 = ?v" by (intro read_iv_store) (simp_all add: ld)
  have x: "cbc_xor ?m0 out out ivec iv 0 = m1"
    using cbc_xor_all [OF l _ cl, of out ?m0] l1 ld unfolding r by (simp add: load_store_same store_store_same m1_def p1_def)
  have e: "cbc_dec_far dec m src out ivec iv len = cbc_dec_far dec m1 (src + 16) (out + 16) ivec (Some src) (len - 16)"
    using len by (simp add: cbc_dec_far.simps [of dec m src] Let_def x)
  have v1: "read_iv m1 ivec (Some src) 0 16 = load m src 16"
  proof -
    have "load (store m out p1) src 16 = load m src 16"
      by (rule load_store_other) (use Suc.prems(2) len l1 in \<open>auto simp: dec_far_ok_def\<close>)
    then show ?thesis by (simp add: read_iv_def m1_def)
  qed
  have ld2: "load m1 (src + 16) (16 * k) = load m (src + 16) (16 * k)"
    unfolding m1_def by (rule load_store_other) (use Suc.prems(2, 4) l1 in \<open>auto simp: dec_far_ok_def\<close>)
  have la: "load m src (16 * Suc k) = load m src 16 @ load m (src + 16) (16 * k)" using load_add [of m src 16 "16 * k"] by simp
  then have c: "cbc_plain dec ?v (load m src (16 * Suc k)) = p1 @ cbc_plain dec (load m src 16) (load m (src + 16) (16 * k))"
    by (simp add: cbc_plain_block p1_def)
  have st: "store m1 (out + 16) cs = store m out (p1 @ cs)" for cs
    using store_append [of m out p1 cs] l1 by (simp add: m1_def)
  have lb: "last_block (?v @ load m src (16 * Suc k)) = last_block (load m src 16 @ load m (src + 16) (16 * k))"
    unfolding la by (simp add: last_block_def)
  have "dec_far_ok (src + 16) (out + 16) (len - 16)" using Suc.prems(2) len by (auto simp: dec_far_ok_def)
  then show ?case
    using Suc.IH [where m = m1 and src = "src + 16" and out = "out + 16" and iv = "Some src" and len = "len - 16" and thesis = thesis]
      Suc.prems(1) k
    unfolding e v1 ld2 c st lb by (auto simp: algebra_simps)
qed

lemma cbc_dec_words_all:
  assumes "length tmp = 16" and "length ivec = 16" and "out \<le> src"
  shows "cbc_dec_words m src out tmp ivec 0 = (store m out (xor_bytes tmp ivec), load m src 16)"
proof -
  define t1 t2 where "t1 = take 8 tmp" and "t2 = drop 8 tmp"
  define v1 v2 where "v1 = take 8 ivec" and "v2 = drop 8 ivec"
  have l: "length t1 = 8" "length t2 = 8" "length v1 = 8" "length v2 = 8"
    using assms by (simp_all add: t1_def t2_def v1_def v2_def)
  have tv: "tmp = t1 @ t2" "ivec = v1 @ v2" by (simp_all add: t1_def t2_def v1_def v2_def)
  have h: "load_word_le (xs @ ys) = load_word_le xs" if "length xs = 8" for xs ys
    using that by (simp add: load_word_le_def)
  have s: "load (store m out (xor_bytes t1 v1)) (src + 8) 8 = load m (src + 8) 8"
    by (rule load_store_other) (use assms(3) l in auto)
  have a: "store (store m out (xor_bytes t1 v1)) (out + 8) bs = store m out (xor_bytes t1 v1 @ bs)" for bs
    using store_append [of m out "xor_bytes t1 v1" bs] l by simp
  have x: "xor_bytes (t1 @ t2) (v1 @ v2) = xor_bytes t1 v1 @ xor_bytes t2 v2" using l by (simp add: xor_bytes_append)
  show ?thesis
    unfolding tv x using l load_add [of m src 8 8]
    by (simp add: cbc_dec_words.simps [of _ _ _ _ _ 0] cbc_dec_words.simps [of _ _ _ _ _ 8]
        cbc_dec_words.simps [of _ _ _ _ _ 16] Let_def h store_load_xor store_load s a)
qed

lemma cbc_dec_near_all:
  assumes bc: "block_contract dec" and l: "length ivec = 16" and ov: "out \<le> src" and k: "k = len div 16"
  shows "cbc_dec_near dec m src out ivec len =
    (store m out (cbc_plain dec ivec (load m src (16 * k))), src + 16 * k, out + 16 * k,
     last_block (ivec @ load m src (16 * k)), len mod 16)"
  using l ov k
proof (induction k arbitrary: m src out ivec len)
  case 0
  then have "len < 16" by (simp add: div_eq_0_iff)
  then show ?case using 0(1) by (simp add: cbc_dec_near.simps last_block_def)
next
  case (Suc k)
  have len: "16 \<le> len" using Suc.prems(3) by (metis div_less not_le nat.simps(3))
  have k: "k = (len - 16) div 16" "len mod 16 = (len - 16) mod 16" using len Suc.prems(3) by (simp_all add: le_mod_geq)
  define p1 where "p1 = xor_bytes (dec (load m src 16)) ivec"
  define m1 where "m1 = store m out p1"
  have ld: "length (dec (load m src 16)) = 16" using bc by (simp add: block_contract_def)
  then have l1: "length p1 = 16" using Suc.prems(1) by (simp add: p1_def)
  have e: "cbc_dec_near dec m src out ivec len = cbc_dec_near dec m1 (src + 16) (out + 16) (load m src 16) (len - 16)"
    using len cbc_dec_words_all [OF ld Suc.prems(1, 2)] by (simp add: cbc_dec_near.simps [of dec m src] m1_def p1_def)
  have ld2: "load m1 (src + 16) (16 * k) = load m (src + 16) (16 * k)"
    unfolding m1_def by (rule load_store_other) (use Suc.prems(2) l1 in auto)
  have la: "load m src (16 * Suc k) = load m src 16 @ load m (src + 16) (16 * k)" using load_add [of m src 16 "16 * k"] by simp
  then have c: "cbc_plain dec ivec (load m src (16 * Suc k)) = p1 @ cbc_plain dec (load m src 16) (load m (src + 16) (16 * k))"
    by (simp add: cbc_plain_block p1_def)
  have st: "store m1 (out + 16) cs = store m out (p1 @ cs)" for cs
    using store_append [of m out p1 cs] l1 by (simp add: m1_def)
  have lb: "last_block (ivec @ load m src (16 * Suc k)) = last_block (load m src 16 @ load m (src + 16) (16 * k))"
    unfolding la by (simp add: last_block_def)
  show ?case
    using Suc.IH [of "load m src 16" "out + 16" "src + 16" "len - 16" m1] Suc.prems(2) k
    unfolding e ld2 c st lb by (simp add: algebra_simps)
qed

lemma cbc_dec_bytes_loop:
  assumes "out \<le> src \<or> src + len \<le> out" and "len \<le> 16" and "length v = 16" and "length tmp = 16" and "n \<le> len"
  shows "cbc_dec_bytes (store m out (take n (xor_bytes tmp v))) src out tmp (load m src n @ drop n v) len n =
    (store m out (take len (xor_bytes tmp v)), load m src len @ drop len v)"
  using assms(5)
proof (induction "len - n" arbitrary: n)
  case 0
  then show ?case by (simp add: cbc_dec_bytes.simps)
next
  case (Suc k)
  let ?x = "xor_bytes tmp v"
  have n: "n < len" "n < 16" using Suc.hyps(2) assms(2) by simp_all
  have lx: "length ?x = 16" using assms(3, 4) by simp
  have s: "store m out (take n ?x) (src + n) = m (src + n)" by (rule store_other) (use assms(1) n lx in auto)
  have i: "tmp ! n XOR (load m src n @ drop n v) ! n = ?x ! n" using n assms(3, 4) by (simp add: nth_append)
  have u: "(load m src n @ drop n v)[n := m (src + n)] = load m src (Suc n) @ drop (Suc n) v"
    using n assms(3) load_add [of m src n 1] by (simp add: list_update_append load_def) (metis Cons_nth_drop_Suc list_update_code(2))
  have a: "store (store m out (take n ?x)) (out + n) [?x ! n] = store m out (take (Suc n) ?x)"
    using store_append [of m out "take n ?x" "[?x ! n]"] n lx by (simp add: take_Suc_conv_app_nth)
  show ?case
    using Suc.hyps(1) [of "Suc n"] Suc.hyps(2) n
    by (simp add: cbc_dec_bytes.simps [of "store m out (take n ?x)" src out tmp "load m src n @ drop n v" len n] s i u a)
qed

lemma cbc_dec_rest_all:
  assumes bc: "block_contract dec" and l: "length v = 16" and "len < 16" and ov: "out \<le> src \<or> src + round_up len \<le> out"
  shows "cbc_dec_rest dec m src out v len =
    (store m out (take len (cbc_plain dec v (load m src (round_up len)))), last_block (v @ load m src (round_up len)))"
proof (cases "len = 0")
  case True
  then show ?thesis using l by (simp add: cbc_dec_rest.simps round_up_def last_block_def)
next
  case False
  then have ru: "round_up len = 16" using assms(3) by (simp add: round_up_def div_nat_eqI)
  have ld: "length (dec (load m src 16)) = 16" using bc by (simp add: block_contract_def)
  define P where "P = xor_bytes (dec (load m src 16)) v"
  have lP: "length P = 16" using ld l by (simp add: P_def)
  have pl: "cbc_plain dec v (load m src 16) = P" using cbc_plain_block [of "load m src 16" dec v "[]"] by (simp add: P_def)
  have b: "cbc_dec_bytes m src out (dec (load m src 16)) v len 0 = (store m out (take len P), load m src len @ drop len v)"
    using cbc_dec_bytes_loop [of out src len v "dec (load m src 16)" 0 m] ov assms(3) l ld
    unfolding P_def ru by auto
  have r: "load (store m out (take len P)) (src + len) (16 - len) = load m (src + len) (16 - len)"
    by (rule load_store_other) (use ov assms(3) lP in \<open>auto simp: ru\<close>)
  have "load m src len @ load m (src + len) (16 - len) = load m src 16" using load_add [of m src len "16 - len"] assms(3) by simp
  then show ?thesis
    using False assms(3) b r by (simp add: cbc_dec_rest.simps ru pl last_block_def)
qed

lemma last_block_last: "16 \<le> length a \<Longrightarrow> last_block (last_block a @ b) = last_block (a @ b)"
proof -
  assume l: "16 \<le> length a"
  define p q where "p = take (length a - 16) a" and "q = last_block a"
  have a: "a = p @ q" by (simp add: p_def q_def last_block_def)
  have "length q = 16" using l by (simp add: q_def last_block_def)
  then have "last_block (q @ b) = last_block ((p @ q) @ b)" by (simp add: last_block_def)
  then show ?thesis unfolding q_def [symmetric] using a by simp
qed

lemma round_up_parts: "round_up len = 16 * (len div 16) + round_up (len mod 16)"
proof -
  have "(len + 15) div 16 = len div 16 + (len mod 16 + 15) div 16"
  proof -
    have "len + 15 = (len mod 16 + 15) + len div 16 * 16" by (simp add: add.commute add.left_commute)
    also have "\<dots> div 16 = len div 16 + (len mod 16 + 15) div 16" by (rule div_mult_self1) simp
    finally show ?thesis .
  qed
  then show ?thesis by (simp add: round_up_def)
qed

lemma CRYPTO_cbc128_decrypt_eq:
  assumes bc: "block_contract dec" and l: "length ivec = 16" and ov: "out \<le> src \<or> src + round_up len \<le> out"
  shows "CRYPTO_cbc128_decrypt dec m src out len ivec =
    (store m out (take len (cbc_plain dec ivec (load m src (round_up len)))), last_block (ivec @ load m src (round_up len)))"
proof -
  define k r where "k = len div 16" and "r = len mod 16"
  have len: "len = 16 * k + r" and r: "r < 16" by (simp_all add: k_def r_def)
  have ru: "round_up len = 16 * k + round_up r" unfolding k_def r_def by (rule round_up_parts)
  have le: "r \<le> round_up r" by (simp add: round_up_def)
  have ri: "read_iv m ivec None 0 16 = ivec" using l by (simp add: read_iv_def)
  define P where "P = cbc_plain dec ivec (load m src (16 * k))"
  define m1 where "m1 = store m out P"
  define v where "v = last_block (ivec @ load m src (16 * k))"
  have lP: "length P = 16 * k" unfolding P_def by (rule length_cbc_plain [OF bc _ l]) simp
  have lv: "length v = 16" using l by (simp add: v_def last_block_def)
  have ldr: "load m1 (src + 16 * k) (round_up r) = load m (src + 16 * k) (round_up r)"
    unfolding m1_def by (rule load_store_other) (use ov ru lP in auto)
  have ld: "load m src (round_up len) = load m src (16 * k) @ load m (src + 16 * k) (round_up r)"
    unfolding ru by (rule load_add)
  have pl: "cbc_plain dec ivec (load m src (round_up len)) = P @ cbc_plain dec v (load m (src + 16 * k) (round_up r))"
    unfolding ld P_def v_def by (rule cbc_plain_append [OF _ l]) simp
  have rest: "cbc_dec_rest dec m1 (src + 16 * k) (out + 16 * k) v r =
      (store m out (take len (cbc_plain dec ivec (load m src (round_up len)))), last_block (ivec @ load m src (round_up len)))"
  proof -
    have "cbc_dec_rest dec m1 (src + 16 * k) (out + 16 * k) v r =
        (store m1 (out + 16 * k) (take r (cbc_plain dec v (load m (src + 16 * k) (round_up r)))),
         last_block (v @ load m (src + 16 * k) (round_up r)))"
      using cbc_dec_rest_all [OF bc lv r, of "out + 16 * k" "src + 16 * k" m1] ov ru unfolding ldr by auto
    moreover have "store m1 (out + 16 * k) cs = store m out (P @ cs)" for cs
      using store_append [of m out P cs] lP by (simp add: m1_def)
    moreover have "take len (P @ cs) = P @ take r cs" for cs using lP len by simp
    moreover have "last_block (v @ load m (src + 16 * k) (round_up r)) = last_block (ivec @ load m src (round_up len))"
      unfolding ld v_def using last_block_last [of "ivec @ load m src (16 * k)"] l by simp
    ultimately show ?thesis unfolding pl by simp
  qed
  show ?thesis
  proof (cases "(src \<ge> 32 \<and> out \<le> src - 32) \<or> src < out")
    case True
    have "dec_far_ok src out len" using True ov le ru len unfolding dec_far_ok_def by linarith
    then obtain iv' where b: "cbc_dec_far dec m src out ivec None len = (m1, src + 16 * k, out + 16 * k, iv', r)"
      "read_iv m1 ivec iv' 0 16 = v"
      by (rule cbc_dec_far_all [OF bc l _ _ k_def, where m = m and iv = None]) (auto simp: ri r_def m1_def P_def v_def)
    show ?thesis using True b rest by (simp only: CRYPTO_cbc128_decrypt_def if_True prod.case)
  next
    case False
    then have "out \<le> src" by linarith
    from cbc_dec_near_all [OF bc l this k_def, of m]
    show ?thesis using False rest unfolding CRYPTO_cbc128_decrypt_def
      by (simp only: if_False prod.case m1_def P_def v_def r_def)
  qed
qed

section \<open>Decryption undoes encryption\<close>

lemma cbc_plain_cipher:
  assumes "block_contract block" and "\<And>x. length x = 16 \<Longrightarrow> dec (block x) = x" and "length iv = 16"
  shows "take (length xs) (cbc_plain dec iv (cbc_cipher block iv xs)) = xs"
  using assms(3)
proof (induction "length xs" arbitrary: iv xs rule: less_induct)
  case less
  show ?case
  proof (cases "xs = []")
    case False
    define p where "p = take 16 (xs @ replicate 15 0)"
    let ?c = "block (xor_bytes p iv)"
    have lp: "length p = 16" using False by (cases xs) (auto simp: p_def)
    have lc: "length ?c = 16" using assms(1) by (simp add: block_contract_def)
    have ci: "cbc_cipher block iv xs = ?c @ cbc_cipher block ?c (drop 16 xs)"
      using False by (subst cbc_cipher.simps) (simp add: Let_def p_def)
    have "dec ?c = xor_bytes p iv" by (rule assms(2)) (use lp less.prems in simp)
    then have d: "xor_bytes (dec ?c) iv = p" using xor_bytes_cancel [of p iv] lp less.prems by simp
    have "length (drop 16 xs) < length xs" using False by (cases xs) auto
    from less.hyps [OF this lc] have ih: "take (length xs - 16) (cbc_plain dec ?c (cbc_cipher block ?c (drop 16 xs))) = drop 16 xs"
      by simp
    have t: "take (length xs) p = take 16 xs" by (simp add: min_def p_def)
    show ?thesis unfolding ci cbc_plain_block [OF lc] d take_append lp ih t by (rule append_take_drop_id)
  qed simp
qed

section \<open>Properties\<close>

text \<open>
  C28: Chaining over overlapping buffers. Unless the output starts inside the input, encryption leaves
  at \<^verbatim>\<open>out\<close> the cipher-block chain of the input padded with zeros and decryption leaves there its inverse
  image, whichever loop the overlap selects; both put the last cipher block into \<^verbatim>\<open>ivec\<close> and change no
  other byte of memory. Decryption writes \<^verbatim>\<open>len\<close> bytes, but reads whole blocks.
\<close>

theorem cbc_in_place_exact:
  assumes "block_contract block" and "length ivec = 16" and "out \<le> src \<or> src + round_up len \<le> out"
  shows "CRYPTO_cbc128_encrypt block m src out len ivec =
      (store m out (cbc_cipher block ivec (load m src len)), last_block (ivec @ cbc_cipher block ivec (load m src len))) \<and>
    length (cbc_cipher block ivec (load m src len)) = round_up len \<and>
    CRYPTO_cbc128_decrypt block m src out len ivec =
      (store m out (take len (cbc_plain block ivec (load m src (round_up len)))), last_block (ivec @ load m src (round_up len)))"
proof -
  have "len \<le> round_up len" by (simp add: round_up_def)
  then have "out \<le> src \<or> src + len \<le> out" using assms(3) by linarith
  then show ?thesis
    using CRYPTO_cbc128_encrypt_eq [OF assms(1, 2)] CRYPTO_cbc128_decrypt_eq [OF assms] length_cbc_cipher [OF assms(1)] by simp
qed

text \<open>
  C29: Decrypting what was encrypted gives the data back, in place or not, for any length, with the
  same chaining value behind both; \<^verbatim>\<open>dec\<close> inverts \<^verbatim>\<open>block\<close> on blocks.
\<close>

theorem cbc_round_trip:
  assumes "block_contract block" and "block_contract dec" and "\<forall>x. length x = 16 \<longrightarrow> dec (block x) = x"
    and "length ivec = 16" and "out \<le> src \<or> src + len \<le> out" and "dst \<le> out \<or> out + round_up len \<le> dst"
  shows "load (fst (CRYPTO_cbc128_decrypt dec (fst (CRYPTO_cbc128_encrypt block m src out len ivec)) out dst len ivec)) dst len =
      load m src len \<and>
    snd (CRYPTO_cbc128_decrypt dec (fst (CRYPTO_cbc128_encrypt block m src out len ivec)) out dst len ivec) =
      snd (CRYPTO_cbc128_encrypt block m src out len ivec)"
proof -
  define C where "C = cbc_cipher block ivec (load m src len)"
  have lC: "length C = round_up len" using length_cbc_cipher [OF assms(1), of ivec "load m src len"] by (simp add: C_def)
  then have ld: "load (store m out C) out (round_up len) = C" by (simp add: load_store_same)
  have p: "take len (cbc_plain dec ivec C) = load m src len"
    using cbc_plain_cipher [OF assms(1) _ assms(4), of dec "load m src len"] assms(3) by (simp add: C_def)
  show ?thesis
    unfolding CRYPTO_cbc128_encrypt_eq [OF assms(1, 4, 5)] fst_conv snd_conv C_def [symmetric]
      CRYPTO_cbc128_decrypt_eq [OF assms(2, 4, 6)] ld p
    by (simp add: load_store_same)
qed

section \<open>Witnesses\<close>

text \<open>A permutation of blocks: reversal.\<close>

definition reverse_block :: block128_f where
  "reverse_block x = rev (take 16 (x @ replicate 16 0))"

lemma reverse_block_contract: "block_contract reverse_block"
  by (auto simp: block_contract_def reverse_block_def min_def)

lemma cbc_in_place_exact_witness:
  "CRYPTO_cbc128_encrypt reverse_block of_nat 9 5 20 (replicate 16 1) =
      (store of_nat 5 (cbc_cipher reverse_block (replicate 16 1) (load of_nat 9 20)),
       last_block (replicate 16 1 @ cbc_cipher reverse_block (replicate 16 1) (load of_nat 9 20))) \<and>
    length (cbc_cipher reverse_block (replicate 16 1) (load of_nat 9 20)) = round_up 20 \<and>
    CRYPTO_cbc128_decrypt reverse_block of_nat 9 5 20 (replicate 16 1) =
      (store of_nat 5 (take 20 (cbc_plain reverse_block (replicate 16 1) (load of_nat 9 (round_up 20)))),
       last_block (replicate 16 1 @ load of_nat 9 (round_up 20)))"
  by (rule cbc_in_place_exact [OF reverse_block_contract]) simp_all

lemma cbc_round_trip_witness:
  "load (fst (CRYPTO_cbc128_decrypt reverse_block
        (fst (CRYPTO_cbc128_encrypt reverse_block of_nat 9 5 20 (replicate 16 1))) 5 2 20 (replicate 16 1))) 2 20 =
      load of_nat 9 20 \<and>
    snd (CRYPTO_cbc128_decrypt reverse_block
        (fst (CRYPTO_cbc128_encrypt reverse_block of_nat 9 5 20 (replicate 16 1))) 5 2 20 (replicate 16 1)) =
      snd (CRYPTO_cbc128_encrypt reverse_block of_nat 9 5 20 (replicate 16 1))"
  by (rule cbc_round_trip [OF reverse_block_contract reverse_block_contract]) (simp_all add: reverse_block_def)

end
