(* ===== verification/Sha256.thy ===== *)
theory Sha256
  imports Md32
begin

text \<open>
  \<^verbatim>\<open>crypto/fipsmodule/sha/sha256.c\<close>, with the block function in C, and its equivalence with the hash
  of FIPS 180-4: the sixteen-word window against the message schedule, the renaming of the registers
  against their shifting, and the streaming interface against the padded message.
\<close>

unbundle bit_operations_syntax

section \<open>The block function\<close>

definition K256 :: "u32 list" where
  "K256 =
     [0x428a2f98, 0x71374491, 0xb5c0fbcf, 0xe9b5dba5, 0x3956c25b] @
     [0x59f111f1, 0x923f82a4, 0xab1c5ed5, 0xd807aa98, 0x12835b01] @
     [0x243185be, 0x550c7dc3, 0x72be5d74, 0x80deb1fe, 0x9bdc06a7] @
     [0xc19bf174, 0xe49b69c1, 0xefbe4786, 0x0fc19dc6, 0x240ca1cc] @
     [0x2de92c6f, 0x4a7484aa, 0x5cb0a9dc, 0x76f988da, 0x983e5152] @
     [0xa831c66d, 0xb00327c8, 0xbf597fc7, 0xc6e00bf3, 0xd5a79147] @
     [0x06ca6351, 0x14292967, 0x27b70a85, 0x2e1b2138, 0x4d2c6dfc] @
     [0x53380d13, 0x650a7354, 0x766a0abb, 0x81c2c92e, 0x92722c85] @
     [0xa2bfe8a1, 0xa81a664b, 0xc24b8b70, 0xc76c51a3, 0xd192e819] @
     [0xd6990624, 0xf40e3585, 0x106aa070, 0x19a4c116, 0x1e376c08] @
     [0x2748774c, 0x34b0bcb5, 0x391c0cb3, 0x4ed8aa4a, 0x5b9cca4f] @
     [0x682e6ff3, 0x748f82ee, 0x78a5636f, 0x84c87814, 0x8cc70208] @
     [0x90befffa, 0xa4506ceb, 0xbef9a3f7, 0xc67178f2]"

definition ROTATE :: "u32 \<Rightarrow> nat \<Rightarrow> u32" where
  "ROTATE a n = push_bit n a OR drop_bit (32 - n) a"

definition Sigma0 :: "u32 \<Rightarrow> u32" where
  "Sigma0 x = ROTATE x 30 XOR ROTATE x 19 XOR ROTATE x 10"

definition Sigma1 :: "u32 \<Rightarrow> u32" where
  "Sigma1 x = ROTATE x 26 XOR ROTATE x 21 XOR ROTATE x 7"

definition sigma0 :: "u32 \<Rightarrow> u32" where
  "sigma0 x = ROTATE x 25 XOR ROTATE x 14 XOR drop_bit 3 x"

definition sigma1 :: "u32 \<Rightarrow> u32" where
  "sigma1 x = ROTATE x 15 XOR ROTATE x 13 XOR drop_bit 10 x"

definition Ch :: "u32 \<Rightarrow> u32 \<Rightarrow> u32 \<Rightarrow> u32" where
  "Ch x y z = (x AND y) XOR (NOT x AND z)"

definition Maj :: "u32 \<Rightarrow> u32 \<Rightarrow> u32 \<Rightarrow> u32" where
  "Maj x y z = (x AND y) XOR (x AND z) XOR (y AND z)"

text \<open>
  The variables \<^verbatim>\<open>a\<close> to \<^verbatim>\<open>h\<close> are the list \<^verbatim>\<open>v\<close>; the macro's arguments name positions of it. The calls
  \<^verbatim>\<open>ROUND_00_15(1, h, a, b, c, d, e, f, g)\<close>, \<^verbatim>\<open>ROUND_00_15(2, g, h, a, b, c, d, e, f)\<close> and so on pass
  them rotated by one more place each time.
\<close>

definition round_args :: "nat \<Rightarrow> nat list" where
  "round_args i = map (\<lambda>k. (k + 8 - i mod 8) mod 8) [0..<8]"

definition ROUND_00_15 :: "nat \<Rightarrow> nat list \<Rightarrow> u32 \<Rightarrow> u32 list \<Rightarrow> u32 list" where
  "ROUND_00_15 i p T1 v =
     (let T1 = T1 + (v ! (p ! 7) + Sigma1 (v ! (p ! 4)) + Ch (v ! (p ! 4)) (v ! (p ! 5)) (v ! (p ! 6)) + K256 ! i);
          v = v[p ! 7 := Sigma0 (v ! (p ! 0)) + Maj (v ! (p ! 0)) (v ! (p ! 1)) (v ! (p ! 2))];
          v = v[p ! 3 := v ! (p ! 3) + T1];
          v = v[p ! 7 := v ! (p ! 7) + T1]
      in v)"

definition ROUND_16_63 :: "nat \<Rightarrow> nat list \<Rightarrow> u32 list \<times> u32 list \<Rightarrow> u32 list \<times> u32 list" where
  "ROUND_16_63 i p st =
     (case st of (v, X) \<Rightarrow>
        let s0 = sigma0 (X ! ((i + 1) mod 16));
            s1 = sigma1 (X ! ((i + 14) mod 16));
            X = X[i mod 16 := X ! (i mod 16) + (s0 + s1 + X ! ((i + 9) mod 16))];
            T1 = X ! (i mod 16)
        in (ROUND_00_15 i p T1 v, X))"

text \<open>One of the first sixteen rounds: \<^verbatim>\<open>HOST_c2l(data, l); T1 = X[i] = l; ROUND_00_15(i, ...)\<close>.\<close>

definition load_round :: "bytes \<Rightarrow> nat \<Rightarrow> u32 list \<times> u32 list \<Rightarrow> u32 list \<times> u32 list" where
  "load_round inp i st =
     (case st of (v, X) \<Rightarrow>
        let l = HOST_c2l_be (drop (4 * i) inp) in (ROUND_00_15 i (round_args i) l v, X[i := l]))"

text \<open>\<^verbatim>\<open>X\<close> is not initialised; every element is stored before it is read.\<close>

definition sha256_one_block :: "u32 list \<Rightarrow> bytes \<Rightarrow> u32 list" where
  "sha256_one_block state inp =
     (let st = fold (load_round inp) [0..<16] (take 8 state, replicate 16 0);
          st = fold (\<lambda>i. ROUND_16_63 i (round_args i)) [16..<64] st
      in map2 (+) state (fst st))"

fun sha256_block_data_order :: block_data_order where
  "sha256_block_data_order state inp 0 = state"
| "sha256_block_data_order state inp (Suc num) =
     sha256_block_data_order (sha256_one_block state inp) (drop 64 inp) num"

section \<open>FIPS 180-4\<close>

text \<open>
  Section 4 of the standard, written without the code's tables and macros. The functions on words are
  given bit by bit: \<^verbatim>\<open>Ch\<close> lets the first word choose, \<^verbatim>\<open>Maj\<close> takes the majority.
\<close>

definition word_of_bits :: "(nat \<Rightarrow> bool) \<Rightarrow> u32" where
  "word_of_bits f = horner_sum of_bool 2 (map f [0..<32])"

definition fips_Ch :: "u32 \<Rightarrow> u32 \<Rightarrow> u32 \<Rightarrow> u32" where
  "fips_Ch x y z = word_of_bits (\<lambda>i. if bit x i then bit y i else bit z i)"

definition fips_Maj :: "u32 \<Rightarrow> u32 \<Rightarrow> u32 \<Rightarrow> u32" where
  "fips_Maj x y z = word_of_bits (\<lambda>i. 2 \<le> of_bool (bit x i) + of_bool (bit y i) + (of_bool (bit z i) :: nat))"

text \<open>
  The constants: the first 32 bits of the fractional parts of the cube roots of the first 64 primes;
  the initial hash value of SHA-256 has the first 32 bits of the fractional parts of the square roots of
  the first eight primes, that of SHA-224 the second 32 bits of those of the ninth to sixteenth.
  \<^verbatim>\<open>root_bits k n b 0\<close> is the \<^verbatim>\<open>k\<close>-th root of \<^verbatim>\<open>n\<close>, rounded down, when it is below \<^verbatim>\<open>2 ^ b\<close>.
\<close>

fun root_bits :: "nat \<Rightarrow> nat \<Rightarrow> nat \<Rightarrow> nat \<Rightarrow> nat" where
  "root_bits k n 0 r = r"
| "root_bits k n (Suc b) r = root_bits k n b (if (r + 2 ^ b) ^ k \<le> n then r + 2 ^ b else r)"

definition primes_below :: "nat \<Rightarrow> nat list" where
  "primes_below m = filter (\<lambda>p. list_all (\<lambda>d. \<not> d dvd p) [2..<p]) [2..<m]"

definition fips_K :: "u32 list" where
  "fips_K = map (\<lambda>p. of_nat (root_bits 3 (p * 2 ^ 96) 35 0)) (primes_below 312)"

definition fips_IV256 :: "u32 list" where
  "fips_IV256 = map (\<lambda>p. of_nat (root_bits 2 (p * 2 ^ 64) 35 0)) (take 8 (primes_below 312))"

definition fips_IV224 :: "u32 list" where
  "fips_IV224 = map (\<lambda>p. of_nat (root_bits 2 (p * 2 ^ 128) 67 0)) (take 8 (drop 8 (primes_below 312)))"

definition fips_Sigma0 :: "u32 \<Rightarrow> u32" where
  "fips_Sigma0 x = word_rotr 2 x XOR word_rotr 13 x XOR word_rotr 22 x"

definition fips_Sigma1 :: "u32 \<Rightarrow> u32" where
  "fips_Sigma1 x = word_rotr 6 x XOR word_rotr 11 x XOR word_rotr 25 x"

definition fips_sigma0 :: "u32 \<Rightarrow> u32" where
  "fips_sigma0 x = word_rotr 7 x XOR word_rotr 18 x XOR drop_bit 3 x"

definition fips_sigma1 :: "u32 \<Rightarrow> u32" where
  "fips_sigma1 x = word_rotr 17 x XOR word_rotr 19 x XOR drop_bit 10 x"

text \<open>The message schedule.\<close>

fun fips_W :: "bytes \<Rightarrow> nat \<Rightarrow> u32" where
  "fips_W M t =
     (if t < 16 then of_nat (be_val (take 4 (drop (4 * t) M)))
      else fips_sigma1 (fips_W M (t - 2)) + fips_W M (t - 7) + fips_sigma0 (fips_W M (t - 15)) + fips_W M (t - 16))"

declare fips_W.simps [simp del]

fun fips_round :: "bytes \<Rightarrow> nat \<Rightarrow> u32 list \<Rightarrow> u32 list" where
  "fips_round M t [a, b, c, d, e, f, g, h] =
     (let T1 = h + fips_Sigma1 e + fips_Ch e f g + fips_K ! t + fips_W M t;
          T2 = fips_Sigma0 a + fips_Maj a b c
      in [T1 + T2, a, b, c, d + T1, e, f, g])"
| "fips_round M t v = v"

definition fips_compress :: "u32 list \<Rightarrow> bytes \<Rightarrow> u32 list" where
  "fips_compress H M = map2 (+) H (fold (fips_round M) [0..<64] H)"

section \<open>The constants\<close>

lemma root_bits_bounds:
  assumes "0 < k" and "r ^ k \<le> n" and "n < (r + 2 ^ b) ^ k"
  shows "root_bits k n b r ^ k \<le> n \<and> n < (root_bits k n b r + 1) ^ k"
  using assms(2,3)
proof (induction b arbitrary: r)
  case (Suc b)
  let ?r = "if (r + 2 ^ b) ^ k \<le> n then r + 2 ^ b else r"
  have "?r ^ k \<le> n" using Suc.prems by simp
  moreover have "r + 2 ^ b + 2 ^ b = r + 2 ^ Suc b" by simp
  then have "n < (?r + 2 ^ b) ^ k" using Suc.prems(2) by (simp only: not_le split: if_split) blast
  ultimately show ?case by (simp only: root_bits.simps) (rule Suc.IH)
qed simp

lemma root_bits_eqI:
  assumes "0 < k" and "v ^ k \<le> n" and "n < (v + 1) ^ k" and "v < 2 ^ b"
  shows "root_bits k n b 0 = v"
proof -
  let ?r = "root_bits k n b 0"
  have "(v + 1) ^ k \<le> (2 ^ b) ^ k" using assms(4) by (intro power_mono) simp_all
  then have "n < (0 + 2 ^ b) ^ k" using assms(3) by simp
  then have r: "?r ^ k \<le> n" "n < (?r + 1) ^ k"
    using root_bits_bounds [of k 0 n b] assms(1) by (simp_all add: zero_power)
  have "?r ^ k < (v + 1) ^ k" and "v ^ k < (?r + 1) ^ k" using r assms(2,3) by linarith+
  then have "?r < v + 1" and "v < ?r + 1" by (auto dest: power_less_imp_less_base)
  then show ?thesis by simp
qed

lemma map_root_bits:
  assumes "list_all2 (\<lambda>p v. v ^ k \<le> p * s \<and> p * s < (v + 1) ^ k \<and> v < 2 ^ b) ps vs" and "0 < k"
  shows "map (\<lambda>p. of_nat (root_bits k (p * s) b 0) :: u32) ps = map of_nat vs"
  using assms(1)
proof (induction rule: list_all2_induct)
  case (Cons p ps v vs)
  then have "root_bits k (p * s) b 0 = v" by (intro root_bits_eqI) (use assms(2) in simp_all)
  with Cons.IH show ?case by (simp only: list.map)
qed simp

text \<open>A number below \<^verbatim>\<open>n\<^sup>2\<close> that is not prime has a divisor below \<^verbatim>\<open>n\<close>.\<close>

lemma small_divisor:
  fixes d p n :: nat
  assumes "d dvd p" and "1 < d" and "d < p" and "p < n * n"
  obtains q where "2 \<le> q" and "q < n" and "q < p" and "q dvd p"
proof -
  obtain e where e: "p = d * e" using assms(1) by (rule dvdE)
  then have "e \<noteq> 0" "e \<noteq> 1" using assms(2,3) by (auto intro!: notI)
  moreover from this have "e < p" using e assms(2) by simp
  moreover have "d < n \<or> e < n"
  proof (rule ccontr)
    assume "\<not> ?thesis"
    then have "n * n \<le> d * e" by (intro mult_le_mono) simp_all
    then show False using e assms(4) by simp
  qed
  moreover have "e dvd p" using e by simp
  ultimately consider "d < n" | "2 \<le> e" "e < n" "e < p" "e dvd p" by linarith
  then show thesis
  proof cases
    case 1 then show thesis using that [of d] assms by simp
  next
    case 2 then show thesis using that [of e] by simp
  qed
qed

lemma primes_below_small:
  assumes "m \<le> n * n"
  shows "primes_below m = filter (\<lambda>p. list_all (\<lambda>d. p \<le> d \<or> p mod d \<noteq> 0) [2..<n]) [2..<m]"
  unfolding primes_below_def
proof (rule filter_cong [OF refl])
  fix p assume "p \<in> set [2..<m]"
  then have p: "p < n * n" using assms by simp
  show "list_all (\<lambda>d. \<not> d dvd p) [2..<p] = list_all (\<lambda>d. p \<le> d \<or> p mod d \<noteq> 0) [2..<n]"
  proof
    assume small: "list_all (\<lambda>d. p \<le> d \<or> p mod d \<noteq> 0) [2..<n]"
    show "list_all (\<lambda>d. \<not> d dvd p) [2..<p]"
      unfolding list_all_iff
    proof (intro ballI notI)
      fix d assume "d \<in> set [2..<p]" and "d dvd p"
      then obtain q where "2 \<le> q" "q < n" "q < p" "q dvd p" using p by (auto elim: small_divisor [of d p n])
      then have "q \<in> set [2..<n]" by simp
      then have "p \<le> q \<or> p mod q \<noteq> 0" by (rule bspec [OF small [unfolded list_all_iff]])
      with \<open>q < p\<close> \<open>q dvd p\<close> show False by (simp add: dvd_imp_mod_0)
    qed
  next
    assume *: "list_all (\<lambda>d. \<not> d dvd p) [2..<p]"
    have "p \<le> d \<or> p mod d \<noteq> 0" if "2 \<le> d" for d
      using * that mod_0_imp_dvd [of p d] by (force simp: list_all_iff)
    then show "list_all (\<lambda>d. p \<le> d \<or> p mod d \<noteq> 0) [2..<n]" by (simp add: list_all_iff)
  qed
qed

lemma first_primes:
  "primes_below 312 =
    [2, 3, 5, 7, 11, 13, 17, 19, 23, 29, 31, 37, 41, 43, 47, 53, 59, 61, 67, 71,
     73, 79, 83, 89, 97, 101, 103, 107, 109, 113, 127, 131, 137, 139, 149, 151, 157, 163, 167, 173,
     179, 181, 191, 193, 197, 199, 211, 223, 227, 229, 233, 239, 241, 251, 257, 263, 269, 271, 277, 281,
     283, 293, 307, 311]"
  by (subst primes_below_small [where n = 18]) simp_all

lemma cube_roots:
  "list_all2 (\<lambda>p v. v ^ 3 \<le> p * 2 ^ 96 \<and> p * 2 ^ 96 < (v + 1) ^ 3 \<and> v < (2 :: nat) ^ 35)
    [2, 3, 5, 7, 11, 13, 17, 19, 23, 29, 31, 37, 41, 43, 47, 53, 59, 61, 67, 71,
     73, 79, 83, 89, 97, 101, 103, 107, 109, 113, 127, 131, 137, 139, 149, 151, 157, 163, 167, 173,
     179, 181, 191, 193, 197, 199, 211, 223, 227, 229, 233, 239, 241, 251, 257, 263, 269, 271, 277, 281,
     283, 293, 307, 311]
    [5411319704, 6194414737, 7344290767, 8215976869, 9551921755, 10098905585, 11043570340, 11460697813,
     12214315672, 13195500289, 13492127166, 14311783875, 14809980276, 15046980094, 15499789991, 16133124468,
     16720292289, 16907126662, 17444216262, 17784676812, 17950125167, 18429019306, 18734950876, 19175934170,
     19734090066, 20001703533, 20132865992, 20390182855, 20516441075, 20764397895, 21588763473, 21813078375,
     22141143685, 22248366392, 22769593852, 22871018771, 23170020180, 23461497531, 23651862830, 23931792517,
     24205322401, 24295138891, 24734567280, 24820601251, 24990902297, 25075189284, 25569408389, 26045227120,
     26200031510, 26276752392, 26428864332, 26653801653, 26727943347, 27092625994, 27306805839, 27517677555,
     27725365998, 27793908591, 27997534228, 28131656200, 28198240250, 28526537963, 28973835255, 29099129074]"
  by simp

lemma K256_fips: "K256 = fips_K"
  unfolding fips_K_def first_primes map_root_bits [OF cube_roots zero_less_numeral] K256_def
  by simp

lemma bit_word_of_bits: "bit (word_of_bits f) i \<longleftrightarrow> i < 32 \<and> f i"
  by (auto simp: word_of_bits_def bit_horner_sum_bit_word_iff nth_append)

lemma fips_choice: "Ch = fips_Ch" "Maj = fips_Maj"
  by (auto simp: fun_eq_iff fips_Ch_def fips_Maj_def Ch_def Maj_def bit_word_of_bits bit_simps intro!: bit_word_eqI)

section \<open>Rotations\<close>

lemma ROTATE_word_rotr: "0 < n \<Longrightarrow> n < 32 \<Longrightarrow> ROTATE x n = word_rotr (32 - n) x"
proof (rule bit_word_eqI)
  fix k assume n: "0 < n" "n < 32" and "k < LENGTH(32)"
  then have k: "k < 32" by simp
  show "bit (ROTATE x n) k = bit (word_rotr (32 - n) x) k"
  proof (cases "n \<le> k")
    case True
    then have "(k + (32 - n)) mod 32 = k - n" using k n by (simp add: mod_if)
    moreover have "\<not> bit x (32 - n + k)" using bit_imp_le_length [of x "32 - n + k"] True by auto
    ultimately show ?thesis using k True by (simp add: ROTATE_def bit_simps)
  next
    case False
    then have "(k + (32 - n)) mod 32 = 32 - n + k" using k n by simp
    then show ?thesis using k False by (simp add: ROTATE_def bit_simps add.commute [of k])
  qed
qed

lemma fips_functions: "Sigma0 = fips_Sigma0" "Sigma1 = fips_Sigma1" "sigma0 = fips_sigma0" "sigma1 = fips_sigma1"
  by (auto simp: fun_eq_iff Sigma0_def Sigma1_def sigma0_def sigma1_def fips_Sigma0_def fips_Sigma1_def
      fips_sigma0_def fips_sigma1_def ROTATE_word_rotr)

section \<open>The schedule\<close>

lemma HOST_c2l_be_val: "4 \<le> length c \<Longrightarrow> HOST_c2l_be c = of_nat (be_val (take 4 c))"
proof -
  assume l: "4 \<le> length c"
  have "HOST_c2l_be c = GETU32 (take 4 c)"
  proof (rule bit_word_eqI)
    fix k assume "k < LENGTH(32)"
    then have k: "k < 32" by simp
    define q r where "q = k div 8" and "r = k mod 8"
    have kq: "k = 8 * q + r" and r: "r < 8" and "q < 4" using k by (simp_all add: q_def r_def)
    from \<open>q < 4\<close> consider "q = 0" | "q = 1" | "q = 2" | "q = 3" by linarith
    then have "bit (HOST_c2l_be c) k \<longleftrightarrow> bit (c ! (3 - q)) r"
      by cases (use r in \<open>auto simp: kq HOST_c2l_be_def bit_simps dest: bit_imp_le_length\<close>)
    moreover have "bit (GETU32 (take 4 c)) k \<longleftrightarrow> bit (c ! (3 - q)) r"
    proof -
      have "(8 * (3 - q) + r) div 8 = 3 - q" "(8 * (3 - q) + r) mod 8 = r" "8 * (3 - q) + r < 32"
        using r \<open>q < 4\<close> by simp_all
      then show ?thesis
        using k l unfolding GETU32_def by (simp add: bit_bswap4 bit_foldr_bytes q_def [symmetric] r_def [symmetric])
    qed
    ultimately show "bit (HOST_c2l_be c) k = bit (GETU32 (take 4 c)) k" by simp
  qed
  then show ?thesis using unat_GETU32 [of "take 4 c"] l by (simp add: eq_of_natI)
qed

text \<open>The window before round \<^verbatim>\<open>t\<close> holds the last sixteen words of the schedule.\<close>

definition window :: "bytes \<Rightarrow> nat \<Rightarrow> u32 list \<Rightarrow> bool" where
  "window M t X \<longleftrightarrow> length X = 16 \<and> (\<forall>s. s < t \<longrightarrow> t \<le> s + 16 \<longrightarrow> X ! (s mod 16) = fips_W M s)"

lemma window_set:
  assumes "window M t X"
  shows "window M (Suc t) (X[t mod 16 := fips_W M t])"
  unfolding window_def
proof (intro conjI allI impI)
  show "length (X[t mod 16 := fips_W M t]) = 16" using assms by (simp add: window_def)
  fix s assume s: "s < Suc t" "Suc t \<le> s + 16"
  show "X[t mod 16 := fips_W M t] ! (s mod 16) = fips_W M s"
  proof (cases "s = t")
    case True
    then show ?thesis using assms by (simp add: window_def)
  next
    case False
    have "s mod 16 \<noteq> t mod 16"
    proof
      assume "s mod 16 = t mod 16"
      moreover have "t = s + (t - s)" using s by simp
      ultimately have "(t - s) mod 16 = 0" by (metis add_diff_cancel_left' diff_add_inverse2 mod_eq_dvd_iff_nat less_or_eq_imp_le dvd_imp_mod_0 s(1) less_Suc_eq_le)
      then show False using s False by simp
    qed
    then show ?thesis using assms s False by (simp add: window_def)
  qed
qed

lemma window_word:
  assumes w: "window M t X" and t: "16 \<le> t"
  shows "X ! (t mod 16) + (sigma0 (X ! ((t + 1) mod 16)) + sigma1 (X ! ((t + 14) mod 16)) + X ! ((t + 9) mod 16)) = fips_W M t"
proof -
  have m: "(t + 1) mod 16 = (t - 15) mod 16" "(t + 14) mod 16 = (t - 2) mod 16" "(t + 9) mod 16 = (t - 7) mod 16"
    "t mod 16 = (t - 16) mod 16"
    using t mod_add_self2 [of "t - 15" 16] mod_add_self2 [of "t - 2" 16] mod_add_self2 [of "t - 7" 16] mod_add_self2 [of "t - 16" 16]
    by (simp_all add: add.commute)
  have x: "X ! ((t - k) mod 16) = fips_W M (t - k)" if "0 < k" "k \<le> 16" for k
    using w t that by (simp add: window_def)
  have "fips_W M t = fips_sigma1 (fips_W M (t - 2)) + fips_W M (t - 7) + fips_sigma0 (fips_W M (t - 15)) + fips_W M (t - 16)"
    using t by (subst fips_W.simps) simp
  then show ?thesis unfolding m by (simp add: x fips_functions)
qed

section \<open>The registers\<close>

text \<open>The working variables in the order of the standard, as round \<^verbatim>\<open>t\<close> finds them.\<close>

definition view :: "nat \<Rightarrow> u32 list \<Rightarrow> u32 list" where
  "view t v = map (\<lambda>k. v ! k) (round_args t)"

lemma round_args_cases:
  obtains "t mod 8 = 0" "Suc t mod 8 = 1" | "t mod 8 = 1" "Suc t mod 8 = 2" | "t mod 8 = 2" "Suc t mod 8 = 3"
    | "t mod 8 = 3" "Suc t mod 8 = 4" | "t mod 8 = 4" "Suc t mod 8 = 5" | "t mod 8 = 5" "Suc t mod 8 = 6"
    | "t mod 8 = 6" "Suc t mod 8 = 7" | "t mod 8 = 7" "Suc t mod 8 = 0"
proof -
  have "t mod 8 < 8" by simp
  then have "t mod 8 = 0 \<or> t mod 8 = 1 \<or> t mod 8 = 2 \<or> t mod 8 = 3 \<or> t mod 8 = 4 \<or> t mod 8 = 5 \<or> t mod 8 = 6 \<or> t mod 8 = 7"
    by linarith
  moreover have "Suc t mod 8 = (if Suc (t mod 8) = 8 then 0 else Suc (t mod 8))" by (rule mod_Suc)
  ultimately show ?thesis using that by auto
qed

lemma upt_8: "[0..<8] = [0, 1, 2, 3, 4, 5, 6, 7 :: nat]"
  by (simp add: upt_rec)

lemma list_8:
  assumes "length v = 8"
  obtains a b c d e f g h where "v = [a, b, c, d, e, f, g, h]"
  using assms by (auto simp: numeral_eq_Suc length_Suc_conv)

lemma round_view:
  assumes "length v = 8"
  shows "view (Suc t) (ROUND_00_15 t (round_args t) (fips_W M t) v) = fips_round M t (view t v)"
proof -
  obtain a b c d e f g h where v: "v = [a, b, c, d, e, f, g, h]" by (rule list_8 [OF assms])
  show ?thesis
    by (rule round_args_cases [of t])
       (simp_all add: v view_def round_args_def upt_8 ROUND_00_15_def Let_def fips_functions fips_choice K256_fips add.commute add.left_commute)
qed

lemma length_ROUND [simp]: "length (ROUND_00_15 i p T1 v) = length v"
  by (simp add: ROUND_00_15_def Let_def)

text \<open>State and window before round \<^verbatim>\<open>t\<close>.\<close>

definition at_round :: "bytes \<Rightarrow> u32 list \<Rightarrow> nat \<Rightarrow> u32 list \<times> u32 list \<Rightarrow> bool" where
  "at_round M H t st \<longleftrightarrow>
     length (fst st) = 8 \<and> view t (fst st) = fold (fips_round M) [0..<t] H \<and> window M t (snd st)"

lemma at_round_load:
  assumes "at_round M H t st" and "t < 16" and "64 \<le> length M"
  shows "at_round M H (Suc t) (load_round M t st)"
proof -
  obtain v X where st: "st = (v, X)" by (cases st)
  have "HOST_c2l_be (drop (4 * t) M) = fips_W M t"
    using assms(2, 3) by (subst fips_W.simps) (simp add: HOST_c2l_be_val)
  then show ?thesis
    using assms round_view [of v t M] window_set [of M t X]
    by (simp add: at_round_def st load_round_def Let_def)
qed

lemma at_round_next:
  assumes "at_round M H t st" and "16 \<le> t"
  shows "at_round M H (Suc t) (ROUND_16_63 t (round_args t) st)"
proof -
  obtain v X where st: "st = (v, X)" by (cases st)
  have w: "window M t X" using assms(1) by (simp add: at_round_def st)
  then have "length X = 16" by (simp add: window_def)
  then show ?thesis
    using assms round_view [of v t M] window_set [OF w] window_word [OF w assms(2)]
    by (simp add: at_round_def st ROUND_16_63_def Let_def)
qed

lemma at_round_fold:
  assumes "at_round M H a st" and "a \<le> b" and "\<And>t st. a \<le> t \<Longrightarrow> t < b \<Longrightarrow> at_round M H t st \<Longrightarrow> at_round M H (Suc t) (f t st)"
  shows "at_round M H b (fold f [a..<b] st)"
  using assms(2, 3)
proof (induction b)
  case (Suc b)
  show ?case
  proof (cases "a \<le> b")
    case True
    then have "at_round M H b (fold f [a..<b] st)" using Suc by simp
    then show ?thesis using Suc.prems(2) True by simp
  next
    case False
    then show ?thesis using Suc.prems(1) assms(1) by (simp add: le_Suc_eq)
  qed
qed (use assms(1) in simp)

lemma sha256_one_block_fips:
  assumes "length H = 8" and "64 \<le> length M"
  shows "sha256_one_block H M = fips_compress H M"
proof -
  have id: "view 0 H = H" "view 64 v = v" if "length v = 8" for v
    using that assms(1) by (auto simp: view_def round_args_def intro!: nth_equalityI)
  have "at_round M H 0 (H, replicate 16 0)" using assms(1) id by (simp add: at_round_def window_def)
  then have "at_round M H 16 (fold (load_round M) [0..<16] (H, replicate 16 0))"
    by (rule at_round_fold) (simp_all add: at_round_load assms(2))
  define S where "S = fold (\<lambda>i. ROUND_16_63 i (round_args i)) [16..<64] (fold (load_round M) [0..<16] (H, replicate 16 0))"
  have "at_round M H 64 S"
    unfolding S_def by (rule at_round_fold [OF \<open>at_round M H 16 _\<close>]) (simp_all add: at_round_next)
  then have l: "length (fst S) = 8" and v: "view 64 (fst S) = fold (fips_round M) [0..<64] H" by (simp_all only: at_round_def)
  have "fst S = fold (fips_round M) [0..<64] H" using id(2) [OF l] v by (rule trans [OF sym])
  moreover have "take 8 H = H" using assms(1) by simp
  ultimately show ?thesis unfolding sha256_one_block_def fips_compress_def Let_def S_def by (simp only:)
qed

lemma length_fips_round [simp]: "length (fips_round M t v) = length v"
  by (cases "(M, t, v)" rule: fips_round.cases) (simp_all add: Let_def)

lemma length_fips_compress [simp]: "length (fips_compress H M) = length H"
proof -
  have "length (fold (fips_round M) ts H) = length H" for ts by (induction ts arbitrary: H) simp_all
  then show ?thesis unfolding fips_compress_def by (simp only: length_map length_zip min.idem)
qed

section \<open>The streaming interface\<close>

lemma length_sha256_one_block: "length (sha256_one_block H M) = min (length H) 8"
proof -
  have "length (fst (fold (load_round M) ts st)) = length (fst st)" for ts st
    by (induction ts arbitrary: st) (simp_all add: load_round_def Let_def split: prod.splits)
  moreover have "length (fst (fold (\<lambda>i. ROUND_16_63 i (round_args i)) ts st)) = length (fst st)" for ts st
    by (induction ts arbitrary: st) (simp_all add: ROUND_16_63_def Let_def split: prod.splits)
  moreover have "min (length H) (min (length H) 8) = min (length H) 8" by simp
  ultimately show ?thesis unfolding sha256_one_block_def Let_def
    by (simp only: length_map length_zip fst_conv length_take)
qed

lemma sha256_one_block_take: "sha256_one_block H (take 64 M) = sha256_one_block H M"
proof -
  have "load_round (take 64 M) i = load_round M i" if "i < 16" for i
  proof (cases "64 \<le> length M")
    case True
    then have "drop (4 * i) (take 64 M) ! j = drop (4 * i) M ! j" if "j < 4" for j
      using that \<open>i < 16\<close> by simp
    then have "HOST_c2l_be (drop (4 * i) (take 64 M)) = HOST_c2l_be (drop (4 * i) M)"
      unfolding HOST_c2l_be_def by simp
    then show ?thesis by (simp add: load_round_def fun_eq_iff)
  qed simp
  then have "fold (load_round (take 64 M)) [0..<16] = fold (load_round M) [0..<16]"
    by (intro ext fold_cong refl) (metis atLeastLessThan_iff set_upt)
  then show ?thesis unfolding sha256_one_block_def by (simp only:)
qed

interpretation sha256: block_function sha256_block_data_order
proof
  show "sha256_block_data_order h d (Suc n) = sha256_block_data_order (sha256_block_data_order h d 1) (drop 64 d) n" for h d n
    by (simp only: One_nat_def sha256_block_data_order.simps)
  show "sha256_block_data_order h (take 64 d) 1 = sha256_block_data_order h d 1" for h d
    by (simp only: One_nat_def sha256_block_data_order.simps sha256_one_block_take)
qed simp

text \<open>\<^verbatim>\<open>SHA256_CTX\<close> is the collector's context. \<^verbatim>\<open>HASH_MAKE_STRING\<close> writes the words of the digest.\<close>

definition SHA224_DIGEST_LENGTH :: nat where
  "SHA224_DIGEST_LENGTH = 28"

definition SHA256_DIGEST_LENGTH :: nat where
  "SHA256_DIGEST_LENGTH = 32"

definition sha256_make_string :: "hash_ctx \<Rightarrow> bytes option" where
  "sha256_make_string c =
     (if ctx_md_len c = SHA224_DIGEST_LENGTH
      then Some (concat (map (\<lambda>nn. HOST_l2c_be (ctx_h c ! nn)) [0..<SHA224_DIGEST_LENGTH div 4]))
      else if ctx_md_len c = SHA256_DIGEST_LENGTH
      then Some (concat (map (\<lambda>nn. HOST_l2c_be (ctx_h c ! nn)) [0..<SHA256_DIGEST_LENGTH div 4]))
      else if ctx_md_len c > SHA256_DIGEST_LENGTH then None
      else Some (concat (map (\<lambda>nn. HOST_l2c_be (ctx_h c ! nn)) [0..<ctx_md_len c div 4])))"

definition SHA224_Init :: hash_ctx where
  "SHA224_Init =
     \<lparr>ctx_h = [0xc1059ed8, 0x367cd507, 0x3070dd17, 0xf70e5939, 0xffc00b31, 0x68581511, 0x64f98fa7, 0xbefa4fa4],
      ctx_Nl = 0, ctx_Nh = 0, ctx_data = replicate 64 0, ctx_num = 0, ctx_md_len = SHA224_DIGEST_LENGTH\<rparr>"

definition SHA256_Init :: hash_ctx where
  "SHA256_Init =
     \<lparr>ctx_h = [0x6a09e667, 0xbb67ae85, 0x3c6ef372, 0xa54ff53a, 0x510e527f, 0x9b05688c, 0x1f83d9ab, 0x5be0cd19],
      ctx_Nl = 0, ctx_Nh = 0, ctx_data = replicate 64 0, ctx_num = 0, ctx_md_len = SHA256_DIGEST_LENGTH\<rparr>"

definition SHA256_Update :: "hash_ctx \<Rightarrow> bytes \<Rightarrow> hash_ctx" where
  "SHA256_Update c inp = HASH_UPDATE sha256_block_data_order c inp"

definition SHA256_Final :: "hash_ctx \<Rightarrow> bytes option \<times> hash_ctx" where
  "SHA256_Final c = HASH_FINAL True sha256_block_data_order sha256_make_string c"

definition SHA256_Transform :: "hash_ctx \<Rightarrow> bytes \<Rightarrow> hash_ctx" where
  "SHA256_Transform c inp = HASH_TRANSFORM sha256_block_data_order c inp"

definition SHA256_TransformBlocks :: "u32 list \<Rightarrow> bytes \<Rightarrow> nat \<Rightarrow> u32 list" where
  "SHA256_TransformBlocks state inp num_blocks = sha256_block_data_order state inp num_blocks"

definition SHA224_Update :: "hash_ctx \<Rightarrow> bytes \<Rightarrow> hash_ctx" where
  "SHA224_Update c inp = SHA256_Update c inp"

definition SHA224_Final :: "hash_ctx \<Rightarrow> bytes option \<times> hash_ctx" where
  "SHA224_Final c = SHA256_Final c"

text \<open>The one-shot functions; the caller's buffer has room for the digest. Cleansing the context shows no effect.\<close>

definition SHA224 :: "bytes \<Rightarrow> bytes option" where
  "SHA224 inp = fst (SHA224_Final (SHA224_Update SHA224_Init inp))"

definition SHA256 :: "bytes \<Rightarrow> bytes option" where
  "SHA256 inp = fst (SHA256_Final (SHA256_Update SHA256_Init inp))"

section \<open>The hash of the standard\<close>

text \<open>The message is padded, cut into blocks, and compressed.\<close>

fun fips_hash :: "u32 list \<Rightarrow> bytes list \<Rightarrow> u32 list" where
  "fips_hash H [] = H"
| "fips_hash H (M # Ms) = fips_hash (fips_compress H M) Ms"

definition blocks_of :: "bytes \<Rightarrow> bytes list" where
  "blocks_of msg = map (\<lambda>i. take 64 (drop (64 * i) msg)) [0..<length msg div 64]"

definition fips_SHA256 :: "bytes \<Rightarrow> bytes" where
  "fips_SHA256 msg = concat (map (\<lambda>w. be_enc 4 (unat w)) (fips_hash fips_IV256 (blocks_of (md_pad True msg))))"

definition fips_SHA224 :: "bytes \<Rightarrow> bytes" where
  "fips_SHA224 msg =
     concat (map (\<lambda>w. be_enc 4 (unat w)) (take 7 (fips_hash fips_IV224 (blocks_of (md_pad True msg)))))"

lemma block_data_order_fips:
  assumes "length H = 8" and "64 * n \<le> length M"
  shows "sha256_block_data_order H M n = fips_hash H (map (\<lambda>i. take 64 (drop (64 * i) M)) [0..<n])"
  using assms
proof (induction n arbitrary: H M)
  case (Suc n)
  have u: "[0..<Suc n] = 0 # map Suc [0..<n]" by (simp add: upt_conv_Cons map_Suc_upt)
  have d: "map (\<lambda>i. take 64 (drop (64 * i) (drop 64 M))) [0..<n] = map (\<lambda>i. take 64 (drop (64 * i) M)) (map Suc [0..<n])"
    by (simp add: add.commute)
  have s: "sha256_one_block H M = fips_compress H (take 64 M)"
    using sha256_one_block_take [of H M] sha256_one_block_fips [of H "take 64 M"] Suc.prems by simp
  have "length (fips_compress H (take 64 M)) = 8" using Suc.prems(1) by simp
  from Suc.IH [OF this, of "drop 64 M"] Suc.prems(2)
  show ?case unfolding sha256_block_data_order.simps s u d [symmetric] list.map fips_hash.simps by simp
qed simp

lemma sha256_hash_fips: "length H = 8 \<Longrightarrow> 64 dvd length M \<Longrightarrow> sha256.hash H M = fips_hash H (blocks_of M)"
  unfolding sha256.hash_def blocks_of_def by (rule block_data_order_fips) auto

lemma length_fips_hash: "length H = 8 \<Longrightarrow> length (fips_hash H Ms) = 8"
  by (induction Ms arbitrary: H) simp_all

lemma SHA256_Init_fips: "ctx_h SHA256_Init = fips_IV256"
  unfolding fips_IV256_def first_primes
  by (subst map_root_bits [where vs =
    "[6074000999, 7439101573, 9603838834, 11363415354, 14244795007, 15485724812, 17708603819, 18721328409]"])
    (simp_all add: SHA256_Init_def)

lemma SHA224_Init_fips: "ctx_h SHA224_Init = fips_IV224"
  unfolding fips_IV224_def first_primes
  by (subst map_root_bits [where vs =
    "[88467476731178360536, 99338756991957652743, 102707124263845944599, 112207163657561200953, 118116794080090393393, 120963390236882638097, 126464505871347584935, 134294323956039700388]"])
    (simp_all add: SHA224_Init_def)

lemma SHA256_Init_rep: "sha256.rep (ctx_h SHA256_Init) SHA256_Init []" "sha256.rep (ctx_h SHA224_Init) SHA224_Init []"
  by (simp_all add: sha256.rep_def SHA256_Init_def SHA224_Init_def)

lemma SHA256_Update_rep:
  "sha256.rep h c msg \<Longrightarrow> sha256.rep h (foldl SHA256_Update c xss) (msg @ concat xss)"
proof (induction xss arbitrary: c msg)
  case (Cons xs xss)
  then have "sha256.rep h (SHA256_Update c xs) (msg @ xs)"
    unfolding SHA256_Update_def by (intro sha256.HASH_UPDATE_rep)
  from Cons.IH [OF this] show ?case by simp
qed simp

lemma md_len_update: "ctx_md_len (foldl SHA256_Update c xss) = ctx_md_len c"
proof -
  have b: "ctx_md_len (update_blocks f c xs) = ctx_md_len c" for f c xs
    by (simp add: update_blocks_def Let_def split: prod.splits)
  have "ctx_md_len (SHA256_Update c xs) = ctx_md_len c" for c xs
    unfolding SHA256_Update_def HASH_UPDATE_def Let_def by (auto simp: b)
  then show ?thesis by (induction xss arbitrary: c) simp_all
qed

lemma SHA256_Final_rep:
  assumes "sha256.rep h c msg" and "length h = 8"
  shows "fst (SHA256_Final c) = sha256_make_string (c\<lparr>ctx_h := fips_hash h (blocks_of (md_pad True msg))\<rparr>)"
proof -
  obtain c' where f: "SHA256_Final c = (sha256_make_string c', c')" "ctx_h c' = sha256.hash h (md_pad True msg)"
    "ctx_md_len c' = ctx_md_len c"
    unfolding SHA256_Final_def by (rule sha256.HASH_FINAL_rep [OF assms(1)])
  then show ?thesis
    using sha256_hash_fips [OF assms(2) length_md_pad] by (simp add: sha256_make_string_def)
qed

lemma digest_words: "map (\<lambda>nn. HOST_l2c_be (h ! nn)) [0..<n] = map (\<lambda>w. be_enc 4 (unat w)) (take n h)" if "n \<le> length h"
  using that by (intro nth_equalityI) (simp_all add: HOST_l2c_be_enc)

lemma SHA256_stream: "fst (SHA256_Final (foldl SHA256_Update SHA256_Init xss)) = Some (fips_SHA256 (concat xss))"
proof -
  have l: "length (ctx_h SHA256_Init) = 8" by (simp add: SHA256_Init_def)
  have m: "ctx_md_len SHA256_Init = 32" by (simp add: SHA256_Init_def SHA256_DIGEST_LENGTH_def)
  show ?thesis
    unfolding SHA256_Final_rep [OF SHA256_Update_rep [OF SHA256_Init_rep(1)] l] fips_SHA256_def SHA256_Init_fips [symmetric]
    using digest_words [of 8 "fips_hash (ctx_h SHA256_Init) (blocks_of (md_pad True ([] @ concat xss)))"] length_fips_hash [OF l]
    by (simp only: sha256_make_string_def) (simp add: md_len_update m SHA256_DIGEST_LENGTH_def SHA224_DIGEST_LENGTH_def del: upt_Suc)
qed

lemma SHA224_stream: "fst (SHA224_Final (foldl SHA224_Update SHA224_Init xss)) = Some (fips_SHA224 (concat xss))"
proof -
  have l: "length (ctx_h SHA224_Init) = 8" by (simp add: SHA224_Init_def)
  have m: "ctx_md_len SHA224_Init = 28" by (simp add: SHA224_Init_def SHA224_DIGEST_LENGTH_def)
  have u: "SHA224_Update = SHA256_Update" by (simp add: fun_eq_iff SHA224_Update_def)
  show ?thesis
    unfolding u SHA224_Final_def SHA256_Final_rep [OF SHA256_Update_rep [OF SHA256_Init_rep(2)] l] fips_SHA224_def SHA224_Init_fips [symmetric]
    using digest_words [of 7 "fips_hash (ctx_h SHA224_Init) (blocks_of (md_pad True ([] @ concat xss)))"] length_fips_hash [OF l]
    by (simp only: sha256_make_string_def) (simp add: md_len_update m SHA256_DIGEST_LENGTH_def SHA224_DIGEST_LENGTH_def del: upt_Suc)
qed

section \<open>Properties\<close>

text \<open>
  C30: The digest of data that is fed to \<^verbatim>\<open>SHA256_Update\<close> or \<^verbatim>\<open>SHA224_Update\<close> in any chunks, and that of
  the one-shot functions, is the hash of FIPS 180-4: the padded message, cut into blocks, compressed
  with the message schedule, right rotations, choice and majority of the standard. The standard's
  constants and initial values are computed from the cube and square roots of the primes they come
  from, so that the code's tables are checked against them.
\<close>

theorem sha256_exact:
  "fst (SHA256_Final (foldl SHA256_Update SHA256_Init xss)) = Some (fips_SHA256 (concat xss)) \<and>
   fst (SHA224_Final (foldl SHA224_Update SHA224_Init xss)) = Some (fips_SHA224 (concat xss)) \<and>
   SHA256 msg = Some (fips_SHA256 msg) \<and> SHA224 msg = Some (fips_SHA224 msg)"
  using SHA256_stream SHA224_stream SHA256_stream [of "[msg]"] SHA224_stream [of "[msg]"]
  by (simp add: SHA256_def SHA224_def)

end
