(* ===== verification/Time_Support.thy ===== *)
theory Time_Support
  imports Main "HOL-Library.Signed_Division" "HOL-Library.Monad_Syntax"
begin

text \<open>
  \<^verbatim>\<open>crypto/asn1/time_support.c\<close>: arithmetic on broken-down times through Julian day numbers, by the
  algorithm of Fliegel and Van Flandern, and its correctness for the proleptic Gregorian calendar.
  Values of C's \<^verbatim>\<open>long\<close> and \<^verbatim>\<open>int\<close> are integers. An addition, subtraction or multiplication in \<^verbatim>\<open>int\<close> goes
  through \<^verbatim>\<open>c_int\<close>: when the value does not fit, the behaviour is undefined and the function has no
  result (\<^verbatim>\<open>None\<close>). A \<^verbatim>\<open>long\<close> that is assigned to an \<^verbatim>\<open>int\<close> goes through \<^verbatim>\<open>to_int\<close>, which reduces it as the
  compilers do. The functions' \<^verbatim>\<open>long\<close>s are sums of a few \<^verbatim>\<open>int\<close>s and cannot overflow. Division
  truncates towards zero (\<^verbatim>\<open>sdiv\<close>).
\<close>

section \<open>The code\<close>

record tm =
  tm_sec :: int
  tm_min :: int
  tm_hour :: int
  tm_mday :: int
  tm_mon :: int
  tm_year :: int

definition to_int :: "int \<Rightarrow> int" where
  "to_int x = (x + 2 ^ 31) mod 2 ^ 32 - 2 ^ 31"

definition SECS_PER_DAY :: int where
  "SECS_PER_DAY = 24 * 60 * 60"

definition c_int :: "int \<Rightarrow> int option" where
  "c_int x = (if - (2 ^ 31) \<le> x \<and> x < 2 ^ 31 then Some x else None)"

definition date_to_julian :: "int \<Rightarrow> int \<Rightarrow> int \<Rightarrow> int option" where
  "date_to_julian y m d =
     do {
       m14 \<leftarrow> c_int (m - 14);
       y48 \<leftarrow> c_int (y + 4800);
       y48 \<leftarrow> c_int (y48 + m14 sdiv 12);
       days \<leftarrow> c_int (1461 * y48);
       m2 \<leftarrow> c_int (m - 2);
       m12 \<leftarrow> c_int (12 * (m14 sdiv 12));
       mon \<leftarrow> c_int (m2 - m12);
       mon \<leftarrow> c_int (367 * mon);
       y49 \<leftarrow> c_int (y + 4900);
       y49 \<leftarrow> c_int (y49 + m14 sdiv 12);
       cents \<leftarrow> c_int (3 * (y49 sdiv 100));
       jd \<leftarrow> c_int (days sdiv 4 + mon sdiv 12);
       jd \<leftarrow> c_int (jd - cents sdiv 4);
       jd \<leftarrow> c_int (jd + d);
       c_int (jd - 32075)
     }"

definition julian_to_date :: "int \<Rightarrow> int \<times> int \<times> int" where
  "julian_to_date jd =
     (let L = jd + 68569;
          n = (4 * L) sdiv 146097;
          L = L - (146097 * n + 3) sdiv 4;
          i = (4000 * (L + 1)) sdiv 1461001;
          L = L - (1461 * i) sdiv 4 + 31;
          j = (80 * L) sdiv 2447;
          d = to_int (L - (2447 * j) sdiv 80);
          L = j sdiv 11;
          m = to_int (j + 2 - (12 * L));
          y = to_int (100 * (n - 49) + i + L)
      in (y, m, d))"

text \<open>The days and seconds of \<^verbatim>\<open>*pday\<close> and \<^verbatim>\<open>*psec\<close>, or \<^verbatim>\<open>Some None\<close> for a return of 0.\<close>

definition julian_adj :: "tm \<Rightarrow> int \<Rightarrow> int \<Rightarrow> (int \<times> int) option option" where
  "julian_adj tm off_day offset_sec =
     do {
       let offset_day = to_int (offset_sec sdiv SECS_PER_DAY);
       day_secs \<leftarrow> c_int (offset_day * SECS_PER_DAY);
       let offset_hms = to_int (offset_sec - day_secs);
       offset_day \<leftarrow> c_int (offset_day + off_day);
       hour_secs \<leftarrow> c_int (tm_hour tm * 3600);
       min_secs \<leftarrow> c_int (tm_min tm * 60);
       secs \<leftarrow> c_int (hour_secs + min_secs);
       secs \<leftarrow> c_int (secs + tm_sec tm);
       offset_hms \<leftarrow> c_int (offset_hms + secs);
       (offset_day, offset_hms) \<leftarrow>
         (if offset_hms \<ge> SECS_PER_DAY
          then do {d \<leftarrow> c_int (offset_day + 1); s \<leftarrow> c_int (offset_hms - SECS_PER_DAY); Some (d, s)}
          else if offset_hms < 0
          then do {d \<leftarrow> c_int (offset_day - 1); s \<leftarrow> c_int (offset_hms + SECS_PER_DAY); Some (d, s)}
          else Some (offset_day, offset_hms));
       time_year \<leftarrow> c_int (tm_year tm + 1900);
       time_month \<leftarrow> c_int (tm_mon tm + 1);
       let time_day = tm_mday tm;
       time_jd \<leftarrow> date_to_julian time_year time_month time_day;
       let time_jd = time_jd + offset_day;
       Some (if time_jd < 0 then None else Some (time_jd, offset_hms))
     }"

definition OPENSSL_gmtime_adj :: "tm \<Rightarrow> int \<Rightarrow> int \<Rightarrow> tm option option" where
  "OPENSSL_gmtime_adj tm off_day offset_sec =
     do {
       adj \<leftarrow> julian_adj tm off_day offset_sec;
       case adj of
         None \<Rightarrow> Some None
       | Some (time_jd, time_sec) \<Rightarrow>
           (case julian_to_date time_jd of
              (time_year, time_month, time_day) \<Rightarrow>
                if time_year < 1900 \<or> time_year > 9999 then Some None
                else do {
                  year \<leftarrow> c_int (time_year - 1900);
                  mon \<leftarrow> c_int (time_month - 1);
                  Some (Some
                    (tm\<lparr>tm_year := year, tm_mon := mon, tm_mday := time_day,
                        tm_hour := time_sec sdiv 3600, tm_min := (time_sec sdiv 60) smod 60, tm_sec := time_sec smod 60\<rparr>))
                })
     }"

definition OPENSSL_gmtime_diff :: "tm \<Rightarrow> tm \<Rightarrow> (int \<times> int) option option" where
  "OPENSSL_gmtime_diff from_tm to_tm =
     do {
       from_adj \<leftarrow> julian_adj from_tm 0 0;
       case from_adj of
         None \<Rightarrow> Some None
       | Some (from_jd, from_sec) \<Rightarrow>
           do {
             to_adj \<leftarrow> julian_adj to_tm 0 0;
             case to_adj of
               None \<Rightarrow> Some None
             | Some (to_jd, to_sec) \<Rightarrow>
                 do {
                   let diff_day = to_jd - from_jd;
                   diff_sec \<leftarrow> c_int (to_sec - from_sec);
                   (diff_day, diff_sec) \<leftarrow>
                     (if diff_day > 0 \<and> diff_sec < 0
                      then do {s \<leftarrow> c_int (diff_sec + SECS_PER_DAY); Some (diff_day - 1, s)} else Some (diff_day, diff_sec));
                   (diff_day, diff_sec) \<leftarrow>
                     (if diff_day < 0 \<and> diff_sec > 0
                      then do {s \<leftarrow> c_int (diff_sec - SECS_PER_DAY); Some (diff_day + 1, s)} else Some (diff_day, diff_sec));
                   Some (Some (to_int diff_day, diff_sec))
                 }
           }
     }"

section \<open>The calendar\<close>

text \<open>The day number of \<^verbatim>\<open>date_to_julian\<close>, without C's bounds.\<close>

definition julian_day :: "int \<Rightarrow> int \<Rightarrow> int \<Rightarrow> int" where
  "julian_day y m d =
     (1461 * (y + 4800 + (m - 14) sdiv 12)) sdiv 4 +
     (367 * (m - 2 - 12 * ((m - 14) sdiv 12))) sdiv 12 -
     (3 * ((y + 4900 + (m - 14) sdiv 12) sdiv 100)) sdiv 4 + d - 32075"

definition leap :: "int \<Rightarrow> bool" where
  "leap y \<longleftrightarrow> 4 dvd y \<and> (100 dvd y \<longrightarrow> 400 dvd y)"

definition month_length :: "int \<Rightarrow> int \<Rightarrow> int" where
  "month_length y m = (if m = 2 then (if leap y then 29 else 28) else if m \<in> {4, 6, 9, 11} then 30 else 31)"

fun valid_date :: "int \<times> int \<times> int \<Rightarrow> bool" where
  "valid_date (y, m, d) \<longleftrightarrow> m \<in> {1..12} \<and> d \<in> {1..month_length y m}"

fun next_day :: "int \<times> int \<times> int \<Rightarrow> int \<times> int \<times> int" where
  "next_day (y, m, d) =
     (if d < month_length y m then (y, m, d + 1) else if m < 12 then (y, m + 1, 1) else (y + 1, 1, 1))"

text \<open>The \<^verbatim>\<open>n\<close>-th day from 1 March of the year -4800, where the algorithm starts.\<close>

definition nth_day :: "nat \<Rightarrow> int \<times> int \<times> int" where
  "nth_day n = (next_day ^^ n) (- 4800, 3, 1)"

section \<open>Quotients\<close>

lemma sdiv_nonneg: "0 \<le> a \<Longrightarrow> 0 < b \<Longrightarrow> a sdiv b = a div b" for a b :: int
  by (cases "a = 0") (simp_all add: signed_divide_int_def sgn_if)

lemma div_unique: "b * q \<le> a \<Longrightarrow> a < b * q + b \<Longrightarrow> a div b = q" for a b q :: int
  by (rule int_div_pos_eq [of _ _ _ "a - b * q"]) auto

lemma to_int_id: "- (2 ^ 31) \<le> x \<Longrightarrow> x < 2 ^ 31 \<Longrightarrow> to_int x = x"
  by (simp add: to_int_def)

lemma div_bounds: "0 < b \<Longrightarrow> b * (a div b) \<le> a \<and> a < b * (a div b) + b" for a b :: int
  using mult_div_mod_eq [of b a] pos_mod_sign [of b a] pos_mod_bound [of b a] by linarith

lemma div_lt: "0 < b \<Longrightarrow> a < b * c \<Longrightarrow> a div b < c" for a b c :: int
  using div_bounds [of b a] by (metis mult_less_cancel_left_pos order_le_less_trans)

section \<open>Years that start in March\<close>

text \<open>\<^verbatim>\<open>Y\<close> and \<^verbatim>\<open>M\<close> number the years and months so that the leap day is the last of its year.\<close>

definition month_offset :: "int \<Rightarrow> int" where
  "month_offset M = (367 * M) div 12"

lemma months_cases:
  assumes "M \<in> {1..12 :: int}"
  obtains "M = 1" | "M = 2" | "M = 3" | "M = 4" | "M = 5" | "M = 6" | "M = 7" | "M = 8" | "M = 9" | "M = 10" | "M = 11" | "M = 12"
proof -
  have "M = 1 \<or> M = 2 \<or> M = 3 \<or> M = 4 \<or> M = 5 \<or> M = 6 \<or> M = 7 \<or> M = 8 \<or> M = 9 \<or> M = 10 \<or> M = 11 \<or> M = 12"
  proof -
    have l: "[1..12] = [1, 2, 3, 4, 5, 6, 7, 8, 9, 10, 11, 12 :: int]" by (simp add: upto.simps)
    have "M \<in> set [1..12]" using assms by (simp only: set_upto)
    then show ?thesis unfolding l by simp
  qed
  then show ?thesis using that by blast
qed

definition march :: "int \<times> int \<times> int \<Rightarrow> int \<times> int" where
  "march D = (case D of (y, m, d) \<Rightarrow> if m \<le> 2 then (y + 4799, m + 10) else (y + 4800, m - 2))"

lemma julian_day_march:
  assumes "valid_date (y, m, d)" and "march (y, m, d) = (Y, M)" and "0 \<le> Y"
  shows "julian_day y m d =
    (1461 * Y) div 4 + month_offset M - (3 * ((Y + 100) div 100)) div 4 + d - 32075"
proof -
  have m: "m \<in> {1..12}" using assms(1) by simp
  have a: "(m - 14) sdiv 12 = (if m \<le> 2 then - 1 else 0)"
    by (rule months_cases [OF m]) (simp_all add: signed_divide_int_def)
  have Y: "y + 4800 + (m - 14) sdiv 12 = Y" "y + 4900 + (m - 14) sdiv 12 = Y + 100"
    and M: "m - 2 - 12 * ((m - 14) sdiv 12) = M" "1 \<le> M"
    using assms(2) m unfolding a by (auto simp: march_def split: if_splits)
  have "0 \<le> (Y + 100) div 100" using assms(3) by simp
  then show ?thesis
    unfolding julian_day_def Y M month_offset_def using assms(3) M(2) by (simp add: sdiv_nonneg)
qed

lemma leap_add_4800: "leap (y + 4800) = leap y"
proof -
  have "k dvd y + 4800 \<longleftrightarrow> k dvd y" if "k dvd 4800" for k :: int using that by (simp add: dvd_add_left_iff)
  then show ?thesis unfolding leap_def by simp
qed

text \<open>The day of the March year, which is at most 365, and less unless the year ends in a leap day.\<close>

lemma day_of_year:
  assumes "valid_date (y, m, d)" and "march (y, m, d) = (Y, M)"
  shows "M \<in> {1..12}" and "month_offset M + 1 \<le> month_offset M + d"
    and "month_offset M + d - 31 \<in> {0..365}" and "month_offset M + d - 31 = 365 \<Longrightarrow> leap (Y + 1)"
    and "80 * (month_offset M + d) div 2447 = M" and "2447 * M div 80 = month_offset M"
    and "M div 11 = (if m \<le> 2 then 1 else 0)"
proof -
  have m: "m \<in> {1..12}" and d: "1 \<le> d" "d \<le> month_length y m" using assms(1) by simp_all
  show "M \<in> {1..12}" "M div 11 = (if m \<le> 2 then 1 else 0)" "2447 * M div 80 = month_offset M"
    by (rule months_cases [OF m]; use assms(2) in \<open>auto simp: march_def month_offset_def\<close>)+
  show "month_offset M + 1 \<le> month_offset M + d" using d(1) by simp
  show "month_offset M + d - 31 \<in> {0..365}"
    by (rule months_cases [OF m]; use assms(2) d in \<open>auto simp: march_def month_offset_def month_length_def split: if_splits\<close>)
  show "80 * (month_offset M + d) div 2447 = M"
    by (rule div_unique; rule months_cases [OF m]; use assms(2) d in \<open>auto simp: march_def month_offset_def month_length_def split: if_splits\<close>)
  have "m = 2 \<and> leap y" if "month_offset M + d - 31 = 365"
    by (rule months_cases [OF m]; use assms(2) d that in \<open>auto simp: march_def month_offset_def month_length_def split: if_splits\<close>)
  moreover have "m = 2 \<Longrightarrow> Y + 1 = y + 4800" using assms(2) by (auto simp: march_def)
  ultimately show "leap (Y + 1)" if "month_offset M + d - 31 = 365" using that leap_add_4800 by metis
qed

section \<open>The count of days before a March year\<close>

lemma three_quarters: "3 * C div 4 = C - (C + 3) div 4" for C :: int
  using div_bounds [of 4 "C + 3"] by (intro div_unique) auto

lemma days_before_year:
  "1461 * Y div 4 - 3 * ((Y + 100) div 100) div 4 = 365 * Y + Y div 4 - Y div 100 + Y div 400" for Y :: int
proof -
  have "1461 * Y div 4 = 365 * Y + Y div 4" using div_mult_self3 [of 4 "365 * Y" Y] by (simp add: algebra_simps)
  moreover have "(Y + 100) div 100 = Y div 100 + 1" by simp
  moreover have "(Y div 100 + 1 + 3) div 4 = Y div 400 + 1"
    using zdiv_zmult2_eq [of 4 Y 100] by (simp add: add.assoc)
  ultimately show ?thesis unfolding three_quarters [of "(Y + 100) div 100"] by simp
qed

lemma div_step: "0 < k \<Longrightarrow> (Y + 1) div k = Y div k + (if k dvd Y + 1 then 1 else 0)" for k Y :: int
proof (cases "k dvd Y + 1")
  case True
  assume k: "0 < k"
  obtain q where q: "Y + 1 = k * q" using True by auto
  have "Y div k = q - 1" by (rule div_unique) (use q k in \<open>auto simp: algebra_simps\<close>)
  then show ?thesis using q k True by simp
next
  case False
  assume k: "0 < k"
  have "Y + 1 < k * (Y div k) + k"
  proof (rule ccontr)
    assume "\<not> Y + 1 < k * (Y div k) + k"
    then have "Y + 1 = k * (Y div k + 1)" using div_bounds [OF k, of Y] by (simp add: algebra_simps)
    then show False using False by simp
  qed
  then have "(Y + 1) div k = Y div k" using div_bounds [OF k, of Y] by (intro div_unique) linarith+
  then show ?thesis using False by simp
qed

lemma days_before_next_year:
  "1461 * (Y + 1) div 4 - 3 * ((Y + 1 + 100) div 100) div 4 =
    1461 * Y div 4 - 3 * ((Y + 100) div 100) div 4 + 365 + (if leap (Y + 1) then 1 else 0)" for Y :: int
proof -
  have d: "4 dvd Y + 1" if "100 dvd Y + 1" using that dvd_trans [of 4 100 "Y + 1"] by simp
  have e: "100 dvd Y + 1" if "400 dvd Y + 1" using that dvd_trans [of 100 400 "Y + 1"] by simp
  have q: "(Y + 1) div 4 = Y div 4 + (if 4 dvd Y + 1 then 1 else 0)"
    "(Y + 1) div 100 = Y div 100 + (if 100 dvd Y + 1 then 1 else 0)"
    "(Y + 1) div 400 = Y div 400 + (if 400 dvd Y + 1 then 1 else 0)"
    by (rule div_step; simp)+
  show ?thesis unfolding days_before_year leap_def q
    by (cases "4 dvd Y + 1"; cases "100 dvd Y + 1"; cases "400 dvd Y + 1") (use d e in simp_all)
qed

lemma valid_next_day: "valid_date D \<Longrightarrow> valid_date (next_day D)"
  by (cases D) (auto simp: month_length_def)

lemma julian_day_next:
  assumes "valid_date D" and "0 \<le> fst (march D)"
  shows "(case next_day D of (y, m, d) \<Rightarrow> julian_day y m d) = (case D of (y, m, d) \<Rightarrow> julian_day y m d) + 1"
proof -
  obtain y m d where D: "D = (y, m, d)" by (cases D)
  obtain Y M where mm: "march (y, m, d) = (Y, M)" by (cases "march (y, m, d)")
  have v: "valid_date (y, m, d)" and Y: "0 \<le> Y" using assms by (simp_all add: D mm)
  have m: "m \<in> {1..12}" and d: "1 \<le> d" "d \<le> month_length y m" using v by simp_all
  note j = julian_day_march [OF v mm Y]
  have v': "valid_date (next_day (y, m, d))" by (rule valid_next_day [OF v])
  show ?thesis
  proof (cases "d < month_length y m")
    case True
    then have n: "next_day (y, m, d) = (y, m, d + 1)" by simp
    have "march (y, m, d + 1) = (Y, M)" using mm by (simp add: march_def)
    from julian_day_march [OF v' [unfolded n] this Y] show ?thesis using j n D by simp
  next
    case False
    then have d: "d = month_length y m" using d by simp
    show ?thesis
    proof (cases "m = 2")
      case True
      have n: "next_day (y, m, d) = (y, 3, 1)" using False True by simp
      have "march (y, 3, 1) = (Y + 1, 1)" using mm True by (auto simp: march_def)
      from julian_day_march [OF v' [unfolded n] this] Y
      have e: "julian_day y 3 1 = 1461 * (Y + 1) div 4 + 30 - 3 * ((Y + 1 + 100) div 100) div 4 + 1 - 32075"
        by (simp add: month_offset_def)
      have l: "leap (Y + 1) = leap y" using mm True leap_add_4800 [of y] by (auto simp: march_def add.commute)
      have o: "month_offset M = 367" using mm True by (auto simp: march_def month_offset_def)
      have dd: "d = 28 + (if leap y then 1 else 0)" using d True by (simp add: month_length_def)
      have arith: "p + 30 - q + 1 - 32075 = r + 367 - t + d - 32075 + 1"
        if "p - q = r - t + 365 + (if leap y then 1 else 0)" for p q r t
        using that dd by (cases "leap y") simp_all
      have "julian_day y 3 1 = julian_day y m d + 1"
        unfolding e j o by (rule arith [OF days_before_next_year [of Y, unfolded l]])
      then show ?thesis unfolding D n prod.case .
    next
      case False
      obtain y' m' where n: "next_day (y, m, d) = (y', m', 1)" and mm': "march (y', m', 1) = (Y, M + 1)"
        and o: "month_offset (M + 1) = month_offset M + d"
        by (rule months_cases [OF m]; use False mm d in \<open>auto simp: march_def month_length_def month_offset_def\<close>)
      from julian_day_march [OF v' [unfolded n] mm' Y] show ?thesis using j n D o by simp
    qed
  qed
qed

section \<open>From day numbers to dates\<close>

text \<open>The day \<^verbatim>\<open>x\<close> of a century, from its first March on, and the year \<^verbatim>\<open>i\<close> of the century it is in.\<close>

lemma year_of_century:
  assumes "i \<in> {0..99 :: int}" and "z \<in> {0..365}" and "z = 365 \<longrightarrow> 4 dvd i + 1"
  shows "4000 * (1461 * i div 4 + z + 1) div 1461001 = i"
proof (rule div_unique)
  define q where "q = 1461 * i div 4"
  have q: "4 * q \<le> 1461 * i" "1461 * i < 4 * q + 4" using div_bounds [of 4 "1461 * i"] by (simp_all add: q_def)
  have i: "0 \<le> i" "i \<le> 99" and z: "0 \<le> z" "z \<le> 365" using assms by simp_all
  have l: "1461 * i = 4 * q + 3" if "z = 365"
  proof -
    obtain k where "i = 4 * k - 1" using assms(3) \<open>z = 365\<close> by (auto simp: dvd_def algebra_simps)
    then have e: "1461 * i = 4 * (1461 * k - 366) + 3" by simp
    have "q = 1461 * k - 366" unfolding q_def e by (rule div_unique) simp_all
    then show ?thesis using e by simp
  qed
  show "1461001 * i \<le> 4000 * (1461 * i div 4 + z + 1)"
    unfolding q_def [symmetric] distrib_left using q i z by simp
  show "4000 * (1461 * i div 4 + z + 1) < 1461001 * i + 1461001"
    unfolding q_def [symmetric] using q i z l by (cases "z = 365") (simp_all add: algebra_simps)
qed

lemma century_of_day:
  assumes "i \<in> {0..99 :: int}" and "z \<in> {0..365}" and "z = 365 \<longrightarrow> 4 dvd i + 1 \<and> (i = 99 \<longrightarrow> 4 dvd c + 1)"
  shows "4 * ((146097 * (c + 1) + 3) div 4 + (1461 * i div 4 + z)) div 146097 = c + 1"
proof (rule div_unique)
  define q where "q = 1461 * i div 4"
  define p where "p = (146097 * (c + 1) + 3) div 4"
  have q: "4 * q \<le> 1461 * i" "1461 * i < 4 * q + 4" using div_bounds [of 4 "1461 * i"] by (simp_all add: q_def)
  have p: "4 * p \<le> 146097 * (c + 1) + 3" "146097 * (c + 1) + 3 < 4 * p + 4"
    using div_bounds [of 4 "146097 * (c + 1) + 3"] by (simp_all add: p_def)
  have i: "0 \<le> i" "i \<le> 99" and z: "0 \<le> z" "z \<le> 365" using assms by simp_all
  show "146097 * (c + 1) \<le> 4 * ((146097 * (c + 1) + 3) div 4 + (1461 * i div 4 + z))"
  proof -
    have "0 \<le> q" using i by (simp add: q_def)
    then show ?thesis unfolding q_def [symmetric] p_def [symmetric] using p z by (simp add: algebra_simps)
  qed
  have "4 * (p + (q + z)) < 146097 * (c + 1) + 146097"
  proof (cases "i = 99")
    case True
    show ?thesis
    proof (cases "z = 365")
      case z: True
      then obtain k where "c = 4 * k - 1" using assms(3) True by (auto simp: dvd_def algebra_simps)
      then have e: "146097 * (c + 1) + 3 = 4 * (146097 * k) + 3" by simp
      have "p = 146097 * k" unfolding p_def e by (rule div_unique) simp_all
      then have "146097 * (c + 1) + 3 = 4 * p + 3" using e by simp
      then show ?thesis using True z by (simp add: q_def)
    next
      case False
      then have "z \<le> 364" using z by simp
      moreover have "q = 36159" using True by (simp add: q_def)
      ultimately show ?thesis using p by (simp add: algebra_simps)
    qed
  next
    case False
    then have "i \<le> 98" using i by simp
    then show ?thesis using q p z by (simp add: algebra_simps)
  qed
  then show "4 * ((146097 * (c + 1) + 3) div 4 + (1461 * i div 4 + z)) < 146097 * (c + 1) + 146097"
    unfolding q_def [symmetric] p_def [symmetric] .
qed

lemma century_start: "(146097 * (c + 1) + 3) div 4 = 36525 * c + 36525 - 3 * (c + 1) div 4" for c :: int
  using div_bounds [of 4 "3 * (c + 1)"] by (intro div_unique) auto

lemma quarter_days: "1461 * (100 * c + i) div 4 = 36525 * c + 1461 * i div 4" for c i :: int
proof -
  have "1461 * (100 * c + i) = 1461 * i + 4 * (36525 * c)" by simp
  then show ?thesis by simp
qed

lemma julian_to_date_inverse:
  assumes v: "valid_date (y, m, d)" and mm: "march (y, m, d) = (Y, M)" and Y: "0 \<le> Y" and "y < 2 ^ 31"
  shows "julian_to_date (julian_day y m d) = (y, m, d)"
proof -
  note doy = day_of_year [OF v mm]
  define c i z where "c = Y div 100" and "i = Y mod 100" and "z = month_offset M + d - 31"
  have ci: "Y = 100 * c + i" "0 \<le> c" "i \<in> {0..99}" using Y by (simp_all add: c_def i_def)
  have c1: "(Y + 100) div 100 = c + 1" by (simp add: c_def)
  have z: "z \<in> {0..365}" using doy(3) by (simp add: z_def)
  have zl: "z = 365 \<longrightarrow> 4 dvd i + 1 \<and> (i = 99 \<longrightarrow> 4 dvd c + 1)"
  proof
    assume "z = 365"
    then have "leap (Y + 1)" using doy(4) by (simp add: z_def)
    then have l: "4 dvd Y + 1" "100 dvd Y + 1 \<longrightarrow> 400 dvd Y + 1" by (simp_all add: leap_def)
    have "4 dvd 4 * (25 * c)" by simp
    moreover have "Y + 1 = 4 * (25 * c) + (i + 1)" using ci(1) by simp
    ultimately have "4 dvd i + 1" using l(1) by (simp only: dvd_add_right_iff)
    moreover have "4 dvd c + 1" if "i = 99"
    proof -
      have e: "Y + 1 = 100 * (c + 1)" using ci(1) that by simp
      have "100 dvd Y + 1" unfolding e by (rule dvd_triv_left)
      then obtain k where "100 * (c + 1) = 400 * k" using l(2) unfolding e by (metis dvdE)
      then have "c + 1 = 4 * k" by simp
      then show ?thesis by (simp only: dvd_triv_left)
    qed
    ultimately show "4 dvd i + 1 \<and> (i = 99 \<longrightarrow> 4 dvd c + 1)" by simp
  qed
  let ?n = "c + 1"
  define L where "L = julian_day y m d + 68569"
  have L: "L = (146097 * ?n + 3) div 4 + (1461 * i div 4 + z)"
    unfolding L_def julian_day_march [OF v mm Y] c1 century_start z_def
    unfolding ci(1) quarter_days by simp
  have Lc: "0 \<le> (146097 * ?n + 3) div 4" "0 \<le> 1461 * i div 4" using ci by (simp_all add: pos_imp_zdiv_nonneg_iff)
  have n: "(4 * L) sdiv 146097 = ?n"
    using century_of_day [OF ci(3) z zl] Lc z unfolding L by (subst sdiv_nonneg) simp_all
  have L1: "L - (146097 * ?n + 3) sdiv 4 = 1461 * i div 4 + z"
    using ci(2) unfolding L by (subst sdiv_nonneg) simp_all
  have ii: "(4000 * (1461 * i div 4 + z + 1)) sdiv 1461001 = i"
    using year_of_century [OF ci(3) z] zl Lc z by (subst sdiv_nonneg) simp_all
  have L2: "1461 * i div 4 + z - (1461 * i) sdiv 4 + 31 = month_offset M + d"
    using ci(3) by (subst sdiv_nonneg) (simp_all add: z_def)
  have M: "1 \<le> M" "M \<le> 12" using doy(1) by simp_all
  have mo: "0 \<le> month_offset M + d" using z by (simp add: z_def)
  have j: "(80 * (month_offset M + d)) sdiv 2447 = M" using doy(5) mo by (subst sdiv_nonneg) simp_all
  have dd: "(2447 * M) sdiv 80 = month_offset M" using doy(6) M by (subst sdiv_nonneg) simp_all
  have l3: "M sdiv 11 = (if m \<le> 2 then 1 else 0)" using doy(7) M by (subst sdiv_nonneg) simp_all
  have yy: "100 * (?n - 49) + i + (if m \<le> 2 then 1 else 0) = y" "M + 2 - 12 * (if m \<le> 2 then 1 else 0) = m"
    using mm ci(1) by (auto simp: march_def split: if_splits)
  have "- 4800 \<le> y" using Y mm by (auto simp: march_def split: if_splits)
  then have ty: "to_int y = y" using assms(4) by (intro to_int_id) simp_all
  have "1 \<le> d" "d \<le> 31" "1 \<le> m" "m \<le> 12" using v by (auto simp: month_length_def split: if_splits)
  then have td: "to_int d = d" "to_int m = m" by (simp_all add: to_int_id)
  show ?thesis
    unfolding julian_to_date_def Let_def L_def [symmetric] n L1 ii L2 j dd l3 yy
    by (simp add: td ty)
qed

section \<open>The days of the calendar\<close>

lemma nth_day_Suc: "nth_day (Suc n) = next_day (nth_day n)"
  by (simp add: nth_day_def)

lemma march_next_day: "valid_date D \<Longrightarrow> fst (march D) \<le> fst (march (next_day D))"
  by (cases D) (auto simp: march_def)

lemma nth_day_ok: "valid_date (nth_day n) \<and> 0 \<le> fst (march (nth_day n))"
proof (induction n)
  case 0
  show ?case by (simp add: nth_day_def march_def month_length_def)
next
  case (Suc n)
  then show ?case using valid_next_day march_next_day unfolding nth_day_Suc by (metis order_trans)
qed

lemma julian_nth_day: "(case nth_day n of (y, m, d) \<Rightarrow> julian_day y m d) = int n - 32044"
proof (induction n)
  case 0
  show ?case by (simp add: nth_day_def julian_day_def signed_divide_int_def)
next
  case (Suc n)
  then show ?case using julian_day_next [of "nth_day n"] nth_day_ok [of n] unfolding nth_day_Suc by simp
qed

lemma year_bound:
  assumes "nth_day n = (y, m, d)"
  shows "365 * (y + 4799) \<le> int n"
proof -
  obtain Y M where mm: "march (y, m, d) = (Y, M)" by (cases "march (y, m, d)")
  have v: "valid_date (y, m, d)" and Y: "0 \<le> Y" using nth_day_ok [of n] assms mm by simp_all
  have "int n - 32044 = 1461 * Y div 4 + month_offset M - 3 * ((Y + 100) div 100) div 4 + d - 32075"
    using julian_nth_day [of n] julian_day_march [OF v mm Y] assms by simp
  moreover have "Y div 100 \<le> Y div 4" using Y by (intro zdiv_mono2) simp_all
  moreover have "0 \<le> Y div 400" using Y by (simp add: pos_imp_zdiv_nonneg_iff)
  moreover have "31 \<le> month_offset M + d" using day_of_year(3) [OF v mm] by simp
  ultimately have "365 * Y \<le> int n" using days_before_year [of Y] by linarith
  moreover have "y + 4799 \<le> Y" using mm by (auto simp: march_def split: if_splits)
  ultimately show ?thesis by simp
qed

lemma julian_to_nth_day:
  assumes "n < 2 ^ 31"
  shows "julian_to_date (int n - 32044) = nth_day n"
proof -
  obtain y m d where D: "nth_day n = (y, m, d)" by (cases "nth_day n")
  obtain Y M where mm: "march (y, m, d) = (Y, M)" by (cases "march (y, m, d)")
  have "int n < 2 ^ 31" using assms by (metis of_nat_less_iff of_nat_numeral of_nat_power)
  then have "y < 2 ^ 31" using year_bound [OF D] by simp
  then show ?thesis
    using julian_to_date_inverse [of y m d Y M] nth_day_ok [of n] julian_nth_day [of n] D mm by simp
qed

section \<open>Adding to a time\<close>

definition date_of :: "tm \<Rightarrow> int \<times> int \<times> int" where
  "date_of tm = (tm_year tm + 1900, tm_mon tm + 1, tm_mday tm)"

definition second_of_day :: "tm \<Rightarrow> int" where
  "second_of_day tm = tm_hour tm * 3600 + tm_min tm * 60 + tm_sec tm"

definition valid_time :: "tm \<Rightarrow> bool" where
  "valid_time tm \<longleftrightarrow> tm_hour tm \<in> {0..23} \<and> tm_min tm \<in> {0..59} \<and> tm_sec tm \<in> {0..60}"

definition time_on :: "tm \<Rightarrow> int \<times> int \<times> int \<Rightarrow> int \<Rightarrow> tm" where
  "time_on tm D s =
     (case D of (y, m, d) \<Rightarrow>
        tm\<lparr>tm_year := y - 1900, tm_mon := m - 1, tm_mday := d,
           tm_hour := s div 3600, tm_min := s div 60 mod 60, tm_sec := s mod 60\<rparr>)"

lemma smod_nonneg: "0 \<le> a \<Longrightarrow> 0 < b \<Longrightarrow> a smod b = a mod b" for a b :: int
  by (simp add: signed_modulo_int_def sgn_if)

lemma date_of_bounds:
  assumes "date_of tm = nth_day k" and "k < 2 ^ 28"
  shows "- 4800 \<le> tm_year tm + 1900" and "tm_year tm + 1900 < 2 ^ 20" and "tm_mon tm \<in> {0..11}"
    and "julian_day (tm_year tm + 1900) (tm_mon tm + 1) (tm_mday tm) = int k - 32044"
proof -
  have D: "nth_day k = (tm_year tm + 1900, tm_mon tm + 1, tm_mday tm)" using assms(1) by (simp add: date_of_def)
  have "int k < 2 ^ 28" using assms(2) by (metis of_nat_less_iff of_nat_numeral of_nat_power)
  then show "tm_year tm + 1900 < 2 ^ 20" using year_bound [OF D] by simp
  show "julian_day (tm_year tm + 1900) (tm_mon tm + 1) (tm_mday tm) = int k - 32044"
    using julian_nth_day [of k] D by simp
  show "- 4800 \<le> tm_year tm + 1900" "tm_mon tm \<in> {0..11}"
    using nth_day_ok [of k] unfolding D by (auto simp: march_def split: if_splits)
qed

lemma to_int_diff: "to_int (a - to_int b) = to_int (a - b)"
proof -
  have "(a - ((b + 2 ^ 31) mod 2 ^ 32 - 2 ^ 31) + 2 ^ 31) mod 2 ^ 32 = (a + 2 ^ 32 - (b + 2 ^ 31) mod 2 ^ 32) mod 2 ^ 32"
    by (rule arg_cong [of _ _ "\<lambda>x. x mod 2 ^ 32"]) simp
  also have "\<dots> = (a + 2 ^ 32 - (b + 2 ^ 31)) mod 2 ^ 32" by (rule mod_diff_right_eq)
  also have "\<dots> = (a - b + 2 ^ 31) mod 2 ^ 32" by (rule arg_cong [of _ _ "\<lambda>x. x mod 2 ^ 32"]) simp
  finally show ?thesis by (simp add: to_int_def)
qed

lemma sdiv_bounds:
  fixes a b :: int
  assumes "0 < b"
  shows "\<bar>a smod b\<bar> < b" and "\<bar>a sdiv b\<bar> = \<bar>a\<bar> div b"
  using assms by (simp_all add: signed_modulo_int_def signed_divide_int_def sgn_if abs_mult pos_imp_zdiv_nonneg_iff)

lemma c_int_id: "- (2 ^ 31) \<le> x \<Longrightarrow> x < 2 ^ 31 \<Longrightarrow> c_int x = Some x"
  by (simp add: c_int_def)

lemma abs_sdiv_le: "0 < b \<Longrightarrow> \<bar>a sdiv b\<bar> \<le> \<bar>a\<bar>" for a b :: int
  using sdiv_bounds(2) [of b a] by (cases "b = 1") (auto intro: order_trans [OF zdiv_mono2 [of "\<bar>a\<bar>" 1 b]])

lemma date_to_julian_exact:
  assumes "- 4800 \<le> y" "y < 2 ^ 20" "m \<in> {1..12}" "d \<in> {1..31}"
  shows "date_to_julian y m d = Some (julian_day y m d)"
proof -
  define q where "q = (m - 14) sdiv 12"
  have q: "- 13 \<le> q" "q \<le> 13" using abs_sdiv_le [of 12 "m - 14"] assms(3) by (auto simp: q_def)
  define A where "A = 1461 * (y + 4800 + q) sdiv 4"
  have A: "\<bar>A\<bar> \<le> \<bar>1461 * (y + 4800 + q)\<bar>" unfolding A_def by (rule abs_sdiv_le) simp
  define B where "B = 367 * (m - 2 - 12 * q) sdiv 12"
  have B: "\<bar>B\<bar> \<le> \<bar>367 * (m - 2 - 12 * q)\<bar>" unfolding B_def by (rule abs_sdiv_le) simp
  define E where "E = (y + 4900 + q) sdiv 100"
  have E: "\<bar>E\<bar> \<le> \<bar>y + 4900 + q\<bar>" unfolding E_def by (rule abs_sdiv_le) simp
  define F where "F = 3 * E sdiv 4"
  have F: "\<bar>F\<bar> \<le> \<bar>3 * E\<bar>" unfolding F_def by (rule abs_sdiv_le) simp
  have m: "1 \<le> m" "m \<le> 12" "1 \<le> d" "d \<le> 31" using assms(3,4) by simp_all
  have y: "y < 1048576" using assms(2) by simp
  have "1461 * (y + 4800 + q) \<le> 1600000000" "- 1600000000 \<le> 1461 * (y + 4800 + q)"
    "367 * (m - 2 - 12 * q) \<le> 100000" "- 100000 \<le> 367 * (m - 2 - 12 * q)"
    "y + 4900 + q \<le> 1100000" "- 1100000 \<le> y + 4900 + q"
    using assms(1) y q m unfolding distrib_left right_diff_distrib by linarith+
  then have "\<bar>1461 * (y + 4800 + q)\<bar> \<le> 1600000000" "\<bar>367 * (m - 2 - 12 * q)\<bar> \<le> 100000" "\<bar>y + 4900 + q\<bar> \<le> 1100000"
    by (simp_all only: abs_le_iff minus_le_iff)
  with A B E have A': "\<bar>A\<bar> \<le> 1600000000" and B': "\<bar>B\<bar> \<le> 100000" and E': "\<bar>E\<bar> \<le> 1100000" by simp_all
  have F': "\<bar>F\<bar> \<le> 3300000" using F E' by linarith
  note lo = A' [THEN abs_le_D1] B' [THEN abs_le_D1] F' [THEN abs_le_D1] A' [THEN abs_le_D2] B' [THEN abs_le_D2] F' [THEN abs_le_D2]
  have r: "c_int (m - 14) = Some (m - 14)" "c_int (y + 4800) = Some (y + 4800)"
    "c_int (y + 4800 + q) = Some (y + 4800 + q)" "c_int (1461 * (y + 4800 + q)) = Some (1461 * (y + 4800 + q))"
    "c_int (m - 2) = Some (m - 2)" "c_int (12 * q) = Some (12 * q)" "c_int (m - 2 - 12 * q) = Some (m - 2 - 12 * q)"
    "c_int (367 * (m - 2 - 12 * q)) = Some (367 * (m - 2 - 12 * q))" "c_int (y + 4900) = Some (y + 4900)"
    "c_int (y + 4900 + q) = Some (y + 4900 + q)" "c_int (3 * E) = Some (3 * E)"
    by (rule c_int_id; use assms(1) m y q E' in simp)+
  have s: "c_int (A + B) = Some (A + B)"
    "c_int (A + B - F) = Some (A + B - F)" "c_int (A + B - F + d) = Some (A + B - F + d)"
    "c_int (A + B - F + d - 32075) = Some (A + B - F + d - 32075)"
    by (rule c_int_id; use lo m in simp)+
  show ?thesis
    unfolding date_to_julian_def julian_day_def
    by (simp only: r s q_def [symmetric] A_def [symmetric] B_def [symmetric] E_def [symmetric] F_def [symmetric] Option.bind.bind_lunit)
qed

lemma date_of_day: "date_of tm = nth_day k \<Longrightarrow> tm_mday tm \<in> {1..31}"
  using nth_day_ok [of k] by (auto simp: date_of_def month_length_def split: if_splits dest: sym)

lemma julian_adj_eq:
  assumes D: "date_of tm = nth_day k" and k: "k < 2 ^ 28" and t: "valid_time tm"
    and off: "off_day \<in> {- (2 ^ 29)..2 ^ 29}" "\<bar>offset_sec\<bar> < 24856 * 86400"
  shows "julian_adj tm off_day offset_sec =
    Some (let total = 86400 * (int k + off_day) + second_of_day tm + offset_sec
     in if total div 86400 < 32044 then None else Some (total div 86400 - 32044, total mod 86400))"
proof -
  note b = date_of_bounds [OF D k]
  define q r where "q = offset_sec sdiv 86400" and "r = offset_sec smod 86400"
  have qr: "offset_sec = q * 86400 + r" unfolding q_def r_def by (rule sdiv_mult_smod_eq [symmetric])
  have r: "- 86400 < r" "r < 86400" using sdiv_bounds(1) [of 86400 offset_sec] unfolding r_def by linarith+
  have "\<bar>q\<bar> = \<bar>offset_sec\<bar> div 86400" unfolding q_def by (rule sdiv_bounds(2)) simp
  also have "\<dots> < 24856" using off(2) by (intro div_lt) simp_all
  finally have q: "- 24856 < q" "q < 24856" by (simp_all add: abs_less_iff)
  define s where "s = second_of_day tm"
  have s: "0 \<le> s" "s \<le> 86400" using t by (auto simp: s_def second_of_day_def valid_time_def)
  have hs: "tm_hour tm * 3600 + tm_min tm * 60 + tm_sec tm = s" by (simp add: s_def second_of_day_def)
  have tq: "to_int q = q" "to_int r = r" by (rule to_int_id; use q r in simp)+
  have od: "- (2 ^ 30) < q + off_day" "q + off_day < 2 ^ 30" using q off(1) by auto
  have ints: "c_int (q * 86400) = Some (q * 86400)" "c_int (q + off_day) = Some (q + off_day)"
    "c_int (q + off_day + 1) = Some (q + off_day + 1)" "c_int (q + off_day - 1) = Some (q + off_day - 1)"
    "c_int (r + s) = Some (r + s)" "c_int (r + s - 86400) = Some (r + s - 86400)" "c_int (r + s + 86400) = Some (r + s + 86400)"
    by (rule c_int_id; use q od r s in simp)+
  have fields: "c_int (tm_hour tm * 3600) = Some (tm_hour tm * 3600)" "c_int (tm_min tm * 60) = Some (tm_min tm * 60)"
    "c_int (tm_hour tm * 3600 + tm_min tm * 60) = Some (tm_hour tm * 3600 + tm_min tm * 60)" "c_int s = Some s"
    "c_int (tm_year tm + 1900) = Some (tm_year tm + 1900)" "c_int (tm_mon tm + 1) = Some (tm_mon tm + 1)"
    by (rule c_int_id; use t b s in \<open>simp add: valid_time_def\<close>)+
  have jd: "date_to_julian (tm_year tm + 1900) (tm_mon tm + 1) (tm_mday tm) = Some (int k - 32044)"
    using date_to_julian_exact [OF b(1,2) _ date_of_day [OF D]] b(3,4) by simp
  have spd: "SECS_PER_DAY = 86400" by (simp add: SECS_PER_DAY_def)
  have rest: "offset_sec - q * 86400 = r" using qr by simp
  define c :: int where "c = (if r + s \<ge> 86400 then 1 else if r + s < 0 then - 1 else 0)"
  have c: "0 \<le> r + s - 86400 * c" "r + s - 86400 * c < 86400" using r s by (auto simp: c_def)
  have adj: "(if 86400 \<le> r + s then Some (q + off_day + 1, r + s - 86400)
      else if r + s < 0 then Some (q + off_day - 1, r + s + 86400) else Some (q + off_day, r + s)) =
      Some (q + off_day + c, r + s - 86400 * c)"
    by (simp add: c_def)
  define total where "total = 86400 * (int k + off_day) + s + offset_sec"
  have tot: "total = 86400 * (int k + off_day + q + c) + (r + s - 86400 * c)"
    unfolding total_def qr by (simp add: algebra_simps)
  have dm: "total div 86400 = int k + off_day + q + c" "total mod 86400 = r + s - 86400 * c"
  proof -
    show "total div 86400 = int k + off_day + q + c" by (rule div_unique) (use tot c in linarith)+
    then show "total mod 86400 = r + s - 86400 * c" using tot by (simp add: minus_mult_div_eq_mod [symmetric])
  qed
  have "julian_adj tm off_day offset_sec =
      Some (if int k - 32044 + (q + off_day + c) < 0 then None else Some (int k - 32044 + (q + off_day + c), r + s - 86400 * c))"
    by (simp only: julian_adj_def Let_def spd q_def [symmetric] tq rest ints fields hs jd adj bind.bind_lunit prod.case)
  then show ?thesis
    unfolding s_def [symmetric] total_def [symmetric] Let_def dm by (auto simp: algebra_simps)
qed

text \<open>The product of the days by \<^verbatim>\<open>SECS_PER_DAY\<close> does not fit in an \<^verbatim>\<open>int\<close>.\<close>

lemma julian_adj_overflow:
  assumes "24856 * 86400 \<le> \<bar>offset_sec\<bar>" and "\<bar>offset_sec\<bar> \<le> 2 ^ 45"
  shows "julian_adj tm off_day offset_sec = None"
proof -
  define q where "q = offset_sec sdiv 86400"
  have "\<bar>q\<bar> = \<bar>offset_sec\<bar> div 86400" unfolding q_def by (rule sdiv_bounds(2)) simp
  moreover have "\<dots> \<le> 2 ^ 45 div 86400" "24856 * 86400 div 86400 \<le> \<bar>offset_sec\<bar> div 86400"
    using assms by (intro zdiv_mono1; simp)+
  ultimately have q: "24856 \<le> \<bar>q\<bar>" "\<bar>q\<bar> < 2 ^ 31" by simp_all
  then have "to_int q = q" by (intro to_int_id) linarith+
  moreover have "c_int (q * 86400) = None" using q(1) by (auto simp: c_int_def abs_if split: if_splits)
  ultimately show ?thesis by (simp add: julian_adj_def SECS_PER_DAY_def q_def [symmetric])
qed

lemma gmtime_adj_eq:
  assumes D: "date_of tm = nth_day k" and k: "k < 2 ^ 28" and t: "valid_time tm"
    and off: "off_day \<in> {- (2 ^ 29)..2 ^ 29}" "\<bar>offset_sec\<bar> < 24856 * 86400"
    and tot: "tot = 86400 * (int k + off_day) + second_of_day tm + offset_sec"
  shows "OPENSSL_gmtime_adj tm off_day offset_sec =
    Some (if 0 \<le> tot div 86400 \<and> fst (nth_day (nat (tot div 86400))) \<in> {1900..9999}
     then Some (time_on tm (nth_day (nat (tot div 86400))) (tot mod 86400)) else None)"
proof (cases "tot div 86400 < 32044")
  case True
  then have "julian_adj tm off_day offset_sec = Some None"
    using julian_adj_eq [OF D k t off, folded tot, unfolded Let_def] by simp
  then have "OPENSSL_gmtime_adj tm off_day offset_sec = Some None" by (simp add: OPENSSL_gmtime_adj_def)
  moreover have "\<not> (0 \<le> tot div 86400 \<and> fst (nth_day (nat (tot div 86400))) \<in> {1900..9999})"
  proof
    assume a: "0 \<le> tot div 86400 \<and> fst (nth_day (nat (tot div 86400))) \<in> {1900..9999}"
    obtain y m d where n: "nth_day (nat (tot div 86400)) = (y, m, d)" by (cases "nth_day (nat (tot div 86400))")
    show False using year_bound [OF n] a True n by simp
  qed
  ultimately show ?thesis by simp
next
  case False
  define n where "n = nat (tot div 86400)"
  have n: "tot div 86400 = int n" using False by (simp add: n_def)
  define S where "S = tot mod 86400"
  have S: "0 \<le> S" "S < 86400" by (simp_all add: S_def)
  have "tot div 86400 < 2 ^ 31"
  proof -
    have "int k < 2 ^ 28" using k by (metis of_nat_less_iff of_nat_numeral of_nat_power)
    moreover have "second_of_day tm \<le> 86400" using t by (auto simp: second_of_day_def valid_time_def)
    moreover have "offset_sec < 24856 * 86400" using off(2) by linarith
    ultimately have "tot < 86400 * 2 ^ 31" unfolding tot distrib_left using off(1) by simp
    then show ?thesis by (intro div_lt) simp_all
  qed
  then have "n < 2 ^ 31" unfolding n by (metis of_nat_less_iff of_nat_numeral of_nat_power)
  note j = julian_to_nth_day [OF this]
  have "julian_adj tm off_day offset_sec = Some (Some (int n - 32044, S))"
    using julian_adj_eq [OF D k t off, folded tot, unfolded Let_def] False by (simp add: n S_def)
  moreover have "S sdiv 3600 = S div 3600" "S sdiv 60 = S div 60" "S smod 60 = S mod 60" "(S div 60) smod 60 = S div 60 mod 60"
    using S by (simp_all add: sdiv_nonneg smod_nonneg pos_imp_zdiv_nonneg_iff)
  moreover obtain y m d where D': "nth_day n = (y, m, d)" by (cases "nth_day n")
  moreover have "m \<in> {1..12}" using nth_day_ok [of n] by (simp add: D')
  then have "c_int (m - 1) = Some (m - 1)" "1900 \<le> y \<Longrightarrow> y \<le> 9999 \<Longrightarrow> c_int (y - 1900) = Some (y - 1900)"
    by (auto intro!: c_int_id)
  ultimately show ?thesis
    unfolding n S_def [symmetric] by (simp add: OPENSSL_gmtime_adj_def j time_on_def)
qed

lemma gmtime_diff_eq:
  assumes D: "date_of tm = nth_day k" "k < 2 ^ 28" "valid_time tm"
    and D': "date_of tm' = nth_day k'" "k' < 2 ^ 28" "valid_time tm'"
    and jd: "32044 \<le> k" "32044 \<le> k'"
  obtains days secs where "OPENSSL_gmtime_diff tm tm' = Some (Some (days, secs))" and "\<bar>secs\<bar> < 86400" and "0 \<le> days * secs"
    and "86400 * days + secs = 86400 * int k' + second_of_day tm' - (86400 * int k + second_of_day tm)"
proof -
  define T T' where "T = 86400 * int k + second_of_day tm" and "T' = 86400 * int k' + second_of_day tm'"
  have s: "0 \<le> second_of_day tm" "second_of_day tm \<le> 86400" "0 \<le> second_of_day tm'" "second_of_day tm' \<le> 86400"
    using D(3) D'(3) by (auto simp: second_of_day_def valid_time_def)
  have ge: "32044 \<le> T div 86400" "32044 \<le> T' div 86400"
    using jd s zdiv_mono1 [of "86400 * 32044" T 86400] zdiv_mono1 [of "86400 * 32044" T' 86400] by (simp_all add: T_def T'_def)
  have le: "T div 86400 < 2 ^ 29" "T' div 86400 < 2 ^ 29"
  proof -
    have "int k < 2 ^ 28" "int k' < 2 ^ 28" using D(2) D'(2) by (metis of_nat_less_iff of_nat_numeral of_nat_power)+
    then show "T div 86400 < 2 ^ 29" "T' div 86400 < 2 ^ 29" using s unfolding T_def T'_def by (intro div_lt; simp)+
  qed
  define a b a' b' where "a = T div 86400" and "b = T mod 86400" and "a' = T' div 86400" and "b' = T' mod 86400"
  have T: "T = 86400 * a + b" "T' = 86400 * a' + b'" by (simp_all add: a_def b_def a'_def b'_def)
  have b: "0 \<le> b" "b < 86400" "0 \<le> b'" "b' < 86400" by (simp_all add: b_def b'_def)
  have adj: "julian_adj tm 0 0 = Some (Some (a - 32044, b))" "julian_adj tm' 0 0 = Some (Some (a' - 32044, b'))"
    using julian_adj_eq [OF D, of 0 0] julian_adj_eq [OF D', of 0 0] ge
    by (simp_all add: T_def [symmetric] T'_def [symmetric] Let_def a_def b_def a'_def b'_def)
  define days secs where "days = (if a' - a > 0 \<and> b' - b < 0 then a' - a - 1 else if a' - a < 0 \<and> b' - b > 0 then a' - a + 1 else a' - a)"
    and "secs = (if a' - a > 0 \<and> b' - b < 0 then b' - b + 86400 else if a' - a < 0 \<and> b' - b > 0 then b' - b - 86400 else b' - b)"
  have ab: "\<bar>a' - a\<bar> < 2 ^ 30" using ge le by (simp add: a_def a'_def)
  have ints: "c_int (b' - b) = Some (b' - b)" "c_int (b' - b + 86400) = Some (b' - b + 86400)" "c_int (b' - b - 86400) = Some (b' - b - 86400)"
    by (rule c_int_id; use b in simp)+
  have "OPENSSL_gmtime_diff tm tm' = Some (Some (days, secs))"
    using b ab by (auto simp: OPENSSL_gmtime_diff_def adj ints Let_def to_int_id SECS_PER_DAY_def days_def secs_def)
  moreover have "\<bar>secs\<bar> < 86400" using b by (auto simp: secs_def)
  moreover have "0 \<le> days * secs"
    using b by (auto simp: days_def secs_def zero_le_mult_iff)
  moreover have "86400 * days + secs = T' - T" unfolding T by (simp add: days_def secs_def algebra_simps)
  ultimately show ?thesis using that by (simp add: T_def T'_def)
qed

section \<open>Property\<close>

text \<open>
  C31: Time arithmetic is exact in the proleptic Gregorian calendar. Adding days and seconds to the
  time on the \<^verbatim>\<open>k\<close>-th day is without undefined behaviour exactly when the seconds are fewer than those
  of 24856 days in absolute value, and then it gives the time that many seconds later, or fails exactly
  when its year is outside 1900 to 9999. The difference of two times is their distance in seconds, split
  into days and seconds of the same sign. No other \<^verbatim>\<open>int\<close> operation overflows within the bounds stated.
\<close>

theorem gmtime_arithmetic_exact:
  assumes "date_of tm = nth_day k" and "k < 2 ^ 28" and "valid_time tm"
    and "off_day \<in> {- (2 ^ 29)..2 ^ 29}" and "offset_sec \<in> {- (2 ^ 45)..2 ^ 45}"
    and "tot = 86400 * (int k + off_day) + second_of_day tm + offset_sec" and "n = tot div 86400"
    and "date_of tm' = nth_day k'" and "k' < 2 ^ 28" and "valid_time tm'" and "32044 \<le> k" and "32044 \<le> k'"
  shows "OPENSSL_gmtime_adj tm off_day offset_sec =
      (if \<bar>offset_sec\<bar> < 24856 * 86400
       then Some (if 0 \<le> n \<and> fst (nth_day (nat n)) \<in> {1900..9999}
                  then Some (time_on tm (nth_day (nat n)) (tot mod 86400)) else None)
       else None) \<and>
    (\<exists>days secs. OPENSSL_gmtime_diff tm tm' = Some (Some (days, secs)) \<and> \<bar>secs\<bar> < 86400 \<and> 0 \<le> days * secs \<and>
      86400 * days + secs = 86400 * int k' + second_of_day tm' - (86400 * int k + second_of_day tm))"
proof
  have "OPENSSL_gmtime_adj tm off_day offset_sec = None" if "24856 * 86400 \<le> \<bar>offset_sec\<bar>"
  proof -
    have "\<bar>offset_sec\<bar> \<le> 2 ^ 45" using assms(5) by (simp add: abs_le_iff)
    then show ?thesis using julian_adj_overflow [OF that] by (simp add: OPENSSL_gmtime_adj_def)
  qed
  then show "OPENSSL_gmtime_adj tm off_day offset_sec =
      (if \<bar>offset_sec\<bar> < 24856 * 86400
       then Some (if 0 \<le> n \<and> fst (nth_day (nat n)) \<in> {1900..9999}
                  then Some (time_on tm (nth_day (nat n)) (tot mod 86400)) else None)
       else None)"
    unfolding assms(7) using gmtime_adj_eq [OF assms(1-4) _ assms(6)] by simp
  show "\<exists>days secs. OPENSSL_gmtime_diff tm tm' = Some (Some (days, secs)) \<and> \<bar>secs\<bar> < 86400 \<and> 0 \<le> days * secs \<and>
      86400 * days + secs = 86400 * int k' + second_of_day tm' - (86400 * int k + second_of_day tm)"
    by (rule gmtime_diff_eq [OF assms(1-3, 8-12)]) blast
qed

lemma nth_day_example: "nth_day 2483648 = (2000, 2, 29)" "nth_day 2483649 = (2000, 3, 1)"
proof -
  have "julian_to_date 2451604 = (2000, 2, 29)" "julian_to_date 2451605 = (2000, 3, 1)" by code_simp+
  then show "nth_day 2483648 = (2000, 2, 29)" "nth_day 2483649 = (2000, 3, 1)"
    using julian_to_nth_day [of 2483648] julian_to_nth_day [of 2483649] by simp_all
qed

text \<open>One day and three seconds after 2000-02-29 23:59:58, and back from 2000-03-01 00:00:01.\<close>

lemma gmtime_arithmetic_exact_witness:
  "OPENSSL_gmtime_adj \<lparr>tm_sec = 58, tm_min = 59, tm_hour = 23, tm_mday = 29, tm_mon = 1, tm_year = 100\<rparr> 0 3 =
      (if \<bar>3 :: int\<bar> < 24856 * 86400
       then Some (if 0 \<le> (2483649 :: int) \<and> fst (nth_day (nat 2483649)) \<in> {1900..9999}
                  then Some (time_on \<lparr>tm_sec = 58, tm_min = 59, tm_hour = 23, tm_mday = 29, tm_mon = 1, tm_year = 100\<rparr>
                    (nth_day (nat 2483649)) (214587273601 mod 86400)) else None)
       else None) \<and>
    (\<exists>days secs. OPENSSL_gmtime_diff
        \<lparr>tm_sec = 58, tm_min = 59, tm_hour = 23, tm_mday = 29, tm_mon = 1, tm_year = 100\<rparr>
        \<lparr>tm_sec = 1, tm_min = 0, tm_hour = 0, tm_mday = 1, tm_mon = 2, tm_year = 100\<rparr> = Some (Some (days, secs)) \<and>
      \<bar>secs\<bar> < 86400 \<and> 0 \<le> days * secs \<and>
      86400 * days + secs =
        86400 * int 2483649 + second_of_day \<lparr>tm_sec = 1, tm_min = 0, tm_hour = 0, tm_mday = 1, tm_mon = 2, tm_year = 100\<rparr> -
        (86400 * int 2483648 + second_of_day \<lparr>tm_sec = 58, tm_min = 59, tm_hour = 23, tm_mday = 29, tm_mon = 1, tm_year = 100\<rparr>))"
  by (rule gmtime_arithmetic_exact) (simp_all add: date_of_def nth_day_example valid_time_def second_of_day_def)

end
